(* ===== verification/Redis_Prelude.thy ===== *)
theory Redis_Prelude
  imports Main "HOL-Library.Word" "HOL-Library.Monad_Syntax"
begin

text \<open>
  Shared ground of the development.

  \<^item> Bytes, byte buffers and the C memory primitives the data structures use
    (\<open>memcpy\<close>, \<open>memmove\<close>, \<open>realloc\<close>, indexed loads and stores).  A primitive that is
    asked to touch a byte outside its buffer returns \<open>None\<close>: an operation that is proved to
    return \<open>Some\<close> is thereby proved free of out-of-bounds accesses.  What \<open>realloc\<close> leaves in
    freshly allocated space is a parameter \<open>junk\<close>, so no theorem depends on it.
  \<^item> Little-endian encodings of fixed-width integers and of sequences of them.
  \<^item> The named collections \<open>mem_simps\<close> and \<open>codec_simps\<close> used by the component theories.
\<close>

named_theorems mem_simps "evaluation of memory primitives that stay in bounds"
named_theorems codec_simps "decoding what was encoded"

section \<open>Bytes and buffers\<close>

type_synonym byte = "8 word"
type_synonym bytes = "byte list"

definition bytes_of_string :: "string \<Rightarrow> bytes" where
  "bytes_of_string s = map of_char s"

definition mem_read :: "bytes \<Rightarrow> nat \<Rightarrow> nat \<Rightarrow> bytes option" where
  "mem_read m off n = (if off + n \<le> length m then Some (take n (drop off m)) else None)"

definition mem_write :: "bytes \<Rightarrow> nat \<Rightarrow> bytes \<Rightarrow> bytes option" where
  "mem_write m off bs =
     (if off + length bs \<le> length m
      then Some (take off m @ bs @ drop (off + length bs) m) else None)"

definition mem_move :: "bytes \<Rightarrow> nat \<Rightarrow> nat \<Rightarrow> nat \<Rightarrow> bytes option" where
  "mem_move m dst src n = do { bs \<leftarrow> mem_read m src n; mem_write m dst bs }"

definition mem_realloc :: "(nat \<Rightarrow> byte) \<Rightarrow> nat \<Rightarrow> bytes \<Rightarrow> bytes" where
  "mem_realloc junk n m = take n m @ map junk [length m..<n]"

definition load :: "bytes \<Rightarrow> int \<Rightarrow> byte option" where
  "load m i = (if 0 \<le> i \<and> i < int (length m) then Some (m ! nat i) else None)"

definition store :: "bytes \<Rightarrow> int \<Rightarrow> byte \<Rightarrow> bytes option" where
  "store m i b = (if 0 \<le> i \<and> i < int (length m) then Some (m[nat i := b]) else None)"

lemma mem_read_append [mem_simps]:
  "length a = off \<Longrightarrow> length b = n \<Longrightarrow> mem_read (a @ b @ c) off n = Some b"
  by (simp add: mem_read_def)

lemma mem_write_append [mem_simps]:
  "length a = off \<Longrightarrow> length b = length bs \<Longrightarrow> mem_write (a @ b @ c) off bs = Some (a @ bs @ c)"
  by (simp add: mem_write_def)

lemma mem_read_length: "mem_read m off n = Some bs \<Longrightarrow> length bs = n"
  by (auto simp: mem_read_def split: if_splits)

lemma mem_write_length: "mem_write m off bs = Some m' \<Longrightarrow> length m' = length m"
  by (auto simp: mem_write_def split: if_splits)

lemma length_mem_realloc [simp]: "length (mem_realloc junk n m) = n"
  by (simp add: mem_realloc_def)

lemma mem_realloc_grow: "length m \<le> n \<Longrightarrow> mem_realloc junk n m = m @ map junk [length m..<n]"
  by (simp add: mem_realloc_def)

lemma mem_realloc_shrink: "n \<le> length m \<Longrightarrow> mem_realloc junk n m = take n m"
  by (simp add: mem_realloc_def)

lemma store_length: "store m i b = Some m' \<Longrightarrow> length m' = length m"
  by (auto simp: store_def split: if_splits)

lemma store_in: "i < length m \<Longrightarrow> store m (int i) b = Some (m[i := b])"
  by (simp add: store_def)

lemma upd_pair:
  assumes "2 \<le> k" "k \<le> length m"
  shows "m[k - Suc 0 := b, k - 2 := a] = take (k - 2) m @ [a, b] @ drop k m"
  using assms by (intro nth_equalityI) (auto simp: nth_append nth_Cons' nth_list_update)

lemma store_pair:
  assumes "2 \<le> k" "k \<le> length m"
  shows "store m (int k - 1) b \<bind> (\<lambda>m. store m (int k - 2) a) = Some (take (k - 2) m @ [a, b] @ drop k m)"
proof -
  have "store m (int k - 1) b = Some (m[k - Suc 0 := b])"
    using assms by (simp add: store_def nat_diff_distrib')
  moreover have "store (m[k - Suc 0 := b]) (int k - 2) a = Some (m[k - Suc 0 := b, k - 2 := a])"
    using assms by (simp add: store_def nat_diff_distrib')
  ultimately show ?thesis using upd_pair[OF assms] by simp
qed

section \<open>Machine words\<close>

lemma unat_ucast_up:
  fixes w :: "'a::len word"
  assumes "LENGTH('a) \<le> LENGTH('b::len)"
  shows "unat (ucast w :: 'b word) = unat w"
proof -
  have "unat w < 2 ^ LENGTH('b)"
    by (rule order_less_le_trans[OF unsigned_less]) (simp add: assms)
  then show ?thesis
    by (simp add: unsigned_ucast_eq take_bit_nat_eq_self)
qed

lemma sint_word_of_int_64: "- (2 ^ 63) \<le> k \<Longrightarrow> k < 2 ^ 63 \<Longrightarrow> sint (word_of_int k :: 64 word) = k"
  by (simp add: sint_sbintrunc' signed_take_bit_int_eq_self)

lemma sint_of_small: "unat (v :: 64 word) < 2 ^ 63 \<Longrightarrow> sint v = int (unat v)"
proof -
  assume a: "unat v < 2 ^ 63"
  have "int (unat v) < 2 ^ 63" using a by (metis of_nat_less_iff of_nat_numeral of_nat_power)
  then have "sint (word_of_int (int (unat v)) :: 64 word) = int (unat v)"
    by (intro sint_word_of_int_64) (use zero_le_power[of "2::int" 63] in linarith)+
  then show ?thesis by simp
qed

lemma sint_neg_small: "unat (v :: 64 word) \<le> 2 ^ 63 \<Longrightarrow> sint (- v) = - int (unat v)"
proof -
  assume a: "unat v \<le> 2 ^ 63"
  then have "int (unat v) \<le> 2 ^ 63" by (metis of_nat_le_iff of_nat_numeral of_nat_power)
  moreover have "0 \<le> int (unat v)" by simp
  ultimately have "- (2 ^ 63) \<le> - int (unat v)" "- int (unat v) < 2 ^ 63" using zero_less_power[of "2::int" 63] by linarith+
  then have "sint (word_of_int (- int (unat v)) :: 64 word) = - int (unat v)"
    by (rule sint_word_of_int_64)
  then show ?thesis by simp
qed

section \<open>Fixed-width little-endian integers\<close>

fun le_enc :: "nat \<Rightarrow> int \<Rightarrow> bytes" where
  "le_enc 0 v = []"
| "le_enc (Suc n) v = word_of_int v # le_enc n (v div 256)"

fun le_dec :: "bytes \<Rightarrow> int" where
  "le_dec [] = 0"
| "le_dec (b # bs) = uint b + 256 * le_dec bs"

definition to_signed :: "nat \<Rightarrow> int \<Rightarrow> int" where
  "to_signed n u = (if u < 2 ^ (8 * n - 1) then u else u - 2 ^ (8 * n))"

definition fits :: "nat \<Rightarrow> int \<Rightarrow> bool" where
  "fits n v \<longleftrightarrow> - (2 ^ (8 * n - 1)) \<le> v \<and> v < 2 ^ (8 * n - 1)"

lemma length_le_enc [simp]: "length (le_enc n v) = n"
  by (induction n arbitrary: v) auto

lemma le_dec_enc [codec_simps]: "le_dec (le_enc n v) = v mod 256 ^ n"
proof (induction n arbitrary: v)
  case 0
  then show ?case by simp
next
  case (Suc n)
  have "v mod 256 + 256 * ((v div 256) mod 256 ^ n) = v mod (256 * 256 ^ n)"
    by (metis add.commute zero_le_numeral zero_le_power zmod_zmult2_eq)
  with Suc show ?case by (simp add: uint_word_of_int)
qed

lemma pow256: "(256::int) ^ n = 2 ^ (8 * n)"
  by (simp add: power_mult)

lemma to_signed_mod:
  assumes "0 < n" "fits n v"
  shows "to_signed n (v mod 256 ^ n) = v"
proof -
  define h :: int where "h = 2 ^ (8 * n - 1)"
  have "8 * n = Suc (8 * n - 1)"
    using assms(1) by simp
  then have p: "(2::int) ^ (8 * n) = 2 * h"
    unfolding h_def by (metis power_Suc)
  have h: "0 < h" by (simp add: h_def)
  have v: "- h \<le> v" "v < h"
    using assms(2) by (simp_all add: fits_def h_def)
  have "v mod (2 * h) = (if 0 \<le> v then v else v + 2 * h)"
    using v h mod_pos_pos_trivial[of "v + 2 * h" "2 * h"] by simp
  then show ?thesis
    using v h unfolding to_signed_def pow256 p h_def[symmetric] by auto
qed

lemma to_signed_le_dec_enc [codec_simps]:
  "0 < n \<Longrightarrow> fits n v \<Longrightarrow> to_signed n (le_dec (le_enc n v)) = v"
  by (simp add: le_dec_enc to_signed_mod)

lemma fits_mono: "fits n v \<Longrightarrow> n \<le> m \<Longrightarrow> fits m v"
proof -
  assume "fits n v" "n \<le> m"
  moreover have "(2::int) ^ (8 * n - 1) \<le> 2 ^ (8 * m - 1)"
    using \<open>n \<le> m\<close> by (intro power_increasing) auto
  ultimately show ?thesis unfolding fits_def by linarith
qed

lemma le_enc_le_dec: "length bs = n \<Longrightarrow> le_enc n (le_dec bs + z * 256 ^ n) = bs"
proof (induction bs arbitrary: n)
  case (Cons b bs)
  then obtain m where n: "n = Suc m" "length bs = m" by auto
  define Y where "Y = le_dec bs + z * 256 ^ m"
  have E: "le_dec (b # bs) + z * 256 ^ Suc m = uint b + Y * 256"
    by (simp add: Y_def algebra_simps)
  have "uint b < 256" using uint_lt2p[of b] by simp
  then have D: "(uint b + Y * 256) div 256 = Y" by simp
  have "word_of_int (uint b + Y * 256) = (word_of_int (uint b) :: byte) + word_of_int Y * word_of_int 256"
    by simp
  also have "(word_of_int 256 :: byte) = 0" by simp
  finally have W: "word_of_int (uint b + Y * 256) = b" by simp
  show ?case unfolding n(1) E le_enc.simps W D using Cons.IH[OF n(2)] by (simp add: Y_def)
qed simp

lemma le_dec_range: "0 \<le> le_dec bs \<and> le_dec bs < 256 ^ length bs"
proof (induction bs)
  case (Cons b bs)
  have "uint b < 256" using uint_lt2p[of b] by simp
  with Cons show ?case by auto
qed simp

lemma to_signed_back:
  assumes "length bs = n" "0 < n"
  shows "le_enc n (to_signed n (le_dec bs)) = bs" "fits n (to_signed n (le_dec bs))"
proof -
  show "le_enc n (to_signed n (le_dec bs)) = bs"
    using le_enc_le_dec[OF assms(1), of 0] le_enc_le_dec[OF assms(1), of "-1"]
    by (simp add: to_signed_def pow256)
  have "(2::int) ^ (8 * n) = 2 * 2 ^ (8 * n - 1)"
    using assms(2) by (metis Suc_pred' mult_pos_pos power_Suc zero_less_numeral)
  then show "fits n (to_signed n (le_dec bs))"
    using le_dec_range[of bs] assms(1) unfolding to_signed_def fits_def pow256 by auto
qed

section \<open>Arrays of fixed-width cells\<close>

text \<open>
  A packed array of cells of width \<open>w\<close> is the concatenation of the cells.  The two lemmas below
  say that an indexed load or store on the packed bytes is the load or store on the list of cells.
\<close>

lemma length_concat_cells: "(\<And>v. length (f v) = w) \<Longrightarrow> length (concat (map f vs)) = length vs * w"
  by (induction vs) auto

lemma cells_split:
  "i < length vs \<Longrightarrow> concat (map f vs) =
     concat (map f (take i vs)) @ f (vs ! i) @ concat (map f (drop (Suc i) vs))"
  by (metis (no_types, lifting) append.assoc concat.simps(2) concat_append id_take_nth_drop
      list.simps(9) map_append)

lemma cells_read [mem_simps]:
  assumes "\<And>v. length (f v) = w" "i < length vs"
  shows "mem_read (concat (map f vs) @ t) (i * w) w = Some (f (vs ! i))"
  using mem_read_append[of "concat (map f (take i vs))" "i * w" "f (vs ! i)" w
      "concat (map f (drop (Suc i) vs)) @ t"] assms
  by (simp add: cells_split[OF assms(2), of f] length_concat_cells)

lemma cells_write [mem_simps]:
  assumes "\<And>v. length (f v) = w" "i < length vs"
  shows "mem_write (concat (map f vs) @ t) (i * w) (f v) = Some (concat (map f (vs[i := v])) @ t)"
proof -
  have "mem_write (concat (map f vs) @ t) (i * w) (f v) =
      Some (concat (map f (take i vs)) @ f v @ concat (map f (drop (Suc i) vs)) @ t)"
    using mem_write_append[of "concat (map f (take i vs))" "i * w" "f (vs ! i)" "f v"
        "concat (map f (drop (Suc i) vs)) @ t"] assms
    by (simp add: cells_split[OF assms(2), of f] length_concat_cells)
  then show ?thesis
    using assms(2) by (simp add: upd_conv_take_nth_drop)
qed

lemma mem_write_over:
  "take a X = A \<Longrightarrow> length X = a + length bs \<Longrightarrow> mem_write (X @ B) a bs = Some (A @ bs @ B)"
  by (auto simp: mem_write_def)

lemma mem_move_up:
  assumes "length A = a" "length J = e"
  shows "mem_move (A @ B @ J) (a + e) a (length B) = Some (take (a + e) (A @ B @ J) @ B)"
  using assms by (simp add: mem_move_def mem_read_def mem_write_def)

lemma mem_move_down:
  assumes "length A = a" "length c = e"
  shows "mem_move (A @ c @ B) a (a + e) (length B) = Some (A @ B @ drop (length B) (c @ B))"
  using assms by (simp add: mem_move_def mem_read_def mem_write_def)

lemma cells_of_bytes:
  "length m = n * w \<Longrightarrow> concat (map (\<lambda>i. take w (drop (i * w) m)) [0..<n]) = m"
proof (induction n arbitrary: m)
  case (Suc n)
  have "concat (map (\<lambda>i. take w (drop (i * w) m)) [0..<n]) = concat (map (\<lambda>i. take w (drop (i * w) (take (n * w) m))) [0..<n])"
  proof (intro arg_cong[where f = concat] map_cong refl)
    fix i assume "i \<in> set [0..<n]"
    then have "(i + 1) * w \<le> n * w" by (intro mult_le_mono1) simp
    then show "take w (drop (i * w) m) = take w (drop (i * w) (take (n * w) m))"
      by (simp add: drop_take min_def)
  qed
  also have "\<dots> = take (n * w) m" using Suc by simp
  finally show ?case using Suc.prems by (simp add: min_def)
qed simp

end
