(* ===== verification/Redis_Util.thy ===== *)
theory Redis_Util
  imports Redis_Prelude
begin

text \<open>
  \<open>util.c\<close>: conversion between 64-bit integers and their decimal text (\<open>digits10\<close>,
  \<open>ll2string\<close>, \<open>string2ll\<close>, \<open>string2l\<close>).  A \<open>long long\<close> is a 64-bit word read with
  \<^const>\<open>sint\<close>; an \<open>unsigned long long\<close> is the same word read with \<^const>\<open>unat\<close>.  The C buffer that
  \<open>ll2string\<close> fills is a byte list, and a store outside it is \<open>None\<close>.

  The reference is \<open>int_repr\<close>, the canonical decimal text of an integer.  The theorems at the end
  say that \<open>ll2string\<close> writes exactly that text and that \<open>string2ll\<close> accepts exactly the canonical
  texts of the integers that fit in 64 bits.
\<close>

section \<open>Canonical decimal text\<close>

fun dec_repr :: "nat \<Rightarrow> bytes" where
  "dec_repr n = (if n < 10 then [48 + of_nat n] else dec_repr (n div 10) @ [48 + of_nat (n mod 10)])"

declare dec_repr.simps [simp del]

definition int_repr :: "int \<Rightarrow> bytes" where
  "int_repr i = (if i < 0 then 45 # dec_repr (nat (- i)) else dec_repr (nat i))"

text \<open>Auxiliary notions of the proofs: digits, the value of a digit string, the magnitude.\<close>

definition is_digit :: "byte \<Rightarrow> bool" where
  "is_digit c \<longleftrightarrow> 48 \<le> c \<and> c \<le> 57"

definition dec_fold :: "nat \<Rightarrow> bytes \<Rightarrow> nat" where
  "dec_fold a cs = foldl (\<lambda>a c. 10 * a + unat (c - 48)) a cs"

definition ll_magnitude :: "64 word \<Rightarrow> 64 word" where
  "ll_magnitude v = (if sint v < 0 then - v else v)"

section \<open>The code\<close>

function digits10 :: "64 word \<Rightarrow> nat" where
  "digits10 v =
     (if v < 10 then 1 else if v < 100 then 2 else if v < 1000 then 3
      else if v < 1000000000000 then
        (if v < 100000000 then
           (if v < 1000000 then (if v < 10000 then 4 else 5 + (if v \<ge> 100000 then 1 else 0))
            else 7 + (if v \<ge> 10000000 then 1 else 0))
         else if v < 10000000000 then 9 + (if v \<ge> 1000000000 then 1 else 0)
         else 11 + (if v \<ge> 100000000000 then 1 else 0))
      else 12 + digits10 (v div 1000000000000))"
  by pat_completeness auto
termination
proof (relation "measure unat")
  fix v :: "64 word"
  assume "\<not> v < 1000"
  then have "1000 \<le> unat v"
    by (simp add: word_less_nat_alt)
  then show "(v div 1000000000000, v) \<in> measure unat"
    by (simp add: unat_div)
qed auto

declare digits10.simps [simp del]

definition digits_tab :: bytes where
  "digits_tab = bytes_of_string
     (''0001020304050607080910111213141516171819'' @
      ''2021222324252627282930313233343536373839'' @
      ''4041424344454647484950515253545556575859'' @
      ''6061626364656667686970717273747576777879'' @
      ''8081828384858687888990919293949596979899'')"

function ll2string_loop :: "bytes \<Rightarrow> int \<Rightarrow> 64 word \<Rightarrow> (bytes \<times> int \<times> 64 word) option" where
  "ll2string_loop dst nxt v =
     (if v \<ge> 100 then do {
        let i = 2 * unat (v mod 100);
        dst \<leftarrow> store dst nxt (digits_tab ! (i + 1));
        dst \<leftarrow> store dst (nxt - 1) (digits_tab ! i);
        ll2string_loop dst (nxt - 2) (v div 100)
      } else Some (dst, nxt, v))"
  by pat_completeness auto
termination
proof (relation "measure (\<lambda>(dst, nxt, v). unat v)")
  fix v :: "64 word" and dst dst' dst'' :: bytes and nxt :: int
  assume "v \<ge> 100"
  then have "100 \<le> unat v"
    by (simp add: word_le_nat_alt)
  then show "((dst'', nxt - 2, v div 100), (dst, nxt, v)) \<in> measure (\<lambda>(dst, nxt, v). unat v)"
    by (simp add: unat_div)
qed auto

declare ll2string_loop.simps [simp del]

definition ll2string_last :: "bytes \<Rightarrow> int \<Rightarrow> 64 word \<Rightarrow> bytes option" where
  "ll2string_last dst nxt v =
     (if v < 10 then store dst nxt (48 + ucast v)
      else do {
        dst \<leftarrow> store dst nxt (digits_tab ! (2 * unat v + 1));
        store dst (nxt - 1) (digits_tab ! (2 * unat v))
      })"

definition ll2string :: "bytes \<Rightarrow> nat \<Rightarrow> 64 word \<Rightarrow> (nat \<times> bytes) option" where
  "ll2string dst dstlen svalue = (
     let negative = sint svalue < 0;
         value = (if negative
                  then (if sint svalue \<noteq> - (2 ^ 63) then - svalue else (2 ^ 63 - 1) + 1)
                  else svalue);
         len = digits10 value + (if negative then 1 else 0)
     in if len \<ge> dstlen then Some (0, dst)
        else do {
          dst \<leftarrow> store dst (int len) 0;
          (dst, nxt, v) \<leftarrow> ll2string_loop dst (int len - 1) value;
          dst \<leftarrow> ll2string_last dst nxt v;
          dst \<leftarrow> (if negative then store dst 0 45 else Some dst);
          Some (len, dst)
        })"

text \<open>
  The digit loop of \<open>string2ll\<close>: the bytes left to read are the list, so \<open>plen < slen\<close> is the list
  being non-empty.  \<open>None\<close> is \<open>return 0\<close>; leaving the loop returns \<open>v\<close> and what is left.
\<close>

fun string2ll_loop :: "64 word \<Rightarrow> bytes \<Rightarrow> (64 word \<times> bytes) option" where
  "string2ll_loop v [] = Some (v, [])"
| "string2ll_loop v (c # cs) =
     (if 48 \<le> c \<and> c \<le> 57 then
        (if v > (- 1) div 10 then None
         else let v10 = v * 10 in
              if v10 > - 1 - ucast (c - 48) then None
              else string2ll_loop (v10 + ucast (c - 48)) cs)
      else Some (v, c # cs))"

definition string2ll :: "bytes \<Rightarrow> 64 word option" where
  "string2ll s = (
     if s = [] then None
     else if length s = 1 \<and> hd s = 48 then Some 0
     else
       let negative = (hd s = 45);
           p = (if negative then tl s else s)
       in if p = [] then None
          else if 49 \<le> hd p \<and> hd p \<le> 57 then
            (case string2ll_loop (ucast (hd p - 48)) (tl p) of
               None \<Rightarrow> None
             | Some (v, rest) \<Rightarrow>
                 if rest \<noteq> [] then None
                 else if negative then (if v > (2 ^ 63 - 1) + 1 then None else Some (- v))
                 else (if v > 2 ^ 63 - 1 then None else Some v))
          else if hd p = 48 \<and> length s = 1 then Some 0
          else None)"

definition string2l :: "bytes \<Rightarrow> 64 word option" where
  "string2l s = (case string2ll s of
      None \<Rightarrow> None
    | Some llval \<Rightarrow>
        if sint llval < - (2 ^ 63) \<or> sint llval > 2 ^ 63 - 1 then None else Some llval)"

section \<open>Decimal text of natural numbers\<close>


lemma digit_val: "is_digit c \<Longrightarrow> unat (c - 48) < 10"
  by (simp add: is_digit_def) unat_arith

lemma digit_back: "is_digit c \<Longrightarrow> 48 + of_nat (unat (c - 48)) = c"
  by simp

lemma digit_of_nat: "k < 10 \<Longrightarrow> is_digit (48 + of_nat k) \<and> unat ((48 + of_nat k :: byte) - 48) = k"
proof -
  assume "k < 10"
  then have k: "unat (of_nat k :: byte) = k" by (simp add: unat_of_nat)
  then have "unat (48 + of_nat k :: byte) = 48 + k"
    using \<open>k < 10\<close> by (simp add: unat_word_ariths)
  with k \<open>k < 10\<close> show ?thesis by (simp add: is_digit_def word_le_nat_alt)
qed

lemma dec_fold_ge: "a \<le> dec_fold a cs"
proof (induction cs arbitrary: a)
  case (Cons c cs)
  have "a \<le> 10 * a + unat (c - 48)" by simp
  also have "\<dots> \<le> dec_fold (10 * a + unat (c - 48)) cs" by (rule Cons)
  finally show ?case by (simp add: dec_fold_def)
qed (simp add: dec_fold_def)

lemma dec_fold_simps [simp]:
  "dec_fold a [] = a"
  "dec_fold a (c # cs) = dec_fold (10 * a + unat (c - 48)) cs"
  "dec_fold a (cs @ [c]) = 10 * dec_fold a cs + unat (c - 48)"
  by (simp_all add: dec_fold_def)

lemma dec_repr_dec_fold:
  "ds \<noteq> [] \<Longrightarrow> list_all is_digit ds \<Longrightarrow> hd ds \<noteq> 48 \<Longrightarrow> dec_repr (dec_fold 0 ds) = ds \<and> 0 < dec_fold 0 ds"
proof (induction ds rule: rev_induct)
  case (snoc c ds)
  have k: "unat (c - 48) < 10" and d: "is_digit c" using snoc.prems digit_val by auto
  show ?case
  proof (cases "ds = []")
    case True
    have "c - 48 \<noteq> 0" using snoc.prems True by simp
    then have "0 < unat (c - 48)" by (simp add: unat_gt_0)
    with True k show ?thesis
      by (simp add: dec_repr.simps)
  next
    case False
    with snoc have IH: "dec_repr (dec_fold 0 ds) = ds" "0 < dec_fold 0 ds" by auto
    with k show ?thesis
      by (subst dec_repr.simps) auto
  qed
qed simp

lemma dec_repr_props:
  "list_all is_digit (dec_repr n) \<and> dec_fold 0 (dec_repr n) = n \<and> dec_repr n \<noteq> [] \<and>
   (0 < n \<longrightarrow> hd (dec_repr n) \<noteq> 48)"
proof (induction n rule: dec_repr.induct)
  case (1 n)
  show ?case
  proof (cases "n < 10")
    case True
    then have "0 < n \<Longrightarrow> (48 + of_nat n :: byte) \<noteq> 48"
      using digit_of_nat[OF True] by (metis add_diff_cancel_left' diff_self unat_0 less_irrefl)
    with True digit_of_nat[OF True] show ?thesis
      by (subst (1 2 3 4) dec_repr.simps) simp
  next
    case False
    then have "0 < n div 10" by simp
    with 1[OF False] False digit_of_nat[of "n mod 10"] show ?thesis
      by (subst (1 2 3 4) dec_repr.simps) (auto simp: hd_append)
  qed
qed

lemma string2ll_loop_iff:
  "string2ll_loop v cs = Some (v', []) \<longleftrightarrow>
     list_all is_digit cs \<and> dec_fold (unat v) cs < 2 ^ 64 \<and> unat v' = dec_fold (unat v) cs"
proof (induction cs arbitrary: v)
  case Nil
  then show ?case using unsigned_less[of v] by (auto simp: word_unat_eq_iff)
next
  case (Cons c cs)
  show ?case
  proof (cases "is_digit c")
    case False
    then show ?thesis by (auto simp: is_digit_def)
  next
    case True
    let ?d = "unat (c - 48)"
    have d: "?d < 10" using True by (rule digit_val)
    have ud: "unat (ucast (c - 48) :: 64 word) = ?d"
      by (rule unat_ucast_up) simp
    have g1: "(v > (- 1) div 10) \<longleftrightarrow> unat v > 1844674407370955161"
      by (simp add: word_less_nat_alt unat_div)
    show ?thesis
    proof (cases "v > (- 1) div 10")
      case True
      then have "2 ^ 64 \<le> 10 * unat v + ?d" using g1 by simp
      then have "\<not> dec_fold (10 * unat v + ?d) cs < 2 ^ 64"
        using dec_fold_ge[of "10 * unat v + ?d" cs] by linarith
      with True \<open>is_digit c\<close> show ?thesis by (simp add: is_digit_def)
    next
      case False
      then have v10: "unat (v * 10) = unat v * 10"
        using g1 by (simp add: unat_word_ariths)
      have le: "unat (- 1 - ucast (c - 48) :: 64 word) = 2 ^ 64 - 1 - ?d"
        using d ud by (subst unat_sub) (auto simp: word_le_nat_alt unsigned_minus_1_eq_mask mask_eq_exp_minus_1)
      have g2: "(v * 10 > - 1 - ucast (c - 48)) \<longleftrightarrow> unat v * 10 + ?d \<ge> 2 ^ 64"
        using d unfolding word_less_nat_alt le v10 by auto
      show ?thesis
      proof (cases "v * 10 > - 1 - ucast (c - 48)")
        case True
        then have "2 ^ 64 \<le> 10 * unat v + ?d" using g2 by simp
        then have "\<not> dec_fold (10 * unat v + ?d) cs < 2 ^ 64"
          using dec_fold_ge[of "10 * unat v + ?d" cs] by linarith
        with True \<open>\<not> v > (- 1) div 10\<close> \<open>is_digit c\<close> show ?thesis by (simp add: is_digit_def Let_def)
      next
        case F2: False
        then have "unat (v * 10 + ucast (c - 48)) = 10 * unat v + ?d"
          using g2 v10 ud by (simp add: unat_word_ariths)
        then show ?thesis
          using Cons[of "v * 10 + ucast (c - 48)"] False F2 \<open>is_digit c\<close>
          by (simp add: is_digit_def Let_def)
      qed
    qed
  qed
qed

lemma string2ll_loop_dec_repr:
  assumes "0 < n" "n < 2 ^ 64"
  defines "p \<equiv> dec_repr n"
  shows "string2ll_loop (ucast (hd p - 48)) (tl p) = Some (of_nat n, [])"
    and "p \<noteq> []" "49 \<le> hd p" "hd p \<le> 57"
proof -
  have p: "list_all is_digit p" "dec_fold 0 p = n" "p \<noteq> []" "hd p \<noteq> 48"
    using dec_repr_props[of n] assms by auto
  then have d: "is_digit (hd p)" by (cases p) auto
  have "unat (ucast (hd p - 48) :: 64 word) = unat (hd p - 48)"
    by (rule unat_ucast_up) simp
  with p d assms(2) show "string2ll_loop (ucast (hd p - 48)) (tl p) = Some (of_nat n, [])"
    by (cases p) (simp_all add: string2ll_loop_iff unat_of_nat)
  have "unat (hd p) \<noteq> 48" using p(4) by (simp add: word_unat_eq_iff)
  then show "49 \<le> hd p" "hd p \<le> 57"
    using d by (auto simp: is_digit_def word_le_nat_alt)
qed (use dec_repr_props[of n] p_def in simp)

lemma string2ll_iff: "string2ll s = Some v \<longleftrightarrow> s = int_repr (sint v)"
proof
  assume a: "string2ll s = Some v"
  show "s = int_repr (sint v)"
  proof (cases "s = [48]")
    case True
    with a show ?thesis by (simp add: string2ll_def int_repr_def dec_repr.simps)
  next
    case False
    define p where "p = (if hd s = 45 then tl s else s)"
    from a False obtain w where s: "s \<noteq> []" "p \<noteq> []" "49 \<le> hd p" "hd p \<le> 57"
      and lp: "string2ll_loop (ucast (hd p - 48)) (tl p) = Some (w, [])"
      and v: "if hd s = 45 then w \<le> 9223372036854775808 \<and> v = - w
              else w \<le> 9223372036854775807 \<and> v = w"
      by (cases s) (auto simp: string2ll_def p_def Let_def split: if_splits option.splits prod.splits)
    have hd: "is_digit (hd p)" "hd p \<noteq> 48"
      using s by (auto simp: is_digit_def word_le_nat_alt)
    have "unat (ucast (hd p - 48) :: 64 word) = unat (hd p - 48)"
      by (rule unat_ucast_up) simp
    then have w: "list_all is_digit p" "unat w = dec_fold 0 p"
      using lp hd \<open>p \<noteq> []\<close> by (cases p; simp add: string2ll_loop_iff)+
    then have r: "dec_repr (unat w) = p" "0 < unat w"
      using dec_repr_dec_fold[OF \<open>p \<noteq> []\<close> w(1) hd(2)] by simp_all
    have "0 < uint w"
      using r(2) by (simp flip: of_nat_0_less_iff[where 'a = int])
    show ?thesis
    proof (cases "hd s = 45")
      case True
      with v have "unat w \<le> 2 ^ 63" "v = - w" by (simp_all add: word_le_nat_alt)
      then have "sint v = - int (unat w)" using sint_neg_small by simp
      with r True s \<open>0 < uint w\<close> show ?thesis by (cases s) (simp_all add: int_repr_def p_def)
    next
      case False
      with v have "unat w < 2 ^ 63" "v = w" by (simp_all add: word_le_nat_alt)
      then have "sint v = int (unat w)" using sint_of_small by simp
      with r False s show ?thesis by (simp add: int_repr_def p_def)
    qed
  qed
next
  assume s: "s = int_repr (sint v)"
  consider "sint v = 0" | "0 < sint v" | "sint v < 0" by linarith
  then show "string2ll s = Some v"
  proof cases
    case 1
    have "word_of_int (sint v) = v" by simp
    with 1 have "v = 0" by (simp only: of_int_0)
    with s 1 show ?thesis by (simp add: int_repr_def dec_repr.simps string2ll_def)
  next
    case 2
    define n where "n = nat (sint v)"
    have r: "sint v < 2 ^ 63" using sint_lt[of v] by simp
    have n: "0 < n" "n < 2 ^ 64" "n \<le> 2 ^ 63 - 1" "s = dec_repr n" "of_nat n = v"
      using 2 r s by (auto simp: n_def int_repr_def)
    have "(of_nat n :: 64 word) \<le> 2 ^ 63 - 1"
      using n(2,3) by (simp add: word_le_nat_alt unat_of_nat)
    with string2ll_loop_dec_repr[OF n(1,2)] n show ?thesis
      by (auto simp: string2ll_def Let_def linorder_not_le)
  next
    case 3
    define n where "n = nat (- sint v)"
    have r: "- (2 ^ 63) \<le> sint v" using sint_ge[of v] by simp
    have n: "0 < n" "n < 2 ^ 64" "n \<le> 2 ^ 63" "s = 45 # dec_repr n" "of_nat n = - v"
      using 3 r s by (auto simp: n_def int_repr_def)
    have "(of_nat n :: 64 word) \<le> 2 ^ 63"
      using n(2,3) by (simp add: word_le_nat_alt unat_of_nat)
    with string2ll_loop_dec_repr[OF n(1,2)] n show ?thesis
      by (auto simp: string2ll_def Let_def linorder_not_le)
  qed
qed

section \<open>Writing\<close>


lemma length_dec_repr_div: "10 ^ k \<le> n \<Longrightarrow> length (dec_repr n) = k + length (dec_repr (n div 10 ^ k))"
proof (induction k arbitrary: n)
  case (Suc k)
  then have "10 \<le> n" by (metis le_trans power_Suc one_le_numeral one_le_power nat_mult_le_cancel_disj mult.right_neutral)
  moreover have "10 ^ k \<le> n div 10" using Suc.prems by (simp add: div_le_mono less_eq_div_iff_mult_less_eq mult.commute)
  ultimately show ?case
    using Suc.IH[of "n div 10"] by (subst dec_repr.simps) (simp add: div_mult2_eq)
qed simp

lemma length_dec_repr_exact: "10 ^ k \<le> n \<Longrightarrow> n < 10 ^ Suc k \<Longrightarrow> length (dec_repr n) = Suc k"
proof -
  assume a: "10 ^ k \<le> n" "n < 10 ^ Suc k"
  then have "n div 10 ^ k < 10" by (simp add: less_mult_imp_div_less mult.commute)
  with length_dec_repr_div[OF a(1)] show ?thesis by (simp add: dec_repr.simps[of "n div 10 ^ k"])
qed

lemma digits10_length: "digits10 v = length (dec_repr (unat v))"
proof (induction v rule: digits10.induct)
  case (1 v)
  show ?case
  proof (cases "v < 1000000000000")
    case True
    note e = length_dec_repr_exact[of _ "unat v"]
    show ?thesis
      using True e[of 1] e[of 2] e[of 3] e[of 4] e[of 5] e[of 6] e[of 7] e[of 8] e[of 9] e[of 10] e[of 11]
      by (subst digits10.simps) (simp add: word_less_nat_alt word_le_nat_alt dec_repr.simps[of "unat v"])
  next
    case False
    then have "10 ^ 12 \<le> unat v" by (simp add: word_less_nat_alt)
    from length_dec_repr_div[OF this] False "1.IH" show ?thesis
      by (subst digits10.simps) (simp add: word_less_nat_alt unat_div)
  qed
qed


lemma digits_tab_eq: "digits_tab = concat (map (\<lambda>i. [48 + of_nat (i div 10), 48 + of_nat (i mod 10)]) [0..<100])"
  by (simp add: digits_tab_def bytes_of_string_def upt_conv_Cons)

lemma concat_pairs_nth:
  "i < length xs \<Longrightarrow> concat (map (\<lambda>i. [f i, g i]) xs) ! (2 * i) = f (xs ! i) \<and>
    concat (map (\<lambda>i. [f i, g i]) xs) ! Suc (2 * i) = g (xs ! i)"
proof (induction xs arbitrary: i)
  case (Cons x xs)
  then show ?case by (cases i) auto
qed simp

lemma digits_tab_nth:
  assumes "i < 100"
  shows "digits_tab ! (2 * i) = 48 + of_nat (i div 10)"
    and "digits_tab ! Suc (2 * i) = 48 + of_nat (i mod 10)"
  using assms concat_pairs_nth[of i "[0..<100]" "\<lambda>i. 48 + of_nat (i div 10) :: byte" "\<lambda>i. 48 + of_nat (i mod 10)"]
  by (simp_all add: digits_tab_eq del: upt_Suc)

lemma dec_repr_100:
  "100 \<le> n \<Longrightarrow> dec_repr n = dec_repr (n div 100) @
     [48 + of_nat ((n mod 100) div 10), 48 + of_nat ((n mod 100) mod 10)]"
proof -
  assume "100 \<le> n"
  moreover have m: "n mod 100 = 10 * (n div 10 mod 10) + n mod 10"
    using mod_mult2_eq[of n 10 10] by simp
  moreover have "n div 10 mod 10 = n mod 100 div 10" "n mod 10 = n mod 100 mod 10"
    unfolding m by simp_all
  ultimately show ?thesis
    by (simp add: dec_repr.simps[of n] dec_repr.simps[of "n div 10"] div_mult2_eq[symmetric] div_less_iff_less_mult)
qed

lemma dec_repr_small: "10 \<le> n \<Longrightarrow> n < 100 \<Longrightarrow> dec_repr n = [48 + of_nat (n div 10), 48 + of_nat (n mod 10)]"
  by (simp add: dec_repr.simps[of n] dec_repr.simps[of "n div 10"] less_mult_imp_div_less)

lemma ll2string_last_spec:
  assumes "v < 100" "length (dec_repr (unat v)) \<le> k" "k \<le> length dst"
  shows "ll2string_last dst (int k - 1) v =
    Some (take (k - length (dec_repr (unat v))) dst @ dec_repr (unat v) @ drop k dst)"
proof (cases "v < 10")
  case True
  then have r: "dec_repr (unat v) = [48 + ucast v]"
    by (simp add: dec_repr.simps word_less_nat_alt)
  then have k: "0 < k" "int k - 1 = int (k - 1)" "k - 1 < length dst" "Suc (k - Suc 0) = k" using assms by auto
  then show ?thesis
    using True r by (simp add: ll2string_last_def k(2-4) store_in upd_conv_take_nth_drop del: of_nat_diff)
next
  case False
  then have u: "10 \<le> unat v" "unat v < 100" using assms(1) by (simp_all add: word_less_nat_alt)
  note r = dec_repr_small[OF u]
  have "2 \<le> k" "k \<le> length dst" using assms r by auto
  from store_pair[OF this] show ?thesis
    using False r u by (simp add: ll2string_last_def digits_tab_nth) (simp add: numeral_2_eq_2)
qed

lemma ll2string_loop_step:
  assumes "100 \<le> unat v" "2 \<le> k" "k \<le> length dst"
  shows "ll2string_loop dst (int k - 1) v =
    ll2string_loop (take (k - 2) dst @ [48 + of_nat (unat v mod 100 div 10), 48 + of_nat (unat v mod 100 mod 10)]
      @ drop k dst) (int (k - 2) - 1) (v div 100)"
proof -
  have "int k - 1 - 1 = int k - 2" "int k - 1 - 2 = int (k - 2) - 1" using assms by simp_all
  moreover have "100 \<le> v" using assms(1) by (simp add: word_le_nat_alt)
  ultimately show ?thesis
    using assms store_pair[OF assms(2,3)]
    by (subst ll2string_loop.simps)
      (simp add: Let_def unat_mod digits_tab_nth bind_assoc[symmetric] del: of_nat_diff)
qed

lemma ll2string_loop_spec:
  assumes "length (dec_repr (unat v)) \<le> k" "k \<le> length dst"
  shows "do { (dst, nxt, v) \<leftarrow> ll2string_loop dst (int k - 1) v; ll2string_last dst nxt v } =
    Some (take (k - length (dec_repr (unat v))) dst @ dec_repr (unat v) @ drop k dst)"
  using assms
proof (induction "unat v" arbitrary: v k dst rule: less_induct)
  case less
  show ?case
  proof (cases "v < 100")
    case True
    then have "\<not> 100 \<le> v" by simp
    with True less.prems show ?thesis
      by (subst ll2string_loop.simps) (simp add: ll2string_last_spec)
  next
    case False
    then have u: "100 \<le> unat v" by (simp add: word_less_nat_alt)
    note r = dec_repr_100[OF u]
    have k: "2 \<le> k" "k \<le> length dst" using less.prems r by auto
    have d: "unat (v div 100) = unat v div 100" by (simp add: unat_div)
    let ?p = "[48 + of_nat (unat v mod 100 div 10), 48 + of_nat (unat v mod 100 mod 10)]"
    let ?dst = "take (k - 2) dst @ ?p @ drop k dst"
    have "length (dec_repr (unat (v div 100))) \<le> k - 2" "unat (v div 100) < unat v" "k - 2 \<le> length ?dst"
      using less.prems r d u k by auto
    then have "do { (dst, nxt, v) \<leftarrow> ll2string_loop ?dst (int (k - 2) - 1) (v div 100); ll2string_last dst nxt v } =
      Some (take (k - 2 - length (dec_repr (unat (v div 100)))) ?dst @ dec_repr (unat (v div 100)) @ drop (k - 2) ?dst)"
      by (intro less.hyps)
    then show ?thesis
      unfolding ll2string_loop_step[OF u k] using k r by (simp add: d)
  qed
qed


lemma ll_magnitude: "unat (ll_magnitude v) = nat \<bar>sint v\<bar>"
proof (cases "sint v < 0")
  case True
  have r: "- (2 ^ 63) \<le> sint v" using sint_ge[of v] by simp
  have "- v = word_of_int (- sint v)" by simp
  also have "unat (word_of_int (- sint v) :: 64 word) = nat (- sint v)"
    using r True by (subst unsigned_of_int) (simp add: take_bit_int_eq_self)
  finally show ?thesis using True by (simp add: ll_magnitude_def)
next
  case False
  have r: "sint v < 2 ^ 63" using sint_lt[of v] by simp
  have "v = word_of_int (sint v)" by simp
  also have "unat (word_of_int (sint v) :: 64 word) = nat (sint v)"
    using r False by (subst unsigned_of_int) (simp add: take_bit_int_eq_self)
  finally show ?thesis using False by (simp add: ll_magnitude_def)
qed

lemma int_repr_split: "int_repr i = (if i < 0 then [45] else []) @ dec_repr (nat \<bar>i\<bar>)"
  by (simp add: int_repr_def)

lemma ll2string_value:
  "(if sint v < 0 then (if sint v \<noteq> - (2 ^ 63) then - v else (2 ^ 63 - 1) + 1) else v) = ll_magnitude v"
proof -
  have "sint v = - (2 ^ 63) \<Longrightarrow> - v = 2 ^ 63"
  proof -
    assume "sint v = - (2 ^ 63)"
    then have "word_of_int (sint v) = (word_of_int (- (2 ^ 63)) :: 64 word)" by simp
    then show "- v = 2 ^ 63" by simp
  qed
  then show ?thesis by (auto simp: ll_magnitude_def)
qed

lemma ll2string_eq:
  assumes "dstlen \<le> length dst"
  shows "ll2string dst dstlen v =
    (let r = int_repr (sint v) in
     if dstlen \<le> length r then Some (0, dst)
     else Some (length r, r @ [0] @ drop (Suc (length r)) dst))"
proof -
  let ?neg = "sint v < 0" and ?r = "int_repr (sint v)"
  let ?d = "dec_repr (unat (ll_magnitude v))"
  have d: "?d = dec_repr (nat \<bar>sint v\<bar>)" by (simp add: ll_magnitude)
  have len: "digits10 (ll_magnitude v) + (if ?neg then 1 else 0) = length ?r"
    by (simp add: digits10_length d int_repr_split)
  show ?thesis
  proof (cases "dstlen \<le> length ?r")
    case True
    then show ?thesis unfolding ll2string_def Let_def ll2string_value len by simp
  next
    case False
    let ?dst = "dst[length ?r := 0]"
    have k: "length ?d \<le> length ?r" "length ?r \<le> length ?dst"
      using False assms d by (auto simp: int_repr_split)
    have st: "store dst (int (length ?r)) 0 = Some ?dst"
      using False assms by (simp add: store_in)
    have dr: "drop (length ?r) ?dst = 0 # drop (Suc (length ?r)) dst"
      using False assms by (simp add: upd_conv_take_nth_drop)
    note lp = ll2string_loop_spec[OF k]
    have "ll2string dst dstlen v = do {
        dst \<leftarrow> do { (dst, nxt, v) \<leftarrow> ll2string_loop ?dst (int (length ?r) - 1) (ll_magnitude v);
                   ll2string_last dst nxt v };
        dst \<leftarrow> (if ?neg then store dst 0 45 else Some dst);
        Some (length ?r, dst) }"
      unfolding ll2string_def Let_def ll2string_value len using False st
      by (simp add: case_prod_unfold)
    also have "\<dots> = Some (length ?r, ?r @ [0] @ drop (Suc (length ?r)) dst)"
      unfolding lp using dr d False assms
      by (cases dst) (simp_all add: store_def int_repr_split)
    finally show ?thesis using False by (simp add: Let_def)
  qed
qed

lemma length_dec_repr_le: "n < 10 ^ Suc k \<Longrightarrow> length (dec_repr n) \<le> Suc k"
proof (induction k arbitrary: n)
  case 0
  then show ?case by (simp add: dec_repr.simps)
next
  case (Suc k)
  then have "n div 10 < 10 ^ Suc k" by (simp add: less_mult_imp_div_less)
  with Suc.IH[of "n div 10"] show ?case by (subst dec_repr.simps) auto
qed

lemma length_int_repr_ll: "length (int_repr (sint (v :: 64 word))) \<le> 20"
proof -
  have "nat \<bar>sint v\<bar> < 10 ^ Suc 18"
    using sint_ge[of v] sint_lt[of v] by simp
  from length_dec_repr_le[OF this] show ?thesis by (auto simp: int_repr_split abs_if split: if_splits)
qed

section \<open>Properties\<close>

text \<open>C33. \<open>string2ll\<close> accepts a byte string exactly when it is the canonical decimal text (no sign but
  a single leading minus, no leading zeros, no other byte) of an integer that fits in a
  \<open>long long\<close>, and it then yields that integer; in particular every overflow is refused.\<close>

theorem string2ll_accepts_exactly: "string2ll s = Some v \<longleftrightarrow> s = int_repr (sint v)"
  by (rule string2ll_iff)

text \<open>Round trip: with the 21-byte buffers the callers use, printing any 64-bit value with
  \<open>ll2string\<close> and parsing the printed bytes with \<open>string2ll\<close> gives the value back.\<close>

lemma ll2string_string2ll_roundtrip:
  assumes "21 \<le> dstlen" "dstlen \<le> length dst"
  shows "\<exists>n dst'. ll2string dst dstlen v = Some (n, dst') \<and> 0 < n \<and> string2ll (take n dst') = Some v"
proof -
  let ?r = "int_repr (sint v)"
  have "length ?r \<le> 20" by (rule length_int_repr_ll)
  moreover have "?r \<noteq> []" using dec_repr_props by (simp add: int_repr_split)
  ultimately show ?thesis
    using assms by (simp add: ll2string_eq Let_def string2ll_iff)
qed

end
