(* ===== verification/Redis_Interfaces.thy ===== *)
theory Redis_Interfaces
  imports Redis_Prelude
begin

text \<open>
  The contracts between components, as locales.  Each is interpreted on the model's own
  definitions in the theory of the component that provides it, and the lemmas proved here once
  are used there through the interpretation.

  \<^item> \<open>set_impl\<close>: a mutable set with a capacity, as the set commands use it (interpreted by the
    integer set and by the set type over both encodings);
  \<^item> \<open>map_impl\<close>: a finite map whose lookups may reorganise the representation, as the keyspace
    uses the hash table (interpreted by \<open>dict\<close>).
\<close>

section \<open>Sets with a capacity\<close>

text \<open>The operations take objects; what counts is the item an object stands for.  Membership tests may reorganise the
  representation.\<close>

locale set_impl =
  fixes empty :: "'s"
    and add :: "'s \<Rightarrow> 'x \<Rightarrow> ('s \<times> bool) option"
    and remove :: "'s \<Rightarrow> 'x \<Rightarrow> ('s \<times> bool) option"
    and member :: "'s \<Rightarrow> 'x \<Rightarrow> ('s \<times> bool) option"
    and item :: "'x \<Rightarrow> 'a"
    and elems :: "'s \<Rightarrow> 'a set"
    and ok :: "'s \<Rightarrow> bool"
    and valid :: "'x \<Rightarrow> bool"
    and cap :: nat
  assumes ok_empty: "ok empty"
    and elems_empty: "elems empty = {}"
    and finite_elems: "ok s \<Longrightarrow> finite (elems s)"
    and add_spec: "ok s \<Longrightarrow> valid x \<Longrightarrow> card (elems s) < cap \<Longrightarrow>
      \<exists>s'. add s x = Some (s', item x \<notin> elems s) \<and> ok s' \<and> elems s' = insert (item x) (elems s)"
    and remove_spec: "ok s \<Longrightarrow> valid x \<Longrightarrow> card (elems s) \<le> cap \<Longrightarrow>
      \<exists>s'. remove s x = Some (s', item x \<in> elems s) \<and> ok s' \<and> elems s' = elems s - {item x}"
    and member_spec: "ok s \<Longrightarrow> valid x \<Longrightarrow> \<exists>s'. member s x = Some (s', item x \<in> elems s) \<and> ok s' \<and> elems s' = elems s"
begin

text \<open>Adding a list of members one after the other and counting the additions that succeeded.\<close>

fun add_all :: "'s \<Rightarrow> 'x list \<Rightarrow> nat \<Rightarrow> ('s \<times> nat) option" where
  "add_all s [] n = Some (s, n)"
| "add_all s (x # xs) n = do { (s', b) \<leftarrow> add s x; add_all s' xs (if b then Suc n else n) }"

fun remove_all :: "'s \<Rightarrow> 'x list \<Rightarrow> nat \<Rightarrow> ('s \<times> nat) option" where
  "remove_all s [] n = Some (s, n)"
| "remove_all s (x # xs) n = do { (s', b) \<leftarrow> remove s x; remove_all s' xs (if b then Suc n else n) }"

lemma add_all_spec:
  assumes "ok s" "\<forall>x\<in>set xs. valid x" "card (elems s) + length xs \<le> cap"
  shows "\<exists>s'. add_all s xs n = Some (s', n + card (item ` set xs - elems s)) \<and> ok s' \<and>
     elems s' = elems s \<union> item ` set xs"
  using assms
proof (induction xs arbitrary: s n)
  case Nil
  then show ?case by simp
next
  case (Cons x xs)
  then obtain s1 where s1: "add s x = Some (s1, item x \<notin> elems s)" "ok s1" "elems s1 = insert (item x) (elems s)"
    using add_spec[of s x] by auto
  have fin: "finite (elems s)" using Cons.prems(1) by (rule finite_elems)
  have "card (elems s1) + length xs \<le> cap"
    using Cons.prems(3) s1(3) fin by (simp add: card_insert_if)
  then have IH: "\<exists>s'. add_all s1 xs m = Some (s', m + card (item ` set xs - elems s1)) \<and> ok s' \<and>
      elems s' = elems s1 \<union> item ` set xs" for m
    using Cons.IH[of s1 m] Cons.prems(2) s1(2) by simp
  show ?case
  proof (cases "item x \<in> elems s")
    case True
    then have "item ` set (x # xs) - elems s = item ` set xs - elems s1" "elems s \<union> item ` set (x # xs) = elems s1 \<union> item ` set xs"
      using s1(3) by auto
    with s1(1) IH[of n] True show ?thesis by simp
  next
    case False
    then have "item ` set (x # xs) - elems s = insert (item x) (item ` set xs - elems s1)"
      "elems s \<union> item ` set (x # xs) = elems s1 \<union> item ` set xs"
      using s1(3) by auto
    moreover have "card (insert (item x) (item ` set xs - elems s1)) = Suc (card (item ` set xs - elems s1))"
      using s1(3) by (subst card_insert_disjoint) auto
    ultimately show ?thesis using s1(1) IH[of "Suc n"] False by simp
  qed
qed

lemma remove_all_spec:
  assumes "ok s" "\<forall>x\<in>set xs. valid x" "card (elems s) \<le> cap"
  shows "\<exists>s'. remove_all s xs n = Some (s', n + card (item ` set xs \<inter> elems s)) \<and> ok s' \<and>
     elems s' = elems s - item ` set xs"
  using assms
proof (induction xs arbitrary: s n)
  case Nil
  then show ?case by simp
next
  case (Cons x xs)
  then obtain s1 where s1: "remove s x = Some (s1, item x \<in> elems s)" "ok s1" "elems s1 = elems s - {item x}"
    using remove_spec[of s x] by auto
  have "card (elems s1) \<le> card (elems s)" unfolding s1(3) by (rule card_Diff1_le)
  then have room: "card (elems s1) \<le> cap" using Cons.prems(3) by simp
  show ?case
  proof (cases "item x \<in> elems s")
    case True
    have eq: "item ` set (x # xs) \<inter> elems s = insert (item x) (item ` set xs \<inter> elems s1)"
      "elems s - item ` set (x # xs) = elems s1 - item ` set xs"
      using s1(3) True by auto
    moreover have "card (insert (item x) (item ` set xs \<inter> elems s1)) = Suc (card (item ` set xs \<inter> elems s1))"
      using s1(3) by (subst card_insert_disjoint) auto
    ultimately show ?thesis
      using Cons.IH[of s1 "Suc n"] Cons.prems s1 True room by auto
  next
    case False
    have "item ` set (x # xs) \<inter> elems s = item ` set xs \<inter> elems s1" "elems s - item ` set (x # xs) = elems s1 - item ` set xs"
      using s1(3) False by auto
    then show ?thesis
      using Cons.IH[of s1 n] Cons.prems s1 False room by auto
  qed
qed

end

section \<open>Maps whose lookups may reorganise them\<close>

locale map_impl =
  fixes empty :: "'d"
    and add :: "'d \<Rightarrow> 'k \<Rightarrow> 'v \<Rightarrow> ('d \<times> bool) option"
    and replace :: "'d \<Rightarrow> 'k \<Rightarrow> 'v \<Rightarrow> ('d \<times> bool) option"
    and remove :: "'d \<Rightarrow> 'k \<Rightarrow> ('d \<times> bool) option"
    and fetch :: "'d \<Rightarrow> 'k \<Rightarrow> ('d \<times> 'v option) option"
    and abs :: "'d \<Rightarrow> 'k \<rightharpoonup> 'v"
    and ok :: "'d \<Rightarrow> bool"
    and cap :: nat
  assumes ok_empty: "ok empty"
    and abs_empty: "abs empty = Map.empty"
    and finite_abs: "ok d \<Longrightarrow> finite (dom (abs d))"
    and add_spec: "ok d \<Longrightarrow> card (dom (abs d)) \<le> cap \<Longrightarrow>
      \<exists>d'. add d k v = Some (d', k \<notin> dom (abs d)) \<and> ok d' \<and>
        abs d' = (if k \<in> dom (abs d) then abs d else (abs d)(k \<mapsto> v))"
    and replace_spec: "ok d \<Longrightarrow> card (dom (abs d)) \<le> cap \<Longrightarrow>
      \<exists>d'. replace d k v = Some (d', k \<notin> dom (abs d)) \<and> ok d' \<and> abs d' = (abs d)(k \<mapsto> v)"
    and remove_spec: "ok d \<Longrightarrow>
      \<exists>d'. remove d k = Some (d', k \<in> dom (abs d)) \<and> ok d' \<and> abs d' = (abs d)(k := None)"
    and fetch_spec: "ok d \<Longrightarrow> \<exists>d'. fetch d k = Some (d', abs d k) \<and> ok d' \<and> abs d' = abs d"
begin

lemma fetch_after_replace:
  assumes "ok d" "card (dom (abs d)) \<le> cap"
  shows "\<exists>d' d''. replace d k v = Some (d', k \<notin> dom (abs d)) \<and>
    fetch d' k' = Some (d'', if k' = k then Some v else abs d k') \<and> ok d''"
proof -
  obtain d' where d': "replace d k v = Some (d', k \<notin> dom (abs d))" "ok d'" "abs d' = (abs d)(k \<mapsto> v)"
    using replace_spec[OF assms] by blast
  then show ?thesis using fetch_spec[OF d'(2), of k'] by auto
qed

lemma fetch_after_remove:
  assumes "ok d"
  shows "\<exists>d' d''. remove d k = Some (d', k \<in> dom (abs d)) \<and>
    fetch d' k' = Some (d'', if k' = k then None else abs d k') \<and> ok d''"
proof -
  obtain d' where d': "remove d k = Some (d', k \<in> dom (abs d))" "ok d'" "abs d' = (abs d)(k := None)"
    using remove_spec[OF assms] by blast
  then show ?thesis using fetch_spec[OF d'(2), of k'] by auto
qed

text \<open>Loading a list of bindings with \<open>replace\<close>, later bindings winning.\<close>

fun load_all :: "'d \<Rightarrow> ('k \<times> 'v) list \<Rightarrow> 'd option" where
  "load_all d [] = Some d"
| "load_all d ((k, v) # kvs) = do { (d, _) \<leftarrow> replace d k v; load_all d kvs }"

lemma load_all_spec:
  assumes "ok d" "card (dom (abs d)) + length kvs \<le> cap"
  shows "\<exists>d'. load_all d kvs = Some d' \<and> ok d' \<and> abs d' = abs d ++ map_of (rev kvs)"
  using assms
proof (induction kvs arbitrary: d)
  case (Cons kv kvs)
  obtain k v where kv: "kv = (k, v)" by fastforce
  obtain d1 where d1: "replace d k v = Some (d1, k \<notin> dom (abs d))" "ok d1" "abs d1 = (abs d)(k \<mapsto> v)"
    using replace_spec[OF Cons.prems(1)] Cons.prems(2) by fastforce
  have "card (dom (abs d1)) \<le> Suc (card (dom (abs d)))"
    using d1(3) card_insert_le_m1[of "Suc (card (dom (abs d)))"] by (simp add: card_insert_if finite_abs Cons.prems(1))
  then have "card (dom (abs d1)) + length kvs \<le> cap" using Cons.prems(2) by simp
  from Cons.IH[OF d1(2) this] obtain d' where
    d': "load_all d1 kvs = Some d'" "ok d'" "abs d' = abs d1 ++ map_of (rev kvs)" by blast
  have "abs d' = abs d ++ map_of (rev (kv # kvs))"
    unfolding d'(3) d1(3) kv by simp
  then show ?case using d' d1(1) kv by simp
qed simp

end

end
