(* ===== verification/Redis_Intset.thy ===== *)
theory Redis_Intset
  imports Redis_Interfaces
begin

text \<open>
  \<open>intset.c\<close>: the sorted packed array of 16, 32 or 64 bit integers that holds small sets.

  The structure is modelled as it lies in memory: \<open>is_contents\<close> is the flexible array member as a
  byte list, exactly as long as what was allocated, and every load, store and \<open>memmove\<close> on it is one of
  the checked primitives of the prelude.  \<open>int64_t\<close> values are integers; a store through a narrower
  pointer type keeps the low bytes, a load sign-extends.  The target is little endian, where
  \<open>intrev32ifbe\<close> and \<open>memrev*ifbe\<close> are the identity.  \<open>uint32_t\<close> arithmetic is written with its
  wrap-around.

  \<open>intset_vals\<close> reads the array, \<open>intset_ok\<close> is the invariant (a legal encoding, a contents block of
  the right size, strictly increasing values, few enough members for the 32-bit size computation).
\<close>

section \<open>The code\<close>

record intset =
  is_encoding :: nat
  is_length :: nat
  is_contents :: bytes

definition intsetValueEncoding :: "int \<Rightarrow> nat" where
  "intsetValueEncoding v =
     (if v < - (2 ^ 31) \<or> v > 2 ^ 31 - 1 then 8
      else if v < - (2 ^ 15) \<or> v > 2 ^ 15 - 1 then 4
      else 2)"

definition intsetGetEncoded :: "intset \<Rightarrow> nat \<Rightarrow> nat \<Rightarrow> int option" where
  "intsetGetEncoded is pos enc =
     (if enc = 8 then map_option (\<lambda>bs. to_signed 8 (le_dec bs)) (mem_read (is_contents is) (pos * 8) 8)
      else if enc = 4 then map_option (\<lambda>bs. to_signed 4 (le_dec bs)) (mem_read (is_contents is) (pos * 4) 4)
      else map_option (\<lambda>bs. to_signed 2 (le_dec bs)) (mem_read (is_contents is) (pos * 2) 2))"

definition u_intsetGet :: "intset \<Rightarrow> nat \<Rightarrow> int option" where
  "u_intsetGet is pos = intsetGetEncoded is pos (is_encoding is)"

definition u_intsetSet :: "intset \<Rightarrow> nat \<Rightarrow> int \<Rightarrow> intset option" where
  "u_intsetSet is pos value = map_option (\<lambda>m. is\<lparr>is_contents := m\<rparr>)
     (if is_encoding is = 8 then mem_write (is_contents is) (pos * 8) (le_enc 8 value)
      else if is_encoding is = 4 then mem_write (is_contents is) (pos * 4) (le_enc 4 value)
      else mem_write (is_contents is) (pos * 2) (le_enc 2 value))"

definition intsetNew :: intset where
  "intsetNew = \<lparr>is_encoding = 2, is_length = 0, is_contents = []\<rparr>"

definition intsetResize :: "(nat \<Rightarrow> byte) \<Rightarrow> intset \<Rightarrow> nat \<Rightarrow> intset" where
  "intsetResize junk is len =
     (let size = (len * is_encoding is) mod 2 ^ 32
      in is\<lparr>is_contents := mem_realloc junk size (is_contents is)\<rparr>)"

text \<open>
  The binary search loop; the arguments after the value are \<open>min\<close>, \<open>max\<close>, \<open>mid\<close> and \<open>cur\<close>.  It is a
  partial function because the midpoint is computed in 32-bit unsigned arithmetic; that the search
  returns on every well-formed set is part of the theorems.
\<close>

partial_function (option) intsetSearch_loop ::
    "intset \<Rightarrow> int \<Rightarrow> int \<Rightarrow> int \<Rightarrow> int \<Rightarrow> int \<Rightarrow> (int \<times> int \<times> int) option" where
  "intsetSearch_loop is value mn mx mid cur =
     (if mx \<ge> mn then do {
        let mid = ((mn + mx) mod 2 ^ 32) div 2;
        cur \<leftarrow> u_intsetGet is (nat mid);
        (if value > cur then intsetSearch_loop is value (mid + 1) mx mid cur
         else if value < cur then intsetSearch_loop is value mn (mid - 1) mid cur
         else Some (mn, mid, cur))
      } else Some (mn, mid, cur))"

declare intsetSearch_loop.simps [code]

definition intsetSearch :: "intset \<Rightarrow> int \<Rightarrow> (bool \<times> nat) option" where
  "intsetSearch is value =
     (if is_length is = 0 then Some (False, 0)
      else do {
        lst \<leftarrow> u_intsetGet is (is_length is - 1);
        (if value > lst then Some (False, is_length is)
         else do {
           fst \<leftarrow> u_intsetGet is 0;
           (if value < fst then Some (False, 0)
            else do {
              (mn, mid, cur) \<leftarrow> intsetSearch_loop is value 0 (int (is_length is) - 1) (-1) (-1);
              Some (if value = cur then (True, nat mid) else (False, nat mn))
            })
         })
      })"

fun intsetUpgrade_loop :: "nat \<Rightarrow> nat \<Rightarrow> intset \<Rightarrow> nat \<Rightarrow> intset option" where
  "intsetUpgrade_loop curenc prepend is 0 = Some is"
| "intsetUpgrade_loop curenc prepend is (Suc n) = do {
     v \<leftarrow> intsetGetEncoded is n curenc;
     is \<leftarrow> u_intsetSet is (n + prepend) v;
     intsetUpgrade_loop curenc prepend is n
   }"

definition intsetUpgradeAndAdd :: "(nat \<Rightarrow> byte) \<Rightarrow> intset \<Rightarrow> int \<Rightarrow> intset option" where
  "intsetUpgradeAndAdd junk is value = (
     let curenc = is_encoding is;
         newenc = intsetValueEncoding value;
         len = is_length is;
         prepend = (if value < 0 then 1 else 0);
         is = is\<lparr>is_encoding := newenc\<rparr>;
         is = intsetResize junk is ((len + 1) mod 2 ^ 32)
     in do {
       is \<leftarrow> intsetUpgrade_loop curenc prepend is len;
       is \<leftarrow> (if prepend = 1 then u_intsetSet is 0 value else u_intsetSet is (is_length is) value);
       Some (is\<lparr>is_length := (is_length is + 1) mod 2 ^ 32\<rparr>)
     })"

definition intsetMoveTail :: "intset \<Rightarrow> nat \<Rightarrow> nat \<Rightarrow> intset option" where
  "intsetMoveTail is from to = (
     let n = nat ((int (is_length is) - int from) mod 2 ^ 32);
         w = (if is_encoding is = 8 then 8 else if is_encoding is = 4 then 4 else 2);
         bytes = (n * w) mod 2 ^ 32
     in map_option (\<lambda>m. is\<lparr>is_contents := m\<rparr>)
          (mem_move (is_contents is) (to * w) (from * w) bytes))"

definition intsetAdd :: "(nat \<Rightarrow> byte) \<Rightarrow> intset \<Rightarrow> int \<Rightarrow> (intset \<times> bool) option" where
  "intsetAdd junk is value = (
     let valenc = intsetValueEncoding value
     in if valenc > is_encoding is then do {
          is \<leftarrow> intsetUpgradeAndAdd junk is value;
          Some (is, True)
        } else do {
          (found, pos) \<leftarrow> intsetSearch is value;
          (if found then Some (is, False)
           else do {
             let is = intsetResize junk is ((is_length is + 1) mod 2 ^ 32);
             is \<leftarrow> (if pos < is_length is then intsetMoveTail is pos (pos + 1) else Some is);
             is \<leftarrow> u_intsetSet is pos value;
             Some (is\<lparr>is_length := (is_length is + 1) mod 2 ^ 32\<rparr>, True)
           })
        })"

definition intsetRemove :: "(nat \<Rightarrow> byte) \<Rightarrow> intset \<Rightarrow> int \<Rightarrow> (intset \<times> bool) option" where
  "intsetRemove junk is value = (
     let valenc = intsetValueEncoding value
     in if valenc \<le> is_encoding is then do {
          (found, pos) \<leftarrow> intsetSearch is value;
          (if found then do {
             let len = is_length is;
             is \<leftarrow> (if pos < len - 1 then intsetMoveTail is (pos + 1) pos else Some is);
             let is = intsetResize junk is (len - 1);
             Some (is\<lparr>is_length := len - 1\<rparr>, True)
           } else Some (is, False))
        } else Some (is, False))"

definition intsetFind :: "intset \<Rightarrow> int \<Rightarrow> bool option" where
  "intsetFind is value =
     (if intsetValueEncoding value \<le> is_encoding is
      then map_option fst (intsetSearch is value) else Some False)"

text \<open>The result of \<open>rand()\<close> is the argument \<open>r\<close>; a remainder by zero has no result.\<close>

definition intsetRandom :: "nat \<Rightarrow> intset \<Rightarrow> int option" where
  "intsetRandom r is =
     (if is_length is = 0 then None else u_intsetGet is (r mod is_length is))"

definition intsetGet :: "intset \<Rightarrow> nat \<Rightarrow> int option option" where
  "intsetGet is pos =
     (if pos < is_length is then map_option Some (u_intsetGet is pos) else Some None)"

definition intsetLen :: "intset \<Rightarrow> nat" where
  "intsetLen is = is_length is"

definition intsetBlobLen :: "intset \<Rightarrow> nat" where
  "intsetBlobLen is = 8 + (is_length is * is_encoding is) mod 2 ^ 32"

section \<open>Abstraction and invariant\<close>

definition intset_vals :: "intset \<Rightarrow> int list" where
  "intset_vals is = map (\<lambda>i. to_signed (is_encoding is)
     (le_dec (take (is_encoding is) (drop (i * is_encoding is) (is_contents is))))) [0..<is_length is]"

definition intset_ok :: "intset \<Rightarrow> bool" where
  "intset_ok is \<longleftrightarrow>
     (is_encoding is = 2 \<or> is_encoding is = 4 \<or> is_encoding is = 8) \<and>
     length (is_contents is) = is_length is * is_encoding is \<and>
     sorted_wrt (<) (intset_vals is) \<and> is_length is * 8 < 2 ^ 32"

definition intset_elems :: "intset \<Rightarrow> int set" where
  "intset_elems is = set (intset_vals is)"

text \<open>The form the proofs work with: the contents are the packed values.\<close>

definition intset_rep :: "intset \<Rightarrow> int list \<Rightarrow> bool" where
  "intset_rep is vs \<longleftrightarrow>
     (is_encoding is = 2 \<or> is_encoding is = 4 \<or> is_encoding is = 8) \<and>
     is_length is = length vs \<and> is_contents is = concat (map (le_enc (is_encoding is)) vs) \<and>
     (\<forall>v\<in>set vs. fits (is_encoding is) v) \<and> sorted_wrt (<) vs \<and> length vs * 8 < 2 ^ 32"

definition legal_enc :: "nat \<Rightarrow> bool" where
  "legal_enc e \<longleftrightarrow> e = 2 \<or> e = 4 \<or> e = 8"

text \<open>What the search loop has established when it stops.\<close>

definition search_post :: "int list \<Rightarrow> int \<Rightarrow> int \<times> int \<times> int \<Rightarrow> bool" where
  "search_post vs x r \<longleftrightarrow> (case r of (mn, mid, cur) \<Rightarrow>
     if x \<in> set vs then cur = x \<and> 0 \<le> mid \<and> mid < int (length vs) \<and> vs ! nat mid = x
     else cur \<noteq> x \<and> 0 \<le> mn \<and> mn \<le> int (length vs) \<and>
       (\<forall>j < length vs. if int j < mn then vs ! j < x else x < vs ! j))"

section \<open>Single operations on the packed form\<close>


lemma legal_enc_pos: "legal_enc e \<Longrightarrow> 0 < e" "legal_enc e \<Longrightarrow> e \<le> 8"
  by (auto simp: legal_enc_def)

lemma getEncoded_eq: "legal_enc e \<Longrightarrow>
  intsetGetEncoded is pos e = map_option (\<lambda>bs. to_signed e (le_dec bs)) (mem_read (is_contents is) (pos * e) e)"
  by (auto simp: legal_enc_def intsetGetEncoded_def)

lemma intsetSet_eq: "legal_enc (is_encoding is) \<Longrightarrow>
  u_intsetSet is pos v = map_option (\<lambda>m. is\<lparr>is_contents := m\<rparr>)
     (mem_write (is_contents is) (pos * is_encoding is) (le_enc (is_encoding is) v))"
  by (auto simp: legal_enc_def u_intsetSet_def)

lemma moveTail_eq: "legal_enc (is_encoding is) \<Longrightarrow> from \<le> is_length is \<Longrightarrow> is_length is * 8 < 2 ^ 32 \<Longrightarrow>
  intsetMoveTail is from to = map_option (\<lambda>m. is\<lparr>is_contents := m\<rparr>)
    (mem_move (is_contents is) (to * is_encoding is) (from * is_encoding is) ((is_length is - from) * is_encoding is))"
proof -
  assume a: "legal_enc (is_encoding is)" "from \<le> is_length is" "is_length is * 8 < 2 ^ 32"
  have n: "nat ((int (is_length is) - int from) mod 2 ^ 32) = is_length is - from"
    using a by (simp add: mod_pos_pos_trivial nat_diff_distrib' flip: of_nat_diff)
  have "(is_length is - from) * is_encoding is \<le> is_length is * 8"
    using legal_enc_pos(2)[OF a(1)] by (intro mult_le_mono) auto
  then have "(is_length is - from) * is_encoding is < 2 ^ 32"
    using a(3) by linarith
  moreover have "(if is_encoding is = 8 then 8 else if is_encoding is = 4 then 4 else 2) = is_encoding is"
    using a(1) by (auto simp: legal_enc_def)
  ultimately show ?thesis
    unfolding intsetMoveTail_def n Let_def by simp
qed

lemma valueEncoding_legal [simp]: "legal_enc (intsetValueEncoding v)"
  by (simp add: legal_enc_def intsetValueEncoding_def)

lemma valueEncoding_fits: "fits 8 v \<Longrightarrow> fits (intsetValueEncoding v) v"
  by (simp add: fits_def intsetValueEncoding_def)

lemma valueEncoding_iff: "legal_enc e \<Longrightarrow> fits 8 v \<Longrightarrow> intsetValueEncoding v \<le> e \<longleftrightarrow> fits e v"
  by (auto simp: legal_enc_def fits_def intsetValueEncoding_def)

lemma repD:
  assumes "intset_rep is vs"
  shows "legal_enc (is_encoding is)" "is_length is = length vs"
    "is_contents is = concat (map (le_enc (is_encoding is)) vs)"
    "\<And>v. v \<in> set vs \<Longrightarrow> fits (is_encoding is) v" "sorted_wrt (<) vs" "length vs * 8 < 2 ^ 32"
  using assms by (auto simp: intset_rep_def legal_enc_def)

lemma rep_get: "intset_rep is vs \<Longrightarrow> i < length vs \<Longrightarrow> u_intsetGet is i = Some (vs ! i)"
  using cells_read[of "le_enc (is_encoding is)" "is_encoding is" i vs "[]"]
  by (simp add: u_intsetGet_def getEncoded_eq repD codec_simps to_signed_mod legal_enc_pos)

lemma sorted_wrt_nth_iff: "sorted_wrt (<) (vs :: int list) \<Longrightarrow> i < length vs \<Longrightarrow> j < length vs \<Longrightarrow>
    vs ! i < vs ! j \<longleftrightarrow> i < j"
  by (metis linorder_neq_iff order_less_asym sorted_wrt_nth_less)

lemma search_loop_spec:
  assumes "intset_rep is vs" "0 \<le> mn" "mx < int (length vs)" "mn \<le> mx + 1"
    "\<forall>j < length vs. int j < mn \<longrightarrow> vs ! j < x"
    "\<forall>j < length vs. mx < int j \<longrightarrow> x < vs ! j"
    "mn \<le> mx \<or> cur \<noteq> x"
  shows "\<exists>r. intsetSearch_loop is x mn mx mid cur = Some r \<and> search_post vs x r"
  using assms(2-)
proof (induction "nat (mx - mn + 1)" arbitrary: mn mx mid cur rule: less_induct)
  case less
  note rep = assms(1)
  show ?case
  proof (cases "mn \<le> mx")
    case False
    then have "mx = mn - 1" using less.prems(3) by simp
    then have "x \<notin> set vs" and
      "\<forall>j < length vs. if int j < mn then vs ! j < x else x < vs ! j"
      using less.prems(4,5) by (force simp: in_set_conv_nth)+
    with False less.prems show ?thesis
      by (subst intsetSearch_loop.simps) (auto simp: search_post_def)
  next
    case True
    define m where "m = ((mn + mx) mod 2 ^ 32) div 2"
    have "mn + mx < 2 ^ 32" using less.prems(2) True repD(6)[OF rep] by simp
    then have m: "m = (mn + mx) div 2" using less.prems(1) True
      by (simp add: m_def mod_pos_pos_trivial)
    then have mr: "mn \<le> m" "m \<le> mx" "0 \<le> m" using True less.prems(1) by auto
    define c where "c = vs ! nat m"
    have nm: "nat m < length vs" using mr less.prems(2) by simp
    have get: "u_intsetGet is (nat m) = Some c"
      using rep_get[OF rep nm] by (simp add: c_def)
    note srt = sorted_wrt_nth_iff[OF repD(5)[OF rep]]
    have step: "intsetSearch_loop is x mn mx mid cur =
       (if x > c then intsetSearch_loop is x (m + 1) mx m c
        else if x < c then intsetSearch_loop is x mn (m - 1) m c
        else Some (mn, m, c))"
      using True get by (subst intsetSearch_loop.simps) (simp add: m_def Let_def)
    consider "x > c" | "x < c" | "x = c" by linarith
    then show ?thesis
    proof cases
      case 1
      have "vs ! j < x" if "j < length vs" "int j < m + 1" for j
      proof (cases "j = nat m")
        case True
        then show ?thesis using 1 by (simp add: c_def)
      next
        case False
        then have "vs ! j < c" using that srt[of j "nat m"] nm mr by (simp add: c_def)
        with 1 show ?thesis by simp
      qed
      then have "\<exists>r. intsetSearch_loop is x (m + 1) mx m c = Some r \<and> search_post vs x r"
        using less.prems mr 1 by (intro less.hyps) auto
      with 1 show ?thesis by (simp add: step)
    next
      case 2
      have "x < vs ! j" if "j < length vs" "m - 1 < int j" for j
      proof (cases "j = nat m")
        case True
        then show ?thesis using 2 by (simp add: c_def)
      next
        case False
        then have "c < vs ! j" using that srt[of "nat m" j] nm mr by (simp add: c_def)
        with 2 show ?thesis by simp
      qed
      then have "\<exists>r. intsetSearch_loop is x mn (m - 1) m c = Some r \<and> search_post vs x r"
        using less.prems mr 2 by (intro less.hyps) auto
      with 2 show ?thesis by (simp add: step)
    next
      case 3
      then have "x \<in> set vs" using nm by (simp add: c_def)
      moreover have "intsetSearch_loop is x mn mx mid cur = Some (mn, m, c)" using step 3 by simp
      ultimately show ?thesis using nm mr 3 by (simp add: search_post_def c_def)
    qed
  qed
qed

lemma search_spec:
  assumes "intset_rep is vs"
  shows "\<exists>pos. intsetSearch is x = Some (x \<in> set vs, pos) \<and>
    (if x \<in> set vs then pos < length vs \<and> vs ! pos = x
     else pos \<le> length vs \<and> (\<forall>v\<in>set (take pos vs). v < x) \<and> (\<forall>v\<in>set (drop pos vs). x < v))"
proof (cases "vs = []")
  case True
  then show ?thesis using assms by (simp add: intsetSearch_def repD)
next
  case False
  then have n: "0 < length vs" by simp
  note get = rep_get[OF assms]
  note srt = sorted_wrt_nth_iff[OF repD(5)[OF assms]]
  have "vs ! 0 \<le> vs ! i \<and> vs ! i \<le> vs ! (length vs - 1)" if "i < length vs" for i
    using that n srt[of i 0] srt[of "length vs - 1" i] linorder_not_less[of "vs ! (length vs - 1)" "vs ! i"] by auto
  then have le: "vs ! 0 \<le> v" "v \<le> vs ! (length vs - 1)" if "v \<in> set vs" for v
    using that by (metis in_set_conv_nth)+
  consider (hi) "x > vs ! (length vs - 1)" | (lo) "\<not> x > vs ! (length vs - 1)" "x < vs ! 0"
    | (mid) "\<not> x > vs ! (length vs - 1)" "\<not> x < vs ! 0" by blast
  then show ?thesis
  proof cases
    case hi
    then have "\<forall>v\<in>set vs. v < x" using le(2) by force
    with hi n get show ?thesis
      by (auto simp: intsetSearch_def repD(2)[OF assms])
  next
    case lo
    then have "\<forall>v\<in>set vs. x < v" using le(1) by force
    with lo n get show ?thesis
      by (auto simp: intsetSearch_def repD(2)[OF assms])
  next
    case mid
    obtain mn m c where r: "intsetSearch_loop is x 0 (int (length vs) - 1) (-1) (-1) = Some (mn, m, c)"
      "search_post vs x (mn, m, c)"
      using search_loop_spec[OF assms, of 0 "int (length vs) - 1" x "-1" "-1"] n by force
    have s: "intsetSearch is x = Some (if x = c then (True, nat m) else (False, nat mn))"
      using mid n get r(1) by (simp add: intsetSearch_def repD(2)[OF assms])
    show ?thesis
    proof (cases "x \<in> set vs")
      case True
      then show ?thesis using r(2) s by (auto simp: search_post_def)
    next
      case False
      then have p: "c \<noteq> x" "0 \<le> mn" "nat mn \<le> length vs"
        "\<And>j. j < length vs \<Longrightarrow> if int j < mn then vs ! j < x else x < vs ! j"
        using r(2) by (auto simp: search_post_def)
      have "\<forall>v\<in>set (take (nat mn) vs). v < x" "\<forall>v\<in>set (drop (nat mn) vs). x < v"
        using p(2,3) p(4) by (force simp: in_set_conv_nth)+
      with False p s show ?thesis by auto
    qed
  qed
qed


lemma rep_len_bound:
  assumes "legal_enc e" "n * 8 < 2 ^ 32"
  shows "(n * e) mod 2 ^ 32 = n * e" "n mod 2 ^ 32 = n"
proof -
  have "n * e \<le> n * 8" using legal_enc_pos(2)[OF assms(1)] by simp
  with assms(2) have "n * e < 2 ^ 32" "n < 2 ^ 32" by linarith+
  then show "(n * e) mod 2 ^ 32 = n * e" "n mod 2 ^ 32 = n" by simp_all
qed

lemma sorted_insert_at:
  "sorted_wrt (<) vs \<Longrightarrow> \<forall>v\<in>set (take p vs). v < x \<Longrightarrow> \<forall>v\<in>set (drop p vs). x < v \<Longrightarrow>
    sorted_wrt (<) (take p vs @ (x :: int) # drop p vs)"
  by (auto simp: sorted_wrt_append sorted_wrt_take sorted_wrt_drop intro: less_trans)

lemma add_in_place:
  assumes rep: "intset_rep is vs" and p: "p \<le> length vs" and room: "(length vs + 1) * 8 < 2 ^ 32"
    and x: "fits (is_encoding is) x"
    and srt: "\<forall>v\<in>set (take p vs). v < x" "\<forall>v\<in>set (drop p vs). x < v"
  shows "\<exists>is'. do {
      let is = intsetResize junk is ((is_length is + 1) mod 2 ^ 32);
      is \<leftarrow> (if p < is_length is then intsetMoveTail is p (p + 1) else Some is);
      is \<leftarrow> u_intsetSet is p x;
      Some (is\<lparr>is_length := (is_length is + 1) mod 2 ^ 32\<rparr>, True) } = Some (is', True) \<and>
    intset_rep is' (take p vs @ x # drop p vs)"
proof -
  let ?e = "is_encoding is"
  note r = repD[OF rep] and bnd = rep_len_bound[OF repD(1)[OF rep] room]
  let ?A = "concat (map (le_enc ?e) (take p vs))" and ?B = "concat (map (le_enc ?e) (drop p vs))"
  let ?J = "map junk [length vs * ?e..<(length vs + 1) * ?e]"
  have lA: "length ?A = p * ?e" and lB: "length ?B = (length vs - p) * ?e"
    using p by (simp_all add: length_concat_cells)
  have C: "is_contents is = ?A @ ?B"
    using r(3) by (simp flip: concat_append map_append)
  have rs: "intsetResize junk is ((is_length is + 1) mod 2 ^ 32) = is\<lparr>is_contents := ?A @ ?B @ ?J\<rparr>"
    using bnd r(2) lA lB p
    by (simp add: intsetResize_def Let_def C mem_realloc_grow flip: add_mult_distrib)
  define X where "X = take (p * ?e + ?e) (?A @ ?B @ ?J)"
  have mv: "(if p < is_length is then intsetMoveTail (is\<lparr>is_contents := ?A @ ?B @ ?J\<rparr>) p (p + 1)
      else Some (is\<lparr>is_contents := ?A @ ?B @ ?J\<rparr>)) = Some (is\<lparr>is_contents := X @ ?B\<rparr>)"
  proof (cases "p < length vs")
    case True
    then show ?thesis
      using r p mem_move_up[OF lA, of ?J ?e ?B] lB
      by (simp add: moveTail_eq add.commute X_def)
  next
    case False
    then show ?thesis using p r(2) lA by (simp add: X_def)
  qed
  have "length (?A @ ?B @ ?J) = (length vs + 1) * ?e"
    using lA lB p by (simp flip: add_mult_distrib)
  moreover have "(p + 1) * ?e \<le> (length vs + 1) * ?e"
    using p by (intro mult_le_mono1) simp
  ultimately have "p * ?e + ?e \<le> length (?A @ ?B @ ?J)" by simp
  then have X: "take (p * ?e) X = ?A" "length X = p * ?e + ?e"
    using lA unfolding X_def by (simp, simp only: length_take)
  have st: "mem_write (X @ ?B) (p * ?e) (le_enc ?e x) = Some (?A @ le_enc ?e x @ ?B)"
    using X by (intro mem_write_over) (simp_all only: length_le_enc)
  let ?is = "is\<lparr>is_contents := ?A @ le_enc ?e x @ ?B, is_length := length vs + 1\<rparr>"
  have "intset_rep ?is (take p vs @ x # drop p vs)"
    using r x room p sorted_insert_at[OF r(5) srt]
    by (auto simp: intset_rep_def legal_enc_def dest: in_set_takeD in_set_dropD)
  moreover have "u_intsetSet (is\<lparr>is_contents := X @ ?B\<rparr>) p x = Some (is\<lparr>is_contents := ?A @ le_enc ?e x @ ?B\<rparr>)"
    using st r(1) by (simp add: intsetSet_eq)
  ultimately show ?thesis
    unfolding rs Let_def using mv r(2) bnd(2) by (intro exI[of _ ?is]) simp
qed


lemma remove_in_place:
  assumes rep: "intset_rep is vs" and p: "p < length vs"
  shows "\<exists>is'. do {
      is' \<leftarrow> (if p < is_length is - 1 then intsetMoveTail is (p + 1) p else Some is);
      Some ((intsetResize junk is' (is_length is - 1))\<lparr>is_length := is_length is - 1\<rparr>, True) } = Some (is', True) \<and>
    intset_rep is' (take p vs @ drop (Suc p) vs)"
proof -
  let ?e = "is_encoding is"
  note r = repD[OF rep]
  have b1: "(length vs - 1) * 8 < 2 ^ 32" using r(6) by simp
  note bnd = rep_len_bound[OF r(1) b1]
  let ?A = "concat (map (le_enc ?e) (take p vs))" and ?B = "concat (map (le_enc ?e) (drop (Suc p) vs))"
  let ?c = "le_enc ?e (vs ! p)"
  have lA: "length ?A = p * ?e" and lB: "length ?B = (length vs - Suc p) * ?e"
    using p by (simp_all add: length_concat_cells)
  have C: "is_contents is = ?A @ ?c @ ?B"
    using r(3) cells_split[OF p] by simp
  have len: "length (?A @ ?B) = (length vs - 1) * ?e"
    using p lA lB by (simp flip: add_mult_distrib)
  define D where "D = drop (length ?B) (?c @ ?B)"
  have "\<exists>T. (if p < is_length is - 1 then intsetMoveTail is (p + 1) p else Some is) =
      Some (is\<lparr>is_contents := ?A @ ?B @ T\<rparr>)"
  proof (cases "p < is_length is - 1")
    case True
    then show ?thesis
      using r(1,2,6) p mem_move_down[OF lA, of ?c ?e ?B, folded D_def] lB
      by (intro exI[of _ D]) (simp add: moveTail_eq C add.commute)
  next
    case False
    then have "drop (Suc p) vs = []" using p r(2) by simp
    then have "is_contents is = ?A @ ?B @ ?c" using C by simp
    then have "is = is\<lparr>is_contents := ?A @ ?B @ ?c\<rparr>" by (simp add: intset.equality)
    then show ?thesis using False by metis
  qed
  then obtain T where T: "(if p < is_length is - 1 then intsetMoveTail is (p + 1) p else Some is) =
      Some (is\<lparr>is_contents := ?A @ ?B @ T\<rparr>)" by blast
  have rs: "intsetResize junk (is\<lparr>is_contents := ?A @ ?B @ T\<rparr>) (length vs - 1) = is\<lparr>is_contents := ?A @ ?B\<rparr>"
    using bnd mem_realloc_shrink[of "(length vs - 1) * ?e" "(?A @ ?B) @ T" junk] len
    unfolding intsetResize_def Let_def by simp
  have "sorted_wrt (<) (take p vs @ drop (Suc p) vs)"
    using r(5) id_take_nth_drop[OF p] by (metis (no_types, lifting) sorted_wrt_append sorted_wrt.simps(2) list.set_intros(2))
  then have "intset_rep (is\<lparr>is_contents := ?A @ ?B, is_length := length vs - 1\<rparr>) (take p vs @ drop (Suc p) vs)"
    using r p by (auto simp: intset_rep_def legal_enc_def dest: in_set_takeD in_set_dropD)
  then show ?thesis
    using T rs r(2) by (intro exI) simp
qed

lemma upgrade_loop_spec:
  assumes c: "legal_enc c" "c \<le> is_encoding is" "legal_enc (is_encoding is)"
    and fit: "\<forall>v\<in>set vs. fits c v" and k: "k \<le> length vs"
    and m: "is_contents is = concat (map (le_enc c) (take k vs)) @ G @
      concat (map (le_enc (is_encoding is)) (drop k vs)) @ T"
      "k * c + length G = (k + p) * is_encoding is"
  shows "\<exists>G'. intsetUpgrade_loop c p is k = Some (is\<lparr>is_contents := G' @
      concat (map (le_enc (is_encoding is)) vs) @ T\<rparr>) \<and> length G' = p * is_encoding is"
  using k m c
proof (induction k arbitrary: "is" G)
  case 0
  then show ?case by (intro exI[of _ G]) simp
next
  case (Suc k)
  let ?n = "is_encoding is"
  let ?P = "concat (map (le_enc c) (take k vs))" and ?N = "concat (map (le_enc ?n) (drop (Suc k) vs))"
  let ?x = "vs ! k"
  have k: "k < length vs" using Suc.prems(1) by simp
  have lP: "length ?P = k * c" using k by (simp add: length_concat_cells)
  have C: "is_contents is = ?P @ le_enc c ?x @ G @ ?N @ T"
    using Suc.prems(2) k by (simp add: take_Suc_conv_app_nth)
  have g: "intsetGetEncoded is k c = Some ?x"
    using C lP fit k Suc.prems(4) mem_read_append[of ?P "k * c" "le_enc c ?x" c]
    by (simp add: getEncoded_eq to_signed_mod codec_simps legal_enc_pos)
  define Y where "Y = le_enc c ?x @ G"
  define d where "d = (k + p) * ?n - k * c"
  have kc: "k * c \<le> (k + p) * ?n" using Suc.prems(5) by (intro mult_le_mono) simp_all
  have lY: "length Y = d + ?n"
    using Suc.prems(3) kc by (simp add: Y_def d_def algebra_simps)
  have w: "mem_write (is_contents is) ((k + p) * ?n) (le_enc ?n ?x) =
      Some (?P @ take d Y @ le_enc ?n ?x @ ?N @ T)"
  proof -
    have "is_contents is = (?P @ take d Y) @ drop d Y @ (?N @ T)"
    proof -
      have "is_contents is = ?P @ Y @ ?N @ T" using C by (simp add: Y_def)
      also have "Y = take d Y @ drop d Y" by simp
      finally show ?thesis by simp
    qed
    then show ?thesis
      using mem_write_append[of "?P @ take d Y" "(k + p) * ?n" "drop d Y" "le_enc ?n ?x" "?N @ T"]
        lP lY kc by (simp add: d_def)
  qed
  let ?is = "is\<lparr>is_contents := ?P @ take d Y @ le_enc ?n ?x @ ?N @ T\<rparr>"
  have s: "u_intsetSet is (k + p) ?x = Some ?is"
    using w Suc.prems(6) by (simp add: intsetSet_eq)
  have "\<exists>G'. intsetUpgrade_loop c p ?is k = Some (?is\<lparr>is_contents := G' @
      concat (map (le_enc (is_encoding ?is)) vs) @ T\<rparr>) \<and> length G' = p * is_encoding ?is"
  proof (rule Suc.IH[of ?is "take d Y"])
    show "is_contents ?is = ?P @ take d Y @ concat (map (le_enc (is_encoding ?is)) (drop k vs)) @ T"
      using k by (simp add: Cons_nth_drop_Suc[symmetric])
    show "k * c + length (take d Y) = (k + p) * is_encoding ?is"
      using lY kc by (simp add: d_def)
  qed (use Suc.prems k in simp_all)
  then show ?case using g s by simp
qed

lemma sorted_new_min: "sorted_wrt (<) vs \<Longrightarrow> legal_enc e \<Longrightarrow> \<forall>v\<in>set vs. fits e v \<Longrightarrow> \<not> fits e x \<Longrightarrow>
  sorted_wrt (<) (if x < 0 then x # vs else vs @ [x])"
  by (force simp: sorted_wrt_append fits_def legal_enc_def)

lemma upgrade_spec:
  assumes rep: "intset_rep is vs" and room: "(length vs + 1) * 8 < 2 ^ 32"
    and x: "fits 8 x" "is_encoding is < intsetValueEncoding x"
  shows "\<exists>is'. intsetUpgradeAndAdd junk is x = Some is' \<and> intset_rep is' (if x < 0 then x # vs else vs @ [x])"
proof -
  let ?c = "is_encoding is" and ?n = "intsetValueEncoding x"
  define p :: nat where "p = (if x < 0 then 1 else 0)"
  note r = repD[OF rep] and bnd = rep_len_bound[OF valueEncoding_legal[of x] room]
  have nf: "\<not> fits ?c x" using valueEncoding_iff[OF r(1) x(1)] x(2) by simp
  let ?J = "map junk [length vs * ?c..<(length vs + 1) * ?n]"
  have cn: "length vs * ?c \<le> (length vs + 1) * ?n" using x(2) by (intro mult_le_mono) simp_all
  define is1 where "is1 = intsetResize junk (is\<lparr>is_encoding := ?n\<rparr>) ((length vs + 1) mod 2 ^ 32)"
  have is1: "is1 = is\<lparr>is_encoding := ?n, is_contents := is_contents is @ ?J\<rparr>"
    using bnd cn unfolding is1_def intsetResize_def Let_def
    by (simp add: mem_realloc_grow r(3) length_concat_cells)
  define T where "T = drop ((length vs + 1) * ?n - length vs * ?c - (1 - p) * ?n) ?J"
  define G where "G = take ((length vs + 1) * ?n - length vs * ?c - (1 - p) * ?n) ?J"
  have "?J = G @ T" by (simp add: G_def T_def)
  have pn: "(1 - p) * ?n \<le> (length vs + 1) * ?n - length vs * ?c"
  proof -
    have "length vs * ?c \<le> length vs * ?n" using x(2) by simp
    then have "length vs * ?c + ?n \<le> (length vs + 1) * ?n" by (simp only: add_mult_distrib)
    then have "?n \<le> (length vs + 1) * ?n - length vs * ?c" by linarith
    moreover have "(1 - p) * ?n \<le> ?n" by (simp add: p_def)
    ultimately show ?thesis by (rule le_trans[rotated])
  qed
  have lT: "length T = (1 - p) * ?n" and lG: "length vs * ?c + length G = (length vs + p) * ?n"
    using pn cn by (auto simp: T_def G_def p_def algebra_simps)
  have "\<exists>G'. intsetUpgrade_loop ?c p is1 (length vs) = Some (is1\<lparr>is_contents := G' @
      concat (map (le_enc (is_encoding is1)) vs) @ T\<rparr>) \<and> length G' = p * is_encoding is1"
    using r x(2) lG \<open>?J = G @ T\<close>
    by (intro upgrade_loop_spec[where G = G]) (simp_all add: is1)
  then obtain G' where G': "intsetUpgrade_loop ?c p is1 (length vs) =
      Some (is1\<lparr>is_contents := G' @ concat (map (le_enc ?n) vs) @ T\<rparr>)" "length G' = p * ?n"
    by (auto simp: is1)
  let ?vs = "if x < 0 then x # vs else vs @ [x]"
  let ?is2 = "is1\<lparr>is_contents := G' @ concat (map (le_enc ?n) vs) @ T\<rparr>"
  have st: "(if p = 1 then u_intsetSet ?is2 0 x else u_intsetSet ?is2 (is_length ?is2) x) =
     Some (is1\<lparr>is_contents := concat (map (le_enc ?n) ?vs)\<rparr>)"
  proof (cases "x < 0")
    case True
    then show ?thesis
      using G'(2) lT mem_write_append[of "[]" 0 G' "le_enc ?n x" "concat (map (le_enc ?n) vs)"]
      by (simp add: p_def intsetSet_eq is1)
  next
    case False
    then show ?thesis
      using G'(2) lT r(2) mem_write_append[of "concat (map (le_enc ?n) vs)" "length vs * ?n" T "le_enc ?n x" "[]"]
      by (simp add: p_def intsetSet_eq is1 length_concat_cells)
  qed
  let ?is = "is\<lparr>is_encoding := ?n, is_contents := concat (map (le_enc ?n) ?vs), is_length := length vs + 1\<rparr>"
  have "fits ?n v" if "v \<in> set vs" for v
    using fits_mono[OF r(4)[OF that]] x(2) by simp
  then have "intset_rep ?is ?vs"
    using sorted_new_min[OF r(5) r(1) _ nf] r(4) valueEncoding_fits[OF x(1)] room valueEncoding_legal[of x]
    by (auto simp: intset_rep_def legal_enc_def)
  moreover have "intsetUpgradeAndAdd junk is x = Some ?is"
    unfolding intsetUpgradeAndAdd_def Let_def r(2) is1_def[symmetric] p_def[symmetric]
      G'(1) Option.bind.bind_lunit st
    using bnd(2) r(2) by (simp add: is1)
  ultimately show ?thesis by blast
qed

lemma ok_rep: "intset_ok is \<Longrightarrow> intset_rep is (intset_vals is)"
proof -
  assume a: "intset_ok is"
  let ?e = "is_encoding is"
  have e: "0 < ?e" using a by (auto simp: intset_ok_def)
  have cell: "length (take ?e (drop (i * ?e) (is_contents is))) = ?e" if "i < is_length is" for i
  proof -
    have "(i + 1) * ?e \<le> is_length is * ?e" using that by (intro mult_le_mono1) simp
    then show ?thesis using a by (simp add: intset_ok_def)
  qed
  have "map (le_enc ?e) (intset_vals is) = map (\<lambda>i. take ?e (drop (i * ?e) (is_contents is))) [0..<is_length is]"
    using to_signed_back(1)[OF cell e] by (simp add: intset_vals_def)
  then have "concat (map (le_enc ?e) (intset_vals is)) = is_contents is"
    using cells_of_bytes[of "is_contents is" "is_length is" ?e] a by (simp add: intset_ok_def)
  moreover have "\<forall>v\<in>set (intset_vals is). fits ?e v"
    using to_signed_back(2)[OF cell e] by (auto simp: intset_vals_def)
  ultimately show ?thesis
    using a by (simp add: intset_rep_def intset_ok_def) (simp add: intset_vals_def)
qed

lemma rep_ok: "intset_rep is vs \<Longrightarrow> intset_ok is \<and> intset_vals is = vs"
proof -
  assume a: "intset_rep is vs"
  note r = repD[OF a]
  let ?e = "is_encoding is"
  have "take ?e (drop (i * ?e) (is_contents is)) = le_enc ?e (vs ! i)" if "i < length vs" for i
    using cells_read[of "le_enc ?e" ?e i vs "[]"] that r(3) by (simp add: mem_read_def split: if_splits)
  then have v: "intset_vals is = vs"
    using r by (auto simp: intset_vals_def to_signed_mod codec_simps legal_enc_pos intro!: nth_equalityI)
  with r show ?thesis by (simp add: intset_ok_def legal_enc_def length_concat_cells)
qed

section \<open>Operations on well-formed sets\<close>

lemma ok_sorted: "intset_ok is \<Longrightarrow> sorted_wrt (<) (intset_vals is)"
  by (simp add: intset_ok_def)

lemma ok_distinct: "intset_ok is \<Longrightarrow> distinct (intset_vals is)"
  using ok_sorted strict_sorted_iff by blast

lemma ok_card: "intset_ok is \<Longrightarrow> card (intset_elems is) = length (intset_vals is)"
  by (simp add: intset_elems_def distinct_card ok_distinct)

lemma ok_length: "intset_ok is \<Longrightarrow> length (intset_vals is) = is_length is"
  by (simp add: intset_vals_def)

lemma intsetAdd_ok:
  assumes ok: "intset_ok is" and x: "fits 8 x" and room: "card (intset_elems is) < 2 ^ 29 - 1"
  shows "\<exists>is'. intsetAdd junk is x = Some (is', x \<notin> intset_elems is) \<and> intset_ok is' \<and>
    intset_elems is' = insert x (intset_elems is)"
proof -
  let ?vs = "intset_vals is"
  note rep = ok_rep[OF ok]
  have room': "(length ?vs + 1) * 8 < 2 ^ 32" using room ok_card[OF ok] by simp
  show ?thesis
  proof (cases "is_encoding is < intsetValueEncoding x")
    case True
    obtain is' where is': "intsetUpgradeAndAdd junk is x = Some is'"
      "intset_rep is' (if x < 0 then x # ?vs else ?vs @ [x])"
      using upgrade_spec[OF rep room' x True] by blast
    have "x \<notin> set ?vs"
      using valueEncoding_iff[OF repD(1)[OF rep] x] True repD(4)[OF rep] by auto
    then show ?thesis
      using True is' rep_ok[OF is'(2)] by (auto simp: intsetAdd_def Let_def intset_elems_def)
  next
    case False
    then have fit: "fits (is_encoding is) x"
      using valueEncoding_iff[OF repD(1)[OF rep] x] by simp
    obtain pos where sr: "intsetSearch is x = Some (x \<in> set ?vs, pos)"
      and pos: "if x \<in> set ?vs then pos < length ?vs \<and> ?vs ! pos = x
        else pos \<le> length ?vs \<and> (\<forall>v\<in>set (take pos ?vs). v < x) \<and> (\<forall>v\<in>set (drop pos ?vs). x < v)"
      using search_spec[OF rep] by blast
    show ?thesis
    proof (cases "x \<in> set ?vs")
      case True
      then show ?thesis using False sr ok
        by (auto simp: intsetAdd_def Let_def intset_elems_def)
    next
      case nin: False
      then obtain is' where "intsetAdd junk is x = Some (is', True)"
        "intset_rep is' (take pos ?vs @ x # drop pos ?vs)"
        using False sr pos add_in_place[OF rep _ room' fit, of pos junk]
        by (auto simp: intsetAdd_def Let_def)
      moreover have "insert x (set ?vs) = set (take pos ?vs @ x # drop pos ?vs)"
        by (metis append_take_drop_id set_append Un_insert_right list.simps(15))
      ultimately show ?thesis
        using nin rep_ok by (auto simp: intset_elems_def)
    qed
  qed
qed

lemma intsetRemove_ok:
  assumes ok: "intset_ok is" and x: "fits 8 x"
  shows "\<exists>is'. intsetRemove junk is x = Some (is', x \<in> intset_elems is) \<and> intset_ok is' \<and>
    intset_elems is' = intset_elems is - {x}"
proof -
  let ?vs = "intset_vals is"
  note rep = ok_rep[OF ok]
  show ?thesis
  proof (cases "intsetValueEncoding x \<le> is_encoding is")
    case False
    then have "x \<notin> set ?vs"
      using valueEncoding_iff[OF repD(1)[OF rep] x] repD(4)[OF rep] by auto
    then show ?thesis using False ok by (auto simp: intsetRemove_def Let_def intset_elems_def)
  next
    case True
    obtain pos where sr: "intsetSearch is x = Some (x \<in> set ?vs, pos)"
      and pos: "x \<in> set ?vs \<Longrightarrow> pos < length ?vs \<and> ?vs ! pos = x"
      using search_spec[OF rep, of x] by (metis (full_types))
    show ?thesis
    proof (cases "x \<in> set ?vs")
      case nin: False
      then show ?thesis using True sr ok by (auto simp: intsetRemove_def Let_def intset_elems_def)
    next
      case mem: True
      then have p: "pos < length ?vs" "?vs ! pos = x" using pos by auto
      obtain is' where is': "intsetRemove junk is x = Some (is', True)"
        "intset_rep is' (take pos ?vs @ drop (Suc pos) ?vs)"
        using True sr mem remove_in_place[OF rep p(1), of junk]
        by (auto simp: intsetRemove_def Let_def)
      have "?vs = take pos ?vs @ x # drop (Suc pos) ?vs"
        using id_take_nth_drop[OF p(1)] p(2) by simp
      then have "set (take pos ?vs @ drop (Suc pos) ?vs) = set ?vs - {x}"
        using ok_distinct[OF ok]
        by (metis (no_types, lifting) Diff_insert_absorb Un_insert_right distinct.simps(2)
            distinct_append disjoint_insert(2) Un_iff list.simps(15) set_append)
      then show ?thesis
        using mem is' rep_ok by (auto simp: intset_elems_def)
    qed
  qed
qed

lemma intsetFind_ok:
  assumes ok: "intset_ok is" and x: "fits 8 x"
  shows "intsetFind is x = Some (x \<in> intset_elems is)"
proof -
  note rep = ok_rep[OF ok]
  obtain pos where "intsetSearch is x = Some (x \<in> set (intset_vals is), pos)"
    using search_spec[OF rep] by blast
  then show ?thesis
    using valueEncoding_iff[OF repD(1)[OF rep] x] repD(4)[OF rep]
    by (auto simp: intsetFind_def intset_elems_def)
qed

lemma intsetNew_ok: "intset_ok intsetNew" "intset_elems intsetNew = {}"
  by (simp_all add: intset_ok_def intsetNew_def intset_vals_def intset_elems_def)

interpretation iset: set_impl intsetNew "intsetAdd junk" "intsetRemove junk" "\<lambda>is x. map_option (Pair is) (intsetFind is x)" "\<lambda>x. x"
    intset_elems intset_ok "fits 8" "2 ^ 29 - 1" for junk
proof unfold_locales
  show "finite (intset_elems s)" for s by (simp add: intset_elems_def)
qed (use intsetNew_ok intsetAdd_ok intsetRemove_ok intsetFind_ok in auto)

section \<open>Properties\<close>

text \<open>C14. \<open>intsetAdd\<close> on a well-formed integer set performs no out-of-bounds access whatever the allocator
  leaves in grown memory, keeps the set well-formed (sorted, in the narrowest encoding reached,
  upgraded in place when the value is too wide), reports success exactly when the value is new,
  and the members afterwards are the old ones and the value.\<close>

theorem intsetAdd_correct:
  assumes "intset_ok is" "fits 8 x" "card (intset_elems is) < 2 ^ 29 - 1"
  shows "\<exists>is'. intsetAdd junk is x = Some (is', x \<notin> intset_elems is) \<and> intset_ok is' \<and>
    intset_elems is' = insert x (intset_elems is)"
  using assms by (rule intsetAdd_ok)

theorem intsetAdd_correct_witness:
  "\<exists>is'. intsetAdd (\<lambda>_. 170) \<lparr>is_encoding = 2, is_length = 1, is_contents = [5, 0]\<rparr> 70000 = Some (is', True) \<and>
     intset_ok is' \<and> intset_elems is' = {5, 70000}"
  using intsetAdd_correct[of "\<lparr>is_encoding = 2, is_length = 1, is_contents = [5, 0]\<rparr>" 70000 "\<lambda>_. 170"]
  by (simp add: intset_ok_def intset_vals_def intset_elems_def to_signed_def fits_def insert_commute)

text \<open>\<open>intsetRemove\<close> on a well-formed integer set performs no out-of-bounds access, keeps it
  well-formed, reports success exactly when the value was a member, and removes exactly it.\<close>

lemma intsetRemove_correct:
  assumes "intset_ok is" "fits 8 x"
  shows "\<exists>is'. intsetRemove junk is x = Some (is', x \<in> intset_elems is) \<and> intset_ok is' \<and>
    intset_elems is' = intset_elems is - {x}"
  using assms by (rule intsetRemove_ok)

text \<open>Membership: the binary search of \<open>intsetFind\<close> returns, stays in bounds and decides
  membership.\<close>

lemma intsetFind_correct:
  assumes "intset_ok is" "fits 8 x"
  shows "intsetFind is x = Some (x \<in> intset_elems is)"
  using assms by (rule intsetFind_ok)

text \<open>The members are stored in increasing order: \<open>intsetGet\<close> with a position in range yields the
  member of that rank, with a position out of range it reports failure, and \<open>intsetRandom\<close> yields
  a member whenever the set is not empty.\<close>

lemma intsetGet_rank:
  assumes "intset_ok is"
  shows "intsetGet is pos = Some (if pos < card (intset_elems is)
      then Some (sorted_list_of_set (intset_elems is) ! pos) else None) \<and>
    (intset_elems is \<noteq> {} \<longrightarrow> (\<exists>v\<in>intset_elems is. intsetRandom r is = Some v))"
proof -
  note rep = ok_rep[OF assms] and len = ok_length[OF assms]
  have "sorted_list_of_set (intset_elems is) = intset_vals is"
    unfolding intset_elems_def
    by (rule sorted_distinct_set_unique) (use ok_sorted[OF assms] ok_distinct[OF assms] strict_sorted_iff in auto)
  moreover have "\<exists>v\<in>set (intset_vals is). intsetRandom r is = Some v" if "intset_vals is \<noteq> []"
  proof -
    have "r mod is_length is < length (intset_vals is)" using that len by (metis length_greater_0_conv mod_less_divisor)
    then show ?thesis using rep_get[OF rep] that len
      by (metis intsetRandom_def length_0_conv nth_mem)
  qed
  ultimately show ?thesis
    using rep_get[OF rep] len ok_card[OF assms] by (simp add: intsetGet_def intset_elems_def)
qed

end
