(* ===== verification/Redis_Dict.thy ===== *)
theory Redis_Dict
  imports Redis_Interfaces "HOL-Library.Multiset"
begin

unbundle bit_operations_syntax

text \<open>
  \<open>dict.c\<close>: the chained hash table with incremental rehashing that holds the keyspace, sets, hashes
  and most of the server's own tables.

  A \<open>dict\<close> keeps two tables; while \<open>rehashidx\<close> is not \<open>-1\<close> the buckets of the first are moved, one per
  operation, to the second.  A bucket is the list of its entries from the head of the chain; a
  pointer to an entry is the triple of its table, bucket and position in the chain.  The bucket array
  is a list, empty for the null pointer, and an access outside it (as well as a failed \<open>assert\<close>) is
  \<open>None\<close>.  The hash and comparison functions come from the \<open>dictType\<close>.  The file-level flag
  \<open>dict_can_resize\<close> is the argument \<open>can_resize\<close> of the operations that read it, the hash seed the argument
  \<open>seed\<close> of the hash functions.  \<open>junk\<close> is what \<open>zmalloc\<close> leaves in the value field of a new entry.

  \<open>dict_map\<close> is the finite map a dictionary stands for and \<open>dict_ok\<close> the representation invariant.
\<close>

section \<open>The code\<close>

record ('k, 'v) dictht =
  ht_table :: "('k \<times> 'v) list list"
  ht_size :: nat
  ht_sizemask :: nat
  ht_used :: nat

record 'k dictType =
  hashFunction :: "'k \<Rightarrow> 32 word"
  keyCompare :: "'k \<Rightarrow> 'k \<Rightarrow> bool"

record ('k, 'v) dict =
  d_ht0 :: "('k, 'v) dictht"
  d_ht1 :: "('k, 'v) dictht"
  d_rehashidx :: int
  d_iterators :: nat

type_synonym entry_ptr = "nat \<times> nat \<times> nat"

definition dictIntHashFunction :: "32 word \<Rightarrow> 32 word" where
  "dictIntHashFunction key = (
     let key = key + NOT (push_bit 15 key);
         key = key XOR drop_bit 10 key;
         key = key + push_bit 3 key;
         key = key XOR drop_bit 6 key;
         key = key + NOT (push_bit 11 key);
         key = key XOR drop_bit 16 key
     in key)"

text \<open>The mixing loop of \<open>dictGenHashFunction\<close> and its tail; \<open>m\<close> is the constant of the source.\<close>

fun dictGenHash_loop :: "32 word \<Rightarrow> bytes \<Rightarrow> 32 word \<times> bytes" where
  "dictGenHash_loop h (b0 # b1 # b2 # b3 # rest) = (
     let m = 0x5bd1e995;
         k = word_of_int (le_dec [b0, b1, b2, b3]);
         k = k * m;
         k = k XOR drop_bit 24 k;
         k = k * m;
         h = h * m;
         h = h XOR k
     in dictGenHash_loop h rest)"
| "dictGenHash_loop h rest = (h, rest)"

definition dictGenHashFunction :: "32 word \<Rightarrow> bytes \<Rightarrow> 32 word" where
  "dictGenHashFunction seed key = (
     let m = 0x5bd1e995;
         (h, data) = dictGenHash_loop (seed XOR of_nat (length key)) key;
         h = (if length data = 3 then h XOR push_bit 16 (ucast (data ! 2)) else h);
         h = (if length data \<ge> 2 then h XOR push_bit 8 (ucast (data ! 1)) else h);
         h = (if length data \<ge> 1 then (h XOR ucast (data ! 0)) * m else h);
         h = h XOR drop_bit 13 h;
         h = h * m;
         h = h XOR drop_bit 15 h
     in h)"

definition tolower :: "byte \<Rightarrow> byte" where
  "tolower c = (if 65 \<le> c \<and> c \<le> 90 then c + 32 else c)"

definition dictGenCaseHashFunction :: "32 word \<Rightarrow> bytes \<Rightarrow> 32 word" where
  "dictGenCaseHashFunction seed buf =
     foldl (\<lambda>hash c. (push_bit 5 hash + hash) + ucast (tolower c)) seed buf"

definition dictReset :: "('k, 'v) dictht" where
  "dictReset = \<lparr>ht_table = [], ht_size = 0, ht_sizemask = 0, ht_used = 0\<rparr>"

definition dictCreate :: "('k, 'v) dict" where
  "dictCreate = \<lparr>d_ht0 = dictReset, d_ht1 = dictReset, d_rehashidx = -1, d_iterators = 0\<rparr>"

definition dictIsRehashing :: "('k, 'v) dict \<Rightarrow> bool" where
  "dictIsRehashing d \<longleftrightarrow> d_rehashidx d \<noteq> -1"

definition dictSize :: "('k, 'v) dict \<Rightarrow> nat" where
  "dictSize d = ht_used (d_ht0 d) + ht_used (d_ht1 d)"

definition bucket :: "('k, 'v) dictht \<Rightarrow> nat \<Rightarrow> ('k \<times> 'v) list option" where
  "bucket ht i = (if i < length (ht_table ht) then Some (ht_table ht ! i) else None)"

definition set_bucket :: "('k, 'v) dictht \<Rightarrow> nat \<Rightarrow> ('k \<times> 'v) list \<Rightarrow> ('k, 'v) dictht option" where
  "set_bucket ht i b =
     (if i < length (ht_table ht) then Some (ht\<lparr>ht_table := (ht_table ht)[i := b]\<rparr>) else None)"

text \<open>\<open>_dictNextPower\<close>: doubling in 64-bit arithmetic; that it stops is proved below.\<close>

partial_function (option) dictNextPower_loop :: "nat \<Rightarrow> nat \<Rightarrow> nat option" where
  "dictNextPower_loop i sz = (if i \<ge> sz then Some i else dictNextPower_loop (i * 2 mod 2 ^ 64) sz)"

declare dictNextPower_loop.simps [code]

definition dictNextPower :: "nat \<Rightarrow> nat option" where
  "dictNextPower sz = (if sz \<ge> 2 ^ 63 - 1 then Some (2 ^ 63 - 1) else dictNextPower_loop 4 sz)"

definition dictExpand :: "('k, 'v) dict \<Rightarrow> nat \<Rightarrow> (('k, 'v) dict \<times> bool) option" where
  "dictExpand d sz = do {
     realsize \<leftarrow> dictNextPower sz;
     (if dictIsRehashing d \<or> ht_used (d_ht0 d) > sz then Some (d, False)
      else if realsize = ht_size (d_ht0 d) then Some (d, False)
      else let n = \<lparr>ht_table = replicate realsize [], ht_size = realsize,
                    ht_sizemask = realsize - 1, ht_used = 0\<rparr>
           in if ht_table (d_ht0 d) = [] then Some (d\<lparr>d_ht0 := n\<rparr>, True)
              else Some (d\<lparr>d_ht1 := n, d_rehashidx := 0\<rparr>, True))
   }"

definition dictResize :: "bool \<Rightarrow> ('k, 'v) dict \<Rightarrow> (('k, 'v) dict \<times> bool) option" where
  "dictResize can_resize d =
     (if \<not> can_resize \<or> dictIsRehashing d then Some (d, False)
      else let minimal = to_signed 4 (int (ht_used (d_ht0 d)) mod 2 ^ 32);
               minimal = (if minimal < 4 then 4 else minimal)
           in dictExpand d (nat (minimal mod 2 ^ 64)))"

text \<open>
  \<open>dictRehash\<close>.  The scan for the next non-empty bucket either finds it (\<open>Inr\<close> with the index and
  the visits left) or uses up the visits (\<open>Inl\<close> with the index reached).
\<close>

function dictRehash_skip ::
    "('k, 'v) dictht \<Rightarrow> nat \<Rightarrow> int \<Rightarrow> (nat + nat \<times> int) option" where
  "dictRehash_skip ht idx ev =
     (if idx < length (ht_table ht) then
        (if ht_table ht ! idx = [] then
           (if ev - 1 = 0 then Some (Inl (idx + 1)) else dictRehash_skip ht (idx + 1) (ev - 1))
         else Some (Inr (idx, ev)))
      else None)"
  by pat_completeness auto
termination
  by (relation "measure (\<lambda>(ht, idx, ev). length (ht_table ht) - idx)") auto

declare dictRehash_skip.simps [simp del]

fun dictRehash_move :: "'k dictType \<Rightarrow> ('k, 'v) dict \<Rightarrow> ('k \<times> 'v) list \<Rightarrow> ('k, 'v) dict option" where
  "dictRehash_move ty d [] = Some d"
| "dictRehash_move ty d ((k, v) # de) = do {
     let h = unat (hashFunction ty k) AND ht_sizemask (d_ht1 d);
     b \<leftarrow> bucket (d_ht1 d) h;
     ht1 \<leftarrow> set_bucket (d_ht1 d) h ((k, v) # b);
     dictRehash_move ty
       (d\<lparr>d_ht0 := (d_ht0 d)\<lparr>ht_used := ht_used (d_ht0 d) - 1\<rparr>,
          d_ht1 := ht1\<lparr>ht_used := ht_used ht1 + 1\<rparr>\<rparr>) de
   }"

definition dictRehash_finish :: "('k, 'v) dict \<Rightarrow> ('k, 'v) dict \<times> bool" where
  "dictRehash_finish d =
     (if ht_used (d_ht0 d) = 0
      then (d\<lparr>d_ht0 := d_ht1 d, d_ht1 := dictReset, d_rehashidx := -1\<rparr>, False)
      else (d, True))"

fun dictRehash_loop :: "'k dictType \<Rightarrow> ('k, 'v) dict \<Rightarrow> nat \<Rightarrow> int \<Rightarrow> (('k, 'v) dict \<times> bool) option" where
  "dictRehash_loop ty d 0 ev = Some (dictRehash_finish d)"
| "dictRehash_loop ty d (Suc n) ev =
     (if ht_used (d_ht0 d) = 0 then Some (dictRehash_finish d)
      else if \<not> (int (ht_size (d_ht0 d)) > d_rehashidx d) then None
      else do {
        r \<leftarrow> dictRehash_skip (d_ht0 d) (nat (d_rehashidx d)) ev;
        (case r of
           Inl idx \<Rightarrow> Some (d\<lparr>d_rehashidx := int idx\<rparr>, True)
         | Inr (idx, ev) \<Rightarrow> do {
             de \<leftarrow> bucket (d_ht0 d) idx;
             d \<leftarrow> dictRehash_move ty d de;
             ht0 \<leftarrow> set_bucket (d_ht0 d) idx [];
             dictRehash_loop ty (d\<lparr>d_ht0 := ht0, d_rehashidx := int idx + 1\<rparr>) n ev
           })
      })"

definition dictRehash :: "'k dictType \<Rightarrow> ('k, 'v) dict \<Rightarrow> nat \<Rightarrow> (('k, 'v) dict \<times> bool) option" where
  "dictRehash ty d n =
     (if \<not> dictIsRehashing d then Some (d, False) else dictRehash_loop ty d n (int n * 10))"

text \<open>
  \<open>dictRehashMilliseconds\<close>: \<open>clock i\<close> is the reading of the \<open>i\<close>-th call of \<open>timeInMilliseconds\<close>, the
  first being the start.
\<close>

partial_function (option) dictRehashMs_loop ::
    "'k dictType \<Rightarrow> (nat \<Rightarrow> int) \<Rightarrow> int \<Rightarrow> nat \<Rightarrow> ('k, 'v) dict \<Rightarrow> nat \<Rightarrow> (('k, 'v) dict \<times> nat) option" where
  "dictRehashMs_loop ty clock ms i d rehashes = do {
     (d, more) \<leftarrow> dictRehash ty d 100;
     (if \<not> more then Some (d, rehashes)
      else if clock i - clock 0 > ms then Some (d, rehashes + 100)
      else dictRehashMs_loop ty clock ms (i + 1) d (rehashes + 100))
   }"

declare dictRehashMs_loop.simps [code]

definition dictRehashMilliseconds ::
    "'k dictType \<Rightarrow> (nat \<Rightarrow> int) \<Rightarrow> ('k, 'v) dict \<Rightarrow> int \<Rightarrow> (('k, 'v) dict \<times> nat) option" where
  "dictRehashMilliseconds ty clock d ms = dictRehashMs_loop ty clock ms 1 d 0"

definition dictRehashStep :: "'k dictType \<Rightarrow> ('k, 'v) dict \<Rightarrow> ('k, 'v) dict option" where
  "dictRehashStep ty d =
     (if d_iterators d = 0 then map_option fst (dictRehash ty d 1) else Some d)"

text \<open>The walk along a chain for a key: the position of the first match.\<close>

fun chain_find :: "('k \<Rightarrow> bool) \<Rightarrow> ('k \<times> 'v) list \<Rightarrow> nat option" where
  "chain_find p [] = None"
| "chain_find p ((k, v) # es) = (if p k then Some 0 else map_option Suc (chain_find p es))"

text \<open>The loop over the tables shared by \<open>dictFind\<close>, \<open>dictGenericDelete\<close> and \<open>_dictKeyIndex\<close>.\<close>

definition dict_search :: "'k dictType \<Rightarrow> ('k, 'v) dict \<Rightarrow> 'k \<Rightarrow> entry_ptr option option" where
  "dict_search ty d key = (
     let h = unat (hashFunction ty key);
         idx0 = h AND ht_sizemask (d_ht0 d)
     in do {
       he \<leftarrow> bucket (d_ht0 d) idx0;
       (case chain_find (keyCompare ty key) he of
          Some p \<Rightarrow> Some (Some (0, idx0, p))
        | None \<Rightarrow>
            if \<not> dictIsRehashing d then Some None
            else let idx1 = h AND ht_sizemask (d_ht1 d) in do {
              he \<leftarrow> bucket (d_ht1 d) idx1;
              (case chain_find (keyCompare ty key) he of
                 Some p \<Rightarrow> Some (Some (1, idx1, p))
               | None \<Rightarrow> Some None)
            })
     })"

definition dictFind :: "'k dictType \<Rightarrow> ('k, 'v) dict \<Rightarrow> 'k \<Rightarrow> (('k, 'v) dict \<times> entry_ptr option) option" where
  "dictFind ty d key =
     (if ht_size (d_ht0 d) = 0 then Some (d, None)
      else do {
        d \<leftarrow> (if dictIsRehashing d then dictRehashStep ty d else Some d);
        r \<leftarrow> dict_search ty d key;
        Some (d, r)
      })"

definition dictGetVal :: "('k, 'v) dict \<Rightarrow> entry_ptr \<Rightarrow> 'v option" where
  "dictGetVal d e = (case e of (t, i, p) \<Rightarrow> do {
     b \<leftarrow> bucket (if t = 0 then d_ht0 d else d_ht1 d) i;
     (if p < length b then Some (snd (b ! p)) else None)
   })"

definition dictSetVal :: "('k, 'v) dict \<Rightarrow> entry_ptr \<Rightarrow> 'v \<Rightarrow> ('k, 'v) dict option" where
  "dictSetVal d e v = (case e of (t, i, p) \<Rightarrow> do {
     b \<leftarrow> bucket (if t = 0 then d_ht0 d else d_ht1 d) i;
     (if p < length b then do {
        ht \<leftarrow> set_bucket (if t = 0 then d_ht0 d else d_ht1 d) i (b[p := (fst (b ! p), v)]);
        Some (if t = 0 then d\<lparr>d_ht0 := ht\<rparr> else d\<lparr>d_ht1 := ht\<rparr>)
      } else None)
   })"

definition dictFetchValue :: "'k dictType \<Rightarrow> ('k, 'v) dict \<Rightarrow> 'k \<Rightarrow> (('k, 'v) dict \<times> 'v option) option" where
  "dictFetchValue ty d key = do {
     (d, he) \<leftarrow> dictFind ty d key;
     (case he of None \<Rightarrow> Some (d, None)
      | Some e \<Rightarrow> do { v \<leftarrow> dictGetVal d e; Some (d, Some v) })
   }"

definition dictExpandIfNeeded :: "bool \<Rightarrow> ('k, 'v) dict \<Rightarrow> (('k, 'v) dict \<times> bool) option" where
  "dictExpandIfNeeded can_resize d =
     (if dictIsRehashing d then Some (d, True)
      else if ht_size (d_ht0 d) = 0 then dictExpand d 4
      else if ht_used (d_ht0 d) \<ge> ht_size (d_ht0 d) \<and>
              (can_resize \<or> ht_used (d_ht0 d) div ht_size (d_ht0 d) > 5)
      then dictExpand d (ht_used (d_ht0 d) * 2 mod 2 ^ 64)
      else Some (d, True))"

text \<open>\<open>_dictKeyIndex\<close> returns a C \<open>int\<close>: the bucket index converted to 32-bit signed, or \<open>-1\<close>.\<close>

definition dictKeyIndex :: "'k dictType \<Rightarrow> bool \<Rightarrow> ('k, 'v) dict \<Rightarrow> 'k \<Rightarrow> (('k, 'v) dict \<times> int) option" where
  "dictKeyIndex ty can_resize d key = do {
     (d, ok) \<leftarrow> dictExpandIfNeeded can_resize d;
     (if \<not> ok then Some (d, -1)
      else do {
        r \<leftarrow> dict_search ty d key;
        (case r of
           Some _ \<Rightarrow> Some (d, -1)
         | None \<Rightarrow>
             let idx = unat (hashFunction ty key) AND
                       ht_sizemask (if dictIsRehashing d then d_ht1 d else d_ht0 d)
             in Some (d, to_signed 4 (int idx)))
      })
   }"

definition dictAddRaw :: "'k dictType \<Rightarrow> bool \<Rightarrow> 'v \<Rightarrow> ('k, 'v) dict \<Rightarrow> 'k \<Rightarrow>
    (('k, 'v) dict \<times> entry_ptr option) option" where
  "dictAddRaw ty can_resize junk d key = do {
     d \<leftarrow> (if dictIsRehashing d then dictRehashStep ty d else Some d);
     (d, index) \<leftarrow> dictKeyIndex ty can_resize d key;
     (if index = -1 then Some (d, None)
      else if index < 0 then None
      else if dictIsRehashing d then do {
        b \<leftarrow> bucket (d_ht1 d) (nat index);
        ht \<leftarrow> set_bucket (d_ht1 d) (nat index) ((key, junk) # b);
        Some (d\<lparr>d_ht1 := ht\<lparr>ht_used := ht_used ht + 1\<rparr>\<rparr>, Some (1, nat index, 0))
      } else do {
        b \<leftarrow> bucket (d_ht0 d) (nat index);
        ht \<leftarrow> set_bucket (d_ht0 d) (nat index) ((key, junk) # b);
        Some (d\<lparr>d_ht0 := ht\<lparr>ht_used := ht_used ht + 1\<rparr>\<rparr>, Some (0, nat index, 0))
      })
   }"

definition dictAdd :: "'k dictType \<Rightarrow> bool \<Rightarrow> 'v \<Rightarrow> ('k, 'v) dict \<Rightarrow> 'k \<Rightarrow> 'v \<Rightarrow>
    (('k, 'v) dict \<times> bool) option" where
  "dictAdd ty can_resize junk d key val = do {
     (d, entry) \<leftarrow> dictAddRaw ty can_resize junk d key;
     (case entry of None \<Rightarrow> Some (d, False)
      | Some e \<Rightarrow> do { d \<leftarrow> dictSetVal d e val; Some (d, True) })
   }"

definition dictReplace :: "'k dictType \<Rightarrow> bool \<Rightarrow> 'v \<Rightarrow> ('k, 'v) dict \<Rightarrow> 'k \<Rightarrow> 'v \<Rightarrow>
    (('k, 'v) dict \<times> bool) option" where
  "dictReplace ty can_resize junk d key val = do {
     (d, added) \<leftarrow> dictAdd ty can_resize junk d key val;
     (if added then Some (d, True)
      else do {
        (d, entry) \<leftarrow> dictFind ty d key;
        e \<leftarrow> entry;
        d \<leftarrow> dictSetVal d e val;
        Some (d, False)
      })
   }"

definition dictReplaceRaw :: "'k dictType \<Rightarrow> bool \<Rightarrow> 'v \<Rightarrow> ('k, 'v) dict \<Rightarrow> 'k \<Rightarrow>
    (('k, 'v) dict \<times> entry_ptr option) option" where
  "dictReplaceRaw ty can_resize junk d key = do {
     (d, entry) \<leftarrow> dictFind ty d key;
     (case entry of Some e \<Rightarrow> Some (d, Some e) | None \<Rightarrow> dictAddRaw ty can_resize junk d key)
   }"

definition dictGenericDelete :: "'k dictType \<Rightarrow> ('k, 'v) dict \<Rightarrow> 'k \<Rightarrow> (('k, 'v) dict \<times> bool) option" where
  "dictGenericDelete ty d key =
     (if ht_size (d_ht0 d) = 0 then Some (d, False)
      else do {
        d \<leftarrow> (if dictIsRehashing d then dictRehashStep ty d else Some d);
        r \<leftarrow> dict_search ty d key;
        (case r of
           None \<Rightarrow> Some (d, False)
         | Some (t, i, p) \<Rightarrow> do {
             let ht = (if t = 0 then d_ht0 d else d_ht1 d);
             b \<leftarrow> bucket ht i;
             ht \<leftarrow> set_bucket ht i (take p b @ drop (Suc p) b);
             let ht = ht\<lparr>ht_used := ht_used ht - 1\<rparr>;
             Some (if t = 0 then d\<lparr>d_ht0 := ht\<rparr> else d\<lparr>d_ht1 := ht\<rparr>, True)
           })
      })"

definition dictDelete :: "'k dictType \<Rightarrow> ('k, 'v) dict \<Rightarrow> 'k \<Rightarrow> (('k, 'v) dict \<times> bool) option" where
  "dictDelete ty d key = dictGenericDelete ty d key"

definition dictEmpty :: "('k, 'v) dict \<Rightarrow> ('k, 'v) dict" where
  "dictEmpty d = d\<lparr>d_ht0 := dictReset, d_ht1 := dictReset, d_rehashidx := -1, d_iterators := 0\<rparr>"

text \<open>The \<open>dictType\<close> of the keyspace in \<open>redis.c\<close>: \<open>dictSdsHash\<close> and \<open>dictSdsKeyCompare\<close>.\<close>

definition dictSdsKeyCompare :: "bytes \<Rightarrow> bytes \<Rightarrow> bool" where
  "dictSdsKeyCompare key1 key2 =
     (let l1 = length key1; l2 = length key2
      in if l1 \<noteq> l2 then False else take l1 key1 = take l1 key2)"

definition dictSdsHash :: "32 word \<Rightarrow> bytes \<Rightarrow> 32 word" where
  "dictSdsHash seed key = dictGenHashFunction seed key"

definition dbDictType :: "32 word \<Rightarrow> bytes dictType" where
  "dbDictType seed = \<lparr>hashFunction = dictSdsHash seed, keyCompare = dictSdsKeyCompare\<rparr>"

section \<open>Abstraction and invariant\<close>

definition ht_entries :: "('k, 'v) dictht \<Rightarrow> ('k \<times> 'v) list" where
  "ht_entries ht = concat (ht_table ht)"

definition dict_entries :: "('k, 'v) dict \<Rightarrow> ('k \<times> 'v) list" where
  "dict_entries d = ht_entries (d_ht0 d) @ ht_entries (d_ht1 d)"

definition dict_map :: "('k, 'v) dict \<Rightarrow> 'k \<rightharpoonup> 'v" where
  "dict_map d = map_of (dict_entries d)"

text \<open>A live table: a power of two buckets below \<open>2\<^sup>3\<^sup>1\<close>, every entry in the bucket its hash names.\<close>

definition ht_live :: "'k dictType \<Rightarrow> ('k, 'v) dictht \<Rightarrow> bool" where
  "ht_live ty ht \<longleftrightarrow>
     (\<exists>p \<le> 31. ht_size ht = 2 ^ p) \<and> ht_sizemask ht = ht_size ht - 1 \<and>
     length (ht_table ht) = ht_size ht \<and> ht_used ht = length (ht_entries ht) \<and>
     (\<forall>i < ht_size ht. \<forall>e \<in> set (ht_table ht ! i). unat (hashFunction ty (fst e)) AND ht_sizemask ht = i)"

definition dict_ok :: "'k dictType \<Rightarrow> ('k, 'v) dict \<Rightarrow> bool" where
  "dict_ok ty d \<longleftrightarrow>
     distinct (map fst (dict_entries d)) \<and>
     (if dictIsRehashing d
      then ht_live ty (d_ht0 d) \<and> ht_live ty (d_ht1 d) \<and> 0 \<le> d_rehashidx d \<and>
           d_rehashidx d \<le> int (ht_size (d_ht0 d)) \<and>
           (\<forall>i < nat (d_rehashidx d). ht_table (d_ht0 d) ! i = [])
      else (ht_live ty (d_ht0 d) \<or> d_ht0 d = dictReset) \<and> d_ht1 d = dictReset)"

text \<open>What a call of \<open>dictRehash\<close> guarantees, and when a pointer designates the entry of a key.\<close>

definition rehash_post :: "'k dictType \<Rightarrow> ('k, 'v) dict \<Rightarrow> ('k, 'v) dict \<Rightarrow> bool" where
  "rehash_post ty d d' \<longleftrightarrow> dict_ok ty d' \<and> mset (dict_entries d') = mset (dict_entries d) \<and>
     d_iterators d' = d_iterators d \<and> ht_size (d_ht0 d') \<noteq> 0 \<and>
     (dictIsRehashing d' \<longrightarrow> ht_size (d_ht0 d') = ht_size (d_ht0 d) \<and> d_rehashidx d \<le> d_rehashidx d')"

definition ptr_ok :: "('k, 'v) dict \<Rightarrow> 'k \<Rightarrow> entry_ptr \<Rightarrow> bool" where
  "ptr_ok d key e \<longleftrightarrow> (case e of (t, i, p) \<Rightarrow>
     let ht = (if t = 0 then d_ht0 d else d_ht1 d) in
     (t = 0 \<or> dictIsRehashing d) \<and> i < length (ht_table ht) \<and> p < length (ht_table ht ! i) \<and>
     fst (ht_table ht ! i ! p) = key)"

section \<open>Correctness\<close>

subsection \<open>Association lists up to permutation\<close>

lemma assoc_perm:
  assumes "distinct (map fst xs)" "mset xs = mset ys"
  shows "distinct (map fst ys) \<and> map_of ys = map_of xs"
proof
  have "mset (map fst xs) = mset (map fst ys)" using assms(2) by simp
  then show d: "distinct (map fst ys)" using assms(1) mset_eq_imp_distinct_iff by blast
  have "map_of ys k = Some v \<longleftrightarrow> map_of xs k = Some v" for k v
    using d assms mset_eq_setD[OF assms(2)] by simp
  then show "map_of ys = map_of xs" by (intro ext) (metis not_Some_eq)
qed

lemma assoc_insert:
  assumes "distinct (map fst xs)" "k \<notin> fst ` set xs" "mset ys = add_mset (k, v) (mset xs)"
  shows "distinct (map fst ys) \<and> map_of ys = (map_of xs)(k \<mapsto> v)"
  using assoc_perm[of "(k, v) # xs" ys] assms by simp

lemma assoc_split:
  assumes "(k, v) \<in> set xs"
  obtains zs where "mset xs = add_mset (k, v) (mset zs)"
  using assms by (metis ex_mset multi_member_split set_mset_mset)

lemma assoc_delete:
  assumes "distinct (map fst xs)" "mset xs = add_mset (k, v) (mset ys)"
  shows "distinct (map fst ys) \<and> map_of ys = (map_of xs)(k := None) \<and> map_of xs k = Some v \<and>
    k \<notin> fst ` set ys"
proof -
  have "distinct (map fst ((k, v) # ys)) \<and> map_of ((k, v) # ys) = map_of xs"
    using assms by (intro assoc_perm) simp_all
  moreover from this have "map_of ys k = None" by (simp add: map_of_eq_None_iff)
  ultimately show ?thesis by (metis distinct.simps(2) fst_conv fun_upd_triv fun_upd_upd list.set_map
        list.simps(9) map_of.simps(2) fun_upd_same snd_conv)
qed

lemma assoc_replace:
  assumes "distinct (map fst xs)" "mset xs = add_mset (k, v0) zs" "mset ys = add_mset (k, v) zs"
  shows "distinct (map fst ys) \<and> map_of ys = (map_of xs)(k \<mapsto> v)"
proof -
  obtain zl where zl: "zs = mset zl" using ex_mset by metis
  have d: "distinct (map fst zl)" "map_of zl = (map_of xs)(k := None)" "k \<notin> fst ` set zl"
    using assoc_delete[of xs k v0 zl] assms zl by simp_all
  from assoc_insert[OF d(1) d(3), of ys v] assms zl d(2) show ?thesis by simp
qed

subsection \<open>Buckets\<close>

lemma mset_concat_update:
  assumes "i < length t"
  shows "mset (concat (t[i := b])) + mset (t ! i) = mset (concat t) + mset b"
proof -
  have "mset (concat t) = mset (concat (take i t)) + mset (t ! i) + mset (concat (drop (Suc i) t))"
    by (subst id_take_nth_drop[OF assms]) simp
  then show ?thesis using assms by (simp add: upd_conv_take_nth_drop)
qed

lemma length_concat_update:
  "i < length t \<Longrightarrow> length (concat (t[i := b])) + length (t ! i) = length (concat t) + length b"
  using mset_concat_update[of i t b] by (metis size_mset size_union)

lemma live_idx: "ht_live ty ht \<Longrightarrow> h AND ht_sizemask ht < ht_size ht"
  unfolding ht_live_def
  by (metis and_mask_less' mask_eq_exp_minus_1 take_bit_eq_mask take_bit_nat_less_exp)

lemma liveD:
  assumes "ht_live ty ht"
  shows "length (ht_table ht) = ht_size ht" "0 < ht_size ht" "ht_table ht \<noteq> []"
    "ht_used ht = length (ht_entries ht)"
  using assms by (auto simp: ht_live_def)

lemma live_hash: "ht_live ty ht \<Longrightarrow> i < ht_size ht \<Longrightarrow> e \<in> set (ht_table ht ! i) \<Longrightarrow>
    unat (hashFunction ty (fst e)) AND ht_sizemask ht = i"
  unfolding ht_live_def by blast

lemma live_bucket: "ht_live ty ht \<Longrightarrow> i < ht_size ht \<Longrightarrow> bucket ht i = Some (ht_table ht ! i)"
  by (simp add: bucket_def liveD)

lemma live_set_bucket:
  assumes "ht_live ty ht" "i < ht_size ht" "\<forall>e\<in>set b. unat (hashFunction ty (fst e)) AND ht_sizemask ht = i"
    "u + length (ht_table ht ! i) = ht_used ht + length b"
  shows "\<exists>ht'. set_bucket ht i b = Some ht' \<and> ht_live ty (ht'\<lparr>ht_used := u\<rparr>) \<and>
    mset (ht_entries (ht'\<lparr>ht_used := u\<rparr>)) + mset (ht_table ht ! i) = mset (ht_entries ht) + mset b \<and>
    ht_size ht' = ht_size ht \<and> ht_sizemask ht' = ht_sizemask ht \<and> ht_used ht' = ht_used ht \<and>
    ht_table ht' = (ht_table ht)[i := b]"
proof -
  have i: "i < length (ht_table ht)" using assms liveD by metis
  have u: "u = length (concat ((ht_table ht)[i := b]))"
    using length_concat_update[OF i, of b] assms(4) liveD(4)[OF assms(1)] by (simp add: ht_entries_def)
  have "ht_live ty (ht\<lparr>ht_table := (ht_table ht)[i := b], ht_used := u\<rparr>)"
  proof -
    have "\<forall>j < ht_size ht. \<forall>e\<in>set ((ht_table ht)[i := b] ! j). unat (hashFunction ty (fst e)) AND ht_sizemask ht = j"
      using assms(1,3) i unfolding ht_live_def by (metis nth_list_update_eq nth_list_update_neq)
    with assms(1) u show ?thesis by (simp add: ht_live_def ht_entries_def)
  qed
  then show ?thesis
    using i mset_concat_update[OF i, of b] by (simp add: set_bucket_def ht_entries_def)
qed

lemma entries_bucket:
  assumes "ht_live ty ht" "e \<in> set (ht_entries ht)"
  shows "e \<in> set (ht_table ht ! (unat (hashFunction ty (fst e)) AND ht_sizemask ht))"
proof -
  obtain b where "b \<in> set (ht_table ht)" "e \<in> set b" using assms(2) by (auto simp: ht_entries_def)
  then obtain i where "i < ht_size ht" "e \<in> set (ht_table ht ! i)"
    using liveD(1)[OF assms(1)] by (metis in_set_conv_nth)
  with live_hash[OF assms(1)] show ?thesis by metis
qed

lemma bucket_entries:
  "ht_live ty ht \<Longrightarrow> i < ht_size ht \<Longrightarrow> e \<in> set (ht_table ht ! i) \<Longrightarrow> e \<in> set (ht_entries ht)"
  unfolding ht_entries_def by (auto simp: liveD(1) intro: nth_mem)

subsection \<open>Rehashing\<close>

lemma skip_spec:
  assumes "j < length (ht_table ht)" "idx \<le> j" "ht_table ht ! j \<noteq> []"
  shows "\<exists>r. dictRehash_skip ht idx ev = Some r \<and> (case r of
      Inl i \<Rightarrow> idx < i \<and> i \<le> j \<and> (\<forall>m. idx \<le> m \<longrightarrow> m < i \<longrightarrow> ht_table ht ! m = [])
    | Inr (i, _) \<Rightarrow> idx \<le> i \<and> i \<le> j \<and> ht_table ht ! i \<noteq> [] \<and> (\<forall>m. idx \<le> m \<longrightarrow> m < i \<longrightarrow> ht_table ht ! m = []))"
  using assms
proof (induction ht idx ev rule: dictRehash_skip.induct)
  case (1 ht idx ev)
  have idx: "idx < length (ht_table ht)" using 1 by simp
  show ?case
  proof (cases "ht_table ht ! idx = []")
    case False
    then show ?thesis using idx 1(3) by (subst dictRehash_skip.simps) auto
  next
    case True
    then have lt: "idx < j" using 1(3,4) by (metis le_neq_implies_less)
    show ?thesis
    proof (cases "ev - 1 = 0")
      case T: True
      then show ?thesis using idx True lt
        by (subst dictRehash_skip.simps) (auto simp: less_Suc_eq)
    next
      case F: False
      obtain r where r: "dictRehash_skip ht (idx + 1) (ev - 1) = Some r" "case r of
          Inl i \<Rightarrow> idx + 1 < i \<and> i \<le> j \<and> (\<forall>m. idx + 1 \<le> m \<longrightarrow> m < i \<longrightarrow> ht_table ht ! m = [])
        | Inr (i, _) \<Rightarrow> idx + 1 \<le> i \<and> i \<le> j \<and> ht_table ht ! i \<noteq> [] \<and> (\<forall>m. idx + 1 \<le> m \<longrightarrow> m < i \<longrightarrow> ht_table ht ! m = [])"
        using "1.IH"[OF idx True F] 1(2,4) lt by auto
      have "dictRehash_skip ht idx ev = Some r"
        using idx True F r(1) by (subst dictRehash_skip.simps) simp
      moreover have "ht_table ht ! m = []" if "idx \<le> m" "idx + 1 \<le> m \<Longrightarrow> ht_table ht ! m = []" for m
        using that True by (cases "m = idx") auto
      ultimately show ?thesis using r(2) by (auto split: sum.splits)
    qed
  qed
qed

lemma move_spec:
  assumes "ht_live ty (d_ht1 d)"
  shows "\<exists>ht1. dictRehash_move ty d de = Some (d\<lparr>
      d_ht0 := (d_ht0 d)\<lparr>ht_used := ht_used (d_ht0 d) - length de\<rparr>, d_ht1 := ht1\<rparr>) \<and>
    ht_live ty ht1 \<and> mset (ht_entries ht1) = mset (ht_entries (d_ht1 d)) + mset de"
  using assms
proof (induction de arbitrary: d)
  case Nil
  then show ?case by (intro exI[of _ "d_ht1 d"]) simp
next
  case (Cons e de)
  obtain k v where e: "e = (k, v)" by fastforce
  let ?h = "unat (hashFunction ty k) AND ht_sizemask (d_ht1 d)"
  have h: "?h < ht_size (d_ht1 d)" using live_idx[OF Cons.prems] .
  have old: "\<forall>e\<in>set (ht_table (d_ht1 d) ! ?h). unat (hashFunction ty (fst e)) AND ht_sizemask (d_ht1 d) = ?h"
    using live_hash[OF Cons.prems h] by blast
  obtain ht' where ht': "set_bucket (d_ht1 d) ?h ((k, v) # ht_table (d_ht1 d) ! ?h) = Some ht'"
    "ht_live ty (ht'\<lparr>ht_used := ht_used (d_ht1 d) + 1\<rparr>)"
    "mset (ht_entries (ht'\<lparr>ht_used := ht_used (d_ht1 d) + 1\<rparr>)) = add_mset (k, v) (mset (ht_entries (d_ht1 d)))"
    "ht_used ht' = ht_used (d_ht1 d)"
    using live_set_bucket[OF Cons.prems h, of "(k, v) # ht_table (d_ht1 d) ! ?h" "ht_used (d_ht1 d) + 1"] old
    by auto
  let ?d = "d\<lparr>d_ht0 := (d_ht0 d)\<lparr>ht_used := ht_used (d_ht0 d) - 1\<rparr>, d_ht1 := ht'\<lparr>ht_used := ht_used ht' + 1\<rparr>\<rparr>"
  have "dictRehash_move ty d (e # de) = dictRehash_move ty ?d de"
    using ht'(1) live_bucket[OF Cons.prems h] by (simp add: e Let_def)
  then show ?case using Cons.IH[of ?d] ht' by (auto simp: e)
qed

lemma finish_spec:
  assumes "dict_ok ty d" "dictIsRehashing d"
  shows "rehash_post ty d (fst (dictRehash_finish d)) \<and>
    (snd (dictRehash_finish d) \<longleftrightarrow> dictIsRehashing (fst (dictRehash_finish d)))"
proof (cases "ht_used (d_ht0 d) = 0")
  case False
  then show ?thesis using assms by (auto simp: dictRehash_finish_def rehash_post_def dict_ok_def dest: liveD(2))
next
  case True
  have e: "ht_live ty (d_ht0 d)" "ht_live ty (d_ht1 d)" using assms by (simp_all add: dict_ok_def)
  have e0: "ht_entries (d_ht0 d) = []" using liveD(4)[OF e(1)] True by simp
  have r: "ht_entries dictReset = []" by (simp add: ht_entries_def dictReset_def)
  show ?thesis using True e e0 r assms liveD(2)[OF e(2)]
    by (auto simp: dictRehash_finish_def rehash_post_def dict_ok_def dictIsRehashing_def dict_entries_def)
qed


lemma rehash_loop_spec:
  assumes "dict_ok ty d" "dictIsRehashing d"
  shows "\<exists>d' b. dictRehash_loop ty d n ev = Some (d', b) \<and> rehash_post ty d d' \<and> (b \<longleftrightarrow> dictIsRehashing d') \<and>
    (0 < n \<longrightarrow> b \<longrightarrow> d_rehashidx d < d_rehashidx d')"
  using assms
proof (induction n arbitrary: d ev)
  case 0
  then show ?case using finish_spec[OF 0] by (cases "dictRehash_finish d") auto
next
  case (Suc n)
  note ok = Suc.prems
  have l: "ht_live ty (d_ht0 d)" "ht_live ty (d_ht1 d)" and ri: "0 \<le> d_rehashidx d"
    and emp: "\<forall>i < nat (d_rehashidx d). ht_table (d_ht0 d) ! i = []"
    and dist: "distinct (map fst (dict_entries d))"
    using ok by (auto simp: dict_ok_def)
  show ?case
  proof (cases "ht_used (d_ht0 d) = 0")
    case True
    moreover from this have "\<not> snd (dictRehash_finish d)" by (simp add: dictRehash_finish_def)
    ultimately show ?thesis using finish_spec[OF ok] by (cases "dictRehash_finish d") auto
  next
    case False
    then have "ht_entries (d_ht0 d) \<noteq> []" using liveD(4)[OF l(1)] by auto
    then obtain j where j: "j < ht_size (d_ht0 d)" "ht_table (d_ht0 d) ! j \<noteq> []"
      using liveD(1)[OF l(1)] by (auto simp: ht_entries_def) (metis in_set_conv_nth)
    then have jr: "nat (d_rehashidx d) \<le> j" using emp by (meson not_less)
    have as: "int (ht_size (d_ht0 d)) > d_rehashidx d" using jr j(1) by linarith
    obtain r where r: "dictRehash_skip (d_ht0 d) (nat (d_rehashidx d)) ev = Some r" "case r of
        Inl i \<Rightarrow> nat (d_rehashidx d) < i \<and> i \<le> j \<and> (\<forall>m. nat (d_rehashidx d) \<le> m \<longrightarrow> m < i \<longrightarrow> ht_table (d_ht0 d) ! m = [])
      | Inr (i, _) \<Rightarrow> nat (d_rehashidx d) \<le> i \<and> i \<le> j \<and> ht_table (d_ht0 d) ! i \<noteq> [] \<and>
          (\<forall>m. nat (d_rehashidx d) \<le> m \<longrightarrow> m < i \<longrightarrow> ht_table (d_ht0 d) ! m = [])"
      using skip_spec[of j "d_ht0 d" "nat (d_rehashidx d)" ev] j jr liveD(1)[OF l(1)] by auto
    have empi: "\<forall>m < i. ht_table (d_ht0 d) ! m = []"
      if "\<forall>m. nat (d_rehashidx d) \<le> m \<longrightarrow> m < i \<longrightarrow> ht_table (d_ht0 d) ! m = []" for i
      using that emp by (meson not_less)
    show ?thesis
    proof (cases r)
      case (Inl i)
      then have i: "nat (d_rehashidx d) < i" "i \<le> j" "\<forall>m < i. ht_table (d_ht0 d) ! m = []"
        using r(2) empi by auto
      have "dict_ok ty (d\<lparr>d_rehashidx := int i\<rparr>)" "dictIsRehashing (d\<lparr>d_rehashidx := int i\<rparr>)"
        using i j(1) l dist by (auto simp: dict_ok_def dictIsRehashing_def dict_entries_def)
      then show ?thesis
        using False as r(1) Inl i(1) ri liveD(2)[OF l(1)]
        by (auto simp: rehash_post_def dict_entries_def)
    next
      case (Inr q)
      then obtain i ev' where q: "r = Inr (i, ev')" by (cases q) auto
      then have i: "nat (d_rehashidx d) \<le> i" "i \<le> j" "\<forall>m < i. ht_table (d_ht0 d) ! m = []"
        using r(2) empi by auto
      have il: "i < ht_size (d_ht0 d)" using i(2) j(1) by simp
      let ?b = "ht_table (d_ht0 d) ! i"
      obtain ht1 where mv: "dictRehash_move ty d ?b = Some (d\<lparr>
          d_ht0 := (d_ht0 d)\<lparr>ht_used := ht_used (d_ht0 d) - length ?b\<rparr>, d_ht1 := ht1\<rparr>)"
        "ht_live ty ht1" "mset (ht_entries ht1) = mset (ht_entries (d_ht1 d)) + mset ?b"
        using move_spec[OF l(2)] by blast
      define u where "u = ht_used (d_ht0 d) - length ?b"
      have lb: "length ?b \<le> ht_used (d_ht0 d)"
        using length_concat_update[of i "ht_table (d_ht0 d)" "[]"] il liveD[OF l(1)]
        by (simp add: ht_entries_def)
      obtain ht0 where ht0: "set_bucket (d_ht0 d) i [] = Some ht0" "ht_live ty (ht0\<lparr>ht_used := u\<rparr>)"
        "mset (ht_entries (ht0\<lparr>ht_used := u\<rparr>)) + mset ?b = mset (ht_entries (d_ht0 d))"
        "ht_size ht0 = ht_size (d_ht0 d)" "ht_table ht0 = (ht_table (d_ht0 d))[i := []]"
        using live_set_bucket[OF l(1) il, of "[]" u] lb by (auto simp: u_def)
      let ?d = "d\<lparr>d_ht1 := ht1, d_ht0 := ht0\<lparr>ht_used := u\<rparr>, d_rehashidx := int i + 1\<rparr>"
      have sb: "set_bucket ((d_ht0 d)\<lparr>ht_used := u\<rparr>) i [] = Some (ht0\<lparr>ht_used := u\<rparr>)"
        using ht0(1) by (auto simp: set_bucket_def split: if_splits)
      have ms: "mset (dict_entries ?d) = mset (dict_entries d)"
        using ht0(3) mv(3) by (simp add: dict_entries_def)
      have "\<forall>m < Suc i. ht_table ht0 ! m = []"
        using ht0(5) i(3) il liveD(1)[OF l(1)] by (metis less_Suc_eq nth_list_update_eq nth_list_update_neq)
      then have "dict_ok ty ?d"
        using ht0(2,4) mv(2) il assoc_perm[OF dist ms[symmetric]]
        by (simp add: dict_ok_def dictIsRehashing_def nat_add_distrib)
      moreover have "dictIsRehashing ?d" by (simp add: dictIsRehashing_def)
      ultimately obtain d' b where IH: "dictRehash_loop ty ?d n ev' = Some (d', b)" "rehash_post ty ?d d'"
        "b \<longleftrightarrow> dictIsRehashing d'"
        using Suc.IH[of ?d ev'] by blast
      have "dictRehash_loop ty d (Suc n) ev = Some (d', b)"
        using False as r(1) q mv(1) sb IH(1) live_bucket[OF l(1) il]
        by (simp add: u_def)
      then show ?thesis using IH(2,3) ms i(1) ri ht0(4) by (auto simp: rehash_post_def)
    qed
  qed
qed


lemma rehash_spec:
  assumes "dict_ok ty d" "dictIsRehashing d"
  shows "\<exists>d' b. dictRehash ty d n = Some (d', b) \<and> rehash_post ty d d' \<and> (b \<longleftrightarrow> dictIsRehashing d') \<and>
    (0 < n \<longrightarrow> b \<longrightarrow> d_rehashidx d < d_rehashidx d')"
  using rehash_loop_spec[OF assms] assms by (simp add: dictRehash_def)

lemma ok_live0: "dict_ok ty d \<Longrightarrow> ht_size (d_ht0 d) \<noteq> 0 \<Longrightarrow> ht_live ty (d_ht0 d)"
  by (auto simp: dict_ok_def dictReset_def split: if_splits)

lemma rehash_size0: "dict_ok ty d \<Longrightarrow> dictIsRehashing d \<Longrightarrow> ht_size (d_ht0 d) \<noteq> 0"
  by (auto simp: dict_ok_def dest: liveD(2))

lemma ok_map_cong: "dict_ok ty d \<Longrightarrow> mset (dict_entries d') = mset (dict_entries d) \<Longrightarrow> dict_map d' = dict_map d"
  using assoc_perm[of "dict_entries d" "dict_entries d'"] by (simp add: dict_map_def dict_ok_def)

lemma maybe_step_spec:
  assumes "dict_ok ty d"
  shows "\<exists>d'. (if dictIsRehashing d then dictRehashStep ty d else Some d) = Some d' \<and>
    dict_ok ty d' \<and> mset (dict_entries d') = mset (dict_entries d) \<and> dict_map d' = dict_map d \<and>
    d_iterators d' = d_iterators d \<and> (ht_size (d_ht0 d) \<noteq> 0 \<longrightarrow> ht_size (d_ht0 d') \<noteq> 0)"
proof -
  have "\<exists>d'. (if dictIsRehashing d then dictRehashStep ty d else Some d) = Some d' \<and>
      dict_ok ty d' \<and> mset (dict_entries d') = mset (dict_entries d) \<and>
      d_iterators d' = d_iterators d \<and> (ht_size (d_ht0 d) \<noteq> 0 \<longrightarrow> ht_size (d_ht0 d') \<noteq> 0)"
  proof (cases "dictIsRehashing d \<and> d_iterators d = 0")
    case True
    then obtain d' b where "dictRehash ty d 1 = Some (d', b)" "rehash_post ty d d'"
      using rehash_spec[OF assms, of 1] by blast
    with True show ?thesis by (auto simp: dictRehashStep_def rehash_post_def)
  next
    case False
    then show ?thesis using assms by (auto simp: dictRehashStep_def)
  qed
  then show ?thesis using ok_map_cong[OF assms] by blast
qed

subsection \<open>Lookup\<close>

lemma chain_find_Some: "chain_find p es = Some j \<Longrightarrow> j < length es \<and> p (fst (es ! j))"
  by (induction p es arbitrary: j rule: chain_find.induct) (auto split: if_splits)

lemma chain_find_None: "chain_find p es = None \<longleftrightarrow> (\<forall>e\<in>set es. \<not> p (fst e))"
  by (induction p es rule: chain_find.induct) auto

lemma table_miss:
  assumes "ht_live ty ht" "chain_find ((=) key) (ht_table ht ! (unat (hashFunction ty key) AND ht_sizemask ht)) = None"
  shows "key \<notin> fst ` set (ht_entries ht)"
  using assms entries_bucket[OF assms(1)] by (force simp: chain_find_None)

lemma dict_search_spec:
  assumes ok: "dict_ok ty d" and sz: "ht_size (d_ht0 d) \<noteq> 0" and cmp: "keyCompare ty = (=)"
  shows "\<exists>r. dict_search ty d key = Some r \<and>
    (case r of None \<Rightarrow> key \<notin> fst ` set (dict_entries d) | Some e \<Rightarrow> ptr_ok d key e)"
proof -
  let ?i0 = "unat (hashFunction ty key) AND ht_sizemask (d_ht0 d)"
  let ?i1 = "unat (hashFunction ty key) AND ht_sizemask (d_ht1 d)"
  have l0: "ht_live ty (d_ht0 d)" using ok_live0[OF ok sz] .
  have b0: "bucket (d_ht0 d) ?i0 = Some (ht_table (d_ht0 d) ! ?i0)" "?i0 < length (ht_table (d_ht0 d))"
    using live_bucket[OF l0 live_idx[OF l0]] live_idx[OF l0] liveD(1)[OF l0] by auto
  show ?thesis
  proof (cases "chain_find ((=) key) (ht_table (d_ht0 d) ! ?i0)")
    case (Some p)
    with b0 show ?thesis using chain_find_Some[OF Some]
      by (simp add: dict_search_def Let_def cmp ptr_ok_def)
  next
    case N0: None
    note m0 = table_miss[OF l0 N0]
    show ?thesis
    proof (cases "dictIsRehashing d")
      case False
      then have "d_ht1 d = dictReset" using ok by (simp add: dict_ok_def)
      with False N0 b0 m0 show ?thesis
        by (simp add: dict_search_def Let_def cmp dict_entries_def dictReset_def ht_entries_def)
    next
      case True
      then have l1: "ht_live ty (d_ht1 d)" using ok by (simp add: dict_ok_def)
      have b1: "bucket (d_ht1 d) ?i1 = Some (ht_table (d_ht1 d) ! ?i1)" "?i1 < length (ht_table (d_ht1 d))"
        using live_bucket[OF l1 live_idx[OF l1]] live_idx[OF l1] liveD(1)[OF l1] by auto
      show ?thesis
      proof (cases "chain_find ((=) key) (ht_table (d_ht1 d) ! ?i1)")
        case None
        with True N0 b0 b1 m0 table_miss[OF l1 None] show ?thesis
          by (auto simp: dict_search_def Let_def cmp dict_entries_def)
      next
        case (Some p)
        with True N0 b0 b1 show ?thesis using chain_find_Some[OF Some]
          by (simp add: dict_search_def Let_def cmp ptr_ok_def)
      qed
    qed
  qed
qed

lemma ptr_table:
  assumes "dict_ok ty d" "ptr_ok d key (t, i, p)"
  defines "ht \<equiv> (if t = 0 then d_ht0 d else d_ht1 d)"
  shows "ht_live ty ht" "i < ht_size ht" "p < length (ht_table ht ! i)" "fst (ht_table ht ! i ! p) = key"
    "bucket ht i = Some (ht_table ht ! i)"
    "unat (hashFunction ty key) AND ht_sizemask ht = i"
    "(key, snd (ht_table ht ! i ! p)) \<in> set (dict_entries d)"
proof -
  have i: "i < length (ht_table ht)" and p: "p < length (ht_table ht ! i)" "fst (ht_table ht ! i ! p) = key"
    and r: "t = 0 \<or> dictIsRehashing d"
    using assms(2) by (auto simp: ptr_ok_def ht_def Let_def)
  then have "ht_table ht \<noteq> []" by auto
  then show l: "ht_live ty ht"
    using assms(1) r by (auto simp: ht_def dict_ok_def dictReset_def split: if_splits)
  then show i': "i < ht_size ht" using i liveD(1) by metis
  show "p < length (ht_table ht ! i)" "fst (ht_table ht ! i ! p) = key" using p by auto
  show "bucket ht i = Some (ht_table ht ! i)" using live_bucket[OF l i'] .
  show "unat (hashFunction ty key) AND ht_sizemask ht = i"
    using live_hash[OF l i' nth_mem[OF p(1)]] p(2) by simp
  have "ht_table ht ! i ! p \<in> set (ht_entries ht)"
    using bucket_entries[OF l i' nth_mem[OF p(1)]] .
  then show "(key, snd (ht_table ht ! i ! p)) \<in> set (dict_entries d)"
    using p(2) by (auto simp: dict_entries_def ht_def split: if_splits)
qed

lemma getVal_spec:
  assumes "dict_ok ty d" "ptr_ok d key e"
  shows "\<exists>v. dictGetVal d e = Some v \<and> dict_map d key = Some v"
proof -
  obtain t i p where e: "e = (t, i, p)" by (cases e)
  note pt = ptr_table[OF assms[unfolded e]]
  have "distinct (map fst (dict_entries d))" using assms(1) by (simp add: dict_ok_def)
  then show ?thesis using pt(3,5,7) by (simp add: e dictGetVal_def dict_map_def)
qed

subsection \<open>Changing one bucket\<close>

lemma bucket_update_ok:
  assumes ok: "dict_ok ty d" and ptr: "ptr_ok d key (t, i, p)"
    and b: "\<forall>e\<in>set b. fst e \<in> fst ` set (ht_table (if t = 0 then d_ht0 d else d_ht1 d) ! i)"
    and u: "u + length (ht_table (if t = 0 then d_ht0 d else d_ht1 d) ! i) =
      ht_used (if t = 0 then d_ht0 d else d_ht1 d) + length b"
    and dist: "\<And>es. mset es + mset (ht_table (if t = 0 then d_ht0 d else d_ht1 d) ! i) = mset (dict_entries d) + mset b \<Longrightarrow>
      distinct (map fst es)"
  shows "\<exists>ht' d'. set_bucket (if t = 0 then d_ht0 d else d_ht1 d) i b = Some ht' \<and>
    d' = (if t = 0 then d\<lparr>d_ht0 := ht'\<lparr>ht_used := u\<rparr>\<rparr> else d\<lparr>d_ht1 := ht'\<lparr>ht_used := u\<rparr>\<rparr>) \<and> dict_ok ty d' \<and>
    mset (dict_entries d') + mset (ht_table (if t = 0 then d_ht0 d else d_ht1 d) ! i) = mset (dict_entries d) + mset b \<and>
    ht_used ht' = ht_used (if t = 0 then d_ht0 d else d_ht1 d)"
proof -
  define ht where "ht = (if t = 0 then d_ht0 d else d_ht1 d)"
  note pt = ptr_table[OF ok ptr, folded ht_def]
  have "\<forall>e\<in>set b. unat (hashFunction ty (fst e)) AND ht_sizemask ht = i"
    using b live_hash[OF pt(1,2)] by (auto simp: ht_def[symmetric])
  then obtain ht' where ht': "set_bucket ht i b = Some ht'" "ht_live ty (ht'\<lparr>ht_used := u\<rparr>)"
    "mset (ht_entries (ht'\<lparr>ht_used := u\<rparr>)) + mset (ht_table ht ! i) = mset (ht_entries ht) + mset b"
    "ht_size ht' = ht_size ht" "ht_used ht' = ht_used ht" "ht_table ht' = (ht_table ht)[i := b]"
    using live_set_bucket[OF pt(1,2), of b u] u[folded ht_def] by blast
  define d' where "d' = (if t = 0 then d\<lparr>d_ht0 := ht'\<lparr>ht_used := u\<rparr>\<rparr> else d\<lparr>d_ht1 := ht'\<lparr>ht_used := u\<rparr>\<rparr>)"
  have ms: "mset (dict_entries d') + mset (ht_table ht ! i) = mset (dict_entries d) + mset b"
    using ht'(3) by (cases "t = 0") (simp_all add: d'_def dict_entries_def ht_def ac_simps)
  have "t = 0 \<or> dictIsRehashing d" using ptr by (auto simp: ptr_ok_def Let_def)
  moreover have "\<forall>m < nat (d_rehashidx d). ht_table ht' ! m = []" if "t = 0" "dictIsRehashing d"
  proof -
    have e: "\<forall>m < nat (d_rehashidx d). ht_table ht ! m = []" using ok that by (simp add: dict_ok_def ht_def)
    then have "\<not> i < nat (d_rehashidx d)" using pt(3) by auto
    with e show ?thesis using ht'(6) by (metis nth_list_update_neq)
  qed
  ultimately have "dict_ok ty d'"
    using ok ht'(2,4) dist[OF ms[unfolded ht_def]]
    by (cases "t = 0") (auto simp: dict_ok_def d'_def dictIsRehashing_def ht_def split: if_splits)
  with ht' ms d'_def show ?thesis unfolding ht_def[symmetric] by blast
qed

lemma nth_mset_split: "p < length b \<Longrightarrow> mset b = add_mset (b ! p) (mset (take p b @ drop (Suc p) b))"
  by (metis id_take_nth_drop mset.simps(2) mset_append union_mset_add_mset_right)

lemma setVal_spec:
  assumes ok: "dict_ok ty d" and ptr: "ptr_ok d key e"
  shows "\<exists>d'. dictSetVal d e v = Some d' \<and> dict_ok ty d' \<and> dict_map d' = (dict_map d)(key \<mapsto> v) \<and>
    dictSize d' = dictSize d"
proof -
  obtain t i p where e: "e = (t, i, p)" by (cases e)
  define ht where "ht = (if t = 0 then d_ht0 d else d_ht1 d)"
  note pt = ptr_table[OF ok ptr[unfolded e], folded ht_def]
  define b where "b = ht_table ht ! i"
  define b' where "b' = b[p := (key, v)]"
  have p: "p < length b" "fst (b ! p) = key" using pt(3,4) by (auto simp: b_def)
  have ms: "mset b = add_mset (key, snd (b ! p)) (mset (take p b @ drop (Suc p) b))"
    "mset b' = add_mset (key, v) (mset (take p b @ drop (Suc p) b))"
    using nth_mset_split[OF p(1)] p(1) p(2) by (auto simp: b'_def upd_conv_take_nth_drop prod_eq_iff)
  have repl: "distinct (map fst es) \<and> map_of es = (dict_map d)(key \<mapsto> v)"
    if "mset es + mset b = mset (dict_entries d) + mset b'" for es
  proof -
    obtain zs where zs: "mset (dict_entries d) = add_mset (key, snd (b ! p)) (mset zs)"
      using assoc_split[OF pt(7)] unfolding b_def by metis
    then have es: "mset es = add_mset (key, v) (mset zs)" using that ms by simp
    have "distinct (map fst (dict_entries d))" using ok by (simp add: dict_ok_def)
    from assoc_replace[OF this zs es] show ?thesis by (simp add: dict_map_def)
  qed
  have "key \<in> fst ` set b" using p nth_mem[OF p(1)] by force
  moreover have "set b' \<subseteq> insert (key, v) (set b)"
    unfolding b'_def by (rule set_update_subset_insert)
  ultimately have "\<forall>e\<in>set b'. fst e \<in> fst ` set b"
    by (metis fst_conv image_eqI insertE subsetD)
  then obtain ht' d' where r: "set_bucket ht i b' = Some ht'"
    "d' = (if t = 0 then d\<lparr>d_ht0 := ht'\<lparr>ht_used := ht_used ht\<rparr>\<rparr> else d\<lparr>d_ht1 := ht'\<lparr>ht_used := ht_used ht\<rparr>\<rparr>)"
    "dict_ok ty d'" "mset (dict_entries d') + mset b = mset (dict_entries d) + mset b'" "ht_used ht' = ht_used ht"
    using bucket_update_ok[OF ok ptr[unfolded e], of b' "ht_used ht", folded ht_def, folded b_def] repl
    by (auto simp: b'_def)
  have "ht'\<lparr>ht_used := ht_used ht\<rparr> = ht'" using r(5) by simp
  then have "dictSetVal d e v = Some d'"
    using pt(5) r(1,2) p by (simp add: e dictSetVal_def ht_def[symmetric] b_def[symmetric] b'_def)
  moreover have "dictSize d' = dictSize d" using r(2) by (auto simp: dictSize_def ht_def)
  ultimately show ?thesis using r(3) repl[OF r(4)] by (auto simp: dict_map_def)
qed



subsection \<open>Expansion\<close>

lemma reset_entries [simp]: "ht_entries dictReset = []"
  by (simp add: ht_entries_def dictReset_def)

lemma nextPower_loop:
  assumes "i = 2 ^ q" "q \<le> 63" "sz \<le> 2 ^ 63"
  shows "\<exists>p. dictNextPower_loop i sz = Some (2 ^ p) \<and> q \<le> p \<and> p \<le> 63 \<and> sz \<le> 2 ^ p \<and> (q < p \<longrightarrow> 2 ^ p < 2 * sz)"
  using assms(1,2)
proof (induction "63 - q" arbitrary: q i)
  case 0
  then have "q = 63" by simp
  with 0 assms(3) show ?case by (subst dictNextPower_loop.simps) (intro exI[of _ 63], simp)
next
  case (Suc x)
  show ?case
  proof (cases "sz \<le> i")
    case True
    with Suc show ?thesis by (subst dictNextPower_loop.simps) auto
  next
    case False
    have q: "q < 63" using Suc.hyps(2) by simp
    then have "(2::nat) ^ Suc q \<le> 2 ^ 63" by (intro power_increasing) auto
    then have "i * 2 mod 2 ^ 64 = 2 ^ Suc q" using Suc.prems(1) by simp
    then have "dictNextPower_loop i sz = dictNextPower_loop (2 ^ Suc q) sz"
      using False by (subst dictNextPower_loop.simps) simp
    moreover obtain p where p: "dictNextPower_loop (2 ^ Suc q) sz = Some (2 ^ p)" "Suc q \<le> p" "p \<le> 63" "sz \<le> 2 ^ p"
      "Suc q < p \<longrightarrow> 2 ^ p < 2 * sz"
    proof -
      have "x = 63 - Suc q" using Suc.hyps(2) by simp
      then show thesis using Suc.hyps(1)[of "Suc q" "2 ^ Suc q"] q that by force
    qed
    moreover have "2 ^ p < 2 * sz"
      using p(2,5) False Suc.prems(1) by (cases "p = Suc q") auto
    ultimately show ?thesis by (intro exI[of _ p]) auto
  qed
qed

lemma nextPower_spec:
  assumes "sz \<le> 2 ^ 31"
  shows "\<exists>p. dictNextPower sz = Some (2 ^ p) \<and> p \<le> 31 \<and> sz \<le> 2 ^ p \<and> 2 \<le> p"
proof -
  obtain p where p: "dictNextPower_loop 4 sz = Some (2 ^ p)" "2 \<le> p" "sz \<le> 2 ^ p" "2 < p \<longrightarrow> 2 ^ p < 2 * sz"
    using nextPower_loop[of 4 2 sz] assms by auto
  have "p \<le> 31"
  proof (rule ccontr)
    assume "\<not> p \<le> 31"
    then have "(2::nat) ^ 32 \<le> 2 ^ p" by (intro power_increasing) auto
    with p(4) \<open>\<not> p \<le> 31\<close> assms show False by simp
  qed
  with p assms show ?thesis by (simp add: dictNextPower_def)
qed

lemma new_table_live:
  assumes "p \<le> 31"
  shows "ht_live ty \<lparr>ht_table = replicate (2 ^ p) [], ht_size = 2 ^ p, ht_sizemask = 2 ^ p - 1, ht_used = 0\<rparr>"
  using assms by (auto simp: ht_live_def ht_entries_def)

lemma expand_spec:
  assumes "dict_ok ty d" "sz \<le> 2 ^ 31"
  shows "\<exists>d' b. dictExpand d sz = Some (d', b) \<and> dict_ok ty d' \<and> dict_entries d' = dict_entries d \<and>
    d_iterators d' = d_iterators d \<and>
    (b \<longrightarrow> ht_size (d_ht0 d') \<noteq> 0) \<and>
    (\<not> dictIsRehashing d \<and> ht_used (d_ht0 d) \<le> sz \<and> (\<forall>p. sz \<le> 2 ^ p \<longrightarrow> 2 \<le> p \<longrightarrow> ht_size (d_ht0 d) \<noteq> 2 ^ p) \<longrightarrow> b)"
proof -
  obtain p where p: "dictNextPower sz = Some (2 ^ p)" "p \<le> 31" "sz \<le> 2 ^ p" "2 \<le> p"
    using nextPower_spec[OF assms(2)] by blast
  define n :: "('a, 'b) dictht" where "n = \<lparr>ht_table = replicate (2 ^ p) [], ht_size = 2 ^ p, ht_sizemask = 2 ^ p - 1, ht_used = 0\<rparr>"
  have n: "ht_live ty n" "ht_entries n = []" "ht_size n = 2 ^ p"
    using new_table_live[OF p(2)] by (simp_all add: n_def ht_entries_def)
  consider "dictIsRehashing d \<or> ht_used (d_ht0 d) > sz \<or> 2 ^ p = ht_size (d_ht0 d)"
    | "\<not> (dictIsRehashing d \<or> ht_used (d_ht0 d) > sz \<or> 2 ^ p = ht_size (d_ht0 d))" "ht_table (d_ht0 d) = []"
    | "\<not> (dictIsRehashing d \<or> ht_used (d_ht0 d) > sz \<or> 2 ^ p = ht_size (d_ht0 d))" "ht_table (d_ht0 d) \<noteq> []"
    by blast
  then show ?thesis
  proof cases
    case 1
    then have "dictExpand d sz = Some (d, False)" using p(1) by (auto simp: dictExpand_def)
    moreover have "\<not> (\<not> dictIsRehashing d \<and> ht_used (d_ht0 d) \<le> sz \<and>
        (\<forall>p. sz \<le> 2 ^ p \<longrightarrow> 2 \<le> p \<longrightarrow> ht_size (d_ht0 d) \<noteq> 2 ^ p))"
      using 1 p(3,4) by (metis not_le)
    ultimately show ?thesis using assms(1) by blast
  next
    case 2
    then have d: "d_ht0 d = dictReset" "d_ht1 d = dictReset"
      using assms(1) liveD(3) by (auto simp: dict_ok_def split: if_splits)
    have "dictExpand d sz = Some (d\<lparr>d_ht0 := n\<rparr>, True)" using 2 p(1) by (simp add: dictExpand_def n_def Let_def)
    moreover have "dict_ok ty (d\<lparr>d_ht0 := n\<rparr>)"
      using 2 d n by (simp add: dict_ok_def dictIsRehashing_def dict_entries_def)
    moreover have "dict_entries (d\<lparr>d_ht0 := n\<rparr>) = dict_entries d"
      using d n by (simp add: dict_entries_def)
    ultimately show ?thesis using n(3) by (intro exI[of _ "d\<lparr>d_ht0 := n\<rparr>"] exI[of _ True]) simp
  next
    case 3
    then have d: "ht_live ty (d_ht0 d)" "d_ht1 d = dictReset"
      using assms(1) by (auto simp: dict_ok_def dictReset_def split: if_splits)
    have "dictExpand d sz = Some (d\<lparr>d_ht1 := n, d_rehashidx := 0\<rparr>, True)"
      using 3 p(1) by (simp add: dictExpand_def n_def Let_def)
    moreover have "dict_ok ty (d\<lparr>d_ht1 := n, d_rehashidx := 0\<rparr>)"
      using assms(1) d n by (simp add: dict_ok_def dictIsRehashing_def dict_entries_def split: if_splits)
    moreover have "dict_entries (d\<lparr>d_ht1 := n, d_rehashidx := 0\<rparr>) = dict_entries d"
      using d n by (simp add: dict_entries_def)
    ultimately show ?thesis using n(3) liveD(2)[OF d(1)]
      by (intro exI[of _ "d\<lparr>d_ht1 := n, d_rehashidx := 0\<rparr>"] exI[of _ True]) simp
  qed
qed

lemma expandIfNeeded_spec:
  assumes "dict_ok ty d" "ht_used (d_ht0 d) \<le> 2 ^ 30"
  shows "\<exists>d'. dictExpandIfNeeded can d = Some (d', True) \<and> dict_ok ty d' \<and> dict_entries d' = dict_entries d \<and>
    ht_size (d_ht0 d') \<noteq> 0 \<and> d_iterators d' = d_iterators d"
proof (cases "dictIsRehashing d")
  case True
  then show ?thesis using assms rehash_size0 by (simp add: dictExpandIfNeeded_def)
next
  case F: False
  show ?thesis
  proof (cases "ht_size (d_ht0 d) = 0")
    case True
    then have "ht_used (d_ht0 d) = 0" using assms(1) F liveD(2)
      by (fastforce simp: dict_ok_def dictReset_def)
    with True F show ?thesis using expand_spec[OF assms(1), of 4] by (auto simp: dictExpandIfNeeded_def)
  next
    case nz: False
    show ?thesis
    proof (cases "ht_used (d_ht0 d) \<ge> ht_size (d_ht0 d) \<and> (can \<or> ht_used (d_ht0 d) div ht_size (d_ht0 d) > 5)")
      case False
      then show ?thesis using F nz assms by (auto simp: dictExpandIfNeeded_def)
    next
      case True
      let ?sz = "ht_used (d_ht0 d) * 2"
      have "?sz \<le> 2 ^ 31" "?sz mod 2 ^ 64 = ?sz" using assms(2) by simp_all
      moreover have "\<not> ?sz \<le> ht_size (d_ht0 d)" using True nz by simp
      then have "\<forall>p. ?sz \<le> 2 ^ p \<longrightarrow> 2 \<le> p \<longrightarrow> ht_size (d_ht0 d) \<noteq> 2 ^ p" by auto
      ultimately show ?thesis using expand_spec[OF assms(1), of ?sz] F nz True
        by (auto simp: dictExpandIfNeeded_def)
    qed
  qed
qed


subsection \<open>Insertion\<close>

lemma reset_used [simp]: "ht_used dictReset = 0"
  by (simp add: dictReset_def)

lemma ok_size: "dict_ok ty d \<Longrightarrow> dictSize d = length (dict_entries d)"
  by (auto simp: dict_ok_def dictSize_def dict_entries_def liveD(4) split: if_splits)

lemma ok_dom: "dict_ok ty d \<Longrightarrow> dom (dict_map d) = fst ` set (dict_entries d)"
  by (simp add: dict_map_def dom_map_of_conv_image_fst)

lemma dict_ok_card: "dict_ok ty d \<Longrightarrow> card (dom (dict_map d)) = dictSize d"
  by (metis (no_types, lifting) dict_ok_def distinct_card length_map list.set_map ok_dom ok_size)

lemma live_sz31: "ht_live ty ht \<Longrightarrow> ht_size ht \<le> 2 ^ 31"
  using power_increasing[of _ 31 "2::nat"] by (auto simp: ht_live_def)

lemma index_signed:
  assumes "ht_live ty ht"
  shows "to_signed 4 (int (h AND ht_sizemask ht)) = int (h AND ht_sizemask ht)"
proof -
  have "h AND ht_sizemask ht < 2 ^ 31" using live_idx[OF assms] live_sz31[OF assms] by (meson less_le_trans)
  then have "int (h AND ht_sizemask ht) < 2 ^ 31" by (metis of_nat_less_iff of_nat_numeral of_nat_power)
  then show ?thesis by (simp add: to_signed_def)
qed

lemma used0_le_size: "ht_used (d_ht0 d) \<le> dictSize d"
  by (simp add: dictSize_def)

lemma keyIndex_spec:
  assumes "dict_ok ty d" "dictSize d \<le> 2 ^ 30" "keyCompare ty = (=)"
  shows "\<exists>d' i. dictKeyIndex ty can d key = Some (d', i) \<and> dict_ok ty d' \<and> dict_entries d' = dict_entries d \<and>
     ht_size (d_ht0 d') \<noteq> 0 \<and> d_iterators d' = d_iterators d \<and>
     (if key \<in> fst ` set (dict_entries d) then i = -1
      else i = int (unat (hashFunction ty key) AND ht_sizemask (if dictIsRehashing d' then d_ht1 d' else d_ht0 d')))"
proof -
  obtain d' where d': "dictExpandIfNeeded can d = Some (d', True)" "dict_ok ty d'" "dict_entries d' = dict_entries d"
    "ht_size (d_ht0 d') \<noteq> 0" "d_iterators d' = d_iterators d"
    using expandIfNeeded_spec[OF assms(1)] used0_le_size[of d] assms(2) by (meson le_trans)
  obtain r where r: "dict_search ty d' key = Some r"
    "case r of None \<Rightarrow> key \<notin> fst ` set (dict_entries d') | Some e \<Rightarrow> ptr_ok d' key e"
    using dict_search_spec[OF d'(2,4) assms(3)] by blast
  have l: "ht_live ty (if dictIsRehashing d' then d_ht1 d' else d_ht0 d')"
    using d'(2) ok_live0[OF d'(2,4)] by (simp add: dict_ok_def)
  show ?thesis
  proof (cases r)
    case None
    then show ?thesis using d' r index_signed[OF l] by (simp add: dictKeyIndex_def Let_def)
  next
    case (Some e)
    obtain t i p where e: "e = (t, i, p)" by (cases e)
    have "key \<in> fst ` set (dict_entries d)"
      using ptr_table(7)[OF d'(2)] r(2) Some e d'(3) by (metis fst_conv image_eqI option.simps(5))
    then show ?thesis using d' r Some by (simp add: dictKeyIndex_def)
  qed
qed

lemma push_ok:
  assumes ok: "dict_ok ty d" and sz: "ht_size (d_ht0 d) \<noteq> 0" and new: "key \<notin> fst ` set (dict_entries d)"
  defines "i \<equiv> unat (hashFunction ty key) AND ht_sizemask (if dictIsRehashing d then d_ht1 d else d_ht0 d)"
  shows "\<exists>ht d' b. bucket (if dictIsRehashing d then d_ht1 d else d_ht0 d) i = Some b \<and>
    set_bucket (if dictIsRehashing d then d_ht1 d else d_ht0 d) i ((key, v) # b) = Some ht \<and>
    d' = (if dictIsRehashing d then d\<lparr>d_ht1 := ht\<lparr>ht_used := ht_used ht + 1\<rparr>\<rparr> else d\<lparr>d_ht0 := ht\<lparr>ht_used := ht_used ht + 1\<rparr>\<rparr>) \<and>
    dict_ok ty d' \<and> mset (dict_entries d') = add_mset (key, v) (mset (dict_entries d)) \<and>
    ptr_ok d' key (if dictIsRehashing d then 1 else 0, i, 0)"
proof -
  define h0 where "h0 = (if dictIsRehashing d then d_ht1 d else d_ht0 d)"
  have l: "ht_live ty h0" using ok ok_live0[OF ok sz] by (simp add: dict_ok_def h0_def)
  have i: "i < ht_size h0" using live_idx[OF l] by (simp add: i_def h0_def)
  let ?b = "ht_table h0 ! i"
  have "\<forall>e\<in>set ((key, v) # ?b). unat (hashFunction ty (fst e)) AND ht_sizemask h0 = i"
    using live_hash[OF l i] by (auto simp: i_def h0_def)
  then obtain ht where ht: "set_bucket h0 i ((key, v) # ?b) = Some ht" "ht_live ty (ht\<lparr>ht_used := ht_used h0 + 1\<rparr>)"
    "mset (ht_entries (ht\<lparr>ht_used := ht_used h0 + 1\<rparr>)) = add_mset (key, v) (mset (ht_entries h0))"
    "ht_used ht = ht_used h0" "ht_table ht = (ht_table h0)[i := (key, v) # ?b]" "ht_size ht = ht_size h0"
    using live_set_bucket[OF l i, of "(key, v) # ?b" "ht_used h0 + 1"] by auto
  define d' where "d' = (if dictIsRehashing d then d\<lparr>d_ht1 := ht\<lparr>ht_used := ht_used ht + 1\<rparr>\<rparr>
      else d\<lparr>d_ht0 := ht\<lparr>ht_used := ht_used ht + 1\<rparr>\<rparr>)"
  have ms: "mset (dict_entries d') = add_mset (key, v) (mset (dict_entries d))"
    using ht(3,4) by (auto simp: d'_def dict_entries_def h0_def)
  have "distinct (map fst (dict_entries d))" using ok by (simp add: dict_ok_def)
  from assoc_insert[OF this new ms] have dist: "distinct (map fst (dict_entries d'))" by simp
  have "dict_ok ty d'"
    using ok ht(2,4) dist by (auto simp: dict_ok_def d'_def dictIsRehashing_def split: if_splits)
  moreover have "ptr_ok d' key (if dictIsRehashing d then 1 else 0, i, 0)"
    using ht(5) i liveD(1)[OF l] by (simp add: ptr_ok_def d'_def dictIsRehashing_def Let_def)
  ultimately show ?thesis
    using ht(1) ms d'_def live_bucket[OF l i] unfolding h0_def[symmetric] by blast
qed

lemma addRaw_spec:
  assumes "dict_ok ty d" "dictSize d \<le> 2 ^ 30" "keyCompare ty = (=)"
  shows "\<exists>d' e. dictAddRaw ty can junk d key = Some (d', e) \<and> dict_ok ty d' \<and>
    (if key \<in> dom (dict_map d) then e = None \<and> dict_map d' = dict_map d
     else (\<exists>p. e = Some p \<and> ptr_ok d' key p) \<and> dict_map d' = (dict_map d)(key \<mapsto> junk))"
proof -
  obtain d1 where d1: "(if dictIsRehashing d then dictRehashStep ty d else Some d) = Some d1" "dict_ok ty d1"
    "mset (dict_entries d1) = mset (dict_entries d)" "dict_map d1 = dict_map d"
    using maybe_step_spec[OF assms(1)] by blast
  have "dictSize d1 \<le> 2 ^ 30" using d1(2,3) assms ok_size by (metis size_mset)
  then obtain d2 i where d2: "dictKeyIndex ty can d1 key = Some (d2, i)" "dict_ok ty d2" "dict_entries d2 = dict_entries d1"
    "ht_size (d_ht0 d2) \<noteq> 0"
    "if key \<in> fst ` set (dict_entries d1) then i = -1
     else i = int (unat (hashFunction ty key) AND ht_sizemask (if dictIsRehashing d2 then d_ht1 d2 else d_ht0 d2))"
    using keyIndex_spec[OF d1(2) _ assms(3)] by blast
  have m2: "dict_map d2 = dict_map d" using d2(3) d1(4) by (simp add: dict_map_def)
  show ?thesis
  proof (cases "key \<in> dom (dict_map d)")
    case True
    then have "i = -1" using d2(5) ok_dom[OF d1(2)] d1(4) by simp
    then show ?thesis using True d1(1) d2(1,2) m2 by (simp add: dictAddRaw_def)
  next
    case False
    then have new: "key \<notin> fst ` set (dict_entries d2)" using ok_dom[OF d2(2)] m2 by simp
    then have i: "i = int (unat (hashFunction ty key) AND ht_sizemask (if dictIsRehashing d2 then d_ht1 d2 else d_ht0 d2))"
      using d2(3,5) by simp
    obtain ht d' b where p: "bucket (if dictIsRehashing d2 then d_ht1 d2 else d_ht0 d2) (nat i) = Some b"
      "set_bucket (if dictIsRehashing d2 then d_ht1 d2 else d_ht0 d2) (nat i) ((key, junk) # b) = Some ht"
      "d' = (if dictIsRehashing d2 then d2\<lparr>d_ht1 := ht\<lparr>ht_used := ht_used ht + 1\<rparr>\<rparr> else d2\<lparr>d_ht0 := ht\<lparr>ht_used := ht_used ht + 1\<rparr>\<rparr>)"
      "dict_ok ty d'" "mset (dict_entries d') = add_mset (key, junk) (mset (dict_entries d2))"
      "ptr_ok d' key (if dictIsRehashing d2 then 1 else 0, nat i, 0)"
      using push_ok[OF d2(2,4) new, of junk] i by auto
    have "distinct (map fst (dict_entries d2))" using d2(2) by (simp add: dict_ok_def)
    from assoc_insert[OF this new p(5)] have "dict_map d' = (dict_map d)(key \<mapsto> junk)"
      using m2 by (simp add: dict_map_def)
    moreover have "dictAddRaw ty can junk d key = Some (d', Some (if dictIsRehashing d2 then 1 else 0, nat i, 0))"
      using d1(1) d2(1) p(1-3) i by (cases "dictIsRehashing d2") (simp_all add: dictAddRaw_def)
    ultimately show ?thesis using False p(4,6) by auto
  qed
qed



subsection \<open>The operations on the map they stand for\<close>

lemma no_table_empty: "dict_ok ty d \<Longrightarrow> ht_size (d_ht0 d) = 0 \<Longrightarrow> dict_entries d = []"
  using liveD(2) by (fastforce simp: dict_ok_def dict_entries_def split: if_splits)

lemma add_ok:
  assumes "dict_ok ty d" "dictSize d \<le> 2 ^ 30" "keyCompare ty = (=)"
  shows "\<exists>d'. dictAdd ty can junk d key v = Some (d', key \<notin> dom (dict_map d)) \<and> dict_ok ty d' \<and>
    dict_map d' = (if key \<in> dom (dict_map d) then dict_map d else (dict_map d)(key \<mapsto> v))"
proof -
  obtain d1 e where d1: "dictAddRaw ty can junk d key = Some (d1, e)" "dict_ok ty d1"
    "if key \<in> dom (dict_map d) then e = None \<and> dict_map d1 = dict_map d
     else (\<exists>p. e = Some p \<and> ptr_ok d1 key p) \<and> dict_map d1 = (dict_map d)(key \<mapsto> junk)"
    using addRaw_spec[OF assms] by blast
  show ?thesis
  proof (cases "key \<in> dom (dict_map d)")
    case True
    then show ?thesis using d1 by (simp add: dictAdd_def)
  next
    case False
    then obtain p where p: "e = Some p" "ptr_ok d1 key p" "dict_map d1 = (dict_map d)(key \<mapsto> junk)"
      using d1(3) by auto
    from setVal_spec[OF d1(2) p(2), of v] False p(1,3) d1(1) show ?thesis
      by (auto simp: dictAdd_def)
  qed
qed

lemma find_ok:
  assumes "dict_ok ty d" "keyCompare ty = (=)"
  shows "\<exists>d' e. dictFind ty d key = Some (d', e) \<and> dict_ok ty d' \<and> dict_map d' = dict_map d \<and>
    dictSize d' = dictSize d \<and>
    (if key \<in> dom (dict_map d) then \<exists>p. e = Some p \<and> ptr_ok d' key p else e = None)"
proof (cases "ht_size (d_ht0 d) = 0")
  case True
  then have "dict_entries d = []" by (rule no_table_empty[OF assms(1)])
  then show ?thesis using True assms by (simp add: dictFind_def dict_map_def)
next
  case False
  obtain d1 where d1: "(if dictIsRehashing d then dictRehashStep ty d else Some d) = Some d1" "dict_ok ty d1"
    "mset (dict_entries d1) = mset (dict_entries d)" "dict_map d1 = dict_map d" "ht_size (d_ht0 d1) \<noteq> 0"
    using maybe_step_spec[OF assms(1)] False by blast
  obtain r where r: "dict_search ty d1 key = Some r"
    "case r of None \<Rightarrow> key \<notin> fst ` set (dict_entries d1) | Some e \<Rightarrow> ptr_ok d1 key e"
    using dict_search_spec[OF d1(2,5) assms(2)] by blast
  have "key \<in> dom (dict_map d1)" if "r = Some e" for e
    using getVal_spec[OF d1(2), of key e] r(2) that by auto
  moreover have "key \<notin> dom (dict_map d1)" if "r = None"
    using ok_dom[OF d1(2)] r(2) that by simp
  moreover have "dictSize d1 = dictSize d"
    using ok_size[OF d1(2)] ok_size[OF assms(1)] d1(3) by (metis size_mset)
  ultimately show ?thesis
    using False d1 r by (cases r) (auto simp: dictFind_def)
qed

lemma fetch_ok:
  assumes "dict_ok ty d" "keyCompare ty = (=)"
  shows "\<exists>d'. dictFetchValue ty d key = Some (d', dict_map d key) \<and> dict_ok ty d' \<and> dict_map d' = dict_map d"
proof -
  obtain d' e where d': "dictFind ty d key = Some (d', e)" "dict_ok ty d'" "dict_map d' = dict_map d"
    "if key \<in> dom (dict_map d) then \<exists>p. e = Some p \<and> ptr_ok d' key p else e = None"
    using find_ok[OF assms] by blast
  show ?thesis
  proof (cases "key \<in> dom (dict_map d)")
    case True
    then obtain p where p: "e = Some p" "ptr_ok d' key p" using d'(4) by auto
    from getVal_spec[OF d'(2) p(2)] p(1) d'(1-3) show ?thesis by (auto simp: dictFetchValue_def)
  next
    case False
    then have "dict_map d key = None" by (simp add: domIff)
    then show ?thesis using False d' by (simp add: dictFetchValue_def)
  qed
qed

lemma replace_ok:
  assumes "dict_ok ty d" "dictSize d \<le> 2 ^ 30" "keyCompare ty = (=)"
  shows "\<exists>d'. dictReplace ty can junk d key v = Some (d', key \<notin> dom (dict_map d)) \<and> dict_ok ty d' \<and>
    dict_map d' = (dict_map d)(key \<mapsto> v)"
proof -
  obtain d1 where d1: "dictAdd ty can junk d key v = Some (d1, key \<notin> dom (dict_map d))" "dict_ok ty d1"
    "dict_map d1 = (if key \<in> dom (dict_map d) then dict_map d else (dict_map d)(key \<mapsto> v))"
    using add_ok[OF assms] by blast
  show ?thesis
  proof (cases "key \<in> dom (dict_map d)")
    case False
    then show ?thesis using d1 by (auto simp: dictReplace_def)
  next
    case True
    then obtain d2 p where d2: "dictFind ty d1 key = Some (d2, Some p)" "dict_ok ty d2" "dict_map d2 = dict_map d"
      "ptr_ok d2 key p"
      using find_ok[OF d1(2) assms(3), of key] d1(3) by auto
    from setVal_spec[OF d2(2,4), of v] True d1(1) d2(1,3) show ?thesis
      by (auto simp: dictReplace_def)
  qed
qed

lemma delete_ok:
  assumes "dict_ok ty d" "keyCompare ty = (=)"
  shows "\<exists>d'. dictDelete ty d key = Some (d', key \<in> dom (dict_map d)) \<and> dict_ok ty d' \<and>
    dict_map d' = (dict_map d)(key := None)"
proof (cases "ht_size (d_ht0 d) = 0")
  case True
  then have "dict_entries d = []" by (rule no_table_empty[OF assms(1)])
  then show ?thesis using True assms by (simp add: dictDelete_def dictGenericDelete_def dict_map_def fun_eq_iff)
next
  case False
  obtain d1 where d1: "(if dictIsRehashing d then dictRehashStep ty d else Some d) = Some d1" "dict_ok ty d1"
    "mset (dict_entries d1) = mset (dict_entries d)" "dict_map d1 = dict_map d" "ht_size (d_ht0 d1) \<noteq> 0"
    using maybe_step_spec[OF assms(1)] False by blast
  obtain r where r: "dict_search ty d1 key = Some r"
    "case r of None \<Rightarrow> key \<notin> fst ` set (dict_entries d1) | Some e \<Rightarrow> ptr_ok d1 key e"
    using dict_search_spec[OF d1(2,5) assms(2)] by blast
  show ?thesis
  proof (cases r)
    case None
    then have "key \<notin> dom (dict_map d)" using ok_dom[OF d1(2)] r(2) d1(4) by simp
    then show ?thesis using None r(1) d1 False
      by (auto simp: dictDelete_def dictGenericDelete_def fun_upd_idem_iff domIff)
  next
    case (Some e)
    obtain t i p where e: "e = (t, i, p)" by (cases e)
    have ptr: "ptr_ok d1 key (t, i, p)" using r(2) Some e by simp
    define ht where "ht = (if t = 0 then d_ht0 d1 else d_ht1 d1)"
    note pt = ptr_table[OF d1(2) ptr, folded ht_def]
    define b where "b = ht_table ht ! i"
    define b' where "b' = take p b @ drop (Suc p) b"
    have p: "p < length b" "fst (b ! p) = key" using pt(3,4) by (auto simp: b_def)
    have ms: "mset b = add_mset (key, snd (b ! p)) (mset b')"
      using nth_mset_split[OF p(1)] p(2) by (metis b'_def prod.collapse)
    have del: "distinct (map fst es) \<and> map_of es = (dict_map d1)(key := None) \<and> dict_map d1 key = Some (snd (b ! p))"
      if "mset es + mset b = mset (dict_entries d1) + mset b'" for es
    proof -
      have "mset (dict_entries d1) = add_mset (key, snd (b ! p)) (mset es)" using that ms by simp
      moreover have "distinct (map fst (dict_entries d1))" using d1(2) by (simp add: dict_ok_def)
      ultimately show ?thesis using assoc_delete[of "dict_entries d1"] by (simp add: dict_map_def)
    qed
    have "set b' \<subseteq> set b" by (auto simp: b'_def dest: in_set_takeD in_set_dropD)
    then have "\<forall>e\<in>set b'. fst e \<in> fst ` set b" by auto
    moreover have lb: "length b = Suc (length b')" using p(1) by (simp add: b'_def)
    moreover have "0 < ht_used ht"
    proof -
      have "ht_entries ht \<noteq> []"
        using bucket_entries[OF pt(1,2) nth_mem[OF p(1)[unfolded b_def]]] by force
      then show ?thesis using liveD(4)[OF pt(1)] by simp
    qed
    ultimately obtain ht' d' where u: "set_bucket ht i b' = Some ht'"
      "d' = (if t = 0 then d1\<lparr>d_ht0 := ht'\<lparr>ht_used := ht_used ht - 1\<rparr>\<rparr> else d1\<lparr>d_ht1 := ht'\<lparr>ht_used := ht_used ht - 1\<rparr>\<rparr>)"
      "dict_ok ty d'" "mset (dict_entries d') + mset b = mset (dict_entries d1) + mset b'" "ht_used ht' = ht_used ht"
      using bucket_update_ok[OF d1(2) ptr, of b' "ht_used ht - 1", folded ht_def, folded b_def] del by auto
    have "dictDelete ty d key = Some (d', True)"
      using False d1(1) r(1) Some e u(1,2,5) pt(5)
      by (simp add: dictDelete_def dictGenericDelete_def Let_def ht_def[symmetric] b_def[symmetric] b'_def)
    then show ?thesis using u(3) del[OF u(4)] d1(4) by (auto simp: dict_map_def)
  qed
qed

lemma create_ok: "dict_ok ty dictCreate" "dict_map dictCreate = Map.empty"
  by (simp_all add: dict_ok_def dictCreate_def dictIsRehashing_def dict_entries_def dict_map_def)

lemma create_size: "dictSize dictCreate = 0"
  by (simp add: dictSize_def dictCreate_def)

lemma finite_dict_map: "finite (dom (dict_map d))"
  by (simp add: dict_map_def finite_dom_map_of)

lemma sds_compare: "keyCompare (dbDictType seed) = (=)"
  by (auto simp: dbDictType_def dictSdsKeyCompare_def Let_def fun_eq_iff)

text \<open>A dictionary type whose comparison is equality, as those of \<open>redis.c\<close> on binary-safe strings are.\<close>

locale dict_type =
  fixes ty :: "'k dictType"
  assumes compare_eq: "keyCompare ty = (=)"
begin

sublocale map_impl dictCreate "dictAdd ty can junk" "dictReplace ty can junk" "dictDelete ty"
  "dictFetchValue ty" dict_map "dict_ok ty" "2 ^ 30" for can junk
  by unfold_locales
    (use create_ok finite_dict_map add_ok replace_ok delete_ok fetch_ok compare_eq dict_ok_card in metis)+

end

interpretation db_dict: dict_type "dbDictType seed" for seed
  by unfold_locales (rule sds_compare)

subsection \<open>Rehashing for a time budget\<close>

lemma rehash_ms_spec:
  assumes "dict_ok ty d" "dictIsRehashing d" "int (ht_size (d_ht0 d)) - d_rehashidx d < int n"
  shows "\<exists>d' r. dictRehashMs_loop ty clock ms i d k = Some (d', r) \<and> dict_ok ty d' \<and>
    mset (dict_entries d') = mset (dict_entries d) \<and> (dictIsRehashing d' \<longrightarrow> (\<exists>j\<ge>i. clock j - clock 0 > ms))"
  using assms
proof (induction n arbitrary: d i k)
  case 0
  then show ?case by (simp add: dict_ok_def)
next
  case (Suc n)
  obtain d1 b where d1: "dictRehash ty d 100 = Some (d1, b)" "rehash_post ty d d1" "b \<longleftrightarrow> dictIsRehashing d1"
    "b \<longrightarrow> d_rehashidx d < d_rehashidx d1"
    using rehash_spec[OF Suc.prems(1,2), of 100] by auto
  note post = d1(2)[unfolded rehash_post_def]
  show ?case
  proof (cases "b \<and> \<not> clock i - clock 0 > ms")
    case False
    then show ?thesis using d1 post by (subst dictRehashMs_loop.simps) auto
  next
    case True
    then have "int (ht_size (d_ht0 d1)) - d_rehashidx d1 < int n" using d1 post Suc.prems(3) by auto
    from Suc.IH[OF _ _ this, of "i + 1" "k + 100"] obtain d' r where
      "dictRehashMs_loop ty clock ms (i + 1) d1 (k + 100) = Some (d', r)" "dict_ok ty d'"
      "mset (dict_entries d') = mset (dict_entries d1)" "dictIsRehashing d' \<longrightarrow> (\<exists>j\<ge>i+1. clock j - clock 0 > ms)"
      using True d1(3) post by blast
    then show ?thesis using True d1(1) post
      by (subst dictRehashMs_loop.simps) (auto intro: Suc_leD)
  qed
qed

section \<open>Properties\<close>

text \<open>C12. Insertion: in a well-formed dictionary of up to \<open>2\<^sup>3\<^sup>0\<close> entries, at any stage of an incremental
  rehash and with or without a table expansion, \<open>dictAdd\<close> returns without touching memory out of
  bounds, keeps the invariant, reports success exactly when the key was absent, and then adds exactly
  that binding.\<close>

theorem dictAdd_correct:
  assumes "dict_ok ty d" "dictSize d \<le> 2 ^ 30" "keyCompare ty = (=)"
  shows "\<exists>d'. dictAdd ty can junk d key v = Some (d', key \<notin> dom (dict_map d)) \<and> dict_ok ty d' \<and>
    dict_map d' = (if key \<in> dom (dict_map d) then dict_map d else (dict_map d)(key \<mapsto> v))"
  using assms by (rule add_ok)

theorem dictAdd_correct_witness:
  "\<exists>d'. dictAdd (dbDictType 5381) True (0::int) dictCreate [102, 111, 111] 7 = Some (d', True) \<and>
    dict_ok (dbDictType 5381) d' \<and> dict_map d' = [[102, 111, 111] \<mapsto> 7]"
  using dictAdd_correct[of "dbDictType 5381" "dictCreate :: (bytes, int) dict" True 0 "[102, 111, 111]" 7]
  by (simp add: create_ok sds_compare create_size)

text \<open>Update: \<open>dictReplace\<close> binds the key to the new value whether or not it was bound, leaves every
  other binding alone, and reports whether the key was new; a later \<open>dictFetchValue\<close> of any key sees
  exactly that.\<close>

lemma dictReplace_then_fetch:
  assumes "dict_ok (dbDictType seed) d" "dictSize d \<le> 2 ^ 30"
  shows "\<exists>d' d''. dictReplace (dbDictType seed) can junk d key v = Some (d', key \<notin> dom (dict_map d)) \<and>
    dictFetchValue (dbDictType seed) d' key' = Some (d'', if key' = key then Some v else dict_map d key') \<and>
    dict_ok (dbDictType seed) d''"
  using db_dict.fetch_after_replace[OF assms(1), of can junk key v key'] assms dict_ok_card by metis

text \<open>C13. Deletion: \<open>dictDelete\<close> removes exactly the binding of the key, in whichever table and chain
  position it is, and reports whether there was one.\<close>

theorem dictDelete_correct:
  assumes "dict_ok ty d" "keyCompare ty = (=)"
  shows "\<exists>d'. dictDelete ty d key = Some (d', key \<in> dom (dict_map d)) \<and> dict_ok ty d' \<and>
    dict_map d' = (dict_map d)(key := None)"
  using assms by (rule delete_ok)

theorem dictDelete_correct_witness:
  "\<exists>d'. dictDelete \<lparr>hashFunction = id, keyCompare = (=)\<rparr>
      \<lparr>d_ht0 = \<lparr>ht_table = [[(4, 10), (0 :: 32 word, 20 :: nat)]], ht_size = 1, ht_sizemask = 0, ht_used = 2\<rparr>,
       d_ht1 = dictReset, d_rehashidx = -1, d_iterators = 0\<rparr> 0 = Some (d', True) \<and> dict_map d' 0 = None"
proof -
  define d where "d = \<lparr>d_ht0 = \<lparr>ht_table = [[(4, 10), (0 :: 32 word, 20 :: nat)]], ht_size = 1, ht_sizemask = 0, ht_used = 2\<rparr>,
       d_ht1 = dictReset, d_rehashidx = -1, d_iterators = 0\<rparr>"
  have "\<exists>p\<le>31. 1 = (2::nat) ^ p" by (rule exI[of _ 0]) simp
  then have "dict_ok \<lparr>hashFunction = id, keyCompare = (=)\<rparr> d"
    by (simp add: dict_ok_def d_def dictIsRehashing_def dict_entries_def ht_entries_def ht_live_def dictReset_def)
  moreover have "0 \<in> dom (dict_map d)"
    by (simp add: d_def dict_map_def dict_entries_def ht_entries_def)
  ultimately have "\<exists>d'. dictDelete \<lparr>hashFunction = id, keyCompare = (=)\<rparr> d 0 = Some (d', True) \<and> dict_map d' 0 = None"
    using dictDelete_correct[of "\<lparr>hashFunction = id, keyCompare = (=)\<rparr>" d 0] by auto
  then show ?thesis by (simp only: d_def)
qed

text \<open>C23. Rehashing for a time budget always returns, whatever the clock shows; it loses, duplicates
  and alters no entry, and it leaves the rehash unfinished only if the clock passed the budget.  How far it may pass the budget is not stated:
  the clock is read after each batch of a hundred buckets.\<close>

theorem dictRehashMilliseconds_correct:
  assumes "dict_ok ty d"
  shows "\<exists>d' r. dictRehashMilliseconds ty clock d ms = Some (d', r) \<and> dict_ok ty d' \<and> dict_map d' = dict_map d \<and>
    dictSize d' = dictSize d \<and> (dictIsRehashing d' \<longrightarrow> (\<exists>j\<ge>1. clock j - clock 0 > ms))"
proof (cases "dictIsRehashing d")
  case False
  then have "dictRehashMilliseconds ty clock d ms = Some (d, 0)"
    unfolding dictRehashMilliseconds_def by (subst dictRehashMs_loop.simps) (simp add: dictRehash_def)
  then show ?thesis using False assms by simp
next
  case True
  obtain d' r where d': "dictRehashMs_loop ty clock ms 1 d 0 = Some (d', r)" "dict_ok ty d'"
    "mset (dict_entries d') = mset (dict_entries d)" "dictIsRehashing d' \<longrightarrow> (\<exists>j\<ge>1. clock j - clock 0 > ms)"
    using rehash_ms_spec[OF assms True, of "Suc (ht_size (d_ht0 d))" clock ms 1 0] assms True
    by (auto simp: dict_ok_def)
  moreover have "dictSize d' = dictSize d"
    using ok_size[OF d'(2)] ok_size[OF assms] d'(3) by (metis size_mset)
  ultimately show ?thesis using ok_map_cong[OF assms d'(3)] by (simp add: dictRehashMilliseconds_def)
qed

theorem dictRehashMilliseconds_correct_witness:
  "\<exists>d' r. dictRehashMilliseconds (dbDictType 1) (\<lambda>_. 0) (dictCreate :: (bytes, int) dict) 1 = Some (d', r) \<and>
     \<not> dictIsRehashing d'"
  using dictRehashMilliseconds_correct[of "dbDictType 1" "dictCreate :: (bytes, int) dict" "\<lambda>_. 0" 1]
  by (auto simp: create_ok)

end
