(* ===== verification/Redis_DictScan.thy ===== *)
theory Redis_DictScan
  imports Redis_Dict
begin

unbundle bit_operations_syntax

text \<open>
  \<open>dictScan\<close> of \<open>dict.c\<close>: the stateless cursor iteration behind \<open>SCAN\<close>, \<open>HSCAN\<close> and \<open>SSCAN\<close>, with its
  bit-reversal helper.

  \<open>dictScan d v\<close> yields the entries passed to the callback and the next cursor.  \<open>scan_run\<close> is a client
  that starts from a cursor and calls \<open>dictScan\<close> until the cursor is 0, each call seeing the dictionary
  in a possibly different state.  The analysis follows the reversed cursor: bit-reversed, the cursor
  only grows, and a call emits every entry whose bit-reversed hash lies between the old and the new one.
\<close>

section \<open>The code\<close>

text \<open>\<open>rev\<close> of \<open>dict.c\<close>, on 64-bit \<open>unsigned long\<close>.\<close>

function rev_loop :: "nat \<Rightarrow> 64 word \<Rightarrow> 64 word \<Rightarrow> 64 word" where
  "rev_loop s msk v =
     (let s = s div 2
      in if s > 0
         then let msk = msk XOR push_bit s msk;
                  v = (drop_bit s v AND msk) OR (push_bit s v AND NOT msk)
              in rev_loop s msk v
         else v)"
  by pat_completeness auto
termination by (relation "measure (\<lambda>(s, _, _). s)") auto

declare rev_loop.simps [simp del]

definition rev_ul :: "64 word \<Rightarrow> 64 word" where
  "rev_ul v = rev_loop 64 (- 1) v"

text \<open>The loop over the buckets of the larger table that expand the cursor.\<close>

partial_function (option) dictScan_expand ::
    "('k, 'v) dictht \<Rightarrow> 64 word \<Rightarrow> 64 word \<Rightarrow> 64 word \<Rightarrow> ('k \<times> 'v) list \<Rightarrow> (('k \<times> 'v) list \<times> 64 word) option" where
  "dictScan_expand t1 m0 m1 v es = do {
     de \<leftarrow> bucket t1 (unat (v AND m1));
     let v = (((v OR m0) + 1) AND NOT m0) OR (v AND m0);
     (if v AND (m0 XOR m1) \<noteq> 0 then dictScan_expand t1 m0 m1 v (es @ de) else Some (es @ de, v))
   }"

declare dictScan_expand.simps [code]

definition scan_tables :: "('k, 'v) dict \<Rightarrow> ('k, 'v) dictht \<times> ('k, 'v) dictht" where
  "scan_tables d =
     (if ht_size (d_ht0 d) > ht_size (d_ht1 d) then (d_ht1 d, d_ht0 d) else (d_ht0 d, d_ht1 d))"

definition dictScan :: "('k, 'v) dict \<Rightarrow> 64 word \<Rightarrow> (('k \<times> 'v) list \<times> 64 word) option" where
  "dictScan d v =
     (if dictSize d = 0 then Some ([], 0)
      else do {
        (es, v, m0) \<leftarrow>
          (if \<not> dictIsRehashing d then do {
             let t0 = d_ht0 d;
             let m0 = of_nat (ht_sizemask t0);
             de \<leftarrow> bucket t0 (unat (v AND m0));
             Some (de, v, m0)
           } else do {
             let (t0, t1) = scan_tables d;
             let m0 = of_nat (ht_sizemask t0);
             let m1 = of_nat (ht_sizemask t1);
             de \<leftarrow> bucket t0 (unat (v AND m0));
             (es, v) \<leftarrow> dictScan_expand t1 m0 m1 v de;
             Some (es, v, m0)
           });
        let v = v OR NOT m0;
        let v = rev_ul v;
        let v = v + 1;
        let v = rev_ul v;
        Some (es, v)
      })"

text \<open>A complete iteration of a client over the successive states of a dictionary.\<close>

fun scan_run :: "('k, 'v) dict list \<Rightarrow> 64 word \<Rightarrow> (('k \<times> 'v) list \<times> 64 word) option" where
  "scan_run [] v = Some ([], v)"
| "scan_run (d # ds) v = do {
     (es, v') \<leftarrow> dictScan d v;
     (if v' = 0 then Some (es, v')
      else do { (es', v'') \<leftarrow> scan_run ds v'; Some (es @ es', v'') })
   }"

text \<open>The mask the cursor moves under, and the condition that no call finds a rehash in progress with a
  cursor wider than the smaller table.\<close>

definition scan_mask :: "('k, 'v) dict \<Rightarrow> 64 word" where
  "scan_mask d = of_nat (ht_sizemask (if dictIsRehashing d then fst (scan_tables d) else d_ht0 d))"

fun scan_fits :: "('k, 'v) dict list \<Rightarrow> 64 word \<Rightarrow> bool" where
  "scan_fits [] v = True"
| "scan_fits (d # ds) v =
     ((dictIsRehashing d \<longrightarrow> v AND scan_mask d = v) \<and>
      (case dictScan d v of None \<Rightarrow> True | Some (es, v') \<Rightarrow> v' = 0 \<or> scan_fits ds v'))"

text \<open>Notions of the proofs: the position a round of \<open>rev\<close> exchanges with a given one, the mask of a
  round, what a call with a fitting cursor guarantees, the number of buckets of the table the cursor
  moves under.\<close>

definition flip_pos :: "nat \<Rightarrow> nat \<Rightarrow> nat" where
  "flip_pos k n = (if even (n div 2 ^ k) then n + 2 ^ k else n - 2 ^ k)"

definition rev_mask :: "nat \<Rightarrow> 64 word \<Rightarrow> bool" where
  "rev_mask k m \<longleftrightarrow> (\<forall>n < 64. bit m n \<longleftrightarrow> even (n div 2 ^ k))"

definition scan_post :: "'k dictType \<Rightarrow> ('k, 'v) dict \<Rightarrow> 64 word \<Rightarrow> nat \<Rightarrow> ('k \<times> 'v) list \<Rightarrow> 64 word \<Rightarrow> bool" where
  "scan_post ty d v p es v' \<longleftrightarrow> p \<le> 31 \<and> scan_mask d = mask p \<and>
     unat (rev_ul v') = (unat (rev_ul v) div 2 ^ (64 - p) + 1) * 2 ^ (64 - p) mod 2 ^ 64 \<and>
     set es \<subseteq> set (dict_entries d) \<and>
     (\<forall>e\<in>set (dict_entries d). ucast (hashFunction ty (fst e)) AND mask p = v AND mask p \<longrightarrow> e \<in> set es)"

definition scan_size :: "('k, 'v) dict \<Rightarrow> nat" where
  "scan_size d = ht_size (if dictIsRehashing d then fst (scan_tables d) else d_ht0 d)"

section \<open>Bit reversal\<close>

text \<open>The round with shift \<open>2\<^sup>k\<close> exchanges the positions that differ in the \<open>k\<close>-th bit of their index.\<close>

lemma rev_mask_step:
  assumes "rev_mask (Suc k) m"
  shows "rev_mask k (m XOR push_bit (2 ^ k) m)"
  unfolding rev_mask_def
proof (intro allI impI)
  fix n :: nat assume n: "n < 64"
  define q where "q = n div 2 ^ k"
  have 1: "n div 2 ^ Suc k = q div 2" unfolding q_def by (metis div_mult2_eq power_Suc2)
  have 2: "2 ^ k \<le> n \<longleftrightarrow> 1 \<le> q"
    by (metis One_nat_def Suc_leI div_greater_zero_iff not_gr_zero q_def zero_less_numeral zero_less_power not_one_le_zero)
  have 3: "(n - 2 ^ k) div 2 ^ Suc k = (q - 1) div 2" if "2 ^ k \<le> n"
  proof -
    have "(n - 2 ^ k) div 2 ^ k = q - 1" using that by (simp add: q_def le_div_geq)
    then show ?thesis by (metis div_mult2_eq power_Suc2)
  qed
  have "bit (m XOR push_bit (2 ^ k) m) n \<longleftrightarrow> (even (q div 2) \<noteq> (1 \<le> q \<and> even ((q - 1) div 2)))"
    using assms n 1 2 3 by (auto simp: rev_mask_def bit_simps)
  also have "\<dots> \<longleftrightarrow> even q" by presburger
  finally show "bit (m XOR push_bit (2 ^ k) m) n \<longleftrightarrow> even (n div 2 ^ k)" by (simp add: q_def)
qed

lemma rev_round_bit:
  assumes "rev_mask k m" "n < 64" "k < 6"
  shows "bit ((drop_bit (2 ^ k) v AND m) OR (push_bit (2 ^ k) v AND NOT m) :: 64 word) n \<longleftrightarrow> bit v (flip_pos k n)"
proof -
  have "2 ^ k \<le> n" if "odd (n div 2 ^ k)" using that by (metis div_less even_zero not_less)
  then show ?thesis using assms by (auto simp: rev_mask_def bit_simps flip_pos_def add.commute)
qed

lemma flip_pos_less:
  assumes "k < 6" "n < 64"
  shows "flip_pos k n < 64"
proof (cases "even (n div 2 ^ k)")
  case True
  obtain t where t: "6 = Suc (k + t)" using assms(1) by (metis add_Suc_right less_imp_Suc_add)
  have E: "(64::nat) = 2 ^ k * (2 * 2 ^ t)"
    using arg_cong[OF t, of "\<lambda>x. (2::nat) ^ x"] by (simp add: power_add)
  have "n div 2 ^ k < 2 * 2 ^ t" using assms(2) unfolding E by (simp add: div_less_iff_less_mult mult.commute)
  then have "n div 2 ^ k + 1 < 2 * 2 ^ t" using True by (metis Suc_eq_plus1 Suc_lessI even_Suc even_mult_iff even_numeral)
  then have "(n + 2 ^ k) div 2 ^ k < 2 * 2 ^ t" by (simp add: div_add_self2)
  then have "n + 2 ^ k < 64" unfolding E by (subst (asm) div_less_iff_less_mult) (simp_all add: mult.commute)
  then show ?thesis using True by (simp add: flip_pos_def)
qed (use assms in \<open>simp add: flip_pos_def\<close>)

lemma rev_loop_bit:
  assumes "rev_mask k m" "n < 64" "k \<le> 6"
  shows "(bit (rev_loop (2 ^ k) m v) n \<longleftrightarrow> bit v (fold flip_pos [0..<k] n)) \<and> fold flip_pos [0..<k] n < 64"
  using assms
proof (induction k arbitrary: m v)
  case 0
  then show ?case by (simp add: rev_loop.simps)
next
  case (Suc k)
  define m' where "m' = m XOR push_bit (2 ^ k) m"
  define v' where "v' = (drop_bit (2 ^ k) v AND m') OR (push_bit (2 ^ k) v AND NOT m')"
  have m': "rev_mask k m'" using rev_mask_step[OF Suc.prems(1)] by (simp add: m'_def)
  have "rev_loop (2 ^ Suc k) m v = rev_loop (2 ^ k) m' v'"
    by (subst rev_loop.simps) (simp add: m'_def v'_def Let_def)
  then show ?case
    using Suc.IH[OF m' Suc.prems(2), of v'] Suc.prems(3) rev_round_bit[OF m', of "fold flip_pos [0..<k] n" v]
    by (auto simp: v'_def flip_pos_less)
qed

lemma flip_low: "fold flip_pos [0..<k] n = n div 2 ^ k * 2 ^ k + (2 ^ k - 1 - n mod 2 ^ k)"
proof (induction k)
  case (Suc k)
  define q r and s :: nat where "q = n div 2 ^ k" and "r = n mod 2 ^ k" and "s = 2 ^ k"
  have r: "r < s" by (simp add: r_def s_def)
  then have d: "(q * s + (s - 1 - r)) div s = q" by (subst div_mult_self3) auto
  have q2: "n div 2 ^ Suc k = q div 2" unfolding q_def by (metis div_mult2_eq power_Suc2)
  have r2: "n mod 2 ^ Suc k = s * (q mod 2) + r"
    unfolding q_def r_def s_def power_Suc2 by (rule mod_mult2_eq)
  have "fold flip_pos [0..<Suc k] n = flip_pos k (q * s + (s - 1 - r))" using Suc by (simp add: q_def r_def s_def)
  also have "\<dots> = q div 2 * (2 * s) + (2 * s - 1 - (s * (q mod 2) + r))"
  proof (cases "even q")
    case True
    then show ?thesis using d r by (auto simp: flip_pos_def simp flip: s_def elim!: evenE)
  next
    case False
    then obtain b where b: "q = 2 * b + 1" by (auto elim: oddE)
    then have "flip_pos k (q * s + (s - 1 - r)) = q * s + (s - 1 - r) - s"
      using d by (simp add: flip_pos_def flip: s_def)
    also have "\<dots> = b * (2 * s) + (2 * s - 1 - (s + r))" using r b by simp
    finally show ?thesis by (simp add: b)
  qed
  finally show ?case unfolding q2 r2 by (simp add: s_def)
qed simp

lemma flip_all: "n < 64 \<Longrightarrow> fold flip_pos [0..<6] n = 63 - n"
  unfolding flip_low by simp

lemma unat_drop_bit: "unat (drop_bit q (x :: 64 word)) = unat x div 2 ^ q"
  by (simp only: unat_drop_bit_eq) (simp only: drop_bit_eq_div)

lemma bit_rev_ul: "n < 64 \<Longrightarrow> bit (rev_ul v) n \<longleftrightarrow> bit v (63 - n)"
  using rev_loop_bit[of 6 "- 1" n v] flip_all[of n] by (simp add: rev_mask_def rev_ul_def)

lemma rev_ul_rev_ul [simp]: "rev_ul (rev_ul v) = v"
  by (rule bit_word_eqI) (simp add: bit_rev_ul)

text \<open>Incrementing the reversed cursor under a mask of \<open>p\<close> bits: the top \<open>p\<close> bits of the reversed cursor,
  read as a number, are incremented and the others cleared.\<close>

lemma rev_ul_or_mask:
  assumes "p \<le> 64"
  shows "rev_ul (v OR NOT (mask p)) = rev_ul v OR mask (64 - p)"
  by (rule bit_word_eqI) (use assms in \<open>auto simp: bit_rev_ul bit_simps\<close>)

lemma same_block:
  assumes "p \<le> 64"
  shows "h AND mask p = v AND mask p \<longleftrightarrow> unat (rev_ul h) div 2 ^ (64 - p) = unat (rev_ul v) div 2 ^ (64 - p)"
proof -
  have "h AND mask p = v AND mask p \<longleftrightarrow> drop_bit (64 - p) (rev_ul h) = drop_bit (64 - p) (rev_ul v)"
  proof
    assume a: "h AND mask p = v AND mask p"
    show "drop_bit (64 - p) (rev_ul h) = drop_bit (64 - p) (rev_ul v)"
    proof (rule bit_word_eqI)
      fix n assume "n < LENGTH(64)"
      show "bit (drop_bit (64 - p) (rev_ul h)) n = bit (drop_bit (64 - p) (rev_ul v)) n"
      proof (cases "n < p")
        case True
        then show ?thesis
          using arg_cong[OF a, of "\<lambda>x. bit x (p - 1 - n)"] assms by (auto simp: bit_simps bit_rev_ul)
      qed (use assms in \<open>auto simp: bit_simps dest: bit_imp_le_length\<close>)
    qed
  next
    assume a: "drop_bit (64 - p) (rev_ul h) = drop_bit (64 - p) (rev_ul v)"
    show "h AND mask p = v AND mask p"
    proof (rule bit_word_eqI)
      fix n assume n: "n < LENGTH(64)"
      show "bit (h AND mask p) n = bit (v AND mask p) n"
        using arg_cong[OF a, of "\<lambda>x. bit x (p - 1 - n)"] n assms by (auto simp: bit_simps bit_rev_ul)
    qed
  qed
  also have "\<dots> \<longleftrightarrow> unat (rev_ul h) div 2 ^ (64 - p) = unat (rev_ul v) div 2 ^ (64 - p)"
    unfolding word_unat_eq_iff unat_drop_bit ..
  finally show ?thesis .
qed

lemma unat_or_mask_inc:
  assumes "q \<le> 64"
  shows "unat ((x :: 64 word) OR mask q) + 1 = (unat x div 2 ^ q + 1) * 2 ^ q"
proof -
  have "x OR mask q = push_bit q (drop_bit q x) OR mask q"
    by (rule bit_word_eqI) (auto simp: bit_simps)
  also have "\<dots> = push_bit q (drop_bit q x) + mask q"
    by (rule disjunctive_add[symmetric]) (auto simp: bit_simps)
  finally have x: "x OR mask q = push_bit q (drop_bit q x) + mask q" .
  define y where "y = unat x div 2 ^ q"
  have "unat x < 2 ^ q * 2 ^ (64 - q)" using assms unsigned_less[of x] by (simp flip: power_add)
  then have "y < 2 ^ (64 - q)" by (simp add: y_def div_less_iff_less_mult mult.commute)
  then have "(y + 1) * 2 ^ q \<le> 2 ^ (64 - q) * 2 ^ q" by (intro mult_le_mono1) simp
  then have le: "(y + 1) * 2 ^ q \<le> 2 ^ 64" using assms by (simp flip: power_add)
  have "x OR mask q = of_nat ((y + 1) * 2 ^ q - 1)"
  proof -
    have "drop_bit q x = of_nat y" unfolding y_def unat_drop_bit[symmetric] by simp
    moreover have "1 \<le> (y + 1) * 2 ^ q" by (simp add: Suc_le_eq)
    ultimately show ?thesis
      unfolding x by (simp add: push_bit_eq_mult mask_eq_exp_minus_1 of_nat_diff distrib_right mult.commute)
  qed
  moreover have "(y + 1) * 2 ^ q - 1 < 2 ^ 64" using le by (simp add: less_eq_Suc_le)
  ultimately have "unat (x OR mask q) = (y + 1) * 2 ^ q - 1"
    by (simp add: unat_of_nat take_bit_nat_eq_self del: One_nat_def)
  then show ?thesis by (simp add: y_def)
qed

lemma cursor_step:
  assumes "p \<le> 64"
  shows "unat (rev_ul (rev_ul (rev_ul (v OR NOT (mask p)) + 1))) =
    (unat (rev_ul v) div 2 ^ (64 - p) + 1) * 2 ^ (64 - p) mod 2 ^ 64"
proof -
  have "unat (rev_ul (v OR NOT (mask p)) + 1) = (unat (rev_ul v OR mask (64 - p)) + 1) mod 2 ^ 64"
    unfolding rev_ul_or_mask[OF assms] by (simp add: unat_word_ariths)
  then show ?thesis using unat_or_mask_inc[of "64 - p" "rev_ul v"] by simp
qed

section \<open>One call\<close>

lemma mask_of_nat: "mask p = (of_nat (2 ^ p - 1) :: 64 word)"
  by (simp add: mask_eq_exp_minus_1 of_nat_diff)

lemma unat_and_mask: "unat (v AND mask p :: 64 word) = unat v mod 2 ^ p"
  unfolding take_bit_eq_mask[symmetric] unsigned_take_bit_eq by (rule take_bit_eq_mod)

lemma live_mask:
  assumes "ht_live ty ht"
  shows "\<exists>p \<le> 31. ht_size ht = 2 ^ p \<and> of_nat (ht_sizemask ht) = (mask p :: 64 word) \<and>
    (\<forall>h :: 32 word. unat h AND ht_sizemask ht = unat h mod 2 ^ p)"
proof -
  obtain p where p: "p \<le> 31" "ht_size ht = 2 ^ p" using assms by (auto simp: ht_live_def)
  then have m: "ht_sizemask ht = 2 ^ p - 1" using assms by (auto simp: ht_live_def)
  have "unat h AND ht_sizemask ht = unat h mod 2 ^ p" for h :: "32 word"
    unfolding m by (metis mask_eq_exp_minus_1 take_bit_eq_mask take_bit_eq_mod)
  then show ?thesis using p m mask_of_nat by metis
qed

lemma expand_next:
  assumes "p \<le> p1" "p1 \<le> 31" "x < 2 ^ p" "j < 2 ^ (p1 - p)" "unat v = x + j * 2 ^ p"
    "w = ((((v :: 64 word) OR mask p) + 1) AND NOT (mask p)) OR (v AND mask p)"
  shows "unat w = x + (j + 1) * 2 ^ p" "w AND (mask p XOR mask p1) \<noteq> 0 \<longleftrightarrow> j + 1 < 2 ^ (p1 - p)"
proof -
  have v: "unat v div 2 ^ p = j" "unat v mod 2 ^ p = x" using assms(3,5) by auto
  have P: "2 ^ (p1 - p) * 2 ^ p = (2::nat) ^ p1" using assms(1) by (simp flip: power_add)
  have "(j + 1) * 2 ^ p \<le> 2 ^ (p1 - p) * 2 ^ p" using assms(4) by (intro mult_le_mono1) simp
  then have le: "(j + 1) * 2 ^ p \<le> 2 ^ p1" by (simp only: P)
  have "(2::nat) ^ p1 \<le> 2 ^ 31" using assms(2) by (intro power_increasing) auto
  then have small: "(j + 1) * 2 ^ p < 2 ^ 64" using le by simp
  define u where "u = (v OR mask p) + 1"
  have u: "unat u = (j + 1) * 2 ^ p"
    using unat_or_mask_inc[of p v] small assms(1,2) v(1) by (simp add: u_def unat_word_ariths)
  have "u AND mask p = 0" using u by (simp add: word_unat_eq_iff unat_and_mask)
  then have d: "bit u n \<Longrightarrow> n < p \<Longrightarrow> False" for n
    using bit_and_iff[of u "mask p" n] by (auto simp: bit_simps dest: bit_imp_le_length)
  have w: "w = u + (v AND mask p)"
  proof -
    have "u AND NOT (mask p) = u" using d by (intro bit_word_eqI) (auto simp: bit_simps)
    then have "w = u OR (v AND mask p)" by (simp add: u_def assms(6))
    also have "\<dots> = u + (v AND mask p)" by (rule disjunctive_add[symmetric]) (use d in \<open>auto simp: bit_simps\<close>)
    finally show ?thesis .
  qed
  have "(j + 1) * 2 ^ p + x < 2 ^ 64"
  proof -
    have "x < 2 ^ p1" using assms(1,3) by (meson less_le_trans one_le_numeral power_increasing)
    then show ?thesis using le \<open>(2::nat) ^ p1 \<le> 2 ^ 31\<close> by simp
  qed
  then show uw: "unat w = x + (j + 1) * 2 ^ p"
    unfolding w unat_word_ariths unat_and_mask u v(2) by (simp del: mult_Suc)
  have "w AND (mask p XOR mask p1) = 0 \<longleftrightarrow> w AND mask p1 = w AND mask p"
  proof
    assume a: "w AND (mask p XOR mask p1) = 0"
    show "w AND mask p1 = w AND mask p"
      by (rule bit_word_eqI) (use a assms(1) in \<open>auto simp: bit_simps bit_eq_iff\<close>)
  next
    assume a: "w AND mask p1 = w AND mask p"
    show "w AND (mask p XOR mask p1) = 0"
      by (rule bit_word_eqI) (use a assms(1) in \<open>auto simp: bit_simps bit_eq_iff\<close>)
  qed
  also have "\<dots> \<longleftrightarrow> unat w mod 2 ^ p1 = x"
  proof -
    have "unat w mod 2 ^ p = x" unfolding uw using assms(3) by (subst mod_mult_self1) simp
    then show ?thesis by (simp only: word_unat_eq_iff unat_and_mask)
  qed
  also have "\<dots> \<longleftrightarrow> \<not> j + 1 < 2 ^ (p1 - p)"
  proof (cases "j + 1 < 2 ^ (p1 - p)")
    case True
    then have "(j + 2) * 2 ^ p \<le> 2 ^ (p1 - p) * 2 ^ p" by (intro mult_le_mono1) simp
    then have "unat w < 2 ^ p1" unfolding uw P using assms(3) by simp
    then show ?thesis using True uw by simp
  next
    case False
    then have "j + 1 = 2 ^ (p1 - p)" using assms(4) by simp
    then have "unat w = x + 2 ^ p1" using uw P by simp
    moreover have "x < 2 ^ p1" using assms(1,3) by (meson less_le_trans one_le_numeral power_increasing)
    ultimately show ?thesis using False by simp
  qed
  finally show "w AND (mask p XOR mask p1) \<noteq> 0 \<longleftrightarrow> j + 1 < 2 ^ (p1 - p)" by blast
qed

lemma expand_spec_scan:
  assumes "p \<le> p1" "p1 \<le> 31" "x < 2 ^ p" "j < 2 ^ (p1 - p)" "unat v = x + j * 2 ^ p" "length (ht_table t1) = 2 ^ p1"
  shows "\<exists>v'. dictScan_expand t1 (mask p) (mask p1) v es =
      Some (es @ concat (map (\<lambda>i. ht_table t1 ! (x + i * 2 ^ p)) [j..<2 ^ (p1 - p)]), v') \<and> unat v' = x + 2 ^ p1"
  using assms(4,5)
proof (induction "2 ^ (p1 - p) - j" arbitrary: j v es rule: less_induct)
  case less
  define w where "w = (((v OR mask p) + 1) AND NOT (mask p)) OR (v AND mask p)"
  note nx = expand_next[OF assms(1,2,3) less.prems w_def]
  have P: "2 ^ (p1 - p) * 2 ^ p = (2::nat) ^ p1" using assms(1) by (simp flip: power_add)
  have "(j + 1) * 2 ^ p \<le> 2 ^ (p1 - p) * 2 ^ p" using less.prems(1) by (intro mult_le_mono1) simp
  then have lt: "unat v < 2 ^ p1" unfolding less.prems(2) P using assms(3) by simp
  then have b: "bucket t1 (unat (v AND mask p1)) = Some (ht_table t1 ! (x + j * 2 ^ p))"
    using assms(6) less.prems(2) by (simp add: bucket_def unat_and_mask)
  show ?case
  proof (cases "j + 1 < 2 ^ (p1 - p)")
    case True
    from less.hyps[OF _ True nx(1), of "es @ ht_table t1 ! (x + j * 2 ^ p)"] True show ?thesis
      by (subst dictScan_expand.simps)
        (use b nx(2) less.prems in \<open>auto simp: Let_def upt_conv_Cons simp flip: w_def\<close>)
  next
    case False
    then have J: "j + 1 = 2 ^ (p1 - p)" using less.prems(1) by simp
    have w': "unat w = x + 2 ^ p1" using nx(1) unfolding J P .
    have "[j..<2 ^ (p1 - p)] = [j]" using J by (metis Suc_eq_plus1 upt_conv_Cons upt_Suc_append le_refl lessI upt_conv_Nil append_Nil)
    then show ?thesis
      by (subst dictScan_expand.simps)
        (use b nx(2) False w' in \<open>auto simp: Let_def simp flip: w_def\<close>)
  qed
qed

text \<open>A call with a cursor that fits emits every entry that shares the cursor's masked bits and moves the
  reversed cursor to the start of the next block.\<close>

lemma bucket_of_block:
  assumes "ht_live ty ht" "e \<in> set (ht_entries ht)" "ht_size ht = 2 ^ p"
    "ucast (hashFunction ty (fst e)) AND mask p = (v AND mask p :: 64 word)"
  shows "e \<in> set (ht_table ht ! (unat v mod 2 ^ p))"
proof -
  obtain q where "ht_size ht = 2 ^ q" "unat (hashFunction ty (fst e)) AND ht_sizemask ht = unat (hashFunction ty (fst e)) mod 2 ^ q"
    using live_mask[OF assms(1)] by blast
  moreover have "unat (hashFunction ty (fst e)) mod 2 ^ p = unat v mod 2 ^ p"
    using arg_cong[OF assms(4), of unat] by (simp add: unat_and_mask unat_ucast_up)
  ultimately show ?thesis using entries_bucket[OF assms(1,2)] assms(3) by simp
qed

lemma scan_still:
  assumes "dict_ok ty d" "dictSize d \<noteq> 0" "\<not> dictIsRehashing d"
  shows "\<exists>p es v'. dictScan d v = Some (es, v') \<and> scan_post ty d v p es v'"
proof -
  have live: "ht_live ty (d_ht0 d)" and one: "dict_entries d = ht_entries (d_ht0 d)"
    using assms by (auto simp: dict_ok_def dictSize_def dict_entries_def)
  obtain p where p: "p \<le> 31" "ht_size (d_ht0 d) = 2 ^ p" "of_nat (ht_sizemask (d_ht0 d)) = (mask p :: 64 word)"
    using live_mask[OF live] by blast
  define es where "es = ht_table (d_ht0 d) ! (unat v mod 2 ^ p)"
  define v' where "v' = rev_ul (rev_ul (v OR NOT (mask p)) + 1)"
  have b: "bucket (d_ht0 d) (unat (v AND mask p)) = Some es"
    using live_bucket[OF live] p(2) by (simp add: unat_and_mask es_def)
  have "dictScan d v = Some (es, v')"
    using assms(2,3) p(3) b by (simp add: dictScan_def Let_def v'_def)
  moreover have "scan_post ty d v p es v'"
    unfolding scan_post_def
  proof (intro conjI)
    show "scan_mask d = mask p" using p(3) assms(3) by (simp add: scan_mask_def)
    show "set es \<subseteq> set (dict_entries d)"
      using bucket_entries[OF live, of "unat v mod 2 ^ p"] p(2) by (auto simp: es_def one)
    show "\<forall>e\<in>set (dict_entries d). ucast (hashFunction ty (fst e)) AND mask p = v AND mask p \<longrightarrow> e \<in> set es"
      using bucket_of_block[OF live _ p(2)] by (simp add: es_def one)
  qed (use cursor_step[of p v] p(1) in \<open>simp_all add: v'_def\<close>)
  ultimately show ?thesis by blast
qed

lemma expansion_index:
  fixes h :: nat
  assumes "p \<le> p1"
  shows "\<exists>i < 2 ^ (p1 - p). h mod 2 ^ p1 = h mod 2 ^ p + i * 2 ^ p"
proof (intro exI conjI)
  let ?i = "h mod 2 ^ p1 div 2 ^ p"
  have "h mod 2 ^ p1 < 2 ^ (p1 - p) * 2 ^ p" using assms by (simp flip: power_add)
  then show "?i < 2 ^ (p1 - p)" by (simp add: div_less_iff_less_mult)
  have "h mod 2 ^ p1 mod 2 ^ p = h mod 2 ^ p" using assms by (simp add: mod_mod_cancel le_imp_power_dvd)
  then show "h mod 2 ^ p1 = h mod 2 ^ p + ?i * 2 ^ p" by (metis add.commute div_mult_mod_eq)
qed

lemma expansion_less:
  assumes "p \<le> p1" "x < 2 ^ p" "i < 2 ^ (p1 - p)"
  shows "x + i * 2 ^ p < (2::nat) ^ p1"
proof -
  have "(i + 1) * 2 ^ p \<le> 2 ^ (p1 - p) * 2 ^ p" using assms(3) by (intro mult_le_mono1) simp
  also have "\<dots> = (2::nat) ^ p1" using assms(1) by (simp flip: power_add)
  finally show ?thesis using assms(2) by simp
qed

lemma scan_rehashing:
  assumes "dict_ok ty d" "dictSize d \<noteq> 0" "dictIsRehashing d" "v AND scan_mask d = v"
  shows "\<exists>p es v'. dictScan d v = Some (es, v') \<and> scan_post ty d v p es v'"
proof -
  obtain t0 t1 where t: "scan_tables d = (t0, t1)" by fastforce
  have live: "ht_live ty t0" "ht_live ty t1" and le: "ht_size t0 \<le> ht_size t1"
    and two: "set (dict_entries d) = set (ht_entries t0) \<union> set (ht_entries t1)"
    using assms(1,3) t by (auto simp: dict_ok_def scan_tables_def dict_entries_def split: if_splits)
  obtain p where p: "p \<le> 31" "ht_size t0 = 2 ^ p" "of_nat (ht_sizemask t0) = (mask p :: 64 word)"
    using live_mask[OF live(1)] by blast
  obtain p1 where p1: "p1 \<le> 31" "ht_size t1 = 2 ^ p1" "of_nat (ht_sizemask t1) = (mask p1 :: 64 word)"
    using live_mask[OF live(2)] by blast
  have pp: "p \<le> p1" using le p(2) p1(2) by simp
  have sm: "scan_mask d = mask p" using assms(3) t p(3) by (simp add: scan_mask_def)
  have v: "unat v mod 2 ^ p = unat v" using assms(4) unfolding sm by (metis unat_and_mask)
  then have x: "unat v < 2 ^ p" by (metis mod_less_divisor zero_less_numeral zero_less_power)
  define de where "de = ht_table t0 ! unat v"
  define es where "es = de @ concat (map (\<lambda>i. ht_table t1 ! (unat v + i * 2 ^ p)) [0..<2 ^ (p1 - p)])"
  have b: "bucket t0 (unat (v AND mask p)) = Some de"
    using live_bucket[OF live(1)] p(2) x v by (simp add: unat_and_mask de_def)
  obtain v1 where v1: "dictScan_expand t1 (mask p) (mask p1) v de = Some (es, v1)" "unat v1 = unat v + 2 ^ p1"
    using expand_spec_scan[OF pp p1(1) x, of 0 v t1 de] liveD(1)[OF live(2)] p1(2) by (auto simp: es_def)
  have "unat v1 mod 2 ^ p = unat v mod 2 ^ p" unfolding v1(2) using pp
    by (metis le_add_diff_inverse mod_mult_self2 power_add)
  then have v1': "v1 AND mask p = v AND mask p" by (simp add: word_unat_eq_iff unat_and_mask)
  define v' where "v' = rev_ul (rev_ul (v1 OR NOT (mask p)) + 1)"
  have "dictScan d v = Some (es, v')"
    using assms(2,3) p(3) p1(3) b v1(1) by (simp add: dictScan_def Let_def v'_def t)
  moreover have "e \<in> set es" if e: "e \<in> set (dict_entries d)"
    "ucast (hashFunction ty (fst e)) AND mask p = v AND mask p" for e
  proof (cases "e \<in> set (ht_entries t0)")
    case True
    then show ?thesis using bucket_of_block[OF live(1) True p(2) e(2)] v by (simp add: es_def de_def)
  next
    case False
    define h where "h = (ucast (hashFunction ty (fst e)) :: 64 word)"
    have "e \<in> set (ht_table t1 ! (unat h mod 2 ^ p1))"
      using bucket_of_block[OF live(2) _ p1(2)] False e(1) by (simp add: h_def two)
    moreover have "unat h mod 2 ^ p = unat v" using arg_cong[OF e(2), of unat] v by (simp add: h_def unat_and_mask)
    ultimately show ?thesis using expansion_index[OF pp, of "unat h"] unfolding es_def by fastforce
  qed
  moreover have "set es \<subseteq> set (dict_entries d)"
  proof
    fix e assume "e \<in> set es"
    then consider "e \<in> set (ht_table t0 ! unat v)"
      | i where "i < 2 ^ (p1 - p)" "e \<in> set (ht_table t1 ! (unat v + i * 2 ^ p))"
      unfolding es_def de_def by auto
    then show "e \<in> set (dict_entries d)"
    proof cases
      case 1
      then show ?thesis using bucket_entries[OF live(1)] x p(2) two by simp
    next
      case (2 i)
      then show ?thesis using bucket_entries[OF live(2) _ 2(2)] expansion_less[OF pp x 2(1)] p1(2) two by simp
    qed
  qed
  moreover have "unat (rev_ul v') = (unat (rev_ul v) div 2 ^ (64 - p) + 1) * 2 ^ (64 - p) mod 2 ^ 64"
    using cursor_step[of p v1] same_block[of p v1 v] v1' p(1) by (simp add: v'_def)
  ultimately show ?thesis using sm p(1) unfolding scan_post_def by blast
qed

section \<open>Complete iterations\<close>

lemma scan_call:
  assumes "dict_ok ty d" "dictSize d \<noteq> 0" "dictIsRehashing d \<longrightarrow> v AND scan_mask d = v"
  shows "\<exists>p es v'. dictScan d v = Some (es, v') \<and> scan_post ty d v p es v'"
  using scan_still[OF assms(1,2)] scan_rehashing[OF assms(1,2)] assms(3) by blast

lemma block_arith:
  assumes "R < 2 ^ 64" "p \<le> 31" "H < 2 ^ 64" "R \<le> (H :: nat)" "R' = (R div 2 ^ (64 - p) + 1) * 2 ^ (64 - p) mod 2 ^ 64"
  shows "H div 2 ^ (64 - p) = R div 2 ^ (64 - p) \<or> (R' \<noteq> 0 \<and> R' \<le> H)"
proof (rule disjCI)
  let ?q = "2 ^ (64 - p) :: nat"
  assume "\<not> (R' \<noteq> 0 \<and> R' \<le> H)"
  have "R div ?q \<le> H div ?q" using assms(4) by (rule div_le_mono)
  moreover have False if "R div ?q + 1 \<le> H div ?q"
  proof -
    have "(R div ?q + 1) * ?q \<le> H div ?q * ?q" using that by (rule mult_le_mono1)
    also have "\<dots> \<le> H" by simp
    finally have "(R div ?q + 1) * ?q \<le> H" .
    moreover from this have "R' = (R div ?q + 1) * ?q" using assms(3,5) by simp
    ultimately show False using \<open>\<not> (R' \<noteq> 0 \<and> R' \<le> H)\<close> by simp
  qed
  ultimately show "H div ?q = R div ?q" by (metis Suc_eq_plus1 Suc_leI le_neq_implies_less)
qed

lemma scan_run_total:
  assumes "\<forall>d\<in>set ds. dict_ok ty d" "scan_fits ds v"
  shows "\<exists>es v'. scan_run ds v = Some (es, v')"
  using assms
proof (induction ds arbitrary: v)
  case (Cons d ds)
  obtain es v1 where v1: "dictScan d v = Some (es, v1)"
    using scan_call[of ty d v] Cons.prems by (cases "dictSize d = 0") (auto simp: dictScan_def)
  then show ?case using Cons.IH[of v1] Cons.prems by auto
qed simp

lemma rev_ul_zero: "rev_ul 0 = 0"
  by (rule bit_word_eqI) (simp add: bit_rev_ul)

lemma cursor_zero: "v = 0 \<longleftrightarrow> unat (rev_ul v) = 0"
  by (metis rev_ul_rev_ul unat_0 unat_eq_zero rev_ul_zero)

lemma scan_run_covers:
  assumes "\<forall>d\<in>set ds. dict_ok ty d \<and> key \<in> dom (dict_map d)" "scan_fits ds v"
    "unat (rev_ul v) \<le> unat (rev_ul (ucast (hashFunction ty key)))"
  shows "\<exists>es v'. scan_run ds v = Some (es, v') \<and> (v' = 0 \<and> ds \<noteq> [] \<longrightarrow> key \<in> fst ` set es)"
  using assms
proof (induction ds arbitrary: v)
  case (Cons d ds)
  define H where "H = (ucast (hashFunction ty key) :: 64 word)"
  have ok: "dict_ok ty d" and key: "key \<in> dom (dict_map d)" using Cons.prems(1) by auto
  then obtain e where e: "e \<in> set (dict_entries d)" "fst e = key" using ok_dom[OF ok] by force
  then have "dictSize d \<noteq> 0" using ok_size[OF ok] by (cases "dict_entries d") auto
  then obtain p es v1 where v1: "dictScan d v = Some (es, v1)" "scan_post ty d v p es v1"
    using scan_call[OF ok] Cons.prems(2) by fastforce
  note post = v1(2)[unfolded scan_post_def]
  have now: "key \<in> fst ` set es" if "unat (rev_ul H) div 2 ^ (64 - p) = unat (rev_ul v) div 2 ^ (64 - p)"
    using same_block[of p H v] that post e by (force simp: H_def)
  have blk: "unat (rev_ul H) div 2 ^ (64 - p) = unat (rev_ul v) div 2 ^ (64 - p) \<or>
      (unat (rev_ul v1) \<noteq> 0 \<and> unat (rev_ul v1) \<le> unat (rev_ul H))"
    by (rule block_arith) (use post Cons.prems(3) unsigned_less[of "rev_ul v"] unsigned_less[of "rev_ul H"] in \<open>simp_all add: H_def\<close>)
  show ?case
  proof (cases "v1 = 0")
    case True
    then show ?thesis using v1(1) now blk cursor_zero[of v1] by auto
  next
    case False
    have fits: "scan_fits ds v1" using Cons.prems(2) v1(1) False by simp
    show ?thesis
    proof (cases "key \<in> fst ` set es")
      case True
      obtain es' v' where "scan_run ds v1 = Some (es', v')" using scan_run_total[OF _ fits, of ty] Cons.prems(1) by auto
      then show ?thesis using True v1(1) False by (simp add: image_Un)
    next
      case ne: False
      then have "unat (rev_ul v1) \<le> unat (rev_ul H)" using now blk by blast
      from Cons.IH[OF _ fits] this Cons.prems(1) obtain es' v' where
        "scan_run ds v1 = Some (es', v')" "v' = 0 \<and> ds \<noteq> [] \<longrightarrow> key \<in> fst ` set es'" by (auto simp: H_def)
      then show ?thesis using v1(1) False by (cases ds) auto
    qed
  qed
qed simp

text \<open>Without an intervening change of size the cursor always fits.\<close>

lemma mask_and_mask: "p \<le> q \<Longrightarrow> v AND mask p = v \<Longrightarrow> v AND mask q = (v :: 64 word)"
  by (metis (no_types) and.assoc and.commute take_bit_eq_mask take_bit_tightened_less_eq_int min.absorb1 take_bit_take_bit)

lemma post_cursor_fits:
  assumes "scan_post ty d v p es v'"
  shows "v' AND mask p = v'"
proof -
  have p: "p \<le> 31" using assms by (simp add: scan_post_def)
  have "2 ^ (64 - p) dvd unat (rev_ul v')"
  proof -
    have "(2::nat) ^ (64 - p) dvd 2 ^ 64" by (rule le_imp_power_dvd) simp
    then show ?thesis using assms unfolding scan_post_def by (metis dvd_mod dvd_triv_right)
  qed
  then have "take_bit (64 - p) (rev_ul v') = 0"
    unfolding word_unat_eq_iff take_bit_eq_mask unat_and_mask by simp
  then have z: "\<not> bit (rev_ul v') n" if "n < 64 - p" for n
    using that bit_take_bit_iff[of "64 - p" "rev_ul v'" n] by simp
  show ?thesis
  proof (rule bit_word_eqI)
    fix n assume "n < LENGTH(64)"
    then show "bit (v' AND mask p) n = bit v' n"
      using z[of "63 - n"] bit_rev_ul[of "63 - n" v'] by (cases "n < p") (auto simp: bit_simps)
  qed
qed

lemma scan_size_mask:
  assumes "dict_ok ty d" "dictSize d \<noteq> 0" "scan_mask d = mask p" "p \<le> 31"
  shows "scan_size d = 2 ^ p"
proof -
  let ?t = "if dictIsRehashing d then fst (scan_tables d) else d_ht0 d"
  have "ht_live ty ?t"
    using assms(1,2) by (auto simp: dict_ok_def scan_tables_def dictSize_def)
  from live_mask[OF this] obtain q where q: "q \<le> 31" "ht_size ?t = 2 ^ q" "of_nat (ht_sizemask ?t) = (mask q :: 64 word)"
    by blast
  then have "(mask q :: 64 word) = mask p" using assms(3) by (simp add: scan_mask_def)
  then have "bit (mask q :: 64 word) n = bit (mask p :: 64 word) n" for n by simp
  from this[of p] this[of q] have "p = q" using assms(4) q(1) by (auto simp: bit_simps)
  then show ?thesis using q(2) by (simp add: scan_size_def)
qed

lemma scan_fits_growing:
  assumes "\<forall>d\<in>set ds. dict_ok ty d \<and> dictSize d \<noteq> 0" "sorted (map scan_size ds)"
    "ds \<noteq> [] \<Longrightarrow> v AND scan_mask (hd ds) = v"
  shows "scan_fits ds v"
  using assms
proof (induction ds arbitrary: v)
  case (Cons d ds)
  obtain p es v1 where v1: "dictScan d v = Some (es, v1)" "scan_post ty d v p es v1"
    using scan_call[of ty d v] Cons.prems by auto
  have "scan_fits ds v1"
  proof (rule Cons.IH)
    assume ne: "ds \<noteq> []"
    then obtain q es2 v2 where q: "scan_post ty (hd ds) 0 q es2 v2"
      using scan_call[of ty "hd ds" 0] Cons.prems(1) by auto
    have "scan_size d = 2 ^ p" "scan_size (hd ds) = 2 ^ q"
      using Cons.prems(1) v1(2) q ne by (auto intro!: scan_size_mask simp: scan_post_def)
    moreover have "scan_size d \<le> scan_size (hd ds)" using Cons.prems(2) ne by simp
    ultimately have "p \<le> q" by simp
    then show "v1 AND scan_mask (hd ds) = v1"
      using mask_and_mask[OF _ post_cursor_fits[OF v1(2)]] q by (simp add: scan_post_def)
  qed (use Cons.prems in auto)
  then show ?case using v1(1) Cons.prems by simp
qed simp

lemma scan_replicate:
  assumes "dict_ok ty d" "dictSize d \<noteq> 0" "scan_mask d = mask p" "p \<le> 31"
    "unat (rev_ul v) = (2 ^ p - n) * 2 ^ (64 - p)" "0 < n" "n \<le> 2 ^ p" "v AND mask p = v"
  shows "scan_fits (replicate n d) v \<and> (\<exists>es. scan_run (replicate n d) v = Some (es, 0))"
  using assms(5-8)
proof (induction n arbitrary: v)
  case (Suc n)
  obtain q es v1 where v1: "dictScan d v = Some (es, v1)" "scan_post ty d v q es v1"
    using scan_call[OF assms(1,2), of v] Suc.prems(4) assms(3) by auto
  have "q = p"
    using scan_size_mask[OF assms(1,2), of p] scan_size_mask[OF assms(1,2), of q] assms(3,4) v1(2) by (simp add: scan_post_def)
  note post = v1(2)[unfolded \<open>q = p\<close>]
  have two: "2 ^ p * 2 ^ (64 - p) = (2::nat) ^ 64" using assms(4) by (simp flip: power_add)
  have R: "unat (rev_ul v1) = (2 ^ p - n) * 2 ^ (64 - p) mod 2 ^ 64"
    using post Suc.prems(1,3) by (simp add: scan_post_def Suc_diff_Suc)
  show ?case
  proof (cases "n = 0")
    case True
    then have "v1 = 0" using R two cursor_zero[of v1] by simp
    then show ?thesis using True v1(1) assms(3) Suc.prems(4) by simp
  next
    case False
    then have "(2 ^ p - n) * 2 ^ (64 - p) < 2 ^ p * 2 ^ (64 - p)" using Suc.prems(3) by (intro mult_less_mono1) auto
    then have R': "unat (rev_ul v1) = (2 ^ p - n) * 2 ^ (64 - p)" using R two by simp
    moreover have "0 < 2 ^ p - n" using Suc.prems(3) by simp
    ultimately have "v1 \<noteq> 0" using cursor_zero[of v1] by simp
    moreover have "v1 AND mask p = v1" using post_cursor_fits[OF post] .
    ultimately show ?thesis using Suc.IH[OF R'] False Suc.prems v1(1) assms(3) by auto
  qed
qed simp

section \<open>A shrinking table\<close>

text \<open>
  A table of 16 buckets that holds only the key 4 (hashed to itself), and what \<open>dictResize\<close> makes of it:
  the rehash to a table of 4 buckets has started and moved nothing yet.
\<close>

definition id_type :: "32 word dictType" where
  "id_type = \<lparr>hashFunction = id, keyCompare = (=)\<rparr>"

definition sparse16 :: "(32 word, unit) dict" where
  "sparse16 = \<lparr>d_ht0 = \<lparr>ht_table = [[], [], [], [], [(4, ())], [], [], [], [], [], [], [], [], [], [], []],
       ht_size = 16, ht_sizemask = 15, ht_used = 1\<rparr>,
     d_ht1 = dictReset, d_rehashidx = -1, d_iterators = 0\<rparr>"

definition sparse16_shrinking :: "(32 word, unit) dict" where
  "sparse16_shrinking = sparse16\<lparr>d_ht1 := \<lparr>ht_table = [[], [], [], []], ht_size = 4, ht_sizemask = 3, ht_used = 0\<rparr>,
     d_rehashidx := 0\<rparr>"

lemma sparse16_resize: "dictResize True sparse16 = Some (sparse16_shrinking, True)"
proof -
  have "dictNextPower 4 = Some 4"
    unfolding dictNextPower_def by (subst dictNextPower_loop.simps) simp
  then show ?thesis
    by (simp add: dictResize_def dictExpand_def sparse16_def sparse16_shrinking_def dictIsRehashing_def Let_def
        to_signed_def numeral_eq_Suc)
qed

lemma sparse16_live: "ht_live id_type (d_ht0 sparse16)" "ht_live id_type (d_ht1 sparse16_shrinking)"
proof -
  have "\<exists>p\<le>31. 16 = (2::nat) ^ p" by (rule exI[of _ 4]) simp
  then show "ht_live id_type (d_ht0 sparse16)"
    by (auto simp: ht_live_def sparse16_def id_type_def ht_entries_def nth_Cons' split: if_splits)
  have "\<exists>p\<le>31. 4 = (2::nat) ^ p" by (rule exI[of _ 2]) simp
  then show "ht_live id_type (d_ht1 sparse16_shrinking)"
    by (auto simp: ht_live_def sparse16_shrinking_def sparse16_def id_type_def ht_entries_def nth_Cons' split: if_splits)
qed

lemma sparse16_ok: "dict_ok id_type sparse16" "dict_map sparse16 = [4 \<mapsto> ()]"
  "dict_ok id_type sparse16_shrinking" "dict_map sparse16_shrinking = [4 \<mapsto> ()]"
proof -
  show "dict_ok id_type sparse16" using sparse16_live(1)
    by (simp add: dict_ok_def dict_entries_def) (simp add: sparse16_def dictIsRehashing_def ht_entries_def dictReset_def)
  have "d_ht0 sparse16_shrinking = d_ht0 sparse16" by (simp add: sparse16_shrinking_def)
  then show "dict_ok id_type sparse16_shrinking" using sparse16_live
    by (simp add: dict_ok_def dict_entries_def)
      (simp add: sparse16_def sparse16_shrinking_def dictIsRehashing_def ht_entries_def dictReset_def)
qed (simp_all add: dict_map_def dict_entries_def sparse16_def sparse16_shrinking_def ht_entries_def dictReset_def)

lemma rev_ul_or: "rev_ul (a OR b) = rev_ul a OR rev_ul b"
  by (rule bit_word_eqI) (auto simp: bit_rev_ul bit_simps)

lemma rev_ul_exp: "k < 64 \<Longrightarrow> rev_ul (2 ^ k) = 2 ^ (63 - k)"
  by (rule bit_word_eqI) (auto simp: bit_rev_ul bit_simps)

lemma next_cursors:
  "rev_ul (- 16) = 0x0FFFFFFFFFFFFFFF" "rev_ul 0x1000000000000000 = 8"
  "rev_ul (- 4) = 0x3FFFFFFFFFFFFFFF" "rev_ul 0x4000000000000000 = 2"
  "rev_ul (- 2) = 0x7FFFFFFFFFFFFFFF" "rev_ul 0x8000000000000000 = 1"
  "rev_ul (- 3) = 0xBFFFFFFFFFFFFFFF" "rev_ul 0xC000000000000000 = 3"
  "rev_ul (- 1) = - 1" "rev_ul 0 = 0"
proof -
  have m: "mask 4 = (15 :: 64 word)" "mask 2 = (3 :: 64 word)" "mask 60 = (0x0FFFFFFFFFFFFFFF :: 64 word)"
    "mask 62 = (0x3FFFFFFFFFFFFFFF :: 64 word)" by (simp_all add: mask_eq_exp_minus_1)
  have r: "rev_ul 1 = 0x8000000000000000" "rev_ul 2 = 0x4000000000000000"
    using rev_ul_exp[of 0] rev_ul_exp[of 1] by simp_all
  show "rev_ul (- 16) = 0x0FFFFFFFFFFFFFFF" using rev_ul_or_mask[of 4 0] by (simp add: m rev_ul_zero)
  show four: "rev_ul (- 4) = 0x3FFFFFFFFFFFFFFF" using rev_ul_or_mask[of 2 0] by (simp add: m rev_ul_zero)
  show "rev_ul 0x1000000000000000 = 8" using rev_ul_exp[of 60] by simp
  show "rev_ul 0x4000000000000000 = 2" using rev_ul_exp[of 62] by simp
  show "rev_ul 0x8000000000000000 = 1" using rev_ul_exp[of 63] by simp
  show "rev_ul (- 2) = 0x7FFFFFFFFFFFFFFF" using rev_ul_or[of 2 "- 4"] by (simp add: four r)
  show "rev_ul (- 3) = 0xBFFFFFFFFFFFFFFF" using rev_ul_or[of 1 "- 4"] by (simp add: four r)
  show "rev_ul 0xC000000000000000 = 3" using rev_ul_or[of 1 2] rev_ul_rev_ul[of 3] by (simp add: r)
  show "rev_ul (- 1) = - 1" by (rule bit_word_eqI) (simp add: bit_rev_ul)
  show "rev_ul 0 = 0" by (rule rev_ul_zero)
qed

lemma scan_sparse: "dictScan sparse16 0 = Some ([], 8)"
  by (simp add: dictScan_def sparse16_def dictSize_def dictIsRehashing_def dictReset_def bucket_def next_cursors)

lemma expand_sparse:
  "dictScan_expand (d_ht0 sparse16) 3 15 8 [] = Some ([], 16)" "dictScan_expand (d_ht0 sparse16) 3 15 1 [] = Some ([], 17)"
  "dictScan_expand (d_ht0 sparse16) 3 15 2 [] = Some ([], 18)" "dictScan_expand (d_ht0 sparse16) 3 15 3 [] = Some ([], 19)"
  by (subst dictScan_expand.simps, simp add: bucket_def sparse16_def)+

lemma scan_sparse_shrinking:
  "dictScan sparse16_shrinking 8 = Some ([], 2)" "dictScan sparse16_shrinking 2 = Some ([], 1)"
  "dictScan sparse16_shrinking 1 = Some ([], 3)" "dictScan sparse16_shrinking 3 = Some ([], 0)"
proof -
  have f: "dictSize sparse16_shrinking \<noteq> 0" "dictIsRehashing sparse16_shrinking"
    "scan_tables sparse16_shrinking = (d_ht1 sparse16_shrinking, d_ht0 sparse16)"
    "ht_sizemask (d_ht1 sparse16_shrinking) = 3" "ht_sizemask (d_ht0 sparse16) = 15"
    "\<And>i. i < 4 \<Longrightarrow> bucket (d_ht1 sparse16_shrinking) i = Some []"
    by (auto simp: sparse16_shrinking_def sparse16_def dictSize_def dictIsRehashing_def scan_tables_def bucket_def nth_Cons')
  show "dictScan sparse16_shrinking 8 = Some ([], 2)" by (simp add: dictScan_def f expand_sparse next_cursors)
  show "dictScan sparse16_shrinking 2 = Some ([], 1)" by (simp add: dictScan_def f expand_sparse next_cursors)
  show "dictScan sparse16_shrinking 1 = Some ([], 3)" by (simp add: dictScan_def f expand_sparse next_cursors)
  show "dictScan sparse16_shrinking 3 = Some ([], 0)" by (simp add: dictScan_def f expand_sparse next_cursors)
qed

section \<open>Properties\<close>

text \<open>C15. The guarantee of \<open>SCAN\<close>: over any sequence of states of a dictionary (insertions, deletions,
  rehashing steps and resizes may happen between the calls) a complete iteration emits every key that
  is present in all of them, provided the table the cursor moves under never gets smaller.  Every call
  returns and reads the tables in bounds.\<close>

theorem dictScan_complete:
  assumes "ds \<noteq> []" "\<forall>d\<in>set ds. dict_ok ty d \<and> key \<in> dom (dict_map d)" "sorted (map scan_size ds)"
  shows "\<exists>es v. scan_run ds 0 = Some (es, v) \<and> (v = 0 \<longrightarrow> key \<in> fst ` set es)"
proof -
  have "\<forall>d\<in>set ds. dict_ok ty d \<and> dictSize d \<noteq> 0"
    using assms(2) by (metis card_0_eq dict_ok_card empty_iff finite_dict_map)
  then have "scan_fits ds 0" by (rule scan_fits_growing) (use assms(3) in auto)
  then show ?thesis using scan_run_covers[OF assms(2), of 0] assms(1) by (simp add: rev_ul_zero)
qed

theorem dictScan_complete_witness:
  "\<exists>es v. scan_run [sparse16, sparse16] 0 = Some (es, v) \<and> (v = 0 \<longrightarrow> 4 \<in> fst ` set es)"
  using dictScan_complete[of "[sparse16, sparse16]" id_type 4] sparse16_ok by simp

text \<open>C24. Termination of the iteration: on a dictionary that does not change, whether or not a rehash is
  in progress, the cursor returns to 0 after exactly as many calls as the smaller table has buckets,
  and by then every entry has been emitted.\<close>

theorem dictScan_terminates:
  assumes "dict_ok ty d" "dictSize d \<noteq> 0"
  shows "\<exists>es. scan_run (replicate (scan_size d) d) 0 = Some (es, 0) \<and> dom (dict_map d) \<subseteq> fst ` set es"
proof -
  obtain p es v where p: "scan_post ty d 0 p es v" using scan_call[OF assms, of 0] by auto
  then have sz: "scan_size d = 2 ^ p" and sm: "scan_mask d = mask p" "p \<le> 31"
    using scan_size_mask[OF assms] by (auto simp: scan_post_def)
  obtain es where es: "scan_fits (replicate (2 ^ p) d) 0" "scan_run (replicate (2 ^ p) d) 0 = Some (es, 0)"
    using scan_replicate[OF assms sm, of 0 "2 ^ p"] by (auto simp: rev_ul_zero)
  have "key \<in> fst ` set es" if "key \<in> dom (dict_map d)" for key
    using scan_run_covers[OF _ es(1), of ty key] assms(1) that es(2) by (simp add: rev_ul_zero)
  then show ?thesis using es(2) sz by auto
qed

theorem dictScan_terminates_witness:
  "\<exists>es. scan_run (replicate (scan_size sparse16_shrinking) sparse16_shrinking) 0 = Some (es, 0) \<and> 4 \<in> fst ` set es"
  using dictScan_terminates[OF sparse16_ok(3)] sparse16_ok(4)
  by (auto simp: dictSize_def sparse16_shrinking_def sparse16_def)

text \<open>The guarantee does not survive a shrink.  A key that stays in the dictionary for the whole
  iteration is never emitted when \<open>dictResize\<close> starts to shrink the table after the first call: the
  second call starts from a cursor with a bit above the smaller mask and its expansion loop skips the
  buckets of the larger table below it.\<close>

lemma dictScan_misses_when_shrinking:
  "dict_ok id_type sparse16 \<and> dictResize True sparse16 = Some (sparse16_shrinking, True) \<and>
   dict_ok id_type sparse16_shrinking \<and> dict_map sparse16 4 = Some () \<and> dict_map sparse16_shrinking 4 = Some () \<and>
   scan_run [sparse16, sparse16_shrinking, sparse16_shrinking, sparse16_shrinking, sparse16_shrinking] 0 = Some ([], 0)"
  by (simp add: sparse16_ok sparse16_resize scan_sparse scan_sparse_shrinking)

end
