(* ===== verification/Redis_Checksum.thy ===== *)
theory Redis_Checksum
  imports Redis_Prelude
begin

unbundle bit_operations_syntax

text \<open>
  \<open>crc16.c\<close>, \<open>crc64.c\<close> and \<open>keyHashSlot\<close> of \<open>cluster.c\<close>.

  Both checksums are table driven.  The reference is the division of the message by the generator
  polynomial one bit at a time: \<open>crc16_bits\<close> shifts left (most significant bit first), \<open>crc64_bits\<close> right
  (reflected).  The tables are shown to hold the reference on every byte, the table-driven routines
  to equal the reference on every message, and the checksum of the RDB file to detect every
  corruption confined to eight consecutive bytes.
\<close>

section \<open>The code\<close>

definition crc16tab :: "16 word list" where
  "crc16tab = [
     0x0000, 0x1021, 0x2042, 0x3063, 0x4084, 0x50a5, 0x60c6, 0x70e7,
     0x8108, 0x9129, 0xa14a, 0xb16b, 0xc18c, 0xd1ad, 0xe1ce, 0xf1ef,
     0x1231, 0x0210, 0x3273, 0x2252, 0x52b5, 0x4294, 0x72f7, 0x62d6,
     0x9339, 0x8318, 0xb37b, 0xa35a, 0xd3bd, 0xc39c, 0xf3ff, 0xe3de,
     0x2462, 0x3443, 0x0420, 0x1401, 0x64e6, 0x74c7, 0x44a4, 0x5485,
     0xa56a, 0xb54b, 0x8528, 0x9509, 0xe5ee, 0xf5cf, 0xc5ac, 0xd58d,
     0x3653, 0x2672, 0x1611, 0x0630, 0x76d7, 0x66f6, 0x5695, 0x46b4,
     0xb75b, 0xa77a, 0x9719, 0x8738, 0xf7df, 0xe7fe, 0xd79d, 0xc7bc,
     0x48c4, 0x58e5, 0x6886, 0x78a7, 0x0840, 0x1861, 0x2802, 0x3823,
     0xc9cc, 0xd9ed, 0xe98e, 0xf9af, 0x8948, 0x9969, 0xa90a, 0xb92b,
     0x5af5, 0x4ad4, 0x7ab7, 0x6a96, 0x1a71, 0x0a50, 0x3a33, 0x2a12,
     0xdbfd, 0xcbdc, 0xfbbf, 0xeb9e, 0x9b79, 0x8b58, 0xbb3b, 0xab1a,
     0x6ca6, 0x7c87, 0x4ce4, 0x5cc5, 0x2c22, 0x3c03, 0x0c60, 0x1c41,
     0xedae, 0xfd8f, 0xcdec, 0xddcd, 0xad2a, 0xbd0b, 0x8d68, 0x9d49,
     0x7e97, 0x6eb6, 0x5ed5, 0x4ef4, 0x3e13, 0x2e32, 0x1e51, 0x0e70,
     0xff9f, 0xefbe, 0xdfdd, 0xcffc, 0xbf1b, 0xaf3a, 0x9f59, 0x8f78,
     0x9188, 0x81a9, 0xb1ca, 0xa1eb, 0xd10c, 0xc12d, 0xf14e, 0xe16f,
     0x1080, 0x00a1, 0x30c2, 0x20e3, 0x5004, 0x4025, 0x7046, 0x6067,
     0x83b9, 0x9398, 0xa3fb, 0xb3da, 0xc33d, 0xd31c, 0xe37f, 0xf35e,
     0x02b1, 0x1290, 0x22f3, 0x32d2, 0x4235, 0x5214, 0x6277, 0x7256,
     0xb5ea, 0xa5cb, 0x95a8, 0x8589, 0xf56e, 0xe54f, 0xd52c, 0xc50d,
     0x34e2, 0x24c3, 0x14a0, 0x0481, 0x7466, 0x6447, 0x5424, 0x4405,
     0xa7db, 0xb7fa, 0x8799, 0x97b8, 0xe75f, 0xf77e, 0xc71d, 0xd73c,
     0x26d3, 0x36f2, 0x0691, 0x16b0, 0x6657, 0x7676, 0x4615, 0x5634,
     0xd94c, 0xc96d, 0xf90e, 0xe92f, 0x99c8, 0x89e9, 0xb98a, 0xa9ab,
     0x5844, 0x4865, 0x7806, 0x6827, 0x18c0, 0x08e1, 0x3882, 0x28a3,
     0xcb7d, 0xdb5c, 0xeb3f, 0xfb1e, 0x8bf9, 0x9bd8, 0xabbb, 0xbb9a,
     0x4a75, 0x5a54, 0x6a37, 0x7a16, 0x0af1, 0x1ad0, 0x2ab3, 0x3a92,
     0xfd2e, 0xed0f, 0xdd6c, 0xcd4d, 0xbdaa, 0xad8b, 0x9de8, 0x8dc9,
     0x7c26, 0x6c07, 0x5c64, 0x4c45, 0x3ca2, 0x2c83, 0x1ce0, 0x0cc1,
     0xef1f, 0xff3e, 0xcf5d, 0xdf7c, 0xaf9b, 0xbfba, 0x8fd9, 0x9ff8,
     0x6e17, 0x7e36, 0x4e55, 0x5e74, 0x2e93, 0x3eb2, 0x0ed1, 0x1ef0]"

definition crc16 :: "bytes \<Rightarrow> 16 word" where
  "crc16 buf = foldl (\<lambda>crc b. push_bit 8 crc XOR crc16tab ! unat ((drop_bit 8 crc XOR ucast b) AND 0x00FF)) 0 buf"

definition crc64_tab :: "64 word list" where
  "crc64_tab = [
     0x0000000000000000, 0x7ad870c830358979,
     0xf5b0e190606b12f2, 0x8f689158505e9b8b,
     0xc038e5739841b68f, 0xbae095bba8743ff6,
     0x358804e3f82aa47d, 0x4f50742bc81f2d04,
     0xab28ecb46814fe75, 0xd1f09c7c5821770c,
     0x5e980d24087fec87, 0x24407dec384a65fe,
     0x6b1009c7f05548fa, 0x11c8790fc060c183,
     0x9ea0e857903e5a08, 0xe478989fa00bd371,
     0x7d08ff3b88be6f81, 0x07d08ff3b88be6f8,
     0x88b81eabe8d57d73, 0xf2606e63d8e0f40a,
     0xbd301a4810ffd90e, 0xc7e86a8020ca5077,
     0x4880fbd87094cbfc, 0x32588b1040a14285,
     0xd620138fe0aa91f4, 0xacf86347d09f188d,
     0x2390f21f80c18306, 0x594882d7b0f40a7f,
     0x1618f6fc78eb277b, 0x6cc0863448deae02,
     0xe3a8176c18803589, 0x997067a428b5bcf0,
     0xfa11fe77117cdf02, 0x80c98ebf2149567b,
     0x0fa11fe77117cdf0, 0x75796f2f41224489,
     0x3a291b04893d698d, 0x40f16bccb908e0f4,
     0xcf99fa94e9567b7f, 0xb5418a5cd963f206,
     0x513912c379682177, 0x2be1620b495da80e,
     0xa489f35319033385, 0xde51839b2936bafc,
     0x9101f7b0e12997f8, 0xebd98778d11c1e81,
     0x64b116208142850a, 0x1e6966e8b1770c73,
     0x8719014c99c2b083, 0xfdc17184a9f739fa,
     0x72a9e0dcf9a9a271, 0x08719014c99c2b08,
     0x4721e43f0183060c, 0x3df994f731b68f75,
     0xb29105af61e814fe, 0xc849756751dd9d87,
     0x2c31edf8f1d64ef6, 0x56e99d30c1e3c78f,
     0xd9810c6891bd5c04, 0xa3597ca0a188d57d,
     0xec09088b6997f879, 0x96d1784359a27100,
     0x19b9e91b09fcea8b, 0x636199d339c963f2,
     0xdf7adabd7a6e2d6f, 0xa5a2aa754a5ba416,
     0x2aca3b2d1a053f9d, 0x50124be52a30b6e4,
     0x1f423fcee22f9be0, 0x659a4f06d21a1299,
     0xeaf2de5e82448912, 0x902aae96b271006b,
     0x74523609127ad31a, 0x0e8a46c1224f5a63,
     0x81e2d7997211c1e8, 0xfb3aa75142244891,
     0xb46ad37a8a3b6595, 0xceb2a3b2ba0eecec,
     0x41da32eaea507767, 0x3b024222da65fe1e,
     0xa2722586f2d042ee, 0xd8aa554ec2e5cb97,
     0x57c2c41692bb501c, 0x2d1ab4dea28ed965,
     0x624ac0f56a91f461, 0x1892b03d5aa47d18,
     0x97fa21650afae693, 0xed2251ad3acf6fea,
     0x095ac9329ac4bc9b, 0x7382b9faaaf135e2,
     0xfcea28a2faafae69, 0x8632586aca9a2710,
     0xc9622c4102850a14, 0xb3ba5c8932b0836d,
     0x3cd2cdd162ee18e6, 0x460abd1952db919f,
     0x256b24ca6b12f26d, 0x5fb354025b277b14,
     0xd0dbc55a0b79e09f, 0xaa03b5923b4c69e6,
     0xe553c1b9f35344e2, 0x9f8bb171c366cd9b,
     0x10e3202993385610, 0x6a3b50e1a30ddf69,
     0x8e43c87e03060c18, 0xf49bb8b633338561,
     0x7bf329ee636d1eea, 0x012b592653589793,
     0x4e7b2d0d9b47ba97, 0x34a35dc5ab7233ee,
     0xbbcbcc9dfb2ca865, 0xc113bc55cb19211c,
     0x5863dbf1e3ac9dec, 0x22bbab39d3991495,
     0xadd33a6183c78f1e, 0xd70b4aa9b3f20667,
     0x985b3e827bed2b63, 0xe2834e4a4bd8a21a,
     0x6debdf121b863991, 0x1733afda2bb3b0e8,
     0xf34b37458bb86399, 0x8993478dbb8deae0,
     0x06fbd6d5ebd3716b, 0x7c23a61ddbe6f812,
     0x3373d23613f9d516, 0x49aba2fe23cc5c6f,
     0xc6c333a67392c7e4, 0xbc1b436e43a74e9d,
     0x95ac9329ac4bc9b5, 0xef74e3e19c7e40cc,
     0x601c72b9cc20db47, 0x1ac40271fc15523e,
     0x5594765a340a7f3a, 0x2f4c0692043ff643,
     0xa02497ca54616dc8, 0xdafce7026454e4b1,
     0x3e847f9dc45f37c0, 0x445c0f55f46abeb9,
     0xcb349e0da4342532, 0xb1eceec59401ac4b,
     0xfebc9aee5c1e814f, 0x8464ea266c2b0836,
     0x0b0c7b7e3c7593bd, 0x71d40bb60c401ac4,
     0xe8a46c1224f5a634, 0x927c1cda14c02f4d,
     0x1d148d82449eb4c6, 0x67ccfd4a74ab3dbf,
     0x289c8961bcb410bb, 0x5244f9a98c8199c2,
     0xdd2c68f1dcdf0249, 0xa7f41839ecea8b30,
     0x438c80a64ce15841, 0x3954f06e7cd4d138,
     0xb63c61362c8a4ab3, 0xcce411fe1cbfc3ca,
     0x83b465d5d4a0eece, 0xf96c151de49567b7,
     0x76048445b4cbfc3c, 0x0cdcf48d84fe7545,
     0x6fbd6d5ebd3716b7, 0x15651d968d029fce,
     0x9a0d8ccedd5c0445, 0xe0d5fc06ed698d3c,
     0xaf85882d2576a038, 0xd55df8e515432941,
     0x5a3569bd451db2ca, 0x20ed197575283bb3,
     0xc49581ead523e8c2, 0xbe4df122e51661bb,
     0x3125607ab548fa30, 0x4bfd10b2857d7349,
     0x04ad64994d625e4d, 0x7e7514517d57d734,
     0xf11d85092d094cbf, 0x8bc5f5c11d3cc5c6,
     0x12b5926535897936, 0x686de2ad05bcf04f,
     0xe70573f555e26bc4, 0x9ddd033d65d7e2bd,
     0xd28d7716adc8cfb9, 0xa85507de9dfd46c0,
     0x273d9686cda3dd4b, 0x5de5e64efd965432,
     0xb99d7ed15d9d8743, 0xc3450e196da80e3a,
     0x4c2d9f413df695b1, 0x36f5ef890dc31cc8,
     0x79a59ba2c5dc31cc, 0x037deb6af5e9b8b5,
     0x8c157a32a5b7233e, 0xf6cd0afa9582aa47,
     0x4ad64994d625e4da, 0x300e395ce6106da3,
     0xbf66a804b64ef628, 0xc5bed8cc867b7f51,
     0x8aeeace74e645255, 0xf036dc2f7e51db2c,
     0x7f5e4d772e0f40a7, 0x05863dbf1e3ac9de,
     0xe1fea520be311aaf, 0x9b26d5e88e0493d6,
     0x144e44b0de5a085d, 0x6e963478ee6f8124,
     0x21c640532670ac20, 0x5b1e309b16452559,
     0xd476a1c3461bbed2, 0xaeaed10b762e37ab,
     0x37deb6af5e9b8b5b, 0x4d06c6676eae0222,
     0xc26e573f3ef099a9, 0xb8b627f70ec510d0,
     0xf7e653dcc6da3dd4, 0x8d3e2314f6efb4ad,
     0x0256b24ca6b12f26, 0x788ec2849684a65f,
     0x9cf65a1b368f752e, 0xe62e2ad306bafc57,
     0x6946bb8b56e467dc, 0x139ecb4366d1eea5,
     0x5ccebf68aecec3a1, 0x2616cfa09efb4ad8,
     0xa97e5ef8cea5d153, 0xd3a62e30fe90582a,
     0xb0c7b7e3c7593bd8, 0xca1fc72bf76cb2a1,
     0x45775673a732292a, 0x3faf26bb9707a053,
     0x70ff52905f188d57, 0x0a2722586f2d042e,
     0x854fb3003f739fa5, 0xff97c3c80f4616dc,
     0x1bef5b57af4dc5ad, 0x61372b9f9f784cd4,
     0xee5fbac7cf26d75f, 0x9487ca0fff135e26,
     0xdbd7be24370c7322, 0xa10fceec0739fa5b,
     0x2e675fb4576761d0, 0x54bf2f7c6752e8a9,
     0xcdcf48d84fe75459, 0xb71738107fd2dd20,
     0x387fa9482f8c46ab, 0x42a7d9801fb9cfd2,
     0x0df7adabd7a6e2d6, 0x772fdd63e7936baf,
     0xf8474c3bb7cdf024, 0x829f3cf387f8795d,
     0x66e7a46c27f3aa2c, 0x1c3fd4a417c62355,
     0x935745fc4798b8de, 0xe98f353477ad31a7,
     0xa6df411fbfb21ca3, 0xdc0731d78f8795da,
     0x536fa08fdfd90e51, 0x29b7d047efec8728]"

definition crc64 :: "64 word \<Rightarrow> bytes \<Rightarrow> 64 word" where
  "crc64 crc s = foldl (\<lambda>crc b. crc64_tab ! unat ((ucast crc :: byte) XOR b) XOR drop_bit 8 crc) crc s"

text \<open>The first position from \<open>i\<close> where a byte occurs, the length of the key if there is none.\<close>

fun find_from :: "bytes \<Rightarrow> byte \<Rightarrow> nat \<Rightarrow> nat" where
  "find_from [] c i = i"
| "find_from (k # key) c i = (if k = c then i else find_from key c (i + 1))"

definition keyHashSlot :: "bytes \<Rightarrow> nat" where
  "keyHashSlot key = (
     let keylen = length key;
         s = find_from key 123 0
     in if s = keylen then unat (crc16 key AND 0x3FFF)
        else let e = find_from (drop (s + 1) key) 125 (s + 1)
             in if e = keylen \<or> e = s + 1 then unat (crc16 key AND 0x3FFF)
                else unat (crc16 (take (e - s - 1) (drop (s + 1) key)) AND 0x3FFF))"

section \<open>Reference: division bit by bit\<close>

definition crc16_step :: "16 word \<Rightarrow> 16 word" where
  "crc16_step s = (if bit s 15 then push_bit 1 s XOR 0x1021 else push_bit 1 s)"

definition crc16_byte :: "16 word \<Rightarrow> byte \<Rightarrow> 16 word" where
  "crc16_byte s b = (crc16_step ^^ 8) (s XOR push_bit 8 (ucast b))"

definition crc16_bits :: "bytes \<Rightarrow> 16 word" where
  "crc16_bits buf = foldl crc16_byte 0 buf"

definition crc64_step :: "64 word \<Rightarrow> 64 word" where
  "crc64_step s = (if bit s 0 then drop_bit 1 s XOR 0x95ac9329ac4bc9b5 else drop_bit 1 s)"

definition crc64_byte :: "64 word \<Rightarrow> byte \<Rightarrow> 64 word" where
  "crc64_byte s b = (crc64_step ^^ 8) (s XOR ucast b)"

definition crc64_bits :: "64 word \<Rightarrow> bytes \<Rightarrow> 64 word" where
  "crc64_bits s buf = foldl crc64_byte s buf"

section \<open>Linearity\<close>

lemma crc64_step_xor: "crc64_step (a XOR b) = crc64_step a XOR crc64_step b"
  by (rule bit_word_eqI) (auto simp: crc64_step_def bit_simps)

lemma crc64_steps_xor: "(crc64_step ^^ n) (a XOR b) = (crc64_step ^^ n) a XOR (crc64_step ^^ n) b"
  by (induction n) (simp_all add: crc64_step_xor)

lemma crc16_step_xor: "crc16_step (a XOR b) = crc16_step a XOR crc16_step b"
  by (rule bit_word_eqI) (auto simp: crc16_step_def bit_simps)

lemma crc16_steps_xor: "(crc16_step ^^ n) (a XOR b) = (crc16_step ^^ n) a XOR (crc16_step ^^ n) b"
  by (induction n) (simp_all add: crc16_step_xor)

lemma eight: "(f ^^ 8) x = f (f (f (f (f (f (f (f x)))))))"
  by (simp add: numeral_eq_Suc)

text \<open>The table of a linear function is built by doubling: the second half is the first, shifted by the value
  at the power of two between them.\<close>

lemma of_nat_add_exp:
  assumes "i < 2 ^ j" "j < LENGTH('a)"
  shows "(of_nat (2 ^ j + i) :: 'a::len word) = 2 ^ j XOR of_nat i"
proof -
  have "bit (of_nat i :: 'a word) n \<Longrightarrow> n \<noteq> j" for n
  proof -
    assume "bit (of_nat i :: 'a word) n"
    then have "bit (word_of_int (int i) :: 'a word) n" by simp
    then have "bit (int i) n" by (simp only: bit_word_of_int_iff)
    then have "odd (int i div 2 ^ n)" unfolding bit_iff_odd .
    moreover have "int i < 2 ^ j" using assms(1) by (metis of_nat_less_iff of_nat_numeral of_nat_power)
    ultimately show "n \<noteq> j" by auto
  qed
  then have "(2 ^ j + of_nat i :: 'a word) = 2 ^ j OR of_nat i"
    by (intro disjunctive_add) (auto simp: bit_simps)
  also have "\<dots> = 2 ^ j XOR of_nat i"
    using \<open>\<And>n. bit (of_nat i :: 'a word) n \<Longrightarrow> n \<noteq> j\<close> by (intro bit_word_eqI) (auto simp: bit_simps)
  finally show ?thesis by simp
qed

lemma table_doubling:
  fixes f :: "'a::len word \<Rightarrow> 'b::len word"
  assumes "\<And>a b. f (a XOR b) = f a XOR f b" "n \<le> LENGTH('a)"
  shows "map (\<lambda>i. f (of_nat i)) [0..<2 ^ n] =
    fold (\<lambda>b T. T @ map (\<lambda>x. b XOR x) T) (map (\<lambda>j. f (2 ^ j)) [0..<n]) [0]"
  using assms(2)
proof (induction n)
  case 0
  show ?case using assms(1)[of 0 0] by simp
next
  case (Suc n)
  have "[0..<2 ^ Suc n] = [0..<2 ^ n] @ map (\<lambda>i. 2 ^ n + i) [0..<2 ^ n]"
    by (simp add: map_add_upt mult_2 upt_add_eq_append[of 0] add.commute)
  moreover have "map (\<lambda>i. f (of_nat (2 ^ n + i))) [0..<2 ^ n] = map (\<lambda>x. f (2 ^ n) XOR x) (map (\<lambda>i. f (of_nat i)) [0..<2 ^ n])"
  proof -
    have "f (of_nat (2 ^ n + i)) = f (2 ^ n) XOR f (of_nat i)" if "i < 2 ^ n" for i
      using of_nat_add_exp[OF that, where 'a = 'a] Suc.prems assms(1) by (simp only: Suc_le_eq)
    then show ?thesis by (auto simp: o_def simp del: of_nat_add)
  qed
  ultimately show ?case using Suc by (simp add: o_def)
qed

lemma crc16tab_step: "crc16tab = map (\<lambda>i. (crc16_step ^^ 8) (push_bit 8 (of_nat i))) [0..<256]"
proof -
  have "map (\<lambda>i. (crc16_step ^^ 8) (push_bit 8 (of_nat i))) [0..<2 ^ 8] =
    fold (\<lambda>b T. T @ map (\<lambda>x. b XOR x) T) (map (\<lambda>j. (crc16_step ^^ 8) (push_bit 8 (2 ^ j))) [0..<8]) [0]"
    by (rule table_doubling) (simp_all add: push_bit_xor crc16_steps_xor)
  also have "map (\<lambda>j. (crc16_step ^^ 8) (push_bit 8 (2 ^ j))) [0..<8] =
      [0x1021, 0x2042, 0x4084, 0x8108, 0x1231, 0x2462, 0x48c4, 0x9188]"
    by (simp add: upt_conv_Cons eight crc16_step_def)
  finally show ?thesis by (simp add: crc16tab_def)
qed

lemma crc64_tab_step: "crc64_tab = map (\<lambda>i. (crc64_step ^^ 8) (of_nat i)) [0..<256]"
proof -
  have "map (\<lambda>i. (crc64_step ^^ 8) (of_nat i)) [0..<2 ^ 8] =
    fold (\<lambda>b T. T @ map (\<lambda>x. b XOR x) T) (map (\<lambda>j. (crc64_step ^^ 8) (2 ^ j)) [0..<8]) [0]"
    by (rule table_doubling) (simp_all add: crc64_steps_xor)
  also have "map (\<lambda>j. (crc64_step ^^ 8) (2 ^ j)) [0..<8] = [crc64_tab ! 1, crc64_tab ! 2, crc64_tab ! 4, crc64_tab ! 8,
      crc64_tab ! 16, crc64_tab ! 32, crc64_tab ! 64, crc64_tab ! 128]"
    by (simp add: upt_conv_Cons eight crc64_step_def crc64_tab_def)
  finally show ?thesis by (simp add: crc64_tab_def)
qed

section \<open>The table-driven routines are the reference\<close>

lemma crc16_steps_low: "(crc16_step ^^ 8) (ucast (b :: byte)) = push_bit 8 (ucast b)"
proof -
  have "(crc16_step ^^ n) (ucast b) = push_bit n (ucast b)" if "n \<le> 8" for n
    using that
  proof (induction n)
    case (Suc n)
    have "\<not> bit (push_bit n (ucast b) :: 16 word) 15" using Suc.prems by (auto simp: bit_simps dest: bit_imp_le_length)
    then show ?case using Suc by (simp add: crc16_step_def)
  qed simp
  then show ?thesis by simp
qed

lemma crc16_table_step:
  "push_bit 8 crc XOR crc16tab ! unat ((drop_bit 8 crc XOR ucast b) AND 0x00FF) = crc16_byte crc (b :: byte)"
proof -
  define h where "h = (drop_bit 8 crc XOR ucast b) AND 0x00FF"
  have ff: "(0x00FF :: 16 word) = mask 8" by (simp add: mask_eq_exp_minus_1)
  have "unat h < 256" unfolding h_def ff take_bit_eq_mask[symmetric] unsigned_take_bit_eq
    using take_bit_nat_less_exp[of 8] by simp
  then have "crc16tab ! unat h = (crc16_step ^^ 8) (push_bit 8 h)" by (simp add: crc16tab_step)
  moreover have "push_bit 8 h = (crc AND NOT (mask 8)) XOR push_bit 8 (ucast b)"
    by (rule bit_word_eqI) (auto simp: h_def ff bit_simps)
  moreover have "push_bit 8 crc = (crc16_step ^^ 8) (crc AND mask 8)"
  proof -
    have "crc AND mask 8 = ucast (ucast crc :: byte)" by (rule bit_word_eqI) (auto simp: bit_simps)
    moreover have "push_bit 8 crc = push_bit 8 (ucast (ucast crc :: byte))"
      by (rule bit_word_eqI) (auto simp: bit_simps)
    ultimately show ?thesis by (simp add: crc16_steps_low)
  qed
  ultimately have "push_bit 8 crc XOR crc16tab ! unat h =
      (crc16_step ^^ 8) ((crc AND mask 8) XOR ((crc AND NOT (mask 8)) XOR push_bit 8 (ucast b)))"
    by (simp only: crc16_steps_xor[of 8 "crc AND mask 8"])
  also have "(crc AND mask 8) XOR ((crc AND NOT (mask 8)) XOR push_bit 8 (ucast b)) = crc XOR push_bit 8 (ucast b)"
    by (rule bit_word_eqI) (auto simp: bit_simps)
  finally show ?thesis by (simp add: crc16_byte_def h_def)
qed

lemma crc64_steps_high: "(crc64_step ^^ 8) (s AND NOT (mask 8)) = drop_bit 8 s"
proof -
  have "(crc64_step ^^ n) (s AND NOT (mask 8)) = drop_bit n (s AND NOT (mask 8))" if "n \<le> 8" for n
    using that by (induction n) (simp_all add: crc64_step_def bit_simps)
  then have "(crc64_step ^^ 8) (s AND NOT (mask 8)) = drop_bit 8 (s AND NOT (mask 8))" by simp
  also have "\<dots> = drop_bit 8 s" by (rule bit_word_eqI) (auto simp: bit_simps dest: bit_imp_le_length)
  finally show ?thesis .
qed

lemma crc64_table_step: "crc64_tab ! unat ((ucast crc :: byte) XOR b) XOR drop_bit 8 crc = crc64_byte crc b"
proof -
  have "unat ((ucast crc :: byte) XOR b) < 256" using unsigned_less[of "(ucast crc :: byte) XOR b"] by simp
  then have "crc64_tab ! unat ((ucast crc :: byte) XOR b) = (crc64_step ^^ 8) (ucast ((ucast crc :: byte) XOR b))"
    by (simp add: crc64_tab_step)
  moreover have "crc XOR ucast b = ucast ((ucast crc :: byte) XOR b) XOR (crc AND NOT (mask 8))"
    by (rule bit_word_eqI) (auto simp: bit_simps)
  ultimately show ?thesis unfolding crc64_byte_def by (simp add: crc64_steps_xor crc64_steps_high)
qed

lemma crc16_bitwise: "crc16 buf = crc16_bits buf"
  by (simp add: crc16_def crc16_bits_def crc16_table_step)

lemma crc64_bitwise: "crc64 s buf = crc64_bits s buf"
  by (simp add: crc64_def crc64_bits_def crc64_table_step)

section \<open>Error detection\<close>

lemma crc64_step_inj: "crc64_step a = crc64_step b \<Longrightarrow> a = b"
proof (rule bit_word_eqI)
  fix n assume e: "crc64_step a = crc64_step b" and n: "n < LENGTH(64)"
  have top: "bit (crc64_step x) 63 \<longleftrightarrow> bit x 0" for x :: "64 word"
    by (auto simp: crc64_step_def bit_simps dest: bit_imp_le_length)
  have low: "bit (crc64_step x) k \<longleftrightarrow> bit x (Suc k) \<noteq> (bit x 0 \<and> bit (0x95ac9329ac4bc9b5 :: 64 word) k)" if "k < 63" for k x
    using that by (auto simp: crc64_step_def bit_simps)
  show "bit a n = bit b n"
  proof (cases n)
    case 0
    then show ?thesis using top e by metis
  next
    case (Suc k)
    have "bit a 0 = bit b 0" using top e by metis
    then show ?thesis using low[of k a] low[of k b] Suc e n by auto
  qed
qed

lemma crc64_steps_inj: "(crc64_step ^^ n) a = (crc64_step ^^ n) b \<Longrightarrow> a = b"
  by (induction n) (auto dest: crc64_step_inj)

lemma xor_cancel_right: "a XOR c = b XOR c \<Longrightarrow> a = (b :: 'a::len word)"
proof -
  assume "a XOR c = b XOR c"
  then have "(a XOR c) XOR c = (b XOR c) XOR c" by simp
  then show ?thesis by (simp add: xor.assoc)
qed

lemma crc64_byte_inj: "crc64_byte s b = crc64_byte s' b \<Longrightarrow> s = s'"
  unfolding crc64_byte_def by (rule xor_cancel_right[OF crc64_steps_inj])

lemma crc64_bits_inj: "crc64_bits s buf = crc64_bits s' buf \<Longrightarrow> s = s'"
  unfolding crc64_bits_def by (induction buf arbitrary: s s') (auto dest: crc64_byte_inj)

text \<open>Up to eight bytes can be absorbed at once: the message, read as a little-endian word, is added to the
  state before the division steps.\<close>

lemma crc64_steps_push: "n + 8 \<le> 64 \<Longrightarrow> (crc64_step ^^ n) (push_bit n (ucast (b :: byte))) = ucast b"
proof (induction n)
  case (Suc n)
  have "drop_bit 1 (push_bit (Suc n) (ucast b)) = (push_bit n (ucast b) :: 64 word)"
    by (rule bit_word_eqI) (use Suc.prems in \<open>auto simp: bit_simps simp del: push_bit_Suc dest: bit_imp_le_length\<close>)
  then have "crc64_step (push_bit (Suc n) (ucast b)) = push_bit n (ucast b)"
    by (simp add: crc64_step_def bit_simps del: push_bit_Suc)
  then show ?case using Suc by (simp add: funpow_Suc_right del: funpow.simps push_bit_Suc)
qed simp

lemma le_dec_snoc: "le_dec (w @ [b]) = le_dec w + 2 ^ (8 * length w) * uint b"
  by (induction w) (simp_all add: power_add algebra_simps)

lemma le_word_snoc:
  assumes "length w < 8"
  shows "(word_of_int (le_dec (w @ [b])) :: 64 word) = word_of_int (le_dec w) XOR push_bit (8 * length w) (ucast b)"
proof -
  define x where "x = (word_of_int (le_dec w) :: 64 word)"
  have "le_dec w = take_bit (8 * length w) (le_dec w)"
    using le_dec_range[of w] by (simp add: take_bit_int_eq_self pow256)
  then have "bit x n \<Longrightarrow> n < 8 * length w" for n
    unfolding x_def bit_word_of_int_iff by (metis bit_take_bit_iff)
  then have d: "\<not> bit x n \<or> \<not> bit (push_bit (8 * length w) (ucast b) :: 64 word) n" for n
    by (force simp: bit_simps)
  have "x + push_bit (8 * length w) (ucast b) = x OR push_bit (8 * length w) (ucast b)"
    using d by (rule disjunctive_add)
  moreover have "x OR push_bit (8 * length w) (ucast b) = x XOR push_bit (8 * length w) (ucast b)"
    by (rule bit_word_eqI) (use d in \<open>auto simp: bit_or_iff bit_xor_iff\<close>)
  moreover have "(word_of_int (le_dec (w @ [b])) :: 64 word) = x + push_bit (8 * length w) (ucast b)"
    by (simp add: le_dec_snoc x_def push_bit_eq_mult mult.commute)
  ultimately show ?thesis by (simp add: x_def)
qed

lemma crc64_absorb:
  assumes "length w \<le> 8"
  shows "crc64_bits s w = (crc64_step ^^ (8 * length w)) (s XOR word_of_int (le_dec w))"
  using assms
proof (induction w rule: rev_induct)
  case (snoc b w)
  let ?n = "8 * length w"
  have "crc64_bits s (w @ [b]) = (crc64_step ^^ 8) (crc64_bits s w XOR ucast b)"
    by (simp add: crc64_bits_def crc64_byte_def)
  also have "\<dots> = (crc64_step ^^ 8) ((crc64_step ^^ ?n) ((s XOR word_of_int (le_dec w)) XOR push_bit ?n (ucast b)))"
  proof -
    have "(crc64_step ^^ ?n) ((s XOR word_of_int (le_dec w)) XOR push_bit ?n (ucast b)) = crc64_bits s w XOR ucast b"
      using snoc crc64_steps_push[of ?n b] crc64_steps_xor[of ?n "s XOR word_of_int (le_dec w)" "push_bit ?n (ucast b)"] by simp
    then show ?thesis by simp
  qed
  also have "\<dots> = (crc64_step ^^ (8 * length (w @ [b]))) (s XOR word_of_int (le_dec (w @ [b])))"
    using snoc.prems le_word_snoc[of w b] by (simp add: funpow_add xor.assoc)
  finally show ?case .
qed (simp add: crc64_bits_def)

lemma le_dec_inj: "length a = length b \<Longrightarrow> le_dec a = le_dec b \<Longrightarrow> a = b"
  using le_enc_le_dec[of a "length a" 0] le_enc_le_dec[of b "length b" 0] by simp

lemma crc64_window_inj:
  assumes "length a = length b" "length a \<le> 8" "crc64_bits s a = crc64_bits s b"
  shows "a = b"
proof -
  have "s XOR word_of_int (le_dec a) = s XOR word_of_int (le_dec b)"
    using assms crc64_absorb[of a s] crc64_absorb[of b s] by (metis crc64_steps_inj)
  then have "(word_of_int (le_dec a) :: 64 word) = word_of_int (le_dec b)"
    using xor_cancel_right[of "word_of_int (le_dec a)" s "word_of_int (le_dec b)"] by (simp only: xor.commute[of s])
  moreover have "uint (word_of_int (le_dec x) :: 64 word) = le_dec x" if "length x \<le> 8" for x
  proof -
    have "le_dec x < 2 ^ 64" using le_dec_range[of x] that power_increasing[of "8 * length x" 64 "2::int"]
      by (simp add: pow256)
    then show ?thesis using le_dec_range[of x] by (simp add: uint_word_of_int)
  qed
  ultimately have "le_dec a = le_dec b" using assms(1,2) by metis
  then show ?thesis using assms(1) by (rule le_dec_inj[rotated])
qed

section \<open>Hash slots\<close>

lemma takeWhile_stop: "c \<notin> set xs \<Longrightarrow> takeWhile (\<lambda>k. k \<noteq> c) (xs @ c # ys) = xs"
  by (induction xs) auto

lemma find_from_spec:
  "find_from key c i = i + length (takeWhile (\<lambda>k. k \<noteq> c) key)"
  by (induction key c i rule: find_from.induct) auto

section \<open>Properties\<close>

text \<open>C31. \<open>crc16\<close> and \<open>crc64\<close> with their 256-entry tables compute, on every message, the remainder of the
  bit-by-bit division by the generator polynomials \<open>0x1021\<close> and (reflected) \<open>0xad93d23594c935a9\<close>.\<close>

theorem crc_tables_correct: "crc16 buf = crc16_bits buf \<and> crc64 s buf = crc64_bits s buf"
  by (simp add: crc16_bitwise crc64_bitwise)

text \<open>C32. The RDB checksum detects every corruption confined to at most eight consecutive bytes, wherever
  it is in the file and whatever the running checksum.\<close>

theorem crc64_detects_burst:
  assumes "length w = length w'" "length w \<le> 8" "w \<noteq> w'"
  shows "crc64 s (pre @ w @ post) \<noteq> crc64 s (pre @ w' @ post)"
proof
  assume "crc64 s (pre @ w @ post) = crc64 s (pre @ w' @ post)"
  then have "crc64_bits (crc64_bits (crc64_bits s pre) w) post = crc64_bits (crc64_bits (crc64_bits s pre) w') post"
    by (simp add: crc64_bitwise crc64_bits_def)
  then show False using crc64_bits_inj crc64_window_inj[OF assms(1,2)] assms(3) by blast
qed

theorem crc64_detects_burst_witness: "crc64 0 ([1, 2] @ [3, 4] @ [5]) \<noteq> crc64 0 ([1, 2] @ [4, 3] @ [5])"
  by (rule crc64_detects_burst) simp_all

text \<open>Cluster slots: every key hashes to one of the 16384 slots, and a key with a hash tag hashes to the
  slot of the tag, so all keys with the same non-empty tag share a slot.\<close>

lemma keyHashSlot_tag:
  assumes "123 \<notin> set pre" "125 \<notin> set tag" "tag \<noteq> []"
  shows "keyHashSlot (pre @ [123] @ tag @ [125] @ post) = unat (crc16 tag AND 0x3FFF) \<and>
    keyHashSlot key < 16384"
proof
  show "keyHashSlot (pre @ [123] @ tag @ [125] @ post) = unat (crc16 tag AND 0x3FFF)"
    using assms by (simp add: keyHashSlot_def find_from_spec Let_def takeWhile_stop)
  have "unat (x AND 0x3FFF :: 16 word) < 16384" for x
    using word_and_le1[of x "0x3FFF"] by (simp add: word_le_nat_alt)
  then show "keyHashSlot key < 16384" by (simp add: keyHashSlot_def Let_def)
qed

end
