(* ===== verification/Redis_Lzf.thy ===== *)
theory Redis_Lzf
  imports Redis_Prelude
begin

unbundle bit_operations_syntax

text \<open>
  \<open>lzf_c.c\<close> and \<open>lzf_d.c\<close>: the LZF compressor and decompressor behind the RDB string encoding, in the
  configuration of \<open>lzfP.h\<close> (\<open>HLOG\<close> 16, \<open>VERY_FAST\<close>, \<open>CHECK_INPUT\<close>, no \<open>INIT_HTAB\<close>).

  Pointers into the input and output are offsets from their start, and every load and store is checked:
  \<open>None\<close> is an access out of bounds.  The hash table of positions is not initialised by the code: what it
  holds at the start is the argument \<open>htab\<close>.  The inner \<open>None\<close> of a result is the code's \<open>return 0\<close>.

  The tokens of the compressed format (\<open>token\<close>, \<open>tok_enc\<close>, \<open>tok_run\<close>) are the specification: the
  compressor writes the encoding of tokens that expand to the input, the decompressor expands them.
\<close>

section \<open>The code\<close>

record lzf =
  l_ip :: nat
  l_op :: nat
  l_lit :: nat
  l_out :: bytes
  l_htab :: "nat \<Rightarrow> int"
  l_hval :: "32 word"

definition FRST :: "bytes \<Rightarrow> nat \<Rightarrow> 32 word option" where
  "FRST inp p = do { a \<leftarrow> load inp (int p); b \<leftarrow> load inp (int p + 1); Some (push_bit 8 (ucast a) OR ucast b) }"

definition NEXT :: "32 word \<Rightarrow> bytes \<Rightarrow> nat \<Rightarrow> 32 word option" where
  "NEXT v inp p = do { c \<leftarrow> load inp (int p + 2); Some (push_bit 8 v OR ucast c) }"

definition IDX :: "32 word \<Rightarrow> nat" where
  "IDX h = unat ((drop_bit 8 h - h * 5) AND 0xFFFF)"

definition lzf_stop_run :: "lzf \<Rightarrow> lzf option" where
  "lzf_stop_run s = do {
     out \<leftarrow> store (l_out s) (int (l_op s) - int (l_lit s) - 1) (of_nat (l_lit s) - 1);
     Some (s\<lparr>l_out := out\<rparr>)
   }"

definition lzf_start_run :: "lzf \<Rightarrow> lzf" where
  "lzf_start_run s = s\<lparr>l_op := l_op s + 1, l_lit := 0\<rparr>"

definition lzf_literal :: "bytes \<Rightarrow> lzf \<Rightarrow> lzf option" where
  "lzf_literal inp s = do {
     c \<leftarrow> load inp (int (l_ip s));
     out \<leftarrow> store (l_out s) (int (l_op s)) c;
     let s = s\<lparr>l_ip := l_ip s + 1, l_op := l_op s + 1, l_lit := l_lit s + 1, l_out := out\<rparr>;
     (if l_lit s = 32 then do { s \<leftarrow> lzf_stop_run s; Some (lzf_start_run s) } else Some s)
   }"

text \<open>Comparing \<open>ref[len]\<close> with \<open>ip[len]\<close>; the unrolled run of increments and tests (\<open>Inl\<close> when a test
  fails); the \<open>do while\<close> that follows it.\<close>

definition lzf_same :: "bytes \<Rightarrow> nat \<Rightarrow> nat \<Rightarrow> nat \<Rightarrow> bool option" where
  "lzf_same inp ref ip l = do { a \<leftarrow> load inp (int (ref + l)); b \<leftarrow> load inp (int (ip + l)); Some (a = b) }"

fun lzf_unrolled :: "bytes \<Rightarrow> nat \<Rightarrow> nat \<Rightarrow> nat \<Rightarrow> nat \<Rightarrow> (nat + nat) option" where
  "lzf_unrolled inp ref ip 0 l = Some (Inr l)"
| "lzf_unrolled inp ref ip (Suc n) l = do {
     e \<leftarrow> lzf_same inp ref ip (l + 1);
     (if e then lzf_unrolled inp ref ip n (l + 1) else Some (Inl (l + 1)))
   }"

function lzf_extend :: "bytes \<Rightarrow> nat \<Rightarrow> nat \<Rightarrow> nat \<Rightarrow> nat \<Rightarrow> nat option" where
  "lzf_extend inp ref ip maxlen l =
     (let l = l + 1
      in if l < maxlen
         then do { e \<leftarrow> lzf_same inp ref ip l; (if e then lzf_extend inp ref ip maxlen l else Some l) }
         else Some l)"
  by pat_completeness auto
termination by (relation "measure (\<lambda>(inp, ref, ip, maxlen, l). maxlen - l)") auto

declare lzf_extend.simps [simp del]

definition lzf_match_len :: "bytes \<Rightarrow> nat \<Rightarrow> nat \<Rightarrow> nat option" where
  "lzf_match_len inp ref ip = (
     let maxlen = length inp - ip - 2;
         maxlen = (if maxlen > 264 then 264 else maxlen)
     in if maxlen > 16 then do {
          r \<leftarrow> lzf_unrolled inp ref ip 16 2;
          (case r of Inl l \<Rightarrow> Some l | Inr l \<Rightarrow> lzf_extend inp ref ip maxlen l)
        } else lzf_extend inp ref ip maxlen 2)"

definition lzf_emit_ref :: "nat \<Rightarrow> nat \<Rightarrow> lzf \<Rightarrow> lzf option" where
  "lzf_emit_ref off l s = do {
     s \<leftarrow> (if l < 7 then do {
              out \<leftarrow> store (l_out s) (int (l_op s)) (of_nat (off div 256 + l * 32));
              Some (s\<lparr>l_op := l_op s + 1, l_out := out\<rparr>)
            } else do {
              out \<leftarrow> store (l_out s) (int (l_op s)) (of_nat (off div 256 + 7 * 32));
              out \<leftarrow> store out (int (l_op s) + 1) (of_nat (l - 7));
              Some (s\<lparr>l_op := l_op s + 2, l_out := out\<rparr>)
            });
     out \<leftarrow> store (l_out s) (int (l_op s)) (of_nat off);
     Some (s\<lparr>l_op := l_op s + 1, l_out := out\<rparr>)
   }"

text \<open>The condition that accepts \<open>ref\<close> as a match, \<open>off\<close> being the unsigned pointer difference.\<close>

definition lzf_is_match :: "bytes \<Rightarrow> nat \<Rightarrow> int \<Rightarrow> bool option" where
  "lzf_is_match inp ip ref =
     (if (int ip - ref - 1) mod 2 ^ 64 < 8192 \<and> ip + 4 < length inp \<and> ref > 0
      then do {
        r0 \<leftarrow> load inp ref; i0 \<leftarrow> load inp (int ip);
        r1 \<leftarrow> load inp (ref + 1); i1 \<leftarrow> load inp (int ip + 1);
        (if r0 = i0 \<and> r1 = i1
         then do { r2 \<leftarrow> load inp (ref + 2); i2 \<leftarrow> load inp (int ip + 2); Some (r2 = i2) }
         else Some False)
      } else Some False)"

text \<open>The body of a match: \<open>Inl ()\<close> for \<open>return 0\<close>, otherwise the new state and whether to break.\<close>

definition lzf_match :: "bytes \<Rightarrow> nat \<Rightarrow> lzf \<Rightarrow> nat \<Rightarrow> nat \<Rightarrow> (unit + lzf \<times> bool) option" where
  "lzf_match inp out_len s ref off = do {
     s \<leftarrow> lzf_stop_run s;
     let s = (if l_lit s = 0 then s\<lparr>l_op := l_op s - 1\<rparr> else s);
     (if l_op s + 3 + 1 \<ge> out_len then Some (Inl ())
      else do {
        octets \<leftarrow> lzf_match_len inp ref (l_ip s);
        let l = octets - 2;
        s \<leftarrow> lzf_emit_ref off l s;
        let s = lzf_start_run s;
        let s = s\<lparr>l_ip := l_ip s + 1 + l + 1\<rparr>;
        (if l_ip s + 2 \<ge> length inp then Some (Inr (s, True))
         else do {
           let ip = l_ip s - 2;
           hval \<leftarrow> FRST inp ip;
           hval \<leftarrow> NEXT hval inp ip;
           let htab = (l_htab s)(IDX hval := int ip);
           hval \<leftarrow> NEXT hval inp (ip + 1);
           let htab = htab(IDX hval := int (ip + 1));
           Some (Inr (s\<lparr>l_ip := ip + 2, l_htab := htab, l_hval := hval\<rparr>, False))
         })
      })
   }"

partial_function (option) lzf_loop :: "bytes \<Rightarrow> nat \<Rightarrow> lzf \<Rightarrow> lzf option option" where
  "lzf_loop inp out_len s =
     (if l_ip s + 2 < length inp then do {
        hval \<leftarrow> NEXT (l_hval s) inp (l_ip s);
        let ref = l_htab s (IDX hval);
        let s = s\<lparr>l_htab := (l_htab s)(IDX hval := int (l_ip s)), l_hval := hval\<rparr>;
        hit \<leftarrow> lzf_is_match inp (l_ip s) ref;
        (if hit then do {
           r \<leftarrow> lzf_match inp out_len s (nat ref) (nat ((int (l_ip s) - ref - 1) mod 2 ^ 64));
           (case r of Inl _ \<Rightarrow> Some None
            | Inr (s, stop) \<Rightarrow> if stop then Some (Some s) else lzf_loop inp out_len s)
         }
         else if l_op s \<ge> out_len then Some None
         else do { s \<leftarrow> lzf_literal inp s; lzf_loop inp out_len s })
      } else Some (Some s))"

declare lzf_loop.simps [code]

partial_function (option) lzf_tail :: "bytes \<Rightarrow> lzf \<Rightarrow> lzf option" where
  "lzf_tail inp s =
     (if l_ip s < length inp then do { s \<leftarrow> lzf_literal inp s; lzf_tail inp s } else Some s)"

declare lzf_tail.simps [code]

definition lzf_compress :: "(nat \<Rightarrow> int) \<Rightarrow> bytes \<Rightarrow> bytes \<Rightarrow> nat \<Rightarrow> (nat \<times> bytes) option option" where
  "lzf_compress htab inp out out_len =
     (if length inp = 0 \<or> out_len = 0 then Some None
      else do {
        hval \<leftarrow> FRST inp 0;
        r \<leftarrow> lzf_loop inp out_len \<lparr>l_ip = 0, l_op = 1, l_lit = 0, l_out = out, l_htab = htab, l_hval = hval\<rparr>;
        (case r of None \<Rightarrow> Some None
         | Some s \<Rightarrow>
             if l_op s + 3 > out_len then Some None
             else do {
               s \<leftarrow> lzf_tail inp s;
               s \<leftarrow> lzf_stop_run s;
               Some (Some (if l_lit s = 0 then l_op s - 1 else l_op s, l_out s))
             })
      })"

fun lzf_movsb :: "bytes \<Rightarrow> bytes \<Rightarrow> nat \<Rightarrow> nat \<Rightarrow> nat \<Rightarrow> bytes option" where
  "lzf_movsb inp out op ip 0 = Some out"
| "lzf_movsb inp out op ip (Suc n) = do {
     c \<leftarrow> load inp (int ip);
     out \<leftarrow> store out (int op) c;
     lzf_movsb inp out (op + 1) (ip + 1) n
   }"

fun lzf_copy :: "bytes \<Rightarrow> nat \<Rightarrow> nat \<Rightarrow> nat \<Rightarrow> bytes option" where
  "lzf_copy out op ref 0 = Some out"
| "lzf_copy out op ref (Suc n) = do {
     c \<leftarrow> load out (int ref);
     out \<leftarrow> store out (int op) c;
     lzf_copy out (op + 1) (ref + 1) n
   }"

text \<open>One turn of the decompressor's loop: the new input position, output position and output, or
  \<open>return 0\<close>.\<close>

definition lzf_expand :: "bytes \<Rightarrow> nat \<Rightarrow> nat \<Rightarrow> bytes \<Rightarrow> (nat \<times> nat \<times> bytes) option option" where
  "lzf_expand inp ip op out = do {
     ctrl \<leftarrow> load inp (int ip);
     let ctrl = unat ctrl;
     let ip = ip + 1;
     (if ctrl < 32 then
        (let ctrl = ctrl + 1
         in if op + ctrl > length out then Some None
            else if ip + ctrl > length inp then Some None
            else do { out \<leftarrow> lzf_movsb inp out op ip ctrl; Some (Some (ip + ctrl, op + ctrl, out)) })
      else
        (let l = ctrl div 32;
             ref = int op - int ((ctrl mod 32) * 256) - 1
         in if ip \<ge> length inp then Some None
            else do {
              (l, ip) \<leftarrow> (if l = 7 then do { c \<leftarrow> load inp (int ip); Some (l + unat c, ip + 1) } else Some (l, ip));
              (if ctrl div 32 = 7 \<and> ip \<ge> length inp then Some None
               else do {
                 c \<leftarrow> load inp (int ip);
                 let ref = ref - int (unat c);
                 let ip = ip + 1;
                 (if op + l + 2 > length out then Some None
                  else if ref < 0 then Some None
                  else do { out \<leftarrow> lzf_copy out op (nat ref) (l + 2); Some (Some (ip, op + l + 2, out)) })
               })
            }))
   }"

partial_function (option) lzf_decompress_loop ::
    "bytes \<Rightarrow> nat \<Rightarrow> nat \<Rightarrow> bytes \<Rightarrow> (nat \<times> bytes) option option" where
  "lzf_decompress_loop inp ip op out = do {
     r \<leftarrow> lzf_expand inp ip op out;
     (case r of None \<Rightarrow> Some None
      | Some (ip, op, out) \<Rightarrow>
          if ip < length inp then lzf_decompress_loop inp ip op out else Some (Some (op, out)))
   }"

declare lzf_decompress_loop.simps [code]

definition lzf_decompress :: "bytes \<Rightarrow> bytes \<Rightarrow> (nat \<times> bytes) option option" where
  "lzf_decompress inp out = lzf_decompress_loop inp 0 0 out"

section \<open>The compressed format\<close>

datatype token = Lit bytes | Ref nat nat

text \<open>\<open>Ref off n\<close> repeats \<open>n + 2\<close> bytes starting \<open>off + 1\<close> bytes before the end.\<close>

fun tok_ok :: "token \<Rightarrow> bool" where
  "tok_ok (Lit bs) \<longleftrightarrow> bs \<noteq> [] \<and> length bs \<le> 32"
| "tok_ok (Ref off n) \<longleftrightarrow> off < 8192 \<and> 1 \<le> n \<and> n \<le> 262"

fun tok_enc :: "token \<Rightarrow> bytes" where
  "tok_enc (Lit bs) = of_nat (length bs - 1) # bs"
| "tok_enc (Ref off n) =
     (if n < 7 then [of_nat (off div 256 + n * 32), of_nat off]
      else [of_nat (off div 256 + 7 * 32), of_nat (n - 7), of_nat off])"

fun copy_back :: "bytes \<Rightarrow> nat \<Rightarrow> nat \<Rightarrow> bytes" where
  "copy_back acc off 0 = acc"
| "copy_back acc off (Suc n) = copy_back (acc @ [acc ! (length acc - off - 1)]) off n"

fun tok_run :: "token \<Rightarrow> bytes \<Rightarrow> bytes option" where
  "tok_run (Lit bs) acc = Some (acc @ bs)"
| "tok_run (Ref off n) acc = (if off < length acc then Some (copy_back acc off (n + 2)) else None)"

fun toks_run :: "token list \<Rightarrow> bytes \<Rightarrow> bytes option" where
  "toks_run [] acc = Some acc"
| "toks_run (t # ts) acc = do { acc \<leftarrow> tok_run t acc; toks_run ts acc }"

definition toks_enc :: "token list \<Rightarrow> bytes" where
  "toks_enc ts = concat (map tok_enc ts)"

text \<open>Two positions of the input agree on \<open>n\<close> bytes; the entries of the hash table are pointer differences
  within the signed 64-bit range.\<close>

definition agree :: "bytes \<Rightarrow> nat \<Rightarrow> nat \<Rightarrow> nat \<Rightarrow> bool" where
  "agree inp ref ip n \<longleftrightarrow> (\<forall>k < n. inp ! (ref + k) = inp ! (ip + k))"

definition htab_ok :: "(nat \<Rightarrow> int) \<Rightarrow> bool" where
  "htab_ok h \<longleftrightarrow> (\<forall>i. - (2 ^ 63) \<le> h i \<and> h i < 2 ^ 63)"

text \<open>
  The invariant of the main loop: the finished tokens expand to the input before the current literal
  run, whose bytes follow the slot kept for its header.
\<close>

definition lzf_inv :: "bytes \<Rightarrow> nat \<Rightarrow> lzf \<Rightarrow> token list \<Rightarrow> bool" where
  "lzf_inv inp out_len s ts \<longleftrightarrow>
     (\<forall>t\<in>set ts. tok_ok t) \<and> toks_run ts [] = Some (take (l_ip s - l_lit s) inp) \<and>
     l_lit s \<le> 32 \<and> l_lit s \<le> l_ip s \<and> l_ip s \<le> length inp \<and> length (l_out s) = out_len + 1 \<and>
     l_op s = length (toks_enc ts) + 1 + l_lit s \<and> l_op s \<le> out_len + (if l_lit s = 0 then 1 else 0) \<and>
     take (length (toks_enc ts)) (l_out s) = toks_enc ts \<and>
     take (l_lit s) (drop (length (toks_enc ts) + 1) (l_out s)) = take (l_lit s) (drop (l_ip s - l_lit s) inp)"

section \<open>The decompressor\<close>

lemma load_in: "i < length m \<Longrightarrow> load m (int i) = Some (m ! i)"
  by (simp add: load_def)

lemma movsb_spec:
  assumes "ip + n \<le> length inp" "op + n \<le> length out"
  shows "\<exists>out'. lzf_movsb inp out op ip n = Some out' \<and> length out' = length out \<and>
    take (op + n) out' = take op out @ take n (drop ip inp)"
  using assms
proof (induction n arbitrary: out op ip)
  case (Suc n)
  let ?o = "out[op := inp ! ip]"
  from Suc.IH[of "ip + 1" "op + 1" ?o] Suc.prems obtain out' where
    o: "lzf_movsb inp ?o (op + 1) (ip + 1) n = Some out'" "length out' = length out"
      "take (op + 1 + n) out' = take (op + 1) ?o @ take n (drop (ip + 1) inp)" by auto
  moreover have "take (op + 1) ?o = take op out @ [inp ! ip]"
    using Suc.prems by (simp add: take_Suc_conv_app_nth)
  moreover have "take (Suc n) (drop ip inp) = inp ! ip # take n (drop (ip + 1) inp)"
    using Suc.prems by (simp add: Cons_nth_drop_Suc[symmetric])
  ultimately show ?case using Suc.prems by (simp add: load_in store_in)
qed simp

lemma copy_spec:
  assumes "ref < op" "op + n \<le> length out"
  shows "\<exists>out'. lzf_copy out op ref n = Some out' \<and> length out' = length out \<and>
    take (op + n) out' = copy_back (take op out) (op - ref - 1) n"
  using assms
proof (induction n arbitrary: out op ref)
  case (Suc n)
  let ?o = "out[op := out ! ref]"
  from Suc.IH[of "ref + 1" "op + 1" ?o] Suc.prems obtain out' where
    o: "lzf_copy ?o (op + 1) (ref + 1) n = Some out'" "length out' = length out"
      "take (op + 1 + n) out' = copy_back (take (op + 1) ?o) (op + 1 - (ref + 1) - 1) n" by auto
  moreover have "take (op + 1) ?o = take op out @ [out ! ref]"
    using Suc.prems by (simp add: take_Suc_conv_app_nth)
  moreover have "take op out ! (op - (op - ref - 1) - 1) = out ! ref" using Suc.prems by simp
  ultimately show ?case using Suc.prems by (simp add: load_in store_in min_absorb2)
qed simp

declare lzf_movsb.simps [simp del] lzf_copy.simps [simp del]

lemma expand_lit:
  assumes "ip < length inp" "unat (inp ! ip) < 32" "k = unat (inp ! ip) + 1"
  shows "lzf_expand inp ip op out =
    (if op + k > length out then Some None else if ip + 1 + k > length inp then Some None
     else do { out \<leftarrow> lzf_movsb inp out op (ip + 1) k; Some (Some (ip + 1 + k, op + k, out)) })"
  using assms(1,2) unfolding assms(3) by (simp add: lzf_expand_def load_in Let_def)

lemma expand_ref:
  assumes "ip + 1 < length inp" "c = unat (inp ! ip)" "\<not> c < 32"
    "(l, ip2) = (if c div 32 = 7 then (7 + unat (inp ! (ip + 1)), ip + 2) else (c div 32, ip + 1))"
    "ip2 < length inp" "ref = int op - int (c mod 32 * 256) - 1 - int (unat (inp ! ip2))"
  shows "lzf_expand inp ip op out =
    (if op + l + 2 > length out then Some None else if ref < 0 then Some None
     else do { out \<leftarrow> lzf_copy out op (nat ref) (l + 2); Some (Some (ip2 + 1, op + l + 2, out)) })"
proof -
  have "load inp (int ip) = Some (inp ! ip)" "load inp (1 + int ip) = Some (inp ! (ip + 1))" "load inp (int ip2) = Some (inp ! ip2)"
    using assms(1,5) load_in[of ip inp] load_in[of "ip + 1" inp] load_in[of ip2 inp] by (simp_all add: add.commute)
  then show ?thesis using assms(1-5)
    unfolding assms(6) by (cases "c div 32 = 7") (simp_all add: lzf_expand_def Let_def)
qed

lemma expand_short:
  assumes "ip < length inp" "\<not> unat (inp ! ip) < 32"
    "ip + 1 \<ge> length inp \<or> unat (inp ! ip) div 32 = 7 \<and> ip + 2 \<ge> length inp"
  shows "lzf_expand inp ip op out = Some None"
proof (cases "ip + 1 \<ge> length inp")
  case True
  then show ?thesis using assms by (simp add: lzf_expand_def load_in Let_def)
next
  case False
  then have "load inp (1 + int ip) = Some (inp ! (ip + 1))" using load_in[of "ip + 1" inp] by (simp add: add.commute)
  then show ?thesis using False assms by (simp add: lzf_expand_def load_in Let_def)
qed

lemma expand_safe:
  assumes "ip < length inp" "op \<le> length out"
  shows "\<exists>r. lzf_expand inp ip op out = Some r \<and>
    (case r of None \<Rightarrow> True | Some (ip', op', out') \<Rightarrow> ip < ip' \<and> op' \<le> length out' \<and> length out' = length out)"
proof -
  define c where "c = unat (inp ! ip)"
  consider "c < 32" | "\<not> c < 32" "ip + 1 \<ge> length inp \<or> c div 32 = 7 \<and> ip + 2 \<ge> length inp"
    | "\<not> c < 32" "ip + 1 < length inp" "c div 32 = 7 \<longrightarrow> ip + 2 < length inp" by linarith
  then show ?thesis
  proof cases
    case 1
    define k where "k = unat (inp ! ip) + 1"
    show ?thesis using 1 expand_lit[OF assms(1) _ k_def, of op out] movsb_spec[of "ip + 1" k inp op out]
      by (auto simp: c_def)
  next
    case 2
    then show ?thesis using expand_short[OF assms(1)] by (simp add: c_def)
  next
    case 3
    obtain l ip2 where l: "(l, ip2) = (if c div 32 = 7 then (7 + unat (inp ! (ip + 1)), ip + 2) else (c div 32, ip + 1))"
      by (metis surj_pair)
    then have ip2: "ip2 < length inp" "ip < ip2" using 3 by (auto split: if_splits)
    define ref where "ref = int op - int (c mod 32 * 256) - 1 - int (unat (inp ! ip2))"
    note eq = expand_ref[OF 3(2) c_def 3(1) l ip2(1) ref_def, of out]
    show ?thesis
    proof (cases "op + l + 2 > length out \<or> ref < 0")
      case True
      then show ?thesis using eq by auto
    next
      case False
      have "ref < int op" unfolding ref_def by linarith
      then have "nat ref < op" using False by linarith
      with False copy_spec[of "nat ref" op "l + 2" out] show ?thesis using eq ip2 by auto
    qed
  qed
qed

lemma decompress_loop_safe:
  assumes "ip < length inp" "op \<le> length out"
  shows "\<exists>r. lzf_decompress_loop inp ip op out = Some r"
  using assms
proof (induction "length inp - ip" arbitrary: ip op out rule: less_induct)
  case less
  obtain r where r: "lzf_expand inp ip op out = Some r"
    "case r of None \<Rightarrow> True | Some (ip', op', out') \<Rightarrow> ip < ip' \<and> op' \<le> length out' \<and> length out' = length out"
    using expand_safe[OF less.prems] by blast
  show ?case
  proof (cases r)
    case None
    then show ?thesis using r(1) by (subst lzf_decompress_loop.simps) simp
  next
    case (Some t)
    obtain ip' op' out' where t: "t = (ip', op', out')" by (cases t)
    then have "ip < ip'" "op' \<le> length out'" using r(2) Some by simp_all
    then have "ip' < length inp \<Longrightarrow> \<exists>r. lzf_decompress_loop inp ip' op' out' = Some r"
      using less.hyps[of ip' op' out'] less.prems by simp
    then show ?thesis using r(1) Some t by (subst lzf_decompress_loop.simps) simp
  qed
qed

lemma length_copy_back [simp]: "length (copy_back acc off n) = length acc + n"
  by (induction acc off n rule: copy_back.induct) auto

lemma drop_nth:
  assumes "drop i xs = ys" "k < length ys"
  shows "i + k < length xs \<and> xs ! (i + k) = ys ! k"
  using assms by auto

lemma unat_byte: "n < 256 \<Longrightarrow> unat (of_nat n :: byte) = n"
  by (simp add: unat_of_nat take_bit_nat_eq_self)

lemma unat_byte_mod: "unat (of_nat n :: byte) = n mod 256"
  by (simp add: unat_of_nat take_bit_eq_mod)

lemma expand_token_lit:
  assumes "drop ip inp = tok_enc (Lit bs) @ rest" "tok_ok (Lit bs)" "op \<le> length out" "op + length bs \<le> length out"
  shows "\<exists>out'. lzf_expand inp ip op out = Some (Some (ip + length (tok_enc (Lit bs)), op + length bs, out')) \<and>
    take (op + length bs) out' = take op out @ bs \<and> length out' = length out"
proof -
  have d: "drop ip inp = of_nat (length bs - 1) # bs @ rest" using assms(1) by simp
  have ip: "ip < length inp" "inp ! ip = of_nat (length bs - 1)" using drop_nth[OF d, of 0] by auto
  have tl: "drop (ip + 1) inp = bs @ rest" using arg_cong[OF d, of tl] by (simp add: drop_Suc tl_drop)
  have "0 < length bs" "length bs \<le> 32" using assms(2) by auto
  then have bs: "length bs - 1 < 32" "length bs = length bs - 1 + 1" by linarith+
  then have c: "unat (inp ! ip) = length bs - 1" unfolding ip(2) by (intro unat_byte) simp
  have len: "ip + 1 + length bs \<le> length inp" using arg_cong[OF tl, of length] ip(1) by simp
  obtain out' where "lzf_movsb inp out op (ip + 1) (length bs) = Some out'" "length out' = length out"
    "take (op + length bs) out' = take op out @ take (length bs) (drop (ip + 1) inp)"
    using movsb_spec[OF len assms(4)] by auto
  moreover have "lzf_expand inp ip op out =
    (if op + length bs > length out then Some None else if ip + 1 + length bs > length inp then Some None
     else do { out \<leftarrow> lzf_movsb inp out op (ip + 1) (length bs); Some (Some (ip + 1 + length bs, op + length bs, out)) })"
    by (rule expand_lit[OF ip(1)]) (use c bs in linarith)+
  ultimately show ?thesis using len assms(4) tl by auto
qed

lemma expand_token_ref:
  assumes "drop ip inp = tok_enc (Ref off n) @ rest" "tok_ok (Ref off n)" "op \<le> length out" "op + (n + 2) \<le> length out" "off < op"
  shows "\<exists>out'. lzf_expand inp ip op out = Some (Some (ip + length (tok_enc (Ref off n)), op + (n + 2), out')) \<and>
    take (op + (n + 2)) out' = copy_back (take op out) off (n + 2) \<and> length out' = length out"
proof -
  have ok: "off < 8192" "1 \<le> n" "n \<le> 262" using assms(2) by auto
  then have hi: "off div 256 < 32" by (simp add: div_less_iff_less_mult)
  define m where "m = (if n < 7 then n else 7)"
  define ip2 where "ip2 = (if n < 7 then ip + 1 else ip + 2)"
  have h: "ip < length inp" "inp ! ip = of_nat (off div 256 + m * 32)" "ip + 1 < length inp"
    and h2: "ip2 < length inp" "inp ! ip2 = of_nat off" and h3: "\<not> n < 7 \<Longrightarrow> inp ! (ip + 1) = of_nat (n - 7)"
    using drop_nth[OF assms(1), of 0] drop_nth[OF assms(1), of 1] drop_nth[OF assms(1), of 2]
    by (auto simp: m_def ip2_def split: if_splits)
  have "off div 256 + m * 32 < 256" using hi by (simp add: m_def)
  then have c: "unat (inp ! ip) = off div 256 + m * 32" unfolding h(2) by (rule unat_byte)
  have md: "(off div 256 + m * 32) div 32 = m" "(off div 256 + m * 32) mod 32 = off div 256" using hi by simp_all
  have l: "(n, ip2) = (if unat (inp ! ip) div 32 = 7 then (7 + unat (inp ! (ip + 1)), ip + 2) else (unat (inp ! ip) div 32, ip + 1))"
  proof (cases "n < 7")
    case False
    then have "unat (inp ! (ip + 1)) = n - 7" unfolding h3[OF False] using ok(3) by (intro unat_byte) simp
    then show ?thesis unfolding c md using False by (simp add: m_def ip2_def)
  qed (use c md in \<open>auto simp: m_def ip2_def\<close>)
  have "\<not> unat (inp ! ip) < 32" unfolding c using ok by (simp add: m_def)
  note eq = expand_ref[OF h(3) refl this l h2(1) refl, of op out]
  have ref: "int op - int (unat (inp ! ip) mod 32 * 256) - 1 - int (unat (inp ! ip2)) = int (op - off - 1)"
    unfolding c md h2(2) unat_byte_mod using assms(5) div_mult_mod_eq[of off 256] by linarith
  from copy_spec[of "op - off - 1" op "n + 2" out] assms(4,5) obtain out' where
    "lzf_copy out op (op - off - 1) (n + 2) = Some out'" "length out' = length out"
    "take (op + (n + 2)) out' = copy_back (take op out) off (n + 2)" by auto
  moreover have "ip2 + 1 = ip + length (tok_enc (Ref off n))" by (simp add: ip2_def)
  ultimately show ?thesis using eq assms(4) unfolding ref by auto
qed

lemma decompress_tokens:
  assumes "ts \<noteq> []" "\<forall>t\<in>set ts. tok_ok t" "drop ip inp = toks_enc ts" "op \<le> length out"
    "toks_run ts (take op out) = Some acc'" "length acc' = length out"
  shows "lzf_decompress_loop inp ip op out = Some (Some (length out, acc'))"
  using assms
proof (induction ts arbitrary: ip op out)
  case (Cons t ts)
  have d: "drop ip inp = tok_enc t @ toks_enc ts" using Cons.prems(3) by (simp add: toks_enc_def)
  have mono: "toks_run ts a = Some b \<Longrightarrow> length a \<le> length b" for a b
  proof (induction ts arbitrary: a)
    case (Cons t ts)
    then show ?case by (cases t) (fastforce split: if_splits)+
  qed simp
  obtain acc where acc: "tok_run t (take op out) = Some acc" "toks_run ts acc = Some acc'"
    using Cons.prems(5) by (auto split: Option.bind_splits)
  have lt: "length acc \<le> length out" using mono[OF acc(2)] Cons.prems(6) by simp
  obtain out' where o: "lzf_expand inp ip op out = Some (Some (ip + length (tok_enc t), length acc, out'))"
    "take (length acc) out' = acc" "length out' = length out"
  proof (cases t)
    case (Lit bs)
    then show ?thesis using expand_token_lit[of ip inp bs "toks_enc ts" op out] d Cons.prems(2,4) acc(1) lt that by auto
  next
    case (Ref off n)
    then show ?thesis using expand_token_ref[of ip inp off n "toks_enc ts" op out] d Cons.prems(2,4) acc(1) lt that
      by (auto split: if_splits)
  qed
  have next_drop: "drop (ip + length (tok_enc t)) inp = toks_enc ts" using arg_cong[OF d, of "drop (length (tok_enc t))"] by (simp add: add.commute)
  show ?case
  proof (cases "ts = []")
    case True
    then have "\<not> ip + length (tok_enc t) < length inp" using next_drop by (simp add: toks_enc_def)
    then show ?thesis using o acc(2) True Cons.prems(6) by (subst lzf_decompress_loop.simps) auto
  next
    case False
    have "tok_enc t' \<noteq> []" for t' by (cases t') auto
    then have "toks_enc ts \<noteq> []" using False by (cases ts) (auto simp: toks_enc_def)
    then have "ip + length (tok_enc t) < length inp" using next_drop by (metis drop_eq_Nil not_le)
    moreover have "lzf_decompress_loop inp (ip + length (tok_enc t)) (length acc) out' = Some (Some (length out', acc'))"
      using Cons.IH[OF False _ next_drop, of "length acc" out'] Cons.prems(2,6) o lt acc(2) by auto
    ultimately show ?thesis using o by (subst lzf_decompress_loop.simps) auto
  qed
qed simp

section \<open>The compressor\<close>

lemma same_spec:
  assumes "ref < ip" "ip + l < length inp"
  shows "lzf_same inp ref ip l = Some (inp ! (ref + l) = inp ! (ip + l))"
  using assms load_in[of "ref + l" inp] load_in[of "ip + l" inp] by (simp add: lzf_same_def)

lemma agree_Suc: "agree inp ref ip (Suc n) \<longleftrightarrow> agree inp ref ip n \<and> inp ! (ref + n) = inp ! (ip + n)"
  by (auto simp: agree_def less_Suc_eq)

lemma unrolled_spec:
  assumes "ref < ip" "ip + l + n < length inp" "agree inp ref ip (l + 1)"
  shows "\<exists>r. lzf_unrolled inp ref ip n l = Some r \<and>
    (case r of Inl k \<Rightarrow> l < k \<and> k \<le> l + n \<and> agree inp ref ip k | Inr k \<Rightarrow> k = l + n \<and> agree inp ref ip (k + 1))"
  using assms
proof (induction n arbitrary: l)
  case (Suc n)
  have s: "lzf_same inp ref ip (l + 1) = Some (inp ! (ref + (l + 1)) = inp ! (ip + (l + 1)))"
    using same_spec[of ref ip "l + 1" inp] Suc.prems by simp
  show ?case
  proof (cases "inp ! (ref + (l + 1)) = inp ! (ip + (l + 1))")
    case True
    then have "agree inp ref ip (l + 1 + 1)" using Suc.prems(3) agree_Suc[of inp ref ip "l + 1"] by simp
    from Suc.IH[OF Suc.prems(1) _ this] Suc.prems(2) obtain r where
      "lzf_unrolled inp ref ip n (l + 1) = Some r"
      "case r of Inl k \<Rightarrow> l + 1 < k \<and> k \<le> l + 1 + n \<and> agree inp ref ip k | Inr k \<Rightarrow> k = l + 1 + n \<and> agree inp ref ip (k + 1)" by auto
    then show ?thesis using s True by (auto split: sum.splits)
  next
    case False
    then show ?thesis using s Suc.prems(3) by auto
  qed
qed simp

lemma extend_spec:
  assumes "ref < ip" "ip + maxlen \<le> length inp" "agree inp ref ip (l + 1)"
  shows "\<exists>k. lzf_extend inp ref ip maxlen l = Some k \<and> l < k \<and> k \<le> max maxlen (l + 1) \<and> agree inp ref ip k"
  using assms
proof (induction "maxlen - l" arbitrary: l rule: less_induct)
  case less
  have a: "agree inp ref ip (l + 1)" by (rule less.prems(3))
  show ?case
  proof (cases "l + 1 < maxlen \<and> inp ! (ref + (l + 1)) = inp ! (ip + (l + 1))")
    case True
    then have "agree inp ref ip (l + 1 + 1)" using a agree_Suc[of inp ref ip "l + 1"] by simp
    moreover have "maxlen - (l + 1) < maxlen - l" using True by linarith
    ultimately obtain k where
      "lzf_extend inp ref ip maxlen (l + 1) = Some k" "l + 1 < k" "k \<le> max maxlen (l + 1 + 1)" "agree inp ref ip k"
      using less.hyps[of "l + 1"] less.prems(1,2) by blast
    then show ?thesis using True same_spec[of ref ip "l + 1" inp] less.prems(1,2)
      by (subst lzf_extend.simps) (auto simp: Let_def)
  next
    case False
    then show ?thesis using same_spec[of ref ip "l + 1" inp] less.prems(1,2) a
      by (subst lzf_extend.simps) (auto simp: Let_def)
  qed
qed

lemma match_len_spec:
  assumes "ref < ip" "ip + 4 < length inp" "agree inp ref ip 3"
  shows "\<exists>n. lzf_match_len inp ref ip = Some n \<and> 3 \<le> n \<and> n \<le> 264 \<and> ip + n \<le> length inp \<and> agree inp ref ip n"
proof -
  define maxlen where "maxlen = min 264 (length inp - ip - 2)"
  have mx: "(if length inp - ip - 2 > 264 then 264 else length inp - ip - 2) = maxlen" by (simp add: maxlen_def)
  have eq: "lzf_match_len inp ref ip = (if maxlen > 16 then do {
          r \<leftarrow> lzf_unrolled inp ref ip 16 2;
          (case r of Inl l \<Rightarrow> Some l | Inr l \<Rightarrow> lzf_extend inp ref ip maxlen l)
        } else lzf_extend inp ref ip maxlen 2)" by (simp only: lzf_match_len_def Let_def mx)
  have le: "ip + maxlen + 2 \<le> length inp" "3 \<le> maxlen" "maxlen \<le> 264" using assms(2) by (auto simp: maxlen_def)
  show ?thesis
  proof (cases "maxlen > 16")
    case True
    have "ip + 2 + 16 < length inp" "agree inp ref ip (2 + 1)" using True le(1) assms(3) by simp_all
    from unrolled_spec[OF assms(1) this] obtain r where r: "lzf_unrolled inp ref ip 16 2 = Some r"
      "case r of Inl k \<Rightarrow> 2 < k \<and> k \<le> 2 + 16 \<and> agree inp ref ip k | Inr k \<Rightarrow> k = 2 + 16 \<and> agree inp ref ip (k + 1)"
      by blast
    show ?thesis
    proof (cases r)
      case (Inl k)
      then show ?thesis using r True le by (auto simp: eq)
    next
      case (Inr k)
      then obtain n where "lzf_extend inp ref ip maxlen 18 = Some n" "18 < n" "n \<le> max maxlen (18 + 1)" "agree inp ref ip n" "k = 18"
        using r(2) le extend_spec[OF assms(1), of maxlen inp 18] by auto
      moreover from this have "n \<le> 264" "ip + n \<le> length inp" using True le by (auto simp: max_def split: if_splits)
      ultimately show ?thesis using r(1) True Inr by (simp add: eq)
    qed
  next
    case False
    then show ?thesis using le extend_spec[OF assms(1), of maxlen inp 2] assms(3)
      by (auto simp: eq)
  qed
qed

lemma copy_back_agree:
  assumes "ref < ip" "ip + n \<le> length inp" "agree inp ref ip n"
  shows "copy_back (take ip inp) (ip - ref - 1) n = take (ip + n) inp"
  using assms
proof (induction n arbitrary: ip ref)
  case (Suc n)
  have "inp ! ref = inp ! ip" using Suc.prems(3) by (auto simp: agree_def dest: spec[of _ 0])
  then have "take ip inp @ [take ip inp ! ref] = take (ip + 1) inp" using Suc.prems by (simp add: take_Suc_conv_app_nth)
  moreover have "agree inp (ref + 1) (ip + 1) n" using Suc.prems(3) by (auto simp: agree_def)
  moreover have "ip - (ip - ref - 1) - 1 = ref" using Suc.prems(1) by simp
  ultimately show ?case using Suc.IH[of "ref + 1" "ip + 1"] Suc.prems by (simp add: min_absorb2)
qed simp

lemma toks_run_append: "toks_run (ts @ us) acc = do { acc \<leftarrow> toks_run ts acc; toks_run us acc }"
  by (induction ts arbitrary: acc) (auto split: Option.bind_splits)

lemma toks_enc_append: "toks_enc (ts @ us) = toks_enc ts @ toks_enc us"
  by (simp add: toks_enc_def)

lemma of_nat_minus_one: "0 < n \<Longrightarrow> (of_nat n - 1 :: byte) = of_nat (n - 1)"
  by (simp add: of_nat_diff)

text \<open>Closing the run: what \<open>lzf_stop_run\<close> leaves is a complete encoding of the input read so far.\<close>

lemma stop_run_spec:
  assumes inv: "lzf_inv inp out_len s ts" and n: "n = (if l_lit s = 0 then l_op s - 1 else l_op s)"
  shows "\<exists>out us. lzf_stop_run s = Some (s\<lparr>l_out := out\<rparr>) \<and> length out = length (l_out s) \<and>
    (\<forall>t\<in>set us. tok_ok t) \<and> toks_run us [] = Some (take (l_ip s) inp) \<and> length (toks_enc us) = n \<and>
    take n out = toks_enc us"
proof -
  let ?e = "length (toks_enc ts)"
  note I = inv[unfolded lzf_inv_def]
  have idx: "int (l_op s) - int (l_lit s) - 1 = int ?e" "?e < length (l_out s)" using I by (auto split: if_splits)
  define out where "out = (l_out s)[?e := of_nat (l_lit s) - 1]"
  have st: "lzf_stop_run s = Some (s\<lparr>l_out := out\<rparr>)"
    unfolding lzf_stop_run_def idx(1) using idx(2) by (simp add: store_in out_def)
  show ?thesis
  proof (cases "l_lit s = 0")
    case True
    then have "take n out = toks_enc ts" "?e = n" using I n by (auto simp: out_def)
    then show ?thesis using st I True by (intro exI[of _ out] exI[of _ ts]) (simp add: out_def)
  next
    case False
    define bs where "bs = take (l_lit s) (drop (l_ip s - l_lit s) inp)"
    have "l_lit s \<le> length inp - (l_ip s - l_lit s)" using I by linarith
    then have bs: "length bs = l_lit s" by (simp add: bs_def)
    have ok: "tok_ok (Lit bs)" using bs False I by auto
    have "take (l_ip s - l_lit s) inp @ bs = take (l_ip s) inp"
      unfolding bs_def take_add[symmetric] using I by simp
    then have run: "toks_run (ts @ [Lit bs]) [] = Some (take (l_ip s) inp)"
      using I by (simp add: toks_run_append)
    have "out = take ?e (l_out s) @ (of_nat (l_lit s) - 1) # drop (?e + 1) (l_out s)"
      unfolding out_def using idx(2) by (simp add: upd_conv_take_nth_drop)
    then have "out = toks_enc ts @ (of_nat (l_lit s) - 1) # drop (?e + 1) (l_out s)" using I by simp
    moreover have "take (l_lit s) (drop (?e + 1) (l_out s)) = bs" using I by (simp add: bs_def)
    moreover have "toks_enc (ts @ [Lit bs]) = toks_enc ts @ (of_nat (l_lit s) - 1) # bs"
      unfolding of_nat_minus_one[of "l_lit s", OF False[THEN neq0_conv[THEN iffD1]]] by (simp add: toks_enc_append toks_enc_def bs)
    ultimately have "take (?e + 1 + l_lit s) out = toks_enc (ts @ [Lit bs])" by simp
    then show ?thesis using st I False n ok run bs
      by (intro exI[of _ out] exI[of _ "ts @ [Lit bs]"]) (auto simp: out_def toks_enc_append toks_enc_def)
  qed
qed

lemma closed_inv:
  assumes "\<forall>t\<in>set us. tok_ok t" "toks_run us [] = Some (take (l_ip s) inp)" "l_op s = length (toks_enc us) + 1" "l_lit s = 0"
    "take (length (toks_enc us)) (l_out s) = toks_enc us" "length (l_out s) = out_len + 1" "l_op s \<le> out_len + 1" "l_ip s \<le> length inp"
  shows "lzf_inv inp out_len s us"
  using assms by (simp add: lzf_inv_def)

lemma literal_inv:
  assumes inv: "lzf_inv inp out_len s ts" and lt: "l_ip s < length inp" "l_op s < out_len" "l_lit s < 32"
  shows "\<exists>s' us. lzf_literal inp s = Some s' \<and> lzf_inv inp out_len s' us \<and> l_lit s' < 32 \<and> l_ip s' = l_ip s + 1 \<and>
    l_op s' \<le> l_op s + 2 \<and> l_htab s' = l_htab s"
proof -
  note I = inv[unfolded lzf_inv_def]
  let ?e = "length (toks_enc ts)"
  define out1 where "out1 = (l_out s)[l_op s := inp ! l_ip s]"
  define s1 where "s1 = s\<lparr>l_ip := l_ip s + 1, l_op := l_op s + 1, l_lit := l_lit s + 1, l_out := out1\<rparr>"
  have op: "l_op s = ?e + 1 + l_lit s" "l_op s < length (l_out s)" using I lt by auto
  have "load inp (int (l_ip s)) = Some (inp ! l_ip s)" "store (l_out s) (int (l_op s)) (inp ! l_ip s) = Some out1"
    using load_in[OF lt(1)] store_in[OF op(2)] by (simp_all add: out1_def)
  then have eq: "lzf_literal inp s = (if l_lit s1 = 32 then do { s \<leftarrow> lzf_stop_run s1; Some (lzf_start_run s) } else Some s1)"
    unfolding lzf_literal_def by (simp add: s1_def Let_def)
  have "drop (?e + 1) out1 = (drop (?e + 1) (l_out s))[l_lit s := inp ! l_ip s]"
    unfolding out1_def op(1) by (simp add: drop_update_swap)
  then have "take (l_lit s + 1) (drop (?e + 1) out1) = take (l_lit s) (drop (?e + 1) (l_out s)) @ [inp ! l_ip s]"
    using op by (simp add: take_Suc_conv_app_nth)
  also have "\<dots> = take (l_lit s + 1) (drop (l_ip s - l_lit s) inp)"
    using I lt(1) by (simp add: take_Suc_conv_app_nth)
  finally have run: "take (l_lit s + 1) (drop (?e + 1) out1) = take (l_lit s + 1) (drop (l_ip s - l_lit s) inp)" .
  have inv1: "lzf_inv inp out_len s1 ts"
    using I lt run op unfolding lzf_inv_def by (simp add: s1_def) (simp add: out1_def)
  show ?thesis
  proof (cases "l_lit s1 = 32")
    case False
    then show ?thesis using eq inv1 lt by (intro exI[of _ s1] exI[of _ ts]) (simp add: s1_def)
  next
    case True
    then have nz: "l_lit s1 \<noteq> 0" by simp
    obtain out us where o: "lzf_stop_run s1 = Some (s1\<lparr>l_out := out\<rparr>)" "length out = length (l_out s1)"
      "\<forall>t\<in>set us. tok_ok t" "toks_run us [] = Some (take (l_ip s1) inp)" "length (toks_enc us) = l_op s1" "take (l_op s1) out = toks_enc us"
      using stop_run_spec[OF inv1 refl] nz by auto
    have "lzf_inv inp out_len (lzf_start_run (s1\<lparr>l_out := out\<rparr>)) us"
      by (rule closed_inv) (use o I lt in \<open>simp_all add: lzf_start_run_def s1_def out1_def\<close>)
    then show ?thesis using eq True o(1)
      by (intro exI[of _ "lzf_start_run (s1\<lparr>l_out := out\<rparr>)"] exI[of _ us]) (simp add: lzf_start_run_def s1_def)
  qed
qed

lemma emit_spec:
  assumes "l_op s + 3 \<le> length (l_out s)"
  shows "\<exists>out. lzf_emit_ref off l s = Some (s\<lparr>l_op := l_op s + length (tok_enc (Ref off l)), l_out := out\<rparr>) \<and>
    length out = length (l_out s) \<and> take (l_op s + length (tok_enc (Ref off l))) out = take (l_op s) (l_out s) @ tok_enc (Ref off l)"
proof -
  have up: "take (i + 1) (m[i := b]) = take i m @ [b]" if "i < length m" for i m and b :: byte
    using that by (simp add: take_Suc_conv_app_nth)
  show ?thesis
  proof (cases "l < 7")
    case True
    define o1 where "o1 = (l_out s)[l_op s := of_nat (off div 256 + l * 32)]"
    define o2 where "o2 = o1[l_op s + 1 := of_nat off]"
    have "store o1 (int (l_op s) + 1) (of_nat off) = Some o2"
      using store_in[of "l_op s + 1" o1 "of_nat off"] assms by (simp add: o2_def o1_def add.commute)
    then have "lzf_emit_ref off l s = Some (s\<lparr>l_op := l_op s + 2, l_out := o2\<rparr>)"
      using True assms by (simp add: lzf_emit_ref_def store_in o1_def add.commute)
    moreover have "take (l_op s + 2) o2 = take (l_op s) (l_out s) @ [of_nat (off div 256 + l * 32), of_nat off]"
      using up[of "l_op s + 1" o1 "of_nat off"] up[of "l_op s" "l_out s"] assms by (simp add: o2_def o1_def)
    moreover have "length o2 = length (l_out s)" by (simp add: o2_def o1_def)
    ultimately show ?thesis using True by (intro exI[of _ o2]) (simp del: of_nat_add of_nat_mult)
  next
    case False
    define o1 where "o1 = (l_out s)[l_op s := of_nat (off div 256 + 7 * 32)]"
    define o2 where "o2 = o1[l_op s + 1 := of_nat (l - 7)]"
    define o3 where "o3 = o2[l_op s + 2 := of_nat off]"
    have "store (l_out s) (int (l_op s)) (of_nat (off div 256 + 7 * 32)) = Some o1"
      "store o1 (int (l_op s) + 1) (of_nat (l - 7)) = Some o2" "store o2 (int (l_op s + 2)) (of_nat off) = Some o3"
      using store_in[of "l_op s" "l_out s"] store_in[of "l_op s + 1" o1 "of_nat (l - 7)"] store_in[of "l_op s + 2" o2 "of_nat off"] assms
      by (simp_all add: o3_def o2_def o1_def add.commute)
    then have "lzf_emit_ref off l s = Some (s\<lparr>l_op := l_op s + 3, l_out := o3\<rparr>)"
      using False unfolding lzf_emit_ref_def by (simp del: of_nat_add of_nat_mult of_nat_diff)
    moreover have "take (l_op s + 3) o3 = take (l_op s) (l_out s) @ [of_nat (off div 256 + 7 * 32), of_nat (l - 7), of_nat off]"
      using up[of "l_op s + 2" o2 "of_nat off"] up[of "l_op s + 1" o1 "of_nat (l - 7)"] up[of "l_op s" "l_out s" "of_nat (off div 256 + 7 * 32)"] assms
      by (simp add: o3_def o2_def o1_def numeral_3_eq_3)
    moreover have "length o3 = length (l_out s)" by (simp add: o3_def o2_def o1_def)
    ultimately show ?thesis using False
      by (intro exI[of _ o3]) (simp add: numeral_3_eq_3 del: of_nat_add of_nat_mult of_nat_diff)
  qed
qed

lemma pointer_difference:
  assumes "- (2 ^ 63) \<le> ref" "ref < 2 ^ 63" "int ip < 2 ^ 62" "(int ip - ref - 1) mod 2 ^ 64 < 8192"
  shows "0 \<le> int ip - ref - 1 \<and> (int ip - ref - 1) mod 2 ^ 64 = int ip - ref - 1"
proof (cases "0 \<le> int ip - ref - 1")
  case True
  then show ?thesis using assms by (intro conjI mod_pos_pos_trivial) simp_all
next
  case False
  have "(int ip - ref - 1) mod 2 ^ 64 = (int ip - ref - 1 + 2 ^ 64) mod 2 ^ 64" by (simp only: mod_add_self2)
  also have "\<dots> = int ip - ref - 1 + 2 ^ 64" by (rule mod_pos_pos_trivial) (use False assms in simp_all)
  finally show ?thesis using False assms by simp
qed

lemma is_match_spec:
  assumes "- (2 ^ 63) \<le> ref" "ref < 2 ^ 63" "int ip < 2 ^ 62"
  shows "\<exists>b. lzf_is_match inp ip ref = Some b \<and> (b \<longrightarrow> (\<exists>r off. ref = int r \<and> 0 < r \<and> r < ip \<and> off = ip - r - 1 \<and> off < 8192 \<and>
    (int ip - ref - 1) mod 2 ^ 64 = int off \<and> ip + 4 < length inp \<and> agree inp r ip 3))"
proof (cases "(int ip - ref - 1) mod 2 ^ 64 < 8192 \<and> ip + 4 < length inp \<and> ref > 0")
  case False
  then show ?thesis by (intro exI[of _ False]) (auto simp: lzf_is_match_def)
next
  case True
  define r where "r = nat ref"
  have r: "ref = int r" "0 < r" using True by (auto simp: r_def)
  note pd = pointer_difference[OF assms] True
  then have rip: "r < ip" and m: "(int ip - ref - 1) mod 2 ^ 64 = int (ip - r - 1)" and off: "ip - r - 1 < 8192"
    using r by auto
  have l: "load inp ref = Some (inp ! r)" "load inp (ref + 1) = Some (inp ! (r + 1))" "load inp (ref + 2) = Some (inp ! (r + 2))"
    "load inp (int ip) = Some (inp ! ip)" "load inp (int ip + 1) = Some (inp ! (ip + 1))" "load inp (int ip + 2) = Some (inp ! (ip + 2))"
    using True rip load_in[of r inp] load_in[of "r + 1" inp] load_in[of "r + 2" inp] load_in[of ip inp]
      load_in[of "ip + 1" inp] load_in[of "ip + 2" inp] r(1) by (simp_all add: add.commute)
  have "agree inp r ip 3 \<longleftrightarrow> inp ! r = inp ! ip \<and> inp ! (r + 1) = inp ! (ip + 1) \<and> inp ! (r + 2) = inp ! (ip + 2)"
    by (auto simp: agree_def numeral_3_eq_3 less_Suc_eq numeral_2_eq_2)
  moreover have "lzf_is_match inp ip ref = Some (inp ! r = inp ! ip \<and> inp ! (r + 1) = inp ! (ip + 1) \<and> inp ! (r + 2) = inp ! (ip + 2))"
    unfolding lzf_is_match_def using True l by (simp only: if_True Option.bind.bind_lunit split: if_split) auto
  ultimately show ?thesis using r rip m off True by auto
qed

lemma NEXT_spec: "p + 2 < length inp \<Longrightarrow> \<exists>h. NEXT v inp p = Some h"
  using load_in[of "p + 2" inp] by (simp add: NEXT_def add.commute)

lemma FRST_spec: "p + 1 < length inp \<Longrightarrow> \<exists>h. FRST inp p = Some h"
  using load_in[of p inp] load_in[of "p + 1" inp] by (simp add: FRST_def add.commute)

text \<open>Emitting a back reference keeps the invariant.\<close>

lemma emit_inv:
  assumes us: "\<forall>t\<in>set us. tok_ok t" "toks_run us [] = Some (take (l_ip s) inp)" "length (toks_enc us) = l_op s" "take (l_op s) (l_out s) = toks_enc us"
    and out: "length (l_out s) = out_len + 1" "l_op s + 4 < out_len"
    and n: "r < l_ip s" "off = l_ip s - r - 1" "off < 8192" "3 \<le> n" "n \<le> 264" "l_ip s + n \<le> length inp" "agree inp r (l_ip s) n"
  shows "\<exists>s1. lzf_emit_ref off (n - 2) s = Some s1 \<and> l_ip s1 = l_ip s \<and> l_htab s1 = l_htab s \<and> l_hval s1 = l_hval s \<and>
    lzf_inv inp out_len ((lzf_start_run s1)\<lparr>l_ip := l_ip s + n\<rparr>) (us @ [Ref off (n - 2)])"
proof -
  let ?t = "Ref off (n - 2)"
  obtain out where o: "lzf_emit_ref off (n - 2) s = Some (s\<lparr>l_op := l_op s + length (tok_enc ?t), l_out := out\<rparr>)"
    "length out = length (l_out s)" "take (l_op s + length (tok_enc ?t)) out = take (l_op s) (l_out s) @ tok_enc ?t"
    using emit_spec[of s off "n - 2"] out by auto
  have ok: "tok_ok ?t" using n by auto
  have run: "toks_run (us @ [?t]) [] = Some (take (l_ip s + n) inp)"
  proof -
    have "n - 2 + 2 = n" using n(4) by simp
    then have "tok_run ?t (take (l_ip s) inp) = Some (take (l_ip s + n) inp)"
      using n copy_back_agree[OF n(1,6,7)] by (simp only: tok_run.simps) simp
    then show ?thesis using us(2) by (simp only: toks_run_append toks_run.simps Option.bind.bind_lunit)
  qed
  have e: "toks_enc (us @ [?t]) = toks_enc us @ tok_enc ?t" by (simp add: toks_enc_append toks_enc_def)
  have le: "length (tok_enc ?t) \<le> 3" by simp
  have "lzf_inv inp out_len ((lzf_start_run (s\<lparr>l_op := l_op s + length (tok_enc ?t), l_out := out\<rparr>))\<lparr>l_ip := l_ip s + n\<rparr>) (us @ [?t])"
    by (rule closed_inv)
      (use us o out run ok n(6) le in \<open>simp_all add: lzf_start_run_def e del: tok_enc.simps\<close>)
  then show ?thesis using o(1) by auto
qed

lemma match_inv:
  assumes inv: "lzf_inv inp out_len s ts" and h: "htab_ok (l_htab s)" "length inp < 2 ^ 62"
    and m: "r < l_ip s" "off = l_ip s - r - 1" "off < 8192" "l_ip s + 4 < length inp" "agree inp r (l_ip s) 3"
  shows "\<exists>x. lzf_match inp out_len s r off = Some x \<and>
    (case x of Inl _ \<Rightarrow> True
     | Inr (s', b) \<Rightarrow> l_ip s < l_ip s' \<and> l_lit s' < 32 \<and> htab_ok (l_htab s') \<and> (\<exists>us. lzf_inv inp out_len s' us) \<and>
         (b \<longrightarrow> length inp \<le> l_ip s' + 2))"
proof -
  define n where "n = (if l_lit s = 0 then l_op s - 1 else l_op s)"
  obtain out us where o: "lzf_stop_run s = Some (s\<lparr>l_out := out\<rparr>)" "length out = length (l_out s)"
    "\<forall>t\<in>set us. tok_ok t" "toks_run us [] = Some (take (l_ip s) inp)" "length (toks_enc us) = n" "take n out = toks_enc us"
    using stop_run_spec[OF inv n_def] by blast
  define s1 where "s1 = (if l_lit s = 0 then s\<lparr>l_out := out, l_op := l_op s - 1\<rparr> else s\<lparr>l_out := out\<rparr>)"
  have s1: "l_ip s1 = l_ip s" "l_op s1 = n" "l_out s1 = out" "l_htab s1 = l_htab s" by (auto simp: s1_def n_def)
  show ?thesis
  proof (cases "n + 4 < out_len")
    case False
    then show ?thesis using o(1) s1(2) by (auto simp: lzf_match_def s1_def)
  next
    case True
    obtain k where k: "lzf_match_len inp r (l_ip s) = Some k" "3 \<le> k" "k \<le> 264" "l_ip s + k \<le> length inp" "agree inp r (l_ip s) k"
      using match_len_spec[OF m(1,4,5)] by blast
    have "\<exists>s2. lzf_emit_ref off (k - 2) s1 = Some s2 \<and> l_ip s2 = l_ip s1 \<and> l_htab s2 = l_htab s1 \<and> l_hval s2 = l_hval s1 \<and>
      lzf_inv inp out_len ((lzf_start_run s2)\<lparr>l_ip := l_ip s1 + k\<rparr>) (us @ [Ref off (k - 2)])"
      by (rule emit_inv) (use o s1 True m k inv in \<open>simp_all add: lzf_inv_def\<close>)
    then obtain s2 where s2: "lzf_emit_ref off (k - 2) s1 = Some s2" "l_ip s2 = l_ip s" "l_htab s2 = l_htab s"
      "lzf_inv inp out_len ((lzf_start_run s2)\<lparr>l_ip := l_ip s + k\<rparr>) (us @ [Ref off (k - 2)])" using s1 by auto
    define s3 where "s3 = (lzf_start_run s2)\<lparr>l_ip := l_ip s + k\<rparr>"
    have s3: "l_ip s3 = l_ip s + k" "l_lit s3 = 0" "l_htab s3 = l_htab s" using s2 by (simp_all add: s3_def lzf_start_run_def)
    have ar: "Suc (Suc (l_ip (lzf_start_run s2) + (k - 2))) = l_ip s + k" using s2(2) k(2) by (simp add: lzf_start_run_def)
    have eq: "lzf_match inp out_len s r off =
      (if l_ip s3 + 2 \<ge> length inp then Some (Inr (s3, True))
         else do {
           let ip = l_ip s3 - 2;
           hval \<leftarrow> FRST inp ip;
           hval \<leftarrow> NEXT hval inp ip;
           let htab = (l_htab s3)(IDX hval := int ip);
           hval \<leftarrow> NEXT hval inp (ip + 1);
           let htab = htab(IDX hval := int (ip + 1));
           Some (Inr (s3\<lparr>l_ip := ip + 2, l_htab := htab, l_hval := hval\<rparr>, False))
         })"
    proof (cases "l_lit s = 0")
      case z: True
      then have "s1 = s\<lparr>l_out := out, l_op := l_op s - 1\<rparr>" by (simp add: s1_def)
      then show ?thesis using z o(1) True k(1) s2(1) s1(2)
        by (simp add: lzf_match_def Let_def ar s3_def)
    next
      case z: False
      then have "s1 = s\<lparr>l_out := out\<rparr>" by (simp add: s1_def)
      then show ?thesis using z o(1) True k(1) s2(1) s1(2)
        by (simp add: lzf_match_def Let_def ar s3_def)
    qed
    note inv3 = s2(4)[folded s3_def]
    show ?thesis
    proof (cases "l_ip s3 + 2 \<ge> length inp")
      case True
      then show ?thesis using eq s3 k(2) h inv3 by auto
    next
      case lt: False
      have "l_ip s3 - 2 + 1 < length inp" "l_ip s3 - 2 + 2 < length inp" "l_ip s3 - 2 + 1 + 2 < length inp"
        using lt s3(1) k(2) by linarith+
      then obtain h1 h2 h3 where hv: "FRST inp (l_ip s3 - 2) = Some h1" "NEXT h1 inp (l_ip s3 - 2) = Some h2"
        "NEXT h2 inp (l_ip s3 - 2 + 1) = Some h3"
        using FRST_spec NEXT_spec by blast
      define ht where "ht = (l_htab s3)(IDX h2 := int (l_ip s3 - 2), IDX h3 := int (l_ip s3 - 2 + 1))"
      have ip: "l_ip s3 - 2 + 2 = l_ip s3" using s3(1) k(2) by simp
      have "lzf_match inp out_len s r off = Some (Inr (s3\<lparr>l_ip := l_ip s3, l_htab := ht, l_hval := h3\<rparr>, False))"
        unfolding eq using lt hv ip by (simp add: ht_def)
      moreover have "lzf_inv inp out_len (s3\<lparr>l_ip := l_ip s3, l_htab := ht, l_hval := h3\<rparr>) (us @ [Ref off (k - 2)])"
        using inv3 by (simp add: lzf_inv_def)
      moreover have "htab_ok ht" using h s3(3) lt by (auto simp: htab_ok_def ht_def)
      ultimately show ?thesis using s3 k(2) by auto
    qed
  qed
qed

lemma loop_spec:
  assumes "lzf_inv inp out_len s ts" "htab_ok (l_htab s)" "length inp < 2 ^ 62" "l_lit s < 32"
  shows "\<exists>r. lzf_loop inp out_len s = Some r \<and>
    (case r of None \<Rightarrow> True | Some s' \<Rightarrow> (\<exists>us. lzf_inv inp out_len s' us) \<and> l_lit s' < 32 \<and> length inp \<le> l_ip s' + 2)"
  using assms
proof (induction "length inp - l_ip s" arbitrary: s ts rule: less_induct)
  case less
  show ?case
  proof (cases "l_ip s + 2 < length inp")
    case False
    then show ?thesis using less.prems by (subst lzf_loop.simps) auto
  next
    case lt: True
    obtain hv where hv: "NEXT (l_hval s) inp (l_ip s) = Some hv" using NEXT_spec[OF lt] by blast
    define ref where "ref = l_htab s (IDX hv)"
    define s0 where "s0 = s\<lparr>l_htab := (l_htab s)(IDX hv := int (l_ip s)), l_hval := hv\<rparr>"
    have s0: "lzf_inv inp out_len s0 ts" "htab_ok (l_htab s0)" "l_ip s0 = l_ip s" "l_lit s0 < 32" "l_op s0 = l_op s"
      using less.prems lt by (auto simp: s0_def lzf_inv_def htab_ok_def)
    obtain b where b: "lzf_is_match inp (l_ip s) ref = Some b"
      "b \<longrightarrow> (\<exists>r off. ref = int r \<and> 0 < r \<and> r < l_ip s \<and> off = l_ip s - r - 1 \<and> off < 8192 \<and>
        (int (l_ip s) - ref - 1) mod 2 ^ 64 = int off \<and> l_ip s + 4 < length inp \<and> agree inp r (l_ip s) 3)"
      using is_match_spec[of ref "l_ip s" inp] less.prems(2,3) lt by (auto simp: htab_ok_def ref_def)
    have unf: "lzf_loop inp out_len s =
      (if b then do {
           r \<leftarrow> lzf_match inp out_len s0 (nat ref) (nat ((int (l_ip s0) - ref - 1) mod 2 ^ 64));
           (case r of Inl _ \<Rightarrow> Some None
            | Inr (s, stop) \<Rightarrow> if stop then Some (Some s) else lzf_loop inp out_len s)
         }
         else if l_op s0 \<ge> out_len then Some None
         else do { s \<leftarrow> lzf_literal inp s0; lzf_loop inp out_len s })"
      by (subst lzf_loop.simps) (use lt hv b(1) s0(3) in \<open>simp add: Let_def flip: ref_def s0_def\<close>)
    show ?thesis
    proof (cases b)
      case True
      then obtain r off where ro: "ref = int r" "r < l_ip s0" "off = l_ip s0 - r - 1" "off < 8192"
        "(int (l_ip s0) - ref - 1) mod 2 ^ 64 = int off" "l_ip s0 + 4 < length inp" "agree inp r (l_ip s0) 3"
        using b(2) s0(3) by auto
      obtain x where x: "lzf_match inp out_len s0 r off = Some x"
        "case x of Inl _ \<Rightarrow> True
         | Inr (s', b) \<Rightarrow> l_ip s0 < l_ip s' \<and> l_lit s' < 32 \<and> htab_ok (l_htab s') \<and> (\<exists>us. lzf_inv inp out_len s' us) \<and>
           (b \<longrightarrow> length inp \<le> l_ip s' + 2)"
        using match_inv[OF s0(1,2) less.prems(3) ro(2,3,4,6,7)] by blast
      have eq: "lzf_loop inp out_len s = (case x of Inl _ \<Rightarrow> Some None
            | Inr (s, stop) \<Rightarrow> if stop then Some (Some s) else lzf_loop inp out_len s)"
        unfolding unf ro(5) using True x(1) ro(1) by simp
      show ?thesis
      proof (cases x)
        case (Inr p)
        obtain s' stop where p: "p = (s', stop)" by fastforce
        show ?thesis
        proof (cases stop)
          case True
          then show ?thesis using eq Inr p x(2) by auto
        next
          case False
          obtain us where us: "lzf_inv inp out_len s' us" "l_ip s < l_ip s'" "l_lit s' < 32" "htab_ok (l_htab s')"
            using Inr p x(2) s0(3) by auto
          have "length inp - l_ip s' < length inp - l_ip s" using us(2) lt by linarith
          from less.hyps[OF this us(1,4) less.prems(3) us(3)] show ?thesis using eq Inr p False by simp
        qed
      qed (use eq in auto)
    next
      case nb: False
      show ?thesis
      proof (cases "l_op s0 \<ge> out_len")
        case True
        then show ?thesis unfolding unf using nb by simp
      next
        case False
        obtain s' us where us: "lzf_literal inp s0 = Some s'" "lzf_inv inp out_len s' us" "l_lit s' < 32"
          "l_ip s' = l_ip s + 1" "l_htab s' = l_htab s0"
          using literal_inv[OF s0(1)] lt False s0(3,4) by auto
        have "length inp - l_ip s' < length inp - l_ip s" using us(4) lt by linarith
        from less.hyps[OF this us(2) _ less.prems(3) us(3)] show ?thesis
          unfolding unf using nb False us(1,5) s0(2) by simp
      qed
    qed
  qed
qed

lemma tail_spec:
  assumes "lzf_inv inp out_len s ts" "l_lit s < 32" "length inp \<le> l_ip s + k" "l_op s + 2 * k \<le> out_len + 1"
  shows "\<exists>s' us. lzf_tail inp s = Some s' \<and> lzf_inv inp out_len s' us \<and> l_ip s' = length inp"
  using assms
proof (induction k arbitrary: s ts)
  case 0
  then have "l_ip s = length inp" by (simp add: lzf_inv_def)
  then show ?case using 0 by (subst lzf_tail.simps) auto
next
  case (Suc k)
  show ?case
  proof (cases "l_ip s < length inp")
    case False
    then have "l_ip s = length inp" using Suc.prems(1) by (simp add: lzf_inv_def)
    then show ?thesis using Suc.prems(1) by (subst lzf_tail.simps) auto
  next
    case True
    have "l_op s < out_len" using Suc.prems(4) by simp
    then obtain s' us where us: "lzf_literal inp s = Some s'" "lzf_inv inp out_len s' us" "l_lit s' < 32" "l_ip s' = l_ip s + 1"
      "l_op s' \<le> l_op s + 2"
      using literal_inv[OF Suc.prems(1) True _ Suc.prems(2)] by blast
    from Suc.IH[OF us(2,3)] Suc.prems us(4,5) obtain s2 us2 where
      "lzf_tail inp s' = Some s2" "lzf_inv inp out_len s2 us2" "l_ip s2 = length inp" by auto
    then show ?thesis using True us(1) by (subst lzf_tail.simps) auto
  qed
qed

lemma compress_spec:
  assumes "2 \<le> length inp" "length inp < 2 ^ 62" "htab_ok htab" "length out = out_len + 1"
  shows "\<exists>r. lzf_compress htab inp out out_len = Some r \<and>
    (case r of None \<Rightarrow> True
     | Some (n, out') \<Rightarrow> length out' = length out \<and> n \<le> out_len \<and>
         (\<exists>ts. (\<forall>t\<in>set ts. tok_ok t) \<and> toks_run ts [] = Some inp \<and> take n out' = toks_enc ts))"
proof (cases "out_len = 0")
  case True
  then show ?thesis by (simp add: lzf_compress_def)
next
  case False
  obtain hv where hv: "FRST inp 0 = Some hv" using FRST_spec[of 0 inp] assms(1) by auto
  define s0 where "s0 = \<lparr>l_ip = 0, l_op = 1, l_lit = 0, l_out = out, l_htab = htab, l_hval = hv\<rparr>"
  have "lzf_inv inp out_len s0 []" using assms(4) by (simp add: lzf_inv_def s0_def toks_enc_def)
  then obtain r where r: "lzf_loop inp out_len s0 = Some r"
    "case r of None \<Rightarrow> True | Some s' \<Rightarrow> (\<exists>us. lzf_inv inp out_len s' us) \<and> l_lit s' < 32 \<and> length inp \<le> l_ip s' + 2"
    using loop_spec[of inp out_len s0 "[]"] assms by (auto simp: s0_def)
  have eq: "lzf_compress htab inp out out_len = (case r of None \<Rightarrow> Some None
      | Some s \<Rightarrow> if l_op s + 3 > out_len then Some None
        else do { s \<leftarrow> lzf_tail inp s; s \<leftarrow> lzf_stop_run s;
                  Some (Some (if l_lit s = 0 then l_op s - 1 else l_op s, l_out s)) })"
    using hv r(1) False assms(1) by (auto simp: lzf_compress_def s0_def)
  show ?thesis
  proof (cases r)
    case None
    then show ?thesis using eq by simp
  next
    case (Some s)
    show ?thesis
    proof (cases "l_op s + 3 > out_len")
      case True
      then show ?thesis using eq Some by simp
    next
      case fits: False
      obtain ts0 where "lzf_inv inp out_len s ts0" "l_lit s < 32" "length inp \<le> l_ip s + 2" using r(2) Some by auto
      moreover have "l_op s + 2 * 2 \<le> out_len + 1" using fits by simp
      ultimately obtain s2 us where s2: "lzf_tail inp s = Some s2" "lzf_inv inp out_len s2 us" "l_ip s2 = length inp"
        using tail_spec by blast
      define n where "n = (if l_lit s2 = 0 then l_op s2 - 1 else l_op s2)"
      obtain out2 ts where o: "lzf_stop_run s2 = Some (s2\<lparr>l_out := out2\<rparr>)" "length out2 = length (l_out s2)"
        "\<forall>t\<in>set ts. tok_ok t" "toks_run ts [] = Some inp" "take n out2 = toks_enc ts"
        using stop_run_spec[OF s2(2) n_def] s2(3) by auto
      have "n \<le> out_len" "length (l_out s2) = out_len + 1" using s2(2) by (auto simp: lzf_inv_def n_def split: if_splits)
      then show ?thesis using eq Some fits s2(1) o assms(4) by (auto simp: n_def)
    qed
  qed
qed

lemma compress_decompress:
  assumes "2 \<le> length inp" "length inp < 2 ^ 62" "htab_ok htab" "length out = out_len + 1" "length buf = length inp"
  shows "\<exists>r. lzf_compress htab inp out out_len = Some r \<and>
    (case r of None \<Rightarrow> True
     | Some (n, out') \<Rightarrow> length out' = length out \<and> n \<le> out_len \<and> lzf_decompress (take n out') buf = Some (Some (length inp, inp)))"
proof -
  obtain r where r: "lzf_compress htab inp out out_len = Some r"
    "case r of None \<Rightarrow> True
     | Some (n, out') \<Rightarrow> length out' = length out \<and> n \<le> out_len \<and>
         (\<exists>ts. (\<forall>t\<in>set ts. tok_ok t) \<and> toks_run ts [] = Some inp \<and> take n out' = toks_enc ts)"
    using compress_spec[OF assms(1-4)] by blast
  have "lzf_decompress (take n out') buf = Some (Some (length inp, inp))"
    if "\<forall>t\<in>set ts. tok_ok t" "toks_run ts [] = Some inp" "take n out' = toks_enc ts" for n out' ts
  proof -
    have "ts \<noteq> []" using that(2) assms(1) by (cases ts) auto
    moreover have "drop 0 (take n out') = toks_enc ts" "toks_run ts (take 0 buf) = Some inp" using that(2,3) by simp_all
    ultimately have "lzf_decompress_loop (take n out') 0 0 buf = Some (Some (length buf, inp))"
      using that(1) assms(5) by (intro decompress_tokens) simp_all
    then show ?thesis using assms(5) by (simp only: lzf_decompress_def)
  qed
  then show ?thesis using r by (auto split: option.splits)
qed

section \<open>Properties\<close>

text \<open>C17. Compression is lossless and memory safe: whatever the uninitialised hash table holds, compressing
  any input of at least two bytes into a buffer with one byte to spare returns, stays in bounds, and
  either gives up or yields at most \<open>out_len\<close> bytes that decompress, in a buffer of the original size,
  to exactly the input.\<close>

theorem lzf_roundtrip:
  assumes "2 \<le> length inp" "length inp < 2 ^ 62" "htab_ok htab" "length out = out_len + 1" "length buf = length inp"
  shows "\<exists>r. lzf_compress htab inp out out_len = Some r \<and>
    (case r of None \<Rightarrow> True
     | Some (n, out') \<Rightarrow> n \<le> out_len \<and> lzf_decompress (take n out') buf = Some (Some (length inp, inp)))"
  using compress_decompress[OF assms] by (force split: option.splits)

theorem lzf_roundtrip_witness:
  "\<exists>r. lzf_compress (\<lambda>_. 0) (replicate 40 97) (replicate 37 0) 36 = Some r \<and>
    (case r of None \<Rightarrow> True
     | Some (n, out') \<Rightarrow> n \<le> 36 \<and> lzf_decompress (take n out') (replicate 40 0) = Some (Some (length (replicate 40 (97 :: byte)), replicate 40 97)))"
  using lzf_roundtrip[of "replicate 40 97" "\<lambda>_. 0" "replicate 37 0" 36 "replicate 40 0"] by (simp add: htab_ok_def)

text \<open>C29. Decompression is memory safe on arbitrary, possibly malicious input: for every non-empty input and
  every output buffer \<open>lzf_decompress\<close> returns, without reading outside the input or touching anything
  outside the buffer.\<close>

theorem lzf_decompress_safe:
  assumes "inp \<noteq> []"
  shows "\<exists>r. lzf_decompress inp out = Some r"
  using decompress_loop_safe[of 0 inp 0 out] assms by (simp add: lzf_decompress_def)

theorem lzf_decompress_safe_witness: "\<exists>r. lzf_decompress [255, 255, 255] [0, 0] = Some r"
  by (rule lzf_decompress_safe) simp

end
