(* ===== verification/Redis_Sds.thy ===== *)
theory Redis_Sds
  imports Redis_Util
begin

unbundle bit_operations_syntax

text \<open>
  \<open>sds.c\<close>: the dynamic strings.

  An \<open>sdshdr\<close> has the header fields \<open>len\<close> and \<open>free\<close> (32-bit, so every assignment to them is reduced
  modulo \<open>2\<^sup>3\<^sup>2\<close>) and the buffer; memory accesses go through the checked primitives of the prelude and a
  failed \<open>assert\<close> is \<open>None\<close>, too.  \<open>junk\<close> is what \<open>zrealloc\<close> leaves in new space.  \<open>sds_ok\<close> is the
  representation invariant (buffer of \<open>len + free + 1\<close> bytes, terminator at \<open>len\<close>) and \<open>sds_text\<close> the
  string it stands for.

  C strings are lists of bytes with an implicit terminator; \<open>chr p i\<close> is \<open>p[i]\<close>.
\<close>

section \<open>The code\<close>

record sdshdr =
  s_len :: nat
  s_free :: nat
  s_buf :: bytes

definition chr :: "bytes \<Rightarrow> nat \<Rightarrow> byte" where
  "chr p i = (if i < length p then p ! i else 0)"

definition strlen :: "bytes \<Rightarrow> nat" where
  "strlen p = length (takeWhile (\<lambda>c. c \<noteq> 0) p)"

definition sdslen :: "sdshdr \<Rightarrow> nat" where
  "sdslen s = s_len s"

definition sdsavail :: "sdshdr \<Rightarrow> nat" where
  "sdsavail s = s_free s"

text \<open>\<open>sdsnewlen\<close>: \<open>None\<close> stands for the null pointer, which gives a string of zero bytes.\<close>

definition sdsnewlen :: "(nat \<Rightarrow> byte) \<Rightarrow> bytes option \<Rightarrow> nat \<Rightarrow> sdshdr option" where
  "sdsnewlen junk init initlen = do {
     let buf = (case init of Some _ \<Rightarrow> map junk [0..<initlen + 1] | None \<Rightarrow> replicate (initlen + 1) 0);
     buf \<leftarrow> (case init of
               Some bs \<Rightarrow> if initlen \<noteq> 0 then do { bs \<leftarrow> mem_read bs 0 initlen; mem_write buf 0 bs } else Some buf
             | None \<Rightarrow> Some buf);
     buf \<leftarrow> store buf (int initlen) 0;
     Some \<lparr>s_len = initlen mod 2 ^ 32, s_free = 0, s_buf = buf\<rparr>
   }"

definition sdsempty :: "(nat \<Rightarrow> byte) \<Rightarrow> sdshdr option" where
  "sdsempty junk = sdsnewlen junk (Some []) 0"

definition sdsdup :: "(nat \<Rightarrow> byte) \<Rightarrow> sdshdr \<Rightarrow> sdshdr option" where
  "sdsdup junk s = sdsnewlen junk (Some (s_buf s)) (sdslen s)"

definition sdsupdatelen :: "sdshdr \<Rightarrow> sdshdr" where
  "sdsupdatelen s = (
     let reallen = strlen (s_buf s)
     in s\<lparr>s_len := reallen mod 2 ^ 32,
          s_free := nat ((int (s_free s) + (int (s_len s) - int reallen)) mod 2 ^ 32)\<rparr>)"

definition sdsclear :: "sdshdr \<Rightarrow> sdshdr option" where
  "sdsclear s = do {
     buf \<leftarrow> store (s_buf s) 0 0;
     Some (s\<lparr>s_len := 0, s_free := (s_free s + s_len s) mod 2 ^ 32, s_buf := buf\<rparr>)
   }"

definition sdsMakeRoomFor :: "(nat \<Rightarrow> byte) \<Rightarrow> sdshdr \<Rightarrow> nat \<Rightarrow> sdshdr" where
  "sdsMakeRoomFor junk s addlen =
     (if sdsavail s \<ge> addlen then s
      else let len = sdslen s;
               newlen = len + addlen;
               newlen = (if newlen < 1024 * 1024 then newlen * 2 else newlen + 1024 * 1024)
           in s\<lparr>s_free := (newlen - len) mod 2 ^ 32, s_buf := mem_realloc junk (newlen + 1) (s_buf s)\<rparr>)"

definition sdsRemoveFreeSpace :: "(nat \<Rightarrow> byte) \<Rightarrow> sdshdr \<Rightarrow> sdshdr" where
  "sdsRemoveFreeSpace junk s = s\<lparr>s_free := 0, s_buf := mem_realloc junk (s_len s + 1) (s_buf s)\<rparr>"

definition sdsAllocSize :: "sdshdr \<Rightarrow> nat" where
  "sdsAllocSize s = 8 + s_len s + s_free s + 1"

definition sdsIncrLen :: "sdshdr \<Rightarrow> int \<Rightarrow> sdshdr option" where
  "sdsIncrLen s incr =
     (if (if incr \<ge> 0 then int (s_free s) \<ge> incr else int (s_len s) \<ge> - incr)
      then do {
        let newlen = nat ((int (s_len s) + incr) mod 2 ^ 32);
        buf \<leftarrow> store (s_buf s) (int newlen) 0;
        Some (s\<lparr>s_len := newlen, s_free := nat ((int (s_free s) - incr) mod 2 ^ 32), s_buf := buf\<rparr>)
      } else None)"

definition sdsgrowzero :: "(nat \<Rightarrow> byte) \<Rightarrow> sdshdr \<Rightarrow> nat \<Rightarrow> sdshdr option" where
  "sdsgrowzero junk s len =
     (let curlen = s_len s
      in if len \<le> curlen then Some s
         else do {
           let s = sdsMakeRoomFor junk s (len - curlen);
           buf \<leftarrow> mem_write (s_buf s) curlen (replicate (len - curlen + 1) 0);
           let totlen = s_len s + s_free s;
           Some (s\<lparr>s_len := len mod 2 ^ 32, s_free := nat ((int totlen - int len) mod 2 ^ 32), s_buf := buf\<rparr>)
         })"

definition sdscatlen :: "(nat \<Rightarrow> byte) \<Rightarrow> sdshdr \<Rightarrow> bytes \<Rightarrow> sdshdr option" where
  "sdscatlen junk s t = do {
     let curlen = sdslen s;
     let s = sdsMakeRoomFor junk s (length t);
     buf \<leftarrow> mem_write (s_buf s) curlen t;
     buf \<leftarrow> store buf (int (curlen + length t)) 0;
     Some (s\<lparr>s_len := (curlen + length t) mod 2 ^ 32,
             s_free := nat ((int (s_free s) - int (length t)) mod 2 ^ 32), s_buf := buf\<rparr>)
   }"

definition sdscatsds :: "(nat \<Rightarrow> byte) \<Rightarrow> sdshdr \<Rightarrow> sdshdr \<Rightarrow> sdshdr option" where
  "sdscatsds junk s t = do { bs \<leftarrow> mem_read (s_buf t) 0 (sdslen t); sdscatlen junk s bs }"

definition sdscpylen :: "(nat \<Rightarrow> byte) \<Rightarrow> sdshdr \<Rightarrow> bytes \<Rightarrow> sdshdr option" where
  "sdscpylen junk s t = (
     let s = (if s_free s + s_len s < length t then sdsMakeRoomFor junk s (length t - s_len s) else s);
         totlen = s_free s + s_len s
     in do {
       buf \<leftarrow> mem_write (s_buf s) 0 t;
       buf \<leftarrow> store buf (int (length t)) 0;
       Some (s\<lparr>s_len := length t mod 2 ^ 32, s_free := nat ((int totlen - int (length t)) mod 2 ^ 32), s_buf := buf\<rparr>)
     })"

text \<open>\<open>sdsll2str\<close>: the digits come out least significant first and are reversed in place.\<close>

function ll_digits :: "64 word \<Rightarrow> bytes" where
  "ll_digits v = (48 + ucast (v mod 10)) # (if v div 10 = 0 then [] else ll_digits (v div 10))"
  by pat_completeness auto
termination
proof (relation "measure unat")
  fix v :: "64 word" assume "v div 10 \<noteq> 0"
  then have "0 < unat v" by (metis div_0 neq0_conv unat_0_iff)
  then show "(v div 10, v) \<in> measure unat" by (simp add: unat_div)
qed simp

declare ll_digits.simps [simp del]

definition sdsll2str :: "64 word \<Rightarrow> bytes" where
  "sdsll2str val = (
     let v = (if sint val < 0 then - val else val);
         s = ll_digits v @ (if sint val < 0 then [45] else [])
     in rev s)"

definition sdsfromlonglong :: "(nat \<Rightarrow> byte) \<Rightarrow> 64 word \<Rightarrow> sdshdr option" where
  "sdsfromlonglong junk val = sdsnewlen junk (Some (sdsll2str val)) (length (sdsll2str val))"

definition strchr :: "bytes \<Rightarrow> byte \<Rightarrow> bool" where
  "strchr cset c \<longleftrightarrow> c = 0 \<or> c \<in> set (takeWhile (\<lambda>x. x \<noteq> 0) cset)"

text \<open>\<open>sdstrim\<close>: \<open>sp\<close> and \<open>ep\<close> are offsets, \<open>ep\<close> starting at \<open>-1\<close> for the empty string.\<close>

function trim_left :: "bytes \<Rightarrow> bytes \<Rightarrow> int \<Rightarrow> int \<Rightarrow> int" where
  "trim_left buf cset sp e =
     (if sp \<le> e \<and> strchr cset (buf ! nat sp) then trim_left buf cset (sp + 1) e else sp)"
  by pat_completeness auto
termination by (relation "measure (\<lambda>(buf, cset, sp, e). nat (e + 1 - sp))") auto

function trim_right :: "bytes \<Rightarrow> bytes \<Rightarrow> int \<Rightarrow> int" where
  "trim_right buf cset ep = (if ep > 0 \<and> strchr cset (buf ! nat ep) then trim_right buf cset (ep - 1) else ep)"
  by pat_completeness auto
termination by (relation "measure (\<lambda>(buf, cset, ep). nat ep)") auto

declare trim_left.simps [simp del] trim_right.simps [simp del]

definition sdstrim :: "sdshdr \<Rightarrow> bytes \<Rightarrow> sdshdr option" where
  "sdstrim s cset = do {
     let e = int (sdslen s) - 1;
     let sp = trim_left (s_buf s) cset 0 e;
     let ep = trim_right (s_buf s) cset e;
     let len = (if sp > ep then 0 else nat (ep - sp + 1));
     buf \<leftarrow> (if sp \<noteq> 0 then mem_move (s_buf s) 0 (nat sp) len else Some (s_buf s));
     buf \<leftarrow> store buf (int len) 0;
     Some (s\<lparr>s_len := len, s_free := (s_free s + (s_len s - len)) mod 2 ^ 32, s_buf := buf\<rparr>)
   }"

definition sdsrange :: "sdshdr \<Rightarrow> int \<Rightarrow> int \<Rightarrow> sdshdr option" where
  "sdsrange s start e = (
     let len = sdslen s
     in if len = 0 then Some s
        else
          let start = (if start < 0 then let start = int len + start in if start < 0 then 0 else start else start);
              e = (if e < 0 then let e = int len + e in if e < 0 then 0 else e else e);
              newlen = (if start > e then 0 else nat (e - start + 1));
              (start, newlen) =
                (if newlen \<noteq> 0 then
                   (if start \<ge> int len then (start, 0)
                    else if e \<ge> int len
                    then let e = int len - 1 in (start, if start > e then 0 else nat (e - start + 1))
                    else (start, newlen))
                 else (0, newlen))
          in do {
            buf \<leftarrow> (if start \<noteq> 0 \<and> newlen \<noteq> 0 then mem_move (s_buf s) 0 (nat start) newlen else Some (s_buf s));
            buf \<leftarrow> store buf (int newlen) 0;
            Some (s\<lparr>s_len := newlen, s_free := nat ((int (s_free s) + (int (s_len s) - int newlen)) mod 2 ^ 32), s_buf := buf\<rparr>)
          })"

text \<open>\<open>memcmp\<close> as the first difference of unsigned bytes.\<close>

fun memcmp :: "bytes \<Rightarrow> bytes \<Rightarrow> int" where
  "memcmp (a # as) (b # bs) = (if a = b then memcmp as bs else int (unat a) - int (unat b))"
| "memcmp _ _ = 0"

definition sdscmp :: "sdshdr \<Rightarrow> sdshdr \<Rightarrow> int" where
  "sdscmp s1 s2 = (
     let l1 = sdslen s1; l2 = sdslen s2;
         minlen = (if l1 < l2 then l1 else l2);
         cmp = memcmp (take minlen (s_buf s1)) (take minlen (s_buf s2))
     in if cmp = 0 then int l1 - int l2 else cmp)"

text \<open>\<open>sdssplitlen\<close>: the loop keeps the offset of the current element and of the scan.\<close>

function split_loop :: "bytes \<Rightarrow> bytes \<Rightarrow> nat \<Rightarrow> nat \<Rightarrow> bytes list \<Rightarrow> bytes list" where
  "split_loop s sep start j tokens =
     (if sep \<noteq> [] \<and> j + (length sep - 1) < length s then
        (if take (length sep) (drop j s) = sep
         then split_loop s sep (j + length sep) (j + length sep) (tokens @ [take (j - start) (drop start s)])
         else split_loop s sep start (j + 1) tokens)
      else tokens @ [drop start s])"
  by pat_completeness auto
termination
  by (relation "measure (\<lambda>(s, sep, start, j, tokens). length s - j)") (auto simp: length_greater_0_conv[symmetric] simp del: length_greater_0_conv)

declare split_loop.simps [simp del]

definition sdssplitlen :: "bytes \<Rightarrow> bytes \<Rightarrow> bytes list option" where
  "sdssplitlen s sep =
     (if length sep < 1 then None else if length s = 0 then Some [] else Some (split_loop s sep 0 0 []))"

definition isprint :: "byte \<Rightarrow> bool" where
  "isprint c \<longleftrightarrow> 32 \<le> c \<and> c \<le> 126"

definition isspace :: "byte \<Rightarrow> bool" where
  "isspace c \<longleftrightarrow> c = 32 \<or> (9 \<le> c \<and> c \<le> 13)"

definition hex_char :: "nat \<Rightarrow> byte" where
  "hex_char d = (if d < 10 then 48 + of_nat d else 87 + of_nat d)"

text \<open>What one turn of the loop of \<open>sdscatrepr\<close> appends.\<close>

definition repr_byte :: "byte \<Rightarrow> bytes" where
  "repr_byte c =
     (if c = 92 \<or> c = 34 then [92, c]
      else if c = 10 then [92, 110]
      else if c = 13 then [92, 114]
      else if c = 9 then [92, 116]
      else if c = 7 then [92, 97]
      else if c = 8 then [92, 98]
      else if isprint c then [c]
      else [92, 120, hex_char (unat c div 16), hex_char (unat c mod 16)])"

fun sdscatrepr_loop :: "(nat \<Rightarrow> byte) \<Rightarrow> sdshdr \<Rightarrow> bytes \<Rightarrow> sdshdr option" where
  "sdscatrepr_loop junk s [] = Some s"
| "sdscatrepr_loop junk s (c # p) = do { s \<leftarrow> sdscatlen junk s (repr_byte c); sdscatrepr_loop junk s p }"

definition sdscatrepr :: "(nat \<Rightarrow> byte) \<Rightarrow> sdshdr \<Rightarrow> bytes \<Rightarrow> sdshdr option" where
  "sdscatrepr junk s p = do {
     s \<leftarrow> sdscatlen junk s [34];
     s \<leftarrow> sdscatrepr_loop junk s p;
     sdscatlen junk s [34]
   }"

definition is_hex_digit :: "byte \<Rightarrow> bool" where
  "is_hex_digit c \<longleftrightarrow> (48 \<le> c \<and> c \<le> 57) \<or> (97 \<le> c \<and> c \<le> 102) \<or> (65 \<le> c \<and> c \<le> 70)"

definition hex_digit_to_int :: "byte \<Rightarrow> nat" where
  "hex_digit_to_int c =
     (if 48 \<le> c \<and> c \<le> 57 then unat c - 48
      else if 97 \<le> c \<and> c \<le> 102 then unat c - 87
      else if 65 \<le> c \<and> c \<le> 70 then unat c - 55
      else 0)"

definition unescape :: "byte \<Rightarrow> byte" where
  "unescape c =
     (if c = 110 then 10 else if c = 114 then 13 else if c = 116 then 9 else if c = 98 then 8
      else if c = 97 then 7 else c)"

text \<open>The inner loop of \<open>sdssplitargs\<close>: the quoting state, the rest of the line, the current token; the result
  is the token and the rest of the line, or \<open>None\<close> for the jump to \<open>err\<close>.\<close>

datatype quoting = Unquoted | Inq | Insq

function split_token :: "quoting \<Rightarrow> bytes \<Rightarrow> bytes \<Rightarrow> (bytes \<times> bytes) option" where
  "split_token Inq p current =
     (if chr p 0 = 92 \<and> chr p 1 = 120 \<and> is_hex_digit (chr p 2) \<and> is_hex_digit (chr p 3)
      then split_token Inq (drop 4 p)
             (current @ [of_nat (hex_digit_to_int (chr p 2) * 16 + hex_digit_to_int (chr p 3))])
      else if chr p 0 = 92 \<and> chr p 1 \<noteq> 0 then split_token Inq (drop 2 p) (current @ [unescape (chr p 1)])
      else if chr p 0 = 34 then
        (if chr p 1 \<noteq> 0 \<and> \<not> isspace (chr p 1) then None else Some (current, drop 1 p))
      else if chr p 0 = 0 then None
      else split_token Inq (drop 1 p) (current @ [chr p 0]))"
| "split_token Insq p current =
     (if chr p 0 = 92 \<and> chr p 1 = 39 then split_token Insq (drop 2 p) (current @ [39])
      else if chr p 0 = 39 then
        (if chr p 1 \<noteq> 0 \<and> \<not> isspace (chr p 1) then None else Some (current, drop 1 p))
      else if chr p 0 = 0 then None
      else split_token Insq (drop 1 p) (current @ [chr p 0]))"
| "split_token Unquoted p current =
     (if chr p 0 = 0 then Some (current, p)
      else if chr p 0 = 32 \<or> chr p 0 = 10 \<or> chr p 0 = 13 \<or> chr p 0 = 9 then Some (current, drop 1 p)
      else if chr p 0 = 34 then split_token Inq (drop 1 p) current
      else if chr p 0 = 39 then split_token Insq (drop 1 p) current
      else split_token Unquoted (drop 1 p) (current @ [chr p 0]))"
  by pat_completeness auto
termination
  by (relation "measure (\<lambda>(q, p, current). length p)") (auto simp: chr_def split: if_splits)

declare split_token.simps [simp del]

fun skip_blanks :: "bytes \<Rightarrow> bytes" where
  "skip_blanks [] = []"
| "skip_blanks (c # p) = (if c \<noteq> 0 \<and> isspace c then skip_blanks p else c # p)"

partial_function (option) splitargs_loop :: "bytes \<Rightarrow> bytes list \<Rightarrow> bytes list option option" where
  "splitargs_loop p argv =
     (let p = skip_blanks p
      in if chr p 0 \<noteq> 0 then
           (case split_token Unquoted p [] of
              None \<Rightarrow> Some None
            | Some (current, p) \<Rightarrow> splitargs_loop p (argv @ [current]))
         else Some (Some argv))"

declare splitargs_loop.simps [code]

definition sdssplitargs :: "bytes \<Rightarrow> bytes list option option" where
  "sdssplitargs line = splitargs_loop line []"

definition sdsmapchars :: "sdshdr \<Rightarrow> bytes \<Rightarrow> bytes \<Rightarrow> sdshdr" where
  "sdsmapchars s from_set to_set = s\<lparr>s_buf :=
     map (\<lambda>c. case map_of (zip from_set to_set) c of None \<Rightarrow> c | Some d \<Rightarrow> d) (take (sdslen s) (s_buf s)) @
     drop (sdslen s) (s_buf s)\<rparr>"

fun sdsjoin :: "bytes list \<Rightarrow> bytes \<Rightarrow> bytes" where
  "sdsjoin [] sep = []"
| "sdsjoin [a] sep = a"
| "sdsjoin (a # b # argv) sep = a @ sep @ sdsjoin (b # argv) sep"

section \<open>Invariant and abstraction\<close>

definition sds_ok :: "sdshdr \<Rightarrow> bool" where
  "sds_ok s \<longleftrightarrow> length (s_buf s) = s_len s + s_free s + 1 \<and> s_len s + s_free s < 2 ^ 32 \<and> s_buf s ! s_len s = 0"

definition sds_text :: "sdshdr \<Rightarrow> bytes" where
  "sds_text s = take (s_len s) (s_buf s)"

definition sds_repr :: "bytes \<Rightarrow> bytes" where
  "sds_repr p = [34] @ concat (map repr_byte p) @ [34]"

text \<open>The inclusive slice \<open>[start, e]\<close> of a string, negative indices counting from its end.\<close>

definition slice_index :: "nat \<Rightarrow> int \<Rightarrow> int" where
  "slice_index n i = (if i < 0 then max 0 (int n + i) else i)"

definition text_slice :: "bytes \<Rightarrow> int \<Rightarrow> int \<Rightarrow> bytes" where
  "text_slice t start e = (
     let a = slice_index (length t) start; b = slice_index (length t) e
     in if a > b then [] else take (nat (b - a + 1)) (drop (nat a) t))"

section \<open>Growing and overwriting\<close>

lemma sds_okD:
  assumes "sds_ok s"
  shows "length (s_buf s) = s_len s + s_free s + 1" "s_len s + s_free s < 2 ^ 32" "length (sds_text s) = s_len s"
  using assms by (simp_all add: sds_ok_def sds_text_def)

lemma sds_okI:
  assumes "take n buf = t" "length t = n" "buf ! n = 0" "length buf = n + f + 1" "n + f < 2 ^ 32"
  shows "sds_ok (s\<lparr>s_len := n, s_free := f, s_buf := buf\<rparr>) \<and> sds_text (s\<lparr>s_len := n, s_free := f, s_buf := buf\<rparr>) = t"
  using assms by (simp add: sds_ok_def sds_text_def)

lemma make_room:
  assumes "sds_ok s" "s_len s + addlen < 2 ^ 32 - 2 ^ 20"
  shows "sds_ok (sdsMakeRoomFor junk s addlen) \<and> sds_text (sdsMakeRoomFor junk s addlen) = sds_text s \<and>
    s_len (sdsMakeRoomFor junk s addlen) = s_len s \<and> addlen \<le> s_free (sdsMakeRoomFor junk s addlen)"
proof (cases "sdsavail s \<ge> addlen")
  case True
  then show ?thesis using assms(1) by (simp add: sdsMakeRoomFor_def sdsavail_def)
next
  case False
  define n where "n = (if s_len s + addlen < 1024 * 1024 then (s_len s + addlen) * 2 else s_len s + addlen + 1024 * 1024)"
  have n: "s_len s + addlen \<le> n" "n < 2 ^ 32" using assms(2) by (auto simp: n_def)
  define buf where "buf = mem_realloc junk (n + 1) (s_buf s)"
  have eq: "sdsMakeRoomFor junk s addlen = s\<lparr>s_free := n - s_len s, s_buf := buf\<rparr>"
    using False n(2) by (simp add: sdsMakeRoomFor_def sdslen_def sdsavail_def n_def buf_def Let_def)
  have grow: "length (s_buf s) \<le> n + 1" using sds_okD(1)[OF assms(1)] False n(1) by (simp add: sdsavail_def)
  have "buf = s_buf s @ map junk [length (s_buf s)..<n + 1]" unfolding buf_def by (rule mem_realloc_grow[OF grow])
  then show ?thesis unfolding eq using assms(1) n grow by (simp add: sds_ok_def sds_text_def nth_append)
qed

lemma catlen_ok:
  assumes "sds_ok s" "s_len s + length t < 2 ^ 32 - 2 ^ 20"
  shows "\<exists>s'. sdscatlen junk s t = Some s' \<and> sds_ok s' \<and> sds_text s' = sds_text s @ t"
proof -
  define r where "r = sdsMakeRoomFor junk s (length t)"
  have r: "sds_ok r" "sds_text r = sds_text s" "s_len r = s_len s" "length t \<le> s_free r"
    using make_room[OF assms] by (auto simp: r_def)
  note len = sds_okD[OF r(1)]
  define b where "b = take (s_len s) (s_buf r) @ t @ drop (s_len s + length t) (s_buf r)"
  define b' where "b' = b[s_len s + length t := 0]"
  have w: "mem_write (s_buf r) (s_len s) t = Some b" using len r(3,4) by (simp add: mem_write_def b_def)
  have lb: "length b = s_len s + s_free r + 1" using len r(3,4) by (simp add: b_def)
  have st: "store b (int (s_len s + length t)) 0 = Some b'" unfolding b'_def by (rule store_in) (use lb r(4) in simp)
  have free: "(int (s_free r) - int (length t)) mod 2 ^ 32 = int (s_free r - length t)"
    using r(4) len(2) by (simp add: of_nat_diff)
  define s' where "s' = r\<lparr>s_len := s_len s + length t, s_free := s_free r - length t, s_buf := b'\<rparr>"
  have "sdscatlen junk s t = Some s'"
    using w st free assms(2) unfolding sdscatlen_def s'_def r_def sdslen_def by (simp add: Let_def)
  moreover have "sds_ok s' \<and> sds_text s' = sds_text s @ t"
    unfolding s'_def by (rule sds_okI) (use r len lb assms(2) in \<open>simp_all add: b'_def b_def sds_text_def\<close>)
  ultimately show ?thesis by blast
qed

lemma keep_window:
  assumes "sds_ok s" "n = 0 \<or> a + n \<le> s_len s"
  shows "\<exists>s'. do {
      buf \<leftarrow> (if int a \<noteq> 0 \<and> n \<noteq> 0 then mem_move (s_buf s) 0 a n else Some (s_buf s));
      buf \<leftarrow> store buf (int n) 0;
      Some (s\<lparr>s_len := n, s_free := nat ((int (s_free s) + (int (s_len s) - int n)) mod 2 ^ 32), s_buf := buf\<rparr>)
    } = Some s' \<and> sds_ok s' \<and> sds_text s' = take n (drop a (sds_text s))"
proof -
  note len = sds_okD[OF assms(1)]
  have n: "n \<le> s_len s" using assms(2) by auto
  define b where "b = take n (drop a (s_buf s)) @ drop n (s_buf s)"
  have mv: "(if int a \<noteq> 0 \<and> n \<noteq> 0 then mem_move (s_buf s) 0 a n else Some (s_buf s)) = Some b"
    using assms(2) len(1) by (auto simp: mem_move_def mem_read_def mem_write_def b_def)
  have lb: "length b = s_len s + s_free s + 1" using assms(2) len(1) by (auto simp: b_def)
  have free: "nat ((int (s_free s) + (int (s_len s) - int n)) mod 2 ^ 32) = s_free s + (s_len s - n)"
    using n len(2) by simp
  have st: "store b (int n) 0 = Some (b[n := 0])" by (rule store_in) (use lb n in simp)
  have "sds_ok (s\<lparr>s_len := n, s_free := s_free s + (s_len s - n), s_buf := b[n := 0]\<rparr>) \<and>
    sds_text (s\<lparr>s_len := n, s_free := s_free s + (s_len s - n), s_buf := b[n := 0]\<rparr>) = take n (drop a (sds_text s))"
  proof (rule sds_okI)
    show "take n (b[n := 0]) = take n (drop a (sds_text s))"
      using assms(2) len(1) by (auto simp: b_def sds_text_def drop_take)
    show "length (take n (drop a (sds_text s))) = n" using assms(2) len(3) by auto
  qed (use lb n len(2) in auto)
  then show ?thesis unfolding mv Option.bind.bind_lunit st free by blast
qed

lemma range_ok:
  assumes "sds_ok s"
  shows "\<exists>s'. sdsrange s start e = Some s' \<and> sds_ok s' \<and> sds_text s' = text_slice (sds_text s) start e"
proof (cases "s_len s = 0")
  case True
  then show ?thesis using assms by (simp add: sdsrange_def sdslen_def sds_text_def text_slice_def Let_def)
next
  case False
  define a b where "a = slice_index (s_len s) start" and "b = slice_index (s_len s) e"
  have ab: "0 \<le> a" "0 \<le> b" by (auto simp: a_def b_def slice_index_def)
  define n where "n = (if a > b \<or> a \<ge> int (s_len s) then 0 else if b \<ge> int (s_len s) then s_len s - nat a else nat (b - a + 1))"
  define st where "st = (if a > b then 0 else nat a)"
  have win: "n = 0 \<or> st + n \<le> s_len s" using ab by (auto simp: n_def st_def)
  have "sdsrange s start e = do {
      buf \<leftarrow> (if int st \<noteq> 0 \<and> n \<noteq> 0 then mem_move (s_buf s) 0 st n else Some (s_buf s));
      buf \<leftarrow> store buf (int n) 0;
      Some (s\<lparr>s_len := n, s_free := nat ((int (s_free s) + (int (s_len s) - int n)) mod 2 ^ 32), s_buf := buf\<rparr>)
    }"
  proof -
    have "(if start < 0 then let start = int (s_len s) + start in if start < 0 then 0 else start else start) = a"
      "(if e < 0 then let e = int (s_len s) + e in if e < 0 then 0 else e else e) = b"
      by (auto simp: a_def b_def slice_index_def Let_def)
    moreover have "(if (if a > b then 0 else nat (b - a + 1)) \<noteq> 0 then
        (if a \<ge> int (s_len s) then (a, 0)
         else if b \<ge> int (s_len s) then let e = int (s_len s) - 1 in (a, if a > e then 0 else nat (e - a + 1))
         else (a, if a > b then 0 else nat (b - a + 1)))
       else (0, if a > b then 0 else nat (b - a + 1))) = (int st, n)"
      using ab by (auto simp: n_def st_def Let_def)
    ultimately show ?thesis using False unfolding sdsrange_def sdslen_def by (simp add: Let_def)
  qed
  moreover have "take n (drop st (sds_text s)) = text_slice (sds_text s) start e"
    using ab sds_okD(3)[OF assms] by (auto simp: text_slice_def n_def st_def Let_def simp flip: a_def b_def)
  ultimately show ?thesis using keep_window[OF assms win] by simp
qed

section \<open>Quoting\<close>

lemma hex_round: "d < 16 \<Longrightarrow> is_hex_digit (hex_char d) \<and> hex_digit_to_int (hex_char d) = d"
proof -
  assume "d < 16"
  then have "d \<in> set [0..<16]" by simp
  then show ?thesis
    by (simp add: upt_conv_Cons) (elim disjE; simp add: hex_char_def is_hex_digit_def hex_digit_to_int_def)
qed

lemma chr_Cons [simp]: "chr (c # p) 0 = c" "chr (c # p) (Suc i) = chr p i" "chr [] i = 0"
  by (simp_all add: chr_def)

lemma chr_hex: "chr (a # b # c # d # q) 1 = b" "chr (a # b # c # d # q) 2 = c" "chr (a # b # c # d # q) 3 = d"
  and drop_hex: "drop 4 (a # b # c # d # q) = q"
  by (simp_all add: chr_def numeral_2_eq_2 numeral_3_eq_3 eval_nat_numeral)

lemma split_repr_byte: "split_token Inq (repr_byte c @ q) cur = split_token Inq q (cur @ [c])"
proof -
  consider "c = 92" | "c = 34" | "c = 10" | "c = 13" | "c = 9" | "c = 7" | "c = 8"
    | "c \<noteq> 92" "c \<noteq> 34" "c \<noteq> 10" "c \<noteq> 13" "c \<noteq> 9" "c \<noteq> 7" "c \<noteq> 8" "isprint c"
    | "c \<noteq> 92" "c \<noteq> 34" "c \<noteq> 10" "c \<noteq> 13" "c \<noteq> 9" "c \<noteq> 7" "c \<noteq> 8" "\<not> isprint c" by blast
  then show ?thesis
  proof cases
    case 8
    then have "c \<noteq> 0" by (auto simp: isprint_def)
    then show ?thesis using 8 by (subst split_token.simps) (simp add: repr_byte_def)
  next
    case 9
    define h l where "h = hex_char (unat c div 16)" and "l = hex_char (unat c mod 16)"
    have "unat c < 256" using unsigned_less[of c] by simp
    then have hl: "hex_digit_to_int h * 16 + hex_digit_to_int l = unat c" "is_hex_digit h" "is_hex_digit l"
      using hex_round[of "unat c div 16"] hex_round[of "unat c mod 16"] by (simp_all add: div_less_iff_less_mult h_def l_def)
    have "repr_byte c = [92, 120, h, l]" using 9 by (simp add: repr_byte_def h_def l_def)
    moreover have "split_token Inq (92 # 120 # h # l # q) cur = split_token Inq q (cur @ [of_nat (unat c)])"
      by (subst split_token.simps) (simp only: chr_hex chr_Cons hl drop_hex simp_thms if_True)
    ultimately show ?thesis by simp
  qed (subst split_token.simps; simp add: repr_byte_def unescape_def)+
qed

lemma split_repr: "split_token Inq (concat (map repr_byte p) @ q) cur = split_token Inq q (cur @ p)"
  by (induction p arbitrary: cur) (simp_all add: split_repr_byte)

lemma split_quoted:
  assumes "q = [] \<or> hd q = 32"
  shows "split_token Unquoted (sds_repr p @ q) [] = Some (p, q)"
proof -
  have "split_token Unquoted (sds_repr p @ q) [] = split_token Inq (concat (map repr_byte p) @ 34 # q) []"
    unfolding sds_repr_def by (subst split_token.simps) simp
  also have "\<dots> = split_token Inq (34 # q) p" by (simp add: split_repr)
  also have "\<dots> = Some (p, q)"
    using assms by (subst split_token.simps) (cases q; simp add: isspace_def)
  finally show ?thesis .
qed

text \<open>A line of quoted arguments separated by single spaces.\<close>

lemma splitargs_quoted:
  "splitargs_loop (concat (map (\<lambda>p. 32 # sds_repr p) ps)) argv = Some (Some (argv @ ps))"
proof (induction ps arbitrary: argv)
  case Nil
  then show ?case by (subst splitargs_loop.simps) simp
next
  case (Cons p ps)
  let ?q = "concat (map (\<lambda>p. 32 # sds_repr p) ps)"
  have "?q = [] \<or> hd ?q = 32" by (cases ps) auto
  note sq = split_quoted[OF this, of p]
  have sk: "skip_blanks (32 # sds_repr p @ ?q) = sds_repr p @ ?q" by (simp add: isspace_def sds_repr_def)
  have "chr (sds_repr p @ ?q) 0 \<noteq> 0" by (simp add: sds_repr_def)
  then show ?case using sk sq Cons.IH[of "argv @ [p]"] by (subst splitargs_loop.simps) simp
qed

lemma chr_nonzero: "chr p i \<noteq> 0 \<Longrightarrow> i < length p"
  by (simp add: chr_def split: if_splits)

lemma split_token_shrinks:
  "split_token m p cur = Some (t, q) \<Longrightarrow> length q \<le> length p \<and> (chr p 0 \<noteq> 0 \<longrightarrow> length q < length p)"
proof (induction m p cur rule: split_token.induct)
  case (1 p cur)
  show ?case
  proof (cases "chr p 0 = 0")
    case True
    then show ?thesis using "1.prems" by (simp add: split_token.simps(1)[of p])
  next
    case False
    then have "0 < length p" by (rule chr_nonzero)
    then have less: "length p - n < length p" if "0 < n" for n using that by simp
    show ?thesis using False "1.prems" "1.IH" less[of 1] less[of 2] less[of 4]
      by (simp add: split_token.simps(1)[of p]) (auto split: if_splits dest: le_less_trans)
  qed
next
  case (2 p cur)
  show ?case
  proof (cases "chr p 0 = 0")
    case True
    then show ?thesis using "2.prems" by (simp add: split_token.simps(2)[of p])
  next
    case False
    then have "0 < length p" by (rule chr_nonzero)
    then have less: "length p - n < length p" if "0 < n" for n using that by simp
    show ?thesis using False "2.prems" "2.IH" less[of 1] less[of 2] less[of 4]
      by (simp add: split_token.simps(2)[of p]) (auto split: if_splits dest: le_less_trans)
  qed
next
  case (3 p cur)
  show ?case
  proof (cases "chr p 0 = 0")
    case True
    then show ?thesis using "3.prems" by (simp add: split_token.simps(3)[of p])
  next
    case False
    then have "0 < length p" by (rule chr_nonzero)
    then have less: "length p - n < length p" if "0 < n" for n using that by simp
    show ?thesis using False "3.prems" "3.IH" less[of 1] less[of 2] less[of 4]
      by (simp add: split_token.simps(3)[of p]) (auto split: if_splits dest: le_less_trans)
  qed
qed

lemma splitargs_total: "\<exists>r. splitargs_loop p argv = Some r"
proof (induction "length p" arbitrary: p argv rule: less_induct)
  case less
  have sk: "length (skip_blanks p) \<le> length p" by (induction p) auto
  show ?case
  proof (cases "chr (skip_blanks p) 0 \<noteq> 0")
    case True
    show ?thesis
    proof (cases "split_token Unquoted (skip_blanks p) []")
      case None
      then show ?thesis using True by (subst splitargs_loop.simps) simp
    next
      case (Some tq)
      obtain t q where tq: "tq = (t, q)" by fastforce
      then have "length q < length p" using split_token_shrinks[of Unquoted "skip_blanks p" "[]" t q] Some True sk by simp
      from less[OF this, of "argv @ [t]"] show ?thesis using True Some tq by (subst splitargs_loop.simps) simp
    qed
  next
    case False
    then show ?thesis by (subst splitargs_loop.simps) simp
  qed
qed

lemma length_repr_byte: "length (repr_byte c) \<le> 4"
  by (simp add: repr_byte_def)

lemma catrepr_loop_ok:
  assumes "sds_ok s" "s_len s + 4 * length p < 2 ^ 32 - 2 ^ 20"
  shows "\<exists>s'. sdscatrepr_loop junk s p = Some s' \<and> sds_ok s' \<and> sds_text s' = sds_text s @ concat (map repr_byte p)"
  using assms
proof (induction p arbitrary: s)
  case (Cons c p)
  obtain s1 where s1: "sdscatlen junk s (repr_byte c) = Some s1" "sds_ok s1" "sds_text s1 = sds_text s @ repr_byte c"
    using catlen_ok[OF Cons.prems(1), of "repr_byte c" junk] Cons.prems(2) length_repr_byte[of c] by auto
  have "s_len s1 = s_len s + length (repr_byte c)"
    using arg_cong[OF s1(3), of length] sds_okD(3)[OF s1(2)] sds_okD(3)[OF Cons.prems(1)] by simp
  then show ?case using Cons.IH[OF s1(2)] Cons.prems(2) length_repr_byte[of c] s1 by auto
qed simp

lemma catrepr_ok:
  assumes "sds_ok s" "s_len s + 4 * length p + 2 < 2 ^ 32 - 2 ^ 20"
  shows "\<exists>s'. sdscatrepr junk s p = Some s' \<and> sds_ok s' \<and> sds_text s' = sds_text s @ sds_repr p"
proof -
  obtain s1 where s1: "sdscatlen junk s [34] = Some s1" "sds_ok s1" "sds_text s1 = sds_text s @ [34]"
    using catlen_ok[OF assms(1), of "[34]" junk] assms(2) by auto
  have l1: "s_len s1 = s_len s + 1"
    using arg_cong[OF s1(3), of length] sds_okD(3)[OF s1(2)] sds_okD(3)[OF assms(1)] by simp
  obtain s2 where s2: "sdscatrepr_loop junk s1 p = Some s2" "sds_ok s2" "sds_text s2 = sds_text s1 @ concat (map repr_byte p)"
    using catrepr_loop_ok[OF s1(2), of p junk] l1 assms(2) by auto
  have "length (concat (map repr_byte p)) \<le> 4 * length p"
    by (induction p) (auto simp: length_repr_byte add_mono)
  then have "s_len s2 + 1 < 2 ^ 32 - 2 ^ 20"
    using arg_cong[OF s2(3), of length] sds_okD(3)[OF s1(2)] sds_okD(3)[OF s2(2)] l1 assms(2) by simp
  then obtain s3 where "sdscatlen junk s2 [34] = Some s3" "sds_ok s3" "sds_text s3 = sds_text s2 @ [34]"
    using catlen_ok[OF s2(2), of "[34]" junk] by auto
  then show ?thesis using s1 s2 by (simp add: sdscatrepr_def sds_repr_def)
qed

section \<open>Splitting and joining\<close>

lemma join_snoc: "ts \<noteq> [] \<Longrightarrow> sdsjoin (ts @ [t]) sep = sdsjoin ts sep @ sep @ t"
  by (induction ts sep rule: sdsjoin.induct) auto

lemma split_loop_join:
  assumes "start \<le> j" "start \<le> length s" "toks = [] \<longleftrightarrow> start = 0" "toks \<noteq> [] \<Longrightarrow> sdsjoin toks sep @ sep = take start s"
  shows "sdsjoin (split_loop s sep start j toks) sep = s"
  using assms
proof (induction s sep start j toks rule: split_loop.induct)
  case (1 s sep start j toks)
  note IH = "1.IH" and p = "1.prems"
  have pre: "sdsjoin (toks @ [t]) sep = take start s @ t" for t
    using p(3,4) by (cases "toks = []") (simp_all add: join_snoc flip: append_assoc)
  consider (stop) "\<not> (sep \<noteq> [] \<and> j + (length sep - 1) < length s)"
    | (found) "sep \<noteq> []" "j + (length sep - 1) < length s" "take (length sep) (drop j s) = sep"
    | (skip) "sep \<noteq> []" "j + (length sep - 1) < length s" "take (length sep) (drop j s) \<noteq> sep" by blast
  then show ?case
  proof cases
    case stop
    then have "split_loop s sep start j toks = toks @ [drop start s]" by (subst split_loop.simps) auto
    then show ?thesis using pre by simp
  next
    case found
    let ?t = "take (j - start) (drop start s)"
    have l: "j + length sep \<le> length s" using found(1,2) by (cases sep) auto
    have "take start s @ ?t = take j s" using p(1) by (metis le_add_diff_inverse take_add)
    then have "sdsjoin (toks @ [?t]) sep @ sep = take (j + length sep) s" using pre[of ?t] found(3) by (simp add: take_add)
    then have "sdsjoin (split_loop s sep (j + length sep) (j + length sep) (toks @ [?t])) sep = s"
      using IH(1) found l by auto
    then show ?thesis using found by (subst split_loop.simps) simp
  next
    case skip
    then show ?thesis using IH(2) p by (subst split_loop.simps) simp
  qed
qed

section \<open>Decimal text\<close>

lemma ll_digits_repr: "rev (ll_digits v) = dec_repr (unat v)"
proof (induction v rule: ll_digits.induct)
  case (1 v)
  have d: "unat (v div 10) = unat v div 10" by (simp add: unat_div)
  have m: "(48 + ucast (v mod 10) :: byte) = 48 + of_nat (unat v mod 10)"
    unfolding unat_mod[of v 10, simplified, symmetric] of_nat_unat ..
  show ?case
  proof (cases "v div 10 = 0")
    case True
    then have "unat v < 10" using d by (simp add: unat_eq_0 div_eq_0_iff)
    then show ?thesis using True m by (subst ll_digits.simps) (simp add: dec_repr.simps[of "unat v"])
  next
    case False
    then have "\<not> unat v < 10" using d by (auto simp: unat_eq_0[symmetric])
    then show ?thesis using False m d "1.IH"[OF False] by (subst ll_digits.simps) (simp add: dec_repr.simps[of "unat v"])
  qed
qed

lemma sdsll2str_repr: "sdsll2str v = int_repr (sint v)"
proof -
  have "unat (if sint v < 0 then - v else v) = nat \<bar>sint v\<bar>"
    using ll_magnitude[of v] by (simp add: ll_magnitude_def)
  then show ?thesis unfolding int_repr_split by (simp add: sdsll2str_def Let_def ll_digits_repr)
qed

section \<open>Properties\<close>

text \<open>C27. Appending: for a well-formed string, \<open>sdscatlen\<close> stores within the buffer it made room for, leaves
  a well-formed null-terminated string, and the string is the old one followed by the new bytes, as
  long as the 32-bit header can describe the grown buffer.\<close>

theorem sdscatlen_correct:
  assumes "sds_ok s" "s_len s + length t < 2 ^ 32 - 2 ^ 20"
  shows "\<exists>s'. sdscatlen junk s t = Some s' \<and> sds_ok s' \<and> sds_text s' = sds_text s @ t"
  using assms by (rule catlen_ok)

theorem sdscatlen_correct_witness:
  "\<exists>s'. sdscatlen (\<lambda>_. 255) \<lparr>s_len = 2, s_free = 1, s_buf = [97, 98, 0, 7]\<rparr> [99, 100] = Some s' \<and> sds_text s' = [97, 98, 99, 100]"
  using sdscatlen_correct[of "\<lparr>s_len = 2, s_free = 1, s_buf = [97, 98, 0, 7]\<rparr>" "[99, 100]" "\<lambda>_. 255"]
  by (auto simp: sds_ok_def sds_text_def)

text \<open>\<open>sdsrange\<close> keeps exactly the inclusive slice its two indices describe, with negative and
  out-of-range indices clamped, in place and without touching memory outside the buffer.\<close>

lemma sdsrange_correct:
  assumes "sds_ok s"
  shows "\<exists>s'. sdsrange s start e = Some s' \<and> sds_ok s' \<and> sds_text s' = text_slice (sds_text s) start e"
  using assms by (rule range_ok)

text \<open>C28. Quoting round trip: \<open>sdscatrepr\<close> appends the quoted form of an arbitrary binary string, and
  \<open>sdssplitargs\<close> splits a line of such quoted arguments back into exactly those strings.\<close>

theorem sdssplitargs_sdscatrepr:
  assumes "sds_ok s" "s_len s + 4 * length p + 2 < 2 ^ 32 - 2 ^ 20"
  shows "(\<exists>s'. sdscatrepr junk s p = Some s' \<and> sds_ok s' \<and> sds_text s' = sds_text s @ sds_repr p) \<and>
    sdssplitargs (concat (map (\<lambda>p. 32 # sds_repr p) ps)) = Some (Some ps)"
  using catrepr_ok[OF assms] splitargs_quoted[of ps "[]"] by (simp add: sdssplitargs_def)

theorem sdssplitargs_sdscatrepr_witness:
  "sdssplitargs (concat (map (\<lambda>p. 32 # sds_repr p) [[0, 34, 92], [], [255]])) = Some (Some [[0, 34, 92], [], [255]])"
  using sdssplitargs_sdscatrepr[of "\<lparr>s_len = 0, s_free = 0, s_buf = [0]\<rparr>" "[]" "\<lambda>_. 0" "[[0, 34, 92], [], [255]]"]
  by (simp add: sds_ok_def)

text \<open>\<open>sdssplitargs\<close> returns on every line, with the arguments or with an error; \<open>sdssplitlen\<close> cuts a
  string at a separator into elements that, joined with \<open>sdsjoin\<close>, give the string back.\<close>

lemma sdssplit_total:
  "(\<exists>r. sdssplitargs line = Some r) \<and>
   (case sdssplitlen s sep of None \<Rightarrow> sep = [] | Some tokens \<Rightarrow> sdsjoin tokens sep = s)"
  using splitargs_total[of line "[]"] split_loop_join[of 0 0 s "[]" sep] by (simp add: sdssplitargs_def sdssplitlen_def)

end
