(* ===== verification/Redis_Rio.thy ===== *)
theory Redis_Rio
  imports Redis_Util Redis_Checksum
begin

text \<open>
  \<open>rio.h\<close> and \<open>rio.c\<close>: the stream abstraction under the RDB and AOF code.

  A stream is its backend state with the checksum, byte count and chunk size of the \<open>rio\<close> struct; the
  function pointers of the struct are a record of backend operations (\<open>read\<close> yields the bytes or
  \<open>None\<close> for the return value 0, \<open>write\<close> whether it succeeded).  \<open>rioWrite\<close> and \<open>rioRead\<close> are the
  loops over chunks.  The in-memory backend is modelled; the file and socket backends call the operating
  system and enter only as further instances of the record.
\<close>

section \<open>The code\<close>

record 'io rio_ops =
  io_read :: "'io \<Rightarrow> nat \<Rightarrow> 'io \<times> bytes option"
  io_write :: "'io \<Rightarrow> bytes \<Rightarrow> 'io \<times> bool"

record 'io rio =
  r_io :: 'io
  r_update_cksum :: bool
  r_cksum :: "64 word"
  r_processed :: nat
  r_chunk :: nat

definition rioGenericUpdateChecksum :: "'io rio \<Rightarrow> bytes \<Rightarrow> 'io rio" where
  "rioGenericUpdateChecksum r buf = r\<lparr>r_cksum := crc64 (r_cksum r) buf\<rparr>"

function rioWrite :: "'io rio_ops \<Rightarrow> 'io rio \<Rightarrow> bytes \<Rightarrow> 'io rio \<times> bool" where
  "rioWrite ops r buf =
     (if buf = [] then (r, True)
      else let n = (if r_chunk r \<noteq> 0 \<and> r_chunk r < length buf then r_chunk r else length buf);
               r = (if r_update_cksum r then rioGenericUpdateChecksum r (take n buf) else r);
               (io, ok) = io_write ops (r_io r) (take n buf)
           in if \<not> ok then (r\<lparr>r_io := io\<rparr>, False)
              else rioWrite ops (r\<lparr>r_io := io, r_processed := r_processed r + n\<rparr>) (drop n buf))"
  by pat_completeness auto
termination by (relation "measure (\<lambda>(ops, r, buf). length buf)") auto

function rioRead :: "'io rio_ops \<Rightarrow> 'io rio \<Rightarrow> nat \<Rightarrow> 'io rio \<times> bytes option" where
  "rioRead ops r len =
     (if len = 0 then (r, Some [])
      else let n = (if r_chunk r \<noteq> 0 \<and> r_chunk r < len then r_chunk r else len)
           in case io_read ops (r_io r) n of
                (io, None) \<Rightarrow> (r\<lparr>r_io := io\<rparr>, None)
              | (io, Some bs) \<Rightarrow>
                  let r = r\<lparr>r_io := io\<rparr>;
                      r = (if r_update_cksum r then rioGenericUpdateChecksum r bs else r);
                      (r, rest) = rioRead ops (r\<lparr>r_processed := r_processed r + n\<rparr>) (len - n)
                  in (r, map_option (\<lambda>rest. bs @ rest) rest))"
  by pat_completeness auto
termination by (relation "measure (\<lambda>(ops, r, len). len)") auto

declare rioWrite.simps [simp del] rioRead.simps [simp del]

record rio_buffer =
  b_ptr :: bytes
  b_pos :: nat

definition rioBufferWrite :: "rio_buffer \<Rightarrow> bytes \<Rightarrow> rio_buffer \<times> bool" where
  "rioBufferWrite b buf = (b\<lparr>b_ptr := b_ptr b @ buf, b_pos := b_pos b + length buf\<rparr>, True)"

definition rioBufferRead :: "rio_buffer \<Rightarrow> nat \<Rightarrow> rio_buffer \<times> bytes option" where
  "rioBufferRead b len =
     (if length (b_ptr b) - b_pos b < len then (b, None)
      else (b\<lparr>b_pos := b_pos b + len\<rparr>, Some (take len (drop (b_pos b) (b_ptr b)))))"

definition rioBufferIO :: "rio_buffer rio_ops" where
  "rioBufferIO = \<lparr>io_read = rioBufferRead, io_write = rioBufferWrite\<rparr>"

definition rioInitWithBuffer :: "bytes \<Rightarrow> rio_buffer rio" where
  "rioInitWithBuffer s = \<lparr>r_io = \<lparr>b_ptr = s, b_pos = 0\<rparr>, r_update_cksum = False, r_cksum = 0, r_processed = 0, r_chunk = 0\<rparr>"

text \<open>The protocol writers: the return value is the number of bytes written, 0 on error.\<close>

definition rioWriteBulkCount :: "(nat \<Rightarrow> byte) \<Rightarrow> 'io rio_ops \<Rightarrow> 'io rio \<Rightarrow> byte \<Rightarrow> 64 word \<Rightarrow> ('io rio \<times> nat) option" where
  "rioWriteBulkCount junk ops r prefix count = do {
     (l, cbuf) \<leftarrow> ll2string (map junk [0..<127]) 127 count;
     let buf = prefix # take l cbuf @ [13, 10];
     let (r, ok) = rioWrite ops r buf;
     Some (r, if ok then length buf else 0)
   }"

definition rioWriteBulkString :: "(nat \<Rightarrow> byte) \<Rightarrow> 'io rio_ops \<Rightarrow> 'io rio \<Rightarrow> bytes \<Rightarrow> ('io rio \<times> nat) option" where
  "rioWriteBulkString junk ops r buf = do {
     (r, nwritten) \<leftarrow> rioWriteBulkCount junk ops r 36 (of_nat (length buf));
     (if nwritten = 0 then Some (r, 0)
      else let (r, ok) = (if length buf > 0 then rioWrite ops r buf else (r, True))
           in if \<not> ok then Some (r, 0)
              else let (r, ok) = rioWrite ops r [13, 10]
                   in if \<not> ok then Some (r, 0) else Some (r, nwritten + length buf + 2))
   }"

definition rioWriteBulkLongLong :: "(nat \<Rightarrow> byte) \<Rightarrow> 'io rio_ops \<Rightarrow> 'io rio \<Rightarrow> 64 word \<Rightarrow> ('io rio \<times> nat) option" where
  "rioWriteBulkLongLong junk ops r l = do {
     (llen, lbuf) \<leftarrow> ll2string (map junk [0..<32]) 32 l;
     rioWriteBulkString junk ops r (take llen lbuf)
   }"

section \<open>The in-memory backend\<close>

text \<open>What a stream becomes when \<open>bs\<close> has been appended, or the next \<open>bs\<close> of it consumed.\<close>

definition appended :: "rio_buffer rio \<Rightarrow> bytes \<Rightarrow> rio_buffer rio" where
  "appended r bs = r\<lparr>r_cksum := (if r_update_cksum r then crc64 (r_cksum r) bs else r_cksum r),
     r_io := (r_io r)\<lparr>b_ptr := b_ptr (r_io r) @ bs, b_pos := b_pos (r_io r) + length bs\<rparr>,
     r_processed := r_processed r + length bs\<rparr>"

definition consumed :: "rio_buffer rio \<Rightarrow> bytes \<Rightarrow> rio_buffer rio" where
  "consumed r bs = r\<lparr>r_io := (r_io r)\<lparr>b_pos := b_pos (r_io r) + length bs\<rparr>,
     r_cksum := (if r_update_cksum r then crc64 (r_cksum r) bs else r_cksum r),
     r_processed := r_processed r + length bs\<rparr>"

definition pending :: "rio_buffer rio \<Rightarrow> bytes" where
  "pending r = drop (b_pos (r_io r)) (b_ptr (r_io r))"

lemma crc64_append: "crc64 (crc64 s a) b = crc64 s (a @ b)"
  by (simp add: crc64_def)

lemma crc64_Nil [simp]: "crc64 s [] = s"
  by (simp add: crc64_def)

lemma appended_Nil [simp]: "appended r [] = r"
  by (simp add: appended_def)

lemma appended_append: "appended (appended r a) b = appended r (a @ b)"
  by (simp add: appended_def crc64_append add.assoc)

lemma consumed_Nil [simp]: "consumed r [] = r"
  by (simp add: consumed_def)

lemma consumed_append: "consumed (consumed r a) b = consumed r (a @ b)"
  by (simp add: consumed_def crc64_append add.assoc)

lemma pending_consumed: "pending r = bs @ rest \<Longrightarrow> pending (consumed r bs) = rest"
proof -
  assume "pending r = bs @ rest"
  then have "drop (length bs) (pending r) = rest" by simp
  then show ?thesis by (simp add: pending_def consumed_def add.commute)
qed

lemma chunk_fields [simp]: "r_chunk (appended r bs) = r_chunk r" "r_chunk (consumed r bs) = r_chunk r"
  by (simp_all add: appended_def consumed_def)

lemma rioWrite_buffer: "rioWrite rioBufferIO r buf = (appended r buf, True)"
proof (induction "length buf" arbitrary: r buf rule: less_induct)
  case less
  show ?case
  proof (cases "buf = []")
    case True
    then show ?thesis by (subst rioWrite.simps) simp
  next
    case False
    define n where "n = (if r_chunk r \<noteq> 0 \<and> r_chunk r < length buf then r_chunk r else length buf)"
    have n: "0 < n" "n \<le> length buf" using False by (auto simp: n_def)
    then have "rioWrite rioBufferIO r buf = rioWrite rioBufferIO (appended r (take n buf)) (drop n buf)"
      by (subst rioWrite.simps, unfold n_def[symmetric] Let_def)
        (use False in \<open>simp add: rioBufferIO_def rioBufferWrite_def rioGenericUpdateChecksum_def appended_def\<close>)
    also have "\<dots> = (appended (appended r (take n buf)) (drop n buf), True)"
      by (rule less) (use n in simp)
    finally show ?thesis by (simp add: appended_append)
  qed
qed

lemma rioRead_buffer:
  assumes "pending r = bs @ rest"
  shows "rioRead rioBufferIO r (length bs) = (consumed r bs, Some bs)"
  using assms
proof (induction "length bs" arbitrary: r bs rule: less_induct)
  case less
  show ?case
  proof (cases "bs = []")
    case True
    then show ?thesis by (subst rioRead.simps) simp
  next
    case False
    define n where "n = (if r_chunk r \<noteq> 0 \<and> r_chunk r < length bs then r_chunk r else length bs)"
    have n: "0 < n" "n \<le> length bs" using False by (auto simp: n_def)
    have "length (pending r) = length bs + length rest" "take n (pending r) = take n bs"
      using less.prems n by simp_all
    then have "take n (pending r) = take n bs" "\<not> length (b_ptr (r_io r)) - b_pos (r_io r) < n"
      using n unfolding pending_def by simp_all
    then have rd: "rioBufferRead (r_io r) n = ((r_io r)\<lparr>b_pos := b_pos (r_io r) + n\<rparr>, Some (take n bs))"
      by (simp add: rioBufferRead_def pending_def)
    have "pending (consumed r (take n bs)) = drop n bs @ rest"
      by (rule pending_consumed) (use less.prems in simp)
    then have rec: "rioRead rioBufferIO (consumed r (take n bs)) (length bs - n) =
        (consumed (consumed r (take n bs)) (drop n bs), Some (drop n bs))"
      using less.hyps[of "drop n bs" "consumed r (take n bs)"] n by simp
    have "rioRead rioBufferIO r (length bs) =
      (let (r, rest) = rioRead rioBufferIO (consumed r (take n bs)) (length bs - n) in (r, map_option (\<lambda>rest. take n bs @ rest) rest))"
      by (subst rioRead.simps, unfold n_def[symmetric] Let_def)
        (use False rd n in \<open>simp add: rioBufferIO_def rioGenericUpdateChecksum_def consumed_def\<close>)
    then show ?thesis unfolding rec by (simp add: consumed_append)
  qed
qed

lemma bulk_count_buffer:
  "rioWriteBulkCount junk rioBufferIO r c n = Some (appended r ([c] @ int_repr (sint n) @ [13, 10]), length (int_repr (sint n)) + 3)"
  using length_int_repr_ll[of n]
  by (simp add: rioWriteBulkCount_def ll2string_eq Let_def rioWrite_buffer)

lemma bulk_string_buffer:
  assumes "length buf < 2 ^ 63"
  shows "rioWriteBulkString junk rioBufferIO r buf =
    Some (appended r ([36] @ int_repr (int (length buf)) @ [13, 10] @ buf @ [13, 10]),
      length (int_repr (int (length buf))) + length buf + 5)"
proof -
  have "sint (of_nat (length buf) :: 64 word) = int (length buf)"
    using assms sint_word_of_int_64[of "int (length buf)"] by simp
  then show ?thesis
    by (simp add: rioWriteBulkString_def bulk_count_buffer rioWrite_buffer appended_append)
qed

section \<open>Properties\<close>

text \<open>Chunking is transparent: whatever the chunk size, writing to an in-memory stream appends exactly
  the bytes and advances the checksum as one call of \<open>crc64\<close> over all of them would; reading back
  consumes exactly the bytes asked for, with the same effect on the reader's checksum.\<close>

lemma rio_chunking_transparent:
  assumes "pending rd = bs @ rest"
  shows "rioWrite rioBufferIO r bs = (appended r bs, True) \<and> rioRead rioBufferIO rd (length bs) = (consumed rd bs, Some bs)"
  using rioWrite_buffer rioRead_buffer[OF assms] by blast

end
