(* ===== verification/Redis_Object.thy ===== *)
theory Redis_Object
  imports Redis_Util Redis_Sds
begin

text \<open>
  \<open>object.c\<close>: the reference-counted objects that hold every key and value, and the encodings of string
  objects (raw dynamic string, string embedded next to the object, machine integer).

  An object is a record with the fields of \<open>struct redisObject\<close>.  Its pointer is a dynamic string
  (\<open>PSds\<close>, with the header of \<open>sds.c\<close>), an integer stored in the pointer itself (\<open>PLong\<close>), or the
  address of a container of another component (\<open>PContainer\<close>).  Every operation that can stop the server
  (assertion, \<open>redisPanic\<close>) or access memory out of bounds returns \<open>None\<close> there.  The clock and the
  junk of fresh allocations are arguments.  The shared integers are a list of objects that is passed
  along, because taking one of them increments its count.

  The main results: encoding a value never changes what any reader of it sees, comparison of objects
  is comparison of their texts whatever their encodings, and the error of the idle time, which comes from the
  granularity and the wrap-around of the clock and from the lag of its cached copy (\<open>LRU_CLOCK\<close>), is bounded.
\<close>

section \<open>The code\<close>

datatype obj_type = REDIS_STRING | REDIS_LIST | REDIS_SET | REDIS_ZSET | REDIS_HASH

datatype obj_encoding = ENC_RAW | ENC_INT | ENC_HT | ENC_ZIPMAP | ENC_LINKEDLIST | ENC_ZIPLIST | ENC_INTSET
  | ENC_SKIPLIST | ENC_EMBSTR

datatype obj_ptr = PSds sdshdr | PLong "64 word" | PContainer nat

record robj =
  o_type :: obj_type
  o_encoding :: obj_encoding
  o_lru :: nat
  o_refcount :: int
  o_ptr :: obj_ptr

definition REDIS_SHARED_INTEGERS :: nat where "REDIS_SHARED_INTEGERS = 10000"
definition REDIS_ENCODING_EMBSTR_SIZE_LIMIT :: nat where "REDIS_ENCODING_EMBSTR_SIZE_LIMIT = 39"
definition REDIS_LRU_CLOCK_MAX :: nat where "REDIS_LRU_CLOCK_MAX = 2 ^ 24 - 1"
definition REDIS_LRU_CLOCK_RESOLUTION :: nat where "REDIS_LRU_CLOCK_RESOLUTION = 1000"

datatype maxmemory_policy = VOLATILE_LRU | VOLATILE_TTL | VOLATILE_RANDOM | ALLKEYS_LRU | ALLKEYS_RANDOM | NO_EVICTION

record mem_config =
  maxmemory :: nat
  maxmemory_policy :: maxmemory_policy

text \<open>Reading a C string: up to the terminator, which has to be inside the buffer.\<close>

definition c_string :: "bytes \<Rightarrow> bytes option" where
  "c_string buf = (if 0 \<in> set buf then Some (takeWhile (\<lambda>c. c \<noteq> 0) buf) else None)"

text \<open>\<open>strtoll\<close> with base 10: the value, the text that follows the number, and whether the number is
  out of range (\<open>ERANGE\<close>).  Without digits nothing is consumed.\<close>

definition strtoll :: "bytes \<Rightarrow> int \<times> bytes \<times> bool" where
  "strtoll s = (
     let p = dropWhile isspace s;
         q = (if chr p 0 = 45 \<or> chr p 0 = 43 then tl p else p);
         ds = takeWhile is_digit q;
         v = (if chr p 0 = 45 then - int (dec_fold 0 ds) else int (dec_fold 0 ds))
     in if ds = [] then (0, s, False)
        else if v > 2 ^ 63 - 1 then (2 ^ 63 - 1, dropWhile is_digit q, True)
        else if v < - (2 ^ 63) then (- (2 ^ 63), dropWhile is_digit q, True)
        else (v, dropWhile is_digit q, False))"

definition sdsEncodedObject :: "robj \<Rightarrow> bool" where
  "sdsEncodedObject o1 \<longleftrightarrow> o_encoding o1 = ENC_RAW \<or> o_encoding o1 = ENC_EMBSTR"

definition createObject :: "obj_type \<Rightarrow> obj_ptr \<Rightarrow> nat \<Rightarrow> robj" where
  "createObject type ptr lru_clock =
     \<lparr>o_type = type, o_encoding = ENC_RAW, o_lru = lru_clock, o_refcount = 1, o_ptr = ptr\<rparr>"

definition createRawStringObject :: "(nat \<Rightarrow> byte) \<Rightarrow> nat \<Rightarrow> bytes option \<Rightarrow> nat \<Rightarrow> robj option" where
  "createRawStringObject junk clk ptr len = do {
     s \<leftarrow> sdsnewlen junk ptr len;
     Some (createObject REDIS_STRING (PSds s) clk)
   }"

definition createEmbeddedStringObject :: "nat \<Rightarrow> bytes option \<Rightarrow> nat \<Rightarrow> robj option" where
  "createEmbeddedStringObject clk ptr len = do {
     buf \<leftarrow> (case ptr of
               Some p \<Rightarrow> do { bs \<leftarrow> mem_read p 0 len; Some (bs @ [0]) }
             | None \<Rightarrow> Some (replicate (len + 1) 0));
     Some \<lparr>o_type = REDIS_STRING, o_encoding = ENC_EMBSTR, o_lru = clk, o_refcount = 1,
           o_ptr = PSds \<lparr>s_len = len mod 2 ^ 32, s_free = 0, s_buf = buf\<rparr>\<rparr>
   }"

definition createStringObject :: "(nat \<Rightarrow> byte) \<Rightarrow> nat \<Rightarrow> bytes option \<Rightarrow> nat \<Rightarrow> robj option" where
  "createStringObject junk clk ptr len =
     (if len \<le> REDIS_ENCODING_EMBSTR_SIZE_LIMIT then createEmbeddedStringObject clk ptr len
      else createRawStringObject junk clk ptr len)"

definition incrRefCount :: "robj \<Rightarrow> robj" where
  "incrRefCount o1 = o1\<lparr>o_refcount := o_refcount o1 + 1\<rparr>"

definition take_shared :: "robj list \<Rightarrow> nat \<Rightarrow> (robj list \<times> robj) option" where
  "take_shared integers v =
     (if v < length integers
      then Some (integers[v := incrRefCount (integers ! v)], incrRefCount (integers ! v)) else None)"

definition createSharedIntegers :: "nat \<Rightarrow> robj list" where
  "createSharedIntegers clk = map (\<lambda>j. (createObject REDIS_STRING (PLong (of_nat j)) clk)\<lparr>o_encoding := ENC_INT\<rparr>)
     [0..<REDIS_SHARED_INTEGERS]"

definition createStringObjectFromLongLong ::
  "(nat \<Rightarrow> byte) \<Rightarrow> nat \<Rightarrow> robj list \<Rightarrow> 64 word \<Rightarrow> (robj list \<times> robj) option" where
  "createStringObjectFromLongLong junk clk integers value1 =
     (if sint value1 \<ge> 0 \<and> sint value1 < int REDIS_SHARED_INTEGERS then take_shared integers (unat value1)
      else if sint value1 \<ge> - (2 ^ 63) \<and> sint value1 \<le> 2 ^ 63 - 1
      then Some (integers, (createObject REDIS_STRING (PLong value1) clk)\<lparr>o_encoding := ENC_INT\<rparr>)
      else do { s \<leftarrow> sdsfromlonglong junk value1; Some (integers, createObject REDIS_STRING (PSds s) clk) })"

definition dupStringObject :: "(nat \<Rightarrow> byte) \<Rightarrow> nat \<Rightarrow> robj \<Rightarrow> robj option" where
  "dupStringObject junk clk o1 =
     (if o_type o1 \<noteq> REDIS_STRING then None
      else case (o_encoding o1, o_ptr o1) of
        (ENC_RAW, PSds s) \<Rightarrow> createRawStringObject junk clk (Some (s_buf s)) (sdslen s)
      | (ENC_EMBSTR, PSds s) \<Rightarrow> createEmbeddedStringObject clk (Some (s_buf s)) (sdslen s)
      | (ENC_INT, p) \<Rightarrow> Some ((createObject REDIS_STRING p clk)\<lparr>o_encoding := ENC_INT\<rparr>)
      | _ \<Rightarrow> None)"

definition createListObject :: "nat \<Rightarrow> nat \<Rightarrow> robj" where
  "createListObject clk l = (createObject REDIS_LIST (PContainer l) clk)\<lparr>o_encoding := ENC_LINKEDLIST\<rparr>"

definition createZiplistObject :: "nat \<Rightarrow> nat \<Rightarrow> robj" where
  "createZiplistObject clk zl = (createObject REDIS_LIST (PContainer zl) clk)\<lparr>o_encoding := ENC_ZIPLIST\<rparr>"

definition createSetObject :: "nat \<Rightarrow> nat \<Rightarrow> robj" where
  "createSetObject clk d = (createObject REDIS_SET (PContainer d) clk)\<lparr>o_encoding := ENC_HT\<rparr>"

definition createIntsetObject :: "nat \<Rightarrow> nat \<Rightarrow> robj" where
  "createIntsetObject clk is1 = (createObject REDIS_SET (PContainer is1) clk)\<lparr>o_encoding := ENC_INTSET\<rparr>"

definition createHashObject :: "nat \<Rightarrow> nat \<Rightarrow> robj" where
  "createHashObject clk zl = (createObject REDIS_HASH (PContainer zl) clk)\<lparr>o_encoding := ENC_ZIPLIST\<rparr>"

definition createZsetObject :: "nat \<Rightarrow> nat \<Rightarrow> robj" where
  "createZsetObject clk zs = (createObject REDIS_ZSET (PContainer zs) clk)\<lparr>o_encoding := ENC_SKIPLIST\<rparr>"

definition createZsetZiplistObject :: "nat \<Rightarrow> nat \<Rightarrow> robj" where
  "createZsetZiplistObject clk zl = (createObject REDIS_ZSET (PContainer zl) clk)\<lparr>o_encoding := ENC_ZIPLIST\<rparr>"

text \<open>The free functions: \<open>Some ()\<close> when the payload is released, \<open>None\<close> for the panic.\<close>

definition freeStringObject :: "robj \<Rightarrow> unit option" where
  "freeStringObject o1 = Some ()"

definition freeListObject :: "robj \<Rightarrow> unit option" where
  "freeListObject o1 = (case o_encoding o1 of ENC_LINKEDLIST \<Rightarrow> Some () | ENC_ZIPLIST \<Rightarrow> Some () | _ \<Rightarrow> None)"

definition freeSetObject :: "robj \<Rightarrow> unit option" where
  "freeSetObject o1 = (case o_encoding o1 of ENC_HT \<Rightarrow> Some () | ENC_INTSET \<Rightarrow> Some () | _ \<Rightarrow> None)"

definition freeZsetObject :: "robj \<Rightarrow> unit option" where
  "freeZsetObject o1 = (case o_encoding o1 of ENC_SKIPLIST \<Rightarrow> Some () | ENC_ZIPLIST \<Rightarrow> Some () | _ \<Rightarrow> None)"

definition freeHashObject :: "robj \<Rightarrow> unit option" where
  "freeHashObject o1 = (case o_encoding o1 of ENC_HT \<Rightarrow> Some () | ENC_ZIPLIST \<Rightarrow> Some () | _ \<Rightarrow> None)"

text \<open>\<open>Some None\<close>: the last reference is gone and the object is freed.\<close>

definition decrRefCount :: "robj \<Rightarrow> robj option option" where
  "decrRefCount o1 =
     (if o_refcount o1 \<le> 0 then None
      else if o_refcount o1 = 1 then do {
        (case o_type o1 of
           REDIS_STRING \<Rightarrow> freeStringObject o1
         | REDIS_LIST \<Rightarrow> freeListObject o1
         | REDIS_SET \<Rightarrow> freeSetObject o1
         | REDIS_ZSET \<Rightarrow> freeZsetObject o1
         | REDIS_HASH \<Rightarrow> freeHashObject o1);
        Some None
      } else Some (Some (o1\<lparr>o_refcount := o_refcount o1 - 1\<rparr>)))"

definition resetRefCount :: "robj \<Rightarrow> robj" where
  "resetRefCount obj = obj\<lparr>o_refcount := 0\<rparr>"

text \<open>\<open>Some None\<close> stands for \<open>REDIS_ERR\<close>.\<close>

definition isObjectRepresentableAsLongLong :: "robj \<Rightarrow> 64 word option option" where
  "isObjectRepresentableAsLongLong o1 =
     (if o_type o1 \<noteq> REDIS_STRING then None
      else case (o_encoding o1, o_ptr o1) of
        (ENC_INT, PLong v) \<Rightarrow> Some (Some v)
      | (_, PSds s) \<Rightarrow> do { bs \<leftarrow> mem_read (s_buf s) 0 (sdslen s); Some (string2ll bs) }
      | _ \<Rightarrow> None)"

definition tryObjectEncoding ::
  "(nat \<Rightarrow> byte) \<Rightarrow> nat \<Rightarrow> mem_config \<Rightarrow> robj list \<Rightarrow> robj \<Rightarrow> (robj list \<times> robj) option" where
  "tryObjectEncoding junk clk server integers o1 =
     (if o_type o1 \<noteq> REDIS_STRING then None
      else if \<not> sdsEncodedObject o1 then Some (integers, o1)
      else if o_refcount o1 > 1 then Some (integers, o1)
      else case o_ptr o1 of
        PSds s \<Rightarrow> do {
          let len = sdslen s;
          num \<leftarrow> (if len \<le> 21 then do { bs \<leftarrow> mem_read (s_buf s) 0 len; Some (string2l bs) } else Some None);
          (case num of
             Some v \<Rightarrow>
               if (maxmemory server = 0 \<or>
                   (maxmemory_policy server \<noteq> VOLATILE_LRU \<and> maxmemory_policy server \<noteq> ALLKEYS_LRU)) \<and>
                  sint v \<ge> 0 \<and> sint v < int REDIS_SHARED_INTEGERS
               then do { decrRefCount o1; take_shared integers (unat v) }
               else Some (integers, o1\<lparr>o_encoding := ENC_INT, o_ptr := PLong v\<rparr>)
           | None \<Rightarrow>
               if len \<le> REDIS_ENCODING_EMBSTR_SIZE_LIMIT then
                 (if o_encoding o1 = ENC_EMBSTR then Some (integers, o1)
                  else do {
                    emb \<leftarrow> createEmbeddedStringObject clk (Some (s_buf s)) (sdslen s);
                    decrRefCount o1;
                    Some (integers, emb)
                  })
               else if o_encoding o1 = ENC_RAW \<and> sdsavail s > len div 10
               then Some (integers, o1\<lparr>o_ptr := PSds (sdsRemoveFreeSpace junk s)\<rparr>)
               else Some (integers, o1))
        }
      | _ \<Rightarrow> None)"

definition getDecodedObject :: "(nat \<Rightarrow> byte) \<Rightarrow> nat \<Rightarrow> robj \<Rightarrow> robj option" where
  "getDecodedObject junk clk o1 =
     (if sdsEncodedObject o1 then Some (incrRefCount o1)
      else if o_type o1 = REDIS_STRING \<and> o_encoding o1 = ENC_INT
      then case o_ptr o1 of
             PLong v \<Rightarrow> do {
               (_, buf) \<leftarrow> ll2string (map junk [0..<32]) 32 v;
               cs \<leftarrow> c_string buf;
               createStringObject junk clk (Some buf) (length cs)
             }
           | _ \<Rightarrow> None
      else None)"

text \<open>The bytes a comparison reads: the string itself or the digits printed into a local buffer.\<close>

definition obj_chars :: "(nat \<Rightarrow> byte) \<Rightarrow> robj \<Rightarrow> (bytes \<times> nat) option" where
  "obj_chars junk o1 =
     (if sdsEncodedObject o1
      then case o_ptr o1 of PSds s \<Rightarrow> Some (s_buf s, sdslen s) | _ \<Rightarrow> None
      else case o_ptr o1 of
             PLong v \<Rightarrow> do { (len, buf) \<leftarrow> ll2string (map junk [0..<128]) 128 v; Some (buf, len) }
           | _ \<Rightarrow> None)"

definition compareStringObjectsWithFlags ::
  "(bytes \<Rightarrow> bytes \<Rightarrow> int) \<Rightarrow> (nat \<Rightarrow> byte) \<Rightarrow> robj \<Rightarrow> robj \<Rightarrow> bool \<Rightarrow> int option" where
  "compareStringObjectsWithFlags strcoll junk a b compare_coll =
     (if o_type a \<noteq> REDIS_STRING \<or> o_type b \<noteq> REDIS_STRING then None
      else do {
        (astr, alen) \<leftarrow> obj_chars junk a;
        (bstr, blen) \<leftarrow> obj_chars junk b;
        (if compare_coll then do { ca \<leftarrow> c_string astr; cb \<leftarrow> c_string bstr; Some (strcoll ca cb) }
         else do {
           let minlen = (if alen < blen then alen else blen);
           ca \<leftarrow> mem_read astr 0 minlen;
           cb \<leftarrow> mem_read bstr 0 minlen;
           Some (if memcmp ca cb = 0 then sint (of_nat alen - of_nat blen :: 32 word) else memcmp ca cb)
         })
      })"

definition compareStringObjects :: "(bytes \<Rightarrow> bytes \<Rightarrow> int) \<Rightarrow> (nat \<Rightarrow> byte) \<Rightarrow> robj \<Rightarrow> robj \<Rightarrow> int option" where
  "compareStringObjects strcoll junk a b = compareStringObjectsWithFlags strcoll junk a b False"

definition collateStringObjects :: "(bytes \<Rightarrow> bytes \<Rightarrow> int) \<Rightarrow> (nat \<Rightarrow> byte) \<Rightarrow> robj \<Rightarrow> robj \<Rightarrow> int option" where
  "collateStringObjects strcoll junk a b = compareStringObjectsWithFlags strcoll junk a b True"

definition equalStringObjects :: "(bytes \<Rightarrow> bytes \<Rightarrow> int) \<Rightarrow> (nat \<Rightarrow> byte) \<Rightarrow> robj \<Rightarrow> robj \<Rightarrow> bool option" where
  "equalStringObjects strcoll junk a b =
     (if o_encoding a = ENC_INT \<and> o_encoding b = ENC_INT then Some (o_ptr a = o_ptr b)
      else do { c \<leftarrow> compareStringObjects strcoll junk a b; Some (c = 0) })"

definition stringObjectLen :: "(nat \<Rightarrow> byte) \<Rightarrow> robj \<Rightarrow> nat option" where
  "stringObjectLen junk o1 =
     (if o_type o1 \<noteq> REDIS_STRING then None
      else if sdsEncodedObject o1 then (case o_ptr o1 of PSds s \<Rightarrow> Some (sdslen s) | _ \<Rightarrow> None)
      else case o_ptr o1 of
             PLong v \<Rightarrow> do { (len, _) \<leftarrow> ll2string (map junk [0..<32]) 32 v; Some len }
           | _ \<Rightarrow> None)"

definition getLongLongFromObject :: "robj option \<Rightarrow> 64 word option option" where
  "getLongLongFromObject obj =
     (case obj of
        None \<Rightarrow> Some (Some 0)
      | Some o1 \<Rightarrow>
          if o_type o1 \<noteq> REDIS_STRING then None
          else if sdsEncodedObject o1
          then case o_ptr o1 of
                 PSds s \<Rightarrow> do {
                   cs \<leftarrow> c_string (s_buf s);
                   let (v, eptr, erange) = strtoll cs;
                   Some (if isspace (chr cs 0) \<or> chr eptr 0 \<noteq> 0 \<or> erange then None else Some (word_of_int v))
                 }
               | _ \<Rightarrow> None
          else case (o_encoding o1, o_ptr o1) of (ENC_INT, PLong v) \<Rightarrow> Some (Some v) | _ \<Rightarrow> None)"

definition strEncoding :: "obj_encoding \<Rightarrow> string" where
  "strEncoding encoding = (case encoding of
       ENC_RAW \<Rightarrow> ''raw'' | ENC_INT \<Rightarrow> ''int'' | ENC_HT \<Rightarrow> ''hashtable'' | ENC_LINKEDLIST \<Rightarrow> ''linkedlist''
     | ENC_ZIPLIST \<Rightarrow> ''ziplist'' | ENC_INTSET \<Rightarrow> ''intset'' | ENC_SKIPLIST \<Rightarrow> ''skiplist''
     | ENC_EMBSTR \<Rightarrow> ''embstr'' | ENC_ZIPMAP \<Rightarrow> ''unknown'')"

definition getLRUClock :: "nat \<Rightarrow> nat" where
  "getLRUClock mstime = (mstime div REDIS_LRU_CLOCK_RESOLUTION) mod (REDIS_LRU_CLOCK_MAX + 1)"

text \<open>The clock as the server reads it: the value cached by the last run of \<open>serverCron\<close>, for every frequency \<open>hz\<close> of it.\<close>

definition LRU_CLOCK :: "nat \<Rightarrow> nat \<Rightarrow> nat \<Rightarrow> nat" where
  "LRU_CLOCK hz lruclock mstime = (if 1000 div hz \<le> REDIS_LRU_CLOCK_RESOLUTION then lruclock else getLRUClock mstime)"

definition estimateObjectIdleTime :: "nat \<Rightarrow> robj \<Rightarrow> nat" where
  "estimateObjectIdleTime lruclock o1 =
     (if lruclock \<ge> o_lru o1 then (lruclock - o_lru o1) * REDIS_LRU_CLOCK_RESOLUTION
      else (lruclock + (REDIS_LRU_CLOCK_MAX - o_lru o1)) * REDIS_LRU_CLOCK_RESOLUTION)"

section \<open>Invariant and abstraction\<close>

definition obj_text :: "robj \<Rightarrow> bytes" where
  "obj_text o1 = (case o_ptr o1 of PSds s \<Rightarrow> sds_text s | PLong v \<Rightarrow> int_repr (sint v) | PContainer _ \<Rightarrow> [])"

definition obj_ok :: "robj \<Rightarrow> bool" where
  "obj_ok o1 \<longleftrightarrow> o_type o1 = REDIS_STRING \<and> 1 \<le> o_refcount o1 \<and>
     (case (o_encoding o1, o_ptr o1) of
        (ENC_RAW, PSds s) \<Rightarrow> sds_ok s
      | (ENC_EMBSTR, PSds s) \<Rightarrow> sds_ok s \<and> s_free s = 0 \<and> s_len s \<le> REDIS_ENCODING_EMBSTR_SIZE_LIMIT
      | (ENC_INT, PLong v) \<Rightarrow> True
      | _ \<Rightarrow> False)"

definition shared_ok :: "robj list \<Rightarrow> bool" where
  "shared_ok integers \<longleftrightarrow> length integers = REDIS_SHARED_INTEGERS \<and>
     (\<forall>j<REDIS_SHARED_INTEGERS. obj_ok (integers ! j) \<and> o_encoding (integers ! j) = ENC_INT \<and>
        o_ptr (integers ! j) = PLong (of_nat j))"

text \<open>What a signed decimal numeral denotes.\<close>

definition numeral_value :: "bytes \<Rightarrow> int option" where
  "numeral_value t = (
     let ds = (if chr t 0 = 45 \<or> chr t 0 = 43 then tl t else t)
     in if ds \<noteq> [] \<and> list_all is_digit ds
        then Some (if chr t 0 = 45 then - int (dec_fold 0 ds) else int (dec_fold 0 ds)) else None)"

lemma obj_ok_cases [consumes 1, case_names sds int]:
  assumes "obj_ok o1"
  obtains (sds) s where "o_ptr o1 = PSds s" "sds_ok s" "sdsEncodedObject o1" "obj_text o1 = sds_text s" "o_encoding o1 \<noteq> ENC_INT"
      "o_encoding o1 = ENC_EMBSTR \<Longrightarrow> s_free s = 0 \<and> s_len s \<le> 39"
  | (int) v where "o_ptr o1 = PLong v" "o_encoding o1 = ENC_INT" "\<not> sdsEncodedObject o1" "obj_text o1 = int_repr (sint v)"
  using assms unfolding obj_ok_def sdsEncodedObject_def obj_text_def REDIS_ENCODING_EMBSTR_SIZE_LIMIT_def
  by (cases "o_encoding o1"; cases "o_ptr o1") auto

lemma sds_bytes [mem_simps]: "sds_ok s \<Longrightarrow> mem_read (s_buf s) 0 (sdslen s) = Some (sds_text s)"
  by (simp add: sds_ok_def mem_read_def sdslen_def sds_text_def)

lemma sds_buf_split: "sds_ok s \<Longrightarrow> s_buf s = sds_text s @ 0 # drop (Suc (s_len s)) (s_buf s)"
  unfolding sds_ok_def sds_text_def by (metis Suc_eq_plus1 id_take_nth_drop less_add_Suc1 add_Suc_right)

lemma sds_c_string: "sds_ok s \<Longrightarrow> c_string (s_buf s) = Some (takeWhile (\<lambda>c. c \<noteq> 0) (sds_text s))"
proof -
  assume "sds_ok s"
  then obtain r where "s_buf s = sds_text s @ 0 # r" using sds_buf_split by blast
  then show ?thesis by (simp add: c_string_def takeWhile_tail)
qed

lemma sint_nonneg: "0 \<le> sint (v :: 64 word) \<Longrightarrow> sint v = int (unat v)"
proof (cases "unat v < 2 ^ 63")
  case True
  then show ?thesis by (rule sint_of_small)
next
  case False
  define k where "k = int (unat v) - 2 ^ 64"
  have "int (2 ^ 63) \<le> int (unat v)" using False by (simp only: of_nat_le_iff not_less)
  then have k: "- (2 ^ 63) \<le> k" "k < 0" using False unsigned_less[of v, where 'a = int] by (simp_all add: k_def not_less)
  have "v = word_of_int k" by (simp add: k_def)
  then have "sint v < 0" using k sint_word_of_int_64[of k] by simp
  moreover assume "0 \<le> sint v"
  ultimately show ?thesis by simp
qed

lemma newlen_ok:
  assumes "n < 2 ^ 32" "case init of Some bs \<Rightarrow> n \<le> length bs | None \<Rightarrow> True"
  shows "\<exists>s. sdsnewlen junk init n = Some s \<and> sds_ok s \<and> s_free s = 0 \<and> s_len s = n \<and>
    sds_text s = (case init of Some bs \<Rightarrow> take n bs | None \<Rightarrow> replicate n 0)"
proof -
  have fin: "store buf (int n) 0 = Some (buf[n := 0]) \<and> sds_ok \<lparr>s_len = n, s_free = 0, s_buf = buf[n := 0]\<rparr> \<and>
      sds_text \<lparr>s_len = n, s_free = 0, s_buf = buf[n := 0]\<rparr> = take n buf"
    if "length buf = Suc n" for buf :: bytes
    using that assms(1) by (simp add: store_in sds_ok_def sds_text_def)
  show ?thesis
  proof (cases init)
    case None
    show ?thesis
      using fin[of "replicate (n + 1) 0"] assms(1) None by (simp add: sdsnewlen_def del: replicate_Suc)
  next
    case (Some bs)
    let ?b = "take n bs @ drop n (map junk [0..<Suc n])"
    have "mem_read bs 0 n = Some (take n bs)" "mem_write (map junk [0..<Suc n]) 0 (take n bs) = Some ?b"
      "n = 0 \<Longrightarrow> map junk [0..<Suc n] = ?b"
      using Some assms(2) by (simp_all add: mem_read_def mem_write_def)
    moreover have "length ?b = Suc n" using Some assms(2) by simp
    ultimately show ?thesis
      using fin[of ?b] assms Some unfolding sdsnewlen_def Let_def by (cases "n = 0") (simp_all del: upt_Suc)
  qed
qed

lemma embedded_ok:
  assumes "n \<le> 39" "case p of Some bs \<Rightarrow> n \<le> length bs | None \<Rightarrow> True"
  shows "\<exists>o1. createEmbeddedStringObject clk p n = Some o1 \<and> obj_ok o1 \<and>
    obj_text o1 = (case p of Some bs \<Rightarrow> take n bs | None \<Rightarrow> replicate n 0)"
  using assms unfolding createEmbeddedStringObject_def
  by (auto split: option.splits simp: mem_read_def obj_ok_def obj_text_def sds_ok_def sds_text_def nth_append
      REDIS_ENCODING_EMBSTR_SIZE_LIMIT_def nth_replicate simp del: replicate_Suc replicate.simps)

lemma raw_ok:
  assumes "n < 2 ^ 32" "case p of Some bs \<Rightarrow> n \<le> length bs | None \<Rightarrow> True"
  shows "\<exists>o1. createRawStringObject junk clk p n = Some o1 \<and> obj_ok o1 \<and>
    obj_text o1 = (case p of Some bs \<Rightarrow> take n bs | None \<Rightarrow> replicate n 0)"
  using newlen_ok[OF assms, of junk] by (auto simp: createRawStringObject_def createObject_def obj_ok_def obj_text_def)

lemma string_ok:
  assumes "n < 2 ^ 32" "case p of Some bs \<Rightarrow> n \<le> length bs | None \<Rightarrow> True"
  shows "\<exists>o1. createStringObject junk clk p n = Some o1 \<and> obj_ok o1 \<and>
    obj_text o1 = (case p of Some bs \<Rightarrow> take n bs | None \<Rightarrow> replicate n 0)"
  using raw_ok[OF assms, of junk clk] embedded_ok[of n p clk] assms
  by (simp add: createStringObject_def REDIS_ENCODING_EMBSTR_SIZE_LIMIT_def)

lemma take_shared_ok:
  assumes "shared_ok integers" "v < REDIS_SHARED_INTEGERS"
  shows "\<exists>sh o1. take_shared integers v = Some (sh, o1) \<and> shared_ok sh \<and> obj_ok o1 \<and> o_encoding o1 = ENC_INT \<and> o_ptr o1 = PLong (of_nat v)"
proof -
  have "obj_ok (incrRefCount o1)" if "obj_ok o1" for o1 using that by (auto simp: obj_ok_def incrRefCount_def)
  then show ?thesis using assms
    by (auto simp: take_shared_def shared_ok_def incrRefCount_def nth_list_update)
qed

lemma shared_integers_ok: "shared_ok (createSharedIntegers clk)"
  by (simp add: shared_ok_def createSharedIntegers_def obj_ok_def createObject_def)

lemma fromLongLong_ok:
  assumes "shared_ok integers"
  shows "\<exists>sh o1. createStringObjectFromLongLong junk clk integers v = Some (sh, o1) \<and> shared_ok sh \<and> obj_ok o1 \<and>
    o_ptr o1 = PLong v \<and> obj_text o1 = int_repr (sint v)"
proof (cases "sint v \<ge> 0 \<and> sint v < int REDIS_SHARED_INTEGERS")
  case True
  then have "unat v < REDIS_SHARED_INTEGERS" "sint v = int (unat v)"
    using sint_nonneg[of v] by linarith+
  then obtain sh o1 where "take_shared integers (unat v) = Some (sh, o1)" "shared_ok sh" "obj_ok o1" "o_ptr o1 = PLong v"
    using take_shared_ok[OF assms, of "unat v"] by auto
  then show ?thesis using True by (simp add: createStringObjectFromLongLong_def obj_text_def)
next
  case False
  have "sint v \<ge> - (2 ^ 63) \<and> sint v \<le> 2 ^ 63 - 1"
    using sint_range_size[of v] by (simp add: word_size)
  then show ?thesis using assms unfolding createStringObjectFromLongLong_def if_not_P[OF False]
    by (simp add: createObject_def obj_ok_def obj_text_def)
qed

section \<open>What the readers see\<close>

lemma obj_chars_ok:
  assumes "obj_ok o1"
  shows "\<exists>buf. obj_chars junk o1 = Some (buf, length (obj_text o1)) \<and> take (length (obj_text o1)) buf = obj_text o1 \<and>
    length (obj_text o1) \<le> length buf"
  using assms
proof (cases rule: obj_ok_cases)
  case (sds s)
  then show ?thesis using sds_okD[of s] by (auto simp: obj_chars_def sdslen_def sds_text_def)
next
  case (int v)
  then show ?thesis using length_int_repr_ll[of v] by (simp add: obj_chars_def ll2string_eq Let_def)
qed

lemma stringObjectLen_ok: "obj_ok o1 \<Longrightarrow> stringObjectLen junk o1 = Some (length (obj_text o1))"
proof -
  assume ok: "obj_ok o1"
  have ty: "o_type o1 = REDIS_STRING" using ok by (simp add: obj_ok_def)
  show ?thesis
    using ok
  proof (cases rule: obj_ok_cases)
    case (sds s)
    then show ?thesis using sds_okD[of s] ty by (simp add: stringObjectLen_def sdslen_def)
  next
    case (int v)
    then show ?thesis using length_int_repr_ll[of v] ty by (simp add: stringObjectLen_def ll2string_eq Let_def)
  qed
qed

lemma digits_not_special: "is_digit c \<Longrightarrow> \<not> isspace c \<and> c \<noteq> 45 \<and> c \<noteq> 43 \<and> c \<noteq> 0"
  by (auto simp: is_digit_def isspace_def word_le_nat_alt)

lemma strtoll_numeral:
  assumes "\<not> isspace (chr t 0)" "numeral_value t = Some i"
  shows "strtoll t = (if i > 2 ^ 63 - 1 then (2 ^ 63 - 1, [], True) else if i < - (2 ^ 63) then (- (2 ^ 63), [], True) else (i, [], False))"
proof -
  define q where "q = (if chr t 0 = 45 \<or> chr t 0 = 43 then tl t else t)"
  have q: "q \<noteq> []" "list_all is_digit q" and i: "i = (if chr t 0 = 45 then - int (dec_fold 0 q) else int (dec_fold 0 q))"
    using assms(2) by (auto simp: numeral_value_def q_def Let_def split: if_splits)
  have "dropWhile isspace t = t" using assms(1) by (cases t) auto
  moreover have "takeWhile is_digit q = q" "dropWhile is_digit q = []" using q(2) by (simp_all add: list_all_iff)
  ultimately show ?thesis using q(1) unfolding strtoll_def i Let_def by (simp only: q_def[symmetric] if_False)
qed

lemma strtoll_not_numeral:
  assumes "\<not> isspace (chr t 0)" "numeral_value t = None" "0 \<notin> set t" "t \<noteq> []"
  shows "chr (fst (snd (strtoll t))) 0 \<noteq> 0"
proof -
  define q where "q = (if chr t 0 = 45 \<or> chr t 0 = 43 then tl t else t)"
  have sub: "set q \<subseteq> set t" using assms(4) by (auto simp: q_def dest: list.set_sel)
  have nz: "chr x 0 \<noteq> 0" if "x \<noteq> []" "set x \<subseteq> set t" for x
    using that assms(3) by (cases x) auto
  have d: "dropWhile isspace t = t" using assms(1) by (cases t) auto
  have "dropWhile is_digit q \<noteq> [] \<or> takeWhile is_digit q = []"
    using assms(2) unfolding numeral_value_def Let_def q_def[symmetric] by (auto simp: list_all_iff split: if_splits)
  moreover have "chr (dropWhile is_digit q) 0 \<noteq> 0" if "dropWhile is_digit q \<noteq> []"
    by (rule nz[OF that]) (use sub in \<open>auto dest: set_dropWhileD\<close>)
  moreover have "fst (snd (strtoll t)) = (if takeWhile is_digit q = [] then t else dropWhile is_digit q)"
    unfolding strtoll_def d Let_def q_def[symmetric] by simp
  ultimately show ?thesis using nz[OF assms(4)] by auto
qed

text \<open>What \<open>getLongLongFromObject\<close> reads from a text: only the part before the first null byte counts.\<close>

definition text_ll :: "bytes \<Rightarrow> 64 word option" where
  "text_ll t = (
     let cs = takeWhile (\<lambda>c. c \<noteq> 0) t
     in if cs = [] then Some 0
        else case numeral_value cs of
          Some i \<Rightarrow> if - (2 ^ 63) \<le> i \<and> i < 2 ^ 63 then Some (word_of_int i) else None
        | None \<Rightarrow> None)"

lemma numeral_value_space: "isspace (chr t 0) \<Longrightarrow> numeral_value t = None"
  using digits_not_special[of "hd t"] by (cases t) (auto simp: numeral_value_def Let_def isspace_def)

lemma numeral_value_int_repr: "numeral_value (int_repr i) = Some i"
proof -
  have "is_digit (hd (dec_repr n))" for n using dec_repr_props[of n] by (cases "dec_repr n") auto
  then have "chr (dec_repr n) 0 \<noteq> 45 \<and> chr (dec_repr n) 0 \<noteq> 43" for n
    using dec_repr_props[of n] digits_not_special[of "hd (dec_repr n)"] by (cases "dec_repr n") auto
  then show ?thesis
    using dec_repr_props[of "nat i"] dec_repr_props[of "nat (- i)"] by (auto simp: numeral_value_def int_repr_def Let_def)
qed

lemma int_repr_inj: "int_repr i = int_repr j \<Longrightarrow> i = j"
  using numeral_value_int_repr by (metis option.inject)

lemma int_repr_no_null: "takeWhile (\<lambda>c. c \<noteq> 0) (int_repr i) = int_repr i"
proof -
  have "c \<noteq> 0" if "c \<in> set (dec_repr n)" for c n
    using dec_repr_props[of n] that digits_not_special[of c] by (auto simp: list_all_iff)
  then show ?thesis by (auto simp: int_repr_def)
qed

lemma text_ll_int_repr: "text_ll (int_repr (sint (v :: 64 word))) = Some v"
proof -
  have "int_repr (sint v) \<noteq> []" using dec_repr_props by (auto simp: int_repr_def)
  moreover have "- (2 ^ 63) \<le> sint v \<and> sint v < 2 ^ 63" using sint_range_size[of v] by (simp add: word_size)
  ultimately show ?thesis by (simp add: text_ll_def int_repr_no_null numeral_value_int_repr)
qed

lemma getLongLong_ok: "obj_ok o1 \<Longrightarrow> getLongLongFromObject (Some o1) = Some (text_ll (obj_text o1))"
proof -
  assume ok: "obj_ok o1"
  have ty: "o_type o1 = REDIS_STRING" using ok by (simp add: obj_ok_def)
  show ?thesis
    using ok
  proof (cases rule: obj_ok_cases)
    case (sds s)
    define cs where "cs = takeWhile (\<lambda>c. c \<noteq> 0) (sds_text s)"
    have nz: "0 \<notin> set cs" unfolding cs_def using set_takeWhileD by fastforce
    have e: "getLongLongFromObject (Some o1) =
      Some (let (v, eptr, erange) = strtoll cs in if isspace (chr cs 0) \<or> chr eptr 0 \<noteq> 0 \<or> erange then None else Some (word_of_int v))"
      using sds ty sds_c_string[of s] by (simp add: getLongLongFromObject_def cs_def Let_def split_beta)
    have t: "text_ll (obj_text o1) = (if cs = [] then Some 0 else case numeral_value cs of
          Some i \<Rightarrow> if - (2 ^ 63) \<le> i \<and> i < 2 ^ 63 then Some (word_of_int i) else None | None \<Rightarrow> None)"
      by (simp add: text_ll_def Let_def sds(4) cs_def)
    consider "cs = []" | "isspace (chr cs 0)" "cs \<noteq> []" | "\<not> isspace (chr cs 0)" "numeral_value cs = None" "cs \<noteq> []"
      | i where "\<not> isspace (chr cs 0)" "numeral_value cs = Some i" "cs \<noteq> []" by fastforce
    then show ?thesis
    proof cases
      case 1
      then show ?thesis unfolding e t by (simp add: strtoll_def isspace_def)
    next
      case 2
      then show ?thesis unfolding e t by (simp add: numeral_value_space split_beta)
    next
      case 3
      then show ?thesis unfolding e t using strtoll_not_numeral[OF 3(1,2) nz 3(3)] by (simp add: split_beta)
    next
      case 4
      then show ?thesis unfolding e t by (simp add: strtoll_numeral[OF 4(1,2)])
    qed
  next
    case (int v)
    then show ?thesis using ty by (simp add: getLongLongFromObject_def text_ll_int_repr)
  qed
qed

section \<open>Comparison\<close>

definition byte_less :: "(byte \<times> byte) set" where
  "byte_less = {(x, y). x < y}"

lemma compare_lex:
  defines "m \<equiv> \<lambda>a b. min (length a) (length b)"
  shows "(let c = (if memcmp (take (m a b) a) (take (m a b) b) = 0 then int (length a) - int (length b)
                  else memcmp (take (m a b) a) (take (m a b) b))
          in (c = 0 \<longleftrightarrow> a = b) \<and> (c < 0 \<longleftrightarrow> (a, b) \<in> lexord byte_less))"
  unfolding m_def
proof (induction a b rule: list_induct2')
  case (4 x xs y ys)
  then show ?case
    by (cases "x = y") (auto simp: Let_def byte_less_def word_less_def word_uint_eq_iff[symmetric] split: if_splits)
qed (auto simp: byte_less_def)

lemma sint_word_of_int_32: "- (2 ^ 31) \<le> k \<Longrightarrow> k < 2 ^ 31 \<Longrightarrow> sint (word_of_int k :: 32 word) = k"
  by (simp add: sint_sbintrunc' signed_take_bit_int_eq_self)

lemma sint_diff_32:
  assumes "a < 2 ^ 31" "b < 2 ^ 31"
  shows "sint (of_nat a - of_nat b :: 32 word) = int a - int b"
  using sint_word_of_int_32[of "int a - int b"] assms by simp

lemma compare_ok:
  assumes "obj_ok a" "obj_ok b" "length (obj_text a) < 2 ^ 31" "length (obj_text b) < 2 ^ 31"
  shows "\<exists>c. compareStringObjects strcoll junk a b = Some c \<and> (c = 0 \<longleftrightarrow> obj_text a = obj_text b) \<and>
    (c < 0 \<longleftrightarrow> (obj_text a, obj_text b) \<in> lexord byte_less)"
proof -
  let ?a = "obj_text a" and ?b = "obj_text b"
  let ?m = "min (length ?a) (length ?b)"
  obtain ba bb where ba: "obj_chars junk a = Some (ba, length ?a)" "take (length ?a) ba = ?a" "length ?a \<le> length ba"
    and bb: "obj_chars junk b = Some (bb, length ?b)" "take (length ?b) bb = ?b" "length ?b \<le> length bb"
    using obj_chars_ok[OF assms(1)] obj_chars_ok[OF assms(2)] by metis
  have "take ?m ba = take ?m ?a" "take ?m bb = take ?m ?b"
    using ba(2) bb(2) by (metis min.commute min.left_idem take_take)+
  then have "mem_read ba 0 ?m = Some (take ?m ?a)" "mem_read bb 0 ?m = Some (take ?m ?b)"
    using ba(3) bb(3) by (simp_all add: mem_read_def)
  moreover have m: "(if length ?a < length ?b then length ?a else length ?b) = ?m" by simp
  moreover have "o_type a = REDIS_STRING" "o_type b = REDIS_STRING" using assms(1,2) by (simp_all add: obj_ok_def)
  ultimately have "compareStringObjects strcoll junk a b =
    Some (if memcmp (take ?m ?a) (take ?m ?b) = 0 then int (length ?a) - int (length ?b) else memcmp (take ?m ?a) (take ?m ?b))"
    unfolding compareStringObjects_def compareStringObjectsWithFlags_def ba(1) bb(1) Option.bind.bind_lunit prod.case Let_def m
      sint_diff_32[OF assms(3,4)] by simp
  then show ?thesis using compare_lex[of ?a ?b] by (simp add: Let_def)
qed

lemma equal_ok:
  assumes "obj_ok a" "obj_ok b" "length (obj_text a) < 2 ^ 31" "length (obj_text b) < 2 ^ 31"
  shows "equalStringObjects strcoll junk a b = Some (obj_text a = obj_text b)"
proof (cases "o_encoding a = ENC_INT \<and> o_encoding b = ENC_INT")
  case True
  then obtain v w where "o_ptr a = PLong v" "o_ptr b = PLong w" "obj_text a = int_repr (sint v)" "obj_text b = int_repr (sint w)"
    using obj_ok_cases[OF assms(1)] obj_ok_cases[OF assms(2)] by metis
  moreover have "v = w" if "int_repr (sint v) = int_repr (sint w)"
    using that numeral_value_int_repr by (metis option.inject signed_word_eqI)
  ultimately show ?thesis using True by (auto simp: equalStringObjects_def)
next
  case False
  then show ?thesis using compare_ok[OF assms, of strcoll junk] by (auto simp: equalStringObjects_def)
qed

section \<open>Encoding\<close>

lemma remove_free_ok:
  "sds_ok s \<Longrightarrow> sds_ok (sdsRemoveFreeSpace junk s) \<and> sds_text (sdsRemoveFreeSpace junk s) = sds_text s"
  by (auto simp: sds_ok_def sds_text_def sdsRemoveFreeSpace_def mem_realloc_def)

lemma encoding_ok:
  assumes "obj_ok o1" "shared_ok integers"
  shows "\<exists>sh o2. tryObjectEncoding junk clk server integers o1 = Some (sh, o2) \<and> shared_ok sh \<and> obj_ok o2 \<and> obj_text o2 = obj_text o1"
  using assms(1)
proof (cases rule: obj_ok_cases)
  case (int v)
  then show ?thesis using assms by (auto simp: tryObjectEncoding_def obj_ok_def)
next
  case (sds s)
  have o1: "o_type o1 = REDIS_STRING" "1 \<le> o_refcount o1" using assms(1) by (simp_all add: obj_ok_def)
  show ?thesis
  proof (cases "o_refcount o1 > 1")
    case True
    then show ?thesis using sds assms o1 by (auto simp: tryObjectEncoding_def)
  next
    case False
    then have one: "o_refcount o1 = 1" using o1 by simp
    have dec: "decrRefCount o1 = Some None" using one o1 by (simp add: decrRefCount_def freeStringObject_def)
    define num where "num = (if sdslen s \<le> 21 then string2l (sds_text s) else None)"
    have num: "(if sdslen s \<le> 21 then do { bs \<leftarrow> mem_read (s_buf s) 0 (sdslen s); Some (string2l bs) } else Some None) = Some num"
      using sds_bytes[OF sds(2)] by (simp add: num_def)
    note unf = tryObjectEncoding_def Let_def o1(1) sds(1) obj_ptr.case num Option.bind.bind_lunit
    show ?thesis
    proof (cases num)
      case (Some v)
      then have "string2ll (sds_text s) = Some v"
        by (auto simp: num_def string2l_def split: if_splits option.splits)
      then have t: "obj_text o1 = int_repr (sint v)" by (simp add: string2ll_iff sds(4))
      show ?thesis
      proof (cases "(maxmemory server = 0 \<or> (maxmemory_policy server \<noteq> VOLATILE_LRU \<and> maxmemory_policy server \<noteq> ALLKEYS_LRU)) \<and>
                  sint v \<ge> 0 \<and> sint v < int REDIS_SHARED_INTEGERS")
        case True
        then have "unat v < REDIS_SHARED_INTEGERS" using sint_nonneg[of v] by linarith
        then obtain sh o2 where "take_shared integers (unat v) = Some (sh, o2)" "shared_ok sh" "obj_ok o2" "o_ptr o2 = PLong v"
          using take_shared_ok[OF assms(2), of "unat v"] by auto
        then show ?thesis unfolding unf using True Some sds(3) one dec t by (simp add: obj_text_def)
      next
        case False
        then show ?thesis unfolding unf Some option.case if_not_P[OF False] using sds(3) one t assms(2) o1
          by (simp add: obj_text_def obj_ok_def)
      qed
    next
      case None
      show ?thesis
      proof (cases "sdslen s \<le> 39")
        case True
        have "sdslen s \<le> length (s_buf s)" using sds_okD[OF sds(2)] by (simp add: sdslen_def)
        then obtain e where "createEmbeddedStringObject clk (Some (s_buf s)) (sdslen s) = Some e" "obj_ok e" "obj_text e = sds_text s"
          using embedded_ok[OF True, of "Some (s_buf s)" clk] by (auto simp: sds_text_def sdslen_def)
        then show ?thesis unfolding unf using True None sds one dec assms
          by (simp add: REDIS_ENCODING_EMBSTR_SIZE_LIMIT_def)
      next
        case False
        then have raw: "o_encoding o1 = ENC_RAW" using sds(3,6) by (auto simp: sdsEncodedObject_def sdslen_def)
        then have "obj_ok (o1\<lparr>o_ptr := PSds (sdsRemoveFreeSpace junk s)\<rparr>)"
          using remove_free_ok[OF sds(2)] o1 by (simp add: obj_ok_def)
        moreover have "obj_text (o1\<lparr>o_ptr := PSds (sdsRemoveFreeSpace junk s)\<rparr>) = sds_text s"
          using remove_free_ok[OF sds(2)] by (simp add: obj_text_def)
        ultimately show ?thesis unfolding unf using False None sds one assms
          by (simp add: REDIS_ENCODING_EMBSTR_SIZE_LIMIT_def)
      qed
    qed
  qed
qed

section \<open>Idle time\<close>

lemma lru_wrap:
  fixes a b m :: nat
  assumes "a \<le> b" "b - a < m"
  shows "(if a mod m \<le> b mod m then b mod m - a mod m else b mod m + (m - 1 - a mod m)) =
    b - a - (if a mod m \<le> b mod m then 0 else 1)"
proof -
  define x y where "x = a mod m" and "y = b mod m"
  have xm: "x < m" using assms(2) by (simp add: x_def)
  have b: "y = (x + (b - a)) mod m" using assms(1) unfolding x_def y_def by (metis le_add_diff_inverse mod_add_left_eq)
  show ?thesis
  proof (cases "x + (b - a) < m")
    case True
    then have "y = x + (b - a)" using b by simp
    then show ?thesis unfolding x_def[symmetric] y_def[symmetric] by simp
  next
    case False
    then have "y = x + (b - a) - m"
      using b le_mod_geq[of m "x + (b - a)"] mod_less[of "x + (b - a) - m" m] xm assms(2) by simp
    then show ?thesis unfolding x_def[symmetric] y_def[symmetric] using False assms(2) xm by auto
  qed
qed

lemma idle_time:
  assumes "t0 \<le> t1" "t1 div 1000 - t0 div 1000 < 2 ^ 24" "o_lru o1 = getLRUClock t0"
  shows "estimateObjectIdleTime (getLRUClock t1) o1 =
    (t1 div 1000 - t0 div 1000 - (if getLRUClock t0 \<le> getLRUClock t1 then 0 else 1)) * 1000"
proof -
  have g: "getLRUClock t = (t div 1000) mod 2 ^ 24" for t
    by (simp add: getLRUClock_def REDIS_LRU_CLOCK_MAX_def REDIS_LRU_CLOCK_RESOLUTION_def)
  have "estimateObjectIdleTime (getLRUClock t1) o1 = (if getLRUClock t0 \<le> getLRUClock t1 then getLRUClock t1 - getLRUClock t0
      else getLRUClock t1 + (2 ^ 24 - 1 - getLRUClock t0)) * 1000"
    unfolding estimateObjectIdleTime_def assms(3) REDIS_LRU_CLOCK_RESOLUTION_def REDIS_LRU_CLOCK_MAX_def
    by (simp only: if_distrib[of "\<lambda>x. x * 1000"])
  then show ?thesis unfolding g lru_wrap[OF div_le_mono[OF assms(1)] assms(2)] .
qed

text \<open>An object with the given text, for the examples.\<close>

definition str_obj :: "bytes \<Rightarrow> robj" where
  "str_obj t = createObject REDIS_STRING (PSds \<lparr>s_len = length t, s_free = 0, s_buf = t @ [0]\<rparr>) 0"

lemma str_obj_text [simp]: "obj_text (str_obj t) = t"
  by (simp add: str_obj_def obj_text_def createObject_def sds_text_def)

lemma str_obj_ok [simp]: "length t < 2 ^ 32 \<Longrightarrow> obj_ok (str_obj t)"
  by (simp add: str_obj_def obj_ok_def createObject_def sds_ok_def nth_append)

section \<open>Properties\<close>

text \<open>C26. Encoding a string object is invisible to its readers: for every well-formed object
  \<open>tryObjectEncoding\<close> returns (no panic, no access out of bounds) a well-formed object with the same text, so
  \<open>stringObjectLen\<close> and \<open>getLongLongFromObject\<close> give the same answers before and after, and the pool of shared
  integers stays well-formed.\<close>

theorem tryObjectEncoding_transparent:
  assumes "obj_ok o1" "shared_ok integers"
  shows "\<exists>sh o2. tryObjectEncoding junk clk server integers o1 = Some (sh, o2) \<and> shared_ok sh \<and> obj_ok o2 \<and>
    obj_text o2 = obj_text o1 \<and> stringObjectLen junk o2 = stringObjectLen junk o1 \<and>
    getLongLongFromObject (Some o2) = getLongLongFromObject (Some o1)"
proof -
  obtain sh o2 where "tryObjectEncoding junk clk server integers o1 = Some (sh, o2)" "shared_ok sh" "obj_ok o2" "obj_text o2 = obj_text o1"
    using encoding_ok[OF assms] by blast
  then show ?thesis using assms(1) by (simp add: stringObjectLen_ok getLongLong_ok)
qed

theorem tryObjectEncoding_transparent_witness:
  "\<exists>sh o2. tryObjectEncoding (\<lambda>_. 0) 5 \<lparr>maxmemory = 0, maxmemory_policy = NO_EVICTION\<rparr> (createSharedIntegers 0)
      (createObject REDIS_STRING (PSds \<lparr>s_len = 2, s_free = 0, s_buf = [52, 50, 0]\<rparr>) 7) = Some (sh, o2) \<and> obj_text o2 = [52, 50]"
  using tryObjectEncoding_transparent[OF _ shared_integers_ok, of "createObject REDIS_STRING (PSds \<lparr>s_len = 2, s_free = 0, s_buf = [52, 50, 0]\<rparr>) 7"
      "\<lambda>_. 0" 5 "\<lparr>maxmemory = 0, maxmemory_policy = NO_EVICTION\<rparr>" 0]
  by (force simp: obj_ok_def createObject_def sds_ok_def obj_text_def sds_text_def)

text \<open>Comparing two string objects compares their texts, whatever their encodings: the sign of
  \<open>compareStringObjects\<close> is the lexicographic order of unsigned bytes with the shorter string first, and
  \<open>equalStringObjects\<close> decides equality of the texts.\<close>

lemma compareStringObjects_lexicographic:
  assumes "obj_ok a" "obj_ok b" "length (obj_text a) < 2 ^ 31" "length (obj_text b) < 2 ^ 31"
  shows "equalStringObjects strcoll junk a b = Some (obj_text a = obj_text b) \<and>
    (\<exists>c. compareStringObjects strcoll junk a b = Some c \<and> (c = 0 \<longleftrightarrow> obj_text a = obj_text b) \<and>
      (c < 0 \<longleftrightarrow> (obj_text a, obj_text b) \<in> lexord byte_less))"
  using equal_ok[OF assms] compare_ok[OF assms] by blast

text \<open>C34. Which values are accepted as integers: of the text up to its first null byte,
  \<open>getLongLongFromObject\<close> accepts exactly the empty text (as 0) and the signed decimal numerals in the range of
  64 bits, leading zeros and a plus sign included, and reports an error for every other text.\<close>

theorem getLongLongFromObject_accepts:
  assumes "obj_ok o1" "cs = takeWhile (\<lambda>c. c \<noteq> 0) (obj_text o1)"
  shows "getLongLongFromObject (Some o1) = Some (
    if cs = [] then Some 0
    else case numeral_value cs of
        Some i \<Rightarrow> if - (2 ^ 63) \<le> i \<and> i < 2 ^ 63 then Some (word_of_int i) else None
      | None \<Rightarrow> None)"
  using getLongLong_ok[OF assms(1)] by (simp add: text_ll_def assms(2) Let_def)

theorem getLongLongFromObject_accepts_witness:
  "getLongLongFromObject (Some (createObject REDIS_STRING (PSds \<lparr>s_len = 4, s_free = 0, s_buf = [43, 48, 55, 0, 0]\<rparr>) 0)) = Some (Some 7) \<and>
   getLongLongFromObject (Some (createObject REDIS_STRING (PSds \<lparr>s_len = 2, s_free = 0, s_buf = [32, 55, 0]\<rparr>) 0)) = Some None"
  using getLongLongFromObject_accepts[OF _ refl, of "createObject REDIS_STRING (PSds \<lparr>s_len = 4, s_free = 0, s_buf = [43, 48, 55, 0, 0]\<rparr>) 0"]
    getLongLongFromObject_accepts[OF _ refl, of "createObject REDIS_STRING (PSds \<lparr>s_len = 2, s_free = 0, s_buf = [32, 55, 0]\<rparr>) 0"]
  by (simp add: obj_ok_def createObject_def sds_ok_def obj_text_def sds_text_def numeral_value_def is_digit_def Let_def)

text \<open>C35. The idle time of an object, kept in a wrapping 24-bit clock of seconds that the server caches.  The object was
  accessed at the time \<open>t0\<close>, when the clock had last been set at \<open>c0\<close>, and its idle time is estimated at \<open>t1\<close>, when the
  clock had last been set at \<open>c1\<close>.  As long as the ticks between the two settings are fewer than \<open>2 ^ 24\<close> (194 days), the
  estimate is their number in milliseconds, except that one tick is lost when the clock has wrapped in between; so it
  differs from the time elapsed by less than two seconds plus the age of the cached clock (1000/hz milliseconds when
  \<open>serverCron\<close> runs on time).\<close>

theorem idle_time_error:
  assumes "0 < hz" "c0 \<le> c1" "c1 div 1000 - c0 div 1000 < 2 ^ 24" "o_lru o1 = LRU_CLOCK hz (getLRUClock c0) t0"
    "c0 \<le> t0" "t0 \<le> c0 + lag" "c1 \<le> t1" "t1 \<le> c1 + lag"
  shows "estimateObjectIdleTime (LRU_CLOCK hz (getLRUClock c1) t1) o1 =
      (c1 div 1000 - c0 div 1000 - (if getLRUClock c0 \<le> getLRUClock c1 then 0 else 1)) * 1000 \<and>
    \<bar>int (estimateObjectIdleTime (LRU_CLOCK hz (getLRUClock c1) t1) o1) - (int t1 - int t0)\<bar> < 2000 + int lag"
proof -
  have "1000 div hz \<le> 1000" by simp
  then have clk: "LRU_CLOCK hz l t = l" for l t by (simp add: LRU_CLOCK_def REDIS_LRU_CLOCK_RESOLUTION_def)
  define q0 q1 where "q0 = c0 div 1000" and "q1 = c1 div 1000"
  have q: "q0 * 1000 \<le> c0" "c0 < q0 * 1000 + 1000" "q1 * 1000 \<le> c1" "c1 < q1 * 1000 + 1000" "q0 \<le> q1"
    using assms(2) div_mult_mod_eq[of c0 1000] div_mult_mod_eq[of c1 1000] by (simp_all add: q0_def q1_def div_le_mono)
  have "(q1 - q0 - k) * 1000 < c1 - c0 + 2000 \<and> c1 - c0 < (q1 - q0 - k) * 1000 + 2000" if "k \<le> 1" for k
    using q assms(2) that by (cases "q0 = q1") (simp_all, linarith+)
  then have "\<bar>int ((q1 - q0 - k) * 1000) - (int t1 - int t0)\<bar> < 2000 + int lag" if "k \<le> 1" for k
    using that[THEN \<open>\<And>k. k \<le> 1 \<Longrightarrow> _\<close>] assms(2,5-8) by linarith
  then show ?thesis unfolding clk idle_time[OF assms(2,3) assms(4)[unfolded clk]] q0_def q1_def by simp
qed

theorem idle_time_error_witness:
  "estimateObjectIdleTime (LRU_CLOCK 10 (getLRUClock ((2 ^ 24 + 1) * 1000)) ((2 ^ 24 + 1) * 1000 + 99))
     (createObject REDIS_STRING (PLong 0) (LRU_CLOCK 10 (getLRUClock ((2 ^ 24 - 1) * 1000)) ((2 ^ 24 - 1) * 1000 + 5))) = 1000"
  using idle_time_error[of 10 "(2 ^ 24 - 1) * 1000" "(2 ^ 24 + 1) * 1000"
      "createObject REDIS_STRING (PLong 0) (LRU_CLOCK 10 (getLRUClock ((2 ^ 24 - 1) * 1000)) ((2 ^ 24 - 1) * 1000 + 5))" "(2 ^ 24 - 1) * 1000 + 5" 99
      "(2 ^ 24 + 1) * 1000 + 99"]
  by (simp add: createObject_def LRU_CLOCK_def getLRUClock_def REDIS_LRU_CLOCK_MAX_def REDIS_LRU_CLOCK_RESOLUTION_def)

end
