(* ===== verification/Redis_Rdb.thy ===== *)
theory Redis_Rdb
  imports Redis_Rio Redis_Lzf Redis_Object
begin

text \<open>
  \<open>rdb.c\<close>: the primitive encodings of the dump format - types, times, lengths and strings with their
  integer and compressed forms.

  The savers take the stream as an option, as the C functions take a pointer that may be null (then
  they only compute the length), and return the stream with the C \<open>int\<close> result, -1 for an error.  The
  loaders return the stream with the value, or the value the C code returns on a short read.  Where the
  code can stop the server or access memory out of bounds the result is \<open>None\<close>.  The junk of fresh
  allocations, the uninitialised table of the compressor and the clock are arguments, and the pool of
  shared integers is passed along because integer objects may be taken from it.
\<close>

unbundle bit_operations_syntax

section \<open>The code\<close>

definition REDIS_RDB_6BITLEN :: "32 word" where "REDIS_RDB_6BITLEN = 0"
definition REDIS_RDB_14BITLEN :: "32 word" where "REDIS_RDB_14BITLEN = 1"
definition REDIS_RDB_32BITLEN :: "32 word" where "REDIS_RDB_32BITLEN = 2"
definition REDIS_RDB_ENCVAL :: "32 word" where "REDIS_RDB_ENCVAL = 3"
definition REDIS_RDB_LENERR :: "32 word" where "REDIS_RDB_LENERR = - 1"
definition REDIS_RDB_ENC_INT8 :: "32 word" where "REDIS_RDB_ENC_INT8 = 0"
definition REDIS_RDB_ENC_INT16 :: "32 word" where "REDIS_RDB_ENC_INT16 = 1"
definition REDIS_RDB_ENC_INT32 :: "32 word" where "REDIS_RDB_ENC_INT32 = 2"
definition REDIS_RDB_ENC_LZF :: "32 word" where "REDIS_RDB_ENC_LZF = 3"

lemmas rdb_consts = REDIS_RDB_6BITLEN_def REDIS_RDB_14BITLEN_def REDIS_RDB_32BITLEN_def REDIS_RDB_ENCVAL_def
  REDIS_RDB_LENERR_def REDIS_RDB_ENC_INT8_def REDIS_RDB_ENC_INT16_def REDIS_RDB_ENC_INT32_def REDIS_RDB_ENC_LZF_def

type_synonym 'io rdb_result = "'io rio option \<times> 32 word"

definition rdbWriteRaw :: "'io rio_ops \<Rightarrow> 'io rio option \<Rightarrow> bytes \<Rightarrow> 'io rdb_result" where
  "rdbWriteRaw ops rdb p =
     (case rdb of
        None \<Rightarrow> (None, of_nat (length p))
      | Some r \<Rightarrow> let (r, ok) = rioWrite ops r p in (Some r, if \<not> ok then - 1 else of_nat (length p)))"

definition rdbSaveType :: "'io rio_ops \<Rightarrow> 'io rio option \<Rightarrow> byte \<Rightarrow> 'io rdb_result" where
  "rdbSaveType ops rdb type = rdbWriteRaw ops rdb [type]"

definition rdbLoadType :: "'io rio_ops \<Rightarrow> 'io rio \<Rightarrow> 'io rio \<times> int" where
  "rdbLoadType ops r = (case rioRead ops r 1 of (r, None) \<Rightarrow> (r, - 1) | (r, Some bs) \<Rightarrow> (r, int (unat (bs ! 0))))"

definition rdbLoadTime :: "'io rio_ops \<Rightarrow> 'io rio \<Rightarrow> 'io rio \<times> int" where
  "rdbLoadTime ops r = (case rioRead ops r 4 of (r, None) \<Rightarrow> (r, - 1) | (r, Some bs) \<Rightarrow> (r, to_signed 4 (le_dec bs)))"

definition rdbSaveMillisecondTime :: "'io rio_ops \<Rightarrow> 'io rio option \<Rightarrow> 64 word \<Rightarrow> 'io rdb_result" where
  "rdbSaveMillisecondTime ops rdb t = rdbWriteRaw ops rdb (le_enc 8 (sint t))"

definition rdbLoadMillisecondTime :: "'io rio_ops \<Rightarrow> 'io rio \<Rightarrow> 'io rio \<times> 64 word" where
  "rdbLoadMillisecondTime ops r = (case rioRead ops r 8 of (r, None) \<Rightarrow> (r, - 1) | (r, Some bs) \<Rightarrow> (r, word_of_int (le_dec bs)))"

text \<open>\<open>htonl\<close> stores the length in network order: most significant byte first.\<close>

definition rdbSaveLen :: "'io rio_ops \<Rightarrow> 'io rio option \<Rightarrow> 32 word \<Rightarrow> 'io rdb_result" where
  "rdbSaveLen ops rdb len =
     (if len < 2 ^ 6 then
        let buf0 = ucast ((len AND 0xFF) OR push_bit 6 REDIS_RDB_6BITLEN);
            (rdb, n) = rdbWriteRaw ops rdb [buf0]
        in (rdb, if n = - 1 then - 1 else 1)
      else if len < 2 ^ 14 then
        let buf0 = ucast ((drop_bit 8 len AND 0xFF) OR push_bit 6 REDIS_RDB_14BITLEN);
            buf1 = ucast (len AND 0xFF);
            (rdb, n) = rdbWriteRaw ops rdb [buf0, buf1]
        in (rdb, if n = - 1 then - 1 else 2)
      else
        let buf0 = ucast (push_bit 6 REDIS_RDB_32BITLEN);
            (rdb, n) = rdbWriteRaw ops rdb [buf0]
        in if n = - 1 then (rdb, - 1)
           else let (rdb, n) = rdbWriteRaw ops rdb (rev (le_enc 4 (uint len)))
                in (rdb, if n = - 1 then - 1 else 1 + 4))"

definition rdbLoadLen :: "'io rio_ops \<Rightarrow> 'io rio \<Rightarrow> 'io rio \<times> 32 word \<times> bool" where
  "rdbLoadLen ops r = (case rioRead ops r 1 of
       (r, None) \<Rightarrow> (r, REDIS_RDB_LENERR, False)
     | (r, Some buf) \<Rightarrow>
         let buf0 = ucast (buf ! 0) :: 32 word;
             type = drop_bit 6 (buf0 AND 0xC0)
         in if type = REDIS_RDB_ENCVAL then (r, buf0 AND 0x3F, True)
            else if type = REDIS_RDB_6BITLEN then (r, buf0 AND 0x3F, False)
            else if type = REDIS_RDB_14BITLEN then
              (case rioRead ops r 1 of
                 (r, None) \<Rightarrow> (r, REDIS_RDB_LENERR, False)
               | (r, Some buf) \<Rightarrow> (r, push_bit 8 (buf0 AND 0x3F) OR ucast (buf ! 0), False))
            else
              (case rioRead ops r 4 of
                 (r, None) \<Rightarrow> (r, REDIS_RDB_LENERR, False)
               | (r, Some buf) \<Rightarrow> (r, word_of_int (le_dec (rev buf)), False)))"

text \<open>\<open>None\<close> stands for the return value 0: the value does not fit.\<close>

definition rdbEncodeInteger :: "64 word \<Rightarrow> bytes option" where
  "rdbEncodeInteger v =
     (if sint v \<ge> - (2 ^ 7) \<and> sint v \<le> 2 ^ 7 - 1 then
        Some [ucast (push_bit 6 REDIS_RDB_ENCVAL OR REDIS_RDB_ENC_INT8), ucast (v AND 0xFF)]
      else if sint v \<ge> - (2 ^ 15) \<and> sint v \<le> 2 ^ 15 - 1 then
        Some [ucast (push_bit 6 REDIS_RDB_ENCVAL OR REDIS_RDB_ENC_INT16), ucast (v AND 0xFF),
              ucast (signed_drop_bit 8 v AND 0xFF)]
      else if sint v \<ge> - (2 ^ 31) \<and> sint v \<le> 2 ^ 31 - 1 then
        Some [ucast (push_bit 6 REDIS_RDB_ENCVAL OR REDIS_RDB_ENC_INT32), ucast (v AND 0xFF),
              ucast (signed_drop_bit 8 v AND 0xFF), ucast (signed_drop_bit 16 v AND 0xFF),
              ucast (signed_drop_bit 24 v AND 0xFF)]
      else None)"

type_synonym 'io rdb_object = "('io rio \<times> robj list \<times> robj option) option"

text \<open>The bytes of an integer assembled as the code does, and the sign extension of the result.\<close>

definition int_payload :: "32 word \<Rightarrow> bytes \<Rightarrow> 64 word" where
  "int_payload enctype enc =
     (if enctype = REDIS_RDB_ENC_INT8 then scast (enc ! 0)
      else if enctype = REDIS_RDB_ENC_INT16
      then scast (ucast (enc ! 0) OR push_bit 8 (ucast (enc ! 1)) :: 16 word)
      else scast (((ucast (enc ! 0) OR push_bit 8 (ucast (enc ! 1))) OR push_bit 16 (ucast (enc ! 2)))
             OR push_bit 24 (ucast (enc ! 3)) :: 32 word))"

definition rdbLoadIntegerObject ::
  "(nat \<Rightarrow> byte) \<Rightarrow> nat \<Rightarrow> 'io rio_ops \<Rightarrow> 'io rio \<Rightarrow> robj list \<Rightarrow> 32 word \<Rightarrow> bool \<Rightarrow> 'io rdb_object" where
  "rdbLoadIntegerObject junk clk ops r integers enctype encode = do {
     n \<leftarrow> (if enctype = REDIS_RDB_ENC_INT8 then Some 1
          else if enctype = REDIS_RDB_ENC_INT16 then Some 2
          else if enctype = REDIS_RDB_ENC_INT32 then Some 4 else None);
     (case rioRead ops r n of
        (r, None) \<Rightarrow> Some (r, integers, None)
      | (r, Some enc) \<Rightarrow>
          let val = int_payload enctype enc
          in if encode then do {
               (integers, o1) \<leftarrow> createStringObjectFromLongLong junk clk integers val;
               Some (r, integers, Some o1)
             } else do {
               s \<leftarrow> sdsfromlonglong junk val;
               Some (r, integers, Some (createObject REDIS_STRING (PSds s) clk))
             })
   }"

text \<open>The string is the \<open>len\<close> first bytes of \<open>mem\<close>; \<open>Some None\<close> stands for the return value 0.\<close>

definition rdbTryIntegerEncoding :: "(nat \<Rightarrow> byte) \<Rightarrow> bytes \<Rightarrow> nat \<Rightarrow> bytes option option" where
  "rdbTryIntegerEncoding junk mem len = do {
     s \<leftarrow> c_string mem;
     let (v, endptr, _) = strtoll s;
     (if chr endptr 0 \<noteq> 0 then Some None
      else do {
        (_, buf) \<leftarrow> ll2string (map junk [0..<32]) 32 (word_of_int v);
        str \<leftarrow> c_string buf;
        (if length str \<noteq> len then Some None
         else do {
           a \<leftarrow> mem_read buf 0 len;
           b \<leftarrow> mem_read mem 0 len;
           Some (if memcmp a b \<noteq> 0 then None else rdbEncodeInteger (word_of_int v))
         })
      })
   }"

definition rdbSaveLzfStringObject ::
  "(nat \<Rightarrow> byte) \<Rightarrow> (nat \<Rightarrow> int) \<Rightarrow> 'io rio_ops \<Rightarrow> 'io rio option \<Rightarrow> bytes \<Rightarrow> nat \<Rightarrow> 'io rdb_result option" where
  "rdbSaveLzfStringObject junk htab ops rdb mem len =
     (if len \<le> 4 then Some (rdb, 0)
      else do {
        let outlen = len - 4;
        s \<leftarrow> mem_read mem 0 len;
        c \<leftarrow> lzf_compress htab s (map junk [0..<outlen + 1]) outlen;
        (case c of
           None \<Rightarrow> Some (rdb, 0)
         | Some (comprlen, out) \<Rightarrow>
             if comprlen = 0 then Some (rdb, 0)
             else
               let b = ucast (push_bit 6 REDIS_RDB_ENCVAL OR REDIS_RDB_ENC_LZF);
                   (rdb, n1) = rdbWriteRaw ops rdb [b]
               in if n1 = - 1 then Some (rdb, - 1)
               else let (rdb, n2) = rdbSaveLen ops rdb (of_nat comprlen)
               in if n2 = - 1 then Some (rdb, - 1)
               else let (rdb, n3) = rdbSaveLen ops rdb (of_nat len)
               in if n3 = - 1 then Some (rdb, - 1)
               else let (rdb, n4) = rdbWriteRaw ops rdb (take comprlen out)
               in if n4 = - 1 then Some (rdb, - 1)
               else Some (rdb, n1 + n2 + n3 + n4))
      })"

definition rdbLoadLzfStringObject ::
  "(nat \<Rightarrow> byte) \<Rightarrow> nat \<Rightarrow> 'io rio_ops \<Rightarrow> 'io rio \<Rightarrow> robj list \<Rightarrow> 'io rdb_object" where
  "rdbLoadLzfStringObject junk clk ops r integers = (
     let (r, clen, _) = rdbLoadLen ops r
     in if clen = REDIS_RDB_LENERR then Some (r, integers, None)
     else let (r, len, _) = rdbLoadLen ops r
     in if len = REDIS_RDB_LENERR then Some (r, integers, None)
     else do {
       val \<leftarrow> sdsnewlen junk None (unat len);
       (case rioRead ops r (unat clen) of
          (r, None) \<Rightarrow> Some (r, integers, None)
        | (r, Some c) \<Rightarrow> do {
            d \<leftarrow> lzf_decompress c (take (unat len) (s_buf val));
            (case d of
               None \<Rightarrow> Some (r, integers, None)
             | Some (n, out) \<Rightarrow>
                 if n = 0 then Some (r, integers, None)
                 else do {
                   buf \<leftarrow> mem_write (s_buf val) 0 out;
                   Some (r, integers, Some (createObject REDIS_STRING (PSds (val\<lparr>s_buf := buf\<rparr>)) clk))
                 })
          })
     })"

definition rdbSaveRawString ::
  "(nat \<Rightarrow> byte) \<Rightarrow> (nat \<Rightarrow> int) \<Rightarrow> bool \<Rightarrow> 'io rio_ops \<Rightarrow> 'io rio option \<Rightarrow> bytes \<Rightarrow> nat \<Rightarrow> 'io rdb_result option" where
  "rdbSaveRawString junk htab rdb_compression ops rdb mem len = do {
     enc \<leftarrow> (if len \<le> 11 then rdbTryIntegerEncoding junk mem len else Some None);
     (case enc of
        Some buf \<Rightarrow>
          let (rdb, n) = rdbWriteRaw ops rdb buf
          in Some (rdb, if n = - 1 then - 1 else of_nat (length buf))
      | None \<Rightarrow> do {
          (rdb, n) \<leftarrow> (if rdb_compression \<and> len > 20 then rdbSaveLzfStringObject junk htab ops rdb mem len
                      else Some (rdb, 0));
          (if n = - 1 then Some (rdb, - 1)
           else if sint n > 0 then Some (rdb, n)
           else
             let (rdb, n) = rdbSaveLen ops rdb (of_nat len)
             in if n = - 1 then Some (rdb, - 1)
             else if len > 0 then do {
               s \<leftarrow> mem_read mem 0 len;
               let (rdb, n') = rdbWriteRaw ops rdb s;
               Some (rdb, if n' = - 1 then - 1 else n + of_nat len)
             } else Some (rdb, n))
        })
   }"

definition rdbSaveLongLongAsStringObject ::
  "(nat \<Rightarrow> byte) \<Rightarrow> 'io rio_ops \<Rightarrow> 'io rio option \<Rightarrow> 64 word \<Rightarrow> 'io rdb_result option" where
  "rdbSaveLongLongAsStringObject junk ops rdb v =
     (case rdbEncodeInteger v of
        Some buf \<Rightarrow> Some (rdbWriteRaw ops rdb buf)
      | None \<Rightarrow> do {
          (enclen, buf) \<leftarrow> ll2string (map junk [0..<32]) 32 v;
          (if \<not> enclen < 32 then None
           else
             let (rdb, n) = rdbSaveLen ops rdb (of_nat enclen)
             in if n = - 1 then Some (rdb, - 1)
             else let (rdb, n') = rdbWriteRaw ops rdb (take enclen buf)
             in Some (rdb, if n' = - 1 then - 1 else n + n'))
        })"

definition rdbSaveStringObject ::
  "(nat \<Rightarrow> byte) \<Rightarrow> (nat \<Rightarrow> int) \<Rightarrow> bool \<Rightarrow> 'io rio_ops \<Rightarrow> 'io rio option \<Rightarrow> robj \<Rightarrow> 'io rdb_result option" where
  "rdbSaveStringObject junk htab rdb_compression ops rdb obj =
     (case (o_encoding obj, o_ptr obj) of
        (ENC_INT, PLong v) \<Rightarrow> rdbSaveLongLongAsStringObject junk ops rdb v
      | (_, PSds s) \<Rightarrow>
          if sdsEncodedObject obj then rdbSaveRawString junk htab rdb_compression ops rdb (s_buf s) (sdslen s) else None
      | _ \<Rightarrow> None)"

definition rdbGenericLoadStringObject ::
  "(nat \<Rightarrow> byte) \<Rightarrow> nat \<Rightarrow> 'io rio_ops \<Rightarrow> 'io rio \<Rightarrow> robj list \<Rightarrow> bool \<Rightarrow> 'io rdb_object" where
  "rdbGenericLoadStringObject junk clk ops r integers encode = (
     let (r, len, isencoded) = rdbLoadLen ops r
     in if isencoded then
          (if len = REDIS_RDB_ENC_INT8 \<or> len = REDIS_RDB_ENC_INT16 \<or> len = REDIS_RDB_ENC_INT32
           then rdbLoadIntegerObject junk clk ops r integers len encode
           else if len = REDIS_RDB_ENC_LZF then rdbLoadLzfStringObject junk clk ops r integers
           else None)
        else if len = REDIS_RDB_LENERR then Some (r, integers, None)
        else do {
          o1 \<leftarrow> (if encode then createStringObject junk clk None (unat len)
                else createRawStringObject junk clk None (unat len));
          (if len = 0 then Some (r, integers, Some o1)
           else case rioRead ops r (unat len) of
             (r, None) \<Rightarrow> do { decrRefCount o1; Some (r, integers, None) }
           | (r, Some bs) \<Rightarrow>
               (case o_ptr o1 of
                  PSds s \<Rightarrow> do {
                    buf \<leftarrow> mem_write (s_buf s) 0 bs;
                    Some (r, integers, Some (o1\<lparr>o_ptr := PSds (s\<lparr>s_buf := buf\<rparr>)\<rparr>))
                  }
                | _ \<Rightarrow> None))
        })"

definition rdbLoadStringObject ::
  "(nat \<Rightarrow> byte) \<Rightarrow> nat \<Rightarrow> 'io rio_ops \<Rightarrow> 'io rio \<Rightarrow> robj list \<Rightarrow> 'io rdb_object" where
  "rdbLoadStringObject junk clk ops r integers = rdbGenericLoadStringObject junk clk ops r integers False"

definition rdbLoadEncodedStringObject ::
  "(nat \<Rightarrow> byte) \<Rightarrow> nat \<Rightarrow> 'io rio_ops \<Rightarrow> 'io rio \<Rightarrow> robj list \<Rightarrow> 'io rdb_object" where
  "rdbLoadEncodedStringObject junk clk ops r integers = rdbGenericLoadStringObject junk clk ops r integers True"

section \<open>Lengths\<close>

definition emit :: "rio_buffer rio option \<Rightarrow> bytes \<Rightarrow> rio_buffer rio option" where
  "emit rdb bs = map_option (\<lambda>r. appended r bs) rdb"

definition type_byte :: "32 word \<Rightarrow> byte" where
  "type_byte t = ucast (push_bit 6 REDIS_RDB_ENCVAL OR t)"

definition len_enc :: "32 word \<Rightarrow> bytes" where
  "len_enc len =
     (if len < 2 ^ 6 then [ucast ((len AND 0xFF) OR push_bit 6 REDIS_RDB_6BITLEN)]
      else if len < 2 ^ 14
      then [ucast ((drop_bit 8 len AND 0xFF) OR push_bit 6 REDIS_RDB_14BITLEN), ucast (len AND 0xFF)]
      else [ucast (push_bit 6 REDIS_RDB_32BITLEN)] @ rev (le_enc 4 (uint len)))"

lemma emit_simps [simp]: "emit None bs = None" "emit (Some r) bs = Some (appended r bs)" "emit rdb [] = rdb"
  by (cases rdb; simp add: emit_def)+

lemma emit_emit [simp]: "emit (emit rdb a) b = emit rdb (a @ b)"
  by (cases rdb) (simp_all add: appended_append)

lemma write_raw: "rdbWriteRaw rioBufferIO rdb p = (emit rdb p, of_nat (length p))"
  by (cases rdb) (simp_all add: rdbWriteRaw_def rioWrite_buffer)

lemma length_len_enc: "1 \<le> length (len_enc len) \<and> length (len_enc len) \<le> 5"
  by (simp add: len_enc_def)

lemma save_len: "rdbSaveLen rioBufferIO rdb len = (emit rdb (len_enc len), of_nat (length (len_enc len)))"
  by (simp add: rdbSaveLen_def len_enc_def write_raw Let_def)

lemma read_bytes:
  assumes "pending r = bs @ rest" "n = length bs"
  shows "rioRead rioBufferIO r n = (consumed r bs, Some bs)"
  using rioRead_buffer[OF assms(1)] assms(2) by simp

lemma tag_bits:
  assumes "h < 64" "t = 0 \<or> t = 1"
  shows "let b = ucast (ucast ((h AND 0xFF) OR push_bit 6 t) :: byte) :: 32 word
         in drop_bit 6 (b AND 0xC0) = t \<and> b AND 0x3F = h"
proof -
  have *: "\<forall>n\<in>set [0..<64]. \<forall>t\<in>set [0, 1]. let b = ucast (ucast ((of_nat n AND 0xFF) OR push_bit 6 t) :: byte) :: 32 word
         in drop_bit 6 (b AND 0xC0) = t \<and> b AND 0x3F = of_nat n"
    by code_simp
  have "unat h \<in> set [0..<64]" using assms(1) by (simp add: word_less_nat_alt)
  from bspec[OF bspec[OF * this], of t] show ?thesis using assms(2) by auto
qed

lemma low_byte: "ucast (ucast (len AND 0xFF) :: byte) = take_bit 8 (len :: 32 word)"
proof -
  have "len AND 0xFF = take_bit 8 len" by (simp add: take_bit_eq_mask mask_eq_exp_minus_1)
  then show ?thesis by (intro bit_word_eqI) (auto simp: bit_simps)
qed

lemma load_len:
  assumes "pending rd = len_enc len @ rest"
  shows "rdbLoadLen rioBufferIO rd = (consumed rd (len_enc len), len, False)"
proof -
  define b0 where "b0 = hd (len_enc len)"
  define bs where "bs = tl (len_enc len)"
  have e: "len_enc len = [b0] @ bs" by (simp add: b0_def bs_def len_enc_def)
  have r1: "rioRead rioBufferIO rd 1 = (consumed rd [b0], Some [b0])"
    by (rule read_bytes) (use assms e in simp_all)
  have p: "pending (consumed rd [b0]) = bs @ rest" by (rule pending_consumed) (use assms e in simp)
  have r2: "rioRead rioBufferIO (consumed rd [b0]) (length bs) = (consumed rd (len_enc len), Some bs)"
    using read_bytes[OF p refl] by (simp add: consumed_append e)
  consider "len < 2 ^ 6" | "\<not> len < 2 ^ 6" "len < 2 ^ 14" | "\<not> len < 2 ^ 6" "\<not> len < 2 ^ 14" by blast
  then show ?thesis
  proof cases
    case 1
    then have b: "b0 = ucast ((len AND 0xFF) OR push_bit 6 0)" "bs = []" by (simp_all add: b0_def bs_def len_enc_def rdb_consts)
    have "drop_bit 6 (ucast b0 AND 0xC0) = (0 :: 32 word) \<and> ucast b0 AND 0x3F = len"
      using tag_bits[of len 0] 1 by (simp add: Let_def b)
    then show ?thesis using r1 b(2) e by (simp add: rdbLoadLen_def rdb_consts)
  next
    case 2
    let ?h = "drop_bit 8 len"
    have b: "b0 = ucast ((?h AND 0xFF) OR push_bit 6 1)" "bs = [ucast (len AND 0xFF)]"
      using 2 by (simp_all add: b0_def bs_def len_enc_def rdb_consts)
    have "?h < 64" using 2(2) by (simp add: word_less_nat_alt drop_bit_eq_div unat_div less_mult_imp_div_less)
    then have t: "drop_bit 6 (ucast b0 AND 0xC0) = (1 :: 32 word)" "ucast b0 AND 0x3F = ?h"
      using tag_bits[of ?h 1] by (simp_all add: Let_def b)
    have "push_bit 8 ?h OR ucast (ucast (len AND 0xFF) :: byte) = len"
      unfolding low_byte by (rule bit_word_eqI) (auto simp: bit_simps)
    then show ?thesis using r1 r2 t b(2) by (simp add: rdbLoadLen_def rdb_consts)
  next
    case 3
    then have b: "b0 = 128" "bs = rev (le_enc 4 (uint len))" by (simp_all add: b0_def bs_def len_enc_def rdb_consts)
    have "word_of_int (le_dec (rev bs)) = len" using uint_lt2p[of len] by (simp add: b le_dec_enc)
    then show ?thesis using r1 r2 b by (simp add: rdbLoadLen_def rdb_consts)
  qed
qed

lemma load_type_byte:
  assumes "pending rd = [type_byte t] @ rest" "t < 4"
  shows "rdbLoadLen rioBufferIO rd = (consumed rd [type_byte t], t, True)"
proof -
  have *: "\<forall>n\<in>set [0..<4]. let b = ucast (ucast (push_bit 6 (3 :: 32 word) OR of_nat n) :: byte) :: 32 word
         in drop_bit 6 (b AND 0xC0) = 3 \<and> b AND 0x3F = of_nat n" by code_simp
  have "unat t \<in> set [0..<4]" using assms(2) by (simp add: word_less_nat_alt)
  from bspec[OF * this] have "drop_bit 6 (ucast (type_byte t) AND 0xC0) = (3 :: 32 word) \<and> ucast (type_byte t) AND 0x3F = t"
    by (simp add: type_byte_def rdb_consts Let_def)
  moreover have "rioRead rioBufferIO rd 1 = (consumed rd [type_byte t], Some [type_byte t])"
    by (rule read_bytes) (use assms in simp_all)
  ultimately show ?thesis by (simp add: rdbLoadLen_def rdb_consts)
qed

section \<open>Integers\<close>

lemma narrow_back:
  fixes v :: "64 word"
  assumes "signed_take_bit (LENGTH('b::len) - 1) (sint v) = sint v" "LENGTH('b) < 64"
  shows "scast (ucast v :: 'b word) = v"
proof -
  have "sint (ucast v :: 'b word) = signed_take_bit (LENGTH('b) - 1) (sint v)"
    using assms(2) by (intro bit_eqI) (auto simp: bit_simps min_def)
  then show ?thesis using assms(1) by (simp add: scast_eq)
qed

lemma byte_of_word:
  fixes v :: "64 word"
  shows "(ucast (v AND 0xFF) :: byte) = ucast v"
proof -
  have "v AND 0xFF = take_bit 8 v" by (simp add: take_bit_eq_mask mask_eq_exp_minus_1)
  then show ?thesis by (intro bit_word_eqI) (simp add: bit_simps)
qed

lemma int_payload_back:
  fixes v :: "64 word"
  shows "- (2 ^ 7) \<le> sint v \<Longrightarrow> sint v < 2 ^ 7 \<Longrightarrow> int_payload 0 [ucast v] = v"
    and "- (2 ^ 15) \<le> sint v \<Longrightarrow> sint v < 2 ^ 15 \<Longrightarrow> int_payload 1 [ucast v, ucast (signed_drop_bit 8 v)] = v"
    and "- (2 ^ 31) \<le> sint v \<Longrightarrow> sint v < 2 ^ 31 \<Longrightarrow>
      int_payload 2 [ucast v, ucast (signed_drop_bit 8 v), ucast (signed_drop_bit 16 v), ucast (signed_drop_bit 24 v)] = v"
proof -
  assume "- (2 ^ 7) \<le> sint v" "sint v < 2 ^ 7"
  then have "signed_take_bit (LENGTH(8) - 1) (sint v) = sint v" by (intro signed_take_bit_int_eq_self) simp_all
  then show "int_payload 0 [ucast v] = v" by (simp add: int_payload_def rdb_consts narrow_back)
next
  assume "- (2 ^ 15) \<le> sint v" "sint v < 2 ^ 15"
  then have "signed_take_bit (LENGTH(16) - 1) (sint v) = sint v" by (intro signed_take_bit_int_eq_self) simp_all
  moreover have "(ucast (ucast v :: byte) OR push_bit 8 (ucast (ucast (signed_drop_bit 8 v) :: byte)) :: 16 word) = ucast v"
    by (rule bit_word_eqI) (auto simp: bit_simps)
  ultimately show "int_payload 1 [ucast v, ucast (signed_drop_bit 8 v)] = v"
    by (simp add: int_payload_def rdb_consts narrow_back)
next
  assume "- (2 ^ 31) \<le> sint v" "sint v < 2 ^ 31"
  then have "signed_take_bit (LENGTH(32) - 1) (sint v) = sint v" by (intro signed_take_bit_int_eq_self) simp_all
  moreover have "(((ucast (ucast v :: byte) OR push_bit 8 (ucast (ucast (signed_drop_bit 8 v) :: byte)))
      OR push_bit 16 (ucast (ucast (signed_drop_bit 16 v) :: byte)))
      OR push_bit 24 (ucast (ucast (signed_drop_bit 24 v) :: byte)) :: 32 word) = ucast v"
  proof (rule bit_word_eqI)
    fix n assume "n < LENGTH(32)"
    then consider "n < 8" | "8 \<le> n" "n < 16" | "16 \<le> n" "n < 24" | "24 \<le> n" "n < 32" by force
    then show "bit (((ucast (ucast v :: byte) OR push_bit 8 (ucast (ucast (signed_drop_bit 8 v) :: byte)))
      OR push_bit 16 (ucast (ucast (signed_drop_bit 16 v) :: byte)))
      OR push_bit 24 (ucast (ucast (signed_drop_bit 24 v) :: byte)) :: 32 word) n = bit (ucast v :: 32 word) n"
      by cases (auto simp: bit_simps)
  qed
  ultimately show "int_payload 2 [ucast v, ucast (signed_drop_bit 8 v), ucast (signed_drop_bit 16 v), ucast (signed_drop_bit 24 v)] = v"
    by (simp add: int_payload_def rdb_consts narrow_back)
qed

definition payload_len :: "32 word \<Rightarrow> nat" where
  "payload_len t = (if t = 0 then 1 else if t = 1 then 2 else 4)"

lemma encode_integer:
  assumes "rdbEncodeInteger v = Some buf"
  shows "\<exists>t pl. buf = [type_byte t] @ pl \<and> (t = 0 \<or> t = 1 \<or> t = 2) \<and> length pl = payload_len t \<and> int_payload t pl = v"
proof -
  consider "- (2 ^ 7) \<le> sint v" "sint v < 2 ^ 7"
      "buf = [type_byte 0, ucast v]"
    | "- (2 ^ 15) \<le> sint v" "sint v < 2 ^ 15"
      "buf = [type_byte 1, ucast v, ucast (signed_drop_bit 8 v)]"
    | "- (2 ^ 31) \<le> sint v" "sint v < 2 ^ 31"
      "buf = [type_byte 2, ucast v, ucast (signed_drop_bit 8 v), ucast (signed_drop_bit 16 v), ucast (signed_drop_bit 24 v)]"
    using assms unfolding rdbEncodeInteger_def type_byte_def rdb_consts byte_of_word by (auto split: if_splits)
  then show ?thesis
  proof cases
    case 1
    then show ?thesis using int_payload_back(1)[OF 1(1,2)] by (intro exI[of _ 0]) (simp add: payload_len_def)
  next
    case 2
    then show ?thesis using int_payload_back(2)[OF 2(1,2)] by (intro exI[of _ 1]) (simp add: payload_len_def)
  next
    case 3
    then show ?thesis using int_payload_back(3)[OF 3(1,2)] by (intro exI[of _ 2]) (simp add: payload_len_def)
  qed
qed

lemma fromlonglong_ok: "\<exists>s. sdsfromlonglong junk v = Some s \<and> sds_ok s \<and> sds_text s = int_repr (sint v)"
  using newlen_ok[of "length (int_repr (sint v))" "Some (int_repr (sint v))" junk] length_int_repr_ll[of v]
  by (auto simp: sdsfromlonglong_def sdsll2str_repr)

lemma load_integer:
  assumes "pending rd = pl @ rest" "t = 0 \<or> t = 1 \<or> t = 2" "length pl = payload_len t" "shared_ok integers"
  shows "\<exists>sh o1. rdbLoadIntegerObject junk clk rioBufferIO rd integers t encode = Some (consumed rd pl, sh, Some o1) \<and>
    shared_ok sh \<and> obj_ok o1 \<and> obj_text o1 = int_repr (sint (int_payload t pl))"
proof -
  have n: "(if t = REDIS_RDB_ENC_INT8 then Some 1 else if t = REDIS_RDB_ENC_INT16 then Some 2
      else if t = REDIS_RDB_ENC_INT32 then Some 4 else None) = Some (payload_len t)"
    using assms(2) by (auto simp: payload_len_def rdb_consts)
  have rd: "rioRead rioBufferIO rd (payload_len t) = (consumed rd pl, Some pl)"
    by (rule read_bytes) (use assms in simp_all)
  note unf = rdbLoadIntegerObject_def n Option.bind.bind_lunit rd prod.case option.case Let_def
  show ?thesis
  proof (cases encode)
    case True
    then show ?thesis unfolding unf using fromLongLong_ok[OF assms(4), of junk clk "int_payload t pl"] by auto
  next
    case False
    then show ?thesis unfolding unf using fromlonglong_ok[of junk "int_payload t pl"] assms(4)
      by (auto simp: createObject_def obj_ok_def obj_text_def)
  qed
qed

lemma memcmp_0: "length a = length b \<Longrightarrow> memcmp a b = 0 \<longleftrightarrow> a = b"
  by (induction a b rule: list_induct2) (auto simp: word_uint_eq_iff[symmetric])

lemma strtoll_int_repr: "strtoll (int_repr (sint (v :: 64 word))) = (sint v, [], False)"
proof -
  have "\<not> isspace (chr (int_repr (sint v)) 0)"
    using numeral_value_space numeral_value_int_repr by (metis option.distinct(1))
  then show ?thesis
    using strtoll_numeral[OF _ numeral_value_int_repr, of "sint v"] sint_range_size[of v] by (simp add: word_size)
qed

lemma try_integer:
  assumes "sds_ok s"
  shows "rdbTryIntegerEncoding junk (s_buf s) (sdslen s) =
    Some (case string2ll (sds_text s) of Some v \<Rightarrow> rdbEncodeInteger v | None \<Rightarrow> None)"
proof -
  define cs where "cs = takeWhile (\<lambda>c. c \<noteq> 0) (sds_text s)"
  obtain i e er where st: "strtoll cs = (i, e, er)" by (cases "strtoll cs") auto
  define w :: "64 word" where "w = word_of_int i"
  let ?r = "int_repr (sint w)"
  have len: "length (sds_text s) = sdslen s" using sds_okD(3)[OF assms] by (simp add: sdslen_def)
  have ll: "ll2string (map junk [0..<32]) 32 w = Some (length ?r, ?r @ [0] @ drop (Suc (length ?r)) (map junk [0..<32]))"
    using length_int_repr_ll[of w] by (simp add: ll2string_eq Let_def)
  have c: "c_string (?r @ [0] @ x) = Some ?r" for x
    using takeWhile_tail[of "\<lambda>c. c \<noteq> 0" 0 ?r x] by (simp add: c_string_def int_repr_no_null)
  have tr: "rdbTryIntegerEncoding junk (s_buf s) (sdslen s) =
    (if chr e 0 \<noteq> 0 then Some None else Some (if sds_text s = ?r then rdbEncodeInteger w else None))"
    unfolding rdbTryIntegerEncoding_def sds_c_string[OF assms] Option.bind.bind_lunit cs_def[symmetric] st Let_def prod.case
      w_def[symmetric] ll c sds_bytes[OF assms]
    using len memcmp_0[of ?r "sds_text s"] by (auto simp: mem_read_def)
  show ?thesis
  proof (cases "string2ll (sds_text s)")
    case None
    then show ?thesis unfolding tr using string2ll_iff[of "sds_text s" w] by auto
  next
    case (Some v)
    then have t: "sds_text s = int_repr (sint v)" by (simp add: string2ll_iff)
    then have "cs = int_repr (sint v)" by (simp add: cs_def int_repr_no_null)
    then have "i = sint v" "e = []" using st strtoll_int_repr[of v] by auto
    then show ?thesis unfolding tr using Some t by (simp add: w_def)
  qed
qed

section \<open>Strings\<close>

text \<open>\<open>decodes enc t\<close>: wherever \<open>enc\<close> stands in a stream, loading a string there consumes exactly \<open>enc\<close> and
  gives a well-formed object with the text \<open>t\<close>.\<close>

definition decodes :: "bytes \<Rightarrow> bytes \<Rightarrow> bool" where
  "decodes enc t \<longleftrightarrow> (\<forall>rd rest integers junk clk encode. pending rd = enc @ rest \<longrightarrow> shared_ok integers \<longrightarrow>
     (\<exists>sh o1. rdbGenericLoadStringObject junk clk rioBufferIO rd integers encode = Some (consumed rd enc, sh, Some o1) \<and>
        shared_ok sh \<and> obj_ok o1 \<and> obj_text o1 = t))"

lemma create_ptr:
  "createEmbeddedStringObject clk p n = Some o1 \<Longrightarrow> \<exists>s. o_ptr o1 = PSds s"
  "createRawStringObject junk clk p n = Some o1 \<Longrightarrow> \<exists>s. o_ptr o1 = PSds s"
  by (auto simp: createEmbeddedStringObject_def createRawStringObject_def createObject_def split: bind_splits option.splits)

lemma overwrite_ok:
  assumes "obj_ok o1" "o_ptr o1 = PSds s" "length (obj_text o1) = length bs"
  shows "\<exists>buf. mem_write (s_buf s) 0 bs = Some buf \<and> obj_ok (o1\<lparr>o_ptr := PSds (s\<lparr>s_buf := buf\<rparr>)\<rparr>) \<and>
    obj_text (o1\<lparr>o_ptr := PSds (s\<lparr>s_buf := buf\<rparr>)\<rparr>) = bs"
proof -
  have s: "sds_ok s" "s_len s = length bs"
    using assms sds_okD(3)[of s] by (auto elim!: obj_ok_cases)
  define buf where "buf = bs @ drop (length bs) (s_buf s)"
  have w: "mem_write (s_buf s) 0 bs = Some buf" using sds_okD(1)[OF s(1)] s(2) by (simp add: mem_write_def buf_def)
  have "sds_ok (s\<lparr>s_buf := buf\<rparr>)" "sds_text (s\<lparr>s_buf := buf\<rparr>) = bs"
    using s by (auto simp: sds_ok_def sds_text_def buf_def nth_append)
  moreover have "obj_ok (o1\<lparr>o_ptr := PSds (s\<lparr>s_buf := buf\<rparr>)\<rparr>)"
    using assms(1,2) calculation(1) by (auto simp: obj_ok_def split: obj_encoding.splits)
  ultimately show ?thesis using w by (auto simp: obj_text_def)
qed

lemma decodes_integer:
  assumes "rdbEncodeInteger v = Some buf"
  shows "decodes buf (int_repr (sint v))"
  unfolding decodes_def
proof (intro allI impI)
  fix rd rest integers junk clk encode
  assume p: "pending rd = buf @ rest" and sh: "shared_ok integers"
  obtain t pl where t: "buf = [type_byte t] @ pl" "t = 0 \<or> t = 1 \<or> t = 2" "length pl = payload_len t" "int_payload t pl = v"
    using encode_integer[OF assms] by blast
  have "t < 4" using t(2) by auto
  moreover have "pending rd = [type_byte t] @ pl @ rest" using p t(1) by simp
  ultimately have l: "rdbLoadLen rioBufferIO rd = (consumed rd [type_byte t], t, True)" by (intro load_type_byte)
  have "pending (consumed rd [type_byte t]) = pl @ rest" by (rule pending_consumed) (use p t(1) in simp)
  from load_integer[OF this t(2,3) sh, of junk clk encode]
  show "\<exists>sh o1. rdbGenericLoadStringObject junk clk rioBufferIO rd integers encode = Some (consumed rd buf, sh, Some o1) \<and>
        shared_ok sh \<and> obj_ok o1 \<and> obj_text o1 = int_repr (sint v)"
    unfolding rdbGenericLoadStringObject_def l Let_def prod.case consumed_append t(1)[symmetric] t(4)
    using t(2) by (auto simp: rdb_consts)
qed

lemma decodes_verbatim:
  assumes "length t < 2 ^ 32 - 1"
  shows "decodes (len_enc (of_nat (length t)) @ t) t"
  unfolding decodes_def
proof (intro allI impI)
  fix rd rest integers junk clk encode
  let ?len = "of_nat (length t) :: 32 word"
  assume "pending rd = (len_enc ?len @ t) @ rest" and sh: "shared_ok integers"
  then have p: "pending rd = len_enc ?len @ t @ rest" by simp
  note l = load_len[OF p] and p' = pending_consumed[OF p]
  have u: "unat ?len = length t" using assms by (simp add: unat_of_nat)
  have ne: "?len \<noteq> REDIS_RDB_LENERR"
  proof
    assume "?len = REDIS_RDB_LENERR"
    then have "unat ?len = 2 ^ 32 - 1" by (simp add: rdb_consts unsigned_minus_1_eq_mask mask_eq_exp_minus_1)
    then show False using u assms by simp
  qed
  have r: "rioRead rioBufferIO (consumed rd (len_enc ?len)) (unat ?len) = (consumed rd (len_enc ?len @ t), Some t)"
    using read_bytes[OF p' u] by (simp add: consumed_append)
  obtain o1 s where o1: "(if encode then createStringObject junk clk None (unat ?len)
      else createRawStringObject junk clk None (unat ?len)) = Some o1" "obj_ok o1" "length (obj_text o1) = length t" "o_ptr o1 = PSds s"
    using string_ok[of "unat ?len" None junk clk] raw_ok[of "unat ?len" None junk clk] assms u create_ptr
    by (cases encode) (force simp: createStringObject_def split: if_splits)+
  obtain buf where buf: "mem_write (s_buf s) 0 t = Some buf" "obj_ok (o1\<lparr>o_ptr := PSds (s\<lparr>s_buf := buf\<rparr>)\<rparr>)"
    "obj_text (o1\<lparr>o_ptr := PSds (s\<lparr>s_buf := buf\<rparr>)\<rparr>) = t"
    using overwrite_ok[OF o1(2,4,3)] by blast
  have z: "?len = 0 \<longleftrightarrow> t = []" using u by (metis length_0_conv unat_eq_zero)
  show "\<exists>sh o1. rdbGenericLoadStringObject junk clk rioBufferIO rd integers encode =
      Some (consumed rd (len_enc ?len @ t), sh, Some o1) \<and> shared_ok sh \<and> obj_ok o1 \<and> obj_text o1 = t"
    unfolding rdbGenericLoadStringObject_def l Let_def prod.case if_False if_not_P[OF ne] o1(1) Option.bind.bind_lunit r
    using sh o1 buf z by (cases "t = []") auto
qed

lemma decodes_lzf:
  assumes "lzf_decompress c (replicate (length t) 0) = Some (Some (length t, t))" "t \<noteq> []"
    "length t < 2 ^ 32 - 1" "length c < 2 ^ 32 - 1"
  shows "decodes ([type_byte 3] @ len_enc (of_nat (length c)) @ len_enc (of_nat (length t)) @ c) t"
  unfolding decodes_def
proof (intro allI impI)
  fix rd rest integers junk clk encode
  let ?c = "of_nat (length c) :: 32 word" and ?n = "of_nat (length t) :: 32 word"
  assume "pending rd = ([type_byte 3] @ len_enc ?c @ len_enc ?n @ c) @ rest" and sh: "shared_ok integers"
  then have p1: "pending rd = [type_byte 3] @ len_enc ?c @ len_enc ?n @ c @ rest" by simp
  note l1 = load_type_byte[OF p1, simplified]
  note p2 = pending_consumed[OF p1]
  note l2 = load_len[OF p2] and p3 = pending_consumed[OF p2]
  note l3 = load_len[OF p3] and p4 = pending_consumed[OF p3]
  have u: "unat ?n = length t" "unat ?c = length c" using assms(3,4) by (simp_all add: unat_of_nat)
  have max: "unat REDIS_RDB_LENERR = 2 ^ 32 - 1" by (simp add: rdb_consts unsigned_minus_1_eq_mask mask_eq_exp_minus_1)
  have ne: "?c \<noteq> REDIS_RDB_LENERR" "?n \<noteq> REDIS_RDB_LENERR" using u max assms(3,4) by force+
  note r = read_bytes[OF p4 u(2)]
  obtain val where val: "sdsnewlen junk None (unat ?n) = Some val" "sds_ok val" "s_len val = length t" "sds_text val = replicate (length t) 0"
    using newlen_ok[of "unat ?n" None junk] assms(3) u(1) by auto
  have tk: "take (unat ?n) (s_buf val) = replicate (length t) 0" using val u(1) by (simp add: sds_text_def)
  let ?o = "createObject REDIS_STRING (PSds val) clk"
  have "obj_ok ?o" "length (obj_text ?o) = length t" using val by (simp_all add: createObject_def obj_ok_def obj_text_def)
  then obtain buf where buf: "mem_write (s_buf val) 0 t = Some buf" "obj_ok (?o\<lparr>o_ptr := PSds (val\<lparr>s_buf := buf\<rparr>)\<rparr>)"
    "obj_text (?o\<lparr>o_ptr := PSds (val\<lparr>s_buf := buf\<rparr>)\<rparr>) = t"
    using overwrite_ok[of ?o val t] by (auto simp: createObject_def)
  then have ok: "obj_ok (createObject REDIS_STRING (PSds (val\<lparr>s_buf := buf\<rparr>)) clk)"
    "obj_text (createObject REDIS_STRING (PSds (val\<lparr>s_buf := buf\<rparr>)) clk) = t" by (simp_all add: createObject_def)
  have "rdbLoadLzfStringObject junk clk rioBufferIO (consumed rd [type_byte 3]) integers =
    Some (consumed rd ([type_byte 3] @ len_enc ?c @ len_enc ?n @ c), integers, Some (createObject REDIS_STRING (PSds (val\<lparr>s_buf := buf\<rparr>)) clk))"
    unfolding rdbLoadLzfStringObject_def l2 l3 Let_def prod.case if_not_P[OF ne(1)] if_not_P[OF ne(2)] val(1) Option.bind.bind_lunit r
      option.case tk assms(1) buf(1)
    using assms(2) by (simp add: consumed_append)
  then show "\<exists>sh o1. rdbGenericLoadStringObject junk clk rioBufferIO rd integers encode =
      Some (consumed rd ([type_byte 3] @ len_enc ?c @ len_enc ?n @ c), sh, Some o1) \<and> shared_ok sh \<and> obj_ok o1 \<and> obj_text o1 = t"
    unfolding rdbGenericLoadStringObject_def l1 using sh ok by (simp add: rdb_consts)
qed

section \<open>Short streams\<close>

text \<open>\<open>detects enc\<close>: when the stream ends inside \<open>enc\<close>, loading a string reports an error and nothing worse.\<close>

definition detects :: "bytes \<Rightarrow> bool" where
  "detects enc \<longleftrightarrow> (\<forall>rd k integers junk clk encode. k < length enc \<longrightarrow> pending rd = take k enc \<longrightarrow>
     (\<exists>r. rdbGenericLoadStringObject junk clk rioBufferIO rd integers encode = Some (r, integers, None)))"

definition codes :: "bytes \<Rightarrow> bytes \<Rightarrow> bool" where
  "codes enc t \<longleftrightarrow> decodes enc t \<and> detects enc"

lemma read_short: "length (pending r) < n \<Longrightarrow> \<exists>r'. rioRead rioBufferIO r n = (r', None)"
proof (induction n arbitrary: r rule: less_induct)
  case (less n)
  define m where "m = (if r_chunk r \<noteq> 0 \<and> r_chunk r < n then r_chunk r else n)"
  have m: "0 < m" "m \<le> n" "n \<noteq> 0" using less.prems by (auto simp: m_def)
  show ?case
  proof (cases "length (pending r) < m")
    case True
    then have rd: "rioBufferRead (r_io r) m = (r_io r, None)" by (simp add: rioBufferRead_def pending_def)
    show ?thesis by (subst rioRead.simps, unfold m_def[symmetric] Let_def) (use m rd in \<open>simp add: rioBufferIO_def\<close>)
  next
    case False
    define bs where "bs = take m (pending r)"
    have "length (b_ptr (r_io r)) - b_pos (r_io r) \<ge> m" using False by (simp add: pending_def)
    then have rd: "rioBufferRead (r_io r) m = ((r_io r)\<lparr>b_pos := b_pos (r_io r) + m\<rparr>, Some bs)"
      by (simp add: rioBufferRead_def pending_def bs_def)
    have bs: "length bs = m" "pending r = bs @ drop m (pending r)" using False by (simp_all add: bs_def)
    have "length (pending (consumed r bs)) < n - m"
      unfolding pending_consumed[OF bs(2)] using less.prems m False by simp
    then obtain r' where "rioRead rioBufferIO (consumed r bs) (n - m) = (r', None)"
      using less.IH[of "n - m" "consumed r bs"] m by auto
    moreover have "rioRead rioBufferIO r n =
      (let (r, rest) = rioRead rioBufferIO (consumed r bs) (n - m) in (r, map_option (\<lambda>rest. bs @ rest) rest))"
      by (subst rioRead.simps, unfold m_def[symmetric] Let_def)
        (use rd m bs(1) in \<open>simp add: rioBufferIO_def rioGenericUpdateChecksum_def consumed_def\<close>)
    ultimately show ?thesis by auto
  qed
qed

lemma pending_take_consumed: "pending rd = take k (a @ b) \<Longrightarrow> length a \<le> k \<Longrightarrow> pending (consumed rd a) = take (k - length a) b"
  by (rule pending_consumed) simp

lemma load_len_short:
  assumes "pending rd = take k (len_enc len)" "k < length (len_enc len)"
  shows "\<exists>r. rdbLoadLen rioBufferIO rd = (r, REDIS_RDB_LENERR, False)"
proof (cases "k = 0")
  case True
  then have "length (pending rd) < 1" using assms(1) by simp
  from read_short[OF this] show ?thesis by (auto simp: rdbLoadLen_def)
next
  case False
  define b0 where "b0 = hd (len_enc len)"
  define bs where "bs = tl (len_enc len)"
  have e: "len_enc len = [b0] @ bs" by (simp add: b0_def bs_def len_enc_def)
  have "pending rd = [b0] @ take (k - 1) bs" using assms(1) False by (simp add: e take_Cons')
  then have r1: "rioRead rioBufferIO rd 1 = (consumed rd [b0], Some [b0])" by (rule read_bytes) simp
  have "length (pending (consumed rd [b0])) < length bs"
    using pending_take_consumed[of rd k "[b0]" bs] assms False by (simp add: e)
  then obtain r2 where r2: "rioRead rioBufferIO (consumed rd [b0]) (length bs) = (r2, None)" using read_short by blast
  have ge: "\<not> len < 2 ^ 6" using assms(2) False by (auto simp: len_enc_def)
  show ?thesis
  proof (cases "len < 2 ^ 14")
    case True
    let ?h = "drop_bit 8 len"
    have b: "b0 = ucast ((?h AND 0xFF) OR push_bit 6 1)" "length bs = 1"
      using ge True by (simp_all add: b0_def bs_def len_enc_def rdb_consts)
    have "?h < 64" using True by (simp add: word_less_nat_alt drop_bit_eq_div unat_div less_mult_imp_div_less)
    then have "drop_bit 6 (ucast b0 AND 0xC0) = (1 :: 32 word)" using tag_bits[of ?h 1] by (simp add: Let_def b)
    then show ?thesis using r1 r2 b(2) by (simp add: rdbLoadLen_def rdb_consts)
  next
    case False
    then have b: "b0 = 128" "length bs = 4" using ge by (simp_all add: b0_def bs_def len_enc_def rdb_consts)
    then show ?thesis using r1 r2 by (simp add: rdbLoadLen_def rdb_consts)
  qed
qed

lemma load_empty: "pending rd = [] \<Longrightarrow> \<exists>r. rdbGenericLoadStringObject junk clk rioBufferIO rd integers encode = Some (r, integers, None)"
  using load_len_short[of rd 0 0] by (auto simp: rdbGenericLoadStringObject_def len_enc_def)

lemma codes_integer:
  assumes "rdbEncodeInteger v = Some buf"
  shows "codes buf (int_repr (sint v))"
proof -
  obtain t pl where t: "buf = [type_byte t] @ pl" "t = 0 \<or> t = 1 \<or> t = 2" "length pl = payload_len t"
    using encode_integer[OF assms] by blast
  have "\<exists>r. rdbGenericLoadStringObject junk clk rioBufferIO rd integers encode = Some (r, integers, None)"
    if k: "k < length buf" "pending rd = take k buf" for rd k integers junk clk encode
  proof (cases "k = 0")
    case True
    then show ?thesis using load_empty k(2) by simp
  next
    case False
    have "pending rd = [type_byte t] @ take (k - 1) pl" using k(2) False by (simp add: t(1) take_Cons')
    then have l: "rdbLoadLen rioBufferIO rd = (consumed rd [type_byte t], t, True)" by (rule load_type_byte) (use t(2) in auto)
    have "length (pending (consumed rd [type_byte t])) < payload_len t"
      using pending_take_consumed[of rd k "[type_byte t]" pl] k False t(1,3) by simp
    then obtain r where "rioRead rioBufferIO (consumed rd [type_byte t]) (payload_len t) = (r, None)" using read_short by blast
    then show ?thesis unfolding rdbGenericLoadStringObject_def l Let_def prod.case rdbLoadIntegerObject_def
      using t(2) by (auto simp: rdb_consts payload_len_def)
  qed
  then show ?thesis using decodes_integer[OF assms] unfolding codes_def detects_def by blast
qed

lemma len_ok:
  assumes "n < 2 ^ 32 - 1"
  shows "unat (of_nat n :: 32 word) = n" "(of_nat n :: 32 word) \<noteq> REDIS_RDB_LENERR"
proof -
  show u: "unat (of_nat n :: 32 word) = n" using assms by (simp add: unat_of_nat)
  have "unat REDIS_RDB_LENERR = 2 ^ 32 - 1" by (simp add: rdb_consts unsigned_minus_1_eq_mask mask_eq_exp_minus_1)
  then show "(of_nat n :: 32 word) \<noteq> REDIS_RDB_LENERR" using u assms by force
qed

lemma codes_verbatim:
  assumes "length t < 2 ^ 32 - 1"
  shows "codes (len_enc (of_nat (length t)) @ t) t"
proof -
  let ?len = "of_nat (length t) :: 32 word"
  let ?e = "len_enc ?len"
  note n = len_ok[OF assms]
  have "\<exists>r. rdbGenericLoadStringObject junk clk rioBufferIO rd integers encode = Some (r, integers, None)"
    if k: "k < length (?e @ t)" "pending rd = take k (?e @ t)" for rd k integers junk clk encode
  proof (cases "k < length ?e")
    case True
    then obtain r where "rdbLoadLen rioBufferIO rd = (r, REDIS_RDB_LENERR, False)" using load_len_short[of rd k ?len] k(2) by auto
    then show ?thesis by (simp add: rdbGenericLoadStringObject_def)
  next
    case False
    then have "pending rd = ?e @ take (k - length ?e) t" using k(2) by simp
    note l = load_len[OF this]
    have "length (pending (consumed rd ?e)) < unat ?len"
      using pending_take_consumed[of rd k ?e t] k False n(1) by simp
    then obtain r where r: "rioRead rioBufferIO (consumed rd ?e) (unat ?len) = (r, None)" using read_short by blast
    obtain o1 where o1: "(if encode then createStringObject junk clk None (unat ?len)
      else createRawStringObject junk clk None (unat ?len)) = Some o1" "obj_ok o1"
      using string_ok[of "unat ?len" None junk clk] raw_ok[of "unat ?len" None junk clk] assms n(1) by (cases encode) auto
    have "o_type o1 = REDIS_STRING" "1 \<le> o_refcount o1" using o1(2) by (simp_all add: obj_ok_def)
    then obtain d where d: "decrRefCount o1 = Some d" by (cases "o_refcount o1 = 1") (simp_all add: decrRefCount_def freeStringObject_def)
    have "?len \<noteq> 0" using k False n(1) by (auto simp: unat_eq_zero)
    then show ?thesis
      unfolding rdbGenericLoadStringObject_def l Let_def prod.case if_False if_not_P[OF n(2)] o1(1) Option.bind.bind_lunit r
      using d by simp
  qed
  then show ?thesis using decodes_verbatim[OF assms] unfolding codes_def detects_def by blast
qed

lemma codes_lzf:
  assumes "lzf_decompress c (replicate (length t) 0) = Some (Some (length t, t))" "t \<noteq> []"
    "length t < 2 ^ 32 - 1" "length c < 2 ^ 32 - 1"
  shows "codes ([type_byte 3] @ len_enc (of_nat (length c)) @ len_enc (of_nat (length t)) @ c) t"
proof -
  let ?c = "of_nat (length c) :: 32 word" and ?n = "of_nat (length t) :: 32 word"
  let ?enc = "[type_byte 3] @ len_enc ?c @ len_enc ?n @ c"
  note nc = len_ok[OF assms(4)] and nt = len_ok[OF assms(3)]
  have "\<exists>r. rdbGenericLoadStringObject junk clk rioBufferIO rd integers encode = Some (r, integers, None)"
    if k: "k < length ?enc" "pending rd = take k ?enc" for rd k integers junk clk encode
  proof (cases "k = 0")
    case True
    then show ?thesis using load_empty k(2) by simp
  next
    case False
    define r1 where "r1 = consumed rd [type_byte 3]"
    define j where "j = k - 1"
    have "pending rd = [type_byte 3] @ take j (len_enc ?c @ len_enc ?n @ c)" using k(2) False by (simp add: take_Cons' j_def)
    then have l1: "rdbLoadLen rioBufferIO rd = (r1, 3, True)" unfolding r1_def by (rule load_type_byte) simp
    have p1: "pending r1 = take j (len_enc ?c @ len_enc ?n @ c)" "j < length (len_enc ?c) + length (len_enc ?n) + length c"
      unfolding r1_def j_def using pending_take_consumed[of rd k "[type_byte 3]" "len_enc ?c @ len_enc ?n @ c"] k False by simp_all
    have "\<exists>r. rdbLoadLzfStringObject junk clk rioBufferIO r1 integers = Some (r, integers, None)"
    proof (cases "j < length (len_enc ?c)")
      case True
      then show ?thesis using load_len_short[of r1 j ?c] p1(1) by (auto simp: rdbLoadLzfStringObject_def)
    next
      case j1: False
      define r2 where "r2 = consumed r1 (len_enc ?c)"
      have l2: "rdbLoadLen rioBufferIO r1 = (r2, ?c, False)" unfolding r2_def by (rule load_len) (use p1(1) j1 in simp)
      have p2: "pending r2 = take (j - length (len_enc ?c)) (len_enc ?n @ c)"
        unfolding r2_def by (rule pending_take_consumed) (use p1(1) j1 in simp_all)
      note unf = rdbLoadLzfStringObject_def l2 Let_def prod.case if_not_P[OF nc(2)]
      show ?thesis
      proof (cases "j - length (len_enc ?c) < length (len_enc ?n)")
        case True
        then show ?thesis unfolding unf using load_len_short[of r2 "j - length (len_enc ?c)" ?n] p2 by auto
      next
        case j2: False
        define r3 where "r3 = consumed r2 (len_enc ?n)"
        have l3: "rdbLoadLen rioBufferIO r2 = (r3, ?n, False)" unfolding r3_def by (rule load_len) (use p2 j2 in simp)
        have "length (pending r3) < unat ?c"
          unfolding r3_def using pending_take_consumed[OF p2] j1 j2 p1(2) nc(1) by simp
        then obtain r where r: "rioRead rioBufferIO r3 (unat ?c) = (r, None)" using read_short by blast
        obtain val where "sdsnewlen junk None (unat ?n) = Some val" using newlen_ok[of "unat ?n" None junk] assms(3) nt(1) by auto
        then show ?thesis unfolding unf l3 prod.case if_not_P[OF nt(2)] using r by simp
      qed
    qed
    then show ?thesis unfolding rdbGenericLoadStringObject_def l1 by (simp add: rdb_consts)
  qed
  then show ?thesis using decodes_lzf[OF assms] unfolding codes_def detects_def by blast
qed

lemma small_result:
  assumes "n < 2 ^ 31"
  shows "(of_nat n :: 32 word) \<noteq> - 1" "sint (of_nat n :: 32 word) = int n"
proof -
  show s: "sint (of_nat n :: 32 word) = int n" using sint_word_of_int_32[of "int n"] assms by simp
  show "(of_nat n :: 32 word) \<noteq> - 1"
  proof
    assume "(of_nat n :: 32 word) = - 1"
    then have "sint (of_nat n :: 32 word) = - 1" by simp
    then show False using s by simp
  qed
qed

lemma save_lzf:
  assumes "sds_ok s" "s_len s \<le> 2 ^ 29" "20 < s_len s" "htab_ok htab"
  shows "(\<forall>rdb. rdbSaveLzfStringObject junk htab rioBufferIO rdb (s_buf s) (sdslen s) = Some (rdb, 0)) \<or>
    (\<exists>enc. codes enc (sds_text s) \<and> length enc < 2 ^ 30 \<and> enc \<noteq> [] \<and>
      (\<forall>rdb. rdbSaveLzfStringObject junk htab rioBufferIO rdb (s_buf s) (sdslen s) = Some (emit rdb enc, of_nat (length enc))))"
proof -
  let ?t = "sds_text s" and ?out = "sdslen s - 4"
  have len: "length ?t = sdslen s" "sdslen s \<le> 2 ^ 29" "20 < sdslen s"
    using sds_okD(3)[OF assms(1)] assms(2,3) by (simp_all add: sdslen_def)
  have pre: "2 \<le> length ?t" "length ?t < 2 ^ 62" "length (map junk [0..<?out + 1]) = ?out + 1"
    "length (replicate (length ?t) (0 :: byte)) = length ?t" using len by simp_all
  obtain c where c: "lzf_compress htab ?t (map junk [0..<?out + 1]) ?out = Some c"
    "case c of None \<Rightarrow> True | Some (n, out') \<Rightarrow> length out' = length (map junk [0..<?out + 1]) \<and> n \<le> ?out \<and>
       lzf_decompress (take n out') (replicate (length ?t) 0) = Some (Some (length ?t, ?t))"
    using compress_decompress[OF pre(1,2) assms(4) pre(3,4)] by blast
  have no: "\<not> sdslen s \<le> 4" using len(3) by simp
  note unf = rdbSaveLzfStringObject_def if_not_P[OF no] Let_def sds_bytes[OF assms(1)] Option.bind.bind_lunit c(1)
  show ?thesis
  proof (cases c)
    case None
    then show ?thesis unfolding unf by simp
  next
    case (Some p)
    then obtain n out' where p: "c = Some (n, out')" by (cases p) auto
    show ?thesis
    proof (cases "n = 0")
      case True
      then show ?thesis unfolding unf p by simp
    next
      case False
      let ?z = "take n out'"
      let ?enc = "[type_byte 3] @ len_enc (of_nat (length ?z)) @ len_enc (of_nat (length ?t)) @ ?z"
      have z: "length ?z = n" "n \<le> ?out" "lzf_decompress ?z (replicate (length ?t) 0) = Some (Some (length ?t, ?t))"
        using c(2) p by simp_all
      have "codes ?enc ?t" by (rule codes_lzf) (use z len in auto)
      moreover have le: "length ?enc < 2 ^ 30"
        using length_len_enc[of "of_nat (length ?z)", THEN conjunct2] length_len_enc[of "of_nat (length ?t)", THEN conjunct2] z len by simp
      moreover have "rdbSaveLzfStringObject junk htab rioBufferIO rdb (s_buf s) (sdslen s) = Some (emit rdb ?enc, of_nat (length ?enc))" for rdb
      proof -
        have ne: "(of_nat (length (len_enc x)) :: 32 word) \<noteq> - 1" for x using length_len_enc[of x] by (intro small_result) simp
        have "(of_nat (length ?z) :: 32 word) \<noteq> - 1" by (rule small_result) (use z len in simp)
        then show ?thesis
          unfolding unf p option.case prod.case write_raw save_len type_byte_def[symmetric] if_not_P[OF False] if_not_P[OF ne]
          using small_result(1)[of 1] z(1) len(1) by (simp add: rdb_consts add.assoc type_byte_def)
      qed
      ultimately show ?thesis by blast
    qed
  qed
qed

lemma save_raw:
  assumes "sds_ok s" "s_len s \<le> 2 ^ 29" "htab_ok htab"
  shows "\<exists>enc. codes enc (sds_text s) \<and>
    (\<forall>rdb. rdbSaveRawString junk htab compr rioBufferIO rdb (s_buf s) (sdslen s) = Some (emit rdb enc, of_nat (length enc)))"
proof -
  let ?t = "sds_text s" and ?n = "sdslen s"
  have len: "length ?t = ?n" "?n \<le> 2 ^ 29" using sds_okD(3)[OF assms(1)] assms(2) by (simp_all add: sdslen_def)
  define enc0 where "enc0 = (if ?n \<le> 11 then (case string2ll ?t of Some v \<Rightarrow> rdbEncodeInteger v | None \<Rightarrow> None) else None)"
  have e0: "(if ?n \<le> 11 then rdbTryIntegerEncoding junk (s_buf s) ?n else Some None) = Some enc0"
    by (simp add: enc0_def try_integer[OF assms(1)])
  note unf = rdbSaveRawString_def e0 Option.bind.bind_lunit
  show ?thesis
  proof (cases enc0)
    case (Some buf)
    then obtain v where "string2ll ?t = Some v" "rdbEncodeInteger v = Some buf"
      by (auto simp: enc0_def split: if_splits option.splits)
    then have d: "codes buf ?t" using codes_integer[of v buf] string2ll_iff by simp
    have "length buf < 2 ^ 31" using \<open>rdbEncodeInteger v = Some buf\<close> encode_integer[of v buf] by (auto simp: payload_len_def)
    then show ?thesis unfolding unf Some option.case write_raw using d small_result(1)[of "length buf"] by auto
  next
    case None
    let ?v = "len_enc (of_nat ?n) @ ?t"
    have v: "codes ?v ?t" using codes_verbatim[of ?t] len by simp
    have ne: "(of_nat (length (len_enc x)) :: 32 word) \<noteq> - 1" for x using length_len_enc[of x] by (intro small_result) simp
    have nt: "(of_nat ?n :: 32 word) \<noteq> - 1" by (rule small_result) (use len in simp)
    have verb: "(let (rdb, n) = rdbSaveLen rioBufferIO rdb (of_nat ?n)
             in if n = - 1 then Some (rdb, - 1)
             else if ?n > 0 then do {
               s \<leftarrow> mem_read (s_buf s) 0 ?n;
               let (rdb, n') = rdbWriteRaw rioBufferIO rdb s;
               Some (rdb, if n' = - 1 then - 1 else n + of_nat ?n)
             } else Some (rdb, n)) = Some (emit rdb ?v, of_nat (length ?v))" for rdb
      unfolding save_len write_raw sds_bytes[OF assms(1)] Let_def prod.case if_not_P[OF ne] Option.bind.bind_lunit
      using nt len(1) by auto
    have plain: ?thesis if skip: "\<And>rdb. (if compr \<and> ?n > 20 then rdbSaveLzfStringObject junk htab rioBufferIO rdb (s_buf s) ?n
        else Some (rdb, 0)) = Some (rdb, 0)"
      unfolding unf None option.case skip prod.case verb using v by (intro exI[of _ ?v]) simp
    show ?thesis
    proof (cases "compr \<and> ?n > 20")
      case False
      show ?thesis by (rule plain) (simp only: if_not_P[OF False])
    next
      case True
      then consider "\<And>rdb. rdbSaveLzfStringObject junk htab rioBufferIO rdb (s_buf s) ?n = Some (rdb, 0)"
        | enc where "codes enc ?t" "length enc < 2 ^ 30" "enc \<noteq> []"
          "\<And>rdb. rdbSaveLzfStringObject junk htab rioBufferIO rdb (s_buf s) ?n = Some (emit rdb enc, of_nat (length enc))"
        using save_lzf[OF assms(1,2) _ assms(3), of junk] by (auto simp: sdslen_def)
      then show ?thesis
      proof cases
        case 1
        show ?thesis by (rule plain) (simp only: if_P[OF True] 1)
      next
        case 2
        have "length enc < 2 ^ 31" using 2(2) by simp
        note sr = small_result[OF this]
        show ?thesis unfolding unf None option.case if_P[OF True] 2(4) prod.case Option.bind.bind_lunit
          using 2(1,3) sr by (intro exI[of _ enc]) simp
      qed
    qed
  qed
qed

lemma save_longlong:
  "\<exists>enc. codes enc (int_repr (sint v)) \<and>
    (\<forall>rdb. rdbSaveLongLongAsStringObject junk rioBufferIO rdb v = Some (emit rdb enc, of_nat (length enc)))"
proof (cases "rdbEncodeInteger v")
  case (Some buf)
  then show ?thesis using codes_integer[OF Some] by (auto simp: rdbSaveLongLongAsStringObject_def write_raw)
next
  case None
  let ?r = "int_repr (sint v)"
  have l: "length ?r < 32" using length_int_repr_ll[of v] by simp
  have "codes (len_enc (of_nat (length ?r)) @ ?r) ?r" by (rule codes_verbatim) (use l in simp)
  moreover have "(of_nat (length (len_enc x)) :: 32 word) \<noteq> - 1" for x using length_len_enc[of x] by (intro small_result) simp
  moreover have "(of_nat (length ?r) :: 32 word) \<noteq> - 1" by (rule small_result) (use l in simp)
  ultimately show ?thesis using l
    by (intro exI[of _ "len_enc (of_nat (length ?r)) @ ?r"])
      (simp add: rdbSaveLongLongAsStringObject_def None ll2string_eq Let_def save_len write_raw)
qed

lemma save_string:
  assumes "obj_ok o1" "length (obj_text o1) \<le> 2 ^ 29" "htab_ok htab"
  shows "\<exists>enc. codes enc (obj_text o1) \<and>
    (\<forall>rdb. rdbSaveStringObject junk htab compr rioBufferIO rdb o1 = Some (emit rdb enc, of_nat (length enc)))"
  using assms(1)
proof (cases rule: obj_ok_cases)
  case (sds s)
  have "s_len s \<le> 2 ^ 29" using assms(2) sds(4) sds_okD(3)[OF sds(2)] by simp
  moreover have "rdbSaveStringObject junk htab compr rioBufferIO rdb o1 = rdbSaveRawString junk htab compr rioBufferIO rdb (s_buf s) (sdslen s)" for rdb
    using sds by (auto simp: rdbSaveStringObject_def sdsEncodedObject_def)
  ultimately show ?thesis using save_raw[OF sds(2) _ assms(3), of junk compr] sds(4) by simp
next
  case (int v)
  then show ?thesis using save_longlong[of v junk] by (simp add: rdbSaveStringObject_def)
qed

section \<open>Properties\<close>

text \<open>C16. Saving and loading a string of up to 512 MB is lossless: whatever its encoding and whether it is
  written as an integer, compressed or verbatim, \<open>rdbSaveStringObject\<close> appends to the stream some bytes, returns
  their number (also when called without a stream, to compute the length), and loading them back, in either mode,
  consumes exactly these bytes and gives a well-formed object with the same text.\<close>

theorem rdb_string_roundtrip:
  assumes "obj_ok o1" "length (obj_text o1) \<le> 2 ^ 29" "htab_ok htab"
  shows "\<exists>enc. (\<forall>r. rdbSaveStringObject junk htab compr rioBufferIO (Some r) o1 = Some (Some (appended r enc), of_nat (length enc))) \<and>
    rdbSaveStringObject junk htab compr rioBufferIO None o1 = Some (None, of_nat (length enc)) \<and>
    (\<forall>rd rest integers junk' clk encode. pending rd = enc @ rest \<longrightarrow> shared_ok integers \<longrightarrow>
      (\<exists>sh o2. rdbGenericLoadStringObject junk' clk rioBufferIO rd integers encode = Some (consumed rd enc, sh, Some o2) \<and>
        shared_ok sh \<and> obj_ok o2 \<and> obj_text o2 = obj_text o1))"
proof -
  obtain enc where "codes enc (obj_text o1)"
    "\<And>rdb. rdbSaveStringObject junk htab compr rioBufferIO rdb o1 = Some (emit rdb enc, of_nat (length enc))"
    using save_string[OF assms] by blast
  then show ?thesis by (intro exI[of _ enc]) (simp add: codes_def decodes_def)
qed

theorem rdb_string_roundtrip_witness:
  "\<exists>enc. rdbSaveStringObject (\<lambda>_. 0) (\<lambda>_. 0) True rioBufferIO None
      (createObject REDIS_STRING (PSds \<lparr>s_len = 30, s_free = 0, s_buf = replicate 31 0\<rparr>) 0) = Some (None, of_nat (length enc)) \<and>
    (\<exists>sh o2. rdbGenericLoadStringObject (\<lambda>_. 0) 0 rioBufferIO (rioInitWithBuffer enc) (createSharedIntegers 0) False =
       Some (consumed (rioInitWithBuffer enc) enc, sh, Some o2) \<and> obj_text o2 = replicate 30 0)"
proof -
  let ?o = "createObject REDIS_STRING (PSds \<lparr>s_len = 30, s_free = 0, s_buf = replicate 31 0\<rparr>) 0"
  have o: "obj_ok ?o" "obj_text ?o = replicate 30 0" by (simp_all add: createObject_def obj_ok_def obj_text_def sds_ok_def sds_text_def)
  have p: "pending (rioInitWithBuffer enc) = enc @ []" for enc by (simp add: pending_def rioInitWithBuffer_def)
  have h: "length (obj_text ?o) \<le> 2 ^ 29" "htab_ok (\<lambda>_. 0)" by (simp_all add: o(2) htab_ok_def)
  show ?thesis
    using rdb_string_roundtrip[OF o(1) h, of "\<lambda>_. 0" True, unfolded o(2)] p shared_integers_ok by meson
qed

text \<open>C30. A stream that ends inside a saved string is reported: for every strict prefix of what
  \<open>rdbSaveStringObject\<close> writes, loading returns the null object - no panic, no access out of bounds, no
  partial string.\<close>

theorem rdb_truncated_string:
  assumes "obj_ok o1" "length (obj_text o1) \<le> 2 ^ 29" "htab_ok htab"
    and "rdbSaveStringObject junk htab compr rioBufferIO (Some (rioInitWithBuffer [])) o1 = Some (Some w, n)"
    and "pending rd = take k (b_ptr (r_io w))" "k < length (b_ptr (r_io w))"
  shows "\<exists>r. rdbGenericLoadStringObject junk' clk rioBufferIO rd integers encode = Some (r, integers, None)"
proof -
  obtain enc where enc: "codes enc (obj_text o1)"
    "\<And>rdb. rdbSaveStringObject junk htab compr rioBufferIO rdb o1 = Some (emit rdb enc, of_nat (length enc))"
    using save_string[OF assms(1-3)] by blast
  have "b_ptr (r_io w) = enc" using enc(2) assms(4) by (auto simp: appended_def rioInitWithBuffer_def)
  then show ?thesis using enc(1) assms(5,6) by (simp add: codes_def detects_def)
qed

theorem rdb_truncated_string_witness:
  "\<exists>r. rdbGenericLoadStringObject (\<lambda>_. 0) 0 rioBufferIO (rioInitWithBuffer [192]) [] True = Some (r, [], None)"
proof -
  let ?o = "(createObject REDIS_STRING (PLong 7) 0)\<lparr>o_encoding := ENC_INT\<rparr>"
  have enc: "rdbEncodeInteger 7 = Some [192, 7]" by (simp add: rdbEncodeInteger_def rdb_consts)
  have s: "rdbSaveStringObject (\<lambda>_. 0) (\<lambda>_. 0) True rioBufferIO (Some (rioInitWithBuffer [])) ?o =
    Some (Some (appended (rioInitWithBuffer []) [192, 7]), 2)"
    by (simp add: rdbSaveStringObject_def createObject_def rdbSaveLongLongAsStringObject_def enc write_raw)
  show ?thesis
    by (rule rdb_truncated_string[OF _ _ _ s, where k = 1])
      (simp_all add: createObject_def obj_ok_def obj_text_def int_repr_def dec_repr.simps htab_ok_def appended_def rioInitWithBuffer_def pending_def)
qed

text \<open>The length encoding is a prefix code on all 32-bit lengths, in 1, 2 or 5 bytes: what
  \<open>rdbSaveLen\<close> writes, \<open>rdbLoadLen\<close> reads back as the same length, not marked as an encoding, leaving the rest of
  the stream.\<close>

lemma rdb_length_roundtrip:
  "\<exists>enc. length enc \<in> {1, 2, 5} \<and> rdbSaveLen rioBufferIO (Some r) len = (Some (appended r enc), of_nat (length enc)) \<and>
    (\<forall>rd rest. pending rd = enc @ rest \<longrightarrow> rdbLoadLen rioBufferIO rd = (consumed rd enc, len, False))"
proof -
  have "length (len_enc len) \<in> {1, 2, 5}" by (simp add: len_enc_def)
  then show ?thesis using save_len[of "Some r" len] load_len[of _ len] by (intro exI[of _ "len_enc len"]) auto
qed

text \<open>C36. A dump can make the loader read out of bounds: a compressed string whose compressed length is 0 lets
  \<open>lzf_decompress\<close> read the first byte of an empty buffer.\<close>

theorem rdb_empty_lzf_reads_out_of_bounds:
  "rdbLoadStringObject junk clk rioBufferIO (rioInitWithBuffer [type_byte REDIS_RDB_ENC_LZF, 0, 5]) integers = None"
proof -
  let ?rd = "rioInitWithBuffer [type_byte 3, 0, 5]"
  have e: "len_enc 0 = [0]" "len_enc 5 = [5]" by (simp_all add: len_enc_def rdb_consts)
  have p1: "pending ?rd = [type_byte 3] @ [0, 5]" by (simp add: pending_def rioInitWithBuffer_def)
  note l1 = load_type_byte[OF p1, simplified]
  have p2: "pending (consumed ?rd [type_byte 3]) = len_enc 0 @ [5]" using pending_consumed[OF p1] e by simp
  note l2 = load_len[OF p2]
  have p3: "pending (consumed (consumed ?rd [type_byte 3]) (len_enc 0)) = len_enc 5 @ []" using pending_consumed[OF p2] e by simp
  note l3 = load_len[OF p3]
  obtain val where val: "sdsnewlen junk None 5 = Some val" using newlen_ok[of 5 None junk] by auto
  have r: "rioRead rioBufferIO rd 0 = (rd, Some [])" for rd by (subst rioRead.simps) simp
  have "lzf_decompress [] out = None" for out by (simp add: lzf_decompress_def lzf_decompress_loop.simps lzf_expand_def load_def)
  then have "rdbLoadLzfStringObject junk clk rioBufferIO (consumed ?rd [type_byte 3]) integers = None"
    by (simp add: rdbLoadLzfStringObject_def l2 l3 val r REDIS_RDB_LENERR_def)
  then show ?thesis by (simp add: rdbLoadStringObject_def rdbGenericLoadStringObject_def l1 rdb_consts)
qed

end
