(* ===== verification/Redis_Reply.thy ===== *)
theory Redis_Reply
  imports Redis_Object
begin

text \<open>
  \<open>networking.c\<close>, output side: how replies are queued for a client (a fixed buffer first, then a list of
  objects), how the protocol items are built, and how \<open>sendReplyToClient\<close> drains the queue through partial
  writes.

  The record holds the fields of \<open>redisClient\<close> these functions use.  A node of the reply list keeps the
  encoding and reference count of its object and its text, \<open>None\<close> for the placeholder of a deferred length.
  Whether the event library accepts the write handler, what \<open>write\<close> returns and how much memory is used are
  arguments.  The count of bytes in the list (\<open>reply_bytes\<close>, the sizes the allocator reports) and the
  limits that depend on it are left out.

  The main result: the queue is a byte stream.  Every function appends exactly its text, and whatever
  sequence of partial writes the system performs, the bytes sent followed by the bytes still queued are
  the bytes that were queued.
\<close>

section \<open>The code\<close>

definition REDIS_REPLY_CHUNK_BYTES :: nat where "REDIS_REPLY_CHUNK_BYTES = 16 * 1024"
definition REDIS_MAX_WRITE_PER_EVENT :: nat where "REDIS_MAX_WRITE_PER_EVENT = 1024 * 64"
definition REDIS_SHARED_BULKHDR_LEN :: nat where "REDIS_SHARED_BULKHDR_LEN = 32"
definition REDIS_REPL_NONE :: nat where "REDIS_REPL_NONE = 0"
definition REDIS_REPL_ONLINE :: nat where "REDIS_REPL_ONLINE = 17"

record reply_node =
  n_enc :: obj_encoding
  n_ptr :: "bytes option"
  n_refcount :: int

record out_client =
  k_fd :: int
  k_lua :: bool
  k_master :: bool
  k_master_force :: bool
  k_close_after_reply :: bool
  k_close_asap :: bool
  k_replstate :: nat
  k_put_online_on_ack :: bool
  k_handler :: bool
  k_buf :: bytes
  k_bufpos :: nat
  k_reply :: "reply_node list"
  k_sentlen :: nat

definition freeClientAsync :: "'a out_client_scheme \<Rightarrow> 'a out_client_scheme" where
  "freeClientAsync c = (if k_close_asap c \<or> k_lua c then c else c\<lparr>k_close_asap := True\<rparr>)"

definition prepareClientToWrite :: "bool \<Rightarrow> 'a out_client_scheme \<Rightarrow> 'a out_client_scheme \<times> bool" where
  "prepareClientToWrite ae_ok c =
     (if k_lua c then (c, True)
      else if k_master c \<and> \<not> k_master_force c then (c, False)
      else if k_fd c \<le> 0 then (c, False)
      else if k_bufpos c = 0 \<and> k_reply c = [] \<and>
              (k_replstate c = REDIS_REPL_NONE \<or> (k_replstate c = REDIS_REPL_ONLINE \<and> \<not> k_put_online_on_ack c))
      then if \<not> ae_ok then (freeClientAsync c, False) else (c\<lparr>k_handler := True\<rparr>, True)
      else (c, True))"

definition dupLastObjectIfNeeded :: "reply_node list \<Rightarrow> reply_node list option" where
  "dupLastObjectIfNeeded reply =
     (if reply = [] then None
      else Some (if n_refcount (last reply) > 1 then butlast reply @ [(last reply)\<lparr>n_refcount := 1\<rparr>] else reply))"

definition addReplyToBuffer :: "'a out_client_scheme \<Rightarrow> bytes \<Rightarrow> ('a out_client_scheme \<times> bool) option" where
  "addReplyToBuffer c s =
     (if k_close_after_reply c then Some (c, True)
      else if k_reply c \<noteq> [] then Some (c, False)
      else if length s > REDIS_REPLY_CHUNK_BYTES - k_bufpos c then Some (c, False)
      else do {
        buf \<leftarrow> mem_write (k_buf c) (k_bufpos c) s;
        Some (c\<lparr>k_buf := buf, k_bufpos := k_bufpos c + length s\<rparr>, True)
      })"

text \<open>Whether the tail of the list takes \<open>len\<close> more bytes, and appending them to it.\<close>

definition tail_takes :: "reply_node list \<Rightarrow> nat \<Rightarrow> bool" where
  "tail_takes reply len = (
     case n_ptr (last reply) of
       None \<Rightarrow> False
     | Some t \<Rightarrow> n_enc (last reply) = ENC_RAW \<and> length t + len \<le> REDIS_REPLY_CHUNK_BYTES)"

definition append_tail :: "reply_node list \<Rightarrow> bytes \<Rightarrow> reply_node list option" where
  "append_tail reply s = do {
     reply \<leftarrow> dupLastObjectIfNeeded reply;
     t \<leftarrow> n_ptr (last reply);
     Some (butlast reply @ [(last reply)\<lparr>n_ptr := Some (t @ s)\<rparr>])
   }"

text \<open>\<open>fresh\<close> is the node the function adds when the tail does not take the text.\<close>

definition add_to_list :: "'a out_client_scheme \<Rightarrow> bytes \<Rightarrow> reply_node \<Rightarrow> 'a out_client_scheme option" where
  "add_to_list c s fresh =
     (if k_close_after_reply c then Some c
      else if k_reply c = [] then Some (c\<lparr>k_reply := [fresh]\<rparr>)
      else if tail_takes (k_reply c) (length s)
      then do { reply \<leftarrow> append_tail (k_reply c) s; Some (c\<lparr>k_reply := reply\<rparr>) }
      else Some (c\<lparr>k_reply := k_reply c @ [fresh]\<rparr>))"

definition addReplyObjectToList :: "'a out_client_scheme \<Rightarrow> robj \<Rightarrow> 'a out_client_scheme option" where
  "addReplyObjectToList c obj =
     (case o_ptr obj of
        PSds s \<Rightarrow> do {
          t \<leftarrow> mem_read (s_buf s) 0 (sdslen s);
          add_to_list c t \<lparr>n_enc = o_encoding obj, n_ptr = Some t, n_refcount = o_refcount obj + 1\<rparr>
        }
      | _ \<Rightarrow> None)"

definition addReplySdsToList :: "'a out_client_scheme \<Rightarrow> bytes \<Rightarrow> 'a out_client_scheme option" where
  "addReplySdsToList c s = add_to_list c s \<lparr>n_enc = ENC_RAW, n_ptr = Some s, n_refcount = 1\<rparr>"

definition addReplyStringToList :: "'a out_client_scheme \<Rightarrow> bytes \<Rightarrow> 'a out_client_scheme option" where
  "addReplyStringToList c s =
     add_to_list c s \<lparr>n_enc = (if length s \<le> REDIS_ENCODING_EMBSTR_SIZE_LIMIT then ENC_EMBSTR else ENC_RAW), n_ptr = Some s, n_refcount = 1\<rparr>"

definition addReply :: "(nat \<Rightarrow> byte) \<Rightarrow> nat \<Rightarrow> bool \<Rightarrow> 'a out_client_scheme \<Rightarrow> robj \<Rightarrow> 'a out_client_scheme option" where
  "addReply junk clk ae_ok c obj = (
     let (c, ok) = prepareClientToWrite ae_ok c;
         slow = (\<lambda>obj. case o_ptr obj of
                   PSds s \<Rightarrow> do {
                     t \<leftarrow> mem_read (s_buf s) 0 (sdslen s);
                     (c', done) \<leftarrow> addReplyToBuffer c t;
                     (if \<not> done then addReplyObjectToList c' obj else Some c')
                   }
                 | _ \<Rightarrow> None)
     in if \<not> ok then Some c
        else if sdsEncodedObject obj then slow obj
        else case (o_encoding obj, o_ptr obj) of
          (ENC_INT, PLong v) \<Rightarrow> do {
            (c', done) \<leftarrow> (if k_reply c = [] \<and> REDIS_REPLY_CHUNK_BYTES - k_bufpos c \<ge> 32
                          then do { (len, buf) \<leftarrow> ll2string (map junk [0..<32]) 32 v; addReplyToBuffer c (take len buf) }
                          else Some (c, False));
            (if done then Some c' else do { dec \<leftarrow> getDecodedObject junk clk obj; slow dec })
          }
        | _ \<Rightarrow> None)"

definition addReplySds :: "bool \<Rightarrow> 'a out_client_scheme \<Rightarrow> bytes \<Rightarrow> 'a out_client_scheme option" where
  "addReplySds ae_ok c s = (
     let (c, ok) = prepareClientToWrite ae_ok c
     in if \<not> ok then Some c
        else do { (c, done) \<leftarrow> addReplyToBuffer c s; (if done then Some c else addReplySdsToList c s) })"

definition addReplyString :: "bool \<Rightarrow> 'a out_client_scheme \<Rightarrow> bytes \<Rightarrow> 'a out_client_scheme option" where
  "addReplyString ae_ok c s = (
     let (c, ok) = prepareClientToWrite ae_ok c
     in if \<not> ok then Some c
        else do { (c, done) \<leftarrow> addReplyToBuffer c s; (if \<not> done then addReplyStringToList c s else Some c) })"

definition addReplyErrorLength :: "bool \<Rightarrow> 'a out_client_scheme \<Rightarrow> bytes \<Rightarrow> 'a out_client_scheme option" where
  "addReplyErrorLength ae_ok c s = do {
     c \<leftarrow> addReplyString ae_ok c (bytes_of_string ''-ERR '');
     c \<leftarrow> addReplyString ae_ok c s;
     addReplyString ae_ok c [13, 10]
   }"

definition addReplyError :: "bool \<Rightarrow> 'a out_client_scheme \<Rightarrow> string \<Rightarrow> 'a out_client_scheme option" where
  "addReplyError ae_ok c err = addReplyErrorLength ae_ok c (bytes_of_string err)"

definition addReplyStatusLength :: "bool \<Rightarrow> 'a out_client_scheme \<Rightarrow> bytes \<Rightarrow> 'a out_client_scheme option" where
  "addReplyStatusLength ae_ok c s = do {
     c \<leftarrow> addReplyString ae_ok c [43];
     c \<leftarrow> addReplyString ae_ok c s;
     addReplyString ae_ok c [13, 10]
   }"

definition addReplyStatus :: "bool \<Rightarrow> 'a out_client_scheme \<Rightarrow> string \<Rightarrow> 'a out_client_scheme option" where
  "addReplyStatus ae_ok c status = addReplyStatusLength ae_ok c (bytes_of_string status)"

text \<open>The node a deferred length is put in: its position in the list, \<open>None\<close> for the null pointer.\<close>

definition addDeferredMultiBulkLength :: "bool \<Rightarrow> 'a out_client_scheme \<Rightarrow> 'a out_client_scheme \<times> nat option" where
  "addDeferredMultiBulkLength ae_ok c = (
     let (c, ok) = prepareClientToWrite ae_ok c
     in if \<not> ok then (c, None)
        else (c\<lparr>k_reply := k_reply c @ [\<lparr>n_enc = ENC_RAW, n_ptr = None, n_refcount = 1\<rparr>]\<rparr>, Some (length (k_reply c))))"

definition setDeferredMultiBulkLength :: "'a out_client_scheme \<Rightarrow> nat option \<Rightarrow> int \<Rightarrow> 'a out_client_scheme option" where
  "setDeferredMultiBulkLength c node len =
     (case node of
        None \<Rightarrow> Some c
      | Some i \<Rightarrow>
          if \<not> i < length (k_reply c) then None
          else
            let hdr = [42] @ int_repr len @ [13, 10];
                r = k_reply c
            in if Suc i < length r \<and> n_ptr (r ! Suc i) \<noteq> None
               then Some (c\<lparr>k_reply := take i r @ [(r ! i)\<lparr>n_enc := ENC_RAW, n_ptr := Some (hdr @ the (n_ptr (r ! Suc i)))\<rparr>] @ drop (i + 2) r\<rparr>)
               else Some (c\<lparr>k_reply := r[i := (r ! i)\<lparr>n_enc := ENC_RAW, n_ptr := Some hdr\<rparr>]\<rparr>))"

text \<open>The objects shared between all clients.\<close>

definition shared_string :: "bytes \<Rightarrow> robj" where
  "shared_string t = createObject REDIS_STRING (PSds \<lparr>s_len = length t, s_free = 0, s_buf = t @ [0]\<rparr>) 0"

definition shared_header :: "byte \<Rightarrow> int \<Rightarrow> robj option" where
  "shared_header prefix j =
     (if 0 \<le> j \<and> j < int REDIS_SHARED_BULKHDR_LEN then Some (shared_string ([prefix] @ int_repr j @ [13, 10])) else None)"

definition addReplyLongLongWithPrefix ::
  "(nat \<Rightarrow> byte) \<Rightarrow> nat \<Rightarrow> bool \<Rightarrow> 'a out_client_scheme \<Rightarrow> 64 word \<Rightarrow> byte \<Rightarrow> 'a out_client_scheme option" where
  "addReplyLongLongWithPrefix junk clk ae_ok c ll prefix =
     (if (prefix = 42 \<or> prefix = 36) \<and> sint ll < int REDIS_SHARED_BULKHDR_LEN
      then do { h \<leftarrow> shared_header prefix (sint ll); addReply junk clk ae_ok c h }
      else do {
        (len, buf) \<leftarrow> ll2string (map junk [0..<127]) 127 ll;
        addReplyString ae_ok c ([prefix] @ take len buf @ [13, 10])
      })"

definition addReplyLongLong :: "(nat \<Rightarrow> byte) \<Rightarrow> nat \<Rightarrow> bool \<Rightarrow> 'a out_client_scheme \<Rightarrow> 64 word \<Rightarrow> 'a out_client_scheme option" where
  "addReplyLongLong junk clk ae_ok c ll =
     (if ll = 0 then addReply junk clk ae_ok c (shared_string (bytes_of_string '':0'' @ [13, 10]))
      else if ll = 1 then addReply junk clk ae_ok c (shared_string (bytes_of_string '':1'' @ [13, 10]))
      else addReplyLongLongWithPrefix junk clk ae_ok c ll 58)"

definition addReplyMultiBulkLen :: "(nat \<Rightarrow> byte) \<Rightarrow> nat \<Rightarrow> bool \<Rightarrow> 'a out_client_scheme \<Rightarrow> 64 word \<Rightarrow> 'a out_client_scheme option" where
  "addReplyMultiBulkLen junk clk ae_ok c len =
     (if sint len < int REDIS_SHARED_BULKHDR_LEN
      then do { h \<leftarrow> shared_header 42 (sint len); addReply junk clk ae_ok c h }
      else addReplyLongLongWithPrefix junk clk ae_ok c len 42)"

text \<open>The loop of \<open>addReplyBulkLen\<close> that counts the digits of an integer; C division truncates.\<close>

function count_digits :: "int \<Rightarrow> nat \<Rightarrow> nat" where
  "count_digits n len = (
     let n = (if n < 0 then - (- n div 10) else n div 10)
     in if n \<noteq> 0 then count_digits n (len + 1) else len)"
  by pat_completeness auto
termination by (relation "measure (\<lambda>(n, len). nat \<bar>n\<bar>)") (auto simp: Let_def split: if_splits)

declare count_digits.simps [simp del]

definition addReplyBulkLen :: "(nat \<Rightarrow> byte) \<Rightarrow> nat \<Rightarrow> bool \<Rightarrow> 'a out_client_scheme \<Rightarrow> robj \<Rightarrow> 'a out_client_scheme option" where
  "addReplyBulkLen junk clk ae_ok c obj = do {
     len \<leftarrow> (if sdsEncodedObject obj then (case o_ptr obj of PSds s \<Rightarrow> Some (sdslen s) | _ \<Rightarrow> None)
            else case o_ptr obj of
                   PLong v \<Rightarrow>
                     let n = sint v
                     in Some (if n < 0 then count_digits (sint (- v)) 2 else count_digits n 1)
                 | _ \<Rightarrow> None);
     (if len < REDIS_SHARED_BULKHDR_LEN then do { h \<leftarrow> shared_header 36 (int len); addReply junk clk ae_ok c h }
      else addReplyLongLongWithPrefix junk clk ae_ok c (of_nat len) 36)
   }"

definition addReplyBulk :: "(nat \<Rightarrow> byte) \<Rightarrow> nat \<Rightarrow> bool \<Rightarrow> 'a out_client_scheme \<Rightarrow> robj \<Rightarrow> 'a out_client_scheme option" where
  "addReplyBulk junk clk ae_ok c obj = do {
     c \<leftarrow> addReplyBulkLen junk clk ae_ok c obj;
     c \<leftarrow> addReply junk clk ae_ok c obj;
     addReply junk clk ae_ok c (shared_string [13, 10])
   }"

definition addReplyBulkCBuffer :: "(nat \<Rightarrow> byte) \<Rightarrow> nat \<Rightarrow> bool \<Rightarrow> 'a out_client_scheme \<Rightarrow> bytes \<Rightarrow> 'a out_client_scheme option" where
  "addReplyBulkCBuffer junk clk ae_ok c p = do {
     c \<leftarrow> addReplyLongLongWithPrefix junk clk ae_ok c (of_nat (length p)) 36;
     c \<leftarrow> addReplyString ae_ok c p;
     addReply junk clk ae_ok c (shared_string [13, 10])
   }"

definition addReplyBulkCString :: "(nat \<Rightarrow> byte) \<Rightarrow> nat \<Rightarrow> bool \<Rightarrow> 'a out_client_scheme \<Rightarrow> bytes option \<Rightarrow> 'a out_client_scheme option" where
  "addReplyBulkCString junk clk ae_ok c s =
     (case s of
        None \<Rightarrow> addReply junk clk ae_ok c (shared_string (bytes_of_string ''$-1'' @ [13, 10]))
      | Some s \<Rightarrow> addReplyBulkCBuffer junk clk ae_ok c s)"

definition addReplyBulkLongLong :: "(nat \<Rightarrow> byte) \<Rightarrow> nat \<Rightarrow> bool \<Rightarrow> 'a out_client_scheme \<Rightarrow> 64 word \<Rightarrow> 'a out_client_scheme option" where
  "addReplyBulkLongLong junk clk ae_ok c ll = do {
     (len, buf) \<leftarrow> ll2string (map junk [0..<64]) 64 ll;
     addReplyBulkCBuffer junk clk ae_ok c (take len buf)
   }"

text \<open>The loop of \<open>sendReplyToClient\<close>.  \<open>ws\<close> holds what the successive calls of \<open>write\<close> return, in the range
  the system call promises (at most the bytes offered), the loop stopping when the list is used up (the event
  loop would go on later); \<open>over\<close> tells whether the memory limit is exceeded.  The result has the bytes the
  socket accepted, the total and the last return value.\<close>

function send_loop :: "bool \<Rightarrow> int list \<Rightarrow> 'a out_client_scheme \<Rightarrow> bytes \<Rightarrow> nat \<Rightarrow> int \<Rightarrow> ('a out_client_scheme \<times> bytes \<times> nat \<times> int) option" where
  "send_loop over ws c sent tot nwritten =
     (if k_bufpos c > 0 then
        (case ws of
           [] \<Rightarrow> Some (c, sent, tot, nwritten)
         | w # ws \<Rightarrow> do {
             let offered = drop (k_sentlen c) (take (k_bufpos c) (k_buf c));
             (if w \<le> 0 then Some (c, sent, tot, w)
              else
                let n = min (nat w) (length offered);
                    c = c\<lparr>k_sentlen := k_sentlen c + n\<rparr>;
                    c = (if k_sentlen c = k_bufpos c then c\<lparr>k_bufpos := 0, k_sentlen := 0\<rparr> else c)
                in if tot + n > REDIS_MAX_WRITE_PER_EVENT \<and> \<not> over then Some (c, sent @ take n offered, tot + n, int n)
                   else send_loop over ws c (sent @ take n offered) (tot + n) (int n))
           })
      else
        (case k_reply c of
           [] \<Rightarrow> Some (c, sent, tot, nwritten)
         | o1 # rest \<Rightarrow>
             (case n_ptr o1 of
                None \<Rightarrow> None
              | Some t \<Rightarrow>
                  if length t = 0 then send_loop over ws (c\<lparr>k_reply := rest\<rparr>) sent tot nwritten
                  else
                    (case ws of
                       [] \<Rightarrow> Some (c, sent, tot, nwritten)
                     | w # ws \<Rightarrow>
                         if w \<le> 0 then Some (c, sent, tot, w)
                         else
                           let offered = drop (k_sentlen c) t;
                               n = min (nat w) (length offered);
                               c = c\<lparr>k_sentlen := k_sentlen c + n\<rparr>;
                               c = (if k_sentlen c = length t then c\<lparr>k_reply := rest, k_sentlen := 0\<rparr> else c)
                           in if tot + n > REDIS_MAX_WRITE_PER_EVENT \<and> \<not> over then Some (c, sent @ take n offered, tot + n, int n)
                              else send_loop over ws c (sent @ take n offered) (tot + n) (int n)))))"
  by pat_completeness auto
termination
  by (relation "measures [\<lambda>(over, ws, c, sent, tot, nw). length ws, \<lambda>(over, ws, c, sent, tot, nw). length (k_reply c)]") auto

declare send_loop.simps [simp del]

text \<open>\<open>eagain\<close>: whether a failing write reported that it would block.  \<open>None\<close> as the client stands for
  \<open>freeClient\<close>.\<close>

definition sendReplyToClient :: "bool \<Rightarrow> bool \<Rightarrow> int list \<Rightarrow> 'a out_client_scheme \<Rightarrow> ('a out_client_scheme option \<times> bytes) option" where
  "sendReplyToClient over eagain ws c = do {
     (c, sent, tot, nwritten) \<leftarrow> send_loop over ws c [] 0 0;
     Some (if nwritten = - 1 \<and> \<not> eagain then (None, sent)
           else if k_bufpos c = 0 \<and> k_reply c = []
           then (if k_close_after_reply c then None else Some (c\<lparr>k_sentlen := 0, k_handler := False\<rparr>), sent)
           else (Some c, sent))
   }"

section \<open>The queue as a byte stream\<close>

definition texts :: "reply_node list \<Rightarrow> bytes" where
  "texts r = concat (map (\<lambda>n. case n_ptr n of Some t \<Rightarrow> t | None \<Rightarrow> []) r)"

definition queued :: "'a out_client_scheme \<Rightarrow> bytes" where
  "queued c = (if k_bufpos c > 0 then drop (k_sentlen c) (take (k_bufpos c) (k_buf c)) @ texts (k_reply c)
               else drop (k_sentlen c) (texts (k_reply c)))"

definition out_ok :: "'a out_client_scheme \<Rightarrow> bool" where
  "out_ok c \<longleftrightarrow> length (k_buf c) = REDIS_REPLY_CHUNK_BYTES \<and> k_bufpos c \<le> REDIS_REPLY_CHUNK_BYTES \<and>
     (if k_bufpos c > 0 then k_sentlen c < k_bufpos c
      else k_sentlen c = 0 \<or> (k_reply c \<noteq> [] \<and> k_sentlen c < length (texts [hd (k_reply c)])))"

definition writes :: "bool \<Rightarrow> 'a out_client_scheme \<Rightarrow> bool" where
  "writes ae_ok c \<longleftrightarrow> \<not> k_close_after_reply c \<and> snd (prepareClientToWrite ae_ok c)"

text \<open>A sink of bytes: putting an item appends its text if the sink is open, and never closes or opens it.\<close>

locale byte_sink =
  fixes put :: "'c \<Rightarrow> 'a \<Rightarrow> 'c option"
    and content :: "'a \<Rightarrow> bytes"
    and valid :: "'a \<Rightarrow> bool"
    and out :: "'c \<Rightarrow> bytes"
    and is_open :: "'c \<Rightarrow> bool"
    and ok :: "'c \<Rightarrow> bool"
  assumes put_spec: "ok c \<Longrightarrow> valid x \<Longrightarrow>
    \<exists>c'. put c x = Some c' \<and> ok c' \<and> is_open c' = is_open c \<and> out c' = out c @ (if is_open c then content x else [])"
begin

fun put_seq :: "'c \<Rightarrow> 'a list \<Rightarrow> 'c option" where
  "put_seq c [] = Some c"
| "put_seq c (x # xs) = do { c \<leftarrow> put c x; put_seq c xs }"

lemma put_seq_spec:
  assumes "ok c" "list_all valid xs"
  shows "\<exists>c'. put_seq c xs = Some c' \<and> ok c' \<and> is_open c' = is_open c \<and>
    out c' = out c @ (if is_open c then concat (map content xs) else [])"
  using assms
proof (induction xs arbitrary: c)
  case (Cons x xs)
  then obtain d where d: "put c x = Some d" "ok d" "is_open d = is_open c" "out d = out c @ (if is_open c then content x else [])"
    using put_spec[of c x] by auto
  then show ?case using Cons.IH[of d] Cons.prems(2) by (auto split: if_splits)
qed simp

end

datatype item = Str bytes | Obj robj

definition put_item :: "(nat \<Rightarrow> byte) \<Rightarrow> nat \<Rightarrow> bool \<Rightarrow> 'a out_client_scheme \<Rightarrow> item \<Rightarrow> 'a out_client_scheme option" where
  "put_item junk clk ae_ok c x = (case x of Str s \<Rightarrow> addReplyString ae_ok c s | Obj o1 \<Rightarrow> addReply junk clk ae_ok c o1)"

definition item_text :: "item \<Rightarrow> bytes" where
  "item_text x = (case x of Str s \<Rightarrow> s | Obj o1 \<Rightarrow> obj_text o1)"

definition item_ok :: "item \<Rightarrow> bool" where
  "item_ok x = (case x of Str s \<Rightarrow> True | Obj o1 \<Rightarrow> obj_ok o1)"

lemma texts_simps [simp]: "texts [] = []" "texts (n # r) = (case n_ptr n of Some t \<Rightarrow> t | None \<Rightarrow> []) @ texts r"
  "texts (r @ r') = texts r @ texts r'"
  by (simp_all add: texts_def)

lemma tail_append:
  assumes "tail_takes r (length s)" "r \<noteq> []"
  shows "\<exists>r'. append_tail r s = Some r' \<and> r' \<noteq> [] \<and> texts r' = texts r @ s \<and>
    length (texts [hd r]) \<le> length (texts [hd r'])"
proof -
  obtain i n where r: "r = i @ [n]" using assms(2) by (metis append_butlast_last_id)
  obtain t where t: "n_ptr n = Some t" using assms(1) by (auto simp: tail_takes_def r split: option.splits)
  show ?thesis by (cases i) (auto simp: append_tail_def dupLastObjectIfNeeded_def r t)
qed

text \<open>Queueing in a client that takes the text.\<close>

lemma to_buffer:
  assumes "out_ok c" "\<not> k_close_after_reply c"
  shows "\<exists>c' b. addReplyToBuffer c s = Some (c', b) \<and> (if b then out_ok c' \<and> queued c' = queued c @ s \<and>
      (\<exists>buf pos. c' = c\<lparr>k_buf := buf, k_bufpos := pos\<rparr>) \<and> k_bufpos c \<le> k_bufpos c' else c' = c)"
proof (cases "k_reply c \<noteq> [] \<or> length s > REDIS_REPLY_CHUNK_BYTES - k_bufpos c")
  case True
  then show ?thesis using assms(2) by (auto simp: addReplyToBuffer_def)
next
  case False
  let ?p = "k_bufpos c"
  define buf where "buf = take ?p (k_buf c) @ s @ drop (?p + length s) (k_buf c)"
  have l: "length (k_buf c) = REDIS_REPLY_CHUNK_BYTES" "?p + length s \<le> REDIS_REPLY_CHUNK_BYTES"
    using assms(1) False by (auto simp: out_ok_def)
  then have w: "mem_write (k_buf c) ?p s = Some buf" by (simp add: mem_write_def buf_def)
  have b: "length buf = REDIS_REPLY_CHUNK_BYTES" "take (?p + length s) buf = take ?p (k_buf c) @ s"
    using l by (simp_all add: buf_def)
  have z: "?p = 0 \<Longrightarrow> k_sentlen c = 0" using assms(1) False by (auto simp: out_ok_def)
  have k: "0 < ?p \<Longrightarrow> k_sentlen c < ?p" using assms(1) by (auto simp: out_ok_def)
  let ?c = "c\<lparr>k_buf := buf, k_bufpos := ?p + length s\<rparr>"
  have "out_ok ?c" using b l z k assms(1) False by (cases "?p = 0") (auto simp: out_ok_def)
  moreover have "queued ?c = queued c @ s"
    using b(2) z k False l by (cases "?p = 0") (auto simp: queued_def)
  ultimately show ?thesis using w False assms(2) by (auto simp: addReplyToBuffer_def)
qed

lemma to_list:
  assumes "out_ok c" "\<not> k_close_after_reply c" "n_ptr fresh = Some s"
  shows "\<exists>r. add_to_list c s fresh = Some (c\<lparr>k_reply := r\<rparr>) \<and> r \<noteq> [] \<and>
    out_ok (c\<lparr>k_reply := r\<rparr>) \<and> queued (c\<lparr>k_reply := r\<rparr>) = queued c @ s"
proof -
  have sent: "k_sentlen c \<le> length (texts (k_reply c))" if "k_bufpos c = 0"
    using assms(1) that by (cases "k_reply c") (auto simp: out_ok_def split: option.splits)
  have q: "queued (c\<lparr>k_reply := r\<rparr>) = queued c @ s" if "texts r = texts (k_reply c) @ s" for r
    using that sent by (auto simp: queued_def)
  have o: "out_ok (c\<lparr>k_reply := r\<rparr>)" if "r \<noteq> []" "k_reply c \<noteq> [] \<Longrightarrow> length (texts [hd (k_reply c)]) \<le> length (texts [hd r])" for r
    using assms(1) that by (auto simp: out_ok_def split: if_splits)
  consider "k_reply c = []" | "k_reply c \<noteq> []" "tail_takes (k_reply c) (length s)" | "k_reply c \<noteq> []" "\<not> tail_takes (k_reply c) (length s)"
    by blast
  then show ?thesis
  proof cases
    case 1
    then show ?thesis using q[of "[fresh]"] o[of "[fresh]"] assms(2,3) by (auto simp: add_to_list_def)
  next
    case 2
    then show ?thesis using tail_append[OF 2(2,1)] q o assms(2) by (auto simp: add_to_list_def)
  next
    case 3
    then show ?thesis using q[of "k_reply c @ [fresh]"] o[of "k_reply c @ [fresh]"] assms(2,3) by (auto simp: add_to_list_def)
  qed
qed

text \<open>What \<open>writes\<close> depends on: the control fields and whether the queue is empty.\<close>

definition ctl :: "'a out_client_scheme \<Rightarrow> int \<times> bool \<times> bool \<times> bool \<times> bool \<times> nat \<times> bool" where
  "ctl c = (k_fd c, k_lua c, k_master c, k_master_force c, k_close_after_reply c, k_replstate c, k_put_online_on_ack c)"

definition idle :: "'a out_client_scheme \<Rightarrow> bool" where
  "idle c \<longleftrightarrow> k_bufpos c = 0 \<and> k_reply c = []"

lemma writes_iff:
  "writes ae_ok c \<longleftrightarrow> \<not> k_close_after_reply c \<and> (k_lua c \<or> (\<not> (k_master c \<and> \<not> k_master_force c) \<and> k_fd c > 0 \<and>
     (ae_ok \<or> \<not> (idle c \<and> (k_replstate c = REDIS_REPL_NONE \<or> (k_replstate c = REDIS_REPL_ONLINE \<and> \<not> k_put_online_on_ack c))))))"
  by (auto simp: writes_def prepareClientToWrite_def idle_def)

lemma writes_stable: "ctl d = ctl c \<Longrightarrow> writes ae_ok c \<Longrightarrow> (idle d \<Longrightarrow> idle c) \<Longrightarrow> writes ae_ok d"
  unfolding writes_iff ctl_def by auto

lemma prepared:
  assumes "prepareClientToWrite ae_ok c = (c1, b)" "out_ok c"
  shows "out_ok c1 \<and> queued c1 = queued c \<and> ctl c1 = ctl c \<and> idle c1 = idle c \<and> k_reply c1 = k_reply c \<and> k_bufpos c1 = k_bufpos c"
  using assms by (auto simp: prepareClientToWrite_def freeClientAsync_def out_ok_def queued_def ctl_def idle_def split: if_splits)

lemma put_text:
  assumes "out_ok c" "\<not> k_close_after_reply c" "n_ptr fresh = Some t"
  shows "\<exists>c'. do { (c', done) \<leftarrow> addReplyToBuffer c t; (if \<not> done then add_to_list c' t fresh else Some c') } = Some c' \<and>
    out_ok c' \<and> queued c' = queued c @ t \<and> ctl c' = ctl c \<and> (idle c' \<longrightarrow> idle c)"
proof -
  obtain c' b where b: "addReplyToBuffer c t = Some (c', b)" "if b then out_ok c' \<and> queued c' = queued c @ t \<and>
      (\<exists>buf pos. c' = c\<lparr>k_buf := buf, k_bufpos := pos\<rparr>) \<and> k_bufpos c \<le> k_bufpos c' else c' = c"
    using to_buffer[OF assms(1,2), of t] by blast
  show ?thesis
  proof (cases b)
    case True
    then show ?thesis using b by (auto simp: ctl_def idle_def)
  next
    case False
    then show ?thesis using b to_list[OF assms] by (auto simp: ctl_def idle_def)
  qed
qed

text \<open>The shape shared by \<open>addReplyString\<close>, \<open>addReplySds\<close> and \<open>addReply\<close>: prepare, then put a text.\<close>

lemma put_prepared:
  assumes "out_ok c" "prepareClientToWrite ae_ok c = (c1, b)"
    and put: "\<And>d. out_ok d \<Longrightarrow> ctl d = ctl c1 \<Longrightarrow> k_reply d = k_reply c1 \<Longrightarrow> k_bufpos d = k_bufpos c1 \<Longrightarrow> \<not> k_close_after_reply d \<Longrightarrow>
      \<exists>c'. f d = Some c' \<and> out_ok c' \<and> queued c' = queued d @ t \<and> ctl c' = ctl d \<and> (idle c' \<longrightarrow> idle d)"
    and closed: "\<And>d. k_close_after_reply d \<Longrightarrow> ctl d = ctl c1 \<Longrightarrow> f d = Some d"
  shows "\<exists>c'. (if \<not> b then Some c1 else f c1) = Some c' \<and> out_ok c' \<and> writes ae_ok c' = writes ae_ok c \<and>
    queued c' = queued c @ (if writes ae_ok c then t else [])"
proof -
  note p = prepared[OF assms(2,1)]
  have w: "writes ae_ok c \<longleftrightarrow> \<not> k_close_after_reply c \<and> b" using assms(2) by (simp add: writes_def)
  have cl: "k_close_after_reply c1 = k_close_after_reply c" using p by (simp add: ctl_def)
  have same: "writes ae_ok c1 = writes ae_ok c" using p by (simp add: writes_iff ctl_def)
  show ?thesis
  proof (cases "b \<and> \<not> k_close_after_reply c")
    case True
    then obtain c' where c': "f c1 = Some c'" "out_ok c'" "queued c' = queued c1 @ t" "ctl c' = ctl c1" "idle c' \<longrightarrow> idle c1"
      using put[of c1] p cl by auto
    moreover have "writes ae_ok c'" using writes_stable[OF c'(4)] c'(5) same w True by blast
    ultimately show ?thesis using True w p by auto
  next
    case False
    then show ?thesis using closed[of c1] p cl w same by auto
  qed
qed

lemma string_put:
  assumes "out_ok c"
  shows "\<exists>c'. addReplyString ae_ok c s = Some c' \<and> out_ok c' \<and> writes ae_ok c' = writes ae_ok c \<and>
    queued c' = queued c @ (if writes ae_ok c then s else [])"
proof -
  obtain c1 b where p: "prepareClientToWrite ae_ok c = (c1, b)" by fastforce
  let ?f = "\<lambda>c. do { (c, done) \<leftarrow> addReplyToBuffer c s; (if \<not> done then addReplyStringToList c s else Some c) }"
  have "addReplyString ae_ok c s = (if \<not> b then Some c1 else ?f c1)" by (simp add: addReplyString_def p)
  moreover have "\<exists>c'. (if \<not> b then Some c1 else ?f c1) = Some c' \<and> out_ok c' \<and> writes ae_ok c' = writes ae_ok c \<and>
      queued c' = queued c @ (if writes ae_ok c then s else [])"
  proof (rule put_prepared[OF assms p])
    fix d assume "k_close_after_reply d"
    then show "?f d = Some d" by (simp add: addReplyToBuffer_def)
  next
    fix d assume "out_ok d" "\<not> k_close_after_reply d"
    then show "\<exists>c'. ?f d = Some c' \<and> out_ok c' \<and> queued c' = queued d @ s \<and> ctl c' = ctl d \<and> (idle c' \<longrightarrow> idle d)"
      unfolding addReplyStringToList_def by (rule put_text) simp
  qed
  ultimately show ?thesis by simp
qed

lemma decoded_ok:
  assumes "obj_ok o1" "\<not> sdsEncodedObject o1"
  shows "\<exists>d s. getDecodedObject junk clk o1 = Some d \<and> o_ptr d = PSds s \<and> sds_ok s \<and> sds_text s = obj_text o1 \<and> obj_ok d"
  using assms(1)
proof (cases rule: obj_ok_cases)
  case (sds s)
  then show ?thesis using assms(2) by simp
next
  case (int v)
  let ?r = "int_repr (sint v)"
  define buf where "buf = ?r @ [0] @ drop (Suc (length ?r)) (map junk [0..<32])"
  have l: "length ?r \<le> 20" by (rule length_int_repr_ll)
  have ll: "ll2string (map junk [0..<32]) 32 v = Some (length ?r, buf)" using l by (simp add: ll2string_eq Let_def buf_def)
  have cs: "c_string buf = Some ?r"
    using takeWhile_tail[of "\<lambda>c. c \<noteq> 0" 0 ?r] by (simp add: c_string_def buf_def int_repr_no_null)
  obtain d where d: "createEmbeddedStringObject clk (Some buf) (length ?r) = Some d" "obj_ok d" "obj_text d = take (length ?r) buf"
    using embedded_ok[of "length ?r" "Some buf" clk] l by (auto simp: buf_def)
  obtain s where s: "o_ptr d = PSds s"
    using d(1) by (auto simp: createEmbeddedStringObject_def split: bind_splits option.splits)
  have "sds_ok s" using d(2) s by (auto elim!: obj_ok_cases)
  moreover have "sds_text s = ?r" using d(3) s by (simp add: obj_text_def buf_def)
  moreover have "getDecodedObject junk clk o1 = Some d"
    unfolding getDecodedObject_def using assms int ll cs d(1) l
    by (simp add: obj_ok_def createStringObject_def REDIS_ENCODING_EMBSTR_SIZE_LIMIT_def)
  ultimately show ?thesis using s int(4) d(2) by auto
qed

lemma decrRef_ok: "obj_ok o1 \<Longrightarrow> \<exists>d. decrRefCount o1 = Some d"
  by (cases "o_refcount o1 = 1") (auto simp: obj_ok_def decrRefCount_def freeStringObject_def)

lemma decoded_any:
  assumes "obj_ok o1"
  shows "\<exists>d s r. getDecodedObject junk clk o1 = Some d \<and> o_ptr d = PSds s \<and> sds_ok s \<and> sds_text s = obj_text o1 \<and> decrRefCount d = Some r"
proof (cases "sdsEncodedObject o1")
  case True
  obtain s where s: "o_ptr o1 = PSds s" "sds_ok s" "obj_text o1 = sds_text s" using assms True by (auto elim!: obj_ok_cases)
  have "obj_ok (incrRefCount o1)" using assms by (auto simp: obj_ok_def incrRefCount_def)
  then show ?thesis using True s decrRef_ok by (fastforce simp: getDecodedObject_def incrRefCount_def)
next
  case False
  then show ?thesis using decoded_ok[OF assms False, of junk clk] decrRef_ok by blast
qed

text \<open>\<open>addReply\<close> after the client is prepared.\<close>

definition reply_sds :: "'a out_client_scheme \<Rightarrow> robj \<Rightarrow> 'a out_client_scheme option" where
  "reply_sds c obj = (case o_ptr obj of
      PSds s \<Rightarrow> do {
        t \<leftarrow> mem_read (s_buf s) 0 (sdslen s);
        (c', done) \<leftarrow> addReplyToBuffer c t;
        (if \<not> done then addReplyObjectToList c' obj else Some c')
      }
    | _ \<Rightarrow> None)"

lemma reply_sds_ok:
  assumes "o_ptr obj = PSds s" "sds_ok s" "out_ok d" "\<not> k_close_after_reply d"
  shows "\<exists>c'. reply_sds d obj = Some c' \<and> out_ok c' \<and> queued c' = queued d @ sds_text s \<and> ctl c' = ctl d \<and> (idle c' \<longrightarrow> idle d)"
proof -
  have "reply_sds d obj = do { (c', done) \<leftarrow> addReplyToBuffer d (sds_text s);
    (if \<not> done then add_to_list c' (sds_text s) \<lparr>n_enc = o_encoding obj, n_ptr = Some (sds_text s), n_refcount = o_refcount obj + 1\<rparr> else Some c') }"
    using assms(1) sds_bytes[OF assms(2)] by (simp add: reply_sds_def addReplyObjectToList_def cong: if_cong)
  then show ?thesis using put_text[OF assms(3,4), of "\<lparr>n_enc = o_encoding obj, n_ptr = Some (sds_text s), n_refcount = o_refcount obj + 1\<rparr>" "sds_text s"]
    by simp
qed

lemma reply_sds_closed:
  "o_ptr obj = PSds s \<Longrightarrow> sds_ok s \<Longrightarrow> k_close_after_reply d \<Longrightarrow> reply_sds d obj = Some d"
  by (simp add: reply_sds_def sds_bytes addReplyToBuffer_def)

lemma object_put:
  assumes "out_ok c" "obj_ok o1"
  shows "\<exists>c'. addReply junk clk ae_ok c o1 = Some c' \<and> out_ok c' \<and> writes ae_ok c' = writes ae_ok c \<and>
    queued c' = queued c @ (if writes ae_ok c then obj_text o1 else [])"
proof -
  obtain c1 b where p: "prepareClientToWrite ae_ok c = (c1, b)" by fastforce
  show ?thesis
    using assms(2)
  proof (cases rule: obj_ok_cases)
    case (sds s)
    have "addReply junk clk ae_ok c o1 = (if \<not> b then Some c1 else reply_sds c1 o1)"
      using sds(3) by (simp add: addReply_def p reply_sds_def)
    moreover have "\<exists>c'. (if \<not> b then Some c1 else reply_sds c1 o1) = Some c' \<and> out_ok c' \<and> writes ae_ok c' = writes ae_ok c \<and>
      queued c' = queued c @ (if writes ae_ok c then obj_text o1 else [])"
    proof (rule put_prepared[OF assms(1) p])
      fix d :: "'a out_client_scheme" assume "out_ok d" "\<not> k_close_after_reply d"
      then show "\<exists>c'. reply_sds d o1 = Some c' \<and> out_ok c' \<and> queued c' = queued d @ obj_text o1 \<and> ctl c' = ctl d \<and> (idle c' \<longrightarrow> idle d)"
        unfolding sds(4) by (rule reply_sds_ok[OF sds(1,2)])
    qed (rule reply_sds_closed[OF sds(1,2)])
    ultimately show ?thesis by simp
  next
    case (int v)
    let ?r = "int_repr (sint v)"
    obtain d s where d: "getDecodedObject junk clk o1 = Some d" "o_ptr d = PSds s" "sds_ok s" "sds_text s = obj_text o1"
      using decoded_ok[OF assms(2) int(3)] by blast
    define f where "f c = do {
        (c', done) \<leftarrow> (if k_reply c = [] \<and> REDIS_REPLY_CHUNK_BYTES - k_bufpos c \<ge> 32
                      then addReplyToBuffer c ?r else Some (c, False));
        (if done then Some c' else reply_sds c d) }" for c :: "'a out_client_scheme"
    have l: "length ?r \<le> 20" by (rule length_int_repr_ll)
    then have ll: "ll2string (map junk [0..<32]) 32 v = Some (length ?r, ?r @ [0] @ drop (Suc (length ?r)) (map junk [0..<32]))"
      by (simp add: ll2string_eq Let_def)
    have "addReply junk clk ae_ok c o1 = (if \<not> b then Some c1 else f c1)"
      using int(1-3) d(1) by (simp add: addReply_def p f_def reply_sds_def ll cong: if_cong)
    moreover have "\<exists>c'. (if \<not> b then Some c1 else f c1) = Some c' \<and> out_ok c' \<and> writes ae_ok c' = writes ae_ok c \<and>
      queued c' = queued c @ (if writes ae_ok c then obj_text o1 else [])"
    proof (rule put_prepared[OF assms(1) p])
      fix e :: "'a out_client_scheme" assume e: "k_close_after_reply e"
      then show "f e = Some e" using reply_sds_closed[OF d(2,3) e] by (simp add: f_def addReplyToBuffer_def)
    next
      fix e :: "'a out_client_scheme" assume e: "out_ok e" "\<not> k_close_after_reply e"
      have "f e = reply_sds e d \<or> (\<exists>c'. addReplyToBuffer e ?r = Some (c', True) \<and> f e = Some c')"
        using to_buffer[OF e, of ?r] by (auto simp: f_def split: if_splits)
      then show "\<exists>c'. f e = Some c' \<and> out_ok c' \<and> queued c' = queued e @ obj_text o1 \<and> ctl c' = ctl e \<and> (idle c' \<longrightarrow> idle e)"
      proof (elim disjE exE conjE)
        assume "f e = reply_sds e d"
        then show ?thesis using reply_sds_ok[OF d(2,3) e] d(4) by simp
      next
        fix c' assume c': "addReplyToBuffer e ?r = Some (c', True)" "f e = Some c'"
        then show ?thesis using to_buffer[OF e, of ?r] int(4) by (auto simp: ctl_def idle_def)
      qed
    qed
    ultimately show ?thesis by simp
  qed
qed

interpretation sink: byte_sink "put_item junk clk ae_ok" item_text item_ok queued "writes ae_ok" out_ok for junk clk ae_ok
proof
  fix c :: "'a out_client_scheme" and x
  assume "out_ok c" "item_ok x"
  then show "\<exists>c'. put_item junk clk ae_ok c x = Some c' \<and> out_ok c' \<and> writes ae_ok c' = writes ae_ok c \<and>
      queued c' = queued c @ (if writes ae_ok c then item_text x else [])"
    unfolding put_item_def item_text_def item_ok_def
    by (cases x) (simp only: item.case string_put, simp only: item.case object_put)
qed

lemma shared_string_ok: "length t < 2 ^ 32 \<Longrightarrow> obj_ok (shared_string t) \<and> obj_text (shared_string t) = t"
  by (simp add: shared_string_def createObject_def obj_ok_def obj_text_def sds_ok_def sds_text_def)

lemma length_int_repr_small: "\<bar>i\<bar> < 2 ^ 63 \<Longrightarrow> length (int_repr i) \<le> 20"
  using length_int_repr_ll[of "word_of_int i"] sint_word_of_int_64[of i] by (simp add: abs_less_iff)

lemma header_ok:
  assumes "0 \<le> j" "j < 32"
  shows "\<exists>h. shared_header p j = Some h \<and> obj_ok h \<and> obj_text h = [p] @ int_repr j @ [13, 10]"
  using assms shared_string_ok[of "[p] @ int_repr j @ [13, 10]"] length_int_repr_small[of j]
  by (simp add: shared_header_def REDIS_SHARED_BULKHDR_LEN_def)

text \<open>Each compound reply puts a fixed sequence of items.\<close>

definition replies :: "(nat \<Rightarrow> byte) \<Rightarrow> nat \<Rightarrow> bool \<Rightarrow> ('a out_client_scheme \<Rightarrow> 'a out_client_scheme option) \<Rightarrow> bytes \<Rightarrow> bool" where
  "replies junk clk ae_ok f t \<longleftrightarrow> (\<exists>xs. list_all item_ok xs \<and> concat (map item_text xs) = t \<and> (\<forall>c. f c = sink.put_seq junk clk ae_ok c xs))"

lemma repliesI: "list_all item_ok xs \<Longrightarrow> concat (map item_text xs) = t \<Longrightarrow> (\<And>c. f c = sink.put_seq junk clk ae_ok c xs) \<Longrightarrow> replies junk clk ae_ok f t"
  unfolding replies_def by blast

lemma put_seq_append: "sink.put_seq junk clk ae_ok c (xs @ ys) = do { c \<leftarrow> sink.put_seq junk clk ae_ok c xs; sink.put_seq junk clk ae_ok c ys }"
  by (induction xs arbitrary: c) auto

lemma replies_bind:
  assumes "replies junk clk ae_ok f t" "replies junk clk ae_ok g u"
  shows "replies junk clk ae_ok (\<lambda>c. do { c \<leftarrow> f c; g c }) (t @ u)"
proof -
  obtain xs ys where "list_all item_ok xs" "concat (map item_text xs) = t" "\<And>c. f c = sink.put_seq junk clk ae_ok c xs"
    "list_all item_ok ys" "concat (map item_text ys) = u" "\<And>c. g c = sink.put_seq junk clk ae_ok c ys"
    using assms unfolding replies_def by blast
  then show ?thesis by (intro repliesI[of "xs @ ys"]) (auto simp: put_seq_append)
qed

lemma replies_string: "replies junk clk ae_ok (\<lambda>c. addReplyString ae_ok c s) s"
  by (rule repliesI[of "[Str s]"]) (auto simp: item_ok_def item_text_def put_item_def)

lemma replies_object: "obj_ok o1 \<Longrightarrow> replies junk clk ae_ok (\<lambda>c. addReply junk clk ae_ok c o1) (obj_text o1)"
  by (rule repliesI[of "[Obj o1]"]) (auto simp: item_ok_def item_text_def put_item_def)

lemma replies_error: "replies junk clk ae_ok (\<lambda>c. addReplyErrorLength ae_ok c s) (bytes_of_string ''-ERR '' @ s @ [13, 10])"
  unfolding addReplyErrorLength_def by (intro replies_bind replies_string)

lemma replies_status: "replies junk clk ae_ok (\<lambda>c. addReplyStatusLength ae_ok c s) ([43] @ s @ [13, 10])"
  unfolding addReplyStatusLength_def by (intro replies_bind replies_string)

lemma replies_prefix:
  assumes "(p \<noteq> 42 \<and> p \<noteq> 36) \<or> 0 \<le> sint v"
  shows "replies junk clk ae_ok (\<lambda>c. addReplyLongLongWithPrefix junk clk ae_ok c v p) ([p] @ int_repr (sint v) @ [13, 10])"
proof (cases "(p = 42 \<or> p = 36) \<and> sint v < int REDIS_SHARED_BULKHDR_LEN")
  case True
  then obtain h where h: "shared_header p (sint v) = Some h" "obj_ok h" "obj_text h = [p] @ int_repr (sint v) @ [13, 10]"
    using header_ok[of "sint v" p] assms by (auto simp: REDIS_SHARED_BULKHDR_LEN_def)
  show ?thesis unfolding addReplyLongLongWithPrefix_def if_P[OF True] h(1) Option.bind.bind_lunit h(3)[symmetric]
    by (rule replies_object[OF h(2)])
next
  case False
  have "ll2string (map junk [0..<127]) 127 v = Some (length (int_repr (sint v)), int_repr (sint v) @ [0] @ drop (Suc (length (int_repr (sint v)))) (map junk [0..<127]))"
    using length_int_repr_ll[of v] by (simp add: ll2string_eq Let_def)
  then show ?thesis unfolding addReplyLongLongWithPrefix_def if_not_P[OF False] using replies_string[of junk clk ae_ok "[p] @ int_repr (sint v) @ [13, 10]"] by simp
qed

lemma count_digits_repr:
  "0 \<le> n \<Longrightarrow> count_digits n len = len + length (dec_repr (nat n)) - 1"
  "0 \<le> n \<Longrightarrow> count_digits (- n) len = len + length (dec_repr (nat n)) - 1"
proof -
  have d: "dec_repr (nat n) \<noteq> []" for n using dec_repr_props by blast
  have "0 \<le> n \<Longrightarrow> count_digits n len = len + length (dec_repr (nat n)) - 1 \<and> count_digits (- n) len = len + length (dec_repr (nat n)) - 1"
    for n len
  proof (induction "nat n" arbitrary: n len rule: less_induct)
    case less
    show ?case
    proof (cases "n < 10")
      case True
      then have "nat n < 10" "n div 10 = 0" using less.prems by auto
      then show ?thesis using less.prems by (simp add: count_digits.simps[of n] count_digits.simps[of "- n"] dec_repr.simps[of "nat n"])
    next
      case False
      have q: "0 \<le> n div 10" "n div 10 \<noteq> 0" "nat (n div 10) < nat n" using False by auto
      have r: "dec_repr (nat n) = dec_repr (nat (n div 10)) @ [48 + of_nat (nat n mod 10)]"
        using False by (subst dec_repr.simps) (simp add: nat_div_distrib nat_less_iff)
      show ?thesis
        using less.hyps[OF q(3,1), of "len + 1"] q False d[of "n div 10"]
        by (simp add: count_digits.simps[of n] count_digits.simps[of "- n"] r)
    qed
  qed
  then show "0 \<le> n \<Longrightarrow> count_digits n len = len + length (dec_repr (nat n)) - 1"
    "0 \<le> n \<Longrightarrow> count_digits (- n) len = len + length (dec_repr (nat n)) - 1" by blast+
qed

lemma bulk_len:
  assumes "obj_ok o1"
  shows "(if sdsEncodedObject o1 then (case o_ptr o1 of PSds s \<Rightarrow> Some (sdslen s) | _ \<Rightarrow> None)
      else case o_ptr o1 of
             PLong v \<Rightarrow> let n = sint v in Some (if n < 0 then count_digits (sint (- v)) 2 else count_digits n 1)
           | _ \<Rightarrow> None) = Some (length (obj_text o1))"
  using assms
proof (cases rule: obj_ok_cases)
  case (sds s)
  then show ?thesis using sds_okD(3)[of s] by (simp add: sdslen_def)
next
  case (int v)
  have ne: "dec_repr n \<noteq> []" for n using dec_repr_props by blast
  show ?thesis
  proof (cases "sint v < 0")
    case False
    then show ?thesis using int count_digits_repr(1)[of "sint v" 1] ne by (simp add: int_repr_def)
  next
    case True
    have range: "- (2 ^ 63) \<le> sint v" using sint_range_size[of v] by (simp add: word_size)
    have "count_digits (sint (- v)) 2 = 2 + length (dec_repr (nat (- sint v))) - 1"
    proof (cases "sint v = - (2 ^ 63)")
      case False
      have "sint (word_of_int (- sint v) :: 64 word) = - sint v" by (rule sint_word_of_int_64) (use True False range in auto)
      then have "sint (- v) = - sint v" by simp
      then show ?thesis using count_digits_repr(1)[of "- sint v" 2] True by simp
    next
      case eq: True
      have "v = word_of_int (sint v)" by simp
      then have "v = word_of_int (- (2 ^ 63))" unfolding eq .
      then have "sint (- v) = sint v" by simp
      then show ?thesis using count_digits_repr(2)[of "- sint v" 2] True by simp
    qed
    then show ?thesis using int True ne[of "nat (- sint v)"] by (simp add: int_repr_def Let_def)
  qed
qed

lemma replies_crlf: "replies junk clk ae_ok (\<lambda>c. addReply junk clk ae_ok c (shared_string [13, 10])) [13, 10]"
  using replies_object[of "shared_string [13, 10]" junk clk ae_ok] shared_string_ok[of "[13, 10]"] by simp

lemma sint_of_length: "n < 2 ^ 63 \<Longrightarrow> sint (of_nat n :: 64 word) = int n"
  using sint_word_of_int_64[of "int n"] by simp

lemma replies_bulk:
  assumes "obj_ok o1" "length (obj_text o1) < 2 ^ 63"
  shows "replies junk clk ae_ok (\<lambda>c. addReplyBulk junk clk ae_ok c o1)
    ([36] @ int_repr (int (length (obj_text o1))) @ [13, 10] @ obj_text o1 @ [13, 10])"
proof -
  let ?n = "length (obj_text o1)"
  have "replies junk clk ae_ok (\<lambda>c. addReplyBulkLen junk clk ae_ok c o1) ([36] @ int_repr (int ?n) @ [13, 10])"
  proof (cases "?n < REDIS_SHARED_BULKHDR_LEN")
    case True
    then obtain h where h: "shared_header 36 (int ?n) = Some h" "obj_ok h" "obj_text h = [36] @ int_repr (int ?n) @ [13, 10]"
      using header_ok[of "int ?n" 36] by (auto simp: REDIS_SHARED_BULKHDR_LEN_def)
    show ?thesis unfolding addReplyBulkLen_def bulk_len[OF assms(1)] Option.bind.bind_lunit if_P[OF True] h(1) h(3)[symmetric]
      by (rule replies_object[OF h(2)])
  next
    case False
    show ?thesis unfolding addReplyBulkLen_def bulk_len[OF assms(1)] Option.bind.bind_lunit if_not_P[OF False]
      using replies_prefix[of 36 "of_nat ?n" junk clk ae_ok] sint_of_length[OF assms(2)] by simp
  qed
  from replies_bind[OF this replies_bind[OF replies_object[OF assms(1)] replies_crlf]]
  show ?thesis by (simp add: addReplyBulk_def)
qed

lemma replies_bulk_buffer:
  assumes "length p < 2 ^ 63"
  shows "replies junk clk ae_ok (\<lambda>c. addReplyBulkCBuffer junk clk ae_ok c p) ([36] @ int_repr (int (length p)) @ [13, 10] @ p @ [13, 10])"
proof -
  have "replies junk clk ae_ok (\<lambda>c. addReplyLongLongWithPrefix junk clk ae_ok c (of_nat (length p)) 36) ([36] @ int_repr (int (length p)) @ [13, 10])"
    using replies_prefix[of 36 "of_nat (length p)" junk clk ae_ok] sint_of_length[OF assms] by simp
  from replies_bind[OF this replies_bind[OF replies_string replies_crlf]]
  show ?thesis by (simp add: addReplyBulkCBuffer_def)
qed

lemma replies_longlong: "replies junk clk ae_ok (\<lambda>c. addReplyLongLong junk clk ae_ok c v) ([58] @ int_repr (sint v) @ [13, 10])"
proof -
  have r: "int_repr 0 = [48]" "int_repr 1 = [49]" by (simp_all add: int_repr_def dec_repr.simps)
  have s: "bytes_of_string '':0'' @ [13, 10] = [58] @ int_repr 0 @ [13, 10]" "bytes_of_string '':1'' @ [13, 10] = [58] @ int_repr 1 @ [13, 10]"
    by (simp_all add: r bytes_of_string_def)
  consider "v = 0" | "v = 1" | "v \<noteq> 0" "v \<noteq> 1" by blast
  then show ?thesis
  proof cases
    case 1
    have o: "obj_ok (shared_string ([58] @ int_repr 0 @ [13, 10]))" "obj_text (shared_string ([58] @ int_repr 0 @ [13, 10])) = [58] @ int_repr 0 @ [13, 10]"
      using shared_string_ok[of "[58] @ int_repr 0 @ [13, 10]"] by (simp_all add: r)
    show ?thesis using replies_object[OF o(1), of junk clk ae_ok] unfolding o(2) addReplyLongLong_def s 1 by simp
  next
    case 2
    have o: "obj_ok (shared_string ([58] @ int_repr 1 @ [13, 10]))" "obj_text (shared_string ([58] @ int_repr 1 @ [13, 10])) = [58] @ int_repr 1 @ [13, 10]"
      using shared_string_ok[of "[58] @ int_repr 1 @ [13, 10]"] by (simp_all add: r)
    show ?thesis using replies_object[OF o(1), of junk clk ae_ok] unfolding o(2) addReplyLongLong_def s 2 by simp
  next
    case 3
    then show ?thesis using replies_prefix[of 58 v junk clk ae_ok] by (simp add: addReplyLongLong_def)
  qed
qed

lemma replies_out:
  assumes "replies junk clk ae_ok f t" "out_ok c"
  shows "\<exists>c'. f c = Some c' \<and> out_ok c' \<and> writes ae_ok c' = writes ae_ok c \<and> queued c' = queued c @ (if writes ae_ok c then t else [])"
proof -
  obtain xs where xs: "list_all item_ok xs" "concat (map item_text xs) = t" "f c = sink.put_seq junk clk ae_ok c xs"
    using assms(1) unfolding replies_def by blast
  show ?thesis unfolding xs(3) xs(2)[symmetric] by (rule sink.put_seq_spec[OF assms(2) xs(1)])
qed

text \<open>Replying touches nothing of the client but its output side.\<close>

lemma prepare_more [simp]: "out_client.more (fst (prepareClientToWrite ae_ok c)) = out_client.more c"
  by (auto simp: prepareClientToWrite_def freeClientAsync_def)

lemma list_more: "add_to_list c t x = Some c' \<Longrightarrow> out_client.more c' = out_client.more c"
  by (auto simp: add_to_list_def Let_def split: if_splits option.splits bind_splits)

lemma buffer_more: "addReplyToBuffer c s = Some (c', b) \<Longrightarrow> out_client.more c' = out_client.more c"
  by (auto simp: addReplyToBuffer_def split: if_splits bind_splits)

lemma string_more: "addReplyString ae_ok c s = Some c' \<Longrightarrow> out_client.more c' = out_client.more c"
  using prepare_more[of ae_ok c]
  by (auto simp: addReplyString_def addReplyStringToList_def split_beta split: if_splits bind_splits dest!: list_more buffer_more)

lemma object_more: "addReply junk clk ae_ok c o1 = Some c' \<Longrightarrow> out_client.more c' = out_client.more c"
  using prepare_more[of ae_ok c]
  by (auto simp: addReply_def addReplyObjectToList_def split_beta Let_def split: if_splits bind_splits obj_ptr.splits obj_encoding.splits dest!: list_more buffer_more)

lemma replies_more:
  assumes "replies junk clk ae_ok f t" "f c = Some c'"
  shows "out_client.more c' = out_client.more c"
proof -
  obtain xs where xs: "\<And>c. f c = sink.put_seq junk clk ae_ok c xs" using assms(1) unfolding replies_def by blast
  have "sink.put_seq junk clk ae_ok c xs = Some c' \<Longrightarrow> out_client.more c' = out_client.more c"
    by (induction xs arbitrary: c) (auto simp: put_item_def split: bind_splits item.splits dest!: string_more object_more)
  then show ?thesis using assms(2) xs by simp
qed

text \<open>Nor does it change the state of a slave.\<close>

lemma prepare_state [simp]: "k_replstate (fst (prepareClientToWrite ae_ok c)) = k_replstate c"
  by (auto simp: prepareClientToWrite_def freeClientAsync_def)

lemma list_state: "add_to_list c t x = Some c' \<Longrightarrow> k_replstate c' = k_replstate c"
  by (auto simp: add_to_list_def Let_def split: if_splits option.splits bind_splits)

lemma buffer_state: "addReplyToBuffer c s = Some (c', b) \<Longrightarrow> k_replstate c' = k_replstate c"
  by (auto simp: addReplyToBuffer_def split: if_splits bind_splits)

lemma string_state: "addReplyString ae_ok c s = Some c' \<Longrightarrow> k_replstate c' = k_replstate c"
  using prepare_state[of ae_ok c]
  by (auto simp: addReplyString_def addReplyStringToList_def split_beta split: if_splits bind_splits dest!: list_state buffer_state)

lemma object_state: "addReply junk clk ae_ok c o1 = Some c' \<Longrightarrow> k_replstate c' = k_replstate c"
  using prepare_state[of ae_ok c]
  by (auto simp: addReply_def addReplyObjectToList_def split_beta Let_def split: if_splits bind_splits obj_ptr.splits obj_encoding.splits dest!: list_state buffer_state)

lemma replies_state:
  assumes "replies junk clk ae_ok f t" "f c = Some c'"
  shows "k_replstate c' = k_replstate c"
proof -
  obtain xs where xs: "\<And>c. f c = sink.put_seq junk clk ae_ok c xs" using assms(1) unfolding replies_def by blast
  have "sink.put_seq junk clk ae_ok c xs = Some c' \<Longrightarrow> k_replstate c' = k_replstate c"
    by (induction xs arbitrary: c) (auto simp: put_item_def split: bind_splits item.splits dest!: string_state object_state)
  then show ?thesis using assms(2) xs by simp
qed

section \<open>Sending\<close>

lemma send_step:
  assumes "out_ok c" "k_bufpos c > 0" "n \<le> k_bufpos c - k_sentlen c"
  defines "c1 \<equiv> c\<lparr>k_sentlen := k_sentlen c + n\<rparr>"
  defines "c2 \<equiv> (if k_sentlen c1 = k_bufpos c1 then c1\<lparr>k_bufpos := 0, k_sentlen := 0\<rparr> else c1)"
  shows "out_ok c2 \<and> take n (drop (k_sentlen c) (take (k_bufpos c) (k_buf c))) @ queued c2 = queued c"
proof -
  let ?b = "take (k_bufpos c) (k_buf c)"
  have l: "length (k_buf c) = REDIS_REPLY_CHUNK_BYTES" "k_bufpos c \<le> REDIS_REPLY_CHUNK_BYTES" "k_sentlen c < k_bufpos c"
    using assms(1,2) by (auto simp: out_ok_def)
  have d: "take n (drop (k_sentlen c) ?b) @ drop (k_sentlen c + n) ?b = drop (k_sentlen c) ?b"
    by (metis add.commute append_take_drop_id drop_drop)
  show ?thesis
  proof (cases "k_sentlen c + n = k_bufpos c")
    case True
    then have "drop (k_sentlen c + n) ?b = []" using l by simp
    then show ?thesis using True d l assms(2) by (simp add: c2_def c1_def out_ok_def queued_def)
  next
    case False
    then have "k_sentlen c + n < k_bufpos c" using assms(3) l by linarith
    then show ?thesis using False d l assms(2) by (simp add: c2_def c1_def out_ok_def queued_def flip: append_assoc)
  qed
qed

lemma send_node_step:
  assumes "out_ok c" "k_bufpos c = 0" "k_reply c = o1 # rest" "n_ptr o1 = Some t" "t \<noteq> []" "n \<le> length t - k_sentlen c"
  defines "c1 \<equiv> c\<lparr>k_sentlen := k_sentlen c + n\<rparr>"
  defines "c2 \<equiv> (if k_sentlen c1 = length t then c1\<lparr>k_reply := rest, k_sentlen := 0\<rparr> else c1)"
  shows "out_ok c2 \<and> take n (drop (k_sentlen c) t) @ queued c2 = queued c"
proof -
  have l: "length (k_buf c) = REDIS_REPLY_CHUNK_BYTES" "k_sentlen c < length t"
    using assms(1-5) by (auto simp: out_ok_def)
  have d: "take n (drop (k_sentlen c) t) @ drop (k_sentlen c + n) t = drop (k_sentlen c) t"
    by (metis add.commute append_take_drop_id drop_drop)
  show ?thesis
  proof (cases "k_sentlen c + n = length t")
    case True
    then show ?thesis using d l assms(2-4) by (simp add: c2_def c1_def out_ok_def queued_def)
  next
    case False
    then have "k_sentlen c + n < length t" using assms(6) l by linarith
    then show ?thesis using False d l assms(2-4) by (simp add: c2_def c1_def out_ok_def queued_def flip: append_assoc)
  qed
qed

definition no_deferred :: "'a out_client_scheme \<Rightarrow> bool" where
  "no_deferred c \<longleftrightarrow> list_all (\<lambda>n. n_ptr n \<noteq> None) (k_reply c)"

lemma send_loop_spec:
  assumes "out_ok c" "no_deferred c"
  shows "\<exists>c' s tot' nw'. send_loop over ws c sent tot nw = Some (c', sent @ s, tot', nw') \<and> out_ok c' \<and> no_deferred c' \<and>
    s @ queued c' = queued c \<and> tot' = tot + length s \<and> k_close_after_reply c' = k_close_after_reply c"
  using assms
proof (induction over ws c sent tot nw rule: send_loop.induct)
  case (1 over ws c sent tot nw)
  note IH = "1.IH" and ok = "1.prems"
  show ?case
  proof (cases "k_bufpos c > 0")
    case True
    show ?thesis
    proof (cases "ws = [] \<or> hd ws \<le> 0")
      case True
      then show ?thesis using \<open>k_bufpos c > 0\<close> ok by (subst send_loop.simps) (cases ws; simp)
    next
      case False
      then obtain w ws' where ws: "ws = w # ws'" "0 < w" by (cases ws) auto
      define off n where "off = drop (k_sentlen c) (take (k_bufpos c) (k_buf c))" and "n = min (nat w) (length off)"
      define c1 where "c1 = c\<lparr>k_sentlen := k_sentlen c + n\<rparr>"
      define c2 where "c2 = (if k_sentlen c1 = k_bufpos c1 then c1\<lparr>k_bufpos := 0, k_sentlen := 0\<rparr> else c1)"
      have n: "n \<le> k_bufpos c - k_sentlen c" by (simp add: n_def off_def)
      have st: "out_ok c2" "take n off @ queued c2 = queued c"
        using send_step[OF ok(1) True n] unfolding off_def c1_def c2_def by auto
      have nd: "no_deferred c2" "k_close_after_reply c2 = k_close_after_reply c"
        using ok(2) by (auto simp: no_deferred_def c2_def c1_def)
      have eq: "send_loop over ws c sent tot nw = (if tot + n > REDIS_MAX_WRITE_PER_EVENT \<and> \<not> over
          then Some (c2, sent @ take n off, tot + n, int n) else send_loop over ws' c2 (sent @ take n off) (tot + n) (int n))"
        unfolding c2_def c1_def n_def off_def by (subst send_loop.simps) (use True ws in \<open>simp add: Let_def\<close>)
      have len: "length (take n off) = n" by (simp add: n_def)
      show ?thesis
      proof (cases "tot + n > REDIS_MAX_WRITE_PER_EVENT \<and> \<not> over")
        case True
        then show ?thesis unfolding eq using st nd len by auto
      next
        case stop: False
        obtain c' s' tot' nw' where r: "send_loop over ws' c2 (sent @ take n off) (tot + n) (int n) = Some (c', (sent @ take n off) @ s', tot', nw')"
          "out_ok c'" "no_deferred c'" "s' @ queued c' = queued c2" "tot' = tot + n + length s'" "k_close_after_reply c' = k_close_after_reply c2"
          using IH(1)[OF True ws(1) off_def _ n_def c1_def c2_def] ws(2) stop st nd by auto
        show ?thesis unfolding eq if_not_P[OF stop] r(1)
          using r st nd len by (intro exI[of _ c'] exI[of _ "take n off @ s'"]) auto
      qed
    qed
  next
    case nb: False
    show ?thesis
    proof (cases "k_reply c")
      case Nil
      then show ?thesis using nb ok by (subst send_loop.simps) simp
    next
      case (Cons o1 rest)
      obtain t where t: "n_ptr o1 = Some t" using ok(2) Cons by (auto simp: no_deferred_def)
      have sl: "k_sentlen c = 0 \<or> k_sentlen c < length t" using ok(1) nb Cons t by (auto simp: out_ok_def)
      show ?thesis
      proof (cases "t = []")
        case True
        let ?c = "c\<lparr>k_reply := rest\<rparr>"
        have c: "out_ok ?c" "no_deferred ?c" "queued ?c = queued c"
          using ok nb Cons t True sl by (auto simp: out_ok_def no_deferred_def queued_def)
        have eq: "send_loop over ws c sent tot nw = send_loop over ws ?c sent tot nw"
          by (subst send_loop.simps) (use nb Cons t True in simp)
        show ?thesis unfolding eq using IH(2)[OF nb Cons t _ c(1,2)] True c(3) by simp
      next
        case tne: False
        show ?thesis
        proof (cases "ws = [] \<or> hd ws \<le> 0")
          case True
          then show ?thesis using nb Cons t tne ok by (subst send_loop.simps) (cases ws; simp)
        next
          case False
          then obtain w ws' where ws: "ws = w # ws'" "0 < w" by (cases ws) auto
          define off n where "off = drop (k_sentlen c) t" and "n = min (nat w) (length off)"
          define c1 where "c1 = c\<lparr>k_sentlen := k_sentlen c + n\<rparr>"
          define c2 where "c2 = (if k_sentlen c1 = length t then c1\<lparr>k_reply := rest, k_sentlen := 0\<rparr> else c1)"
          have n: "n \<le> length t - k_sentlen c" by (simp add: n_def off_def)
          have st: "out_ok c2" "take n off @ queued c2 = queued c"
            using send_node_step[OF ok(1) _ Cons t tne n] nb unfolding off_def c1_def c2_def by auto
          have nd: "no_deferred c2" "k_close_after_reply c2 = k_close_after_reply c"
            using ok(2) Cons by (auto simp: no_deferred_def c2_def c1_def)
          have eq: "send_loop over ws c sent tot nw = (if tot + n > REDIS_MAX_WRITE_PER_EVENT \<and> \<not> over
              then Some (c2, sent @ take n off, tot + n, int n) else send_loop over ws' c2 (sent @ take n off) (tot + n) (int n))"
            unfolding c2_def c1_def n_def off_def by (subst send_loop.simps) (use nb Cons t tne ws in \<open>simp add: Let_def\<close>)
          have len: "length (take n off) = n" by (simp add: n_def)
          show ?thesis
          proof (cases "tot + n > REDIS_MAX_WRITE_PER_EVENT \<and> \<not> over")
            case True
            then show ?thesis unfolding eq using st nd len by auto
          next
            case stop: False
            obtain c' s' tot' nw' where r: "send_loop over ws' c2 (sent @ take n off) (tot + n) (int n) = Some (c', (sent @ take n off) @ s', tot', nw')"
              "out_ok c'" "no_deferred c'" "s' @ queued c' = queued c2" "tot' = tot + n + length s'" "k_close_after_reply c' = k_close_after_reply c2"
              using IH(3)[OF nb Cons t _ ws(1) _ off_def n_def c1_def c2_def] ws(2) stop st nd tne by auto
            show ?thesis unfolding eq if_not_P[OF stop] r(1)
              using r st nd len by (intro exI[of _ c'] exI[of _ "take n off @ s'"]) auto
          qed
        qed
      qed
    qed
  qed
qed

section \<open>Deferred lengths\<close>

lemma deferred_length:
  assumes "out_ok c" "k_reply c = pre @ [p] @ post" "n_ptr p = None"
  shows "\<exists>c'. setDeferredMultiBulkLength c (Some (length pre)) n = Some c' \<and> out_ok c' \<and>
    queued c' = queued (c\<lparr>k_reply := pre\<rparr>) @ [42] @ int_repr n @ [13, 10] @ texts post"
proof -
  let ?h = "[42] @ int_repr n @ [13, 10]"
  have z: "pre = [] \<Longrightarrow> k_bufpos c = 0 \<Longrightarrow> k_sentlen c = 0" using assms by (auto simp: out_ok_def)
  have s: "k_bufpos c = 0 \<Longrightarrow> k_sentlen c \<le> length (texts pre)"
    using assms(1,2) z by (cases pre) (auto simp: out_ok_def split: option.splits)
  have q: "out_ok (c\<lparr>k_reply := pre @ q # r\<rparr>) \<and> queued (c\<lparr>k_reply := pre @ q # r\<rparr>) = queued (c\<lparr>k_reply := pre\<rparr>) @ ?h @ texts post"
    if "texts (q # r) = ?h @ texts post" for q r
    using that s z assms(1,2) by (cases pre) (auto simp: out_ok_def queued_def split: option.splits)
  show ?thesis
  proof (cases "post \<noteq> [] \<and> n_ptr (hd post) \<noteq> None")
    case True
    then obtain x xs t where "post = x # xs" "n_ptr x = Some t" by (cases post) auto
    then show ?thesis using assms(2) q[of "p\<lparr>n_enc := ENC_RAW, n_ptr := Some (?h @ t)\<rparr>" xs]
      by (auto simp: setDeferredMultiBulkLength_def Let_def nth_append)
  next
    case False
    then have "\<not> (Suc (length pre) < length (k_reply c) \<and> n_ptr (k_reply c ! Suc (length pre)) \<noteq> None)"
      using assms(2) by (cases post) (auto simp: nth_append)
    then show ?thesis using assms(2) q[of "p\<lparr>n_enc := ENC_RAW, n_ptr := Some ?h\<rparr>" post]
      by (auto simp: setDeferredMultiBulkLength_def Let_def list_update_append nth_append)
  qed
qed

text \<open>A client with a partly sent reply, for the examples.\<close>

definition sample_client :: out_client where
  "sample_client = \<lparr>k_fd = 5, k_lua = False, k_master = False, k_master_force = False, k_close_after_reply = False, k_close_asap = False,
     k_replstate = 0, k_put_online_on_ack = False, k_handler = False, k_buf = replicate REDIS_REPLY_CHUNK_BYTES 0, k_bufpos = 0,
     k_reply = [\<lparr>n_enc = ENC_RAW, n_ptr = Some [65, 66], n_refcount = 1\<rparr>], k_sentlen = 1\<rparr>"

section \<open>Properties\<close>

text \<open>C25. A bulk reply appends exactly its wire form to the output of a client: for a string object in any
  encoding, whether the bytes land in the fixed buffer, in the last node of the list or in a new node,
  \<open>addReplyBulk\<close> returns, keeps the queue well-formed and appends \<open>$\<close>, the decimal length, \<open>CRLF\<close>, the text and
  \<open>CRLF\<close> - or nothing at all when the client does not accept replies.\<close>

theorem addReplyBulk_appends:
  assumes "out_ok c" "obj_ok o1" "length (obj_text o1) < 2 ^ 63"
  shows "\<exists>c'. addReplyBulk junk clk ae_ok c o1 = Some c' \<and> out_ok c' \<and>
    queued c' = queued c @ (if writes ae_ok c
      then [36] @ int_repr (int (length (obj_text o1))) @ [13, 10] @ obj_text o1 @ [13, 10] else [])"
  using replies_out[OF replies_bulk[OF assms(2,3)] assms(1)] by blast

theorem addReplyBulk_appends_witness:
  "\<exists>c'. addReplyBulk (\<lambda>_. 0) 0 True sample_client (shared_string [104, 105]) = Some c' \<and>
    queued c' = [66, 36, 50, 13, 10, 104, 105, 13, 10]"
proof -
  have o: "obj_ok (shared_string [104, 105])" "obj_text (shared_string [104, 105]) = [104, 105]"
    using shared_string_ok[of "[104, 105]"] by simp_all
  have c: "out_ok sample_client" "queued sample_client = [66]" "writes True sample_client"
    by (simp_all add: sample_client_def out_ok_def queued_def writes_def prepareClientToWrite_def)
  show ?thesis using addReplyBulk_appends[OF c(1) o(1), of "\<lambda>_. 0" 0 True] c(2,3) o(2)
    by (auto simp: int_repr_def dec_repr.simps)
qed

text \<open>C18. Nothing is lost, duplicated or reordered on the way to the socket: for every sequence of partial writes,
  \<open>sendReplyToClient\<close> returns, and the bytes the socket accepted followed by what is still queued are exactly what
  was queued, unless the connection failed or is being closed with nothing left to send.\<close>

theorem sendReplyToClient_lossless:
  assumes "out_ok c" "no_deferred c"
  shows "\<exists>r sent. sendReplyToClient over eagain ws c = Some (r, sent) \<and>
    (case r of
       Some c' \<Rightarrow> out_ok c' \<and> no_deferred c' \<and> sent @ queued c' = queued c
     | None \<Rightarrow> (\<exists>rest. queued c = sent @ rest) \<and> (sent = queued c \<or> \<not> eagain))"
proof -
  obtain c' s tot' nw' where l: "send_loop over ws c [] 0 0 = Some (c', s, tot', nw')" "out_ok c'" "no_deferred c'" "s @ queued c' = queued c"
    using send_loop_spec[OF assms, of over ws "[]" 0 0] by auto
  have e: "\<exists>rest. queued c = s @ rest" using l(4) by metis
  have q: "queued c' = []" if "k_bufpos c' = 0" "k_reply c' = []" using that by (simp add: queued_def)
  have z: "out_ok (c'\<lparr>k_sentlen := 0, k_handler := False\<rparr>) \<and> no_deferred (c'\<lparr>k_sentlen := 0, k_handler := False\<rparr>) \<and>
      queued (c'\<lparr>k_sentlen := 0, k_handler := False\<rparr>) = []" if "k_bufpos c' = 0" "k_reply c' = []"
    using that l(2) by (auto simp: out_ok_def no_deferred_def queued_def)
  show ?thesis unfolding sendReplyToClient_def l(1) using l(2-4) q z e by auto
qed

theorem sendReplyToClient_lossless_witness:
  "\<exists>r sent. sendReplyToClient False True [1, -1] sample_client = Some (r, sent)"
  using sendReplyToClient_lossless[of sample_client False True "[1, -1]"]
  by (simp add: sample_client_def out_ok_def no_deferred_def) blast

end
