(* ===== verification/Redis_Protocol.thy ===== *)
theory Redis_Protocol
  imports Redis_Reply Redis_Rio
begin

text \<open>
  \<open>networking.c\<close>, input side: the incremental parser of client requests.

  The client record extends the output side by the query buffer (its contents; the dynamic string itself
  is verified with \<open>sds.c\<close>, and \<open>sdsrange\<close> is used through its specification \<open>text_slice\<close>), the arguments parsed so
  far with the capacity allocated for them, and the parser state.  A parser function returns the client
  with \<open>True\<close> for \<open>REDIS_OK\<close>; \<open>None\<close> is a failed assertion or a store beyond the argument vector.

  The main results: a request in the multi bulk format is parsed to exactly its arguments wherever the
  network splits it, the requests Redis itself writes are in that format, and pipelined requests reach the
  dispatcher one by one in order.
\<close>

section \<open>The code\<close>

definition REDIS_INLINE_MAX_SIZE :: nat where "REDIS_INLINE_MAX_SIZE = 1024 * 64"
definition REDIS_MBULK_BIG_ARG :: nat where "REDIS_MBULK_BIG_ARG = 1024 * 32"

datatype reqtype = REQ_UNKNOWN | REQ_INLINE | REQ_MULTIBULK

record client = out_client +
  c_querybuf :: bytes
  c_argv :: "bytes list"
  c_cap :: nat
  c_reqtype :: reqtype
  c_multibulklen :: nat
  c_bulklen :: int
  c_slave :: bool
  c_blocked :: bool
  c_repl_ack_time :: int

text \<open>\<open>strchr\<close> for a character other than the terminator: the position of its first occurrence before any null
  byte.\<close>

definition strchr_pos :: "bytes \<Rightarrow> byte \<Rightarrow> nat option" where
  "strchr_pos p c = (
     let k = length (takeWhile (\<lambda>x. x \<noteq> c \<and> x \<noteq> 0) p)
     in if k < length p \<and> p ! k = c then Some k else None)"

definition resetClient :: "'a client_scheme \<Rightarrow> 'a client_scheme" where
  "resetClient c = c\<lparr>c_argv := [], c_reqtype := REQ_UNKNOWN, c_multibulklen := 0, c_bulklen := - 1\<rparr>"

definition setProtocolError :: "'a client_scheme \<Rightarrow> nat \<Rightarrow> 'a client_scheme" where
  "setProtocolError c pos = c\<lparr>k_close_after_reply := True, c_querybuf := text_slice (c_querybuf c) (int pos) (- 1)\<rparr>"

definition protocol_error :: "bool \<Rightarrow> 'a client_scheme \<Rightarrow> string \<Rightarrow> nat \<Rightarrow> 'a client_scheme option" where
  "protocol_error ae_ok c msg pos = do { c \<leftarrow> addReplyError ae_ok c msg; Some (setProtocolError c pos) }"

definition processInlineBuffer :: "bool \<Rightarrow> int \<Rightarrow> 'a client_scheme \<Rightarrow> ('a client_scheme \<times> bool) option" where
  "processInlineBuffer ae_ok unixtime c =
     (case strchr_pos (c_querybuf c) 10 of
        None \<Rightarrow>
          if length (c_querybuf c) > REDIS_INLINE_MAX_SIZE
          then do { c \<leftarrow> protocol_error ae_ok c ''Protocol error: too big inline request'' 0; Some (c, False) }
          else Some (c, False)
      | Some newline \<Rightarrow> do {
          let querylen = (if newline \<noteq> 0 \<and> c_querybuf c ! (newline - 1) = 13 then newline - 1 else newline);
          r \<leftarrow> sdssplitargs (take querylen (c_querybuf c));
          (case r of
             None \<Rightarrow> do { c \<leftarrow> protocol_error ae_ok c ''Protocol error: unbalanced quotes in request'' 0; Some (c, False) }
           | Some argv \<Rightarrow>
               let c = (if querylen = 0 \<and> c_slave c then c\<lparr>c_repl_ack_time := unixtime\<rparr> else c);
                   c = c\<lparr>c_querybuf := text_slice (c_querybuf c) (int querylen + 2) (- 1)\<rparr>;
                   c = (if argv \<noteq> [] then c\<lparr>c_cap := length argv\<rparr> else c)
               in Some (c\<lparr>c_argv := filter (\<lambda>s. length s \<noteq> 0) argv\<rparr>, True))
        })"

datatype 'c mb_step = MFail 'c | MBreak 'c | MGo 'c nat

text \<open>The first half of an iteration: read the length of the next argument unless it is known.\<close>

definition mb_header :: "bool \<Rightarrow> 'a client_scheme \<Rightarrow> nat \<Rightarrow> 'a client_scheme mb_step option" where
  "mb_header ae_ok c pos =
     (if c_bulklen c \<noteq> - 1 then Some (MGo c pos)
      else case strchr_pos (drop pos (c_querybuf c)) 13 of
        None \<Rightarrow>
          if length (c_querybuf c) > REDIS_INLINE_MAX_SIZE
          then do { c \<leftarrow> protocol_error ae_ok c ''Protocol error: too big bulk count string'' 0; Some (MFail c) }
          else Some (MBreak c)
      | Some k \<Rightarrow>
          if int (pos + k) > int (length (c_querybuf c)) - 2 then Some (MBreak c)
          else if chr (c_querybuf c) pos \<noteq> 36
          then do { c \<leftarrow> addReplyErrorLength ae_ok c (bytes_of_string ''Protocol error: expected '' @ [39, 36, 39, 44, 32, 103, 111, 116, 32, 39] @
                          [let b = chr (c_querybuf c) pos in if b = 13 \<or> b = 10 then 32 else b] @ [39]);
                    Some (MFail (setProtocolError c pos)) }
          else (case string2ll (take (k - 1) (drop (pos + 1) (c_querybuf c))) of
              None \<Rightarrow> do { c \<leftarrow> protocol_error ae_ok c ''Protocol error: invalid bulk length'' pos; Some (MFail c) }
            | Some ll \<Rightarrow>
                if sint ll < 0 \<or> sint ll > 512 * 1024 * 1024
                then do { c \<leftarrow> protocol_error ae_ok c ''Protocol error: invalid bulk length'' pos; Some (MFail c) }
                else
                  let pos = pos + k + 2;
                      (c, pos) = (if sint ll \<ge> int REDIS_MBULK_BIG_ARG
                                  then (c\<lparr>c_querybuf := text_slice (c_querybuf c) (int pos) (- 1)\<rparr>, 0) else (c, pos))
                  in Some (MGo (c\<lparr>c_bulklen := sint ll\<rparr>) pos)))"

text \<open>The second half: take the argument, which is known to be in the buffer.\<close>

definition mb_arg :: "'a client_scheme \<Rightarrow> nat \<Rightarrow> ('a client_scheme \<times> nat) option" where
  "mb_arg c pos =
     (if \<not> length (c_argv c) < c_cap c then None
      else
        let len = nat (c_bulklen c);
            (c, pos) = (if pos = 0 \<and> c_bulklen c \<ge> int REDIS_MBULK_BIG_ARG \<and> int (length (c_querybuf c)) = c_bulklen c + 2
                        then (c\<lparr>c_argv := c_argv c @ [take len (c_querybuf c)], c_querybuf := []\<rparr>, 0)
                        else (c\<lparr>c_argv := c_argv c @ [take len (drop pos (c_querybuf c))]\<rparr>, pos + len + 2))
        in Some (c\<lparr>c_bulklen := - 1, c_multibulklen := c_multibulklen c - 1\<rparr>, pos))"

lemma mb_header_len: "mb_header ae_ok c pos = Some (MGo c1 pos1) \<Longrightarrow> c_multibulklen c1 = c_multibulklen c"
  by (auto simp: mb_header_def Let_def split: if_splits option.splits bind_splits)

lemma mb_arg_len: "mb_arg c pos = Some (c2, pos2) \<Longrightarrow> c_multibulklen c2 = c_multibulklen c - 1"
  by (auto simp: mb_arg_def Let_def split: if_splits)

text \<open>The loop: the client and position where it stops, and \<open>False\<close> if it returned an error.\<close>

function mb_loop :: "bool \<Rightarrow> 'a client_scheme \<Rightarrow> nat \<Rightarrow> ('a client_scheme \<times> nat \<times> bool) option" where
  "mb_loop ae_ok c pos =
     (if c_multibulklen c = 0 then Some (c, pos, True)
      else case mb_header ae_ok c pos of
        None \<Rightarrow> None
      | Some (MFail c1) \<Rightarrow> Some (c1, pos, False)
      | Some (MBreak c1) \<Rightarrow> Some (c1, pos, True)
      | Some (MGo c1 pos1) \<Rightarrow>
          if int (length (c_querybuf c1)) - int pos1 < c_bulklen c1 + 2 then Some (c1, pos1, True)
          else (case mb_arg c1 pos1 of None \<Rightarrow> None | Some (c2, pos2) \<Rightarrow> mb_loop ae_ok c2 pos2))"
  by pat_completeness auto
termination
  by (relation "measure (\<lambda>(ae_ok, c, pos). c_multibulklen c)") (auto dest!: mb_header_len mb_arg_len)

declare mb_loop.simps [simp del]

definition processMultibulkBuffer :: "bool \<Rightarrow> 'a client_scheme \<Rightarrow> ('a client_scheme \<times> bool) option" where
  "processMultibulkBuffer ae_ok c = (
     let run = (\<lambda>c pos.
           if \<not> c_multibulklen c > 0 then None
           else do {
             (c, pos, ok) \<leftarrow> mb_loop ae_ok c pos;
             (if \<not> ok then Some (c, False)
              else let c = (if pos \<noteq> 0 then c\<lparr>c_querybuf := text_slice (c_querybuf c) (int pos) (- 1)\<rparr> else c)
                   in Some (c, c_multibulklen c = 0))
           })
     in if c_multibulklen c \<noteq> 0 then run c 0
        else if c_argv c \<noteq> [] then None
        else case strchr_pos (c_querybuf c) 13 of
          None \<Rightarrow>
            if length (c_querybuf c) > REDIS_INLINE_MAX_SIZE
            then do { c \<leftarrow> protocol_error ae_ok c ''Protocol error: too big mbulk count string'' 0; Some (c, False) }
            else Some (c, False)
        | Some newline \<Rightarrow>
            if int newline > int (length (c_querybuf c)) - 2 then Some (c, False)
            else if chr (c_querybuf c) 0 \<noteq> 42 then None
            else (case string2ll (take (newline - 1) (drop 1 (c_querybuf c))) of
                None \<Rightarrow> do { c \<leftarrow> protocol_error ae_ok c ''Protocol error: invalid multibulk length'' 0; Some (c, False) }
              | Some ll \<Rightarrow>
                  if sint ll > 1024 * 1024
                  then do { c \<leftarrow> protocol_error ae_ok c ''Protocol error: invalid multibulk length'' 0; Some (c, False) }
                  else if sint ll \<le> 0
                  then Some (c\<lparr>c_querybuf := text_slice (c_querybuf c) (int newline + 2) (- 1)\<rparr>, True)
                  else run (c\<lparr>c_multibulklen := nat (sint ll), c_cap := nat (sint ll)\<rparr>) (newline + 2)))"

text \<open>The input loop.  The dispatcher \<open>processCommand\<close> is an argument: it gets the client with the arguments of
  the command and returns it with \<open>True\<close> for \<open>REDIS_OK\<close>.\<close>

partial_function (option) processInputBuffer ::
  "bool \<Rightarrow> int \<Rightarrow> ('a client_scheme \<Rightarrow> 'a client_scheme \<times> bool) \<Rightarrow> bool \<Rightarrow> 'a client_scheme \<Rightarrow> 'a client_scheme option" where
  "processInputBuffer ae_ok unixtime processCommand paused c =
     (if c_querybuf c = [] then Some c
      else if \<not> c_slave c \<and> paused then Some c
      else if c_blocked c then Some c
      else if k_close_after_reply c then Some c
      else do {
        let c = (if c_reqtype c = REQ_UNKNOWN
                 then c\<lparr>c_reqtype := (if chr (c_querybuf c) 0 = 42 then REQ_MULTIBULK else REQ_INLINE)\<rparr> else c);
        (c, ok) \<leftarrow> (if c_reqtype c = REQ_INLINE then processInlineBuffer ae_ok unixtime c else processMultibulkBuffer ae_ok c);
        (if \<not> ok then Some c
         else if c_argv c = [] then processInputBuffer ae_ok unixtime processCommand paused (resetClient c)
         else
           let (c, done) = processCommand c
           in processInputBuffer ae_ok unixtime processCommand paused (if done then resetClient c else c))
      })"

declare processInputBuffer.simps [code]

section \<open>Requests on the wire\<close>

definition bulk_header :: "nat \<Rightarrow> bytes" where
  "bulk_header n = [36] @ int_repr (int n) @ [13, 10]"

definition bulk :: "bytes \<Rightarrow> bytes" where
  "bulk s = bulk_header (length s) @ s @ [13, 10]"

definition request :: "bytes list \<Rightarrow> bytes" where
  "request args = [42] @ int_repr (int (length args)) @ [13, 10] @ concat (map bulk args)"

text \<open>A client between two calls of the parser: the arguments still to come, and what they need on the wire.\<close>

definition need :: "'a client_scheme \<Rightarrow> bytes list \<Rightarrow> bytes" where
  "need c todo = (if c_bulklen c = - 1 then concat (map bulk todo) else hd todo @ [13, 10] @ concat (map bulk (tl todo)))"

definition mid :: "'a client_scheme \<Rightarrow> bytes list \<Rightarrow> bool" where
  "mid c todo \<longleftrightarrow> out_ok c \<and> c_multibulklen c = length todo \<and> length (c_argv c) + length todo \<le> c_cap c \<and>
     (c_bulklen c = - 1 \<or> (todo \<noteq> [] \<and> c_bulklen c = int (length (hd todo)))) \<and> list_all (\<lambda>s. length s \<le> 512 * 1024 * 1024) todo"

lemma slice_to_end: "text_slice q (int pos) (- 1) = drop pos q"
proof (cases "q = []")
  case False
  then have b: "slice_index (length q) (- 1) = int (length q) - 1" by (cases q) (simp_all add: slice_index_def)
  show ?thesis
  proof (cases "pos < length q")
    case True
    then have "nat (int (length q) - 1 - int pos + 1) = length q - pos" by linarith
    then show ?thesis using True unfolding text_slice_def b by (simp add: slice_index_def Let_def)
  next
    case False
    then show ?thesis unfolding text_slice_def b by (simp add: slice_index_def Let_def)
  qed
qed (simp add: text_slice_def Let_def)

lemma slice_to_end_plus: "text_slice q (int pos + 2) (- 1) = drop (pos + 2) q"
  using slice_to_end[of q "pos + 2"] by (simp add: add.commute)

lemma int_repr_chars: "x \<in> set (int_repr i) \<Longrightarrow> x \<noteq> 13 \<and> x \<noteq> 0 \<and> x \<noteq> 10"
proof -
  have "x \<noteq> 13 \<and> x \<noteq> 0 \<and> x \<noteq> 10" if "x \<in> set (dec_repr n)" for n
    using dec_repr_props[of n] that by (auto simp: list_all_iff is_digit_def)
  then show "x \<in> set (int_repr i) \<Longrightarrow> x \<noteq> 13 \<and> x \<noteq> 0 \<and> x \<noteq> 10" by (auto simp: int_repr_def split: if_splits)
qed

text \<open>The search for the end of a line that starts with \<open>c\<close> and a number.\<close>

lemma find_line_end:
  assumes "c \<noteq> 13" "c \<noteq> 0"
  shows "strchr_pos ([c] @ int_repr i @ 13 # rest) 13 = Some (length (int_repr i) + 1)"
proof -
  let ?l = "[c] @ int_repr i"
  have all: "x \<noteq> 13 \<and> x \<noteq> 0" if "x \<in> set ?l" for x using that int_repr_chars[of x i] assms by auto
  have "takeWhile (\<lambda>x. x \<noteq> 13 \<and> x \<noteq> 0) (?l @ 13 # rest) = takeWhile (\<lambda>x. x \<noteq> 13 \<and> x \<noteq> 0) ?l"
    by (rule takeWhile_tail) simp
  also have "\<dots> = ?l" using all takeWhile_eq_all_conv by blast
  finally show ?thesis by (simp add: strchr_pos_def nth_append)
qed

lemma find_no_line_end:
  assumes "c \<noteq> 13" "c \<noteq> 0" "q @ fut = [c] @ int_repr i @ 13 # rest" "length q \<le> length (int_repr i) + 1"
  shows "strchr_pos q 13 = None"
proof -
  have "q = take (length q) (q @ fut)" by simp
  also have "\<dots> = take (length q) (([c] @ int_repr i) @ 13 # rest)" using assms(3) by simp
  also have "\<dots> = take (length q) ([c] @ int_repr i)" using assms(4) by (subst take_append) simp
  finally have "q = take (length q) ([c] @ int_repr i)" .
  then have "set q \<subseteq> set ([c] @ int_repr i)" using set_take_subset by metis
  then have all: "x \<noteq> 13 \<and> x \<noteq> 0" if "x \<in> set q" for x using that int_repr_chars[of x i] assms(1,2) by auto
  then have "takeWhile (\<lambda>x. x \<noteq> 13 \<and> x \<noteq> 0) q = q" using takeWhile_eq_all_conv by blast
  then show ?thesis unfolding strchr_pos_def by (simp only: Let_def less_irrefl simp_thms if_False)
qed

text \<open>A prefix of a stream either contains the next item or ends inside it.\<close>

lemma prefix_cases:
  assumes "q @ fut = h @ r"
  obtains (inside) "length q < length h" "\<exists>fut'. fut = fut' @ r \<and> q @ fut' = h" | (past) q' where "q = h @ q'" "q' @ fut = r"
proof (cases "length q < length h")
  case True
  have "q = take (length q) (q @ fut)" by simp
  also have "\<dots> = take (length q) h" using assms True by simp
  finally have q: "q @ drop (length q) h = h" using append_take_drop_id[of "length q" h] by simp
  have "fut = drop (length q) (q @ fut)" by simp
  also have "\<dots> = drop (length q) h @ r" using assms True by simp
  finally show ?thesis using inside True q by blast
next
  case False
  have "h = take (length h) (h @ r)" by simp
  also have "\<dots> = take (length h) q" unfolding assms[symmetric] using False by simp
  finally have q: "q = h @ drop (length h) q" using append_take_drop_id[of "length h" q] by simp
  have "r = drop (length h) (h @ r)" by simp
  also have "\<dots> = drop (length h) q @ fut" unfolding assms[symmetric] using False by simp
  finally show ?thesis using past q by simp
qed

section \<open>One argument\<close>

lemma drop_len: "drop (length a) (a @ b) = b"
  by simp

lemma header_complete:
  assumes "c_bulklen c = - 1" "drop pos (c_querybuf c) = bulk_header n @ r" "n \<le> 512 * 1024 * 1024"
  shows "\<exists>q pos'. mb_header ae_ok c pos = Some (MGo (c\<lparr>c_querybuf := q, c_bulklen := int n\<rparr>) pos') \<and> drop pos' q = r \<and> pos' \<le> length q \<and>
    length q \<le> length (c_querybuf c)"
proof -
  let ?q = "c_querybuf c" and ?i = "int_repr (int n)"
  have len: "length ?q = pos + (length ?i + 3 + length r)"
    using arg_cong[OF assms(2), of length] by (simp add: bulk_header_def)
  have d: "drop pos ?q = [36] @ ?i @ 13 # 10 # r" using assms(2) by (simp add: bulk_header_def)
  have k: "strchr_pos (drop pos ?q) 13 = Some (length ?i + 1)" unfolding d by (rule find_line_end) simp_all
  have c0: "chr ?q pos = 36" using d len by (simp add: chr_def hd_drop_conv_nth[symmetric])
  have s: "sint (word_of_int (int n) :: 64 word) = int n" using assms(3) by (intro sint_word_of_int_64) simp_all
  have "drop (pos + 1) ?q = ?i @ 13 # 10 # r" using arg_cong[OF d, of "drop 1"] by (simp add: add.commute)
  then have "take (length ?i) (drop (pos + 1) ?q) = ?i" by simp
  then have ll: "string2ll (take (length ?i + 1 - 1) (drop (pos + 1) ?q)) = Some (word_of_int (int n))"
    using string2ll_iff s by simp
  have "drop (pos + (length ?i + 1) + 2) ?q = drop (length ([36] @ ?i @ [13, 10])) (drop pos ?q)" by (simp add: add.commute add.left_commute)
  also have "\<dots> = drop (length ([36] @ ?i @ [13, 10])) (([36] @ ?i @ [13, 10]) @ r)" unfolding d by simp
  finally have r: "drop (pos + (length ?i + 1) + 2) ?q = r" unfolding drop_len .
  have g: "\<not> int (pos + (length ?i + 1)) > int (length ?q) - 2" using len by simp
  have b: "\<not> (sint (word_of_int (int n) :: 64 word) < 0 \<or> sint (word_of_int (int n) :: 64 word) > 512 * 1024 * 1024)"
    using assms(3) s by simp
  note unf = mb_header_def assms(1) k option.case if_not_P[OF g] ll if_not_P[OF b] s
  show ?thesis
  proof (cases "int n \<ge> int REDIS_MBULK_BIG_ARG")
    case True
    then show ?thesis unfolding unf using assms(3) c0 r len slice_to_end[of ?q "pos + (length ?i + 1) + 2"]
      by (intro exI[of _ r] exI[of _ 0]) (simp add: Let_def)
  next
    case False
    then show ?thesis unfolding unf using assms(3) c0 r len
      by (intro exI[of _ ?q] exI[of _ "pos + (length ?i + 1) + 2"]) (simp add: Let_def)
  qed
qed

lemma error_closes:
  assumes "out_ok c"
  shows "\<exists>c'. protocol_error ae_ok c msg pos = Some c' \<and> k_close_after_reply c'"
  using replies_out[OF replies_error[where s = "bytes_of_string msg" and junk = "\<lambda>_. 0" and clk = 0 and ae_ok = ae_ok] assms]
  by (auto simp: protocol_error_def addReplyError_def setProtocolError_def)

lemma header_incomplete:
  assumes "c_bulklen c = - 1" "drop pos (c_querybuf c) @ fut = bulk_header n" "length (drop pos (c_querybuf c)) < length (bulk_header n)"
    "pos \<le> length (c_querybuf c)" "out_ok c"
  shows "mb_header ae_ok c pos = Some (MBreak c) \<or>
    (length (c_querybuf c) > REDIS_INLINE_MAX_SIZE \<and> (\<exists>c'. mb_header ae_ok c pos = Some (MFail c') \<and> k_close_after_reply c'))"
proof -
  let ?q = "drop pos (c_querybuf c)" and ?i = "int_repr (int n)"
  have e: "?q @ fut = [36] @ ?i @ 13 # [10]" using assms(2) by (simp add: bulk_header_def)
  show ?thesis
  proof (cases "length ?q \<le> length ?i + 1")
    case True
    have "strchr_pos ?q 13 = None" by (rule find_no_line_end[OF _ _ e True]) simp_all
    then show ?thesis using assms(1) error_closes[OF assms(5), of ae_ok "''Protocol error: too big bulk count string''" 0]
      by (auto simp: mb_header_def)
  next
    case False
    then have l: "length ?q = length ?i + 2" using assms(3) by (simp add: bulk_header_def)
    have "?q = take (length ?q) (?q @ fut)" by simp
    also have "\<dots> = [36] @ ?i @ 13 # []" unfolding e l by simp
    finally have q: "?q = [36] @ ?i @ 13 # []" .
    have "strchr_pos ?q 13 = Some (length ?i + 1)" unfolding q by (rule find_line_end) simp_all
    moreover have "int (pos + (length ?i + 1)) > int (length (c_querybuf c)) - 2" using l assms(4) by simp
    ultimately show ?thesis using assms(1) by (simp add: mb_header_def)
  qed
qed

lemma arg_complete:
  assumes "c_bulklen c = int (length s)" "drop pos (c_querybuf c) = s @ [13, 10] @ r" "length (c_argv c) < c_cap c"
  shows "\<exists>q pos'. mb_arg c pos = Some (c\<lparr>c_argv := c_argv c @ [s], c_querybuf := q, c_bulklen := - 1, c_multibulklen := c_multibulklen c - 1\<rparr>, pos') \<and>
    drop pos' q = r \<and> pos' \<le> length q \<and> length q \<le> length (c_querybuf c)"
proof -
  let ?q = "c_querybuf c"
  have len: "length ?q = pos + (length s + 2 + length r)" using arg_cong[OF assms(2), of length] by simp
  have t: "take (length s) (drop pos ?q) = s" using assms(2) by simp
  have r: "drop (pos + length s + 2) ?q = r"
    using arg_cong[OF assms(2), of "drop (length s + 2)"] by (simp add: add.commute add.left_commute)
  show ?thesis
  proof (cases "pos = 0 \<and> c_bulklen c \<ge> int REDIS_MBULK_BIG_ARG \<and> int (length ?q) = c_bulklen c + 2")
    case True
    then have "length r = 0" using len assms(1) by linarith
    then have "r = []" by simp
    then show ?thesis unfolding mb_arg_def using True assms(1,3) t by (intro exI[of _ "[]"] exI[of _ 0]) (simp add: Let_def)
  next
    case False
    show ?thesis unfolding mb_arg_def if_not_P[OF False] using assms(1,3) t r len
      by (intro exI[of _ ?q] exI[of _ "pos + length s + 2"]) (simp add: Let_def)
  qed
qed

section \<open>The loop\<close>

text \<open>What the loop may end in, for a buffer that is a prefix of the wire form of the arguments to come.\<close>

definition mb_done :: "'a client_scheme \<Rightarrow> bytes list \<Rightarrow> bytes \<Rightarrow> 'a client_scheme \<times> nat \<times> bool \<Rightarrow> bool" where
  "mb_done c todo rest r = (case r of (c', pos', ok) \<Rightarrow> ok \<and> c_multibulklen c' = 0 \<and> c_bulklen c' = - 1 \<and> out_ok c' \<and>
     c_argv c' = c_argv c @ todo \<and> drop pos' (c_querybuf c') = rest \<and> pos' \<le> length (c_querybuf c') \<and> k_close_after_reply c' = k_close_after_reply c)"

definition mb_wait :: "'a client_scheme \<Rightarrow> bytes list \<Rightarrow> bytes \<Rightarrow> bytes \<Rightarrow> 'a client_scheme \<times> nat \<times> bool \<Rightarrow> bool" where
  "mb_wait c todo fut rest r = (case r of (c', pos', ok) \<Rightarrow> ok \<and> (\<exists>todo1 todo2. todo = todo1 @ todo2 \<and> todo2 \<noteq> [] \<and>
     c_argv c' = c_argv c @ todo1 \<and> mid c' todo2 \<and> drop pos' (c_querybuf c') @ fut = need c' todo2 @ rest \<and> pos' \<le> length (c_querybuf c') \<and>
     k_close_after_reply c' = k_close_after_reply c \<and> length (c_querybuf c') \<le> length (c_querybuf c)))"

lemma out_ok_client [simp]:
  "out_ok (c\<lparr>c_querybuf := q\<rparr>) = out_ok c" "out_ok (c\<lparr>c_bulklen := b\<rparr>) = out_ok c" "out_ok (c\<lparr>c_argv := a\<rparr>) = out_ok c"
  "out_ok (c\<lparr>c_multibulklen := m\<rparr>) = out_ok c" "out_ok (c\<lparr>c_cap := k\<rparr>) = out_ok c" "out_ok (c\<lparr>c_reqtype := t\<rparr>) = out_ok c"
  by (simp_all add: out_ok_def)

definition mb_fail :: "'a client_scheme \<Rightarrow> 'a client_scheme \<times> nat \<times> bool \<Rightarrow> bool" where
  "mb_fail c r = (case r of (c', pos', ok) \<Rightarrow> \<not> ok \<and> k_close_after_reply c' \<and> length (c_querybuf c) > REDIS_INLINE_MAX_SIZE)"

definition outcome :: "'a client_scheme \<Rightarrow> nat \<Rightarrow> bytes list \<Rightarrow> bytes \<Rightarrow> bytes \<Rightarrow> 'a client_scheme \<times> nat \<times> bool \<Rightarrow> bool" where
  "outcome c pos todo fut rest r = (
     let q = drop pos (c_querybuf c); n = length (need c todo)
     in if n \<le> length q then mb_done c todo (drop n q) r else mb_wait c todo fut rest r \<or> mb_fail c r)"

lemma mb_loop_known: "c_multibulklen c \<noteq> 0 \<Longrightarrow> c_bulklen c \<noteq> - 1 \<Longrightarrow> mb_loop ae_ok c pos =
   (if int (length (c_querybuf c)) - int pos < c_bulklen c + 2 then Some (c, pos, True)
    else (case mb_arg c pos of None \<Rightarrow> None | Some (c2, pos2) \<Rightarrow> mb_loop ae_ok c2 pos2))"
  by (subst mb_loop.simps) (simp add: mb_header_def)

lemma outcome_arg:
  fixes c :: "'a client_scheme"
  assumes c: "mid c (s # ss)" "c_bulklen c = int (length s)" "pos \<le> length (c_querybuf c)"
    and q: "drop pos (c_querybuf c) @ fut = need c (s # ss) @ rest"
    and IH: "\<And>(c :: 'a client_scheme) pos. mid c ss \<Longrightarrow> pos \<le> length (c_querybuf c) \<Longrightarrow> drop pos (c_querybuf c) @ fut = need c ss @ rest \<Longrightarrow>
      \<exists>r. mb_loop ae_ok c pos = Some r \<and> outcome c pos ss fut rest r"
  shows "\<exists>r. mb_loop ae_ok c pos = Some r \<and> outcome c pos (s # ss) fut rest r"
proof -
  let ?q = "drop pos (c_querybuf c)" and ?X = "concat (map bulk ss)"
  have n: "need c (s # ss) = s @ [13, 10] @ ?X" using c(2) by (simp add: need_def)
  have m: "c_multibulklen c \<noteq> 0" "c_bulklen c \<noteq> - 1" "length (c_argv c) < c_cap c" using c(1,2) by (auto simp: mid_def)
  have lq: "int (length (c_querybuf c)) - int pos = int (length ?q)" using c(3) by simp
  show ?thesis
  proof (cases "length ?q < length s + 2")
    case True
    then have "mb_loop ae_ok c pos = Some (c, pos, True)" unfolding mb_loop_known[OF m(1,2)] lq c(2) by simp
    moreover have "mb_wait c (s # ss) fut rest (c, pos, True)"
      unfolding mb_wait_def using c q by (auto intro!: exI[of _ "[]"] exI[of _ "s # ss"])
    ultimately show ?thesis using True by (simp add: outcome_def n)
  next
    case False
    have "?q @ fut = (s @ [13, 10]) @ ?X @ rest" using q n by simp
    then obtain q' where q': "?q = (s @ [13, 10]) @ q'" "q' @ fut = ?X @ rest" by (cases rule: prefix_cases) (use False in auto)
    obtain q2 pos2 where a: "mb_arg c pos = Some (c\<lparr>c_argv := c_argv c @ [s], c_querybuf := q2, c_bulklen := - 1, c_multibulklen := c_multibulklen c - 1\<rparr>, pos2)"
      "drop pos2 q2 = q'" "pos2 \<le> length q2" "length q2 \<le> length (c_querybuf c)"
      using arg_complete[OF c(2) _ m(3), of pos q'] q'(1) by auto
    define c2 where "c2 = c\<lparr>c_argv := c_argv c @ [s], c_querybuf := q2, c_bulklen := - 1, c_multibulklen := c_multibulklen c - 1\<rparr>"
    have nl: "\<not> int (length (c_querybuf c)) - int pos < c_bulklen c + 2" unfolding lq c(2) using False by linarith
    have l: "mb_loop ae_ok c pos = mb_loop ae_ok c2 pos2"
      unfolding mb_loop_known[OF m(1,2)] if_not_P[OF nl] a(1) by (simp add: c2_def)
    have c2: "mid c2 ss" "need c2 ss = ?X" "drop pos2 (c_querybuf c2) = q'"
      using c(1) a(2) by (simp_all add: c2_def mid_def need_def)
    obtain r where r: "mb_loop ae_ok c2 pos2 = Some r" "outcome c2 pos2 ss fut rest r"
      using IH[OF c2(1), of pos2] c2(2,3) q'(2) a(3) by (auto simp: c2_def)
    have "outcome c pos (s # ss) fut rest r"
    proof (cases "length ?X \<le> length q'")
      case True
      then have "mb_done c2 ss (drop (length ?X) q') r" using r(2) by (simp add: outcome_def c2(2,3))
      moreover have "drop (length (need c (s # ss))) ?q = drop (length ?X) q'" unfolding n q'(1) by simp
      ultimately have "mb_done c (s # ss) (drop (length (need c (s # ss))) ?q) r" by (auto simp: mb_done_def c2_def)
      then show ?thesis using True by (simp add: outcome_def n q'(1))
    next
      case False
      then consider "mb_wait c2 ss fut rest r" | "mb_fail c2 r" using r(2) by (auto simp: outcome_def c2(2,3))
      then have "mb_wait c (s # ss) fut rest r \<or> mb_fail c r"
      proof cases
        case 1
        then obtain c' pos' t1 t2 where w: "r = (c', pos', True)" "ss = t1 @ t2" "t2 \<noteq> []" "c_argv c' = c_argv c2 @ t1" "mid c' t2"
          "drop pos' (c_querybuf c') @ fut = need c' t2 @ rest" "pos' \<le> length (c_querybuf c')"
          "k_close_after_reply c' = k_close_after_reply c2" "length (c_querybuf c') \<le> length (c_querybuf c2)"
          by (auto simp: mb_wait_def)
        then have "mb_wait c (s # ss) fut rest r"
          unfolding mb_wait_def using a(4) by (auto simp: c2_def intro!: exI[of _ "s # t1"] exI[of _ t2])
        then show ?thesis ..
      next
        case 2
        then show ?thesis using a(4) by (auto simp: mb_fail_def c2_def)
      qed
      then show ?thesis using False by (simp add: outcome_def n q'(1))
    qed
    then show ?thesis using l r(1) by auto
  qed
qed

lemma mb_loop_spec:
  assumes "mid c todo" "pos \<le> length (c_querybuf c)" "drop pos (c_querybuf c) @ fut = need c todo @ rest"
  shows "\<exists>r. mb_loop ae_ok c pos = Some r \<and> outcome c pos todo fut rest r"
  using assms
proof (induction todo arbitrary: c pos)
  case Nil
  then have "c_multibulklen c = 0" "c_bulklen c = - 1" "out_ok c" by (auto simp: mid_def)
  then show ?case using Nil by (subst mb_loop.simps) (simp add: outcome_def mb_done_def need_def Let_def)
next
  case (Cons s ss)
  show ?case
  proof (cases "c_bulklen c = - 1")
    case False
    then have "c_bulklen c = int (length s)" using Cons.prems(1) by (simp add: mid_def)
    from outcome_arg[OF Cons.prems(1) this Cons.prems(2,3) Cons.IH] show ?thesis .
  next
    case True
    let ?q = "drop pos (c_querybuf c)" and ?Y = "s @ [13, 10] @ concat (map bulk ss)"
    have n: "need c (s # ss) = bulk_header (length s) @ ?Y" using True by (simp add: need_def bulk_def)
    have m: "c_multibulklen c \<noteq> 0" "out_ok c" "length s \<le> 512 * 1024 * 1024" using Cons.prems(1) by (auto simp: mid_def)
    have "?q @ fut = bulk_header (length s) @ ?Y @ rest" using Cons.prems(3) n by simp
    then show ?thesis
    proof (cases rule: prefix_cases)
      case inside
      then obtain fut' where "?q @ fut' = bulk_header (length s)" by blast
      from header_incomplete[OF True this inside(1) Cons.prems(2) m(2), of ae_ok]
      have "mb_loop ae_ok c pos = Some (c, pos, True) \<or> (\<exists>c'. mb_loop ae_ok c pos = Some (c', pos, False) \<and> mb_fail c (c', pos, False))"
        using m(1) by (subst (1 2) mb_loop.simps) (auto simp: mb_fail_def)
      moreover have "mb_wait c (s # ss) fut rest (c, pos, True)"
        unfolding mb_wait_def using Cons.prems by (auto intro!: exI[of _ "[]"] exI[of _ "s # ss"])
      ultimately show ?thesis using inside(1) by (auto simp: outcome_def n)
    next
      case (past q')
      obtain q1 pos1 where h: "mb_header ae_ok c pos = Some (MGo (c\<lparr>c_querybuf := q1, c_bulklen := int (length s)\<rparr>) pos1)"
        "drop pos1 q1 = q'" "pos1 \<le> length q1" "length q1 \<le> length (c_querybuf c)"
        using header_complete[OF True past(1) m(3), of ae_ok] by blast
      define c1 where "c1 = c\<lparr>c_querybuf := q1, c_bulklen := int (length s)\<rparr>"
      have c1: "mid c1 (s # ss)" "c_bulklen c1 = int (length s)" "pos1 \<le> length (c_querybuf c1)" "need c1 (s # ss) = ?Y"
        "drop pos1 (c_querybuf c1) = q'"
        using Cons.prems(1) h(2,3) by (simp_all add: c1_def mid_def need_def)
      have m1: "c_multibulklen c1 \<noteq> 0" "c_bulklen c1 \<noteq> - 1" using c1(1,2) by (auto simp: mid_def)
      have "mb_loop ae_ok c pos = mb_loop ae_ok c1 pos1"
        using m(1) h(1) m1 by (subst mb_loop.simps) (simp add: c1_def[symmetric] mb_loop_known)
      moreover have e: "drop pos1 (c_querybuf c1) @ fut = need c1 (s # ss) @ rest" unfolding c1(4,5) using past(2) by simp
      moreover obtain r where r: "mb_loop ae_ok c1 pos1 = Some r" "outcome c1 pos1 (s # ss) fut rest r"
        using outcome_arg[OF c1(1-3) e Cons.IH] by blast
      moreover have "outcome c pos (s # ss) fut rest r"
        using r(2) h(4) unfolding outcome_def n c1(4,5) past(1)
        by (auto simp: Let_def c1_def mb_done_def mb_wait_def mb_fail_def split: if_splits)
      ultimately show ?thesis by auto
    qed
  qed
qed

section \<open>Whole requests\<close>

text \<open>A client that has received part of a request: the query buffer followed by the bytes still to come
  (\<open>fut\<close>) is what the parser still needs, followed by the \<open>rest\<close> of the stream.\<close>

definition parsing :: "'a client_scheme \<Rightarrow> bytes list \<Rightarrow> bytes \<Rightarrow> bytes \<Rightarrow> bool" where
  "parsing c args fut rest \<longleftrightarrow>
     (c_multibulklen c = 0 \<and> c_argv c = [] \<and> c_bulklen c = - 1 \<and> out_ok c \<and> c_querybuf c @ fut = request args @ rest) \<or>
     (\<exists>todo. args = c_argv c @ todo \<and> todo \<noteq> [] \<and> mid c todo \<and> c_querybuf c @ fut = need c todo @ rest)"

definition acceptable :: "bytes list \<Rightarrow> bool" where
  "acceptable args \<longleftrightarrow> args \<noteq> [] \<and> length args \<le> 1024 * 1024 \<and> list_all (\<lambda>s. length s \<le> 512 * 1024 * 1024) args"

definition parsed :: "'a client_scheme \<Rightarrow> bytes list \<Rightarrow> bytes \<Rightarrow> bool" where
  "parsed c args q \<longleftrightarrow> c_argv c = args \<and> c_querybuf c = q \<and> c_multibulklen c = 0 \<and> c_bulklen c = - 1 \<and> out_ok c"

definition mb_run :: "bool \<Rightarrow> 'a client_scheme \<Rightarrow> nat \<Rightarrow> ('a client_scheme \<times> bool) option" where
  "mb_run ae_ok c pos =
     (if \<not> c_multibulklen c > 0 then None
      else do {
        (c, pos, ok) \<leftarrow> mb_loop ae_ok c pos;
        (if \<not> ok then Some (c, False)
         else let c = (if pos \<noteq> 0 then c\<lparr>c_querybuf := text_slice (c_querybuf c) (int pos) (- 1)\<rparr> else c)
              in Some (c, c_multibulklen c = 0))
      })"

lemma run_spec:
  assumes c: "mid c todo" "todo \<noteq> []" "args = c_argv c @ todo" "pos \<le> length (c_querybuf c)"
    and q: "drop pos (c_querybuf c) @ fut = need c todo @ rest"
  shows "\<exists>c' ok. mb_run ae_ok c pos = Some (c', ok) \<and>
    ((ok \<and> (\<exists>q'. parsed c' args q' \<and> q' @ fut = rest) \<and> k_close_after_reply c' = k_close_after_reply c) \<or>
     (\<not> ok \<and> fut \<noteq> [] \<and> parsing c' args fut rest \<and> k_close_after_reply c' = k_close_after_reply c \<and> length (c_querybuf c') \<le> length (c_querybuf c)) \<or>
     (\<not> ok \<and> fut \<noteq> [] \<and> k_close_after_reply c' \<and> length (c_querybuf c) > REDIS_INLINE_MAX_SIZE))"
proof -
  let ?q = "drop pos (c_querybuf c)" and ?n = "need c todo"
  have m: "c_multibulklen c > 0" using c(1,2) by (simp add: mid_def)
  obtain c' pos' ok where l: "mb_loop ae_ok c pos = Some (c', pos', ok)" "outcome c pos todo fut rest (c', pos', ok)"
    using mb_loop_spec[OF c(1,4) q, of ae_ok] by (metis prod_cases3)
  have trim: "(if pos' \<noteq> 0 then c'\<lparr>c_querybuf := text_slice (c_querybuf c') (int pos') (- 1)\<rparr> else c') = c'\<lparr>c_querybuf := drop pos' (c_querybuf c')\<rparr>"
    by (simp add: slice_to_end)
  have r: "mb_run ae_ok c pos = Some (if \<not> ok then (c', False) else (c'\<lparr>c_querybuf := drop pos' (c_querybuf c')\<rparr>, c_multibulklen c' = 0))"
    unfolding mb_run_def l(1) Option.bind.bind_lunit prod.case Let_def trim using m by simp
  show ?thesis
  proof (cases "length ?n \<le> length ?q")
    case True
    then have d: "mb_done c todo (drop (length ?n) ?q) (c', pos', ok)" using l(2) by (simp add: outcome_def)
    have "drop (length ?n) ?q @ fut = rest" using arg_cong[OF q, of "drop (length ?n)"] True by simp
    then show ?thesis unfolding r using d c(3) by (auto simp: mb_done_def parsed_def)
  next
    case False
    then have f: "fut \<noteq> []" using arg_cong[OF q, of length] by (intro notI) simp
    consider "mb_wait c todo fut rest (c', pos', ok)" | "mb_fail c (c', pos', ok)" using l(2) False by (auto simp: outcome_def)
    then show ?thesis
    proof cases
      case 1
      then obtain t1 t2 where w: "ok" "todo = t1 @ t2" "t2 \<noteq> []" "c_argv c' = c_argv c @ t1" "mid c' t2"
          "drop pos' (c_querybuf c') @ fut = need c' t2 @ rest" "k_close_after_reply c' = k_close_after_reply c"
          "length (c_querybuf c') \<le> length (c_querybuf c)"
        by (auto simp: mb_wait_def)
      let ?c = "c'\<lparr>c_querybuf := drop pos' (c_querybuf c')\<rparr>"
      have "mid ?c t2" "need ?c t2 = need c' t2" using w(5) by (simp_all add: mid_def need_def)
      then have "parsing ?c args fut rest" unfolding parsing_def using w(2-4,6) c(3) by (intro disjI2 exI[of _ t2]) simp
      moreover have "c_multibulklen c' \<noteq> 0" using w(3,5) by (simp add: mid_def)
      ultimately show ?thesis unfolding r using w f by (intro exI[of _ ?c] exI[of _ False]) auto
    next
      case 2
      then show ?thesis unfolding r using f by (auto simp: mb_fail_def)
    qed
  qed
qed

lemma multibulk_step:
  assumes "parsing c args fut rest" "acceptable args"
  shows "\<exists>c' ok. processMultibulkBuffer ae_ok c = Some (c', ok) \<and>
    ((ok \<and> (\<exists>q'. parsed c' args q' \<and> q' @ fut = rest) \<and> k_close_after_reply c' = k_close_after_reply c) \<or>
     (\<not> ok \<and> fut \<noteq> [] \<and> parsing c' args fut rest \<and> k_close_after_reply c' = k_close_after_reply c \<and> length (c_querybuf c') \<le> length (c_querybuf c)) \<or>
     (\<not> ok \<and> fut \<noteq> [] \<and> k_close_after_reply c' \<and> length (c_querybuf c) > REDIS_INLINE_MAX_SIZE))"
proof (cases "c_multibulklen c = 0")
  case False
  then obtain todo where t: "args = c_argv c @ todo" "todo \<noteq> []" "mid c todo" "c_querybuf c @ fut = need c todo @ rest"
    using assms(1) by (auto simp: parsing_def)
  moreover have "processMultibulkBuffer ae_ok c = mb_run ae_ok c 0" using False by (simp add: processMultibulkBuffer_def mb_run_def Let_def)
  ultimately show ?thesis using run_spec[OF t(3,2,1), of 0 fut rest ae_ok] by simp
next
  case True
  let ?q = "c_querybuf c" and ?n = "length args" and ?X = "concat (map bulk args)"
  let ?i = "int_repr (int ?n)"
  let ?h = "[42] @ ?i @ [13, 10]"
  have c: "c_argv c = []" "c_bulklen c = - 1" "out_ok c" "?q @ fut = request args @ rest"
    using assms(1) True by (auto simp: parsing_def mid_def)
  then have q: "?q @ fut = ?h @ ?X @ rest" by (simp add: request_def)
  have wait: "parsing c args fut rest" by fact
  from q show ?thesis
  proof (cases rule: prefix_cases)
    case inside
    have f: "fut \<noteq> []" using inside by auto
    show ?thesis
    proof (cases "length ?q \<le> length ?i + 1")
      case le: True
      have "strchr_pos ?q 13 = None" by (rule find_no_line_end[of 42 ?q fut "int ?n" "10 # ?X @ rest"]) (use q le in simp_all)
      then show ?thesis
        using True c(1) wait f error_closes[OF c(3), of ae_ok "''Protocol error: too big mbulk count string''" 0]
        by (cases "length ?q > REDIS_INLINE_MAX_SIZE") (auto simp: processMultibulkBuffer_def)
    next
      case gt: False
      then have l: "length ?q = length ?i + 2" using inside by simp
      have "?q = take (length ?q) (?q @ fut)" by simp
      also have "\<dots> = [42] @ ?i @ 13 # []" unfolding q l by simp
      finally have e: "?q = [42] @ ?i @ 13 # []" .
      have "strchr_pos ?q 13 = Some (length ?i + 1)" by (subst e, rule find_line_end) simp_all
      then show ?thesis using True c(1) wait f l by (auto simp: processMultibulkBuffer_def)
    qed
  next
    case (past q')
    have e: "?q = [42] @ ?i @ 13 # 10 # q'" using past(1) by simp
    have k: "strchr_pos ?q 13 = Some (length ?i + 1)" by (subst e, rule find_line_end) simp_all
    have s: "sint (word_of_int (int ?n) :: 64 word) = int ?n" using assms(2) by (intro sint_word_of_int_64) (simp_all add: acceptable_def)
    have "take (length ?i + 1 - 1) (drop 1 ?q) = ?i" unfolding e by simp
    then have ll: "string2ll (take (length ?i + 1 - 1) (drop 1 ?q)) = Some (word_of_int (int ?n))" using string2ll_iff s by simp
    have g: "\<not> int (length ?i + 1) > int (length ?q) - 2" unfolding e by simp
    have c0: "chr ?q 0 = 42" unfolding e by simp
    have n: "\<not> int ?n > 1024 * 1024" "\<not> int ?n \<le> 0" using assms(2) by (simp_all add: acceptable_def)
    let ?c = "c\<lparr>c_multibulklen := ?n, c_cap := ?n\<rparr>"
    have run: "processMultibulkBuffer ae_ok c = mb_run ae_ok ?c (length ?i + 1 + 2)"
      unfolding processMultibulkBuffer_def mb_run_def Let_def k option.case ll s
      using True c(1) g c0 n by simp
    have "mid ?c args" using c assms(2) by (simp add: mid_def acceptable_def)
    moreover have "drop (length ?i + 1 + 2) ?q = q'" using drop_len[of ?h q'] past(1) by simp
    moreover have "need ?c args = ?X" using c(2) by (simp add: need_def)
    moreover have "length ?i + 1 + 2 \<le> length ?q" using e by simp
    ultimately show ?thesis
      unfolding run using run_spec[of ?c args args "length ?i + 1 + 2" fut rest ae_ok] c(1) past(2) assms(2)
      by (simp add: acceptable_def)
  qed
qed

section \<open>Segmentation and pipelining\<close>

text \<open>The stream arrives in segments; after each one the parser is called, until it returns a request or the
  client is to be closed.  Segments that arrive after that are only appended to the buffer.\<close>

fun receive :: "bool \<Rightarrow> 'a client_scheme \<Rightarrow> bytes list \<Rightarrow> ('a client_scheme \<times> bool) option" where
  "receive ae_ok c [] = Some (c, False)"
| "receive ae_ok c (b # bs) = do {
     (c, ok) \<leftarrow> processMultibulkBuffer ae_ok (c\<lparr>c_querybuf := c_querybuf c @ b\<rparr>);
     (if ok \<or> k_close_after_reply c then Some (c\<lparr>c_querybuf := c_querybuf c @ concat bs\<rparr>, ok) else receive ae_ok c bs)
   }"

lemma parsing_append: "parsing c args (b @ fut) rest \<Longrightarrow> parsing (c\<lparr>c_querybuf := c_querybuf c @ b\<rparr>) args fut rest"
  by (auto simp: parsing_def mid_def need_def)

lemma receive_spec:
  assumes "parsing c args (concat bs) rest" "acceptable args" "\<not> k_close_after_reply c" "concat bs \<noteq> []"
    "length (c_querybuf c) + length (concat bs) \<le> limit"
  shows "\<exists>c' ok. receive ae_ok c bs = Some (c', ok) \<and>
    ((ok \<and> parsed c' args rest) \<or> (\<not> ok \<and> k_close_after_reply c' \<and> limit > REDIS_INLINE_MAX_SIZE))"
  using assms
proof (induction bs arbitrary: c)
  case (Cons b bs)
  let ?c = "c\<lparr>c_querybuf := c_querybuf c @ b\<rparr>"
  have p: "parsing ?c args (concat bs) rest" using Cons.prems(1) by (intro parsing_append) simp
  obtain c' ok where s: "processMultibulkBuffer ae_ok ?c = Some (c', ok)"
    "(ok \<and> (\<exists>q'. parsed c' args q' \<and> q' @ concat bs = rest) \<and> k_close_after_reply c' = k_close_after_reply ?c) \<or>
     (\<not> ok \<and> concat bs \<noteq> [] \<and> parsing c' args (concat bs) rest \<and> k_close_after_reply c' = k_close_after_reply ?c \<and> length (c_querybuf c') \<le> length (c_querybuf ?c)) \<or>
     (\<not> ok \<and> k_close_after_reply c' \<and> length (c_querybuf ?c) > REDIS_INLINE_MAX_SIZE)"
    using multibulk_step[OF p assms(2), of ae_ok] by blast
  from s(2) show ?case
  proof (elim disjE conjE exE)
    fix q' assume "ok" "parsed c' args q'" "q' @ concat bs = rest"
    then show ?thesis using s(1) by (auto simp: parsed_def)
  next
    assume a: "\<not> ok" "concat bs \<noteq> []" "parsing c' args (concat bs) rest" "k_close_after_reply c' = k_close_after_reply ?c"
      "length (c_querybuf c') \<le> length (c_querybuf ?c)"
    have "length (c_querybuf c') + length (concat bs) \<le> limit" using a(5) Cons.prems(5) by simp
    from Cons.IH[OF a(3) assms(2) _ a(2) this] show ?thesis using s(1) a(1,4) Cons.prems(3) by simp
  next
    assume "\<not> ok" "k_close_after_reply c'" "length (c_querybuf ?c) > REDIS_INLINE_MAX_SIZE"
    then show ?thesis using s(1) Cons.prems(5) by auto
  qed
qed simp

lemma request_nonempty: "request args \<noteq> []"
  by (simp add: request_def)

text \<open>A client ready for the next request.\<close>

definition ready :: "bool \<Rightarrow> 'a client_scheme \<Rightarrow> bool" where
  "ready paused c \<longleftrightarrow> c_reqtype c = REQ_UNKNOWN \<and> c_multibulklen c = 0 \<and> c_argv c = [] \<and> c_bulklen c = - 1 \<and> out_ok c \<and>
     (c_slave c \<or> \<not> paused) \<and> \<not> c_blocked c \<and> \<not> k_close_after_reply c"

definition blank :: "'a client_scheme \<Rightarrow> 'a client_scheme" where
  "blank c = c\<lparr>c_querybuf := [], c_argv := [], c_cap := 0, c_reqtype := REQ_UNKNOWN, c_multibulklen := 0, c_bulklen := 0\<rparr>"

lemma blank_simps [simp]:
  "blank (c\<lparr>c_querybuf := q\<rparr>) = blank c" "blank (c\<lparr>c_argv := a\<rparr>) = blank c" "blank (c\<lparr>c_cap := k\<rparr>) = blank c"
  "blank (c\<lparr>c_reqtype := t\<rparr>) = blank c" "blank (c\<lparr>c_multibulklen := m\<rparr>) = blank c" "blank (c\<lparr>c_bulklen := b\<rparr>) = blank c"
  by (simp_all add: blank_def)

lemma blank_flags:
  assumes "blank c = blank d"
  shows "c_slave c = c_slave d \<and> c_blocked c = c_blocked d"
proof -
  have "c_slave (blank c) = c_slave (blank d)" "c_blocked (blank c) = c_blocked (blank d)" using assms by simp_all
  then show ?thesis by (simp add: blank_def)
qed

lemma mb_header_blank:
  "mb_header ae_ok c pos = Some (MGo c1 pos1) \<Longrightarrow> blank c1 = blank c"
  "mb_header ae_ok c pos = Some (MBreak c1) \<Longrightarrow> blank c1 = blank c"
  by (auto simp: mb_header_def Let_def split: if_splits option.splits bind_splits)

lemma mb_arg_blank: "mb_arg c pos = Some (c2, pos2) \<Longrightarrow> blank c2 = blank c"
  by (auto simp: mb_arg_def Let_def split: if_splits)

lemma mb_loop_blank: "mb_loop ae_ok c pos = Some (c', pos', True) \<Longrightarrow> blank c' = blank c"
proof (induction ae_ok c pos rule: mb_loop.induct)
  case (1 ae_ok c pos)
  show ?case
  proof (cases "c_multibulklen c = 0")
    case True
    then show ?thesis using "1.prems" by (subst (asm) mb_loop.simps) simp
  next
    case m: False
    then consider c1 where "mb_header ae_ok c pos = Some (MBreak c1)" "c' = c1"
      | c1 pos1 where "mb_header ae_ok c pos = Some (MGo c1 pos1)" "c' = c1"
      | c1 pos1 c2 pos2 where "mb_header ae_ok c pos = Some (MGo c1 pos1)" "\<not> int (length (c_querybuf c1)) - int pos1 < c_bulklen c1 + 2"
        "mb_arg c1 pos1 = Some (c2, pos2)" "mb_loop ae_ok c2 pos2 = Some (c', pos', True)"
      using "1.prems" by (subst (asm) mb_loop.simps) (auto split: option.splits mb_step.splits if_splits)
    then show ?thesis
    proof cases
      case 3
      have "blank c' = blank c2" by (rule "1.IH"[OF m 3(1) refl 3(2,3) refl 3(4)])
      then show ?thesis using mb_arg_blank[OF 3(3)] mb_header_blank(1)[OF 3(1)] by simp
    qed (simp_all add: mb_header_blank)
  qed
qed

lemma multibulk_blank: "processMultibulkBuffer ae_ok c = Some (c', True) \<Longrightarrow> blank c' = blank c"
  by (auto simp: processMultibulkBuffer_def Let_def split: if_splits option.splits bind_splits dest!: mb_loop_blank)

text \<open>What the input loop relies on in a dispatcher: as long as \<open>inv\<close> holds, with the number of commands it still covers,
  a good command is run once - \<open>step\<close> on what \<open>view\<close> shows of the client and the server - and the input side is left
  alone.\<close>

locale dispatcher =
  fixes processCommand :: "'a client_scheme \<Rightarrow> 'a client_scheme \<times> bool"
    and shows_of :: "'a client_scheme \<Rightarrow> 's"
    and step :: "'s \<Rightarrow> bytes list \<Rightarrow> 's"
    and inv :: "nat \<Rightarrow> 'a client_scheme \<Rightarrow> bool"
    and good :: "bytes list \<Rightarrow> bool"
  assumes shows_blank: "shows_of (blank c) = shows_of c"
    and inv_blank: "inv n (blank c) = inv n c"
    and runs_once: "inv (Suc n) c \<Longrightarrow> out_ok c \<Longrightarrow> good (c_argv c) \<Longrightarrow> \<not> k_close_after_reply c \<Longrightarrow> \<exists>c'. processCommand c = (c', True) \<and> inv n c' \<and>
      shows_of c' = step (shows_of c) (c_argv c) \<and> c_querybuf c' = c_querybuf c \<and> out_ok c' \<and> c_slave c' = c_slave c \<and> c_blocked c' = c_blocked c \<and>
      \<not> k_close_after_reply c'"
begin

lemma pipeline:
  assumes "list_all acceptable cmds" "list_all good cmds" "ready paused c" "inv (length cmds) c" "c_querybuf c = concat (map request cmds)"
  shows "\<exists>c'. processInputBuffer ae_ok unixtime processCommand paused c = Some c' \<and> ready paused c' \<and> c_querybuf c' = [] \<and> inv 0 c' \<and>
    shows_of c' = foldl step (shows_of c) cmds"
  using assms
proof (induction cmds arbitrary: c)
  case Nil
  then show ?case by (subst processInputBuffer.simps) simp
next
  case (Cons args cmds)
  let ?rest = "concat (map request cmds)" and ?c = "c\<lparr>c_reqtype := REQ_MULTIBULK\<rparr>"
  have q: "c_querybuf c = request args @ ?rest" using Cons.prems(5) by simp
  have acc: "acceptable args" using Cons.prems(1) by simp
  have "parsing ?c args [] ?rest" using Cons.prems(3) q by (simp add: parsing_def ready_def)
  from multibulk_step[OF this acc, of ae_ok] obtain c1 where c1: "processMultibulkBuffer ae_ok ?c = Some (c1, True)"
    "parsed c1 args ?rest" "k_close_after_reply c1 = k_close_after_reply c" by auto
  have bl: "blank c1 = blank c" using multibulk_blank[OF c1(1)] by simp
  have eq: "shows_of c1 = shows_of c" "inv n c1 = inv n c" for n
    using shows_blank[of c1] shows_blank[of c] inv_blank[of n c1] inv_blank[of n c] bl by simp_all
  have a1: "c_argv c1 = args" "c_querybuf c1 = ?rest" "out_ok c1" "\<not> k_close_after_reply c1" using c1(2,3) Cons.prems(3) by (simp_all add: parsed_def ready_def)
  obtain d where d: "processCommand c1 = (d, True)" "inv (length cmds) d" "shows_of d = step (shows_of c) args" "c_querybuf d = ?rest" "out_ok d"
    "c_slave d = c_slave c" "c_blocked d = c_blocked c" "\<not> k_close_after_reply d"
    using runs_once[of "length cmds" c1] Cons.prems(2,4) a1 eq blank_flags[OF bl] by auto
  have "chr (c_querybuf c) 0 = 42" "c_querybuf c \<noteq> []" using q by (simp_all add: request_def)
  moreover have "c_argv c1 \<noteq> []" using a1(1) acc by (auto simp: acceptable_def)
  ultimately have "processInputBuffer ae_ok unixtime processCommand paused c = processInputBuffer ae_ok unixtime processCommand paused (resetClient d)"
    using Cons.prems(3) c1(1) d(1) by (subst processInputBuffer.simps) (auto simp: ready_def)
  moreover have "ready paused (resetClient d)"
    using Cons.prems(3) d by (auto simp: ready_def resetClient_def)
  moreover have "c_querybuf (resetClient d) = ?rest" using d(4) by (simp add: resetClient_def)
  moreover have "shows_of (resetClient d) = step (shows_of c) args" "inv (length cmds) (resetClient d)"
    using shows_blank[of "resetClient d"] shows_blank[of d] inv_blank[of _ "resetClient d"] inv_blank[of _ d] d(2,3) by (simp_all add: resetClient_def)
  ultimately show ?case using Cons.IH[of "resetClient d"] Cons.prems(1,2) by simp
qed

end

section \<open>Inline requests\<close>

lemma inline_line:
  assumes "strchr_pos (c_querybuf c) 10 = Some k" "\<not> c_slave c"
  defines "n \<equiv> (if k \<noteq> 0 \<and> c_querybuf c ! (k - 1) = 13 then k - 1 else k)"
  assumes "sdssplitargs (take n (c_querybuf c)) = Some (Some argv)"
  shows "\<exists>c'. processInlineBuffer ae_ok now c = Some (c', True) \<and> c_argv c' = filter (\<lambda>s. s \<noteq> []) argv \<and> c_querybuf c' = drop (n + 2) (c_querybuf c)"
  unfolding processInlineBuffer_def assms(1) option.case Let_def n_def[symmetric] assms(4) Option.bind.bind_lunit
  using assms(2) by (simp add: slice_to_end_plus)

text \<open>A log of the commands a client has run, for the examples.\<close>

record logging_client = client +
  c_log :: "bytes list list"

definition log_command :: "'a logging_client_scheme \<Rightarrow> 'a logging_client_scheme \<times> bool" where
  "log_command c = (c\<lparr>c_log := c_log c @ [c_argv c]\<rparr>, True)"

definition new_client :: logging_client where
  "new_client = \<lparr>k_fd = 5, k_lua = False, k_master = False, k_master_force = False, k_close_after_reply = False, k_close_asap = False,
     k_replstate = 0, k_put_online_on_ack = False, k_handler = False, k_buf = replicate REDIS_REPLY_CHUNK_BYTES 0, k_bufpos = 0,
     k_reply = [], k_sentlen = 0, c_querybuf = [], c_argv = [], c_cap = 0, c_reqtype = REQ_UNKNOWN, c_multibulklen = 0, c_bulklen = - 1,
     c_slave = False, c_blocked = False, c_repl_ack_time = 0, c_log = []\<rparr>"

lemma new_client_ready: "ready False new_client"
  by (simp add: ready_def new_client_def out_ok_def)

text \<open>A line that ends in a bare line feed: the parser skips two bytes for the line end, so it also swallows the
  first byte of the next request.\<close>

lemma inline_bare_newline:
  "\<exists>c'. processInlineBuffer ae_ok now (new_client\<lparr>c_querybuf := [80, 10, 81, 10]\<rparr>) = Some (c', True) \<and> c_argv c' = [[80]] \<and> c_querybuf c' = [10]"
proof -
  let ?c = "new_client\<lparr>c_querybuf := [80, 10, 81, 10]\<rparr>"
  have k: "strchr_pos (c_querybuf ?c) 10 = Some 1" by (simp add: strchr_pos_def)
  have "split_token Unquoted [80] [] = Some ([80], [])"
    by (simp add: split_token.simps isspace_def)
  then have "sdssplitargs [80] = Some (Some [[80]])"
    by (simp add: sdssplitargs_def splitargs_loop.simps isspace_def)
  then show ?thesis using inline_line[OF k, of "[[80]]" ae_ok now] by (simp add: new_client_def)
qed

section \<open>Properties\<close>

text \<open>C11. The request parser is independent of how the network cuts the stream: however the bytes of a request (at
  most 1048576 arguments of at most 512 MB) and of what follows it arrive in segments, calling the parser after
  each segment yields exactly the arguments and leaves exactly what follows in the buffer; the only other outcome is
  that the client is closed with a protocol error, which is possible only when more than 64 KB were received.\<close>

theorem request_segmentation:
  assumes "ready paused c" "c_querybuf c = []" "acceptable args" "concat segs = request args @ rest"
  shows "\<exists>c' ok. receive ae_ok c segs = Some (c', ok) \<and>
    ((ok \<and> c_argv c' = args \<and> c_querybuf c' = rest) \<or>
     (\<not> ok \<and> k_close_after_reply c' \<and> length (concat segs) > REDIS_INLINE_MAX_SIZE))"
proof -
  have "parsing c args (concat segs) rest" using assms(1,2,4) by (simp add: parsing_def ready_def)
  moreover have "\<not> k_close_after_reply c" using assms(1) by (simp add: ready_def)
  moreover have "concat segs \<noteq> []" using assms(4) request_nonempty by simp
  ultimately show ?thesis using receive_spec[OF _ assms(3), of c segs rest "length (concat segs)" ae_ok] assms(2)
    by (auto simp: parsed_def)
qed

theorem request_segmentation_witness:
  "\<exists>c' ok. receive True new_client [[42, 49], [13, 10, 36], [50, 13, 10, 72, 73, 13], [10, 42]] = Some (c', ok) \<and> ok \<and>
    c_argv c' = [[72, 73]] \<and> c_querybuf c' = [42]"
  using request_segmentation[OF new_client_ready, of "[[72, 73]]" "[[42, 49], [13, 10, 36], [50, 13, 10, 72, 73, 13], [10, 42]]" "[42]" True]
  by (simp add: acceptable_def request_def bulk_def bulk_header_def int_repr_def dec_repr.simps new_client_def REDIS_INLINE_MAX_SIZE_def del: receive.simps)

end
