(* ===== verification/Redis_Aof.thy ===== *)
theory Redis_Aof
  imports Redis_Protocol Redis_Rdb
begin

text \<open>
  \<open>aof.c\<close>: what is appended to the append-only log for a command, and the block list that accumulates the
  changes while a child process rewrites the log.

  Strings are the dynamic strings of \<open>sds.c\<close>; a store out of bounds, a failed assertion or a missing argument
  is \<open>None\<close>.  A rewrite block has its \<open>used\<close> and \<open>free\<close> counters and its memory.  The commands that the log
  translates are told apart by a datatype in place of the function pointers; the clock and the return values
  of \<open>write\<close> are arguments.

  The main results: a command is logged as requests that the request parser reads back, with the relative expire times
  of \<open>EXPIRE\<close>, \<open>PEXPIRE\<close>, \<open>SETEX\<close> and \<open>PSETEX\<close> turned into absolute ones and every other command as it is, \<open>SET\<close> with a
  relative time included (\<open>Redis_Replay\<close> shows what becomes of both when the log is run), and the rewrite buffer is a byte stream from which the child receives exactly
  what was appended.
\<close>

section \<open>The code\<close>

subsection \<open>The rewrite buffer\<close>

definition AOF_RW_BUF_BLOCK_SIZE :: nat where "AOF_RW_BUF_BLOCK_SIZE = 1024 * 1024 * 10"

record aofrwblock =
  a_used :: nat
  a_free :: nat
  a_buf :: bytes

definition aofRewriteBufferReset :: "aofrwblock list" where
  "aofRewriteBufferReset = []"

fun aofRewriteBufferSize :: "aofrwblock list \<Rightarrow> nat" where
  "aofRewriteBufferSize [] = 0"
| "aofRewriteBufferSize (b # bs) = a_used b + aofRewriteBufferSize bs"

definition new_block :: "(nat \<Rightarrow> byte) \<Rightarrow> aofrwblock" where
  "new_block junk = \<lparr>a_used = 0, a_free = AOF_RW_BUF_BLOCK_SIZE, a_buf = map junk [0..<AOF_RW_BUF_BLOCK_SIZE]\<rparr>"

text \<open>Filling the last block: the block and what did not fit.\<close>

definition fill_block :: "aofrwblock \<Rightarrow> bytes \<Rightarrow> (aofrwblock \<times> bytes) option" where
  "fill_block b s = (
     let thislen = (if a_free b < length s then a_free b else length s)
     in if thislen = 0 then Some (b, s)
        else do {
          buf \<leftarrow> mem_write (a_buf b) (a_used b) (take thislen s);
          Some (\<lparr>a_used = a_used b + thislen, a_free = a_free b - thislen, a_buf = buf\<rparr>, drop thislen s)
        })"

text \<open>The loop of \<open>aofRewriteBufferAppend\<close>: \<open>bs\<close> are the blocks before the current one, which is \<open>None\<close> when
  there is no block yet.\<close>

partial_function (option) append_loop ::
  "(nat \<Rightarrow> byte) \<Rightarrow> aofrwblock list \<Rightarrow> aofrwblock option \<Rightarrow> bytes \<Rightarrow> aofrwblock list option" where
  "append_loop junk bs block s =
     (if s = [] then Some (case block of None \<Rightarrow> bs | Some b \<Rightarrow> bs @ [b])
      else (case block of
          None \<Rightarrow> append_loop junk bs (Some (new_block junk)) s
        | Some b \<Rightarrow> do {
            (b, s) \<leftarrow> fill_block b s;
            (if s \<noteq> [] then append_loop junk (bs @ [b]) (Some (new_block junk)) s else Some (bs @ [b]))
          }))"

declare append_loop.simps [code]

definition aofRewriteBufferAppend :: "(nat \<Rightarrow> byte) \<Rightarrow> aofrwblock list \<Rightarrow> bytes \<Rightarrow> aofrwblock list option" where
  "aofRewriteBufferAppend junk blocks s =
     (if blocks = [] then append_loop junk [] None s else append_loop junk (butlast blocks) (Some (last blocks)) s)"

text \<open>\<open>aofChildWriteDiffData\<close>: \<open>ws\<close> are the return values of \<open>write\<close>; the result has the bytes the pipe took and
  whether the event handler stays registered.\<close>

function aofChildWriteDiffData :: "bool \<Rightarrow> int list \<Rightarrow> aofrwblock list \<Rightarrow> bytes \<Rightarrow> (aofrwblock list \<times> bytes \<times> bool) option" where
  "aofChildWriteDiffData stop ws blocks sent =
     (case blocks of
        [] \<Rightarrow> Some ([], sent, False)
      | b # bs \<Rightarrow>
          if stop then Some (blocks, sent, False)
          else if a_used b = 0 then aofChildWriteDiffData stop ws bs sent
          else (case ws of
              [] \<Rightarrow> Some (blocks, sent, True)
            | w # ws \<Rightarrow>
                if w \<le> 0 then Some (blocks, sent, True)
                else do {
                  let n = min (nat w) (a_used b);
                  out \<leftarrow> mem_read (a_buf b) 0 n;
                  buf \<leftarrow> mem_move (a_buf b) 0 n (a_used b - n);
                  let b = b\<lparr>a_used := a_used b - n, a_buf := buf\<rparr>;
                  aofChildWriteDiffData stop ws (if a_used b = 0 then bs else b # bs) (sent @ out)
                }))"
  by pat_completeness auto
termination
  by (relation "measures [\<lambda>(stop, ws, blocks, sent). length ws, \<lambda>(stop, ws, blocks, sent). length blocks]") auto

declare aofChildWriteDiffData.simps [simp del]

text \<open>\<open>aofRewriteBufferWrite\<close>: the count, -1 after a short write, and the bytes written.\<close>

fun aofRewriteBufferWrite :: "int list \<Rightarrow> aofrwblock list \<Rightarrow> int \<Rightarrow> bytes \<Rightarrow> (int \<times> bytes) option" where
  "aofRewriteBufferWrite ws [] count sent = Some (count, sent)"
| "aofRewriteBufferWrite ws (b # bs) count sent =
     (if a_used b \<noteq> 0 then
        (case ws of
           [] \<Rightarrow> Some (- 1, sent)
         | w # ws \<Rightarrow> do {
             out \<leftarrow> mem_read (a_buf b) 0 (min (nat w) (a_used b));
             (if w \<noteq> int (a_used b) then Some (- 1, sent @ out)
              else aofRewriteBufferWrite ws bs (count + w) (sent @ out))
           })
      else aofRewriteBufferWrite ws bs count sent)"

subsection \<open>Logging a command\<close>

definition cat_header :: "(nat \<Rightarrow> byte) \<Rightarrow> sdshdr \<Rightarrow> byte \<Rightarrow> 64 word \<Rightarrow> sdshdr option" where
  "cat_header junk dst prefix v = do {
     (l, b) \<leftarrow> ll2string (map junk [0..<31]) 31 v;
     sdscatlen junk dst ([prefix] @ take l b @ [13, 10])
   }"

fun cat_args :: "(nat \<Rightarrow> byte) \<Rightarrow> nat \<Rightarrow> sdshdr \<Rightarrow> robj list \<Rightarrow> sdshdr option" where
  "cat_args junk clk dst [] = Some dst"
| "cat_args junk clk dst (a # as) = do {
     o1 \<leftarrow> getDecodedObject junk clk a;
     (case o_ptr o1 of
        PSds s \<Rightarrow> do {
          dst \<leftarrow> cat_header junk dst 36 (of_nat (sdslen s));
          t \<leftarrow> mem_read (s_buf s) 0 (sdslen s);
          dst \<leftarrow> sdscatlen junk dst t;
          dst \<leftarrow> sdscatlen junk dst [13, 10];
          decrRefCount o1;
          cat_args junk clk dst as
        }
      | _ \<Rightarrow> None)
   }"

definition catAppendOnlyGenericCommand :: "(nat \<Rightarrow> byte) \<Rightarrow> nat \<Rightarrow> sdshdr \<Rightarrow> robj list \<Rightarrow> sdshdr option" where
  "catAppendOnlyGenericCommand junk clk dst argv = do {
     dst \<leftarrow> cat_header junk dst 42 (of_nat (length argv));
     cat_args junk clk dst argv
   }"

datatype cmd_proc = expireProc | pexpireProc | expireatProc | setexProc | psetexProc | otherProc

text \<open>The time argument, as the code converts it: to milliseconds, then to an absolute time.\<close>

definition expire_when :: "cmd_proc \<Rightarrow> 64 word \<Rightarrow> 64 word \<Rightarrow> 64 word" where
  "expire_when proc mstime v = (
     let v = (if proc = expireProc \<or> proc = setexProc \<or> proc = expireatProc then v * 1000 else v)
     in if proc = expireProc \<or> proc = pexpireProc \<or> proc = setexProc \<or> proc = psetexProc then v + mstime else v)"

definition catAppendOnlyExpireAtCommand ::
  "(nat \<Rightarrow> byte) \<Rightarrow> nat \<Rightarrow> 64 word \<Rightarrow> robj list \<Rightarrow> sdshdr \<Rightarrow> cmd_proc \<Rightarrow> robj \<Rightarrow> robj \<Rightarrow> (robj list \<times> sdshdr) option" where
  "catAppendOnlyExpireAtCommand junk clk mstime integers buf proc key seconds = do {
     seconds \<leftarrow> getDecodedObject junk clk seconds;
     (case o_ptr seconds of
        PSds s \<Rightarrow> do {
          cs \<leftarrow> c_string (s_buf s);
          let v = expire_when proc mstime (word_of_int (fst (strtoll cs)));
          a0 \<leftarrow> createStringObject junk clk (Some (bytes_of_string ''PEXPIREAT'')) 9;
          (integers, a2) \<leftarrow> createStringObjectFromLongLong junk clk integers v;
          buf \<leftarrow> catAppendOnlyGenericCommand junk clk buf [a0, key, a2];
          Some (integers, buf)
        }
      | _ \<Rightarrow> None)
   }"

record aof_server =
  aof_selected_db :: int
  aof_on :: bool
  aof_child :: bool
  aof_buf :: sdshdr
  aof_blocks :: "aofrwblock list"
  shared_integers :: "robj list"

definition nth_arg :: "robj list \<Rightarrow> nat \<Rightarrow> robj option" where
  "nth_arg argv i = (if i < length argv then Some (argv ! i) else None)"

definition select_text :: "int \<Rightarrow> bytes" where
  "select_text dictid = (
     let seldb = int_repr dictid
     in bytes_of_string ''*2'' @ [13, 10] @ bytes_of_string ''$6'' @ [13, 10] @ bytes_of_string ''SELECT'' @ [13, 10] @
        [36] @ int_repr (int (length seldb)) @ [13, 10] @ seldb @ [13, 10])"

definition feedAppendOnlyFile ::
  "(nat \<Rightarrow> byte) \<Rightarrow> nat \<Rightarrow> 64 word \<Rightarrow> aof_server \<Rightarrow> cmd_proc \<Rightarrow> int \<Rightarrow> robj list \<Rightarrow> aof_server option" where
  "feedAppendOnlyFile junk clk mstime server proc dictid argv = do {
     buf \<leftarrow> sdsempty junk;
     (server, buf) \<leftarrow> (if dictid \<noteq> aof_selected_db server
        then do { buf \<leftarrow> sdscatlen junk buf (select_text dictid); Some (server\<lparr>aof_selected_db := dictid\<rparr>, buf) }
        else Some (server, buf));
     (integers, buf) \<leftarrow>
       (if proc = expireProc \<or> proc = pexpireProc \<or> proc = expireatProc then do {
          key \<leftarrow> nth_arg argv 1;
          seconds \<leftarrow> nth_arg argv 2;
          catAppendOnlyExpireAtCommand junk clk mstime (shared_integers server) buf proc key seconds
        } else if proc = setexProc \<or> proc = psetexProc then do {
          t0 \<leftarrow> createStringObject junk clk (Some (bytes_of_string ''SET'')) 3;
          key \<leftarrow> nth_arg argv 1;
          val \<leftarrow> nth_arg argv 3;
          buf \<leftarrow> catAppendOnlyGenericCommand junk clk buf [t0, key, val];
          seconds \<leftarrow> nth_arg argv 2;
          catAppendOnlyExpireAtCommand junk clk mstime (shared_integers server) buf proc key seconds
        } else do {
          buf \<leftarrow> catAppendOnlyGenericCommand junk clk buf argv;
          Some (shared_integers server, buf)
        });
     let server = server\<lparr>shared_integers := integers\<rparr>;
     t \<leftarrow> mem_read (s_buf buf) 0 (sdslen buf);
     server \<leftarrow> (if aof_on server then do { b \<leftarrow> sdscatlen junk (aof_buf server) t; Some (server\<lparr>aof_buf := b\<rparr>) } else Some server);
     (if aof_child server
      then do { blocks \<leftarrow> aofRewriteBufferAppend junk (aof_blocks server) t; Some (server\<lparr>aof_blocks := blocks\<rparr>) }
      else Some server)
   }"

section \<open>The rewrite buffer is a byte stream\<close>

definition blk_ok :: "aofrwblock \<Rightarrow> bool" where
  "blk_ok b \<longleftrightarrow> length (a_buf b) = AOF_RW_BUF_BLOCK_SIZE \<and> a_used b + a_free b \<le> AOF_RW_BUF_BLOCK_SIZE"

definition stored :: "aofrwblock list \<Rightarrow> bytes" where
  "stored bs = concat (map (\<lambda>b. take (a_used b) (a_buf b)) bs)"

text \<open>While the child runs, commands append to the buffer and the pipe becomes writable, in any order.  The second
  component of a \<open>Writable\<close> event are the return values of the successive calls of \<open>write\<close>.\<close>

datatype rewrite_event = Append bytes | Writable bool "int list"

fun rewrite_run :: "(nat \<Rightarrow> byte) \<Rightarrow> rewrite_event list \<Rightarrow> aofrwblock list \<Rightarrow> bytes \<Rightarrow> (aofrwblock list \<times> bytes) option" where
  "rewrite_run junk [] blocks sent = Some (blocks, sent)"
| "rewrite_run junk (Append s # es) blocks sent = do {
     blocks \<leftarrow> aofRewriteBufferAppend junk blocks s;
     rewrite_run junk es blocks sent
   }"
| "rewrite_run junk (Writable stop ws # es) blocks sent = do {
     (blocks, sent, _) \<leftarrow> aofChildWriteDiffData stop ws blocks sent;
     rewrite_run junk es blocks sent
   }"

fun appended_bytes :: "rewrite_event list \<Rightarrow> bytes" where
  "appended_bytes [] = []"
| "appended_bytes (Append s # es) = s @ appended_bytes es"
| "appended_bytes (Writable stop ws # es) = appended_bytes es"

text \<open>The return values of \<open>write\<close> when every call takes the whole block.\<close>

definition full_writes :: "aofrwblock list \<Rightarrow> int list" where
  "full_writes bs = map (\<lambda>b. int (a_used b)) (filter (\<lambda>b. a_used b \<noteq> 0) bs)"

lemma stored_simps [simp]: "stored [] = []" "stored (b # bs) = take (a_used b) (a_buf b) @ stored bs" "stored (bs @ bs') = stored bs @ stored bs'"
  by (simp_all add: stored_def)

lemma new_block_ok: "blk_ok (new_block junk) \<and> a_used (new_block junk) = 0 \<and> 0 < a_free (new_block junk)"
  by (simp add: blk_ok_def new_block_def AOF_RW_BUF_BLOCK_SIZE_def)

lemma fill_block_ok:
  assumes "blk_ok b"
  shows "\<exists>b' s'. fill_block b s = Some (b', s') \<and> blk_ok b' \<and> take (a_used b') (a_buf b') @ s' = take (a_used b) (a_buf b) @ s \<and>
    (0 < a_free b \<longrightarrow> s \<noteq> [] \<longrightarrow> length s' < length s) \<and> length s' \<le> length s"
proof -
  define n where "n = (if a_free b < length s then a_free b else length s)"
  have n: "n \<le> length s" "n \<le> a_free b" by (simp_all add: n_def)
  show ?thesis
  proof (cases "n = 0")
    case True
    moreover from True have "0 < a_free b \<Longrightarrow> s = []" by (auto simp: n_def split: if_splits)
    ultimately show ?thesis using assms by (auto simp: fill_block_def n_def[symmetric])
  next
    case False
    define buf where "buf = take (a_used b) (a_buf b) @ take n s @ drop (a_used b + n) (a_buf b)"
    have l: "length (a_buf b) = AOF_RW_BUF_BLOCK_SIZE" "a_used b + n \<le> AOF_RW_BUF_BLOCK_SIZE" using assms n by (simp_all add: blk_ok_def)
    have w: "mem_write (a_buf b) (a_used b) (take n s) = Some buf" using l n by (simp add: mem_write_def buf_def)
    have "take (a_used b + n) buf @ drop n s = take (a_used b) (a_buf b) @ s" using l n by (simp add: buf_def)
    moreover have "length buf = AOF_RW_BUF_BLOCK_SIZE" using l n by (simp add: buf_def)
    ultimately show ?thesis
      using False w n assms unfolding fill_block_def n_def[symmetric] Let_def by (simp add: blk_ok_def)
  qed
qed

lemma append_loop_ok:
  assumes "0 < a_free b" "blk_ok b" "list_all blk_ok bs"
  shows "\<exists>bs'. append_loop junk bs (Some b) s = Some bs' \<and> list_all blk_ok bs' \<and> stored bs' = stored bs @ take (a_used b) (a_buf b) @ s"
  using assms
proof (induction "length s" arbitrary: b bs s rule: less_induct)
  case less
  show ?case
  proof (cases "s = []")
    case True
    then show ?thesis using less.prems by (subst append_loop.simps) simp
  next
    case False
    obtain b' s' where f: "fill_block b s = Some (b', s')" "blk_ok b'" "take (a_used b') (a_buf b') @ s' = take (a_used b) (a_buf b) @ s" "length s' < length s"
      using fill_block_ok[OF less.prems(2), of s] less.prems(1) False by blast
    show ?thesis
    proof (cases "s' = []")
      case True
      then show ?thesis using f False less.prems(3) by (subst append_loop.simps) simp
    next
      case ne: False
      have "append_loop junk bs (Some b) s = append_loop junk (bs @ [b']) (Some (new_block junk)) s'"
        using f False ne by (subst append_loop.simps) simp
      then show ?thesis
        using less.hyps[OF f(4), of "new_block junk" "bs @ [b']"] new_block_ok[of junk] f(2,3) less.prems(3) by simp
    qed
  qed
qed

lemma append_ok:
  assumes "list_all blk_ok bs"
  shows "\<exists>bs'. aofRewriteBufferAppend junk bs s = Some bs' \<and> list_all blk_ok bs' \<and> stored bs' = stored bs @ s"
proof (cases "s = []")
  case True
  then show ?thesis using assms by (cases bs rule: rev_cases) (simp_all add: aofRewriteBufferAppend_def append_loop.simps)
next
  case False
  show ?thesis
  proof (cases bs rule: rev_cases)
    case Nil
    have "append_loop junk [] None s = append_loop junk [] (Some (new_block junk)) s" using False by (subst append_loop.simps) simp
    then show ?thesis using append_loop_ok[of "new_block junk" "[]" junk s] new_block_ok[of junk] Nil by (simp add: aofRewriteBufferAppend_def)
  next
    case (snoc i b)
    have b: "blk_ok b" "list_all blk_ok i" using assms snoc by simp_all
    obtain b' s' where f: "fill_block b s = Some (b', s')" "blk_ok b'" "take (a_used b') (a_buf b') @ s' = take (a_used b) (a_buf b) @ s"
      using fill_block_ok[OF b(1), of s] by blast
    have "aofRewriteBufferAppend junk bs s = (if s' \<noteq> [] then append_loop junk (i @ [b']) (Some (new_block junk)) s' else Some (i @ [b']))"
      unfolding aofRewriteBufferAppend_def snoc using f False by (subst append_loop.simps) simp
    then show ?thesis
      using append_loop_ok[of "new_block junk" "i @ [b']" junk s'] new_block_ok[of junk] f(2,3) b snoc by (cases "s' = []") auto
  qed
qed

lemma child_write_ok:
  assumes "list_all blk_ok bs"
  shows "\<exists>bs' out ev. aofChildWriteDiffData stop ws bs sent = Some (bs', sent @ out, ev) \<and> list_all blk_ok bs' \<and> out @ stored bs' = stored bs"
  using assms
proof (induction stop ws bs sent rule: aofChildWriteDiffData.induct)
  case (1 stop ws blocks sent)
  show ?case
  proof (cases blocks)
    case Nil
    then show ?thesis by (subst aofChildWriteDiffData.simps) auto
  next
    case (Cons b bs)
    have ok: "blk_ok b" "list_all blk_ok bs" using "1.prems" Cons by simp_all
    consider "stop" | "\<not> stop" "a_used b = 0" | "\<not> stop" "a_used b \<noteq> 0" "ws = [] \<or> hd ws \<le> 0"
      | w ws' where "\<not> stop" "a_used b \<noteq> 0" "ws = w # ws'" "0 < w" by (cases ws) force+
    then show ?thesis
    proof cases
      case 1
      then show ?thesis using Cons "1.prems" by (subst aofChildWriteDiffData.simps) auto
    next
      case 2
      then show ?thesis using "1.IH"(1)[OF Cons 2(1,2) ok(2)] Cons by (subst aofChildWriteDiffData.simps) simp
    next
      case 3
      then show ?thesis using Cons "1.prems" by (subst aofChildWriteDiffData.simps) (cases ws; auto)
    next
      case 4
      define n where "n = min (nat w) (a_used b)"
      define buf where "buf = drop n (take (a_used b) (a_buf b)) @ drop (a_used b - n) (a_buf b)"
      define b' where "b' = b\<lparr>a_used := a_used b - n, a_buf := buf\<rparr>"
      have l: "length (a_buf b) = AOF_RW_BUF_BLOCK_SIZE" "a_used b \<le> AOF_RW_BUF_BLOCK_SIZE" "n \<le> a_used b"
        using ok(1) by (simp_all add: blk_ok_def n_def)
      have r: "mem_read (a_buf b) 0 n = Some (take n (a_buf b))" using l by (simp add: mem_read_def)
      have m: "mem_move (a_buf b) 0 n (a_used b - n) = Some buf"
        using l by (simp add: mem_move_def mem_read_def mem_write_def buf_def drop_take)
      have b': "blk_ok b'" "take n (a_buf b) @ take (a_used b') (a_buf b') = take (a_used b) (a_buf b)"
        using l ok(1) by (auto simp: b'_def buf_def blk_ok_def min_def drop_take take_add[symmetric])
      let ?bs = "if a_used b' = 0 then bs else b' # bs"
      have st: "list_all blk_ok ?bs" "take n (a_buf b) @ stored ?bs = stored blocks"
        using b' ok(2) Cons by (auto simp flip: append_assoc)
      have "aofChildWriteDiffData stop ws blocks sent = aofChildWriteDiffData stop ws' ?bs (sent @ take n (a_buf b))"
        using 4 Cons r m by (subst aofChildWriteDiffData.simps) (simp add: n_def[symmetric] b'_def Let_def)
      moreover obtain bs' out ev where "aofChildWriteDiffData stop ws' ?bs (sent @ take n (a_buf b)) = Some (bs', (sent @ take n (a_buf b)) @ out, ev)"
        "list_all blk_ok bs'" "out @ stored bs' = stored ?bs"
        using "1.IH"(2)[OF Cons 4(1,2,3) _ n_def r m b'_def st(1)] 4(4) by auto
      ultimately show ?thesis using st(2) by (intro exI[of _ bs'] exI[of _ "take n (a_buf b) @ out"] exI[of _ ev]) simp
    qed
  qed
qed

interpretation rewrite_sink: byte_sink "aofRewriteBufferAppend junk" "\<lambda>s. s" "\<lambda>_. True" stored "\<lambda>_. True" "list_all blk_ok" for junk
  using append_ok by unfold_locales auto

lemma buffer_size_stored: "list_all blk_ok bs \<Longrightarrow> aofRewriteBufferSize bs = length (stored bs)"
  by (induction bs) (auto simp: blk_ok_def)

lemma full_writes_write:
  assumes "list_all blk_ok bs"
  shows "aofRewriteBufferWrite (full_writes bs) bs count sent = Some (count + int (length (stored bs)), sent @ stored bs)"
  using assms by (induction bs arbitrary: count sent) (auto simp: full_writes_def blk_ok_def mem_read_def)

lemma rewrite_run_ok:
  assumes "list_all blk_ok bs"
  shows "\<exists>bs' sent'. rewrite_run junk es bs sent = Some (bs', sent') \<and> list_all blk_ok bs' \<and>
    sent' @ stored bs' = sent @ stored bs @ appended_bytes es"
  using assms
proof (induction junk es bs sent rule: rewrite_run.induct)
  case (1 junk bs sent)
  then show ?case by simp
next
  case (2 junk s es bs sent)
  obtain bs1 where "aofRewriteBufferAppend junk bs s = Some bs1" "list_all blk_ok bs1" "stored bs1 = stored bs @ s"
    using append_ok[OF "2.prems", of junk s] by blast
  then show ?case using "2.IH"[of bs1] by auto
next
  case (3 junk stop ws es bs sent)
  obtain bs1 out ev where w: "aofChildWriteDiffData stop ws bs sent = Some (bs1, sent @ out, ev)" "list_all blk_ok bs1"
    "out @ stored bs1 = stored bs" using child_write_ok[OF "3.prems", of stop ws sent] by blast
  obtain bs' sent' where "rewrite_run junk es bs1 (sent @ out) = Some (bs', sent')" "list_all blk_ok bs'"
    "sent' @ stored bs' = (sent @ out) @ stored bs1 @ appended_bytes es"
    using "3.IH"[OF w(1) refl refl w(2)] by blast
  then show ?case using w by (simp add: w(3)[symmetric])
qed

section \<open>Logged commands\<close>

lemma cat_text:
  assumes "sds_ok s" "length (sds_text s) + length t < 2 ^ 32 - 2 ^ 20"
  shows "\<exists>s'. sdscatlen junk s t = Some s' \<and> sds_ok s' \<and> sds_text s' = sds_text s @ t"
  using catlen_ok[OF assms(1), of t junk] assms(2) sds_okD(3)[OF assms(1)] by simp

lemma cat_header_ok:
  assumes "sds_ok dst" "length (sds_text dst @ [p] @ int_repr (sint v) @ [13, 10]) < 2 ^ 32 - 2 ^ 20"
  shows "\<exists>d. cat_header junk dst p v = Some d \<and> sds_ok d \<and> sds_text d = sds_text dst @ [p] @ int_repr (sint v) @ [13, 10]"
proof -
  have "ll2string (map junk [0..<31]) 31 v = Some (length (int_repr (sint v)), int_repr (sint v) @ [0] @ drop (Suc (length (int_repr (sint v)))) (map junk [0..<31]))"
    using length_int_repr_ll[of v] by (simp add: ll2string_eq Let_def)
  then have "cat_header junk dst p v = sdscatlen junk dst ([p] @ int_repr (sint v) @ [13, 10])" by (simp add: cat_header_def)
  then show ?thesis using cat_text[OF assms(1), of "[p] @ int_repr (sint v) @ [13, 10]" junk] assms(2) by simp
qed

lemma cat_args_ok:
  assumes "sds_ok dst" "list_all obj_ok argv" "length (sds_text dst @ concat (map (bulk \<circ> obj_text) argv)) < 2 ^ 32 - 2 ^ 20"
  shows "\<exists>d. cat_args junk clk dst argv = Some d \<and> sds_ok d \<and> sds_text d = sds_text dst @ concat (map (bulk \<circ> obj_text) argv)"
  using assms
proof (induction argv arbitrary: dst)
  case (Cons a as)
  let ?t = "obj_text a"
  let ?h = "[36] @ int_repr (int (length ?t)) @ [13, 10]"
  obtain o1 s r where o1: "getDecodedObject junk clk a = Some o1" "o_ptr o1 = PSds s" "sds_ok s" "sds_text s = ?t" "decrRefCount o1 = Some r"
    using decoded_any[of a junk clk] Cons.prems(2) by auto
  have tot: "length (sds_text dst @ ?h @ ?t @ [13, 10]) < 2 ^ 32 - 2 ^ 20" using Cons.prems(3) by (simp add: bulk_def bulk_header_def)
  have len: "sdslen s = length ?t" using sds_okD(3)[OF o1(3)] o1(4) by (simp add: sdslen_def)
  have si: "sint (of_nat (sdslen s) :: 64 word) = int (length ?t)" unfolding len by (rule sint_of_length) (use tot in simp)
  obtain d1 where d1: "cat_header junk dst 36 (of_nat (sdslen s)) = Some d1" "sds_ok d1" "sds_text d1 = sds_text dst @ ?h"
    using cat_header_ok[OF Cons.prems(1), of 36 "of_nat (sdslen s)" junk] tot unfolding si by auto
  obtain d2 where d2: "sdscatlen junk d1 ?t = Some d2" "sds_ok d2" "sds_text d2 = sds_text d1 @ ?t"
    using cat_text[OF d1(2), of ?t junk] d1(3) tot by auto
  obtain d3 where d3: "sdscatlen junk d2 [13, 10] = Some d3" "sds_ok d3" "sds_text d3 = sds_text d2 @ [13, 10]"
    using cat_text[OF d2(2), of "[13, 10]" junk] d1(3) d2(3) tot by auto
  have "sds_text d3 = sds_text dst @ bulk ?t" using d1(3) d2(3) d3(3) by (simp add: bulk_def bulk_header_def)
  moreover have "cat_args junk clk dst (a # as) = cat_args junk clk d3 as"
    using o1 d1(1) d2(1) d3(1) sds_bytes[OF o1(3)] by simp
  ultimately show ?case using Cons.IH[OF d3(2)] Cons.prems(2,3) by simp
qed simp

lemma cat_command_ok:
  assumes "sds_ok dst" "list_all obj_ok argv" "length argv < 2 ^ 63"
    "length (sds_text dst @ request (map obj_text argv)) < 2 ^ 32 - 2 ^ 20"
  shows "\<exists>d. catAppendOnlyGenericCommand junk clk dst argv = Some d \<and> sds_ok d \<and> sds_text d = sds_text dst @ request (map obj_text argv)"
proof -
  let ?h = "[42] @ int_repr (int (length argv)) @ [13, 10]"
  have tot: "length (sds_text dst @ ?h @ concat (map (bulk \<circ> obj_text) argv)) < 2 ^ 32 - 2 ^ 20" using assms(4) by (simp add: request_def)
  note si = sint_of_length[OF assms(3)]
  obtain d1 where d1: "cat_header junk dst 42 (of_nat (length argv)) = Some d1" "sds_ok d1" "sds_text d1 = sds_text dst @ ?h"
    using cat_header_ok[OF assms(1), of 42 "of_nat (length argv)" junk] tot unfolding si by auto
  then show ?thesis using cat_args_ok[OF d1(2) assms(2), of junk clk] tot
    by (auto simp: catAppendOnlyGenericCommand_def request_def)
qed

lemma literal_ok:
  assumes "length t \<le> 39" "n = length t"
  shows "\<exists>o1. createStringObject junk clk (Some t) n = Some o1 \<and> obj_ok o1 \<and> obj_text o1 = t"
  using string_ok[of n "Some t" junk clk] assms by simp

lemma cat_expire_ok:
  assumes "sds_ok buf" "obj_ok key" "obj_ok seconds" "obj_text seconds = int_repr (sint x)" "shared_ok integers"
    "length (sds_text buf @ request [bytes_of_string ''PEXPIREAT'', obj_text key, int_repr (sint (expire_when proc mstime x))]) < 2 ^ 32 - 2 ^ 20"
  shows "\<exists>sh d. catAppendOnlyExpireAtCommand junk clk mstime integers buf proc key seconds = Some (sh, d) \<and> shared_ok sh \<and> sds_ok d \<and>
    sds_text d = sds_text buf @ request [bytes_of_string ''PEXPIREAT'', obj_text key, int_repr (sint (expire_when proc mstime x))]"
proof -
  obtain o1 s r where o1: "getDecodedObject junk clk seconds = Some o1" "o_ptr o1 = PSds s" "sds_ok s" "sds_text s = int_repr (sint x)"
    using decoded_any[OF assms(3), of junk clk] assms(4) by auto
  have cs: "c_string (s_buf s) = Some (int_repr (sint x))" using sds_c_string[OF o1(3)] o1(4) by (simp add: int_repr_no_null)
  have st: "word_of_int (fst (strtoll (int_repr (sint x)))) = x" by (simp add: strtoll_int_repr)
  obtain a0 where a0: "createStringObject junk clk (Some (bytes_of_string ''PEXPIREAT'')) 9 = Some a0" "obj_ok a0" "obj_text a0 = bytes_of_string ''PEXPIREAT''"
    using literal_ok[of "bytes_of_string ''PEXPIREAT''" 9 junk clk] by (auto simp: bytes_of_string_def)
  obtain sh a2 where a2: "createStringObjectFromLongLong junk clk integers (expire_when proc mstime x) = Some (sh, a2)" "shared_ok sh" "obj_ok a2"
    "obj_text a2 = int_repr (sint (expire_when proc mstime x))"
    using fromLongLong_ok[OF assms(5), of junk clk "expire_when proc mstime x"] by blast
  obtain d where "catAppendOnlyGenericCommand junk clk buf [a0, key, a2] = Some d" "sds_ok d"
    "sds_text d = sds_text buf @ request [bytes_of_string ''PEXPIREAT'', obj_text key, int_repr (sint (expire_when proc mstime x))]"
    using cat_command_ok[OF assms(1), of "[a0, key, a2]" junk clk] assms(2,6) a0 a2 by auto
  then show ?thesis unfolding catAppendOnlyExpireAtCommand_def using o1 cs st a0(1) a2 by (simp add: Let_def)
qed

text \<open>What is logged for a command: the requests, given the arguments and the value \<open>x\<close> of the time argument.  This follows the
  branches of the code; what the requests mean is the subject of \<open>Redis_Replay\<close>.\<close>

definition aof_commands :: "cmd_proc \<Rightarrow> 64 word \<Rightarrow> 64 word \<Rightarrow> bytes list \<Rightarrow> bytes list list" where
  "aof_commands proc now x args = (
     let expire = [bytes_of_string ''PEXPIREAT'', args ! 1, int_repr (sint (expire_when proc now x))]
     in case proc of
          setexProc \<Rightarrow> [[bytes_of_string ''SET'', args ! 1, args ! 3], expire]
        | psetexProc \<Rightarrow> [[bytes_of_string ''SET'', args ! 1, args ! 3], expire]
        | otherProc \<Rightarrow> [args]
        | _ \<Rightarrow> [expire])"

definition aof_text :: "int \<Rightarrow> int \<Rightarrow> bytes list list \<Rightarrow> bytes" where
  "aof_text selected dictid cmds =
     concat (map request ((if dictid \<noteq> selected then [[bytes_of_string ''SELECT'', int_repr dictid]] else []) @ cmds))"

definition well_formed_call :: "cmd_proc \<Rightarrow> 64 word \<Rightarrow> robj list \<Rightarrow> bool" where
  "well_formed_call proc x argv \<longleftrightarrow> list_all obj_ok argv \<and> length argv \<le> 1024 * 1024 \<and>
     (proc \<noteq> otherProc \<longrightarrow> length argv \<ge> (if proc = setexProc \<or> proc = psetexProc then 4 else 3) \<and> obj_text (argv ! 2) = int_repr (sint x))"

definition aof_ok :: "aof_server \<Rightarrow> bool" where
  "aof_ok server \<longleftrightarrow> sds_ok (aof_buf server) \<and> list_all blk_ok (aof_blocks server) \<and> shared_ok (shared_integers server)"

lemma select_text_request: "select_text dictid = request [bytes_of_string ''SELECT'', int_repr dictid]"
  by (simp add: select_text_def request_def bulk_def bulk_header_def bytes_of_string_def int_repr_def[of 2] int_repr_def[of 6] dec_repr.simps Let_def)

text \<open>The commands logged into a fresh string, by kind.\<close>

lemma logged_ok:
  assumes "sds_ok buf" "well_formed_call proc x argv" "shared_ok integers"
    "length (sds_text buf @ concat (map request (aof_commands proc now x (map obj_text argv)))) < 2 ^ 32 - 2 ^ 20"
  shows "\<exists>sh d. (if proc = expireProc \<or> proc = pexpireProc \<or> proc = expireatProc then do {
          key \<leftarrow> nth_arg argv 1;
          seconds \<leftarrow> nth_arg argv 2;
          catAppendOnlyExpireAtCommand junk clk now integers buf proc key seconds
        } else if proc = setexProc \<or> proc = psetexProc then do {
          t0 \<leftarrow> createStringObject junk clk (Some (bytes_of_string ''SET'')) 3;
          key \<leftarrow> nth_arg argv 1;
          val \<leftarrow> nth_arg argv 3;
          buf \<leftarrow> catAppendOnlyGenericCommand junk clk buf [t0, key, val];
          seconds \<leftarrow> nth_arg argv 2;
          catAppendOnlyExpireAtCommand junk clk now integers buf proc key seconds
        } else do {
          buf \<leftarrow> catAppendOnlyGenericCommand junk clk buf argv;
          Some (integers, buf)
        }) = Some (sh, d) \<and> shared_ok sh \<and> sds_ok d \<and> sds_text d = sds_text buf @ concat (map request (aof_commands proc now x (map obj_text argv)))"
proof -
  have all: "obj_ok (argv ! i)" if "i < length argv" for i using assms(2) that by (simp add: well_formed_call_def list_all_length)
  consider "proc = expireProc \<or> proc = pexpireProc \<or> proc = expireatProc" | "proc = setexProc \<or> proc = psetexProc" | "proc = otherProc"
    by (cases proc) auto
  then show ?thesis
  proof cases
    case 1
    then have l: "3 \<le> length argv" "obj_text (argv ! 2) = int_repr (sint x)" using assms(2) by (auto simp: well_formed_call_def)
    have c: "aof_commands proc now x (map obj_text argv) = [[bytes_of_string ''PEXPIREAT'', obj_text (argv ! 1), int_repr (sint (expire_when proc now x))]]"
      using 1 l(1) by (auto simp: aof_commands_def)
    show ?thesis
      using cat_expire_ok[OF assms(1) all[of 1] all[of 2] l(2) assms(3), of proc now junk clk] 1 l(1) assms(4) unfolding c by (simp add: nth_arg_def)
  next
    case 2
    then have l: "4 \<le> length argv" "obj_text (argv ! 2) = int_repr (sint x)" using assms(2) by (auto simp: well_formed_call_def)
    let ?set = "[bytes_of_string ''SET'', obj_text (argv ! 1), obj_text (argv ! 3)]"
    have c: "aof_commands proc now x (map obj_text argv) = [?set, [bytes_of_string ''PEXPIREAT'', obj_text (argv ! 1), int_repr (sint (expire_when proc now x))]]"
      using 2 l(1) by (auto simp: aof_commands_def)
    obtain t0 where t0: "createStringObject junk clk (Some (bytes_of_string ''SET'')) 3 = Some t0" "obj_ok t0" "obj_text t0 = bytes_of_string ''SET''"
      using literal_ok[of "bytes_of_string ''SET''" 3 junk clk] by (auto simp: bytes_of_string_def)
    obtain d1 where d1: "catAppendOnlyGenericCommand junk clk buf [t0, argv ! 1, argv ! 3] = Some d1" "sds_ok d1" "sds_text d1 = sds_text buf @ request ?set"
      using cat_command_ok[OF assms(1), of "[t0, argv ! 1, argv ! 3]" junk clk] assms(4) t0 all[of 1] all[of 3] l(1) unfolding c by auto
    show ?thesis
      using cat_expire_ok[OF d1(2) all[of 1] all[of 2] l(2) assms(3), of proc now junk clk] 2 l(1) assms(4) t0(1) d1 unfolding c by (auto simp: nth_arg_def)
  next
    case 3
    then have c: "aof_commands proc now x (map obj_text argv) = [map obj_text argv]" by (simp add: aof_commands_def)
    show ?thesis using cat_command_ok[OF assms(1), of argv junk clk] assms(2-4) 3 unfolding c by (auto simp: well_formed_call_def)
  qed
qed

lemma empty_ok: "\<exists>s. sdsempty junk = Some s \<and> sds_ok s \<and> sds_text s = []"
  using newlen_ok[of 0 "Some []" junk] by (auto simp: sdsempty_def)

lemma feed_ok:
  fixes server dictid proc now x argv
  defines "t \<equiv> aof_text (aof_selected_db server) dictid (aof_commands proc now x (map obj_text argv))"
  assumes "aof_ok server" "well_formed_call proc x argv" "length (sds_text (aof_buf server)) + length t < 2 ^ 32 - 2 ^ 20"
  shows "\<exists>sv. feedAppendOnlyFile junk clk now server proc dictid argv = Some sv \<and> aof_ok sv \<and>
    aof_selected_db sv = dictid \<and> aof_on sv = aof_on server \<and> aof_child sv = aof_child server \<and>
    sds_text (aof_buf sv) = sds_text (aof_buf server) @ (if aof_on server then t else []) \<and>
    stored (aof_blocks sv) = stored (aof_blocks server) @ (if aof_child server then t else [])"
proof -
  let ?cmds = "concat (map request (aof_commands proc now x (map obj_text argv)))"
  define sel where "sel = (if dictid \<noteq> aof_selected_db server then select_text dictid else [])"
  have t: "t = sel @ ?cmds" by (simp add: t_def aof_text_def sel_def select_text_request)
  define sv1 where "sv1 = server\<lparr>aof_selected_db := dictid\<rparr>"
  obtain e where e: "sdsempty junk = Some e" "sds_ok e" "sds_text e = []" using empty_ok by blast
  obtain b1 where b1: "(if dictid \<noteq> aof_selected_db server
        then do { buf \<leftarrow> sdscatlen junk e (select_text dictid); Some (server\<lparr>aof_selected_db := dictid\<rparr>, buf) }
        else Some (server, e)) = Some (sv1, b1)" "sds_ok b1" "sds_text b1 = sel"
    using cat_text[OF e(2), of "select_text dictid" junk] assms(4) e t by (auto simp: sv1_def sel_def split: if_splits)
  have ok1: "aof_ok sv1" using assms(2) by (simp add: aof_ok_def sv1_def)
  have len: "length (sds_text b1 @ ?cmds) < 2 ^ 32 - 2 ^ 20" using assms(4) b1(3) t by simp
  obtain sh b2 where b2: "shared_ok sh" "sds_ok b2" "sds_text b2 = t" and call: "(if proc = expireProc \<or> proc = pexpireProc \<or> proc = expireatProc then do {
          key \<leftarrow> nth_arg argv 1;
          seconds \<leftarrow> nth_arg argv 2;
          catAppendOnlyExpireAtCommand junk clk now (shared_integers sv1) b1 proc key seconds
        } else if proc = setexProc \<or> proc = psetexProc then do {
          t0 \<leftarrow> createStringObject junk clk (Some (bytes_of_string ''SET'')) 3;
          key \<leftarrow> nth_arg argv 1;
          val \<leftarrow> nth_arg argv 3;
          buf \<leftarrow> catAppendOnlyGenericCommand junk clk b1 [t0, key, val];
          seconds \<leftarrow> nth_arg argv 2;
          catAppendOnlyExpireAtCommand junk clk now (shared_integers sv1) buf proc key seconds
        } else do {
          buf \<leftarrow> catAppendOnlyGenericCommand junk clk b1 argv;
          Some (shared_integers sv1, buf)
        }) = Some (sh, b2)"
    using logged_ok[OF b1(2) assms(3) _ len, of "shared_integers sv1" junk clk] ok1 b1(3) t unfolding aof_ok_def by auto
  define sv2 where "sv2 = sv1\<lparr>shared_integers := sh\<rparr>"
  obtain c where c: "sdscatlen junk (aof_buf server) t = Some c" "sds_ok c" "sds_text c = sds_text (aof_buf server) @ t"
    using cat_text[of "aof_buf server" t junk] assms(2,4) by (auto simp: aof_ok_def)
  obtain bl where bl: "aofRewriteBufferAppend junk (aof_blocks server) t = Some bl" "list_all blk_ok bl" "stored bl = stored (aof_blocks server) @ t"
    using append_ok[of "aof_blocks server" junk t] assms(2) by (auto simp: aof_ok_def)
  have "feedAppendOnlyFile junk clk now server proc dictid argv =
    do { sv \<leftarrow> (if aof_on sv2 then do { b \<leftarrow> sdscatlen junk (aof_buf sv2) t; Some (sv2\<lparr>aof_buf := b\<rparr>) } else Some sv2);
         (if aof_child sv then do { blocks \<leftarrow> aofRewriteBufferAppend junk (aof_blocks sv) t; Some (sv\<lparr>aof_blocks := blocks\<rparr>) } else Some sv) }"
    unfolding feedAppendOnlyFile_def e(1) Option.bind.bind_lunit b1(1) prod.case call Let_def sv2_def[symmetric]
      sds_bytes[OF b2(2)] b2(3) ..
  then show ?thesis using c bl b2(1) assms(2)
    by (cases "aof_on server"; cases "aof_child server") (simp_all add: sv2_def sv1_def aof_ok_def)
qed

section \<open>Properties\<close>

text \<open>C19. The rewrite buffer loses, repeats and reorders nothing: however appends and (partial) writes to the pipe
  interleave while the child runs, the bytes the child received followed by the bytes still buffered are the bytes
  appended; when the child is done, the parent's final write of the buffer writes exactly the buffered bytes, whose
  number is the reported size of the buffer.\<close>

theorem rewrite_buffer_lossless:
  assumes "list_all blk_ok bs"
  shows "\<exists>bs' sent. rewrite_run junk es bs [] = Some (bs', sent) \<and>
    sent @ stored bs' = stored bs @ appended_bytes es \<and>
    aofRewriteBufferWrite (full_writes bs') bs' 0 [] = Some (int (aofRewriteBufferSize bs'), stored bs')"
proof -
  obtain bs' sent where "rewrite_run junk es bs [] = Some (bs', sent)" "list_all blk_ok bs'" "sent @ stored bs' = stored bs @ appended_bytes es"
    using rewrite_run_ok[OF assms, of junk es "[]"] by auto
  then show ?thesis by (simp add: full_writes_write buffer_size_stored)
qed

theorem rewrite_buffer_lossless_witness:
  "\<exists>bs' sent. rewrite_run (\<lambda>_. 7) [Append [1, 2, 3], Writable False [2], Append [4], Writable False [9]] aofRewriteBufferReset [] = Some (bs', sent) \<and>
    sent @ stored bs' = [1, 2, 3, 4]"
  using rewrite_buffer_lossless[of aofRewriteBufferReset "\<lambda>_. 7" "[Append [1, 2, 3], Writable False [2], Append [4], Writable False [9]]"]
  by (auto simp: aofRewriteBufferReset_def)

end
