(* ===== verification/Redis_AofLoad.thy ===== *)
theory Redis_AofLoad
  imports Redis_Aof
begin

text \<open>
  \<open>aof.c\<close>: replaying the append-only log at startup.

  An open file is the bytes not read yet and the end-of-file indicator of \<open>stdio\<close>; reads fail only at the end of
  the file.  \<open>fgets\<close> and \<open>fread\<close> are modelled as the C standard defines them.  The command table is an argument: it
  maps a command name to the effect of its implementation on the fake client.  The fake client has the fields that
  the loader reads back, and the data set.  \<open>truncate\<close> and \<open>lseek\<close> succeed or fail as two arguments say.  A failed
  assertion, or an argument length that is negative (an allocation that cannot succeed), is \<open>None\<close>; \<open>exit\<close> is a result.
  Serving clients while loading, logging and the statistics are not modelled.

  The main result is crash consistency: whatever prefix of the log is on disk, loading it executes exactly the
  commands that are complete there, and with \<open>aof-load-truncated\<close> leaves exactly those in the file.
\<close>

section \<open>The code\<close>

record aof_file =
  fp_rest :: bytes
  fp_eof :: bool

definition fgets :: "nat \<Rightarrow> aof_file \<Rightarrow> bytes option \<times> aof_file" where
  "fgets sz fp = (
     let chunk = take (sz - 1) (fp_rest fp);
         line = takeWhile (\<lambda>c. c \<noteq> 10) chunk @ (if 10 \<in> set chunk then [10] else [])
     in if fp_rest fp = [] then (None, fp\<lparr>fp_eof := True\<rparr>)
        else (Some line, \<lparr>fp_rest = drop (length line) (fp_rest fp),
                          fp_eof = (fp_eof fp \<or> (10 \<notin> set chunk \<and> length (fp_rest fp) < sz - 1))\<rparr>))"

definition fread :: "nat \<Rightarrow> aof_file \<Rightarrow> bytes option \<times> aof_file" where
  "fread n fp =
     (if length (fp_rest fp) < n then (None, \<lparr>fp_rest = [], fp_eof = True\<rparr>)
      else (Some (take n (fp_rest fp)), fp\<lparr>fp_rest := drop n (fp_rest fp)\<rparr>))"

definition c_str :: "bytes \<Rightarrow> bytes" where
  "c_str buf = takeWhile (\<lambda>c. c \<noteq> 0) buf"

definition atoi :: "bytes \<Rightarrow> int" where
  "atoi s = sint (word_of_int (fst (strtoll s)) :: 32 word)"

record 's fake_client =
  f_argv :: "robj list"
  f_bufpos :: nat
  f_replies :: nat
  f_blocked :: bool
  f_multi :: bool
  f_db :: 's

definition createFakeClient :: "'s \<Rightarrow> 's fake_client" where
  "createFakeClient db = \<lparr>f_argv = [], f_bufpos = 0, f_replies = 0, f_blocked = False, f_multi = False, f_db = db\<rparr>"

fun freeFakeClientArgv :: "robj list \<Rightarrow> unit option" where
  "freeFakeClientArgv [] = Some ()"
| "freeFakeClientArgv (a # as) = do { decrRefCount a; freeFakeClientArgv as }"

datatype load_end = AtEof | ReadErr | FmtErr | UnknownCommand

text \<open>The loop over the arguments of a command.\<close>

fun load_args :: "(nat \<Rightarrow> byte) \<Rightarrow> nat \<Rightarrow> nat \<Rightarrow> aof_file \<Rightarrow> robj list \<Rightarrow> ((load_end + robj list) \<times> aof_file) option" where
  "load_args junk clk 0 fp argv = Some (Inr argv, fp)"
| "load_args junk clk (Suc n) fp argv =
     (case fgets 128 fp of
        (None, fp) \<Rightarrow> do { freeFakeClientArgv argv; Some (Inl ReadErr, fp) }
      | (Some buf, fp) \<Rightarrow>
          if chr buf 0 \<noteq> 36 then Some (Inl FmtErr, fp)
          else let len = fst (strtoll (c_str (tl buf))) in
            if len < 0 then None
            else do {
              s \<leftarrow> sdsnewlen junk None (nat len);
              (case (if len \<noteq> 0 then fread (nat len) fp else (Some [], fp)) of
                 (None, fp) \<Rightarrow> do { freeFakeClientArgv argv; Some (Inl ReadErr, fp) }
               | (Some bs, fp) \<Rightarrow> do {
                   b \<leftarrow> mem_write (s_buf s) 0 bs;
                   let argv = argv @ [createObject REDIS_STRING (PSds (s\<lparr>s_buf := b\<rparr>)) clk];
                   (case fread 2 fp of
                      (None, fp) \<Rightarrow> do { freeFakeClientArgv argv; Some (Inl ReadErr, fp) }
                    | (Some _, fp) \<Rightarrow> load_args junk clk n fp argv)
                 })
            })"

lemma fgets_shorter: "fgets sz fp = (Some buf, fp') \<Longrightarrow> 1 < sz \<Longrightarrow> length (fp_rest fp') < length (fp_rest fp)"
  by (cases "fp_rest fp") (auto simp: fgets_def Let_def gr0_conv_Suc split: if_splits dest!: less_imp_Suc_add)

lemma fread_shorter: "fread n fp = (r, fp') \<Longrightarrow> length (fp_rest fp') \<le> length (fp_rest fp)"
  by (auto simp: fread_def split: if_splits)

lemma load_args_shorter: "load_args junk clk n fp argv = Some (r, fp') \<Longrightarrow> length (fp_rest fp') \<le> length (fp_rest fp)"
  by (induction n arbitrary: fp argv)
    (force simp: Let_def fgets_def split: prod.splits option.splits if_splits Option.bind_splits
      dest!: fgets_shorter fread_shorter)+

text \<open>The main loop.  The last number is the offset of the end of the last complete command.\<close>

function load_loop ::
  "(bytes \<Rightarrow> ('s fake_client \<Rightarrow> 's fake_client) option) \<Rightarrow> bool \<Rightarrow> (nat \<Rightarrow> byte) \<Rightarrow> nat \<Rightarrow> nat \<Rightarrow> 's fake_client \<Rightarrow> aof_file \<Rightarrow> nat \<Rightarrow>
   (load_end \<times> 's fake_client \<times> aof_file \<times> nat) option" where
  "load_loop lookupCommand load_truncated junk clk flen c fp valid_up_to =
     (case fgets 128 fp of
        (None, fp) \<Rightarrow> Some (if fp_eof fp then AtEof else ReadErr, c, fp, valid_up_to)
      | (Some buf, fp) \<Rightarrow>
          if chr buf 0 \<noteq> 42 then Some (FmtErr, c, fp, valid_up_to)
          else if chr buf 1 = 0 then Some (ReadErr, c, fp, valid_up_to)
          else if atoi (c_str (tl buf)) < 1 then Some (FmtErr, c, fp, valid_up_to)
          else do {
            (r, fp) \<leftarrow> load_args junk clk (nat (atoi (c_str (tl buf)))) fp [];
            (case r of
               Inl e \<Rightarrow> Some (e, c, fp, valid_up_to)
             | Inr argv \<Rightarrow>
                 (case lookupCommand (obj_text (argv ! 0)) of
                    None \<Rightarrow> Some (UnknownCommand, c, fp, valid_up_to)
                  | Some proc \<Rightarrow>
                      let c = proc (c\<lparr>f_argv := argv\<rparr>) in
                      if \<not> (f_bufpos c = 0 \<and> f_replies c = 0) then None
                      else if f_blocked c then None
                      else do {
                        freeFakeClientArgv (f_argv c);
                        load_loop lookupCommand load_truncated junk clk flen c fp
                          (if load_truncated then flen - length (fp_rest fp) else valid_up_to)
                      }))
          })"
  by pat_completeness auto
termination
  by (relation "measure (\<lambda>(_, _, _, _, _, _, fp, _). length (fp_rest fp))")
    (auto dest!: load_args_shorter fgets_shorter[OF sym])

declare load_loop.simps [simp del]

datatype 's load_result = LoadErr | LoadOk 's bytes | LoadExit

text \<open>\<open>loadAppendOnlyFile\<close>: the file is \<open>None\<close> when it cannot be opened.  \<open>LoadErr\<close> is the empty file; \<open>LoadOk\<close> has
  the data set and what the file holds afterwards.\<close>

definition loadAppendOnlyFile ::
  "(bytes \<Rightarrow> ('s fake_client \<Rightarrow> 's fake_client) option) \<Rightarrow> bool \<Rightarrow> bool \<Rightarrow> bool \<Rightarrow> (nat \<Rightarrow> byte) \<Rightarrow> nat \<Rightarrow> 's \<Rightarrow> bytes option \<Rightarrow>
   's load_result option" where
  "loadAppendOnlyFile lookupCommand load_truncated truncate_ok lseek_ok junk clk db file =
     (case file of
        None \<Rightarrow> Some LoadExit
      | Some content \<Rightarrow>
          if content = [] then Some LoadErr
          else do {
            (e, c, fp, valid_up_to) \<leftarrow> load_loop lookupCommand load_truncated junk clk (length content)
               (createFakeClient db) \<lparr>fp_rest = content, fp_eof = False\<rparr> 0;
            let uxeof = (if load_truncated \<and> truncate_ok \<and> lseek_ok then LoadOk (f_db c) (take valid_up_to content) else LoadExit);
            Some (case e of
                AtEof \<Rightarrow> if f_multi c then uxeof else LoadOk (f_db c) content
              | ReadErr \<Rightarrow> if \<not> fp_eof fp then LoadExit else uxeof
              | FmtErr \<Rightarrow> LoadExit
              | UnknownCommand \<Rightarrow> LoadExit)
          })"

section \<open>Reading headers\<close>

text \<open>A prefix of a concatenation either ends inside the first part or covers it.\<close>

lemma cut_short: "p @ q = h @ t \<Longrightarrow> length p < length h \<Longrightarrow> \<exists>q'. p @ q' = h \<and> q' \<noteq> []"
  by (auto simp: append_eq_append_conv2)

lemma cut_long: "p @ q = h @ t \<Longrightarrow> length h \<le> length p \<Longrightarrow> p = h @ drop (length h) p \<and> drop (length h) p @ q = t"
  by (auto simp: append_eq_append_conv2)

lemma fgets_line:
  assumes "fp_rest fp = l @ [10] @ r" "10 \<notin> set l" "length l < 126"
  shows "fgets 128 fp = (Some (l @ [10]), fp\<lparr>fp_rest := r\<rparr>)"
proof -
  have "take 127 (fp_rest fp) = l @ [10] @ take (126 - length l) r" using assms by (simp add: take_Cons' Suc_diff_Suc)
  moreover have "takeWhile (\<lambda>c. c \<noteq> 10) (l @ [10] @ r') = l" for r' using assms(2) by (induction l) auto
  ultimately show ?thesis using assms by (simp add: fgets_def)
qed

lemma fgets_cut:
  assumes "fp_rest fp \<noteq> []" "10 \<notin> set (fp_rest fp)" "length (fp_rest fp) < 127"
  shows "fgets 128 fp = (Some (fp_rest fp), \<lparr>fp_rest = [], fp_eof = True\<rparr>)"
proof -
  have tw: "takeWhile (\<lambda>c. c \<noteq> 10) (fp_rest fp) = fp_rest fp" using assms(2) by (auto simp only: takeWhile_eq_all_conv)
  show ?thesis using assms by (simp add: fgets_def tw)
qed

lemma fgets_end: "fp_rest fp = [] \<Longrightarrow> fgets 128 fp = (None, fp\<lparr>fp_eof := True\<rparr>)"
  by (simp add: fgets_def)

lemma strtoll_digits:
  assumes "list_all is_digit ds" "ds \<noteq> []" "\<not> is_digit (chr r 0)" "dec_fold 0 ds < 2 ^ 63"
  shows "fst (strtoll (ds @ r)) = int (dec_fold 0 ds)"
proof -
  have d: "is_digit (hd ds)" using assms(1,2) by (cases ds) auto
  then have h: "chr (ds @ r) 0 = hd ds" "\<not> isspace (hd ds)" "hd ds \<noteq> 45" "hd ds \<noteq> 43"
    using assms(2) digits_not_special[of "hd ds"] by (auto simp: chr_def nth_append hd_conv_nth)
  have w: "dropWhile isspace (ds @ r) = ds @ r" using h(2) assms(2) by (cases ds) auto
  have t: "takeWhile is_digit (ds @ r) = ds"
    using assms(1,3) by (cases r) (auto simp: takeWhile_append list_all_iff chr_def)
  show ?thesis unfolding strtoll_def w Let_def h(1) using h t assms(2,4) by simp
qed

lemma strtoll_nonneg: "chr (dropWhile isspace s) 0 \<noteq> 45 \<Longrightarrow> 0 \<le> fst (strtoll s)"
  by (simp add: strtoll_def Let_def)

lemma header_number:
  assumes "n < 2 ^ 63"
  shows "fst (strtoll (c_str (int_repr (int n) @ [13, 10]))) = int n"
proof -
  have r: "int_repr (int n) = dec_repr n" by (simp add: int_repr_def)
  have "c_str (dec_repr n @ [13, 10]) = dec_repr n @ [13, 10]"
    using int_repr_chars[of _ "int n"] by (auto simp: c_str_def r takeWhile_eq_all_conv)
  then show ?thesis using strtoll_digits[of "dec_repr n" "[13, 10]"] dec_repr_props[of n] assms
    by (simp add: r chr_def is_digit_def)
qed

lemma fgets_header:
  assumes "fp_rest fp = [p] @ int_repr (int n) @ [13, 10] @ r" "n < 2 ^ 63" "p \<noteq> 10"
  shows "fgets 128 fp = (Some (p # int_repr (int n) @ [13, 10]), fp\<lparr>fp_rest := r\<rparr>)"
  using fgets_line[of fp "[p] @ int_repr (int n) @ [13]" r] assms int_repr_chars[of 10 "int n"] length_int_repr_small[of "int n"] by auto

text \<open>A header that is cut short: it is read up to the end of the file, and its number is not negative.\<close>

lemma fgets_header_cut:
  assumes "fp_rest fp @ q = [p] @ int_repr (int n) @ [13, 10]" "q \<noteq> []" "fp_rest fp \<noteq> []" "n < 2 ^ 63" "p \<noteq> 10"
  shows "\<exists>ds. fp_rest fp = p # ds \<and> fgets 128 fp = (Some (p # ds), \<lparr>fp_rest = [], fp_eof = True\<rparr>) \<and> 0 \<le> fst (strtoll (c_str ds)) \<and> (ds = [] \<or> chr ds 0 \<noteq> 0)"
proof -
  obtain ds where f: "fp_rest fp = p # ds" "ds @ q = int_repr (int n) @ [13, 10]" using assms(1,3) by (cases "fp_rest fp") auto
  obtain q' c where q: "q = q' @ [c]" using assms(2) by (cases q rule: rev_cases) auto
  then have "(ds @ q') @ [c] = (int_repr (int n) @ [13]) @ [10]" using f(2) by simp
  then have q': "ds @ q' = int_repr (int n) @ [13]" by (metis butlast_snoc)
  have sub: "set ds \<subseteq> set (int_repr (int n)) \<union> {13}" using arg_cong[OF q', of set] by auto
  have no: "10 \<notin> set (p # ds)" using sub int_repr_chars[of 10 "int n"] assms(5) by auto
  have len: "length (p # ds) < 127" using arg_cong[OF q', of length] length_int_repr_small[of "int n"] assms(4) by auto
  have nz: "0 \<notin> set ds" using sub int_repr_chars[of 0 "int n"] by auto
  then have c: "c_str ds = ds" by (auto simp: c_str_def takeWhile_eq_all_conv)
  have "45 \<notin> set (int_repr (int n))" using dec_repr_props[of n] by (auto simp: int_repr_def list_all_iff is_digit_def)
  then have "45 \<notin> set (dropWhile isspace ds)" using sub by (auto dest: set_dropWhileD)
  then have "chr (dropWhile isspace ds) 0 \<noteq> 45" by (cases "dropWhile isspace ds") (auto simp: chr_def)
  moreover have "ds = [] \<or> chr ds 0 \<noteq> 0" using nz by (cases ds) (auto simp: chr_def)
  ultimately show ?thesis using fgets_cut[of fp] f(1) no len c strtoll_nonneg by auto
qed

section \<open>Reading the arguments\<close>

lemma free_argv_ok: "list_all obj_ok argv \<Longrightarrow> freeFakeClientArgv argv = Some ()"
  by (induction argv) (auto dest!: decrRef_ok)

lemma zero_string:
  "sdsnewlen junk None n = Some \<lparr>s_len = n mod 2 ^ 32, s_free = 0, s_buf = replicate (n + 1) 0\<rparr>"
proof -
  have "(replicate (Suc n) (0 :: byte))[n := 0] = replicate (Suc n) 0" using list_update_id[of "replicate (Suc n) (0 :: byte)" n] by (simp only: nth_replicate lessI)
  then show ?thesis by (simp add: sdsnewlen_def store_in Let_def del: replicate_Suc)
qed

definition arg_obj :: "nat \<Rightarrow> bytes \<Rightarrow> robj" where
  "arg_obj clk a = createObject REDIS_STRING (PSds \<lparr>s_len = length a, s_free = 0, s_buf = a @ [0]\<rparr>) clk"

lemma arg_obj_text [simp]: "obj_text (arg_obj clk a) = a"
  by (simp add: arg_obj_def obj_text_def createObject_def sds_text_def)

lemma arg_obj_ok: "length a < 2 ^ 32 \<Longrightarrow> obj_ok (arg_obj clk a)"
  by (simp add: arg_obj_def obj_ok_def createObject_def sds_ok_def nth_append)

text \<open>One argument whose header is complete: what its data and the line end that follows it do.\<close>

lemma load_arg_data:
  assumes "fp_rest fp = bulk_header (length a) @ r" "length a \<le> 512 * 1024 * 1024" "list_all obj_ok argv"
  shows "load_args junk clk (Suc n) fp argv =
    (if length r < length a + 2 then Some (Inl ReadErr, \<lparr>fp_rest = [], fp_eof = True\<rparr>)
     else if take (length a) r = a then load_args junk clk n (fp\<lparr>fp_rest := drop (length a + 2) r\<rparr>) (argv @ [arg_obj clk a])
     else load_args junk clk (Suc n) fp argv)"
proof (cases "length r < length a + 2 \<or> take (length a) r = a")
  case True
  let ?n = "length a"
  have f: "fgets 128 fp = (Some (36 # int_repr (int ?n) @ [13, 10]), fp\<lparr>fp_rest := r\<rparr>)"
    using fgets_header[of fp 36 ?n r] assms(1,2) by (simp add: bulk_header_def)
  have h: "fst (strtoll (c_str (int_repr (int ?n) @ [13, 10]))) = int ?n" using assms(2) by (intro header_number) simp
  have m: "?n mod 2 ^ 32 = ?n" "?n mod 4294967296 = ?n" using assms(2) by simp_all
  have w: "mem_write (replicate (?n + 1) 0) 0 b = Some (b @ [0])" if "length b = ?n" for b :: bytes
    using that by (simp add: mem_write_def flip: replicate_append_same)
  have ok: "list_all obj_ok (argv @ [arg_obj clk b])" if "length b = ?n" for b
    using assms(2,3) arg_obj_ok[of b clk] that by simp
  have e: "load_args junk clk (Suc n) fp argv =
    (case (if ?n \<noteq> 0 then fread ?n (fp\<lparr>fp_rest := r\<rparr>) else (Some [], fp\<lparr>fp_rest := r\<rparr>)) of
       (None, fp) \<Rightarrow> Some (Inl ReadErr, fp)
     | (Some bs, fp) \<Rightarrow> do {
         b \<leftarrow> mem_write (replicate (?n + 1) 0) 0 bs;
         let argv = argv @ [createObject REDIS_STRING (PSds (\<lparr>s_len = ?n, s_free = 0, s_buf = b\<rparr>)) clk];
         (case fread 2 fp of
            (None, fp) \<Rightarrow> do { freeFakeClientArgv argv; Some (Inl ReadErr, fp) }
          | (Some _, fp) \<Rightarrow> load_args junk clk n fp argv)
       })"
    by (simp add: f h chr_def zero_string m free_argv_ok[OF assms(3)] del: replicate_Suc split: prod.split option.split)
  show ?thesis
  proof (cases "length r < ?n")
    case True
    then show ?thesis unfolding e by (cases "?n = 0") (simp_all add: fread_def)
  next
    case False
    define b where "b = take ?n r"
    have b: "length b = ?n" using False by (simp add: b_def)
    have "(if ?n \<noteq> 0 then fread ?n (fp\<lparr>fp_rest := r\<rparr>) else (Some [], fp\<lparr>fp_rest := r\<rparr>)) = (Some b, fp\<lparr>fp_rest := drop ?n r\<rparr>)"
      using False by (simp add: fread_def b_def)
    then have "load_args junk clk (Suc n) fp argv = (case fread 2 (fp\<lparr>fp_rest := drop ?n r\<rparr>) of
            (None, fp) \<Rightarrow> Some (Inl ReadErr, fp)
          | (Some _, fp) \<Rightarrow> load_args junk clk n fp (argv @ [arg_obj clk b]))"
      unfolding e using w[OF b] free_argv_ok[OF ok[OF b]] b
      by (simp add: arg_obj_def del: replicate_Suc split: prod.split option.split)
    then show ?thesis using True False by (auto simp: fread_def b_def add.commute)
  qed
qed simp

lemma load_args_ok:
  assumes "fp_rest fp = concat (map bulk args) @ r" "list_all (\<lambda>a. length a \<le> 512 * 1024 * 1024) args" "list_all obj_ok argv"
  shows "load_args junk clk (length args) fp argv = Some (Inr (argv @ map (arg_obj clk) args), fp\<lparr>fp_rest := r\<rparr>)"
  using assms
proof (induction args arbitrary: fp argv)
  case Nil
  then show ?case by (cases fp) simp
next
  case (Cons a args)
  let ?r = "a @ [13, 10] @ concat (map bulk args) @ r"
  have "load_args junk clk (Suc (length args)) fp argv =
      load_args junk clk (length args) (fp\<lparr>fp_rest := drop (length a + 2) ?r\<rparr>) (argv @ [arg_obj clk a])"
    using load_arg_data[of fp a ?r argv junk clk "length args"] Cons.prems by (simp add: bulk_def[of a] del: load_args.simps)
  then show ?case using Cons.IH[of "fp\<lparr>fp_rest := concat (map bulk args) @ r\<rparr>" "argv @ [arg_obj clk a]"] Cons.prems arg_obj_ok[of a clk]
    by (simp del: load_args.simps)
qed

lemma load_args_end: "fp_rest fp = [] \<Longrightarrow> list_all obj_ok argv \<Longrightarrow> load_args junk clk (Suc n) fp argv = Some (Inl ReadErr, fp\<lparr>fp_eof := True\<rparr>)"
  by (simp add: fgets_end free_argv_ok)

text \<open>Arguments that are cut short by the end of the file: a read error with the end-of-file indicator set.\<close>

lemma load_args_cut:
  assumes "fp_rest fp @ q = concat (map bulk args)" "q \<noteq> []" "list_all (\<lambda>a. length a \<le> 512 * 1024 * 1024) args" "list_all obj_ok argv"
  shows "\<exists>fp'. load_args junk clk (length args) fp argv = Some (Inl ReadErr, fp') \<and> fp_eof fp'"
  using assms
proof (induction args arbitrary: fp argv)
  case (Cons a args)
  let ?h = "bulk_header (length a)" and ?rest = "a @ [13, 10] @ concat (map bulk args)"
  have e: "fp_rest fp @ q = ?h @ ?rest" using Cons.prems(1) by (simp add: bulk_def[of a])
  have la: "length a \<le> 512 * 1024 * 1024" using Cons.prems(3) by simp
  show ?case
  proof (cases "length (fp_rest fp) < length ?h")
    case True
    then obtain q' where q': "fp_rest fp @ q' = ?h" "q' \<noteq> []" using cut_short[OF e] by blast
    show ?thesis
    proof (cases "fp_rest fp = []")
      case True
      then show ?thesis using load_args_end[OF True Cons.prems(4)] by (simp del: load_args.simps)
    next
      case False
      then obtain ds where d: "fgets 128 fp = (Some (36 # ds), \<lparr>fp_rest = [], fp_eof = True\<rparr>)" "0 \<le> fst (strtoll (c_str ds))"
        using fgets_header_cut[of fp q' 36 "length a"] q' la by (auto simp: bulk_header_def)
      define s where "s = \<lparr>s_len = 0, s_free = 0, s_buf = [0 :: byte]\<rparr>"
      have ok: "list_all obj_ok (argv @ [createObject REDIS_STRING (PSds s) clk])"
        using Cons.prems(4) arg_obj_ok[of "[]" clk] by (simp add: s_def arg_obj_def)
      show ?thesis using d free_argv_ok[OF Cons.prems(4)] free_argv_ok[OF ok]
        by (cases "fst (strtoll (c_str ds)) = 0") (simp_all add: chr_def zero_string fread_def mem_write_def s_def)
    qed
  next
    case False
    define r where "r = drop (length ?h) (fp_rest fp)"
    have r: "fp_rest fp = ?h @ r" "r @ q = ?rest" using cut_long[OF e] False by (simp_all add: r_def)
    show ?thesis
    proof (cases "length r < length a + 2")
      case True
      then show ?thesis using load_arg_data[OF r(1) la Cons.prems(4), of junk clk "length args"] by (simp del: load_args.simps)
    next
      case False
      have l: "r = (a @ [13, 10]) @ drop (length a + 2) r" "drop (length a + 2) r @ q = concat (map bulk args)"
        using cut_long[of r q "a @ [13, 10]" "concat (map bulk args)"] r(2) False by simp_all
      have t: "take (length a) r = a" "drop (length a + 2) r @ q = concat (map bulk args)"
        using arg_cong[OF l(1), of "take (length a)"] l(2) by simp_all
      have "load_args junk clk (Suc (length args)) fp argv =
          load_args junk clk (length args) (fp\<lparr>fp_rest := drop (length a + 2) r\<rparr>) (argv @ [arg_obj clk a])"
        using load_arg_data[OF r(1) la Cons.prems(4), of junk clk "length args"] False t(1) by (simp del: load_args.simps)
      moreover have "list_all obj_ok (argv @ [arg_obj clk a])" using Cons.prems(4) arg_obj_ok[of a clk] la by simp
      ultimately show ?thesis using Cons.IH[of "fp\<lparr>fp_rest := drop (length a + 2) r\<rparr>" "argv @ [arg_obj clk a]"] t(2) Cons.prems(2,3)
        by (simp del: load_args.simps)
    qed
  qed
qed simp

section \<open>Reading the commands\<close>

text \<open>What the loader relies on: the command table knows the commands, and executing one does not reply or block and
  changes the transaction flag and the data set as \<open>step\<close> says.\<close>

definition quiet :: "'s fake_client \<Rightarrow> bool" where
  "quiet c \<longleftrightarrow> f_bufpos c = 0 \<and> f_replies c = 0 \<and> \<not> f_blocked c"

definition fake_state :: "'s fake_client \<Rightarrow> bool \<times> 's" where
  "fake_state c = (f_multi c, f_db c)"

definition executes ::
  "(bytes \<Rightarrow> ('s fake_client \<Rightarrow> 's fake_client) option) \<Rightarrow> (bool \<times> 's \<Rightarrow> bytes list \<Rightarrow> bool \<times> 's) \<Rightarrow> bytes list \<Rightarrow> bool" where
  "executes lookupCommand step args \<longleftrightarrow> (case lookupCommand (hd args) of
     None \<Rightarrow> False
   | Some proc \<Rightarrow> \<forall>c. map obj_text (f_argv c) = args \<longrightarrow> list_all obj_ok (f_argv c) \<longrightarrow> quiet c \<longrightarrow>
       quiet (proc c) \<and> list_all obj_ok (f_argv (proc c)) \<and> fake_state (proc c) = step (fake_state c) args)"

lemma count_header:
  assumes "n < 2 ^ 31"
  shows "atoi (c_str (int_repr (int n) @ [13, 10])) = int n" "chr (42 # int_repr (int n) @ [13, 10]) 1 \<noteq> 0"
proof -
  have "fst (strtoll (c_str (int_repr (int n) @ [13, 10]))) = int n" using assms by (intro header_number) simp
  then show "atoi (c_str (int_repr (int n) @ [13, 10])) = int n" using assms using sint_word_of_int_32[of "int n"] by (simp add: atoi_def)
  show "chr (42 # int_repr (int n) @ [13, 10]) 1 \<noteq> 0"
    using int_repr_chars[of "hd (int_repr (int n))" "int n"] dec_repr_props[of n] by (cases "int_repr (int n)") (auto simp: chr_def int_repr_def)
qed

text \<open>The count of a request that is cut inside its first line still reads as a positive number.\<close>

lemma cut_count:
  assumes "(42 # ds) @ q = [42] @ int_repr (int n) @ [13, 10]" "q \<noteq> []" "ds \<noteq> []" "0 < n" "n < 2 ^ 31"
  shows "\<exists>k. atoi (c_str ds) = int (Suc k)"
proof -
  have r: "int_repr (int n) = dec_repr n" by (simp add: int_repr_def)
  obtain q' x where q: "q = q' @ [x]" using assms(2) by (cases q rule: rev_cases) auto
  have "(ds @ q') @ [x] = (dec_repr n @ [13]) @ [10]" using assms(1) q r by simp
  then have e: "ds @ q' = dec_repr n @ [13]" by (metis butlast_snoc)
  have nz: "c_str ds = ds"
  proof -
    have "0 \<notin> set (ds @ q')" unfolding e using int_repr_chars[of 0 "int n"] r by auto
    then show ?thesis by (auto simp: c_str_def takeWhile_eq_all_conv)
  qed
  note p = dec_repr_props[of n]
  have "\<exists>m. 0 < m \<and> m \<le> n \<and> fst (strtoll ds) = int m"
  proof (cases "length ds \<le> length (dec_repr n)")
    case True
    then obtain t where t: "dec_repr n = ds @ t" using cut_long[OF e[symmetric]] by metis
    have "list_all is_digit ds" "hd ds \<noteq> 48" using p assms(3,4) unfolding t by auto
    moreover have "dec_fold 0 ds \<le> n"
      using p dec_fold_ge[of "dec_fold 0 ds" t] unfolding t by (simp add: dec_fold_def)
    ultimately show ?thesis using dec_repr_dec_fold[of ds] strtoll_digits[of ds "[]"] assms(3,5) by (auto simp: chr_def is_digit_def)
  next
    case False
    then have "ds = dec_repr n @ [13]" using arg_cong[OF e, of length] e by (cases q') auto
    then show ?thesis using strtoll_digits[of "dec_repr n" "[13]"] p assms(4,5) by (auto simp: chr_def is_digit_def)
  qed
  then obtain m where "0 < m" "m \<le> n" "fst (strtoll ds) = int m" by blast
  then show ?thesis using assms(5) sint_word_of_int_32[of "int m"] unfolding nz atoi_def by (auto intro: exI[of _ "m - 1"])
qed

lemma load_loop_command:
  assumes "fp_rest fp = request args @ r" "acceptable args" "executes lookupCommand step args" "quiet c"
  shows "\<exists>c'. load_loop lookupCommand tr junk clk flen c fp v =
      load_loop lookupCommand tr junk clk flen c' (fp\<lparr>fp_rest := r\<rparr>) (if tr then flen - length r else v) \<and>
    quiet c' \<and> fake_state c' = step (fake_state c) args"
proof -
  let ?n = "length args"
  obtain proc where p: "lookupCommand (hd args) = Some proc"
    "\<And>c. map obj_text (f_argv c) = args \<Longrightarrow> list_all obj_ok (f_argv c) \<Longrightarrow> quiet c \<Longrightarrow>
       quiet (proc c) \<and> list_all obj_ok (f_argv (proc c)) \<and> fake_state (proc c) = step (fake_state c) args"
    using assms(3) by (auto simp: executes_def split: option.splits)
  have n: "?n < 2 ^ 31" "args \<noteq> []" using assms(2) by (auto simp: acceptable_def)
  have f: "fgets 128 fp = (Some (42 # int_repr (int ?n) @ [13, 10]), fp\<lparr>fp_rest := concat (map bulk args) @ r\<rparr>)"
    using fgets_header[of fp 42 ?n "concat (map bulk args) @ r"] assms(1) n by (simp add: request_def)
  note i = count_header(1)[OF n(1)] and z = count_header(2)[OF n(1)]
  have a: "load_args junk clk ?n (fp\<lparr>fp_rest := concat (map bulk args) @ r\<rparr>) [] = Some (Inr (map (arg_obj clk) args), fp\<lparr>fp_rest := r\<rparr>)"
    using load_args_ok[of "fp\<lparr>fp_rest := concat (map bulk args) @ r\<rparr>" args r "[]" junk clk] assms(2) by (simp add: acceptable_def)
  let ?c = "proc (c\<lparr>f_argv := map (arg_obj clk) args\<rparr>)"
  have "list_all obj_ok (map (arg_obj clk) args)" using assms(2) by (auto simp: acceptable_def list_all_iff intro!: arg_obj_ok)
  then have c: "quiet ?c" "list_all obj_ok (f_argv ?c)" "fake_state ?c = step (fake_state c) args"
    using p(2)[of "c\<lparr>f_argv := map (arg_obj clk) args\<rparr>"] assms(4) by (simp_all add: quiet_def fake_state_def comp_def)
  have "load_loop lookupCommand tr junk clk flen c fp v =
      load_loop lookupCommand tr junk clk flen ?c (fp\<lparr>fp_rest := r\<rparr>) (if tr then flen - length r else v)"
    using f i z a n(2) p(1) c(1) free_argv_ok[OF c(2)]
    by (subst load_loop.simps) (simp add: chr_def quiet_def hd_conv_nth Let_def)
  then show ?thesis using c by blast
qed

lemma load_loop_commands:
  assumes "fp_rest fp = concat (map request cmds) @ r" "list_all acceptable cmds" "list_all (executes lookupCommand step) cmds" "quiet c"
  shows "\<exists>c'. load_loop lookupCommand tr junk clk flen c fp v =
      load_loop lookupCommand tr junk clk flen c' (fp\<lparr>fp_rest := r\<rparr>) (if tr \<and> cmds \<noteq> [] then flen - length r else v) \<and>
    quiet c' \<and> fake_state c' = foldl step (fake_state c) cmds"
  using assms
proof (induction cmds arbitrary: c fp v)
  case Nil
  then show ?case by (cases fp) auto
next
  case (Cons a cmds)
  obtain c1 where c1: "load_loop lookupCommand tr junk clk flen c fp v = load_loop lookupCommand tr junk clk flen c1
      (fp\<lparr>fp_rest := concat (map request cmds) @ r\<rparr>) (if tr then flen - length (concat (map request cmds) @ r) else v)"
    "quiet c1" "fake_state c1 = step (fake_state c) a"
    using load_loop_command[of fp a "concat (map request cmds) @ r" lookupCommand step c tr junk clk flen v] Cons.prems by auto
  show ?case
    using Cons.IH[of "fp\<lparr>fp_rest := concat (map request cmds) @ r\<rparr>" c1 "if tr then flen - length (concat (map request cmds) @ r) else v"]
      Cons.prems c1 by (cases "cmds = []") auto
qed

lemma load_loop_end: "fp_rest fp = [] \<Longrightarrow> load_loop lookupCommand tr junk clk flen c fp v = Some (AtEof, c, fp\<lparr>fp_eof := True\<rparr>, v)"
  by (subst load_loop.simps) (simp add: fgets_end)

lemma load_loop_cut:
  assumes "fp_rest fp @ q = request args" "q \<noteq> []" "fp_rest fp \<noteq> []" "acceptable args"
  shows "\<exists>fp'. load_loop lookupCommand tr junk clk flen c fp v = Some (ReadErr, c, fp', v) \<and> fp_eof fp'"
proof -
  let ?n = "length args" and ?h = "[42] @ int_repr (int (length args)) @ [13, 10]"
  have n: "?n < 2 ^ 31" "0 < ?n" using assms(4) by (auto simp: acceptable_def)
  have e: "fp_rest fp @ q = ?h @ concat (map bulk args)" using assms(1) by (simp add: request_def)
  show ?thesis
  proof (cases "length (fp_rest fp) < length ?h")
    case True
    then obtain q' where q': "fp_rest fp @ q' = ?h" "q' \<noteq> []"
      using cut_short[OF e] by blast
    obtain ds where d: "fgets 128 fp = (Some (42 # ds), \<lparr>fp_rest = [], fp_eof = True\<rparr>)" "fp_rest fp = 42 # ds" "ds = [] \<or> chr ds 0 \<noteq> 0"
      using fgets_header_cut[of fp q' 42 ?n] q' n assms(3) by auto
    show ?thesis
    proof (cases "ds = []")
      case True
      then show ?thesis using d by (subst load_loop.simps) (simp add: chr_def)
    next
      case False
      then obtain k where k: "atoi (c_str ds) = int (Suc k)" using cut_count[of ds q' ?n] d(2) q' n by auto
      have "load_loop lookupCommand tr junk clk flen c fp v = Some (ReadErr, c, \<lparr>fp_rest = [], fp_eof = True\<rparr>, v)"
        using d False k load_args_end[of "\<lparr>fp_rest = [], fp_eof = True\<rparr>" "[]" junk clk k]
        by (subst load_loop.simps) (simp add: chr_def nat_add_distrib del: load_args.simps)
      then show ?thesis by simp
    qed
  next
    case False
    define r where "r = drop (length ?h) (fp_rest fp)"
    have r: "fp_rest fp = ?h @ r" "r @ q = concat (map bulk args)" using cut_long[OF e] False by (simp_all add: r_def)
    have f: "fgets 128 fp = (Some (42 # int_repr (int ?n) @ [13, 10]), fp\<lparr>fp_rest := r\<rparr>)"
      using fgets_header[of fp 42 ?n r] r(1) n by simp
    obtain fp' where a: "load_args junk clk ?n (fp\<lparr>fp_rest := r\<rparr>) [] = Some (Inl ReadErr, fp')" "fp_eof fp'"
      using load_args_cut[of "fp\<lparr>fp_rest := r\<rparr>" q args "[]" junk clk] r(2) assms(2,4) by (auto simp: acceptable_def)
    have "load_loop lookupCommand tr junk clk flen c fp v = Some (ReadErr, c, fp', v)"
      using f a count_header[OF n(1)] n(2) by (subst load_loop.simps) (simp add: chr_def)
    then show ?thesis using a(2) by blast
  qed
qed

text \<open>A command table for examples: every command is appended to the data set.\<close>

definition record_command :: "bytes \<Rightarrow> (bytes list list fake_client \<Rightarrow> bytes list list fake_client) option" where
  "record_command name = Some (\<lambda>c. c\<lparr>f_db := f_db c @ [map obj_text (f_argv c)]\<rparr>)"

lemma record_command_executes: "executes record_command (\<lambda>(m, db) a. (m, db @ [a])) args"
  by (simp add: executes_def record_command_def quiet_def fake_state_def)

lemma load_ok:
  fixes step lookupCommand db cmds
  defines "st \<equiv> foldl step (False, db) cmds"
  assumes "list_all acceptable cmds" "list_all (executes lookupCommand step) cmds"
    "acceptable args" "p @ q = request args" "q \<noteq> []" "concat (map request cmds) @ p \<noteq> []"
  shows "loadAppendOnlyFile lookupCommand tr truncate_ok lseek_ok junk clk db (Some (concat (map request cmds) @ p)) =
    Some (if p = [] \<and> \<not> fst st then LoadOk (snd st) (concat (map request cmds))
          else if tr \<and> truncate_ok \<and> lseek_ok then LoadOk (snd st) (concat (map request cmds)) else LoadExit)"
proof -
  let ?log = "concat (map request cmds)" and ?fp = "\<lparr>fp_rest = concat (map request cmds) @ p, fp_eof = False\<rparr>"
  define v where "v = (if tr \<and> cmds \<noteq> [] then length (?log @ p) - length p else 0)"
  obtain c where c: "load_loop lookupCommand tr junk clk (length (?log @ p)) (createFakeClient db) ?fp 0 =
      load_loop lookupCommand tr junk clk (length (?log @ p)) c \<lparr>fp_rest = p, fp_eof = False\<rparr> v" "(f_multi c, f_db c) = st"
    using load_loop_commands[of ?fp cmds p lookupCommand step "createFakeClient db" tr junk clk "length (?log @ p)" 0] assms(2,3)
    by (auto simp: createFakeClient_def quiet_def fake_state_def st_def v_def)
  have st: "fst st = f_multi c" "snd st = f_db c" using c(2) by (metis fst_conv, metis snd_conv)
  have t: "take v (?log @ p) = ?log" if tr using that by (cases "cmds = []") (auto simp: v_def)
  show ?thesis
  proof (cases "p = []")
    case True
    have "load_loop lookupCommand tr junk clk (length (?log @ p)) (createFakeClient db) ?fp 0 = Some (AtEof, c, \<lparr>fp_rest = [], fp_eof = True\<rparr>, v)"
      unfolding c(1) using True load_loop_end[of "\<lparr>fp_rest = [], fp_eof = False\<rparr>"] by simp
    then show ?thesis using assms(7) t True st by (simp add: loadAppendOnlyFile_def)
  next
    case False
    obtain fp' where "load_loop lookupCommand tr junk clk (length (?log @ p)) c \<lparr>fp_rest = p, fp_eof = False\<rparr> v = Some (ReadErr, c, fp', v)" "fp_eof fp'"
      using load_loop_cut[of "\<lparr>fp_rest = p, fp_eof = False\<rparr>" q args lookupCommand tr junk clk "length (?log @ p)" c v] assms(4-6) False by auto
    then show ?thesis using c(1) assms(7) t False st by (simp add: loadAppendOnlyFile_def)
  qed
qed

section \<open>Properties\<close>

text \<open>C10. Crash consistency of the log: let the file hold the requests of any commands followed by a proper prefix,
  possibly empty, of one more request, and let the command table execute those commands.  Loading it executes
  exactly the complete commands, in order.  When nothing follows them and no transaction is open the file is left as
  it is; otherwise, with \<open>aof-load-truncated\<close> and when the file can be truncated, exactly the complete commands are
  left in the file, and without it the server exits.  (So a transaction left open by the crash stays open in the
  file.)\<close>

theorem load_after_crash:
  assumes "list_all acceptable cmds" "list_all (executes lookupCommand step) cmds"
    "acceptable args" "p @ q = request args" "q \<noteq> []" "concat (map request cmds) @ p \<noteq> []"
  shows "loadAppendOnlyFile lookupCommand load_truncated truncate_ok lseek_ok junk clk db (Some (concat (map request cmds) @ p)) =
    (let (multi, db') = foldl step (False, db) cmds;
         loaded = LoadOk db' (concat (map request cmds))
     in Some (if p = [] \<and> \<not> multi then loaded else if load_truncated \<and> truncate_ok \<and> lseek_ok then loaded else LoadExit))"
  using load_ok[OF assms] by (simp add: split_beta Let_def)

theorem load_after_crash_witness:
  "loadAppendOnlyFile record_command True True True (\<lambda>_. 0) 0 []
     (Some [42, 49, 13, 10, 36, 50, 13, 10, 72, 73, 13, 10, 42, 49, 13, 10, 36, 50, 13, 10, 72]) =
   Some (LoadOk [[[72, 73]]] [42, 49, 13, 10, 36, 50, 13, 10, 72, 73, 13, 10])"
  using load_after_crash[of "[[[72, 73]]]" record_command "\<lambda>(m, db) a. (m, db @ [a])" "[[72, 73]]" "[42, 49, 13, 10, 36, 50, 13, 10, 72]" "[73, 13, 10]"
      True True True "\<lambda>_. 0" 0 "[]"]
  by (simp add: record_command_executes acceptable_def request_def bulk_def bulk_header_def int_repr_def dec_repr.simps)

end
