(* ===== verification/Redis_Db.thy ===== *)
theory Redis_Db
  imports Redis_Dict Redis_Reply
begin

text \<open>
  \<open>db.c\<close>: the keyspace of a database - lookups, updates and deletions of keys, their expire times, and the commands
  on keys of any type.

  A database is the two hash tables of \<open>dict.c\<close>: keys to objects and keys to expire times.  Keys are the texts of the
  key arguments.  Objects are values here: an update of an object through its pointer is an update of the entry that
  holds it (\<open>poke\<close>).  The environment of a command (hash seed, uninitialised memory, clocks, role of the server) is a
  record; the clock does not advance within a command.  What the code hands to other parts of the server is recorded
  in lists: deletions sent to the log and the slaves, keys reported to watching clients, keyspace events, lists that
  became ready.  A failed assertion is \<open>None\<close>.  The mapping of cluster slots to keys is not modelled (cluster mode is
  off).

  The main results: on a master every operation is the corresponding operation on a finite map from keys to contents
  and expire times in which a key whose time has passed is absent, and such a key is deleted and the deletion
  propagated when it is first touched.
\<close>

section \<open>The code\<close>

record redisDb =
  db_keys :: "(bytes, robj) dict"
  db_expires :: "(bytes, 64 word) dict"

record keyspace =
  ks_db :: redisDb
  ks_hits :: nat
  ks_misses :: nat
  ks_expired :: nat
  ks_dirty :: nat
  ks_propagated :: "bytes list list"
  ks_touched :: "bytes list"
  ks_flushed :: nat
  ks_events :: "(string \<times> bytes) list"
  ks_ready :: "bytes list"
  ks_integers :: "robj list"

record server_env =
  e_seed :: "32 word"
  e_resize :: bool
  e_junk :: "nat \<Rightarrow> byte"
  e_val :: robj
  e_when :: "64 word"
  e_clk :: nat
  e_now :: "64 word"
  e_ae_ok :: bool
  e_loading :: bool
  e_slave :: bool
  e_lua :: "64 word option"
  e_child :: bool
  e_mem :: mem_config

abbreviation "dty e \<equiv> dbDictType (e_seed e)"

definition set_keys :: "keyspace \<Rightarrow> (bytes, robj) dict \<Rightarrow> keyspace" where
  "set_keys s d = s\<lparr>ks_db := (ks_db s)\<lparr>db_keys := d\<rparr>\<rparr>"

definition set_expires :: "keyspace \<Rightarrow> (bytes, 64 word) dict \<Rightarrow> keyspace" where
  "set_expires s x = s\<lparr>ks_db := (ks_db s)\<lparr>db_expires := x\<rparr>\<rparr>"

definition lookupKey :: "server_env \<Rightarrow> keyspace \<Rightarrow> bytes \<Rightarrow> (keyspace \<times> robj option) option" where
  "lookupKey e s key = do {
     (d, de) \<leftarrow> dictFind (dty e) (db_keys (ks_db s)) key;
     (case de of
        Some p \<Rightarrow> do {
          val \<leftarrow> dictGetVal d p;
          let val = (if \<not> e_child e then val\<lparr>o_lru := e_clk e\<rparr> else val);
          d \<leftarrow> dictSetVal d p val;
          Some (set_keys s d, Some val)
        }
      | None \<Rightarrow> Some (set_keys s d, None))
   }"

text \<open>Writing through the pointer to the object stored under a key.\<close>

definition poke :: "server_env \<Rightarrow> keyspace \<Rightarrow> bytes \<Rightarrow> robj \<Rightarrow> keyspace option" where
  "poke e s key val = do {
     de \<leftarrow> dict_search (dty e) (db_keys (ks_db s)) key;
     p \<leftarrow> de;
     d \<leftarrow> dictSetVal (db_keys (ks_db s)) p val;
     Some (set_keys s d)
   }"

definition getExpire :: "server_env \<Rightarrow> keyspace \<Rightarrow> bytes \<Rightarrow> (keyspace \<times> 64 word) option" where
  "getExpire e s key =
     (if dictSize (db_expires (ks_db s)) = 0 then Some (s, - 1)
      else do {
        (x, de) \<leftarrow> dictFind (dty e) (db_expires (ks_db s)) key;
        let s = set_expires s x;
        (case de of
           None \<Rightarrow> Some (s, - 1)
         | Some p \<Rightarrow> do {
             (d, kde) \<leftarrow> dictFind (dty e) (db_keys (ks_db s)) key;
             let s = set_keys s d;
             (if kde = None then None else do { w \<leftarrow> dictGetVal x p; Some (s, w) })
           })
      })"

definition removeExpire :: "server_env \<Rightarrow> keyspace \<Rightarrow> bytes \<Rightarrow> (keyspace \<times> bool) option" where
  "removeExpire e s key = do {
     (d, de) \<leftarrow> dictFind (dty e) (db_keys (ks_db s)) key;
     let s = set_keys s d;
     (if de = None then None
      else do {
        (x, ok) \<leftarrow> dictDelete (dty e) (db_expires (ks_db s)) key;
        Some (set_expires s x, ok)
      })
   }"

definition setExpire :: "server_env \<Rightarrow> keyspace \<Rightarrow> bytes \<Rightarrow> 64 word \<Rightarrow> keyspace option" where
  "setExpire e s key when = do {
     (d, kde) \<leftarrow> dictFind (dty e) (db_keys (ks_db s)) key;
     let s = set_keys s d;
     (if kde = None then None
      else do {
        (x, de) \<leftarrow> dictReplaceRaw (dty e) (e_resize e) (e_when e) (db_expires (ks_db s)) key;
        p \<leftarrow> de;
        x \<leftarrow> dictSetVal x p when;
        Some (set_expires s x)
      })
   }"

definition dbDelete :: "server_env \<Rightarrow> keyspace \<Rightarrow> bytes \<Rightarrow> (keyspace \<times> bool) option" where
  "dbDelete e s key = do {
     s \<leftarrow> (if dictSize (db_expires (ks_db s)) > 0
           then do { (x, _) \<leftarrow> dictDelete (dty e) (db_expires (ks_db s)) key; Some (set_expires s x) }
           else Some s);
     (d, ok) \<leftarrow> dictDelete (dty e) (db_keys (ks_db s)) key;
     Some (set_keys s d, ok)
   }"

definition signalModifiedKey :: "keyspace \<Rightarrow> bytes \<Rightarrow> keyspace" where
  "signalModifiedKey s key = s\<lparr>ks_touched := ks_touched s @ [key]\<rparr>"

definition notifyKeyspaceEvent :: "keyspace \<Rightarrow> string \<Rightarrow> bytes \<Rightarrow> keyspace" where
  "notifyKeyspaceEvent s event key = s\<lparr>ks_events := ks_events s @ [(event, key)]\<rparr>"

definition propagateExpire :: "keyspace \<Rightarrow> bytes \<Rightarrow> keyspace" where
  "propagateExpire s key = s\<lparr>ks_propagated := ks_propagated s @ [[bytes_of_string ''DEL'', key]]\<rparr>"

definition expireIfNeeded :: "server_env \<Rightarrow> keyspace \<Rightarrow> bytes \<Rightarrow> (keyspace \<times> bool) option" where
  "expireIfNeeded e s key = do {
     (s, when) \<leftarrow> getExpire e s key;
     (if sint when < 0 then Some (s, False)
      else if e_loading e then Some (s, False)
      else
        let now = (case e_lua e of Some t \<Rightarrow> t | None \<Rightarrow> e_now e) in
        if e_slave e then Some (s, sint now > sint when)
        else if sint now \<le> sint when then Some (s, False)
        else
          let s = s\<lparr>ks_expired := ks_expired s + 1\<rparr>;
              s = propagateExpire s key;
              s = notifyKeyspaceEvent s ''expired'' key
          in dbDelete e s key)
   }"

definition lookupKeyRead :: "server_env \<Rightarrow> keyspace \<Rightarrow> bytes \<Rightarrow> (keyspace \<times> robj option) option" where
  "lookupKeyRead e s key = do {
     (s, _) \<leftarrow> expireIfNeeded e s key;
     (s, val) \<leftarrow> lookupKey e s key;
     Some (if val = None then s\<lparr>ks_misses := ks_misses s + 1\<rparr> else s\<lparr>ks_hits := ks_hits s + 1\<rparr>, val)
   }"

definition lookupKeyWrite :: "server_env \<Rightarrow> keyspace \<Rightarrow> bytes \<Rightarrow> (keyspace \<times> robj option) option" where
  "lookupKeyWrite e s key = do {
     (s, _) \<leftarrow> expireIfNeeded e s key;
     lookupKey e s key
   }"

definition dbAdd :: "server_env \<Rightarrow> keyspace \<Rightarrow> bytes \<Rightarrow> robj \<Rightarrow> keyspace option" where
  "dbAdd e s key val = do {
     (d, ok) \<leftarrow> dictAdd (dty e) (e_resize e) (e_val e) (db_keys (ks_db s)) key val;
     let s = set_keys s d;
     (if \<not> ok then None
      else Some (if o_type val = REDIS_LIST then s\<lparr>ks_ready := ks_ready s @ [key]\<rparr> else s))
   }"

definition dbOverwrite :: "server_env \<Rightarrow> keyspace \<Rightarrow> bytes \<Rightarrow> robj \<Rightarrow> keyspace option" where
  "dbOverwrite e s key val = do {
     (d, de) \<leftarrow> dictFind (dty e) (db_keys (ks_db s)) key;
     (if de = None then None
      else do {
        (d, _) \<leftarrow> dictReplace (dty e) (e_resize e) (e_val e) d key val;
        Some (set_keys s d)
      })
   }"

definition setKey :: "server_env \<Rightarrow> keyspace \<Rightarrow> bytes \<Rightarrow> robj \<Rightarrow> keyspace option" where
  "setKey e s key val = do {
     (s, old) \<leftarrow> lookupKeyWrite e s key;
     s \<leftarrow> (if old = None then dbAdd e s key val else dbOverwrite e s key val);
     s \<leftarrow> poke e s key (incrRefCount val);
     (s, _) \<leftarrow> removeExpire e s key;
     Some (signalModifiedKey s key)
   }"

definition dbExists :: "server_env \<Rightarrow> keyspace \<Rightarrow> bytes \<Rightarrow> (keyspace \<times> bool) option" where
  "dbExists e s key = do {
     (d, de) \<leftarrow> dictFind (dty e) (db_keys (ks_db s)) key;
     Some (set_keys s d, de \<noteq> None)
   }"

definition dbUnshareStringValue :: "server_env \<Rightarrow> keyspace \<Rightarrow> bytes \<Rightarrow> robj \<Rightarrow> (keyspace \<times> robj) option" where
  "dbUnshareStringValue e s key o1 =
     (if o_type o1 \<noteq> REDIS_STRING then None
      else if o_refcount o1 \<noteq> 1 \<or> o_encoding o1 \<noteq> ENC_RAW then do {
        decoded \<leftarrow> getDecodedObject (e_junk e) (e_clk e) o1;
        (case o_ptr decoded of
           PSds t \<Rightarrow> do {
             o2 \<leftarrow> createRawStringObject (e_junk e) (e_clk e) (Some (s_buf t)) (sdslen t);
             decrRefCount decoded;
             s \<leftarrow> dbOverwrite e s key o2;
             Some (s, o2)
           }
         | _ \<Rightarrow> None)
      } else Some (s, o1))"

subsection \<open>Commands on keys\<close>

text \<open>A command takes the keyspace, the client and the argument vector and returns them: a command may rewrite its
  arguments, which is what is logged and sent to the slaves.  The argument \<open>argv[i]\<close> is absent when the client
  sent fewer; the number of arguments is checked before a command is called.\<close>

definition arg :: "robj list \<Rightarrow> nat \<Rightarrow> robj option" where
  "arg argv i = (if i < length argv then Some (argv ! i) else None)"

text \<open>The text behind \<open>argv[i]->ptr\<close>: arguments are plain strings.\<close>

definition arg_text :: "robj list \<Rightarrow> nat \<Rightarrow> bytes option" where
  "arg_text argv i = do {
     o1 \<leftarrow> arg argv i;
     (case o_ptr o1 of PSds t \<Rightarrow> mem_read (s_buf t) 0 (sdslen t) | _ \<Rightarrow> None)
   }"

definition crlf :: bytes where "crlf = [13, 10]"

definition reply_shared :: "server_env \<Rightarrow> 'a out_client_scheme \<Rightarrow> bytes \<Rightarrow> 'a out_client_scheme option" where
  "reply_shared e c t = addReply (e_junk e) (e_clk e) (e_ae_ok e) c (shared_string (t @ crlf))"

definition reply_int :: "server_env \<Rightarrow> 'a out_client_scheme \<Rightarrow> 64 word \<Rightarrow> 'a out_client_scheme option" where
  "reply_int e c v = addReplyLongLong (e_junk e) (e_clk e) (e_ae_ok e) c v"

definition getLongLongFromObjectOrReply ::
  "server_env \<Rightarrow> 'a out_client_scheme \<Rightarrow> robj option \<Rightarrow> string option \<Rightarrow> ('a out_client_scheme \<times> 64 word option) option" where
  "getLongLongFromObjectOrReply e c o1 msg = do {
     r \<leftarrow> getLongLongFromObject o1;
     (case r of
        None \<Rightarrow> do {
          c \<leftarrow> addReplyError (e_ae_ok e) c (case msg of Some m \<Rightarrow> m | None \<Rightarrow> ''value is not an integer or out of range'');
          Some (c, None)
        }
      | Some v \<Rightarrow> Some (c, Some v))
   }"

definition checkType :: "server_env \<Rightarrow> 'a out_client_scheme \<Rightarrow> robj \<Rightarrow> obj_type \<Rightarrow> ('a out_client_scheme \<times> bool) option" where
  "checkType e c o1 ty =
     (if o_type o1 \<noteq> ty
      then do { c \<leftarrow> reply_shared e c (bytes_of_string ''-WRONGTYPE Operation against a key holding the wrong kind of value''); Some (c, True) }
      else Some (c, False))"

fun del_loop :: "server_env \<Rightarrow> keyspace \<Rightarrow> bytes list \<Rightarrow> nat \<Rightarrow> (keyspace \<times> nat) option" where
  "del_loop e s [] deleted = Some (s, deleted)"
| "del_loop e s (key # keys) deleted = do {
     (s, _) \<leftarrow> expireIfNeeded e s key;
     (s, ok) \<leftarrow> dbDelete e s key;
     (if ok
      then del_loop e ((notifyKeyspaceEvent (signalModifiedKey s key) ''del'' key)\<lparr>ks_dirty := ks_dirty s + 1\<rparr>) keys (deleted + 1)
      else del_loop e s keys deleted)
   }"

fun arg_texts :: "robj list \<Rightarrow> bytes list option" where
  "arg_texts [] = Some []"
| "arg_texts (a # as) = do { t \<leftarrow> arg_text [a] 0; ts \<leftarrow> arg_texts as; Some (t # ts) }"

type_synonym 'a command = "server_env \<Rightarrow> keyspace \<Rightarrow> 'a out_client_scheme \<Rightarrow> robj list \<Rightarrow> (keyspace \<times> 'a out_client_scheme \<times> robj list) option"

definition delCommand :: "'a command" where
  "delCommand e s c argv = do {
     keys \<leftarrow> arg_texts (drop 1 argv);
     (s, deleted) \<leftarrow> del_loop e s keys 0;
     c \<leftarrow> reply_int e c (of_nat deleted);
     Some (s, c, argv)
   }"

fun exists_loop :: "server_env \<Rightarrow> keyspace \<Rightarrow> bytes list \<Rightarrow> nat \<Rightarrow> (keyspace \<times> nat) option" where
  "exists_loop e s [] found = Some (s, found)"
| "exists_loop e s (key # keys) found = do {
     (s, _) \<leftarrow> expireIfNeeded e s key;
     (s, b) \<leftarrow> dbExists e s key;
     exists_loop e s keys (if b then found + 1 else found)
   }"

definition existsCommand :: "'a command" where
  "existsCommand e s c argv = do {
     keys \<leftarrow> arg_texts (drop 1 argv);
     (s, count) \<leftarrow> exists_loop e s keys 0;
     c \<leftarrow> reply_int e c (of_nat count);
     Some (s, c, argv)
   }"

datatype time_unit = UNIT_SECONDS | UNIT_MILLISECONDS

definition expireGenericCommand :: "64 word \<Rightarrow> time_unit \<Rightarrow> 'a command" where
  "expireGenericCommand basetime unit e s c argv = do {
     key \<leftarrow> arg_text argv 1;
     (c, r) \<leftarrow> getLongLongFromObjectOrReply e c (arg argv 2) None;
     (case r of
        None \<Rightarrow> Some (s, c, argv)
      | Some when \<Rightarrow> do {
          let when = (if unit = UNIT_SECONDS then when * 1000 else when);
          let when = when + basetime;
          (s, o1) \<leftarrow> lookupKeyRead e s key;
          (if o1 = None then do { c \<leftarrow> reply_shared e c (bytes_of_string '':0''); Some (s, c, argv) }
           else if sint when \<le> sint (e_now e) \<and> \<not> e_loading e \<and> \<not> e_slave e then do {
             (s, ok) \<leftarrow> dbDelete e s key;
             (if \<not> ok then None
              else do {
                let s = s\<lparr>ks_dirty := ks_dirty s + 1\<rparr>;
                aux \<leftarrow> createStringObject (e_junk e) (e_clk e) (Some (bytes_of_string ''DEL'')) 3;
                let argv = [aux, argv ! 1];
                let s = notifyKeyspaceEvent (signalModifiedKey s key) ''del'' key;
                c \<leftarrow> reply_shared e c (bytes_of_string '':1'');
                Some (s, c, argv)
              })
           } else do {
             s \<leftarrow> setExpire e s key when;
             c \<leftarrow> reply_shared e c (bytes_of_string '':1'');
             let s = notifyKeyspaceEvent (signalModifiedKey s key) ''expire'' key;
             Some (s\<lparr>ks_dirty := ks_dirty s + 1\<rparr>, c, argv)
           })
        })
   }"

definition expireCommand :: "'a command" where
  "expireCommand e s c argv = expireGenericCommand (e_now e) UNIT_SECONDS e s c argv"

definition expireatCommand :: "'a command" where
  "expireatCommand e s c argv = expireGenericCommand 0 UNIT_SECONDS e s c argv"

definition pexpireCommand :: "'a command" where
  "pexpireCommand e s c argv = expireGenericCommand (e_now e) UNIT_MILLISECONDS e s c argv"

definition pexpireatCommand :: "'a command" where
  "pexpireatCommand e s c argv = expireGenericCommand 0 UNIT_MILLISECONDS e s c argv"

text \<open>Division of C, which truncates.\<close>

definition c_div :: "int \<Rightarrow> int \<Rightarrow> int" where
  "c_div a b = (if a < 0 then - (- a div b) else a div b)"

definition ttlGenericCommand :: "bool \<Rightarrow> 'a command" where
  "ttlGenericCommand output_ms e s c argv = do {
     key \<leftarrow> arg_text argv 1;
     (s, o1) \<leftarrow> lookupKeyRead e s key;
     (if o1 = None then do { c \<leftarrow> reply_int e c (- 2); Some (s, c, argv) }
      else do {
        (s, expire) \<leftarrow> getExpire e s key;
        let ttl = (if expire \<noteq> - 1 then (let ttl = expire - e_now e in if sint ttl < 0 then 0 else ttl) else - 1);
        c \<leftarrow> (if ttl = - 1 then reply_int e c (- 1)
             else reply_int e c (if output_ms then ttl else word_of_int (c_div (sint (ttl + 500)) 1000)));
        Some (s, c, argv)
      })
   }"

definition ttlCommand :: "'a command" where
  "ttlCommand e s c argv = ttlGenericCommand False e s c argv"

definition pttlCommand :: "'a command" where
  "pttlCommand e s c argv = ttlGenericCommand True e s c argv"

definition persistCommand :: "'a command" where
  "persistCommand e s c argv = do {
     key \<leftarrow> arg_text argv 1;
     (d, de) \<leftarrow> dictFind (dty e) (db_keys (ks_db s)) key;
     let s = set_keys s d;
     (if de = None then do { c \<leftarrow> reply_shared e c (bytes_of_string '':0''); Some (s, c, argv) }
      else do {
        (s, ok) \<leftarrow> removeExpire e s key;
        (if ok then do { c \<leftarrow> reply_shared e c (bytes_of_string '':1''); Some (s\<lparr>ks_dirty := ks_dirty s + 1\<rparr>, c, argv) }
         else do { c \<leftarrow> reply_shared e c (bytes_of_string '':0''); Some (s, c, argv) })
      })
   }"

definition flushdbCommand :: "'a command" where
  "flushdbCommand e s c argv = do {
     let s = s\<lparr>ks_dirty := ks_dirty s + dictSize (db_keys (ks_db s))\<rparr>;
     let s = s\<lparr>ks_flushed := ks_flushed s + 1\<rparr>;
     let s = set_keys s (dictEmpty (db_keys (ks_db s)));
     let s = set_expires s (dictEmpty (db_expires (ks_db s)));
     c \<leftarrow> reply_shared e c (bytes_of_string ''+OK'');
     Some (s, c, argv)
   }"

section \<open>The keyspace as a map\<close>

datatype content = AStr bytes | AOther obj_type obj_ptr

definition content_of :: "robj \<Rightarrow> content" where
  "content_of o1 = (if o_type o1 = REDIS_STRING then AStr (obj_text o1) else AOther (o_type o1) (o_ptr o1))"

definition kmap :: "redisDb \<Rightarrow> bytes \<rightharpoonup> robj" where
  "kmap db = dict_map (db_keys db)"

definition xmap :: "redisDb \<Rightarrow> bytes \<rightharpoonup> 64 word" where
  "xmap db = dict_map (db_expires db)"

definition cmap :: "redisDb \<Rightarrow> bytes \<rightharpoonup> content" where
  "cmap db k = map_option content_of (kmap db k)"

definition val_ok :: "robj \<Rightarrow> bool" where
  "val_ok o1 \<longleftrightarrow> o_type o1 = REDIS_STRING \<longrightarrow> obj_ok o1"

definition db_ok :: "server_env \<Rightarrow> redisDb \<Rightarrow> bool" where
  "db_ok e db \<longleftrightarrow> dict_ok (dty e) (db_keys db) \<and> dict_ok (dty e) (db_expires db) \<and> dom (xmap db) \<subseteq> dom (kmap db) \<and>
     (\<forall>o1\<in>ran (kmap db). val_ok o1)"

lemma lru_simps [simp]: "obj_text (v\<lparr>o_lru := n\<rparr>) = obj_text v" "obj_ok (v\<lparr>o_lru := n\<rparr>) = obj_ok v"
  "content_of (v\<lparr>o_lru := n\<rparr>) = content_of v" "val_ok (v\<lparr>o_lru := n\<rparr>) = val_ok v"
  by (cases v; simp add: obj_text_def obj_ok_def content_of_def val_ok_def; fail)+

lemma dom_cmap [simp]: "dom (cmap db) = dom (kmap db)"
  by (auto simp: cmap_def dom_def)

lemma cmap_cong: "kmap a = kmap b \<Longrightarrow> cmap a = cmap b"
  by (simp add: cmap_def fun_eq_iff)

lemma set_simps [simp]:
  "kmap (db\<lparr>db_keys := d\<rparr>) = dict_map d" "xmap (db\<lparr>db_keys := d\<rparr>) = xmap db"
  "kmap (db\<lparr>db_expires := x\<rparr>) = kmap db" "xmap (db\<lparr>db_expires := x\<rparr>) = dict_map x"
  by (simp_all add: kmap_def xmap_def)

lemma db_okD:
  assumes "db_ok e db"
  shows "dict_ok (dty e) (db_keys db)" "dict_ok (dty e) (db_expires db)" "dom (xmap db) \<subseteq> dom (kmap db)"
    "kmap db k = Some o1 \<Longrightarrow> val_ok o1"
  using assms by (auto simp: db_ok_def ran_def)

lemma replaceRaw_ok:
  assumes "dict_ok ty d" "dictSize d \<le> 2 ^ 30" "keyCompare ty = (=)"
  shows "\<exists>d' p. dictReplaceRaw ty can junk d key = Some (d', Some p) \<and> dict_ok ty d' \<and> ptr_ok d' key p \<and>
    (\<forall>v. (dict_map d')(key \<mapsto> v) = (dict_map d)(key \<mapsto> v))"
proof -
  obtain d1 r where d1: "dictFind ty d key = Some (d1, r)" "dict_ok ty d1" "dict_map d1 = dict_map d" "dictSize d1 = dictSize d"
    "if key \<in> dom (dict_map d) then \<exists>p. r = Some p \<and> ptr_ok d1 key p else r = None"
    using find_ok[OF assms(1,3)] by blast
  show ?thesis
  proof (cases "key \<in> dom (dict_map d)")
    case True
    then show ?thesis using d1 by (auto simp: dictReplaceRaw_def)
  next
    case False
    then show ?thesis using d1 addRaw_spec[OF d1(2) _ assms(3), of can junk key] assms(2) by (auto simp: dictReplaceRaw_def)
  qed
qed

text \<open>Looking a key up in one of the tables changes neither map.\<close>

lemma find_keys:
  assumes "db_ok e db"
  shows "\<exists>d r. dictFind (dty e) (db_keys db) key = Some (d, r) \<and> db_ok e (db\<lparr>db_keys := d\<rparr>) \<and> dict_map d = kmap db \<and>
    dict_ok (dty e) d \<and> dictSize d = dictSize (db_keys db) \<and> (r = None \<longleftrightarrow> key \<notin> dom (kmap db)) \<and> (\<forall>p. r = Some p \<longrightarrow> ptr_ok d key p)"
proof -
  obtain d r where d: "dictFind (dty e) (db_keys db) key = Some (d, r)" "dict_ok (dty e) d" "dict_map d = dict_map (db_keys db)"
    "dictSize d = dictSize (db_keys db)" "if key \<in> dom (dict_map (db_keys db)) then \<exists>p. r = Some p \<and> ptr_ok d key p else r = None"
    using find_ok[OF db_okD(1)[OF assms] db_dict.compare_eq] by blast
  have "db_ok e (db\<lparr>db_keys := d\<rparr>)" using assms d by (simp add: db_ok_def kmap_def)
  then show ?thesis using d by (auto simp: kmap_def split: if_splits)
qed

lemma find_expires:
  assumes "db_ok e db"
  shows "\<exists>x r. dictFind (dty e) (db_expires db) key = Some (x, r) \<and> db_ok e (db\<lparr>db_expires := x\<rparr>) \<and> dict_map x = xmap db \<and>
    dict_ok (dty e) x \<and> (r = None \<longleftrightarrow> key \<notin> dom (xmap db)) \<and> (\<forall>p. r = Some p \<longrightarrow> ptr_ok x key p)"
proof -
  obtain x r where x: "dictFind (dty e) (db_expires db) key = Some (x, r)" "dict_ok (dty e) x" "dict_map x = dict_map (db_expires db)"
    "if key \<in> dom (dict_map (db_expires db)) then \<exists>p. r = Some p \<and> ptr_ok x key p else r = None"
    using find_ok[OF db_okD(2)[OF assms] db_dict.compare_eq] by blast
  have "db_ok e (db\<lparr>db_expires := x\<rparr>)" using assms x by (simp add: db_ok_def xmap_def)
  then show ?thesis using x by (auto simp: xmap_def split: if_splits)
qed

lemma ok_set_keys:
  assumes "db_ok e db" "dict_ok (dty e) d" "dom (xmap db) \<subseteq> dom (dict_map d)" "\<And>k o1. dict_map d k = Some o1 \<Longrightarrow> val_ok o1"
  shows "db_ok e (db\<lparr>db_keys := d\<rparr>)"
  using assms by (auto simp: db_ok_def ran_def)

lemma lookupKey_ok:
  assumes "db_ok e (ks_db s)"
  shows "\<exists>db. lookupKey e s key = Some (s\<lparr>ks_db := db\<rparr>, kmap db key) \<and> db_ok e db \<and> cmap db = cmap (ks_db s) \<and> xmap db = xmap (ks_db s)"
proof -
  obtain d r where d: "dictFind (dty e) (db_keys (ks_db s)) key = Some (d, r)" "db_ok e ((ks_db s)\<lparr>db_keys := d\<rparr>)" "dict_map d = kmap (ks_db s)"
    "dict_ok (dty e) d" "r = None \<longleftrightarrow> key \<notin> dom (kmap (ks_db s))" "\<forall>p. r = Some p \<longrightarrow> ptr_ok d key p"
    using find_keys[OF assms] by blast
  show ?thesis
  proof (cases r)
    case None
    then have "kmap (ks_db s) key = None" using d(5) by (simp add: domIff)
    then show ?thesis using d None cmap_cong[of "(ks_db s)\<lparr>db_keys := d\<rparr>" "ks_db s"]
      by (intro exI[of _ "(ks_db s)\<lparr>db_keys := d\<rparr>"]) (simp add: lookupKey_def set_keys_def)
  next
    case (Some p)
    then have p: "ptr_ok d key p" using d(6) by simp
    obtain v where v: "dictGetVal d p = Some v" "kmap (ks_db s) key = Some v" using getVal_spec[OF d(4) p] d(3) by auto
    define v' where "v' = (if \<not> e_child e then v\<lparr>o_lru := e_clk e\<rparr> else v)"
    obtain d' where d': "dictSetVal d p v' = Some d'" "dict_ok (dty e) d'" "dict_map d' = (dict_map d)(key \<mapsto> v')"
      using setVal_spec[OF d(4) p, of v'] by blast
    have c: "content_of v' = content_of v" "val_ok v' = val_ok v" by (simp_all add: v'_def)
    let ?db = "(ks_db s)\<lparr>db_keys := d'\<rparr>"
    have "db_ok e ?db"
      using assms v(2) d(3) d' c(2) db_okD(3,4)[OF assms] by (intro ok_set_keys) (auto split: if_splits)
    moreover have "cmap ?db = cmap (ks_db s)" using v(2) c(1) d(3) d'(3) by (auto simp: cmap_def fun_eq_iff)
    ultimately show ?thesis using d(1) Some v(1) d' by (intro exI[of _ ?db]) (simp add: lookupKey_def set_keys_def Let_def v'_def[symmetric])
  qed
qed

lemma poke_ok:
  assumes "db_ok e (ks_db s)" "key \<in> dom (kmap (ks_db s))" "val_ok v"
  shows "\<exists>db. poke e s key v = Some (s\<lparr>ks_db := db\<rparr>) \<and> db_ok e db \<and> kmap db = (kmap (ks_db s))(key \<mapsto> v) \<and> xmap db = xmap (ks_db s)"
proof -
  let ?d = "db_keys (ks_db s)"
  note ok = db_okD(1)[OF assms(1)]
  have k: "key \<in> fst ` set (dict_entries ?d)" using assms(2) ok_dom[OF ok] by (simp add: kmap_def)
  then have "ht_size (d_ht0 ?d) \<noteq> 0" using no_table_empty[OF ok] by fastforce
  then obtain p where p: "dict_search (dty e) ?d key = Some (Some p)" "ptr_ok ?d key p"
    using dict_search_spec[OF ok _ db_dict.compare_eq, of key] k by (auto split: option.splits)
  obtain d where d: "dictSetVal ?d p v = Some d" "dict_ok (dty e) d" "dict_map d = (kmap (ks_db s))(key \<mapsto> v)"
    using setVal_spec[OF ok p(2), of v] by (auto simp: kmap_def)
  have "db_ok e ((ks_db s)\<lparr>db_keys := d\<rparr>)"
    using assms(3) d db_okD(3,4)[OF assms(1)] by (intro ok_set_keys[OF assms(1)]) (auto split: if_splits)
  then show ?thesis using p(1) d by (intro exI[of _ "(ks_db s)\<lparr>db_keys := d\<rparr>"]) (simp add: poke_def set_keys_def)
qed

lemma getExpire_ok:
  assumes "db_ok e (ks_db s)"
  shows "\<exists>db. getExpire e s key = Some (s\<lparr>ks_db := db\<rparr>, case xmap (ks_db s) key of Some w \<Rightarrow> w | None \<Rightarrow> - 1) \<and>
    db_ok e db \<and> kmap db = kmap (ks_db s) \<and> xmap db = xmap (ks_db s)"
proof (cases "dictSize (db_expires (ks_db s)) = 0")
  case True
  then have "dom (xmap (ks_db s)) = {}"
    using dict_ok_card[OF db_okD(2)[OF assms]] finite_dict_map[of "db_expires (ks_db s)"] by (simp add: xmap_def)
  then show ?thesis using True assms by (intro exI[of _ "ks_db s"]) (simp add: getExpire_def)
next
  case False
  obtain x r where x: "dictFind (dty e) (db_expires (ks_db s)) key = Some (x, r)" "db_ok e ((ks_db s)\<lparr>db_expires := x\<rparr>)"
    "dict_map x = xmap (ks_db s)" "dict_ok (dty e) x" "r = None \<longleftrightarrow> key \<notin> dom (xmap (ks_db s))" "\<forall>p. r = Some p \<longrightarrow> ptr_ok x key p"
    using find_expires[OF assms] by blast
  show ?thesis
  proof (cases r)
    case None
    then have "xmap (ks_db s) key = None" using x(5) by (simp add: domIff)
    then show ?thesis using False x None
      by (intro exI[of _ "(ks_db s)\<lparr>db_expires := x\<rparr>"]) (simp add: getExpire_def set_expires_def)
  next
    case (Some p)
    obtain w where w: "dictGetVal x p = Some w" "xmap (ks_db s) key = Some w" using getVal_spec[OF x(4)] x(3,6) Some by fastforce
    obtain d q where d: "dictFind (dty e) (db_keys ((ks_db s)\<lparr>db_expires := x\<rparr>)) key = Some (d, q)"
      "db_ok e ((ks_db s)\<lparr>db_expires := x, db_keys := d\<rparr>)" "dict_map d = kmap (ks_db s)" "q = None \<longleftrightarrow> key \<notin> dom (kmap (ks_db s))"
      using find_keys[OF x(2), of key] by (auto simp: kmap_def)
    have "q \<noteq> None" using d(4) w(2) db_okD(3)[OF assms] by auto
    then show ?thesis using False x(1,3) Some w d
      by (intro exI[of _ "(ks_db s)\<lparr>db_expires := x, db_keys := d\<rparr>"]) (auto simp: getExpire_def set_expires_def set_keys_def xmap_def)
  qed
qed

lemma removeExpire_ok:
  assumes "db_ok e (ks_db s)" "key \<in> dom (kmap (ks_db s))"
  shows "\<exists>db. removeExpire e s key = Some (s\<lparr>ks_db := db\<rparr>, key \<in> dom (xmap (ks_db s))) \<and> db_ok e db \<and>
    kmap db = kmap (ks_db s) \<and> xmap db = (xmap (ks_db s))(key := None)"
proof -
  obtain d r where d: "dictFind (dty e) (db_keys (ks_db s)) key = Some (d, r)" "db_ok e ((ks_db s)\<lparr>db_keys := d\<rparr>)" "dict_map d = kmap (ks_db s)"
    "r \<noteq> None" using find_keys[OF assms(1), of key] assms(2) by blast
  obtain x where x: "dictDelete (dty e) (db_expires (ks_db s)) key = Some (x, key \<in> dom (xmap (ks_db s)))" "dict_ok (dty e) x"
    "dict_map x = (xmap (ks_db s))(key := None)"
    using delete_ok[OF db_okD(2)[OF assms(1)] db_dict.compare_eq] unfolding xmap_def by blast
  have "db_ok e ((ks_db s)\<lparr>db_keys := d, db_expires := x\<rparr>)" using d(2) x db_okD(3)[OF assms(1)] d(3) by (auto simp: db_ok_def kmap_def xmap_def)
  then show ?thesis using d x
    by (intro exI[of _ "(ks_db s)\<lparr>db_keys := d, db_expires := x\<rparr>"]) (auto simp: removeExpire_def set_keys_def set_expires_def kmap_def)
qed

text \<open>Room for one more key.\<close>

definition room :: "redisDb \<Rightarrow> bool" where
  "room db \<longleftrightarrow> card (dom (kmap db)) \<le> 2 ^ 30"

lemma room_sizes:
  assumes "db_ok e db" "room db"
  shows "dictSize (db_keys db) \<le> 2 ^ 30" "dictSize (db_expires db) \<le> 2 ^ 30"
proof -
  have f: "finite (dom (kmap db))" by (simp add: kmap_def finite_dict_map)
  show "dictSize (db_keys db) \<le> 2 ^ 30" using dict_ok_card[OF db_okD(1)[OF assms(1)]] assms(2) by (simp add: room_def kmap_def)
  show "dictSize (db_expires db) \<le> 2 ^ 30"
    using dict_ok_card[OF db_okD(2)[OF assms(1)]] card_mono[OF f db_okD(3)[OF assms(1)]] assms(2) by (simp add: room_def xmap_def)
qed

lemma setExpire_ok:
  assumes "db_ok e (ks_db s)" "key \<in> dom (kmap (ks_db s))" "room (ks_db s)"
  shows "\<exists>db. setExpire e s key w = Some (s\<lparr>ks_db := db\<rparr>) \<and> db_ok e db \<and> kmap db = kmap (ks_db s) \<and> xmap db = (xmap (ks_db s))(key \<mapsto> w)"
proof -
  obtain d r where d: "dictFind (dty e) (db_keys (ks_db s)) key = Some (d, r)" "db_ok e ((ks_db s)\<lparr>db_keys := d\<rparr>)" "dict_map d = kmap (ks_db s)"
    "r \<noteq> None" using find_keys[OF assms(1), of key] assms(2) by blast
  obtain x p where x: "dictReplaceRaw (dty e) (e_resize e) (e_when e) (db_expires (ks_db s)) key = Some (x, Some p)" "dict_ok (dty e) x" "ptr_ok x key p"
    "(dict_map x)(key \<mapsto> w) = (xmap (ks_db s))(key \<mapsto> w)"
    using replaceRaw_ok[OF db_okD(2)[OF assms(1)] room_sizes(2)[OF assms(1,3)] db_dict.compare_eq, of "e_resize e" "e_when e" key] unfolding xmap_def by blast
  obtain y where y: "dictSetVal x p w = Some y" "dict_ok (dty e) y" "dict_map y = (xmap (ks_db s))(key \<mapsto> w)"
    using setVal_spec[OF x(2,3), of w] x(4) by auto
  have "db_ok e ((ks_db s)\<lparr>db_keys := d, db_expires := y\<rparr>)" using d(2) y db_okD(3)[OF assms(1)] d(3) assms(2) by (auto simp: db_ok_def kmap_def xmap_def)
  then show ?thesis using d x(1) y
    by (intro exI[of _ "(ks_db s)\<lparr>db_keys := d, db_expires := y\<rparr>"]) (auto simp: setExpire_def set_keys_def set_expires_def kmap_def)
qed

lemma dbDelete_ok:
  assumes "db_ok e (ks_db s)"
  shows "\<exists>db. dbDelete e s key = Some (s\<lparr>ks_db := db\<rparr>, key \<in> dom (kmap (ks_db s))) \<and> db_ok e db \<and>
    kmap db = (kmap (ks_db s))(key := None) \<and> xmap db = (xmap (ks_db s))(key := None)"
proof -
  let ?x = "db_expires (ks_db s)"
  obtain x b where x: "(if dictSize ?x > 0 then do { (x, _) \<leftarrow> dictDelete (dty e) ?x key; Some (set_expires s x) } else Some s) = Some (set_expires s x)"
    "dict_ok (dty e) x" "dict_map x = (xmap (ks_db s))(key := None)"
  proof (cases "dictSize ?x > 0")
    case True
    then show ?thesis using that delete_ok[OF db_okD(2)[OF assms] db_dict.compare_eq, of key] by (auto simp: xmap_def)
  next
    case False
    then have "dom (xmap (ks_db s)) = {}"
      using dict_ok_card[OF db_okD(2)[OF assms]] finite_dict_map[of ?x] by (simp add: xmap_def)
    then have "(xmap (ks_db s))(key := None) = dict_map ?x" by (auto simp: xmap_def fun_eq_iff)
    then show ?thesis using that[of ?x] False db_okD(2)[OF assms] by (simp add: set_expires_def)
  qed
  obtain d where d: "dictDelete (dty e) (db_keys (ks_db s)) key = Some (d, key \<in> dom (kmap (ks_db s)))" "dict_ok (dty e) d"
    "dict_map d = (kmap (ks_db s))(key := None)"
    using delete_ok[OF db_okD(1)[OF assms] db_dict.compare_eq] unfolding kmap_def by blast
  let ?db = "(ks_db s)\<lparr>db_expires := x, db_keys := d\<rparr>"
  have "db_ok e ?db" using x d db_okD(3)[OF assms] db_okD(4)[OF assms] by (auto simp: db_ok_def xmap_def ran_def split: if_splits)
  moreover have "xmap ?db = (xmap (ks_db s))(key := None)" using x(3) by (simp add: xmap_def)
  ultimately show ?thesis using x(1) d by (intro exI[of _ ?db]) (simp add: dbDelete_def set_expires_def set_keys_def)
qed

lemma card_upd: "finite (dom m) \<Longrightarrow> card (dom (m(k \<mapsto> v))) \<le> Suc (card (dom m))"
  by (simp add: card_insert_le_m1 card_insert_if)

lemma dbAdd_ok:
  assumes "db_ok e (ks_db s)" "key \<notin> dom (kmap (ks_db s))" "room (ks_db s)" "obj_ok v"
  shows "\<exists>db. dbAdd e s key v = Some (s\<lparr>ks_db := db\<rparr>) \<and> db_ok e db \<and> kmap db = (kmap (ks_db s))(key \<mapsto> v) \<and> xmap db = xmap (ks_db s)"
proof -
  obtain d where d: "dictAdd (dty e) (e_resize e) (e_val e) (db_keys (ks_db s)) key v = Some (d, True)" "dict_ok (dty e) d"
    "dict_map d = (kmap (ks_db s))(key \<mapsto> v)"
    using add_ok[OF db_okD(1)[OF assms(1)] room_sizes(1)[OF assms(1,3)] db_dict.compare_eq, of "e_resize e" "e_val e" key v] assms(2)
    by (auto simp: kmap_def)
  have "db_ok e ((ks_db s)\<lparr>db_keys := d\<rparr>)"
    using assms(4) d db_okD(3,4)[OF assms(1)] by (intro ok_set_keys[OF assms(1)]) (auto simp: val_ok_def split: if_splits)
  then show ?thesis using d assms(4) by (intro exI[of _ "(ks_db s)\<lparr>db_keys := d\<rparr>"]) (simp add: dbAdd_def set_keys_def obj_ok_def)
qed

lemma dbOverwrite_ok:
  assumes "db_ok e (ks_db s)" "key \<in> dom (kmap (ks_db s))" "room (ks_db s)" "obj_ok v"
  shows "\<exists>db. dbOverwrite e s key v = Some (s\<lparr>ks_db := db\<rparr>) \<and> db_ok e db \<and> kmap db = (kmap (ks_db s))(key \<mapsto> v) \<and> xmap db = xmap (ks_db s)"
proof -
  obtain d r where d: "dictFind (dty e) (db_keys (ks_db s)) key = Some (d, r)" "dict_map d = kmap (ks_db s)" "dict_ok (dty e) d"
    "dictSize d = dictSize (db_keys (ks_db s))" "r \<noteq> None" using find_keys[OF assms(1), of key] assms(2) by blast
  obtain d' b where d': "dictReplace (dty e) (e_resize e) (e_val e) d key v = Some (d', b)" "dict_ok (dty e) d'" "dict_map d' = (kmap (ks_db s))(key \<mapsto> v)"
    using replace_ok[OF d(3) _ db_dict.compare_eq, of "e_resize e" "e_val e" key v] room_sizes(1)[OF assms(1,3)] d(2,4) by auto
  have "db_ok e ((ks_db s)\<lparr>db_keys := d'\<rparr>)"
    using assms(4) d' db_okD(3,4)[OF assms(1)] by (intro ok_set_keys[OF assms(1)]) (auto simp: val_ok_def split: if_splits)
  then show ?thesis using d d' by (intro exI[of _ "(ks_db s)\<lparr>db_keys := d'\<rparr>"]) (simp add: dbOverwrite_def set_keys_def)
qed

section \<open>Expiry\<close>

definition expired :: "server_env \<Rightarrow> redisDb \<Rightarrow> bytes \<Rightarrow> bool" where
  "expired e db k \<longleftrightarrow> (case xmap db k of None \<Rightarrow> False | Some w \<Rightarrow> 0 \<le> sint w \<and> sint w < sint (e_now e))"

definition master :: "server_env \<Rightarrow> bool" where
  "master e \<longleftrightarrow> \<not> e_loading e \<and> \<not> e_slave e \<and> e_lua e = None"

text \<open>What clients see: the contents and expire times of the keys whose time has not passed.\<close>

definition view :: "server_env \<Rightarrow> redisDb \<Rightarrow> bytes \<rightharpoonup> content \<times> 64 word option" where
  "view e db k = (if expired e db k then None else map_option (\<lambda>c. (c, xmap db k)) (cmap db k))"

definition note_expired :: "keyspace \<Rightarrow> bytes \<Rightarrow> keyspace" where
  "note_expired s key = notifyKeyspaceEvent (propagateExpire (s\<lparr>ks_expired := ks_expired s + 1\<rparr>) key) ''expired'' key"

lemma note_expired_db [simp]: "ks_db (note_expired s key) = ks_db s" "ks_integers (note_expired s key) = ks_integers s"
  "ks_touched (note_expired s key) = ks_touched s" "ks_dirty (note_expired s key) = ks_dirty s" "ks_flushed (note_expired s key) = ks_flushed s"
  by (simp_all add: note_expired_def notifyKeyspaceEvent_def propagateExpire_def)

lemma note_expired_set [simp]: "note_expired (s\<lparr>ks_db := db\<rparr>) key = (note_expired s key)\<lparr>ks_db := db\<rparr>"
  by (simp add: note_expired_def notifyKeyspaceEvent_def propagateExpire_def)

lemma expireIfNeeded_ok:
  assumes "db_ok e (ks_db s)" "master e"
  shows "\<exists>db. expireIfNeeded e s key = Some ((if expired e (ks_db s) key then note_expired s key else s)\<lparr>ks_db := db\<rparr>, expired e (ks_db s) key) \<and>
    db_ok e db \<and> view e db = view e (ks_db s) \<and> \<not> expired e db key \<and> dom (kmap db) \<subseteq> dom (kmap (ks_db s)) \<and>
    kmap db = (if expired e (ks_db s) key then (kmap (ks_db s))(key := None) else kmap (ks_db s)) \<and>
    xmap db = (if expired e (ks_db s) key then (xmap (ks_db s))(key := None) else xmap (ks_db s))"
proof -
  let ?w = "case xmap (ks_db s) key of Some w \<Rightarrow> w | None \<Rightarrow> - 1"
  obtain db where g: "getExpire e s key = Some (s\<lparr>ks_db := db\<rparr>, ?w)" "db_ok e db" "kmap db = kmap (ks_db s)" "xmap db = xmap (ks_db s)"
    using getExpire_ok[OF assms(1), of key] by blast
  have v: "view e db = view e (ks_db s)" using g(3,4) cmap_cong[OF g(3)] by (simp add: view_def expired_def fun_eq_iff)
  have x: "expired e (ks_db s) key \<longleftrightarrow> 0 \<le> sint ?w \<and> sint ?w < sint (e_now e)" by (auto simp: expired_def split: option.splits)
  show ?thesis
  proof (cases "expired e (ks_db s) key")
    case False
    then have "expireIfNeeded e s key = Some (s\<lparr>ks_db := db\<rparr>, False)"
      using g(1) x assms(2) by (auto simp: expireIfNeeded_def master_def Let_def)
    moreover have "\<not> expired e db key" using False g(4) by (simp add: expired_def)
    ultimately show ?thesis using False g v by auto
  next
    case True
    obtain db' where d: "dbDelete e ((note_expired s key)\<lparr>ks_db := db\<rparr>) key = Some ((note_expired s key)\<lparr>ks_db := db'\<rparr>, key \<in> dom (kmap db))" "db_ok e db'"
      "kmap db' = (kmap db)(key := None)" "xmap db' = (xmap db)(key := None)"
      using dbDelete_ok[of e "(note_expired s key)\<lparr>ks_db := db\<rparr>" key] g(2) by auto
    have k: "key \<in> dom (kmap db)" using True db_okD(3)[OF assms(1)] g(3) by (auto simp: expired_def split: option.splits)
    have "expireIfNeeded e s key = dbDelete e (note_expired (s\<lparr>ks_db := db\<rparr>) key) key"
      using g(1) x True assms(2) by (simp add: expireIfNeeded_def master_def note_expired_def del: note_expired_set)
    then have "expireIfNeeded e s key = dbDelete e ((note_expired s key)\<lparr>ks_db := db\<rparr>) key" by simp
    moreover have "view e db' = view e db"
    proof
      fix k
      show "view e db' k = view e db k"
        using d(3,4) True g(4) by (cases "k = key") (auto simp: view_def expired_def cmap_def)
    qed
    moreover have "\<not> expired e db' key" using d(4) by (simp add: expired_def)
    ultimately show ?thesis using True d v k g(3,4) by (intro exI[of _ db']) auto
  qed
qed

text \<open>How a change of one key shows.\<close>

lemma view_update:
  assumes "\<And>k. k \<noteq> key \<Longrightarrow> kmap db' k = kmap db k \<and> xmap db' k = xmap db k" "kmap db' key = Some o1" "\<not> expired e db' key"
  shows "view e db' = (view e db)(key \<mapsto> (content_of o1, xmap db' key))"
proof
  fix k
  show "view e db' k = ((view e db)(key \<mapsto> (content_of o1, xmap db' key))) k"
    using assms by (cases "k = key") (simp_all add: view_def expired_def cmap_def)
qed

lemma view_remove:
  assumes "\<And>k. k \<noteq> key \<Longrightarrow> kmap db' k = kmap db k \<and> xmap db' k = xmap db k" "kmap db' key = None"
  shows "view e db' = (view e db)(key := None)"
proof
  fix k
  show "view e db' k = ((view e db)(key := None)) k"
    using assms by (cases "k = key") (simp_all add: view_def expired_def cmap_def)
qed

lemma view_live: "\<not> expired e db key \<Longrightarrow> view e db key = map_option (\<lambda>o1. (content_of o1, xmap db key)) (kmap db key)"
  by (simp add: view_def cmap_def option.map_comp comp_def)

text \<open>The number of keys, for the capacity of the tables.\<close>

definition db_size :: "redisDb \<Rightarrow> nat" where
  "db_size db = card (dom (kmap db))"

lemma db_size_mono: "dom (kmap db') \<subseteq> dom (kmap db) \<Longrightarrow> db_size db' \<le> db_size db"
  unfolding db_size_def by (rule card_mono) (simp_all add: kmap_def finite_dict_map)

lemma db_size_insert: "kmap db' = (kmap db)(key \<mapsto> v) \<Longrightarrow> db_size db' \<le> Suc (db_size db)"
  unfolding db_size_def by (simp add: card_insert_if kmap_def finite_dict_map)

text \<open>A step that clients cannot see, except for the statistics and the deletion of expired keys.\<close>

definition unseen :: "server_env \<Rightarrow> keyspace \<Rightarrow> keyspace \<Rightarrow> bool" where
  "unseen e s s' \<longleftrightarrow> db_ok e (ks_db s') \<and> view e (ks_db s') = view e (ks_db s) \<and> db_size (ks_db s') \<le> db_size (ks_db s) \<and>
     ks_integers s' = ks_integers s \<and> ks_dirty s' = ks_dirty s \<and> ks_touched s' = ks_touched s \<and> ks_flushed s' = ks_flushed s"

lemma unseen_refl: "db_ok e (ks_db s) \<Longrightarrow> unseen e s s"
  by (simp add: unseen_def)

lemma unseen_trans: "unseen e s s' \<Longrightarrow> unseen e s' s'' \<Longrightarrow> unseen e s s''"
  by (auto simp: unseen_def)

lemma unseen_room: "unseen e s s' \<Longrightarrow> room (ks_db s) \<Longrightarrow> room (ks_db s')"
  by (auto simp: unseen_def room_def db_size_def)

lemma expire_unseen:
  assumes "db_ok e (ks_db s)" "master e"
  shows "\<exists>s'. expireIfNeeded e s key = Some (s', expired e (ks_db s) key) \<and> unseen e s s' \<and> \<not> expired e (ks_db s') key"
  proof -
  obtain db where d: "expireIfNeeded e s key = Some ((if expired e (ks_db s) key then note_expired s key else s)\<lparr>ks_db := db\<rparr>, expired e (ks_db s) key)"
    "db_ok e db" "view e db = view e (ks_db s)" "\<not> expired e db key" "dom (kmap db) \<subseteq> dom (kmap (ks_db s))"
    using expireIfNeeded_ok[OF assms, of key] by blast
  then show ?thesis using db_size_mono[OF d(5)] by (auto simp: unseen_def)
qed

lemma lookupWrite_ok:
  assumes "db_ok e (ks_db s)" "master e"
  shows "\<exists>s'. lookupKeyWrite e s key = Some (s', kmap (ks_db s') key) \<and> unseen e s s' \<and> \<not> expired e (ks_db s') key"
proof -
  obtain s1 where s1: "expireIfNeeded e s key = Some (s1, expired e (ks_db s) key)" "unseen e s s1" "\<not> expired e (ks_db s1) key"
    using expire_unseen[OF assms] by blast
  obtain db where db: "lookupKey e s1 key = Some (s1\<lparr>ks_db := db\<rparr>, kmap db key)" "db_ok e db" "cmap db = cmap (ks_db s1)" "xmap db = xmap (ks_db s1)"
    using lookupKey_ok[of e s1 key] s1(2) by (auto simp: unseen_def)
  have x: "expired e db k = expired e (ks_db s1) k" for k using db(4) by (simp add: expired_def)
  have "dom (kmap db) = dom (kmap (ks_db s1))" using dom_cmap[of db] dom_cmap[of "ks_db s1"] db(3) by metis
  then have "unseen e s1 (s1\<lparr>ks_db := db\<rparr>)"
    using db x db_size_mono[of db "ks_db s1"] by (simp add: unseen_def view_def fun_eq_iff)
  then show ?thesis using s1 db x unseen_trans by (fastforce simp: lookupKeyWrite_def)
qed

lemma lookupRead_ok:
  assumes "db_ok e (ks_db s)" "master e"
  shows "\<exists>s'. lookupKeyRead e s key = Some (s', kmap (ks_db s') key) \<and> unseen e s s' \<and> \<not> expired e (ks_db s') key"
proof -
  obtain s1 where "lookupKeyWrite e s key = Some (s1, kmap (ks_db s1) key)" "unseen e s s1" "\<not> expired e (ks_db s1) key"
    using lookupWrite_ok[OF assms] by blast
  then show ?thesis
    by (auto simp: lookupKeyRead_def lookupKeyWrite_def unseen_def split: bind_splits)
qed

lemma incr_simps [simp]: "obj_text (incrRefCount v) = obj_text v" "content_of (incrRefCount v) = content_of v"
  by (cases v; simp add: incrRefCount_def obj_text_def content_of_def; fail)+

lemma incr_ok: "obj_ok v \<Longrightarrow> obj_ok (incrRefCount v)"
  by (cases v) (simp add: incrRefCount_def obj_ok_def)

lemma obj_ok_val: "obj_ok v \<Longrightarrow> val_ok v" "obj_ok v \<Longrightarrow> content_of v = AStr (obj_text v)"
  by (simp_all add: val_ok_def content_of_def obj_ok_def)

text \<open>What a write to one key promises: the new state of that key, one report to the watching clients.\<close>

definition updates :: "server_env \<Rightarrow> keyspace \<Rightarrow> keyspace \<Rightarrow> bytes \<Rightarrow> (content \<times> 64 word option) option \<Rightarrow> bool" where
  "updates e s s' key c \<longleftrightarrow> db_ok e (ks_db s') \<and> view e (ks_db s') = (view e (ks_db s))(key := c) \<and>
     db_size (ks_db s') \<le> Suc (db_size (ks_db s)) \<and> ks_integers s' = ks_integers s"

lemma setKey_ok:
  assumes "db_ok e (ks_db s)" "master e" "room (ks_db s)" "obj_ok v"
  shows "\<exists>s'. setKey e s key v = Some s' \<and> updates e s s' key (Some (AStr (obj_text v), None)) \<and>
    ks_dirty s' = ks_dirty s \<and> ks_touched s' = ks_touched s @ [key] \<and> ks_flushed s' = ks_flushed s \<and> kmap (ks_db s') key = Some (incrRefCount v)"
proof -
  obtain s1 where s1: "lookupKeyWrite e s key = Some (s1, kmap (ks_db s1) key)" "unseen e s s1" "\<not> expired e (ks_db s1) key"
    using lookupWrite_ok[OF assms(1,2)] by blast
  have ok1: "db_ok e (ks_db s1)" and r1: "room (ks_db s1)" using s1(2) unseen_room assms(3) by (auto simp: unseen_def)
  obtain db2 where db2: "(if kmap (ks_db s1) key = None then dbAdd e s1 key v else dbOverwrite e s1 key v) = Some (s1\<lparr>ks_db := db2\<rparr>)"
    "db_ok e db2" "kmap db2 = (kmap (ks_db s1))(key \<mapsto> v)" "xmap db2 = xmap (ks_db s1)"
    using dbAdd_ok[OF ok1 _ r1 assms(4), of key] dbOverwrite_ok[OF ok1 _ r1 assms(4), of key] by (cases "kmap (ks_db s1) key") auto
  obtain db3 where db3: "poke e (s1\<lparr>ks_db := db2\<rparr>) key (incrRefCount v) = Some (s1\<lparr>ks_db := db3\<rparr>)" "db_ok e db3"
    "kmap db3 = (kmap (ks_db s1))(key \<mapsto> incrRefCount v)" "xmap db3 = xmap (ks_db s1)"
    using poke_ok[of e "s1\<lparr>ks_db := db2\<rparr>" key "incrRefCount v"] db2 obj_ok_val(1)[OF incr_ok[OF assms(4)]] by auto
  obtain db4 b where db4: "removeExpire e (s1\<lparr>ks_db := db3\<rparr>) key = Some (s1\<lparr>ks_db := db4\<rparr>, b)" "db_ok e db4"
    "kmap db4 = (kmap (ks_db s1))(key \<mapsto> incrRefCount v)" "xmap db4 = (xmap (ks_db s1))(key := None)"
    using removeExpire_ok[of e "s1\<lparr>ks_db := db3\<rparr>" key] db3 by auto
  have nx: "\<not> expired e db4 key" using db4(4) by (simp add: expired_def)
  have "view e db4 = (view e (ks_db s1))(key \<mapsto> (content_of (incrRefCount v), xmap db4 key))"
    using db4(3,4) nx by (intro view_update) auto
  then have "view e db4 = (view e (ks_db s))(key \<mapsto> (AStr (obj_text v), None))"
    using s1(2) db4(4) obj_ok_val(2)[OF assms(4)] by (simp add: unseen_def)
  moreover have "kmap db4 key = Some (incrRefCount v)" using db4(3) by simp
  ultimately show ?thesis using s1 db2(1) db3(1) db4(1,2) db_size_insert[OF db4(3)]
    by (auto simp: setKey_def updates_def signalModifiedKey_def unseen_def simp del: fun_upd_apply)
qed

section \<open>Commands\<close>

text \<open>A command that leaves the keyspace \<open>s'\<close> and the arguments \<open>argv'\<close> and replies with the bytes \<open>t\<close>, whatever the
  client.\<close>

definition runs :: "server_env \<Rightarrow> 'a command \<Rightarrow> keyspace \<Rightarrow> robj list \<Rightarrow> keyspace \<Rightarrow> robj list \<Rightarrow> bytes \<Rightarrow> bool" where
  "runs e cmd s argv s' argv' t \<longleftrightarrow> (\<exists>g. replies (e_junk e) (e_clk e) (e_ae_ok e) g t \<and>
     (\<forall>c. cmd e s c argv = do { c \<leftarrow> g c; Some (s', c, argv') }))"

lemma runsI: "replies (e_junk e) (e_clk e) (e_ae_ok e) g t \<Longrightarrow> (\<And>c. cmd e s c argv = do { c \<leftarrow> g c; Some (s', c, argv') }) \<Longrightarrow>
    runs e cmd s argv s' argv' t"
  unfolding runs_def by blast

lemma runs_out:
  assumes "runs e cmd s argv s' argv' t" "out_ok c"
  shows "\<exists>c'. cmd e s c argv = Some (s', c', argv') \<and> out_ok c' \<and> queued c' = queued c @ (if writes (e_ae_ok e) c then t else [])"
  using assms replies_out[of "e_junk e" "e_clk e" "e_ae_ok e"] unfolding runs_def by fastforce

lemma shared_replies: "length t < 2 ^ 31 \<Longrightarrow> replies (e_junk e) (e_clk e) (e_ae_ok e) (\<lambda>c. reply_shared e c t) (t @ crlf)"
  using replies_object[of "shared_string (t @ crlf)" "e_junk e" "e_clk e" "e_ae_ok e"] shared_string_ok[of "t @ crlf"]
  by (simp add: reply_shared_def crlf_def)

lemma int_replies: "replies (e_junk e) (e_clk e) (e_ae_ok e) (\<lambda>c. reply_int e c v) ([58] @ int_repr (sint v) @ crlf)"
  using replies_longlong by (simp add: reply_int_def crlf_def)

text \<open>Arguments as the parser delivers them.\<close>

definition plain :: "robj \<Rightarrow> bool" where
  "plain o1 \<longleftrightarrow> obj_ok o1 \<and> (\<exists>t. o_ptr o1 = PSds t)"

lemma arg_text_ok: "list_all plain argv \<Longrightarrow> i < length argv \<Longrightarrow> arg_text argv i = Some (obj_text (argv ! i))"
  by (auto simp: list_all_length arg_text_def arg_def plain_def sds_bytes elim!: obj_ok_cases dest!: spec[of _ i])

lemma arg_texts_ok: "list_all plain argv \<Longrightarrow> arg_texts argv = Some (map obj_text argv)"
  using arg_text_ok[of "[_]" 0] by (induction argv) auto

definition ks_ok :: "server_env \<Rightarrow> keyspace \<Rightarrow> bool" where
  "ks_ok e s \<longleftrightarrow> db_ok e (ks_db s) \<and> shared_ok (ks_integers s)"

type_synonym aview = "bytes \<rightharpoonup> content \<times> 64 word option"

text \<open>A command implements an operation \<open>spec\<close> on the map that clients see, which gives the new map and the reply.\<close>

text \<open>A command reports the keys it changes: each key that clients see differently afterwards is among those newly
  reported to the watching clients, unless the database was flushed and the key was there before.\<close>

definition reported :: "server_env \<Rightarrow> keyspace \<Rightarrow> keyspace \<Rightarrow> bool" where
  "reported e s s' \<longleftrightarrow> (\<exists>keys. ks_touched s' = ks_touched s @ keys \<and>
     (\<forall>k. view e (ks_db s') k \<noteq> view e (ks_db s) k \<longrightarrow> k \<in> set keys \<or> (ks_flushed s < ks_flushed s' \<and> k \<in> dom (kmap (ks_db s)))))"

lemma reported_same [simp]: "view e (ks_db s') = view e (ks_db s) \<Longrightarrow> ks_touched s' = ks_touched s \<Longrightarrow> reported e s s'"
  by (simp add: reported_def)

lemma reported_key: "view e (ks_db s') = (view e (ks_db s))(key := c) \<Longrightarrow> ks_touched s' = ks_touched s @ [key] \<Longrightarrow> reported e s s'"
  by (auto simp: reported_def)

lemma reported_removed:
  assumes "view e (ks_db s') = view e (ks_db s) |` (- K)" "ks_touched s' = ks_touched s @ gone" "K \<inter> dom (view e (ks_db s)) \<subseteq> set gone"
  shows "reported e s s'"
proof -
  have "k \<in> set gone" if "view e (ks_db s') k \<noteq> view e (ks_db s) k" for k
  proof -
    have "k \<in> K" using that assms(1) by (metis ComplI restrict_in)
    moreover then have "k \<in> dom (view e (ks_db s))" using that assms(1) by (metis ComplD domIff restrict_out)
    ultimately show ?thesis using assms(3) by blast
  qed
  then show ?thesis using assms(2) by (auto simp: reported_def)
qed

definition implements :: "server_env \<Rightarrow> 'a command \<Rightarrow> keyspace \<Rightarrow> robj list \<Rightarrow> (aview \<Rightarrow> aview \<times> bytes) \<Rightarrow> bool" where
  "implements e cmd s argv spec \<longleftrightarrow> (\<exists>s' argv'. runs e cmd s argv s' argv' (snd (spec (view e (ks_db s)))) \<and> ks_ok e s' \<and>
     view e (ks_db s') = fst (spec (view e (ks_db s))) \<and> db_size (ks_db s') \<le> Suc (db_size (ks_db s)) \<and> reported e s s')"

definition int_reply :: "int \<Rightarrow> bytes" where
  "int_reply i = [58] @ int_repr i @ crlf"

definition error_reply :: "string \<Rightarrow> bytes" where
  "error_reply m = bytes_of_string ''-ERR '' @ bytes_of_string m @ crlf"

definition spec_del :: "bytes list \<Rightarrow> aview \<Rightarrow> aview \<times> bytes" where
  "spec_del keys m = (m |` (- set keys), int_reply (int (card (set keys \<inter> dom m))))"

definition spec_exists :: "bytes list \<Rightarrow> aview \<Rightarrow> aview \<times> bytes" where
  "spec_exists keys m = (m, int_reply (int (length (filter (\<lambda>k. m k \<noteq> None) keys))))"

lemma delete_view:
  assumes "db_ok e (ks_db s)" "\<not> expired e (ks_db s) key"
  shows "\<exists>db. dbDelete e s key = Some (s\<lparr>ks_db := db\<rparr>, key \<in> dom (view e (ks_db s))) \<and> db_ok e db \<and>
    view e db = (view e (ks_db s))(key := None) \<and> db_size db \<le> db_size (ks_db s)"
proof -
  obtain db where db: "dbDelete e s key = Some (s\<lparr>ks_db := db\<rparr>, key \<in> dom (kmap (ks_db s)))" "db_ok e db"
    "kmap db = (kmap (ks_db s))(key := None)" "xmap db = (xmap (ks_db s))(key := None)" using dbDelete_ok[OF assms(1)] by blast
  have "view e db = (view e (ks_db s))(key := None)" by (rule view_remove) (simp_all add: db(3,4))
  moreover have "key \<in> dom (kmap (ks_db s)) \<longleftrightarrow> key \<in> dom (view e (ks_db s))" using view_live[OF assms(2)] by (auto simp: domIff)
  moreover have "db_size db \<le> db_size (ks_db s)" using db(3) by (intro db_size_mono) auto
  ultimately show ?thesis using db(1,2) by auto
qed

lemma del_loop_ok:
  assumes "db_ok e (ks_db s)" "master e"
  shows "\<exists>s'. del_loop e s keys n = Some (s', n + card (set keys \<inter> dom (view e (ks_db s)))) \<and> db_ok e (ks_db s') \<and>
    view e (ks_db s') = view e (ks_db s) |` (- set keys) \<and> ks_integers s' = ks_integers s \<and> db_size (ks_db s') \<le> db_size (ks_db s) \<and>
    (\<exists>gone. ks_touched s' = ks_touched s @ gone \<and> set keys \<inter> dom (view e (ks_db s)) \<subseteq> set gone)"
  using assms(1)
proof (induction keys arbitrary: s n)
  case (Cons key keys)
  obtain s1 where s1: "expireIfNeeded e s key = Some (s1, expired e (ks_db s) key)" "unseen e s s1" "\<not> expired e (ks_db s1) key"
    using expire_unseen[OF Cons.prems assms(2)] by blast
  have ok1: "db_ok e (ks_db s1)" using s1(2) by (simp add: unseen_def)
  let ?m = "view e (ks_db s)"
  obtain db where db: "dbDelete e s1 key = Some (s1\<lparr>ks_db := db\<rparr>, key \<in> dom ?m)" "db_ok e db" "view e db = ?m(key := None)"
    "db_size db \<le> db_size (ks_db s)" using delete_view[OF ok1 s1(3)] s1(2) by (auto simp: unseen_def simp del: fun_upd_apply)
  define s2 where "s2 = (if key \<in> dom ?m then (notifyKeyspaceEvent (signalModifiedKey (s1\<lparr>ks_db := db\<rparr>) key) ''del'' key)\<lparr>ks_dirty := ks_dirty s1 + 1\<rparr> else s1\<lparr>ks_db := db\<rparr>)"
  have s2: "ks_db s2 = db" "ks_integers s2 = ks_integers s" "ks_touched s2 = ks_touched s @ (if key \<in> dom ?m then [key] else [])"
    using s1(2) by (auto simp: s2_def notifyKeyspaceEvent_def signalModifiedKey_def unseen_def)
  have e: "del_loop e s (key # keys) n = del_loop e s2 keys (if key \<in> dom ?m then n + 1 else n)"
    using s1(1) db(1) by (simp add: s2_def)
  have d: "dom (?m(key := None)) = dom ?m - {key}" by auto
  have c: "(if key \<in> dom ?m then n + 1 else n) + card (set keys \<inter> (dom ?m - {key})) = n + card (set (key # keys) \<inter> dom ?m)"
  proof (cases "key \<in> dom ?m")
    case True
    then have "set (key # keys) \<inter> dom ?m = insert key (set keys \<inter> (dom ?m - {key}))" by auto
    moreover have "card (insert key (set keys \<inter> (dom ?m - {key}))) = Suc (card (set keys \<inter> (dom ?m - {key})))" by (subst card_insert_disjoint) auto
    ultimately show ?thesis using True by simp
  next
    case False
    then have "set (key # keys) \<inter> dom ?m = set keys \<inter> (dom ?m - {key})" by auto
    then show ?thesis using False by simp
  qed
  have v: "(?m(key := None)) |` (- set keys) = ?m |` (- set (key # keys))" by (auto simp: restrict_map_def fun_eq_iff)
  obtain s' gone where s': "del_loop e s2 keys (if key \<in> dom ?m then n + 1 else n) = Some (s', n + card (set (key # keys) \<inter> dom ?m))"
    "db_ok e (ks_db s')" "view e (ks_db s') = ?m |` (- set (key # keys))" "ks_integers s' = ks_integers s" "db_size (ks_db s') \<le> db_size (ks_db s)"
    "ks_touched s' = ks_touched s2 @ gone" "set keys \<inter> (dom ?m - {key}) \<subseteq> set gone"
    using Cons.IH[of s2 "if key \<in> dom ?m then n + 1 else n"] s2(1,2) db(2-4) unfolding c[symmetric] v[symmetric] d[symmetric] by fastforce
  let ?gone = "(if key \<in> dom ?m then [key] else []) @ gone"
  have "set (key # keys) \<inter> dom ?m \<subseteq> set ?gone" using s'(7) by auto
  then show ?case using e s' s2(3) by (intro exI[of _ s']) auto
qed (simp add: restrict_map_def)

lemma exists_loop_ok:
  assumes "db_ok e (ks_db s)" "master e"
  shows "\<exists>s'. exists_loop e s keys n = Some (s', n + length (filter (\<lambda>k. view e (ks_db s) k \<noteq> None) keys)) \<and> unseen e s s'"
  using assms(1)
proof (induction keys arbitrary: s n)
  case (Cons key keys)
  obtain s1 where s1: "expireIfNeeded e s key = Some (s1, expired e (ks_db s) key)" "unseen e s s1" "\<not> expired e (ks_db s1) key"
    using expire_unseen[OF Cons.prems assms(2)] by blast
  obtain d r where d: "dictFind (dty e) (db_keys (ks_db s1)) key = Some (d, r)" "db_ok e ((ks_db s1)\<lparr>db_keys := d\<rparr>)" "dict_map d = kmap (ks_db s1)"
    "r = None \<longleftrightarrow> key \<notin> dom (kmap (ks_db s1))" using find_keys[of e "ks_db s1" key] s1(2) by (auto simp: unseen_def)
  let ?s2 = "s1\<lparr>ks_db := (ks_db s1)\<lparr>db_keys := d\<rparr>\<rparr>"
  have "view e (ks_db ?s2) = view e (ks_db s1)" using d(3) cmap_cong[of "ks_db ?s2" "ks_db s1"] by (simp add: view_def expired_def fun_eq_iff)
  moreover have "db_size (ks_db ?s2) \<le> db_size (ks_db s1)" using d(3) by (intro db_size_mono) simp
  ultimately have u: "unseen e s ?s2" using s1(2) d(2) unseen_trans[OF s1(2), of ?s2] by (simp add: unseen_def)
  have b: "r \<noteq> None \<longleftrightarrow> view e (ks_db s) key \<noteq> None" using d(4) view_live[OF s1(3)] s1(2) by (auto simp: unseen_def domIff)
  have "exists_loop e s (key # keys) n = exists_loop e ?s2 keys (if view e (ks_db s) key \<noteq> None then n + 1 else n)"
    using s1(1) d(1) b by (simp add: dbExists_def set_keys_def)
  then show ?case using Cons.IH[of ?s2 "if view e (ks_db s) key \<noteq> None then n + 1 else n"] u unseen_trans[OF u] by (fastforce simp: unseen_def)
qed (simp add: unseen_refl)

definition spec_expire :: "64 word \<Rightarrow> 64 word \<Rightarrow> time_unit \<Rightarrow> bytes \<Rightarrow> bytes \<Rightarrow> aview \<Rightarrow> aview \<times> bytes" where
  "spec_expire now base unit key t m =
     (case text_ll t of
        None \<Rightarrow> (m, error_reply ''value is not an integer or out of range'')
      | Some v \<Rightarrow>
          (case m key of
             None \<Rightarrow> (m, int_reply 0)
           | Some (c, _) \<Rightarrow>
               let w = (if unit = UNIT_SECONDS then v * 1000 else v) + base
               in (if sint w \<le> sint now then m(key := None) else m(key \<mapsto> (c, Some w)), int_reply 1)))"

lemma implementsI:
  assumes "runs e cmd s argv s' argv' t" "ks_ok e s'" "view e (ks_db s') = m" "db_size (ks_db s') \<le> Suc (db_size (ks_db s))"
    "spec (view e (ks_db s)) = (m, t)" "reported e s s'"
  shows "implements e cmd s argv spec"
  using assms unfolding implements_def by auto

lemma reply_int_nat: "n < 2 ^ 63 \<Longrightarrow> replies (e_junk e) (e_clk e) (e_ae_ok e) (\<lambda>c. reply_int e c (of_nat n)) (int_reply (int n))"
  using int_replies[of e "of_nat n"] sint_of_length[of n] by (simp add: int_reply_def)

lemma count_bound: "card (set keys \<inter> A) \<le> length keys"
  by (rule order_trans[OF card_mono card_length]) auto

lemma del_implements:
  assumes "ks_ok e s" "master e" "list_all plain argv" "length argv < 2 ^ 63"
  shows "implements e delCommand s argv (spec_del (map obj_text (drop 1 argv)))"
proof -
  let ?keys = "map obj_text (drop 1 argv)" and ?m = "view e (ks_db s)"
  have ok: "db_ok e (ks_db s)" using assms(1) by (simp add: ks_ok_def)
  obtain s' where s': "del_loop e s ?keys 0 = Some (s', card (set ?keys \<inter> dom ?m))" "db_ok e (ks_db s')"
    "view e (ks_db s') = ?m |` (- set ?keys)" "ks_integers s' = ks_integers s" "db_size (ks_db s') \<le> db_size (ks_db s)"
    and gone: "\<exists>gone. ks_touched s' = ks_touched s @ gone \<and> set ?keys \<inter> dom ?m \<subseteq> set gone"
    using del_loop_ok[OF ok assms(2), of ?keys 0] by auto
  have "reported e s s'" using gone reported_removed[OF s'(3)] by blast
  have t: "arg_texts (drop 1 argv) = Some ?keys" using assms(3) by (intro arg_texts_ok) (auto simp: list_all_iff dest: in_set_dropD)
  have "card (set ?keys \<inter> dom ?m) < 2 ^ 63" using count_bound[of ?keys "dom ?m"] assms(4) by simp
  then have rn: "runs e delCommand s argv s' argv (int_reply (int (card (set ?keys \<inter> dom ?m))))"
    by (intro runsI[OF reply_int_nat]) (simp_all add: delCommand_def t s'(1) del: One_nat_def)
  show ?thesis by (rule implementsI[OF rn]) (use s' assms(1) \<open>reported e s s'\<close> in \<open>simp_all add: ks_ok_def spec_del_def del: One_nat_def\<close>)
qed

lemma exists_implements:
  assumes "ks_ok e s" "master e" "list_all plain argv" "length argv < 2 ^ 63"
  shows "implements e existsCommand s argv (spec_exists (map obj_text (drop 1 argv)))"
proof -
  let ?keys = "map obj_text (drop 1 argv)" and ?m = "view e (ks_db s)"
  have ok: "db_ok e (ks_db s)" using assms(1) by (simp add: ks_ok_def)
  obtain s' where s': "exists_loop e s ?keys 0 = Some (s', length (filter (\<lambda>k. ?m k \<noteq> None) ?keys))" "unseen e s s'"
    using exists_loop_ok[OF ok assms(2), of ?keys 0] by auto
  have t: "arg_texts (drop 1 argv) = Some ?keys" using assms(3) by (intro arg_texts_ok) (auto simp: list_all_iff dest: in_set_dropD)
  have "length (filter (\<lambda>k. ?m k \<noteq> None) ?keys) < 2 ^ 63" using length_filter_le[of "\<lambda>k. ?m k \<noteq> None" ?keys] assms(4) by simp
  then have "runs e existsCommand s argv s' argv (int_reply (int (length (filter (\<lambda>k. ?m k \<noteq> None) ?keys))))"
    by (intro runsI[OF reply_int_nat]) (simp_all add: existsCommand_def t s'(1) del: One_nat_def)
  then show ?thesis by (rule implementsI) (use s'(2) assms(1) in \<open>simp_all add: ks_ok_def spec_exists_def unseen_def reported_same\<close>)
qed

text \<open>Reading a number from an argument.\<close>

lemma getLL_arg:
  assumes "list_all plain argv" "i < length argv"
  shows "getLongLongFromObjectOrReply e c (arg argv i) None = (case text_ll (obj_text (argv ! i)) of
     None \<Rightarrow> do { c \<leftarrow> addReplyError (e_ae_ok e) c ''value is not an integer or out of range''; Some (c, None) }
   | Some v \<Rightarrow> Some (c, Some v))"
proof -
  have "obj_ok (argv ! i)" using assms by (simp add: list_all_length plain_def)
  then show ?thesis using assms(2) by (simp add: getLongLongFromObjectOrReply_def arg_def getLongLong_ok split: option.split)
qed

lemma error_replies: "replies (e_junk e) (e_clk e) (e_ae_ok e) (\<lambda>c. addReplyError (e_ae_ok e) c m) (error_reply m)"
  using replies_error by (simp add: addReplyError_def error_reply_def crlf_def)

lemma one_zero_replies:
  "replies (e_junk e) (e_clk e) (e_ae_ok e) (\<lambda>c. reply_shared e c (bytes_of_string '':0'')) (int_reply 0)"
  "replies (e_junk e) (e_clk e) (e_ae_ok e) (\<lambda>c. reply_shared e c (bytes_of_string '':1'')) (int_reply 1)"
  using shared_replies[of "bytes_of_string '':0''" e] shared_replies[of "bytes_of_string '':1''" e]
  by (simp_all add: int_reply_def bytes_of_string_def int_repr_def dec_repr.simps)

lemma expire_implements:
  assumes "ks_ok e s" "master e" "list_all plain argv" "length argv = 3" "room (ks_db s)"
  shows "implements e (expireGenericCommand base unit) s argv (spec_expire (e_now e) base unit (obj_text (argv ! 1)) (obj_text (argv ! 2)))"
proof -
  let ?key = "obj_text (argv ! 1)" and ?t = "obj_text (argv ! 2)" and ?m = "view e (ks_db s)"
  have ok: "db_ok e (ks_db s)" using assms(1) by (simp add: ks_ok_def)
  have k: "arg_text argv 1 = Some ?key" using arg_text_ok[OF assms(3), of 1] assms(4) by simp
  have i2: "2 < length argv" using assms(4) by simp
  note ll = getLL_arg[OF assms(3) i2]
  note unf = expireGenericCommand_def k ll Option.bind.bind_lunit
  show ?thesis
  proof (cases "text_ll ?t")
    case None
    have "runs e (expireGenericCommand base unit) s argv s argv (error_reply ''value is not an integer or out of range'')"
      by (rule runsI[OF error_replies]) (simp add: unf None del: One_nat_def)
    then show ?thesis by (rule implementsI) (use assms(1) None in \<open>simp_all add: spec_expire_def reported_same\<close>)
  next
    case (Some v)
    define w where "w = (if unit = UNIT_SECONDS then v * 1000 else v) + base"
    obtain s1 where s1: "lookupKeyRead e s ?key = Some (s1, kmap (ks_db s1) ?key)" "unseen e s s1" "\<not> expired e (ks_db s1) ?key"
      using lookupRead_ok[OF ok assms(2)] by blast
    have ok1: "db_ok e (ks_db s1)" "view e (ks_db s1) = ?m" "ks_integers s1 = ks_integers s" "db_size (ks_db s1) \<le> db_size (ks_db s)" "ks_touched s1 = ks_touched s"
      using s1(2) by (simp_all add: unseen_def)
    have vk: "?m ?key = map_option (\<lambda>o1. (content_of o1, xmap (ks_db s1) ?key)) (kmap (ks_db s1) ?key)" using view_live[OF s1(3)] ok1(2) by simp
    show ?thesis
    proof (cases "kmap (ks_db s1) ?key")
      case None
      have "runs e (expireGenericCommand base unit) s argv s1 argv (int_reply 0)"
        by (rule runsI[OF one_zero_replies(1)]) (simp add: unf Some s1(1) None del: One_nat_def)
      then show ?thesis by (rule implementsI) (use assms(1) ok1 None Some vk in \<open>simp_all add: spec_expire_def ks_ok_def reported_same\<close>)
    next
      case (Some o1)
      show ?thesis
      proof (cases "sint w \<le> sint (e_now e)")
        case True
        obtain db where db: "dbDelete e s1 ?key = Some (s1\<lparr>ks_db := db\<rparr>, True)" "db_ok e db" "view e db = ?m(?key := None)" "db_size db \<le> db_size (ks_db s)"
          using delete_view[OF ok1(1) s1(3)] ok1 vk Some by (auto simp: domIff)
        obtain aux where aux: "createStringObject (e_junk e) (e_clk e) (Some (bytes_of_string ''DEL'')) 3 = Some aux"
          using string_ok[of 3 "Some (bytes_of_string ''DEL'')" "e_junk e" "e_clk e"] by (auto simp: bytes_of_string_def)
        define s2 where "s2 = notifyKeyspaceEvent (signalModifiedKey (s1\<lparr>ks_db := db, ks_dirty := ks_dirty s1 + 1\<rparr>) ?key) ''del'' ?key"
        have s2: "ks_db s2 = db" "ks_integers s2 = ks_integers s" "ks_touched s2 = ks_touched s @ [?key]" using ok1(3,5) by (simp_all add: s2_def notifyKeyspaceEvent_def signalModifiedKey_def)
        have "runs e (expireGenericCommand base unit) s argv s2 [aux, argv ! 1] (int_reply 1)"
          by (rule runsI[OF one_zero_replies(2)])
            (use True db(1) aux assms(2) Some \<open>text_ll ?t = Some v\<close> in \<open>simp add: unf s1(1) w_def[symmetric] master_def Let_def s2_def del: One_nat_def\<close>)
        then show ?thesis
          by (rule implementsI) (use assms(1) db s2 True vk Some \<open>text_ll ?t = Some v\<close> reported_key[of e s2 s ?key] in \<open>simp_all add: spec_expire_def ks_ok_def w_def[symmetric] del: fun_upd_apply\<close>)
      next
        case False
        obtain db where db: "setExpire e s1 ?key w = Some (s1\<lparr>ks_db := db\<rparr>)" "db_ok e db" "kmap db = kmap (ks_db s1)" "xmap db = (xmap (ks_db s1))(?key \<mapsto> w)"
          using setExpire_ok[OF ok1(1) _ unseen_room[OF s1(2) assms(5)], of ?key w] Some by auto
        have "view e db = (view e (ks_db s1))(?key \<mapsto> (content_of o1, xmap db ?key))"
          using False db(3,4) Some by (intro view_update) (auto simp: expired_def)
        then have v: "view e db = ?m(?key \<mapsto> (content_of o1, Some w))" using ok1(2) db(4) by simp
        have sz: "db_size db \<le> db_size (ks_db s)" using db_size_mono[of db "ks_db s1"] db(3) ok1(4) by simp
        define s2 where "s2 = (notifyKeyspaceEvent (signalModifiedKey (s1\<lparr>ks_db := db\<rparr>) ?key) ''expire'' ?key)\<lparr>ks_dirty := ks_dirty s1 + 1\<rparr>"
        have s2: "ks_db s2 = db" "ks_integers s2 = ks_integers s" "ks_touched s2 = ks_touched s @ [?key]" using ok1(3,5) by (simp_all add: s2_def notifyKeyspaceEvent_def signalModifiedKey_def)
        have "runs e (expireGenericCommand base unit) s argv s2 argv (int_reply 1)"
          by (rule runsI[OF one_zero_replies(2)])
            (use False db(1) Some \<open>text_ll ?t = Some v\<close> in \<open>simp add: unf s1(1) w_def[symmetric] Let_def s2_def notifyKeyspaceEvent_def signalModifiedKey_def del: One_nat_def\<close>)
        then show ?thesis
          by (rule implementsI) (use assms(1) db(2) v sz s2 False vk Some \<open>text_ll ?t = Some v\<close> reported_key[of e s2 s ?key] in \<open>simp_all add: spec_expire_def ks_ok_def w_def[symmetric] del: fun_upd_apply\<close>)
      qed
    qed
  qed
qed

text \<open>What a lookup does to an expired key, in terms of the tables.\<close>

lemma lookup_expires:
  fixes key :: bytes
  assumes "db_ok e (ks_db s)" "master e"
  defines "x \<equiv> expired e (ks_db s) key"
  shows "\<exists>s'. lookupKeyRead e s key = Some (s', if x then None else kmap (ks_db s') key) \<and>
    cmap (ks_db s') = (if x then (cmap (ks_db s))(key := None) else cmap (ks_db s)) \<and>
    xmap (ks_db s') = (if x then (xmap (ks_db s))(key := None) else xmap (ks_db s)) \<and>
    ks_propagated s' = ks_propagated s @ (if x then [[bytes_of_string ''DEL'', key]] else []) \<and>
    ks_expired s' = ks_expired s + (if x then 1 else 0)"
proof -
  obtain db where d: "expireIfNeeded e s key = Some ((if x then note_expired s key else s)\<lparr>ks_db := db\<rparr>, x)" "db_ok e db"
    "kmap db = (if x then (kmap (ks_db s))(key := None) else kmap (ks_db s))" "xmap db = (if x then (xmap (ks_db s))(key := None) else xmap (ks_db s))"
    using expireIfNeeded_ok[OF assms(1,2), of key] unfolding x_def by blast
  let ?s1 = "(if x then note_expired s key else s)\<lparr>ks_db := db\<rparr>"
  obtain db2 where l: "lookupKey e ?s1 key = Some (?s1\<lparr>ks_db := db2\<rparr>, kmap db2 key)" "db_ok e db2" "cmap db2 = cmap db" "xmap db2 = xmap db"
    using lookupKey_ok[of e ?s1 key] d(2) by auto
  have c: "cmap db = (if x then (cmap (ks_db s))(key := None) else cmap (ks_db s))" using d(3) by (auto simp: cmap_def fun_eq_iff)
  have n: "kmap db2 key = None" if x using that d(3) fun_cong[OF l(3), of key] by (simp add: cmap_def)
  define s' where "s' = (if kmap db2 key = None then (?s1\<lparr>ks_db := db2\<rparr>)\<lparr>ks_misses := ks_misses ?s1 + 1\<rparr> else (?s1\<lparr>ks_db := db2\<rparr>)\<lparr>ks_hits := ks_hits ?s1 + 1\<rparr>)"
  have "lookupKeyRead e s key = Some (s', if x then None else kmap (ks_db s') key)"
    using n by (simp add: lookupKeyRead_def d(1) l(1) s'_def)
  moreover have "ks_db s' = db2" "ks_propagated s' = ks_propagated s @ (if x then [[bytes_of_string ''DEL'', key]] else [])" "ks_expired s' = ks_expired s + (if x then 1 else 0)"
    by (auto simp: s'_def note_expired_def notifyKeyspaceEvent_def propagateExpire_def)
  ultimately show ?thesis using l(3,4) c d(4) by (intro exI[of _ s']) simp
qed

text \<open>On a slave the key stays until the master sends its deletion, and the lookup shows it.\<close>

lemma lookup_on_slave:
  assumes "db_ok e (ks_db s)" "e_slave e" "\<not> e_loading e" "kmap (ks_db s) key \<noteq> None"
  shows "\<exists>s' o1. lookupKeyRead e s key = Some (s', Some o1) \<and> cmap (ks_db s) key = Some (content_of o1) \<and>
    cmap (ks_db s') = cmap (ks_db s) \<and> xmap (ks_db s') = xmap (ks_db s) \<and> ks_propagated s' = ks_propagated s"
proof -
  obtain db w where g: "getExpire e s key = Some (s\<lparr>ks_db := db\<rparr>, w)" "db_ok e db" "kmap db = kmap (ks_db s)" "xmap db = xmap (ks_db s)"
    using getExpire_ok[OF assms(1), of key] by blast
  then obtain b where x: "expireIfNeeded e s key = Some (s\<lparr>ks_db := db\<rparr>, b)"
    using assms(2,3) by (cases "sint w < 0") (simp_all add: expireIfNeeded_def Let_def)
  obtain db2 where l: "lookupKey e (s\<lparr>ks_db := db\<rparr>) key = Some (s\<lparr>ks_db := db2\<rparr>, kmap db2 key)" "cmap db2 = cmap db" "xmap db2 = xmap db"
    using lookupKey_ok[of e "s\<lparr>ks_db := db\<rparr>" key] g(2) by auto
  have c: "cmap db = cmap (ks_db s)" by (rule cmap_cong[OF g(3)])
  obtain o1 where o1: "kmap db2 key = Some o1" using assms(4) fun_cong[OF l(2), of key] g(3) by (auto simp: cmap_def)
  then have "cmap (ks_db s) key = Some (content_of o1)" using l(2) c by (metis cmap_def option.simps(9))
  then show ?thesis using x l c g(4) o1 by (auto simp: lookupKeyRead_def)
qed

lemma persist_runs:
  assumes "db_ok e (ks_db s)" "list_all plain argv" "1 < length argv" "kmap (ks_db s) (obj_text (argv ! 1)) = Some o1" "xmap (ks_db s) (obj_text (argv ! 1)) = Some w"
  shows "\<exists>s'. runs e (persistCommand :: 'a command) s argv s' argv (int_reply 1) \<and> kmap (ks_db s') = kmap (ks_db s) \<and>
    xmap (ks_db s') = (xmap (ks_db s))(obj_text (argv ! 1) := None) \<and> ks_touched s' = ks_touched s"
proof -
  let ?key = "obj_text (argv ! 1)"
  obtain d r where d: "dictFind (dty e) (db_keys (ks_db s)) ?key = Some (d, r)" "db_ok e ((ks_db s)\<lparr>db_keys := d\<rparr>)" "dict_map d = kmap (ks_db s)" "r \<noteq> None"
    using find_keys[OF assms(1), of ?key] assms(4) by (auto simp: domIff)
  obtain x where r: "r = Some x" using d(4) by blast
  let ?s1 = "set_keys s d"
  have k1: "kmap (ks_db ?s1) = kmap (ks_db s)" "xmap (ks_db ?s1) = xmap (ks_db s)" "db_ok e (ks_db ?s1)" using d by (simp_all add: set_keys_def)
  obtain db where db: "removeExpire e ?s1 ?key = Some (?s1\<lparr>ks_db := db\<rparr>, True)" "kmap db = kmap (ks_db s)" "xmap db = (xmap (ks_db s))(?key := None)"
    using removeExpire_ok[OF k1(3), of ?key] k1 assms(4,5) by (auto simp: domIff)
  let ?s2 = "?s1\<lparr>ks_db := db, ks_dirty := ks_dirty s + 1\<rparr>"
  have "runs e (persistCommand :: 'a command) s argv ?s2 argv (int_reply 1)"
    by (rule runsI[OF one_zero_replies(2)]) (use d(1) r db(1) in \<open>simp add: persistCommand_def Let_def arg_text_ok[OF assms(2,3)] set_keys_def del: One_nat_def\<close>)
  then show ?thesis using db(2,3) by (intro exI[of _ ?s2]) (simp add: set_keys_def)
qed

lemma runs_writes:
  assumes "runs e cmd s argv s' argv' t" "out_ok c" "writes (e_ae_ok e) c"
  shows "\<exists>c'. cmd e s c argv = Some (s', c', argv') \<and> out_ok c' \<and> writes (e_ae_ok e) c' \<and> queued c' = queued c @ t"
proof -
  obtain g where g: "replies (e_junk e) (e_clk e) (e_ae_ok e) g t" "\<And>c. cmd e s c argv = do { c \<leftarrow> g c; Some (s', c, argv') }"
    using assms(1) unfolding runs_def by blast
  show ?thesis using replies_out[OF g(1) assms(2)] assms(3) g(2) by auto
qed

section \<open>Samples\<close>

definition sample_env :: "64 word \<Rightarrow> server_env" where
  "sample_env now = \<lparr>e_seed = 5381, e_resize = True, e_junk = (\<lambda>_. 0), e_val = str_obj [], e_when = 0, e_clk = 0, e_now = now, e_ae_ok = True,
     e_loading = False, e_slave = False, e_lua = None, e_child = False, e_mem = \<lparr>maxmemory = 0, maxmemory_policy = NO_EVICTION\<rparr>\<rparr>"

definition one_entry :: "bytes \<Rightarrow> 'v \<Rightarrow> (bytes, 'v) dict" where
  "one_entry k v = \<lparr>d_ht0 = \<lparr>ht_table = [[(k, v)]], ht_size = 1, ht_sizemask = 0, ht_used = 1\<rparr>, d_ht1 = dictReset, d_rehashidx = -1, d_iterators = 0\<rparr>"

definition keyspace_of :: "redisDb \<Rightarrow> keyspace" where
  "keyspace_of db = \<lparr>ks_db = db, ks_hits = 0, ks_misses = 0, ks_expired = 0, ks_dirty = 0, ks_propagated = [], ks_touched = [], ks_flushed = 0,
     ks_events = [], ks_ready = [], ks_integers = createSharedIntegers 0\<rparr>"

definition no_keys :: keyspace where
  "no_keys = keyspace_of \<lparr>db_keys = dictCreate, db_expires = dictCreate\<rparr>"

definition one_key :: "bytes \<Rightarrow> robj \<Rightarrow> 64 word \<Rightarrow> keyspace" where
  "one_key k v x = keyspace_of \<lparr>db_keys = one_entry k v, db_expires = one_entry k x\<rparr>"

lemma sample_env_simps [simp]: "master (sample_env now)" "e_now (sample_env now) = now" "e_seed (sample_env now) = 5381" "e_ae_ok (sample_env now)"
  by (simp_all add: sample_env_def master_def)

lemma one_entry_ok: "dict_ok ty (one_entry k v)" "dict_map (one_entry k v) = [k \<mapsto> v]"
  by (auto simp: one_entry_def dict_ok_def dict_map_def dict_entries_def ht_entries_def dictReset_def ht_live_def dictIsRehashing_def intro!: exI[of _ 0])

lemma no_keys_ok: "ks_ok e no_keys" "view e (ks_db no_keys) = Map.empty" "db_size (ks_db no_keys) = 0"
proof -
  have d: "dict_ok ty (dictCreate :: (bytes, 'b) dict)" "dict_map (dictCreate :: (bytes, 'b) dict) = Map.empty" for ty
    by (simp_all add: dictCreate_def dict_ok_def dict_map_def dict_entries_def ht_entries_def dictReset_def dictIsRehashing_def)
  have km: "kmap (ks_db no_keys) = Map.empty" "xmap (ks_db no_keys) = Map.empty" by (simp_all add: no_keys_def keyspace_of_def kmap_def xmap_def d)
  show "ks_ok e no_keys" by (simp add: ks_ok_def db_ok_def km) (simp add: no_keys_def keyspace_of_def d shared_integers_ok)
  show "view e (ks_db no_keys) = Map.empty" by (simp add: view_def[abs_def] cmap_def km fun_eq_iff)
  show "db_size (ks_db no_keys) = 0" by (simp add: db_size_def km)
qed

lemma one_key_ok:
  assumes "obj_ok v"
  shows "ks_ok e (one_key k v x)" "kmap (ks_db (one_key k v x)) = [k \<mapsto> v]" "xmap (ks_db (one_key k v x)) = [k \<mapsto> x]"
proof -
  show km: "kmap (ks_db (one_key k v x)) = [k \<mapsto> v]" "xmap (ks_db (one_key k v x)) = [k \<mapsto> x]"
    by (simp_all add: one_key_def keyspace_of_def kmap_def xmap_def one_entry_ok)
  show "ks_ok e (one_key k v x)" using assms
    by (simp add: ks_ok_def db_ok_def km val_ok_def) (simp add: one_key_def keyspace_of_def one_entry_ok shared_integers_ok)
qed

lemma plain_str [simp]: "length t < 2 ^ 32 \<Longrightarrow> plain (str_obj t)"
  by (simp add: plain_def) (simp add: str_obj_def createObject_def)

definition fresh_client :: out_client where
  "fresh_client = \<lparr>k_fd = 5, k_lua = False, k_master = False, k_master_force = False, k_close_after_reply = False, k_close_asap = False,
     k_replstate = 0, k_put_online_on_ack = False, k_handler = False, k_buf = replicate REDIS_REPLY_CHUNK_BYTES 0, k_bufpos = 0,
     k_reply = [], k_sentlen = 0\<rparr>"

lemma fresh_client_ok [simp]: "out_ok fresh_client" "writes True fresh_client" "queued fresh_client = []"
  by (simp_all add: fresh_client_def out_ok_def writes_def prepareClientToWrite_def queued_def REDIS_REPL_NONE_def)

section \<open>Properties\<close>

text \<open>C9. A read of a key whose time has passed.  On a master the lookup answers that there is no such key, removes it from
  the dictionary of keys and from that of the expire times, leaves the contents and expire times of all other keys as
  they were, and sends a \<open>DEL\<close> of the key to the append-only file and the slaves.  On a slave it shows the key's
  contents, deletes nothing and sends nothing: the key stays until the master's \<open>DEL\<close> arrives.\<close>

theorem expired_key_lookup:
  assumes "db_ok e (ks_db s)" "expired e (ks_db s) key"
  shows "(master e \<longrightarrow> (\<exists>s'. lookupKeyRead e s key = Some (s', None) \<and> cmap (ks_db s') = (cmap (ks_db s))(key := None) \<and>
      xmap (ks_db s') = (xmap (ks_db s))(key := None) \<and> ks_propagated s' = ks_propagated s @ [[bytes_of_string ''DEL'', key]])) \<and>
    (e_slave e \<longrightarrow> \<not> e_loading e \<longrightarrow> (\<exists>s' o1. lookupKeyRead e s key = Some (s', Some o1) \<and> cmap (ks_db s) key = Some (content_of o1) \<and>
      cmap (ks_db s') = cmap (ks_db s) \<and> xmap (ks_db s') = xmap (ks_db s) \<and> ks_propagated s' = ks_propagated s))"
proof -
  have "key \<in> dom (xmap (ks_db s))" using assms(2) by (auto simp: expired_def split: option.splits)
  then have "kmap (ks_db s) key \<noteq> None" using db_okD(3)[OF assms(1)] by blast
  moreover have "\<exists>s'. lookupKeyRead e s key = Some (s', None) \<and> cmap (ks_db s') = (cmap (ks_db s))(key := None) \<and>
      xmap (ks_db s') = (xmap (ks_db s))(key := None) \<and> ks_propagated s' = ks_propagated s @ [[bytes_of_string ''DEL'', key]]" if "master e"
    using lookup_expires[OF assms(1) that, of key] assms(2) by auto
  ultimately show ?thesis using lookup_on_slave[OF assms(1), of key] by blast
qed

theorem expired_key_lookup_witness:
  "(\<exists>s'. lookupKeyRead (sample_env 8) (one_key [107] (str_obj [53]) 7) [107] = Some (s', None) \<and> cmap (ks_db s') [107] = None \<and>
      ks_propagated s' = [[bytes_of_string ''DEL'', [107]]]) \<and>
   (\<exists>s' o1. lookupKeyRead ((sample_env 8)\<lparr>e_slave := True\<rparr>) (one_key [107] (str_obj [53]) 7) [107] = Some (s', Some o1) \<and> ks_propagated s' = [])"
proof -
  let ?s = "one_key [107] (str_obj [53]) 7"
  have ok: "db_ok e (ks_db ?s)" "e_now e = 8 \<Longrightarrow> expired e (ks_db ?s) [107]" for e using one_key_ok[of "str_obj [53]"] by (simp_all add: ks_ok_def expired_def)
  have "ks_propagated ?s = []" by (simp add: one_key_def keyspace_of_def)
  moreover have "\<not> e_loading (sample_env 8)" by (simp add: sample_env_def)
  ultimately show ?thesis
    using expired_key_lookup[OF ok, of "sample_env 8"] expired_key_lookup[OF ok, of "(sample_env 8)\<lparr>e_slave := True\<rparr>"] by auto
qed

text \<open>C38. \<open>PERSIST\<close> does not look at the clock: on a key whose time has passed and that was not deleted yet it answers 1,
  and the key that no client could see is visible again, with no expire time.  The clients that watch the key are not
  told.\<close>

theorem persist_revives:
  assumes "db_ok e (ks_db s)" "expired e (ks_db s) key" "argv = [cmd, karg]" "list_all plain argv" "obj_text karg = key" "out_ok c" "writes (e_ae_ok e) c"
  shows "\<exists>s' c'. persistCommand e s c argv = Some (s', c', argv) \<and> queued c' = queued c @ int_reply 1 \<and> view e (ks_db s) key = None \<and>
    view e (ks_db s') key = map_option (\<lambda>v. (v, None)) (cmap (ks_db s) key) \<and> cmap (ks_db s) key \<noteq> None \<and> ks_touched s' = ks_touched s"
proof -
  obtain w where x: "xmap (ks_db s) key = Some w" using assms(2) by (auto simp: expired_def split: option.splits)
  moreover obtain o1 where k: "kmap (ks_db s) key = Some o1" using x assms(1) by (force simp: db_ok_def)
  ultimately obtain s' where s': "runs e (persistCommand :: 'a command) s argv s' argv (int_reply 1)" "kmap (ks_db s') = kmap (ks_db s)"
    "xmap (ks_db s') = (xmap (ks_db s))(key := None)" "ks_touched s' = ks_touched s"
    using persist_runs[OF assms(1,4), of o1 w] assms(3,5) by auto
  obtain c' where "persistCommand e s c argv = Some (s', c', argv)" "queued c' = queued c @ int_reply 1" using runs_writes[OF s'(1) assms(6,7)] by auto
  moreover have "view e (ks_db s') key = Some (content_of o1, None)" using s'(2,3) k by (simp add: view_def expired_def cmap_def)
  ultimately show ?thesis using assms(2) s'(4) k by (auto simp: view_def cmap_def)
qed

theorem persist_revives_witness:
  "\<exists>s' c'. persistCommand (sample_env 8) (one_key [107] (str_obj [53]) 7) fresh_client [str_obj [80], str_obj [107]] = Some (s', c', [str_obj [80], str_obj [107]]) \<and>
    queued c' = int_reply 1 \<and> view (sample_env 8) (ks_db (one_key [107] (str_obj [53]) 7)) [107] = None \<and> view (sample_env 8) (ks_db s') [107] = Some (AStr [53], None)"
proof -
  let ?s = "one_key [107] (str_obj [53]) 7" and ?e = "sample_env 8"
  have ok: "db_ok ?e (ks_db ?s)" "expired ?e (ks_db ?s) [107]" "cmap (ks_db ?s) [107] = Some (AStr [53])"
    using one_key_ok[of "str_obj [53]"] by (simp_all add: ks_ok_def expired_def cmap_def content_of_def) (simp add: str_obj_def createObject_def)
  show ?thesis using persist_revives[OF ok(1,2) refl, of "str_obj [80]" "str_obj [107]" fresh_client] ok(3) by auto
qed

end
