(* ===== verification/Redis_String.thy ===== *)
theory Redis_String
  imports Redis_Db
begin

text \<open>
  \<open>t_string.c\<close>: the commands on string values.

  The commands are translated over the keyspace of \<open>Redis_Db\<close>, the objects of \<open>Redis_Object\<close>, the strings of
  \<open>Redis_Sds\<close> and the replies of \<open>Redis_Reply\<close>, with the order of lookups, encodings, updates and replies of the code.
  \<open>INCRBYFLOAT\<close> (floating point) and \<open>MSET\<close> are not modelled.

  The main result: on a master each command implements an operation on the map from keys to contents and expire times
  that clients see: the reply on the wire and the new map depend only on the map, whatever the encodings of the objects
  and the state of the hash tables.
\<close>

section \<open>The code\<close>

definition checkStringLength :: "server_env \<Rightarrow> 'a out_client_scheme \<Rightarrow> 64 word \<Rightarrow> ('a out_client_scheme \<times> bool) option" where
  "checkStringLength e c sz =
     (if sint sz > 512 * 1024 * 1024
      then do { c \<leftarrow> addReplyError (e_ae_ok e) c ''string exceeds maximum allowed size (512MB)''; Some (c, False) }
      else Some (c, True))"

text \<open>The two lookups guarded by the flags, in the order of the condition; the second is skipped when the first
  decides.\<close>

definition set_aborts :: "server_env \<Rightarrow> keyspace \<Rightarrow> bool \<Rightarrow> bool \<Rightarrow> bytes \<Rightarrow> (keyspace \<times> bool) option" where
  "set_aborts e s nx xx key = do {
     (s, busy) \<leftarrow> (if nx then do { (s, o1) \<leftarrow> lookupKeyWrite e s key; Some (s, o1 \<noteq> None) } else Some (s, False));
     (if busy then Some (s, True)
      else if xx then do { (s, o1) \<leftarrow> lookupKeyWrite e s key; Some (s, o1 = None) }
      else Some (s, False))
   }"

definition setGenericCommand ::
  "string \<Rightarrow> bool \<Rightarrow> bool \<Rightarrow> nat \<Rightarrow> nat \<Rightarrow> robj option \<Rightarrow> time_unit \<Rightarrow> bytes option \<Rightarrow> bytes option \<Rightarrow> 'a command" where
  "setGenericCommand name nx xx ikey ival expire unit ok_reply abort_reply e s c argv = do {
     (c, ms) \<leftarrow> (case expire of
        None \<Rightarrow> Some (c, Some 0)
      | Some x \<Rightarrow> do {
          (c, r) \<leftarrow> getLongLongFromObjectOrReply e c (Some x) None;
          (case r of
             None \<Rightarrow> Some (c, None)
           | Some v \<Rightarrow>
               if sint v \<le> 0 then do { c \<leftarrow> addReplyError (e_ae_ok e) c (''invalid expire time in '' @ name); Some (c, None) }
               else Some (c, Some (if unit = UNIT_SECONDS then v * 1000 else v)))
        });
     (case ms of
        None \<Rightarrow> Some (s, c, argv)
      | Some ms \<Rightarrow> do {
          key \<leftarrow> arg_text argv ikey;
          val \<leftarrow> arg argv ival;
          (s, abort) \<leftarrow> set_aborts e s nx xx key;
          (if abort then do {
             c \<leftarrow> reply_shared e c (case abort_reply of Some r \<Rightarrow> r | None \<Rightarrow> bytes_of_string ''$-1'');
             Some (s, c, argv)
           } else do {
             s \<leftarrow> setKey e s key val;
             let s = s\<lparr>ks_dirty := ks_dirty s + 1\<rparr>;
             s \<leftarrow> (if expire \<noteq> None then setExpire e s key (e_now e + ms) else Some s);
             let s = notifyKeyspaceEvent s ''set'' key;
             let s = (if expire \<noteq> None then notifyKeyspaceEvent s ''expire'' key else s);
             c \<leftarrow> reply_shared e c (case ok_reply of Some r \<Rightarrow> r | None \<Rightarrow> bytes_of_string ''+OK'');
             Some (s, c, argv)
           })
        })
   }"

definition opt_is :: "bytes \<Rightarrow> byte \<Rightarrow> byte \<Rightarrow> bool" where
  "opt_is a lo up \<longleftrightarrow> (chr a 0 = lo \<or> chr a 0 = up) \<and> (chr a 1 = 120 \<or> chr a 1 = 88) \<and> chr a 2 = 0"

text \<open>The options of \<open>SET\<close>; \<open>Some None\<close> is the syntax error.\<close>

fun set_options :: "robj list \<Rightarrow> bool \<Rightarrow> bool \<Rightarrow> robj option \<Rightarrow> time_unit \<Rightarrow> (bool \<times> bool \<times> robj option \<times> time_unit) option option" where
  "set_options [] nx xx expire unit = Some (Some (nx, xx, expire, unit))"
| "set_options (x # rest) nx xx expire unit = do {
     a \<leftarrow> arg_text [x] 0;
     (if opt_is a 110 78 then set_options rest True xx expire unit
      else if opt_is a 120 88 then set_options rest nx True expire unit
      else case rest of
        [] \<Rightarrow> Some None
      | next # rest \<Rightarrow>
          if opt_is a 101 69 then set_options rest nx xx (Some next) UNIT_SECONDS
          else if opt_is a 112 80 then set_options rest nx xx (Some next) UNIT_MILLISECONDS
          else Some None)
   }"

definition encode_arg :: "server_env \<Rightarrow> keyspace \<Rightarrow> robj list \<Rightarrow> nat \<Rightarrow> (keyspace \<times> robj list) option" where
  "encode_arg e s argv i = do {
     o1 \<leftarrow> arg argv i;
     (sh, o2) \<leftarrow> tryObjectEncoding (e_junk e) (e_clk e) (e_mem e) (ks_integers s) o1;
     Some (s\<lparr>ks_integers := sh\<rparr>, argv[i := o2])
   }"

definition setCommand :: "'a command" where
  "setCommand e s c argv = do {
     r \<leftarrow> set_options (drop 3 argv) False False None UNIT_SECONDS;
     (case r of
        None \<Rightarrow> do { c \<leftarrow> reply_shared e c (bytes_of_string ''-ERR syntax error''); Some (s, c, argv) }
      | Some (nx, xx, expire, unit) \<Rightarrow> do {
          (s, argv) \<leftarrow> encode_arg e s argv 2;
          setGenericCommand ''set'' nx xx 1 2 expire unit None None e s c argv
        })
   }"

definition setnxCommand :: "'a command" where
  "setnxCommand e s c argv = do {
     (s, argv) \<leftarrow> encode_arg e s argv 2;
     setGenericCommand ''setnx'' True False 1 2 None UNIT_SECONDS (Some (bytes_of_string '':1'')) (Some (bytes_of_string '':0'')) e s c argv
   }"

definition setexCommand :: "'a command" where
  "setexCommand e s c argv = do {
     (s, argv) \<leftarrow> encode_arg e s argv 3;
     x \<leftarrow> arg argv 2;
     setGenericCommand ''setex'' False False 1 3 (Some x) UNIT_SECONDS None None e s c argv
   }"

definition psetexCommand :: "'a command" where
  "psetexCommand e s c argv = do {
     (s, argv) \<leftarrow> encode_arg e s argv 3;
     x \<leftarrow> arg argv 2;
     setGenericCommand ''psetex'' False False 1 3 (Some x) UNIT_MILLISECONDS None None e s c argv
   }"

text \<open>\<open>getGenericCommand\<close>: the flag is \<open>False\<close> for \<open>REDIS_ERR\<close>.\<close>

definition getGenericCommand :: "server_env \<Rightarrow> keyspace \<Rightarrow> 'a out_client_scheme \<Rightarrow> robj list \<Rightarrow> (keyspace \<times> 'a out_client_scheme \<times> bool) option" where
  "getGenericCommand e s c argv = do {
     key \<leftarrow> arg_text argv 1;
     (s, o1) \<leftarrow> lookupKeyRead e s key;
     (case o1 of
        None \<Rightarrow> do { c \<leftarrow> reply_shared e c (bytes_of_string ''$-1''); Some (s, c, True) }
      | Some o1 \<Rightarrow>
          if o_type o1 \<noteq> REDIS_STRING
          then do { c \<leftarrow> reply_shared e c (bytes_of_string ''-WRONGTYPE Operation against a key holding the wrong kind of value''); Some (s, c, False) }
          else do { c \<leftarrow> addReplyBulk (e_junk e) (e_clk e) (e_ae_ok e) c o1; Some (s, c, True) })
   }"

definition getCommand :: "'a command" where
  "getCommand e s c argv = do { (s, c, _) \<leftarrow> getGenericCommand e s c argv; Some (s, c, argv) }"

definition getsetCommand :: "'a command" where
  "getsetCommand e s c argv = do {
     (s, c, ok) \<leftarrow> getGenericCommand e s c argv;
     (if \<not> ok then Some (s, c, argv)
      else do {
        (s, argv) \<leftarrow> encode_arg e s argv 2;
        key \<leftarrow> arg_text argv 1;
        val \<leftarrow> arg argv 2;
        s \<leftarrow> setKey e s key val;
        let s = notifyKeyspaceEvent s ''set'' key;
        Some (s\<lparr>ks_dirty := ks_dirty s + 1\<rparr>, c, argv)
      })
   }"

text \<open>The common end of \<open>SETRANGE\<close>: write the value at the offset of the object stored under the key.\<close>

definition setrange_write :: "server_env \<Rightarrow> keyspace \<Rightarrow> 'a out_client_scheme \<Rightarrow> bytes \<Rightarrow> robj \<Rightarrow> 64 word \<Rightarrow> bytes \<Rightarrow> (keyspace \<times> 'a out_client_scheme) option" where
  "setrange_write e s c key o1 offset val =
     (case o_ptr o1 of
        PSds t \<Rightarrow> do {
          t \<leftarrow> sdsgrowzero (e_junk e) t (unat (offset + of_nat (length val)));
          buf \<leftarrow> mem_write (s_buf t) (unat offset) val;
          let t = t\<lparr>s_buf := buf\<rparr>;
          s \<leftarrow> poke e s key (o1\<lparr>o_ptr := PSds t\<rparr>);
          let s = notifyKeyspaceEvent (signalModifiedKey s key) ''setrange'' key;
          c \<leftarrow> reply_int e c (of_nat (sdslen t));
          Some (s\<lparr>ks_dirty := ks_dirty s + 1\<rparr>, c)
        }
      | _ \<Rightarrow> None)"

definition setrangeCommand :: "'a command" where
  "setrangeCommand e s c argv = do {
     val \<leftarrow> arg_text argv 3;
     key \<leftarrow> arg_text argv 1;
     (c, r) \<leftarrow> getLongLongFromObjectOrReply e c (arg argv 2) None;
     (case r of
        None \<Rightarrow> Some (s, c, argv)
      | Some offset \<Rightarrow>
          if sint offset < 0
          then do { c \<leftarrow> addReplyError (e_ae_ok e) c ''offset is out of range''; Some (s, c, argv) }
          else do {
            (s, o1) \<leftarrow> lookupKeyWrite e s key;
            (case o1 of
               None \<Rightarrow>
                 if val = [] then do { c \<leftarrow> reply_shared e c (bytes_of_string '':0''); Some (s, c, argv) }
                 else do {
                   (c, ok) \<leftarrow> checkStringLength e c (offset + of_nat (length val));
                   (if \<not> ok then Some (s, c, argv)
                    else do {
                      t \<leftarrow> sdsempty (e_junk e);
                      let o1 = createObject REDIS_STRING (PSds t) (e_clk e);
                      s \<leftarrow> dbAdd e s key o1;
                      (s, c) \<leftarrow> setrange_write e s c key o1 offset val;
                      Some (s, c, argv)
                    })
                 }
             | Some o1 \<Rightarrow> do {
                 (c, wrong) \<leftarrow> checkType e c o1 REDIS_STRING;
                 (if wrong then Some (s, c, argv)
                  else do {
                    olen \<leftarrow> stringObjectLen (e_junk e) o1;
                    (if val = [] then do { c \<leftarrow> reply_int e c (of_nat olen); Some (s, c, argv) }
                     else do {
                       (c, ok) \<leftarrow> checkStringLength e c (offset + of_nat (length val));
                       (if \<not> ok then Some (s, c, argv)
                        else do {
                          (s, o1) \<leftarrow> dbUnshareStringValue e s key o1;
                          (s, c) \<leftarrow> setrange_write e s c key o1 offset val;
                          Some (s, c, argv)
                        })
                     })
                  })
               })
          })
   }"

text \<open>The index arithmetic of \<open>GETRANGE\<close> on 64-bit integers: \<open>None\<close> for the empty reply, else the bounds.\<close>

definition getrange_bounds :: "nat \<Rightarrow> 64 word \<Rightarrow> 64 word \<Rightarrow> (nat \<times> nat) option" where
  "getrange_bounds len start end1 = (
     let start = (if sint start < 0 then of_nat len + start else start);
         end1 = (if sint end1 < 0 then of_nat len + end1 else end1);
         start = (if sint start < 0 then 0 else start);
         end1 = (if sint end1 < 0 then 0 else end1);
         end1 = (if unat end1 \<ge> len then of_nat len - 1 else end1)
     in if sint start > sint end1 \<or> len = 0 then None else Some (unat start, unat (end1 - start + 1)))"

definition getrangeCommand :: "'a command" where
  "getrangeCommand e s c argv = do {
     key \<leftarrow> arg_text argv 1;
     (c, r) \<leftarrow> getLongLongFromObjectOrReply e c (arg argv 2) None;
     (case r of
        None \<Rightarrow> Some (s, c, argv)
      | Some start \<Rightarrow> do {
          (c, r) \<leftarrow> getLongLongFromObjectOrReply e c (arg argv 3) None;
          (case r of
             None \<Rightarrow> Some (s, c, argv)
           | Some end1 \<Rightarrow> do {
               (s, o1) \<leftarrow> lookupKeyRead e s key;
               (case o1 of
                  None \<Rightarrow> do { c \<leftarrow> reply_shared e c ([36, 48] @ crlf); Some (s, c, argv) }
                | Some o1 \<Rightarrow> do {
                    (c, wrong) \<leftarrow> checkType e c o1 REDIS_STRING;
                    (if wrong then Some (s, c, argv)
                     else do {
                       str \<leftarrow> (if o_encoding o1 = ENC_INT
                              then (case o_ptr o1 of
                                  PLong v \<Rightarrow> do { (len, buf) \<leftarrow> ll2string (map (e_junk e) [0..<32]) 32 v; Some (take len buf) }
                                | _ \<Rightarrow> None)
                              else (case o_ptr o1 of PSds t \<Rightarrow> mem_read (s_buf t) 0 (sdslen t) | _ \<Rightarrow> None));
                       c \<leftarrow> (case getrange_bounds (length str) start end1 of
                              None \<Rightarrow> reply_shared e c ([36, 48] @ crlf)
                            | Some (off, n) \<Rightarrow> do { t \<leftarrow> mem_read str off n; addReplyBulkCBuffer (e_junk e) (e_clk e) (e_ae_ok e) c t });
                       Some (s, c, argv)
                     })
                  })
             })
        })
   }"

fun mget_loop :: "server_env \<Rightarrow> keyspace \<Rightarrow> 'a out_client_scheme \<Rightarrow> bytes list \<Rightarrow> (keyspace \<times> 'a out_client_scheme) option" where
  "mget_loop e s c [] = Some (s, c)"
| "mget_loop e s c (key # keys) = do {
     (s, o1) \<leftarrow> lookupKeyRead e s key;
     c \<leftarrow> (case o1 of
            None \<Rightarrow> reply_shared e c (bytes_of_string ''$-1'')
          | Some o1 \<Rightarrow>
              if o_type o1 \<noteq> REDIS_STRING then reply_shared e c (bytes_of_string ''$-1'')
              else addReplyBulk (e_junk e) (e_clk e) (e_ae_ok e) c o1);
     mget_loop e s c keys
   }"

definition mgetCommand :: "'a command" where
  "mgetCommand e s c argv = do {
     keys \<leftarrow> arg_texts (drop 1 argv);
     c \<leftarrow> addReplyMultiBulkLen (e_junk e) (e_clk e) (e_ae_ok e) c (of_nat (length argv - 1));
     (s, c) \<leftarrow> mget_loop e s c keys;
     Some (s, c, argv)
   }"

text \<open>How the new value is stored: in place when the object is an unshared integer, else as a new object.\<close>

definition incr_store :: "server_env \<Rightarrow> keyspace \<Rightarrow> bytes \<Rightarrow> robj option \<Rightarrow> 64 word \<Rightarrow> (keyspace \<times> robj) option" where
  "incr_store e s key o1 v =
     (case o1 of
        Some o2 \<Rightarrow>
          if o_refcount o2 = 1 \<and> o_encoding o2 = ENC_INT \<and> (sint v < 0 \<or> sint v \<ge> int REDIS_SHARED_INTEGERS)
          then do { let new = o2\<lparr>o_ptr := PLong v\<rparr>; s \<leftarrow> poke e s key new; Some (s, new) }
          else do {
            (sh, new) \<leftarrow> createStringObjectFromLongLong (e_junk e) (e_clk e) (ks_integers s) v;
            s \<leftarrow> dbOverwrite e (s\<lparr>ks_integers := sh\<rparr>) key new;
            Some (s, new)
          }
      | None \<Rightarrow> do {
          (sh, new) \<leftarrow> createStringObjectFromLongLong (e_junk e) (e_clk e) (ks_integers s) v;
          s \<leftarrow> dbAdd e (s\<lparr>ks_integers := sh\<rparr>) key new;
          Some (s, new)
        })"

definition incr_overflows :: "64 word \<Rightarrow> 64 word \<Rightarrow> bool" where
  "incr_overflows incr oldvalue \<longleftrightarrow>
     (sint incr < 0 \<and> sint oldvalue < 0 \<and> sint incr < - (2 ^ 63) - sint oldvalue) \<or>
     (sint incr > 0 \<and> sint oldvalue > 0 \<and> sint incr > 2 ^ 63 - 1 - sint oldvalue)"

definition incrDecrCommand :: "64 word \<Rightarrow> 'a command" where
  "incrDecrCommand incr e s c argv = do {
     key \<leftarrow> arg_text argv 1;
     (s, o1) \<leftarrow> lookupKeyWrite e s key;
     (c, wrong) \<leftarrow> (case o1 of None \<Rightarrow> Some (c, False) | Some o1 \<Rightarrow> checkType e c o1 REDIS_STRING);
     (if wrong then Some (s, c, argv)
      else do {
        (c, r) \<leftarrow> getLongLongFromObjectOrReply e c o1 None;
        (case r of
           None \<Rightarrow> Some (s, c, argv)
         | Some oldvalue \<Rightarrow>
             if incr_overflows incr oldvalue
             then do { c \<leftarrow> addReplyError (e_ae_ok e) c ''increment or decrement would overflow''; Some (s, c, argv) }
             else do {
               let v = oldvalue + incr;
               (s, new) \<leftarrow> incr_store e s key o1 v;
               let s = notifyKeyspaceEvent (signalModifiedKey s key) ''incrby'' key;
               let s = s\<lparr>ks_dirty := ks_dirty s + 1\<rparr>;
               c \<leftarrow> addReply (e_junk e) (e_clk e) (e_ae_ok e) c (shared_string [58]);
               c \<leftarrow> addReply (e_junk e) (e_clk e) (e_ae_ok e) c new;
               c \<leftarrow> addReply (e_junk e) (e_clk e) (e_ae_ok e) c (shared_string crlf);
               Some (s, c, argv)
             })
      })
   }"

definition incrCommand :: "'a command" where
  "incrCommand e s c argv = incrDecrCommand 1 e s c argv"

definition decrCommand :: "'a command" where
  "decrCommand e s c argv = incrDecrCommand (- 1) e s c argv"

definition incrbyCommand :: "'a command" where
  "incrbyCommand e s c argv = do {
     (c, r) \<leftarrow> getLongLongFromObjectOrReply e c (arg argv 2) None;
     (case r of None \<Rightarrow> Some (s, c, argv) | Some incr \<Rightarrow> incrDecrCommand incr e s c argv)
   }"

definition decrbyCommand :: "'a command" where
  "decrbyCommand e s c argv = do {
     (c, r) \<leftarrow> getLongLongFromObjectOrReply e c (arg argv 2) None;
     (case r of None \<Rightarrow> Some (s, c, argv) | Some incr \<Rightarrow> incrDecrCommand (- incr) e s c argv)
   }"

definition appendCommand :: "'a command" where
  "appendCommand e s c argv = do {
     key \<leftarrow> arg_text argv 1;
     (s, o1) \<leftarrow> lookupKeyWrite e s key;
     (case o1 of
        None \<Rightarrow> do {
          (s, argv) \<leftarrow> encode_arg e s argv 2;
          val \<leftarrow> arg argv 2;
          s \<leftarrow> dbAdd e s key val;
          s \<leftarrow> poke e s key (incrRefCount val);
          totlen \<leftarrow> stringObjectLen (e_junk e) val;
          let s = notifyKeyspaceEvent (signalModifiedKey s key) ''append'' key;
          c \<leftarrow> reply_int e c (of_nat totlen);
          Some (s\<lparr>ks_dirty := ks_dirty s + 1\<rparr>, c, argv)
        }
      | Some o1 \<Rightarrow> do {
          (c, wrong) \<leftarrow> checkType e c o1 REDIS_STRING;
          (if wrong then Some (s, c, argv)
           else do {
             append \<leftarrow> arg_text argv 2;
             olen \<leftarrow> stringObjectLen (e_junk e) o1;
             (c, ok) \<leftarrow> checkStringLength e c (of_nat (olen + length append));
             (if \<not> ok then Some (s, c, argv)
              else do {
                (s, o1) \<leftarrow> dbUnshareStringValue e s key o1;
                (case o_ptr o1 of
                   PSds t \<Rightarrow> do {
                     t \<leftarrow> sdscatlen (e_junk e) t append;
                     s \<leftarrow> poke e s key (o1\<lparr>o_ptr := PSds t\<rparr>);
                     let s = notifyKeyspaceEvent (signalModifiedKey s key) ''append'' key;
                     c \<leftarrow> reply_int e c (of_nat (sdslen t));
                     Some (s\<lparr>ks_dirty := ks_dirty s + 1\<rparr>, c, argv)
                   }
                 | _ \<Rightarrow> None)
              })
           })
        })
   }"

definition strlenCommand :: "'a command" where
  "strlenCommand e s c argv = do {
     key \<leftarrow> arg_text argv 1;
     (s, o1) \<leftarrow> lookupKeyRead e s key;
     (case o1 of
        None \<Rightarrow> do { c \<leftarrow> reply_shared e c (bytes_of_string '':0''); Some (s, c, argv) }
      | Some o1 \<Rightarrow> do {
          (c, wrong) \<leftarrow> checkType e c o1 REDIS_STRING;
          (if wrong then Some (s, c, argv)
           else do { n \<leftarrow> stringObjectLen (e_junk e) o1; c \<leftarrow> reply_int e c (of_nat n); Some (s, c, argv) })
        })
   }"

section \<open>What the commands mean\<close>

definition bulk_reply :: "bytes \<Rightarrow> bytes" where
  "bulk_reply t = [36] @ int_repr (int (length t)) @ crlf @ t @ crlf"

definition null_bulk :: bytes where
  "null_bulk = bytes_of_string ''$-1'' @ crlf"

definition wrongtype :: bytes where
  "wrongtype = bytes_of_string ''-WRONGTYPE Operation against a key holding the wrong kind of value'' @ crlf"

definition not_integer :: bytes where
  "not_integer = error_reply ''value is not an integer or out of range''"

definition too_long :: bytes where
  "too_long = error_reply ''string exceeds maximum allowed size (512MB)''"

definition spec_get :: "bytes \<Rightarrow> aview \<Rightarrow> aview \<times> bytes" where
  "spec_get key m = (m, case m key of None \<Rightarrow> null_bulk | Some (AStr t, _) \<Rightarrow> bulk_reply t | Some (AOther _ _, _) \<Rightarrow> wrongtype)"

definition spec_getset :: "bytes \<Rightarrow> bytes \<Rightarrow> aview \<Rightarrow> aview \<times> bytes" where
  "spec_getset key t m =
     (case m key of
        Some (AOther _ _, _) \<Rightarrow> (m, wrongtype)
      | _ \<Rightarrow> (m(key \<mapsto> (AStr t, None)), snd (spec_get key m)))"

definition spec_strlen :: "bytes \<Rightarrow> aview \<Rightarrow> aview \<times> bytes" where
  "spec_strlen key m = (m, case m key of None \<Rightarrow> int_reply 0 | Some (AStr t, _) \<Rightarrow> int_reply (int (length t)) | Some (AOther _ _, _) \<Rightarrow> wrongtype)"

definition spec_append :: "bytes \<Rightarrow> bytes \<Rightarrow> aview \<Rightarrow> aview \<times> bytes" where
  "spec_append key t m =
     (case m key of
        None \<Rightarrow> (m(key \<mapsto> (AStr t, None)), int_reply (int (length t)))
      | Some (AStr u, x) \<Rightarrow>
          if length u + length t > 512 * 1024 * 1024 then (m, too_long)
          else (m(key \<mapsto> (AStr (u @ t), x)), int_reply (int (length (u @ t))))
      | Some (AOther _ _, _) \<Rightarrow> (m, wrongtype))"

definition spec_incr :: "bytes \<Rightarrow> 64 word \<Rightarrow> aview \<Rightarrow> aview \<times> bytes" where
  "spec_incr key d m =
     (case m key of
        Some (AOther _ _, _) \<Rightarrow> (m, wrongtype)
      | entry \<Rightarrow>
          let x = (case entry of Some (_, x) \<Rightarrow> x | None \<Rightarrow> None) in
          (case (case entry of Some (AStr t, _) \<Rightarrow> text_ll t | _ \<Rightarrow> Some 0) of
             None \<Rightarrow> (m, not_integer)
           | Some v \<Rightarrow>
               let n = sint v + sint d in
               if n < - (2 ^ 63) \<or> n \<ge> 2 ^ 63 then (m, error_reply ''increment or decrement would overflow'')
               else (m(key \<mapsto> (AStr (int_repr n), x)), int_reply n)))"

definition overlay :: "bytes \<Rightarrow> nat \<Rightarrow> bytes \<Rightarrow> bytes" where
  "overlay u off val = take off (u @ replicate off 0) @ val @ drop (off + length val) u"

definition spec_setrange :: "bytes \<Rightarrow> bytes \<Rightarrow> bytes \<Rightarrow> aview \<Rightarrow> aview \<times> bytes" where
  "spec_setrange key i val m =
     (case text_ll i of
        None \<Rightarrow> (m, not_integer)
      | Some off \<Rightarrow>
          if sint off < 0 then (m, error_reply ''offset is out of range'')
          else (case m key of
             Some (AOther _ _, _) \<Rightarrow> (m, wrongtype)
           | entry \<Rightarrow>
               let x = (case entry of Some (_, x) \<Rightarrow> x | None \<Rightarrow> None);
                   u = (case entry of Some (AStr t, _) \<Rightarrow> t | _ \<Rightarrow> [])
               in if val = [] then (m, int_reply (int (length u)))
                  else if sint off + int (length val) > 512 * 1024 * 1024 then (m, too_long)
                  else (m(key \<mapsto> (AStr (overlay u (unat off) val), x)), int_reply (int (length (overlay u (unat off) val))))))"

definition spec_getrange :: "bytes \<Rightarrow> bytes \<Rightarrow> bytes \<Rightarrow> aview \<Rightarrow> aview \<times> bytes" where
  "spec_getrange key i j m = (m,
     case (text_ll i, text_ll j) of
        (Some a, Some b) \<Rightarrow>
          (case m key of
             None \<Rightarrow> bulk_reply []
           | Some (AStr t, _) \<Rightarrow> bulk_reply (text_slice t (sint a) (sint b))
           | Some (AOther _ _, _) \<Rightarrow> wrongtype)
      | _ \<Rightarrow> not_integer)"

definition mget_reply :: "aview \<Rightarrow> bytes \<Rightarrow> bytes" where
  "mget_reply m key = (case m key of Some (AStr t, _) \<Rightarrow> bulk_reply t | _ \<Rightarrow> null_bulk)"

definition spec_mget :: "bytes list \<Rightarrow> aview \<Rightarrow> aview \<times> bytes" where
  "spec_mget keys m = (m, [42] @ int_repr (int (length keys)) @ crlf @ concat (map (mget_reply m) keys))"

text \<open>A key whose expire time lies in the past is not there; a time that wraps around to a negative number never
  comes.\<close>

definition past :: "64 word \<Rightarrow> 64 word option \<Rightarrow> bool" where
  "past now x = (case x of None \<Rightarrow> False | Some w \<Rightarrow> 0 \<le> sint w \<and> sint w < sint now)"

definition entry :: "64 word \<Rightarrow> bytes \<Rightarrow> 64 word option \<Rightarrow> (content \<times> 64 word option) option" where
  "entry now t x = (if past now x then None else Some (AStr t, x))"

definition spec_set :: "64 word \<Rightarrow> string \<Rightarrow> bool \<Rightarrow> bool \<Rightarrow> bytes \<Rightarrow> bytes \<Rightarrow> bytes option \<Rightarrow> time_unit \<Rightarrow> bytes \<Rightarrow> bytes \<Rightarrow> aview \<Rightarrow> aview \<times> bytes" where
  "spec_set now name nx xx key t expire unit done_reply abort_reply m =
     (case (case expire of
              None \<Rightarrow> Inr None
            | Some i \<Rightarrow>
                (case text_ll i of
                   None \<Rightarrow> Inl not_integer
                 | Some v \<Rightarrow>
                     if sint v \<le> 0 then Inl (error_reply (''invalid expire time in '' @ name))
                     else Inr (Some (now + (if unit = UNIT_SECONDS then v * 1000 else v)))))
      of Inl err \<Rightarrow> (m, err)
       | Inr x \<Rightarrow>
           if (nx \<and> m key \<noteq> None) \<or> (xx \<and> m key = None) then (m, abort_reply)
           else (m(key := entry now t x), done_reply))"

definition ok_text :: bytes where "ok_text = bytes_of_string ''+OK'' @ crlf"

fun text_options :: "bytes list \<Rightarrow> bool \<Rightarrow> bool \<Rightarrow> bytes option \<Rightarrow> time_unit \<Rightarrow> (bool \<times> bool \<times> bytes option \<times> time_unit) option" where
  "text_options [] nx xx expire unit = Some (nx, xx, expire, unit)"
| "text_options (a # rest) nx xx expire unit =
     (if opt_is a 110 78 then text_options rest True xx expire unit
      else if opt_is a 120 88 then text_options rest nx True expire unit
      else case rest of
        [] \<Rightarrow> None
      | next # rest \<Rightarrow>
          if opt_is a 101 69 then text_options rest nx xx (Some next) UNIT_SECONDS
          else if opt_is a 112 80 then text_options rest nx xx (Some next) UNIT_MILLISECONDS
          else None)"

definition spec_setcmd :: "64 word \<Rightarrow> bytes \<Rightarrow> bytes \<Rightarrow> bytes list \<Rightarrow> aview \<Rightarrow> aview \<times> bytes" where
  "spec_setcmd now key t opts m =
     (case text_options opts False False None UNIT_SECONDS of
        None \<Rightarrow> (m, bytes_of_string ''-ERR syntax error'' @ crlf)
      | Some (nx, xx, expire, unit) \<Rightarrow> spec_set now ''set'' nx xx key t expire unit ok_text null_bulk m)"

section \<open>Replies and values\<close>

lemma null_replies: "replies (e_junk e) (e_clk e) (e_ae_ok e) (\<lambda>c. reply_shared e c (bytes_of_string ''$-1'')) null_bulk"
  unfolding null_bulk_def by (rule shared_replies) (simp add: bytes_of_string_def)

lemma wrong_replies: "replies (e_junk e) (e_clk e) (e_ae_ok e) (\<lambda>c. reply_shared e c
    (bytes_of_string ''-WRONGTYPE Operation against a key holding the wrong kind of value'')) wrongtype"
  unfolding wrongtype_def by (rule shared_replies) (simp add: bytes_of_string_def)

lemma obj_text_bound:
  assumes "obj_ok o1"
  shows "length (obj_text o1) < 2 ^ 32"
  using assms
proof (cases rule: obj_ok_cases)
  case (sds s)
  then show ?thesis using sds_okD(2,3)[of s] by simp
next
  case (int v)
  then show ?thesis using length_int_repr_ll[of v] by simp
qed

lemma bulk_replies: "obj_ok o1 \<Longrightarrow> replies (e_junk e) (e_clk e) (e_ae_ok e) (\<lambda>c. addReplyBulk (e_junk e) (e_clk e) (e_ae_ok e) c o1) (bulk_reply (obj_text o1))"
  using replies_bulk[of o1 "e_junk e" "e_clk e" "e_ae_ok e"] obj_text_bound[of o1] by (simp add: bulk_reply_def crlf_def)

text \<open>The state after a lookup, and what the object found says about the map.\<close>

definition found :: "server_env \<Rightarrow> keyspace \<Rightarrow> keyspace \<Rightarrow> bytes \<Rightarrow> bool" where
  "found e s s1 key \<longleftrightarrow> unseen e s s1 \<and> \<not> expired e (ks_db s1) key"

lemma foundD:
  assumes "found e s s1 key"
  shows "db_ok e (ks_db s1)" "view e (ks_db s1) = view e (ks_db s)" "ks_integers s1 = ks_integers s" "db_size (ks_db s1) \<le> db_size (ks_db s)"
    "ks_ok e s \<Longrightarrow> ks_ok e s1" "room (ks_db s) \<Longrightarrow> room (ks_db s1)"
    "view e (ks_db s) key = map_option (\<lambda>o1. (content_of o1, xmap (ks_db s1) key)) (kmap (ks_db s1) key)"
    "kmap (ks_db s1) key = Some o1 \<Longrightarrow> o_type o1 = REDIS_STRING \<Longrightarrow> obj_ok o1" "ks_touched s1 = ks_touched s"
  using assms view_live[of e "ks_db s1" key] unseen_room[of e s s1] db_okD(4)[of e "ks_db s1" key o1]
  by (auto simp: found_def unseen_def ks_ok_def val_ok_def)

lemma read_found: "ks_ok e s \<Longrightarrow> master e \<Longrightarrow> \<exists>s1. lookupKeyRead e s key = Some (s1, kmap (ks_db s1) key) \<and> found e s s1 key"
  using lookupRead_ok[of e s key] by (auto simp: found_def ks_ok_def)

lemma write_found: "ks_ok e s \<Longrightarrow> master e \<Longrightarrow> \<exists>s1. lookupKeyWrite e s key = Some (s1, kmap (ks_db s1) key) \<and> found e s s1 key"
  using lookupWrite_ok[of e s key] by (auto simp: found_def ks_ok_def)

text \<open>The three cases of a lookup.\<close>

lemma found_cases [consumes 1, case_names absent string other]:
  assumes "found e s s1 key"
  obtains (absent) "kmap (ks_db s1) key = None" "view e (ks_db s) key = None"
  | (string) o1 x where "kmap (ks_db s1) key = Some o1" "obj_ok o1" "o_type o1 = REDIS_STRING" "view e (ks_db s) key = Some (AStr (obj_text o1), x)" "xmap (ks_db s1) key = x"
  | (other) o1 x ty p where "kmap (ks_db s1) key = Some o1" "o_type o1 \<noteq> REDIS_STRING" "view e (ks_db s) key = Some (AOther ty p, x)"
  using foundD(7,8)[OF assms] by (cases "kmap (ks_db s1) key") (auto simp: content_of_def split: if_splits)

lemma absent_no_expire: "found e s s1 key \<Longrightarrow> kmap (ks_db s1) key = None \<Longrightarrow> xmap (ks_db s1) key = None"
  using foundD(1)[of e s s1 key] db_okD(3)[of e "ks_db s1"] by (auto simp: domIff)

text \<open>A change of the key that was looked up.\<close>

lemma found_update:
  assumes "found e s s1 key" "db_ok e db" "kmap db = (kmap (ks_db s1))(key \<mapsto> o1)" "xmap db = xmap (ks_db s1)"
  shows "view e db = (view e (ks_db s))(key \<mapsto> (content_of o1, xmap (ks_db s1) key))" "db_size db \<le> Suc (db_size (ks_db s))"
proof -
  have "\<not> expired e db key" using assms(1,4) by (simp add: found_def expired_def)
  then have "view e db = (view e (ks_db s1))(key \<mapsto> (content_of o1, xmap db key))" using assms(3,4) by (intro view_update) auto
  then show "view e db = (view e (ks_db s))(key \<mapsto> (content_of o1, xmap (ks_db s1) key))" using foundD(2)[OF assms(1)] assms(4) by simp
  show "db_size db \<le> Suc (db_size (ks_db s))" using db_size_insert[OF assms(3)] foundD(4)[OF assms(1)] by simp
qed

text \<open>The two ways a command on one key ends: the map stays as it was, or the key holds a new string and keeps its
  expire time.\<close>

lemma implements_same:
  assumes "found e s s1 key" "ks_ok e s" "replies (e_junk e) (e_clk e) (e_ae_ok e) g t"
    "\<And>c. cmd e s c argv = do { c \<leftarrow> g c; Some (s1, c, argv) }" "spec (view e (ks_db s)) = (view e (ks_db s), t)"
  shows "implements e cmd s argv spec"
proof (rule implementsI)
  show "runs e cmd s argv s1 argv t" by (rule runsI[where g = g]) (fact assms)+
qed (use foundD[OF assms(1)] assms(2,5) in simp_all)

lemma implements_put:
  assumes "found e s s1 key" "db_ok e (ks_db s2)" "kmap (ks_db s2) = (kmap (ks_db s1))(key \<mapsto> o1)" "xmap (ks_db s2) = xmap (ks_db s1)"
    "shared_ok (ks_integers s2)" "obj_ok o1" "ks_touched s2 = ks_touched s1 @ [key]" "replies (e_junk e) (e_clk e) (e_ae_ok e) g t"
    "\<And>c. cmd e s c argv = do { c \<leftarrow> g c; Some (s2, c, argv') }"
    "spec (view e (ks_db s)) = ((view e (ks_db s))(key \<mapsto> (AStr (obj_text o1), xmap (ks_db s1) key)), t)"
  shows "implements e cmd s argv spec"
proof (rule implementsI)
  show "runs e cmd s argv s2 argv' t" by (rule runsI[where g = g]) (fact assms)+
  show "ks_ok e s2" using assms(2,5) by (simp add: ks_ok_def)
  show "view e (ks_db s2) = (view e (ks_db s))(key \<mapsto> (AStr (obj_text o1), xmap (ks_db s1) key))"
    using found_update(1)[OF assms(1-4)] obj_ok_val(2)[OF assms(6)] by simp
  then show "reported e s s2" by (rule reported_key) (use assms(7) foundD(9)[OF assms(1)] in simp)
qed (use found_update(2)[OF assms(1-4)] assms(10) in auto)

lemma wrongtype_same:
  assumes "found e s s1 key" "ks_ok e s" "\<And>c. cmd e s c argv = do { c \<leftarrow> reply_shared e c
      (bytes_of_string ''-WRONGTYPE Operation against a key holding the wrong kind of value''); Some (s1, c, argv) }"
    "spec (view e (ks_db s)) = (view e (ks_db s), wrongtype)"
  shows "implements e cmd s argv spec"
  using assms by (intro implements_same[OF assms(1,2) wrong_replies])

lemma encode_arg_ok:
  assumes "ks_ok e s" "list_all plain argv" "i < length argv"
  shows "\<exists>sh o2. encode_arg e s argv i = Some (s\<lparr>ks_integers := sh\<rparr>, argv[i := o2]) \<and> shared_ok sh \<and> obj_ok o2 \<and> obj_text o2 = obj_text (argv ! i)"
proof -
  obtain sh o2 where "tryObjectEncoding (e_junk e) (e_clk e) (e_mem e) (ks_integers s) (argv ! i) = Some (sh, o2)" "shared_ok sh" "obj_ok o2" "obj_text o2 = obj_text (argv ! i)"
    using encoding_ok[of "argv ! i" "ks_integers s" "e_junk e" "e_clk e" "e_mem e"] assms by (auto simp: ks_ok_def plain_def list_all_length)
  then show ?thesis using assms(3) by (intro exI[of _ sh] exI[of _ o2]) (simp add: encode_arg_def arg_def)
qed

section \<open>Reading commands\<close>

lemma get_generic:
  assumes "ks_ok e s" "master e" "list_all plain argv" "1 < length argv"
  shows "\<exists>s1 g. found e s s1 (obj_text (argv ! 1)) \<and> replies (e_junk e) (e_clk e) (e_ae_ok e) g (snd (spec_get (obj_text (argv ! 1)) (view e (ks_db s)))) \<and>
    (\<forall>c. getGenericCommand e s c argv = do { c \<leftarrow> g c; Some (s1, c, case view e (ks_db s) (obj_text (argv ! 1)) of Some (AOther _ _, _) \<Rightarrow> False | _ \<Rightarrow> True) })"
proof -
  let ?key = "obj_text (argv ! 1)"
  obtain s1 where s1: "lookupKeyRead e s ?key = Some (s1, kmap (ks_db s1) ?key)" "found e s s1 ?key" using read_found[OF assms(1,2)] by blast
  note unf = getGenericCommand_def arg_text_ok[OF assms(3,4)] s1(1) spec_get_def
  from s1(2) show ?thesis
  proof (cases rule: found_cases)
    case absent
    then show ?thesis using s1(2) null_replies[of e] by (intro exI[of _ s1]) (auto simp: unf simp del: One_nat_def)
  next
    case (string o1 x)
    then show ?thesis using s1(2) bulk_replies[OF string(2), of e] by (intro exI[of _ s1]) (auto simp: unf simp del: One_nat_def)
  next
    case (other o1 x)
    then show ?thesis using s1(2) wrong_replies[of e] by (intro exI[of _ s1]) (auto simp: unf simp del: One_nat_def)
  qed
qed

lemma get_implements:
  assumes "ks_ok e s" "master e" "list_all plain argv" "1 < length argv"
  shows "implements e (getCommand :: 'a command) s argv (spec_get (obj_text (argv ! 1)))"
proof -
  obtain s1 and g :: "'a out_client_scheme \<Rightarrow> 'a out_client_scheme option" where s1: "found e s s1 (obj_text (argv ! 1))" and g: "replies (e_junk e) (e_clk e) (e_ae_ok e) g (snd (spec_get (obj_text (argv ! 1)) (view e (ks_db s))))"
    "\<And>c. getGenericCommand e s c argv = do { c \<leftarrow> g c; Some (s1, c, case view e (ks_db s) (obj_text (argv ! 1)) of Some (AOther _ _, _) \<Rightarrow> False | _ \<Rightarrow> True) }"
    using get_generic[OF assms] by blast
  show ?thesis by (rule implements_same[OF s1 assms(1) g(1)]) (simp_all add: getCommand_def g(2) spec_get_def)
qed

lemma getset_implements:
  assumes "ks_ok e s" "master e" "list_all plain argv" "length argv = 3" "room (ks_db s)"
  shows "implements e (getsetCommand :: 'a command) s argv (spec_getset (obj_text (argv ! 1)) (obj_text (argv ! 2)))"
proof -
  let ?key = "obj_text (argv ! 1)" and ?m = "view e (ks_db s)"
  have i: "1 < length argv" "2 < length argv" using assms(4) by simp_all
  obtain s1 and g :: "'a out_client_scheme \<Rightarrow> 'a out_client_scheme option" where s1: "found e s s1 ?key" and g: "replies (e_junk e) (e_clk e) (e_ae_ok e) g (snd (spec_get ?key ?m))"
    "\<And>c. getGenericCommand e s c argv = do { c \<leftarrow> g c; Some (s1, c, case ?m ?key of Some (AOther _ _, _) \<Rightarrow> False | _ \<Rightarrow> True) }"
    using get_generic[OF assms(1-3) i(1)] by blast
  show ?thesis
  proof (cases "case ?m ?key of Some (AOther _ _, _) \<Rightarrow> False | _ \<Rightarrow> True")
    case False
    then show ?thesis
      by (intro implements_same[OF s1 assms(1) g(1)])
        (auto simp: getsetCommand_def g(2) spec_getset_def spec_get_def split: option.splits content.splits prod.splits)
  next
    case True
    obtain sh o2 where o2: "encode_arg e s1 argv 2 = Some (s1\<lparr>ks_integers := sh\<rparr>, argv[2 := o2])" "shared_ok sh" "obj_ok o2" "obj_text o2 = obj_text (argv ! 2)"
      using encode_arg_ok[OF foundD(5)[OF s1 assms(1)] assms(3) i(2)] by blast
    have a: "arg_text (argv[2 := o2]) 1 = Some ?key" "arg (argv[2 := o2]) 2 = Some o2"
      using arg_text_ok[OF assms(3) i(1)] i by (simp_all add: arg_text_def arg_def)
    obtain s2 where s2: "setKey e (s1\<lparr>ks_integers := sh\<rparr>) ?key o2 = Some s2" "updates e (s1\<lparr>ks_integers := sh\<rparr>) s2 ?key (Some (AStr (obj_text (argv ! 2)), None))"
      "ks_touched s2 = ks_touched s @ [?key]"
      using foundD(9)[OF s1] setKey_ok[of e "s1\<lparr>ks_integers := sh\<rparr>" o2 ?key] foundD(1,6)[OF s1] assms(2,5) o2(3,4) by auto
    define s3 where "s3 = (notifyKeyspaceEvent s2 ''set'' ?key)\<lparr>ks_dirty := ks_dirty s2 + 1\<rparr>"
    have s3: "ks_db s3 = ks_db s2" "ks_integers s3 = ks_integers s2" "ks_touched s3 = ks_touched s @ [?key]" using s2(3) by (simp_all add: s3_def notifyKeyspaceEvent_def)
    have "runs e (getsetCommand :: 'a command) s argv s3 (argv[2 := o2]) (snd (spec_get ?key ?m))"
      by (rule runsI[OF g(1)]) (simp add: getsetCommand_def g(2) True o2(1) a s2(1) s3_def notifyKeyspaceEvent_def del: One_nat_def)
    then show ?thesis
    proof (rule implementsI)
      show "spec_getset ?key (obj_text (argv ! 2)) ?m = (?m(?key \<mapsto> (AStr (obj_text (argv ! 2)), None)), snd (spec_get ?key ?m))"
        using True by (auto simp: spec_getset_def split: option.splits content.splits prod.splits)
    qed (use s2(2) o2(2) s3 foundD(2,4)[OF s1] reported_key[of e s3 s ?key] in \<open>auto simp: updates_def ks_ok_def simp del: fun_upd_apply\<close>)
  qed
qed

lemma strlen_implements:
  assumes "ks_ok e s" "master e" "list_all plain argv" "1 < length argv"
  shows "implements e (strlenCommand :: 'a command) s argv (spec_strlen (obj_text (argv ! 1)))"
proof -
  let ?key = "obj_text (argv ! 1)"
  obtain s1 where s1: "lookupKeyRead e s ?key = Some (s1, kmap (ks_db s1) ?key)" "found e s s1 ?key" using read_found[OF assms(1,2)] by blast
  note unf = strlenCommand_def arg_text_ok[OF assms(3,4)] s1(1) checkType_def spec_strlen_def
  from s1(2) show ?thesis
  proof (cases rule: found_cases)
    case absent
    then show ?thesis by (intro implements_same[OF s1(2) assms(1) one_zero_replies(1)]) (simp_all add: unf del: One_nat_def)
  next
    case (string o1 x)
    have "length (obj_text o1) < 2 ^ 63" using obj_text_bound[OF string(2)] by simp
    then show ?thesis using string
      by (intro implements_same[OF s1(2) assms(1) reply_int_nat[of "length (obj_text o1)"]]) (simp_all add: unf stringObjectLen_ok del: One_nat_def)
  next
    case (other o1 x)
    then show ?thesis by (intro wrongtype_same[OF s1(2) assms(1)]) (simp_all add: unf del: One_nat_def)
  qed
qed

section \<open>Writing commands\<close>

text \<open>The private copy of a string: the key holds a raw string of the same text.\<close>

lemma unshare_ok:
  assumes "db_ok e (ks_db s)" "room (ks_db s)" "kmap (ks_db s) key = Some o1" "obj_ok o1"
  shows "\<exists>db o2 t. dbUnshareStringValue e s key o1 = Some (s\<lparr>ks_db := db\<rparr>, o2) \<and> db_ok e db \<and> kmap db = (kmap (ks_db s))(key \<mapsto> o2) \<and>
    xmap db = xmap (ks_db s) \<and> obj_ok o2 \<and> o_ptr o2 = PSds t \<and> sds_ok t \<and> sds_text t = obj_text o1 \<and> o_encoding o2 = ENC_RAW"
proof (cases "o_refcount o1 \<noteq> 1 \<or> o_encoding o1 \<noteq> ENC_RAW")
  case False
  obtain t where "o_ptr o1 = PSds t" "sds_ok t" "obj_text o1 = sds_text t" using assms(4) False by (auto elim!: obj_ok_cases)
  moreover have "(kmap (ks_db s))(key \<mapsto> o1) = kmap (ks_db s)" using assms(3) by auto
  ultimately show ?thesis using False assms(1,4)
    by (intro exI[of _ "ks_db s"] exI[of _ o1] exI[of _ t]) (auto simp: dbUnshareStringValue_def obj_ok_def)
next
  case True
  obtain d t r where d: "getDecodedObject (e_junk e) (e_clk e) o1 = Some d" "o_ptr d = PSds t" "sds_ok t" "sds_text t = obj_text o1" "decrRefCount d = Some r"
    using decoded_any[OF assms(4)] by blast
  note len = sds_okD[OF d(3)]
  obtain o2 where o2: "createRawStringObject (e_junk e) (e_clk e) (Some (s_buf t)) (sdslen t) = Some o2" "obj_ok o2" "obj_text o2 = obj_text o1"
    using raw_ok[of "sdslen t" "Some (s_buf t)" "e_junk e" "e_clk e"] len d(4) by (auto simp: sdslen_def sds_text_def)
  have enc: "o_encoding o2 = ENC_RAW" using o2(1) by (auto simp: createRawStringObject_def createObject_def split: bind_splits)
  then obtain u where u: "o_ptr o2 = PSds u" "sds_ok u" "sds_text u = obj_text o1" using o2(2,3) by (auto elim!: obj_ok_cases)
  obtain db where db: "dbOverwrite e s key o2 = Some (s\<lparr>ks_db := db\<rparr>)" "db_ok e db" "kmap db = (kmap (ks_db s))(key \<mapsto> o2)" "xmap db = xmap (ks_db s)"
    using dbOverwrite_ok[OF assms(1) _ assms(2) o2(2), of key] assms(3) by auto
  have ty: "o_type o1 = REDIS_STRING" using assms(4) by (simp add: obj_ok_def)
  show ?thesis using True ty d o2 db u enc
    by (intro exI[of _ db] exI[of _ o2] exI[of _ u]) (simp add: dbUnshareStringValue_def del: fun_upd_apply)
qed

lemma set_ptr_ok:
  assumes "obj_ok o1" "o_encoding o1 = ENC_RAW" "sds_ok t"
  shows "obj_ok (o1\<lparr>o_ptr := PSds t\<rparr>)" "obj_text (o1\<lparr>o_ptr := PSds t\<rparr>) = sds_text t"
  using assms by (cases o1; simp add: obj_ok_def obj_text_def)+

lemma growzero_ok:
  assumes "sds_ok t" "n < 2 ^ 32 - 2 ^ 20"
  shows "\<exists>t'. sdsgrowzero junk t n = Some t' \<and> sds_ok t' \<and> sds_text t' = sds_text t @ replicate (n - length (sds_text t)) 0"
proof (cases "n \<le> s_len t")
  case True
  then show ?thesis using assms(1) sds_okD(3)[OF assms(1)] by (simp add: sdsgrowzero_def)
next
  case False
  define r where "r = sdsMakeRoomFor junk t (n - s_len t)"
  have r: "sds_ok r" "sds_text r = sds_text t" "s_len r = s_len t" "n - s_len t \<le> s_free r"
    using make_room[OF assms(1), of "n - s_len t" junk] assms(2) False by (auto simp: r_def)
  note len = sds_okD[OF r(1)]
  have rep: "replicate (n - s_len t + 1) (0 :: byte) = replicate (n - s_len t) 0 @ [0]" by (simp add: replicate_append_same)
  define b where "b = take (s_len t) (s_buf r) @ replicate (n - s_len t) 0 @ [0] @ drop (n + 1) (s_buf r)"
  have w: "mem_write (s_buf r) (s_len t) (replicate (n - s_len t + 1) 0) = Some b"
    using len r(3,4) False unfolding rep by (simp add: mem_write_def b_def)
  define f where "f = s_len r + s_free r - n"
  have f: "nat ((int (s_len r + s_free r) - int n) mod 2 ^ 32) = f"
  proof -
    have "int (s_len r + s_free r) - int n = int f" using r(3,4) False by (simp add: f_def)
    moreover have "f < 2 ^ 32" using len(2) by (simp add: f_def)
    ultimately show ?thesis by (simp only: of_nat_mod[symmetric] nat_int) simp
  qed
  have eq: "sdsgrowzero junk t n = Some (r\<lparr>s_len := n, s_free := f, s_buf := b\<rparr>)"
    using False w f assms(2) by (simp add: sdsgrowzero_def Let_def r_def[symmetric])
  have "sds_ok (r\<lparr>s_len := n, s_free := f, s_buf := b\<rparr>) \<and> sds_text (r\<lparr>s_len := n, s_free := f, s_buf := b\<rparr>) = sds_text t @ replicate (n - s_len t) 0"
  proof (rule sds_okI)
    show "take n b = sds_text t @ replicate (n - s_len t) 0" using r(2,3) len False by (simp add: b_def sds_text_def)
    show "b ! n = 0" using r(3) len False by (simp add: b_def nth_append)
  qed (use r len False in \<open>simp_all add: b_def f_def sds_okD(3)[OF assms(1)]\<close>)
  then show ?thesis using eq sds_okD(3)[OF assms(1)] by simp
qed

lemma overlay_write:
  assumes "sds_ok t" "sds_text t = u @ replicate (off + length val - length u) 0"
  shows "\<exists>b. mem_write (s_buf t) off val = Some b \<and> sds_ok (t\<lparr>s_buf := b\<rparr>) \<and> sds_text (t\<lparr>s_buf := b\<rparr>) = overlay u off val"
proof -
  note len = sds_okD[OF assms(1)]
  have n: "s_len t = max (length u) (off + length val)" using assms(2) len(3) by simp
  let ?b = "take off (s_buf t) @ val @ drop (off + length val) (s_buf t)"
  have w: "mem_write (s_buf t) off val = Some ?b" using len(1) n by (simp add: mem_write_def)
  have z: "s_buf t ! s_len t = 0" using assms(1) by (simp add: sds_ok_def)
  have tx: "take (s_len t) (s_buf t) = u @ replicate (off + length val - length u) 0" using assms(2) by (simp add: sds_text_def)
  have d: "take (s_len t - (off + length val)) (drop (off + length val) (s_buf t)) = drop (off + length val) u"
    using arg_cong[OF tx, of "drop (off + length val)"] n by (simp add: drop_take)
  have k: "take off (s_buf t) = take off (u @ replicate off 0)"
    using arg_cong[OF tx, of "take off"] n by (simp add: min_def split: if_splits)
  have p: "min (length u) off + (off - length u) = off" by simp
  have "sds_ok (t\<lparr>s_len := s_len t, s_free := s_free t, s_buf := ?b\<rparr>) \<and> sds_text (t\<lparr>s_len := s_len t, s_free := s_free t, s_buf := ?b\<rparr>) = overlay u off val"
  proof (rule sds_okI)
    show "take (s_len t) ?b = overlay u off val" using len(1) n d k p by (simp add: overlay_def)
    show "?b ! s_len t = 0" using z len(1) n by (auto simp: nth_append)
    show "length (overlay u off val) = s_len t" using n by (simp add: overlay_def)
  qed (use len n in simp_all)
  then show ?thesis using w by simp
qed

lemma long_replies: "replies (e_junk e) (e_clk e) (e_ae_ok e) (\<lambda>c. addReplyError (e_ae_ok e) c ''string exceeds maximum allowed size (512MB)'') too_long"
  unfolding too_long_def by (rule error_replies)

lemma integer_replies: "replies (e_junk e) (e_clk e) (e_ae_ok e) (\<lambda>c. addReplyError (e_ae_ok e) c ''value is not an integer or out of range'') not_integer"
  unfolding not_integer_def by (rule error_replies)

lemma check_length: "n < 2 ^ 63 \<Longrightarrow> checkStringLength e c (of_nat n) =
    (if n > 512 * 1024 * 1024 then do { c \<leftarrow> addReplyError (e_ae_ok e) c ''string exceeds maximum allowed size (512MB)''; Some (c, False) } else Some (c, True))"
  by (simp add: checkStringLength_def sint_of_length)

lemma append_implements:
  assumes "ks_ok e s" "master e" "list_all plain argv" "length argv = 3" "room (ks_db s)"
  shows "implements e (appendCommand :: 'a command) s argv (spec_append (obj_text (argv ! 1)) (obj_text (argv ! 2)))"
proof -
  let ?key = "obj_text (argv ! 1)" and ?t = "obj_text (argv ! 2)" and ?m = "view e (ks_db s)"
  have i: "1 < length argv" "2 < length argv" using assms(4) by simp_all
  obtain s1 where s1: "lookupKeyWrite e s ?key = Some (s1, kmap (ks_db s1) ?key)" "found e s s1 ?key" using write_found[OF assms(1,2)] by blast
  note ok1 = foundD(1,3)[OF s1(2)] foundD(6)[OF s1(2) assms(5)] foundD(5)[OF s1(2) assms(1)]
  note unf = appendCommand_def arg_text_ok[OF assms(3) i(1)] s1(1) checkType_def spec_append_def
  from s1(2) show ?thesis
  proof (cases rule: found_cases)
    case absent
    obtain sh o2 where o2: "encode_arg e s1 argv 2 = Some (s1\<lparr>ks_integers := sh\<rparr>, argv[2 := o2])" "shared_ok sh" "obj_ok o2" "obj_text o2 = ?t"
      using encode_arg_ok[OF ok1(4) assms(3) i(2)] by blast
    obtain db where db: "dbAdd e (s1\<lparr>ks_integers := sh\<rparr>) ?key o2 = Some (s1\<lparr>ks_integers := sh, ks_db := db\<rparr>)" "db_ok e db"
      "kmap db = (kmap (ks_db s1))(?key \<mapsto> o2)" "xmap db = xmap (ks_db s1)"
      using dbAdd_ok[of e "s1\<lparr>ks_integers := sh\<rparr>" ?key o2] ok1 absent(1) o2(3) by (auto simp del: fun_upd_apply)
    obtain db2 where db2: "poke e (s1\<lparr>ks_integers := sh, ks_db := db\<rparr>) ?key (incrRefCount o2) = Some (s1\<lparr>ks_integers := sh, ks_db := db2\<rparr>)" "db_ok e db2"
      "kmap db2 = (kmap (ks_db s1))(?key \<mapsto> incrRefCount o2)" "xmap db2 = xmap (ks_db s1)"
      using poke_ok[of e "s1\<lparr>ks_integers := sh, ks_db := db\<rparr>" ?key "incrRefCount o2"] db(2-4) obj_ok_val(1)[OF incr_ok[OF o2(3)]] by auto
    have l: "length ?t < 2 ^ 63" using obj_text_bound[OF o2(3)] o2(4) by simp
    define s2 where "s2 = (notifyKeyspaceEvent (signalModifiedKey (s1\<lparr>ks_integers := sh, ks_db := db2\<rparr>) ?key) ''append'' ?key)\<lparr>ks_dirty := ks_dirty s1 + 1\<rparr>"
    have s2: "ks_db s2 = db2" "ks_integers s2 = sh" "ks_touched s2 = ks_touched s1 @ [?key]" by (simp_all add: s2_def notifyKeyspaceEvent_def signalModifiedKey_def)
    have a: "arg (argv[2 := o2]) 2 = Some o2" using i by (simp add: arg_def)
    show ?thesis
    proof (rule implements_put[OF s1(2), where g = "\<lambda>c. reply_int e c (of_nat (length ?t))" and ?o1.0 = "incrRefCount o2" and t = "int_reply (int (length ?t))"])
      show "appendCommand e s c argv = reply_int e c (of_nat (length ?t)) \<bind> (\<lambda>c. Some (s2, c, argv[2 := o2]))" for c :: "'a out_client_scheme"
        using o2 absent db(1) db2(1) a stringObjectLen_ok[OF o2(3)]
        by (simp add: unf s2_def notifyKeyspaceEvent_def signalModifiedKey_def del: One_nat_def)
    qed (use s2 db2 o2 l incr_ok[OF o2(3)] reply_int_nat[OF l] absent absent_no_expire[OF s1(2)] in \<open>simp_all add: spec_append_def del: fun_upd_apply\<close>)
  next
    case (string o1 x)
    let ?u = "obj_text o1"
    have l: "length ?u + length ?t < 2 ^ 63" using obj_text_bound[OF string(2)] obj_text_bound[of "argv ! 2"] assms(3) i(2) by (simp add: list_all_length plain_def)
    have cl: "checkStringLength e c (of_nat (length ?u + length ?t)) = (if length ?u + length ?t > 512 * 1024 * 1024
        then do { c \<leftarrow> addReplyError (e_ae_ok e) c ''string exceeds maximum allowed size (512MB)''; Some (c, False) } else Some (c, True))" for c :: "'a out_client_scheme"
      by (rule check_length[OF l])
    note unf = unf arg_text_ok[OF assms(3) i(2)] stringObjectLen_ok[OF string(2)] cl
    show ?thesis
    proof (cases "length ?u + length ?t > 512 * 1024 * 1024")
      case True
      then show ?thesis using string by (intro implements_same[OF s1(2) assms(1) long_replies]) (simp_all add: unf del: One_nat_def of_nat_add)
    next
      case False
      obtain db o2 t where db: "dbUnshareStringValue e s1 ?key o1 = Some (s1\<lparr>ks_db := db\<rparr>, o2)" "db_ok e db" "kmap db = (kmap (ks_db s1))(?key \<mapsto> o2)"
        "xmap db = xmap (ks_db s1)" "obj_ok o2" "o_ptr o2 = PSds t" "sds_ok t" "sds_text t = ?u" "o_encoding o2 = ENC_RAW"
        using unshare_ok[OF ok1(1,3) string(1,2)] by blast
      obtain t2 where t2: "sdscatlen (e_junk e) t ?t = Some t2" "sds_ok t2" "sds_text t2 = ?u @ ?t"
        using catlen_ok[OF db(7), of ?t "e_junk e"] False db(8) sds_okD(3)[OF db(7)] by auto
      let ?o3 = "o2\<lparr>o_ptr := PSds t2\<rparr>"
      note o3 = set_ptr_ok[OF db(5,9) t2(2)]
      obtain db2 where db2: "poke e (s1\<lparr>ks_db := db\<rparr>) ?key ?o3 = Some (s1\<lparr>ks_db := db2\<rparr>)" "db_ok e db2"
        "kmap db2 = (kmap (ks_db s1))(?key \<mapsto> ?o3)" "xmap db2 = xmap (ks_db s1)"
        using poke_ok[of e "s1\<lparr>ks_db := db\<rparr>" ?key ?o3] db(2-4) obj_ok_val(1)[OF o3(1)] by auto
      have n: "sdslen t2 = length ?u + length ?t" using sds_okD(3)[OF t2(2)] t2(3) by (simp add: sdslen_def)
      define s2 where "s2 = (notifyKeyspaceEvent (signalModifiedKey (s1\<lparr>ks_db := db2\<rparr>) ?key) ''append'' ?key)\<lparr>ks_dirty := ks_dirty s1 + 1\<rparr>"
      have s2: "ks_db s2 = db2" "ks_integers s2 = ks_integers s1" "ks_touched s2 = ks_touched s1 @ [?key]" by (simp_all add: s2_def notifyKeyspaceEvent_def signalModifiedKey_def)
      show ?thesis
      proof (rule implements_put[OF s1(2), where g = "\<lambda>c. reply_int e c (of_nat (length ?u + length ?t))" and ?o1.0 = ?o3 and t = "int_reply (int (length ?u + length ?t))"])
        show "appendCommand e s c argv = reply_int e c (of_nat (length ?u + length ?t)) \<bind> (\<lambda>c. Some (s2, c, argv))" for c :: "'a out_client_scheme"
          using False string db(1,6) t2(1) db2(1) n
          by (simp add: unf s2_def notifyKeyspaceEvent_def signalModifiedKey_def del: One_nat_def of_nat_add)
      qed (use s2 db2 o3 t2 False string ok1 assms(1) reply_int_nat[OF l, of e] in \<open>simp_all add: spec_append_def ks_ok_def del: fun_upd_apply of_nat_add\<close>)
    qed
  next
    case (other o1 x)
    then show ?thesis by (intro wrongtype_same[OF s1(2) assms(1)]) (simp_all add: unf del: One_nat_def)
  qed
qed

lemma sint_range: "- (2 ^ 63) \<le> sint (v :: 64 word)" "sint (v :: 64 word) < 2 ^ 63"
  using sint_range_size[of v] by (simp_all add: word_size)

text \<open>The overflow test of the code is exact.\<close>

lemma overflow_check: "incr_overflows d v \<longleftrightarrow> sint v + sint d < - (2 ^ 63) \<or> sint v + sint d \<ge> 2 ^ 63"
  using sint_range[of d] sint_range[of v] unfolding incr_overflows_def by linarith

lemma sint_add: "- (2 ^ 63) \<le> sint v + sint d \<Longrightarrow> sint v + sint d < 2 ^ 63 \<Longrightarrow> sint (v + d :: 64 word) = sint v + sint d"
  using sint_word_of_int_64[of "sint v + sint d"] by simp

lemma incr_store_ok:
  assumes "ks_ok e s" "room (ks_db s)" "o1 = kmap (ks_db s) key" "case o1 of None \<Rightarrow> True | Some o2 \<Rightarrow> obj_ok o2"
  shows "\<exists>s' new. incr_store e s key o1 v = Some (s', new) \<and> db_ok e (ks_db s') \<and> kmap (ks_db s') = (kmap (ks_db s))(key \<mapsto> new) \<and>
    xmap (ks_db s') = xmap (ks_db s) \<and> shared_ok (ks_integers s') \<and> ks_touched s' = ks_touched s \<and> obj_ok new \<and> obj_text new = int_repr (sint v)"
proof -
  have ok: "db_ok e (ks_db s)" "shared_ok (ks_integers s)" using assms(1) by (simp_all add: ks_ok_def)
  obtain sh new where new: "createStringObjectFromLongLong (e_junk e) (e_clk e) (ks_integers s) v = Some (sh, new)" "shared_ok sh" "obj_ok new" "obj_text new = int_repr (sint v)"
    using fromLongLong_ok[OF ok(2)] by blast
  show ?thesis
  proof (cases o1)
    case None
    obtain db where "dbAdd e (s\<lparr>ks_integers := sh\<rparr>) key new = Some (s\<lparr>ks_integers := sh, ks_db := db\<rparr>)" "db_ok e db"
      "kmap db = (kmap (ks_db s))(key \<mapsto> new)" "xmap db = xmap (ks_db s)"
      using dbAdd_ok[of e "s\<lparr>ks_integers := sh\<rparr>" key new] None assms(2,3) ok new(3) by (auto simp del: fun_upd_apply)
    then show ?thesis using new None by (simp add: incr_store_def del: fun_upd_apply)
  next
    case (Some o2)
    then have k: "key \<in> dom (kmap (ks_db s))" using assms(3) by auto
    show ?thesis
    proof (cases "o_refcount o2 = 1 \<and> o_encoding o2 = ENC_INT \<and> (sint v < 0 \<or> sint v \<ge> int REDIS_SHARED_INTEGERS)")
      case True
      have o3: "obj_ok (o2\<lparr>o_ptr := PLong v\<rparr>)" "obj_text (o2\<lparr>o_ptr := PLong v\<rparr>) = int_repr (sint v)"
        using assms(4) Some True by (cases o2; simp add: obj_ok_def obj_text_def)+
      obtain db where "poke e s key (o2\<lparr>o_ptr := PLong v\<rparr>) = Some (s\<lparr>ks_db := db\<rparr>)" "db_ok e db"
        "kmap db = (kmap (ks_db s))(key \<mapsto> o2\<lparr>o_ptr := PLong v\<rparr>)" "xmap db = xmap (ks_db s)"
        using poke_ok[OF ok(1) k obj_ok_val(1)[OF o3(1)]] by blast
      then show ?thesis using o3 True Some ok(2) by (simp add: incr_store_def del: fun_upd_apply)
    next
      case False
      obtain db where "dbOverwrite e (s\<lparr>ks_integers := sh\<rparr>) key new = Some (s\<lparr>ks_integers := sh, ks_db := db\<rparr>)" "db_ok e db"
        "kmap db = (kmap (ks_db s))(key \<mapsto> new)" "xmap db = xmap (ks_db s)"
        using dbOverwrite_ok[of e "s\<lparr>ks_integers := sh\<rparr>" key new] k assms(2) ok new(3) by (auto simp del: fun_upd_apply)
      then show ?thesis unfolding incr_store_def Some option.case if_not_P[OF False] using new by (simp del: fun_upd_apply)
    qed
  qed
qed

lemma three_part_reply:
  assumes "obj_ok new" "obj_text new = int_repr n"
  shows "replies (e_junk e) (e_clk e) (e_ae_ok e) (\<lambda>c. do {
      c \<leftarrow> addReply (e_junk e) (e_clk e) (e_ae_ok e) c (shared_string [58]);
      c \<leftarrow> addReply (e_junk e) (e_clk e) (e_ae_ok e) c new;
      addReply (e_junk e) (e_clk e) (e_ae_ok e) c (shared_string crlf) }) (int_reply n)"
  using replies_bind[OF replies_object[of "shared_string [58]"] replies_bind[OF replies_object[OF assms(1)] replies_object[of "shared_string crlf"]]]
    shared_string_ok[of "[58]"] shared_string_ok[of crlf] by (simp add: int_reply_def crlf_def assms(2))

lemma incr_implements:
  assumes "ks_ok e s" "master e" "list_all plain argv" "1 < length argv" "room (ks_db s)"
  shows "implements e (incrDecrCommand d :: 'a command) s argv (spec_incr (obj_text (argv ! 1)) d)"
proof -
  let ?key = "obj_text (argv ! 1)" and ?m = "view e (ks_db s)"
  obtain s1 where s1: "lookupKeyWrite e s ?key = Some (s1, kmap (ks_db s1) ?key)" "found e s s1 ?key" using write_found[OF assms(1,2)] by blast
  note ok1 = foundD(5)[OF s1(2) assms(1)] foundD(6)[OF s1(2) assms(5)]
  note unf = incrDecrCommand_def arg_text_ok[OF assms(3,4)] s1(1) checkType_def
  have main: "implements e (incrDecrCommand d :: 'a command) s argv (spec_incr ?key d)"
    if old: "kmap (ks_db s1) ?key = o1" "case o1 of None \<Rightarrow> True | Some o2 \<Rightarrow> obj_ok o2"
      and ll: "getLongLongFromObject o1 = Some r"
      and spec: "spec_incr ?key d ?m = (case r of None \<Rightarrow> (?m, not_integer) | Some v \<Rightarrow> let n = sint v + sint d in
        if n < - (2 ^ 63) \<or> n \<ge> 2 ^ 63 then (?m, error_reply ''increment or decrement would overflow'')
        else (?m(?key \<mapsto> (AStr (int_repr n), xmap (ks_db s1) ?key)), int_reply n))" for o1 r
  proof -
    have ty: "(case o1 of None \<Rightarrow> Some (c, False) | Some o1 \<Rightarrow> checkType e c o1 REDIS_STRING) = Some (c, False)" for c :: "'a out_client_scheme"
      using old(2) by (auto simp: checkType_def obj_ok_def split: option.split)
    note unf = incrDecrCommand_def arg_text_ok[OF assms(3,4)] s1(1) old(1) ty getLongLongFromObjectOrReply_def ll Option.bind.bind_lunit prod.case
    show ?thesis
    proof (cases r)
      case None
      then show ?thesis using spec by (intro implements_same[OF s1(2) assms(1) integer_replies]) (simp_all add: unf del: One_nat_def)
    next
      case (Some v)
      show ?thesis
      proof (cases "sint v + sint d < - (2 ^ 63) \<or> sint v + sint d \<ge> 2 ^ 63")
        case True
        show ?thesis
          by (rule implements_same[OF s1(2) assms(1) error_replies[of e "''increment or decrement would overflow''"]])
            (use True Some spec in \<open>simp_all add: unf overflow_check Let_def del: One_nat_def\<close>)
      next
        case False
        obtain s2 new where s2: "incr_store e s1 ?key o1 (v + d) = Some (s2, new)" "db_ok e (ks_db s2)" "kmap (ks_db s2) = (kmap (ks_db s1))(?key \<mapsto> new)"
          "xmap (ks_db s2) = xmap (ks_db s1)" "shared_ok (ks_integers s2)" "ks_touched s2 = ks_touched s1" "obj_ok new" "obj_text new = int_repr (sint v + sint d)"
          using incr_store_ok[OF ok1 old(1)[symmetric] old(2), of "v + d"] sint_add[of v d] False by auto
        define s3 where "s3 = (notifyKeyspaceEvent (signalModifiedKey s2 ?key) ''incrby'' ?key)\<lparr>ks_dirty := ks_dirty s2 + 1\<rparr>"
        have s3: "ks_db s3 = ks_db s2" "ks_integers s3 = ks_integers s2" "ks_touched s3 = ks_touched s2 @ [?key]" by (simp_all add: s3_def notifyKeyspaceEvent_def signalModifiedKey_def)
        show ?thesis
          by (rule implements_put[OF s1(2), where ?s2.0 = s3 and ?o1.0 = new and t = "int_reply (sint v + sint d)", OF _ _ _ _ _ _ three_part_reply[OF s2(7,8)]])
            (use False Some spec s2 in \<open>simp_all add: unf overflow_check s3 s3_def notifyKeyspaceEvent_def signalModifiedKey_def Let_def del: One_nat_def fun_upd_apply\<close>)
      qed
    qed
  qed
  from s1(2) show ?thesis
  proof (cases rule: found_cases)
    case absent
    then show ?thesis using absent_no_expire[OF s1(2) absent(1)]
      by (intro main[of None "Some 0"]) (simp_all add: spec_incr_def getLongLongFromObject_def Let_def del: fun_upd_apply)
  next
    case (string o1 x)
    then show ?thesis using getLongLong_ok[OF string(2)]
      by (intro main[of "Some o1" "text_ll (obj_text o1)"]) (simp_all add: spec_incr_def Let_def del: fun_upd_apply One_nat_def split: option.split)
  next
    case (other o1 x)
    then show ?thesis by (intro wrongtype_same[OF s1(2) assms(1)]) (simp_all add: unf spec_incr_def del: One_nat_def)
  qed
qed

lemma setrange_write_ok:
  assumes "db_ok e (ks_db s)" "kmap (ks_db s) key = Some o1" "obj_ok o1" "o_encoding o1 = ENC_RAW" "o_ptr o1 = PSds t" "sds_ok t"
    "0 \<le> sint off" "sint off + int (length val) \<le> 512 * 1024 * 1024" "length (sds_text t) < 2 ^ 32" "shared_ok (ks_integers s)"
  shows "\<exists>s' o2. (\<forall>c :: 'a out_client_scheme. setrange_write e s c key o1 off val =
      do { c \<leftarrow> reply_int e c (of_nat (length (overlay (sds_text t) (unat off) val))); Some (s', c) }) \<and>
    db_ok e (ks_db s') \<and> kmap (ks_db s') = (kmap (ks_db s))(key \<mapsto> o2) \<and> xmap (ks_db s') = xmap (ks_db s) \<and> ks_integers s' = ks_integers s \<and>
    ks_touched s' = ks_touched s @ [key] \<and> obj_ok o2 \<and> obj_text o2 = overlay (sds_text t) (unat off) val"
proof -
  let ?u = "sds_text t"
  have off: "sint off = int (unat off)" by (rule sint_nonneg[OF assms(7)])
  have n: "unat off + length val \<le> 512 * 1024 * 1024" using assms(8) off by linarith
  then have u: "unat (off + of_nat (length val)) = unat off + length val"
    using unat_of_nat[of "unat off + length val", where 'a = 64] by (simp add: take_bit_nat_eq_self)
  obtain t1 where t1: "sdsgrowzero (e_junk e) t (unat off + length val) = Some t1" "sds_ok t1" "sds_text t1 = ?u @ replicate (unat off + length val - length ?u) 0"
    using growzero_ok[OF assms(6), of "unat off + length val" "e_junk e"] n by auto
  obtain b where b: "mem_write (s_buf t1) (unat off) val = Some b" "sds_ok (t1\<lparr>s_buf := b\<rparr>)" "sds_text (t1\<lparr>s_buf := b\<rparr>) = overlay ?u (unat off) val"
    using overlay_write[OF t1(2,3)] by blast
  let ?t2 = "t1\<lparr>s_buf := b\<rparr>" and ?o2 = "o1\<lparr>o_ptr := PSds (t1\<lparr>s_buf := b\<rparr>)\<rparr>"
  note o2 = set_ptr_ok[OF assms(3,4) b(2)]
  have len: "sdslen ?t2 = length (overlay ?u (unat off) val)" using sds_okD(3)[OF b(2)] b(3) by (simp add: sdslen_def)
  obtain db where db: "poke e s key ?o2 = Some (s\<lparr>ks_db := db\<rparr>)" "db_ok e db" "kmap db = (kmap (ks_db s))(key \<mapsto> ?o2)" "xmap db = xmap (ks_db s)"
    using poke_ok[OF assms(1) _ obj_ok_val(1)[OF o2(1)], of key] assms(2) by auto
  define s' where "s' = (notifyKeyspaceEvent (signalModifiedKey (s\<lparr>ks_db := db\<rparr>) key) ''setrange'' key)\<lparr>ks_dirty := ks_dirty s + 1\<rparr>"
  have s': "ks_db s' = db" "ks_integers s' = ks_integers s" "ks_touched s' = ks_touched s @ [key]" by (simp_all add: s'_def notifyKeyspaceEvent_def signalModifiedKey_def)
  have "setrange_write e s c key o1 off val = do { c \<leftarrow> reply_int e c (of_nat (length (overlay ?u (unat off) val))); Some (s', c) }" for c :: "'a out_client_scheme"
    using db(1) t1(1) b(1) len u assms(5)
    by (simp add: setrange_write_def Let_def s'_def notifyKeyspaceEvent_def signalModifiedKey_def)
  then show ?thesis using s' db o2 b(3) by (intro exI[of _ s'] exI[of _ ?o2]) (simp del: fun_upd_apply)
qed

lemma setrange_check:
  assumes "0 \<le> sint off" "sint off + int n < 2 ^ 63"
  shows "checkStringLength e c (off + of_nat n) = (if sint off + int n > 512 * 1024 * 1024
    then do { c \<leftarrow> addReplyError (e_ae_ok e) c ''string exceeds maximum allowed size (512MB)''; Some (c, False) } else Some (c, True))"
proof -
  have "int n < 2 ^ 63" using assms by linarith
  then have "n < 2 ^ 63" by simp
  then have "sint (off + of_nat n) = sint off + int n" using sint_add[of off "of_nat n"] sint_of_length[of n] assms by simp
  then show ?thesis by (simp add: checkStringLength_def)
qed

lemma setrange_implements:
  assumes "ks_ok e s" "master e" "list_all plain argv" "length argv = 4" "room (ks_db s)"
    "\<And>v. text_ll (obj_text (argv ! 2)) = Some v \<Longrightarrow> sint v + int (length (obj_text (argv ! 3))) < 2 ^ 63"
  shows "implements e (setrangeCommand :: 'a command) s argv (spec_setrange (obj_text (argv ! 1)) (obj_text (argv ! 2)) (obj_text (argv ! 3)))"
proof -
  let ?key = "obj_text (argv ! 1)" and ?t = "obj_text (argv ! 3)" and ?m = "view e (ks_db s)"
  have i: "1 < length argv" "2 < length argv" "3 < length argv" using assms(4) by simp_all
  note ll = getLL_arg[OF assms(3) i(2)]
  note unf0 = setrangeCommand_def arg_text_ok[OF assms(3) i(1)] arg_text_ok[OF assms(3) i(3)] ll Option.bind.bind_lunit spec_setrange_def
  show ?thesis
  proof (cases "text_ll (obj_text (argv ! 2))")
    case None
    have "runs e (setrangeCommand :: 'a command) s argv s argv not_integer"
      by (rule runsI[OF integer_replies]) (simp add: unf0 None del: One_nat_def)
    then show ?thesis by (rule implementsI) (use assms(1) None in \<open>simp_all add: spec_setrange_def\<close>)
  next
    case (Some off)
    show ?thesis
    proof (cases "sint off < 0")
      case True
      have "runs e (setrangeCommand :: 'a command) s argv s argv (error_reply ''offset is out of range'')"
        by (rule runsI[OF error_replies]) (simp add: unf0 Some True del: One_nat_def)
      then show ?thesis by (rule implementsI) (use assms(1) Some True in \<open>simp_all add: spec_setrange_def\<close>)
    next
      case False
      obtain s1 where s1: "lookupKeyWrite e s ?key = Some (s1, kmap (ks_db s1) ?key)" "found e s s1 ?key" using write_found[OF assms(1,2)] by blast
      note ok1 = foundD(1)[OF s1(2)] foundD(6)[OF s1(2) assms(5)] foundD(5)[OF s1(2) assms(1)]
      have sh: "shared_ok (ks_integers s1)" using ok1(3) by (simp add: ks_ok_def)
      have pos: "0 \<le> sint off" using False by simp
      note unf = unf0 Some s1(1) checkType_def setrange_check[OF pos assms(6)[OF Some]]
      let ?big = "sint off + int (length ?t) > 512 * 1024 * 1024"
      from s1(2) show ?thesis
      proof (cases rule: found_cases)
        case absent
        consider "?t = []" | "?t \<noteq> []" ?big | "?t \<noteq> []" "\<not> ?big" by blast
        then show ?thesis
        proof cases
          case 1
          then show ?thesis using absent pos by (intro implements_same[OF s1(2) assms(1) one_zero_replies(1)]) (simp_all add: unf del: One_nat_def)
        next
          case 2
          then show ?thesis using absent pos by (intro implements_same[OF s1(2) assms(1) long_replies]) (simp_all add: unf Let_def del: One_nat_def)
        next
          case 3
          obtain t where t: "sdsempty (e_junk e) = Some t" "sds_ok t" "sds_text t = []" using newlen_ok[of 0 "Some []" "e_junk e"] by (auto simp: sdsempty_def)
          let ?o = "createObject REDIS_STRING (PSds t) (e_clk e)"
          have o1: "obj_ok ?o" "o_encoding ?o = ENC_RAW" "o_ptr ?o = PSds t" using t by (simp_all add: createObject_def obj_ok_def)
          obtain db where db: "dbAdd e s1 ?key ?o = Some (s1\<lparr>ks_db := db\<rparr>)" "db_ok e db" "kmap db = (kmap (ks_db s1))(?key \<mapsto> ?o)" "xmap db = xmap (ks_db s1)"
            using dbAdd_ok[OF ok1(1) _ ok1(2) o1(1), of ?key] absent(1) by auto
          have k: "kmap (ks_db (s1\<lparr>ks_db := db\<rparr>)) ?key = Some ?o" using db(3) by simp
          obtain s2 o2 where s2: "\<And>c :: 'a out_client_scheme. setrange_write e (s1\<lparr>ks_db := db\<rparr>) c ?key ?o off ?t =
              do { c \<leftarrow> reply_int e c (of_nat (length (overlay [] (unat off) ?t))); Some (s2, c) }"
            "db_ok e (ks_db s2)" "kmap (ks_db s2) = (kmap (ks_db s1))(?key \<mapsto> o2)" "xmap (ks_db s2) = xmap (ks_db s1)" "ks_integers s2 = ks_integers s1"
            "ks_touched s2 = ks_touched s1 @ [?key]" "obj_ok o2" "obj_text o2 = overlay [] (unat off) ?t"
            using setrange_write_ok[of e "s1\<lparr>ks_db := db\<rparr>" ?key ?o t off ?t, OF _ k o1 t(2) pos, where 'a = 'a] 3(2) db(2-4) sh t(3) by (auto simp del: fun_upd_apply)
          have l: "length (overlay [] (unat off) ?t) < 2 ^ 63" using obj_text_bound[OF s2(7)] s2(8) by simp
          show ?thesis
            by (rule implements_put[OF s1(2), where ?s2.0 = s2 and ?o1.0 = o2 and argv' = argv, OF _ _ _ _ _ _ reply_int_nat[OF l]])
              (use s2 sh 3 absent absent_no_expire[OF s1(2) absent(1)] pos db(1) t(1) in \<open>simp_all add: unf Let_def del: One_nat_def fun_upd_apply\<close>)
        qed
      next
        case (string o1 x)
        let ?u = "obj_text o1"
        have lu: "length ?u < 2 ^ 63" using obj_text_bound[OF string(2)] by simp
        note unf = unf stringObjectLen_ok[OF string(2)]
        consider "?t = []" | "?t \<noteq> []" ?big | "?t \<noteq> []" "\<not> ?big" by blast
        then show ?thesis
        proof cases
          case 1
          then show ?thesis using string pos by (intro implements_same[OF s1(2) assms(1) reply_int_nat[OF lu]]) (simp_all add: unf del: One_nat_def)
        next
          case 2
          then show ?thesis using string pos by (intro implements_same[OF s1(2) assms(1) long_replies]) (simp_all add: unf Let_def del: One_nat_def)
        next
          case 3
          obtain db o2 t where db: "dbUnshareStringValue e s1 ?key o1 = Some (s1\<lparr>ks_db := db\<rparr>, o2)" "db_ok e db" "kmap db = (kmap (ks_db s1))(?key \<mapsto> o2)"
            "xmap db = xmap (ks_db s1)" "obj_ok o2" "o_ptr o2 = PSds t" "sds_ok t" "sds_text t = ?u" "o_encoding o2 = ENC_RAW"
            using unshare_ok[OF ok1(1,2) string(1,2)] by blast
          have k: "kmap (ks_db (s1\<lparr>ks_db := db\<rparr>)) ?key = Some o2" using db(3) by simp
          obtain s2 o3 where s2: "\<And>c :: 'a out_client_scheme. setrange_write e (s1\<lparr>ks_db := db\<rparr>) c ?key o2 off ?t =
              do { c \<leftarrow> reply_int e c (of_nat (length (overlay ?u (unat off) ?t))); Some (s2, c) }"
            "db_ok e (ks_db s2)" "kmap (ks_db s2) = (kmap (ks_db s1))(?key \<mapsto> o3)" "xmap (ks_db s2) = xmap (ks_db s1)" "ks_integers s2 = ks_integers s1"
            "ks_touched s2 = ks_touched s1 @ [?key]" "obj_ok o3" "obj_text o3 = overlay ?u (unat off) ?t"
            using setrange_write_ok[of e "s1\<lparr>ks_db := db\<rparr>" ?key o2 t off ?t, OF _ k db(5,9,6,7) pos, where 'a = 'a] 3(2) db(2-4,8) sh obj_text_bound[OF string(2)] by (auto simp del: fun_upd_apply)
          have l: "length (overlay ?u (unat off) ?t) < 2 ^ 63" using obj_text_bound[OF s2(7)] s2(8) by simp
          show ?thesis
            by (rule implements_put[OF s1(2), where ?s2.0 = s2 and ?o1.0 = o3 and argv' = argv, OF _ _ _ _ _ _ reply_int_nat[OF l]])
              (use s2 sh 3 string pos db(1) in \<open>simp_all add: unf Let_def del: One_nat_def fun_upd_apply\<close>)
        qed
      next
        case (other o1 x)
        then show ?thesis using pos by (intro wrongtype_same[OF s1(2) assms(1)]) (simp_all add: unf del: One_nat_def)
      qed
    qed
  qed
qed

lemma empty_replies: "replies (e_junk e) (e_clk e) (e_ae_ok e) (\<lambda>c. reply_shared e c ([36, 48] @ crlf)) (bulk_reply [])"
  using shared_replies[of "[36, 48] @ crlf" e] by (simp add: bulk_reply_def crlf_def int_repr_def dec_repr.simps)

text \<open>The index arithmetic selects the slice of the specification.\<close>

lemma getrange_slice:
  assumes "length u < 2 ^ 32"
  shows "case getrange_bounds (length u) a b of
      None \<Rightarrow> text_slice u (sint a) (sint b) = []
    | Some (off, n) \<Rightarrow> mem_read u off n = Some (text_slice u (sint a) (sint b))"
proof -
  define len where "len = length u"
  have len: "sint (of_nat len :: 64 word) = int len" using sint_of_length[of len] assms by (simp add: len_def)
  define clip :: "64 word \<Rightarrow> 64 word" where "clip i = (if sint (if sint i < 0 then of_nat len + i else i) < 0 then 0 else if sint i < 0 then of_nat len + i else i)" for i
  have clip: "sint (clip i) = slice_index len (sint i)" for i
  proof -
    have "sint (of_nat len + i) = int len + sint i" if "sint i < 0"
      using sint_add[of "of_nat len" i] len sint_range[of i] that assms by (simp add: len_def)
    then show ?thesis by (auto simp: clip_def slice_index_def)
  qed
  have nn: "0 \<le> slice_index len i" for i by (simp add: slice_index_def)
  have u: "unat (clip i) = nat (slice_index len (sint i))" for i
    using sint_nonneg[of "clip i"] clip nn by simp
  define e1 where "e1 = (if unat (clip b) \<ge> len then of_nat len - 1 else clip b)"
  have e1: "len \<noteq> 0 \<Longrightarrow> sint e1 = min (slice_index len (sint b)) (int len - 1)"
  proof -
    assume "len \<noteq> 0"
    then have "sint (of_nat len - 1 :: 64 word) = int len - 1"
      using sint_word_of_int_64[of "int len - 1"] assms by (simp add: len_def)
    then show ?thesis using u[of b] clip[of b] nn[of "sint b"] by (auto simp: e1_def nat_le_iff le_nat_iff)
  qed
  have bounds: "getrange_bounds len a b = (if sint (clip a) > sint e1 \<or> len = 0 then None else Some (unat (clip a), unat (e1 - clip a + 1)))"
    by (simp add: getrange_bounds_def clip_def e1_def Let_def)
  let ?a = "slice_index len (sint a)" and ?b = "slice_index len (sint b)"
  have sl: "text_slice u (sint a) (sint b) = (if ?a > ?b then [] else take (nat (?b - ?a + 1)) (drop (nat ?a) u))" by (simp add: text_slice_def len_def Let_def)
  show ?thesis
  proof (cases "len = 0 \<or> ?a > min ?b (int len - 1)")
    case True
    then have "text_slice u (sint a) (sint b) = []" using nn unfolding sl by (auto simp: len_def)
    then show ?thesis using bounds clip[of a] e1 True by (auto simp: len_def)
  next
    case False
    then have f: "len \<noteq> 0" "?a \<le> ?b" "?a \<le> int len - 1" by auto
    let ?n = "min ?b (int len - 1) - ?a + 1"
    have "sint (e1 - clip a + 1) = ?n"
    proof -
      have "- (2 ^ 63) \<le> ?n \<and> ?n < 2 ^ 63" using f nn[of "sint a"] assms by (auto simp: len_def)
      moreover have "word_of_int ?n = e1 - clip a + 1" unfolding e1[OF f(1), symmetric] clip[of a, symmetric] by simp
      ultimately show ?thesis using sint_word_of_int_64[of ?n] by simp
    qed
    then have n: "unat (e1 - clip a + 1) = nat ?n" using sint_nonneg[of "e1 - clip a + 1"] f by auto
    have off: "unat (clip a) = nat ?a" by (rule u)
    have "mem_read u (nat ?a) (nat ?n) = Some (take (nat ?n) (drop (nat ?a) u))"
      using f nn[of "sint a"] by (auto simp: mem_read_def len_def)
    moreover have "take (nat ?n) (drop (nat ?a) u) = take (nat (?b - ?a + 1)) (drop (nat ?a) u)"
      using f nn[of "sint a"] by (cases "?b \<le> int len - 1") (auto simp: min_def len_def)
    ultimately show ?thesis using bounds clip[of a] e1[OF f(1)] f n off sl by (simp add: len_def)
  qed
qed

lemma getrange_chars:
  assumes "obj_ok o1"
  shows "(if o_encoding o1 = ENC_INT
      then (case o_ptr o1 of PLong v \<Rightarrow> do { (len, buf) \<leftarrow> ll2string (map (e_junk e) [0..<32]) 32 v; Some (take len buf) } | _ \<Rightarrow> None)
      else (case o_ptr o1 of PSds t \<Rightarrow> mem_read (s_buf t) 0 (sdslen t) | _ \<Rightarrow> None)) = Some (obj_text o1)"
  using assms
proof (cases rule: obj_ok_cases)
  case (sds s)
  then show ?thesis by (simp add: sds_bytes)
next
  case (int v)
  then show ?thesis using length_int_repr_ll[of v] by (simp add: ll2string_eq Let_def)
qed

lemma getrange_implements:
  assumes "ks_ok e s" "master e" "list_all plain argv" "length argv = 4"
  shows "implements e (getrangeCommand :: 'a command) s argv (spec_getrange (obj_text (argv ! 1)) (obj_text (argv ! 2)) (obj_text (argv ! 3)))"
proof -
  let ?key = "obj_text (argv ! 1)" and ?m = "view e (ks_db s)"
  have i: "1 < length argv" "2 < length argv" "3 < length argv" using assms(4) by simp_all
  note unf0 = getrangeCommand_def arg_text_ok[OF assms(3) i(1)] getLL_arg[OF assms(3) i(2)] getLL_arg[OF assms(3) i(3)] Option.bind.bind_lunit spec_getrange_def
  show ?thesis
  proof (cases "text_ll (obj_text (argv ! 2)) = None \<or> text_ll (obj_text (argv ! 3)) = None")
    case True
    have "runs e (getrangeCommand :: 'a command) s argv s argv not_integer"
      by (rule runsI[OF integer_replies]) (use True in \<open>auto simp: unf0 simp del: One_nat_def split: option.split\<close>)
    then show ?thesis by (rule implementsI) (use assms(1) True in \<open>auto simp: spec_getrange_def split: option.split\<close>)
  next
    case False
    then obtain a b where ab: "text_ll (obj_text (argv ! 2)) = Some a" "text_ll (obj_text (argv ! 3)) = Some b" by auto
    obtain s1 where s1: "lookupKeyRead e s ?key = Some (s1, kmap (ks_db s1) ?key)" "found e s s1 ?key" using read_found[OF assms(1,2)] by blast
    note unf = unf0 ab s1(1) checkType_def option.case prod.case
    from s1(2) show ?thesis
    proof (cases rule: found_cases)
      case absent
      then show ?thesis by (intro implements_same[OF s1(2) assms(1) empty_replies]) (simp_all add: unf del: One_nat_def)
    next
      case (string o1 x)
      let ?u = "obj_text o1" and ?w = "text_slice (obj_text o1) (sint a) (sint b)"
      note sl = getrange_slice[OF obj_text_bound[OF string(2)], of a b]
      note unf = unf string(1,3,4) getrange_chars[OF string(2)]
      show ?thesis
      proof (cases "getrange_bounds (length ?u) a b")
        case None
        then show ?thesis using sl by (intro implements_same[OF s1(2) assms(1) empty_replies]) (simp_all add: unf None del: One_nat_def)
      next
        case (Some p)
        have "length ?w < 2 ^ 63" using sl Some mem_read_length obj_text_bound[OF string(2)] by (auto simp: text_slice_def Let_def)
        then have "replies (e_junk e) (e_clk e) (e_ae_ok e) (\<lambda>c :: 'a out_client_scheme. addReplyBulkCBuffer (e_junk e) (e_clk e) (e_ae_ok e) c ?w) (bulk_reply ?w)"
          using replies_bulk_buffer[of ?w] by (simp add: bulk_reply_def crlf_def)
        then show ?thesis using sl by (intro implements_same[OF s1(2) assms(1)]) (simp_all add: unf Some split_beta del: One_nat_def)
      qed
    next
      case (other o1 x)
      then show ?thesis by (intro wrongtype_same[OF s1(2) assms(1)]) (simp_all add: unf del: One_nat_def)
    qed
  qed
qed

lemma mget_loop_ok:
  assumes "ks_ok e s" "master e"
  shows "\<exists>s' g. replies (e_junk e) (e_clk e) (e_ae_ok e) g (concat (map (mget_reply (view e (ks_db s))) keys)) \<and> unseen e s s' \<and>
    (\<forall>c :: 'a out_client_scheme. mget_loop e s c keys = do { c \<leftarrow> g c; Some (s', c) })"
  using assms(1)
proof (induction keys arbitrary: s)
  case Nil
  then show ?case by (intro exI[of _ s] exI[of _ Some]) (auto simp: unseen_refl ks_ok_def intro: repliesI[of "[]"])
next
  case (Cons key keys)
  let ?m = "view e (ks_db s)"
  obtain s1 where s1: "lookupKeyRead e s key = Some (s1, kmap (ks_db s1) key)" "found e s s1 key" using read_found[OF Cons.prems assms(2)] by blast
  define f where "f c = (case kmap (ks_db s1) key of
            None \<Rightarrow> reply_shared e c (bytes_of_string ''$-1'')
          | Some o1 \<Rightarrow>
              if o_type o1 \<noteq> REDIS_STRING then reply_shared e c (bytes_of_string ''$-1'')
              else addReplyBulk (e_junk e) (e_clk e) (e_ae_ok e) c o1)" for c :: "'a out_client_scheme"
  have f: "replies (e_junk e) (e_clk e) (e_ae_ok e) f (mget_reply ?m key)"
    using s1(2) by (cases rule: found_cases) (use null_replies[of e] bulk_replies[of _ e] in \<open>simp_all add: f_def[abs_def] mget_reply_def\<close>)
  have v: "view e (ks_db s1) = ?m" by (rule foundD(2)[OF s1(2)])
  obtain s' and g :: "'a out_client_scheme \<Rightarrow> 'a out_client_scheme option" where g: "replies (e_junk e) (e_clk e) (e_ae_ok e) g (concat (map (mget_reply ?m) keys))" "unseen e s1 s'"
    "\<And>c. mget_loop e s1 c keys = do { c \<leftarrow> g c; Some (s', c) }"
    using Cons.IH[OF foundD(5)[OF s1(2) Cons.prems]] unfolding v by blast
  have "mget_loop e s c (key # keys) = do { c \<leftarrow> do { c \<leftarrow> f c; g c }; Some (s', c) }" for c
    by (simp add: s1(1) g(3) f_def)
  moreover have "unseen e s s'" using s1(2) g(2) unseen_trans by (auto simp: found_def)
  ultimately show ?case using replies_bind[OF f g(1)] by (intro exI[of _ s'] exI[of _ "\<lambda>c. do { c \<leftarrow> f c; g c }"]) simp
qed

lemma mget_implements:
  assumes "ks_ok e s" "master e" "list_all plain argv" "argv \<noteq> []" "length argv < 2 ^ 63"
  shows "implements e (mgetCommand :: 'a command) s argv (spec_mget (map obj_text (drop 1 argv)))"
proof -
  let ?keys = "map obj_text (drop 1 argv)" and ?n = "of_nat (length argv - 1) :: 64 word"
  have t: "arg_texts (drop 1 argv) = Some ?keys" using assms(3) by (intro arg_texts_ok) (auto simp: list_all_iff dest: in_set_dropD)
  have n: "sint ?n = int (length ?keys)" using sint_of_length[of "length argv - 1"] assms(5) by simp
  have h: "replies (e_junk e) (e_clk e) (e_ae_ok e) (\<lambda>c :: 'a out_client_scheme. addReplyMultiBulkLen (e_junk e) (e_clk e) (e_ae_ok e) c ?n) ([42] @ int_repr (int (length ?keys)) @ crlf)"
  proof -
    have "addReplyMultiBulkLen (e_junk e) (e_clk e) (e_ae_ok e) c ?n = addReplyLongLongWithPrefix (e_junk e) (e_clk e) (e_ae_ok e) c ?n 42" for c :: "'a out_client_scheme"
      by (auto simp: addReplyMultiBulkLen_def addReplyLongLongWithPrefix_def)
    then show ?thesis using replies_prefix[of 42 ?n "e_junk e" "e_clk e" "e_ae_ok e"] n by (simp add: crlf_def)
  qed
  obtain s' and g :: "'a out_client_scheme \<Rightarrow> 'a out_client_scheme option" where g: "replies (e_junk e) (e_clk e) (e_ae_ok e) g (concat (map (mget_reply (view e (ks_db s))) ?keys))" "unseen e s s'"
    "\<And>c. mget_loop e s c ?keys = do { c \<leftarrow> g c; Some (s', c) }"
    using mget_loop_ok[OF assms(1,2)] by blast
  have "runs e (mgetCommand :: 'a command) s argv s' argv (([42] @ int_repr (int (length ?keys)) @ crlf) @ concat (map (mget_reply (view e (ks_db s))) ?keys))"
    by (rule runsI[OF replies_bind[OF h g(1)]]) (simp add: mgetCommand_def t g(3) del: One_nat_def)
  then show ?thesis by (rule implementsI) (use g(2) assms(1) in \<open>simp_all add: spec_mget_def unseen_def ks_ok_def\<close>)
qed

section \<open>Setting keys\<close>

lemma set_aborts_ok:
  assumes "ks_ok e s" "master e"
  shows "\<exists>s1. set_aborts e s nx xx key = Some (s1, (nx \<and> view e (ks_db s) key \<noteq> None) \<or> (xx \<and> view e (ks_db s) key = None)) \<and> unseen e s s1"
proof -
  have look: "\<exists>s1. lookupKeyWrite e s key = Some (s1, kmap (ks_db s1) key) \<and> unseen e s s1 \<and> view e (ks_db s1) = view e (ks_db s) \<and> ks_ok e s1 \<and>
      (kmap (ks_db s1) key = None \<longleftrightarrow> view e (ks_db s) key = None)" if "ks_ok e s" for s
  proof -
    obtain s1 where s1: "lookupKeyWrite e s key = Some (s1, kmap (ks_db s1) key)" "found e s s1 key" using write_found[OF \<open>ks_ok e s\<close> assms(2)] by blast
    have "kmap (ks_db s1) key = None \<longleftrightarrow> view e (ks_db s) key = None" unfolding foundD(7)[OF s1(2)] by simp
    moreover have "unseen e s s1" using s1(2) by (simp add: found_def)
    ultimately show ?thesis using s1(1) foundD(2)[OF s1(2)] foundD(5)[OF s1(2) \<open>ks_ok e s\<close>] by metis
  qed
  obtain s1 where s1: "lookupKeyWrite e s key = Some (s1, kmap (ks_db s1) key)" "unseen e s s1" "view e (ks_db s1) = view e (ks_db s)" "ks_ok e s1"
    "kmap (ks_db s1) key = None \<longleftrightarrow> view e (ks_db s) key = None" using look[OF assms(1)] by (elim exE conjE) (rule that; assumption)
  obtain s2 where s2: "lookupKeyWrite e s1 key = Some (s2, kmap (ks_db s2) key)" "unseen e s1 s2" "kmap (ks_db s2) key = None \<longleftrightarrow> view e (ks_db s1) key = None"
    using look[OF s1(4)] by (elim exE conjE) (rule that; assumption)
  show ?thesis
    using s1 s2(1,3) unseen_refl[of e s] unseen_trans[OF s1(2) s2(2)] assms(1)
    by (cases nx; cases xx; cases "kmap (ks_db s1) key") (simp_all add: set_aborts_def ks_ok_def)
qed

lemma implements_silent:
  assumes "implements e cmd s' argv' spec" "\<And>c. cmd' e s c argv = cmd e s' c argv'" "s' = s\<lparr>ks_integers := sh\<rparr>" "spec' = spec"
  shows "implements e cmd' s argv spec'"
  using assms unfolding implements_def runs_def by (simp add: reported_def)

lemma expired_past: "expired e db key \<longleftrightarrow> past (e_now e) (xmap db key)"
  by (simp add: expired_def past_def)

lemma view_set:
  assumes "\<And>k. k \<noteq> key \<Longrightarrow> kmap db' k = kmap db k \<and> xmap db' k = xmap db k" "kmap db' key = Some o1" "content_of o1 = AStr t"
  shows "view e db' = (view e db)(key := entry (e_now e) t (xmap db' key))"
proof
  fix k
  show "view e db' k = ((view e db)(key := entry (e_now e) t (xmap db' key))) k"
    using assms by (cases "k = key") (simp_all add: view_def expired_past entry_def cmap_def)
qed

lemma set_expire_step:
  assumes "db_ok e (ks_db s)" "room (ks_db s)" "kmap (ks_db s) key = Some o1" "obj_ok o1" "view e (ks_db s) = m(key \<mapsto> (AStr t, None))" "obj_text o1 = t"
  shows "\<exists>db. setExpire e s key w = Some (s\<lparr>ks_db := db\<rparr>) \<and> db_ok e db \<and> view e db = m(key := entry (e_now e) t (Some w)) \<and> db_size db = db_size (ks_db s)"
proof -
  obtain db where db: "setExpire e s key w = Some (s\<lparr>ks_db := db\<rparr>)" "db_ok e db" "kmap db = kmap (ks_db s)" "xmap db = (xmap (ks_db s))(key \<mapsto> w)"
    using setExpire_ok[OF assms(1) _ assms(2), of key w] assms(3) by auto
  have "view e db = (view e (ks_db s))(key := entry (e_now e) t (xmap db key))"
    using db(3,4) assms(3,6) obj_ok_val(2)[OF assms(4)] by (intro view_set) auto
  then have "view e db = m(key := entry (e_now e) t (Some w))" using assms(5) db(4) by simp
  then show ?thesis using db by (auto simp: db_size_def)
qed

lemma set_generic:
  assumes "ks_ok e s" "master e" "db_size (ks_db s) < 2 ^ 30" "arg_text argv ikey = Some key" "arg argv ival = Some val" "obj_ok val"
    "case expire of None \<Rightarrow> True | Some x \<Rightarrow> obj_ok x"
    "length (case ok_reply of Some r \<Rightarrow> r | None \<Rightarrow> bytes_of_string ''+OK'') < 2 ^ 31" "length (case abort_reply of Some r \<Rightarrow> r | None \<Rightarrow> bytes_of_string ''$-1'') < 2 ^ 31"
  shows "implements e (setGenericCommand name nx xx ikey ival expire unit ok_reply abort_reply :: 'a command) s argv
    (spec_set (e_now e) name nx xx key (obj_text val) (map_option obj_text expire) unit
      ((case ok_reply of Some r \<Rightarrow> r | None \<Rightarrow> bytes_of_string ''+OK'') @ crlf) ((case abort_reply of Some r \<Rightarrow> r | None \<Rightarrow> bytes_of_string ''$-1'') @ crlf))"
    (is "implements e ?cmd s argv ?spec")
proof -
  let ?m = "view e (ks_db s)" and ?t = "obj_text val" and ?ok = "case ok_reply of Some r \<Rightarrow> r | None \<Rightarrow> bytes_of_string ''+OK''"
    and ?ab = "case abort_reply of Some r \<Rightarrow> r | None \<Rightarrow> bytes_of_string ''$-1''"
  have go: "implements e ?cmd s argv ?spec"
    if ms: "\<And>c :: 'a out_client_scheme. (case expire of
        None \<Rightarrow> Some (c, Some 0)
      | Some x \<Rightarrow> do {
          (c, r) \<leftarrow> getLongLongFromObjectOrReply e c (Some x) None;
          (case r of
             None \<Rightarrow> Some (c, None)
           | Some v \<Rightarrow>
               if sint v \<le> 0 then do { c \<leftarrow> addReplyError (e_ae_ok e) c (''invalid expire time in '' @ name); Some (c, None) }
               else Some (c, Some (if unit = UNIT_SECONDS then v * 1000 else v)))
        }) = Some (c, Some ms)"
      and sp: "?spec ?m = (if (nx \<and> ?m key \<noteq> None) \<or> (xx \<and> ?m key = None) then (?m, ?ab @ crlf)
        else (?m(key := entry (e_now e) ?t (if expire = None then None else Some (e_now e + ms))), ?ok @ crlf))" for ms
  proof -
    obtain s1 where s1: "set_aborts e s nx xx key = Some (s1, (nx \<and> ?m key \<noteq> None) \<or> (xx \<and> ?m key = None))" "unseen e s s1"
      using set_aborts_ok[OF assms(1,2)] by blast
    have ok1: "db_ok e (ks_db s1)" "view e (ks_db s1) = ?m" "db_size (ks_db s1) \<le> db_size (ks_db s)" "ks_integers s1 = ks_integers s" "room (ks_db s1)"
      "ks_touched s1 = ks_touched s"
      using s1(2) assms(3) by (simp_all add: unseen_def room_def db_size_def)
    note unf = setGenericCommand_def ms assms(4,5) s1(1) Option.bind.bind_lunit prod.case option.case
    show ?thesis
    proof (cases "(nx \<and> ?m key \<noteq> None) \<or> (xx \<and> ?m key = None)")
      case True
      have "runs e ?cmd s argv s1 argv (?ab @ crlf)"
        by (rule runsI[OF shared_replies[OF assms(9)]]) (simp only: unf if_P[OF True] if_True)
      then show ?thesis by (rule implementsI) (use ok1 assms(1) sp[unfolded if_P[OF True]] in \<open>simp_all add: ks_ok_def\<close>)
    next
      case False
      obtain s2 where s2: "setKey e s1 key val = Some s2" "updates e s1 s2 key (Some (AStr ?t, None))" "kmap (ks_db s2) key = Some (incrRefCount val)"
        "ks_touched s2 = ks_touched s @ [key]"
        using setKey_ok[OF ok1(1) assms(2) ok1(5) assms(6), of key] unfolding ok1(6) by blast
      have ok2: "db_ok e (ks_db s2)" "view e (ks_db s2) = ?m(key \<mapsto> (AStr ?t, None))" "db_size (ks_db s2) \<le> Suc (db_size (ks_db s))" "ks_integers s2 = ks_integers s"
        "room (ks_db s2)" using s2(2) ok1 assms(3) by (auto simp: updates_def room_def db_size_def simp del: fun_upd_apply)
      let ?x = "if expire = None then None else Some (e_now e + ms)"
      obtain db where db: "(if expire \<noteq> None then setExpire e (s2\<lparr>ks_dirty := ks_dirty s2 + 1\<rparr>) key (e_now e + ms) else Some (s2\<lparr>ks_dirty := ks_dirty s2 + 1\<rparr>)) =
          Some (s2\<lparr>ks_dirty := ks_dirty s2 + 1, ks_db := db\<rparr>)" "db_ok e db" "view e db = ?m(key := entry (e_now e) ?t ?x)" "db_size db = db_size (ks_db s2)"
      proof (cases "expire = None")
        case True
        then show ?thesis using that[of "ks_db s2"] ok2 by (simp add: entry_def past_def)
      next
        case False
        then show ?thesis using that set_expire_step[of e "s2\<lparr>ks_dirty := ks_dirty s2 + 1\<rparr>" key "incrRefCount val" ?m ?t "e_now e + ms"] ok2 s2(3) incr_ok[OF assms(6)]
          by (auto simp del: fun_upd_apply)
      qed
      define s3 where "s3 = (let s = notifyKeyspaceEvent (s2\<lparr>ks_dirty := ks_dirty s2 + 1, ks_db := db\<rparr>) ''set'' key
        in if expire \<noteq> None then notifyKeyspaceEvent s ''expire'' key else s)"
      have s3: "ks_db s3 = db" "ks_integers s3 = ks_integers s" "ks_touched s3 = ks_touched s @ [key]" using ok2(4) s2(4) by (simp_all add: s3_def Let_def notifyKeyspaceEvent_def)
      have "runs e ?cmd s argv s3 argv (?ok @ crlf)"
        by (rule runsI[OF shared_replies[OF assms(8)]]) (simp only: unf if_not_P[OF False] if_False s2(1) db(1) Let_def s3_def)
      then show ?thesis by (rule implementsI) (use s3 db ok2(3) assms(1) sp[unfolded if_not_P[OF False]] reported_key[of e s3 s key] in \<open>simp_all add: ks_ok_def\<close>)
    qed
  qed
  show ?thesis
  proof (cases expire)
    case None
    show ?thesis by (rule go[of 0]) (simp_all only: None spec_set_def option.case option.map sum.case refl if_True)
  next
    case (Some x)
    have ll: "getLongLongFromObjectOrReply e c (Some x) None = (case text_ll (obj_text x) of
         None \<Rightarrow> do { c \<leftarrow> addReplyError (e_ae_ok e) c ''value is not an integer or out of range''; Some (c, None) }
       | Some v \<Rightarrow> Some (c, Some v))" for c :: "'a out_client_scheme"
      using assms(7) Some getLongLong_ok[of x] by (auto simp: getLongLongFromObjectOrReply_def split: option.split)
    show ?thesis
    proof (cases "text_ll (obj_text x)")
      case None
      have "runs e ?cmd s argv s argv not_integer" by (rule runsI[OF integer_replies]) (simp add: setGenericCommand_def Some ll None)
      then show ?thesis by (rule implementsI) (use assms(1) Some None in \<open>simp_all add: spec_set_def\<close>)
    next
      case v: (Some v)
      show ?thesis
      proof (cases "sint v \<le> 0")
        case True
        have "runs e ?cmd s argv s argv (error_reply (''invalid expire time in '' @ name))"
          by (rule runsI[OF error_replies]) (simp add: setGenericCommand_def Some ll v True)
        then show ?thesis by (rule implementsI) (use assms(1) Some v True in \<open>simp_all add: spec_set_def\<close>)
      next
        case False
        show ?thesis by (rule go[of "if unit = UNIT_SECONDS then v * 1000 else v"]) (use False in \<open>auto simp: Some ll v spec_set_def simp del: fun_upd_apply\<close>)
      qed
    qed
  qed
qed

lemma options_ok:
  assumes "list_all plain xs" "case ex of None \<Rightarrow> True | Some x \<Rightarrow> obj_ok x"
  shows "\<exists>r. set_options xs nx xx ex unit = Some r \<and>
    map_option (\<lambda>(nx, xx, ex, unit). (nx, xx, map_option obj_text ex, unit)) r = text_options (map obj_text xs) nx xx (map_option obj_text ex) unit \<and>
    (\<forall>nx xx x unit. r = Some (nx, xx, Some x, unit) \<longrightarrow> obj_ok x)"
  using assms
proof (induction xs nx xx ex unit rule: set_options.induct)
  case (2 x rest nx xx ex unit)
  have a: "arg_text [x] 0 = Some (obj_text x)" using 2(5) arg_text_ok[of "[x]" 0] by simp
  note IH = 2(1)[OF a] 2(2)[OF a] 2(3)[OF a] 2(4)[OF a]
  show ?case
  proof (cases "opt_is (obj_text x) 110 78 \<or> opt_is (obj_text x) 120 88")
    case True
    then show ?thesis using IH(1,2) 2(5,6) a by auto
  next
    case False
    then show ?thesis using IH(3,4) 2(5,6) a by (cases rest) (auto simp: plain_def)
  qed
qed auto

lemma arg_update: "i < length argv \<Longrightarrow> arg (argv[i := x]) i = Some x" "i \<noteq> j \<Longrightarrow> arg (argv[i := x]) j = arg argv j"
  "i \<noteq> j \<Longrightarrow> arg_text (argv[i := x]) j = arg_text argv j"
  by (simp_all add: arg_def arg_text_def)

lemma set_implements:
  assumes "ks_ok e s" "master e" "list_all plain argv" "3 \<le> length argv" "db_size (ks_db s) < 2 ^ 30"
  shows "implements e (setCommand :: 'a command) s argv (spec_setcmd (e_now e) (obj_text (argv ! 1)) (obj_text (argv ! 2)) (map obj_text (drop 3 argv)))"
proof -
  have i: "1 < length argv" "2 < length argv" using assms(4) by simp_all
  have p: "list_all plain (drop 3 argv)" using assms(3) by (auto simp: list_all_iff dest: in_set_dropD)
  obtain r where r: "set_options (drop 3 argv) False False None UNIT_SECONDS = Some r"
    "map_option (\<lambda>(nx, xx, ex, unit). (nx, xx, map_option obj_text ex, unit)) r = text_options (map obj_text (drop 3 argv)) False False None UNIT_SECONDS"
    "\<forall>nx xx x unit. r = Some (nx, xx, Some x, unit) \<longrightarrow> obj_ok x"
    using options_ok[OF p, of None False False UNIT_SECONDS] by auto
  show ?thesis
  proof (cases r)
    case None
    have "runs e (setCommand :: 'a command) s argv s argv (bytes_of_string ''-ERR syntax error'' @ crlf)"
      by (rule runsI[OF shared_replies]) (simp_all add: setCommand_def r(1) None bytes_of_string_def)
    then show ?thesis by (rule implementsI) (use assms(1) r(2) None in \<open>simp_all add: spec_setcmd_def\<close>)
  next
    case (Some q)
    obtain nx xx ex unit where q: "q = (nx, xx, ex, unit)" by (cases q)
    obtain sh o2 where o2: "encode_arg e s argv 2 = Some (s\<lparr>ks_integers := sh\<rparr>, argv[2 := o2])" "shared_ok sh" "obj_ok o2" "obj_text o2 = obj_text (argv ! 2)"
      using encode_arg_ok[OF assms(1,3) i(2)] by blast
    have "implements e (setGenericCommand ''set'' nx xx 1 2 ex unit None None :: 'a command) (s\<lparr>ks_integers := sh\<rparr>) (argv[2 := o2])
        (spec_set (e_now e) ''set'' nx xx (obj_text (argv ! 1)) (obj_text o2) (map_option obj_text ex) unit
          ((case None of Some r \<Rightarrow> r | None \<Rightarrow> bytes_of_string ''+OK'') @ crlf) ((case None of Some r \<Rightarrow> r | None \<Rightarrow> bytes_of_string ''$-1'') @ crlf))"
      by (rule set_generic) (use assms(1,2,5) o2(2,3) i arg_text_ok[OF assms(3) i(1)] r(3) Some q in
        \<open>auto simp: ks_ok_def arg_update bytes_of_string_def split: option.splits\<close>)
    then show ?thesis
      by (rule implements_silent)
        (use r Some q o2 in \<open>simp_all add: setCommand_def spec_setcmd_def fun_eq_iff ok_text_def null_bulk_def flip: r(2)\<close>)
  qed
qed

lemma set_wrapper:
  assumes "ks_ok e s" "master e" "list_all plain argv" "ival < length argv" "1 < ival" "db_size (ks_db s) < 2 ^ 30"
    "case ex of None \<Rightarrow> True | Some x \<Rightarrow> plain x"
    "length (case ok_reply of Some r \<Rightarrow> r | None \<Rightarrow> bytes_of_string ''+OK'') < 2 ^ 31" "length (case abort_reply of Some r \<Rightarrow> r | None \<Rightarrow> bytes_of_string ''$-1'') < 2 ^ 31"
    "\<And>c :: 'a out_client_scheme. cmd e s c argv = do { (s, argv) \<leftarrow> encode_arg e s argv ival; setGenericCommand name nx xx 1 ival ex unit ok_reply abort_reply e s c argv }"
  shows "implements e (cmd :: 'a command) s argv (spec_set (e_now e) name nx xx (obj_text (argv ! 1)) (obj_text (argv ! ival)) (map_option obj_text ex) unit
    ((case ok_reply of Some r \<Rightarrow> r | None \<Rightarrow> bytes_of_string ''+OK'') @ crlf) ((case abort_reply of Some r \<Rightarrow> r | None \<Rightarrow> bytes_of_string ''$-1'') @ crlf))"
proof -
  obtain sh o2 where o2: "encode_arg e s argv ival = Some (s\<lparr>ks_integers := sh\<rparr>, argv[ival := o2])" "shared_ok sh" "obj_ok o2" "obj_text o2 = obj_text (argv ! ival)"
    using encode_arg_ok[OF assms(1,3,4)] by blast
  have i: "1 < length argv" using assms(4,5) by simp
  have "implements e (setGenericCommand name nx xx 1 ival ex unit ok_reply abort_reply :: 'a command) (s\<lparr>ks_integers := sh\<rparr>) (argv[ival := o2])
      (spec_set (e_now e) name nx xx (obj_text (argv ! 1)) (obj_text o2) (map_option obj_text ex) unit
        ((case ok_reply of Some r \<Rightarrow> r | None \<Rightarrow> bytes_of_string ''+OK'') @ crlf) ((case abort_reply of Some r \<Rightarrow> r | None \<Rightarrow> bytes_of_string ''$-1'') @ crlf))"
    by (rule set_generic) (use assms o2(2,3) arg_text_ok[OF assms(3) i] in \<open>simp_all add: ks_ok_def arg_update plain_def split: option.splits\<close>)
  then show ?thesis by (rule implements_silent) (simp_all add: assms(10) o2)
qed

lemma setnx_implements:
  assumes "ks_ok e s" "master e" "list_all plain argv" "length argv = 3" "db_size (ks_db s) < 2 ^ 30"
  shows "implements e (setnxCommand :: 'a command) s argv (spec_set (e_now e) ''setnx'' True False (obj_text (argv ! 1)) (obj_text (argv ! 2)) None UNIT_SECONDS (int_reply 1) (int_reply 0))"
proof -
  show ?thesis using set_wrapper[OF assms(1-3), of 2 None "Some (bytes_of_string '':1'')" "Some (bytes_of_string '':0'')" "setnxCommand :: 'a command" "''setnx''" True False UNIT_SECONDS] assms(4,5)
    by (simp add: setnxCommand_def int_reply_def bytes_of_string_def int_repr_def dec_repr.simps del: One_nat_def)
qed

lemma setex_implements:
  assumes "ks_ok e s" "master e" "list_all plain argv" "length argv = 4" "db_size (ks_db s) < 2 ^ 30"
  shows "implements e (setexCommand :: 'a command) s argv
      (spec_set (e_now e) ''setex'' False False (obj_text (argv ! 1)) (obj_text (argv ! 3)) (Some (obj_text (argv ! 2))) UNIT_SECONDS ok_text null_bulk)"
    "implements e (psetexCommand :: 'a command) s argv
      (spec_set (e_now e) ''psetex'' False False (obj_text (argv ! 1)) (obj_text (argv ! 3)) (Some (obj_text (argv ! 2))) UNIT_MILLISECONDS ok_text null_bulk)"
proof -
  have x: "case Some (argv ! 2) of None \<Rightarrow> True | Some x \<Rightarrow> plain x" using assms(3,4) by (simp add: list_all_length)
  have i: "3 < length argv" "1 < (3 :: nat)" using assms(4) by simp_all
  have a: "do { (s, argv) \<leftarrow> encode_arg e s argv 3; x \<leftarrow> arg argv 2; f x e s c argv } = do { (s, argv') \<leftarrow> encode_arg e s argv 3; f (argv ! 2) e s c argv' }"
    for f :: "robj \<Rightarrow> 'a command" and c
    using assms(4) by (auto simp: encode_arg_def arg_def split: Option.bind_split)
  note w = set_wrapper[OF assms(1-3) i assms(5) x, of None None]
  show "implements e (setexCommand :: 'a command) s argv
      (spec_set (e_now e) ''setex'' False False (obj_text (argv ! 1)) (obj_text (argv ! 3)) (Some (obj_text (argv ! 2))) UNIT_SECONDS ok_text null_bulk)"
    using w[of setexCommand "''setex''" False False UNIT_SECONDS, OF _ _ a[of "\<lambda>x. setGenericCommand ''setex'' False False 1 3 (Some x) UNIT_SECONDS None None", folded setexCommand_def]]
    by (simp add: ok_text_def null_bulk_def bytes_of_string_def del: One_nat_def)
  show "implements e (psetexCommand :: 'a command) s argv
      (spec_set (e_now e) ''psetex'' False False (obj_text (argv ! 1)) (obj_text (argv ! 3)) (Some (obj_text (argv ! 2))) UNIT_MILLISECONDS ok_text null_bulk)"
    using w[of psetexCommand "''psetex''" False False UNIT_MILLISECONDS, OF _ _ a[of "\<lambda>x. setGenericCommand ''psetex'' False False 1 3 (Some x) UNIT_MILLISECONDS None None", folded psetexCommand_def]]
    by (simp add: ok_text_def null_bulk_def bytes_of_string_def del: One_nat_def)
qed

end
