(* ===== verification/Redis_Commands.thy ===== *)
theory Redis_Commands
  imports Redis_String
begin

text \<open>
  The command table of \<open>redis.c\<close> for the commands of \<open>Redis_Db\<close> and \<open>Redis_String\<close>, the lookup of a command with the
  check of its arity, and what a client sees of a sequence of commands.

  A command is looked up by its name, ignoring case.  The table here has 26 of the server's 163 commands.  The lookup
  has three outcomes: a row of the table, no such command, and \<open>None\<close> where the model does not say what the server
  does, namely for the name of a command that the server has and the model has not, and for a name with a null byte
  (the server finds its commands with \<open>strcasecmp\<close> in a hash table, so whether such a name is found depends on the
  table's buckets).  What is proved holds for names that the model covers: those of its rows, and those that are the
  name of no command of the server.  The commands are not renamed in the configuration.

  The clock, the hash function's seed, the contents of fresh memory and the role of the server are the environment of
  each call: between two calls the clock may advance and everything but the seed may change; one call reads one clock.

  The main result: on a master every sequence of calls with covered names, at any increasing times, refines the same sequence
  on a map from keys to contents and expire times in which keys vanish when their time has passed.  The bytes queued
  for the client are exactly the replies of the map, whatever the encodings of the objects, the state of the hash
  tables and the expired keys not yet deleted.
\<close>

section \<open>The code\<close>

record 'a redisCommand =
  rc_name :: string
  rc_proc :: "'a command"
  rc_arity :: int
  rc_sflags :: string

definition command :: "string \<Rightarrow> 'a command \<Rightarrow> int \<Rightarrow> string \<Rightarrow> 'a redisCommand" where
  "command n p a f = \<lparr>rc_name = n, rc_proc = p, rc_arity = a, rc_sflags = f\<rparr>"

definition redisCommandTable :: "'a redisCommand list" where
  "redisCommandTable = [
     command ''get'' getCommand 2 ''rF'',
     command ''set'' setCommand (- 3) ''wm'',
     command ''setnx'' setnxCommand 3 ''wmF'',
     command ''setex'' setexCommand 4 ''wm'',
     command ''psetex'' psetexCommand 4 ''wm'',
     command ''append'' appendCommand 3 ''wm'',
     command ''strlen'' strlenCommand 2 ''rF'',
     command ''del'' delCommand (- 2) ''w'',
     command ''exists'' existsCommand (- 2) ''rF'',
     command ''setrange'' setrangeCommand 4 ''wm'',
     command ''getrange'' getrangeCommand 4 ''r'',
     command ''substr'' getrangeCommand 4 ''r'',
     command ''incr'' incrCommand 2 ''wmF'',
     command ''decr'' decrCommand 2 ''wmF'',
     command ''mget'' mgetCommand (- 2) ''r'',
     command ''incrby'' incrbyCommand 3 ''wmF'',
     command ''decrby'' decrbyCommand 3 ''wmF'',
     command ''getset'' getsetCommand 3 ''wm'',
     command ''expire'' expireCommand 3 ''wF'',
     command ''expireat'' expireatCommand 3 ''wF'',
     command ''pexpire'' pexpireCommand 3 ''wF'',
     command ''pexpireat'' pexpireatCommand 3 ''wF'',
     command ''flushdb'' flushdbCommand 1 ''w'',
     command ''ttl'' ttlCommand 2 ''rF'',
     command ''pttl'' pttlCommand 2 ''rF'',
     command ''persist'' persistCommand 2 ''wF'']"

text \<open>The names of all commands of the server, in the order of its table.\<close>

definition command_names :: "string list" where
  "command_names = [
     ''get'', ''set'', ''setnx'', ''setex'', ''psetex'', ''append'', ''strlen'', ''del'', ''exists'', ''setbit'',
     ''getbit'', ''setrange'', ''getrange'', ''substr'', ''incr'', ''decr'', ''mget'', ''rpush'', ''lpush'',
     ''rpushx'', ''lpushx'', ''linsert'', ''rpop'', ''lpop'', ''brpop'', ''brpoplpush'', ''blpop'', ''llen'',
     ''lindex'', ''lset'', ''lrange'', ''ltrim'', ''lrem'', ''rpoplpush'', ''sadd'', ''srem'', ''smove'',
     ''sismember'', ''scard'', ''spop'', ''srandmember'', ''sinter'', ''sinterstore'', ''sunion'', ''sunionstore'',
     ''sdiff'', ''sdiffstore'', ''smembers'', ''sscan'', ''zadd'', ''zincrby'', ''zrem'', ''zremrangebyscore'',
     ''zremrangebyrank'', ''zremrangebylex'', ''zunionstore'', ''zinterstore'', ''zrange'', ''zrangebyscore'',
     ''zrevrangebyscore'', ''zrangebylex'', ''zrevrangebylex'', ''zcount'', ''zlexcount'', ''zrevrange'', ''zcard'',
     ''zscore'', ''zrank'', ''zrevrank'', ''zscan'', ''hset'', ''hsetnx'', ''hget'', ''hmset'', ''hmget'',
     ''hincrby'', ''hincrbyfloat'', ''hdel'', ''hlen'', ''hkeys'', ''hvals'', ''hgetall'', ''hexists'', ''hscan'',
     ''incrby'', ''decrby'', ''incrbyfloat'', ''getset'', ''mset'', ''msetnx'', ''randomkey'', ''select'', ''move'',
     ''rename'', ''renamenx'', ''expire'', ''expireat'', ''pexpire'', ''pexpireat'', ''keys'', ''scan'', ''dbsize'',
     ''auth'', ''ping'', ''echo'', ''save'', ''bgsave'', ''bgrewriteaof'', ''shutdown'', ''lastsave'', ''type'',
     ''multi'', ''exec'', ''discard'', ''sync'', ''psync'', ''replconf'', ''flushdb'', ''flushall'', ''sort'',
     ''info'', ''monitor'', ''ttl'', ''pttl'', ''persist'', ''slaveof'', ''role'', ''debug'', ''config'',
     ''subscribe'', ''unsubscribe'', ''psubscribe'', ''punsubscribe'', ''publish'', ''pubsub'', ''watch'',
     ''unwatch'', ''cluster'', ''restore'', ''restore-asking'', ''migrate'', ''asking'', ''readonly'', ''readwrite'',
     ''dump'', ''object'', ''client'', ''eval'', ''evalsha'', ''slowlog'', ''script'', ''time'', ''bitop'',
     ''bitcount'', ''bitpos'', ''wait'', ''command'', ''pfselftest'', ''pfadd'', ''pfcount'', ''pfmerge'',
     ''pfdebug'', ''latency'']"

definition named :: "string list \<Rightarrow> bytes \<Rightarrow> bool" where
  "named names name \<longleftrightarrow> list_ex (\<lambda>n. bytes_of_string n = map tolower name) names"

text \<open>What the server does with a name is determined by the rows called \<open>names\<close>.\<close>

definition covered :: "string list \<Rightarrow> bytes \<Rightarrow> bool" where
  "covered names name \<longleftrightarrow> 0 \<notin> set name \<and> (named command_names name \<longrightarrow> named names name)"

text \<open>The lookup in a table: \<open>Some None\<close> if there is no such command, \<open>None\<close> outside the model.\<close>

definition find_row :: "('r \<Rightarrow> string) \<Rightarrow> 'r list \<Rightarrow> bytes \<Rightarrow> 'r option option" where
  "find_row row_name rows name =
     (if covered (map row_name rows) name then Some (List.find (\<lambda>r. bytes_of_string (row_name r) = map tolower name) rows) else None)"

definition lookupCommand :: "bytes \<Rightarrow> 'a redisCommand option option" where
  "lookupCommand name = find_row rc_name redisCommandTable name"

definition bad_arity :: "'a redisCommand \<Rightarrow> nat \<Rightarrow> bool" where
  "bad_arity cmd argc \<longleftrightarrow> (rc_arity cmd > 0 \<and> rc_arity cmd \<noteq> int argc) \<or> int argc < - rc_arity cmd"

text \<open>\<open>addReplyErrorFormat\<close> on the formatted text.\<close>

definition addReplyErrorFormat :: "bool \<Rightarrow> 'a out_client_scheme \<Rightarrow> bytes \<Rightarrow> 'a out_client_scheme option" where
  "addReplyErrorFormat ae_ok c s = addReplyErrorLength ae_ok c (map (\<lambda>b. if b = 13 \<or> b = 10 then 32 else b) s)"

definition unknown_text :: "bytes \<Rightarrow> bytes" where
  "unknown_text name = bytes_of_string ''unknown command '' @ [39] @ takeWhile (\<lambda>b. b \<noteq> 0) name @ [39]"

definition arity_text :: "string \<Rightarrow> bytes" where
  "arity_text name = bytes_of_string ''wrong number of arguments for '' @ [39] @ bytes_of_string name @ [39] @ bytes_of_string '' command''"

text \<open>The part of \<open>processCommand\<close> between the lookup and the call.\<close>

definition dispatch :: "'a command" where
  "dispatch e s c argv = do {
     name \<leftarrow> arg_text argv 0;
     row \<leftarrow> lookupCommand name;
     (case row of
        None \<Rightarrow> do { c \<leftarrow> addReplyErrorFormat (e_ae_ok e) c (unknown_text name); Some (s, c, argv) }
      | Some cmd \<Rightarrow>
          if bad_arity cmd (length argv)
          then do { c \<leftarrow> addReplyErrorFormat (e_ae_ok e) c (arity_text (rc_name cmd)); Some (s, c, argv) }
          else rc_proc cmd e s c argv)
   }"

section \<open>The remaining key commands\<close>

definition spec_ttl :: "64 word \<Rightarrow> bool \<Rightarrow> bytes \<Rightarrow> aview \<Rightarrow> aview \<times> bytes" where
  "spec_ttl now output_ms key m = (m,
     int_reply (case m key of
        None \<Rightarrow> - 2
      | Some (_, None) \<Rightarrow> - 1
      | Some (_, Some w) \<Rightarrow>
          if w = - 1 then - 1
          else let t = (if sint (w - now) < 0 then 0 else w - now)
               in if output_ms then sint t else sint (word_of_int (c_div (sint (t + 500)) 1000) :: 64 word)))"

lemma sint_minus_int: "sint (- 1 :: 64 word) = - 1" "sint (- 2 :: 64 word) = - 2"
  using sint_word_of_int_64[of "- 1"] sint_word_of_int_64[of "- 2"] by simp_all

lemma int_replies_to: "sint v = n \<Longrightarrow> replies (e_junk e) (e_clk e) (e_ae_ok e) (\<lambda>c. reply_int e c v) (int_reply n)"
  using int_replies[of e v] by (simp add: int_reply_def)

lemma view_cong: "kmap a = kmap b \<Longrightarrow> xmap a = xmap b \<Longrightarrow> view e a = view e b" "kmap a = kmap b \<Longrightarrow> xmap a = xmap b \<Longrightarrow> expired e a = expired e b"
  using cmap_cong[of a b] by (auto simp: view_def expired_def fun_eq_iff)

lemma ttl_implements:
  assumes "ks_ok e s" "master e" "list_all plain argv" "1 < length argv"
  shows "implements e (ttlGenericCommand output_ms :: 'a command) s argv (spec_ttl (e_now e) output_ms (obj_text (argv ! 1)))"
proof -
  let ?key = "obj_text (argv ! 1)" and ?m = "view e (ks_db s)"
  obtain s1 where s1: "lookupKeyRead e s ?key = Some (s1, kmap (ks_db s1) ?key)" "found e s s1 ?key" using read_found[OF assms(1,2)] by blast
  note unf = ttlGenericCommand_def arg_text_ok[OF assms(3,4)] s1(1) Option.bind.bind_lunit prod.case
  show ?thesis
  proof (cases "kmap (ks_db s1) ?key")
    case None
    then have "?m ?key = None" using foundD(7)[OF s1(2)] by simp
    then show ?thesis using None
      by (intro implements_same[OF s1(2) assms(1) int_replies_to[OF sint_minus_int(2)]]) (simp_all add: unf spec_ttl_def del: One_nat_def)
  next
    case (Some o1)
    define x where "x = (case xmap (ks_db s1) ?key of Some w \<Rightarrow> w | None \<Rightarrow> - 1)"
    obtain db where db: "getExpire e s1 ?key = Some (s1\<lparr>ks_db := db\<rparr>, x)" "db_ok e db" "kmap db = kmap (ks_db s1)" "xmap db = xmap (ks_db s1)"
      using getExpire_ok[OF foundD(1)[OF s1(2)], of ?key] unfolding x_def by blast
    have f: "found e s (s1\<lparr>ks_db := db\<rparr>) ?key"
      using s1(2) db(2) view_cong[OF db(3,4)] db(3) by (simp add: found_def unseen_def db_size_def)
    have m: "?m ?key = Some (content_of o1, xmap (ks_db s1) ?key)" using foundD(7)[OF s1(2)] Some by simp
    let ?t = "if sint (x - e_now e) < 0 then 0 else x - e_now e"
    define v where "v = (if x = - 1 then - 1 else if output_ms then ?t else word_of_int (c_div (sint (?t + 500)) 1000))"
    have t: "?t \<noteq> - 1" using sint_minus_int by auto
    have eq: "ttlGenericCommand output_ms e s c argv = do { c \<leftarrow> reply_int e c v; Some (s1\<lparr>ks_db := db\<rparr>, c, argv) }" for c :: "'a out_client_scheme"
      using t by (simp add: unf Some db(1) v_def Let_def del: One_nat_def)
    have sp: "spec_ttl (e_now e) output_ms ?key ?m = (?m, int_reply (sint v))"
      by (cases "xmap (ks_db s1) ?key") (simp_all add: spec_ttl_def m v_def x_def sint_minus_int Let_def del: One_nat_def)
    show ?thesis by (rule implements_same[OF f assms(1) int_replies_to[OF refl]]) (simp_all only: eq sp)
  qed
qed

definition spec_flushdb :: "aview \<Rightarrow> aview \<times> bytes" where
  "spec_flushdb m = (Map.empty, ok_text)"

lemma flushdb_implements:
  assumes "ks_ok e s"
  shows "implements e (flushdbCommand :: 'a command) s argv spec_flushdb"
proof -
  define s' where "s' = set_expires (set_keys (s\<lparr>ks_dirty := ks_dirty s + dictSize (db_keys (ks_db s)), ks_flushed := ks_flushed s + 1\<rparr>)
      (dictEmpty (db_keys (ks_db s)))) (dictEmpty (db_expires (ks_db s)))"
  have e: "dict_ok ty (dictEmpty d)" "dict_map (dictEmpty d) = Map.empty" for ty :: "bytes dictType" and d :: "(bytes, 'b) dict"
    by (simp_all add: dict_ok_def dictEmpty_def dictIsRehashing_def dict_entries_def dict_map_def)
  have km: "kmap (ks_db s') = Map.empty" "xmap (ks_db s') = Map.empty" "ks_integers s' = ks_integers s"
    by (simp_all add: s'_def set_keys_def set_expires_def kmap_def xmap_def e)
  have "db_ok e (ks_db s')" by (simp add: db_ok_def km) (simp add: s'_def set_keys_def set_expires_def e)
  then have "ks_ok e s'" using assms km by (simp add: ks_ok_def)
  moreover have "view e (ks_db s') = Map.empty" by (simp add: view_def[abs_def] cmap_def km fun_eq_iff)
  moreover have "runs e (flushdbCommand :: 'a command) s argv s' argv ok_text"
    unfolding ok_text_def by (rule runsI[OF shared_replies]) (simp_all add: flushdbCommand_def s'_def set_keys_def set_expires_def bytes_of_string_def Let_def)
  moreover have "reported e s s'"
  proof -
    have "k \<in> dom (kmap (ks_db s))" if "view e (ks_db s') k \<noteq> view e (ks_db s) k" for k
      using that by (auto simp: view_def cmap_def km split: if_splits)
    then show ?thesis by (auto simp: reported_def s'_def set_keys_def set_expires_def)
  qed
  ultimately show ?thesis by (intro implementsI[where s' = s' and argv' = argv]) (simp_all add: spec_flushdb_def km db_size_def)
qed

section \<open>One command\<close>

definition spec_incrby :: "bytes \<Rightarrow> bytes \<Rightarrow> aview \<Rightarrow> aview \<times> bytes" where
  "spec_incrby key i m = (case text_ll i of None \<Rightarrow> (m, not_integer) | Some d \<Rightarrow> spec_incr key d m)"

text \<open>The negation wraps around: the decrement by the smallest integer is an increment by it.\<close>

definition spec_decrby :: "bytes \<Rightarrow> bytes \<Rightarrow> aview \<Rightarrow> aview \<times> bytes" where
  "spec_decrby key i m = (case text_ll i of None \<Rightarrow> (m, not_integer) | Some d \<Rightarrow> spec_incr key (- d) m)"

lemma implements_cong:
  assumes "implements e cmd s argv spec" "\<And>c. cmd' e s c argv = cmd e s c argv" "spec' = spec"
  shows "implements e cmd' s argv spec'"
  using assms unfolding implements_def runs_def by simp

lemma incrby_implements:
  assumes "ks_ok e s" "master e" "list_all plain argv" "length argv = 3" "room (ks_db s)"
  shows "implements e (incrbyCommand :: 'a command) s argv (spec_incrby (obj_text (argv ! 1)) (obj_text (argv ! 2)))"
    "implements e (decrbyCommand :: 'a command) s argv (spec_decrby (obj_text (argv ! 1)) (obj_text (argv ! 2)))"
proof -
  have i: "1 < length argv" "2 < length argv" using assms(4) by simp_all
  note ll = getLL_arg[OF assms(3) i(2)] and inc = incr_implements[OF assms(1-3) i(1) assms(5)]
  have none: "implements e (cmd :: 'a command) s argv spec" if "text_ll (obj_text (argv ! 2)) = None"
    "\<And>c. cmd e s c argv = do { c \<leftarrow> addReplyError (e_ae_ok e) c ''value is not an integer or out of range''; Some (s, c, argv) }"
    "\<And>m. spec m = (m, not_integer)" for cmd spec
  proof -
    have "runs e cmd s argv s argv not_integer" by (rule runsI[OF integer_replies]) (rule that(2))
    then show ?thesis by (rule implementsI) (use assms(1) that(3) in simp_all)
  qed
  show "implements e (incrbyCommand :: 'a command) s argv (spec_incrby (obj_text (argv ! 1)) (obj_text (argv ! 2)))"
  proof (cases "text_ll (obj_text (argv ! 2))")
    case None
    then show ?thesis by (intro none) (simp_all add: incrbyCommand_def spec_incrby_def ll)
  next
    case (Some d)
    show ?thesis by (rule implements_cong[OF inc[of d]]) (simp_all add: incrbyCommand_def spec_incrby_def[abs_def] ll Some)
  qed
  show "implements e (decrbyCommand :: 'a command) s argv (spec_decrby (obj_text (argv ! 1)) (obj_text (argv ! 2)))"
  proof (cases "text_ll (obj_text (argv ! 2))")
    case None
    then show ?thesis by (intro none) (simp_all add: decrbyCommand_def spec_decrby_def ll)
  next
    case (Some d)
    show ?thesis by (rule implements_cong[OF inc[of "- d"]]) (simp_all add: decrbyCommand_def spec_decrby_def[abs_def] ll Some)
  qed
qed

text \<open>What each command means: its name, its arity and its effect by its arguments.\<close>

definition spec_table :: "64 word \<Rightarrow> (string \<times> int \<times> (bytes list \<Rightarrow> aview \<Rightarrow> aview \<times> bytes)) list" where
  "spec_table now = [
     (''get'', 2, \<lambda>a. spec_get (a ! 1)),
     (''set'', - 3, \<lambda>a. spec_setcmd now (a ! 1) (a ! 2) (drop 3 a)),
     (''setnx'', 3, \<lambda>a. spec_set now ''setnx'' True False (a ! 1) (a ! 2) None UNIT_SECONDS (int_reply 1) (int_reply 0)),
     (''setex'', 4, \<lambda>a. spec_set now ''setex'' False False (a ! 1) (a ! 3) (Some (a ! 2)) UNIT_SECONDS ok_text null_bulk),
     (''psetex'', 4, \<lambda>a. spec_set now ''psetex'' False False (a ! 1) (a ! 3) (Some (a ! 2)) UNIT_MILLISECONDS ok_text null_bulk),
     (''append'', 3, \<lambda>a. spec_append (a ! 1) (a ! 2)),
     (''strlen'', 2, \<lambda>a. spec_strlen (a ! 1)),
     (''del'', - 2, \<lambda>a. spec_del (drop 1 a)),
     (''exists'', - 2, \<lambda>a. spec_exists (drop 1 a)),
     (''setrange'', 4, \<lambda>a. spec_setrange (a ! 1) (a ! 2) (a ! 3)),
     (''getrange'', 4, \<lambda>a. spec_getrange (a ! 1) (a ! 2) (a ! 3)),
     (''substr'', 4, \<lambda>a. spec_getrange (a ! 1) (a ! 2) (a ! 3)),
     (''incr'', 2, \<lambda>a. spec_incr (a ! 1) 1),
     (''decr'', 2, \<lambda>a. spec_incr (a ! 1) (- 1)),
     (''mget'', - 2, \<lambda>a. spec_mget (drop 1 a)),
     (''incrby'', 3, \<lambda>a. spec_incrby (a ! 1) (a ! 2)),
     (''decrby'', 3, \<lambda>a. spec_decrby (a ! 1) (a ! 2)),
     (''getset'', 3, \<lambda>a. spec_getset (a ! 1) (a ! 2)),
     (''expire'', 3, \<lambda>a. spec_expire now now UNIT_SECONDS (a ! 1) (a ! 2)),
     (''expireat'', 3, \<lambda>a. spec_expire now 0 UNIT_SECONDS (a ! 1) (a ! 2)),
     (''pexpire'', 3, \<lambda>a. spec_expire now now UNIT_MILLISECONDS (a ! 1) (a ! 2)),
     (''pexpireat'', 3, \<lambda>a. spec_expire now 0 UNIT_MILLISECONDS (a ! 1) (a ! 2)),
     (''flushdb'', 1, \<lambda>a. spec_flushdb),
     (''ttl'', 2, \<lambda>a. spec_ttl now False (a ! 1)),
     (''pttl'', 2, \<lambda>a. spec_ttl now True (a ! 1))]"

definition err :: "bytes \<Rightarrow> bytes" where
  "err s = bytes_of_string ''-ERR '' @ map (\<lambda>b. if b = 13 \<or> b = 10 then 32 else b) s @ crlf"

definition spec_command :: "64 word \<Rightarrow> bytes list \<Rightarrow> aview \<Rightarrow> aview \<times> bytes" where
  "spec_command now a m =
     (case List.find (\<lambda>(n, _, _). bytes_of_string n = map tolower (hd a)) (spec_table now) of
        None \<Rightarrow> (m, err (unknown_text (hd a)))
      | Some (n, k, f) \<Rightarrow>
          if (k > 0 \<and> k \<noteq> int (length a)) \<or> int (length a) < - k then (m, err (arity_text n)) else f a m)"

text \<open>The calls the specification covers: the name is that of a row of the specification or of no command of the server
  (so neither \<open>PERSIST\<close> nor a command that is not modelled), and for \<open>SETRANGE\<close> the end of the range does not
  overflow.\<close>

definition supported_by :: "string list \<Rightarrow> bytes list \<Rightarrow> bool" where
  "supported_by names a \<longleftrightarrow> a \<noteq> [] \<and> length a < 2 ^ 63 \<and> covered names (hd a) \<and>
     (map tolower (hd a) = bytes_of_string ''setrange'' \<and> length a = 4 \<longrightarrow>
       (case text_ll (a ! 2) of None \<Rightarrow> True | Some v \<Rightarrow> sint v + int (length (a ! 3)) < 2 ^ 63))"

text \<open>\<open>QUIT\<close> is not in the table: \<open>processCommand\<close> answers it before the lookup.\<close>

definition key_names :: "string list" where
  "key_names = map fst (spec_table 0)"

definition supported :: "bytes list \<Rightarrow> bool" where
  "supported a \<longleftrightarrow> supported_by key_names a \<and> map tolower (hd a) \<noteq> bytes_of_string ''quit''"

lemma supportedD:
  assumes "supported a"
  shows "a \<noteq> []" "length a < 2 ^ 63" "covered key_names (hd a)"
    "map tolower (hd a) = bytes_of_string ''setrange'' \<Longrightarrow> length a = 4 \<Longrightarrow> text_ll (a ! 2) = Some v \<Longrightarrow> sint v + int (length (a ! 3)) < 2 ^ 63"
  using assms by (simp_all add: supported_def supported_by_def)

lemma named_append [simp]: "named (a @ b) name \<longleftrightarrow> named a name \<or> named b name"
  by (simp add: named_def)

lemma covered_mono: "covered names name \<Longrightarrow> (named names name \<Longrightarrow> named names' name) \<Longrightarrow> covered names' name"
  by (auto simp: covered_def)

lemma find_row_Some:
  "find_row f rows name = Some r \<longleftrightarrow> covered (map f rows) name \<and> r = List.find (\<lambda>x. bytes_of_string (f x) = map tolower name) rows"
  by (auto simp: find_row_def)

lemma key_rows: "map rc_name (redisCommandTable :: 'a redisCommand list) = key_names @ [''persist'']"
  by (simp add: redisCommandTable_def command_def key_names_def spec_table_def)

lemma bytes_of_string_inj [simp]: "bytes_of_string a = bytes_of_string b \<longleftrightarrow> a = b"
proof -
  have u: "unat (of_char c :: byte) = of_char c" for c
    using nat_of_char_less_256[of c] unfolding of_nat_of_char[symmetric, where 'a = byte] by (simp add: unat_of_nat)
  have "inj (of_char :: char \<Rightarrow> byte)"
    by (rule injI) (metis u char_of_char)
  then show ?thesis by (simp add: bytes_of_string_def inj_map_eq_map)
qed

lemma named_iff: "map tolower name = bytes_of_string n \<Longrightarrow> named names name \<longleftrightarrow> n \<in> set names"
  by (auto simp: named_def list_ex_iff)

lemma not_persist: "covered key_names name \<Longrightarrow> map tolower name \<noteq> bytes_of_string ''persist''"
  by (auto simp: covered_def named_iff command_names_def key_names_def spec_table_def)

definition entry_ok :: "server_env \<Rightarrow> keyspace \<Rightarrow> robj list \<Rightarrow> 'a redisCommand \<Rightarrow> string \<times> int \<times> (bytes list \<Rightarrow> aview \<Rightarrow> aview \<times> bytes) \<Rightarrow> bool" where
  "entry_ok e s argv c x \<longleftrightarrow> (case x of (n, k, f) \<Rightarrow> rc_name c = n \<and> rc_arity c = k \<and>
     (bytes_of_string n = map tolower (obj_text (hd argv)) \<longrightarrow> \<not> bad_arity c (length argv) \<longrightarrow> implements e (rc_proc c) s argv (f (map obj_text argv))))"

lemma entry_okI:
  assumes "bytes_of_string n = map tolower (obj_text (hd argv)) \<Longrightarrow> (k > 0 \<Longrightarrow> length argv = nat k) \<Longrightarrow> nat (- k) \<le> length argv \<Longrightarrow> implements e p s argv (f (map obj_text argv))"
  shows "entry_ok e s argv (command n p k fl) (n, k, f)"
  using assms unfolding entry_ok_def by (auto simp: command_def bad_arity_def)

lemma find_rel:
  assumes "list_all2 R xs ys" "\<And>x y. R x y \<Longrightarrow> P x \<longleftrightarrow> Q y"
  shows "rel_option R (List.find P xs) (List.find Q ys)"
  using assms(1) by (induction rule: list_all2_induct) (auto simp: assms(2))

lemma find_snoc: "\<not> P x \<Longrightarrow> List.find P (xs @ [x]) = List.find P xs"
  by (induction xs) auto

lemma wrappers:
  "(incrCommand :: 'a command) = incrDecrCommand 1" "(decrCommand :: 'a command) = incrDecrCommand (- 1)"
  "(ttlCommand :: 'a command) = ttlGenericCommand False" "(pttlCommand :: 'a command) = ttlGenericCommand True"
  by (simp_all add: fun_eq_iff incrCommand_def decrCommand_def ttlCommand_def pttlCommand_def)

lemma table_ok:
  assumes "ks_ok e s" "master e" "list_all plain argv" "argv \<noteq> []" "supported (map obj_text argv)" "db_size (ks_db s) < 2 ^ 30"
  shows "list_all2 (entry_ok e s argv) (butlast (redisCommandTable :: 'a redisCommand list)) (spec_table (e_now e))"
proof -
  have room: "room (ks_db s)" using assms(6) by (simp add: room_def db_size_def)
  have len: "length argv < 2 ^ 63" using supportedD(2)[OF assms(5)] by simp
  have d: "drop i (map obj_text argv) = map obj_text (drop i argv)" for i by (simp add: drop_map)
  note c = assms(1-3)
  have expire: "implements e (expireCommand :: 'a command) s argv (spec_expire (e_now e) (e_now e) UNIT_SECONDS (obj_text (argv ! 1)) (obj_text (argv ! 2)))"
    "implements e (expireatCommand :: 'a command) s argv (spec_expire (e_now e) 0 UNIT_SECONDS (obj_text (argv ! 1)) (obj_text (argv ! 2)))"
    "implements e (pexpireCommand :: 'a command) s argv (spec_expire (e_now e) (e_now e) UNIT_MILLISECONDS (obj_text (argv ! 1)) (obj_text (argv ! 2)))"
    "implements e (pexpireatCommand :: 'a command) s argv (spec_expire (e_now e) 0 UNIT_MILLISECONDS (obj_text (argv ! 1)) (obj_text (argv ! 2)))"
    if "length argv = 3"
    using expire_implements[OF c that room]
    by (auto intro!: implements_cong[OF expire_implements[OF c that room]] simp: expireCommand_def expireatCommand_def pexpireCommand_def pexpireatCommand_def)
  have setrange: "implements e (setrangeCommand :: 'a command) s argv (spec_setrange (obj_text (argv ! 1)) (obj_text (argv ! 2)) (obj_text (argv ! 3)))"
    if "bytes_of_string ''setrange'' = map tolower (obj_text (hd argv))" "length argv = 4"
  proof (rule setrange_implements[OF c that(2) room])
    fix v
    assume "text_ll (obj_text (argv ! 2)) = Some v"
    then show "sint v + int (length (obj_text (argv ! 3))) < 2 ^ 63" using supportedD(4)[OF assms(5)] assms(4) that by (simp add: hd_map)
  qed
  show ?thesis
    unfolding redisCommandTable_def spec_table_def
    by (simp only: butlast.simps list.distinct if_False if_True list_all2_Cons list_all2_Nil, intro conjI TrueI entry_okI)
      (use c len room assms(4,6) expire setrange in \<open>simp_all add: d wrappers get_implements set_implements setnx_implements setex_implements append_implements
        strlen_implements del_implements exists_implements getrange_implements incr_implements mget_implements incrby_implements getset_implements
        flushdb_implements ttl_implements nth_map del: One_nat_def\<close>)
qed

lemma format_replies: "replies (e_junk e) (e_clk e) (e_ae_ok e) (\<lambda>c. addReplyErrorFormat (e_ae_ok e) c t) (err t)"
  using replies_error by (simp add: addReplyErrorFormat_def err_def crlf_def)

lemma reply_only:
  assumes "ks_ok e s" "\<And>c. cmd e s c argv = do { c \<leftarrow> addReplyErrorFormat (e_ae_ok e) c t; Some (s, c, argv) }" "spec (view e (ks_db s)) = (view e (ks_db s), err t)"
  shows "implements e cmd s argv spec"
proof (rule implementsI)
  show "runs e cmd s argv s argv (err t)" by (rule runsI[OF format_replies]) (rule assms(2))
qed (use assms(1,3) in simp_all)

lemma dispatch_implements:
  assumes "ks_ok e s" "master e" "list_all plain argv" "supported (map obj_text argv)" "db_size (ks_db s) < 2 ^ 30"
  shows "implements e (dispatch :: 'a command) s argv (spec_command (e_now e) (map obj_text argv))"
proof -
  have ne: "argv \<noteq> []" using supportedD(1)[OF assms(4)] by simp
  have cov: "covered key_names (hd (map obj_text argv))" by (rule supportedD(3)[OF assms(4)])
  have hd: "obj_text (argv ! 0) = hd (map obj_text argv)" using ne by (simp add: hd_map hd_conv_nth)
  let ?name = "hd (map obj_text argv)"
  let ?P = "\<lambda>c :: 'a redisCommand. bytes_of_string (rc_name c) = map tolower ?name"
  have at: "arg_text argv 0 = Some ?name" using arg_text_ok[OF assms(3), of 0] ne hd by simp
  have t: "(redisCommandTable :: 'a redisCommand list) = butlast redisCommandTable @ [command ''persist'' persistCommand 2 ''wF'']" by (simp add: redisCommandTable_def)
  have np: "\<not> ?P (command ''persist'' persistCommand 2 ''wF'')" using not_persist[OF cov] by (auto simp: command_def)
  have "List.find ?P redisCommandTable = List.find ?P (butlast redisCommandTable)"
    by (subst t) (rule find_snoc[of ?P, OF np])
  then have l: "lookupCommand ?name = Some (List.find ?P (butlast redisCommandTable))"
    using covered_mono[OF cov] by (simp add: lookupCommand_def find_row_Some key_rows)
  have rel: "rel_option (entry_ok e s argv) (List.find ?P (butlast redisCommandTable)) (List.find (\<lambda>(n, _, _). bytes_of_string n = map tolower ?name) (spec_table (e_now e)))"
    by (rule find_rel[OF table_ok[OF assms(1-3) ne assms(4,5)]]) (auto simp: entry_ok_def)
  show ?thesis
  proof (cases "List.find ?P (butlast redisCommandTable)")
    case None
    then show ?thesis using rel by (intro reply_only[OF assms(1)]) (auto simp: dispatch_def at l spec_command_def)
  next
    case (Some c)
    obtain n k f where x: "List.find (\<lambda>(n, _, _). bytes_of_string n = map tolower ?name) (spec_table (e_now e)) = Some (n, k, f)" "entry_ok e s argv c (n, k, f)"
      using rel Some by (auto simp: option_rel_Some1)
    have c: "rc_name c = n" "rc_arity c = k" using x(2) by (simp_all add: entry_ok_def)
    have nm: "bytes_of_string n = map tolower ?name" using x(1) by (auto simp: find_Some_iff)
    show ?thesis
    proof (cases "bad_arity c (length argv)")
      case True
      then show ?thesis using x c
        by (intro reply_only[OF assms(1)]) (auto simp: dispatch_def at l Some spec_command_def bad_arity_def)
    next
      case False
      have "implements e (rc_proc c) s argv (f (map obj_text argv))" using x(2) nm False ne by (simp add: entry_ok_def hd_map)
      then show ?thesis
        by (rule implements_cong) (use x(1) c False in \<open>auto simp: dispatch_def at l Some spec_command_def bad_arity_def fun_eq_iff\<close>)
    qed
  qed
qed

section \<open>Sequences of commands\<close>

text \<open>The keys that are still there at a later time.\<close>

definition later :: "64 word \<Rightarrow> aview \<Rightarrow> aview" where
  "later now m k = (case m k of Some (c, x) \<Rightarrow> if past now x then None else Some (c, x) | None \<Rightarrow> None)"

fun run :: "keyspace \<Rightarrow> 'a out_client_scheme \<Rightarrow> (server_env \<times> robj list) list \<Rightarrow> (keyspace \<times> 'a out_client_scheme) option" where
  "run s c [] = Some (s, c)"
| "run s c ((e, argv) # calls) = do { (s, c, _) \<leftarrow> dispatch e s c argv; run s c calls }"

fun run_spec :: "aview \<Rightarrow> (64 word \<times> bytes list) list \<Rightarrow> aview \<times> bytes" where
  "run_spec m [] = (m, [])"
| "run_spec m ((now, a) # calls) = (let (m, t) = spec_command now a (later now m); (m, u) = run_spec m calls in (m, t @ u))"

definition abs_call :: "server_env \<times> robj list \<Rightarrow> 64 word \<times> bytes list" where
  "abs_call x = (e_now (fst x), map obj_text (snd x))"

text \<open>The environments of a sequence of calls on a master: one seed, a clock that does not go back, an output
  handler that can be installed.\<close>

fun calls_ok :: "32 word \<Rightarrow> 64 word \<Rightarrow> (server_env \<times> robj list) list \<Rightarrow> bool" where
  "calls_ok seed now [] = True"
| "calls_ok seed now ((e, argv) # calls) \<longleftrightarrow> e_seed e = seed \<and> sint now \<le> sint (e_now e) \<and> master e \<and> e_ae_ok e \<and> list_all plain argv \<and>
     supported (map obj_text argv) \<and> calls_ok seed (e_now e) calls"

lemma view_later:
  assumes "sint (e_now e) \<le> sint (e_now e')"
  shows "view e' db = later (e_now e') (view e db)"
  using assms by (auto simp: view_def later_def expired_past past_def fun_eq_iff split: option.splits)

lemma ks_ok_seed: "e_seed e' = e_seed e \<Longrightarrow> ks_ok e' s = ks_ok e s"
  by (simp add: ks_ok_def db_ok_def)

lemma run_refines:
  assumes "ks_ok e0 s" "calls_ok (e_seed e0) (e_now e0) calls" "out_ok c" "writes True c" "db_size (ks_db s) + length calls \<le> 2 ^ 30"
  shows "\<exists>s' c' e1. run s c calls = Some (s', c') \<and> out_ok c' \<and> queued c' = queued c @ snd (run_spec (view e0 (ks_db s)) (map abs_call calls)) \<and>
    e1 = fst (last ((e0, []) # calls)) \<and> ks_ok e1 s' \<and> view e1 (ks_db s') = fst (run_spec (view e0 (ks_db s)) (map abs_call calls))"
  using assms
proof (induction calls arbitrary: e0 s c)
  case (Cons call calls)
  obtain e argv where call: "call = (e, argv)" by (cases call)
  have p: "e_seed e = e_seed e0" "sint (e_now e0) \<le> sint (e_now e)" "master e" "e_ae_ok e" "list_all plain argv" "supported (map obj_text argv)"
    "calls_ok (e_seed e) (e_now e) calls" using Cons.prems(2) call by auto
  have ok: "ks_ok e s" using ks_ok_seed[OF p(1)] Cons.prems(1) by simp
  have v: "view e (ks_db s) = later (e_now e) (view e0 (ks_db s))" by (rule view_later[OF p(2)])
  let ?spec = "spec_command (e_now e) (map obj_text argv) (view e (ks_db s))"
  have "implements e (dispatch :: 'a command) s argv (spec_command (e_now e) (map obj_text argv))"
    by (rule dispatch_implements[OF ok p(3,5,6)]) (use Cons.prems(5) in simp)
  then obtain s1 argv1 where s1: "runs e (dispatch :: 'a command) s argv s1 argv1 (snd ?spec)" "ks_ok e s1" "view e (ks_db s1) = fst ?spec"
    "db_size (ks_db s1) \<le> Suc (db_size (ks_db s))" unfolding implements_def by blast
  obtain c1 where c1: "dispatch e s c argv = Some (s1, c1, argv1)" "out_ok c1" "writes True c1" "queued c1 = queued c @ snd ?spec"
    using runs_writes[OF s1(1) Cons.prems(3)] p(4) Cons.prems(4) by auto
  obtain s' c' where "run s1 c1 calls = Some (s', c')" "out_ok c'" "queued c' = queued c1 @ snd (run_spec (view e (ks_db s1)) (map abs_call calls))"
    "ks_ok (fst (last ((e, []) # calls))) s'" "view (fst (last ((e, []) # calls))) (ks_db s') = fst (run_spec (view e (ks_db s1)) (map abs_call calls))"
    using Cons.IH[OF s1(2) p(7) c1(2,3)] s1(4) Cons.prems(5) by auto
  moreover have "run_spec (view e0 (ks_db s)) (map abs_call (call # calls)) =
      (fst (run_spec (fst ?spec) (map abs_call calls)), snd ?spec @ snd (run_spec (fst ?spec) (map abs_call calls)))"
    by (simp add: call abs_call_def v[symmetric] split_beta Let_def)
  ultimately show ?case using c1 s1(3) call by (cases calls) auto
qed (simp add: abs_call_def)

section \<open>Properties\<close>

lemma later_simps [simp]:
  "later now Map.empty = Map.empty"
  "later now (m(k := v)) = (later now m)(k := (case v of Some (c, x) \<Rightarrow> if past now x then None else Some (c, x) | None \<Rightarrow> None))"
  by (auto simp: later_def fun_eq_iff)

text \<open>A session: a key that expires is set, incremented, and read after its time has passed.\<close>

definition sample_calls :: "(64 word \<times> bytes list) list" where
  "sample_calls = [(5, [bytes_of_string ''SET'', [107], [53], bytes_of_string ''px'', [57]]), (6, [bytes_of_string ''incr'', [107]]), (100, [bytes_of_string ''Get'', [107]])]"

text \<open>Names of the samples.\<close>

lemma covered_samples:
  "covered key_names (bytes_of_string ''SET'')" "covered key_names (bytes_of_string ''incr'')" "covered key_names (bytes_of_string ''Get'')"
  "covered key_names (bytes_of_string ''Exists'')"
  by (simp_all add: covered_def named_def key_names_def spec_table_def bytes_of_string_def tolower_def)

lemma supported_samples:
  "supported [bytes_of_string ''SET'', a, b, c, d]" "supported [bytes_of_string ''incr'', a]" "supported [bytes_of_string ''Get'', a]"
  using covered_samples by (simp_all add: supported_def supported_by_def bytes_of_string_def tolower_def)

lemma sample_texts: "text_ll [57] = Some 9" "text_ll [53] = Some 5" "int_repr 6 = [54]"
  by (simp_all add: text_ll_def numeral_value_def is_digit_def chr_def Let_def int_repr_def dec_repr.simps)

lemma sample_lookup:
  "spec_command now [bytes_of_string ''SET'', k, t, a, b] = spec_setcmd now k t [a, b]"
  "spec_command now [bytes_of_string ''incr'', k] = spec_incr k 1"
  "spec_command now [bytes_of_string ''Get'', k] = spec_get k"
  by (simp_all add: fun_eq_iff spec_command_def spec_table_def bytes_of_string_def tolower_def)

lemma sample_replies: "run_spec Map.empty sample_calls = (Map.empty, ok_text @ int_reply 6 @ null_bulk)"
proof -
  have "spec_setcmd 5 [107] [53] [bytes_of_string ''px'', [57]] Map.empty = ([[107] \<mapsto> (AStr [53], Some 14)], ok_text)"
    by (simp add: spec_setcmd_def spec_set_def opt_is_def chr_def bytes_of_string_def sample_texts entry_def past_def)
  moreover have "spec_incr [107] 1 [[107] \<mapsto> (AStr [53], Some 14)] = ([[107] \<mapsto> (AStr [54], Some 14)], int_reply 6)"
    by (simp add: spec_incr_def sample_texts)
  ultimately show ?thesis by (simp add: sample_calls_def sample_lookup past_def spec_get_def)
qed
text \<open>C2. A sequence of commands behaves like the same sequence on a map.  On a master, from every well-formed keyspace,
  for every sequence of calls at times that do not decrease, each of one of the modelled commands (\<open>PERSIST\<close> excepted)
  or of a name that no command of the server has (\<open>QUIT\<close> excepted, which is answered before the lookup), whatever fresh memory holds and however the dictionaries
  rehash meanwhile: no command fails an assertion, the bytes queued for the client are exactly the replies of the
  abstract map from keys to contents and expire times, in which a key vanishes when its time has passed, and at the end
  the clients see exactly the keys of that map.\<close>

theorem commands_refine_map:
  assumes "ks_ok e0 s" "calls_ok (e_seed e0) (e_now e0) calls" "out_ok c" "writes True c" "db_size (ks_db s) + length calls \<le> 2 ^ 30"
  shows "\<exists>s' c'. run s c calls = Some (s', c') \<and> queued c' = queued c @ snd (run_spec (view e0 (ks_db s)) (map abs_call calls)) \<and>
    view (fst (last ((e0, []) # calls))) (ks_db s') = fst (run_spec (view e0 (ks_db s)) (map abs_call calls)) \<and>
    ks_ok (fst (last ((e0, []) # calls))) s'"
  using run_refines[OF assms] by blast

theorem commands_refine_map_witness:
  "\<exists>s' c'. run no_keys fresh_client (map (\<lambda>(now, a). (sample_env now, map str_obj a)) sample_calls) = Some (s', c') \<and> queued c' = ok_text @ int_reply 6 @ null_bulk"
proof -
  let ?calls = "map (\<lambda>(now, a). (sample_env now, map str_obj a)) sample_calls" and ?e0 = "sample_env 0"
  have "supported [bytes_of_string ''SET'', [107], [53], bytes_of_string ''px'', [57]]" "supported [bytes_of_string ''incr'', [107]]" "supported [bytes_of_string ''Get'', [107]]"
    by (simp_all add: supported_samples)
  then have calls: "calls_ok (e_seed ?e0) (e_now ?e0) ?calls" by (simp add: sample_calls_def bytes_of_string_def comp_def)
  have a: "map abs_call ?calls = sample_calls" by (simp add: sample_calls_def abs_call_def comp_def)
  have "db_size (ks_db no_keys) + length ?calls \<le> 2 ^ 30" by (simp add: no_keys_ok sample_calls_def)
  from commands_refine_map[OF no_keys_ok(1) calls fresh_client_ok(1,2) this] show ?thesis unfolding a no_keys_ok(2) sample_replies by auto
qed

end
