(* ===== verification/Redis_Multi.thy ===== *)
theory Redis_Multi
  imports Redis_Commands
begin

text \<open>
  \<open>multi.c\<close> and \<open>processCommand\<close>, \<open>call\<close> and \<open>propagate\<close> of \<open>redis.c\<close>: dispatching the commands of several clients, transactions and
  optimistic locking.

  The world is the keyspace, the transaction state of every client and the table of watched keys of the database.  A
  client is named by a number; its output side is passed separately.  Two simplifications of the representation: a
  queued command refers to the entry of the command table by its name, and the keys a command reports through
  \<open>signalModifiedKey\<close> are touched when the command has returned rather than while it runs (no command reads the flags
  that touching sets).  What \<open>propagate\<close> sends to the append-only file and the slaves is appended to \<open>ks_propagated\<close>.
  Monitors, the slow log and statistics, scripts, cluster redirection and the lists of blocked clients are not
  modelled.  The lookup is that of \<open>Redis_Commands\<close> with the commands on transactions added: for a command of the server
  that the model has not, and for a name with a null byte, \<open>processCommand\<close> is \<open>None\<close> and nothing is stated.

  A command reads one clock; the commands that \<open>EXEC\<close> runs read a clock each (\<open>g_ticks\<close>).  With a memory limit,
  \<open>freeMemoryIfNeeded\<close> evicts keys before the command is called; which keys its samples pick, and whether it freed
  enough, is part of the gate (\<open>g_evicted\<close>, \<open>g_memory_ok\<close>), what it does to them is modelled.  When it closes the
  connection of the client itself, nothing is stated.

  The main results: the two tables of watched keys always mirror each other and no operation fails; an unflagged
  client's watched keys have not been changed by anybody since it watched them, unless they were evicted, which flags
  nobody; \<open>EXEC\<close> runs the queue in one step or does nothing.
\<close>

section \<open>The code\<close>

record mstate =
  m_multi :: bool
  m_dirty_cas :: bool
  m_dirty_exec :: bool
  m_queue :: "(string \<times> robj list) list"
  m_watched :: "bytes list"

record world =
  w_ks :: keyspace
  w_sess :: "nat \<Rightarrow> mstate"
  w_watchers :: "bytes \<rightharpoonup> nat list"

definition upd_sess :: "world \<Rightarrow> nat \<Rightarrow> (mstate \<Rightarrow> mstate) \<Rightarrow> world" where
  "upd_sess w me f = w\<lparr>w_sess := (w_sess w)(me := f (w_sess w me))\<rparr>"

definition initClientMultiState :: "mstate \<Rightarrow> mstate" where
  "initClientMultiState m = m\<lparr>m_queue := []\<rparr>"

definition queueMultiCommand :: "mstate \<Rightarrow> string \<Rightarrow> robj list \<Rightarrow> mstate" where
  "queueMultiCommand m cmd argv = m\<lparr>m_queue := m_queue m @ [(cmd, map incrRefCount argv)]\<rparr>"

text \<open>The loop of \<open>unwatchAllKeys\<close>: a missing entry fails the assertion, a client missing from the list would be a
  dereference of a null pointer.\<close>

fun unwatch_loop :: "nat \<Rightarrow> (bytes \<rightharpoonup> nat list) \<Rightarrow> bytes list \<Rightarrow> (bytes \<rightharpoonup> nat list) option" where
  "unwatch_loop me wt [] = Some wt"
| "unwatch_loop me wt (key # keys) = do {
     clients \<leftarrow> wt key;
     (if me \<notin> set clients then None
      else let clients = remove1 me clients
           in unwatch_loop me (wt(key := if clients = [] then None else Some clients)) keys)
   }"

definition unwatchAllKeys :: "world \<Rightarrow> nat \<Rightarrow> world option" where
  "unwatchAllKeys w me =
     (if m_watched (w_sess w me) = [] then Some w
      else do {
        wt \<leftarrow> unwatch_loop me (w_watchers w) (m_watched (w_sess w me));
        Some (upd_sess (w\<lparr>w_watchers := wt\<rparr>) me (\<lambda>m. m\<lparr>m_watched := []\<rparr>))
      })"

definition discardTransaction :: "world \<Rightarrow> nat \<Rightarrow> world option" where
  "discardTransaction w me =
     (let w = upd_sess w me initClientMultiState;
          w = upd_sess w me (\<lambda>m. m\<lparr>m_multi := False, m_dirty_cas := False, m_dirty_exec := False\<rparr>)
      in unwatchAllKeys w me)"

definition flagTransaction :: "world \<Rightarrow> nat \<Rightarrow> world" where
  "flagTransaction w me = (if m_multi (w_sess w me) then upd_sess w me (\<lambda>m. m\<lparr>m_dirty_exec := True\<rparr>) else w)"

type_synonym 'a world_command =
  "server_env \<Rightarrow> world \<Rightarrow> nat \<Rightarrow> 'a out_client_scheme \<Rightarrow> robj list \<Rightarrow> (world \<times> 'a out_client_scheme \<times> robj list) option"

definition multiCommand :: "'a world_command" where
  "multiCommand e w me c argv =
     (if m_multi (w_sess w me)
      then do { c \<leftarrow> addReplyError (e_ae_ok e) c ''MULTI calls can not be nested''; Some (w, c, argv) }
      else do {
        let w = upd_sess w me (\<lambda>m. m\<lparr>m_multi := True\<rparr>);
        c \<leftarrow> reply_shared e c (bytes_of_string ''+OK'');
        Some (w, c, argv)
      })"

definition discardCommand :: "'a world_command" where
  "discardCommand e w me c argv =
     (if \<not> m_multi (w_sess w me)
      then do { c \<leftarrow> addReplyError (e_ae_ok e) c ''DISCARD without MULTI''; Some (w, c, argv) }
      else do {
        w \<leftarrow> discardTransaction w me;
        c \<leftarrow> reply_shared e c (bytes_of_string ''+OK'');
        Some (w, c, argv)
      })"

definition watchForKey :: "world \<Rightarrow> nat \<Rightarrow> bytes \<Rightarrow> world" where
  "watchForKey w me key =
     (if key \<in> set (m_watched (w_sess w me)) then w
      else
        let clients = (case w_watchers w key of None \<Rightarrow> [] | Some l \<Rightarrow> l);
            w = w\<lparr>w_watchers := (w_watchers w)(key \<mapsto> clients @ [me])\<rparr>
        in upd_sess w me (\<lambda>m. m\<lparr>m_watched := m_watched m @ [key]\<rparr>))"

definition touchWatchedKey :: "world \<Rightarrow> bytes \<Rightarrow> world" where
  "touchWatchedKey w key =
     (case w_watchers w key of
        None \<Rightarrow> w
      | Some clients \<Rightarrow> w\<lparr>w_sess := \<lambda>i. if i \<in> set clients then (w_sess w i)\<lparr>m_dirty_cas := True\<rparr> else w_sess w i\<rparr>)"

text \<open>Every client that watches a key of the database is flagged; the lookups do not change the contents of the
  table.\<close>

definition touchWatchedKeysOnFlush :: "world \<Rightarrow> world" where
  "touchWatchedKeysOnFlush w =
     w\<lparr>w_sess := \<lambda>i. if \<exists>key\<in>set (m_watched (w_sess w i)). kmap (ks_db (w_ks w)) key \<noteq> None
                     then (w_sess w i)\<lparr>m_dirty_cas := True\<rparr> else w_sess w i\<rparr>"

definition watchCommand :: "'a world_command" where
  "watchCommand e w me c argv =
     (if m_multi (w_sess w me)
      then do { c \<leftarrow> addReplyError (e_ae_ok e) c ''WATCH inside MULTI is not allowed''; Some (w, c, argv) }
      else do {
        keys \<leftarrow> arg_texts (drop 1 argv);
        let w = foldl (\<lambda>w key. watchForKey w me key) w keys;
        c \<leftarrow> reply_shared e c (bytes_of_string ''+OK'');
        Some (w, c, argv)
      })"

definition unwatchCommand :: "'a world_command" where
  "unwatchCommand e w me c argv = do {
     w \<leftarrow> unwatchAllKeys w me;
     let w = upd_sess w me (\<lambda>m. m\<lparr>m_dirty_cas := False\<rparr>);
     c \<leftarrow> reply_shared e c (bytes_of_string ''+OK'');
     Some (w, c, argv)
   }"

text \<open>A command on the keyspace, with the keys it reports: a flush reports before the keys are removed.\<close>

definition keys_command :: "'a command \<Rightarrow> 'a world_command" where
  "keys_command f e w me c argv = do {
     let old = w_ks w;
     (s, c, argv) \<leftarrow> f e old c argv;
     let w = (if ks_flushed s > ks_flushed old then touchWatchedKeysOnFlush w else w);
     let w = foldl touchWatchedKey w (drop (length (ks_touched old)) (ks_touched s));
     Some (w\<lparr>w_ks := s\<rparr>, c, argv)
   }"

definition propagate :: "world \<Rightarrow> bytes list \<Rightarrow> world" where
  "propagate w argv = w\<lparr>w_ks := (w_ks w)\<lparr>ks_propagated := ks_propagated (w_ks w) @ [argv]\<rparr>\<rparr>"

text \<open>\<open>call\<close>: the command is propagated as it left its arguments if it changed the dataset.\<close>

definition call :: "'a world_command \<Rightarrow> 'a world_command" where
  "call proc e w me c argv = do {
     let dirty = ks_dirty (w_ks w);
     (w, c, argv) \<leftarrow> proc e w me c argv;
     Some (if ks_dirty (w_ks w) > dirty then propagate w (map obj_text argv) else w, c, argv)
   }"

datatype 'a proc = PKeys "'a command" | PMulti | PExec | PDiscard | PWatch | PUnwatch

record 'a cmd_entry =
  en_name :: string
  en_proc :: "'a proc"
  en_arity :: int
  en_sflags :: string

definition commandTable :: "'a cmd_entry list" where
  "commandTable = map (\<lambda>c. \<lparr>en_name = rc_name c, en_proc = PKeys (rc_proc c), en_arity = rc_arity c, en_sflags = rc_sflags c\<rparr>) redisCommandTable @
     [\<lparr>en_name = ''multi'', en_proc = PMulti, en_arity = 1, en_sflags = ''rsF''\<rparr>,
      \<lparr>en_name = ''exec'', en_proc = PExec, en_arity = 1, en_sflags = ''sM''\<rparr>,
      \<lparr>en_name = ''discard'', en_proc = PDiscard, en_arity = 1, en_sflags = ''rsF''\<rparr>,
      \<lparr>en_name = ''watch'', en_proc = PWatch, en_arity = - 2, en_sflags = ''rsF''\<rparr>,
      \<lparr>en_name = ''unwatch'', en_proc = PUnwatch, en_arity = 1, en_sflags = ''rsF''\<rparr>]"

definition lookupEntry :: "bytes \<Rightarrow> 'a cmd_entry option option" where
  "lookupEntry name = find_row en_name commandTable name"

text \<open>The commands other than \<open>EXEC\<close>, which is never queued.\<close>

fun simple_proc :: "'a proc \<Rightarrow> 'a world_command" where
  "simple_proc (PKeys f) e w me c argv = keys_command f e w me c argv"
| "simple_proc PMulti e w me c argv = multiCommand e w me c argv"
| "simple_proc PDiscard e w me c argv = discardCommand e w me c argv"
| "simple_proc PWatch e w me c argv = watchCommand e w me c argv"
| "simple_proc PUnwatch e w me c argv = unwatchCommand e w me c argv"
| "simple_proc PExec e w me c argv = None"

text \<open>The environment of a command that runs at another time.\<close>

abbreviation "at_time e t \<equiv> e\<lparr>e_now := t\<rparr>"

text \<open>Command number \<open>n\<close> of the queue runs at the time \<open>ticks n\<close>.  A queued command was found in the table when it was
  queued.\<close>

fun exec_loop :: "(nat \<Rightarrow> 64 word) \<Rightarrow> nat \<Rightarrow> server_env \<Rightarrow> world \<Rightarrow> nat \<Rightarrow> 'a out_client_scheme \<Rightarrow> (string \<times> robj list) list \<Rightarrow> bool \<Rightarrow>
    (world \<times> 'a out_client_scheme \<times> bool) option" where
  "exec_loop ticks n e w me c [] must = Some (w, c, must)"
| "exec_loop ticks n e w me c ((name, argv) # rest) must = do {
     row \<leftarrow> lookupEntry (bytes_of_string name);
     x \<leftarrow> row;
     let first = (\<not> must \<and> CHR ''r'' \<notin> set (en_sflags x));
     let w = (if first then propagate w [bytes_of_string ''MULTI''] else w);
     (w, c, _) \<leftarrow> call (simple_proc (en_proc x)) (at_time e (ticks n)) w me c argv;
     exec_loop ticks (Suc n) e w me c rest (must \<or> first)
   }"

definition execCommand :: "(nat \<Rightarrow> 64 word) \<Rightarrow> 'a world_command" where
  "execCommand ticks e w me c argv =
     (if \<not> m_multi (w_sess w me)
      then do { c \<leftarrow> addReplyError (e_ae_ok e) c ''EXEC without MULTI''; Some (w, c, argv) }
      else if m_dirty_cas (w_sess w me) \<or> m_dirty_exec (w_sess w me)
      then do {
        c \<leftarrow> reply_shared e c (if m_dirty_exec (w_sess w me) then bytes_of_string ''-EXECABORT Transaction discarded because of previous errors.''
                              else bytes_of_string ''*-1'');
        w \<leftarrow> discardTransaction w me;
        Some (w, c, argv)
      } else do {
        w \<leftarrow> unwatchAllKeys w me;
        let queue = m_queue (w_sess w me);
        c \<leftarrow> addReplyMultiBulkLen (e_junk e) (e_clk e) (e_ae_ok e) c (of_nat (length queue));
        (w, c, must) \<leftarrow> exec_loop ticks 0 e w me c queue False;
        w \<leftarrow> discardTransaction w me;
        let w = (if must then w\<lparr>w_ks := (w_ks w)\<lparr>ks_dirty := ks_dirty (w_ks w) + 1\<rparr>\<rparr> else w);
        Some (w, c, argv)
      })"

definition run_proc :: "(nat \<Rightarrow> 64 word) \<Rightarrow> 'a proc \<Rightarrow> 'a world_command" where
  "run_proc ticks p e w me c argv = (case p of PExec \<Rightarrow> execCommand ticks e w me c argv | _ \<Rightarrow> simple_proc p e w me c argv)"

text \<open>The conditions of the server and of the client that \<open>processCommand\<close> tests before it calls a command, the keys that
  \<open>freeMemoryIfNeeded\<close> picks, and the clock that the commands run by \<open>EXEC\<close> read.\<close>

record gate =
  g_noauth :: bool
  g_maxmemory :: bool
  g_evicted :: "bytes list"
  g_client_freed :: bool
  g_memory_ok :: bool
  g_stop_writes_on_bgsave_err :: bool
  g_saveparams :: bool
  g_lastbgsave_ok :: bool
  g_aof_write_ok :: bool
  g_aof_write_error :: bytes
  g_min_slaves_to_write :: nat
  g_min_slaves_max_lag :: nat
  g_good_slaves_count :: nat
  g_slave_ro :: bool
  g_from_master :: bool
  g_pubsub :: bool
  g_repl_connected :: bool
  g_serve_stale_data :: bool
  g_lua_timedout :: bool
  g_ticks :: "nat \<Rightarrow> 64 word"

text \<open>Evicting the keys picked: each is deleted and the deletion propagated, and no watching client is told.\<close>

fun evict_loop :: "server_env \<Rightarrow> keyspace \<Rightarrow> bytes list \<Rightarrow> keyspace option" where
  "evict_loop e s [] = Some s"
| "evict_loop e s (bestkey # keys) = do {
     let s = propagateExpire s bestkey;
     (s, _) \<leftarrow> dbDelete e s bestkey;
     let s = notifyKeyspaceEvent s ''evicted'' bestkey;
     evict_loop e s keys
   }"

text \<open>\<open>freeMemoryIfNeeded\<close>, when there is a limit: the new world and whether enough was freed.\<close>

definition freeMemoryIfNeeded :: "gate \<Rightarrow> server_env \<Rightarrow> world \<Rightarrow> (world \<times> bool) option" where
  "freeMemoryIfNeeded g e w = do { s \<leftarrow> evict_loop e (w_ks w) (g_evicted g); Some (w\<lparr>w_ks := s\<rparr>, g_memory_ok g) }"

datatype refusal = RAuth | ROom | RDisk | RReplicas | RReadonly | RPubsub | RStale | RLoading | RLua

text \<open>The first condition that refuses the command.\<close>

definition refuses :: "gate \<Rightarrow> server_env \<Rightarrow> bool \<Rightarrow> string \<Rightarrow> refusal option" where
  "refuses g e memory_ok fl =
     (if g_noauth g then Some RAuth
      else if g_maxmemory g \<and> CHR ''m'' \<in> set fl \<and> \<not> memory_ok then Some ROom
      else if ((g_stop_writes_on_bgsave_err g \<and> g_saveparams g \<and> \<not> g_lastbgsave_ok g) \<or> \<not> g_aof_write_ok g) \<and>
              \<not> e_slave e \<and> CHR ''w'' \<in> set fl then Some RDisk
      else if \<not> e_slave e \<and> g_min_slaves_to_write g \<noteq> 0 \<and> g_min_slaves_max_lag g \<noteq> 0 \<and> CHR ''w'' \<in> set fl \<and>
              g_good_slaves_count g < g_min_slaves_to_write g then Some RReplicas
      else if e_slave e \<and> g_slave_ro g \<and> \<not> g_from_master g \<and> CHR ''w'' \<in> set fl then Some RReadonly
      else if g_pubsub g then Some RPubsub
      else if e_slave e \<and> \<not> g_repl_connected g \<and> \<not> g_serve_stale_data g \<and> CHR ''t'' \<notin> set fl then Some RStale
      else if e_loading e \<and> CHR ''l'' \<notin> set fl then Some RLoading
      else if g_lua_timedout g then Some RLua
      else None)"

definition refuse :: "gate \<Rightarrow> server_env \<Rightarrow> 'a out_client_scheme \<Rightarrow> refusal \<Rightarrow> 'a out_client_scheme option" where
  "refuse g e c r =
     (case r of
        RAuth \<Rightarrow> reply_shared e c (bytes_of_string ''-NOAUTH Authentication required.'')
      | ROom \<Rightarrow> reply_shared e c (bytes_of_string ''-OOM command not allowed when used memory > '' @ [39] @ bytes_of_string ''maxmemory'' @ [39, 46])
      | RDisk \<Rightarrow>
          if g_aof_write_ok g
          then reply_shared e c (bytes_of_string ''-MISCONF Redis is configured to save RDB snapshots, but is currently not able to persist on disk. Commands that may modify the data set are disabled. Please check Redis logs for details about the error.'')
          else addReplyString (e_ae_ok e) c (bytes_of_string ''-MISCONF Errors writing to the AOF file: '' @ g_aof_write_error g @ crlf)
      | RReplicas \<Rightarrow> reply_shared e c (bytes_of_string ''-NOREPLICAS Not enough good slaves to write.'')
      | RReadonly \<Rightarrow> reply_shared e c (bytes_of_string ''-READONLY You can'' @ [39] @ bytes_of_string ''t write against a read only slave.'')
      | RPubsub \<Rightarrow> addReplyError (e_ae_ok e) c ''only (P)SUBSCRIBE / (P)UNSUBSCRIBE / PING / QUIT allowed in this context''
      | RStale \<Rightarrow> reply_shared e c (bytes_of_string ''-MASTERDOWN Link with MASTER is down and slave-serve-stale-data is set to '' @ [39] @ bytes_of_string ''no'' @ [39, 46])
      | RLoading \<Rightarrow> reply_shared e c (bytes_of_string ''-LOADING Redis is loading the dataset in memory'')
      | RLua \<Rightarrow> reply_shared e c (bytes_of_string ''-BUSY Redis is busy running a script. You can only call SCRIPT KILL or SHUTDOWN NOSAVE.''))"

text \<open>Three of the refusals do not flag an open transaction.\<close>

definition flags_transaction :: "refusal \<Rightarrow> bool" where
  "flags_transaction r \<longleftrightarrow> r \<noteq> RReadonly \<and> r \<noteq> RPubsub \<and> r \<noteq> RLoading"

definition is_quit :: "bytes \<Rightarrow> bool" where
  "is_quit name \<longleftrightarrow> map tolower (takeWhile (\<lambda>b. b \<noteq> 0) name) = bytes_of_string ''quit''"

text \<open>The result is \<open>False\<close> for \<open>REDIS_ERR\<close>.\<close>

definition processCommand ::
  "gate \<Rightarrow> server_env \<Rightarrow> world \<Rightarrow> nat \<Rightarrow> 'a out_client_scheme \<Rightarrow> robj list \<Rightarrow> (world \<times> 'a out_client_scheme \<times> robj list \<times> bool) option" where
  "processCommand g e w me c argv = do {
     name \<leftarrow> arg_text argv 0;
     (if is_quit name then do {
        c \<leftarrow> reply_shared e c (bytes_of_string ''+OK'');
        Some (w, c\<lparr>k_close_after_reply := True\<rparr>, argv, False)
      } else do {
        row \<leftarrow> lookupEntry name;
        (case row of
        None \<Rightarrow> do { c \<leftarrow> addReplyErrorFormat (e_ae_ok e) c (unknown_text name); Some (flagTransaction w me, c, argv, True) }
      | Some x \<Rightarrow>
          if (en_arity x > 0 \<and> en_arity x \<noteq> int (length argv)) \<or> int (length argv) < - en_arity x
          then do { c \<leftarrow> addReplyErrorFormat (e_ae_ok e) c (arity_text (en_name x)); Some (flagTransaction w me, c, argv, True) }
          else do {
            (w, memory_ok) \<leftarrow> (if \<not> g_noauth g \<and> g_maxmemory g
               then (if g_client_freed g then None else freeMemoryIfNeeded g e w) else Some (w, True));
            (case refuses g e memory_ok (en_sflags x) of
              Some r \<Rightarrow> do {
                c \<leftarrow> refuse g e c r;
                Some (if flags_transaction r then flagTransaction w me else w, c, argv, True)
              }
            | None \<Rightarrow>
                if m_multi (w_sess w me) \<and> (case en_proc x of PExec \<Rightarrow> False | PDiscard \<Rightarrow> False | PMulti \<Rightarrow> False | PWatch \<Rightarrow> False | _ \<Rightarrow> True)
                then do {
                  let w = upd_sess w me (\<lambda>m. queueMultiCommand m (en_name x) argv);
                  c \<leftarrow> reply_shared e c (bytes_of_string ''+QUEUED'');
                  Some (w, c, argv, True)
                } else do {
                  (w, c, argv) \<leftarrow> call (run_proc (g_ticks g) (en_proc x)) e w me c argv;
                  Some (w, c, argv, True)
                })
          })
      })
   }"

section \<open>Watched keys\<close>

definition watchers :: "world \<Rightarrow> bytes \<Rightarrow> nat list" where
  "watchers w k = (case w_watchers w k of None \<Rightarrow> [] | Some l \<Rightarrow> l)"

text \<open>The table of the database and the lists of the clients mirror each other.\<close>

definition watch_ok :: "world \<Rightarrow> bool" where
  "watch_ok w \<longleftrightarrow> (\<forall>k i. k \<in> set (m_watched (w_sess w i)) \<longleftrightarrow> i \<in> set (watchers w k)) \<and>
     (\<forall>i. distinct (m_watched (w_sess w i))) \<and> (\<forall>k. distinct (watchers w k)) \<and> (\<forall>k. w_watchers w k \<noteq> Some [])"

lemma upd_sess_simps [simp]:
  "w_ks (upd_sess w me f) = w_ks w" "w_watchers (upd_sess w me f) = w_watchers w" "w_sess (upd_sess w me f) me = f (w_sess w me)"
  "i \<noteq> me \<Longrightarrow> w_sess (upd_sess w me f) i = w_sess w i" "watchers (upd_sess w me f) = watchers w"
  by (simp_all add: upd_sess_def watchers_def fun_eq_iff)

lemma upd_sess_id: "(\<And>m. f m = m) \<Longrightarrow> upd_sess w me f = w"
  by (simp add: upd_sess_def)

lemma unwatch_loop_ok:
  assumes "distinct keys" "\<And>k. k \<in> set keys \<Longrightarrow> \<exists>l. wt k = Some l \<and> me \<in> set l" "\<And>k. wt k \<noteq> Some []"
  shows "\<exists>wt'. unwatch_loop me wt keys = Some wt' \<and>
    (\<forall>k. wt' k = (if k \<in> set keys then (let l = remove1 me (the (wt k)) in if l = [] then None else Some l) else wt k))"
  using assms
proof (induction keys arbitrary: wt)
  case (Cons key keys)
  obtain l where l: "wt key = Some l" "me \<in> set l" using Cons.prems(2)[of key] by auto
  let ?wt = "wt(key := if remove1 me l = [] then None else Some (remove1 me l))"
  obtain wt' where "unwatch_loop me ?wt keys = Some wt'"
    "\<forall>k. wt' k = (if k \<in> set keys then (let l = remove1 me (the (?wt k)) in if l = [] then None else Some l) else ?wt k)"
  proof -
    have 1: "\<exists>l. ?wt k = Some l \<and> me \<in> set l" if "k \<in> set keys" for k using that Cons.prems(1,2) by auto
    have 2: "?wt k \<noteq> Some []" for k using Cons.prems(3)[of k] by simp
    have 3: "distinct keys" using Cons.prems(1) by simp
    have "\<exists>wt'. unwatch_loop me ?wt keys = Some wt' \<and>
      (\<forall>k. wt' k = (if k \<in> set keys then (let l = remove1 me (the (?wt k)) in if l = [] then None else Some l) else ?wt k))"
      by (rule Cons.IH[OF 3 1 2])
    then show ?thesis by (elim exE conjE) (rule that; assumption)
  qed
  then show ?case using l Cons.prems(1) by (intro exI[of _ wt']) auto
qed simp

lemma unwatch_ok:
  assumes "watch_ok w"
  shows "\<exists>w'. unwatchAllKeys w me = Some w' \<and> watch_ok w' \<and> w_ks w' = w_ks w \<and> w_sess w' = (w_sess w)(me := (w_sess w me)\<lparr>m_watched := []\<rparr>)"
proof (cases "m_watched (w_sess w me) = []")
  case True
  then have "w_sess w = (w_sess w)(me := (w_sess w me)\<lparr>m_watched := []\<rparr>)" by (cases "w_sess w me") auto
  then show ?thesis using True assms by (simp add: unwatchAllKeys_def)
next
  case False
  let ?keys = "m_watched (w_sess w me)" and ?s = "(w_sess w)(me := (w_sess w me)\<lparr>m_watched := []\<rparr>)"
  have ok: "\<And>k i. k \<in> set (m_watched (w_sess w i)) \<longleftrightarrow> i \<in> set (watchers w k)" "\<And>i. distinct (m_watched (w_sess w i))"
    "\<And>k. distinct (watchers w k)" "\<And>k. w_watchers w k \<noteq> Some []" using assms by (auto simp: watch_ok_def)
  have "\<exists>l. w_watchers w k = Some l \<and> me \<in> set l" if "k \<in> set ?keys" for k
    using that ok(1)[of k me] by (cases "w_watchers w k") (auto simp: watchers_def)
  then obtain wt where wt: "unwatch_loop me (w_watchers w) ?keys = Some wt"
    "\<forall>k. wt k = (if k \<in> set ?keys then (let l = remove1 me (the (w_watchers w k)) in if l = [] then None else Some l) else w_watchers w k)"
    using unwatch_loop_ok[OF ok(2)[of me], of "w_watchers w" me] ok(4) by blast
  let ?w = "upd_sess (w\<lparr>w_watchers := wt\<rparr>) me (\<lambda>m. m\<lparr>m_watched := []\<rparr>)"
  have s: "w_sess ?w = ?s" by (simp add: upd_sess_def)
  have wa: "watchers ?w k = remove1 me (watchers w k)" for k
    using wt(2) ok(1)[of k me] by (auto simp: watchers_def Let_def remove1_idem split: option.splits)
  have "watch_ok ?w" unfolding watch_ok_def s wa
    using ok wt(2) by (auto simp: Let_def distinct_remove1)
  then show ?thesis using False wt(1) s by (simp add: unwatchAllKeys_def)
qed

lemma watch_key_ok:
  assumes "watch_ok w"
  shows "watch_ok (watchForKey w me key)" "w_ks (watchForKey w me key) = w_ks w"
    "w_sess (watchForKey w me key) = (w_sess w)(me := (w_sess w me)\<lparr>m_watched := m_watched (w_sess w me) @ (if key \<in> set (m_watched (w_sess w me)) then [] else [key])\<rparr>)"
proof -
  show ss: "w_sess (watchForKey w me key) = (w_sess w)(me := (w_sess w me)\<lparr>m_watched := m_watched (w_sess w me) @ (if key \<in> set (m_watched (w_sess w me)) then [] else [key])\<rparr>)"
    by (cases "w_sess w me") (auto simp: watchForKey_def upd_sess_def Let_def)
  show "w_ks (watchForKey w me key) = w_ks w" by (simp add: watchForKey_def Let_def)
  have ok: "\<And>k i. k \<in> set (m_watched (w_sess w i)) \<longleftrightarrow> i \<in> set (watchers w k)" "\<And>i. distinct (m_watched (w_sess w i))"
    "\<And>k. distinct (watchers w k)" "\<And>k. w_watchers w k \<noteq> Some []" using assms by (auto simp: watch_ok_def)
  show "watch_ok (watchForKey w me key)"
  proof (cases "key \<in> set (m_watched (w_sess w me))")
    case True
    then show ?thesis using assms by (simp add: watchForKey_def)
  next
    case False
    have wt: "w_watchers (watchForKey w me key) = (w_watchers w)(key \<mapsto> watchers w key @ [me])" using False by (simp add: watchForKey_def Let_def watchers_def)
    then have wa: "watchers (watchForKey w me key) k = (if k = key then watchers w key @ [me] else watchers w k)" for k by (simp add: watchers_def)
    show ?thesis unfolding watch_ok_def wa ss wt using ok False by (auto simp: distinct_append)
  qed
qed

section \<open>What a step does to the watching clients\<close>

text \<open>A change of the keyspace in which nobody starts or stops watching: a flag that matters stays, and whoever
  watches a key that changed is flagged.\<close>

definition evolves :: "server_env \<Rightarrow> world \<Rightarrow> world \<Rightarrow> bool" where
  "evolves e w w' \<longleftrightarrow> ks_ok e (w_ks w') \<and> w_watchers w' = w_watchers w \<and>
     (\<forall>i. m_watched (w_sess w' i) = m_watched (w_sess w i) \<and> m_multi (w_sess w' i) = m_multi (w_sess w i) \<and>
        m_queue (w_sess w' i) = m_queue (w_sess w i) \<and> m_dirty_exec (w_sess w' i) = m_dirty_exec (w_sess w i) \<and>
        (m_watched (w_sess w i) \<noteq> [] \<longrightarrow> m_dirty_cas (w_sess w i) \<longrightarrow> m_dirty_cas (w_sess w' i)) \<and>
        (\<forall>k\<in>set (m_watched (w_sess w i)). view e (ks_db (w_ks w')) k \<noteq> view e (ks_db (w_ks w)) k \<longrightarrow> m_dirty_cas (w_sess w' i)))"

lemma evolves_refl: "ks_ok e (w_ks w) \<Longrightarrow> evolves e w w"
  by (simp add: evolves_def)

lemma evolves_trans: "evolves e w w1 \<Longrightarrow> evolves e w1 w2 \<Longrightarrow> evolves e w w2"
  unfolding evolves_def by (metis empty_iff list.set(1))

lemma evolves_watch_ok: "evolves e w w' \<Longrightarrow> watch_ok w \<Longrightarrow> watch_ok w'"
  by (simp add: evolves_def watch_ok_def watchers_def)

lemma propagate_simps [simp]: "w_sess (propagate w a) = w_sess w" "w_watchers (propagate w a) = w_watchers w" "ks_db (w_ks (propagate w a)) = ks_db (w_ks w)"
  "ks_integers (w_ks (propagate w a)) = ks_integers (w_ks w)" "ks_ok e (w_ks (propagate w a)) = ks_ok e (w_ks w)"
  by (simp_all add: propagate_def ks_ok_def)

lemma propagate_watch [simp]: "watch_ok (propagate w a) = watch_ok w"
  by (simp add: watch_ok_def watchers_def)

lemma evolves_propagate: "ks_ok e (w_ks w) \<Longrightarrow> evolves e w (propagate w a)"
  by (simp add: evolves_def)

text \<open>Touching keys.\<close>

lemma touch_sess: "w_sess (touchWatchedKey w key) i = (if i \<in> set (watchers w key) then (w_sess w i)\<lparr>m_dirty_cas := True\<rparr> else w_sess w i)"
  by (auto simp: touchWatchedKey_def watchers_def split: option.splits)

lemma touch_rest [simp]: "w_ks (touchWatchedKey w key) = w_ks w" "w_watchers (touchWatchedKey w key) = w_watchers w" "watchers (touchWatchedKey w key) = watchers w"
  by (auto simp: touchWatchedKey_def watchers_def split: option.splits)

lemma touches:
  "w_ks (foldl touchWatchedKey w keys) = w_ks w \<and> w_watchers (foldl touchWatchedKey w keys) = w_watchers w \<and>
   (\<forall>i. w_sess (foldl touchWatchedKey w keys) i = (if \<exists>k\<in>set keys. i \<in> set (watchers w k) then (w_sess w i)\<lparr>m_dirty_cas := True\<rparr> else w_sess w i))"
  by (induction keys arbitrary: w) (auto simp: touch_sess)

lemma keys_evolves:
  assumes "watch_ok w" "ks_ok e s'" "reported e (w_ks w) s'"
  shows "evolves e w ((foldl touchWatchedKey (if ks_flushed s' > ks_flushed (w_ks w) then touchWatchedKeysOnFlush w else w)
    (drop (length (ks_touched (w_ks w))) (ks_touched s')))\<lparr>w_ks := s'\<rparr>)"
proof -
  obtain keys where keys: "ks_touched s' = ks_touched (w_ks w) @ keys"
    "\<And>k. view e (ks_db s') k \<noteq> view e (ks_db (w_ks w)) k \<Longrightarrow> k \<in> set keys \<or> (ks_flushed (w_ks w) < ks_flushed s' \<and> k \<in> dom (kmap (ks_db (w_ks w))))"
    using assms(3) unfolding reported_def by blast
  let ?w1 = "if ks_flushed s' > ks_flushed (w_ks w) then touchWatchedKeysOnFlush w else w"
  have mirror: "\<And>k i. k \<in> set (m_watched (w_sess w i)) \<longleftrightarrow> i \<in> set (watchers w k)" using assms(1) by (auto simp: watch_ok_def)
  have f: "watchers ?w1 = watchers w" "w_watchers ?w1 = w_watchers w"
    "\<And>i. w_sess ?w1 i = (if ks_flushed s' > ks_flushed (w_ks w) \<and> (\<exists>k\<in>set (m_watched (w_sess w i)). kmap (ks_db (w_ks w)) k \<noteq> None)
      then (w_sess w i)\<lparr>m_dirty_cas := True\<rparr> else w_sess w i)"
    by (simp_all add: touchWatchedKeysOnFlush_def watchers_def fun_eq_iff)
  note t = touches[of ?w1 keys]
  show ?thesis unfolding evolves_def keys(1)
  proof (intro conjI allI ballI impI)
    fix i k
    assume k: "k \<in> set (m_watched (w_sess w i))"
      and "view e (ks_db (w_ks ((foldl touchWatchedKey ?w1 (drop (length (ks_touched (w_ks w))) (ks_touched (w_ks w) @ keys)))\<lparr>w_ks := s'\<rparr>))) k \<noteq> view e (ks_db (w_ks w)) k"
    then have "k \<in> set keys \<or> (ks_flushed (w_ks w) < ks_flushed s' \<and> kmap (ks_db (w_ks w)) k \<noteq> None)" using keys(2)[of k] by auto
    then show "m_dirty_cas (w_sess ((foldl touchWatchedKey ?w1 (drop (length (ks_touched (w_ks w))) (ks_touched (w_ks w) @ keys)))\<lparr>w_ks := s'\<rparr>) i)"
      using t f k mirror[of k i] by auto
  qed (use t f assms(2) in auto)
qed

section \<open>Calling commands\<close>

text \<open>A command on the world that replies with \<open>t\<close>, whatever the client.\<close>

definition wruns :: "server_env \<Rightarrow> 'a world_command \<Rightarrow> world \<Rightarrow> nat \<Rightarrow> robj list \<Rightarrow> world \<Rightarrow> robj list \<Rightarrow> bytes \<Rightarrow> bool" where
  "wruns e cmd w me argv w' argv' t \<longleftrightarrow> (\<exists>g. replies (e_junk e) (e_clk e) (e_ae_ok e) g t \<and>
     (\<forall>c. cmd e w me c argv = do { c \<leftarrow> g c; Some (w', c, argv') }))"

lemma wrunsI: "replies (e_junk e) (e_clk e) (e_ae_ok e) g t \<Longrightarrow> (\<And>c. cmd e w me c argv = do { c \<leftarrow> g c; Some (w', c, argv') }) \<Longrightarrow>
    wruns e cmd w me argv w' argv' t"
  unfolding wruns_def by blast

abbreviation "wview e w \<equiv> view e (ks_db (w_ks w))"
abbreviation "wsize w \<equiv> db_size (ks_db (w_ks w))"

lemma keys_step:
  assumes "watch_ok w" "implements e (f :: 'a command) (w_ks w) argv spec"
  shows "\<exists>w' argv'. wruns e (keys_command f) w me argv w' argv' (snd (spec (wview e w))) \<and> evolves e w w' \<and>
    wview e w' = fst (spec (wview e w)) \<and> wsize w' \<le> Suc (wsize w)"
proof -
  obtain s' argv' where s': "runs e f (w_ks w) argv s' argv' (snd (spec (wview e w)))" "ks_ok e s'" "view e (ks_db s') = fst (spec (wview e w))"
    "db_size (ks_db s') \<le> Suc (wsize w)" "reported e (w_ks w) s'" using assms(2) unfolding implements_def by blast
  obtain g where g: "replies (e_junk e) (e_clk e) (e_ae_ok e) g (snd (spec (wview e w)))" "\<And>c. f e (w_ks w) c argv = do { c \<leftarrow> g c; Some (s', c, argv') }"
    using s'(1) unfolding runs_def by blast
  let ?w = "(foldl touchWatchedKey (if ks_flushed s' > ks_flushed (w_ks w) then touchWatchedKeysOnFlush w else w)
    (drop (length (ks_touched (w_ks w))) (ks_touched s')))\<lparr>w_ks := s'\<rparr>"
  have "wruns e (keys_command f) w me argv ?w argv' (snd (spec (wview e w)))"
    by (rule wrunsI[OF g(1)]) (simp add: keys_command_def g(2) Let_def)
  then show ?thesis using keys_evolves[OF assms(1) s'(2,5)] s'(3,4) by (intro exI[of _ ?w] exI[of _ argv']) simp
qed

lemma call_step:
  assumes "wruns e p w me argv w1 argv1 t"
  shows "\<exists>w2. wruns e (call p) w me argv w2 argv1 t \<and> (w2 = w1 \<or> (\<exists>a. w2 = propagate w1 a))"
proof -
  obtain g where g: "replies (e_junk e) (e_clk e) (e_ae_ok e) g t" "\<And>c. p e w me c argv = do { c \<leftarrow> g c; Some (w1, c, argv1) }"
    using assms unfolding wruns_def by blast
  let ?w2 = "if ks_dirty (w_ks w1) > ks_dirty (w_ks w) then propagate w1 (map obj_text argv1) else w1"
  have "wruns e (call p) w me argv ?w2 argv1 t" by (rule wrunsI[OF g(1)]) (simp add: call_def g(2))
  moreover have "?w2 = w1 \<or> (\<exists>a. ?w2 = propagate w1 a)" by auto
  ultimately show ?thesis by blast
qed

lemma find_append: "List.find P (xs @ ys) = (case List.find P xs of None \<Rightarrow> List.find P ys | Some x \<Rightarrow> Some x)"
  by (induction xs) auto

lemma find_map: "List.find P (map g xs) = map_option g (List.find (\<lambda>x. P (g x)) xs)"
  by (induction xs) auto

text \<open>The names of the rows, and the calls that the model covers.\<close>

definition transaction_names :: "string list" where
  "transaction_names = [''multi'', ''exec'', ''discard'', ''watch'', ''unwatch'']"

definition admitted :: "bytes list \<Rightarrow> bool" where
  "admitted a \<longleftrightarrow> supported_by (key_names @ transaction_names) a"

lemma admittedD:
  assumes "admitted a"
  shows "a \<noteq> []" "covered (key_names @ transaction_names) (hd a)"
  using assms by (simp_all add: admitted_def supported_by_def)

lemma admitted_supported: "admitted a \<Longrightarrow> \<not> named transaction_names (hd a) \<Longrightarrow> map tolower (hd a) \<noteq> bytes_of_string ''quit'' \<Longrightarrow> supported a"
  by (auto simp: admitted_def supported_def supported_by_def covered_def)

lemma entry_rows: "map en_name (commandTable :: 'a cmd_entry list) = key_names @ [''persist''] @ transaction_names"
  using key_rows[where 'a = 'a] by (simp add: commandTable_def comp_def transaction_names_def)

lemma lookup_row:
  "lookupEntry name = Some (Some (x :: 'a cmd_entry)) \<Longrightarrow> x \<in> set commandTable \<and> map tolower name = bytes_of_string (en_name x) \<and>
     List.find (\<lambda>x. bytes_of_string (en_name x) = map tolower name) commandTable = Some x"
  by (auto simp: lookupEntry_def find_row_Some dest!: sym[of "Some x"]) (auto simp: find_Some_iff in_set_conv_nth)

lemma lookup_covered:
  "covered (key_names @ transaction_names) name \<Longrightarrow> \<exists>r :: 'a cmd_entry option. lookupEntry name = Some r"
  using covered_mono[of "key_names @ transaction_names" name "map en_name (commandTable :: 'a cmd_entry list)"]
  unfolding lookupEntry_def find_row_Some entry_rows named_append by blast

lemma key_entry:
  assumes "lookupEntry name = Some (Some (x :: 'a cmd_entry))" "en_proc x = PKeys f"
  shows "\<not> named transaction_names name" "\<exists>cmd. lookupCommand name = Some (Some cmd) \<and> rc_proc cmd = f \<and> rc_arity cmd = en_arity x"
    "map tolower name \<noteq> bytes_of_string ''quit''"
proof -
  note x = lookup_row[OF assms(1), THEN conjunct1] lookup_row[OF assms(1), THEN conjunct2, THEN conjunct1]
    lookup_row[OF assms(1), THEN conjunct2, THEN conjunct2]
  let ?find = "List.find (\<lambda>c. bytes_of_string (rc_name c) = map tolower name) (redisCommandTable :: 'a redisCommand list)"
  have "?find \<noteq> None" using x(3) assms(2) by (auto simp: commandTable_def find_append find_map split: option.splits if_splits)
  then obtain cmd where cmd: "?find = Some cmd" "rc_proc cmd = f" "rc_arity cmd = en_arity x" "rc_name cmd = en_name x"
    using x(3) assms(2) by (auto simp: commandTable_def find_append find_map)
  have n: "en_name x \<in> set (key_names @ [''persist''])"
    using cmd unfolding key_rows[where 'a = 'a, symmetric] by (force simp: find_Some_iff in_set_conv_nth)
  have "en_name x \<notin> set transaction_names" using n by (auto simp: key_names_def spec_table_def transaction_names_def)
  then show "\<not> named transaction_names name" by (simp add: named_iff[OF x(2)])
  have "en_name x \<noteq> ''quit''" using n by (auto simp: key_names_def spec_table_def)
  then show "map tolower name \<noteq> bytes_of_string ''quit''" by (simp add: x(2))
  have "covered (map en_name (commandTable :: 'a cmd_entry list)) name" using assms(1) by (simp add: lookupEntry_def find_row_Some)
  then have "covered (map rc_name (redisCommandTable :: 'a redisCommand list)) name"
    using n by (auto simp: covered_def key_rows named_iff[OF x(2)])
  then show "\<exists>cmd. lookupCommand name = Some (Some cmd) \<and> rc_proc cmd = f \<and> rc_arity cmd = en_arity x"
    using cmd by (simp add: lookupCommand_def find_row_Some)
qed

definition wrong_arity :: "int \<Rightarrow> nat \<Rightarrow> bool" where
  "wrong_arity k n \<longleftrightarrow> (k > 0 \<and> k \<noteq> int n) \<or> int n < - k"

lemma entry_implements:
  assumes "lookupEntry (hd (map obj_text argv)) = Some (Some (x :: 'a cmd_entry))" "en_proc x = PKeys f" "\<not> wrong_arity (en_arity x) (length argv)"
    "list_all plain argv" "admitted (map obj_text argv)" "ks_ok e s" "master e" "db_size (ks_db s) < 2 ^ 30"
  shows "implements e f s argv (spec_command (e_now e) (map obj_text argv))"
proof -
  obtain cmd :: "'a redisCommand" where cmd: "lookupCommand (hd (map obj_text argv)) = Some (Some cmd)" "rc_proc cmd = f" "rc_arity cmd = en_arity x"
    using key_entry(2)[OF assms(1,2)] by blast
  have sup: "supported (map obj_text argv)" by (rule admitted_supported[OF assms(5) key_entry(1,3)[OF assms(1,2)]])
  have ne: "argv \<noteq> []" using admittedD(1)[OF assms(5)] by simp
  have at: "arg_text argv 0 = Some (hd (map obj_text argv))" using arg_text_ok[OF assms(4), of 0] ne by (simp add: hd_map hd_conv_nth)
  have eq: "dispatch e s c argv = f e s c argv" for c
    using cmd assms(3) by (auto simp: dispatch_def at bad_arity_def wrong_arity_def)
  show ?thesis by (rule implements_cong[OF dispatch_implements[OF assms(6,7,4) sup assms(8)]]) (simp_all add: eq)
qed

section \<open>Transactions\<close>

text \<open>What \<open>processCommand\<close> queues: a complete call of a key command or of \<open>UNWATCH\<close>.\<close>

definition queued_ok :: "'a itself \<Rightarrow> string \<times> robj list \<Rightarrow> bool" where
  "queued_ok T q \<longleftrightarrow> (case q of (n, argv) \<Rightarrow> list_all plain argv \<and> admitted (map obj_text argv) \<and>
     (\<exists>x :: 'a cmd_entry. lookupEntry (hd (map obj_text argv)) = Some (Some x) \<and> en_name x = n \<and> \<not> wrong_arity (en_arity x) (length argv) \<and>
        ((\<exists>f. en_proc x = PKeys f) \<or> en_proc x = PUnwatch)))"

definition queue_spec :: "64 word \<Rightarrow> string \<times> robj list \<Rightarrow> aview \<Rightarrow> aview \<times> bytes" where
  "queue_spec now q m = (if fst q = ''unwatch'' then (m, ok_text) else spec_command now (map obj_text (snd q)) m)"

fun queue_run :: "(nat \<Rightarrow> 64 word) \<Rightarrow> nat \<Rightarrow> aview \<Rightarrow> (string \<times> robj list) list \<Rightarrow> aview \<times> bytes" where
  "queue_run ticks n m [] = (m, [])"
| "queue_run ticks n m (q # qs) =
     (let (m, t) = queue_spec (ticks n) q (later (ticks n) m); (m, u) = queue_run ticks (Suc n) m qs in (m, t @ u))"

text \<open>The clock of a command that starts at \<open>now\<close> and has ended at \<open>finish\<close>.\<close>

definition ticks_ok :: "(nat \<Rightarrow> 64 word) \<Rightarrow> 64 word \<Rightarrow> 64 word \<Rightarrow> bool" where
  "ticks_ok ticks now finish \<longleftrightarrow> sint now \<le> sint (ticks 0) \<and> (\<forall>n. sint (ticks n) \<le> sint (ticks (Suc n))) \<and> (\<forall>n. sint (ticks n) \<le> sint finish)"

lemma ticks_le: "ticks_ok ticks now finish \<Longrightarrow> sint now \<le> sint finish"
  by (auto simp: ticks_ok_def intro: order_trans)

lemma at_time_ok [simp]: "ks_ok (at_time e t) s = ks_ok e s" "master (at_time e t) = master e"
  by (rule ks_ok_seed) (simp_all add: master_def)

lemma view_at: "sint (e_now e) \<le> sint t \<Longrightarrow> view (at_time e t) db = later t (view e db)"
  using view_later[of e "at_time e t" db] by simp

lemma at_time_cong: "sint (e_now e) \<le> sint t \<Longrightarrow> view e db k = view e db' k \<Longrightarrow> view (at_time e t) db k = view (at_time e t) db' k"
  by (simp add: view_at later_def)

lemma evolves_at: "evolves e w w' \<Longrightarrow> sint (e_now e) \<le> sint t \<Longrightarrow> evolves (at_time e t) w w'"
  unfolding evolves_def at_time_ok using at_time_cong by blast

lemma tolower_idem [simp]: "tolower (tolower b) = tolower b"
  unfolding tolower_def by (auto simp: word_le_nat_alt unat_word_ariths)

lemma tolower_null [simp]: "tolower b = 0 \<longleftrightarrow> b = 0"
proof -
  have "b + 32 \<noteq> 0" if "65 \<le> unat b" "unat b \<le> 90"
  proof -
    have "unat (b + 32) = unat b + 32" using that by (simp add: unat_word_ariths)
    then show ?thesis by (metis add_eq_0_iff_both_eq_0 unat_0 zero_neq_numeral)
  qed
  then show ?thesis unfolding tolower_def by (auto simp: word_le_nat_alt)
qed

lemma lookup_name:
  assumes "lookupEntry name = Some (Some (x :: 'a cmd_entry))"
  shows "lookupEntry (bytes_of_string (en_name x)) = Some (Some x)"
proof -
  note x = lookup_row[OF assms, THEN conjunct1] lookup_row[OF assms, THEN conjunct2, THEN conjunct1, symmetric]
    lookup_row[OF assms, THEN conjunct2, THEN conjunct2]
  have i: "map tolower (bytes_of_string (en_name x)) = bytes_of_string (en_name x)" unfolding x(2) by simp
  have "0 \<notin> set name" using assms by (simp add: lookupEntry_def find_row_Some covered_def)
  then have "0 \<notin> set (bytes_of_string (en_name x))" unfolding x(2) by auto
  moreover have "named (map en_name (commandTable :: 'a cmd_entry list)) (bytes_of_string (en_name x))" unfolding named_iff[OF i] using x(1) by simp
  ultimately have "covered (map en_name (commandTable :: 'a cmd_entry list)) (bytes_of_string (en_name x))" by (simp add: covered_def)
  then show ?thesis using x(3) unfolding lookupEntry_def find_row_Some i x(2) by (simp add: comp_def)
qed

lemma unwatch_name: "lookupEntry name = Some (Some (x :: 'a cmd_entry)) \<Longrightarrow> en_name x = ''unwatch'' \<longleftrightarrow> en_proc x = PUnwatch"
proof -
  assume "lookupEntry name = Some (Some x)"
  then have "x \<in> set (commandTable :: 'a cmd_entry list)" using lookup_row by blast
  then show ?thesis by (auto simp: commandTable_def redisCommandTable_def command_def)
qed

lemma ok_replies: "replies (e_junk e) (e_clk e) (e_ae_ok e) (\<lambda>c. reply_shared e c (bytes_of_string ''+OK'')) ok_text"
  unfolding ok_text_def by (rule shared_replies) (simp add: bytes_of_string_def)

text \<open>\<open>UNWATCH\<close> of a client that watches nothing.\<close>

lemma unwatch_step:
  assumes "m_watched (w_sess w me) = []" "ks_ok e (w_ks w)"
  shows "\<exists>w'. wruns e (unwatchCommand :: 'a world_command) w me argv w' argv ok_text \<and> evolves e w w' \<and> w_ks w' = w_ks w"
proof -
  let ?w = "upd_sess w me (\<lambda>m. m\<lparr>m_dirty_cas := False\<rparr>)"
  have "wruns e (unwatchCommand :: 'a world_command) w me argv ?w argv ok_text"
    by (rule wrunsI[OF ok_replies]) (simp add: unwatchCommand_def unwatchAllKeys_def assms(1))
  moreover have "m_watched (w_sess ?w i) = m_watched (w_sess w i) \<and> m_multi (w_sess ?w i) = m_multi (w_sess w i) \<and>
        m_queue (w_sess ?w i) = m_queue (w_sess w i) \<and> m_dirty_exec (w_sess ?w i) = m_dirty_exec (w_sess w i) \<and>
        (m_watched (w_sess w i) \<noteq> [] \<longrightarrow> m_dirty_cas (w_sess w i) \<longrightarrow> m_dirty_cas (w_sess ?w i))" for i
    using assms(1) by (cases "i = me") simp_all
  ultimately show ?thesis using assms(2) by (intro exI[of _ ?w]) (simp add: evolves_def)
qed

lemma queued_step:
  assumes "watch_ok w" "ks_ok e (w_ks w)" "master e" "queued_ok TYPE('a) (n, argv)" "m_watched (w_sess w me) = []" "wsize w < 2 ^ 30"
    "lookupEntry (bytes_of_string n) = Some (Some (x :: 'a cmd_entry))"
  shows "\<exists>w' argv'. wruns e (call (simple_proc (en_proc x))) w me argv w' argv' (snd (queue_spec (e_now e) (n, argv) (wview e w))) \<and> evolves e w w' \<and>
    wview e w' = fst (queue_spec (e_now e) (n, argv) (wview e w)) \<and> wsize w' \<le> Suc (wsize w)"
proof -
  obtain y :: "'a cmd_entry" where y: "list_all plain argv" "admitted (map obj_text argv)" "lookupEntry (hd (map obj_text argv)) = Some (Some y)" "en_name y = n"
    "\<not> wrong_arity (en_arity y) (length argv)" "(\<exists>f. en_proc y = PKeys f) \<or> en_proc y = PUnwatch"
    using assms(4) unfolding queued_ok_def by auto
  have "x = y" using lookup_name[OF y(3)] y(4) assms(7) by simp
  have "\<exists>w' argv'. wruns e (simple_proc (en_proc x)) w me argv w' argv' (snd (queue_spec (e_now e) (n, argv) (wview e w))) \<and> evolves e w w' \<and>
    wview e w' = fst (queue_spec (e_now e) (n, argv) (wview e w)) \<and> wsize w' \<le> Suc (wsize w)"
  proof (cases "en_proc x = PUnwatch")
    case True
    then have "n = ''unwatch''" using unwatch_name[OF y(3)] y(4) \<open>x = y\<close> by simp
    moreover have "simple_proc (en_proc x) = (unwatchCommand :: 'a world_command)" using True by (simp add: fun_eq_iff)
    ultimately show ?thesis using unwatch_step[OF assms(5,2), where 'a = 'a and argv = argv] by (fastforce simp: queue_spec_def)
  next
    case False
    then obtain f where f: "en_proc x = PKeys f" using y(6) \<open>x = y\<close> by auto
    then have "n \<noteq> ''unwatch''" using unwatch_name[OF y(3)] y(4) \<open>x = y\<close> False by simp
    moreover have "simple_proc (en_proc x) = keys_command f" using f by (simp add: fun_eq_iff)
    moreover have "implements e f (w_ks w) argv (spec_command (e_now e) (map obj_text argv))"
      using f \<open>x = y\<close> y by (intro entry_implements[OF y(3) _ y(5,1,2) assms(2,3,6)]) simp
    ultimately show ?thesis using keys_step[OF assms(1)] by (simp add: queue_spec_def)
  qed
  then obtain w1 argv1 where w1: "wruns e (simple_proc (en_proc x)) w me argv w1 argv1 (snd (queue_spec (e_now e) (n, argv) (wview e w)))" "evolves e w w1"
    "wview e w1 = fst (queue_spec (e_now e) (n, argv) (wview e w))" "wsize w1 \<le> Suc (wsize w)" by blast
  obtain w2 where w2: "wruns e (call (simple_proc (en_proc x))) w me argv w2 argv1 (snd (queue_spec (e_now e) (n, argv) (wview e w)))"
    "w2 = w1 \<or> (\<exists>a. w2 = propagate w1 a)" using call_step[OF w1(1)] by blast
  have "evolves e w w2" using w2(2) w1(2) evolves_trans[OF w1(2) evolves_propagate] by (auto simp: evolves_def[of e w w1])
  then show ?thesis using w2 w1(3,4) by (intro exI[of _ w2] exI[of _ argv1]) auto
qed

text \<open>The loop sets the clock for every command.\<close>

lemma exec_loop_env: "exec_loop ticks n e w me c queue must = exec_loop ticks n (at_time e t) w me c queue must"
  by (induction queue arbitrary: n w c must) (auto cong: bind_option_cong)

lemma exec_loop_ok:
  assumes "watch_ok w" "ks_ok e (w_ks w)" "master e" "list_all (queued_ok TYPE('a)) queue" "m_watched (w_sess w me) = []" "wsize w + length queue \<le> 2 ^ 30"
    "sint (e_now e) \<le> sint (ticks n)" "\<And>n. sint (ticks n) \<le> sint (ticks (Suc n))" "\<And>n. sint (ticks n) \<le> sint finish"
  shows "\<exists>w' must' g. replies (e_junk e) (e_clk e) (e_ae_ok e) g (snd (queue_run ticks n (wview e w) queue)) \<and>
    (\<forall>c :: 'a out_client_scheme. exec_loop ticks n e w me c queue must = do { c \<leftarrow> g c; Some (w', c, must') }) \<and> evolves (at_time e finish) w w' \<and>
    wview (at_time e finish) w' = later finish (fst (queue_run ticks n (wview e w) queue))"
  using assms(1-7)
proof (induction queue arbitrary: w must n e)
  case Nil
  have "sint (e_now e) \<le> sint finish" using Nil.prems(7) assms(9)[of n] by simp
  then show ?case using Nil.prems(2) by (intro exI[of _ w] exI[of _ must] exI[of _ Some]) (auto simp: evolves_refl view_at intro: repliesI[of "[]"])
next
  case (Cons q queue)
  obtain name argv where q: "q = (name, argv)" by (cases q)
  let ?e = "at_time e (ticks n)"
  have qok: "queued_ok TYPE('a) (name, argv)" using Cons.prems(4) q by simp
  then obtain x :: "'a cmd_entry" where x: "lookupEntry (bytes_of_string name) = Some (Some x)" unfolding queued_ok_def by (auto dest: lookup_name)
  define first where "first = (\<not> must \<and> CHR ''r'' \<notin> set (en_sflags x))"
  define w0 where "w0 = (if first then propagate w [bytes_of_string ''MULTI''] else w)"
  have ev0: "evolves e w w0" using Cons.prems(2) by (simp add: w0_def evolves_propagate evolves_refl)
  have w0: "watch_ok w0" "ks_ok ?e (w_ks w0)" "m_watched (w_sess w0 me) = []" "wsize w0 < 2 ^ 30" "wview ?e w0 = later (ticks n) (wview e w)" "wsize w0 = wsize w"
    using evolves_watch_ok[OF ev0 Cons.prems(1)] Cons.prems view_at[OF Cons.prems(7)] by (simp_all add: w0_def)
  let ?spec = "queue_spec (ticks n) (name, argv) (later (ticks n) (wview e w))"
  obtain w1 argv1 where w1: "wruns ?e (call (simple_proc (en_proc x))) w0 me argv w1 argv1 (snd ?spec)" "evolves ?e w0 w1" "wview ?e w1 = fst ?spec" "wsize w1 \<le> Suc (wsize w)"
    using queued_step[OF w0(1,2) _ qok w0(3,4) x] Cons.prems(3) unfolding w0(5,6) by auto
  have e1: "ks_ok ?e (w_ks w1)" "m_watched (w_sess w1 me) = []" using w1(2) w0(3) by (simp_all add: evolves_def)
  obtain f where f: "replies (e_junk e) (e_clk e) (e_ae_ok e) f (snd ?spec)" "\<And>c. call (simple_proc (en_proc x)) ?e w0 me c argv = do { c \<leftarrow> f c; Some (w1, c, argv1) }"
    using w1(1) unfolding wruns_def by auto
  have le: "sint (e_now ?e) \<le> sint (ticks (Suc n))" "sint (ticks n) \<le> sint finish" using assms(8,9) by simp_all
  have sz: "wsize w1 + length queue \<le> 2 ^ 30" and qs: "list_all (queued_ok TYPE('a)) queue" and m: "master ?e" using w1(4) Cons.prems(3,4,6) by simp_all
  obtain w2 must2 g where g: "replies (e_junk ?e) (e_clk ?e) (e_ae_ok ?e) g (snd (queue_run ticks (Suc n) (wview ?e w1) queue))"
    "\<And>c :: 'a out_client_scheme. exec_loop ticks (Suc n) ?e w1 me c queue (must \<or> first) = do { c \<leftarrow> g c; Some (w2, c, must2) }" "evolves (at_time ?e finish) w1 w2"
    "wview (at_time ?e finish) w2 = later finish (fst (queue_run ticks (Suc n) (wview ?e w1) queue))"
    using Cons.IH[OF evolves_watch_ok[OF w1(2) w0(1)] e1(1) m qs e1(2) sz le(1), of "must \<or> first"] by blast
  have run: "queue_run ticks n (wview e w) (q # queue) =
      (fst (queue_run ticks (Suc n) (wview ?e w1) queue), snd ?spec @ snd (queue_run ticks (Suc n) (wview ?e w1) queue))"
    using w1(3) q by (simp add: split_beta Let_def)
  have loop: "exec_loop ticks (Suc n) e w me c q b = exec_loop ticks (Suc n) ?e w me c q b" for w and c :: "'a out_client_scheme" and q b
    by (rule exec_loop_env)
  have "exec_loop ticks n e w me c (q # queue) must = do { c \<leftarrow> do { c \<leftarrow> f c; g c }; Some (w2, c, must2) }" for c :: "'a out_client_scheme"
    using g(2) unfolding loop[symmetric] by (simp add: q x first_def[symmetric] w0_def[symmetric] f(2) Let_def)
  moreover have "evolves (at_time e finish) w w2"
  proof -
    have "evolves (at_time e finish) w w0" by (rule evolves_at[OF ev0]) (use le(2) Cons.prems(7) in simp)
    moreover have "evolves (at_time e finish) w0 w1" using evolves_at[OF w1(2), of finish] le(2) by simp
    ultimately show ?thesis using evolves_trans g(3) by fastforce
  qed
  ultimately show ?case unfolding run using replies_bind[OF f(1)] g(1,4)
    by (intro exI[of _ w2] exI[of _ must2] exI[of _ "\<lambda>c. do { c \<leftarrow> f c; g c }"]) simp
qed

text \<open>What a step of one client leaves of another one.\<close>

definition steady :: "server_env \<Rightarrow> nat \<Rightarrow> world \<Rightarrow> world \<Rightarrow> bool" where
  "steady e i w w' \<longleftrightarrow> m_watched (w_sess w' i) = m_watched (w_sess w i) \<and> m_multi (w_sess w' i) = m_multi (w_sess w i) \<and>
     m_queue (w_sess w' i) = m_queue (w_sess w i) \<and> m_dirty_exec (w_sess w' i) = m_dirty_exec (w_sess w i) \<and>
     (m_watched (w_sess w i) \<noteq> [] \<longrightarrow> m_dirty_cas (w_sess w i) \<longrightarrow> m_dirty_cas (w_sess w' i)) \<and>
     (\<forall>k\<in>set (m_watched (w_sess w i)). wview e w' k \<noteq> wview e w k \<longrightarrow> m_dirty_cas (w_sess w' i))"

lemma evolves_steady: "evolves e w w' \<Longrightarrow> steady e i w w'"
  by (simp add: evolves_def steady_def)

lemma steady_at: "steady e i w w' \<Longrightarrow> sint (e_now e) \<le> sint t \<Longrightarrow> steady (at_time e t) i w w'"
  unfolding steady_def using at_time_cong by blast

lemma steady_sess: "w_sess w' i = w_sess w i \<Longrightarrow> wview e w' = wview e w \<Longrightarrow> steady e i w w'"
  by (simp add: steady_def)

lemma steady_cong: "steady e i w w1 \<Longrightarrow> w_sess w2 i = w_sess w1 i \<Longrightarrow> wview e w2 = wview e w1 \<Longrightarrow> w_sess w0 i = w_sess w i \<Longrightarrow> wview e w0 = wview e w \<Longrightarrow> steady e i w0 w2"
  by (simp add: steady_def)

definition idle_session :: "mstate \<Rightarrow> bool" where
  "idle_session m \<longleftrightarrow> \<not> m_multi m \<and> \<not> m_dirty_cas m \<and> \<not> m_dirty_exec m \<and> m_queue m = [] \<and> m_watched m = []"

lemma discard_ok:
  assumes "watch_ok w"
  shows "\<exists>w'. discardTransaction w me = Some w' \<and> watch_ok w' \<and> w_ks w' = w_ks w \<and> idle_session (w_sess w' me) \<and> (\<forall>i. i \<noteq> me \<longrightarrow> w_sess w' i = w_sess w i)"
proof -
  let ?w = "upd_sess (upd_sess w me initClientMultiState) me (\<lambda>m. m\<lparr>m_multi := False, m_dirty_cas := False, m_dirty_exec := False\<rparr>)"
  have m: "m_watched (w_sess ?w i) = m_watched (w_sess w i)" for i by (cases "i = me") (simp_all add: initClientMultiState_def)
  have "watch_ok ?w" using assms unfolding watch_ok_def m by simp
  then obtain w' where "unwatchAllKeys ?w me = Some w'" "watch_ok w'" "w_ks w' = w_ks ?w" "w_sess w' = (w_sess ?w)(me := (w_sess ?w me)\<lparr>m_watched := []\<rparr>)"
    using unwatch_ok by blast
  then show ?thesis by (intro exI[of _ w']) (simp add: discardTransaction_def initClientMultiState_def idle_session_def)
qed

definition abort_reply_of :: "mstate \<Rightarrow> bytes" where
  "abort_reply_of m = (if m_dirty_exec m then bytes_of_string ''-EXECABORT Transaction discarded because of previous errors.'' else bytes_of_string ''*-1'') @ crlf"

lemma exec_abort:
  assumes "watch_ok w" "m_multi (w_sess w me)" "m_dirty_cas (w_sess w me) \<or> m_dirty_exec (w_sess w me)"
  shows "\<exists>w'. wruns e (execCommand ticks :: 'a world_command) w me argv w' argv (abort_reply_of (w_sess w me)) \<and> watch_ok w' \<and> w_ks w' = w_ks w \<and>
    idle_session (w_sess w' me) \<and> (\<forall>i. i \<noteq> me \<longrightarrow> w_sess w' i = w_sess w i)"
proof -
  obtain w' where w': "discardTransaction w me = Some w'" "watch_ok w'" "w_ks w' = w_ks w" "idle_session (w_sess w' me)" "\<forall>i. i \<noteq> me \<longrightarrow> w_sess w' i = w_sess w i"
    using discard_ok[OF assms(1)] by blast
  have "wruns e (execCommand ticks :: 'a world_command) w me argv w' argv (abort_reply_of (w_sess w me))"
    unfolding abort_reply_of_def by (rule wrunsI[OF shared_replies]) (use assms(2,3) w'(1) in \<open>simp_all add: execCommand_def bytes_of_string_def\<close>)
  then show ?thesis using w' by blast
qed

lemma multibulk_replies:
  "n < 2 ^ 63 \<Longrightarrow> replies (e_junk e) (e_clk e) (e_ae_ok e) (\<lambda>c. addReplyMultiBulkLen (e_junk e) (e_clk e) (e_ae_ok e) c (of_nat n)) ([42] @ int_repr (int n) @ crlf)"
proof -
  assume n: "n < 2 ^ 63"
  have "addReplyMultiBulkLen (e_junk e) (e_clk e) (e_ae_ok e) c (of_nat n) = addReplyLongLongWithPrefix (e_junk e) (e_clk e) (e_ae_ok e) c (of_nat n) 42" for c :: "'a out_client_scheme"
    by (auto simp: addReplyMultiBulkLen_def addReplyLongLongWithPrefix_def)
  then show ?thesis using replies_prefix[of 42 "of_nat n" "e_junk e" "e_clk e" "e_ae_ok e"] sint_of_length[OF n] by (simp add: crlf_def)
qed

lemma exec_run:
  assumes "watch_ok w" "ks_ok e (w_ks w)" "master e" "m_multi (w_sess w me)" "\<not> m_dirty_cas (w_sess w me)" "\<not> m_dirty_exec (w_sess w me)"
    "list_all (queued_ok TYPE('a)) (m_queue (w_sess w me))" "wsize w + length (m_queue (w_sess w me)) \<le> 2 ^ 30" "ticks_ok ticks (e_now e) finish"
  shows "\<exists>w'. wruns e (execCommand ticks :: 'a world_command) w me argv w' argv
      ([42] @ int_repr (int (length (m_queue (w_sess w me)))) @ crlf @ snd (queue_run ticks 0 (wview e w) (m_queue (w_sess w me)))) \<and>
    watch_ok w' \<and> ks_ok e (w_ks w') \<and> wview (at_time e finish) w' = later finish (fst (queue_run ticks 0 (wview e w) (m_queue (w_sess w me)))) \<and>
    idle_session (w_sess w' me) \<and> (\<forall>i. i \<noteq> me \<longrightarrow> steady (at_time e finish) i w w')"
proof -
  let ?q = "m_queue (w_sess w me)" and ?run = "queue_run ticks 0 (wview e w) (m_queue (w_sess w me))"
  obtain w1 where w1: "unwatchAllKeys w me = Some w1" "watch_ok w1" "w_ks w1 = w_ks w" "w_sess w1 = (w_sess w)(me := (w_sess w me)\<lparr>m_watched := []\<rparr>)"
    using unwatch_ok[OF assms(1)] by blast
  obtain w2 must g where g: "replies (e_junk e) (e_clk e) (e_ae_ok e) g (snd ?run)" "\<And>c :: 'a out_client_scheme. exec_loop ticks 0 e w1 me c ?q False = do { c \<leftarrow> g c; Some (w2, c, must) }"
    "evolves (at_time e finish) w1 w2" "wview (at_time e finish) w2 = later finish (fst ?run)"
    using exec_loop_ok[OF w1(2) _ assms(3,7), of me ticks 0 finish False] assms(2,8,9) w1(3,4) by (auto simp: ticks_ok_def)
  obtain w3 where w3: "discardTransaction w2 me = Some w3" "watch_ok w3" "w_ks w3 = w_ks w2" "idle_session (w_sess w3 me)" "\<forall>i. i \<noteq> me \<longrightarrow> w_sess w3 i = w_sess w2 i"
    using discard_ok[OF evolves_watch_ok[OF g(3) w1(2)]] by blast
  let ?w4 = "if must then w3\<lparr>w_ks := (w_ks w3)\<lparr>ks_dirty := ks_dirty (w_ks w3) + 1\<rparr>\<rparr> else w3"
  have l: "length ?q < 2 ^ 63" using assms(8) by simp
  have "wruns e (execCommand ticks :: 'a world_command) w me argv ?w4 argv (([42] @ int_repr (int (length ?q)) @ crlf) @ snd ?run)"
    by (rule wrunsI[OF replies_bind[OF multibulk_replies[OF l] g(1)]])
      (use assms(4-6) w1 g(2) w3(1) in \<open>simp add: execCommand_def\<close>)
  moreover have "watch_ok ?w4" using w3(2) by (simp add: watch_ok_def watchers_def)
  moreover have "ks_ok e (w_ks w2)" using g(3) by (simp add: evolves_def)
  then have "ks_ok e (w_ks ?w4)" using w3(3) by (simp add: ks_ok_def)
  moreover have "steady (at_time e finish) i w ?w4" if "i \<noteq> me" for i
    by (rule steady_cong[OF evolves_steady[OF g(3), of i]]) (use that w1 w3 in simp_all)
  ultimately show ?thesis using g(4) w3 by (intro exI[of _ ?w4]) simp
qed

section \<open>Dispatching\<close>

definition session_ok :: "'a itself \<Rightarrow> mstate \<Rightarrow> bool" where
  "session_ok T m \<longleftrightarrow> (m_multi m \<or> m_queue m = []) \<and> list_all (queued_ok T) (m_queue m)"

definition world_ok :: "'a itself \<Rightarrow> server_env \<Rightarrow> world \<Rightarrow> bool" where
  "world_ok T e w \<longleftrightarrow> ks_ok e (w_ks w) \<and> watch_ok w \<and> (\<forall>i. session_ok T (w_sess w i))"

text \<open>The keys a client watches stay watched, and a change of one flags it.\<close>

definition keeps :: "server_env \<Rightarrow> nat \<Rightarrow> world \<Rightarrow> world \<Rightarrow> bool" where
  "keeps e i w w' \<longleftrightarrow> (\<forall>k\<in>set (m_watched (w_sess w i)). k \<in> set (m_watched (w_sess w' i)) \<and>
     (m_dirty_cas (w_sess w i) \<longrightarrow> m_dirty_cas (w_sess w' i)) \<and> (wview e w' k \<noteq> wview e w k \<longrightarrow> m_dirty_cas (w_sess w' i)))"

lemma keeps_at: "keeps e i w w' \<Longrightarrow> sint (e_now e) \<le> sint t \<Longrightarrow> keeps (at_time e t) i w w'"
  unfolding keeps_def using at_time_cong by blast

lemma world_ok_at [simp]: "world_ok T (at_time e t) w = world_ok T e w"
  by (simp add: world_ok_def)

lemma steady_keeps: "steady e i w w' \<Longrightarrow> keeps e i w w'"
  by (auto simp: steady_def keeps_def)

lemma steady_session: "steady e i w w' \<Longrightarrow> session_ok T (w_sess w i) \<Longrightarrow> session_ok T (w_sess w' i)"
  by (simp add: steady_def session_ok_def)

lemma idle_session_ok: "idle_session m \<Longrightarrow> session_ok T m"
  by (simp add: idle_session_def session_ok_def)

lemma world_okI:
  assumes "ks_ok e (w_ks w')" "watch_ok w'" "session_ok T (w_sess w' me)" "\<And>i. i \<noteq> me \<Longrightarrow> steady e i w w'" "world_ok T e w"
  shows "world_ok T e w'"
proof -
  have "session_ok T (w_sess w' i)" for i
    using assms(3,5) steady_session[OF assms(4)] by (cases "i = me") (auto simp: world_ok_def)
  then show ?thesis using assms(1,2) by (simp add: world_ok_def)
qed

lemma entry_names:
  assumes "lookupEntry name = Some (Some (x :: 'a cmd_entry))"
  shows "en_proc x = PExec \<Longrightarrow> map tolower name = bytes_of_string ''exec''" "en_proc x = PDiscard \<Longrightarrow> map tolower name = bytes_of_string ''discard''"
    "en_proc x = PUnwatch \<Longrightarrow> map tolower name = bytes_of_string ''unwatch''"
proof -
  have x: "x \<in> set (commandTable :: 'a cmd_entry list)" "map tolower name = bytes_of_string (en_name x)"
    using lookup_row[OF assms] by simp_all
  have n: "(en_proc x = PExec \<longrightarrow> en_name x = ''exec'') \<and> (en_proc x = PDiscard \<longrightarrow> en_name x = ''discard'') \<and> (en_proc x = PUnwatch \<longrightarrow> en_name x = ''unwatch'')"
    using x(1) by (auto simp: commandTable_def redisCommandTable_def command_def)
  show "en_proc x = PExec \<Longrightarrow> map tolower name = bytes_of_string ''exec''" "en_proc x = PDiscard \<Longrightarrow> map tolower name = bytes_of_string ''discard''"
    "en_proc x = PUnwatch \<Longrightarrow> map tolower name = bytes_of_string ''unwatch''" using n x(2) by auto
qed

lemma refuse_replies: "\<exists>t. replies (e_junk e) (e_clk e) (e_ae_ok e) (\<lambda>c. refuse g e c r) t"
proof -
  have s: "\<exists>t. replies (e_junk e) (e_clk e) (e_ae_ok e) (\<lambda>c. reply_shared e c u) t" if "length u < 2 ^ 31" for u
    using shared_replies[OF that] by blast
  show ?thesis
    by (cases r; cases "g_aof_write_ok g") (use replies_string[of "e_junk e" "e_clk e" "e_ae_ok e"] error_replies[of e] in
      \<open>auto simp: refuse_def intro!: s simp: bytes_of_string_def\<close>)
qed

lemma sess_cases: "w_sess w' = (w_sess w)(me := m) \<Longrightarrow> wview e w' = wview e w \<Longrightarrow> i \<noteq> me \<Longrightarrow> steady e i w w'"
  by (simp add: steady_def)

lemma watch_ok_sess:
  assumes "watch_ok w" "w_watchers w' = w_watchers w" "\<And>i. m_watched (w_sess w' i) = m_watched (w_sess w i)"
  shows "watch_ok w'"
  using assms by (simp add: watch_ok_def watchers_def)

text \<open>A step that only changes the client's own flags or queue.\<close>

lemma own_step:
  assumes "world_ok T e w" "m_watched (f (w_sess w me)) = m_watched (w_sess w me)" "session_ok T (f (w_sess w me))"
    "m_dirty_cas (f (w_sess w me)) = m_dirty_cas (w_sess w me)"
  shows "world_ok T e (upd_sess w me f) \<and> (\<forall>i. i \<noteq> me \<longrightarrow> steady e i w (upd_sess w me f)) \<and> keeps e me w (upd_sess w me f)"
proof -
  have m: "m_watched (w_sess (upd_sess w me f) i) = m_watched (w_sess w i)" for i using assms(2) by (cases "i = me") simp_all
  have st: "steady e i w (upd_sess w me f)" if "i \<noteq> me" for i using that by (simp add: steady_def)
  have "world_ok T e (upd_sess w me f)"
    by (rule world_okI[where me = me and w = w]) (use assms st watch_ok_sess[of w "upd_sess w me f"] m in \<open>simp_all add: world_ok_def\<close>)
  then show ?thesis using st assms(2,4) by (simp add: keeps_def)
qed

lemma flag_step:
  assumes "world_ok T e w"
  shows "world_ok T e (flagTransaction w me) \<and> (\<forall>i. i \<noteq> me \<longrightarrow> steady e i w (flagTransaction w me)) \<and> keeps e me w (flagTransaction w me)"
proof (cases "m_multi (w_sess w me)")
  case True
  then show ?thesis using own_step[OF assms, of "\<lambda>m. m\<lparr>m_dirty_exec := True\<rparr>" me] assms by (simp add: flagTransaction_def world_ok_def session_ok_def)
next
  case False
  then show ?thesis using assms by (simp add: flagTransaction_def steady_def keeps_def)
qed

definition clearing :: "bytes \<Rightarrow> bool" where
  "clearing name \<longleftrightarrow> map tolower name \<in> {bytes_of_string ''exec'', bytes_of_string ''discard'', bytes_of_string ''unwatch''}"

text \<open>Watching keys.\<close>

lemma watch_keys_ok:
  fixes me :: nat and keys :: "bytes list"
  assumes "watch_ok w"
  defines "w' \<equiv> foldl (\<lambda>w key. watchForKey w me key) w keys"
  shows "watch_ok w' \<and> w_ks w' = w_ks w \<and> (\<exists>ks. w_sess w' = (w_sess w)(me := (w_sess w me)\<lparr>m_watched := m_watched (w_sess w me) @ ks\<rparr>) \<and>
    set (m_watched (w_sess w me) @ ks) = set (m_watched (w_sess w me)) \<union> set keys)"
  using assms(1) unfolding w'_def
proof (induction keys arbitrary: w)
  case Nil
  then show ?case by (cases "w_sess w me") (auto intro!: exI[of _ "[]"])
next
  case (Cons key keys)
  note k = watch_key_ok[OF Cons.prems, of me key]
  let ?w1 = "watchForKey w me key" and ?a = "if key \<in> set (m_watched (w_sess w me)) then [] else [key]"
  obtain ks where i: "watch_ok (foldl (\<lambda>w key. watchForKey w me key) ?w1 keys)" "w_ks (foldl (\<lambda>w key. watchForKey w me key) ?w1 keys) = w_ks ?w1"
    "w_sess (foldl (\<lambda>w key. watchForKey w me key) ?w1 keys) = (w_sess ?w1)(me := (w_sess ?w1 me)\<lparr>m_watched := m_watched (w_sess ?w1 me) @ ks\<rparr>)"
    "set (m_watched (w_sess ?w1 me) @ ks) = set (m_watched (w_sess ?w1 me)) \<union> set keys"
    using Cons.IH[OF k(1)] by blast
  have s1: "w_sess ?w1 me = (w_sess w me)\<lparr>m_watched := m_watched (w_sess w me) @ ?a\<rparr>" by (simp add: k(3))
  have "w_sess (foldl (\<lambda>w key. watchForKey w me key) ?w1 keys) = (w_sess w)(me := (w_sess w me)\<lparr>m_watched := m_watched (w_sess w me) @ ?a @ ks\<rparr>)"
    unfolding i(3) s1 by (simp add: k(3))
  moreover have "set (m_watched (w_sess w me) @ ?a @ ks) = set (m_watched (w_sess w me)) \<union> set (key # keys)"
    using i(4) unfolding s1 by auto
  ultimately show ?case using i(1,2) k(2) by (intro conjI exI[of _ "?a @ ks"]) simp_all
qed

lemma watch_step:
  assumes "world_ok T e w" "list_all plain argv" "\<not> m_multi (w_sess w me)"
  shows "\<exists>w'. wruns e (watchCommand :: 'a world_command) w me argv w' argv ok_text \<and> world_ok T e w' \<and> (\<forall>i. i \<noteq> me \<longrightarrow> steady e i w w') \<and> keeps e me w w' \<and>
    w_ks w' = w_ks w \<and> set (m_watched (w_sess w' me)) = set (m_watched (w_sess w me)) \<union> set (map obj_text (drop 1 argv)) \<and> m_dirty_cas (w_sess w' me) = m_dirty_cas (w_sess w me)"
proof -
  let ?keys = "map obj_text (drop 1 argv)"
  have t: "arg_texts (drop 1 argv) = Some ?keys" using assms(2) by (intro arg_texts_ok) (auto simp: list_all_iff dest: in_set_dropD)
  let ?w = "foldl (\<lambda>w key. watchForKey w me key) w ?keys"
  have wo: "watch_ok w" using assms(1) by (simp add: world_ok_def)
  obtain ks where ks: "watch_ok ?w" "w_ks ?w = w_ks w" "w_sess ?w = (w_sess w)(me := (w_sess w me)\<lparr>m_watched := m_watched (w_sess w me) @ ks\<rparr>)"
    "set (m_watched (w_sess w me) @ ks) = set (m_watched (w_sess w me)) \<union> set ?keys" using watch_keys_ok[OF wo, of me ?keys] by blast
  have "wruns e (watchCommand :: 'a world_command) w me argv ?w argv ok_text"
    by (rule wrunsI[OF ok_replies]) (simp add: watchCommand_def assms(3) t del: One_nat_def)
  moreover have st: "steady e i w ?w" if "i \<noteq> me" for i using that ks(2,3) by (simp add: steady_def)
  moreover have "world_ok T e ?w"
    by (rule world_okI[where me = me and w = w]) (use assms(1) st ks in \<open>simp_all add: world_ok_def session_ok_def del: One_nat_def\<close>)
  moreover have "keeps e me w ?w" using ks by (simp add: keeps_def del: One_nat_def)
  ultimately show ?thesis using ks by (intro exI[of _ ?w]) (simp del: One_nat_def)
qed

text \<open>One call of \<open>processCommand\<close> other than \<open>QUIT\<close>: it replies, keeps the invariant, and treats the watching clients as
  they rely on.\<close>

definition processed :: "'a itself \<Rightarrow> gate \<Rightarrow> server_env \<Rightarrow> world \<Rightarrow> nat \<Rightarrow> robj list \<Rightarrow> world \<Rightarrow> bytes \<Rightarrow> bool" where
  "processed T g e w me argv w' t \<longleftrightarrow> (\<exists>f argv' ok. replies (e_junk e) (e_clk e) (e_ae_ok e) f t \<and>
     (\<forall>c :: 'a out_client_scheme. processCommand g e w me c argv = do { c \<leftarrow> f c; Some (w', c, argv', ok) }))"

lemma processedI: "replies (e_junk e) (e_clk e) (e_ae_ok e) f t \<Longrightarrow> (\<And>c :: 'a out_client_scheme. processCommand g e w me c argv = do { c \<leftarrow> f c; Some (w', c, argv', ok) }) \<Longrightarrow>
    processed TYPE('a) g e w me argv w' t"
  unfolding processed_def by blast

definition good_step :: "'a itself \<Rightarrow> server_env \<Rightarrow> world \<Rightarrow> nat \<Rightarrow> bytes \<Rightarrow> world \<Rightarrow> bool" where
  "good_step T e w me name w' \<longleftrightarrow> world_ok T e w' \<and> (\<forall>i. i \<noteq> me \<longrightarrow> steady e i w w') \<and> (\<not> clearing name \<longrightarrow> keeps e me w w')"

lemma good_at: "good_step T e w me name w' \<Longrightarrow> sint (e_now e) \<le> sint t \<Longrightarrow> good_step T (at_time e t) w me name w'"
  using steady_at keeps_at unfolding good_step_def world_ok_at by blast

lemma good_propagate: "good_step T e w me name w' \<Longrightarrow> good_step T e w me name (propagate w' a)"
  by (simp add: good_step_def world_ok_def steady_def keeps_def)

lemma good_evolves: "evolves e w w' \<Longrightarrow> world_ok T e w \<Longrightarrow> good_step T e w me name w'"
  using evolves_steady[of e w w'] evolves_watch_ok[of e w w'] steady_session[of e _ w w' T] steady_keeps[of e me w w']
  by (auto simp: good_step_def world_ok_def evolves_def[of e w w'])

text \<open>The procedures behind the entries, when they are called.\<close>

lemma proc_step:
  assumes "world_ok TYPE('a) e w" "master e" "list_all plain argv" "admitted (map obj_text argv)" "wsize w + Suc (length (m_queue (w_sess w me))) \<le> 2 ^ 30"
    "lookupEntry (hd (map obj_text argv)) = Some (Some (x :: 'a cmd_entry))" "\<not> wrong_arity (en_arity x) (length argv)"
    "m_multi (w_sess w me) \<longrightarrow> en_proc x \<in> {PExec, PDiscard, PMulti, PWatch}" "ticks_ok ticks (e_now e) finish"
  shows "\<exists>w' argv' t. wruns e (run_proc ticks (en_proc x)) w me argv w' argv' t \<and> good_step TYPE('a) (at_time e finish) w me (hd (map obj_text argv)) w'"
proof -
  note le = ticks_le[OF assms(9)] and at = good_at[OF _ ticks_le[OF assms(9)]]
  have ok: "ks_ok e (w_ks w)" "watch_ok w" "session_ok TYPE('a) (w_sess w me)" using assms(1) by (simp_all add: world_ok_def)
  note names = entry_names[OF assms(6)]
  have err: "\<exists>w' argv' t. wruns e cmd w me argv w' argv' t \<and> good_step TYPE('a) (at_time e finish) w me (hd (map obj_text argv)) w'"
    if "\<And>c. cmd e w me c argv = do { c \<leftarrow> addReplyError (e_ae_ok e) c msg; Some (w, c, argv) }" for cmd :: "'a world_command" and msg
  proof -
    have "wruns e cmd w me argv w argv (error_reply msg)" by (rule wrunsI[OF error_replies]) (rule that)
    then show ?thesis using at[OF good_evolves[OF evolves_refl[OF ok(1)] assms(1)]] by blast
  qed
  have idle: "\<exists>w' argv' t. wruns e cmd w me argv w' argv' t \<and> good_step TYPE('a) (at_time e finish) w me (hd (map obj_text argv)) w'"
    if "wruns e cmd w me argv w1 argv t" "watch_ok w1" "ks_ok e (w_ks w1)" "idle_session (w_sess w1 me)" "\<And>i. i \<noteq> me \<Longrightarrow> steady (at_time e finish) i w w1"
      "clearing (hd (map obj_text argv))"
    for cmd :: "'a world_command" and w1 t
  proof -
    have "world_ok TYPE('a) (at_time e finish) w1"
      by (rule world_okI[OF _ that(2) idle_session_ok[OF that(4)] that(5)]) (use that(3) assms(1) in simp_all)
    then show ?thesis using that unfolding good_step_def by blast
  qed
  show ?thesis
  proof (cases "en_proc x")
    case (PKeys f)
    have "\<exists>w' argv'. wruns e (keys_command f) w me argv w' argv' (snd (spec_command (e_now e) (map obj_text argv) (wview e w))) \<and> evolves e w w' \<and>
      wview e w' = fst (spec_command (e_now e) (map obj_text argv) (wview e w)) \<and> wsize w' \<le> Suc (wsize w)"
      by (rule keys_step[OF ok(2) entry_implements[OF assms(6) PKeys assms(7,3,4) ok(1) assms(2)]]) (use assms(5) in simp)
    moreover have "run_proc ticks (en_proc x) = keys_command f" using PKeys by (simp add: run_proc_def fun_eq_iff)
    ultimately show ?thesis using at[OF good_evolves[OF _ assms(1)]] by metis
  next
    case PMulti
    have p: "run_proc ticks (en_proc x) = (multiCommand :: 'a world_command)" using PMulti by (simp add: run_proc_def fun_eq_iff)
    show ?thesis
    proof (cases "m_multi (w_sess w me)")
      case True
      then show ?thesis unfolding p by (intro err) (simp add: multiCommand_def)
    next
      case False
      let ?w = "upd_sess w me (\<lambda>m. m\<lparr>m_multi := True\<rparr>)"
      have "wruns e (multiCommand :: 'a world_command) w me argv ?w argv ok_text" by (rule wrunsI[OF ok_replies]) (simp add: multiCommand_def False)
      moreover have "good_step TYPE('a) e w me (hd (map obj_text argv)) ?w"
        using own_step[OF assms(1), of "\<lambda>m. m\<lparr>m_multi := True\<rparr>" me] ok(3) by (simp add: good_step_def session_ok_def)
      ultimately show ?thesis unfolding p using at by blast
    qed
  next
    case PDiscard
    have p: "run_proc ticks (en_proc x) = (discardCommand :: 'a world_command)" using PDiscard by (simp add: run_proc_def fun_eq_iff)
    show ?thesis
    proof (cases "m_multi (w_sess w me)")
      case False
      then show ?thesis unfolding p by (intro err) (simp add: discardCommand_def)
    next
      case True
      obtain w1 where w1: "discardTransaction w me = Some w1" "watch_ok w1" "w_ks w1 = w_ks w" "idle_session (w_sess w1 me)" "\<forall>i. i \<noteq> me \<longrightarrow> w_sess w1 i = w_sess w i"
        using discard_ok[OF ok(2)] by blast
      have "wruns e (discardCommand :: 'a world_command) w me argv w1 argv ok_text" by (rule wrunsI[OF ok_replies]) (simp add: discardCommand_def True w1(1))
      then show ?thesis unfolding p using w1 ok(1) names(2)[OF PDiscard] by (intro idle) (auto simp: steady_def clearing_def)
    qed
  next
    case PExec
    have p: "run_proc ticks (en_proc x) = (execCommand ticks :: 'a world_command)" using PExec by (simp add: run_proc_def fun_eq_iff)
    have cl: "clearing (hd (map obj_text argv))" using names(1)[OF PExec] by (simp add: clearing_def)
    show ?thesis
    proof (cases "m_multi (w_sess w me)")
      case False
      then show ?thesis unfolding p by (intro err[where cmd = "execCommand ticks"]) (simp add: execCommand_def)
    next
      case m: True
      show ?thesis
      proof (cases "m_dirty_cas (w_sess w me) \<or> m_dirty_exec (w_sess w me)")
        case True
        obtain w1 where w1: "wruns e (execCommand ticks :: 'a world_command) w me argv w1 argv (abort_reply_of (w_sess w me))" "watch_ok w1" "w_ks w1 = w_ks w"
          "idle_session (w_sess w1 me)" "\<forall>i. i \<noteq> me \<longrightarrow> w_sess w1 i = w_sess w i" using exec_abort[OF ok(2) m True] by blast
        show ?thesis unfolding p by (rule idle[OF w1(1,2)]) (use w1 ok(1) cl in \<open>simp_all add: steady_def\<close>)
      next
        case False
        have d: "\<not> m_dirty_cas (w_sess w me)" "\<not> m_dirty_exec (w_sess w me)" using False by auto
        have q: "list_all (queued_ok TYPE('a)) (m_queue (w_sess w me))" "wsize w + length (m_queue (w_sess w me)) \<le> 2 ^ 30" using ok(3) assms(5) by (simp_all add: session_ok_def)
        obtain w1 t where w1: "wruns e (execCommand ticks :: 'a world_command) w me argv w1 argv t" "watch_ok w1" "ks_ok e (w_ks w1)"
          "idle_session (w_sess w1 me)" "\<And>i. i \<noteq> me \<Longrightarrow> steady (at_time e finish) i w w1" using exec_run[OF ok(2,1) assms(2) m d q assms(9)] by blast
        show ?thesis unfolding p by (rule idle[OF w1 cl])
      qed
    qed
  next
    case PWatch
    have p: "run_proc ticks (en_proc x) = (watchCommand :: 'a world_command)" using PWatch by (simp add: run_proc_def fun_eq_iff)
    show ?thesis
    proof (cases "m_multi (w_sess w me)")
      case True
      then show ?thesis unfolding p by (intro err) (simp add: watchCommand_def)
    next
      case False
      from watch_step[OF assms(1,3) False, where 'a = 'a] obtain w1 where
        "wruns e (watchCommand :: 'a world_command) w me argv w1 argv ok_text" "world_ok TYPE('a) e w1" "\<forall>i. i \<noteq> me \<longrightarrow> steady e i w w1" "keeps e me w w1" by (elim exE conjE) (rule that; assumption)
      then have "wruns e (watchCommand :: 'a world_command) w me argv w1 argv ok_text" "good_step TYPE('a) e w me (hd (map obj_text argv)) w1"
        unfolding good_step_def by blast+
      then show ?thesis unfolding p using at by blast
    qed
  next
    case PUnwatch
    have p: "run_proc ticks (en_proc x) = (unwatchCommand :: 'a world_command)" using PUnwatch by (simp add: run_proc_def fun_eq_iff)
    have m: "\<not> m_multi (w_sess w me)" using assms(8) PUnwatch by auto
    obtain w1 where w1: "unwatchAllKeys w me = Some w1" "watch_ok w1" "w_ks w1 = w_ks w" "w_sess w1 = (w_sess w)(me := (w_sess w me)\<lparr>m_watched := []\<rparr>)"
      using unwatch_ok[OF ok(2)] by blast
    let ?w = "upd_sess w1 me (\<lambda>m. m\<lparr>m_dirty_cas := False\<rparr>)"
    have "wruns e (unwatchCommand :: 'a world_command) w me argv ?w argv ok_text" by (rule wrunsI[OF ok_replies]) (simp add: unwatchCommand_def w1(1))
    moreover have ms: "m_watched (w_sess ?w i) = m_watched (w_sess w1 i)" for i by (cases "i = me") simp_all
    moreover have st: "steady e i w ?w" if "i \<noteq> me" for i using that w1 by (simp add: steady_def)
    moreover have "world_ok TYPE('a) e ?w"
      by (rule world_okI[where me = me and w = w]) (use ok w1 st watch_ok_sess[OF w1(2), of ?w] ms assms(1) in \<open>simp_all add: session_ok_def\<close>)
    moreover have "clearing (hd (map obj_text argv))" using names(3)[OF PUnwatch] by (simp add: clearing_def)
    ultimately have "wruns e (unwatchCommand :: 'a world_command) w me argv ?w argv ok_text" "good_step TYPE('a) e w me (hd (map obj_text argv)) ?w"
      unfolding good_step_def by blast+
    then show ?thesis unfolding p using at by blast
  qed
qed

lemma plain_incr: "plain x \<Longrightarrow> plain (incrRefCount x)"
  by (cases x) (auto simp: plain_def incr_ok, simp add: incrRefCount_def)

text \<open>Evicting keys before the command is called: they vanish, and nobody is told.\<close>

definition evicted_by :: "gate \<Rightarrow> bytes list" where
  "evicted_by g = (if \<not> g_noauth g \<and> g_maxmemory g then g_evicted g else [])"

definition spared :: "server_env \<Rightarrow> bytes list \<Rightarrow> world \<Rightarrow> world \<Rightarrow> bool" where
  "spared e keys w w1 \<longleftrightarrow> ks_ok e (w_ks w1) \<and> w_sess w1 = w_sess w \<and> w_watchers w1 = w_watchers w \<and> wsize w1 \<le> wsize w \<and>
     (\<forall>k. k \<notin> set keys \<longrightarrow> wview e w1 k = wview e w k)"

lemma evict_ok:
  assumes "ks_ok e s"
  shows "\<exists>s'. evict_loop e s keys = Some s' \<and> ks_ok e s' \<and> view e (ks_db s') = view e (ks_db s) |` (- set keys) \<and> db_size (ks_db s') \<le> db_size (ks_db s)"
  using assms
proof (induction keys arbitrary: s)
  case (Cons key keys)
  let ?s = "propagateExpire s key"
  have s: "ks_db ?s = ks_db s" "ks_integers ?s = ks_integers s" by (simp_all add: propagateExpire_def)
  have "db_ok e (ks_db ?s)" using Cons.prems s by (simp add: ks_ok_def)
  from dbDelete_ok[OF this, of key] obtain db b where db: "dbDelete e ?s key = Some (?s\<lparr>ks_db := db\<rparr>, b)" "db_ok e db"
    "kmap db = (kmap (ks_db s))(key := None)" "xmap db = (xmap (ks_db s))(key := None)" unfolding s by blast
  let ?s1 = "notifyKeyspaceEvent (?s\<lparr>ks_db := db\<rparr>) ''evicted'' key"
  have s1: "ks_db ?s1 = db" "ks_ok e ?s1" using db(2) Cons.prems by (simp_all add: notifyKeyspaceEvent_def propagateExpire_def ks_ok_def)
  have v: "view e db = (view e (ks_db s))(key := None)" by (rule view_remove) (simp_all add: db(3,4))
  have z: "db_size db \<le> db_size (ks_db s)" by (rule db_size_mono) (auto simp: db(3))
  obtain s' where s': "evict_loop e ?s1 keys = Some s'" "ks_ok e s'" "view e (ks_db s') = view e db |` (- set keys)" "db_size (ks_db s') \<le> db_size db"
    using Cons.IH[OF s1(2)] unfolding s1(1) by blast
  have "view e (ks_db s') = view e (ks_db s) |` (- set (key # keys))" unfolding s'(3) v by (auto simp: restrict_map_def fun_eq_iff)
  then show ?case using s' z db(1) by (intro exI[of _ s']) simp
qed (simp add: restrict_map_def)

lemma memory_phase:
  assumes "ks_ok e (w_ks w)" "\<not> g_client_freed g"
  obtains w1 ok where "(if \<not> g_noauth g \<and> g_maxmemory g then (if g_client_freed g then None else freeMemoryIfNeeded g e w) else Some (w, True)) = Some (w1, ok)"
    "spared e (evicted_by g) w w1" "wview e w1 = wview e w |` (- set (evicted_by g))"
proof (cases "\<not> g_noauth g \<and> g_maxmemory g")
  case True
  obtain s' where s': "evict_loop e (w_ks w) (g_evicted g) = Some s'" "ks_ok e s'" "view e (ks_db s') = wview e w |` (- set (g_evicted g))" "db_size (ks_db s') \<le> wsize w"
    using evict_ok[OF assms(1)] by blast
  show ?thesis
    by (rule that[of "w\<lparr>w_ks := s'\<rparr>" "g_memory_ok g"]) (use True assms(2) s' in \<open>simp_all add: freeMemoryIfNeeded_def spared_def evicted_by_def restrict_map_def\<close>)
next
  case False
  then have "evicted_by g = []" by (auto simp: evicted_by_def)
  then show ?thesis using that[of w True] False assms(1) by (auto simp: spared_def restrict_map_def)
qed

lemma spared_refl: "ks_ok e (w_ks w) \<Longrightarrow> spared e keys w w"
  by (simp add: spared_def)

lemma spared_ok: "spared e keys w w1 \<Longrightarrow> world_ok T e w \<Longrightarrow> world_ok T e w1"
  by (simp add: spared_def world_ok_def watch_ok_def watchers_def)

lemma process_step:
  assumes "world_ok TYPE('a) e w" "master e" "list_all plain argv" "admitted (map obj_text argv)" "\<not> is_quit (hd (map obj_text argv))"
    "wsize w + Suc (length (m_queue (w_sess w me))) \<le> 2 ^ 30" "\<not> g_client_freed g" "ticks_ok (g_ticks g) (e_now e) finish"
  shows "\<exists>w1 w' t. processed TYPE('a) g e w me argv w' t \<and> spared e (evicted_by g) w w1 \<and> good_step TYPE('a) (at_time e finish) w1 me (hd (map obj_text argv)) w'"
proof -
  let ?name = "hd (map obj_text argv)"
  have ne: "argv \<noteq> []" using admittedD(1)[OF assms(4)] by simp
  have ks: "ks_ok e (w_ks w)" using assms(1) by (simp add: world_ok_def)
  obtain row :: "'a cmd_entry option" where row: "lookupEntry ?name = Some row" using lookup_covered[OF admittedD(2)[OF assms(4)]] by blast
  have at: "arg_text argv 0 = Some ?name" using arg_text_ok[OF assms(3), of 0] ne by (simp add: hd_map hd_conv_nth)
  note unf = processCommand_def at Option.bind.bind_lunit if_not_P[OF assms(5)] row
  note later = good_at[OF _ ticks_le[OF assms(8)]]
  have flags: "good_step TYPE('a) (at_time e finish) w1 me ?name (flagTransaction w1 me)" "good_step TYPE('a) (at_time e finish) w1 me ?name w1"
    if "world_ok TYPE('a) e w1" for w1
    by (rule later; use flag_step[OF that, of me] that in \<open>auto simp: good_step_def steady_def keeps_def\<close>)+
  note fl = flags[OF assms(1)] spared_refl[OF ks]
  show ?thesis
  proof (cases row)
    case None
    have "processed TYPE('a) g e w me argv (flagTransaction w me) (err (unknown_text ?name))"
      by (rule processedI[OF format_replies]) (simp add: unf None)
    then show ?thesis using fl by blast
  next
    case (Some x)
    note unf = unf Some option.case and look = row[unfolded Some]
    show ?thesis
    proof (cases "wrong_arity (en_arity x) (length argv)")
      case True
      note a = True[unfolded wrong_arity_def]
      have "processed TYPE('a) g e w me argv (flagTransaction w me) (err (arity_text (en_name x)))"
        by (rule processedI[OF format_replies]) (simp only: unf if_P[OF a])
      then show ?thesis using fl by blast
    next
      case ar: False
      note a = ar[unfolded wrong_arity_def]
      obtain w1 ok where w1: "(if \<not> g_noauth g \<and> g_maxmemory g then (if g_client_freed g then None else freeMemoryIfNeeded g e w) else Some (w, True)) = Some (w1, ok)"
        "spared e (evicted_by g) w w1" using memory_phase[OF ks assms(7)] by blast
      note unf = unf if_not_P[OF a] w1(1) prod.case
      have ok1: "world_ok TYPE('a) e w1" by (rule spared_ok[OF w1(2) assms(1)])
      have sz: "wsize w1 + Suc (length (m_queue (w_sess w1 me))) \<le> 2 ^ 30" using w1(2) assms(6) by (simp add: spared_def)
      note fl = flags[OF ok1]
      show ?thesis
      proof (cases "refuses g e ok (en_sflags x)")
        case (Some rf)
        obtain t where t: "replies (e_junk e) (e_clk e) (e_ae_ok e) (\<lambda>c :: 'a out_client_scheme. refuse g e c rf) t" using refuse_replies by blast
        have "processed TYPE('a) g e w me argv (if flags_transaction rf then flagTransaction w1 me else w1) t"
          by (rule processedI[OF t]) (simp only: unf Some option.case)
        then show ?thesis using fl w1(2) by (cases "flags_transaction rf") auto
      next
        case None
        note unf = unf None option.case
        let ?queue = "m_multi (w_sess w1 me) \<and> (case en_proc x of PExec \<Rightarrow> False | PDiscard \<Rightarrow> False | PMulti \<Rightarrow> False | PWatch \<Rightarrow> False | _ \<Rightarrow> True)"
        show ?thesis
        proof (cases ?queue)
          case True
          let ?w = "upd_sess w1 me (\<lambda>m. queueMultiCommand m (en_name x) argv)"
          have q: "queued_ok TYPE('a) (en_name x, map incrRefCount argv)"
          proof -
            have t: "map obj_text (map incrRefCount argv) = map obj_text argv" by simp
            have "list_all plain (map incrRefCount argv)" using assms(3) by (auto simp: list_all_iff plain_incr)
            moreover have "(\<exists>f. en_proc x = PKeys f) \<or> en_proc x = PUnwatch" using True by (auto split: proc.splits)
            ultimately show ?thesis unfolding queued_ok_def prod.case t using assms(4) look ar by auto
          qed
          have "processed TYPE('a) g e w me argv ?w (bytes_of_string ''+QUEUED'' @ crlf)"
            by (rule processedI[OF shared_replies]) (simp_all only: unf if_P[OF True] Let_def bytes_of_string_def, simp)
          moreover have "good_step TYPE('a) e w1 me ?name ?w"
            using own_step[OF ok1, of "\<lambda>m. queueMultiCommand m (en_name x) argv" me] ok1 q True
            by (simp add: good_step_def queueMultiCommand_def world_ok_def session_ok_def)
          ultimately show ?thesis using later w1(2) by blast
        next
          case False
          have "m_multi (w_sess w1 me) \<longrightarrow> en_proc x \<in> {PExec, PDiscard, PMulti, PWatch}" using False by (auto split: proc.splits)
          from proc_step[OF ok1 assms(2-4) sz look ar this assms(8)] obtain w2 argv1 t where
            w2: "wruns e (run_proc (g_ticks g) (en_proc x)) w1 me argv w2 argv1 t" "good_step TYPE('a) (at_time e finish) w1 me ?name w2" by blast
          obtain w3 where w3: "wruns e (call (run_proc (g_ticks g) (en_proc x))) w1 me argv w3 argv1 t" "w3 = w2 \<or> (\<exists>a. w3 = propagate w2 a)"
            using call_step[OF w2(1)] by blast
          obtain f where f: "replies (e_junk e) (e_clk e) (e_ae_ok e) f t" "\<And>c. call (run_proc (g_ticks g) (en_proc x)) e w1 me c argv = do { c \<leftarrow> f c; Some (w3, c, argv1) }"
            using w3(1) unfolding wruns_def by blast
          have "processed TYPE('a) g e w me argv w3 t"
            by (rule processedI[OF f(1)]) (simp only: unf if_not_P[OF False] f(2), simp)
          moreover have "good_step TYPE('a) (at_time e finish) w1 me ?name w3" using w3(2) w2(2) good_propagate by blast
          ultimately show ?thesis using w1(2) by blast
        qed
      qed
    qed
  qed
qed

section \<open>Interleaved clients\<close>

text \<open>The conditions on a call: the seed is that of the server, the clock has not gone back, the server is a master, the
  arguments are as the parser creates them, the name is covered, and there is room for the keys the call can add.\<close>

definition admissible :: "server_env \<Rightarrow> server_env \<Rightarrow> world \<Rightarrow> nat \<Rightarrow> robj list \<Rightarrow> bool" where
  "admissible e e' w me argv \<longleftrightarrow> e_seed e' = e_seed e \<and> sint (e_now e) \<le> sint (e_now e') \<and> master e' \<and> list_all plain argv \<and>
     admitted (map obj_text argv) \<and> wsize w + Suc (length (m_queue (w_sess w me))) \<le> 2 ^ 30"

definition gate_ok :: "gate \<Rightarrow> 64 word \<Rightarrow> 64 word \<Rightarrow> bool" where
  "gate_ok g now finish \<longleftrightarrow> \<not> g_client_freed g \<and> ticks_ok (g_ticks g) now finish"

text \<open>The clients send commands in any order; each is processed to the end before the next one.  An event is the client,
  the name of its command and the keys evicted before the command was called.\<close>

inductive interleaved :: "server_env \<Rightarrow> world \<Rightarrow> (nat \<times> bytes \<times> bytes list) list \<Rightarrow> server_env \<Rightarrow> world \<Rightarrow> bool" for e0 w0 where
  start: "interleaved e0 w0 [] e0 w0"
| command: "interleaved e0 w0 evs e w \<Longrightarrow> admissible e e' w me argv \<Longrightarrow> gate_ok g (e_now e') finish \<Longrightarrow>
    processCommand g e' w me (c :: out_client) argv = Some (w', c', argv', ok) \<Longrightarrow>
    interleaved e0 w0 (evs @ [(me, hd (map obj_text argv), evicted_by g)]) (at_time e' finish) w'"

lemma world_ok_seed: "e_seed e' = e_seed e \<Longrightarrow> world_ok T e' w = world_ok T e w"
  unfolding world_ok_def by (subst ks_ok_seed) simp_all

lemma quit_same:
  assumes "processCommand g e w me c argv = Some (w', c', argv', ok)" "arg_text argv 0 = Some name" "is_quit name"
  shows "w' = w"
proof -
  have "processCommand g e w me c argv = do { c \<leftarrow> reply_shared e c (bytes_of_string ''+OK''); Some (w, c\<lparr>k_close_after_reply := True\<rparr>, argv, False) }"
    by (simp only: processCommand_def assms(2) Option.bind.bind_lunit if_P[OF assms(3)])
  then show ?thesis using assms(1) by (cases "reply_shared e c (bytes_of_string ''+OK'')") auto
qed

lemma processed_world:
  assumes "processed TYPE('a) g e w me argv w1 t" "processCommand g e w me (c :: 'a out_client_scheme) argv = Some (w', c', argv', ok)"
  shows "w' = w1"
proof -
  obtain f argv1 ok1 where "processCommand g e w me c argv = do { c \<leftarrow> f c; Some (w1, c, argv1, ok1) }" using assms(1) unfolding processed_def by blast
  then show ?thesis using assms(2) by (cases "f c") auto
qed

lemma admissible_step:
  assumes "world_ok TYPE(unit) e w" "admissible e e' w me argv" "gate_ok g (e_now e') finish"
    "processCommand g e' w me (c :: out_client) argv = Some (w', c', argv', ok)"
  shows "\<exists>w1. spared e' (evicted_by g) w w1 \<and> good_step TYPE(unit) (at_time e' finish) w1 me (hd (map obj_text argv)) w'"
proof -
  have a: "e_seed e' = e_seed e" "master e'" "list_all plain argv" "admitted (map obj_text argv)" "wsize w + Suc (length (m_queue (w_sess w me))) \<le> 2 ^ 30"
    using assms(2) by (simp_all add: admissible_def)
  have ok: "world_ok TYPE(unit) e' w" using world_ok_seed[OF a(1)] assms(1) by blast
  have at: "arg_text argv 0 = Some (hd (map obj_text argv))" using arg_text_ok[OF a(3), of 0] admittedD(1)[OF a(4)] by (simp add: hd_map hd_conv_nth)
  have g: "\<not> g_client_freed g" "ticks_ok (g_ticks g) (e_now e') finish" using assms(3) by (simp_all add: gate_ok_def)
  show ?thesis
  proof (cases "is_quit (hd (map obj_text argv))")
    case True
    then have "w' = w" by (rule quit_same[OF assms(4) at])
    then show ?thesis using ok by (intro exI[of _ w]) (auto simp: good_step_def steady_def keeps_def spared_def world_ok_def)
  next
    case False
    from process_step[OF ok a(2-4) False a(5) g] obtain w1 w2 t where
      w1: "processed TYPE(unit) g e' w me argv w2 t" "spared e' (evicted_by g) w w1" "good_step TYPE(unit) (at_time e' finish) w1 me (hd (map obj_text argv)) w2" by blast
    then show ?thesis using processed_world[OF w1(1) assms(4)] by blast
  qed
qed

lemma interleaved_ok: "interleaved e0 w0 evs e w \<Longrightarrow> world_ok TYPE(unit) e0 w0 \<Longrightarrow> world_ok TYPE(unit) e w"
proof (induction rule: interleaved.induct)
  case (command evs e w e' i argv g finish c w' c' argv' ok)
  then show ?case using admissible_step[of e w e' i argv g finish c w' c' argv' ok] by (auto simp: good_step_def)
qed simp

lemma interleaved_clock: "interleaved e0 w0 evs e w \<Longrightarrow> sint (e_now e0) \<le> sint (e_now e) \<and> e_seed e = e_seed e0"
proof (induction rule: interleaved.induct)
  case (command evs e w e' i argv g finish c w' c' argv' ok)
  then have "sint (e_now e') \<le> sint finish" using ticks_le by (auto simp: gate_ok_def)
  then show ?case using command by (auto simp: admissible_def)
qed simp

text \<open>While a client watches a key that is not evicted, either the key shows what it showed, up to its expiration, or the
  client is flagged.\<close>

lemma watched_guard:
  assumes "interleaved e0 w0 evs e w" "world_ok TYPE(unit) e0 w0" "k \<in> set (m_watched (w_sess w0 me))"
    "\<And>i name keys. (i, name, keys) \<in> set evs \<Longrightarrow> k \<notin> set keys \<and> (i = me \<longrightarrow> \<not> clearing name)"
  shows "k \<in> set (m_watched (w_sess w me)) \<and> (m_dirty_cas (w_sess w me) \<or> wview e w k = wview e w0 k)"
  using assms
proof (induction rule: interleaved.induct)
  case (command evs e w e' i argv g finish c w' c' argv' ok)
  let ?name = "hd (map obj_text argv)" and ?e = "at_time e' finish"
  have ih: "k \<in> set (m_watched (w_sess w me))" "m_dirty_cas (w_sess w me) \<or> wview e w k = wview e w0 k" using command by auto
  have ev: "k \<notin> set (evicted_by g)" "i = me \<longrightarrow> \<not> clearing ?name" using command.prems(3)[of i ?name "evicted_by g"] by simp_all
  have "world_ok TYPE(unit) e w" using interleaved_ok command by blast
  from admissible_step[OF this command.hyps(2-4)] obtain w1 where w1: "spared e' (evicted_by g) w w1" "good_step TYPE(unit) ?e w1 i ?name w'" by blast
  then have keep: "keeps ?e me w1 w'" using ev(2) steady_keeps by (cases "i = me") (auto simp: good_step_def)
  have le: "sint (e_now e) \<le> sint (e_now e')" "sint (e_now e') \<le> sint finish" using command.hyps(2,3) ticks_le by (auto simp: admissible_def gate_ok_def)
  have same: "w_sess w1 = w_sess w" "wview e' w1 k = wview e' w k" using w1(1) ev(1) by (simp_all add: spared_def)
  have "wview ?e w1 k = wview ?e w0 k" if "wview e w k = wview e w0 k"
  proof -
    have "wview e' w k = wview e' w0 k" using that by (simp add: view_later[OF le(1)] later_def)
    then show ?thesis using same(2) by (intro at_time_cong[OF le(2)]) simp
  qed
  then show ?case using keep ih unfolding same(1) keeps_def same(1) by metis
qed simp

text \<open>A gate that refuses nothing on a master without a memory limit.\<close>

definition open_gate :: "gate \<Rightarrow> bool" where
  "open_gate g \<longleftrightarrow> \<not> g_noauth g \<and> \<not> g_maxmemory g \<and> \<not> g_stop_writes_on_bgsave_err g \<and> g_aof_write_ok g \<and> g_min_slaves_to_write g = 0 \<and>
     \<not> g_pubsub g \<and> \<not> g_lua_timedout g"

lemma open_gate_passes: "open_gate g \<Longrightarrow> master e \<Longrightarrow> refuses g e ok fl = None"
  by (simp add: open_gate_def master_def refuses_def)

text \<open>The same with a memory limit, for a command that does not need memory.\<close>

definition memory_gate :: "gate \<Rightarrow> bool" where
  "memory_gate g \<longleftrightarrow> open_gate (g\<lparr>g_maxmemory := False\<rparr>) \<and> g_maxmemory g"

lemma memory_gate_passes: "memory_gate g \<Longrightarrow> master e \<Longrightarrow> CHR ''m'' \<notin> set fl \<Longrightarrow> refuses g e ok fl = None"
  by (simp add: memory_gate_def open_gate_def master_def refuses_def)

text \<open>\<open>EXEC\<close> of a client in a transaction.\<close>

definition exec_outcome :: "gate \<Rightarrow> aview \<Rightarrow> mstate \<Rightarrow> aview \<times> bytes" where
  "exec_outcome g v m =
     (if m_dirty_cas m \<or> m_dirty_exec m then (v, abort_reply_of m)
      else let (v, t) = queue_run (g_ticks g) 0 v (m_queue m) in (v, [42] @ int_repr (int (length (m_queue m))) @ crlf @ t))"

lemma exec_entry:
  assumes "map tolower name = bytes_of_string ''exec''" "0 \<notin> set name"
  shows "\<exists>x :: 'a cmd_entry. lookupEntry name = Some (Some x) \<and> en_proc x = PExec \<and> en_arity x = 1 \<and> en_sflags x = ''sM''"
proof -
  have "covered (map en_name (commandTable :: 'a cmd_entry list)) name" using assms by (simp add: covered_def named_iff entry_rows transaction_names_def)
  then show ?thesis using assms(1) by (simp add: lookupEntry_def find_row_Some commandTable_def redisCommandTable_def command_def)
qed

lemma tolower_zero [simp]: "tolower 0 = 0"
  by (simp add: tolower_def)

lemma exec_not_quit: "map tolower name = bytes_of_string ''exec'' \<Longrightarrow> \<not> is_quit name"
proof
  assume n: "map tolower name = bytes_of_string ''exec''" and "is_quit name"
  then have "map tolower (takeWhile (\<lambda>b. b \<noteq> 0) name) = bytes_of_string ''quit''" by (simp add: is_quit_def)
  then have "bytes_of_string ''quit'' = take 4 (map tolower (takeWhile (\<lambda>b. b \<noteq> 0) name) @ map tolower (dropWhile (\<lambda>b. b \<noteq> 0) name))" by (simp add: bytes_of_string_def)
  also have "\<dots> = take 4 (bytes_of_string ''exec'')" unfolding map_append[symmetric] takeWhile_dropWhile_id n ..
  finally show False by (simp add: bytes_of_string_def)
qed

lemma exec_processed:
  assumes "world_ok TYPE('a) e w" "master e" "open_gate g \<or> memory_gate g" "m_multi (w_sess w me)" "wsize w + length (m_queue (w_sess w me)) \<le> 2 ^ 30"
    "list_all plain argv" "length argv = 1" "map tolower (hd (map obj_text argv)) = bytes_of_string ''exec''" "0 \<notin> set (hd (map obj_text argv))"
    "gate_ok g (e_now e) finish"
  defines "outcome \<equiv> exec_outcome g (wview e w |` (- set (evicted_by g))) (w_sess w me)"
  shows "\<exists>w'. processed TYPE('a) g e w me argv w' (snd outcome) \<and> wview (at_time e finish) w' = later finish (fst outcome) \<and> idle_session (w_sess w' me)"
proof -
  have ks: "ks_ok e (w_ks w)" using assms(1) by (simp add: world_ok_def)
  have gt: "\<not> g_client_freed g" "ticks_ok (g_ticks g) (e_now e) finish" using assms(10) by (simp_all add: gate_ok_def)
  note le = ticks_le[OF gt(2)]
  obtain w0 mem where w0: "(if \<not> g_noauth g \<and> g_maxmemory g then (if g_client_freed g then None else freeMemoryIfNeeded g e w) else Some (w, True)) = Some (w0, mem)"
    "spared e (evicted_by g) w w0" "wview e w0 = wview e w |` (- set (evicted_by g))" using memory_phase[OF ks gt(1)] by blast
  have ok0: "world_ok TYPE('a) e w0" by (rule spared_ok[OF w0(2) assms(1)])
  have ss: "w_sess w0 = w_sess w" "wsize w0 + length (m_queue (w_sess w me)) \<le> 2 ^ 30" using w0(2) assms(5) by (simp_all add: spared_def)
  have ok: "ks_ok e (w_ks w0)" "watch_ok w0" "list_all (queued_ok TYPE('a)) (m_queue (w_sess w0 me))" using ok0 by (simp_all add: world_ok_def session_ok_def)
  have oc: "outcome = exec_outcome g (wview e w0) (w_sess w0 me)" by (simp add: outcome_def w0(3) ss(1))
  let ?cmd = "execCommand (g_ticks g) :: 'a world_command"
  have "\<exists>w1. wruns e ?cmd w0 me argv w1 argv (snd outcome) \<and> wview (at_time e finish) w1 = later finish (fst outcome) \<and> idle_session (w_sess w1 me)"
  proof (cases "m_dirty_cas (w_sess w0 me) \<or> m_dirty_exec (w_sess w0 me)")
    case True
    have m: "m_multi (w_sess w0 me)" using assms(4) ss(1) by simp
    from exec_abort[OF ok(2) m True, where ticks = "g_ticks g" and e = e and argv = argv] show ?thesis using True by (auto simp: oc exec_outcome_def view_at[OF le])
  next
    case False
    then have d: "\<not> m_dirty_cas (w_sess w0 me)" "\<not> m_dirty_exec (w_sess w0 me)" by auto
    have m: "m_multi (w_sess w0 me)" "wsize w0 + length (m_queue (w_sess w0 me)) \<le> 2 ^ 30" using assms(4) ss by simp_all
    show ?thesis using exec_run[OF ok(2,1) assms(2) m(1) d ok(3) m(2) gt(2), of argv] d by (auto simp: oc exec_outcome_def split_beta Let_def)
  qed
  then obtain w1 where w1: "wruns e ?cmd w0 me argv w1 argv (snd outcome)" "wview (at_time e finish) w1 = later finish (fst outcome)" "idle_session (w_sess w1 me)" by blast
  obtain w2 where w2: "wruns e (call ?cmd) w0 me argv w2 argv (snd outcome)" "w2 = w1 \<or> (\<exists>a. w2 = propagate w1 a)"
    using call_step[OF w1(1)] by blast
  obtain f where f: "replies (e_junk e) (e_clk e) (e_ae_ok e) f (snd outcome)" "\<And>c :: 'a out_client_scheme. call ?cmd e w0 me c argv = do { c \<leftarrow> f c; Some (w2, c, argv) }"
    using w2(1) unfolding wruns_def by blast
  obtain x :: "'a cmd_entry" where x: "lookupEntry (hd (map obj_text argv)) = Some (Some x)" "en_proc x = PExec" "en_arity x = 1" "en_sflags x = ''sM''"
    using exec_entry[OF assms(8,9)] by blast
  have at: "arg_text argv 0 = Some (hd (map obj_text argv))" using arg_text_ok[OF assms(6), of 0] assms(7) by (cases argv) simp_all
  have r: "run_proc (g_ticks g) PExec = ?cmd" by (simp add: run_proc_def fun_eq_iff)
  have refuse: "refuses g e mem (en_sflags x) = None" using assms(2,3) open_gate_passes memory_gate_passes by (auto simp: x(4))
  have ar: "\<not> (en_arity x > 0 \<and> en_arity x \<noteq> int (length argv) \<or> int (length argv) < - en_arity x)" using assms(7) x(3) by simp
  have "processCommand g e w me c argv = do { c \<leftarrow> f c; Some (w2, c, argv, True) }" for c :: "'a out_client_scheme"
    unfolding processCommand_def at Option.bind.bind_lunit if_not_P[OF exec_not_quit[OF assms(8)]] x(1) option.case if_not_P[OF ar] w0(1) prod.case refuse
    by (simp add: x(2) r f(2))
  then have "processed TYPE('a) g e w me argv w2 (snd outcome)" by (rule processedI[OF f(1)])
  then show ?thesis using w2(2) w1(2,3) by (intro exI[of _ w2]) auto
qed

text \<open>A call is never stuck.\<close>

lemma processed_returns:
  assumes "processed TYPE('a) g e w me argv w' t" "out_ok (c :: 'a out_client_scheme)" "writes (e_ae_ok e) c"
  shows "\<exists>c' argv' ok. processCommand g e w me c argv = Some (w', c', argv', ok) \<and> queued c' = queued c @ t"
proof -
  obtain f argv1 ok1 where f: "replies (e_junk e) (e_clk e) (e_ae_ok e) f t" "processCommand g e w me c argv = do { c \<leftarrow> f c; Some (w', c, argv1, ok1) }"
    using assms(1) unfolding processed_def by blast
  then show ?thesis using replies_out[OF f(1) assms(2)] assms(3) by auto
qed

lemma admissible_returns:
  assumes "world_ok TYPE(unit) e w" "admissible e e' w me argv" "gate_ok g (e_now e') finish" "out_ok (c :: out_client)" "writes (e_ae_ok e') c"
  shows "processCommand g e' w me c argv \<noteq> None"
proof -
  have a: "e_seed e' = e_seed e" "master e'" "list_all plain argv" "admitted (map obj_text argv)" "wsize w + Suc (length (m_queue (w_sess w me))) \<le> 2 ^ 30"
    using assms(2) by (simp_all add: admissible_def)
  have ok: "world_ok TYPE(unit) e' w" using world_ok_seed[OF a(1)] assms(1) by blast
  have at: "arg_text argv 0 = Some (hd (map obj_text argv))" using arg_text_ok[OF a(3), of 0] admittedD(1)[OF a(4)] by (simp add: hd_map hd_conv_nth)
  have g: "\<not> g_client_freed g" "ticks_ok (g_ticks g) (e_now e') finish" using assms(3) by (simp_all add: gate_ok_def)
  show ?thesis
  proof (cases "is_quit (hd (map obj_text argv))")
    case True
    obtain c' where "reply_shared e' c (bytes_of_string ''+OK'') = Some c'" using replies_out[OF ok_replies assms(4)] by blast
    then show ?thesis using True by (simp add: processCommand_def at)
  next
    case False
    from process_step[OF ok a(2-4) False a(5) g] obtain w1 t where "processed TYPE(unit) g e' w me argv w1 t" by blast
    from processed_returns[OF this assms(4,5)] show ?thesis by auto
  qed
qed

section \<open>Properties\<close>

definition no_session :: mstate where
  "no_session = \<lparr>m_multi = False, m_dirty_cas = False, m_dirty_exec = False, m_queue = [], m_watched = []\<rparr>"

text \<open>Client 1 watches a key and has queued one command.\<close>

definition sample_world :: world where
  "sample_world = \<lparr>w_ks = no_keys,
     w_sess = (\<lambda>_. no_session)(1 := no_session\<lparr>m_multi := True, m_queue := [(''get'', [str_obj (bytes_of_string ''Get''), str_obj [107]])], m_watched := [[107]]\<rparr>),
     w_watchers = [[107] \<mapsto> [1]]\<rparr>"

definition sample_gate :: gate where
  "sample_gate = \<lparr>g_noauth = False, g_maxmemory = False, g_evicted = [], g_client_freed = False, g_memory_ok = True, g_stop_writes_on_bgsave_err = False, g_saveparams = False,
     g_lastbgsave_ok = True, g_aof_write_ok = True, g_aof_write_error = [], g_min_slaves_to_write = 0, g_min_slaves_max_lag = 10, g_good_slaves_count = 0,
     g_slave_ro = True, g_from_master = False, g_pubsub = False, g_repl_connected = True, g_serve_stale_data = True, g_lua_timedout = False, g_ticks = (\<lambda>_. 9)\<rparr>"

text \<open>Names of the samples.\<close>

lemma transaction_samples:
  "covered (key_names @ transaction_names) (bytes_of_string ''Get'')" "covered (key_names @ transaction_names) (bytes_of_string ''EXEC'')"
  "covered (key_names @ transaction_names) (bytes_of_string ''WATCH'')"
  by (simp_all add: covered_def named_def key_names_def spec_table_def transaction_names_def bytes_of_string_def tolower_def)

lemma admitted_samples:
  "admitted [str, a] \<longleftrightarrow> covered (key_names @ transaction_names) str" "admitted [str] \<longleftrightarrow> covered (key_names @ transaction_names) str"
  by (simp_all add: admitted_def supported_by_def)

lemma sample_queued: "queued_ok TYPE(unit) (''get'', [str_obj (bytes_of_string ''Get''), str_obj [107]])"
proof -
  have n: "map tolower (bytes_of_string ''Get'') = bytes_of_string ''get''" by (simp add: bytes_of_string_def tolower_def)
  have "covered (map en_name (commandTable :: unit cmd_entry list)) (bytes_of_string ''Get'')"
    unfolding entry_rows by (rule covered_mono[OF transaction_samples(1)]) (unfold named_append, blast)
  then have "lookupEntry (bytes_of_string ''Get'') =
      Some (Some (\<lparr>en_name = ''get'', en_proc = PKeys getCommand, en_arity = 2, en_sflags = ''rF''\<rparr> :: unit cmd_entry))"
    by (simp add: lookupEntry_def find_row_Some n commandTable_def redisCommandTable_def command_def)
  then show ?thesis using transaction_samples(1) by (simp add: queued_ok_def admitted_samples wrong_arity_def bytes_of_string_def)
qed

lemma sample_world_ok:
  assumes "ks_ok e s"
  shows "world_ok TYPE(unit) e (sample_world\<lparr>w_ks := s\<rparr>)"
proof -
  have "watch_ok (sample_world\<lparr>w_ks := s\<rparr>)" by (simp add: watch_ok_def watchers_def sample_world_def no_session_def)
  moreover have "session_ok TYPE(unit) (w_sess sample_world i)" for i using sample_queued by (simp add: sample_world_def no_session_def session_ok_def)
  ultimately show ?thesis using assms by (simp add: world_ok_def)
qed

lemma sample_world_keys: "sample_world\<lparr>w_ks := no_keys\<rparr> = sample_world"
  by (simp add: sample_world_def)

lemma sample_session_of: "w_sess sample_world 1 =
    \<lparr>m_multi = True, m_dirty_cas = False, m_dirty_exec = False, m_queue = [(''get'', [str_obj (bytes_of_string ''Get''), str_obj [107]])], m_watched = [[107]]\<rparr>"
  by (simp add: sample_world_def no_session_def)

lemma sample_gate_ok: "gate_ok sample_gate 9 9" "open_gate sample_gate" "gate_ok (sample_gate\<lparr>g_maxmemory := m, g_evicted := keys\<rparr>) 9 9"
  "memory_gate (sample_gate\<lparr>g_maxmemory := True, g_evicted := keys\<rparr>)"
  by (simp_all add: gate_ok_def ticks_ok_def sample_gate_def open_gate_def memory_gate_def)

lemma exec_argv:
  "map obj_text [str_obj (bytes_of_string ''EXEC'')] = [bytes_of_string ''EXEC'']" "plain (str_obj (bytes_of_string ''EXEC''))"
  "map tolower (bytes_of_string ''EXEC'') = bytes_of_string ''exec''"
  by (simp_all add: bytes_of_string_def tolower_def)

text \<open>C3. Optimistic locking.  Suppose a client watches a key, and afterwards any clients, itself included, send any commands
  that the model covers (those of \<open>admitted\<close>: key, string and transaction commands, \<open>PERSIST\<close> excepted, \<open>QUIT\<close>, and names that
  no command of the server has), in any order, except that the watching client does not send \<open>EXEC\<close>, \<open>DISCARD\<close> or \<open>UNWATCH\<close> and the
  key is not evicted to free memory.  If it then has an open transaction and sends \<open>EXEC\<close>: when it is flagged, nothing
  changes and the reply tells it so; otherwise the key shows exactly what it showed when the client began to watch it,
  up to its own expiration, and the commands queued run one after the other on that state with nothing in between,
  each at its own time and replying as on the abstract map.\<close>

theorem watch_exec:
  assumes "world_ok TYPE(unit) e0 w0" "interleaved e0 w0 evs e w" "k \<in> set (m_watched (w_sess w0 me))"
    "\<And>i name keys. (i, name, keys) \<in> set evs \<Longrightarrow> k \<notin> set keys \<and> (i = me \<longrightarrow> \<not> clearing name)"
    "m_multi (w_sess w me)" "admissible e e' w me argv" "length argv = 1" "map tolower (hd (map obj_text argv)) = bytes_of_string ''exec''"
    "open_gate g" "gate_ok g (e_now e') finish" "out_ok (c :: out_client)" "writes (e_ae_ok e') c"
  defines "outcome \<equiv> exec_outcome g (wview e' w) (w_sess w me)"
  shows "\<exists>w' c' argv' ok. processCommand g e' w me c argv = Some (w', c', argv', ok) \<and> queued c' = queued c @ snd outcome \<and>
    wview (at_time e' finish) w' = later finish (fst outcome) \<and> (m_dirty_cas (w_sess w me) \<or> wview e' w k = later (e_now e') (wview e0 w0) k)"
proof -
  have a: "e_seed e' = e_seed e" "sint (e_now e) \<le> sint (e_now e')" "master e'" "list_all plain argv" "wsize w + length (m_queue (w_sess w me)) \<le> 2 ^ 30"
    "0 \<notin> set (hd (map obj_text argv))" using assms(6) admittedD(2) by (auto simp: admissible_def covered_def)
  have ok: "world_ok TYPE(unit) e' w" using interleaved_ok[OF assms(2,1)] world_ok_seed[OF a(1)] by blast
  have "wview e' w |` (- set (evicted_by g)) = wview e' w" using assms(9) by (simp add: evicted_by_def open_gate_def restrict_map_def)
  then obtain w' where w': "processed TYPE(unit) g e' w me argv w' (snd outcome)" "wview (at_time e' finish) w' = later finish (fst outcome)"
    using exec_processed[OF ok a(3) disjI1[OF assms(9)] assms(5) a(5,4) assms(7,8) a(6) assms(10)] unfolding outcome_def by auto
  have le: "sint (e_now e0) \<le> sint (e_now e')" using interleaved_clock[OF assms(2)] a(2) by simp
  have "m_dirty_cas (w_sess w me) \<or> wview e' w k = later (e_now e') (wview e0 w0) k"
    using watched_guard[OF assms(2,1,3,4)] by (auto simp: view_later[OF le, symmetric] view_later[OF a(2)] later_def)
  then show ?thesis using processed_returns[OF w'(1) assms(11,12)] w'(2) by blast
qed

theorem watch_exec_witness:
  "\<exists>w' c' argv' ok. processCommand sample_gate (sample_env 9) sample_world 1 fresh_client [str_obj (bytes_of_string ''EXEC'')] = Some (w', c', argv', ok) \<and>
    queued c' = [42, 49] @ crlf @ null_bulk"
proof -
  let ?e = "sample_env 9" and ?w = sample_world and ?argv = "[str_obj (bytes_of_string ''EXEC'')]"
  note s = sample_session_of
  have ok: "world_ok TYPE(unit) ?e ?w" using sample_world_ok[OF no_keys_ok(1)] unfolding sample_world_keys .
  have v: "wview ?e ?w = Map.empty" "wsize ?w = 0" by (simp_all add: sample_world_def no_keys_ok)
  have n: "map tolower (hd (map obj_text ?argv)) = bytes_of_string ''exec''" unfolding exec_argv by (simp add: exec_argv(3))
  have ad: "admissible ?e ?e ?w 1 ?argv" unfolding admissible_def s v(2) exec_argv by (simp add: admitted_samples transaction_samples exec_argv(2))
  have o: "snd (exec_outcome sample_gate (wview ?e ?w) (w_sess ?w 1)) = [42, 49] @ crlf @ null_bulk"
    by (simp add: exec_outcome_def s v(1) queue_spec_def sample_lookup spec_get_def int_repr_def dec_repr.simps del: One_nat_def)
  have k: "[107] \<in> set (m_watched (w_sess ?w 1))" "m_multi (w_sess ?w 1)" by (simp_all add: s del: One_nat_def)
  show ?thesis using watch_exec[OF ok interleaved.start k(1) _ k(2) ad _ n sample_gate_ok(2) _ fresh_client_ok(1), where finish = 9] sample_gate_ok(1) o by auto
qed

text \<open>C6. No interleaving of clients breaks the server: from every well-formed state, after any commands of any clients that
  the model covers (those of \<open>admitted\<close>), evictions included, the keyspace is well-formed, the table of watched keys and the clients' lists
  mirror each other, every queued command is a complete call, and the next covered command of any client again runs to
  its end with no failed assertion.\<close>

theorem interleaving_safe:
  assumes "world_ok TYPE(unit) e0 w0" "interleaved e0 w0 evs e w"
  shows "world_ok TYPE(unit) e w \<and>
    (admissible e e' w me argv \<longrightarrow> gate_ok g (e_now e') finish \<longrightarrow> out_ok (c :: out_client) \<longrightarrow> writes (e_ae_ok e') c \<longrightarrow> processCommand g e' w me c argv \<noteq> None)"
  using interleaved_ok[OF assms(2,1)] admissible_returns[of e w e' me argv g finish c] by blast

theorem interleaving_safe_witness:
  "processCommand sample_gate (sample_env 9) sample_world 2 fresh_client [str_obj (bytes_of_string ''WATCH''), str_obj [107]] \<noteq> None"
proof -
  let ?argv = "[str_obj (bytes_of_string ''WATCH''), str_obj [107]]"
  have ok: "world_ok TYPE(unit) (sample_env 0) sample_world" using sample_world_ok[OF no_keys_ok(1)] unfolding sample_world_keys .
  have "admissible (sample_env 0) (sample_env 9) sample_world 2 ?argv"
    by (simp add: admissible_def admitted_samples transaction_samples) (simp add: bytes_of_string_def sample_world_def no_session_def no_keys_ok)
  then show ?thesis using interleaving_safe[OF ok interleaved.start, of "sample_env 9" 2 ?argv sample_gate 9 fresh_client] sample_gate_ok(1) by simp
qed

text \<open>C39. Evicting a watched key flags nobody.  A client has a transaction open, is not flagged, and sends \<open>EXEC\<close> while the
  memory limit is exceeded and the sampling picks a key it watches.  The key is deleted before \<open>EXEC\<close> is called, and
  \<open>EXEC\<close> nevertheless runs the whole queue, on a state in which the key is gone, and replies with its results.\<close>

theorem evicted_not_flagged:
  assumes "world_ok TYPE(unit) e w" "admissible e e' w me argv" "length argv = 1" "map tolower (hd (map obj_text argv)) = bytes_of_string ''exec''"
    "m_multi (w_sess w me)" "\<not> m_dirty_cas (w_sess w me)" "\<not> m_dirty_exec (w_sess w me)" "memory_gate g" "gate_ok g (e_now e') finish"
    "k \<in> set (m_watched (w_sess w me))" "k \<in> set (g_evicted g)" "out_ok (c :: out_client)" "writes (e_ae_ok e') c"
  defines "v \<equiv> wview e' w |` (- set (g_evicted g))" and "queue \<equiv> m_queue (w_sess w me)"
  shows "v k = None \<and> (\<exists>w' c' argv' ok. processCommand g e' w me c argv = Some (w', c', argv', ok) \<and>
    queued c' = queued c @ [42] @ int_repr (int (length queue)) @ crlf @ snd (queue_run (g_ticks g) 0 v queue) \<and>
    wview (at_time e' finish) w' = later finish (fst (queue_run (g_ticks g) 0 v queue)))"
proof -
  have a: "e_seed e' = e_seed e" "master e'" "list_all plain argv" "wsize w + length (m_queue (w_sess w me)) \<le> 2 ^ 30"
    "0 \<notin> set (hd (map obj_text argv))" using assms(2) admittedD(2) by (auto simp: admissible_def covered_def)
  have ok: "world_ok TYPE(unit) e' w" using assms(1) world_ok_seed[OF a(1)] by blast
  have ev: "evicted_by g = g_evicted g" using assms(8) by (simp add: evicted_by_def memory_gate_def open_gate_def)
  have o: "exec_outcome g v (w_sess w me) = (fst (queue_run (g_ticks g) 0 v queue), [42] @ int_repr (int (length queue)) @ crlf @ snd (queue_run (g_ticks g) 0 v queue))"
    using assms(6,7) by (simp add: exec_outcome_def queue_def split_beta Let_def)
  obtain w' where w': "processed TYPE(unit) g e' w me argv w' (snd (exec_outcome g v (w_sess w me)))"
    "wview (at_time e' finish) w' = later finish (fst (exec_outcome g v (w_sess w me)))"
    using exec_processed[OF ok a(2) disjI2[OF assms(8)] assms(5) a(4,3) assms(3,4) a(5) assms(9)] unfolding ev v_def by blast
  have "v k = None" using assms(11) by (simp add: v_def)
  then show ?thesis using processed_returns[OF w'(1) assms(12,13)] w'(2) unfolding o by auto
qed

text \<open>The watched key is there before \<open>EXEC\<close>, and the queued \<open>GET\<close> finds nothing.\<close>

theorem evicted_not_flagged_witness:
  "\<exists>w w' c' argv' ok. wview (sample_env 9) w [107] = Some (AStr [53], Some 100) \<and> [107] \<in> set (m_watched (w_sess w 1)) \<and> \<not> m_dirty_cas (w_sess w 1) \<and>
    processCommand (sample_gate\<lparr>g_maxmemory := True, g_evicted := [[107]]\<rparr>) (sample_env 9) w 1 fresh_client [str_obj (bytes_of_string ''EXEC'')] =
      Some (w', c', argv', ok) \<and> queued c' = [42, 49] @ crlf @ null_bulk"
proof -
  let ?e = "sample_env 9" and ?w = "sample_world\<lparr>w_ks := one_key [107] (str_obj [53]) 100\<rparr>" and ?argv = "[str_obj (bytes_of_string ''EXEC'')]"
  let ?g = "sample_gate\<lparr>g_maxmemory := True, g_evicted := [[107]]\<rparr>"
  have s: "w_sess ?w 1 = w_sess sample_world 1" by simp
  note s = s[unfolded sample_session_of]
  have so: "obj_ok (str_obj [53])" and c: "content_of (str_obj [53]) = AStr [53]"
    by simp_all (simp add: content_of_def str_obj_def createObject_def, simp add: obj_text_def sds_text_def)
  note one = one_key_ok[where v = "str_obj [53]" and k = "[107]" and x = 100, OF so]
  have ok: "world_ok TYPE(unit) ?e ?w" by (rule sample_world_ok[OF one(1)])
  have v: "wview ?e ?w = [[107] \<mapsto> (AStr [53], Some 100)]" "wsize ?w = 1"
    by (simp_all add: view_def expired_def cmap_def fun_eq_iff db_size_def one(2,3) c)
  have n: "map tolower (hd (map obj_text ?argv)) = bytes_of_string ''exec''" unfolding exec_argv by (simp add: exec_argv(3))
  have ad: "admissible ?e ?e ?w 1 ?argv" unfolding admissible_def s v(2) exec_argv by (simp add: admitted_samples transaction_samples exec_argv(2))
  have k: "[107] \<in> set (m_watched (w_sess ?w 1))" "m_multi (w_sess ?w 1)" "\<not> m_dirty_cas (w_sess ?w 1)" "\<not> m_dirty_exec (w_sess ?w 1)"
    unfolding s by simp_all
  have q: "queue_run (g_ticks ?g) 0 (wview ?e ?w |` (- set (g_evicted ?g))) (m_queue (w_sess ?w 1)) = (Map.empty, null_bulk)"
    unfolding s v(1) by (simp add: queue_spec_def sample_lookup spec_get_def)
  have l: "length (m_queue (w_sess ?w 1)) = 1" unfolding s by simp
  have "\<exists>w' c' argv' ok. processCommand ?g ?e ?w 1 fresh_client ?argv = Some (w', c', argv', ok) \<and> queued c' = [42, 49] @ crlf @ null_bulk"
    using evicted_not_flagged[OF ok ad _ n k(2-4) sample_gate_ok(4)[where keys = "[[107]]"] _ k(1) _ fresh_client_ok(1), where finish = 9] sample_gate_ok(3)[where m = True and keys = "[[107]]"]
    unfolding q l by (auto simp: int_repr_def dec_repr.simps)
  moreover have "wview ?e ?w [107] = Some (AStr [53], Some 100)" unfolding v(1) by simp
  ultimately show ?thesis using k(1,3) by blast
qed

end
