(* ===== verification/Redis_Server.thy ===== *)
theory Redis_Server
  imports Redis_Multi Redis_Protocol
begin

text \<open>
  The composition of the request parser (\<open>networking.c\<close>), the dispatcher (\<open>redis.c\<close>), the commands and the reply
  buffers: what a client reads back for the bytes it sent.

  A served client carries, besides its query and reply buffers, the world its commands run in.  The environments of
  the successive commands (clock, fresh memory, memory accounting) are a sequence; command number \<open>n\<close> runs in
  \<open>envs n\<close>.  A command that fails an assertion marks the client; the theorem shows that this never happens.

  The main result: for any number of pipelined requests for covered commands in the query buffer of a client outside a transaction,
  \<open>processInputBuffer\<close> returns, consumes all of them, and queues exactly the replies that the abstract map gives.
\<close>

section \<open>Serving a client\<close>

record served = client +
  v_world :: world
  v_calls :: nat
  v_failed :: bool

text \<open>The arguments as \<open>processMultibulkBuffer\<close> creates them.\<close>

fun make_args :: "server_env \<Rightarrow> bytes list \<Rightarrow> robj list option" where
  "make_args e [] = Some []"
| "make_args e (a # as) = do {
     o1 \<leftarrow> createStringObject (e_junk e) (e_clk e) (Some a) (length a);
     os \<leftarrow> make_args e as;
     Some (o1 # os)
   }"

definition serve :: "(nat \<Rightarrow> server_env) \<Rightarrow> gate \<Rightarrow> nat \<Rightarrow> served \<Rightarrow> served \<times> bool" where
  "serve envs g me c =
     (let n = Suc (v_calls c); e = envs n
      in case do { argv \<leftarrow> make_args e (c_argv c); processCommand g e (v_world c) me c argv } of
           None \<Rightarrow> (c\<lparr>v_failed := True\<rparr>, False)
         | Some (w, c, _, ok) \<Rightarrow> (c\<lparr>v_world := w, v_calls := n\<rparr>, ok))"

section \<open>Commands outside a transaction\<close>

definition entry_of :: "'a redisCommand \<Rightarrow> 'a cmd_entry" where
  "entry_of c = \<lparr>en_name = rc_name c, en_proc = PKeys (rc_proc c), en_arity = rc_arity c, en_sflags = rc_sflags c\<rparr>"

lemma lookup_entry:
  assumes "\<not> named transaction_names name"
  shows "lookupEntry name = map_option (map_option entry_of) (lookupCommand name)"
proof -
  have "covered (map en_name (commandTable :: 'a cmd_entry list)) name \<longleftrightarrow> covered (map rc_name (redisCommandTable :: 'a redisCommand list)) name"
    using assms unfolding covered_def entry_rows key_rows named_append by blast
  moreover have "List.find (\<lambda>x. bytes_of_string (en_name x) = map tolower name) (commandTable :: 'a cmd_entry list) =
      map_option entry_of (List.find (\<lambda>x. bytes_of_string (rc_name x) = map tolower name) redisCommandTable)"
    using assms by (auto simp: commandTable_def find_append find_map named_def transaction_names_def entry_of_def[abs_def] split: option.splits)
  ultimately show ?thesis by (simp add: lookupEntry_def lookupCommand_def find_row_def)
qed

lemma world_same [simp]: "w\<lparr>w_ks := w_ks w\<rparr> = w"
  by (cases w) simp

text \<open>Outside a transaction the dispatcher is the lookup of the command and its call.\<close>

lemma process_dispatch:
  assumes "open_gate g" "master e" "list_all plain argv" "argv \<noteq> []" "\<not> is_quit (hd (map obj_text argv))" "\<not> named transaction_names (hd (map obj_text argv))"
    "\<not> m_multi (w_sess w me)" "lookupCommand (hd (map obj_text argv)) = Some (row :: 'a redisCommand option)"
  shows "processCommand g e w me (c :: 'a out_client_scheme) argv = do { (w, c, argv) \<leftarrow> call (keys_command dispatch) e w me c argv; Some (w, c, argv, True) }"
proof -
  have at: "arg_text argv 0 = Some (hd (map obj_text argv))" using arg_text_ok[OF assms(3), of 0] assms(4) by (simp add: hd_map hd_conv_nth)
  note unf = processCommand_def at Option.bind.bind_lunit if_not_P[OF assms(5)] lookup_entry[OF assms(6), where 'a = 'a] assms(8) option.map
  have fl: "flagTransaction w me = w" using assms(7) by (simp add: flagTransaction_def)
  have err: "call (keys_command dispatch) e w me c argv = do { c \<leftarrow> r; Some (w, c, argv) }"
    if "dispatch e (w_ks w) c argv = do { c \<leftarrow> r; Some (w_ks w, c, argv) }" for r
    by (cases r) (simp_all add: call_def keys_command_def that)
  have np: "\<not> (\<not> g_noauth g \<and> g_maxmemory g)" "\<not> (m_multi (w_sess w me) \<and> P)" for P using assms(1,7) by (simp_all add: open_gate_def)
  show ?thesis
  proof (cases row)
    case None
    have "dispatch e (w_ks w) c argv = do { c \<leftarrow> addReplyErrorFormat (e_ae_ok e) c (unknown_text (hd (map obj_text argv))); Some (w_ks w, c, argv) }"
      by (simp add: dispatch_def at assms(8) None)
    from err[OF this] show ?thesis by (cases "addReplyErrorFormat (e_ae_ok e) c (unknown_text (hd (map obj_text argv)))") (simp_all add: unf None fl)
  next
    case (Some cmd)
    show ?thesis
    proof (cases "bad_arity cmd (length argv)")
      case True
      have "dispatch e (w_ks w) c argv = do { c \<leftarrow> addReplyErrorFormat (e_ae_ok e) c (arity_text (rc_name cmd)); Some (w_ks w, c, argv) }"
        by (simp add: dispatch_def at assms(8) Some True)
      from err[OF this] show ?thesis using True
        by (cases "addReplyErrorFormat (e_ae_ok e) c (arity_text (rc_name cmd))") (simp_all add: unf Some fl entry_of_def bad_arity_def)
    next
      case False
      have "dispatch e (w_ks w) c argv = rc_proc cmd e (w_ks w) c argv" by (simp add: dispatch_def at assms(8) Some False)
      then have "call (keys_command dispatch) e w me c argv = call (run_proc (g_ticks g) (PKeys (rc_proc cmd))) e w me c argv" by (simp add: call_def run_proc_def keys_command_def)
      moreover have "\<not> (rc_arity cmd > 0 \<and> rc_arity cmd \<noteq> int (length argv) \<or> int (length argv) < - rc_arity cmd)" using False by (simp add: bad_arity_def)
      ultimately show ?thesis by (simp only: unf Some option.simps entry_of_def cmd_entry.simps if_not_P[OF np(1)] if_not_P[OF np(2)] prod.case open_gate_passes[OF assms(1,2)] if_False)
    qed
  qed
qed

lemma process_keys:
  assumes "open_gate g" "master e" "list_all plain argv" "supported (map obj_text argv)" "\<not> is_quit (hd (map obj_text argv))" "\<not> named transaction_names (hd (map obj_text argv))"
    "\<not> m_multi (w_sess w me)" "watch_ok w" "ks_ok e (w_ks w)" "wsize w < 2 ^ 30"
  defines "spec \<equiv> spec_command (e_now e) (map obj_text argv) (wview e w)"
  shows "\<exists>f w' argv'. replies (e_junk e) (e_clk e) (e_ae_ok e) f (snd spec) \<and> evolves e w w' \<and> wview e w' = fst spec \<and> wsize w' \<le> Suc (wsize w) \<and>
    (\<forall>c :: 'a out_client_scheme. processCommand g e w me c argv = do { c \<leftarrow> f c; Some (w', c, argv', True) })"
proof -
  have ne: "argv \<noteq> []" using supportedD(1)[OF assms(4)] by simp
  obtain row :: "'a redisCommand option" where row: "lookupCommand (hd (map obj_text argv)) = Some row"
    using covered_mono[OF supportedD(3)[OF assms(4)]] by (auto simp: lookupCommand_def find_row_Some key_rows)
  obtain w1 argv1 where w1: "wruns e (keys_command (dispatch :: 'a command)) w me argv w1 argv1 (snd spec)" "evolves e w w1" "wview e w1 = fst spec" "wsize w1 \<le> Suc (wsize w)"
    using keys_step[OF assms(8) dispatch_implements[OF assms(9,2,3,4,10)]] unfolding spec_def by blast
  obtain w2 where w2: "wruns e (call (keys_command (dispatch :: 'a command))) w me argv w2 argv1 (snd spec)" "w2 = w1 \<or> (\<exists>a. w2 = propagate w1 a)"
    using call_step[OF w1(1)] by blast
  obtain f where f: "replies (e_junk e) (e_clk e) (e_ae_ok e) f (snd spec)" "\<And>c. call (keys_command (dispatch :: 'a command)) e w me c argv = do { c \<leftarrow> f c; Some (w2, c, argv1) }"
    using w2(1) unfolding wruns_def by blast
  have "processCommand g e w me c argv = do { c \<leftarrow> f c; Some (w2, c, argv1, True) }" for c :: "'a out_client_scheme"
    unfolding process_dispatch[OF assms(1-3) ne assms(5-7) row] f(2) by (cases "f c") simp_all
  moreover have "evolves e w w2" "wview e w2 = fst spec" "wsize w2 \<le> Suc (wsize w)"
    using w2(2) w1(2-4) evolves_trans[OF w1(2) evolves_propagate] by (auto simp: evolves_def[of e w w1])
  ultimately show ?thesis using f(1) by blast
qed

section \<open>From bytes to bytes\<close>

lemma plain_new: "length a < 2 ^ 32 \<Longrightarrow> \<exists>o1. createStringObject junk clk (Some a) (length a) = Some o1 \<and> plain o1 \<and> obj_text o1 = a"
  using string_ok[of "length a" "Some a" junk clk]
  by (auto simp: plain_def createStringObject_def createEmbeddedStringObject_def createRawStringObject_def createObject_def split: if_splits bind_splits)

lemma make_args_ok:
  assumes "list_all (\<lambda>a. length a < 2 ^ 32) as"
  shows "\<exists>argv. make_args e as = Some argv \<and> list_all plain argv \<and> map obj_text argv = as"
  using assms
proof (induction as)
  case (Cons a as)
  obtain argv where "make_args e as = Some argv" "list_all plain argv" "map obj_text argv = as" using Cons by auto
  moreover obtain o1 where "createStringObject (e_junk e) (e_clk e) (Some a) (length a) = Some o1" "plain o1" "obj_text o1 = a" using plain_new[of a] Cons.prems by auto
  ultimately show ?case by simp
qed simp

text \<open>The environments of a master: one seed, a clock that does not go back, handlers that can be installed.\<close>

definition envs_ok :: "(nat \<Rightarrow> server_env) \<Rightarrow> bool" where
  "envs_ok envs \<longleftrightarrow> (\<forall>n. e_seed (envs n) = e_seed (envs 0) \<and> sint (e_now (envs n)) \<le> sint (e_now (envs (Suc n))) \<and> master (envs n) \<and> e_ae_ok (envs n))"

text \<open>A request for a command on keys: the specification covers it, and it is neither \<open>QUIT\<close> nor a command on transactions.\<close>

definition key_call :: "bytes list \<Rightarrow> bool" where
  "key_call a \<longleftrightarrow> supported a \<and> list_all (\<lambda>s. length s < 2 ^ 32) a \<and> \<not> is_quit (hd a) \<and> \<not> named transaction_names (hd a)"

text \<open>What is seen of a served client: the keys at the time of its last command, the bytes queued, the number of calls.\<close>

definition seen :: "(nat \<Rightarrow> server_env) \<Rightarrow> served \<Rightarrow> aview \<times> bytes \<times> nat" where
  "seen envs c = (wview (envs (v_calls c)) (v_world c), queued c, v_calls c)"

definition seen_step :: "(nat \<Rightarrow> server_env) \<Rightarrow> aview \<times> bytes \<times> nat \<Rightarrow> bytes list \<Rightarrow> aview \<times> bytes \<times> nat" where
  "seen_step envs s a = (case s of (m, out, n) \<Rightarrow>
     let now = e_now (envs (Suc n)); (m, t) = spec_command now a (later now m) in (m, out @ t, Suc n))"

definition served_ok :: "(nat \<Rightarrow> server_env) \<Rightarrow> gate \<Rightarrow> nat \<Rightarrow> nat \<Rightarrow> served \<Rightarrow> bool" where
  "served_ok envs g me n c \<longleftrightarrow> envs_ok envs \<and> open_gate g \<and> \<not> v_failed c \<and> writes True c \<and> \<not> m_multi (w_sess (v_world c) me) \<and> watch_ok (v_world c) \<and>
     ks_ok (envs (v_calls c)) (w_ks (v_world c)) \<and> wsize (v_world c) + n \<le> 2 ^ 30"

lemma more_fields:
  assumes "out_client.more (c' :: served) = out_client.more c"
  shows "c_querybuf c' = c_querybuf c" "c_argv c' = c_argv c" "c_slave c' = c_slave c" "c_blocked c' = c_blocked c" "v_failed c' = v_failed c" "v_calls c' = v_calls c"
  using assms by (cases c; cases c'; simp)+

lemma upd_out [simp]: "out_ok (c\<lparr>v_world := w\<rparr>) = out_ok c" "out_ok (c\<lparr>v_calls := n\<rparr>) = out_ok c" "queued (c\<lparr>v_world := w\<rparr>) = queued c"
  "queued (c\<lparr>v_calls := n\<rparr>) = queued c" "writes b (c\<lparr>v_world := w\<rparr>) = writes b c" "writes b (c\<lparr>v_calls := n\<rparr>) = writes b c" for c :: served
  by (auto simp: out_ok_def queued_def writes_def prepareClientToWrite_def)

lemma serve_once:
  assumes "served_ok envs g me (Suc n) c" "out_ok c" "key_call (c_argv c)" "\<not> k_close_after_reply c"
  shows "\<exists>c'. serve envs g me c = (c', True) \<and> served_ok envs g me n c' \<and> seen envs c' = seen_step envs (seen envs c) (c_argv c) \<and>
    c_querybuf c' = c_querybuf c \<and> out_ok c' \<and> c_slave c' = c_slave c \<and> c_blocked c' = c_blocked c \<and> \<not> k_close_after_reply c'"
proof -
  let ?m = "Suc (v_calls c)" and ?w = "v_world c"
  let ?e = "envs ?m"
  have inv: "envs_ok envs" "open_gate g" "\<not> v_failed c" "writes True c" "\<not> m_multi (w_sess ?w me)" "watch_ok ?w" "ks_ok (envs (v_calls c)) (w_ks ?w)" "wsize ?w < 2 ^ 30"
    "wsize ?w + Suc n \<le> 2 ^ 30" using assms(1) by (simp_all add: served_ok_def)
  have env: "e_seed ?e = e_seed (envs (v_calls c))" "sint (e_now (envs (v_calls c))) \<le> sint (e_now ?e)" "master ?e" "e_ae_ok ?e"
    using inv(1) unfolding envs_ok_def by metis+
  have kc: "supported (c_argv c)" "list_all (\<lambda>a. length a < 2 ^ 32) (c_argv c)" "\<not> is_quit (hd (c_argv c))" "\<not> named transaction_names (hd (c_argv c))" using assms(3) by (simp_all add: key_call_def)
  obtain argv where argv: "make_args ?e (c_argv c) = Some argv" "list_all plain argv" "map obj_text argv = c_argv c" using make_args_ok[OF kc(2)] by blast
  have ks: "ks_ok ?e (w_ks ?w)" using ks_ok_seed[OF env(1)] inv(7) by simp
  note kc' = kc[folded argv(3)]
  define spec where "spec = spec_command (e_now ?e) (c_argv c) (wview ?e ?w)"
  obtain f w' argv' where f: "replies (e_junk ?e) (e_clk ?e) (e_ae_ok ?e) f (snd spec)" "evolves ?e ?w w'" "wview ?e w' = fst spec" "wsize w' \<le> Suc (wsize ?w)"
    "\<And>c :: served. processCommand g ?e ?w me c argv = do { c \<leftarrow> f c; Some (w', c, argv', True) }"
    using process_keys[OF inv(2) env(3) argv(2) kc'(1,3,4) inv(5,6) ks inv(8)] unfolding argv(3) spec_def by blast
  obtain c1 where c1: "f c = Some c1" "out_ok c1" "writes True c1" "queued c1 = queued c @ snd spec"
    using replies_out[OF f(1) assms(2)] inv(4) env(4) by auto
  note fields = more_fields[OF replies_more[OF f(1) c1(1)]]
  let ?c = "c1\<lparr>v_world := w', v_calls := ?m\<rparr>"
  have "serve envs g me c = (?c, True)" by (simp add: serve_def argv(1) f(5) c1(1))
  moreover have "served_ok envs g me n ?c"
    using inv c1 fields f(2,4) evolves_watch_ok[OF f(2) inv(6)] by (simp add: served_ok_def evolves_def)
  moreover have "seen envs ?c = seen_step envs (seen envs c) (c_argv c)"
    using c1(4) f(3) view_later[OF env(2), of "ks_db (w_ks ?w)"] by (simp add: seen_def seen_step_def spec_def split_beta Let_def)
  ultimately show ?thesis using c1 fields by (intro exI[of _ ?c]) (simp add: writes_def)
qed

lemma blank_seen: "seen envs (blank c) = seen envs c" "served_ok envs g me n (blank c) = served_ok envs g me n c"
  by (auto simp: seen_def served_ok_def blank_def queued_def writes_def prepareClientToWrite_def)

interpretation served: dispatcher "serve envs g me" "seen envs" "seen_step envs" "served_ok envs g me" key_call for envs g me
  by unfold_locales (rule blank_seen serve_once; assumption?)+

text \<open>The requests with the times at which they run.\<close>

definition timed :: "(nat \<Rightarrow> server_env) \<Rightarrow> nat \<Rightarrow> bytes list list \<Rightarrow> (64 word \<times> bytes list) list" where
  "timed envs n cmds = map (\<lambda>(i, a). (e_now (envs i), a)) (enumerate (Suc n) cmds)"

lemma seen_run: "foldl (seen_step envs) (m, out, n) cmds =
    (fst (run_spec m (timed envs n cmds)), out @ snd (run_spec m (timed envs n cmds)), n + length cmds)"
  by (induction cmds arbitrary: m out n) (simp_all add: seen_step_def timed_def split_beta Let_def)

section \<open>Properties\<close>

definition sample_envs :: "nat \<Rightarrow> server_env" where
  "sample_envs n = sample_env ([0, 5, 6, 100] ! min n 3)"

definition sample_served :: served where
  "sample_served = \<lparr>k_fd = 5, k_lua = False, k_master = False, k_master_force = False, k_close_after_reply = False, k_close_asap = False,
     k_replstate = 0, k_put_online_on_ack = False, k_handler = False, k_buf = replicate REDIS_REPLY_CHUNK_BYTES 0, k_bufpos = 0,
     k_reply = [], k_sentlen = 0, c_querybuf = concat (map (request \<circ> snd) sample_calls), c_argv = [], c_cap = 0, c_reqtype = REQ_UNKNOWN, c_multibulklen = 0,
     c_bulklen = - 1, c_slave = False, c_blocked = False, c_repl_ack_time = 0, v_world = sample_world, v_calls = 0, v_failed = False\<rparr>"

text \<open>C4. From bytes to bytes.  A client outside a transaction has pipelined any number of requests in its query buffer, for
  modelled commands on keys (\<open>PERSIST\<close> excepted) and for names that no command of the server has (\<open>QUIT\<close> excepted), wrong numbers of
  arguments included.  Then \<open>processInputBuffer\<close> returns, no
  command fails, the query buffer is empty, the client is ready for the next request, and the bytes queued for it are
  exactly the replies of the abstract map to the requests in their order, at the times at which they ran.\<close>

theorem served_bytes:
  assumes "served_ok envs g me (length cmds) c" "ready paused c" "list_all acceptable cmds" "list_all key_call cmds" "c_querybuf c = concat (map request cmds)"
  shows "\<exists>c'. processInputBuffer ae_ok unixtime (serve envs g me) paused c = Some c' \<and> \<not> v_failed c' \<and> c_querybuf c' = [] \<and> ready paused c' \<and>
    queued c' = queued c @ snd (run_spec (wview (envs (v_calls c)) (v_world c)) (timed envs (v_calls c) cmds)) \<and>
    wview (envs (v_calls c')) (v_world c') = fst (run_spec (wview (envs (v_calls c)) (v_world c)) (timed envs (v_calls c) cmds))"
proof -
  obtain c' where c': "processInputBuffer ae_ok unixtime (serve envs g me) paused c = Some c'" "ready paused c'" "c_querybuf c' = []" "served_ok envs g me 0 c'"
    "seen envs c' = foldl (seen_step envs) (seen envs c) cmds" using served.pipeline[OF assms(3,4,2,1,5)] by blast
  then show ?thesis by (intro exI[of _ c']) (auto simp: served_ok_def seen_run seen_def)
qed

theorem served_bytes_witness:
  "\<exists>c'. processInputBuffer True 0 (serve sample_envs sample_gate 2) False sample_served = Some c' \<and> c_querybuf c' = [] \<and> queued c' = ok_text @ int_reply 6 @ null_bulk"
proof -
  let ?cmds = "map snd sample_calls"
  have out: "out_ok sample_served" "writes True sample_served" "queued sample_served = []"
    by (simp_all add: sample_served_def out_ok_def writes_def prepareClientToWrite_def queued_def REDIS_REPL_NONE_def)
  have "envs_ok sample_envs" by (auto simp: envs_ok_def sample_envs_def min_def nth_Cons split: nat.splits)
  then have "served_ok sample_envs sample_gate 2 (length ?cmds) sample_served"
    using out(2) sample_world_ok[OF no_keys_ok(1)] by (simp add: served_ok_def world_ok_def sample_world_keys)
      (simp add: sample_served_def open_gate_def sample_gate_def sample_world_def no_session_def no_keys_ok sample_calls_def)
  moreover have "ready False sample_served" using out(1) by (simp add: ready_def) (simp add: sample_served_def)
  moreover have "list_all acceptable ?cmds" by (simp add: sample_calls_def acceptable_def bytes_of_string_def)
  moreover have "list_all key_call ?cmds"
    by (simp add: sample_calls_def key_call_def supported_samples) (simp add: is_quit_def named_def transaction_names_def bytes_of_string_def tolower_def)
  moreover have "c_querybuf sample_served = concat (map request ?cmds)" by (simp add: sample_served_def comp_def)
  moreover have "timed sample_envs (v_calls sample_served) ?cmds = sample_calls"
    by (simp add: timed_def sample_served_def sample_calls_def sample_envs_def)
  moreover have "wview (sample_envs (v_calls sample_served)) (v_world sample_served) = Map.empty" by (simp add: sample_served_def sample_world_def no_keys_ok)
  ultimately show ?thesis using served_bytes[of sample_envs sample_gate 2 ?cmds sample_served False True 0] out(3) by (auto simp: sample_replies)
qed

end
