(* ===== verification/Redis_Replication.thy ===== *)
theory Redis_Replication
  imports Redis_Aof Redis_Db
begin

text \<open>
  \<open>replication.c\<close>, the master's side of the replication stream: the backlog, the feeding of the slaves, and partial
  resynchronisation.

  The state is the backlog (a circular buffer with its size, fill, write index and the offset of its oldest byte), the
  replication offset, the database selected last in the stream, and the output side of the attached slaves.  Indexes
  into the buffer are natural numbers, offsets are unbounded integers (the source counts bytes in 64 bits).  The result
  of writing the acknowledgement to the slave's socket is an argument.  Full synchronisation (a child process and a file
  transfer), the slave's side, heartbeats and the counting of good slaves are not modelled.

  The main results: every attached slave is sent the same bytes as the backlog records; and a slave that comes back with
  an offset still covered by the backlog is sent exactly the bytes it has not seen.
\<close>

section \<open>The code\<close>

definition REDIS_REPL_BACKLOG_MIN_SIZE :: int where "REDIS_REPL_BACKLOG_MIN_SIZE = 1024 * 16"
definition REDIS_REPL_WAIT_BGSAVE_START :: nat where "REDIS_REPL_WAIT_BGSAVE_START = 14"
definition REDIS_LONGSTR_SIZE :: nat where "REDIS_LONGSTR_SIZE = 21"

record repl =
  rp_backlog :: "bytes option"
  rp_size :: nat
  rp_histlen :: nat
  rp_idx :: nat
  rp_off :: int
  rp_offset :: int
  rp_seldb :: int
  rp_slaves :: "out_client list"

definition createReplicationBacklog :: "(nat \<Rightarrow> byte) \<Rightarrow> repl \<Rightarrow> repl option" where
  "createReplicationBacklog junk s =
     (if rp_backlog s \<noteq> None then None
      else
        let s = s\<lparr>rp_backlog := Some (map junk [0..<rp_size s]), rp_histlen := 0, rp_idx := 0, rp_offset := rp_offset s + 1\<rparr>
        in Some (s\<lparr>rp_off := rp_offset s + 1\<rparr>))"

definition resizeReplicationBacklog :: "(nat \<Rightarrow> byte) \<Rightarrow> repl \<Rightarrow> int \<Rightarrow> repl" where
  "resizeReplicationBacklog junk s newsize = (
     let newsize = (if newsize < REDIS_REPL_BACKLOG_MIN_SIZE then REDIS_REPL_BACKLOG_MIN_SIZE else newsize)
     in if int (rp_size s) = newsize then s
        else
          let s = s\<lparr>rp_size := nat newsize\<rparr>
          in if rp_backlog s = None then s
             else s\<lparr>rp_backlog := Some (map junk [0..<rp_size s]), rp_histlen := 0, rp_idx := 0, rp_off := rp_offset s + 1\<rparr>)"

definition freeReplicationBacklog :: "repl \<Rightarrow> repl option" where
  "freeReplicationBacklog s = (if rp_slaves s \<noteq> [] then None else Some (s\<lparr>rp_backlog := None\<rparr>))"

text \<open>The loop of \<open>feedReplicationBacklog\<close> on the buffer, the write index and the fill.\<close>

partial_function (option) feed_loop :: "nat \<Rightarrow> bytes \<Rightarrow> nat \<Rightarrow> nat \<Rightarrow> bytes \<Rightarrow> (bytes \<times> nat \<times> nat) option" where
  "feed_loop sz buf idx hist p =
     (if p = [] then Some (buf, idx, hist)
      else do {
        let thislen = min (sz - idx) (length p);
        buf \<leftarrow> mem_write buf idx (take thislen p);
        let idx = idx + thislen;
        feed_loop sz buf (if idx = sz then 0 else idx) (hist + thislen) (drop thislen p)
      })"

declare feed_loop.simps [code]

definition feedReplicationBacklog :: "repl \<Rightarrow> bytes \<Rightarrow> repl option" where
  "feedReplicationBacklog s p = do {
     buf \<leftarrow> rp_backlog s;
     let s = s\<lparr>rp_offset := rp_offset s + int (length p)\<rparr>;
     (buf, idx, hist) \<leftarrow> feed_loop (rp_size s) buf (rp_idx s) (rp_histlen s) p;
     let hist = (if hist > rp_size s then rp_size s else hist);
     Some (s\<lparr>rp_backlog := Some buf, rp_idx := idx, rp_histlen := hist, rp_off := rp_offset s - int hist + 1\<rparr>)
   }"

definition feedReplicationBacklogWithObject :: "(nat \<Rightarrow> byte) \<Rightarrow> repl \<Rightarrow> robj \<Rightarrow> repl option" where
  "feedReplicationBacklogWithObject junk s o1 =
     (if o_encoding o1 = ENC_INT
      then case o_ptr o1 of
             PLong v \<Rightarrow> do { (l, b) \<leftarrow> ll2string (map junk [0..<REDIS_LONGSTR_SIZE]) REDIS_LONGSTR_SIZE v; feedReplicationBacklog s (take l b) }
           | _ \<Rightarrow> None
      else case o_ptr o1 of
             PSds t \<Rightarrow> do { p \<leftarrow> mem_read (s_buf t) 0 (sdslen t); feedReplicationBacklog s p }
           | _ \<Rightarrow> None)"

text \<open>A header in the buffer \<open>aux\<close>: the prefix, a number and the line end.\<close>

definition aux_header :: "(nat \<Rightarrow> byte) \<Rightarrow> byte \<Rightarrow> 64 word \<Rightarrow> bytes option" where
  "aux_header junk prefix v = do {
     (l, b) \<leftarrow> ll2string (map junk [0..<REDIS_LONGSTR_SIZE + 2]) (REDIS_LONGSTR_SIZE + 2) v;
     Some ([prefix] @ take l b @ [13, 10])
   }"

fun feed_args :: "(nat \<Rightarrow> byte) \<Rightarrow> repl \<Rightarrow> robj list \<Rightarrow> repl option" where
  "feed_args junk s [] = Some s"
| "feed_args junk s (a # as) = do {
     objlen \<leftarrow> stringObjectLen junk a;
     aux \<leftarrow> aux_header junk 36 (of_nat objlen);
     s \<leftarrow> feedReplicationBacklog s aux;
     s \<leftarrow> feedReplicationBacklogWithObject junk s a;
     s \<leftarrow> feedReplicationBacklog s [13, 10];
     feed_args junk s as
   }"

text \<open>The loops over the slaves: those that wait for the dump to start are skipped.\<close>

fun each_slave :: "(out_client \<Rightarrow> out_client option) \<Rightarrow> out_client list \<Rightarrow> out_client list option" where
  "each_slave f [] = Some []"
| "each_slave f (c # cs) = do {
     c \<leftarrow> (if k_replstate c = REDIS_REPL_WAIT_BGSAVE_START then Some c else f c);
     cs \<leftarrow> each_slave f cs;
     Some (c # cs)
   }"

fun bulk_args :: "(nat \<Rightarrow> byte) \<Rightarrow> nat \<Rightarrow> bool \<Rightarrow> out_client \<Rightarrow> robj list \<Rightarrow> out_client option" where
  "bulk_args junk clk ae_ok c [] = Some c"
| "bulk_args junk clk ae_ok c (a # as) = do { c \<leftarrow> addReplyBulk junk clk ae_ok c a; bulk_args junk clk ae_ok c as }"

definition replicationFeedSlaves :: "(nat \<Rightarrow> byte) \<Rightarrow> nat \<Rightarrow> bool \<Rightarrow> repl \<Rightarrow> int \<Rightarrow> robj list \<Rightarrow> repl option" where
  "replicationFeedSlaves junk clk ae_ok s dictid argv =
     (if rp_backlog s = None \<and> rp_slaves s = [] then Some s
      else if rp_slaves s \<noteq> [] \<and> rp_backlog s = None then None
      else do {
        s \<leftarrow> (if rp_seldb s \<noteq> dictid then do {
                let selectcmd = shared_string (select_text dictid);
                s \<leftarrow> (if rp_backlog s \<noteq> None then feedReplicationBacklogWithObject junk s selectcmd else Some s);
                cs \<leftarrow> each_slave (\<lambda>c. addReply junk clk ae_ok c selectcmd) (rp_slaves s);
                Some (s\<lparr>rp_slaves := cs\<rparr>)
              } else Some s);
        let s = s\<lparr>rp_seldb := dictid\<rparr>;
        s \<leftarrow> (if rp_backlog s \<noteq> None then do {
                aux \<leftarrow> aux_header junk 42 (of_nat (length argv));
                s \<leftarrow> feedReplicationBacklog s aux;
                feed_args junk s argv
              } else Some s);
        cs \<leftarrow> each_slave (\<lambda>c. do { c \<leftarrow> addReplyMultiBulkLen junk clk ae_ok c (of_nat (length argv)); bulk_args junk clk ae_ok c argv }) (rp_slaves s);
        Some (s\<lparr>rp_slaves := cs\<rparr>)
      })"

text \<open>The loop that sends the backlog: up to the end of the buffer, then from its start.  A negative index or length
  would read outside the buffer.\<close>

partial_function (option) backlog_loop :: "bool \<Rightarrow> bytes \<Rightarrow> int \<Rightarrow> out_client \<Rightarrow> int \<Rightarrow> int \<Rightarrow> out_client option" where
  "backlog_loop ae_ok buf sz c j len =
     (if len = 0 then Some c
      else do {
        let thislen = (if sz - j < len then sz - j else len);
        (if j < 0 \<or> thislen < 0 then None
         else do {
           t \<leftarrow> mem_read buf (nat j) (nat thislen);
           c \<leftarrow> addReplySds ae_ok c t;
           backlog_loop ae_ok buf sz c 0 (len - thislen)
         })
      })"

declare backlog_loop.simps [code]

definition c_mod :: "int \<Rightarrow> int \<Rightarrow> int" where
  "c_mod a b = a - b * c_div a b"

definition addReplyReplicationBacklog :: "bool \<Rightarrow> repl \<Rightarrow> out_client \<Rightarrow> int \<Rightarrow> (out_client \<times> int) option" where
  "addReplyReplicationBacklog ae_ok s c offset =
     (if rp_histlen s = 0 then Some (c, 0)
      else do {
        buf \<leftarrow> rp_backlog s;
        let skip = offset - rp_off s;
        let j = c_mod (int (rp_idx s) + (int (rp_size s) - int (rp_histlen s))) (int (rp_size s));
        let j = c_mod (j + skip) (int (rp_size s));
        let len = int (rp_histlen s) - skip;
        c \<leftarrow> backlog_loop ae_ok buf (int (rp_size s)) c j len;
        Some (c, len)
      })"

definition getPsyncInitialOffset :: "repl \<Rightarrow> int" where
  "getPsyncInitialOffset s = (if rp_backlog s = None then rp_offset s + 1 else rp_offset s)"

text \<open>The client becomes a slave: it is appended to the list, and the same object is then fed.  The last component is
  \<open>False\<close> when a full resynchronisation is needed.\<close>

definition masterTryPartialResynchronization ::
  "server_env \<Rightarrow> bytes \<Rightarrow> bool \<Rightarrow> repl \<Rightarrow> out_client \<Rightarrow> robj list \<Rightarrow> (repl \<times> out_client \<times> bool) option" where
  "masterTryPartialResynchronization e runid wrote s c argv = do {
     master_runid \<leftarrow> arg_text argv 1;
     (if map tolower (takeWhile (\<lambda>b. b \<noteq> 0) master_runid) \<noteq> map tolower runid then Some (s, c, False)
      else do {
        (c, r) \<leftarrow> getLongLongFromObjectOrReply e c (arg argv 2) None;
        (case r of
           None \<Rightarrow> Some (s, c, False)
         | Some v \<Rightarrow>
             if rp_backlog s = None \<or> sint v < rp_off s \<or> sint v > rp_off s + int (rp_histlen s) then Some (s, c, False)
             else do {
               let c = c\<lparr>k_replstate := REDIS_REPL_ONLINE, k_put_online_on_ack := False\<rparr>;
               (if \<not> wrote then let c = freeClientAsync c in Some (s\<lparr>rp_slaves := rp_slaves s @ [c]\<rparr>, c, True)
                else do {
                  (c, psync_len) \<leftarrow> addReplyReplicationBacklog (e_ae_ok e) s c (sint v);
                  Some (s\<lparr>rp_slaves := rp_slaves s @ [c]\<rparr>, c, True)
                })
             })
      })
   }"

section \<open>The circular buffer\<close>

text \<open>The buffer after the bytes \<open>h\<close> have been written since it was empty: it holds the last of them, each at its
  position modulo the size.\<close>

definition ring :: "nat \<Rightarrow> bytes \<Rightarrow> bytes \<Rightarrow> bool" where
  "ring sz buf h \<longleftrightarrow> length buf = sz \<and> (\<forall>i. length h \<le> i + sz \<longrightarrow> i < length h \<longrightarrow> buf ! (i mod sz) = h ! i)"

lemma ring_write:
  assumes "ring sz buf h" "q \<noteq> []" "length h mod sz + length q \<le> sz"
  shows "\<exists>buf'. mem_write buf (length h mod sz) q = Some buf' \<and> ring sz buf' (h @ q)"
proof -
  let ?idx = "length h mod sz"
  have len: "length buf = sz" "0 < sz" using assms by (auto simp: ring_def)
  let ?b = "take ?idx buf @ q @ drop (?idx + length q) buf"
  have "?b ! (i mod sz) = (h @ q) ! i" if i: "length (h @ q) \<le> i + sz" "i < length (h @ q)" for i
  proof (cases "length h \<le> i")
    case True
    then obtain k where k: "i = length h + k" "k < length q" using i(2) by (auto simp: le_iff_add)
    have "i mod sz = (?idx + k) mod sz" by (simp add: k(1) mod_add_left_eq)
    also have "\<dots> = ?idx + k" using k(2) assms(3) by (intro mod_less) simp
    finally have "i mod sz = ?idx + k" .
    moreover have "length (take ?idx buf) = ?idx" using len mod_less_divisor[OF len(2), of "length h"] by simp
    ultimately show ?thesis using k by (simp add: nth_append)
  next
    case False
    have "\<not> (?idx \<le> i mod sz \<and> i mod sz < ?idx + length q)"
    proof
      assume a: "?idx \<le> i mod sz \<and> i mod sz < ?idx + length q"
      define j where "j = i mod sz - ?idx"
      have j: "i mod sz = ?idx + j" "j < length q" using a by (auto simp: j_def)
      have "(length h + j) mod sz = (?idx + j) mod sz" by (simp add: mod_add_left_eq)
      also have "\<dots> = i mod sz" using j(1) len(2) by (metis mod_less mod_less_divisor)
      finally have "sz dvd length h + j - i" using mod_eq_dvd_iff_nat[of i "length h + j" sz] False by simp
      moreover have "0 < length h + j - i" "length h + j - i < sz" using False i(1) j(2) by auto
      ultimately show False using nat_dvd_not_less by blast
    qed
    moreover have "buf ! (i mod sz) = h ! i" using assms(1) i False by (simp add: ring_def)
    moreover have "i mod sz < sz" using len(2) by simp
    ultimately show ?thesis using False len(1) assms(3) by (auto simp: nth_append not_less nth_drop min_def)
  qed
  moreover have "length ?b = sz" using len assms(3) by simp
  ultimately show ?thesis using len assms(3) by (intro exI[of _ ?b]) (simp add: mem_write_def ring_def)
qed

lemma feed_loop_ok:
  assumes "ring sz buf h" "0 < sz"
  shows "\<exists>buf'. feed_loop sz buf (length h mod sz) hist p = Some (buf', length (h @ p) mod sz, hist + length p) \<and> ring sz buf' (h @ p)"
  using assms
proof (induction "length p" arbitrary: buf h hist p rule: less_induct)
  case less
  show ?case
  proof (cases "p = []")
    case True
    then show ?thesis using less.prems by (subst feed_loop.simps) simp
  next
    case False
    let ?idx = "length h mod sz"
    let ?n = "min (sz - ?idx) (length p)"
    have n: "0 < ?n" "?idx + ?n \<le> sz" using False less.prems(2) by (auto simp: min_def)
    obtain b where b: "mem_write buf ?idx (take ?n p) = Some b" "ring sz b (h @ take ?n p)"
      using ring_write[OF less.prems(1), of "take ?n p"] False n by auto
    have idx: "(if ?idx + ?n = sz then 0 else ?idx + ?n) = length (h @ take ?n p) mod sz"
    proof -
      have "length (h @ take ?n p) mod sz = (?idx + ?n) mod sz" by (simp add: mod_add_left_eq)
      then show ?thesis using n(2) by (cases "?idx + ?n = sz") auto
    qed
    have lt: "length (drop ?n p) < length p" using n(1) False by simp
    obtain b' where "feed_loop sz b (length (h @ take ?n p) mod sz) (hist + ?n) (drop ?n p) =
        Some (b', length ((h @ take ?n p) @ drop ?n p) mod sz, hist + ?n + length (drop ?n p))" "ring sz b' ((h @ take ?n p) @ drop ?n p)"
      using less.hyps[OF lt b(2) less.prems(2)] by blast
    moreover have "(h @ take ?n p) @ drop ?n p = h @ p" "hist + ?n + length (drop ?n p) = hist + length p" by auto
    ultimately show ?thesis using False b(1) idx by (subst feed_loop.simps) (simp add: Let_def)
  qed
qed

text \<open>The backlog after the stream \<open>h\<close>, whose first byte has offset \<open>base\<close>.\<close>

definition backlog_ok :: "int \<Rightarrow> bytes \<Rightarrow> repl \<Rightarrow> bool" where
  "backlog_ok base h s \<longleftrightarrow> (\<exists>buf. rp_backlog s = Some buf \<and> ring (rp_size s) buf h) \<and> 0 < rp_size s \<and> rp_idx s = length h mod rp_size s \<and>
     rp_histlen s = min (length h) (rp_size s) \<and> rp_offset s = base + int (length h) - 1 \<and> rp_off s = base + int (length h) - int (rp_histlen s)"

definition backlog_same :: "repl \<Rightarrow> repl \<Rightarrow> bool" where
  "backlog_same s s' \<longleftrightarrow> rp_seldb s' = rp_seldb s \<and> rp_slaves s' = rp_slaves s \<and> rp_size s' = rp_size s"

lemma feed_backlog_ok:
  assumes "backlog_ok base h s"
  shows "\<exists>s'. feedReplicationBacklog s p = Some s' \<and> backlog_ok base (h @ p) s' \<and> backlog_same s s'"
proof -
  obtain buf where buf: "rp_backlog s = Some buf" "ring (rp_size s) buf h" and ok: "0 < rp_size s" "rp_idx s = length h mod rp_size s"
    "rp_histlen s = min (length h) (rp_size s)" "rp_offset s = base + int (length h) - 1" using assms unfolding backlog_ok_def by blast
  obtain b where b: "feed_loop (rp_size s) buf (length h mod rp_size s) (rp_histlen s) p = Some (b, length (h @ p) mod rp_size s, rp_histlen s + length p)" "ring (rp_size s) b (h @ p)"
    using feed_loop_ok[OF buf(2) ok(1)] by blast
  show ?thesis using b ok by (simp add: feedReplicationBacklog_def buf(1) backlog_ok_def backlog_same_def Let_def min_def)
qed

section \<open>Reading the backlog\<close>

lemma sds_put:
  assumes "out_ok c"
  shows "\<exists>c'. addReplySds ae_ok c t = Some c' \<and> out_ok c' \<and> writes ae_ok c' = writes ae_ok c \<and> queued c' = queued c @ (if writes ae_ok c then t else [])"
proof -
  obtain c1 b where p: "prepareClientToWrite ae_ok c = (c1, b)" by fastforce
  let ?f = "\<lambda>c. do { (c, done) \<leftarrow> addReplyToBuffer c t; (if \<not> done then addReplySdsToList c t else Some c) }"
  have "addReplySds ae_ok c t = (if \<not> b then Some c1 else ?f c1)" by (cases "addReplyToBuffer c1 t") (auto simp: addReplySds_def p)
  moreover have "\<exists>c'. (if \<not> b then Some c1 else ?f c1) = Some c' \<and> out_ok c' \<and> writes ae_ok c' = writes ae_ok c \<and>
    queued c' = queued c @ (if writes ae_ok c then t else [])"
  proof (rule put_prepared[OF assms p])
    fix d :: "'a out_client_scheme"
    assume "out_ok d" "\<not> k_close_after_reply d"
    then show "\<exists>c'. ?f d = Some c' \<and> out_ok c' \<and> queued c' = queued d @ t \<and> ctl c' = ctl d \<and> (idle c' \<longrightarrow> idle d)"
      unfolding addReplySdsToList_def by (intro put_text) simp_all
  next
    fix d :: "'a out_client_scheme"
    assume "k_close_after_reply d"
    then show "?f d = Some d" by (simp add: addReplyToBuffer_def addReplySdsToList_def add_to_list_def)
  qed
  ultimately show ?thesis by simp
qed

lemma ring_read:
  assumes "ring sz buf h" "length h \<le> q + sz" "q + n \<le> length h" "q mod sz + n \<le> sz"
  shows "mem_read buf (q mod sz) n = Some (take n (drop q h))"
proof -
  have "take n (drop (q mod sz) buf) = take n (drop q h)"
  proof (rule nth_equalityI)
    show "length (take n (drop (q mod sz) buf)) = length (take n (drop q h))" using assms by (simp add: ring_def)
  next
    fix k
    assume "k < length (take n (drop (q mod sz) buf))"
    then have k: "k < n" by simp
    have "(q + k) mod sz = (q mod sz + k) mod sz" by (simp add: mod_add_left_eq)
    also have "\<dots> = q mod sz + k" using k assms(4) by (intro mod_less) simp
    finally have p: "(q + k) mod sz = q mod sz + k" .
    have "length h \<le> (q + k) + sz" "q + k < length h" using assms(2,3) k by simp_all
    then have "buf ! ((q + k) mod sz) = h ! (q + k)" using assms(1) unfolding ring_def by blast
    then have "buf ! (q mod sz + k) = h ! (q + k)" unfolding p .
    then show "take n (drop (q mod sz) buf) ! k = take n (drop q h) ! k" using k assms by (simp add: ring_def)
  qed
  then show ?thesis using assms by (simp add: mem_read_def ring_def)
qed

lemma backlog_loop_ok:
  assumes "ring sz buf h" "0 < sz" "length h \<le> q + sz" "q \<le> length h" "out_ok c"
  shows "\<exists>c'. backlog_loop ae_ok buf (int sz) c (int (q mod sz)) (int (length h - q)) = Some c' \<and> out_ok c' \<and> writes ae_ok c' = writes ae_ok c \<and>
    queued c' = queued c @ (if writes ae_ok c then drop q h else [])"
  using assms
proof (induction "length h - q" arbitrary: q c rule: less_induct)
  case less
  show ?case
  proof (cases "q = length h")
    case True
    then show ?thesis using less.prems by (subst backlog_loop.simps) simp
  next
    case False
    define n where "n = min (sz - q mod sz) (length h - q)"
    have m: "q mod sz < sz" using less.prems(2) by simp
    have n: "0 < n" "q + n \<le> length h" "q mod sz + n \<le> sz" using False m less.prems(4) by (auto simp: n_def min_def)
    have r: "mem_read buf (q mod sz) n = Some (take n (drop q h))" by (rule ring_read[OF less.prems(1,3) n(2,3)])
    obtain c1 where c1: "addReplySds ae_ok c (take n (drop q h)) = Some c1" "out_ok c1" "writes ae_ok c1 = writes ae_ok c"
      "queued c1 = queued c @ (if writes ae_ok c then take n (drop q h) else [])" using sds_put[OF less.prems(5)] by blast
    have tl: "(if int sz - int (q mod sz) < int (length h - q) then int sz - int (q mod sz) else int (length h - q)) = int n"
      using m by (auto simp: n_def min_def of_nat_diff)
    have ne: "int (length h - q) \<noteq> 0" and rest: "int (length h - q) - int n = int (length h - (q + n))" using False less.prems(4) n(2) by (simp_all add: of_nat_diff)
    have step: "backlog_loop ae_ok buf (int sz) c (int (q mod sz)) (int (length h - q)) = backlog_loop ae_ok buf (int sz) c1 0 (int (length h - (q + n)))"
      by (subst backlog_loop.simps) (simp only: Let_def tl if_not_P[OF ne] rest, simp add: r c1(1))
    have d: "drop q h = take n (drop q h) @ drop (q + n) h" by (metis append_take_drop_id drop_drop add.commute)
    show ?thesis
    proof (cases "q + n = length h")
      case True
      then show ?thesis using c1 d unfolding step by (subst backlog_loop.simps) auto
    next
      case False
      then have "n = sz - q mod sz" using n(2) by (auto simp: n_def min_def split: if_splits)
      then have "q + n = sz * (q div sz) + sz" using m by (metis add.assoc div_mult_mod_eq le_add_diff_inverse less_imp_le mult.commute)
      then have "(q + n) mod sz = 0" by simp
      moreover have "\<exists>c'. backlog_loop ae_ok buf (int sz) c1 (int ((q + n) mod sz)) (int (length h - (q + n))) = Some c' \<and> out_ok c' \<and> writes ae_ok c' = writes ae_ok c1 \<and>
          queued c' = queued c1 @ (if writes ae_ok c1 then drop (q + n) h else [])"
        by (rule less.hyps) (use n less.prems(1-4) c1(2) False in auto)
      ultimately show ?thesis unfolding step using c1 d by auto
    qed
  qed
qed

lemma c_mod_nat: "c_mod (int a) (int b) = int (a mod b)"
  by (simp add: c_mod_def c_div_def minus_mult_div_eq_mod zmod_int)

lemma backlog_reply:
  assumes "backlog_ok base h s" "rp_off s \<le> offset" "offset \<le> rp_off s + int (rp_histlen s)" "out_ok c"
  shows "\<exists>c' n. addReplyReplicationBacklog ae_ok s c offset = Some (c', n) \<and> out_ok c' \<and>
    queued c' = queued c @ (if writes ae_ok c then drop (nat (offset - base)) h else [])"
proof -
  obtain buf where buf: "rp_backlog s = Some buf" "ring (rp_size s) buf h" and ok: "0 < rp_size s" "rp_idx s = length h mod rp_size s"
    "rp_histlen s = min (length h) (rp_size s)" "rp_off s = base + int (length h) - int (rp_histlen s)" using assms(1) unfolding backlog_ok_def by blast
  define q where "q = nat (offset - base)"
  have q: "offset = base + int q" "q \<le> length h" "length h \<le> q + rp_histlen s" using assms(2,3) ok(3,4) by (auto simp: q_def)
  show ?thesis
  proof (cases "rp_histlen s = 0")
    case True
    then have "h = []" using ok(1,3) by (simp add: min_def split: if_splits)
    then show ?thesis using True assms(4) by (simp add: addReplyReplicationBacklog_def)
  next
    case False
    let ?sz = "rp_size s" and ?hl = "rp_histlen s"
    have hl: "?hl \<le> ?sz" "?hl \<le> length h" using ok(3) by auto
    have i: "int (length h mod ?sz) + (int ?sz - int ?hl) = int (length h mod ?sz + (?sz - ?hl))" using hl by (simp add: of_nat_diff)
    have j0: "c_mod (int (rp_idx s) + (int ?sz - int ?hl)) (int ?sz) = int ((length h - ?hl) mod ?sz)"
    proof -
      have "(length h mod ?sz + (?sz - ?hl)) mod ?sz = (length h + (?sz - ?hl)) mod ?sz" by (simp add: mod_add_left_eq)
      also have "length h + (?sz - ?hl) = (length h - ?hl) + ?sz" using hl by simp
      finally have "(length h mod ?sz + (?sz - ?hl)) mod ?sz = (length h - ?hl) mod ?sz" by simp
      then show ?thesis unfolding ok(2) i c_mod_nat by simp
    qed
    have sk: "offset - rp_off s = int (q - (length h - ?hl))" using q ok(4) hl by (simp add: of_nat_diff)
    have "c_mod (int ((length h - ?hl) mod ?sz) + (offset - rp_off s)) (int ?sz) = int (((length h - ?hl) mod ?sz + (q - (length h - ?hl))) mod ?sz)"
      unfolding sk of_nat_add[symmetric] c_mod_nat ..
    also have "((length h - ?hl) mod ?sz + (q - (length h - ?hl))) mod ?sz = (length h - ?hl + (q - (length h - ?hl))) mod ?sz" by (rule mod_add_left_eq)
    also have "length h - ?hl + (q - (length h - ?hl)) = q" using q(3) by simp
    finally have j: "c_mod (int ((length h - ?hl) mod ?sz) + (offset - rp_off s)) (int ?sz) = int (q mod ?sz)" .
    have len: "int ?hl - (offset - rp_off s) = int (length h - q)" using q ok(4) by (simp add: of_nat_diff)
    obtain c' where "backlog_loop ae_ok buf (int ?sz) c (int (q mod ?sz)) (int (length h - q)) = Some c'" "out_ok c'" "queued c' = queued c @ (if writes ae_ok c then drop q h else [])"
      using backlog_loop_ok[OF buf(2) ok(1) _ q(2) assms(4)] q(3) hl by auto
    then show ?thesis using False by (simp add: addReplyReplicationBacklog_def buf(1) j0 j len q_def[symmetric] Let_def)
  qed
qed

section \<open>Feeding the slaves\<close>

lemma aux_header_ok: "aux_header junk p v = Some ([p] @ int_repr (sint v) @ [13, 10])"
  using length_int_repr_ll[of v] by (simp add: aux_header_def REDIS_LONGSTR_SIZE_def ll2string_eq Let_def)

lemma feed_object_ok:
  assumes "backlog_ok base h s" "obj_ok o1"
  shows "\<exists>s'. feedReplicationBacklogWithObject junk s o1 = Some s' \<and> backlog_ok base (h @ obj_text o1) s' \<and> backlog_same s s'"
  using assms(2)
proof (cases rule: obj_ok_cases)
  case (sds t)
  have "mem_read (s_buf t) 0 (sdslen t) = Some (obj_text o1)" using sds sds_bytes[of t] by simp
  then show ?thesis using sds feed_backlog_ok[OF assms(1)] by (simp add: feedReplicationBacklogWithObject_def)
next
  case (int v)
  then show ?thesis using length_int_repr_ll[of v] feed_backlog_ok[OF assms(1)]
    by (simp add: feedReplicationBacklogWithObject_def REDIS_LONGSTR_SIZE_def ll2string_eq Let_def)
qed

lemma same_trans: "backlog_same s s1 \<Longrightarrow> backlog_same s1 s2 \<Longrightarrow> backlog_same s s2"
  by (simp add: backlog_same_def)

lemma feed_args_ok:
  assumes "backlog_ok base h s" "list_all obj_ok argv" "list_all (\<lambda>a. length (obj_text a) < 2 ^ 63) argv"
  shows "\<exists>s'. feed_args junk s argv = Some s' \<and> backlog_ok base (h @ concat (map (\<lambda>a. bulk (obj_text a)) argv)) s' \<and> backlog_same s s'"
  using assms
proof (induction argv arbitrary: h s)
  case (Cons a argv)
  have a: "obj_ok a" "length (obj_text a) < 2 ^ 63" using Cons.prems by auto
  let ?aux = "[36] @ int_repr (sint (of_nat (length (obj_text a)) :: 64 word)) @ [13, 10]"
  obtain s1 where s1: "feedReplicationBacklog s ?aux = Some s1" "backlog_ok base (h @ ?aux) s1" "backlog_same s s1" using feed_backlog_ok[OF Cons.prems(1)] by blast
  obtain s2 where s2: "feedReplicationBacklogWithObject junk s1 a = Some s2" "backlog_ok base ((h @ ?aux) @ obj_text a) s2" "backlog_same s1 s2" using feed_object_ok[OF s1(2) a(1)] by blast
  obtain s3 where s3: "feedReplicationBacklog s2 [13, 10] = Some s3" "backlog_ok base (((h @ ?aux) @ obj_text a) @ [13, 10]) s3" "backlog_same s2 s3" using feed_backlog_ok[OF s2(2)] by blast
  have "((h @ ?aux) @ obj_text a) @ [13, 10] = h @ bulk (obj_text a)" using sint_of_length[OF a(2)] by (simp add: bulk_def bulk_header_def)
  then have "backlog_ok base (h @ bulk (obj_text a)) s3" using s3(2) by simp
  then obtain s4 where s4: "feed_args junk s3 argv = Some s4" "backlog_ok base ((h @ bulk (obj_text a)) @ concat (map (\<lambda>a. bulk (obj_text a)) argv)) s4" "backlog_same s3 s4"
    using Cons.IH[of "h @ bulk (obj_text a)" s3] Cons.prems by auto
  have "backlog_same s s4" using same_trans[OF same_trans[OF same_trans[OF s1(3) s2(3)] s3(3)] s4(3)] .
  then show ?case using s4(1,2) s1(1) s2(1) s3(1) by (intro exI[of _ s4]) (simp add: stringObjectLen_ok[OF a(1)] aux_header_ok)
qed (simp add: backlog_same_def)

text \<open>Slaves that get a text.\<close>

definition gets :: "bool \<Rightarrow> bytes \<Rightarrow> out_client \<Rightarrow> out_client \<Rightarrow> bool" where
  "gets ae_ok t c c' \<longleftrightarrow> out_ok c' \<and> writes ae_ok c' = writes ae_ok c \<and> k_replstate c' = k_replstate c \<and>
     queued c' = queued c @ (if writes ae_ok c \<and> k_replstate c \<noteq> REDIS_REPL_WAIT_BGSAVE_START then t else [])"

lemma gets_trans: "gets ae_ok t c c1 \<Longrightarrow> gets ae_ok u c1 c2 \<Longrightarrow> gets ae_ok (t @ u) c c2"
  by (auto simp: gets_def)

lemma gets_all_trans: "list_all2 (gets ae_ok t) cs cs1 \<Longrightarrow> list_all2 (gets ae_ok u) cs1 cs2 \<Longrightarrow> list_all2 (gets ae_ok (t @ u)) cs cs2"
  by (rule list_all2_trans[of "gets ae_ok t" "gets ae_ok u"]) (auto intro: gets_trans)

lemma gets_out: "list_all2 (gets ae_ok t) cs cs' \<Longrightarrow> list_all out_ok cs'"
  by (induction rule: list_all2_induct) (auto simp: gets_def)

lemma each_slave_ok:
  assumes "replies junk clk ae_ok f t" "list_all out_ok cs"
  shows "\<exists>cs'. each_slave f cs = Some cs' \<and> list_all2 (gets ae_ok t) cs cs'"
  using assms(2)
proof (induction cs)
  case (Cons c cs)
  then obtain cs' where cs': "each_slave f cs = Some cs'" "list_all2 (gets ae_ok t) cs cs'" by auto
  obtain c' where c': "f c = Some c'" "out_ok c'" "writes ae_ok c' = writes ae_ok c" "queued c' = queued c @ (if writes ae_ok c then t else [])"
    using replies_out[OF assms(1)] Cons.prems by auto
  have "k_replstate c' = k_replstate c" by (rule replies_state[OF assms(1) c'(1)])
  then have "gets ae_ok t c (if k_replstate c = REDIS_REPL_WAIT_BGSAVE_START then c else c')" using c' Cons.prems by (simp add: gets_def)
  then show ?case using cs' c'(1) by auto
qed simp

lemma bulk_args_replies:
  assumes "list_all obj_ok argv" "list_all (\<lambda>a. length (obj_text a) < 2 ^ 63) argv"
  shows "replies junk clk ae_ok (\<lambda>c. bulk_args junk clk ae_ok c argv) (concat (map (\<lambda>a. bulk (obj_text a)) argv))"
  using assms
proof (induction argv)
  case Nil
  then show ?case by (auto intro: repliesI[of "[]"])
next
  case (Cons a argv)
  have "replies junk clk ae_ok (\<lambda>c. addReplyBulk junk clk ae_ok c a) (bulk (obj_text a))"
    using replies_bulk[of a junk clk ae_ok] Cons.prems by (simp add: bulk_def bulk_header_def)
  from replies_bind[OF this Cons.IH] show ?case using Cons.prems by simp
qed

lemma multibulk_len_replies:
  assumes "n < 2 ^ 63"
  shows "replies junk clk ae_ok (\<lambda>c. addReplyMultiBulkLen junk clk ae_ok c (of_nat n)) ([42] @ int_repr (int n) @ [13, 10])"
proof -
  have "addReplyMultiBulkLen junk clk ae_ok c (of_nat n) = addReplyLongLongWithPrefix junk clk ae_ok c (of_nat n) 42" for c :: "'a out_client_scheme"
    by (auto simp: addReplyMultiBulkLen_def addReplyLongLongWithPrefix_def)
  then show ?thesis using replies_prefix[of 42 "of_nat n" junk clk ae_ok] sint_of_length[OF assms] by simp
qed

definition argv_ok :: "robj list \<Rightarrow> bool" where
  "argv_ok argv \<longleftrightarrow> list_all obj_ok argv \<and> list_all (\<lambda>a. length (obj_text a) < 2 ^ 63) argv \<and> length argv < 2 ^ 63"

lemma select_ok:
  assumes "- (2 ^ 31) \<le> dictid" "dictid < 2 ^ 31"
  shows "obj_ok (shared_string (select_text dictid))" "obj_text (shared_string (select_text dictid)) = select_text dictid"
proof -
  have "sint (word_of_int dictid :: 64 word) = dictid" using assms by (intro sint_word_of_int_64) auto
  then have "length (int_repr dictid) \<le> 20" using length_int_repr_ll[of "word_of_int dictid"] by simp
  moreover have "length (int_repr (int (length (int_repr dictid)))) \<le> 20"
    using length_int_repr_ll[of "of_nat (length (int_repr dictid))"] calculation sint_of_length[of "length (int_repr dictid)"] by simp
  ultimately have "length (select_text dictid) < 2 ^ 32" by (simp add: select_text_def Let_def bytes_of_string_def)
  then show "obj_ok (shared_string (select_text dictid))" "obj_text (shared_string (select_text dictid)) = select_text dictid" using shared_string_ok by auto
qed

lemma feed_slaves_ok:
  assumes "backlog_ok base h s" "list_all out_ok (rp_slaves s)" "argv_ok argv" "- (2 ^ 31) \<le> dictid" "dictid < 2 ^ 31"
  defines "t \<equiv> aof_text (rp_seldb s) dictid [map obj_text argv]"
  shows "\<exists>s'. replicationFeedSlaves junk clk ae_ok s dictid argv = Some s' \<and> backlog_ok base (h @ t) s' \<and> rp_seldb s' = dictid \<and>
    list_all2 (gets ae_ok t) (rp_slaves s) (rp_slaves s') \<and> rp_size s' = rp_size s"
proof -
  have some: "rp_backlog u \<noteq> None" if "backlog_ok base k u" for k u using that by (auto simp: backlog_ok_def)
  have slaves_ok: "backlog_ok base k (u\<lparr>rp_slaves := cs\<rparr>) = backlog_ok base k u" "backlog_ok base k (u\<lparr>rp_seldb := d\<rparr>) = backlog_ok base k u" for k u cs d
    by (simp_all add: backlog_ok_def)
  have argv: "list_all obj_ok argv" "list_all (\<lambda>a. length (obj_text a) < 2 ^ 63) argv" "length argv < 2 ^ 63" using assms(3) by (simp_all add: argv_ok_def)
  let ?sel = "if rp_seldb s \<noteq> dictid then select_text dictid else []" and ?hd = "[42] @ int_repr (int (length argv)) @ [13, 10]" and ?as = "concat (map (\<lambda>a. bulk (obj_text a)) argv)"
  have t: "t = ?sel @ ?hd @ ?as" by (auto simp: t_def aof_text_def select_text_request request_def comp_def)
  obtain s1 where s1: "(if rp_seldb s \<noteq> dictid then do {
                let selectcmd = shared_string (select_text dictid);
                s \<leftarrow> (if rp_backlog s \<noteq> None then feedReplicationBacklogWithObject junk s selectcmd else Some s);
                cs \<leftarrow> each_slave (\<lambda>c. addReply junk clk ae_ok c selectcmd) (rp_slaves s);
                Some (s\<lparr>rp_slaves := cs\<rparr>)
              } else Some s) = Some s1" "backlog_ok base (h @ ?sel) s1" "list_all2 (gets ae_ok ?sel) (rp_slaves s) (rp_slaves s1)" "rp_size s1 = rp_size s"
  proof (cases "rp_seldb s = dictid")
    case True
    have "list_all2 (gets ae_ok []) (rp_slaves s) (rp_slaves s)" using assms(2) by (auto simp: list_all2_same list_all_iff gets_def)
    then show ?thesis using that[of s] True assms(1) by simp
  next
    case False
    obtain s0 where s0: "feedReplicationBacklogWithObject junk s (shared_string (select_text dictid)) = Some s0" "backlog_ok base (h @ select_text dictid) s0" "backlog_same s s0"
      using feed_object_ok[OF assms(1) select_ok(1)[OF assms(4,5)]] select_ok(2)[OF assms(4,5)] by auto
    obtain cs where cs: "each_slave (\<lambda>c. addReply junk clk ae_ok c (shared_string (select_text dictid))) (rp_slaves s) = Some cs" "list_all2 (gets ae_ok (select_text dictid)) (rp_slaves s) cs"
      using each_slave_ok[OF replies_object[OF select_ok(1)[OF assms(4,5)], of junk clk ae_ok] assms(2)] unfolding select_ok(2)[OF assms(4,5)] by blast
    show ?thesis
      by (rule that[of "s0\<lparr>rp_slaves := cs\<rparr>"]) (use False s0 cs some[OF assms(1)] in \<open>simp_all add: backlog_same_def slaves_ok\<close>)
  qed
  obtain s2 where s2: "feedReplicationBacklog (s1\<lparr>rp_seldb := dictid\<rparr>) ?hd = Some s2" "backlog_ok base ((h @ ?sel) @ ?hd) s2" "backlog_same (s1\<lparr>rp_seldb := dictid\<rparr>) s2"
    using feed_backlog_ok[of base "h @ ?sel" "s1\<lparr>rp_seldb := dictid\<rparr>" ?hd] s1(2) slaves_ok by auto
  obtain s3 where s3: "feed_args junk s2 argv = Some s3" "backlog_ok base (((h @ ?sel) @ ?hd) @ ?as) s3" "backlog_same s2 s3" using feed_args_ok[OF s2(2) argv(1,2)] by blast
  obtain cs where cs: "each_slave (\<lambda>c. do { c \<leftarrow> addReplyMultiBulkLen junk clk ae_ok c (of_nat (length argv)); bulk_args junk clk ae_ok c argv }) (rp_slaves s1) = Some cs"
    "list_all2 (gets ae_ok (?hd @ ?as)) (rp_slaves s1) cs"
    using each_slave_ok[OF replies_bind[OF multibulk_len_replies[OF argv(3)] bulk_args_replies[OF argv(1,2)]] gets_out[OF s1(3)]] by blast
  have sl: "rp_slaves s3 = rp_slaves s1" "rp_seldb s3 = dictid" "rp_size s3 = rp_size s" using s2(3) s3(3) s1(4) by (simp_all add: backlog_same_def)
  have aux: "aux_header junk 42 (of_nat (length argv)) = Some ?hd" using sint_of_length[OF argv(3)] by (simp add: aux_header_ok)
  obtain b b1 where "rp_backlog s = Some b" "rp_backlog s1 = Some b1" using some[OF assms(1)] some[OF s1(2)] by blast
  then have "replicationFeedSlaves junk clk ae_ok s dictid argv = Some (s3\<lparr>rp_slaves := cs\<rparr>)"
    using s2(1) s3(1) cs(1) unfolding replicationFeedSlaves_def s1(1) by (simp add: aux sl(1))
  moreover have "list_all2 (gets ae_ok t) (rp_slaves s) cs" unfolding t by (rule gets_all_trans[OF s1(3) cs(2)])
  ultimately show ?thesis using s3(2) sl by (intro exI[of _ "s3\<lparr>rp_slaves := cs\<rparr>"]) (simp add: slaves_ok t)
qed

section \<open>The replication stream\<close>

fun feed_calls :: "(nat \<Rightarrow> byte) \<Rightarrow> nat \<Rightarrow> bool \<Rightarrow> repl \<Rightarrow> (int \<times> robj list) list \<Rightarrow> repl option" where
  "feed_calls junk clk ae_ok s [] = Some s"
| "feed_calls junk clk ae_ok s ((dictid, argv) # calls) = do { s \<leftarrow> replicationFeedSlaves junk clk ae_ok s dictid argv; feed_calls junk clk ae_ok s calls }"

fun stream :: "int \<Rightarrow> (int \<times> robj list) list \<Rightarrow> bytes" where
  "stream sel [] = []"
| "stream sel ((dictid, argv) # calls) = aof_text sel dictid [map obj_text argv] @ stream dictid calls"

definition stream_ok :: "(int \<times> robj list) list \<Rightarrow> bool" where
  "stream_ok calls \<longleftrightarrow> list_all (\<lambda>(d, argv). argv_ok argv \<and> - (2 ^ 31) \<le> d \<and> d < 2 ^ 31) calls"

lemma feed_calls_ok:
  assumes "backlog_ok base h s" "list_all out_ok (rp_slaves s)" "stream_ok calls"
  shows "\<exists>s'. feed_calls junk clk ae_ok s calls = Some s' \<and> backlog_ok base (h @ stream (rp_seldb s) calls) s' \<and>
    list_all2 (gets ae_ok (stream (rp_seldb s) calls)) (rp_slaves s) (rp_slaves s') \<and> rp_size s' = rp_size s"
  using assms
proof (induction calls arbitrary: h s)
  case Nil
  then show ?case by (auto simp: list_all2_same list_all_iff gets_def)
next
  case (Cons call calls)
  obtain d argv where call: "call = (d, argv)" by (cases call)
  have ok: "argv_ok argv" "- (2 ^ 31) \<le> d" "d < 2 ^ 31" "stream_ok calls" using Cons.prems(3) call by (auto simp: stream_ok_def)
  obtain s1 where s1: "replicationFeedSlaves junk clk ae_ok s d argv = Some s1" "backlog_ok base (h @ aof_text (rp_seldb s) d [map obj_text argv]) s1" "rp_seldb s1 = d"
    "list_all2 (gets ae_ok (aof_text (rp_seldb s) d [map obj_text argv])) (rp_slaves s) (rp_slaves s1)" "rp_size s1 = rp_size s"
    using feed_slaves_ok[OF Cons.prems(1,2) ok(1-3)] by blast
  obtain s2 where s2: "feed_calls junk clk ae_ok s1 calls = Some s2" "backlog_ok base ((h @ aof_text (rp_seldb s) d [map obj_text argv]) @ stream d calls) s2"
    "list_all2 (gets ae_ok (stream d calls)) (rp_slaves s1) (rp_slaves s2)" "rp_size s2 = rp_size s1"
    using Cons.IH[OF s1(2) gets_out[OF s1(4)] ok(4)] s1(3) by auto
  then show ?case using s1(1,5) gets_all_trans[OF s1(4) s2(3)] by (simp add: call)
qed

lemma backlog_create_ok: "createReplicationBacklog junk s = Some s0 \<Longrightarrow> 0 < rp_size s \<Longrightarrow> backlog_ok (rp_offset s + 2) [] s0 \<and> rp_slaves s0 = rp_slaves s \<and>
    rp_seldb s0 = rp_seldb s \<and> rp_size s0 = rp_size s"
  by (auto simp: createReplicationBacklog_def backlog_ok_def ring_def Let_def split: if_splits)

lemma resync_ok:
  assumes "backlog_ok base h s" "list_all plain argv" "length argv = 3" "map tolower (takeWhile (\<lambda>b. b \<noteq> 0) (obj_text (argv ! 1))) = map tolower runid"
    "text_ll (obj_text (argv ! 2)) = Some v" "out_ok c" "writes (e_ae_ok e) (c\<lparr>k_replstate := REDIS_REPL_ONLINE, k_put_online_on_ack := False\<rparr>)"
  shows "if max 0 (int (length h) - int (rp_size s)) \<le> sint v - base \<and> sint v - base \<le> int (length h)
    then \<exists>c'. masterTryPartialResynchronization e runid True s c argv = Some (s\<lparr>rp_slaves := rp_slaves s @ [c']\<rparr>, c', True) \<and>
      queued c' = queued c @ drop (nat (sint v - base)) h
    else masterTryPartialResynchronization e runid True s c argv = Some (s, c, False)"
proof -
  have ok: "rp_backlog s \<noteq> None" "rp_histlen s = min (length h) (rp_size s)" "rp_off s = base + int (length h) - int (rp_histlen s)"
    using assms(1) by (auto simp: backlog_ok_def)
  have a1: "arg_text argv 1 = Some (obj_text (argv ! 1))" using arg_text_ok[OF assms(2), of 1] assms(3) by simp
  have a2: "getLongLongFromObjectOrReply e c (arg argv 2) None = Some (c, Some v)" using getLL_arg[OF assms(2), of 2] assms(3,5) by simp
  have rng: "\<not> (sint v < rp_off s \<or> sint v > rp_off s + int (rp_histlen s)) \<longleftrightarrow> max 0 (int (length h) - int (rp_size s)) \<le> sint v - base \<and> sint v - base \<le> int (length h)"
    using ok(2,3) by (auto simp: min_def max_def)
  show ?thesis
  proof (cases "sint v < rp_off s \<or> sint v > rp_off s + int (rp_histlen s)")
    case True
    then show ?thesis unfolding rng[symmetric] using ok(1) by (simp add: masterTryPartialResynchronization_def a1 a2 assms(4) del: One_nat_def)
  next
    case False
    let ?c = "c\<lparr>k_replstate := REDIS_REPL_ONLINE, k_put_online_on_ack := False\<rparr>"
    have c: "out_ok ?c" "queued ?c = queued c" using assms(6) by (auto simp: out_ok_def queued_def)
    obtain c' n where "addReplyReplicationBacklog (e_ae_ok e) s ?c (sint v) = Some (c', n)" "queued c' = queued ?c @ drop (nat (sint v - base)) h"
      using backlog_reply[OF assms(1) _ _ c(1), of "sint v" "e_ae_ok e"] False assms(7) by auto
    then show ?thesis unfolding rng[symmetric] using ok(1) False c(2)
      by (simp add: masterTryPartialResynchronization_def a1 a2 assms(4) Let_def del: One_nat_def)
  qed
qed

section \<open>Properties\<close>

definition sample_repl :: repl where
  "sample_repl = \<lparr>rp_backlog = None, rp_size = 8, rp_histlen = 0, rp_idx = 0, rp_off = 0, rp_offset = 100, rp_seldb = 0, rp_slaves = []\<rparr>"

definition sample_backlog :: repl where
  "sample_backlog = sample_repl\<lparr>rp_backlog := Some (replicate 8 0), rp_off := 102, rp_offset := 101\<rparr>"

lemma sample_create: "createReplicationBacklog (\<lambda>_. 0) sample_repl = Some sample_backlog"
  by (simp add: createReplicationBacklog_def sample_backlog_def sample_repl_def map_replicate_const)

text \<open>C7. No byte of the replication stream is lost, repeated or changed.  From the creation of the backlog on, for any
  sequence of propagated commands in any databases, every attached slave (other than those still waiting for the dump to
  start) is sent the same bytes: the requests, with the changes of the database in between.  A slave that lost its
  connection and comes back with the offset of the next byte it needs is accepted exactly if the backlog still holds that
  byte or the slave misses nothing, and is then sent exactly the rest of the stream; otherwise nothing is sent and a full
  resynchronisation is asked for.\<close>

theorem partial_resync_lossless:
  assumes "createReplicationBacklog junk0 s = Some s0" "0 < rp_size s" "list_all out_ok (rp_slaves s)" "stream_ok calls"
    "list_all plain argv" "length argv = 3" "map tolower (takeWhile (\<lambda>b. b \<noteq> 0) (obj_text (argv ! 1))) = map tolower runid" "text_ll (obj_text (argv ! 2)) = Some v"
    "out_ok c" "writes (e_ae_ok e) (c\<lparr>k_replstate := REDIS_REPL_ONLINE, k_put_online_on_ack := False\<rparr>)"
  shows "\<exists>s1. feed_calls junk clk ae_ok s0 calls = Some s1 \<and>
    (let t = stream (rp_seldb s) calls; n = sint v - (rp_offset s + 2) in
      list_all2 (gets ae_ok t) (rp_slaves s) (rp_slaves s1) \<and>
      (if max 0 (int (length t) - int (rp_size s)) \<le> n \<and> n \<le> int (length t)
       then \<exists>c'. masterTryPartialResynchronization e runid True s1 c argv = Some (s1\<lparr>rp_slaves := rp_slaves s1 @ [c']\<rparr>, c', True) \<and>
         queued c' = queued c @ drop (nat n) t
       else masterTryPartialResynchronization e runid True s1 c argv = Some (s1, c, False)))"
proof -
  note c = backlog_create_ok[OF assms(1,2)]
  obtain s1 where s1: "feed_calls junk clk ae_ok s0 calls = Some s1" "backlog_ok (rp_offset s + 2) (stream (rp_seldb s) calls) s1"
    "list_all2 (gets ae_ok (stream (rp_seldb s) calls)) (rp_slaves s) (rp_slaves s1)" "rp_size s1 = rp_size s"
    using feed_calls_ok[of "rp_offset s + 2" "[]" s0 calls junk clk ae_ok] c assms(3,4) by auto
  show ?thesis using s1(1,3) resync_ok[OF s1(2) assms(5-10)] unfolding s1(4) Let_def by blast
qed

theorem partial_resync_lossless_witness:
  "\<exists>s1 s2 c'. feed_calls (\<lambda>_. 0) 0 True sample_backlog [(0, [str_obj [80, 73, 78, 71]])] = Some s1 \<and>
    masterTryPartialResynchronization (sample_env 9) [97] True s1 fresh_client [str_obj [80], str_obj [65], str_obj [49, 49, 48]] = Some (s2, c', True) \<and>
    queued c' = [80, 73, 78, 71, 13, 10]"
proof -
  let ?calls = "[(0 :: int, [str_obj [80, 73, 78, 71]])]" and ?argv = "[str_obj [80], str_obj [65], str_obj [49, 49, 48]]"
  have st: "stream_ok ?calls" by (simp add: stream_ok_def argv_ok_def)
  have t: "aof_text 0 0 [[[80, 73, 78, 71]]] = [42, 49, 13, 10, 36, 52, 13, 10, 80, 73, 78, 71, 13, 10]"
    by (simp add: aof_text_def request_def bulk_def bulk_header_def int_repr_def dec_repr.simps)
  have v: "text_ll (obj_text (?argv ! 2)) = Some 110" by (simp add: text_ll_def numeral_value_def is_digit_def chr_def Let_def)
  have w: "writes (e_ae_ok (sample_env 9)) (fresh_client\<lparr>k_replstate := REDIS_REPL_ONLINE, k_put_online_on_ack := False\<rparr>)"
    by (simp add: writes_def prepareClientToWrite_def fresh_client_def)
  have r: "map tolower (takeWhile (\<lambda>b. b \<noteq> 0) (obj_text (?argv ! 1))) = map tolower [97]" by (simp add: tolower_def)
  have s: "0 < rp_size sample_repl" "list_all out_ok (rp_slaves sample_repl)" "rp_seldb sample_repl = 0" "rp_offset sample_repl = 100" "rp_size sample_repl = 8" by (simp_all add: sample_repl_def)
  show ?thesis using partial_resync_lossless[OF sample_create s(1,2) st _ _ r v fresh_client_ok(1) w, of "\<lambda>_. 0" 0 True] by (auto simp: t s Let_def)
qed

end
