(* ===== verification/Redis_Glob.thy ===== *)
theory Redis_Glob
  imports Redis_Dict
begin

text \<open>
  \<open>stringmatchlen\<close> of \<open>util.c\<close>: glob-style patterns, as used by \<open>KEYS\<close>, \<open>SCAN\<close> and pattern subscriptions.

  A pointer into the pattern or the string is the rest of the buffer from there, with the terminating null byte: the
  source's \<open>patternLen\<close> is one less than the length of that list.  A pointer just behind the terminator is the empty
  list; dereferencing it, or moving it further, is \<open>None\<close>.  Characters are compared as the source does: as bytes, and as
  signed numbers in ranges.

  The main results: on a non-empty string and a pattern whose classes do not end in an escape, the function returns and
  decides the declarative meaning of the pattern; a class that ends in an escape, or a negated class on the empty string,
  makes it read behind the terminator.
\<close>

section \<open>The code\<close>

text \<open>The loop over a class, with the character to match, which is only read when it is compared.  The result is the
  pattern behind the class.\<close>

function class_loop :: "bool \<Rightarrow> byte option \<Rightarrow> bytes \<Rightarrow> bool \<Rightarrow> (bytes \<times> bool) option" where
  "class_loop nocase c [] m = None"
| "class_loop nocase c (x # q) m =
     (if x = 92 then
        (case q of
           [] \<Rightarrow> None
         | y # q' \<Rightarrow> do { c1 \<leftarrow> c; class_loop nocase c q' (m \<or> y = c1) })
      else if x = 93 then Some (q, m)
      else if q = [] then Some ([x], m)
      else if hd q = 45 \<and> length q \<ge> 3 then do {
        let start = x;
        let end1 = q ! 1;
        c1 \<leftarrow> c;
        let (start, end1) = (if sint start > sint end1 then (end1, start) else (start, end1));
        let (start, end1, c1) = (if nocase then (tolower start, tolower end1, tolower c1) else (start, end1, c1));
        class_loop nocase c (drop 2 q) (m \<or> (sint start \<le> sint c1 \<and> sint c1 \<le> sint end1))
      } else do {
        c1 \<leftarrow> c;
        class_loop nocase c q (m \<or> (if nocase then tolower x = tolower c1 else x = c1))
      })"
  by pat_completeness auto
termination by (relation "measure (\<lambda>(_, _, q, _). length q)") auto

text \<open>The end of an iteration: on an empty string the stars of the pattern are skipped and the result is decided.\<close>

definition match_tail :: "(bytes \<Rightarrow> bytes \<Rightarrow> bool option) \<Rightarrow> bytes \<Rightarrow> bytes \<Rightarrow> bool option" where
  "match_tail f q t =
     (if length t = 1
      then case dropWhile (\<lambda>b. b = 42) q of [] \<Rightarrow> None | r \<Rightarrow> Some (length r = 1)
      else f q t)"

lemma match_tail_cong [fundef_cong]: "q = q' \<Longrightarrow> t = t' \<Longrightarrow> (length t' \<noteq> 1 \<Longrightarrow> f q' t' = f' q' t') \<Longrightarrow> match_tail f q t = match_tail f' q' t'"
  by (simp add: match_tail_def)

text \<open>The comparison of one character.\<close>

definition same_char :: "bool \<Rightarrow> byte \<Rightarrow> byte \<Rightarrow> bool" where
  "same_char nocase a b = (if nocase then tolower a = tolower b else a = b)"

function stringmatchlen :: "bool \<Rightarrow> bytes \<Rightarrow> bytes \<Rightarrow> bool option" and star_loop :: "bool \<Rightarrow> bytes \<Rightarrow> bytes \<Rightarrow> bool option" where
  "stringmatchlen nocase p t =
     (if length p = 1 then Some (length t = 1)
      else case p of
        [] \<Rightarrow> None
      | x # q \<Rightarrow>
          if x = 42 then
            (case dropWhile (\<lambda>b. b = 42) q of
               [] \<Rightarrow> None
             | r \<Rightarrow> if length r = 1 then Some True else star_loop nocase r t)
          else if x = 63 then
            (if length t = 1 then Some False
             else case t of [] \<Rightarrow> None | _ # t' \<Rightarrow> match_tail (stringmatchlen nocase) q t')
          else if x = 91 then do {
            (nt, q1) \<leftarrow> (case q of [] \<Rightarrow> None | y # q' \<Rightarrow> Some (if y = 94 then (True, q') else (False, q)));
            (q2, m) \<leftarrow> class_loop nocase (case t of [] \<Rightarrow> None | c # _ \<Rightarrow> Some c) q1 False;
            (if m = nt then Some False
             else case t of [] \<Rightarrow> None | _ # t' \<Rightarrow> match_tail (stringmatchlen nocase) q2 t')
          } else do {
            (y, q1) \<leftarrow> (if x = 92 \<and> length q \<ge> 2 then Some (hd q, tl q) else Some (x, q));
            (case t of
               [] \<Rightarrow> None
             | c # t' \<Rightarrow> if \<not> same_char nocase y c then Some False else match_tail (stringmatchlen nocase) q1 t')
          })"
| "star_loop nocase r t =
     (if length t = 1 then Some False
      else do {
        b \<leftarrow> stringmatchlen nocase r t;
        (if b then Some True else case t of [] \<Rightarrow> None | _ # t' \<Rightarrow> star_loop nocase r t')
      })"
  by pat_completeness auto
termination
proof (relation "measures [\<lambda>x. case x of Inl (_, _, t) \<Rightarrow> length t | Inr (_, _, t) \<Rightarrow> length t, \<lambda>x. case x of Inl (_, p, _) \<Rightarrow> length p | Inr (_, r, _) \<Rightarrow> length r,
    \<lambda>x. case x of Inl _ \<Rightarrow> 0 | Inr _ \<Rightarrow> 1]", goal_cases)
  case (2 nocase p t x q r rs)
  then show ?case using length_dropWhile_le[of "\<lambda>b. b = 42" q] by simp
qed auto

declare stringmatchlen.simps [simp del] star_loop.simps [simp del]

section \<open>What patterns mean\<close>

datatype gitem = GExact byte | GOne byte | GRange byte byte

datatype gtok = GStar | GAny | GLit byte | GSet bool "gitem list"

text \<open>Reading a class: it ends at a closing bracket or with the pattern, but not inside an escape.\<close>

fun parse_class :: "bytes \<Rightarrow> (gitem list \<times> bytes) option" where
  "parse_class [] = Some ([], [])"
| "parse_class (x # q) =
     (if x = 92 then (case q of [] \<Rightarrow> None | y # q' \<Rightarrow> map_option (\<lambda>(is, r). (GExact y # is, r)) (parse_class q'))
      else if x = 93 then Some ([], q)
      else if 2 \<le> length q \<and> hd q = 45 then map_option (\<lambda>(is, r). (GRange x (q ! 1) # is, r)) (parse_class (drop 2 q))
      else map_option (\<lambda>(is, r). (GOne x # is, r)) (parse_class q))"

lemma parse_class_length: "parse_class q = Some (is, r) \<Longrightarrow> length r \<le> length q"
  by (induction q arbitrary: "is" rule: parse_class.induct) (fastforce split: if_splits list.splits)+

function parse :: "bytes \<Rightarrow> gtok list option" where
  "parse [] = Some []"
| "parse (x # q) =
     (if x = 42 then map_option ((#) GStar) (parse q)
      else if x = 63 then map_option ((#) GAny) (parse q)
      else if x = 91 then
        (let nt = (q \<noteq> [] \<and> hd q = 94)
         in case parse_class (if nt then tl q else q) of
              None \<Rightarrow> None
            | Some (is, r) \<Rightarrow> map_option ((#) (GSet nt is)) (parse r))
      else if x = 92 \<and> q \<noteq> [] then map_option ((#) (GLit (hd q))) (parse (tl q))
      else map_option ((#) (GLit x)) (parse q))"
  by pat_completeness auto
termination by (relation "measure length") (auto dest!: parse_class_length simp: Let_def split: if_splits)

fun item_match :: "bool \<Rightarrow> gitem \<Rightarrow> byte \<Rightarrow> bool" where
  "item_match nocase (GExact y) c \<longleftrightarrow> y = c"
| "item_match nocase (GOne y) c \<longleftrightarrow> same_char nocase y c"
| "item_match nocase (GRange a b) c \<longleftrightarrow>
     (let lo = (if sint a > sint b then b else a); hi = (if sint a > sint b then a else b);
          f = (if nocase then tolower else (\<lambda>x. x))
      in sint (f lo) \<le> sint (f c) \<and> sint (f c) \<le> sint (f hi))"

fun gmatch :: "bool \<Rightarrow> gtok list \<Rightarrow> bytes \<Rightarrow> bool" where
  "gmatch nocase [] s \<longleftrightarrow> s = []"
| "gmatch nocase (GStar # ts) s \<longleftrightarrow> (\<exists>k\<le>length s. gmatch nocase ts (drop k s))"
| "gmatch nocase (GAny # ts) s \<longleftrightarrow> s \<noteq> [] \<and> gmatch nocase ts (tl s)"
| "gmatch nocase (GLit y # ts) s \<longleftrightarrow> s \<noteq> [] \<and> same_char nocase y (hd s) \<and> gmatch nocase ts (tl s)"
| "gmatch nocase (GSet nt is # ts) s \<longleftrightarrow> s \<noteq> [] \<and> (\<exists>i\<in>set is. item_match nocase i (hd s)) \<noteq> nt \<and> gmatch nocase ts (tl s)"

section \<open>The code decides the meaning\<close>

lemma class_loop_ok:
  "class_loop nocase (Some c) (q @ [0]) m =
    map_option (\<lambda>(is, r). (r @ [0], m \<or> (\<exists>i\<in>set is. item_match nocase i c))) (parse_class q)"
proof (induction q arbitrary: m rule: parse_class.induct)
  case (2 x q)
  have h: "hd (q @ [0]) = 45 \<and> 3 \<le> length (q @ [0]) \<longleftrightarrow> 2 \<le> length q \<and> hd q = 45" by (cases q) auto
  show ?case
  proof (cases "x = 92")
    case True
    then show ?thesis using 2 by (cases q) (auto simp: option.map_comp comp_def split_beta)
  next
    case n: False
    show ?thesis
    proof (cases "x = 93")
      case False
      show ?thesis
      proof (cases "2 \<le> length q \<and> hd q = 45")
        case True
        then have q: "(q @ [0]) ! 1 = q ! 1" "drop 2 (q @ [0]) = drop 2 q @ [0]" by (auto simp: nth_append)
        show ?thesis using 2(2)[OF n False True] n False True h q
          by (cases "sint x > sint (q ! 1)"; cases nocase) (auto simp: option.map_comp comp_def split_beta Let_def)
      next
        case False
        then show ?thesis using 2(3)[OF n \<open>x \<noteq> 93\<close> False] n \<open>x \<noteq> 93\<close> h
          by (auto simp: option.map_comp comp_def split_beta same_char_def)
      qed
    qed (simp add: n)
  qed
qed simp

lemma gmatch_empty: "parse p = Some ts \<Longrightarrow> gmatch nocase ts [] \<longleftrightarrow> dropWhile (\<lambda>b. b = 42) p = []"
  by (induction p arbitrary: ts rule: parse.induct) (auto simp: Let_def split: if_splits option.splits)

lemma star_star: "gmatch nocase (GStar # GStar # ts) s = gmatch nocase (GStar # ts) s"
proof
  assume "gmatch nocase (GStar # GStar # ts) s"
  then obtain j k where "j \<le> length s" "k \<le> length (drop j s)" "gmatch nocase ts (drop k (drop j s))" by auto
  then show "gmatch nocase (GStar # ts) s" by (auto intro!: exI[of _ "k + j"])
next
  assume "gmatch nocase (GStar # ts) s"
  then obtain k where k: "k \<le> length s" "gmatch nocase ts (drop k s)" by auto
  have "gmatch nocase (GStar # ts) (drop k s)" using k(2) by (auto intro: exI[of _ 0])
  with k(1) show "gmatch nocase (GStar # GStar # ts) s" unfolding gmatch.simps(2)[of _ "GStar # ts"] by blast
qed

lemma parse_stars:
  "parse q = Some ts \<Longrightarrow> \<exists>us. parse (dropWhile (\<lambda>b. b = 42) q) = Some us \<and> gmatch nocase (GStar # ts) s = gmatch nocase (GStar # us) s"
proof (induction q arbitrary: ts)
  case (Cons x q)
  then show ?case by (cases "x = 42") (auto simp: star_star simp del: gmatch.simps)
qed simp

lemma not_star: "parse p = Some ts \<Longrightarrow> p \<noteq> [] \<Longrightarrow> hd p \<noteq> 42 \<Longrightarrow> \<not> gmatch nocase ts []"
  using gmatch_empty[of p ts nocase] by (cases p) auto

lemma drop_stars: "dropWhile (\<lambda>b. b = 42) (q @ [0]) = dropWhile (\<lambda>b :: byte. b = 42) q @ [0]"
  by (induction q) auto

text \<open>A star, when the rest of the pattern is decided on every suffix.\<close>

lemma star_loop_ok:
  assumes "\<And>k. k < length s \<Longrightarrow> stringmatchlen nocase r (drop k s @ [0]) = Some (gmatch nocase ts (drop k s))"
  shows "star_loop nocase r (s @ [0]) = Some (\<exists>k<length s. gmatch nocase ts (drop k s))"
  using assms
proof (induction s)
  case Nil
  then show ?case by (simp add: star_loop.simps)
next
  case (Cons c s)
  have "star_loop nocase r (s @ [0]) = Some (\<exists>k<length s. gmatch nocase ts (drop k s))"
    using Cons.prems[of "Suc _"] by (intro Cons.IH) simp
  moreover have "stringmatchlen nocase r ((c # s) @ [0]) = Some (gmatch nocase ts (c # s))" using Cons.prems[of 0] by simp
  moreover have "(\<exists>k<length (c # s). gmatch nocase ts (drop k (c # s))) \<longleftrightarrow> gmatch nocase ts (c # s) \<or> (\<exists>k<length s. gmatch nocase ts (drop k s))"
    by (auto simp: less_Suc_eq_0_disj)
  ultimately show ?case by (subst star_loop.simps) auto
qed

lemma match_tail_ok:
  assumes "parse q = Some ts" "s \<noteq> [] \<Longrightarrow> f (q @ [0]) (s @ [0]) = Some (gmatch nocase ts s)"
  shows "match_tail f (q @ [0]) (s @ [0]) = Some (gmatch nocase ts s)"
proof (cases s)
  case Nil
  then show ?thesis using gmatch_empty[OF assms(1), of nocase]
    by (cases "dropWhile (\<lambda>b. b = 42) q") (simp_all add: match_tail_def drop_stars del: dropWhile_eq_Nil_conv)
qed (use assms(2) in \<open>simp add: match_tail_def\<close>)

text \<open>One iteration on a pattern that does not start with a star, when the rest of the string is decided.\<close>

lemma one_step_ok:
  assumes p: "parse (x # q) = Some ts" "x \<noteq> 42"
    and rest: "\<And>q' ts'. length q' \<le> length q \<Longrightarrow> s \<noteq> [] \<Longrightarrow> parse q' = Some ts' \<Longrightarrow>
      stringmatchlen nocase (q' @ [0]) (s @ [0]) = Some (gmatch nocase ts' s)"
  shows "stringmatchlen nocase ((x # q) @ [0]) ((c # s) @ [0]) = Some (gmatch nocase ts (c # s))"
proof -
  have tail: "match_tail (stringmatchlen nocase) (q' @ [0]) (s @ [0]) = Some (gmatch nocase ts' s)" 
    if "length q' \<le> length q" "parse q' = Some ts'" for q' ts'
    using match_tail_ok[OF that(2)] rest[OF that(1) _ that(2)] by blast
  consider (any) "x = 63" | (set) "x = 91" | (esc) "x = 92" "q \<noteq> []" | (lit) "x \<noteq> 63" "x \<noteq> 91" "x = 92 \<Longrightarrow> q = []"
    by blast
  then show ?thesis
  proof cases
    case any
    then show ?thesis using p tail by (subst stringmatchlen.simps) auto
  next
    case set
    define nt where "nt = (q \<noteq> [] \<and> hd q = 94)"
    define q1 where "q1 = (if nt then tl q else q)"
    from p set obtain "is" r us where c: "parse_class q1 = Some (is, r)" "parse r = Some us" "ts = GSet nt is # us"
      by (auto simp: Let_def nt_def q1_def split: option.splits)
    have r: "length r \<le> length q" using parse_class_length[OF c(1)] by (auto simp: q1_def split: if_splits)
    have h: "(case q @ [0] of [] \<Rightarrow> None | y # q' \<Rightarrow> Some (if y = 94 then (True, q') else (False, q @ [0]))) = Some (nt, q1 @ [0])"
      by (cases q) (auto simp: nt_def q1_def)
    show ?thesis using set tail[OF r c(2)] by (subst stringmatchlen.simps) (simp add: h class_loop_ok c)
  next
    case esc
    then show ?thesis using p tail by (cases q) (subst stringmatchlen.simps, auto)+
  next
    case lit
    obtain us where us: "parse q = Some us" "ts = GLit x # us" using lit p by (auto split: if_splits)
    have "(if x = 92 \<and> 2 \<le> length (q @ [0]) then Some (hd (q @ [0]), tl (q @ [0])) else Some (x, q @ [0])) = Some (x, q @ [0])"
      using lit(3) by auto
    then show ?thesis using p(2) lit(1,2) tail[OF order_refl us(1)] us(2) by (subst stringmatchlen.simps) simp
  qed
qed

lemma star_step_ok:
  assumes p: "parse q = Some ts"
    and rest: "\<And>r us k. length r \<le> length q \<Longrightarrow> parse r = Some us \<Longrightarrow> k < length s \<Longrightarrow>
      stringmatchlen nocase (r @ [0]) (drop k s @ [0]) = Some (gmatch nocase us (drop k s))"
  shows "stringmatchlen nocase (42 # q @ [0]) (s @ [0]) = Some (gmatch nocase (GStar # ts) s)"
proof -
  define r where "r = dropWhile (\<lambda>b. b = 42) q"
  obtain us where us: "parse r = Some us" "gmatch nocase (GStar # ts) s = gmatch nocase (GStar # us) s"
    using parse_stars[OF p] unfolding r_def by metis
  show ?thesis
  proof (cases "r = []")
    case True
    then have "gmatch nocase (GStar # us) s" using us(1) by auto
    then show ?thesis using us(2) True by (subst stringmatchlen.simps) (simp add: drop_stars r_def[symmetric])
  next
    case False
    have "length r \<le> length q" unfolding r_def by (rule length_dropWhile_le)
    then have "star_loop nocase (r @ [0]) (s @ [0]) = Some (\<exists>k<length s. gmatch nocase us (drop k s))"
      using rest us(1) by (intro star_loop_ok) blast
    moreover have "hd r \<noteq> 42" using False hd_dropWhile[of "\<lambda>b. b = 42" q] by (simp add: r_def)
    then have "(\<exists>k<length s. gmatch nocase us (drop k s)) = gmatch nocase (GStar # us) s"
      using not_star[OF us(1) False, of nocase] by (auto simp: le_less)
    ultimately show ?thesis using us(2) False
      by (subst stringmatchlen.simps) (cases r; simp add: drop_stars r_def[symmetric] del: gmatch.simps)
  qed
qed

lemma stringmatchlen_ok:
  assumes "parse p = Some ts" "s \<noteq> []"
  shows "stringmatchlen nocase (p @ [0]) (s @ [0]) = Some (gmatch nocase ts s)"
  using assms
proof (induction "length s + length p" arbitrary: s p ts rule: less_induct)
  case less
  obtain c s' where s: "s = c # s'" using less.prems(2) by (cases s) auto
  show ?case
  proof (cases p)
    case Nil
    then show ?thesis using less.prems by (subst stringmatchlen.simps) simp
  next
    case (Cons x q)
    show ?thesis
    proof (cases "x = 42")
      case True
      then obtain us where us: "parse q = Some us" "ts = GStar # us" using less.prems Cons by auto
      have "stringmatchlen nocase (42 # q @ [0]) (s @ [0]) = Some (gmatch nocase (GStar # us) s)"
        using us(1) by (rule star_step_ok) (rule less.hyps; simp add: Cons)
      then show ?thesis using us(2) Cons True by simp
    next
      case False
      show ?thesis unfolding s Cons
        by (rule one_step_ok[OF less.prems(1)[unfolded Cons] False]) (rule less.hyps; simp add: s Cons)
    qed
  qed
qed

text \<open>The pattern \<open>h[^e-g]*\<close> and the string \<open>hallo\<close>.\<close>

definition sample_pattern :: bytes where
  "sample_pattern = [104, 91, 94, 101, 45, 103, 93, 42]"

definition sample_subject :: bytes where
  "sample_subject = [104, 97, 108, 108, 111]"

section \<open>Properties\<close>

text \<open>C21. \<open>stringmatchlen\<close> decides glob patterns: for every non-empty string and every pattern whose classes do not end
  inside an escape, with any mixture of stars, question marks, classes with ranges and negation, escapes and literals,
  with or without case, the function returns without reading behind either buffer, and its result is the declarative
  meaning of the pattern: a star stands for any number of characters, every other token for exactly one.\<close>

theorem glob_correct:
  assumes "parse p = Some ts" and "s \<noteq> []"
  shows "stringmatchlen nocase (p @ [0]) (s @ [0]) = Some (gmatch nocase ts s)"
  using assms by (rule stringmatchlen_ok)

theorem glob_correct_witness:
  "parse sample_pattern = Some [GLit 104, GSet True [GRange 101 103], GStar] \<and> sample_subject \<noteq> [] \<and>
   stringmatchlen False (sample_pattern @ [0]) (sample_subject @ [0]) = Some True \<and>
   gmatch False [GLit 104, GSet True [GRange 101 103], GStar] sample_subject"
proof -
  have p: "parse sample_pattern = Some [GLit 104, GSet True [GRange 101 103], GStar]" by code_simp
  have n: "sample_subject \<noteq> []" by (simp add: sample_subject_def)
  have "stringmatchlen False (sample_pattern @ [0]) (sample_subject @ [0]) = Some True" by code_simp
  then show ?thesis using glob_correct[OF p n, of False] p n by simp
qed

text \<open>C40. Where \<open>stringmatchlen\<close> leaves its buffers: the pattern consisting of an opening bracket and a backslash makes it read
  behind the terminator of the pattern for every non-empty string; a negated class followed by a literal reads behind the
  terminator of the empty string; and a negated class followed by a star accepts the empty string, although the class
  has to stand for a character.\<close>

theorem glob_reads_out_of_bounds:
  "stringmatchlen nocase ([91, 92] @ [0]) ((c # s) @ [0]) = None \<and>
   stringmatchlen nocase ([91, 94, 97, 93, 98] @ [0]) ([] @ [0]) = None \<and>
   stringmatchlen nocase ([91, 94, 97, 93, 42] @ [0]) ([] @ [0]) = Some True \<and>
   parse [91, 94, 97, 93, 42] = Some [GSet True [GOne 97], GStar] \<and> \<not> gmatch nocase [GSet True [GOne 97], GStar] []"
proof (intro conjI)
  show "stringmatchlen nocase ([91, 92] @ [0]) ((c # s) @ [0]) = None" by (simp add: stringmatchlen.simps)
  show "stringmatchlen nocase ([91, 94, 97, 93, 98] @ [0]) ([] @ [0]) = None" by (cases nocase; simp only:; code_simp)
  show "stringmatchlen nocase ([91, 94, 97, 93, 42] @ [0]) ([] @ [0]) = Some True" by (cases nocase; simp only:; code_simp)
  show "parse [91, 94, 97, 93, 42] = Some [GSet True [GOne 97], GStar]" by code_simp
qed simp

end
