(* ===== verification/Redis_Pubsub.thy ===== *)
theory Redis_Pubsub
  imports Redis_String Redis_Glob
begin

text \<open>
  \<open>pubsub.c\<close> and \<open>notify.c\<close>: channels, patterns, publishing, and the events of the keyspace as messages.

  A client is named by a number; its subscriptions and its output side are functions of the number.  The hash table of
  channels of a client is the list of its keys, the table of the server a map from the text of a channel to the list of
  clients; both compare objects by their texts.  The order in which the hash table of a client is iterated is the
  argument \<open>order\<close>.  Reference counts of the objects in the tables are not tracked.  \<open>PUBSUB\<close>, which only reads
  the tables, and the cluster bus are not modelled.

  The main results: the tables of the server and of the clients always mirror each other, so that no assertion fails and
  no missing node is unlinked; and after any history a message reaches exactly the clients whose subscriptions say
  so, once for the channel and once for each pattern that matches.
\<close>

section \<open>The code\<close>

record subscriber =
  sb_channels :: "robj list"
  sb_patterns :: "robj list"
  sb_pubsub :: bool

record pubsub =
  ps_channels :: "bytes \<rightharpoonup> nat list"
  ps_patterns :: "(nat \<times> robj) list"
  ps_sub :: "nat \<Rightarrow> subscriber"
  ps_out :: "nat \<Rightarrow> out_client"

definition upd_sub :: "pubsub \<Rightarrow> nat \<Rightarrow> (subscriber \<Rightarrow> subscriber) \<Rightarrow> pubsub" where
  "upd_sub s me f = s\<lparr>ps_sub := (ps_sub s)(me := f (ps_sub s me))\<rparr>"

definition to_client :: "pubsub \<Rightarrow> nat \<Rightarrow> (out_client \<Rightarrow> out_client option) \<Rightarrow> pubsub option" where
  "to_client s i f = do { c \<leftarrow> f (ps_out s i); Some (s\<lparr>ps_out := (ps_out s)(i := c)\<rparr>) }"

definition clientSubscriptionsCount :: "pubsub \<Rightarrow> nat \<Rightarrow> nat" where
  "clientSubscriptionsCount s me = length (sb_channels (ps_sub s me)) + length (sb_patterns (ps_sub s me))"

text \<open>Comparison of two objects in a list; the collation of the locale is not used here.\<close>

definition same_object :: "server_env \<Rightarrow> robj \<Rightarrow> robj \<Rightarrow> bool option" where
  "same_object e a b = equalStringObjects (\<lambda>_ _. 0) (e_junk e) a b"

definition listMatchPubsubPattern :: "server_env \<Rightarrow> nat \<times> robj \<Rightarrow> nat \<times> robj \<Rightarrow> bool option" where
  "listMatchPubsubPattern e pa pb = (if fst pa = fst pb then same_object e (snd pa) (snd pb) else Some False)"

text \<open>\<open>listSearchKey\<close>: the index of the first node that matches.\<close>

fun listSearchKey :: "('a \<Rightarrow> 'a \<Rightarrow> bool option) \<Rightarrow> 'a list \<Rightarrow> 'a \<Rightarrow> nat option option" where
  "listSearchKey match [] key = Some None"
| "listSearchKey match (x # xs) key = do {
     b \<leftarrow> match x key;
     (if b then Some (Some 0) else do { r \<leftarrow> listSearchKey match xs key; Some (map_option Suc r) })
   }"

definition listDelNode :: "'a list \<Rightarrow> nat \<Rightarrow> 'a list" where
  "listDelNode xs n = take n xs @ drop (Suc n) xs"

text \<open>The shared replies \<open>subscribebulk\<close>, \<open>messagebulk\<close> and so on, without the final line end.\<close>

definition kind_bulk :: "string \<Rightarrow> bytes" where
  "kind_bulk kind = [36] @ int_repr (int (length kind)) @ crlf @ bytes_of_string kind"

text \<open>The notification about a subscription: the header, the kind, the channel or a null bulk, the count.\<close>

definition sub_reply :: "server_env \<Rightarrow> string \<Rightarrow> robj option \<Rightarrow> nat \<Rightarrow> out_client \<Rightarrow> out_client option" where
  "sub_reply e kind channel cnt c = do {
     c \<leftarrow> reply_shared e c (bytes_of_string ''*3'');
     c \<leftarrow> reply_shared e c (kind_bulk kind);
     c \<leftarrow> (case channel of
            None \<Rightarrow> reply_shared e c (bytes_of_string ''$-1'')
          | Some o1 \<Rightarrow> addReplyBulk (e_junk e) (e_clk e) (e_ae_ok e) c o1);
     reply_int e c (of_nat cnt)
   }"

definition pubsubSubscribeChannel :: "server_env \<Rightarrow> pubsub \<Rightarrow> nat \<Rightarrow> robj \<Rightarrow> (pubsub \<times> bool) option" where
  "pubsubSubscribeChannel e s me channel = do {
     let key = obj_text channel;
     let (s, retval) =
       (if key \<in> set (map obj_text (sb_channels (ps_sub s me))) then (s, False)
        else
          let s = upd_sub s me (\<lambda>b. b\<lparr>sb_channels := sb_channels b @ [channel]\<rparr>);
              clients = (case ps_channels s key of None \<Rightarrow> [] | Some l \<Rightarrow> l)
          in (s\<lparr>ps_channels := (ps_channels s)(key \<mapsto> clients @ [me])\<rparr>, True));
     s \<leftarrow> to_client s me (sub_reply e ''subscribe'' (Some channel) (clientSubscriptionsCount s me));
     Some (s, retval)
   }"

definition pubsubUnsubscribeChannel :: "server_env \<Rightarrow> pubsub \<Rightarrow> nat \<Rightarrow> robj \<Rightarrow> bool \<Rightarrow> (pubsub \<times> bool) option" where
  "pubsubUnsubscribeChannel e s me channel notify = do {
     let key = obj_text channel;
     (s, retval) \<leftarrow>
       (if key \<in> set (map obj_text (sb_channels (ps_sub s me))) then do {
          let s = upd_sub s me (\<lambda>b. b\<lparr>sb_channels := filter (\<lambda>o1. obj_text o1 \<noteq> key) (sb_channels b)\<rparr>);
          clients \<leftarrow> ps_channels s key;
          (if me \<notin> set clients then None
           else
             let clients = remove1 me clients
             in Some (s\<lparr>ps_channels := (ps_channels s)(key := if clients = [] then None else Some clients)\<rparr>, True))
        } else Some (s, False));
     s \<leftarrow> (if notify then to_client s me (sub_reply e ''unsubscribe'' (Some channel) (clientSubscriptionsCount s me)) else Some s);
     Some (s, retval)
   }"

definition pubsubSubscribePattern :: "server_env \<Rightarrow> pubsub \<Rightarrow> nat \<Rightarrow> robj \<Rightarrow> (pubsub \<times> bool) option" where
  "pubsubSubscribePattern e s me pattern = do {
     ln \<leftarrow> listSearchKey (same_object e) (sb_patterns (ps_sub s me)) pattern;
     (s, retval) \<leftarrow>
       (if ln = None then do {
          let s = upd_sub s me (\<lambda>b. b\<lparr>sb_patterns := sb_patterns b @ [pattern]\<rparr>);
          p \<leftarrow> getDecodedObject (e_junk e) (e_clk e) pattern;
          Some (s\<lparr>ps_patterns := ps_patterns s @ [(me, p)]\<rparr>, True)
        } else Some (s, False));
     s \<leftarrow> to_client s me (sub_reply e ''psubscribe'' (Some pattern) (clientSubscriptionsCount s me));
     Some (s, retval)
   }"

definition pubsubUnsubscribePattern :: "server_env \<Rightarrow> pubsub \<Rightarrow> nat \<Rightarrow> robj \<Rightarrow> bool \<Rightarrow> (pubsub \<times> bool) option" where
  "pubsubUnsubscribePattern e s me pattern notify = do {
     ln \<leftarrow> listSearchKey (same_object e) (sb_patterns (ps_sub s me)) pattern;
     (s, retval) \<leftarrow>
       (case ln of
          None \<Rightarrow> Some (s, False)
        | Some n \<Rightarrow> do {
            let s = upd_sub s me (\<lambda>b. b\<lparr>sb_patterns := listDelNode (sb_patterns b) n\<rparr>);
            ln \<leftarrow> listSearchKey (listMatchPubsubPattern e) (ps_patterns s) (me, pattern);
            n \<leftarrow> ln;
            Some (s\<lparr>ps_patterns := listDelNode (ps_patterns s) n\<rparr>, True)
          });
     s \<leftarrow> (if notify then to_client s me (sub_reply e ''punsubscribe'' (Some pattern) (clientSubscriptionsCount s me)) else Some s);
     Some (s, retval)
   }"

fun each_arg :: "(pubsub \<Rightarrow> robj \<Rightarrow> (pubsub \<times> bool) option) \<Rightarrow> pubsub \<Rightarrow> robj list \<Rightarrow> nat \<Rightarrow> (pubsub \<times> nat) option" where
  "each_arg f s [] n = Some (s, n)"
| "each_arg f s (a # as) n = do { (s, b) \<leftarrow> f s a; each_arg f s as (if b then n + 1 else n) }"

definition pubsubUnsubscribeAllChannels :: "server_env \<Rightarrow> (robj list \<Rightarrow> robj list) \<Rightarrow> pubsub \<Rightarrow> nat \<Rightarrow> bool \<Rightarrow> (pubsub \<times> nat) option" where
  "pubsubUnsubscribeAllChannels e order s me notify = do {
     (s, cnt) \<leftarrow> each_arg (\<lambda>s channel. pubsubUnsubscribeChannel e s me channel notify) s (order (sb_channels (ps_sub s me))) 0;
     s \<leftarrow> (if notify \<and> cnt = 0 then to_client s me (sub_reply e ''unsubscribe'' None (clientSubscriptionsCount s me)) else Some s);
     Some (s, cnt)
   }"

definition pubsubUnsubscribeAllPatterns :: "server_env \<Rightarrow> pubsub \<Rightarrow> nat \<Rightarrow> bool \<Rightarrow> (pubsub \<times> nat) option" where
  "pubsubUnsubscribeAllPatterns e s me notify = do {
     (s, cnt) \<leftarrow> each_arg (\<lambda>s pattern. pubsubUnsubscribePattern e s me pattern notify) s (sb_patterns (ps_sub s me)) 0;
     s \<leftarrow> (if notify \<and> cnt = 0 then to_client s me (sub_reply e ''punsubscribe'' None (clientSubscriptionsCount s me)) else Some s);
     Some (s, cnt)
   }"

text \<open>Publishing: the clients of the channel first, then the patterns in the order of subscription.  The buffers of the
  pattern and of the channel are handed to the matcher with their terminators.\<close>

definition message_reply :: "server_env \<Rightarrow> robj \<Rightarrow> robj \<Rightarrow> out_client \<Rightarrow> out_client option" where
  "message_reply e channel message c = do {
     c \<leftarrow> reply_shared e c (bytes_of_string ''*3'');
     c \<leftarrow> reply_shared e c (kind_bulk ''message'');
     c \<leftarrow> addReplyBulk (e_junk e) (e_clk e) (e_ae_ok e) c channel;
     addReplyBulk (e_junk e) (e_clk e) (e_ae_ok e) c message
   }"

definition pmessage_reply :: "server_env \<Rightarrow> robj \<Rightarrow> robj \<Rightarrow> robj \<Rightarrow> out_client \<Rightarrow> out_client option" where
  "pmessage_reply e pattern channel message c = do {
     c \<leftarrow> reply_shared e c (bytes_of_string ''*4'');
     c \<leftarrow> reply_shared e c (kind_bulk ''pmessage'');
     c \<leftarrow> addReplyBulk (e_junk e) (e_clk e) (e_ae_ok e) c pattern;
     c \<leftarrow> addReplyBulk (e_junk e) (e_clk e) (e_ae_ok e) c channel;
     addReplyBulk (e_junk e) (e_clk e) (e_ae_ok e) c message
   }"

fun channel_loop :: "server_env \<Rightarrow> pubsub \<Rightarrow> nat list \<Rightarrow> robj \<Rightarrow> robj \<Rightarrow> nat \<Rightarrow> (pubsub \<times> nat) option" where
  "channel_loop e s [] channel message n = Some (s, n)"
| "channel_loop e s (i # is) channel message n = do {
     s \<leftarrow> to_client s i (message_reply e channel message);
     channel_loop e s is channel message (n + 1)
   }"

definition c_buffer :: "robj \<Rightarrow> bytes option" where
  "c_buffer o1 = (case o_ptr o1 of PSds t \<Rightarrow> mem_read (s_buf t) 0 (sdslen t + 1) | _ \<Rightarrow> None)"

fun pattern_loop :: "server_env \<Rightarrow> pubsub \<Rightarrow> (nat \<times> robj) list \<Rightarrow> robj \<Rightarrow> robj \<Rightarrow> nat \<Rightarrow> (pubsub \<times> nat) option" where
  "pattern_loop e s [] channel message n = Some (s, n)"
| "pattern_loop e s ((i, p) # ps) channel message n = do {
     pb \<leftarrow> c_buffer p;
     cb \<leftarrow> c_buffer channel;
     m \<leftarrow> stringmatchlen False pb cb;
     (if m then do {
        s \<leftarrow> to_client s i (pmessage_reply e p channel message);
        pattern_loop e s ps channel message (n + 1)
      } else pattern_loop e s ps channel message n)
   }"

definition pubsubPublishMessage :: "server_env \<Rightarrow> pubsub \<Rightarrow> robj \<Rightarrow> robj \<Rightarrow> (pubsub \<times> nat) option" where
  "pubsubPublishMessage e s channel message = do {
     (s, n) \<leftarrow> (case ps_channels s (obj_text channel) of
                 None \<Rightarrow> Some (s, 0)
               | Some clients \<Rightarrow> channel_loop e s clients channel message 0);
     (if ps_patterns s \<noteq> [] then do {
        channel \<leftarrow> getDecodedObject (e_junk e) (e_clk e) channel;
        pattern_loop e s (ps_patterns s) channel message n
      } else Some (s, n))
   }"

definition subscribeCommand :: "server_env \<Rightarrow> pubsub \<Rightarrow> nat \<Rightarrow> robj list \<Rightarrow> pubsub option" where
  "subscribeCommand e s me argv = do {
     (s, _) \<leftarrow> each_arg (\<lambda>s a. pubsubSubscribeChannel e s me a) s (drop 1 argv) 0;
     Some (upd_sub s me (\<lambda>b. b\<lparr>sb_pubsub := True\<rparr>))
   }"

definition clear_pubsub :: "pubsub \<Rightarrow> nat \<Rightarrow> pubsub" where
  "clear_pubsub s me = (if clientSubscriptionsCount s me = 0 then upd_sub s me (\<lambda>b. b\<lparr>sb_pubsub := False\<rparr>) else s)"

definition unsubscribeCommand :: "server_env \<Rightarrow> (robj list \<Rightarrow> robj list) \<Rightarrow> pubsub \<Rightarrow> nat \<Rightarrow> robj list \<Rightarrow> pubsub option" where
  "unsubscribeCommand e order s me argv = do {
     (s, _) \<leftarrow> (if length argv = 1 then pubsubUnsubscribeAllChannels e order s me True
                else each_arg (\<lambda>s a. pubsubUnsubscribeChannel e s me a True) s (drop 1 argv) 0);
     Some (clear_pubsub s me)
   }"

definition psubscribeCommand :: "server_env \<Rightarrow> pubsub \<Rightarrow> nat \<Rightarrow> robj list \<Rightarrow> pubsub option" where
  "psubscribeCommand e s me argv = do {
     (s, _) \<leftarrow> each_arg (\<lambda>s a. pubsubSubscribePattern e s me a) s (drop 1 argv) 0;
     Some (upd_sub s me (\<lambda>b. b\<lparr>sb_pubsub := True\<rparr>))
   }"

definition punsubscribeCommand :: "server_env \<Rightarrow> pubsub \<Rightarrow> nat \<Rightarrow> robj list \<Rightarrow> pubsub option" where
  "punsubscribeCommand e s me argv = do {
     (s, _) \<leftarrow> (if length argv = 1 then pubsubUnsubscribeAllPatterns e s me True
                else each_arg (\<lambda>s a. pubsubUnsubscribePattern e s me a True) s (drop 1 argv) 0);
     Some (clear_pubsub s me)
   }"

text \<open>Outside cluster mode; that the command is propagated to the slaves is not recorded.\<close>

definition publishCommand :: "server_env \<Rightarrow> pubsub \<Rightarrow> nat \<Rightarrow> robj list \<Rightarrow> pubsub option" where
  "publishCommand e s me argv = do {
     channel \<leftarrow> arg argv 1;
     message \<leftarrow> arg argv 2;
     (s, receivers) \<leftarrow> pubsubPublishMessage e s channel message;
     to_client s me (\<lambda>c. reply_int e c (of_nat receivers))
   }"

section \<open>Output\<close>

text \<open>What the clients are sent between two states: \<open>f i\<close> to client \<open>i\<close>, nothing else changes.\<close>

definition heard :: "server_env \<Rightarrow> (nat \<Rightarrow> bytes) \<Rightarrow> pubsub \<Rightarrow> pubsub \<Rightarrow> bool" where
  "heard e f s s' \<longleftrightarrow> ps_sub s' = ps_sub s \<and> ps_channels s' = ps_channels s \<and> ps_patterns s' = ps_patterns s \<and>
     (\<forall>i. out_ok (ps_out s' i) \<and> writes (e_ae_ok e) (ps_out s' i) = writes (e_ae_ok e) (ps_out s i) \<and>
     queued (ps_out s' i) = queued (ps_out s i) @ (if writes (e_ae_ok e) (ps_out s i) then f i else []))"

lemma heard_refl: "\<forall>i. out_ok (ps_out s i) \<Longrightarrow> heard e (\<lambda>_. []) s s"
  by (simp add: heard_def)

lemma heard_trans: "heard e f s s1 \<Longrightarrow> heard e g s1 s2 \<Longrightarrow> heard e (\<lambda>i. f i @ g i) s s2"
  by (simp add: heard_def)

lemma heardD: "heard e f s s' \<Longrightarrow> \<forall>i. out_ok (ps_out s' i)" "heard e f s s' \<Longrightarrow> ps_sub s' = ps_sub s"
  "heard e f s s' \<Longrightarrow> ps_channels s' = ps_channels s" "heard e f s s' \<Longrightarrow> ps_patterns s' = ps_patterns s"
  by (simp_all add: heard_def)

lemma to_client_heard:
  assumes "replies (e_junk e) (e_clk e) (e_ae_ok e) f t" "\<forall>i. out_ok (ps_out s i)"
  shows "\<exists>s'. to_client s i f = Some s' \<and> heard e (\<lambda>j. if j = i then t else []) s s'"
proof -
  obtain c where "f (ps_out s i) = Some c" "out_ok c" "writes (e_ae_ok e) c = writes (e_ae_ok e) (ps_out s i)"
    "queued c = queued (ps_out s i) @ (if writes (e_ae_ok e) (ps_out s i) then t else [])"
    using replies_out[OF assms(1)] assms(2) by blast
  then show ?thesis using assms(2) by (simp add: to_client_def heard_def)
qed

lemma kind_bulk_length: "length kind \<le> 20 \<Longrightarrow> length (kind_bulk kind) < 2 ^ 31"
  using length_int_repr_ll[of "of_nat (length kind)"] sint_of_length[of "length kind"] by (simp add: kind_bulk_def crlf_def bytes_of_string_def)

lemma star_replies: "replies (e_junk e) (e_clk e) (e_ae_ok e) (\<lambda>c. reply_shared e c (bytes_of_string [CHR ''*'', d])) (bytes_of_string [CHR ''*'', d] @ crlf)"
  by (rule shared_replies) (simp add: bytes_of_string_def)

lemma kind_replies: "length kind \<le> 20 \<Longrightarrow> replies (e_junk e) (e_clk e) (e_ae_ok e) (\<lambda>c. reply_shared e c (kind_bulk kind)) (kind_bulk kind @ crlf)"
  by (rule shared_replies) (rule kind_bulk_length)

lemma sub_reply_ok:
  assumes "length kind \<le> 20" "\<And>o1. channel = Some o1 \<Longrightarrow> obj_ok o1"
  shows "\<exists>t. replies (e_junk e) (e_clk e) (e_ae_ok e) (sub_reply e kind channel cnt) t"
proof -
  obtain t where "replies (e_junk e) (e_clk e) (e_ae_ok e) (\<lambda>c :: out_client. case channel of None \<Rightarrow> reply_shared e c (bytes_of_string ''$-1'')
      | Some o1 \<Rightarrow> addReplyBulk (e_junk e) (e_clk e) (e_ae_ok e) c o1) t"
    using shared_replies[of "bytes_of_string ''$-1''" e] bulk_replies[OF assms(2), of _ e] by (cases channel) (auto simp: bytes_of_string_def)
  from replies_bind[OF star_replies replies_bind[OF kind_replies[OF assms(1)] replies_bind[OF this int_replies]]]
  show ?thesis unfolding sub_reply_def[abs_def] by blast
qed

section \<open>The tables mirror each other\<close>

definition sub_arg :: "robj \<Rightarrow> bool" where
  "sub_arg o1 \<longleftrightarrow> plain o1 \<and> length (obj_text o1) < 2 ^ 31"

lemma sub_argD: "sub_arg o1 \<Longrightarrow> obj_ok o1" "sub_arg o1 \<Longrightarrow> plain o1"
  by (auto simp: sub_arg_def plain_def)

definition chans :: "pubsub \<Rightarrow> nat \<Rightarrow> bytes list" where
  "chans s i = map obj_text (sb_channels (ps_sub s i))"

definition pats :: "pubsub \<Rightarrow> nat \<Rightarrow> bytes list" where
  "pats s i = map obj_text (sb_patterns (ps_sub s i))"

definition listeners :: "pubsub \<Rightarrow> bytes \<Rightarrow> nat list" where
  "listeners s k = (case ps_channels s k of None \<Rightarrow> [] | Some l \<Rightarrow> l)"

definition pats_of :: "(nat \<times> robj) list \<Rightarrow> nat \<Rightarrow> bytes list" where
  "pats_of xs i = map (\<lambda>x. obj_text (snd x)) (filter (\<lambda>x. fst x = i) xs)"

definition channels_ok :: "pubsub \<Rightarrow> bool" where
  "channels_ok s \<longleftrightarrow> (\<forall>i. distinct (chans s i) \<and> list_all sub_arg (sb_channels (ps_sub s i))) \<and>
     (\<forall>k i. i \<in> set (listeners s k) \<longleftrightarrow> k \<in> set (chans s i)) \<and> (\<forall>k. distinct (listeners s k) \<and> ps_channels s k \<noteq> Some [])"

definition patterns_ok :: "pubsub \<Rightarrow> bool" where
  "patterns_ok s \<longleftrightarrow> (\<forall>i. distinct (pats s i) \<and> list_all sub_arg (sb_patterns (ps_sub s i)) \<and> (\<forall>p\<in>set (pats s i). parse p \<noteq> None) \<and>
     pats_of (ps_patterns s) i = pats s i) \<and> list_all (\<lambda>x. sub_arg (snd x)) (ps_patterns s)"

definition ps_ok :: "pubsub \<Rightarrow> bool" where
  "ps_ok s \<longleftrightarrow> (\<forall>i. out_ok (ps_out s i)) \<and> channels_ok s \<and> patterns_ok s"

definition subs :: "pubsub \<Rightarrow> nat \<Rightarrow> bytes list \<times> bytes list" where
  "subs s i = (chans s i, pats s i)"

lemma heard_tables:
  assumes "heard e f s s'"
  shows "channels_ok s' = channels_ok s" "patterns_ok s' = patterns_ok s" "subs s' = subs s"
  using heardD(2-4)[OF assms] by (simp_all add: channels_ok_def patterns_ok_def chans_def pats_def listeners_def subs_def fun_eq_iff)

text \<open>A step of a client on its own subscriptions: it returns, keeps the tables and the flag, and changes the
  subscriptions by \<open>g\<close>.\<close>

definition steps :: "nat \<Rightarrow> (bytes list \<times> bytes list \<Rightarrow> bytes list \<times> bytes list) \<Rightarrow> pubsub \<Rightarrow> pubsub \<Rightarrow> bool" where
  "steps me g s s' \<longleftrightarrow> ps_ok s' \<and> subs s' = (subs s)(me := g (subs s me)) \<and> (\<forall>i. sb_pubsub (ps_sub s' i) = sb_pubsub (ps_sub s i))"

lemma steps_refl: "ps_ok s \<Longrightarrow> steps me (\<lambda>x. x) s s"
  by (simp add: steps_def)

lemma steps_trans: "steps me g s s1 \<Longrightarrow> steps me h s1 s2 \<Longrightarrow> steps me (\<lambda>x. h (g x)) s s2"
  by (auto simp: steps_def)

lemma steps_heard: "steps me g s s1 \<Longrightarrow> heard e f s1 s2 \<Longrightarrow> steps me g s s2"
  by (auto simp: steps_def ps_ok_def heard_tables heardD)

lemma steps_notify:
  assumes "steps me g s s1" "length kind \<le> 20" "\<And>o1. channel = Some o1 \<Longrightarrow> obj_ok o1"
  shows "\<exists>s2. to_client s1 me (sub_reply e kind channel cnt) = Some s2 \<and> steps me g s s2"
proof -
  obtain t where "replies (e_junk e) (e_clk e) (e_ae_ok e) (sub_reply e kind channel cnt) t" using sub_reply_ok[OF assms(2,3)] by blast
  moreover have "\<forall>i. out_ok (ps_out s1 i)" using assms(1) by (simp add: steps_def ps_ok_def)
  ultimately show ?thesis using to_client_heard[of e _ t s1 me] steps_heard[OF assms(1)] by blast
qed

subsection \<open>Channels\<close>

definition add_sub :: "bytes \<Rightarrow> bytes list \<Rightarrow> bytes list" where
  "add_sub x xs = (if x \<in> set xs then xs else xs @ [x])"

definition del_sub :: "bytes \<Rightarrow> bytes list \<Rightarrow> bytes list" where
  "del_sub x xs = filter (\<lambda>y. y \<noteq> x) xs"

lemma upd_sub_simps [simp]: "ps_out (upd_sub s me f) = ps_out s" "ps_channels (upd_sub s me f) = ps_channels s"
  "ps_patterns (upd_sub s me f) = ps_patterns s" "ps_sub (upd_sub s me f) i = (if i = me then f (ps_sub s me) else ps_sub s i)"
  by (simp_all add: upd_sub_def)

lemma map_del: "map obj_text (filter (\<lambda>o1. obj_text o1 \<noteq> k) xs) = del_sub k (map obj_text xs)"
  by (simp add: del_sub_def filter_map comp_def)

lemma patterns_cong: "(\<And>i. sb_patterns (ps_sub s' i) = sb_patterns (ps_sub s i)) \<Longrightarrow> ps_patterns s' = ps_patterns s \<Longrightarrow> patterns_ok s' = patterns_ok s"
  by (simp add: patterns_ok_def pats_def)

lemma channels_cong: "(\<And>i. sb_channels (ps_sub s' i) = sb_channels (ps_sub s i)) \<Longrightarrow> ps_channels s' = ps_channels s \<Longrightarrow> channels_ok s' = channels_ok s"
  by (simp add: channels_ok_def chans_def listeners_def)

lemma add_channel:
  assumes "ps_ok s" "sub_arg channel" "obj_text channel \<notin> set (chans s me)"
  defines "s1 \<equiv> upd_sub s me (\<lambda>b. b\<lparr>sb_channels := sb_channels b @ [channel]\<rparr>)"
  shows "steps me (\<lambda>(cs, ps). (add_sub (obj_text channel) cs, ps)) s
    (s1\<lparr>ps_channels := (ps_channels s1)(obj_text channel \<mapsto> (case ps_channels s1 (obj_text channel) of None \<Rightarrow> [] | Some l \<Rightarrow> l) @ [me])\<rparr>)"
    (is "steps me ?g s ?s2")
proof -
  let ?k = "obj_text channel"
  have c: "chans ?s2 = (chans s)(me := chans s me @ [?k])" by (auto simp: chans_def s1_def fun_eq_iff)
  have l: "listeners ?s2 = (listeners s)(?k := listeners s ?k @ [me])" by (auto simp: listeners_def s1_def fun_eq_iff)
  have ok: "channels_ok s" "patterns_ok s" using assms(1) by (simp_all add: ps_ok_def)
  have "me \<notin> set (listeners s ?k)" using ok(1) assms(3) by (simp add: channels_ok_def)
  then have "channels_ok ?s2" using ok(1) assms(2,3) unfolding channels_ok_def c l by (auto simp: s1_def)
  moreover have "patterns_ok ?s2" using ok(2) by (subst patterns_cong[of _ s]) (auto simp: s1_def)
  moreover have "pats ?s2 = pats s" by (simp add: pats_def s1_def fun_eq_iff)
  then have "subs ?s2 = (subs s)(me := ?g (subs s me))" using assms(3) by (simp add: subs_def fun_eq_iff c add_sub_def)
  moreover have "\<forall>i. out_ok (ps_out ?s2 i)" "\<forall>i. sb_pubsub (ps_sub ?s2 i) = sb_pubsub (ps_sub s i)"
    using assms(1) by (simp_all add: s1_def ps_ok_def)
  ultimately show ?thesis unfolding steps_def ps_ok_def by blast
qed

lemma subscribe_channel_ok:
  assumes "ps_ok s" "sub_arg channel"
  shows "\<exists>s' b. pubsubSubscribeChannel e s me channel = Some (s', b) \<and> steps me (\<lambda>(cs, ps). (add_sub (obj_text channel) cs, ps)) s s'"
proof (cases "obj_text channel \<in> set (chans s me)")
  case True
  then have "steps me (\<lambda>(cs, ps). (add_sub (obj_text channel) cs, ps)) s s" using assms(1) by (auto simp: steps_def subs_def add_sub_def)
  from steps_notify[OF this, of "''subscribe''" "Some channel" e "clientSubscriptionsCount s me"] sub_argD(1)[OF assms(2)] True
  show ?thesis by (auto simp: pubsubSubscribeChannel_def chans_def)
next
  case False
  define s1 where "s1 = upd_sub s me (\<lambda>b. b\<lparr>sb_channels := sb_channels b @ [channel]\<rparr>)"
  define s2 where "s2 = s1\<lparr>ps_channels := (ps_channels s1)(obj_text channel \<mapsto> (case ps_channels s1 (obj_text channel) of None \<Rightarrow> [] | Some l \<Rightarrow> l) @ [me])\<rparr>"
  have "steps me (\<lambda>(cs, ps). (add_sub (obj_text channel) cs, ps)) s s2" using add_channel[OF assms False] by (simp only: s1_def s2_def)
  from steps_notify[OF this, of "''subscribe''" "Some channel" e "clientSubscriptionsCount s2 me"] sub_argD(1)[OF assms(2)]
  obtain s3 where "to_client s2 me (sub_reply e ''subscribe'' (Some channel) (clientSubscriptionsCount s2 me)) = Some s3"
    "steps me (\<lambda>(cs, ps). (add_sub (obj_text channel) cs, ps)) s s3" by auto
  then show ?thesis using False by (auto simp: pubsubSubscribeChannel_def chans_def Let_def s1_def[symmetric] s2_def[symmetric] simp del: upd_sub_simps)
qed

lemma remove_channel:
  assumes "ps_ok s" "obj_text channel \<in> set (chans s me)"
  shows "\<exists>l. ps_channels s (obj_text channel) = Some l \<and> me \<in> set l \<and>
    steps me (\<lambda>(cs, ps). (del_sub (obj_text channel) cs, ps)) s
      ((upd_sub s me (\<lambda>b. b\<lparr>sb_channels := filter (\<lambda>o1. obj_text o1 \<noteq> obj_text channel) (sb_channels b)\<rparr>))
        \<lparr>ps_channels := (ps_channels s)(obj_text channel := if remove1 me l = [] then None else Some (remove1 me l))\<rparr>)"
proof -
  let ?k = "obj_text channel"
  have ok: "channels_ok s" "patterns_ok s" using assms(1) by (simp_all add: ps_ok_def)
  have "me \<in> set (listeners s ?k)" using ok(1) assms(2) by (simp add: channels_ok_def)
  then obtain l where l: "ps_channels s ?k = Some l" "me \<in> set l" "listeners s ?k = l" by (cases "ps_channels s ?k") (auto simp: listeners_def)
  let ?s2 = "(upd_sub s me (\<lambda>b. b\<lparr>sb_channels := filter (\<lambda>o1. obj_text o1 \<noteq> ?k) (sb_channels b)\<rparr>))
        \<lparr>ps_channels := (ps_channels s)(?k := if remove1 me l = [] then None else Some (remove1 me l))\<rparr>"
  have c: "chans ?s2 = (chans s)(me := del_sub ?k (chans s me))" by (auto simp: chans_def fun_eq_iff map_del)
  have ls: "listeners ?s2 = (listeners s)(?k := remove1 me l)" by (auto simp: listeners_def fun_eq_iff)
  have d: "distinct l" using ok(1) l(3) by (auto simp: channels_ok_def)
  have "i \<in> set (listeners ?s2 k) \<longleftrightarrow> k \<in> set (chans ?s2 i)" for i k
    using ok(1) l(3) d unfolding c ls channels_ok_def by (auto simp: del_sub_def)
  moreover have "distinct (chans ?s2 i) \<and> list_all sub_arg (sb_channels (ps_sub ?s2 i))" for i
    using ok(1) unfolding c channels_ok_def by (auto simp: del_sub_def list_all_iff)
  moreover have "distinct (listeners ?s2 k) \<and> ps_channels ?s2 k \<noteq> Some []" for k
    using ok(1) d unfolding ls channels_ok_def by auto
  ultimately have "channels_ok ?s2" unfolding channels_ok_def by blast
  moreover have "patterns_ok ?s2" using ok(2) by (subst patterns_cong[of _ s]) auto
  moreover have "pats ?s2 = pats s" by (simp add: pats_def fun_eq_iff)
  ultimately have "steps me (\<lambda>(cs, ps). (del_sub ?k cs, ps)) s ?s2" using assms(1) by (auto simp: steps_def ps_ok_def subs_def fun_eq_iff c)
  then show ?thesis using l by blast
qed

lemma notify_if:
  assumes "steps me g s s1" "length kind \<le> 20" "\<And>o1. channel = Some o1 \<Longrightarrow> obj_ok o1"
  shows "\<exists>s2. (if notify then to_client s1 me (sub_reply e kind channel cnt) else Some s1) = Some s2 \<and> steps me g s s2"
  using steps_notify[OF assms] assms(1) by (cases notify) auto

lemma unsubscribe_channel_ok:
  assumes "ps_ok s" "sub_arg channel"
  shows "\<exists>s' b. pubsubUnsubscribeChannel e s me channel notify = Some (s', b) \<and> steps me (\<lambda>(cs, ps). (del_sub (obj_text channel) cs, ps)) s s' \<and>
    b = (obj_text channel \<in> set (chans s me))"
proof (cases "obj_text channel \<in> set (chans s me)")
  case False
  then have "del_sub (obj_text channel) (chans s me) = chans s me" by (auto simp: del_sub_def filter_id_conv)
  then have "steps me (\<lambda>(cs, ps). (del_sub (obj_text channel) cs, ps)) s s" using assms(1) by (auto simp: steps_def subs_def)
  from notify_if[OF this, of "''unsubscribe''" "Some channel" notify e "clientSubscriptionsCount s me"] sub_argD(1)[OF assms(2)] False
  show ?thesis by (auto simp: pubsubUnsubscribeChannel_def chans_def simp del: if_split_asm)
next
  case True
  obtain l where l: "ps_channels s (obj_text channel) = Some l" "me \<in> set l"
    "steps me (\<lambda>(cs, ps). (del_sub (obj_text channel) cs, ps)) s
      ((upd_sub s me (\<lambda>b. b\<lparr>sb_channels := filter (\<lambda>o1. obj_text o1 \<noteq> obj_text channel) (sb_channels b)\<rparr>))
        \<lparr>ps_channels := (ps_channels s)(obj_text channel := if remove1 me l = [] then None else Some (remove1 me l))\<rparr>)"
    (is "steps me ?g s ?s1")
    using remove_channel[OF assms(1) True] by blast
  obtain s2 where s2: "(if notify then to_client ?s1 me (sub_reply e ''unsubscribe'' (Some channel) (clientSubscriptionsCount ?s1 me)) else Some ?s1) = Some s2"
    "steps me ?g s s2"
    using notify_if[OF l(3), of "''unsubscribe''" "Some channel" notify e] sub_argD(1)[OF assms(2)] by auto
  have "pubsubUnsubscribeChannel e s me channel notify = do { s \<leftarrow> (if notify then to_client ?s1 me (sub_reply e ''unsubscribe'' (Some channel) (clientSubscriptionsCount ?s1 me)) else Some ?s1); Some (s, True) }"
    using True l(1,2) unfolding pubsubUnsubscribeChannel_def chans_def by (simp add: Let_def)
  then have "pubsubUnsubscribeChannel e s me channel notify = Some (s2, True)" unfolding s2(1) by simp
  then show ?thesis using s2(2) True by blast
qed

subsection \<open>Patterns\<close>

text \<open>Searching a list in which at most one node matches, and unlinking that node.\<close>

lemma search_del:
  assumes "\<And>x. x \<in> set xs \<Longrightarrow> match x key = Some (P x)" "length (filter P xs) \<le> 1"
  shows "if \<exists>x\<in>set xs. P x then \<exists>n. listSearchKey match xs key = Some (Some n) \<and> listDelNode xs n = filter (\<lambda>x. \<not> P x) xs
    else listSearchKey match xs key = Some None"
  using assms
proof (induction xs)
  case (Cons x xs)
  show ?case
  proof (cases "P x")
    case True
    then have "filter P xs = []" using Cons.prems(2) by simp
    then have "filter (\<lambda>x. \<not> P x) xs = xs" by (auto simp: filter_empty_conv filter_id_conv)
    then show ?thesis using True Cons.prems(1)[of x] by (auto simp: listDelNode_def)
  next
    case False
    have IH: "if \<exists>x\<in>set xs. P x then \<exists>n. listSearchKey match xs key = Some (Some n) \<and> listDelNode xs n = filter (\<lambda>x. \<not> P x) xs
      else listSearchKey match xs key = Some None"
      using Cons False by simp
    have d: "listDelNode (x # xs) (Suc n) = x # listDelNode xs n" for n by (simp add: listDelNode_def)
    show ?thesis using IH False Cons.prems(1)[of x] d by (cases "\<exists>x\<in>set xs. P x") auto
  qed
qed simp

lemma filter_distinct: "distinct (map f xs) \<Longrightarrow> length (filter (\<lambda>x. f x = k) xs) \<le> 1"
proof (induction xs)
  case (Cons x xs)
  then show ?case by (cases "f x = k") (auto simp: filter_empty_conv image_iff)
qed simp

lemma same_object_ok: "sub_arg a \<Longrightarrow> sub_arg b \<Longrightarrow> same_object e a b = Some (obj_text a = obj_text b)"
  unfolding same_object_def by (rule equal_ok) (auto simp: sub_arg_def plain_def)

lemma match_ok: "sub_arg (snd a) \<Longrightarrow> sub_arg (snd b) \<Longrightarrow> listMatchPubsubPattern e a b = Some (fst a = fst b \<and> obj_text (snd a) = obj_text (snd b))"
  by (simp add: listMatchPubsubPattern_def same_object_ok)

lemma own_search:
  assumes "patterns_ok s" "sub_arg p"
  shows "if obj_text p \<in> set (pats s me) then \<exists>n. listSearchKey (same_object e) (sb_patterns (ps_sub s me)) p = Some (Some n) \<and>
      listDelNode (sb_patterns (ps_sub s me)) n = filter (\<lambda>x. obj_text x \<noteq> obj_text p) (sb_patterns (ps_sub s me))
    else listSearchKey (same_object e) (sb_patterns (ps_sub s me)) p = Some None"
proof -
  have "distinct (map obj_text (sb_patterns (ps_sub s me)))" "list_all sub_arg (sb_patterns (ps_sub s me))"
    using assms(1) by (auto simp: patterns_ok_def pats_def)
  then have "if \<exists>x\<in>set (sb_patterns (ps_sub s me)). obj_text x = obj_text p
    then \<exists>n. listSearchKey (same_object e) (sb_patterns (ps_sub s me)) p = Some (Some n) \<and>
      listDelNode (sb_patterns (ps_sub s me)) n = filter (\<lambda>x. \<not> obj_text x = obj_text p) (sb_patterns (ps_sub s me))
    else listSearchKey (same_object e) (sb_patterns (ps_sub s me)) p = Some None"
    using assms(2) by (intro search_del filter_distinct same_object_ok) (auto simp: list_all_iff)
  moreover have "(\<exists>x\<in>set (sb_patterns (ps_sub s me)). obj_text x = obj_text p) \<longleftrightarrow> obj_text p \<in> set (pats s me)"
    unfolding pats_def set_map image_iff by metis
  ultimately show ?thesis by simp
qed

lemma server_search:
  assumes "patterns_ok s" "sub_arg p" "obj_text p \<in> set (pats s me)"
  shows "\<exists>n. listSearchKey (listMatchPubsubPattern e) (ps_patterns s) (me, p) = Some (Some n) \<and>
    listDelNode (ps_patterns s) n = filter (\<lambda>x. \<not> (fst x = me \<and> obj_text (snd x) = obj_text p)) (ps_patterns s)"
proof -
  let ?P = "\<lambda>x. fst x = me \<and> obj_text (snd x) = obj_text p"
  have po: "pats_of (ps_patterns s) me = pats s me" "distinct (pats s me)" "list_all (\<lambda>x. sub_arg (snd x)) (ps_patterns s)"
    using assms(1) by (auto simp: patterns_ok_def)
  have "distinct (map (\<lambda>x. obj_text (snd x)) (filter (\<lambda>x. fst x = me) (ps_patterns s)))" using po(1,2) by (simp add: pats_of_def)
  from filter_distinct[OF this, of "obj_text p"] have "length (filter ?P (ps_patterns s)) \<le> 1" by (simp add: conj_commute)
  then have "if \<exists>x\<in>set (ps_patterns s). ?P x then \<exists>n. listSearchKey (listMatchPubsubPattern e) (ps_patterns s) (me, p) = Some (Some n) \<and>
      listDelNode (ps_patterns s) n = filter (\<lambda>x. \<not> ?P x) (ps_patterns s)
    else listSearchKey (listMatchPubsubPattern e) (ps_patterns s) (me, p) = Some None"
    using po(3) assms(2) by (intro search_del) (auto simp: match_ok list_all_iff)
  moreover have "\<exists>x\<in>set (ps_patterns s). ?P x" using assms(3) unfolding po(1)[symmetric] by (auto simp: pats_of_def)
  ultimately show ?thesis by simp
qed

lemma decoded_arg: "sub_arg p \<Longrightarrow> \<exists>d. getDecodedObject junk clk p = Some d \<and> sub_arg d \<and> obj_text d = obj_text p"
proof -
  assume p: "sub_arg p"
  then have "sdsEncodedObject p" by (auto simp: sub_arg_def plain_def elim!: obj_ok_cases)
  moreover have "obj_ok (incrRefCount p)" "obj_text (incrRefCount p) = obj_text p"
    using sub_argD(1)[OF p] by (auto simp: obj_ok_def incrRefCount_def obj_text_def)
  ultimately show ?thesis using p by (auto simp: getDecodedObject_def sub_arg_def plain_def) (simp add: incrRefCount_def)
qed

lemma pats_of_simps: "pats_of (xs @ ys) i = pats_of xs i @ pats_of ys i" "pats_of [(j, d)] i = (if j = i then [obj_text d] else [])"
  by (simp_all add: pats_of_def)

lemma add_pattern:
  assumes "ps_ok s" "sub_arg p" "sub_arg d" "obj_text d = obj_text p" "parse (obj_text p) \<noteq> None" "obj_text p \<notin> set (pats s me)"
  defines "s2 \<equiv> (upd_sub s me (\<lambda>b. b\<lparr>sb_patterns := sb_patterns b @ [p]\<rparr>))\<lparr>ps_patterns := ps_patterns s @ [(me, d)]\<rparr>"
  shows "steps me (\<lambda>(cs, ps). (cs, add_sub (obj_text p) ps)) s s2"
proof -
  have c: "pats s2 = (pats s)(me := pats s me @ [obj_text p])" by (auto simp: pats_def s2_def fun_eq_iff)
  have ok: "channels_ok s" "patterns_ok s" using assms(1) by (simp_all add: ps_ok_def)
  have "patterns_ok s2" using ok(2) assms(2-6) unfolding patterns_ok_def c by (auto simp: s2_def pats_of_simps)
  moreover have "channels_ok s2" using ok(1) by (subst channels_cong[of _ s]) (auto simp: s2_def)
  moreover have "chans s2 = chans s" by (simp add: chans_def s2_def fun_eq_iff)
  ultimately show ?thesis using assms(1,6) unfolding steps_def ps_ok_def subs_def fun_eq_iff c by (auto simp: add_sub_def s2_def)
qed

lemma subscribe_pattern_ok:
  assumes "ps_ok s" "sub_arg p" "parse (obj_text p) \<noteq> None"
  shows "\<exists>s' b. pubsubSubscribePattern e s me p = Some (s', b) \<and> steps me (\<lambda>(cs, ps). (cs, add_sub (obj_text p) ps)) s s'"
proof (cases "obj_text p \<in> set (pats s me)")
  case True
  then obtain n where n: "listSearchKey (same_object e) (sb_patterns (ps_sub s me)) p = Some (Some n)"
    using own_search[of s p me e] assms by (auto simp: ps_ok_def)
  have "steps me (\<lambda>(cs, ps). (cs, add_sub (obj_text p) ps)) s s" using assms(1) True by (auto simp: steps_def subs_def add_sub_def)
  from steps_notify[OF this, of "''psubscribe''" "Some p" e "clientSubscriptionsCount s me"] sub_argD(1)[OF assms(2)]
  show ?thesis by (auto simp: pubsubSubscribePattern_def n)
next
  case False
  then have n: "listSearchKey (same_object e) (sb_patterns (ps_sub s me)) p = Some None"
    using own_search[of s p me e] assms by (auto simp: ps_ok_def)
  obtain d where d: "getDecodedObject (e_junk e) (e_clk e) p = Some d" "sub_arg d" "obj_text d = obj_text p" using decoded_arg[OF assms(2)] by blast
  define s2 where "s2 = (upd_sub s me (\<lambda>b. b\<lparr>sb_patterns := sb_patterns b @ [p]\<rparr>))\<lparr>ps_patterns := ps_patterns s @ [(me, d)]\<rparr>"
  have "steps me (\<lambda>(cs, ps). (cs, add_sub (obj_text p) ps)) s s2" unfolding s2_def by (rule add_pattern[OF assms(1,2) d(2,3) assms(3) False])
  from steps_notify[OF this, of "''psubscribe''" "Some p" e "clientSubscriptionsCount s2 me"] sub_argD(1)[OF assms(2)]
  obtain s3 where "to_client s2 me (sub_reply e ''psubscribe'' (Some p) (clientSubscriptionsCount s2 me)) = Some s3"
    "steps me (\<lambda>(cs, ps). (cs, add_sub (obj_text p) ps)) s s3" by auto
  then show ?thesis by (auto simp: pubsubSubscribePattern_def n d(1) Let_def s2_def[symmetric])
qed

lemma remove_pattern:
  assumes "ps_ok s" "obj_text p \<in> set (pats s me)"
  defines "s2 \<equiv> (upd_sub s me (\<lambda>b. b\<lparr>sb_patterns := filter (\<lambda>x. obj_text x \<noteq> obj_text p) (sb_patterns (ps_sub s me))\<rparr>))
      \<lparr>ps_patterns := filter (\<lambda>x. \<not> (fst x = me \<and> obj_text (snd x) = obj_text p)) (ps_patterns s)\<rparr>"
  shows "steps me (\<lambda>(cs, ps). (cs, del_sub (obj_text p) ps)) s s2"
proof -
  have c: "pats s2 = (pats s)(me := del_sub (obj_text p) (pats s me))" by (auto simp: pats_def s2_def fun_eq_iff map_del)
  have po: "pats_of (ps_patterns s2) i = (if i = me then del_sub (obj_text p) (pats_of (ps_patterns s) me) else pats_of (ps_patterns s) i)" for i
    by (auto simp: pats_of_def s2_def del_sub_def filter_map comp_def intro!: arg_cong[of _ _ "map _"] filter_cong)
  have ok: "channels_ok s" "patterns_ok s" using assms(1) by (simp_all add: ps_ok_def)
  have "patterns_ok s2" using ok(2) unfolding patterns_ok_def c po by (auto simp: s2_def list_all_iff del_sub_def)
  moreover have "channels_ok s2" using ok(1) by (subst channels_cong[of _ s]) (auto simp: s2_def)
  moreover have "chans s2 = chans s" by (simp add: chans_def s2_def fun_eq_iff)
  ultimately show ?thesis using assms(1) unfolding steps_def ps_ok_def subs_def fun_eq_iff c by (auto simp: s2_def)
qed

lemma unsubscribe_pattern_ok:
  assumes "ps_ok s" "sub_arg p"
  shows "\<exists>s' b. pubsubUnsubscribePattern e s me p notify = Some (s', b) \<and> steps me (\<lambda>(cs, ps). (cs, del_sub (obj_text p) ps)) s s' \<and>
    b = (obj_text p \<in> set (pats s me))"
proof (cases "obj_text p \<in> set (pats s me)")
  case False
  then have n: "listSearchKey (same_object e) (sb_patterns (ps_sub s me)) p = Some None"
    using own_search[of s p me e] assms by (auto simp: ps_ok_def)
  have "del_sub (obj_text p) (pats s me) = pats s me" using False by (auto simp: del_sub_def filter_id_conv)
  then have "steps me (\<lambda>(cs, ps). (cs, del_sub (obj_text p) ps)) s s" using assms(1) by (auto simp: steps_def subs_def)
  from notify_if[OF this, of "''punsubscribe''" "Some p" notify e "clientSubscriptionsCount s me"] sub_argD(1)[OF assms(2)]
  obtain s3 where "(if notify then to_client s me (sub_reply e ''punsubscribe'' (Some p) (clientSubscriptionsCount s me)) else Some s) = Some s3"
    "steps me (\<lambda>(cs, ps). (cs, del_sub (obj_text p) ps)) s s3" by auto
  then show ?thesis using False unfolding pubsubUnsubscribePattern_def n by (intro exI[of _ s3] exI[of _ False]) simp
next
  case True
  have po: "patterns_ok s" using assms(1) by (simp add: ps_ok_def)
  obtain n where n: "listSearchKey (same_object e) (sb_patterns (ps_sub s me)) p = Some (Some n)"
    "listDelNode (sb_patterns (ps_sub s me)) n = filter (\<lambda>x. obj_text x \<noteq> obj_text p) (sb_patterns (ps_sub s me))"
    using own_search[OF po assms(2), of me e] True by auto
  obtain m where m: "listSearchKey (listMatchPubsubPattern e) (ps_patterns s) (me, p) = Some (Some m)"
    "listDelNode (ps_patterns s) m = filter (\<lambda>x. \<not> (fst x = me \<and> obj_text (snd x) = obj_text p)) (ps_patterns s)"
    using server_search[OF po assms(2) True, of e] by blast
  define s2 where "s2 = (upd_sub s me (\<lambda>b. b\<lparr>sb_patterns := listDelNode (sb_patterns b) n\<rparr>))\<lparr>ps_patterns := listDelNode (ps_patterns s) m\<rparr>"
  have s2: "s2 = (upd_sub s me (\<lambda>b. b\<lparr>sb_patterns := filter (\<lambda>x. obj_text x \<noteq> obj_text p) (sb_patterns (ps_sub s me))\<rparr>))
      \<lparr>ps_patterns := filter (\<lambda>x. \<not> (fst x = me \<and> obj_text (snd x) = obj_text p)) (ps_patterns s)\<rparr>"
    unfolding s2_def m(2) by (simp add: upd_sub_def n(2))
  have "steps me (\<lambda>(cs, ps). (cs, del_sub (obj_text p) ps)) s s2" unfolding s2 by (rule remove_pattern[OF assms(1) True])
  from notify_if[OF this, of "''punsubscribe''" "Some p" notify e "clientSubscriptionsCount s2 me"] sub_argD(1)[OF assms(2)]
  obtain s3 where s3: "(if notify then to_client s2 me (sub_reply e ''punsubscribe'' (Some p) (clientSubscriptionsCount s2 me)) else Some s2) = Some s3"
    "steps me (\<lambda>(cs, ps). (cs, del_sub (obj_text p) ps)) s s3" by auto
  have "pubsubUnsubscribePattern e s me p notify =
    do { s \<leftarrow> (if notify then to_client s2 me (sub_reply e ''punsubscribe'' (Some p) (clientSubscriptionsCount s2 me)) else Some s2); Some (s, True) }"
    unfolding pubsubUnsubscribePattern_def n(1) by (simp add: m(1) s2_def[symmetric])
  then have "pubsubUnsubscribePattern e s me p notify = Some (s3, True)" unfolding s3(1) by simp
  then show ?thesis using s3(2) True by blast
qed

section \<open>Commands\<close>

lemma each_arg_ok:
  assumes "\<And>s a. ps_ok s \<Longrightarrow> a \<in> set as \<Longrightarrow> \<exists>s' b. f s a = Some (s', b) \<and> steps me (g (obj_text a)) s s'" "ps_ok s"
  shows "\<exists>s' m. each_arg f s as n = Some (s', m) \<and> steps me (fold g (map obj_text as)) s s'"
  using assms
proof (induction as arbitrary: s n)
  case Nil
  then show ?case using steps_refl by (auto simp: id_def)
next
  case (Cons a as)
  obtain s1 b where s1: "f s a = Some (s1, b)" "steps me (g (obj_text a)) s s1" using Cons.prems by fastforce
  then have "ps_ok s1" by (simp add: steps_def)
  then obtain s2 m where s2: "each_arg f s1 as (if b then n + 1 else n) = Some (s2, m)" "steps me (fold g (map obj_text as)) s1 s2"
    using Cons.IH[of s1 "if b then n + 1 else n"] Cons.prems(1) by auto
  have "steps me (\<lambda>x. fold g (map obj_text as) (g (obj_text a) x)) s s2" by (rule steps_trans[OF s1(2) s2(2)])
  then show ?case using s1(1) s2(1) by (auto simp: comp_def)
qed

text \<open>The abstract state: the channels and the patterns of every client, in the order of subscription.\<close>

type_synonym abs_subs = "nat \<Rightarrow> bytes list \<times> bytes list"

definition sub_channel :: "bytes \<Rightarrow> bytes list \<times> bytes list \<Rightarrow> bytes list \<times> bytes list" where
  "sub_channel k = (\<lambda>(cs, ps). (add_sub k cs, ps))"

definition unsub_channel :: "bytes \<Rightarrow> bytes list \<times> bytes list \<Rightarrow> bytes list \<times> bytes list" where
  "unsub_channel k = (\<lambda>(cs, ps). (del_sub k cs, ps))"

definition sub_pattern :: "bytes \<Rightarrow> bytes list \<times> bytes list \<Rightarrow> bytes list \<times> bytes list" where
  "sub_pattern k = (\<lambda>(cs, ps). (cs, add_sub k ps))"

definition unsub_pattern :: "bytes \<Rightarrow> bytes list \<times> bytes list \<Rightarrow> bytes list \<times> bytes list" where
  "unsub_pattern k = (\<lambda>(cs, ps). (cs, del_sub k ps))"

lemmas channel_steps = subscribe_channel_ok[folded sub_channel_def] unsubscribe_channel_ok[folded unsub_channel_def]
lemmas pattern_steps = subscribe_pattern_ok[folded sub_pattern_def] unsubscribe_pattern_ok[folded unsub_pattern_def]

lemma unsub_all: "fold unsub_channel ks (cs, ps) = (filter (\<lambda>k. k \<notin> set ks) cs, ps)"
  by (induction ks arbitrary: cs) (auto simp: unsub_channel_def del_sub_def intro!: filter_cong)

lemma unsub_all_patterns: "fold unsub_pattern ks (cs, ps) = (cs, filter (\<lambda>k. k \<notin> set ks) ps)"
  by (induction ks arbitrary: ps) (auto simp: unsub_pattern_def del_sub_def intro!: filter_cong)

lemma steps_eq: "steps me g s s' \<Longrightarrow> g (subs s me) = h (subs s me) \<Longrightarrow> steps me h s s'"
  by (simp add: steps_def)

lemma all_channels_ok:
  assumes "ps_ok s" "\<And>xs. set (order xs) = set xs"
  shows "\<exists>s' n. pubsubUnsubscribeAllChannels e order s me notify = Some (s', n) \<and> steps me (\<lambda>x. ([], snd x)) s s'"
proof -
  let ?as = "order (sb_channels (ps_sub s me))"
  have "\<forall>a\<in>set ?as. sub_arg a" using assms by (auto simp: ps_ok_def channels_ok_def list_all_iff)
  then have "\<exists>s' m. each_arg (\<lambda>s channel. pubsubUnsubscribeChannel e s me channel notify) s ?as 0 = Some (s', m) \<and>
      steps me (fold unsub_channel (map obj_text ?as)) s s'"
    using assms(1) channel_steps(2) by (intro each_arg_ok) blast+
  then obtain s1 m where s1: "each_arg (\<lambda>s channel. pubsubUnsubscribeChannel e s me channel notify) s ?as 0 = Some (s1, m)"
    "steps me (fold unsub_channel (map obj_text ?as)) s s1" by blast
  have "steps me (\<lambda>x. ([], snd x)) s s1"
    by (rule steps_eq[OF s1(2)]) (simp add: subs_def unsub_all chans_def assms(2) filter_empty_conv)
  from notify_if[OF this, of "''unsubscribe''" None "notify \<and> m = 0" e "clientSubscriptionsCount s1 me"] s1(1)
  show ?thesis unfolding pubsubUnsubscribeAllChannels_def by auto
qed

lemma all_patterns_ok:
  assumes "ps_ok s"
  shows "\<exists>s' n. pubsubUnsubscribeAllPatterns e s me notify = Some (s', n) \<and> steps me (\<lambda>x. (fst x, [])) s s'"
proof -
  let ?as = "sb_patterns (ps_sub s me)"
  have "\<forall>a\<in>set ?as. sub_arg a" using assms by (auto simp: ps_ok_def patterns_ok_def list_all_iff)
  then have "\<exists>s' m. each_arg (\<lambda>s p. pubsubUnsubscribePattern e s me p notify) s ?as 0 = Some (s', m) \<and>
      steps me (fold unsub_pattern (map obj_text ?as)) s s'"
    using assms(1) pattern_steps(2) by (intro each_arg_ok) blast+
  then obtain s1 m where s1: "each_arg (\<lambda>s p. pubsubUnsubscribePattern e s me p notify) s ?as 0 = Some (s1, m)"
    "steps me (fold unsub_pattern (map obj_text ?as)) s s1" by blast
  have "steps me (\<lambda>x. (fst x, [])) s s1"
    by (rule steps_eq[OF s1(2)]) (simp add: subs_def unsub_all_patterns pats_def filter_empty_conv)
  from notify_if[OF this, of "''punsubscribe''" None "notify \<and> m = 0" e "clientSubscriptionsCount s1 me"] s1(1)
  show ?thesis unfolding pubsubUnsubscribeAllPatterns_def by auto
qed

text \<open>The flag of the client is set exactly while it has subscriptions.\<close>

definition flags_ok :: "pubsub \<Rightarrow> bool" where
  "flags_ok s \<longleftrightarrow> (\<forall>i. sb_pubsub (ps_sub s i) \<longleftrightarrow> subs s i \<noteq> ([], []))"

lemma count_zero: "clientSubscriptionsCount s i = 0 \<longleftrightarrow> subs s i = ([], [])"
  by (simp add: clientSubscriptionsCount_def subs_def chans_def pats_def)

lemma flag_tables: "ps_ok (upd_sub s me (\<lambda>b. b\<lparr>sb_pubsub := v\<rparr>)) = ps_ok s" "subs (upd_sub s me (\<lambda>b. b\<lparr>sb_pubsub := v\<rparr>)) = subs s"
proof -
  let ?s = "upd_sub s me (\<lambda>b. b\<lparr>sb_pubsub := v\<rparr>)"
  have "channels_ok ?s = channels_ok s" "patterns_ok ?s = patterns_ok s" by (rule channels_cong patterns_cong; simp)+
  then show "ps_ok ?s = ps_ok s" by (simp add: ps_ok_def)
  show "subs ?s = subs s" by (auto simp: subs_def chans_def pats_def fun_eq_iff)
qed

lemma set_flag:
  assumes "steps me g s s'" "flags_ok s" "g (subs s me) \<noteq> ([], [])"
  defines "s2 \<equiv> upd_sub s' me (\<lambda>b. b\<lparr>sb_pubsub := True\<rparr>)"
  shows "ps_ok s2 \<and> flags_ok s2 \<and> subs s2 = (subs s)(me := g (subs s me))"
proof -
  have "subs s2 = (subs s)(me := g (subs s me))" "ps_ok s2" using assms(1) by (simp_all add: s2_def flag_tables steps_def)
  then show ?thesis using assms(1-3) by (auto simp: flags_ok_def s2_def steps_def)
qed

lemma clear_flag:
  assumes "steps me g s s'" "flags_ok s" "g (subs s me) \<noteq> ([], []) \<Longrightarrow> subs s me \<noteq> ([], [])"
  shows "ps_ok (clear_pubsub s' me) \<and> flags_ok (clear_pubsub s' me) \<and> subs (clear_pubsub s' me) = (subs s)(me := g (subs s me))"
proof -
  have "subs (clear_pubsub s' me) = (subs s)(me := g (subs s me))" "ps_ok (clear_pubsub s' me)"
    using assms(1) by (simp_all add: clear_pubsub_def flag_tables steps_def)
  then show ?thesis using assms by (auto simp: flags_ok_def clear_pubsub_def steps_def count_zero)
qed

lemma fold_nonempty:
  assumes "ks \<noteq> []"
  shows "fold sub_channel ks x \<noteq> ([], [])" "fold sub_pattern ks x \<noteq> ([], [])"
proof -
  have step: "fst (sub_channel k y) \<noteq> []" "snd (sub_pattern k y) \<noteq> []" for k y
    by (cases y; auto simp: sub_channel_def sub_pattern_def add_sub_def)+
  have "fst (fold sub_channel ks x) \<noteq> []" if "fst x \<noteq> [] \<or> ks \<noteq> []" using that
    by (induction ks arbitrary: x) (simp_all add: step)
  moreover have "snd (fold sub_pattern ks x) \<noteq> []" if "snd x \<noteq> [] \<or> ks \<noteq> []" using that
    by (induction ks arbitrary: x) (simp_all add: step)
  ultimately show "fold sub_channel ks x \<noteq> ([], [])" "fold sub_pattern ks x \<noteq> ([], [])" using assms by auto
qed

section \<open>Publishing\<close>

definition matches :: "bytes \<Rightarrow> bytes \<Rightarrow> bool" where
  "matches p k = (case parse p of None \<Rightarrow> False | Some ts \<Rightarrow> gmatch False ts k)"

definition message_text :: "bytes \<Rightarrow> bytes \<Rightarrow> bytes" where
  "message_text k m = bytes_of_string ''*3'' @ crlf @ kind_bulk ''message'' @ crlf @ bulk_reply k @ bulk_reply m"

definition pmessage_text :: "bytes \<Rightarrow> bytes \<Rightarrow> bytes \<Rightarrow> bytes" where
  "pmessage_text k m p = bytes_of_string ''*4'' @ crlf @ kind_bulk ''pmessage'' @ crlf @ bulk_reply p @ bulk_reply k @ bulk_reply m"

lemma message_replies:
  assumes "obj_ok channel" "obj_ok message"
  shows "replies (e_junk e) (e_clk e) (e_ae_ok e) (message_reply e channel message) (message_text (obj_text channel) (obj_text message))"
  using replies_bind[OF star_replies[of e "CHR ''3''"] replies_bind[OF kind_replies[of "''message''" e] replies_bind[OF bulk_replies[OF assms(1), of e] bulk_replies[OF assms(2), of e]]]]
  by (simp add: message_reply_def[abs_def] message_text_def)

lemma pmessage_replies:
  assumes "obj_ok p" "obj_ok channel" "obj_ok message"
  shows "replies (e_junk e) (e_clk e) (e_ae_ok e) (pmessage_reply e p channel message) (pmessage_text (obj_text channel) (obj_text message) (obj_text p))"
  using replies_bind[OF star_replies[of e "CHR ''4''"] replies_bind[OF kind_replies[of "''pmessage''" e] replies_bind[OF bulk_replies[OF assms(1), of e]
    replies_bind[OF bulk_replies[OF assms(2), of e] bulk_replies[OF assms(3), of e]]]]]
  by (simp add: pmessage_reply_def[abs_def] pmessage_text_def)

lemma channel_loop_ok:
  assumes "obj_ok channel" "obj_ok message" "\<forall>i. out_ok (ps_out s i)" "distinct is"
  shows "\<exists>s'. channel_loop e s is channel message n = Some (s', n + length is) \<and>
    heard e (\<lambda>i. if i \<in> set is then message_text (obj_text channel) (obj_text message) else []) s s'"
  using assms(3,4)
proof (induction "is" arbitrary: s n)
  case Nil
  then show ?case using heard_refl[of s e] by simp
next
  case (Cons i "is")
  let ?t = "message_text (obj_text channel) (obj_text message)"
  obtain s1 where s1: "to_client s i (message_reply e channel message) = Some s1" "heard e (\<lambda>j. if j = i then ?t else []) s s1"
    using to_client_heard[OF message_replies[OF assms(1,2)] Cons.prems(1)] by blast
  obtain s2 where s2: "channel_loop e s1 is channel message (n + 1) = Some (s2, n + 1 + length is)" "heard e (\<lambda>j. if j \<in> set is then ?t else []) s1 s2"
    using Cons.IH[of s1 "n + 1"] heardD(1)[OF s1(2)] Cons.prems(2) by auto
  have "(\<lambda>j. (if j = i then ?t else []) @ (if j \<in> set is then ?t else [])) = (\<lambda>j. if j \<in> set (i # is) then ?t else [])"
    using Cons.prems(2) by (auto simp: fun_eq_iff)
  with heard_trans[OF s1(2) s2(2)] show ?case using s1(1) s2(1) by simp
qed

lemma c_buffer_ok: "plain o1 \<Longrightarrow> c_buffer o1 = Some (obj_text o1 @ [0])"
proof -
  assume "plain o1"
  then obtain t where t: "o_ptr o1 = PSds t" "sds_ok t" "obj_text o1 = sds_text t" by (auto simp: plain_def elim!: obj_ok_cases)
  have "length (sds_text t) = s_len t" using t(2) by (simp add: sds_ok_def sds_text_def)
  moreover obtain r where "s_buf t = sds_text t @ 0 # r" using sds_buf_split[OF t(2)] by blast
  ultimately show ?thesis using t by (simp add: c_buffer_def mem_read_def sdslen_def)
qed

lemma pattern_loop_ok:
  assumes "plain channel" "obj_ok message" "obj_text channel \<noteq> []" "\<forall>i. out_ok (ps_out s i)"
    "list_all (\<lambda>x. sub_arg (snd x) \<and> parse (obj_text (snd x)) \<noteq> None) ps"
  shows "\<exists>s'. pattern_loop e s ps channel message n = Some (s', n + length (filter (\<lambda>x. matches (obj_text (snd x)) (obj_text channel)) ps)) \<and>
    heard e (\<lambda>i. concat (map (pmessage_text (obj_text channel) (obj_text message)) (filter (\<lambda>p. matches p (obj_text channel)) (pats_of ps i)))) s s'"
  using assms(4,5)
proof (induction ps arbitrary: s n)
  case Nil
  then show ?case using heard_refl[of s e] by (simp add: pats_of_def)
next
  case (Cons x ps)
  obtain i p where x: "x = (i, p)" by (cases x)
  let ?k = "obj_text channel" and ?m = "obj_text message"
  have ck: "obj_ok channel" using assms(1) by (simp add: plain_def)
  have p: "sub_arg p" "plain p" using Cons.prems(2) x by (auto simp: sub_arg_def)
  obtain ts where ts: "parse (obj_text p) = Some ts" using Cons.prems(2) x by auto
  have ps: "list_all (\<lambda>x. sub_arg (snd x) \<and> parse (obj_text (snd x)) \<noteq> None) ps" using Cons.prems(2) by simp
  have m: "stringmatchlen False (obj_text p @ [0]) (?k @ [0]) = Some (matches (obj_text p) ?k)"
    using stringmatchlen_ok[OF ts assms(3)] by (simp add: matches_def ts)
  have po: "pats_of (x # ps) j = (if j = i then [obj_text p] else []) @ pats_of ps j" for j by (simp add: pats_of_def x)
  show ?case
  proof (cases "matches (obj_text p) ?k")
    case False
    then have "pattern_loop e s (x # ps) channel message n = pattern_loop e s ps channel message n"
      using m by (simp add: x c_buffer_ok p assms(1))
    then show ?thesis using Cons.IH[OF Cons.prems(1) ps, of n] False unfolding po by (auto simp: x cong: if_cong)
  next
    case True
    obtain s1 where s1: "to_client s i (pmessage_reply e p channel message) = Some s1" "heard e (\<lambda>j. if j = i then pmessage_text ?k ?m (obj_text p) else []) s s1"
      using to_client_heard[OF pmessage_replies[OF sub_argD(1)[OF p(1)] ck assms(2)] Cons.prems(1)] by blast
    obtain s2 where s2: "pattern_loop e s1 ps channel message (n + 1) = Some (s2, n + 1 + length (filter (\<lambda>x. matches (obj_text (snd x)) ?k) ps))"
      "heard e (\<lambda>i. concat (map (pmessage_text ?k ?m) (filter (\<lambda>p. matches p ?k) (pats_of ps i)))) s1 s2"
      using Cons.IH[OF heardD(1)[OF s1(2)] ps, of "n + 1"] by blast
    have "pattern_loop e s (x # ps) channel message n = Some (s2, n + length (filter (\<lambda>x. matches (obj_text (snd x)) ?k) (x # ps)))"
      using m True s1(1) s2(1) by (simp add: x c_buffer_ok p assms(1))
    moreover have "(\<lambda>j. (if j = i then pmessage_text ?k ?m (obj_text p) else []) @ concat (map (pmessage_text ?k ?m) (filter (\<lambda>p. matches p ?k) (pats_of ps j)))) =
        (\<lambda>j. concat (map (pmessage_text ?k ?m) (filter (\<lambda>p. matches p ?k) (pats_of (x # ps) j))))"
      unfolding po using True by (auto simp: fun_eq_iff)
    ultimately show ?thesis using heard_trans[OF s1(2) s2(2)] by simp
  qed
qed

text \<open>What client \<open>i\<close> is to be sent for a message, and the number of deliveries.\<close>

definition delivered :: "abs_subs \<Rightarrow> bytes \<Rightarrow> bytes \<Rightarrow> nat \<Rightarrow> bytes" where
  "delivered a k m i = (if k \<in> set (fst (a i)) then message_text k m else []) @
     concat (map (pmessage_text k m) (filter (\<lambda>p. matches p k) (snd (a i))))"

definition receivers :: "abs_subs \<Rightarrow> bytes \<Rightarrow> nat" where
  "receivers a k = card {i. k \<in> set (fst (a i))} + card {(i, p). p \<in> set (snd (a i)) \<and> matches p k}"

lemma distinct_pairs: "(\<And>i. distinct (pats_of xs i)) \<Longrightarrow> distinct (map (\<lambda>x. (fst x, obj_text (snd x))) xs)"
proof (induction xs)
  case (Cons x xs)
  have "distinct (pats_of xs i)" for i using Cons.prems[of i] by (simp add: pats_of_def split: if_splits)
  moreover have "obj_text (snd x) \<notin> set (pats_of xs (fst x))" using Cons.prems[of "fst x"] by (simp add: pats_of_def)
  ultimately show ?case using Cons.IH by (auto simp: pats_of_def)
qed simp

lemma receivers_ok:
  assumes "ps_ok s"
  shows "length (listeners s k) + length (filter (\<lambda>x. matches (obj_text (snd x)) k) (ps_patterns s)) = receivers (subs s) k"
proof -
  have ok: "channels_ok s" "patterns_ok s" using assms by (simp_all add: ps_ok_def)
  have "{i. k \<in> set (fst (subs s i))} = set (listeners s k)" using ok(1) by (auto simp: subs_def channels_ok_def)
  then have c: "card {i. k \<in> set (fst (subs s i))} = length (listeners s k)" using ok(1) by (simp add: channels_ok_def distinct_card)
  let ?f = "\<lambda>x. (fst x, obj_text (snd x))" and ?ms = "filter (\<lambda>x. matches (obj_text (snd x)) k) (ps_patterns s)"
  have po: "pats_of (ps_patterns s) i = pats s i" "distinct (pats s i)" for i using ok(2) by (simp_all add: patterns_ok_def)
  have "distinct (map ?f (ps_patterns s))" by (rule distinct_pairs) (simp add: po)
  then have d: "distinct (map ?f ?ms)" by (rule distinct_map_filter)
  have "set (map ?f ?ms) = {(i, p). p \<in> set (snd (subs s i)) \<and> matches p k}"
    unfolding subs_def snd_conv po(1)[symmetric] by (force simp: pats_of_def)
  then have "card {(i, p). p \<in> set (snd (subs s i)) \<and> matches p k} = length ?ms" using distinct_card[OF d] by simp
  then show ?thesis using c by (simp add: receivers_def)
qed

lemma publish_ok:
  assumes "ps_ok s" "sub_arg channel" "obj_ok message" "obj_text channel \<noteq> []"
  shows "\<exists>s'. pubsubPublishMessage e s channel message = Some (s', receivers (subs s) (obj_text channel)) \<and>
    heard e (delivered (subs s) (obj_text channel) (obj_text message)) s s'"
proof -
  let ?k = "obj_text channel" and ?m = "obj_text message"
  have ok: "\<forall>i. out_ok (ps_out s i)" "channels_ok s" "patterns_ok s" using assms(1) by (simp_all add: ps_ok_def)
  obtain s1 where s1: "(case ps_channels s ?k of None \<Rightarrow> Some (s, 0) | Some clients \<Rightarrow> channel_loop e s clients channel message 0) = Some (s1, length (listeners s ?k))"
    "heard e (\<lambda>i. if ?k \<in> set (chans s i) then message_text ?k ?m else []) s s1"
  proof -
    have "distinct (listeners s ?k)" using ok(2) by (simp add: channels_ok_def)
    from channel_loop_ok[OF sub_argD(1)[OF assms(2)] assms(3) ok(1) this, of e 0]
    obtain s1 where "channel_loop e s (listeners s ?k) channel message 0 = Some (s1, length (listeners s ?k))"
      "heard e (\<lambda>i. if i \<in> set (listeners s ?k) then message_text ?k ?m else []) s s1" by auto
    moreover have "i \<in> set (listeners s ?k) \<longleftrightarrow> ?k \<in> set (chans s i)" for i using ok(2) by (simp add: channels_ok_def)
    ultimately show ?thesis using that[of s1] by (cases "ps_channels s ?k") (simp_all add: listeners_def)
  qed
  let ?ms = "filter (\<lambda>x. matches (obj_text (snd x)) ?k) (ps_patterns s)" and ?t = "\<lambda>i. concat (map (pmessage_text ?k ?m) (filter (\<lambda>p. matches p ?k) (pats s i)))"
  have po: "pats_of (ps_patterns s) = pats s" using ok(3) by (simp add: patterns_ok_def fun_eq_iff)
  have "parse (obj_text (snd x)) \<noteq> None" if "x \<in> set (ps_patterns s)" for x
  proof -
    have "obj_text (snd x) \<in> set (pats s (fst x))" using that unfolding po[symmetric] by (auto simp: pats_of_def)
    then show ?thesis using ok(3) by (auto simp: patterns_ok_def)
  qed
  then have pp: "list_all (\<lambda>x. sub_arg (snd x) \<and> parse (obj_text (snd x)) \<noteq> None) (ps_patterns s)" using ok(3) by (auto simp: patterns_ok_def list_all_iff)
  obtain s2 where s2: "(if ps_patterns s1 \<noteq> [] then do { channel \<leftarrow> getDecodedObject (e_junk e) (e_clk e) channel;
      pattern_loop e s1 (ps_patterns s1) channel message (length (listeners s ?k)) } else Some (s1, length (listeners s ?k))) =
        Some (s2, length (listeners s ?k) + length ?ms)" "heard e ?t s1 s2"
  proof (cases "ps_patterns s = []")
    case True
    have "?t = (\<lambda>_. [])" unfolding po[symmetric] True by (simp add: pats_of_def)
    then show ?thesis using that[of s1] True heard_refl[OF heardD(1)[OF s1(2)], of e] by (simp add: heardD(4)[OF s1(2)])
  next
    case False
    obtain d where d: "getDecodedObject (e_junk e) (e_clk e) channel = Some d" "sub_arg d" "obj_text d = ?k" using decoded_arg[OF assms(2)] by blast
    have "obj_text d \<noteq> []" using d(3) assms(4) by simp
    from pattern_loop_ok[OF sub_argD(2)[OF d(2)] assms(3) this heardD(1)[OF s1(2)] pp, of e "length (listeners s ?k)"]
    show ?thesis using that False unfolding heardD(4)[OF s1(2)] d(3) po by (auto simp: d(1))
  qed
  have "heard e (\<lambda>i. (if ?k \<in> set (chans s i) then message_text ?k ?m else []) @ ?t i) s s2" by (rule heard_trans[OF s1(2) s2(2)])
  moreover have "delivered (subs s) ?k ?m = (\<lambda>i. (if ?k \<in> set (chans s i) then message_text ?k ?m else []) @ ?t i)"
    by (simp add: delivered_def[abs_def] subs_def)
  ultimately have "heard e (delivered (subs s) ?k ?m) s s2" by simp
  moreover have "pubsubPublishMessage e s channel message = Some (s2, receivers (subs s) ?k)"
    unfolding pubsubPublishMessage_def s1(1) using s2(1) by (simp add: receivers_ok[OF assms(1)])
  ultimately show ?thesis by blast
qed

section \<open>Histories\<close>

text \<open>The commands of the clients and the end of a connection (\<open>freeClient\<close> drops the subscriptions without
  notifications; the number then stands for a new client).\<close>

datatype ps_op = Subscribe nat "robj list" | Unsubscribe nat "robj list" | PSubscribe nat "robj list" | PUnsubscribe nat "robj list"
  | Publish nat "robj list" | Disconnect nat

fun run_op :: "server_env \<Rightarrow> (robj list \<Rightarrow> robj list) \<Rightarrow> pubsub \<Rightarrow> ps_op \<Rightarrow> pubsub option" where
  "run_op e order s (Subscribe me argv) = subscribeCommand e s me argv"
| "run_op e order s (Unsubscribe me argv) = unsubscribeCommand e order s me argv"
| "run_op e order s (PSubscribe me argv) = psubscribeCommand e s me argv"
| "run_op e order s (PUnsubscribe me argv) = punsubscribeCommand e s me argv"
| "run_op e order s (Publish me argv) = publishCommand e s me argv"
| "run_op e order s (Disconnect me) = do {
     (s, _) \<leftarrow> pubsubUnsubscribeAllChannels e order s me False;
     (s, _) \<leftarrow> pubsubUnsubscribeAllPatterns e s me False;
     Some (upd_sub s me (\<lambda>b. b\<lparr>sb_pubsub := False\<rparr>))
   }"

fun run_history :: "pubsub \<Rightarrow> (server_env \<times> (robj list \<Rightarrow> robj list) \<times> ps_op) list \<Rightarrow> pubsub option" where
  "run_history s [] = Some s"
| "run_history s ((e, order, op) # h) = do { s \<leftarrow> run_op e order s op; run_history s h }"

text \<open>Their meaning on the subscriptions.\<close>

fun op_subs :: "abs_subs \<Rightarrow> ps_op \<Rightarrow> abs_subs" where
  "op_subs a (Subscribe me argv) = a(me := fold sub_channel (map obj_text (drop 1 argv)) (a me))"
| "op_subs a (Unsubscribe me argv) =
     a(me := if length argv = 1 then ([], snd (a me)) else fold unsub_channel (map obj_text (drop 1 argv)) (a me))"
| "op_subs a (PSubscribe me argv) = a(me := fold sub_pattern (map obj_text (drop 1 argv)) (a me))"
| "op_subs a (PUnsubscribe me argv) =
     a(me := if length argv = 1 then (fst (a me), []) else fold unsub_pattern (map obj_text (drop 1 argv)) (a me))"
| "op_subs a (Publish me argv) = a"
| "op_subs a (Disconnect me) = a(me := ([], []))"

fun op_ok :: "ps_op \<Rightarrow> bool" where
  "op_ok (Subscribe me argv) \<longleftrightarrow> 2 \<le> length argv \<and> list_all sub_arg (drop 1 argv)"
| "op_ok (Unsubscribe me argv) \<longleftrightarrow> 1 \<le> length argv \<and> list_all sub_arg (drop 1 argv)"
| "op_ok (PSubscribe me argv) \<longleftrightarrow> 2 \<le> length argv \<and> list_all sub_arg (drop 1 argv) \<and> list_all (\<lambda>a. parse (obj_text a) \<noteq> None) (drop 1 argv)"
| "op_ok (PUnsubscribe me argv) \<longleftrightarrow> 1 \<le> length argv \<and> list_all sub_arg (drop 1 argv)"
| "op_ok (Publish me argv) \<longleftrightarrow> length argv = 3 \<and> list_all sub_arg argv \<and> obj_text (argv ! 1) \<noteq> []"
| "op_ok (Disconnect me) \<longleftrightarrow> True"

lemma subscribe_command_ok:
  assumes "ps_ok s" "flags_ok s" "2 \<le> length argv" "list_all sub_arg (drop 1 argv)"
  shows "\<exists>s'. subscribeCommand e s me argv = Some s' \<and> ps_ok s' \<and> flags_ok s' \<and> subs s' = op_subs (subs s) (Subscribe me argv)"
proof -
  let ?as = "drop 1 argv"
  have "\<exists>s' m. each_arg (\<lambda>s a. pubsubSubscribeChannel e s me a) s ?as 0 = Some (s', m) \<and> steps me (fold sub_channel (map obj_text ?as)) s s'"
    using assms(1,4) channel_steps(1) by (intro each_arg_ok) (auto simp: list_all_iff)
  then obtain s1 m where s1: "each_arg (\<lambda>s a. pubsubSubscribeChannel e s me a) s ?as 0 = Some (s1, m)" "steps me (fold sub_channel (map obj_text ?as)) s s1" by blast
  have "map obj_text ?as \<noteq> []" using assms(3) by simp
  from set_flag[OF s1(2) assms(2) fold_nonempty(1)[OF this]] s1(1) show ?thesis by (simp add: subscribeCommand_def)
qed

lemma psubscribe_command_ok:
  assumes "ps_ok s" "flags_ok s" "2 \<le> length argv" "list_all sub_arg (drop 1 argv)" "list_all (\<lambda>a. parse (obj_text a) \<noteq> None) (drop 1 argv)"
  shows "\<exists>s'. psubscribeCommand e s me argv = Some s' \<and> ps_ok s' \<and> flags_ok s' \<and> subs s' = op_subs (subs s) (PSubscribe me argv)"
proof -
  let ?as = "drop 1 argv"
  have "\<exists>s' m. each_arg (\<lambda>s a. pubsubSubscribePattern e s me a) s ?as 0 = Some (s', m) \<and> steps me (fold sub_pattern (map obj_text ?as)) s s'"
    using assms(1,4,5) by (intro each_arg_ok pattern_steps(1)) (auto simp: list_all_iff)
  then obtain s1 m where s1: "each_arg (\<lambda>s a. pubsubSubscribePattern e s me a) s ?as 0 = Some (s1, m)" "steps me (fold sub_pattern (map obj_text ?as)) s s1" by blast
  have "map obj_text ?as \<noteq> []" using assms(3) by simp
  from set_flag[OF s1(2) assms(2) fold_nonempty(2)[OF this]] s1(1) show ?thesis by (simp add: psubscribeCommand_def)
qed

lemma unsubscribe_command_ok:
  assumes "ps_ok s" "flags_ok s" "list_all sub_arg (drop 1 argv)" "\<And>xs. set (order xs) = set xs"
  shows "\<exists>s'. unsubscribeCommand e order s me argv = Some s' \<and> ps_ok s' \<and> flags_ok s' \<and> subs s' = op_subs (subs s) (Unsubscribe me argv)"
proof -
  let ?g = "\<lambda>x. if length argv = 1 then ([], snd x) else fold unsub_channel (map obj_text (drop 1 argv)) x"
  obtain s1 n where s1: "(if length argv = 1 then pubsubUnsubscribeAllChannels e order s me True
      else each_arg (\<lambda>s a. pubsubUnsubscribeChannel e s me a True) s (drop 1 argv) 0) = Some (s1, n)" "steps me ?g s s1"
  proof (cases "length argv = 1")
    case True
    then show ?thesis using that all_channels_ok[OF assms(1,4), of e me True] by (auto simp: split_beta)
  next
    case False
    have "\<exists>s' m. each_arg (\<lambda>s a. pubsubUnsubscribeChannel e s me a True) s (drop 1 argv) 0 = Some (s', m) \<and> steps me (fold unsub_channel (map obj_text (drop 1 argv))) s s'"
      using assms(1) assms(3)[unfolded list_all_iff] channel_steps(2) by (intro each_arg_ok) blast+
    then show ?thesis using that False by auto
  qed
  have "subs s me \<noteq> ([], [])" if "?g (subs s me) \<noteq> ([], [])" using that by (cases "subs s me") (auto simp: unsub_all split: if_splits)
  from clear_flag[OF s1(2) assms(2) this] s1(1) show ?thesis unfolding unsubscribeCommand_def by simp
qed

lemma punsubscribe_command_ok:
  assumes "ps_ok s" "flags_ok s" "list_all sub_arg (drop 1 argv)"
  shows "\<exists>s'. punsubscribeCommand e s me argv = Some s' \<and> ps_ok s' \<and> flags_ok s' \<and> subs s' = op_subs (subs s) (PUnsubscribe me argv)"
proof -
  let ?g = "\<lambda>x. if length argv = 1 then (fst x, []) else fold unsub_pattern (map obj_text (drop 1 argv)) x"
  obtain s1 n where s1: "(if length argv = 1 then pubsubUnsubscribeAllPatterns e s me True
      else each_arg (\<lambda>s a. pubsubUnsubscribePattern e s me a True) s (drop 1 argv) 0) = Some (s1, n)" "steps me ?g s s1"
  proof (cases "length argv = 1")
    case True
    then show ?thesis using that all_patterns_ok[OF assms(1), of e me True] by (auto simp: split_beta)
  next
    case False
    have "\<exists>s' m. each_arg (\<lambda>s a. pubsubUnsubscribePattern e s me a True) s (drop 1 argv) 0 = Some (s', m) \<and> steps me (fold unsub_pattern (map obj_text (drop 1 argv))) s s'"
      using assms(1) assms(3)[unfolded list_all_iff] pattern_steps(2) by (intro each_arg_ok) blast+
    then show ?thesis using that False by auto
  qed
  have "subs s me \<noteq> ([], [])" if "?g (subs s me) \<noteq> ([], [])" using that by (cases "subs s me") (auto simp: unsub_all_patterns split: if_splits)
  from clear_flag[OF s1(2) assms(2) this] s1(1) show ?thesis unfolding punsubscribeCommand_def by simp
qed

lemma heard_ok: "heard e f s s' \<Longrightarrow> ps_ok s \<Longrightarrow> flags_ok s \<Longrightarrow> ps_ok s' \<and> flags_ok s' \<and> subs s' = subs s"
  by (simp add: ps_ok_def flags_ok_def heard_tables heardD)

lemma publish_command_ok:
  assumes "ps_ok s" "flags_ok s" "length argv = 3" "list_all sub_arg argv" "obj_text (argv ! 1) \<noteq> []"
  shows "\<exists>s'. publishCommand e s me argv = Some s' \<and> ps_ok s' \<and> flags_ok s' \<and> subs s' = subs s"
proof -
  have a: "sub_arg (argv ! 1)" "obj_ok (argv ! 2)" using assms(3,4) sub_argD(1) by (auto simp: list_all_length)
  obtain s1 where s1: "pubsubPublishMessage e s (argv ! 1) (argv ! 2) = Some (s1, receivers (subs s) (obj_text (argv ! 1)))"
    "heard e (delivered (subs s) (obj_text (argv ! 1)) (obj_text (argv ! 2))) s s1"
    using publish_ok[OF assms(1) a assms(5)] by blast
  obtain s2 where s2: "to_client s1 me (\<lambda>c. reply_int e c (of_nat (receivers (subs s) (obj_text (argv ! 1))))) = Some s2"
    "heard e (\<lambda>j. if j = me then [58] @ int_repr (sint (of_nat (receivers (subs s) (obj_text (argv ! 1))) :: 64 word)) @ crlf else []) s1 s2"
    using to_client_heard[OF int_replies heardD(1)[OF s1(2)]] by blast
  have "arg argv 1 = Some (argv ! 1)" "arg argv 2 = Some (argv ! 2)" using assms(3) by (simp_all add: arg_def)
  then have "publishCommand e s me argv = Some s2" using s1(1) s2(1) by (simp add: publishCommand_def del: One_nat_def)
  then show ?thesis using heard_ok[OF heard_trans[OF s1(2) s2(2)] assms(1,2)] by blast
qed

lemma disconnect_ok:
  assumes "ps_ok s" "flags_ok s" "\<And>xs. set (order xs) = set xs"
  shows "\<exists>s'. run_op e order s (Disconnect me) = Some s' \<and> ps_ok s' \<and> flags_ok s' \<and> subs s' = (subs s)(me := ([], []))"
proof -
  obtain s1 n where s1: "pubsubUnsubscribeAllChannels e order s me False = Some (s1, n)" "steps me (\<lambda>x. ([], snd x)) s s1"
    using all_channels_ok[OF assms(1,3)] by blast
  have "ps_ok s1" using s1(2) by (simp add: steps_def)
  then obtain s2 m where s2: "pubsubUnsubscribeAllPatterns e s1 me False = Some (s2, m)" "steps me (\<lambda>x. (fst x, [])) s1 s2"
    using all_patterns_ok[of s1] by blast
  have st: "steps me (\<lambda>_. ([], [])) s s2" by (rule steps_eq[OF steps_trans[OF s1(2) s2(2)]]) (simp add: split_beta)
  let ?s3 = "upd_sub s2 me (\<lambda>b. b\<lparr>sb_pubsub := False\<rparr>)"
  have "ps_ok ?s3" "subs ?s3 = (subs s)(me := ([], []))" using st by (simp_all add: flag_tables steps_def)
  then have "flags_ok ?s3" using st assms(2) by (auto simp: flags_ok_def steps_def)
  then show ?thesis using s1(1) s2(1) \<open>ps_ok ?s3\<close> \<open>subs ?s3 = _\<close> by simp
qed

lemma run_op_ok:
  assumes "ps_ok s" "flags_ok s" "op_ok op" "\<And>xs. set (order xs) = set xs"
  shows "\<exists>s'. run_op e order s op = Some s' \<and> ps_ok s' \<and> flags_ok s' \<and> subs s' = op_subs (subs s) op"
  using assms(3)
proof (cases op)
  case (Disconnect me)
  then show ?thesis using disconnect_ok[OF assms(1,2,4), of e me] by simp
qed (use subscribe_command_ok[OF assms(1,2)] unsubscribe_command_ok[OF assms(1,2) _ assms(4)] psubscribe_command_ok[OF assms(1,2)]
  punsubscribe_command_ok[OF assms(1,2)] publish_command_ok[OF assms(1,2)] in \<open>simp_all del: op_subs.simps(1-4)\<close>)

lemma run_history_ok:
  assumes "ps_ok s" "flags_ok s" "list_all (\<lambda>(e, order, op). op_ok op \<and> (\<forall>xs. set (order xs) = set xs)) h"
  shows "\<exists>s'. run_history s h = Some s' \<and> ps_ok s' \<and> flags_ok s' \<and> subs s' = foldl op_subs (subs s) (map (snd \<circ> snd) h)"
  using assms
proof (induction h arbitrary: s)
  case (Cons x h)
  obtain e order op where x: "x = (e, order, op)" by (cases x)
  obtain s1 where s1: "run_op e order s op = Some s1" "ps_ok s1" "flags_ok s1" "subs s1 = op_subs (subs s) op"
    using run_op_ok[of s op order e] Cons.prems x by auto
  then show ?case using Cons.IH[OF s1(2,3)] Cons.prems(3) x by auto
qed simp

definition ps_init :: "(nat \<Rightarrow> out_client) \<Rightarrow> pubsub" where
  "ps_init outs = \<lparr>ps_channels = Map.empty, ps_patterns = [], ps_sub = (\<lambda>_. \<lparr>sb_channels = [], sb_patterns = [], sb_pubsub = False\<rparr>), ps_out = outs\<rparr>"

lemma init_ok: "\<forall>i. out_ok (outs i) \<Longrightarrow> ps_ok (ps_init outs) \<and> flags_ok (ps_init outs) \<and> subs (ps_init outs) = (\<lambda>_. ([], []))"
  by (auto simp: ps_init_def ps_ok_def channels_ok_def patterns_ok_def flags_ok_def subs_def chans_def pats_def listeners_def pats_of_def)

text \<open>A history: client 1 subscribes to \<open>ab\<close>, client 2 to the patterns \<open>a?\<close> and \<open>b*\<close>, client 1 subscribes
  to \<open>x\<close> and leaves it.\<close>

definition sample_history :: "(server_env \<times> (robj list \<Rightarrow> robj list) \<times> ps_op) list" where
  "sample_history = map (\<lambda>op. (sample_env 0, (\<lambda>xs. xs), op))
     [Subscribe 1 [str_obj [83], str_obj [97, 98]], PSubscribe 2 [str_obj [80], str_obj [97, 63], str_obj [98, 42]],
      Subscribe 1 [str_obj [83], str_obj [120]], Unsubscribe 1 [str_obj [85], str_obj [120]]]"

lemma sample_history_ok: "list_all (\<lambda>(e, order, op). op_ok op \<and> (\<forall>xs. set (order xs) = set xs)) sample_history"
  by (simp add: sample_history_def sub_arg_def plain_str parse.simps)

lemma sample_subs: "foldl op_subs (\<lambda>_. ([], [])) (map (snd \<circ> snd) sample_history) = (\<lambda>_. ([], []))(1 := ([[97, 98]], []), 2 := ([], [[97, 63], [98, 42]]))"
  by (simp add: sample_history_def sub_channel_def sub_pattern_def unsub_channel_def add_sub_def del_sub_def fun_eq_iff)

section \<open>Properties\<close>

text \<open>C8. Messages reach exactly the subscribers.  After any history of \<open>SUBSCRIBE\<close>, \<open>UNSUBSCRIBE\<close>, \<open>PSUBSCRIBE\<close>,
  \<open>PUNSUBSCRIBE\<close>, \<open>PUBLISH\<close> and disconnections of any clients, in which no assertion fails and no missing list node is
  unlinked, the subscriptions are those the history means and the publish/subscribe flag of a client is set exactly if it
  has any; and publishing on a non-empty channel returns the number of deliveries and queues to every client, and to no
  other, one message if it is subscribed to the channel, followed by one for each of its patterns that matches the
  channel in the sense of the declarative meaning, in the order of subscription.  The history has only operations that
  satisfy \<open>op_ok\<close>: each has the number of arguments its command demands, no \<open>PSUBSCRIBE\<close> names a pattern with a character class that
  ends in an escape, which the matcher reads out of bounds, and no \<open>PUBLISH\<close> has an empty channel.\<close>

theorem publish_delivers:
  assumes "\<forall>i. out_ok (outs i)" "list_all (\<lambda>(e, order, op). op_ok op \<and> (\<forall>xs. set (order xs) = set xs)) h"
    and "sub_arg channel" "sub_arg message" "obj_text channel \<noteq> []"
  defines "a \<equiv> foldl op_subs (\<lambda>_. ([], [])) (map (snd \<circ> snd) h)"
  shows "\<exists>s s'. run_history (ps_init outs) h = Some s \<and> (\<forall>i. sb_pubsub (ps_sub s i) \<longleftrightarrow> a i \<noteq> ([], [])) \<and>
    pubsubPublishMessage e s channel message = Some (s', receivers a (obj_text channel)) \<and>
    (\<forall>i. queued (ps_out s' i) = queued (ps_out s i) @
      (if writes (e_ae_ok e) (ps_out s i) then delivered a (obj_text channel) (obj_text message) i else []))"
proof -
  obtain s where s: "run_history (ps_init outs) h = Some s" "ps_ok s" "flags_ok s" "subs s = a"
    using run_history_ok[of "ps_init outs" h] init_ok[OF assms(1)] assms(2) by (auto simp: a_def)
  obtain s' where s': "pubsubPublishMessage e s channel message = Some (s', receivers a (obj_text channel))"
    "heard e (delivered a (obj_text channel) (obj_text message)) s s'"
    using publish_ok[OF s(2) assms(3) sub_argD(1)[OF assms(4)] assms(5)] s(4) by blast
  then show ?thesis using s by (intro exI[of _ s] exI[of _ s']) (simp add: heard_def flags_ok_def)
qed

theorem publish_delivers_witness:
  "\<exists>s s'. run_history (ps_init (\<lambda>_. fresh_client)) sample_history = Some s \<and>
    pubsubPublishMessage (sample_env 0) s (str_obj [97, 98]) (str_obj [109]) = Some (s', 2) \<and>
    queued (ps_out s' 2) = queued (ps_out s 2) @ (if writes True (ps_out s 2) then pmessage_text [97, 98] [109] [97, 63] else []) \<and>
    queued (ps_out s' 3) = queued (ps_out s 3)"
proof -
  let ?a = "(\<lambda>_. ([], []))(1 := ([[97, 98]], []), 2 := ([], [[97, 63], [98, 42]])) :: abs_subs"
  have m: "matches [97, 63] [97, 98]" "\<not> matches [98, 42] [97, 98]" by (simp_all add: matches_def parse.simps same_char_def)
  have "{i. [97, 98] \<in> set (fst (?a i))} = {1}" by auto
  moreover have "{(i, p). p \<in> set (snd (?a i)) \<and> matches p [97, 98]} = {(2, [97, 63])}" using m by (auto split: if_splits)
  ultimately have r: "receivers ?a [97, 98] = 2" by (simp add: receivers_def)
  have d: "delivered ?a [97, 98] [109] 2 = pmessage_text [97, 98] [109] [97, 63]" "delivered ?a [97, 98] [109] 3 = []"
    using m by (simp_all add: delivered_def)
  have o: "\<forall>i. out_ok ((\<lambda>_ :: nat. fresh_client) i)" by (simp add: fresh_client_ok)
  have args: "sub_arg (str_obj [97, 98])" "sub_arg (str_obj [109])" "obj_text (str_obj [97, 98]) \<noteq> []" by (simp_all add: sub_arg_def plain_str)
  from publish_delivers[OF o sample_history_ok args, of "sample_env 0"]
  obtain s s' where "run_history (ps_init (\<lambda>_. fresh_client)) sample_history = Some s"
    "pubsubPublishMessage (sample_env 0) s (str_obj [97, 98]) (str_obj [109]) = Some (s', 2)"
    "\<forall>i. queued (ps_out s' i) = queued (ps_out s i) @ (if writes True (ps_out s i) then delivered ?a [97, 98] [109] i else [])"
    unfolding sample_subs str_obj_text r eqTrueI[OF sample_env_simps(4)] by (elim exE conjE) (rule that; assumption)
  then show ?thesis using d by (intro exI[of _ s] exI[of _ s']) simp
qed

end
