(* ===== verification/Redis_Notify.thy ===== *)
theory Redis_Notify
  imports Redis_Pubsub
begin

unbundle bit_operations_syntax

text \<open>
  \<open>notify.c\<close>: the classes of keyspace events, their textual form, and the delivery of an event as two messages.

  Flags are 32-bit words, texts of classes are strings.  The commands record their events (\<open>ks_events\<close> of \<open>Redis_Db\<close>); this
  theory says what delivering one of them does.

  The main results: the textual form of the flags determines them, and an event reaches exactly the clients
  subscribed to its two channels, directly or through a pattern.
\<close>

section \<open>The code\<close>

definition REDIS_NOTIFY_KEYSPACE :: "32 word" where "REDIS_NOTIFY_KEYSPACE = 2 ^ 0"
definition REDIS_NOTIFY_KEYEVENT :: "32 word" where "REDIS_NOTIFY_KEYEVENT = 2 ^ 1"
definition REDIS_NOTIFY_GENERIC :: "32 word" where "REDIS_NOTIFY_GENERIC = 2 ^ 2"
definition REDIS_NOTIFY_STRING :: "32 word" where "REDIS_NOTIFY_STRING = 2 ^ 3"
definition REDIS_NOTIFY_LIST :: "32 word" where "REDIS_NOTIFY_LIST = 2 ^ 4"
definition REDIS_NOTIFY_SET :: "32 word" where "REDIS_NOTIFY_SET = 2 ^ 5"
definition REDIS_NOTIFY_HASH :: "32 word" where "REDIS_NOTIFY_HASH = 2 ^ 6"
definition REDIS_NOTIFY_ZSET :: "32 word" where "REDIS_NOTIFY_ZSET = 2 ^ 7"
definition REDIS_NOTIFY_EXPIRED :: "32 word" where "REDIS_NOTIFY_EXPIRED = 2 ^ 8"
definition REDIS_NOTIFY_EVICTED :: "32 word" where "REDIS_NOTIFY_EVICTED = 2 ^ 9"

definition REDIS_NOTIFY_ALL :: "32 word" where
  "REDIS_NOTIFY_ALL = REDIS_NOTIFY_GENERIC OR REDIS_NOTIFY_STRING OR REDIS_NOTIFY_LIST OR REDIS_NOTIFY_SET OR REDIS_NOTIFY_HASH OR
     REDIS_NOTIFY_ZSET OR REDIS_NOTIFY_EXPIRED OR REDIS_NOTIFY_EVICTED"

lemmas notify_flags = REDIS_NOTIFY_KEYSPACE_def REDIS_NOTIFY_KEYEVENT_def REDIS_NOTIFY_GENERIC_def REDIS_NOTIFY_STRING_def REDIS_NOTIFY_LIST_def
  REDIS_NOTIFY_SET_def REDIS_NOTIFY_HASH_def REDIS_NOTIFY_ZSET_def REDIS_NOTIFY_EXPIRED_def REDIS_NOTIFY_EVICTED_def

definition class_flag :: "char \<Rightarrow> 32 word option" where
  "class_flag c =
     (if c = CHR ''A'' then Some REDIS_NOTIFY_ALL
      else if c = CHR ''g'' then Some REDIS_NOTIFY_GENERIC
      else if c = CHR ''$'' then Some REDIS_NOTIFY_STRING
      else if c = CHR ''l'' then Some REDIS_NOTIFY_LIST
      else if c = CHR ''s'' then Some REDIS_NOTIFY_SET
      else if c = CHR ''h'' then Some REDIS_NOTIFY_HASH
      else if c = CHR ''z'' then Some REDIS_NOTIFY_ZSET
      else if c = CHR ''x'' then Some REDIS_NOTIFY_EXPIRED
      else if c = CHR ''e'' then Some REDIS_NOTIFY_EVICTED
      else if c = CHR ''K'' then Some REDIS_NOTIFY_KEYSPACE
      else if c = CHR ''E'' then Some REDIS_NOTIFY_KEYEVENT
      else None)"

text \<open>\<open>None\<close> stands for the result -1.\<close>

fun string_to_flags :: "string \<Rightarrow> 32 word \<Rightarrow> 32 word option" where
  "string_to_flags [] flags = Some flags"
| "string_to_flags (c # p) flags = do { f \<leftarrow> class_flag c; string_to_flags p (flags OR f) }"

definition keyspaceEventsStringToFlags :: "string \<Rightarrow> 32 word option" where
  "keyspaceEventsStringToFlags classes = string_to_flags classes 0"

definition keyspaceEventsFlagsToString :: "32 word \<Rightarrow> string" where
  "keyspaceEventsFlagsToString flags =
     (if flags AND REDIS_NOTIFY_ALL = REDIS_NOTIFY_ALL then ''A''
      else (if flags AND REDIS_NOTIFY_GENERIC \<noteq> 0 then ''g'' else []) @
           (if flags AND REDIS_NOTIFY_STRING \<noteq> 0 then ''$'' else []) @
           (if flags AND REDIS_NOTIFY_LIST \<noteq> 0 then ''l'' else []) @
           (if flags AND REDIS_NOTIFY_SET \<noteq> 0 then ''s'' else []) @
           (if flags AND REDIS_NOTIFY_HASH \<noteq> 0 then ''h'' else []) @
           (if flags AND REDIS_NOTIFY_ZSET \<noteq> 0 then ''z'' else []) @
           (if flags AND REDIS_NOTIFY_EXPIRED \<noteq> 0 then ''x'' else []) @
           (if flags AND REDIS_NOTIFY_EVICTED \<noteq> 0 then ''e'' else [])) @
     (if flags AND REDIS_NOTIFY_KEYSPACE \<noteq> 0 then ''K'' else []) @
     (if flags AND REDIS_NOTIFY_KEYEVENT \<noteq> 0 then ''E'' else [])"

text \<open>The object that names a channel: a prefix of eleven characters, the database, a separator and the rest.\<close>

definition event_channel :: "server_env \<Rightarrow> string \<Rightarrow> bytes \<Rightarrow> obj_ptr \<Rightarrow> robj option" where
  "event_channel e prefix buf name =
     (case name of
        PSds t \<Rightarrow> do {
          chan \<leftarrow> sdsnewlen (e_junk e) (Some (bytes_of_string prefix)) 11;
          chan \<leftarrow> sdscatlen (e_junk e) chan buf;
          chan \<leftarrow> sdscatlen (e_junk e) chan (bytes_of_string ''__:'');
          chan \<leftarrow> sdscatsds (e_junk e) chan t;
          Some (createObject REDIS_STRING (PSds chan) (e_clk e))
        }
      | _ \<Rightarrow> None)"

text \<open>\<open>notifyKeyspaceEvent\<close> of \<open>notify.c\<close>; \<open>notify_keyspace_events\<close> is the configured set of classes.  The digits of the
  database are printed once.\<close>

definition deliverKeyspaceEvent :: "server_env \<Rightarrow> 32 word \<Rightarrow> pubsub \<Rightarrow> 32 word \<Rightarrow> string \<Rightarrow> robj \<Rightarrow> int \<Rightarrow> pubsub option" where
  "deliverKeyspaceEvent e notify_keyspace_events s type event key dbid =
     (if notify_keyspace_events AND type = 0 then Some s
      else do {
        eventobj \<leftarrow> createStringObject (e_junk e) (e_clk e) (Some (bytes_of_string event)) (length event);
        (s, digits) \<leftarrow>
          (if notify_keyspace_events AND REDIS_NOTIFY_KEYSPACE \<noteq> 0 then do {
             (len, buf) \<leftarrow> ll2string (map (e_junk e) [0..<24]) 24 (word_of_int dbid);
             chanobj \<leftarrow> event_channel e ''__keyspace@'' (take len buf) (o_ptr key);
             (s, _) \<leftarrow> pubsubPublishMessage e s chanobj eventobj;
             Some (s, Some (take len buf))
           } else Some (s, None));
        (if notify_keyspace_events AND REDIS_NOTIFY_KEYEVENT \<noteq> 0 then do {
           digits \<leftarrow> (case digits of
                       Some d \<Rightarrow> Some d
                     | None \<Rightarrow> do { (len, buf) \<leftarrow> ll2string (map (e_junk e) [0..<24]) 24 (word_of_int dbid); Some (take len buf) });
           chanobj \<leftarrow> event_channel e ''__keyevent@'' digits (o_ptr eventobj);
           (s, _) \<leftarrow> pubsubPublishMessage e s chanobj key;
           Some s
         } else Some s)
      })"

section \<open>The textual form\<close>

lemma and_exp: "(flags :: 32 word) AND 2 ^ n \<noteq> 0 \<longleftrightarrow> n < 32 \<and> bit flags n"
  by (simp add: and_exp_eq_0_iff_not_bit bit_imp_possible_bit) (use bit_imp_le_length[of flags n] in auto)

lemma string_to_flags_append: "string_to_flags (p @ q) f = do { f \<leftarrow> string_to_flags p f; string_to_flags q f }"
  by (induction p arbitrary: f) auto

lemma class_step: "class_flag c = Some g \<Longrightarrow> string_to_flags (if b then [c] else []) f = Some (f OR (if b then g else 0))"
  by simp

definition pick :: "32 word \<Rightarrow> nat \<Rightarrow> 32 word" where
  "pick flags n = (if flags AND 2 ^ n \<noteq> 0 then 2 ^ n else 0)"

lemma bit_pick: "n < 32 \<Longrightarrow> bit (pick flags n) i \<longleftrightarrow> i = n \<and> bit flags n"
  unfolding pick_def and_exp by (auto simp: bit_exp_iff)

lemma bit_all: "bit REDIS_NOTIFY_ALL i \<longleftrightarrow> 2 \<le> i \<and> i \<le> 9"
  unfolding REDIS_NOTIFY_ALL_def notify_flags bit_or_iff bit_exp_iff by (auto simp: possible_bit_word)

lemma class_flags: "class_flag CHR ''A'' = Some REDIS_NOTIFY_ALL" "class_flag CHR ''g'' = Some REDIS_NOTIFY_GENERIC" "class_flag CHR ''$'' = Some REDIS_NOTIFY_STRING"
  "class_flag CHR ''l'' = Some REDIS_NOTIFY_LIST" "class_flag CHR ''s'' = Some REDIS_NOTIFY_SET" "class_flag CHR ''h'' = Some REDIS_NOTIFY_HASH"
  "class_flag CHR ''z'' = Some REDIS_NOTIFY_ZSET" "class_flag CHR ''x'' = Some REDIS_NOTIFY_EXPIRED" "class_flag CHR ''e'' = Some REDIS_NOTIFY_EVICTED"
  "class_flag CHR ''K'' = Some REDIS_NOTIFY_KEYSPACE" "class_flag CHR ''E'' = Some REDIS_NOTIFY_KEYEVENT"
  by (simp_all add: class_flag_def)

lemma class_pick:
  assumes "class_flag c = Some (2 ^ n)"
  shows "string_to_flags (if flags AND 2 ^ n \<noteq> 0 then [c] else []) f = Some (f OR pick flags n)"
  using assms by (simp add: pick_def)

lemma all_set: "flags AND REDIS_NOTIFY_ALL = REDIS_NOTIFY_ALL \<longleftrightarrow> (\<forall>i. 2 \<le> i \<longrightarrow> i \<le> 9 \<longrightarrow> bit flags i)"
proof
  assume a: "flags AND REDIS_NOTIFY_ALL = REDIS_NOTIFY_ALL"
  show "\<forall>i. 2 \<le> i \<longrightarrow> i \<le> 9 \<longrightarrow> bit flags i" using arg_cong[OF a, of "\<lambda>w. bit w _"] by (simp add: bit_and_iff bit_all) blast
qed (auto intro!: bit_word_eqI simp: bit_and_iff bit_all)

lemma flags_roundtrip: "keyspaceEventsStringToFlags (keyspaceEventsFlagsToString flags) = Some (flags AND 1023)"
proof -
  let ?low = "if flags AND REDIS_NOTIFY_ALL = REDIS_NOTIFY_ALL then REDIS_NOTIFY_ALL
    else pick flags 2 OR pick flags 3 OR pick flags 4 OR pick flags 5 OR pick flags 6 OR pick flags 7 OR pick flags 8 OR pick flags 9"
  note cp = class_pick[OF class_flags(2)[unfolded notify_flags]] class_pick[OF class_flags(3)[unfolded notify_flags]]
    class_pick[OF class_flags(4)[unfolded notify_flags]] class_pick[OF class_flags(5)[unfolded notify_flags]] class_pick[OF class_flags(6)[unfolded notify_flags]]
    class_pick[OF class_flags(7)[unfolded notify_flags]] class_pick[OF class_flags(8)[unfolded notify_flags]] class_pick[OF class_flags(9)[unfolded notify_flags]]
    class_pick[OF class_flags(10)[unfolded notify_flags]] class_pick[OF class_flags(11)[unfolded notify_flags]]
  have "keyspaceEventsStringToFlags (keyspaceEventsFlagsToString flags) = Some ((?low OR pick flags 0) OR pick flags 1)"
    unfolding keyspaceEventsStringToFlags_def keyspaceEventsFlagsToString_def notify_flags
    by (cases "flags AND REDIS_NOTIFY_ALL = REDIS_NOTIFY_ALL")
      (simp_all only: simp_thms if_True if_False string_to_flags_append cp string_to_flags.simps class_flags or.left_neutral Option.bind.bind_lunit or.assoc)
  moreover have "(?low OR pick flags 0) OR pick flags 1 = flags AND mask 10"
  proof (rule bit_word_eqI)
    fix n assume "n < LENGTH(32)"
    show "bit ((?low OR pick flags 0) OR pick flags 1) n = bit (flags AND mask 10) n"
    proof (cases "flags AND REDIS_NOTIFY_ALL = REDIS_NOTIFY_ALL")
      case True
      then show ?thesis using all_set[of flags] by (auto simp: bit_or_iff bit_and_iff bit_mask_iff bit_pick bit_all le_less_Suc_eq less_Suc_eq numeral_eq_Suc)
    next
      case False
      then show ?thesis by (auto simp: bit_or_iff bit_and_iff bit_mask_iff bit_pick less_Suc_eq numeral_eq_Suc)
    qed
  qed
  moreover have "mask 10 = (1023 :: 32 word)" by (simp add: mask_eq_exp_minus_1)
  ultimately show ?thesis by simp
qed

section \<open>Delivery\<close>

definition event_name :: "string \<Rightarrow> int \<Rightarrow> bytes \<Rightarrow> bytes" where
  "event_name prefix dbid t = bytes_of_string prefix @ int_repr dbid @ bytes_of_string ''__:'' @ t"

lemma digits_ok:
  assumes "- (2 ^ 31) \<le> dbid" "dbid < 2 ^ 31"
  shows "\<exists>buf. ll2string (map junk [0..<24]) 24 (word_of_int dbid) = Some (length (int_repr dbid), buf) \<and> take (length (int_repr dbid)) buf = int_repr dbid"
    "length (int_repr dbid) \<le> 20"
proof -
  have "sint (word_of_int dbid :: 64 word) = dbid" using assms by (intro sint_word_of_int_64) auto
  then show "length (int_repr dbid) \<le> 20"
    "\<exists>buf. ll2string (map junk [0..<24]) 24 (word_of_int dbid) = Some (length (int_repr dbid), buf) \<and> take (length (int_repr dbid)) buf = int_repr dbid"
    using length_int_repr_ll[of "word_of_int dbid"] by (simp_all add: ll2string_eq Let_def)
qed

lemma event_channel_ok:
  assumes "plain o1" "length (obj_text o1) < 2 ^ 31 - 2 ^ 10" "length prefix = 11" "length d \<le> 20"
  shows "\<exists>ch. event_channel e prefix d (o_ptr o1) = Some ch \<and> sub_arg ch \<and> obj_text ch = bytes_of_string prefix @ d @ bytes_of_string ''__:'' @ obj_text o1"
proof -
  obtain t where t: "o_ptr o1 = PSds t" "sds_ok t" "obj_text o1 = sds_text t" using assms(1) by (auto simp: plain_def elim!: obj_ok_cases)
  have p: "length (bytes_of_string prefix) = 11" "length (bytes_of_string ''__:'') = 3" using assms(3) by (simp_all add: bytes_of_string_def)
  obtain c1 where c1: "sdsnewlen (e_junk e) (Some (bytes_of_string prefix)) 11 = Some c1" "sds_ok c1" "sds_text c1 = bytes_of_string prefix"
    using newlen_ok[of 11 "Some (bytes_of_string prefix)" "e_junk e"] p(1) by auto
  obtain c2 where c2: "sdscatlen (e_junk e) c1 d = Some c2" "sds_ok c2" "sds_text c2 = bytes_of_string prefix @ d"
    using catlen_ok[OF c1(2), of d "e_junk e"] sds_okD(3)[OF c1(2)] c1(3) p(1) assms(4) by auto
  obtain c3 where c3: "sdscatlen (e_junk e) c2 (bytes_of_string ''__:'') = Some c3" "sds_ok c3" "sds_text c3 = bytes_of_string prefix @ d @ bytes_of_string ''__:''"
    using catlen_ok[OF c2(2), of "bytes_of_string ''__:''" "e_junk e"] sds_okD(3)[OF c2(2)] c2(3) p assms(4) by auto
  obtain c4 where c4: "sdscatlen (e_junk e) c3 (sds_text t) = Some c4" "sds_ok c4" "sds_text c4 = bytes_of_string prefix @ d @ bytes_of_string ''__:'' @ sds_text t"
    using catlen_ok[OF c3(2), of "sds_text t" "e_junk e"] sds_okD(3)[OF c3(2)] c3(3) p assms(2,4) t(3) by auto
  let ?ch = "createObject REDIS_STRING (PSds c4) (e_clk e)"
  have "event_channel e prefix d (o_ptr o1) = Some ?ch" using c1(1) c2(1) c3(1) c4(1) sds_bytes[OF t(2)] by (simp add: event_channel_def t(1) sdscatsds_def)
  moreover have "obj_text ?ch = bytes_of_string prefix @ d @ bytes_of_string ''__:'' @ obj_text o1" using c4(3) t(3) by (simp add: obj_text_def createObject_def)
  moreover have "plain ?ch" using c4(2) by (simp add: plain_def obj_ok_def createObject_def)
  ultimately show ?thesis using p assms(2,4) by (auto simp: sub_arg_def)
qed

lemma event_publish:
  assumes "ps_ok s" "plain o1" "length (obj_text o1) < 2 ^ 31 - 2 ^ 10" "length prefix = 11" "- (2 ^ 31) \<le> dbid" "dbid < 2 ^ 31" "obj_ok message"
  shows "\<exists>ch s' n. event_channel e prefix (int_repr dbid) (o_ptr o1) = Some ch \<and> pubsubPublishMessage e s ch message = Some (s', n) \<and>
    heard e (delivered (subs s) (event_name prefix dbid (obj_text o1)) (obj_text message)) s s'"
proof -
  obtain ch where ch: "event_channel e prefix (int_repr dbid) (o_ptr o1) = Some ch" "sub_arg ch" "obj_text ch = event_name prefix dbid (obj_text o1)"
    using event_channel_ok[OF assms(2-4) digits_ok(2)[OF assms(5,6)], of e] by (auto simp: event_name_def)
  have "obj_text ch \<noteq> []" unfolding ch(3) event_name_def by (simp add: bytes_of_string_def)
  from publish_ok[OF assms(1) ch(2) assms(7) this, of e] show ?thesis using ch(1,3) by auto
qed

lemma event_object: "length event \<le> 1000 \<Longrightarrow> \<exists>o1. createStringObject junk clk (Some (bytes_of_string event)) (length event) = Some o1 \<and> plain o1 \<and>
    obj_text o1 = bytes_of_string event"
proof -
  assume "length event \<le> 1000"
  then obtain o1 where o1: "createStringObject junk clk (Some (bytes_of_string event)) (length event) = Some o1" "obj_ok o1" "obj_text o1 = bytes_of_string event"
    using string_ok[of "length event" "Some (bytes_of_string event)" junk clk] by (auto simp: bytes_of_string_def)
  moreover have "\<exists>t. o_ptr o1 = PSds t" using o1(1)
    by (auto simp: createStringObject_def createEmbeddedStringObject_def createRawStringObject_def createObject_def split: if_splits bind_splits)
  ultimately show ?thesis by (auto simp: plain_def)
qed

text \<open>What an event means for client \<open>i\<close>.\<close>

definition event_delivered :: "32 word \<Rightarrow> abs_subs \<Rightarrow> 32 word \<Rightarrow> string \<Rightarrow> bytes \<Rightarrow> int \<Rightarrow> nat \<Rightarrow> bytes" where
  "event_delivered flags a type event key dbid i =
     (if flags AND type = 0 then []
      else (if bit flags 0 then delivered a (event_name ''__keyspace@'' dbid key) (bytes_of_string event) i else []) @
           (if bit flags 1 then delivered a (event_name ''__keyevent@'' dbid (bytes_of_string event)) key i else []))"

lemma deliver_ok:
  assumes "ps_ok s" "plain key" "length (obj_text key) < 2 ^ 31 - 2 ^ 10" "length event \<le> 1000" "- (2 ^ 31) \<le> dbid" "dbid < 2 ^ 31"
  shows "\<exists>s'. deliverKeyspaceEvent e flags s type event key dbid = Some s' \<and> heard e (event_delivered flags (subs s) type event (obj_text key) dbid) s s'"
proof (cases "flags AND type = 0")
  case True
  then show ?thesis using heard_refl[of s e] assms(1) by (simp add: deliverKeyspaceEvent_def event_delivered_def[abs_def] ps_ok_def)
next
  case False
  obtain ev where ev: "createStringObject (e_junk e) (e_clk e) (Some (bytes_of_string event)) (length event) = Some ev" "plain ev" "obj_text ev = bytes_of_string event"
    using event_object[OF assms(4)] by blast
  obtain buf where dg: "ll2string (map (e_junk e) [0..<24]) 24 (word_of_int dbid) = Some (length (int_repr dbid), buf)" "take (length (int_repr dbid)) buf = int_repr dbid"
    using digits_ok(1)[OF assms(5,6)] by blast
  have ok: "obj_ok ev" "obj_ok key" "length (obj_text ev) < 2 ^ 31 - 2 ^ 10" using ev assms(2,4) by (simp_all add: plain_def bytes_of_string_def)
  have k: "flags AND REDIS_NOTIFY_KEYSPACE \<noteq> 0 \<longleftrightarrow> bit flags 0" "flags AND REDIS_NOTIFY_KEYEVENT \<noteq> 0 \<longleftrightarrow> bit flags 1"
    unfolding notify_flags and_exp by simp_all
  let ?t = "\<lambda>i. if bit flags 0 then delivered (subs s) (event_name ''__keyspace@'' dbid (obj_text key)) (bytes_of_string event) i else []"
  let ?u = "\<lambda>i. if bit flags 1 then delivered (subs s) (event_name ''__keyevent@'' dbid (bytes_of_string event)) (obj_text key) i else []"
  obtain s1 where s1: "(if flags AND REDIS_NOTIFY_KEYSPACE \<noteq> 0 then do {
             (len, buf) \<leftarrow> ll2string (map (e_junk e) [0..<24]) 24 (word_of_int dbid);
             chanobj \<leftarrow> event_channel e ''__keyspace@'' (take len buf) (o_ptr key);
             (s, _) \<leftarrow> pubsubPublishMessage e s chanobj ev;
             Some (s, Some (take len buf))
           } else Some (s, None)) = Some (s1, if bit flags 0 then Some (int_repr dbid) else None)" "heard e ?t s s1"
  proof (cases "bit flags 0")
    case True
    then show ?thesis using that event_publish[OF assms(1-3) _ assms(5,6) ok(1), of "''__keyspace@''" e] dg unfolding k ev(3) by auto
  next
    case False
    then show ?thesis using that[of s] heard_refl[of s e] assms(1) unfolding k by (simp add: ps_ok_def)
  qed
  have ps1: "ps_ok s1" "subs s1 = subs s" using s1(2) assms(1) by (simp_all add: ps_ok_def heard_tables heardD)
  obtain s2 where s2: "(if flags AND REDIS_NOTIFY_KEYEVENT \<noteq> 0 then do {
           digits \<leftarrow> (case (if bit flags 0 then Some (int_repr dbid) else None) of
                       Some d \<Rightarrow> Some d
                     | None \<Rightarrow> do { (len, buf) \<leftarrow> ll2string (map (e_junk e) [0..<24]) 24 (word_of_int dbid); Some (take len buf) });
           chanobj \<leftarrow> event_channel e ''__keyevent@'' digits (o_ptr ev);
           (s, _) \<leftarrow> pubsubPublishMessage e s1 chanobj key;
           Some s
         } else Some s1) = Some s2" "heard e ?u s1 s2"
  proof (cases "bit flags 1")
    case True
    then show ?thesis using that event_publish[OF ps1(1) ev(2) ok(3) _ assms(5,6) ok(2), of "''__keyevent@''" e] dg unfolding k ps1(2) ev(3) by auto
  next
    case False
    then show ?thesis using that[of s1] heard_refl[of s1 e] ps1(1) unfolding k by (simp add: ps_ok_def)
  qed
  have "deliverKeyspaceEvent e flags s type event key dbid = Some s2"
    unfolding deliverKeyspaceEvent_def if_not_P[OF False] ev(1) Option.bind.bind_lunit s1(1) prod.case s2(1) ..
  moreover have "event_delivered flags (subs s) type event (obj_text key) dbid = (\<lambda>i. ?t i @ ?u i)" using False by (simp add: event_delivered_def fun_eq_iff)
  ultimately show ?thesis using heard_trans[OF s1(2) s2(2)] by simp
qed

section \<open>Properties\<close>

text \<open>C22. An event of the keyspace is delivered to exactly the clients that asked for it.  After any history of subscriptions
  and messages, an event of a class that is not enabled is not delivered; an enabled one is published, if the
  respective kind is enabled, on the channel named after the key with the event as the message and then on the channel named after
  the event with the key as the message, and every client receives for each of the two what its channels and patterns say;
  building the names of the channels stays in bounds.  The history has only operations that satisfy \<open>op_ok\<close>: no \<open>PSUBSCRIBE\<close>
  names a pattern with a character class that ends in an escape and no \<open>PUBLISH\<close> has an empty channel.\<close>

theorem keyspace_event_delivered:
  assumes "\<forall>i. out_ok (outs i)" "list_all (\<lambda>(e, order, op). op_ok op \<and> (\<forall>xs. set (order xs) = set xs)) h"
    and "plain key" "length (obj_text key) < 2 ^ 31 - 2 ^ 10" "length event \<le> 1000" "- (2 ^ 31) \<le> dbid" "dbid < 2 ^ 31"
  shows "\<exists>s s'. run_history (ps_init outs) h = Some s \<and> deliverKeyspaceEvent e flags s type event key dbid = Some s' \<and>
    (\<forall>i. queued (ps_out s' i) = queued (ps_out s i) @ (if writes (e_ae_ok e) (ps_out s i)
      then event_delivered flags (foldl op_subs (\<lambda>_. ([], [])) (map (snd \<circ> snd) h)) type event (obj_text key) dbid i else []))"
proof -
  let ?a = "foldl op_subs (\<lambda>_. ([], [])) (map (snd \<circ> snd) h)"
  obtain s where s: "run_history (ps_init outs) h = Some s" "ps_ok s" "subs s = ?a"
    using run_history_ok[of "ps_init outs" h] init_ok[OF assms(1)] assms(2) by auto
  obtain s' where "deliverKeyspaceEvent e flags s type event key dbid = Some s'" "heard e (event_delivered flags ?a type event (obj_text key) dbid) s s'"
    using deliver_ok[OF s(2) assms(3-7)] unfolding s(3) by blast
  then show ?thesis using s(1) by (intro exI[of _ s] exI[of _ s']) (simp add: heard_def)
qed

theorem keyspace_event_delivered_witness:
  "\<exists>s s'. run_history (ps_init (\<lambda>_. fresh_client)) [(sample_env 0, (\<lambda>xs. xs), PSubscribe 2 [str_obj [80], str_obj [42]])] = Some s \<and>
    deliverKeyspaceEvent (sample_env 0) (REDIS_NOTIFY_KEYSPACE OR REDIS_NOTIFY_GENERIC) s REDIS_NOTIFY_GENERIC ''del'' (str_obj [107]) 0 = Some s' \<and>
    queued (ps_out s' 2) = queued (ps_out s 2) @ (if writes True (ps_out s 2)
      then pmessage_text (event_name ''__keyspace@'' 0 [107]) (bytes_of_string ''del'') [42] else []) \<and>
    queued (ps_out s' 1) = queued (ps_out s 1)"
proof -
  let ?h = "[(sample_env 0, (\<lambda>xs. xs), PSubscribe 2 [str_obj [80], str_obj [42]])]"
  let ?a = "(\<lambda>_. ([], []))(2 := ([], [[42]])) :: abs_subs"
  let ?f = "REDIS_NOTIFY_KEYSPACE OR REDIS_NOTIFY_GENERIC"
  have h: "list_all (\<lambda>(e, order, op). op_ok op \<and> (\<forall>xs. set (order xs) = set xs)) ?h" by (simp add: sub_arg_def plain_str parse.simps)
  have a: "foldl op_subs (\<lambda>_. ([], [])) (map (snd \<circ> snd) ?h) = ?a" by (simp add: sub_pattern_def add_sub_def fun_eq_iff)
  have f: "?f AND REDIS_NOTIFY_GENERIC \<noteq> 0" "bit ?f 0" "\<not> bit ?f 1"
    by (simp_all add: notify_flags bit_or_iff bit_exp_iff flip: bit_eq_iff)
  have "matches [42] k" for k by (auto simp: matches_def parse.simps intro: exI[of _ "length k"])
  then have d: "event_delivered ?f ?a REDIS_NOTIFY_GENERIC ''del'' [107] 0 2 = pmessage_text (event_name ''__keyspace@'' 0 [107]) (bytes_of_string ''del'') [42]"
    "event_delivered ?f ?a REDIS_NOTIFY_GENERIC ''del'' [107] 0 1 = []"
    using f unfolding event_delivered_def if_not_P[OF f(1)] by (simp_all add: delivered_def)
  have o: "\<forall>i. out_ok ((\<lambda>_ :: nat. fresh_client) i)" by (simp add: fresh_client_ok)
  have k: "plain (str_obj [107])" "length (obj_text (str_obj [107])) < 2 ^ 31 - 2 ^ 10" "length ''del'' \<le> 1000" "- (2 ^ 31) \<le> (0 :: int)" "(0 :: int) < 2 ^ 31" by (simp_all add: plain_str)
  from keyspace_event_delivered[OF o h k, of "sample_env 0" ?f REDIS_NOTIFY_GENERIC]
  obtain s s' where "run_history (ps_init (\<lambda>_. fresh_client)) ?h = Some s"
    "deliverKeyspaceEvent (sample_env 0) ?f s REDIS_NOTIFY_GENERIC ''del'' (str_obj [107]) 0 = Some s'"
    "\<forall>i. queued (ps_out s' i) = queued (ps_out s i) @ (if writes True (ps_out s i) then event_delivered ?f ?a REDIS_NOTIFY_GENERIC ''del'' [107] 0 i else [])"
    unfolding a str_obj_text eqTrueI[OF sample_env_simps(4)] by (elim exE conjE) (rule that; assumption)
  then show ?thesis using d by (intro exI[of _ s] exI[of _ s']) simp
qed

end
