(* ===== verification/Redis_Set.thy ===== *)
theory Redis_Set
  imports Redis_String Redis_Intset
begin

text \<open>
  The set type of \<open>t_set.c\<close>: a set of strings held either as an integer set or as a hash table of objects, and converted
  from the first to the second when a member is no integer or there are too many.

  A set object is the variant \<open>set_ptr\<close>, whose constructor is the encoding.  The hash table of a set has objects as keys,
  hashed and compared by \<open>dictEncObjHash\<close> and \<open>dictEncObjKeyCompare\<close>; these depend on the text of an object only (proved
  below), so the table is modelled with the text as the key and the object stored under it as the value.  The
  shared integers are threaded through, because the conversion takes references to them.  Iterators over hash tables and random
  members are not modelled.

  The main result: whatever the encodings of the objects and of the set, the operations are those of a finite set of texts
  (the contract \<open>set_impl\<close>).
\<close>

section \<open>The code\<close>

definition dictEncObjHash :: "32 word \<Rightarrow> (nat \<Rightarrow> byte) \<Rightarrow> nat \<Rightarrow> robj \<Rightarrow> 32 word option" where
  "dictEncObjHash seed junk clk o1 =
     (if sdsEncodedObject o1
      then case o_ptr o1 of PSds t \<Rightarrow> do { bs \<leftarrow> mem_read (s_buf t) 0 (sdslen t); Some (dictGenHashFunction seed bs) } | _ \<Rightarrow> None
      else if o_encoding o1 = ENC_INT
      then case o_ptr o1 of
             PLong v \<Rightarrow> do { (len, buf) \<leftarrow> ll2string (map junk [0..<32]) 32 v; Some (dictGenHashFunction seed (take len buf)) }
           | _ \<Rightarrow> None
      else do {
        d \<leftarrow> getDecodedObject junk clk o1;
        (case o_ptr d of PSds t \<Rightarrow> do { bs \<leftarrow> mem_read (s_buf t) 0 (sdslen t); Some (dictGenHashFunction seed bs) } | _ \<Rightarrow> None)
      })"

definition dictEncObjKeyCompare :: "(nat \<Rightarrow> byte) \<Rightarrow> nat \<Rightarrow> robj \<Rightarrow> robj \<Rightarrow> bool option" where
  "dictEncObjKeyCompare junk clk o1 o2 =
     (if o_encoding o1 = ENC_INT \<and> o_encoding o2 = ENC_INT then Some (o_ptr o1 = o_ptr o2)
      else do {
        d1 \<leftarrow> getDecodedObject junk clk o1;
        d2 \<leftarrow> getDecodedObject junk clk o2;
        (case (o_ptr d1, o_ptr d2) of
           (PSds s, PSds t) \<Rightarrow> do {
             a \<leftarrow> mem_read (s_buf s) 0 (sdslen s);
             b \<leftarrow> mem_read (s_buf t) 0 (sdslen t);
             Some (dictSdsKeyCompare a b)
           }
         | _ \<Rightarrow> None)
      })"

datatype set_ptr = SIntset intset | SDict "(bytes, robj) dict"

definition setTypeCreate :: "robj \<Rightarrow> set_ptr option" where
  "setTypeCreate value1 = do {
     r \<leftarrow> isObjectRepresentableAsLongLong value1;
     Some (if r \<noteq> None then SIntset intsetNew else SDict dictCreate)
   }"

text \<open>The loop of \<open>setTypeConvert\<close> from position \<open>ii\<close> on: every member is added under its text, which has to be new.\<close>

function convert_loop :: "server_env \<Rightarrow> intset \<Rightarrow> nat \<Rightarrow> robj list \<Rightarrow> (bytes, robj) dict \<Rightarrow> (robj list \<times> (bytes, robj) dict) option" where
  "convert_loop e is ii integers d =
     (case intsetGet is ii of
        None \<Rightarrow> None
      | Some None \<Rightarrow> Some (integers, d)
      | Some (Some v) \<Rightarrow> do {
          (integers, element) \<leftarrow> createStringObjectFromLongLong (e_junk e) (e_clk e) integers (word_of_int v);
          (d, ok) \<leftarrow> dictAdd (dty e) (e_resize e) (e_val e) d (obj_text element) element;
          (if ok then convert_loop e is (ii + 1) integers d else None)
        })"
  by pat_completeness auto
termination by (relation "measure (\<lambda>(_, is, ii, _, _). is_length is - ii)") (auto simp: intsetGet_def split: if_splits)

declare convert_loop.simps [simp del]

definition setTypeConvert :: "server_env \<Rightarrow> robj list \<Rightarrow> set_ptr \<Rightarrow> (robj list \<times> set_ptr) option" where
  "setTypeConvert e integers setobj =
     (case setobj of
        SIntset is \<Rightarrow> do {
          (d, _) \<leftarrow> dictExpand dictCreate (intsetLen is);
          (integers, d) \<leftarrow> convert_loop e is 0 integers d;
          Some (integers, SDict d)
        }
      | SDict d \<Rightarrow> None)"

text \<open>\<open>max_entries\<close> is \<open>set_max_intset_entries\<close> of the configuration.\<close>

definition setTypeAdd :: "server_env \<Rightarrow> nat \<Rightarrow> robj list \<Rightarrow> set_ptr \<Rightarrow> robj \<Rightarrow> (robj list \<times> set_ptr \<times> bool) option" where
  "setTypeAdd e max_entries integers subject value1 =
     (case subject of
        SDict d \<Rightarrow> do {
          (d, ok) \<leftarrow> dictAdd (dty e) (e_resize e) (e_val e) d (obj_text value1) value1;
          Some (integers, SDict d, ok)
        }
      | SIntset is \<Rightarrow> do {
          r \<leftarrow> isObjectRepresentableAsLongLong value1;
          (case r of
             Some llval \<Rightarrow> do {
               (is, success) \<leftarrow> intsetAdd (e_junk e) is (sint llval);
               (if success then do {
                  (integers, subject) \<leftarrow> (if intsetLen is > max_entries then setTypeConvert e integers (SIntset is) else Some (integers, SIntset is));
                  Some (integers, subject, True)
                } else Some (integers, SIntset is, False))
             }
           | None \<Rightarrow> do {
               (integers, subject) \<leftarrow> setTypeConvert e integers subject;
               (case subject of
                  SDict d \<Rightarrow> do {
                    (d, ok) \<leftarrow> dictAdd (dty e) (e_resize e) (e_val e) d (obj_text value1) value1;
                    (if ok then Some (integers, SDict d, True) else None)
                  }
                | SIntset _ \<Rightarrow> None)
             })
        })"

definition htNeedsResize :: "('k, 'v) dict \<Rightarrow> bool" where
  "htNeedsResize d = (
     let slots = ht_size (d_ht0 d) + ht_size (d_ht1 d); used = dictSize d
     in slots \<noteq> 0 \<and> used \<noteq> 0 \<and> slots > 4 \<and> used * 100 div slots < 10)"

definition setTypeRemove :: "server_env \<Rightarrow> set_ptr \<Rightarrow> robj \<Rightarrow> (set_ptr \<times> bool) option" where
  "setTypeRemove e setobj value1 =
     (case setobj of
        SDict d \<Rightarrow> do {
          (d, ok) \<leftarrow> dictDelete (dty e) d (obj_text value1);
          (if ok then do {
             d \<leftarrow> (if htNeedsResize d then map_option fst (dictResize (e_resize e) d) else Some d);
             Some (SDict d, True)
           } else Some (SDict d, False))
        }
      | SIntset is \<Rightarrow> do {
          r \<leftarrow> isObjectRepresentableAsLongLong value1;
          (case r of
             Some llval \<Rightarrow> do { (is, success) \<leftarrow> intsetRemove (e_junk e) is (sint llval); Some (SIntset is, success) }
           | None \<Rightarrow> Some (SIntset is, False))
        })"

text \<open>A lookup in the hash table may move a bucket of a rehash, so the set is returned.\<close>

definition setTypeIsMember :: "server_env \<Rightarrow> set_ptr \<Rightarrow> robj \<Rightarrow> (set_ptr \<times> bool) option" where
  "setTypeIsMember e subject value1 =
     (case subject of
        SDict d \<Rightarrow> do { (d, de) \<leftarrow> dictFind (dty e) d (obj_text value1); Some (SDict d, de \<noteq> None) }
      | SIntset is \<Rightarrow> do {
          r \<leftarrow> isObjectRepresentableAsLongLong value1;
          (case r of
             Some llval \<Rightarrow> do { b \<leftarrow> intsetFind is (sint llval); Some (SIntset is, b) }
           | None \<Rightarrow> Some (SIntset is, False))
        })"

definition setTypeSize :: "set_ptr \<Rightarrow> nat" where
  "setTypeSize subject = (case subject of SDict d \<Rightarrow> dictSize d | SIntset is \<Rightarrow> intsetLen is)"

section \<open>Objects as keys\<close>

lemma enc_hash:
  assumes "obj_ok o1"
  shows "dictEncObjHash seed junk clk o1 = Some (hashFunction (dbDictType seed) (obj_text o1))"
  using assms
proof (cases rule: obj_ok_cases)
  case (int v)
  then show ?thesis using length_int_repr_ll[of v]
    by (simp add: dictEncObjHash_def ll2string_eq Let_def dbDictType_def dictSdsHash_def)
qed (simp_all add: dictEncObjHash_def sds_bytes dbDictType_def dictSdsHash_def)

lemma enc_compare: "obj_ok a \<Longrightarrow> obj_ok b \<Longrightarrow> dictEncObjKeyCompare junk clk a b = Some (keyCompare (dbDictType seed) (obj_text a) (obj_text b))"
proof -
  assume ok: "obj_ok a" "obj_ok b"
  show ?thesis
  proof (cases "o_encoding a = ENC_INT \<and> o_encoding b = ENC_INT")
    case True
    then obtain v w where "o_ptr a = PLong v" "o_ptr b = PLong w" "obj_text a = int_repr (sint v)" "obj_text b = int_repr (sint w)"
      using ok by (auto elim!: obj_ok_cases)
    then show ?thesis using True int_repr_inj[of "sint v" "sint w"] by (auto simp: dictEncObjKeyCompare_def sds_compare signed_word_eqI)
  next
    case False
    obtain d s where "getDecodedObject junk clk a = Some d" "o_ptr d = PSds s" "sds_ok s" "sds_text s = obj_text a" using decoded_any[OF ok(1)] by blast
    moreover obtain d' s' where "getDecodedObject junk clk b = Some d'" "o_ptr d' = PSds s'" "sds_ok s'" "sds_text s' = obj_text b" using decoded_any[OF ok(2)] by blast
    moreover have "dictSdsKeyCompare x y = (x = y)" for x y using sds_compare[of seed] by (simp add: dbDictType_def fun_eq_iff)
    ultimately show ?thesis using False by (auto simp: dictEncObjKeyCompare_def sds_bytes sds_compare)
  qed
qed

lemma representable:
  assumes "obj_ok o1"
  shows "isObjectRepresentableAsLongLong o1 = Some (string2ll (obj_text o1))"
proof -
  have ty: "o_type o1 = REDIS_STRING" using assms by (simp add: obj_ok_def)
  show ?thesis using assms
  proof (cases rule: obj_ok_cases)
    case (int v)
    then show ?thesis using ty string2ll_iff[of "int_repr (sint v)" v] by (simp add: isObjectRepresentableAsLongLong_def)
  next
    case (sds s)
    then show ?thesis using ty by (cases "o_encoding o1") (simp_all add: isObjectRepresentableAsLongLong_def sds_bytes)
  qed
qed

section \<open>A set of texts\<close>

definition members_ok :: "server_env \<Rightarrow> (bytes, robj) dict \<Rightarrow> bool" where
  "members_ok e d \<longleftrightarrow> dict_ok (dty e) d \<and> (\<forall>k o1. dict_map d k = Some o1 \<longrightarrow> obj_ok o1 \<and> obj_text o1 = k)"

definition set_ok :: "server_env \<Rightarrow> set_ptr \<Rightarrow> bool" where
  "set_ok e st = (case st of SIntset is \<Rightarrow> intset_ok is | SDict d \<Rightarrow> members_ok e d)"

definition set_texts :: "set_ptr \<Rightarrow> bytes set" where
  "set_texts st = (case st of SIntset is \<Rightarrow> int_repr ` intset_elems is | SDict d \<Rightarrow> dom (dict_map d))"

lemma inj_repr: "inj_on int_repr A"
  by (auto intro: inj_onI int_repr_inj)

lemma card_texts: "set_ok e st \<Longrightarrow> card (set_texts st) = setTypeSize st"
  by (cases st) (auto simp: set_ok_def set_texts_def setTypeSize_def card_image inj_repr ok_card ok_length intsetLen_def members_ok_def dict_ok_card)

lemma finite_texts: "finite (set_texts st)"
  by (cases st) (simp_all add: set_texts_def intset_elems_def finite_dict_map)

lemma text_value: "string2ll t = Some v \<Longrightarrow> t \<in> int_repr ` A \<longleftrightarrow> sint v \<in> A"
  using int_repr_inj by (auto simp: string2ll_iff)

lemma fits_sint: "fits 8 (sint (v :: 64 word))"
  using sint_lt[of v] sint_ge[of v] by (simp add: fits_def)

lemma elems_fit: "intset_ok is \<Longrightarrow> x \<in> intset_elems is \<Longrightarrow> fits 8 x"
  using repD(4)[OF ok_rep] fits_mono[of "is_encoding is" x 8] by (auto simp: intset_elems_def intset_ok_def)

lemma no_value: "intset_ok is \<Longrightarrow> string2ll t = None \<Longrightarrow> t \<notin> int_repr ` intset_elems is"
proof
  assume a: "intset_ok is" "string2ll t = None" and "t \<in> int_repr ` intset_elems is"
  then obtain x where x: "t = int_repr x" "x \<in> intset_elems is" by blast
  have "sint (word_of_int x :: 64 word) = x" using elems_fit[OF a(1) x(2)] by (intro sint_word_of_int_64) (simp_all add: fits_def)
  then have "string2ll t = Some (word_of_int x)" unfolding string2ll_iff x(1) by simp
  then show False using a(2) by simp
qed

lemma add_member:
  assumes "members_ok e d" "obj_ok o1" "dictSize d \<le> 2 ^ 30"
  shows "\<exists>d'. dictAdd (dty e) can junk d (obj_text o1) o1 = Some (d', obj_text o1 \<notin> dom (dict_map d)) \<and> members_ok e d' \<and>
    dom (dict_map d') = insert (obj_text o1) (dom (dict_map d))"
proof -
  obtain d' where "dictAdd (dty e) can junk d (obj_text o1) o1 = Some (d', obj_text o1 \<notin> dom (dict_map d))" "dict_ok (dty e) d'"
    "dict_map d' = (if obj_text o1 \<in> dom (dict_map d) then dict_map d else (dict_map d)(obj_text o1 \<mapsto> o1))"
    using add_ok[of "dty e" d can junk "obj_text o1" o1] assms db_dict.compare_eq by (auto simp: members_ok_def)
  then show ?thesis using assms(1,2) by (auto simp: members_ok_def split: if_splits)
qed

lemma convert_loop_ok:
  assumes "intset_ok is" "members_ok e d" "shared_ok integers" "dom (dict_map d) = int_repr ` set (take ii (intset_vals is))" "is_length is \<le> 2 ^ 30" "ii \<le> is_length is"
  shows "\<exists>sh d'. convert_loop e is ii integers d = Some (sh, d') \<and> shared_ok sh \<and> members_ok e d' \<and> dom (dict_map d') = int_repr ` intset_elems is"
  using assms(2-4,6)
proof (induction "is_length is - ii" arbitrary: ii integers d)
  case 0
  then show ?case using ok_length[OF assms(1)] by (subst convert_loop.simps) (simp add: intsetGet_def intset_elems_def)
next
  case (Suc n)
  let ?v = "intset_vals is ! ii"
  have ii: "ii < is_length is" using Suc.hyps(2) by simp
  have len: "length (intset_vals is) = is_length is" by (rule ok_length[OF assms(1)])
  have get: "intsetGet is ii = Some (Some ?v)" using ii len rep_get[OF ok_rep[OF assms(1)]] by (simp add: intsetGet_def)
  have v: "?v \<in> intset_elems is" using ii len by (simp add: intset_elems_def)
  then have sv: "sint (word_of_int ?v :: 64 word) = ?v" using elems_fit[OF assms(1)] by (intro sint_word_of_int_64) (auto simp: fits_def)
  obtain sh el where el: "createStringObjectFromLongLong (e_junk e) (e_clk e) integers (word_of_int ?v) = Some (sh, el)" "shared_ok sh" "obj_ok el" "obj_text el = int_repr ?v"
    using fromLongLong_ok[OF Suc.prems(2)] sv by metis
  have "card (dom (dict_map d)) \<le> ii" unfolding Suc.prems(3)
    by (rule order_trans[OF card_image_le order_trans[OF card_length]]) auto
  then have "dictSize d \<le> 2 ^ 30" using dict_ok_card[of "dty e" d] Suc.prems(1) assms(5) ii by (auto simp: members_ok_def)
  from add_member[OF Suc.prems(1) el(3) this, of "e_resize e" "e_val e"]
  obtain d1 where d1: "dictAdd (dty e) (e_resize e) (e_val e) d (obj_text el) el = Some (d1, obj_text el \<notin> dom (dict_map d))" "members_ok e d1"
    "dom (dict_map d1) = insert (obj_text el) (dom (dict_map d))" by blast
  have "?v \<notin> set (take ii (intset_vals is))" using ok_distinct[OF assms(1)] ii len by (auto simp: in_set_conv_nth nth_eq_iff_index_eq)
  then have new: "obj_text el \<notin> dom (dict_map d)" unfolding Suc.prems(3) el(4) using int_repr_inj by blast
  have "dom (dict_map d1) = int_repr ` set (take (ii + 1) (intset_vals is))" using d1(3) Suc.prems(3) el(4) ii len by (simp add: take_Suc_conv_app_nth)
  from Suc.hyps(1)[OF _ d1(2) el(2) this] ii Suc.hyps(2)
  show ?case using el(1) d1(1) new by (subst convert_loop.simps) (simp add: get)
qed

lemma convert_ok:
  assumes "intset_ok is" "shared_ok integers" "is_length is \<le> 2 ^ 30"
  shows "\<exists>sh d. setTypeConvert e integers (SIntset is) = Some (sh, SDict d) \<and> shared_ok sh \<and> members_ok e d \<and> dom (dict_map d) = int_repr ` intset_elems is"
proof -
  have "dict_ok (dty e) (dictCreate :: (bytes, robj) dict)" by (rule create_ok)
  then obtain d b where d: "dictExpand dictCreate (intsetLen is) = Some (d, b)" "dict_ok (dty e) d" "dict_entries d = dict_entries (dictCreate :: (bytes, robj) dict)"
    using expand_spec[of "dty e" "dictCreate :: (bytes, robj) dict" "intsetLen is"] assms(3) by (auto simp: intsetLen_def)
  then have "dict_map d = Map.empty" using create_ok(2) by (metis dict_map_def)
  then have "members_ok e d" "dom (dict_map d) = int_repr ` set (take 0 (intset_vals is))" using d(2) by (simp_all add: members_ok_def)
  from convert_loop_ok[OF assms(1) this(1) assms(2) this(2) assms(3)] show ?thesis by (auto simp: setTypeConvert_def d(1))
qed

lemma add_texts:
  assumes "set_ok e st" "shared_ok integers" "obj_ok o1" "card (set_texts st) < 2 ^ 29 - 1"
  shows "\<exists>sh st'. setTypeAdd e mx integers st o1 = Some (sh, st', obj_text o1 \<notin> set_texts st) \<and> shared_ok sh \<and> set_ok e st' \<and>
    set_texts st' = insert (obj_text o1) (set_texts st)"
proof (cases st)
  case (SDict d)
  have "dictSize d \<le> 2 ^ 30" using card_texts[OF assms(1)] assms(4) SDict by (simp add: setTypeSize_def)
  then show ?thesis using add_member[of e d o1 "e_resize e" "e_val e"] assms SDict by (auto simp: setTypeAdd_def set_ok_def set_texts_def)
next
  case (SIntset ns)
  have is1: "intset_ok ns" using assms(1) SIntset by (simp add: set_ok_def)
  have room: "card (intset_elems ns) < 2 ^ 29 - 1" using assms(4) SIntset by (simp add: set_texts_def card_image inj_repr)
  have len: "is_length ns < 2 ^ 29 - 1" using room ok_card[OF is1] ok_length[OF is1] by simp
  show ?thesis
  proof (cases "string2ll (obj_text o1)")
    case None
    obtain sh d where d: "setTypeConvert e integers st = Some (sh, SDict d)" "shared_ok sh" "members_ok e d" "dom (dict_map d) = int_repr ` intset_elems ns"
      using convert_ok[OF is1 assms(2), of e] len SIntset by auto
    have new: "obj_text o1 \<notin> dom (dict_map d)" using no_value[OF is1 None] d(4) by simp
    have "dictSize d \<le> 2 ^ 30" using dict_ok_card[of "dty e" d] d(3,4) room by (simp add: members_ok_def card_image inj_repr)
    from add_member[OF d(3) assms(3) this, of "e_resize e" "e_val e"] new
    obtain d1 where "dictAdd (dty e) (e_resize e) (e_val e) d (obj_text o1) o1 = Some (d1, True)" "members_ok e d1" "dom (dict_map d1) = insert (obj_text o1) (dom (dict_map d))"
      by auto
    then show ?thesis using d new None unfolding SIntset by (auto simp: setTypeAdd_def representable[OF assms(3)] set_ok_def set_texts_def)
  next
    case (Some v)
    have tv: "obj_text o1 = int_repr (sint v)" using Some by (simp add: string2ll_iff)
    obtain ns' where ns': "intsetAdd (e_junk e) ns (sint v) = Some (ns', sint v \<notin> intset_elems ns)" "intset_ok ns'" "intset_elems ns' = insert (sint v) (intset_elems ns)"
      using iset.add_spec[OF is1 fits_sint room] by blast
    have new: "obj_text o1 \<notin> set_texts st \<longleftrightarrow> sint v \<notin> intset_elems ns" using text_value[OF Some] SIntset by (simp add: set_texts_def)
    have t': "int_repr ` intset_elems ns' = insert (obj_text o1) (set_texts st)" using ns'(3) SIntset tv by (simp add: set_texts_def)
    have "card (intset_elems ns') \<le> Suc (card (intset_elems ns))" unfolding ns'(3) by (rule card_insert_le_m1) simp_all
    then have "is_length ns' \<le> 2 ^ 30" using room ok_card[OF ns'(2)] ok_length[OF ns'(2)] by simp
    from convert_ok[OF ns'(2) assms(2) this, of e] obtain sh d where
      d: "setTypeConvert e integers (SIntset ns') = Some (sh, SDict d)" "shared_ok sh" "members_ok e d" "dom (dict_map d) = int_repr ` intset_elems ns'" by blast
    consider (old) "sint v \<in> intset_elems ns" | (stay) "sint v \<notin> intset_elems ns" "intsetLen ns' \<le> mx" | (conv) "sint v \<notin> intset_elems ns" "intsetLen ns' > mx" by linarith
    then show ?thesis
    proof cases
      case old
      have "setTypeAdd e mx integers st o1 = Some (integers, SIntset ns', False)" using old Some ns'(1) by (simp add: setTypeAdd_def SIntset representable[OF assms(3)])
      then show ?thesis using ns'(2) t' new old assms(2) by (simp add: set_ok_def set_texts_def SIntset)
    next
      case stay
      have "setTypeAdd e mx integers st o1 = Some (integers, SIntset ns', True)" using stay Some ns'(1) by (simp add: setTypeAdd_def SIntset representable[OF assms(3)])
      then show ?thesis using ns'(2) t' new stay(1) assms(2) by (simp add: set_ok_def set_texts_def SIntset)
    next
      case conv
      have "setTypeAdd e mx integers st o1 = Some (sh, SDict d, True)" using conv Some ns'(1) d(1) by (simp add: setTypeAdd_def SIntset representable[OF assms(3)])
      then show ?thesis using d(2-4) t' new conv(1) by (simp add: set_ok_def set_texts_def SIntset)
    qed
  qed
qed

lemma resize_ok:
  assumes "dict_ok ty d" "dictSize d \<le> 2 ^ 30"
  shows "\<exists>d' b. dictResize can d = Some (d', b) \<and> dict_ok ty d' \<and> dict_entries d' = dict_entries d"
proof (cases "\<not> can \<or> dictIsRehashing d")
  case False
  let ?u = "ht_used (d_ht0 d)"
  have u: "?u \<le> 2 ^ 30" using used0_le_size[of d] assms(2) by simp
  then have "to_signed 4 (int ?u mod 2 ^ 32) = int ?u" by (simp add: to_signed_def)
  then have "dictResize can d = dictExpand d (nat ((if int ?u < 4 then 4 else int ?u) mod 2 ^ 64))" using False by (simp add: dictResize_def)
  also have "nat ((if int ?u < 4 then 4 else int ?u) mod 2 ^ 64) = (if ?u < 4 then 4 else ?u)" using u by auto
  finally have r: "dictResize can d = dictExpand d (if ?u < 4 then 4 else ?u)" .
  have "(if ?u < 4 then 4 else ?u) \<le> 2 ^ 31" using u by auto
  from expand_spec[OF assms(1) this] show ?thesis unfolding r by blast
qed (use assms in \<open>auto simp: dictResize_def\<close>)

lemma remove_texts:
  assumes "set_ok e st" "obj_ok o1" "card (set_texts st) \<le> 2 ^ 29 - 1"
  shows "\<exists>st'. setTypeRemove e st o1 = Some (st', obj_text o1 \<in> set_texts st) \<and> set_ok e st' \<and> set_texts st' = set_texts st - {obj_text o1}"
proof (cases st)
  case (SDict d)
  have d: "members_ok e d" using assms(1) SDict by (simp add: set_ok_def)
  obtain d1 where d1: "dictDelete (dty e) d (obj_text o1) = Some (d1, obj_text o1 \<in> dom (dict_map d))" "dict_ok (dty e) d1" "dict_map d1 = (dict_map d)(obj_text o1 := None)"
    using delete_ok[of "dty e" d "obj_text o1"] d db_dict.compare_eq by (auto simp: members_ok_def)
  have m1: "members_ok e d1" using d d1(2,3) by (auto simp: members_ok_def split: if_splits)
  have "dictSize d1 \<le> dictSize d"
    using dict_ok_card[OF d1(2)] dict_ok_card[of "dty e" d] d d1(3) card_Diff1_le[of "dom (dict_map d)" "obj_text o1"] by (simp add: members_ok_def)
  then have "dictSize d1 \<le> 2 ^ 30" using card_texts[OF assms(1)] assms(3) SDict by (simp add: setTypeSize_def)
  from resize_ok[OF d1(2) this, of "e_resize e"] obtain d2 b where d2: "dictResize (e_resize e) d1 = Some (d2, b)" "dict_ok (dty e) d2" "dict_entries d2 = dict_entries d1" by blast
  then have m2: "members_ok e d2" "dict_map d2 = dict_map d1" using m1 by (simp_all add: members_ok_def dict_map_def)
  show ?thesis using d1 m1 d2 m2 SDict by (cases "obj_text o1 \<in> dom (dict_map d)"; cases "htNeedsResize d1") (auto simp: setTypeRemove_def set_ok_def set_texts_def)
next
  case (SIntset ns)
  have is1: "intset_ok ns" using assms(1) SIntset by (simp add: set_ok_def)
  show ?thesis
  proof (cases "string2ll (obj_text o1)")
    case None
    then show ?thesis using no_value[OF is1 None] is1 by (auto simp: setTypeRemove_def SIntset representable[OF assms(2)] set_ok_def set_texts_def)
  next
    case (Some v)
    have "card (intset_elems ns) \<le> 2 ^ 29 - 1" using assms(3) SIntset by (simp add: set_texts_def card_image inj_repr)
    then obtain ns' where ns': "intsetRemove (e_junk e) ns (sint v) = Some (ns', sint v \<in> intset_elems ns)" "intset_ok ns'" "intset_elems ns' = intset_elems ns - {sint v}"
      using iset.remove_spec[OF is1 fits_sint] by blast
    have "int_repr ` intset_elems ns' = int_repr ` intset_elems ns - {int_repr (sint v)}" unfolding ns'(3) using int_repr_inj by blast
    moreover have "obj_text o1 = int_repr (sint v)" using Some by (simp add: string2ll_iff)
    ultimately show ?thesis using ns' Some text_value[OF Some, of "intset_elems ns"] by (simp add: setTypeRemove_def SIntset representable[OF assms(2)] set_ok_def set_texts_def)
  qed
qed

lemma member_texts:
  assumes "set_ok e st" "obj_ok o1"
  shows "\<exists>st'. setTypeIsMember e st o1 = Some (st', obj_text o1 \<in> set_texts st) \<and> set_ok e st' \<and> set_texts st' = set_texts st"
proof (cases st)
  case (SDict d)
  have d: "members_ok e d" using assms(1) SDict by (simp add: set_ok_def)
  obtain d1 p where d1: "dictFind (dty e) d (obj_text o1) = Some (d1, p)" "dict_ok (dty e) d1" "dict_map d1 = dict_map d"
    "if obj_text o1 \<in> dom (dict_map d) then \<exists>q. p = Some q \<and> ptr_ok d1 (obj_text o1) q else p = None"
    using find_ok[of "dty e" d "obj_text o1"] d db_dict.compare_eq by (auto simp: members_ok_def)
  then show ?thesis using d by (auto simp: setTypeIsMember_def SDict set_ok_def set_texts_def members_ok_def split: if_splits)
next
  case (SIntset ns)
  have is1: "intset_ok ns" using assms(1) SIntset by (simp add: set_ok_def)
  show ?thesis
  proof (cases "string2ll (obj_text o1)")
    case None
    then show ?thesis using no_value[OF is1 None] is1 by (auto simp: setTypeIsMember_def SIntset representable[OF assms(2)] set_ok_def set_texts_def)
  next
    case (Some v)
    then show ?thesis using intsetFind_ok[OF is1 fits_sint] is1 text_value[OF Some, of "intset_elems ns"]
      by (simp add: setTypeIsMember_def SIntset representable[OF assms(2)] set_ok_def set_texts_def)
  qed
qed

section \<open>The contract\<close>

text \<open>The state is the shared integers and the set; an argument is encoded before it is added or looked for, as \<open>SADD\<close> and
  \<open>SISMEMBER\<close> do.\<close>

definition sadd_one :: "server_env \<Rightarrow> nat \<Rightarrow> robj list \<times> set_ptr \<Rightarrow> robj \<Rightarrow> ((robj list \<times> set_ptr) \<times> bool) option" where
  "sadd_one e mx x value1 = do {
     (sh, value1) \<leftarrow> tryObjectEncoding (e_junk e) (e_clk e) (e_mem e) (fst x) value1;
     (sh, st, b) \<leftarrow> setTypeAdd e mx sh (snd x) value1;
     Some ((sh, st), b)
   }"

definition srem_one :: "server_env \<Rightarrow> robj list \<times> set_ptr \<Rightarrow> robj \<Rightarrow> ((robj list \<times> set_ptr) \<times> bool) option" where
  "srem_one e x value1 = do { (st, b) \<leftarrow> setTypeRemove e (snd x) value1; Some ((fst x, st), b) }"

definition sismember_one :: "server_env \<Rightarrow> robj list \<times> set_ptr \<Rightarrow> robj \<Rightarrow> ((robj list \<times> set_ptr) \<times> bool) option" where
  "sismember_one e x value1 = do {
     (sh, value1) \<leftarrow> tryObjectEncoding (e_junk e) (e_clk e) (e_mem e) (fst x) value1;
     (st, b) \<leftarrow> setTypeIsMember e (snd x) value1;
     Some ((sh, st), b)
   }"

interpretation sett: set_impl "(createSharedIntegers clk, SIntset intsetNew)" "sadd_one e mx" "srem_one e" "sismember_one e" obj_text
    "\<lambda>x. set_texts (snd x)" "\<lambda>x. shared_ok (fst x) \<and> set_ok e (snd x)" obj_ok "2 ^ 29 - 1" for clk e mx
proof unfold_locales
  fix x :: "robj list \<times> set_ptr" and o1 :: robj
  assume ok: "shared_ok (fst x) \<and> set_ok e (snd x)" and o1: "obj_ok o1"
  obtain sh o2 where o2: "tryObjectEncoding (e_junk e) (e_clk e) (e_mem e) (fst x) o1 = Some (sh, o2)" "shared_ok sh" "obj_ok o2" "obj_text o2 = obj_text o1"
    using encoding_ok[OF o1] ok by blast
  show "\<exists>s'. sadd_one e mx x o1 = Some (s', obj_text o1 \<notin> set_texts (snd x)) \<and> (shared_ok (fst s') \<and> set_ok e (snd s')) \<and>
      set_texts (snd s') = insert (obj_text o1) (set_texts (snd x))" if "card (set_texts (snd x)) < 2 ^ 29 - 1"
    using add_texts[of e "snd x" sh o2 mx] ok o2 that by (auto simp: sadd_one_def)
  show "\<exists>s'. srem_one e x o1 = Some (s', obj_text o1 \<in> set_texts (snd x)) \<and> (shared_ok (fst s') \<and> set_ok e (snd s')) \<and>
      set_texts (snd s') = set_texts (snd x) - {obj_text o1}" if "card (set_texts (snd x)) \<le> 2 ^ 29 - 1"
    using remove_texts[OF conjunct2[OF ok] o1 that] ok by (auto simp: srem_one_def)
  show "\<exists>s'. sismember_one e x o1 = Some (s', obj_text o1 \<in> set_texts (snd x)) \<and> (shared_ok (fst s') \<and> set_ok e (snd s')) \<and>
      set_texts (snd s') = set_texts (snd x)"
    using member_texts[OF conjunct2[OF ok] o2(3)] ok o2 by (auto simp: sismember_one_def)
qed (use shared_integers_ok intsetNew_ok finite_texts in \<open>auto simp: set_ok_def set_texts_def\<close>)

end
