(* ===== verification/Redis_SetCommands.thy ===== *)
theory Redis_SetCommands
  imports Redis_Set
begin

text \<open>
  The commands \<open>SADD\<close>, \<open>SREM\<close>, \<open>SMOVE\<close>, \<open>SISMEMBER\<close> and \<open>SCARD\<close> of \<open>t_set.c\<close> on the keyspace.

  A set object of the keyspace has an address; the sets are a store from addresses to representations.  An address stays with
  its object when the representation is reallocated or converted; the encoding field of the object is updated where the source
  updates it.  The address of a new object is an argument.  Keys that expire leave their representation
  behind in the store, which nothing refers to any more.  \<open>SPOP\<close>, \<open>SRANDMEMBER\<close> (random members) and the operations on several
  sets are not modelled.

  The main result: a sequence of these commands behaves like the same sequence on a map from keys to finite sets of texts,
  with the replies to match, whatever the encodings and conversions meanwhile, and never holds an empty set.
\<close>

section \<open>The code\<close>

type_synonym sets = "nat \<rightharpoonup> set_ptr"

type_synonym 'a set_command =
  "server_env \<Rightarrow> nat \<Rightarrow> nat \<Rightarrow> keyspace \<times> sets \<Rightarrow> 'a out_client_scheme \<Rightarrow> robj list \<Rightarrow> ((keyspace \<times> sets) \<times> 'a out_client_scheme \<times> robj list) option"

definition set_encoding :: "set_ptr \<Rightarrow> obj_encoding" where
  "set_encoding st = (case st of SIntset _ \<Rightarrow> ENC_INTSET | SDict _ \<Rightarrow> ENC_HT)"

definition set_object :: "nat \<Rightarrow> nat \<Rightarrow> set_ptr \<Rightarrow> robj" where
  "set_object clk addr st = (case st of SIntset _ \<Rightarrow> createIntsetObject clk addr | SDict _ \<Rightarrow> createSetObject clk addr)"

definition the_set :: "sets \<Rightarrow> robj \<Rightarrow> (nat \<times> set_ptr) option" where
  "the_set h so = (case o_ptr so of PContainer a \<Rightarrow> map_option (Pair a) (h a) | _ \<Rightarrow> None)"

definition store_set :: "server_env \<Rightarrow> keyspace \<Rightarrow> sets \<Rightarrow> bytes \<Rightarrow> robj \<Rightarrow> nat \<Rightarrow> set_ptr \<Rightarrow> (keyspace \<times> sets) option" where
  "store_set e s h key so a st = do { s \<leftarrow> poke e s key (so\<lparr>o_encoding := set_encoding st\<rparr>); Some (s, h(a \<mapsto> st)) }"

fun sadd_loop :: "server_env \<Rightarrow> nat \<Rightarrow> robj list \<Rightarrow> set_ptr \<Rightarrow> robj list \<Rightarrow> nat \<Rightarrow> (robj list \<times> set_ptr \<times> robj list \<times> nat) option" where
  "sadd_loop e mx sh st [] added = Some (sh, st, [], added)"
| "sadd_loop e mx sh st (a # as) added = do {
     (sh, a) \<leftarrow> tryObjectEncoding (e_junk e) (e_clk e) (e_mem e) sh a;
     (sh, st, b) \<leftarrow> setTypeAdd e mx sh st a;
     (sh, st, as, added) \<leftarrow> sadd_loop e mx sh st as (if b then added + 1 else added);
     Some (sh, st, a # as, added)
   }"

text \<open>\<open>SADD\<close> after the object has been found or created.\<close>

definition sadd_members :: "server_env \<Rightarrow> nat \<Rightarrow> keyspace \<Rightarrow> sets \<Rightarrow> bytes \<Rightarrow> robj \<Rightarrow> robj list \<Rightarrow> (keyspace \<times> sets \<times> robj list \<times> nat) option" where
  "sadd_members e mx s h key so as = do {
     (a, st) \<leftarrow> the_set h so;
     (sh, st, as, added) \<leftarrow> sadd_loop e mx (ks_integers s) st as 0;
     (s, h) \<leftarrow> store_set e (s\<lparr>ks_integers := sh\<rparr>) h key so a st;
     let s = (if added \<noteq> 0 then notifyKeyspaceEvent (signalModifiedKey s key) ''sadd'' key else s);
     Some (s\<lparr>ks_dirty := ks_dirty s + added\<rparr>, h, as, added)
   }"

definition saddCommand :: "'a set_command" where
  "saddCommand e mx addr x c argv = do {
     key \<leftarrow> arg_text argv 1;
     (s, o1) \<leftarrow> lookupKeyWrite e (fst x) key;
     let h = snd x;
     r \<leftarrow> (case o1 of
             None \<Rightarrow> do {
               v \<leftarrow> arg argv 2;
               st \<leftarrow> setTypeCreate v;
               let so = set_object (e_clk e) addr st;
               s \<leftarrow> dbAdd e s key so;
               Some (Some (s, h(addr \<mapsto> st), so))
             }
           | Some so \<Rightarrow> Some (if o_type so \<noteq> REDIS_SET then None else Some (s, h, so)));
     (case r of
        None \<Rightarrow> do {
          c \<leftarrow> reply_shared e c (bytes_of_string ''-WRONGTYPE Operation against a key holding the wrong kind of value'');
          Some ((s, h), c, argv)
        }
      | Some (s, h, so) \<Rightarrow> do {
          (s, h, args, added) \<leftarrow> sadd_members e mx s h key so (drop 2 argv);
          c \<leftarrow> reply_int e c (of_nat added);
          Some ((s, h), c, take 2 argv @ args)
        })
   }"

text \<open>The loop of \<open>SREM\<close> stops when the set is empty; the last component says so.\<close>

fun srem_loop :: "server_env \<Rightarrow> set_ptr \<Rightarrow> robj list \<Rightarrow> nat \<Rightarrow> (set_ptr \<times> nat \<times> bool) option" where
  "srem_loop e st [] deleted = Some (st, deleted, False)"
| "srem_loop e st (a # as) deleted = do {
     (st, b) \<leftarrow> setTypeRemove e st a;
     (if b then if setTypeSize st = 0 then Some (st, deleted + 1, True) else srem_loop e st as (deleted + 1)
      else srem_loop e st as deleted)
   }"

text \<open>\<open>SREM\<close> after the object has been found; the number of members removed is returned.\<close>

definition srem_members :: "server_env \<Rightarrow> keyspace \<Rightarrow> sets \<Rightarrow> bytes \<Rightarrow> robj \<Rightarrow> robj list \<Rightarrow> (keyspace \<times> sets \<times> nat) option" where
  "srem_members e s h key so as = do {
     (a, st) \<leftarrow> the_set h so;
     (st, deleted, keyremoved) \<leftarrow> srem_loop e st as 0;
     (s, h) \<leftarrow> (if keyremoved then do { (s, _) \<leftarrow> dbDelete e s key; Some (s, h(a := None)) } else store_set e s h key so a st);
     let s = (if deleted \<noteq> 0 then
                let s = notifyKeyspaceEvent (signalModifiedKey s key) ''srem'' key;
                    s = (if keyremoved then notifyKeyspaceEvent s ''del'' key else s)
                in s\<lparr>ks_dirty := ks_dirty s + deleted\<rparr>
              else s);
     Some (s, h, deleted)
   }"

text \<open>A lookup that replies when there is no such key, followed by the check of the type: \<open>None\<close> ends the command.\<close>

definition set_or_reply :: "server_env \<Rightarrow> 'a out_client_scheme \<Rightarrow> robj option \<Rightarrow> bytes \<Rightarrow> ('a out_client_scheme \<times> robj option) option" where
  "set_or_reply e c o1 reply =
     (case o1 of
        None \<Rightarrow> do { c \<leftarrow> reply_shared e c reply; Some (c, None) }
      | Some so \<Rightarrow> do { (c, wrong) \<leftarrow> checkType e c so REDIS_SET; Some (c, if wrong then None else Some so) })"

definition sremCommand :: "'a set_command" where
  "sremCommand e mx addr x c argv = do {
     key \<leftarrow> arg_text argv 1;
     (s, o1) \<leftarrow> lookupKeyWrite e (fst x) key;
     let h = snd x;
     (c, r) \<leftarrow> set_or_reply e c o1 (bytes_of_string '':0'');
     (case r of
        None \<Rightarrow> Some ((s, h), c, argv)
      | Some so \<Rightarrow> do {
          (s, h, deleted) \<leftarrow> srem_members e s h key so (drop 2 argv);
          c \<leftarrow> reply_int e c (of_nat deleted);
          Some ((s, h), c, argv)
        })
   }"

definition sismemberCommand :: "'a set_command" where
  "sismemberCommand e mx addr x c argv = do {
     key \<leftarrow> arg_text argv 1;
     (s, o1) \<leftarrow> lookupKeyRead e (fst x) key;
     let h = snd x;
     (c, r) \<leftarrow> set_or_reply e c o1 (bytes_of_string '':0'');
     (case r of
        None \<Rightarrow> Some ((s, h), c, argv)
      | Some so \<Rightarrow> do {
          (s, argv) \<leftarrow> encode_arg e s argv 2;
          v \<leftarrow> arg argv 2;
          (a, st) \<leftarrow> the_set h so;
          (st, b) \<leftarrow> setTypeIsMember e st v;
          c \<leftarrow> reply_shared e c (bytes_of_string (if b then '':1'' else '':0''));
          Some ((s, h(a \<mapsto> st)), c, argv)
        })
   }"

definition scardCommand :: "'a set_command" where
  "scardCommand e mx addr x c argv = do {
     key \<leftarrow> arg_text argv 1;
     (s, o1) \<leftarrow> lookupKeyRead e (fst x) key;
     let h = snd x;
     (c, r) \<leftarrow> set_or_reply e c o1 (bytes_of_string '':0'');
     (case r of
        None \<Rightarrow> Some ((s, h), c, argv)
      | Some so \<Rightarrow> do {
          (a, st) \<leftarrow> the_set h so;
          c \<leftarrow> reply_int e c (of_nat (setTypeSize st));
          Some ((s, h), c, argv)
        })
   }"

text \<open>Two objects are the same object if they have the same address.  The destination is created after the source has
  been changed.\<close>

definition smove_dest :: "server_env \<Rightarrow> nat \<Rightarrow> nat \<Rightarrow> keyspace \<Rightarrow> sets \<Rightarrow> bytes \<Rightarrow> robj option \<Rightarrow> robj \<Rightarrow> (keyspace \<times> sets) option" where
  "smove_dest e mx addr s h key dst ele = do {
     (s, h, so) \<leftarrow> (case dst of
                       None \<Rightarrow> do {
                         st \<leftarrow> setTypeCreate ele;
                         let so = set_object (e_clk e) addr st;
                         s \<leftarrow> dbAdd e s key so;
                         Some (s, h(addr \<mapsto> st), so)
                       }
                     | Some so \<Rightarrow> Some (s, h, so));
     (a, st) \<leftarrow> the_set h so;
     (sh, st, added) \<leftarrow> setTypeAdd e mx (ks_integers s) st ele;
     (s, h) \<leftarrow> store_set e (s\<lparr>ks_integers := sh\<rparr>) h key so a st;
     Some (if added then notifyKeyspaceEvent (s\<lparr>ks_dirty := ks_dirty s + 1\<rparr>) ''sadd'' key else s, h)
   }"

definition smoveCommand :: "'a set_command" where
  "smoveCommand e mx addr x c argv = do {
     k1 \<leftarrow> arg_text argv 1;
     k2 \<leftarrow> arg_text argv 2;
     (s, src) \<leftarrow> lookupKeyWrite e (fst x) k1;
     (s, dst) \<leftarrow> lookupKeyWrite e s k2;
     let h = snd x;
     (s, argv) \<leftarrow> encode_arg e s argv 3;
     ele \<leftarrow> arg argv 3;
     (c, r) \<leftarrow> set_or_reply e c src (bytes_of_string '':0'');
     (case r of
        None \<Rightarrow> Some ((s, h), c, argv)
      | Some so \<Rightarrow> do {
          (c, wrong) \<leftarrow> (case dst of None \<Rightarrow> Some (c, False) | Some d \<Rightarrow> checkType e c d REDIS_SET);
          (if wrong then Some ((s, h), c, argv)
           else do {
             (a, st) \<leftarrow> the_set h so;
             (if map_option o_ptr dst = Some (o_ptr so) then do {
                (st, b) \<leftarrow> setTypeIsMember e st ele;
                c \<leftarrow> reply_shared e c (bytes_of_string (if b then '':1'' else '':0''));
                Some ((s, h(a \<mapsto> st)), c, argv)
              } else do {
                (st, b) \<leftarrow> setTypeRemove e st ele;
                (if \<not> b then do { c \<leftarrow> reply_shared e c (bytes_of_string '':0''); Some ((s, h(a \<mapsto> st)), c, argv) }
                 else do {
                   let s = notifyKeyspaceEvent s ''srem'' k1;
                   (s, h) \<leftarrow> (if setTypeSize st = 0
                              then do { (s, _) \<leftarrow> dbDelete e s k1; Some (notifyKeyspaceEvent s ''del'' k1, h(a := None)) }
                              else Some (s, h(a \<mapsto> st)));
                   let s = signalModifiedKey (signalModifiedKey s k1) k2;
                   (s, h) \<leftarrow> smove_dest e mx addr (s\<lparr>ks_dirty := ks_dirty s + 1\<rparr>) h k2 dst ele;
                   c \<leftarrow> reply_shared e c (bytes_of_string '':1'');
                   Some ((s, h), c, argv)
                 })
              })
           })
        })
   }"

section \<open>Keys that hold sets\<close>

datatype avalue = VSet "bytes set" | VOther content

type_synonym sview = "bytes \<rightharpoonup> avalue \<times> 64 word option"

fun value_of :: "sets \<Rightarrow> content \<Rightarrow> avalue" where
  "value_of h (AOther REDIS_SET (PContainer a)) = (case h a of Some st \<Rightarrow> VSet (set_texts st) | None \<Rightarrow> VOther (AOther REDIS_SET (PContainer a)))"
| "value_of h c = VOther c"

definition absv :: "aview \<Rightarrow> sets \<Rightarrow> sview" where
  "absv m h k = map_option (\<lambda>(c, x). (value_of h c, x)) (m k)"

text \<open>Every live set object has a well-formed representation that is not empty, and its own address.\<close>

definition heap_ok :: "server_env \<Rightarrow> aview \<Rightarrow> sets \<Rightarrow> bool" where
  "heap_ok e m h \<longleftrightarrow>
     (\<forall>k p x. m k = Some (AOther REDIS_SET p, x) \<longrightarrow> (\<exists>a st. p = PContainer a \<and> h a = Some st \<and> set_ok e st \<and> set_texts st \<noteq> {})) \<and>
     (\<forall>k k' p x x'. m k = Some (AOther REDIS_SET p, x) \<longrightarrow> m k' = Some (AOther REDIS_SET p, x') \<longrightarrow> k = k')"

definition sets_ok :: "server_env \<Rightarrow> keyspace \<times> sets \<Rightarrow> bool" where
  "sets_ok e x \<longleftrightarrow> ks_ok e (fst x) \<and> heap_ok e (view e (ks_db (fst x))) (snd x)"

lemma heap_okD:
  assumes "heap_ok e m h" "m k = Some (AOther REDIS_SET p, x)"
  obtains a st where "p = PContainer a" "h a = Some st" "set_ok e st" "set_texts st \<noteq> {}" "absv m h k = Some (VSet (set_texts st), x)"
proof -
  obtain a st where a: "p = PContainer a" "h a = Some st" "set_ok e st" "set_texts st \<noteq> {}" using assms unfolding heap_ok_def by blast
  moreover have "absv m h k = Some (VSet (set_texts st), x)" using assms(2) a by (simp add: absv_def)
  ultimately show ?thesis using that by blast
qed

lemma value_of_other: "value_of h' c = value_of h c" if "\<And>a. c = AOther REDIS_SET (PContainer a) \<Longrightarrow> h' a = h a"
  using that by (cases "(h, c)" rule: value_of.cases) auto

text \<open>Writing a set, and removing one.\<close>

lemma heap_put:
  assumes "heap_ok e m h" "m key = Some (AOther REDIS_SET (PContainer a), y) \<or> (m key = None \<and> h a = None)" "set_ok e st" "set_texts st \<noteq> {}"
  shows "heap_ok e (m(key \<mapsto> (AOther REDIS_SET (PContainer a), x))) (h(a \<mapsto> st))"
    "absv (m(key \<mapsto> (AOther REDIS_SET (PContainer a), x))) (h(a \<mapsto> st)) = (absv m h)(key \<mapsto> (VSet (set_texts st), x))"
proof -
  have other: "a' \<noteq> a" if "m k = Some (AOther REDIS_SET (PContainer a'), z)" "k \<noteq> key" for k a' z
  proof
    assume a': "a' = a"
    have "\<exists>st. h a' = Some st" using assms(1) that(1) unfolding heap_ok_def by blast
    moreover have "k = key" if "m key = Some (AOther REDIS_SET (PContainer a), y)" using assms(1) that \<open>m k = _\<close> a' unfolding heap_ok_def by blast
    ultimately show False using assms(2) that(2) a' by auto
  qed
  show "heap_ok e (m(key \<mapsto> (AOther REDIS_SET (PContainer a), x))) (h(a \<mapsto> st))"
    unfolding heap_ok_def
  proof (intro conjI allI impI)
    fix k p z assume upd: "(m(key \<mapsto> (AOther REDIS_SET (PContainer a), x))) k = Some (AOther REDIS_SET p, z)"
    show "\<exists>a' st'. p = PContainer a' \<and> (h(a \<mapsto> st)) a' = Some st' \<and> set_ok e st' \<and> set_texts st' \<noteq> {}"
    proof (cases "k = key")
      case False
      then have k: "m k = Some (AOther REDIS_SET p, z)" using upd by simp
      then obtain a' st' where a': "p = PContainer a'" "h a' = Some st'" "set_ok e st'" "set_texts st' \<noteq> {}" using assms(1) unfolding heap_ok_def by blast
      have "a' \<noteq> a" using other[of k a' z] k False a'(1) by blast
      then show ?thesis using a' by (intro exI[of _ a'] exI[of _ st']) simp
    next
      case True
      then have "p = PContainer a" using upd by simp
      then show ?thesis using assms(3,4) by (intro exI[of _ a] exI[of _ st]) simp
    qed
  next
    fix k k' p z z'
    assume "(m(key \<mapsto> (AOther REDIS_SET (PContainer a), x))) k = Some (AOther REDIS_SET p, z)" "(m(key \<mapsto> (AOther REDIS_SET (PContainer a), x))) k' = Some (AOther REDIS_SET p, z')"
    then show "k = k'" using assms(1) other unfolding heap_ok_def by (auto split: if_splits)
  qed
  show "absv (m(key \<mapsto> (AOther REDIS_SET (PContainer a), x))) (h(a \<mapsto> st)) = (absv m h)(key \<mapsto> (VSet (set_texts st), x))"
  proof
    fix k
    show "absv (m(key \<mapsto> (AOther REDIS_SET (PContainer a), x))) (h(a \<mapsto> st)) k = ((absv m h)(key \<mapsto> (VSet (set_texts st), x))) k"
      using other[of k] value_of_other[of _ "h(a \<mapsto> st)" h] by (cases "k = key"; cases "m k") (auto simp: absv_def)
  qed
qed

lemma heap_drop:
  assumes "heap_ok e m h" "m key = Some (AOther REDIS_SET (PContainer a), x)"
  shows "heap_ok e (m(key := None)) (h(a := None))" "absv (m(key := None)) (h(a := None)) = (absv m h)(key := None)"
proof -
  have other: "a' \<noteq> a" if "m k = Some (AOther REDIS_SET (PContainer a'), z)" "k \<noteq> key" for k a' z
    using assms that unfolding heap_ok_def by blast
  show "heap_ok e (m(key := None)) (h(a := None))" unfolding heap_ok_def
  proof (intro conjI allI impI)
    fix k p z assume k: "(m(key := None)) k = Some (AOther REDIS_SET p, z)"
    then have "k \<noteq> key" "m k = Some (AOther REDIS_SET p, z)" by (auto split: if_splits)
    then show "\<exists>a' st'. p = PContainer a' \<and> (h(a := None)) a' = Some st' \<and> set_ok e st' \<and> set_texts st' \<noteq> {}"
    proof -
      obtain a' st' where a': "p = PContainer a'" "h a' = Some st'" "set_ok e st'" "set_texts st' \<noteq> {}" using assms(1) \<open>m k = _\<close> unfolding heap_ok_def by blast
      have "a' \<noteq> a" using other[of k a' z] \<open>m k = _\<close> \<open>k \<noteq> key\<close> a'(1) by blast
      then show ?thesis using a' by (intro exI[of _ a'] exI[of _ st']) simp
    qed
  next
    fix k k' p z z' assume "(m(key := None)) k = Some (AOther REDIS_SET p, z)" "(m(key := None)) k' = Some (AOther REDIS_SET p, z')"
    then show "k = k'" using assms(1) unfolding heap_ok_def by (auto split: if_splits)
  qed
  show "absv (m(key := None)) (h(a := None)) = (absv m h)(key := None)"
  proof
    fix k
    show "absv (m(key := None)) (h(a := None)) k = ((absv m h)(key := None)) k"
      using other[of k] value_of_other[of _ "h(a := None)" h] by (cases "k = key"; cases "m k") (auto simp: absv_def)
  qed
qed

section \<open>The commands on a map of sets\<close>

definition sview :: "server_env \<Rightarrow> keyspace \<times> sets \<Rightarrow> sview" where
  "sview e x = absv (view e (ks_db (fst x))) (snd x)"

definition set_runs :: "server_env \<Rightarrow> 'a set_command \<Rightarrow> nat \<Rightarrow> nat \<Rightarrow> keyspace \<times> sets \<Rightarrow> robj list \<Rightarrow> keyspace \<times> sets \<Rightarrow> bytes \<Rightarrow> bool" where
  "set_runs e cmd mx addr x argv x' t \<longleftrightarrow> (\<exists>g argv'. replies (e_junk e) (e_clk e) (e_ae_ok e) g t \<and>
     (\<forall>c. cmd e mx addr x c argv = do { c \<leftarrow> g c; Some (x', c, argv') }))"

definition implements_sets :: "server_env \<Rightarrow> 'a set_command \<Rightarrow> nat \<Rightarrow> nat \<Rightarrow> keyspace \<times> sets \<Rightarrow> robj list \<Rightarrow> (sview \<Rightarrow> sview \<times> bytes) \<Rightarrow> bool" where
  "implements_sets e cmd mx addr x argv spec \<longleftrightarrow> (\<exists>x'. set_runs e cmd mx addr x argv x' (snd (spec (sview e x))) \<and> sets_ok e x' \<and>
     sview e x' = fst (spec (sview e x)) \<and> db_size (ks_db (fst x')) \<le> Suc (db_size (ks_db (fst x))) \<and> dom (snd x') \<subseteq> insert addr (dom (snd x)))"

lemma set_runsI: "replies (e_junk e) (e_clk e) (e_ae_ok e) g t \<Longrightarrow> (\<And>c. cmd e mx addr x c argv = do { c \<leftarrow> g c; Some (x', c, argv') }) \<Longrightarrow>
    set_runs e cmd mx addr x argv x' t"
  unfolding set_runs_def by blast

lemma implements_setsI:
  "set_runs e cmd mx addr x argv x' t \<Longrightarrow> spec (sview e x) = (m, t) \<Longrightarrow> sets_ok e x' \<Longrightarrow> sview e x' = m \<Longrightarrow>
    db_size (ks_db (fst x')) \<le> Suc (db_size (ks_db (fst x))) \<Longrightarrow> dom (snd x') \<subseteq> insert addr (dom (snd x)) \<Longrightarrow> implements_sets e cmd mx addr x argv spec"
  unfolding implements_sets_def by (intro exI[of _ x']) simp

lemma set_cases [consumes 2, case_names absent wrong set]:
  assumes "sets_ok e (s, h)" "found e s s1 key"
  obtains (absent) "kmap (ks_db s1) key = None" "sview e (s, h) key = None" "view e (ks_db s1) key = None"
  | (wrong) o1 c x where "kmap (ks_db s1) key = Some o1" "o_type o1 \<noteq> REDIS_SET" "sview e (s, h) key = Some (VOther c, x)"
  | (set) so a st x where "kmap (ks_db s1) key = Some so" "o_type so = REDIS_SET" "o_ptr so = PContainer a" "h a = Some st" "set_ok e st" "set_texts st \<noteq> {}"
      "view e (ks_db s1) key = Some (AOther REDIS_SET (PContainer a), x)" "sview e (s, h) key = Some (VSet (set_texts st), x)" "xmap (ks_db s1) key = x"
proof -
  have v: "view e (ks_db s) = view e (ks_db s1)" using foundD(2)[OF assms(2)] by simp
  have k: "view e (ks_db s1) key = map_option (\<lambda>o1. (content_of o1, xmap (ks_db s1) key)) (kmap (ks_db s1) key)" using foundD(7)[OF assms(2)] v by simp
  show thesis
  proof (cases "kmap (ks_db s1) key")
    case None
    then show ?thesis using absent k v by (simp add: sview_def absv_def)
  next
    case (Some o1)
    show ?thesis
    proof (cases "o_type o1 = REDIS_SET")
      case True
      then have m: "view e (ks_db s1) key = Some (AOther REDIS_SET (o_ptr o1), xmap (ks_db s1) key)" using k Some by (simp add: content_of_def)
      have "heap_ok e (view e (ks_db s1)) h" using assms(1) v by (simp add: sets_ok_def)
      from heap_okD[OF this m] obtain a st where a: "o_ptr o1 = PContainer a" "h a = Some st" "set_ok e st" "set_texts st \<noteq> {}"
        "absv (view e (ks_db s1)) h key = Some (VSet (set_texts st), xmap (ks_db s1) key)" by blast
      show ?thesis by (rule set[OF Some True a(1-4)]) (use m a v in \<open>simp_all add: sview_def\<close>)
    next
      case False
      have "value_of h (content_of o1) = VOther (content_of o1)" using False by (cases "(h, content_of o1)" rule: value_of.cases) (auto simp: content_of_def split: if_splits)
      then show ?thesis using wrong[OF Some False] k v Some by (simp add: sview_def absv_def)
    qed
  qed
qed

text \<open>A command that changes nothing the clients see.\<close>

lemma found_sets:
  assumes "sets_ok e (s, h)" "found e s s1 key"
  shows "sets_ok e (s1, h)" "sview e (s1, h) = sview e (s, h)" "db_size (ks_db s1) \<le> Suc (db_size (ks_db s))" "heap_ok e (view e (ks_db s1)) h"
  using assms foundD(2,4,5)[OF assms(2)] by (simp_all add: sets_ok_def sview_def)

lemma implements_nothing:
  assumes "sets_ok e (s, h)" "found e s s1 key" "set_runs e cmd mx addr (s, h) argv (s1, h) t" "spec (sview e (s, h)) = (sview e (s, h), t)"
  shows "implements_sets e cmd mx addr (s, h) argv spec"
  using assms(4) found_sets[OF assms(1,2)] by (intro implements_setsI[OF assms(3)]) auto

lemma sadd_loop_ok:
  assumes "sett.add_all e mx (sh, st) as n = Some ((sh', st'), n')" "list_all obj_ok as" "shared_ok sh" "set_ok e st" "card (set_texts st) + length as \<le> 2 ^ 29 - 1"
  shows "\<exists>as'. sadd_loop e mx sh st as n = Some (sh', st', as', n')"
  using assms
proof (induction as arbitrary: sh st n)
  case (Cons a as)
  obtain sh1 a1 where a1: "tryObjectEncoding (e_junk e) (e_clk e) (e_mem e) sh a = Some (sh1, a1)" "shared_ok sh1" "obj_ok a1" using encoding_ok[of a sh "e_junk e" "e_clk e" "e_mem e"] Cons.prems(2,3) by auto
  have "card (set_texts st) < 2 ^ 29 - 1" using Cons.prems(5) by simp
  from add_texts[OF Cons.prems(4) a1(2,3) this, of mx] obtain sh2 st2 where
    st2: "setTypeAdd e mx sh1 st a1 = Some (sh2, st2, obj_text a1 \<notin> set_texts st)" "shared_ok sh2" "set_ok e st2" "set_texts st2 = insert (obj_text a1) (set_texts st)" by blast
  have "card (set_texts st2) \<le> Suc (card (set_texts st))" unfolding st2(4) by (rule card_insert_le_m1) simp_all
  then have "card (set_texts st2) + length as \<le> 2 ^ 29 - 1" using Cons.prems(5) by simp
  moreover have "sett.add_all e mx (sh2, st2) as (if obj_text a1 \<notin> set_texts st then Suc n else n) = Some ((sh', st'), n')"
  proof -
    have "sadd_one e mx (sh, st) a = Some ((sh2, st2), obj_text a1 \<notin> set_texts st)" using a1(1) st2(1) by (simp add: sadd_one_def)
    then show ?thesis using Cons.prems(1) by simp
  qed
  ultimately obtain as' where "sadd_loop e mx sh2 st2 as (if obj_text a1 \<notin> set_texts st then Suc n else n) = Some (sh', st', as', n')"
    using Cons.IH[of sh2 st2 "if obj_text a1 \<notin> set_texts st then Suc n else n"] Cons.prems(2) st2(2,3) by auto
  then show ?case using a1(1) st2(1) by (cases "obj_text a1 \<in> set_texts st") simp_all
qed simp

lemma sadd_loop_texts:
  assumes "shared_ok sh" "set_ok e st" "list_all obj_ok as" "card (set_texts st) + length as \<le> 2 ^ 29 - 1"
  shows "\<exists>sh' st' as'. sadd_loop e mx sh st as 0 = Some (sh', st', as', card (obj_text ` set as - set_texts st)) \<and> shared_ok sh' \<and> set_ok e st' \<and>
    set_texts st' = set_texts st \<union> obj_text ` set as"
proof -
  have "\<exists>s'. sett.add_all e mx (sh, st) as 0 = Some (s', 0 + card (obj_text ` set as - set_texts (snd (sh, st)))) \<and>
      (shared_ok (fst s') \<and> set_ok e (snd s')) \<and> set_texts (snd s') = set_texts (snd (sh, st)) \<union> obj_text ` set as"
    by (rule sett.add_all_spec) (use assms in \<open>auto simp: list_all_iff\<close>)
  then obtain s' where s': "sett.add_all e mx (sh, st) as 0 = Some (s', card (obj_text ` set as - set_texts st))" "shared_ok (fst s')" "set_ok e (snd s')"
    "set_texts (snd s') = set_texts st \<union> obj_text ` set as" unfolding snd_conv add_0 by blast
  then have "sett.add_all e mx (sh, st) as 0 = Some ((fst s', snd s'), card (obj_text ` set as - set_texts st))" by simp
  then show ?thesis using sadd_loop_ok[OF _ assms(3,1,2,4)] s'(2-4) by blast
qed

lemma create_set: "obj_ok o1 \<Longrightarrow> \<exists>st. setTypeCreate o1 = Some st \<and> set_ok e st \<and> set_texts st = {}"
  using intsetNew_ok create_ok by (cases "string2ll (obj_text o1)") (auto simp: setTypeCreate_def representable set_ok_def set_texts_def members_ok_def)

lemma dbAdd_set:
  assumes "db_ok e (ks_db s)" "key \<notin> dom (kmap (ks_db s))" "room (ks_db s)" "o_type v = REDIS_SET"
  shows "\<exists>db. dbAdd e s key v = Some (s\<lparr>ks_db := db\<rparr>) \<and> db_ok e db \<and> kmap db = (kmap (ks_db s))(key \<mapsto> v) \<and> xmap db = xmap (ks_db s)"
proof -
  obtain d where d: "dictAdd (dty e) (e_resize e) (e_val e) (db_keys (ks_db s)) key v = Some (d, True)" "dict_ok (dty e) d" "dict_map d = (kmap (ks_db s))(key \<mapsto> v)"
    using add_ok[OF db_okD(1)[OF assms(1)] room_sizes(1)[OF assms(1,3)] db_dict.compare_eq, of "e_resize e" "e_val e" key v] assms(2) by (auto simp: kmap_def)
  have "db_ok e ((ks_db s)\<lparr>db_keys := d\<rparr>)"
    using assms(4) d db_okD(3,4)[OF assms(1)] by (intro ok_set_keys[OF assms(1)]) (auto simp: val_ok_def split: if_splits)
  then show ?thesis using d assms(4) by (intro exI[of _ "(ks_db s)\<lparr>db_keys := d\<rparr>"]) (simp add: dbAdd_def set_keys_def)
qed

lemma store_ok:
  assumes "db_ok e (ks_db s)" "kmap (ks_db s) key = Some so" "o_type so = REDIS_SET"
  shows "\<exists>db. store_set e s h key so a st = Some (s\<lparr>ks_db := db\<rparr>, h(a \<mapsto> st)) \<and> db_ok e db \<and> view e db = view e (ks_db s) \<and> db_size db = db_size (ks_db s)"
proof -
  let ?so = "so\<lparr>o_encoding := set_encoding st\<rparr>"
  obtain db where db: "poke e s key ?so = Some (s\<lparr>ks_db := db\<rparr>)" "db_ok e db" "kmap db = (kmap (ks_db s))(key \<mapsto> ?so)" "xmap db = xmap (ks_db s)"
    using poke_ok[OF assms(1), of key ?so] assms(2,3) by (auto simp: val_ok_def)
  have "content_of ?so = content_of so" using assms(3) by (simp add: content_of_def)
  then have "cmap db = cmap (ks_db s)" using db(3) assms(2) by (auto simp: cmap_def fun_eq_iff)
  then have "view e db = view e (ks_db s)" using db(4) by (simp add: view_def expired_def fun_eq_iff)
  moreover have "dom (kmap db) = dom (kmap (ks_db s))" using db(3) assms(2) by auto
  ultimately show ?thesis using db by (auto simp: store_set_def db_size_def)
qed

definition spec_sadd :: "bytes \<Rightarrow> bytes list \<Rightarrow> sview \<Rightarrow> sview \<times> bytes" where
  "spec_sadd key ts m = (case m key of
      None \<Rightarrow> (m(key \<mapsto> (VSet (set ts), None)), int_reply (int (card (set ts))))
    | Some (VSet A, x) \<Rightarrow> (m(key \<mapsto> (VSet (A \<union> set ts), x)), int_reply (int (card (set ts - A))))
    | Some (VOther _, _) \<Rightarrow> (m, wrongtype))"

text \<open>What the keys that hold sets have room for.\<close>

definition small_sets :: "nat \<Rightarrow> sview \<Rightarrow> bool" where
  "small_sets n m \<longleftrightarrow> (\<forall>k A x. m k = Some (VSet A, x) \<longrightarrow> card A \<le> n)"

lemma ks_ok_parts: "ks_ok e s \<Longrightarrow> db_ok e (ks_db s)" "ks_ok e s \<Longrightarrow> shared_ok (ks_integers s)"
  by (simp_all add: ks_ok_def)

lemma event_simps [simp]: "ks_db (notifyKeyspaceEvent s ev k) = ks_db s" "ks_integers (notifyKeyspaceEvent s ev k) = ks_integers s"
  "ks_db (signalModifiedKey s k) = ks_db s" "ks_integers (signalModifiedKey s k) = ks_integers s"
  by (simp_all add: notifyKeyspaceEvent_def signalModifiedKey_def)

lemma plain_args: "list_all plain argv \<Longrightarrow> list_all obj_ok (drop n argv)"
  by (auto simp: list_all_iff plain_def dest: in_set_dropD)

lemma sadd_members_ok:
  assumes "ks_ok e s" "kmap (ks_db s) key = Some so" "o_type so = REDIS_SET" "o_ptr so = PContainer a" "h a = Some st" "set_ok e st"
    "list_all obj_ok as" "card (set_texts st) + length as \<le> 2 ^ 29 - 1"
  shows "\<exists>s' st' args. sadd_members e mx s h key so as = Some (s', h(a \<mapsto> st'), args, card (obj_text ` set as - set_texts st)) \<and> ks_ok e s' \<and> set_ok e st' \<and>
    set_texts st' = set_texts st \<union> obj_text ` set as \<and> view e (ks_db s') = view e (ks_db s) \<and> db_size (ks_db s') = db_size (ks_db s)"
proof -
  define n where "n = card (obj_text ` set as - set_texts st)"
  obtain sh st' args where l: "sadd_loop e mx (ks_integers s) st as 0 = Some (sh, st', args, n)" "shared_ok sh" "set_ok e st'" "set_texts st' = set_texts st \<union> obj_text ` set as"
    using sadd_loop_texts[OF ks_ok_parts(2)[OF assms(1)] assms(6-8)] unfolding n_def by blast
  obtain db where db: "store_set e (s\<lparr>ks_integers := sh\<rparr>) h key so a st' = Some (s\<lparr>ks_integers := sh, ks_db := db\<rparr>, h(a \<mapsto> st'))" "db_ok e db" "view e db = view e (ks_db s)" "db_size db = db_size (ks_db s)"
    using store_ok[of e "s\<lparr>ks_integers := sh\<rparr>" key so h a st'] ks_ok_parts(1)[OF assms(1)] assms(2,3) by auto
  let ?s = "s\<lparr>ks_integers := sh, ks_db := db\<rparr>"
  define s' where "s' = (if n \<noteq> 0 then notifyKeyspaceEvent (signalModifiedKey ?s key) ''sadd'' key else ?s)"
  have s': "ks_db s' = db" "ks_integers s' = sh" by (simp_all add: s'_def)
  have "the_set h so = Some (a, st)" using assms(4,5) by (simp add: the_set_def)
  then have "sadd_members e mx s h key so as = Some (s'\<lparr>ks_dirty := ks_dirty s' + n\<rparr>, h(a \<mapsto> st'), args, n)"
    unfolding sadd_members_def by (simp only: l(1) db(1) s'_def Let_def Option.bind.bind_lunit prod.case)
  then show ?thesis using l(2-4) db(2-4) s' unfolding n_def[symmetric]
    by (intro exI[of _ "s'\<lparr>ks_dirty := ks_dirty s' + n\<rparr>"] exI[of _ st'] exI[of _ args]) (simp add: ks_ok_def)
qed

text \<open>The two ways a command changes one set: it is written under the key, or the key is removed.\<close>

lemma put_state:
  assumes "sets_ok e (s, h)" "ks_ok e s2" "view e (ks_db s2) = (view e (ks_db s))(key \<mapsto> (AOther REDIS_SET (PContainer a), x))" "set_ok e st" "set_texts st \<noteq> {}"
    "view e (ks_db s) key = Some (AOther REDIS_SET (PContainer a), y) \<or> (view e (ks_db s) key = None \<and> h a = None)"
  shows "sets_ok e (s2, h(a \<mapsto> st))" "sview e (s2, h(a \<mapsto> st)) = (sview e (s, h))(key \<mapsto> (VSet (set_texts st), x))"
proof -
  have "heap_ok e (view e (ks_db s)) h" using assms(1) by (simp add: sets_ok_def)
  note p = heap_put[OF this assms(6,4,5), of x]
  show "sets_ok e (s2, h(a \<mapsto> st))" using p(1) assms(2,3) by (simp add: sets_ok_def)
  show "sview e (s2, h(a \<mapsto> st)) = (sview e (s, h))(key \<mapsto> (VSet (set_texts st), x))" using p(2) assms(3) by (simp add: sview_def)
qed

lemma drop_state:
  assumes "sets_ok e (s, h)" "ks_ok e s2" "view e (ks_db s2) = (view e (ks_db s))(key := None)" "view e (ks_db s) key = Some (AOther REDIS_SET (PContainer a), x)"
  shows "sets_ok e (s2, h(a := None))" "sview e (s2, h(a := None)) = (sview e (s, h))(key := None)"
proof -
  have "heap_ok e (view e (ks_db s)) h" using assms(1) by (simp add: sets_ok_def)
  note p = heap_drop[OF this assms(4)]
  show "sets_ok e (s2, h(a := None))" using p(1) assms(2,3) by (simp add: sets_ok_def)
  show "sview e (s2, h(a := None)) = (sview e (s, h))(key := None)" using p(2) assms(3) by (simp add: sview_def)
qed

lemma implements_put_set:
  assumes "sets_ok e (s, h)" "set_runs e cmd mx addr (s, h) argv (s2, h(a \<mapsto> st)) t" "spec (sview e (s, h)) = ((sview e (s, h))(key \<mapsto> (VSet (set_texts st), x)), t)"
    "ks_ok e s2" "view e (ks_db s2) = (view e (ks_db s))(key \<mapsto> (AOther REDIS_SET (PContainer a), x))" "set_ok e st" "set_texts st \<noteq> {}"
    "view e (ks_db s) key = Some (AOther REDIS_SET (PContainer a), y) \<or> (view e (ks_db s) key = None \<and> h a = None)" "a = addr \<or> h a \<noteq> None"
    "db_size (ks_db s2) \<le> Suc (db_size (ks_db s))"
  shows "implements_sets e cmd mx addr (s, h) argv spec"
  by (rule implements_setsI[where spec = spec, OF assms(2,3) put_state[OF assms(1,4-8)]]) (use assms(9,10) in auto)

lemma implements_drop_set:
  assumes "sets_ok e (s, h)" "set_runs e cmd mx addr (s, h) argv (s2, h(a := None)) t" "spec (sview e (s, h)) = ((sview e (s, h))(key := None), t)"
    "ks_ok e s2" "view e (ks_db s2) = (view e (ks_db s))(key := None)" "view e (ks_db s) key = Some (AOther REDIS_SET (PContainer a), x)"
    "db_size (ks_db s2) \<le> db_size (ks_db s)"
  shows "implements_sets e cmd mx addr (s, h) argv spec"
  by (rule implements_setsI[where spec = spec, OF assms(2,3) drop_state[OF assms(1,4-6)]]) (use assms(7) in auto)

lemma implements_wrong:
  assumes "sets_ok e (s, h)" "found e s s1 key" "spec (sview e (s, h)) = (sview e (s, h), wrongtype)"
    "\<And>c. cmd e mx addr (s, h) c argv = do { c \<leftarrow> reply_shared e c (bytes_of_string ''-WRONGTYPE Operation against a key holding the wrong kind of value''); Some ((s1, h), c, argv) }"
  shows "implements_sets e cmd mx addr (s, h) argv spec"
proof (rule implements_nothing[where spec = spec and t = wrongtype, OF assms(1,2)])
  show "set_runs e cmd mx addr (s, h) argv (s1, h) wrongtype" by (rule set_runsI[OF wrong_replies]) (rule assms(4))
qed (fact assms(3))

lemma object_simps [simp]: "o_type (set_object clk a st) = REDIS_SET" "o_ptr (set_object clk a st) = PContainer a" "content_of (set_object clk a st) = AOther REDIS_SET (PContainer a)"
  by (simp_all add: set_object_def createIntsetObject_def createSetObject_def createObject_def content_of_def split: set_ptr.splits)

lemma small_card: "small_sets n m \<Longrightarrow> m k = Some (VSet A, x) \<Longrightarrow> card A \<le> n"
  by (auto simp: small_sets_def)

lemma arg_images: "set (map obj_text (drop 2 argv)) = obj_text ` set (drop 2 argv)"
  by simp

text \<open>Creating the object of a key that is not there.\<close>

lemma create_key:
  assumes "ks_ok e s1" "found e s s1 key" "kmap (ks_db s1) key = None" "room (ks_db s1)" "obj_ok v"
  shows "\<exists>st db. setTypeCreate v = Some st \<and> set_ok e st \<and> set_texts st = {} \<and>
    dbAdd e s1 key (set_object (e_clk e) addr st) = Some (s1\<lparr>ks_db := db\<rparr>) \<and> db_ok e db \<and> kmap db key = Some (set_object (e_clk e) addr st) \<and>
    view e db = (view e (ks_db s1))(key \<mapsto> (AOther REDIS_SET (PContainer addr), None)) \<and> db_size db \<le> Suc (db_size (ks_db s1))"
proof -
  obtain st where st: "setTypeCreate v = Some st" "set_ok e st" "set_texts st = {}" using create_set[OF assms(5)] by blast
  obtain db where db: "dbAdd e s1 key (set_object (e_clk e) addr st) = Some (s1\<lparr>ks_db := db\<rparr>)" "db_ok e db"
      "kmap db = (kmap (ks_db s1))(key \<mapsto> set_object (e_clk e) addr st)" "xmap db = xmap (ks_db s1)"
    using dbAdd_set[OF ks_ok_parts(1)[OF assms(1)] _ assms(4), of key "set_object (e_clk e) addr st"] assms(3) by (auto simp: domIff)
  have "found e s1 s1 key" using assms(1,2) by (simp add: found_def unseen_refl ks_ok_def)
  from found_update[OF this db(2-4)] absent_no_expire[OF assms(2,3)]
  show ?thesis using st db by (intro exI[of _ st] exI[of _ db]) simp
qed

section \<open>The commands one by one\<close>

lemma sadd_implements:
  assumes "sets_ok e (s, h)" "master e" "list_all plain argv" "2 < length argv" "room (ks_db s)" "h addr = None" "small_sets n (sview e (s, h))" "n + length argv \<le> 2 ^ 29 - 1"
  shows "implements_sets e saddCommand mx addr (s, h) argv (spec_sadd (obj_text (argv ! 1)) (map obj_text (drop 2 argv)))"
proof -
  let ?key = "obj_text (argv ! 1)"
  let ?as = "drop 2 argv"
  have ks: "ks_ok e s" using assms(1) by (simp add: sets_ok_def)
  obtain s1 where s1: "lookupKeyWrite e s ?key = Some (s1, kmap (ks_db s1) ?key)" "found e s s1 ?key" using write_found[OF ks assms(2)] by blast
  have i: "1 < length argv" "2 < length argv" using assms(4) by simp_all
  note unf = saddCommand_def arg_text_ok[OF assms(3) i(1)] s1(1) spec_sadd_def
  have v: "view e (ks_db s1) = view e (ks_db s)" and k1: "ks_ok e s1" and sz: "db_size (ks_db s1) \<le> db_size (ks_db s)" and rm: "room (ks_db s1)"
    using foundD(2,4,5,6)[OF s1(2)] ks assms(5) by simp_all
  have ob: "obj_ok (argv ! 2)" "list_all obj_ok ?as" using assms(3) i(2) plain_args[OF assms(3)] by (auto simp: list_all_length plain_def)
  have lim: "card {} + length ?as \<le> 2 ^ 29 - 1" using assms(8) by simp
  have ne: "?as \<noteq> []" using assms(4) by simp
  have cnt: "card (obj_text ` set ?as - A) < 2 ^ 63" for A
  proof -
    have "card (obj_text ` set ?as - A) \<le> length ?as" by (rule order_trans[OF card_mono[OF _ Diff_subset] order_trans[OF card_image_le card_length]]) simp_all
    then show ?thesis using assms(8) by simp
  qed
  from assms(1) s1(2) show ?thesis
  proof (cases rule: set_cases)
    case absent
    obtain st db where st: "setTypeCreate (argv ! 2) = Some st" "set_ok e st" "set_texts st = {}" "dbAdd e s1 ?key (set_object (e_clk e) addr st) = Some (s1\<lparr>ks_db := db\<rparr>)"
      "db_ok e db" "kmap db ?key = Some (set_object (e_clk e) addr st)" "view e db = (view e (ks_db s1))(?key \<mapsto> (AOther REDIS_SET (PContainer addr), None))" "db_size db \<le> Suc (db_size (ks_db s1))"
      using create_key[OF k1 s1(2) absent(1) rm ob(1)] by blast
    have k2: "ks_ok e (s1\<lparr>ks_db := db\<rparr>)" using k1 st(5) by (simp add: ks_ok_def)
    obtain s' st' args where m: "sadd_members e mx (s1\<lparr>ks_db := db\<rparr>) (h(addr \<mapsto> st)) ?key (set_object (e_clk e) addr st) ?as = Some (s', h(addr \<mapsto> st'), args, card (obj_text ` set ?as - {}))"
        "ks_ok e s'" "set_ok e st'" "set_texts st' = {} \<union> obj_text ` set ?as" "view e (ks_db s') = view e db" "db_size (ks_db s') = db_size db"
      using sadd_members_ok[where key = ?key and so = "set_object (e_clk e) addr st" and a = addr and h = "h(addr \<mapsto> st)" and mx = mx, OF k2 _ _ _ _ st(2) ob(2)] st(6) lim unfolding st(3) fun_upd_upd by auto
    show ?thesis
    proof (rule implements_put_set[OF assms(1), where a = addr and ?s2.0 = s' and st = st' and key = ?key and x = None])
      show "set_runs e saddCommand mx addr (s, h) argv (s', h(addr \<mapsto> st')) (int_reply (int (card (obj_text ` set ?as - {}))))"
        by (rule set_runsI[OF reply_int_nat[OF cnt]]) (simp add: unf arg_def i absent st(1,4) m(1) Let_def del: One_nat_def Diff_empty)
    qed (use m st(7,8) v sz absent assms(6) ne in \<open>simp_all add: spec_sadd_def\<close>)
  next
    case (wrong o1 c x)
    then show ?thesis by (intro implements_wrong[OF assms(1) s1(2)]) (simp_all add: unf Let_def del: One_nat_def)
  next
    case (set so a st x)
    have "card (set_texts st) + length ?as \<le> 2 ^ 29 - 1" using small_card[OF assms(7) set(8)] assms(8) by simp
    then obtain s' st' args where m: "sadd_members e mx s1 h ?key so ?as = Some (s', h(a \<mapsto> st'), args, card (obj_text ` set ?as - set_texts st))"
        "ks_ok e s'" "set_ok e st'" "set_texts st' = set_texts st \<union> obj_text ` set ?as" "view e (ks_db s') = view e (ks_db s1)" "db_size (ks_db s') = db_size (ks_db s1)"
      using sadd_members_ok[where h = h and mx = mx, OF k1 set(1-5) ob(2)] by blast
    show ?thesis
    proof (rule implements_put_set[OF assms(1), where a = a and ?s2.0 = s' and st = st' and key = ?key and x = x])
      show "set_runs e saddCommand mx addr (s, h) argv (s', h(a \<mapsto> st')) (int_reply (int (card (obj_text ` set ?as - set_texts st))))"
        by (rule set_runsI[OF reply_int_nat[OF cnt]]) (simp add: unf set m(1) Let_def del: One_nat_def)
    qed (use m set v sz in \<open>auto simp: spec_sadd_def\<close>)
  qed
qed

definition spec_srem :: "bytes \<Rightarrow> bytes list \<Rightarrow> sview \<Rightarrow> sview \<times> bytes" where
  "spec_srem key ts m = (case m key of
      None \<Rightarrow> (m, int_reply 0)
    | Some (VSet A, x) \<Rightarrow> (m(key := if A \<subseteq> set ts then None else Some (VSet (A - set ts), x)), int_reply (int (card (set ts \<inter> A))))
    | Some (VOther _, _) \<Rightarrow> (m, wrongtype))"

lemma srem_loop_ok:
  assumes "set_ok e st" "list_all obj_ok as" "card (set_texts st) \<le> 2 ^ 29 - 1" "set_texts st \<noteq> {}"
  shows "\<exists>st'. srem_loop e st as n = Some (st', n + card (obj_text ` set as \<inter> set_texts st), set_texts st \<subseteq> obj_text ` set as) \<and> set_ok e st' \<and>
    set_texts st' = set_texts st - obj_text ` set as"
  using assms
proof (induction as arbitrary: st n)
  case (Cons a as)
  let ?t = "obj_text a" and ?ts = "obj_text ` set as" and ?A = "set_texts st"
  obtain st1 where st1: "setTypeRemove e st a = Some (st1, ?t \<in> ?A)" "set_ok e st1" "set_texts st1 = ?A - {?t}"
    using remove_texts[OF Cons.prems(1) _ Cons.prems(3), of a] Cons.prems(2) by auto
  have fin: "finite ?A" by (rule finite_texts)
  have sz: "setTypeSize st1 = card (?A - {?t})" using card_texts[OF st1(2)] st1(3) by simp
  have le: "card (?A - {?t}) \<le> 2 ^ 29 - 1" using card_Diff1_le[of ?A ?t] Cons.prems(3) by simp
  consider (out) "?t \<notin> ?A" | (last) "?t \<in> ?A" "?A - {?t} = {}" | (more) "?t \<in> ?A" "?A - {?t} \<noteq> {}" by blast
  then show ?case
  proof cases
    case out
    then have eq: "set_texts st1 = ?A" "insert ?t ?ts \<inter> ?A = ?ts \<inter> ?A" "?A - insert ?t ?ts = ?A - ?ts" "?A \<subseteq> insert ?t ?ts \<longleftrightarrow> ?A \<subseteq> ?ts" using st1(3) by auto
    show ?thesis using Cons.IH[of st1 n] st1(1,2) out Cons.prems(2-4) unfolding eq(1) by (simp add: eq)
  next
    case last
    then have "?A = {?t}" by auto
    then show ?thesis using last st1 sz by (intro exI[of _ st1]) simp
  next
    case more
    have eq: "card (insert ?t ?ts \<inter> ?A) = Suc (card (?ts \<inter> (?A - {?t})))"
    proof -
      have "insert ?t ?ts \<inter> ?A = insert ?t (?ts \<inter> (?A - {?t}))" using more(1) by auto
      then show ?thesis using fin by simp
    qed
    have eq': "?A - insert ?t ?ts = ?A - {?t} - ?ts" "?A \<subseteq> insert ?t ?ts \<longleftrightarrow> ?A - {?t} \<subseteq> ?ts" by auto
    have "setTypeSize st1 \<noteq> 0" unfolding sz using more(2) fin by simp
    then have "srem_loop e st (a # as) n = srem_loop e st1 as (Suc n)" using st1(1) more(1) by simp
    moreover obtain st' where "srem_loop e st1 as (Suc n) = Some (st', Suc n + card (?ts \<inter> (?A - {?t})), ?A - {?t} \<subseteq> ?ts)" "set_ok e st'" "set_texts st' = ?A - {?t} - ?ts"
      using Cons.IH[of st1 "Suc n"] st1(2) more(2) Cons.prems(2) le unfolding st1(3) by auto
    ultimately show ?thesis unfolding list.set image_insert eq eq' by simp
  qed
qed simp

text \<open>Removing members is removing the key when none is left, and storing the rest otherwise.\<close>

lemma srem_members_ok:
  assumes "ks_ok e s" "kmap (ks_db s) key = Some so" "o_type so = REDIS_SET" "o_ptr so = PContainer a" "h a = Some st" "set_ok e st" "set_texts st \<noteq> {}"
    "list_all obj_ok as" "card (set_texts st) \<le> 2 ^ 29 - 1" "\<not> expired e (ks_db s) key"
  obtains (gone) s' where "srem_members e s h key so as = Some (s', h(a := None), card (obj_text ` set as \<inter> set_texts st))" "ks_ok e s'" "set_texts st \<subseteq> obj_text ` set as"
      "view e (ks_db s') = (view e (ks_db s))(key := None)" "db_size (ks_db s') \<le> db_size (ks_db s)"
  | (left) s' st' where "srem_members e s h key so as = Some (s', h(a \<mapsto> st'), card (obj_text ` set as \<inter> set_texts st))" "ks_ok e s'" "set_ok e st'" "\<not> set_texts st \<subseteq> obj_text ` set as"
      "set_texts st' = set_texts st - obj_text ` set as" "view e (ks_db s') = view e (ks_db s)" "db_size (ks_db s') \<le> db_size (ks_db s)"
proof -
  define n where "n = card (obj_text ` set as \<inter> set_texts st)"
  obtain st' where l: "srem_loop e st as 0 = Some (st', n, set_texts st \<subseteq> obj_text ` set as)" "set_ok e st'" "set_texts st' = set_texts st - obj_text ` set as"
    using srem_loop_ok[OF assms(6,8,9,7), of 0] unfolding n_def add_0 by blast
  have the: "the_set h so = Some (a, st)" using assms(4,5) by (simp add: the_set_def)
  have sh: "shared_ok (ks_integers s)" by (rule ks_ok_parts(2)[OF assms(1)])
  show thesis
  proof (cases "set_texts st \<subseteq> obj_text ` set as")
    case True
    obtain db where db: "dbDelete e s key = Some (s\<lparr>ks_db := db\<rparr>, key \<in> dom (view e (ks_db s)))" "db_ok e db" "view e db = (view e (ks_db s))(key := None)" "db_size db \<le> db_size (ks_db s)"
      using delete_view[OF ks_ok_parts(1)[OF assms(1)] assms(10)] by blast
    define s' where "s' = (if n \<noteq> 0 then
                let s = notifyKeyspaceEvent (signalModifiedKey (s\<lparr>ks_db := db\<rparr>) key) ''srem'' key;
                    s = notifyKeyspaceEvent s ''del'' key
                in s\<lparr>ks_dirty := ks_dirty s + n\<rparr>
              else s\<lparr>ks_db := db\<rparr>)"
    have "srem_members e s h key so as = Some (s', h(a := None), n)"
      unfolding srem_members_def by (simp only: the l(1) db(1) s'_def Let_def Option.bind.bind_lunit prod.case True if_True)
    moreover have "ks_db s' = db" "ks_integers s' = ks_integers s" by (simp_all add: s'_def Let_def)
    ultimately show ?thesis using gone[of s'] db True sh by (simp add: n_def ks_ok_def)
  next
    case False
    obtain db where db: "store_set e s h key so a st' = Some (s\<lparr>ks_db := db\<rparr>, h(a \<mapsto> st'))" "db_ok e db" "view e db = view e (ks_db s)" "db_size db = db_size (ks_db s)"
      using store_ok[OF ks_ok_parts(1)[OF assms(1)] assms(2,3)] by blast
    define s' where "s' = (if n \<noteq> 0 then
                let s = notifyKeyspaceEvent (signalModifiedKey (s\<lparr>ks_db := db\<rparr>) key) ''srem'' key
                in s\<lparr>ks_dirty := ks_dirty s + n\<rparr>
              else s\<lparr>ks_db := db\<rparr>)"
    have "srem_members e s h key so as = Some (s', h(a \<mapsto> st'), n)"
      unfolding srem_members_def by (simp only: the l(1) db(1) s'_def Let_def Option.bind.bind_lunit prod.case False if_False)
    moreover have "ks_db s' = db" "ks_integers s' = ks_integers s" by (simp_all add: s'_def Let_def)
    ultimately show ?thesis using left[of s' st'] db False l sh by (simp add: n_def ks_ok_def)
  qed
qed

lemma set_or_reply_simps [simp]:
  "set_or_reply e c None t = do { c \<leftarrow> reply_shared e c t; Some (c, None) }"
  "o_type so = REDIS_SET \<Longrightarrow> set_or_reply e c (Some so) t = Some (c, Some so)"
  "o_type so \<noteq> REDIS_SET \<Longrightarrow> set_or_reply e c (Some so) t = do {
     c \<leftarrow> reply_shared e c (bytes_of_string ''-WRONGTYPE Operation against a key holding the wrong kind of value''); Some (c, None) }"
  by (simp_all add: set_or_reply_def checkType_def Option.bind_assoc)

lemma srem_implements:
  assumes "sets_ok e (s, h)" "master e" "list_all plain argv" "2 < length argv" "small_sets n (sview e (s, h))" "n + length argv \<le> 2 ^ 29 - 1"
  shows "implements_sets e sremCommand mx addr (s, h) argv (spec_srem (obj_text (argv ! 1)) (map obj_text (drop 2 argv)))"
proof -
  let ?key = "obj_text (argv ! 1)"
  let ?as = "drop 2 argv"
  have ks: "ks_ok e s" using assms(1) by (simp add: sets_ok_def)
  obtain s1 where s1: "lookupKeyWrite e s ?key = Some (s1, kmap (ks_db s1) ?key)" "found e s s1 ?key" using write_found[OF ks assms(2)] by blast
  have i: "1 < length argv" using assms(4) by simp
  note unf = sremCommand_def arg_text_ok[OF assms(3) i] s1(1) spec_srem_def Let_def
  have v: "view e (ks_db s1) = view e (ks_db s)" and k1: "ks_ok e s1" and sz: "db_size (ks_db s1) \<le> db_size (ks_db s)"
    using foundD(2,4,5)[OF s1(2)] ks by simp_all
  from assms(1) s1(2) show ?thesis
  proof (cases rule: set_cases)
    case absent
    show ?thesis
      by (rule implements_nothing[OF assms(1) s1(2), where t = "int_reply 0"], rule set_runsI[OF one_zero_replies(1)])
        (simp_all add: unf absent del: One_nat_def)
  next
    case (wrong o1 c x)
    then show ?thesis by (intro implements_wrong[OF assms(1) s1(2)]) (simp_all add: unf del: One_nat_def)
  next
    case (set so a st x)
    have lim: "card (set_texts st) \<le> 2 ^ 29 - 1" using small_card[OF assms(5) set(8)] assms(6) by simp
    have "card (obj_text ` set ?as \<inter> set_texts st) < 2 ^ 63"
      using card_mono[of "set_texts st" "obj_text ` set ?as \<inter> set_texts st"] lim finite_texts by simp
    note rep = reply_int_nat[OF this]
    have ne: "\<not> expired e (ks_db s1) ?key" using s1(2) by (simp add: found_def)
    have key: "view e (ks_db s) ?key = Some (AOther REDIS_SET (PContainer a), x)" using set(7) v by simp
    show ?thesis
    proof (cases rule: srem_members_ok[where h = h and as = ?as, OF k1 set(1-6) plain_args[OF assms(3)] lim ne, case_names gone left])
      case (gone s')
      show ?thesis
      proof (rule implements_drop_set[OF assms(1), where a = a and ?s2.0 = s' and key = ?key])
        show "set_runs e sremCommand mx addr (s, h) argv (s', h(a := None)) (int_reply (int (card (obj_text ` set ?as \<inter> set_texts st))))"
          by (rule set_runsI[OF rep]) (simp add: unf set(1,2) gone(1) del: One_nat_def)
      qed (use gone set(8) key v sz in \<open>simp_all add: spec_srem_def\<close>)
    next
      case (left s' st')
      show ?thesis
      proof (rule implements_put_set[OF assms(1), where a = a and ?s2.0 = s' and key = ?key and st = st' and x = x])
        show "set_runs e sremCommand mx addr (s, h) argv (s', h(a \<mapsto> st')) (int_reply (int (card (obj_text ` set ?as \<inter> set_texts st))))"
          by (rule set_runsI[OF rep]) (simp add: unf set(1,2) left(1) del: One_nat_def)
      qed (use left set(4,8) key v sz in \<open>auto simp: spec_srem_def\<close>)
    qed
  qed
qed

definition spec_sismember :: "bytes \<Rightarrow> bytes \<Rightarrow> sview \<Rightarrow> sview \<times> bytes" where
  "spec_sismember key t m = (m, case m key of
      None \<Rightarrow> int_reply 0
    | Some (VSet A, _) \<Rightarrow> int_reply (if t \<in> A then 1 else 0)
    | Some (VOther _, _) \<Rightarrow> wrongtype)"

definition spec_scard :: "bytes \<Rightarrow> sview \<Rightarrow> sview \<times> bytes" where
  "spec_scard key m = (m, case m key of
      None \<Rightarrow> int_reply 0
    | Some (VSet A, _) \<Rightarrow> int_reply (int (card A))
    | Some (VOther _, _) \<Rightarrow> wrongtype)"

lemma member_replies: "replies (e_junk e) (e_clk e) (e_ae_ok e) (\<lambda>c. reply_shared e c (bytes_of_string (if b then '':1'' else '':0''))) (int_reply (if b then 1 else 0))"
  by (cases b) (simp_all add: one_zero_replies)

lemma sismember_implements:
  assumes "sets_ok e (s, h)" "master e" "list_all plain argv" "2 < length argv"
  shows "implements_sets e sismemberCommand mx addr (s, h) argv (spec_sismember (obj_text (argv ! 1)) (obj_text (argv ! 2)))"
proof -
  let ?key = "obj_text (argv ! 1)"
  have ks: "ks_ok e s" using assms(1) by (simp add: sets_ok_def)
  obtain s1 where s1: "lookupKeyRead e s ?key = Some (s1, kmap (ks_db s1) ?key)" "found e s s1 ?key" using read_found[OF ks assms(2)] by blast
  have i: "1 < length argv" using assms(4) by simp
  note unf = sismemberCommand_def arg_text_ok[OF assms(3) i] s1(1) spec_sismember_def Let_def
  have v: "view e (ks_db s1) = view e (ks_db s)" and k1: "ks_ok e s1" and sz: "db_size (ks_db s1) \<le> db_size (ks_db s)"
    using foundD(2,4,5)[OF s1(2)] ks by simp_all
  from assms(1) s1(2) show ?thesis
  proof (cases rule: set_cases)
    case absent
    show ?thesis
      by (rule implements_nothing[OF assms(1) s1(2), where t = "int_reply 0"], rule set_runsI[OF one_zero_replies(1)])
        (simp_all add: unf absent del: One_nat_def)
  next
    case (wrong o1 c x)
    then show ?thesis by (intro implements_wrong[OF assms(1) s1(2)]) (simp_all add: unf del: One_nat_def)
  next
    case (set so a st x)
    obtain sh o2 where o2: "encode_arg e s1 argv 2 = Some (s1\<lparr>ks_integers := sh\<rparr>, argv[2 := o2])" "shared_ok sh" "obj_ok o2" "obj_text o2 = obj_text (argv ! 2)"
      using encode_arg_ok[OF k1 assms(3,4)] by blast
    obtain st' where st': "setTypeIsMember e st o2 = Some (st', obj_text (argv ! 2) \<in> set_texts st)" "set_ok e st'" "set_texts st' = set_texts st"
      using member_texts[OF set(5) o2(3)] o2(4) by auto
    have the: "the_set h so = Some (a, st)" using set(3,4) by (simp add: the_set_def)
    have key: "view e (ks_db s) ?key = Some (AOther REDIS_SET (PContainer a), x)" using set(7) v by simp
    have upd: "(sview e (s, h))(?key \<mapsto> (VSet (set_texts st), x)) = sview e (s, h)" "(view e (ks_db s))(?key \<mapsto> (AOther REDIS_SET (PContainer a), x)) = view e (ks_db s)"
      using set(8) key by (simp_all add: fun_upd_idem)
    show ?thesis
    proof (rule implements_put_set[OF assms(1), where a = a and ?s2.0 = "s1\<lparr>ks_integers := sh\<rparr>" and key = ?key and st = st' and x = x])
      show "set_runs e sismemberCommand mx addr (s, h) argv (s1\<lparr>ks_integers := sh\<rparr>, h(a \<mapsto> st')) (int_reply (if obj_text (argv ! 2) \<in> set_texts st then 1 else 0))"
        by (rule set_runsI[OF member_replies]) (simp add: unf set(1,2) o2(1) the arg_update assms(4) st'(1) del: One_nat_def)
    qed (use set(4,6,8) k1 o2(2) st'(2) key v sz in \<open>simp_all add: spec_sismember_def ks_ok_def upd st'(3) del: One_nat_def\<close>)
  qed
qed

lemma scard_implements:
  assumes "sets_ok e (s, h)" "master e" "list_all plain argv" "1 < length argv" "small_sets n (sview e (s, h))" "n \<le> 2 ^ 29 - 1"
  shows "implements_sets e scardCommand mx addr (s, h) argv (spec_scard (obj_text (argv ! 1)))"
proof -
  let ?key = "obj_text (argv ! 1)"
  have ks: "ks_ok e s" using assms(1) by (simp add: sets_ok_def)
  obtain s1 where s1: "lookupKeyRead e s ?key = Some (s1, kmap (ks_db s1) ?key)" "found e s s1 ?key" using read_found[OF ks assms(2)] by blast
  note unf = scardCommand_def arg_text_ok[OF assms(3,4)] s1(1) spec_scard_def Let_def
  from assms(1) s1(2) show ?thesis
  proof (cases rule: set_cases)
    case absent
    show ?thesis
      by (rule implements_nothing[OF assms(1) s1(2), where t = "int_reply 0"], rule set_runsI[OF one_zero_replies(1)])
        (simp_all add: unf absent del: One_nat_def)
  next
    case (wrong o1 c x)
    then show ?thesis by (intro implements_wrong[OF assms(1) s1(2)]) (simp_all add: unf del: One_nat_def)
  next
    case (set so a st x)
    have sz: "setTypeSize st = card (set_texts st)" using card_texts[OF set(5)] by simp
    have "card (set_texts st) < 2 ^ 63" using small_card[OF assms(5) set(8)] assms(6) by simp
    note rep = reply_int_nat[OF this]
    have the: "the_set h so = Some (a, st)" using set(3,4) by (simp add: the_set_def)
    show ?thesis
      by (rule implements_nothing[OF assms(1) s1(2), where t = "int_reply (int (card (set_texts st)))"], rule set_runsI[OF rep])
        (simp_all add: unf set(1,2,8) the sz del: One_nat_def)
  qed
qed

section \<open>Moving a member\<close>

definition spec_smove :: "bytes \<Rightarrow> bytes \<Rightarrow> bytes \<Rightarrow> sview \<Rightarrow> sview \<times> bytes" where
  "spec_smove k1 k2 t m = (case m k1 of
      None \<Rightarrow> (m, int_reply 0)
    | Some (VOther _, _) \<Rightarrow> (m, wrongtype)
    | Some (VSet A, x) \<Rightarrow>
        if (case m k2 of Some (VOther _, _) \<Rightarrow> True | _ \<Rightarrow> False) then (m, wrongtype)
        else if t \<notin> A then (m, int_reply 0)
        else if k1 = k2 then (m, int_reply 1)
        else (m(k1 := if A = {t} then None else Some (VSet (A - {t}), x),
                k2 \<mapsto> (case m k2 of Some (VSet B, y) \<Rightarrow> (VSet (insert t B), y) | _ \<Rightarrow> (VSet {t}, None))), int_reply 1))"

lemma found_self: "ks_ok e s \<Longrightarrow> \<not> expired e (ks_db s) k \<Longrightarrow> found e s s k"
  by (simp add: found_def unseen_refl ks_ok_def)

text \<open>The destination gets the member.\<close>

lemma smove_dest_ok:
  assumes "sets_ok e (s, h)" "\<not> expired e (ks_db s) key" "room (ks_db s)" "h addr = None" "obj_ok ele" "small_sets n (sview e (s, h))" "n < 2 ^ 29 - 1"
    "\<And>c x. sview e (s, h) key \<noteq> Some (VOther c, x)"
  shows "\<exists>s' h'. smove_dest e mx addr s h key (kmap (ks_db s) key) ele = Some (s', h') \<and> sets_ok e (s', h') \<and>
    sview e (s', h') = (sview e (s, h))(key \<mapsto> (case sview e (s, h) key of Some (VSet B, y) \<Rightarrow> (VSet (insert (obj_text ele) B), y) | _ \<Rightarrow> (VSet {obj_text ele}, None))) \<and>
    db_size (ks_db s') \<le> Suc (db_size (ks_db s)) \<and> dom h' \<subseteq> insert addr (dom h)"
proof -
  have ks: "ks_ok e s" using assms(1) by (simp add: sets_ok_def)
  note self = found_self[OF ks assms(2)]
  have final: ?thesis
    if k2: "ks_ok e s2" "kmap (ks_db s2) key = Some so" "o_type so = REDIS_SET" "o_ptr so = PContainer a" and st: "set_ok e st" "card (set_texts st) \<le> n"
      and dest: "smove_dest e mx addr s h key (kmap (ks_db s) key) ele = do {
         (sh, st, added) \<leftarrow> setTypeAdd e mx (ks_integers s2) st ele;
         (s, h) \<leftarrow> store_set e (s2\<lparr>ks_integers := sh\<rparr>) h2 key so a st;
         Some (if added then notifyKeyspaceEvent (s\<lparr>ks_dirty := ks_dirty s + 1\<rparr>) ''sadd'' key else s, h) }"
      and h2: "\<And>st. h2(a \<mapsto> st) = h(a \<mapsto> st)" and v2: "view e (ks_db s2) = (view e (ks_db s))(key \<mapsto> (AOther REDIS_SET (PContainer a), x))" "db_size (ks_db s2) \<le> Suc (db_size (ks_db s))"
      and a: "view e (ks_db s) key = Some (AOther REDIS_SET (PContainer a), x) \<or> (view e (ks_db s) key = None \<and> h a = None)" "a = addr \<or> h a \<noteq> None"
      and new: "(case sview e (s, h) key of Some (VSet B, y) \<Rightarrow> (VSet (insert (obj_text ele) B), y) | _ \<Rightarrow> (VSet {obj_text ele}, None)) = (VSet (insert (obj_text ele) (set_texts st)), x)"
    for s2 so a st h2 x
  proof -
    obtain sh st' where st': "setTypeAdd e mx (ks_integers s2) st ele = Some (sh, st', obj_text ele \<notin> set_texts st)" "shared_ok sh" "set_ok e st'" "set_texts st' = insert (obj_text ele) (set_texts st)"
      using add_texts[OF st(1) ks_ok_parts(2)[OF k2(1)] assms(5), of mx] st(2) assms(7) by auto
    obtain db where db: "store_set e (s2\<lparr>ks_integers := sh\<rparr>) h2 key so a st' = Some (s2\<lparr>ks_integers := sh, ks_db := db\<rparr>, h2(a \<mapsto> st'))" "db_ok e db" "view e db = view e (ks_db s2)" "db_size db = db_size (ks_db s2)"
      using store_ok[of e "s2\<lparr>ks_integers := sh\<rparr>" key so h2 a st'] ks_ok_parts(1)[OF k2(1)] k2(2,3) by auto
    define s3 where "s3 = s2\<lparr>ks_integers := sh, ks_db := db\<rparr>"
    define s' where "s' = (if obj_text ele \<notin> set_texts st then notifyKeyspaceEvent (s3\<lparr>ks_dirty := ks_dirty s3 + 1\<rparr>) ''sadd'' key else s3)"
    have s': "ks_db s' = db" "ks_integers s' = sh" by (simp_all add: s'_def s3_def)
    have r: "smove_dest e mx addr s h key (kmap (ks_db s) key) ele = Some (s', h(a \<mapsto> st'))" unfolding dest st'(1) s'_def s3_def by (simp add: db(1) h2)
    have k': "ks_ok e s'" using s' db(2) st'(2) by (simp add: ks_ok_def)
    have v': "view e (ks_db s') = (view e (ks_db s))(key \<mapsto> (AOther REDIS_SET (PContainer a), x))" using s' db(3) v2(1) by simp
    have ne: "set_texts st' \<noteq> {}" using st'(4) by simp
    note p = put_state[OF assms(1) k' v' st'(3) ne a(1)]
    show ?thesis unfolding new
      by (intro exI[of _ s'] exI[of _ "h(a \<mapsto> st')"]) (use r p st'(4) s' db(4) v2(2) a(2) in auto)
  qed
  from assms(1) self show ?thesis
  proof (cases rule: set_cases)
    case absent
    obtain st db where st: "setTypeCreate ele = Some st" "set_ok e st" "set_texts st = {}" "dbAdd e s key (set_object (e_clk e) addr st) = Some (s\<lparr>ks_db := db\<rparr>)"
      "db_ok e db" "kmap db key = Some (set_object (e_clk e) addr st)" "view e db = (view e (ks_db s))(key \<mapsto> (AOther REDIS_SET (PContainer addr), None))" "db_size db \<le> Suc (db_size (ks_db s))"
      using create_key[OF ks self absent(1) assms(3,5)] by blast
    show ?thesis
      by (rule final[where ?s2.0 = "s\<lparr>ks_db := db\<rparr>" and so = "set_object (e_clk e) addr st" and a = addr and st = st and ?h2.0 = "h(addr \<mapsto> st)" and x = None])
        (use st absent ks assms(4) in \<open>simp_all add: smove_dest_def the_set_def ks_ok_def Let_def\<close>)
  next
    case (wrong o1 c x)
    then show ?thesis using assms(8) by blast
  next
    case (set so a st x)
    show ?thesis
      by (rule final[where ?s2.0 = s and so = so and a = a and st = st and ?h2.0 = h and x = x])
        (use set ks small_card[OF assms(6) set(8)] in \<open>simp_all add: smove_dest_def the_set_def fun_upd_idem\<close>)
  qed
qed

text \<open>The source loses the member, and its key when it was the last one.\<close>

lemma smove_source:
  assumes "sets_ok e (s, h)" "view e (ks_db s) k1 = Some (AOther REDIS_SET (PContainer a), x)" "h a = Some st" "set_ok e st" "obj_ok ele" "obj_text ele \<in> set_texts st"
    "card (set_texts st) \<le> 2 ^ 29 - 1" "k1 \<noteq> k2"
  shows "\<exists>st1 s4 h4. setTypeRemove e st ele = Some (st1, True) \<and>
    (if setTypeSize st1 = 0 then do { (s, _) \<leftarrow> dbDelete e (notifyKeyspaceEvent s ''srem'' k1) k1; Some (notifyKeyspaceEvent s ''del'' k1, h(a := None)) }
     else Some (notifyKeyspaceEvent s ''srem'' k1, h(a \<mapsto> st1))) = Some (s4, h4) \<and> sets_ok e (s4, h4) \<and>
    sview e (s4, h4) = (sview e (s, h))(k1 := if set_texts st = {obj_text ele} then None else Some (VSet (set_texts st - {obj_text ele}), x)) \<and>
    kmap (ks_db s4) k2 = kmap (ks_db s) k2 \<and> xmap (ks_db s4) k2 = xmap (ks_db s) k2 \<and> db_size (ks_db s4) \<le> db_size (ks_db s) \<and> dom h4 \<subseteq> dom h"
proof -
  let ?t = "obj_text ele" and ?s = "notifyKeyspaceEvent s ''srem'' k1"
  have ks: "ks_ok e s" using assms(1) by (simp add: sets_ok_def)
  obtain st1 where st1: "setTypeRemove e st ele = Some (st1, True)" "set_ok e st1" "set_texts st1 = set_texts st - {?t}"
    using remove_texts[OF assms(4,5,7)] assms(6) by auto
  show ?thesis
  proof (cases "set_texts st = {?t}")
    case True
    obtain db where db: "dbDelete e ?s k1 = Some (?s\<lparr>ks_db := db\<rparr>, k1 \<in> dom (kmap (ks_db s)))" "db_ok e db" "kmap db = (kmap (ks_db s))(k1 := None)" "xmap db = (xmap (ks_db s))(k1 := None)"
      using dbDelete_ok[of e ?s k1] ks_ok_parts(1)[OF ks] by auto
    let ?s4 = "notifyKeyspaceEvent (?s\<lparr>ks_db := db\<rparr>) ''del'' k1"
    have k4: "ks_ok e ?s4" using ks db(2) by (simp add: ks_ok_def)
    have v4: "view e (ks_db ?s4) = (view e (ks_db s))(k1 := None)" using view_remove[of k1 db "ks_db s" e] db(3,4) by simp
    note d = drop_state[OF assms(1) k4 v4 assms(2)]
    have "setTypeSize st1 = 0" using card_texts[OF st1(2)] st1(3) True by simp
    moreover have "db_size db \<le> db_size (ks_db s)" using db(3) by (intro db_size_mono) auto
    ultimately show ?thesis using st1(1) db d True assms(8) by (intro exI[of _ st1] exI[of _ ?s4] exI[of _ "h(a := None)"]) auto
  next
    case False
    then have ne: "set_texts st1 \<noteq> {}" using st1(3) assms(6) by auto
    then have sz: "setTypeSize st1 \<noteq> 0" unfolding card_texts[OF st1(2), symmetric] using finite_texts[of st1] by simp
    have k4: "ks_ok e ?s" using ks by (simp add: ks_ok_def)
    have v4: "view e (ks_db ?s) = (view e (ks_db s))(k1 \<mapsto> (AOther REDIS_SET (PContainer a), x))" using assms(2) by (simp add: fun_upd_idem)
    note p = put_state[OF assms(1) k4 v4 st1(2) ne, OF disjI1, OF assms(2)]
    show ?thesis using st1(1,3) sz p False assms(3) by (intro exI[of _ st1] exI[of _ ?s] exI[of _ "h(a \<mapsto> st1)"]) auto
  qed
qed

lemma small_upd: "small_sets n m \<Longrightarrow> (\<And>A x. v = Some (VSet A, x) \<Longrightarrow> card A \<le> n) \<Longrightarrow> small_sets n (m(k := v))"
  by (auto simp: small_sets_def)

lemma smove_implements:
  assumes "sets_ok e (s, h)" "master e" "list_all plain argv" "3 < length argv" "room (ks_db s)" "h addr = None" "small_sets n (sview e (s, h))" "n < 2 ^ 29 - 1"
  shows "implements_sets e (smoveCommand :: 'a set_command) mx addr (s, h) argv (spec_smove (obj_text (argv ! 1)) (obj_text (argv ! 2)) (obj_text (argv ! 3)))"
proof -
  let ?k1 = "obj_text (argv ! 1)" and ?k2 = "obj_text (argv ! 2)" and ?t = "obj_text (argv ! 3)"
  have ks: "ks_ok e s" using assms(1) by (simp add: sets_ok_def)
  obtain s1 where s1: "lookupKeyWrite e s ?k1 = Some (s1, kmap (ks_db s1) ?k1)" "found e s s1 ?k1" using write_found[OF ks assms(2)] by blast
  have k1: "ks_ok e s1" using foundD(5)[OF s1(2)] ks by simp
  obtain s2 where s2: "lookupKeyWrite e s1 ?k2 = Some (s2, kmap (ks_db s2) ?k2)" "found e s1 s2 ?k2" using write_found[OF k1 assms(2)] by blast
  have k2: "ks_ok e s2" using foundD(5)[OF s2(2)] k1 by simp
  obtain sh ele where ele: "encode_arg e s2 argv 3 = Some (s2\<lparr>ks_integers := sh\<rparr>, argv[3 := ele])" "shared_ok sh" "obj_ok ele" "obj_text ele = ?t"
    using encode_arg_ok[OF k2 assms(3,4)] by blast
  define s3 where "s3 = s2\<lparr>ks_integers := sh\<rparr>"
  have s3: "ks_db s3 = ks_db s2" by (simp add: s3_def)
  have v: "view e (ks_db s1) = view e (ks_db s)" "view e (ks_db s2) = view e (ks_db s)" and sz: "db_size (ks_db s3) \<le> db_size (ks_db s)"
    using foundD(2,4)[OF s1(2)] foundD(2,4)[OF s2(2)] s3 by simp_all
  have ok1: "sets_ok e (s1, h)" "sview e (s1, h) = sview e (s, h)" using found_sets(1,2)[OF assms(1) s1(2)] by simp_all
  have ok3: "sets_ok e (s3, h)" "sview e (s3, h) = sview e (s, h)" using ok1 k2 ele(2) v by (simp_all add: sets_ok_def sview_def ks_ok_def s3_def)
  have i: "1 < length argv" "2 < length argv" using assms(4) by simp_all
  note unf = smoveCommand_def arg_text_ok[OF assms(3) i(1)] arg_text_ok[OF assms(3) i(2)] s1(1) s2(1) ele(1) arg_update(1)[OF assms(4)] s3_def[symmetric] Let_def
  have unchanged: ?thesis
    if "replies (e_junk e) (e_clk e) (e_ae_ok e) g t" "\<And>c. smoveCommand e mx addr (s, h) c argv = do { c \<leftarrow> g c; Some ((s3, h'), c, argv[3 := ele]) }"
      "spec_smove ?k1 ?k2 ?t (sview e (s, h)) = (sview e (s, h), t)" "sets_ok e (s3, h')" "sview e (s3, h') = sview e (s, h)" "dom h' \<subseteq> dom h" for g :: "'a out_client_scheme \<Rightarrow> 'a out_client_scheme option" and t h'
    by (rule implements_setsI[where spec = "spec_smove ?k1 ?k2 ?t", OF _ that(3,4)], rule set_runsI[OF that(1)], rule that(2)) (use that(5,6) sz in auto)
  from assms(1) s1(2) show ?thesis
  proof (cases rule: set_cases)
    case absent
    show ?thesis by (rule unchanged[OF one_zero_replies(1), where h' = h]) (use ok3 in \<open>simp_all add: unf absent spec_smove_def del: One_nat_def\<close>)
  next
    case (wrong o1 c x)
    show ?thesis by (rule unchanged[OF wrong_replies, where h' = h]) (use ok3 wrong in \<open>simp_all add: unf spec_smove_def del: One_nat_def\<close>)
  next
    case (set so a st x)
    have the: "the_set h so = Some (a, st)" using set(3,4) by (simp add: the_set_def)
    have key: "view e (ks_db s3) ?k1 = Some (AOther REDIS_SET (PContainer a), x)" using set(7) v s3 by simp
    have lim: "card (set_texts st) \<le> n" by (rule small_card[OF assms(7) set(8)])
    have restore: "sets_ok e (s3, h(a \<mapsto> st'))" "sview e (s3, h(a \<mapsto> st')) = sview e (s, h)" "dom (h(a \<mapsto> st')) \<subseteq> dom h" if "set_ok e st'" "set_texts st' = set_texts st" for st'
    proof -
      have u: "view e (ks_db s3) = (view e (ks_db s3))(?k1 \<mapsto> (AOther REDIS_SET (PContainer a), x))" using key by (simp add: fun_upd_idem)
      note p = put_state[OF ok3(1) _ u that(1), OF _ _ disjI1, OF _ _ key]
      show "sets_ok e (s3, h(a \<mapsto> st'))" using p(1) ok3(1) set(6) that(2) by (simp add: sets_ok_def)
      show "sview e (s3, h(a \<mapsto> st')) = sview e (s, h)" using p(2) ok3 set(6,8) that(2) by (simp add: sets_ok_def fun_upd_idem)
      show "dom (h(a \<mapsto> st')) \<subseteq> dom h" using set(4) by auto
    qed
    show ?thesis
    proof (cases "\<exists>c y. sview e (s, h) ?k2 = Some (VOther c, y)")
      case True
      then obtain c y where w: "sview e (s, h) ?k2 = Some (VOther c, y)" by blast
      obtain d where d: "kmap (ks_db s2) ?k2 = Some d" "o_type d \<noteq> REDIS_SET" by (rule set_cases[OF ok1(1) s2(2)]) (use w ok1(2) in auto)
      show ?thesis by (rule unchanged[OF wrong_replies, where h' = h]) (use ok3 set d w in \<open>simp_all add: unf checkType_def spec_smove_def del: One_nat_def\<close>)
    next
      case False
      have dst: "(case kmap (ks_db s2) ?k2 of None \<Rightarrow> Some (c, False) | Some d \<Rightarrow> checkType e c d REDIS_SET) = Some (c, False)" for c :: "'a out_client_scheme"
        by (rule set_cases[OF ok1(1) s2(2)]) (use False ok1(2) in \<open>auto simp: checkType_def\<close>)
      have same: "map_option o_ptr (kmap (ks_db s2) ?k2) = Some (o_ptr so) \<longleftrightarrow> ?k1 = ?k2"
      proof (rule set_cases[OF ok1(1) s2(2)])
        fix so2 a2 st2 y
        assume d: "kmap (ks_db s2) ?k2 = Some so2" "o_ptr so2 = PContainer a2" "view e (ks_db s2) ?k2 = Some (AOther REDIS_SET (PContainer a2), y)"
        have "heap_ok e (view e (ks_db s)) h" using assms(1) by (simp add: sets_ok_def)
        then have "a2 = a \<Longrightarrow> ?k1 = ?k2" using d(3) set(7) v unfolding heap_ok_def by metis
        moreover have "?k1 = ?k2 \<Longrightarrow> a2 = a" using d(3) set(7) v by simp
        ultimately show ?thesis using d(1,2) set(3) by auto
      qed (use False ok1(2) set(7,8) v in auto)
      note run = unf set(1,2) dst the same
      have spec: "spec_smove ?k1 ?k2 ?t (sview e (s, h)) =
         (if ?t \<notin> set_texts st then (sview e (s, h), int_reply 0)
          else if ?k1 = ?k2 then (sview e (s, h), int_reply 1)
          else ((sview e (s, h))(?k1 := if set_texts st = {?t} then None else Some (VSet (set_texts st - {?t}), x),
                ?k2 \<mapsto> (case sview e (s, h) ?k2 of Some (VSet B, y) \<Rightarrow> (VSet (insert ?t B), y) | _ \<Rightarrow> (VSet {?t}, None))), int_reply 1))"
        using False set(8) by (auto simp: spec_smove_def split: option.splits avalue.splits)
      consider (equal) "?k1 = ?k2" | (out) "?k1 \<noteq> ?k2" "?t \<notin> set_texts st" | (moves) "?k1 \<noteq> ?k2" "?t \<in> set_texts st" by blast
      then show ?thesis
      proof cases
        case equal
        obtain st' where st': "setTypeIsMember e st ele = Some (st', ?t \<in> set_texts st)" "set_ok e st'" "set_texts st' = set_texts st" using member_texts[OF set(5) ele(3)] ele(4) by auto
        have ptr: "map_option o_ptr (kmap (ks_db s2) ?k2) = Some (o_ptr so)" using same equal by blast
        have sp: "spec_smove ?k1 ?k2 ?t (sview e (s, h)) = (sview e (s, h), int_reply (if ?t \<in> set_texts st then 1 else 0))" unfolding spec using equal by auto
        show ?thesis
          by (rule unchanged[OF member_replies[where b = "?t \<in> set_texts st"] _ _ restore[OF st'(2,3)]]) (simp_all add: unf set(1,2) dst the ptr st'(1) sp del: One_nat_def)
      next
        case out
        have "card (set_texts st) \<le> 2 ^ 29 - 1" using lim assms(8) by simp
        then obtain st' where st': "setTypeRemove e st ele = Some (st', False)" "set_ok e st'" "set_texts st' = set_texts st" using remove_texts[OF set(5) ele(3)] ele(4) out(2) by auto
        show ?thesis by (rule unchanged[OF one_zero_replies(1) _ _ restore[OF st'(2,3)]]) (use out st'(1) in \<open>simp_all add: run spec del: One_nat_def map_option_eq_Some\<close>)
      next
        case moves
        have "card (set_texts st) \<le> 2 ^ 29 - 1" using lim assms(8) by simp
        then obtain st1 s4 h4 where st1: "setTypeRemove e st ele = Some (st1, True)"
          "(if setTypeSize st1 = 0 then do { (s, _) \<leftarrow> dbDelete e (notifyKeyspaceEvent s3 ''srem'' ?k1) ?k1; Some (notifyKeyspaceEvent s ''del'' ?k1, h(a := None)) }
            else Some (notifyKeyspaceEvent s3 ''srem'' ?k1, h(a \<mapsto> st1))) = Some (s4, h4)" "sets_ok e (s4, h4)"
          "sview e (s4, h4) = (sview e (s, h))(?k1 := if set_texts st = {?t} then None else Some (VSet (set_texts st - {?t}), x))"
          "kmap (ks_db s4) ?k2 = kmap (ks_db s2) ?k2" "xmap (ks_db s4) ?k2 = xmap (ks_db s2) ?k2" "db_size (ks_db s4) \<le> db_size (ks_db s3)" "dom h4 \<subseteq> dom h"
          using smove_source[OF ok3(1) key set(4,5) ele(3) _ _ moves(1)] moves(2) ele(4) s3 ok3(2) by auto
        let ?s5 = "signalModifiedKey (signalModifiedKey s4 ?k1) ?k2"
        let ?s6 = "?s5\<lparr>ks_dirty := ks_dirty ?s5 + 1\<rparr>"
        have db6: "ks_db ?s6 = ks_db s4" by simp
        have ok6: "sets_ok e (?s6, h4)" "sview e (?s6, h4) = sview e (s4, h4)" using st1(3) by (simp_all add: sets_ok_def sview_def ks_ok_def)
        have ne6: "\<not> expired e (ks_db ?s6) ?k2" using s2(2) st1(6) by (simp add: found_def expired_def)
        have rm6: "room (ks_db ?s6)" using assms(5) st1(7) sz by (simp add: room_def db_size_def)
        have fr6: "h4 addr = None" using st1(8) assms(6) by auto
        have sm6: "small_sets n (sview e (?s6, h4))" unfolding ok6(2) st1(4)
          by (rule small_upd[OF assms(7)]) (use lim card_Diff1_le[of "set_texts st" ?t] in \<open>auto split: if_splits\<close>)
        have k26: "sview e (s4, h4) ?k2 = sview e (s, h) ?k2" using st1(4) moves(1) by simp
        have "sview e (?s6, h4) ?k2 \<noteq> Some (VOther c, y)" for c y using ok6(2) k26 False by simp
        from smove_dest_ok[OF ok6(1) ne6 rm6 fr6 ele(3) sm6 assms(8) this, of mx] obtain s' h' where r:
          "smove_dest e mx addr ?s6 h4 ?k2 (kmap (ks_db s2) ?k2) ele = Some (s', h')" "sets_ok e (s', h')"
          "sview e (s', h') = (sview e (s4, h4))(?k2 \<mapsto> (case sview e (s, h) ?k2 of Some (VSet B, y) \<Rightarrow> (VSet (insert ?t B), y) | _ \<Rightarrow> (VSet {?t}, None)))"
          "db_size (ks_db s') \<le> Suc (db_size (ks_db s4))" "dom h' \<subseteq> insert addr (dom h4)"
          unfolding db6 st1(5) ok6(2) k26 ele(4) by blast
        show ?thesis
        proof (rule implements_setsI[where x' = "(s', h')" and t = "int_reply 1"])
          show "set_runs e (smoveCommand :: 'a set_command) mx addr (s, h) argv (s', h') (int_reply 1)"
            by (rule set_runsI[OF one_zero_replies(2), where argv' = "argv[3 := ele]"]) (simp add: run moves(1) st1(1,2) r(1) del: One_nat_def map_option_eq_Some)
        qed (use r(2-5) st1(4,7,8) moves spec sz in auto)
      qed
    qed
  qed
qed

end
