(* ===== verification/Redis_Session.thy ===== *)
theory Redis_Session
  imports Redis_SetCommands Redis_Commands
begin

text \<open>
  Sessions that mix the commands on sets with those on strings, keys and expire times: the rows of the command table for sets,
  the dispatch over both tables, and sequences of calls.

  A command on strings sees a set as a value of another type.  Every such command treats these values as
  opaque (\<open>opaque\<close>: it neither looks into them nor moves or makes any), so what it does on the keyspace with sets is what it does on
  a keyspace in which they are replaced by anything else.

  A name that is neither in this table nor covered by that of \<open>Redis_Commands\<close> (a command of the server that is not
  modelled) makes \<open>dispatch_all\<close> \<open>None\<close>: nothing is stated of it.

  The main result: on a master every sequence of these commands, at times that do not decrease, refines the same sequence on a map from
  keys to strings, finite sets and other values with expire times.
\<close>

section \<open>The code\<close>

definition setCommandTable :: "(string \<times> 'a set_command \<times> int) list" where
  "setCommandTable = [
     (''sadd'', saddCommand, - 3),
     (''srem'', sremCommand, - 3),
     (''smove'', smoveCommand, 4),
     (''sismember'', sismemberCommand, 3),
     (''scard'', scardCommand, 2)]"

definition wrong_count :: "int \<Rightarrow> nat \<Rightarrow> bool" where
  "wrong_count arity argc \<longleftrightarrow> (arity > 0 \<and> arity \<noteq> int argc) \<or> int argc < - arity"

text \<open>The names of the two tables are distinct, so it does not matter that the source has one table.\<close>

definition dispatch_all :: "'a set_command" where
  "dispatch_all e mx addr x c argv = do {
     name \<leftarrow> arg_text argv 0;
     (case List.find (\<lambda>(n, _, _). bytes_of_string n = map tolower name) setCommandTable of
        Some (n, proc, arity) \<Rightarrow>
          if wrong_count arity (length argv)
          then do { c \<leftarrow> addReplyErrorFormat (e_ae_ok e) c (arity_text n); Some (x, c, argv) }
          else proc e mx addr x c argv
      | None \<Rightarrow> do { (s, c, argv) \<leftarrow> dispatch e (fst x) c argv; Some ((s, snd x), c, argv) })
   }"

section \<open>Opaque values\<close>

definition relabel :: "(bytes \<Rightarrow> obj_type \<times> obj_ptr) \<Rightarrow> aview \<Rightarrow> aview" where
  "relabel g m k = (case m k of
      None \<Rightarrow> None
    | Some (AStr t, x) \<Rightarrow> Some (AStr t, x)
    | Some (AOther _ _, x) \<Rightarrow> Some (AOther (fst (g k)) (snd (g k)), x))"

definition opaque :: "(aview \<Rightarrow> aview \<times> bytes) \<Rightarrow> bool" where
  "opaque spec \<longleftrightarrow> (\<forall>g m. spec (relabel g m) = (relabel g (fst (spec m)), snd (spec m))) \<and>
     (\<forall>m k ty p x. fst (spec m) k = Some (AOther ty p, x) \<longrightarrow> (\<exists>y. m k = Some (AOther ty p, y)))"

lemma relabel_none [simp]: "relabel g m k = None \<longleftrightarrow> m k = None"
  by (auto simp: relabel_def split: option.splits content.splits)

lemma relabel_dom [simp]: "dom (relabel g m) = dom m"
  by (simp add: dom_def)

lemma relabel_maps [simp]:
  "relabel g Map.empty = Map.empty" "relabel g (m |` A) = relabel g m |` A" "relabel g (m(k := None)) = (relabel g m)(k := None)"
  "relabel g (m(k \<mapsto> (AStr t, x))) = (relabel g m)(k \<mapsto> (AStr t, x))"
  "relabel g (m(k \<mapsto> (AOther ty p, x))) = (relabel g m)(k \<mapsto> (AOther (fst (g k)) (snd (g k)), x))"
  by (auto simp: relabel_def fun_eq_iff restrict_map_def)

lemma relabel_at:
  "m k = None \<Longrightarrow> relabel g m k = None"
  "m k = Some (AStr t, x) \<Longrightarrow> relabel g m k = Some (AStr t, x)"
  "m k = Some (AOther ty p, x) \<Longrightarrow> relabel g m k = Some (AOther (fst (g k)) (snd (g k)), x)"
  by (simp_all add: relabel_def)

lemma opaqueI:
  "(\<And>g m. spec (relabel g m) = (relabel g (fst (spec m)), snd (spec m))) \<Longrightarrow>
   (\<And>m k ty p x. fst (spec m) k = Some (AOther ty p, x) \<Longrightarrow> \<exists>y. m k = Some (AOther ty p, y)) \<Longrightarrow> opaque spec"
  unfolding opaque_def by blast

text \<open>What a command finds under a key.\<close>

lemma key_cases [case_names absent string other]:
  obtains "m k = None" | t x where "m k = Some (AStr t, x)" | ty p x where "m k = Some (AOther ty p, x)"
  by (metis content.exhaust option.exhaust surj_pair)

lemma opaque_at:
  assumes "\<And>g m. m k = None \<Longrightarrow> spec (relabel g m) = (relabel g (fst (spec m)), snd (spec m))"
    "\<And>g m t x. m k = Some (AStr t, x) \<Longrightarrow> spec (relabel g m) = (relabel g (fst (spec m)), snd (spec m))"
    "\<And>g m ty p x. m k = Some (AOther ty p, x) \<Longrightarrow> spec (relabel g m) = (relabel g (fst (spec m)), snd (spec m))"
    "\<And>m j ty p x. fst (spec m) j = Some (AOther ty p, x) \<Longrightarrow> \<exists>y. m j = Some (AOther ty p, y)"
  shows "opaque spec"
proof (rule opaqueI)
  fix g and m :: aview
  show "spec (relabel g m) = (relabel g (fst (spec m)), snd (spec m))" by (cases rule: key_cases[of m k]) (use assms(1-3) in blast)+
qed (rule assms(4))

lemma opaque_reads:
  "opaque (spec_get k)" "opaque (spec_strlen k)" "opaque (spec_exists ks)" "opaque (spec_mget ks)" "opaque (spec_getrange k i j)" "opaque (spec_ttl now b k)"
  subgoal by (rule opaque_at[of k]) (simp_all add: spec_get_def relabel_at)
  subgoal by (rule opaque_at[of k]) (simp_all add: spec_strlen_def relabel_at)
  subgoal by (rule opaqueI) (simp_all add: spec_exists_def)
  subgoal
  proof (rule opaqueI)
    have "mget_reply (relabel g m) k = mget_reply m k" for g m k
      by (cases rule: key_cases[of m k]) (simp_all add: mget_reply_def relabel_at)
    then show "spec_mget ks (relabel g m) = (relabel g (fst (spec_mget ks m)), snd (spec_mget ks m))" for g m by (simp add: spec_mget_def cong: map_cong)
  qed (simp add: spec_mget_def)
  subgoal by (rule opaque_at[of k]) (simp_all add: spec_getrange_def relabel_at split: option.split)
  subgoal by (rule opaque_at[of k]) (simp_all add: spec_ttl_def relabel_at)
  done

lemma opaque_id: "opaque (\<lambda>m. (m, t))"
  by (rule opaqueI) simp_all

lemma opaque_if: "opaque f \<Longrightarrow> opaque g \<Longrightarrow> opaque (\<lambda>m. if b then f m else g m)"
  by (cases b) simp_all

lemma opaque_option: "opaque f \<Longrightarrow> (\<And>v. opaque (g v)) \<Longrightarrow> opaque (\<lambda>m. case v of None \<Rightarrow> f m | Some v \<Rightarrow> g v m)"
  by (cases v) simp_all

lemma opaque_sum: "(\<And>v. opaque (f v)) \<Longrightarrow> (\<And>v. opaque (g v)) \<Longrightarrow> opaque (\<lambda>m. case v of Inl v \<Rightarrow> f v m | Inr v \<Rightarrow> g v m)"
  by (cases v) simp_all

lemmas opaque_rules = opaque_id opaque_if opaque_option opaque_sum

lemma kept_at:
  assumes "\<And>j. j \<noteq> k \<Longrightarrow> m' j = m j" "m' k = m k \<or> (\<forall>ty p y. m' k \<noteq> Some (AOther ty p, y))" "m' j = Some (AOther ty p, x)"
  shows "\<exists>y. m j = Some (AOther ty p, y)"
  using assms by (metis)

lemma opaque_getset: "opaque (spec_getset k t)"
proof (rule opaque_at[of k])
  fix m j ty p x assume "fst (spec_getset k t m) j = Some (AOther ty p, x)"
  then show "\<exists>y. m j = Some (AOther ty p, y)" by (rule kept_at[of k, rotated 2]; cases rule: key_cases[of m k]) (simp_all add: spec_getset_def)
qed (simp_all add: spec_getset_def spec_get_def relabel_at)

lemma opaque_append: "opaque (spec_append k t)"
proof (rule opaque_at[of k])
  fix m j ty p x assume "fst (spec_append k t m) j = Some (AOther ty p, x)"
  then show "\<exists>y. m j = Some (AOther ty p, y)" by (rule kept_at[of k, rotated 2]; cases rule: key_cases[of m k]) (simp_all add: spec_append_def)
qed (simp_all add: spec_append_def relabel_at)

lemma opaque_incr: "opaque (spec_incr k d)"
proof (rule opaque_at[of k])
  fix m j ty p x assume "fst (spec_incr k d m) j = Some (AOther ty p, x)"
  then show "\<exists>y. m j = Some (AOther ty p, y)" by (rule kept_at[of k, rotated 2]; cases rule: key_cases[of m k]) (simp_all add: spec_incr_def Let_def split: option.split)
qed (simp_all add: spec_incr_def relabel_at Let_def split: option.split)

lemma opaque_setrange: "opaque (spec_setrange k i t)"
proof (rule opaque_at[of k])
  fix m j ty p x assume "fst (spec_setrange k i t m) j = Some (AOther ty p, x)"
  then show "\<exists>y. m j = Some (AOther ty p, y)"
    by (rule kept_at[of k, rotated 2]; cases "text_ll i"; cases rule: key_cases[of m k]) (simp_all add: spec_setrange_def Let_def)
qed (cases "text_ll i"; simp add: spec_setrange_def relabel_at Let_def)+

lemma opaque_set: "opaque (spec_set now n nx xx k t ex un r1 r2)"
proof -
  have "opaque (\<lambda>m. if (nx \<and> m k \<noteq> None) \<or> (xx \<and> m k = None) then (m, r2) else (m(k := entry now t x), r1))" for x
    by (rule opaque_at[of k]) (auto simp: entry_def relabel_at split: if_splits)
  then show ?thesis unfolding spec_set_def[abs_def] by (intro opaque_rules)
qed

lemma opaque_expire: "opaque (spec_expire now base un k i)"
proof (rule opaque_at[of k])
  fix m j ty p x assume "fst (spec_expire now base un k i m) j = Some (AOther ty p, x)"
  then show "\<exists>y. m j = Some (AOther ty p, y)"
    by (cases "text_ll i"; cases rule: key_cases[of m k]) (auto simp: spec_expire_def Let_def split: if_splits)
qed (cases "text_ll i"; simp add: spec_expire_def relabel_at Let_def)+

lemma opaque_removes: "opaque (spec_del ks)" "opaque spec_flushdb"
  subgoal by (rule opaqueI) (simp_all add: spec_del_def restrict_map_def split: if_splits del: relabel_maps, simp add: relabel_def fun_eq_iff)
  subgoal by (rule opaqueI) (auto simp: spec_flushdb_def)
  done

lemmas opaque_writes = opaque_getset opaque_append opaque_incr opaque_setrange opaque_set opaque_expire opaque_removes

lemma opaque_options: "opaque (spec_incrby k i)" "opaque (spec_decrby k i)" "opaque (spec_setcmd now k t opts)"
  unfolding spec_incrby_def[abs_def] spec_decrby_def[abs_def] spec_setcmd_def[abs_def]
  by (intro opaque_rules opaque_writes; simp add: opaque_writes case_prod_beta)+

lemma opaque_command: "opaque (spec_command now a)"
proof (cases "List.find (\<lambda>(n, _, _). bytes_of_string n = map tolower (hd a)) (spec_table now)")
  case None
  then show ?thesis using opaque_id by (simp add: spec_command_def[abs_def])
next
  case (Some x)
  have "list_all (\<lambda>(n, k, f). opaque (f a)) (spec_table now)" by (simp add: spec_table_def opaque_reads opaque_writes opaque_options)
  then have "(\<lambda>(n, k, f). opaque (f a)) x" using Some by (auto simp: find_Some_iff list_all_length)
  then show ?thesis using Some opaque_rules(1,2) by (cases x) (simp add: spec_command_def[abs_def])
qed

section \<open>The commands on strings beside sets\<close>

definition hide :: "sview \<Rightarrow> aview" where
  "hide m k = map_option (\<lambda>(v, x). (case v of VSet _ \<Rightarrow> AOther REDIS_SET (PContainer 0) | VOther c \<Rightarrow> c, x)) (m k)"

text \<open>A command on strings, on a map with sets.\<close>

definition on_sets :: "(aview \<Rightarrow> aview \<times> bytes) \<Rightarrow> sview \<Rightarrow> sview \<times> bytes" where
  "on_sets spec m = (let (m', t) = spec (hide m) in
     (\<lambda>k. case m' k of
           None \<Rightarrow> None
         | Some (AStr u, x) \<Rightarrow> Some (VOther (AStr u), x)
         | Some (AOther _ _, x) \<Rightarrow> map_option (\<lambda>(v, _). (v, x)) (m k), t))"

lemma hide_relabel: "\<exists>g. hide (absv m h) = relabel g m"
proof (intro exI ext)
  fix k
  let ?g = "\<lambda>k. case m k of Some (AOther ty p, _) \<Rightarrow> (case value_of h (AOther ty p) of VSet _ \<Rightarrow> (REDIS_SET, PContainer 0) | VOther _ \<Rightarrow> (ty, p)) | _ \<Rightarrow> (REDIS_SET, PContainer 0)"
  show "hide (absv m h) k = relabel ?g m k"
  proof (cases rule: key_cases[of m k])
    case (other ty p x)
    have "value_of h (AOther ty p) = VOther (AOther ty p) \<or> (\<exists>A. value_of h (AOther ty p) = VSet A)"
      by (cases "(h, AOther ty p)" rule: value_of.cases) (auto split: option.splits)
    then show ?thesis using other by (auto simp: hide_def absv_def relabel_def)
  qed (simp_all add: hide_def absv_def relabel_def)
qed

lemma on_sets_absv:
  assumes "opaque spec"
  shows "on_sets spec (absv m h) = (absv (fst (spec m)) h, snd (spec m))"
proof -
  obtain g where g: "hide (absv m h) = relabel g m" using hide_relabel by blast
  have s: "spec (relabel g m) = (relabel g (fst (spec m)), snd (spec m))" using assms by (simp add: opaque_def)
  have "(case relabel g (fst (spec m)) k of None \<Rightarrow> None | Some (AStr u, x) \<Rightarrow> Some (VOther (AStr u), x)
      | Some (AOther _ _, x) \<Rightarrow> map_option (\<lambda>(v, _). (v, x)) (absv m h k)) = absv (fst (spec m)) h k" for k
  proof (cases rule: key_cases[of "fst (spec m)" k])
    case (other ty p x)
    then obtain y where "m k = Some (AOther ty p, y)" using assms unfolding opaque_def by blast
    then show ?thesis using other by (simp add: relabel_at absv_def)
  qed (simp_all add: relabel_at absv_def)
  then show ?thesis by (simp add: on_sets_def g s)
qed

lemma opaque_heap:
  assumes "opaque spec" "heap_ok e m h"
  shows "heap_ok e (fst (spec m)) h"
proof -
  have keep: "\<exists>y. m k = Some (AOther ty p, y)" if "fst (spec m) k = Some (AOther ty p, x)" for k ty p x using assms(1) that unfolding opaque_def by blast
  show ?thesis unfolding heap_ok_def
  proof (intro conjI allI impI)
    fix k p x assume "fst (spec m) k = Some (AOther REDIS_SET p, x)"
    then obtain y where "m k = Some (AOther REDIS_SET p, y)" using keep by blast
    then show "\<exists>a st. p = PContainer a \<and> h a = Some st \<and> set_ok e st \<and> set_texts st \<noteq> {}" using assms(2) unfolding heap_ok_def by blast
  next
    fix k k' p x x' assume "fst (spec m) k = Some (AOther REDIS_SET p, x)" "fst (spec m) k' = Some (AOther REDIS_SET p, x')"
    then obtain y y' where "m k = Some (AOther REDIS_SET p, y)" "m k' = Some (AOther REDIS_SET p, y')" using keep by meson
    then show "k = k'" using assms(2) unfolding heap_ok_def by blast
  qed
qed

lemma implements_on_sets:
  assumes "sets_ok e (s, h)" "implements e cmd s argv spec" "opaque spec"
    "\<And>c. cmd' e mx addr (s, h) c argv = do { (s, c, argv) \<leftarrow> cmd e s c argv; Some ((s, h), c, argv) }"
  shows "implements_sets e cmd' mx addr (s, h) argv (on_sets spec)"
proof -
  let ?m = "view e (ks_db s)"
  obtain s' argv' where s': "runs e cmd s argv s' argv' (snd (spec ?m))" "ks_ok e s'" "view e (ks_db s') = fst (spec ?m)" "db_size (ks_db s') \<le> Suc (db_size (ks_db s))"
    using assms(2) unfolding implements_def by blast
  obtain g where g: "replies (e_junk e) (e_clk e) (e_ae_ok e) g (snd (spec ?m))" "\<And>c. cmd e s c argv = do { c \<leftarrow> g c; Some (s', c, argv') }"
    using s'(1) unfolding runs_def by blast
  have a: "on_sets spec (sview e (s, h)) = (absv (fst (spec ?m)) h, snd (spec ?m))" using on_sets_absv[OF assms(3)] by (simp add: sview_def)
  show ?thesis
  proof (rule implements_setsI[where x' = "(s', h)" and spec = "on_sets spec", OF _ a])
    show "set_runs e cmd' mx addr (s, h) argv (s', h) (snd (spec ?m))"
      by (rule set_runsI[OF g(1), where argv' = argv']) (simp add: assms(4) g(2) Option.bind_assoc)
    show "sets_ok e (s', h)" using assms(1) s'(2,3) opaque_heap[OF assms(3)] by (simp add: sets_ok_def)
    show "sview e (s', h) = absv (fst (spec ?m)) h" using s'(3) by (simp add: sview_def)
  qed (use s'(4) in auto)
qed

section \<open>The meaning of every command\<close>

definition spec_set_table :: "(string \<times> int \<times> (bytes list \<Rightarrow> sview \<Rightarrow> sview \<times> bytes)) list" where
  "spec_set_table = [
     (''sadd'', - 3, \<lambda>a. spec_sadd (a ! 1) (drop 2 a)),
     (''srem'', - 3, \<lambda>a. spec_srem (a ! 1) (drop 2 a)),
     (''smove'', 4, \<lambda>a. spec_smove (a ! 1) (a ! 2) (a ! 3)),
     (''sismember'', 3, \<lambda>a. spec_sismember (a ! 1) (a ! 2)),
     (''scard'', 2, \<lambda>a. spec_scard (a ! 1))]"

definition spec_all :: "64 word \<Rightarrow> bytes list \<Rightarrow> sview \<Rightarrow> sview \<times> bytes" where
  "spec_all now a m =
     (case List.find (\<lambda>(n, _, _). bytes_of_string n = map tolower (hd a)) spec_set_table of
        Some (n, k, f) \<Rightarrow> if wrong_count k (length a) then (m, err (arity_text n)) else f a m
      | None \<Rightarrow> on_sets (spec_command now a) m)"

definition set_entry_ok :: "server_env \<Rightarrow> nat \<Rightarrow> nat \<Rightarrow> keyspace \<times> sets \<Rightarrow> robj list \<Rightarrow> string \<times> 'a set_command \<times> int \<Rightarrow> string \<times> int \<times> (bytes list \<Rightarrow> sview \<Rightarrow> sview \<times> bytes) \<Rightarrow> bool" where
  "set_entry_ok e mx addr x argv c d \<longleftrightarrow> (case (c, d) of ((n, proc, arity), (n', k, f)) \<Rightarrow> n = n' \<and> arity = k \<and>
     (\<not> wrong_count arity (length argv) \<longrightarrow> implements_sets e proc mx addr x argv (f (map obj_text argv))))"

lemma set_table_ok:
  assumes "sets_ok e (s, h)" "master e" "list_all plain argv" "room (ks_db s)" "h addr = None" "small_sets n (sview e (s, h))" "n + length argv \<le> 2 ^ 29 - 1"
  shows "list_all2 (set_entry_ok e mx addr (s, h) argv) (setCommandTable :: (string \<times> 'a set_command \<times> int) list) spec_set_table"
proof -
  have len: "\<not> wrong_count (- 3) (length argv) \<longleftrightarrow> 2 < length argv" "\<not> wrong_count 4 (length argv) \<longleftrightarrow> length argv = 4"
    "\<not> wrong_count 3 (length argv) \<longleftrightarrow> length argv = 3" "\<not> wrong_count 2 (length argv) \<longleftrightarrow> length argv = 2" by (auto simp: wrong_count_def)
  note sadd = sadd_implements[OF assms(1-3) _ assms(4-7), of mx] and srem = srem_implements[OF assms(1-3) _ assms(6,7), of mx addr]
    and smove = smove_implements[OF assms(1-3) _ assms(4-6), of mx] and sism = sismember_implements[OF assms(1-3), of mx addr]
    and scard = scard_implements[OF assms(1-3) _ assms(6), of mx addr]
  show ?thesis unfolding setCommandTable_def spec_set_table_def
    using assms(7) by (simp add: set_entry_ok_def len nth_map drop_map sadd srem smove sism scard del: One_nat_def)
qed

text \<open>The calls covered: those of \<open>Redis_Commands\<close> and of the table for sets.\<close>

definition set_names :: "string list" where
  "set_names = map fst spec_set_table"

definition supported_all :: "bytes list \<Rightarrow> bool" where
  "supported_all a \<longleftrightarrow> supported_by (key_names @ set_names) a \<and> map tolower (hd a) \<noteq> bytes_of_string ''quit''"

lemma supported_all_ne: "supported_all a \<Longrightarrow> a \<noteq> []"
  by (simp add: supported_all_def supported_by_def)

lemma supported_rest: "supported_all a \<Longrightarrow> \<not> named set_names (hd a) \<Longrightarrow> supported a"
  by (auto simp: supported_all_def supported_def supported_by_def covered_def)

lemma set_rows: "map fst (setCommandTable :: (string \<times> 'a set_command \<times> int) list) = set_names"
  by (simp add: setCommandTable_def set_names_def spec_set_table_def)

lemma dispatch_all_implements:
  assumes "sets_ok e (s, h)" "master e" "list_all plain argv" "supported_all (map obj_text argv)" "db_size (ks_db s) < 2 ^ 30" "h addr = None"
    "small_sets n (sview e (s, h))" "n + length argv \<le> 2 ^ 29 - 1"
  shows "implements_sets e (dispatch_all :: 'a set_command) mx addr (s, h) argv (spec_all (e_now e) (map obj_text argv))"
proof -
  have ks: "ks_ok e s" and room: "room (ks_db s)" using assms(1,5) by (simp_all add: sets_ok_def room_def db_size_def)
  have ne: "argv \<noteq> []" using supported_all_ne[OF assms(4)] by simp
  let ?name = "hd (map obj_text argv)"
  let ?P = "\<lambda>(n, _ :: 'a set_command, _ :: int). bytes_of_string n = map tolower ?name"
  let ?Q = "\<lambda>(n, _ :: int, _ :: bytes list \<Rightarrow> sview \<Rightarrow> sview \<times> bytes). bytes_of_string n = map tolower ?name"
  have at: "arg_text argv 0 = Some ?name" using arg_text_ok[OF assms(3), of 0] ne by (simp add: hd_map hd_conv_nth)
  have rel: "rel_option (set_entry_ok e mx addr (s, h) argv) (List.find ?P setCommandTable) (List.find ?Q spec_set_table)"
    by (rule find_rel[OF set_table_ok[OF assms(1-3) room assms(6-8)]]) (auto simp: set_entry_ok_def)
  show ?thesis
  proof (cases "List.find ?P setCommandTable")
    case None
    then have "\<forall>x\<in>set (setCommandTable :: (string \<times> 'a set_command \<times> int) list). bytes_of_string (fst x) \<noteq> map tolower ?name"
      unfolding find_None_iff by fastforce
    then have "\<not> named set_names ?name" unfolding set_rows[where 'a = 'a, symmetric] by (auto simp: named_def list_ex_iff)
    then have sup: "supported (map obj_text argv)" by (rule supported_rest[OF assms(4)])
    have s: "spec_all (e_now e) (map obj_text argv) = on_sets (spec_command (e_now e) (map obj_text argv))" using rel None by (auto simp: spec_all_def fun_eq_iff)
    show ?thesis unfolding s
      by (rule implements_on_sets[OF assms(1) dispatch_implements[OF ks assms(2,3) sup assms(5)] opaque_command]) (use None in \<open>simp add: dispatch_all_def at\<close>)
  next
    case (Some c)
    obtain nm p k where c: "c = (nm, p, k)" by (cases c)
    obtain f where f: "List.find ?Q spec_set_table = Some (nm, k, f)" "\<not> wrong_count k (length argv) \<Longrightarrow> implements_sets e p mx addr (s, h) argv (f (map obj_text argv))"
      using rel Some c by (auto simp: option_rel_Some1 set_entry_ok_def)
    show ?thesis
    proof (cases "wrong_count k (length argv)")
      case True
      show ?thesis
      proof (rule implements_setsI[where x' = "(s, h)" and t = "err (arity_text nm)"])
        show "set_runs e (dispatch_all :: 'a set_command) mx addr (s, h) argv (s, h) (err (arity_text nm))"
          by (rule set_runsI[OF format_replies]) (use Some c True in \<open>simp add: dispatch_all_def at\<close>)
      qed (use f(1) True assms(1) in \<open>auto simp: spec_all_def\<close>)
    next
      case False
      have "dispatch_all e mx addr (s, h) cl argv = p e mx addr (s, h) cl argv" for cl using Some c False by (simp add: dispatch_all_def at)
      moreover have "spec_all (e_now e) (map obj_text argv) = f (map obj_text argv)" using f(1) False by (simp add: spec_all_def fun_eq_iff)
      ultimately show ?thesis using f(2)[OF False] by (simp add: implements_sets_def set_runs_def)
    qed
  qed
qed

section \<open>How large the sets become\<close>

lemma small_mono: "small_sets n m \<Longrightarrow> n \<le> n' \<Longrightarrow> small_sets n' m"
  by (fastforce simp: small_sets_def)

lemma small_on_sets: "small_sets n m \<Longrightarrow> small_sets n (fst (on_sets spec m))"
  by (fastforce simp: small_sets_def on_sets_def Let_def split: option.splits content.splits prod.splits)

lemma card_added: "card (A \<union> set ts) \<le> card A + length ts"
  using card_Un_le[of A "set ts"] card_length[of ts] by linarith

lemma card_removed: "card (A - set ts) \<le> card A"
  by (cases "finite A") (simp_all add: card_mono)

lemma small_set_specs:
  assumes "small_sets n m"
  shows "small_sets (n + length ts) (fst (spec_sadd k ts m))" "small_sets n (fst (spec_srem k ts m))" "small_sets (Suc n) (fst (spec_smove k k2 t m))"
    "small_sets n (fst (spec_sismember k t m))" "small_sets n (fst (spec_scard k m))"
proof -
  have n: "small_sets (n + j) m" for j using small_mono[OF assms] by simp
  have c: "card A \<le> n" if "m k = Some (VSet A, x)" for k A x by (rule small_card[OF assms that])
  show "small_sets (n + length ts) (fst (spec_sadd k ts m))"
  proof (cases "\<exists>A x. m k = Some (VSet A, x)")
    case True
    then obtain A x where A: "m k = Some (VSet A, x)" by blast
    have "card (A \<union> set ts) \<le> n + length ts" using card_added[of A ts] c[OF A] by simp
    then show ?thesis using A by (auto simp: spec_sadd_def intro!: small_upd[OF n])
  next
    case False
    then show ?thesis using n[of "length ts"] card_length[of ts] by (auto simp: spec_sadd_def intro!: small_upd[OF n] split: option.splits avalue.splits)
  qed
  show "small_sets n (fst (spec_srem k ts m))"
  proof (cases "\<exists>A x. m k = Some (VSet A, x)")
    case True
    then obtain A x where A: "m k = Some (VSet A, x)" by blast
    have "card (A - set ts) \<le> n" using card_removed[of A ts] c[OF A] by simp
    then show ?thesis using A assms by (auto simp: spec_srem_def intro!: small_upd split: if_splits)
  next
    case False
    then show ?thesis using assms by (auto simp: spec_srem_def split: option.splits avalue.splits)
  qed
  show "small_sets (Suc n) (fst (spec_smove k k2 t m))"
  proof -
    have d: "card (A - {t}) \<le> Suc n" if "m k = Some (VSet A, x)" for A x using card_removed[of A "[t]"] c[OF that] by simp
    have i: "card (insert t A) \<le> Suc n" if "m k2 = Some (VSet A, x)" for A x using card_added[of A "[t]"] c[OF that] by simp
    show ?thesis using n[of 1] d i
      by (auto simp: spec_smove_def intro!: small_upd split: option.splits avalue.splits if_splits)
  qed
qed (use assms in \<open>simp_all add: spec_sismember_def spec_scard_def\<close>)

lemma small_all: "small_sets n m \<Longrightarrow> a \<noteq> [] \<Longrightarrow> small_sets (n + length a) (fst (spec_all now a m))"
proof -
  assume s: "small_sets n m" and ne: "a \<noteq> []"
  have m: "small_sets (n + length a) m" and u: "small_sets (Suc n) x \<Longrightarrow> small_sets (n + length a) x" "small_sets n x \<Longrightarrow> small_sets (n + length a) x"
    "small_sets (n + length (drop 2 a)) x \<Longrightarrow> small_sets (n + length a) x" for x
    using s ne by (auto intro: small_mono simp: Suc_le_eq)
  have t: "list_all (\<lambda>(n', k, f). small_sets (n + length a) (fst (f a m))) spec_set_table"
    by (simp add: spec_set_table_def u(1)[OF small_set_specs(3)[OF s]] u(2)[OF small_set_specs(2)[OF s]] u(2)[OF small_set_specs(4)[OF s]] u(2)[OF small_set_specs(5)[OF s]]
        u(3)[OF small_set_specs(1)[OF s]])
  show "small_sets (n + length a) (fst (spec_all now a m))"
  proof (cases "List.find (\<lambda>(n, _, _). bytes_of_string n = map tolower (hd a)) spec_set_table")
    case None
    then show ?thesis using small_on_sets[OF m] by (simp add: spec_all_def)
  next
    case (Some x)
    then have "(\<lambda>(n', k, f). small_sets (n + length a) (fst (f a m))) x" using t by (auto simp: find_Some_iff list_all_length)
    then show ?thesis using Some m by (cases x) (simp add: spec_all_def)
  qed
qed

section \<open>Sequences of calls\<close>

definition later_sets :: "64 word \<Rightarrow> sview \<Rightarrow> sview" where
  "later_sets now m k = (case m k of Some (v, x) \<Rightarrow> if past now x then None else Some (v, x) | None \<Rightarrow> None)"

text \<open>A call: its environment, the configured limit for integer sets, the address a new set would get, and the arguments.\<close>

type_synonym call = "server_env \<times> nat \<times> nat \<times> robj list"

fun run_all :: "keyspace \<times> sets \<Rightarrow> 'a out_client_scheme \<Rightarrow> call list \<Rightarrow> ((keyspace \<times> sets) \<times> 'a out_client_scheme) option" where
  "run_all x c [] = Some (x, c)"
| "run_all x c ((e, mx, addr, argv) # calls) = do { (x, c, _) \<leftarrow> dispatch_all e mx addr x c argv; run_all x c calls }"

fun run_all_spec :: "sview \<Rightarrow> (64 word \<times> bytes list) list \<Rightarrow> sview \<times> bytes" where
  "run_all_spec m [] = (m, [])"
| "run_all_spec m ((now, a) # calls) = (let (m, t) = spec_all now a (later_sets now m); (m, u) = run_all_spec m calls in (m, t @ u))"

definition all_call :: "call \<Rightarrow> 64 word \<times> bytes list" where
  "all_call x = (case x of (e, _, _, argv) \<Rightarrow> (e_now e, map obj_text argv))"

text \<open>The environments of the calls, and fresh addresses: \<open>used\<close> are those of the sets there are.\<close>

fun all_calls_ok :: "32 word \<Rightarrow> 64 word \<Rightarrow> nat set \<Rightarrow> call list \<Rightarrow> bool" where
  "all_calls_ok seed now used [] = True"
| "all_calls_ok seed now used ((e, mx, addr, argv) # calls) \<longleftrightarrow> e_seed e = seed \<and> sint now \<le> sint (e_now e) \<and> master e \<and> e_ae_ok e \<and> list_all plain argv \<and>
     supported_all (map obj_text argv) \<and> addr \<notin> used \<and> all_calls_ok seed (e_now e) (insert addr used) calls"

definition arguments :: "call list \<Rightarrow> nat" where
  "arguments calls = (\<Sum>(e, mx, addr, argv)\<leftarrow>calls. length argv)"

lemma calls_mono: "all_calls_ok seed now used calls \<Longrightarrow> used' \<subseteq> used \<Longrightarrow> all_calls_ok seed now used' calls"
proof (induction seed now used calls arbitrary: used' rule: all_calls_ok.induct)
  case (2 seed now used e mx addr argv calls)
  have "insert addr used' \<subseteq> insert addr used" using 2(3) by blast
  then show ?case using 2 by auto
qed simp

lemma sets_later:
  assumes "sets_ok e x" "e_seed e' = e_seed e" "sint (e_now e) \<le> sint (e_now e')"
  shows "sets_ok e' x" "sview e' x = later_sets (e_now e') (sview e x)"
proof -
  let ?m = "view e (ks_db (fst x))" and ?m' = "view e' (ks_db (fst x))"
  have v: "?m' = later (e_now e') ?m" by (rule view_later[OF assms(3)])
  have sub: "?m' k = Some y \<Longrightarrow> ?m k = Some y" for k y unfolding v by (auto simp: later_def split: option.splits if_splits)
  have so: "set_ok e' st = set_ok e st" for st using assms(2) by (simp add: set_ok_def members_ok_def split: set_ptr.split)
  have "heap_ok e ?m (snd x)" using assms(1) by (simp add: sets_ok_def)
  then have "heap_ok e' ?m' (snd x)" unfolding heap_ok_def so using sub by meson
  then show "sets_ok e' x" using assms(1) ks_ok_seed[OF assms(2)] by (simp add: sets_ok_def)
  show "sview e' x = later_sets (e_now e') (sview e x)"
    unfolding sview_def v by (auto simp: absv_def later_def later_sets_def fun_eq_iff split: option.splits)
qed

lemma small_later: "small_sets n m \<Longrightarrow> small_sets n (later_sets now m)"
  by (auto simp: small_sets_def later_sets_def split: option.splits if_splits)

lemma set_runs_writes:
  assumes "set_runs e cmd mx addr x argv x' t" "out_ok c" "writes (e_ae_ok e) c"
  shows "\<exists>c' argv'. cmd e mx addr x c argv = Some (x', c', argv') \<and> out_ok c' \<and> writes (e_ae_ok e) c' \<and> queued c' = queued c @ t"
proof -
  obtain g argv' where g: "replies (e_junk e) (e_clk e) (e_ae_ok e) g t" "\<And>c. cmd e mx addr x c argv = do { c \<leftarrow> g c; Some (x', c, argv') }"
    using assms(1) unfolding set_runs_def by blast
  show ?thesis using replies_out[OF g(1) assms(2)] assms(3) g(2) by auto
qed

lemma run_all_refines:
  assumes "sets_ok e0 x" "all_calls_ok (e_seed e0) (e_now e0) (dom (snd x)) calls" "out_ok c" "writes True c"
    "db_size (ks_db (fst x)) + length calls \<le> 2 ^ 30" "small_sets n (sview e0 x)" "n + arguments calls \<le> 2 ^ 29 - 1"
  shows "\<exists>x' c'. run_all x c calls = Some (x', c') \<and> out_ok c' \<and> queued c' = queued c @ snd (run_all_spec (sview e0 x) (map all_call calls)) \<and>
    sets_ok (fst (last ((e0, 0, 0, []) # calls))) x' \<and> sview (fst (last ((e0, 0, 0, []) # calls))) x' = fst (run_all_spec (sview e0 x) (map all_call calls))"
  using assms
proof (induction calls arbitrary: e0 x c n)
  case (Cons call calls)
  obtain e mx addr argv where call: "call = (e, mx, addr, argv)" by (cases call)
  have p: "e_seed e = e_seed e0" "sint (e_now e0) \<le> sint (e_now e)" "master e" "e_ae_ok e" "list_all plain argv" "supported_all (map obj_text argv)" "addr \<notin> dom (snd x)"
    "all_calls_ok (e_seed e) (e_now e) (insert addr (dom (snd x))) calls" using Cons.prems(2) call by auto
  note l = sets_later[OF Cons.prems(1) p(1,2)]
  have sm: "small_sets n (sview e x)" unfolding l(2) by (rule small_later[OF Cons.prems(6)])
  have ar: "n + length argv \<le> 2 ^ 29 - 1" "n + length argv + arguments calls \<le> 2 ^ 29 - 1" using Cons.prems(7) call by (simp_all add: arguments_def)
  let ?spec = "spec_all (e_now e) (map obj_text argv) (sview e x)"
  have "implements_sets e (dispatch_all :: 'a set_command) mx addr (fst x, snd x) argv (spec_all (e_now e) (map obj_text argv))"
    by (rule dispatch_all_implements[where n = n]) (use l(1) p(3,5-7) sm ar(1) Cons.prems(5) in auto)
  then obtain x1 where x1: "set_runs e (dispatch_all :: 'a set_command) mx addr x argv x1 (snd ?spec)" "sets_ok e x1" "sview e x1 = fst ?spec"
    "db_size (ks_db (fst x1)) \<le> Suc (db_size (ks_db (fst x)))" "dom (snd x1) \<subseteq> insert addr (dom (snd x))" unfolding implements_sets_def by auto
  obtain c1 argv1 where c1: "dispatch_all e mx addr x c argv = Some (x1, c1, argv1)" "out_ok c1" "writes True c1" "queued c1 = queued c @ snd ?spec"
    using set_runs_writes[OF x1(1) Cons.prems(3)] p(4) Cons.prems(4) by auto
  have sm1: "small_sets (n + length argv) (sview e x1)" unfolding x1(3) using small_all[OF sm, of "map obj_text argv"] supported_all_ne[OF p(6)] by simp
  have ok1: "all_calls_ok (e_seed e) (e_now e) (dom (snd x1)) calls" by (rule calls_mono[OF p(8) x1(5)])
  obtain x' c' where "run_all x1 c1 calls = Some (x', c')" "out_ok c'" "queued c' = queued c1 @ snd (run_all_spec (sview e x1) (map all_call calls))"
    "sets_ok (fst (last ((e, 0, 0, []) # calls))) x'" "sview (fst (last ((e, 0, 0, []) # calls))) x' = fst (run_all_spec (sview e x1) (map all_call calls))"
    using Cons.IH[OF x1(2) ok1 c1(2,3) _ sm1 ar(2)] x1(4) Cons.prems(5) by auto
  moreover have "run_all_spec (sview e0 x) (map all_call (call # calls)) =
      (fst (run_all_spec (fst ?spec) (map all_call calls)), snd ?spec @ snd (run_all_spec (fst ?spec) (map all_call calls)))"
    by (simp add: call all_call_def l(2) split_beta Let_def)
  ultimately show ?case using c1 x1(3) call by (cases calls) auto
qed simp

lemma no_empty_set: "sets_ok e x \<Longrightarrow> sview e x k \<noteq> Some (VSet {}, y)"
proof
  assume ok: "sets_ok e x" and "sview e x k = Some (VSet {}, y)"
  then obtain c where c: "view e (ks_db (fst x)) k = Some (c, y)" "value_of (snd x) c = VSet {}" by (auto simp: sview_def absv_def)
  then obtain a where "c = AOther REDIS_SET (PContainer a)" by (cases "(snd x, c)" rule: value_of.cases) auto
  then obtain st where "snd x a = Some st" "set_texts st \<noteq> {}" using c(1) ok unfolding sets_ok_def heap_ok_def by blast
  then show False using c(2) \<open>c = _\<close> by simp
qed

section \<open>Properties\<close>

text \<open>A session: the second addition converts the integer set, the string command meets a value of the wrong type, the last member of
  the second set is removed and its key with it.\<close>

definition sample_session :: "(64 word \<times> bytes list) list" where
  "sample_session = [
     (1, [bytes_of_string ''SADD'', [107], [50], [51]]), (2, [bytes_of_string ''sadd'', [107], [97], [50]]), (3, [bytes_of_string ''Get'', [107]]),
     (4, [bytes_of_string ''smove'', [107], [106], [97]]), (5, [bytes_of_string ''srem'', [106], [97]]), (6, [bytes_of_string ''Exists'', [106], [107]])]"

definition session_calls :: "call list" where
  "session_calls = map (\<lambda>(addr, now, a). (sample_env now, 512, addr, map str_obj a)) (zip [0..<6] sample_session)"

lemma session_lookup:
  "spec_all now [bytes_of_string ''SADD'', k, t, u] = spec_sadd k [t, u]" "spec_all now [bytes_of_string ''sadd'', k, t, u] = spec_sadd k [t, u]"
  "spec_all now [bytes_of_string ''smove'', k, t, u] = spec_smove k t u" "spec_all now [bytes_of_string ''srem'', k, t] = spec_srem k [t]"
  "spec_all now [bytes_of_string ''Get'', k] = on_sets (spec_get k)" "spec_all now [bytes_of_string ''Exists'', k, t] = on_sets (spec_exists [k, t])"
  by (simp_all add: fun_eq_iff spec_all_def spec_set_table_def spec_command_def[abs_def] spec_table_def bytes_of_string_def tolower_def wrong_count_def)

lemma session_names:
  "supported_all [bytes_of_string ''SADD'', a, b, c]" "supported_all [bytes_of_string ''sadd'', a, b, c]" "supported_all [bytes_of_string ''Get'', a]"
  "supported_all [bytes_of_string ''smove'', a, b, c]" "supported_all [bytes_of_string ''srem'', a, b]" "supported_all [bytes_of_string ''Exists'', a, b]"
proof -
  have n: "covered (key_names @ set_names) (bytes_of_string n)"
    if "n \<in> set [''SADD'', ''sadd'', ''Get'', ''smove'', ''srem'', ''Exists'']" for n
    using that by (auto simp: covered_def named_def key_names_def spec_table_def set_names_def spec_set_table_def bytes_of_string_def tolower_def)
  have r: "map tolower (bytes_of_string n) \<noteq> bytes_of_string ''setrange'' \<and> map tolower (bytes_of_string n) \<noteq> bytes_of_string ''quit''"
    if "n \<in> set [''SADD'', ''sadd'', ''Get'', ''smove'', ''srem'', ''Exists'']" for n
    using that by (auto simp: bytes_of_string_def tolower_def)
  show "supported_all [bytes_of_string ''SADD'', a, b, c]" "supported_all [bytes_of_string ''sadd'', a, b, c]" "supported_all [bytes_of_string ''Get'', a]"
    "supported_all [bytes_of_string ''smove'', a, b, c]" "supported_all [bytes_of_string ''srem'', a, b]" "supported_all [bytes_of_string ''Exists'', a, b]"
    using n r by (simp_all add: supported_all_def supported_by_def)
qed

lemma later_sets_simps [simp]:
  "later_sets now Map.empty = Map.empty" "later_sets now (m(k \<mapsto> (v, None))) = (later_sets now m)(k \<mapsto> (v, None))"
  by (auto simp: later_sets_def past_def fun_eq_iff)

lemma session_replies:
  "run_all_spec Map.empty sample_session =
     ([[107] \<mapsto> (VSet {[50], [51]}, None)], int_reply 2 @ int_reply 1 @ wrongtype @ int_reply 1 @ int_reply 1 @ int_reply 1)"
proof -
  let ?A = "{[50], [51]} :: bytes set"
  have "spec_sadd [107] [[50], [51]] Map.empty = ([[107] \<mapsto> (VSet ?A, None)], int_reply 2)" by (simp add: spec_sadd_def)
  moreover have "spec_sadd [107] [[97], [50]] [[107] \<mapsto> (VSet ?A, None)] = ([[107] \<mapsto> (VSet (insert [97] ?A), None)], int_reply 1)"
    by (simp add: spec_sadd_def insert_commute Un_commute insert_Diff_if)
  moreover have "on_sets (spec_get [107]) [[107] \<mapsto> (VSet (insert [97] ?A), None)] = ([[107] \<mapsto> (VSet (insert [97] ?A), None)], wrongtype)"
    by (simp add: on_sets_def spec_get_def hide_def fun_eq_iff)
  moreover have "spec_smove [107] [106] [97] [[107] \<mapsto> (VSet (insert [97] ?A), None)] = ([[107] \<mapsto> (VSet ?A, None), [106] \<mapsto> (VSet {[97]}, None)], int_reply 1)"
    by (simp add: spec_smove_def)
  moreover have "spec_srem [106] [[97]] [[107] \<mapsto> (VSet ?A, None), [106] \<mapsto> (VSet {[97]}, None)] = ([[107] \<mapsto> (VSet ?A, None)], int_reply 1)"
    by (simp add: spec_srem_def fun_eq_iff)
  moreover have "on_sets (spec_exists [[106], [107]]) [[107] \<mapsto> (VSet ?A, None)] = ([[107] \<mapsto> (VSet ?A, None)], int_reply 1)"
    by (simp add: on_sets_def spec_exists_def hide_def fun_eq_iff)
  ultimately show ?thesis by (simp add: sample_session_def session_lookup)
qed

text \<open>C1. A session of string, key, expire and set commands behaves like the same session on a map.  On a master, from every
  well-formed keyspace with sets, for every sequence of calls at times that do not decrease, each of one of the modelled
  commands (\<open>PERSIST\<close> excepted) or of a name that no command of the server has (\<open>QUIT\<close> excepted), whatever the limits for integer
  sets and whatever the objects' and the sets' encodings and conversions meanwhile: no command fails an assertion, the bytes queued for the client are exactly
  the replies of the abstract map from keys to strings, finite sets of strings and other values, at the end the clients see exactly that
  map, and no key holds an empty set.\<close>

theorem sessions_refine_map:
  assumes "sets_ok e0 x" "all_calls_ok (e_seed e0) (e_now e0) (dom (snd x)) calls" "out_ok c" "writes True c"
    "db_size (ks_db (fst x)) + length calls \<le> 2 ^ 30" "small_sets n (sview e0 x)" "n + arguments calls \<le> 2 ^ 29 - 1"
  shows "\<exists>x' c'. run_all x c calls = Some (x', c') \<and> queued c' = queued c @ snd (run_all_spec (sview e0 x) (map all_call calls)) \<and>
    sview (fst (last ((e0, 0, 0, []) # calls))) x' = fst (run_all_spec (sview e0 x) (map all_call calls)) \<and>
    sets_ok (fst (last ((e0, 0, 0, []) # calls))) x' \<and> (\<forall>k y. fst (run_all_spec (sview e0 x) (map all_call calls)) k \<noteq> Some (VSet {}, y))"
proof -
  obtain x' c' where r: "run_all x c calls = Some (x', c')" "queued c' = queued c @ snd (run_all_spec (sview e0 x) (map all_call calls))"
    "sets_ok (fst (last ((e0, 0, 0, []) # calls))) x'" "sview (fst (last ((e0, 0, 0, []) # calls))) x' = fst (run_all_spec (sview e0 x) (map all_call calls))"
    using run_all_refines[OF assms] by blast
  moreover have "fst (run_all_spec (sview e0 x) (map all_call calls)) k \<noteq> Some (VSet {}, y)" for k y using no_empty_set[OF r(3)] unfolding r(4) .
  ultimately show ?thesis by blast
qed

theorem sessions_refine_map_witness:
  "\<exists>x' c'. run_all (no_keys, Map.empty) fresh_client session_calls = Some (x', c') \<and>
     queued c' = int_reply 2 @ int_reply 1 @ wrongtype @ int_reply 1 @ int_reply 1 @ int_reply 1 \<and>
     sview (sample_env 6) x' = [[107] \<mapsto> (VSet {[50], [51]}, None)]"
proof -
  let ?x = "(no_keys, Map.empty) :: keyspace \<times> sets" and ?e0 = "sample_env 0"
  have v: "sview ?e0 ?x = Map.empty" by (simp add: sview_def absv_def no_keys_ok fun_eq_iff)
  have ok: "sets_ok ?e0 ?x" by (simp add: sets_ok_def heap_ok_def no_keys_ok)
  have l: "session_calls = [(sample_env 1, 512, 0, map str_obj [bytes_of_string ''SADD'', [107], [50], [51]]), (sample_env 2, 512, 1, map str_obj [bytes_of_string ''sadd'', [107], [97], [50]]),
     (sample_env 3, 512, 2, map str_obj [bytes_of_string ''Get'', [107]]), (sample_env 4, 512, 3, map str_obj [bytes_of_string ''smove'', [107], [106], [97]]),
     (sample_env 5, 512, 4, map str_obj [bytes_of_string ''srem'', [106], [97]]), (sample_env 6, 512, 5, map str_obj [bytes_of_string ''Exists'', [106], [107]])]"
    by (simp add: session_calls_def sample_session_def upt_rec)
  have calls: "all_calls_ok (e_seed ?e0) (e_now ?e0) (dom (snd ?x)) session_calls"
    unfolding l by (simp add: session_names comp_def) (simp add: bytes_of_string_def)
  have a: "map all_call session_calls = sample_session" by (simp add: l all_call_def sample_session_def comp_def)
  have "db_size (ks_db (fst ?x)) + length session_calls \<le> 2 ^ 30" "0 + arguments session_calls \<le> 2 ^ 29 - 1" "small_sets 0 (sview ?e0 ?x)"
    by (simp_all add: no_keys_ok l arguments_def v small_sets_def)
  from sessions_refine_map[OF ok calls fresh_client_ok(1,2) this(1,3,2)] show ?thesis unfolding a v session_replies by (auto simp: l)
qed

end
