(* ===== verification/Redis_Replay.thy ===== *)
theory Redis_Replay
  imports Redis_Aof Redis_Commands
begin

text \<open>
  The commands logged by \<open>aof.c\<close>, run again: what \<open>feedAppendOnlyFile\<close> appends for a call with an expire time, against
  the meaning of the commands in \<open>Redis_Commands\<close>.

  The logged commands are run again at a later time on the map on which the call ran.  For the five commands that the
  log translates to an absolute time the result is the result of the call.  \<open>SET\<close> with the options \<open>EX\<close> or \<open>PX\<close> is
  logged as it was sent, and gives the key a later expire time.
\<close>

section \<open>The code\<close>

text \<open>The procedure of a command, as far as \<open>feedAppendOnlyFile\<close> tells them apart.\<close>

definition cmd_proc_of :: "bytes \<Rightarrow> cmd_proc" where
  "cmd_proc_of name =
     (let n = map tolower name in
      if n = bytes_of_string ''expire'' then expireProc
      else if n = bytes_of_string ''pexpire'' then pexpireProc
      else if n = bytes_of_string ''expireat'' then expireatProc
      else if n = bytes_of_string ''setex'' then setexProc
      else if n = bytes_of_string ''psetex'' then psetexProc
      else otherProc)"

section \<open>Running commands again\<close>

text \<open>Commands run at one time.\<close>

definition replay :: "64 word \<Rightarrow> bytes list list \<Rightarrow> aview \<Rightarrow> aview" where
  "replay now cmds m = foldl (\<lambda>m a. fst (spec_command now a m)) m cmds"

lemma replay_simps [simp]: "replay now [] m = m" "replay now (a # as) m = replay now as (fst (spec_command now a m))"
  by (simp_all add: replay_def)

lemma lower_names:
  "map tolower (bytes_of_string ''PEXPIREAT'') = bytes_of_string ''pexpireat''" "map tolower (bytes_of_string ''SET'') = bytes_of_string ''set''"
  by (simp_all add: bytes_of_string_def tolower_def)

text \<open>The commands involved, by their names.\<close>

lemma spec_named:
  "map tolower n = bytes_of_string ''pexpireat'' \<Longrightarrow> spec_command now [n, k, t] = spec_expire now 0 UNIT_MILLISECONDS k t"
  "map tolower n = bytes_of_string ''expire'' \<Longrightarrow> spec_command now [n, k, t] = spec_expire now now UNIT_SECONDS k t"
  "map tolower n = bytes_of_string ''pexpire'' \<Longrightarrow> spec_command now [n, k, t] = spec_expire now now UNIT_MILLISECONDS k t"
  "map tolower n = bytes_of_string ''expireat'' \<Longrightarrow> spec_command now [n, k, t] = spec_expire now 0 UNIT_SECONDS k t"
  "map tolower n = bytes_of_string ''setex'' \<Longrightarrow>
     spec_command now [n, k, t, v] = spec_set now ''setex'' False False k v (Some t) UNIT_SECONDS ok_text null_bulk"
  "map tolower n = bytes_of_string ''psetex'' \<Longrightarrow>
     spec_command now [n, k, t, v] = spec_set now ''psetex'' False False k v (Some t) UNIT_MILLISECONDS ok_text null_bulk"
  "map tolower n = bytes_of_string ''set'' \<Longrightarrow> spec_command now (n # k # v # opts) = spec_setcmd now k v opts"
  by (simp_all add: fun_eq_iff spec_command_def spec_table_def numeral_2_eq_2 numeral_3_eq_3)

lemma replay_pexpireat:
  assumes "sint now < sint w"
  shows "fst (spec_command now [bytes_of_string ''PEXPIREAT'', k, int_repr (sint w)] m) =
    (case m k of None \<Rightarrow> m | Some (c, _) \<Rightarrow> m(k \<mapsto> (c, Some w)))"
  using assms by (auto simp: spec_named(1)[OF lower_names(1)] spec_expire_def text_ll_int_repr Let_def split: option.splits)

lemma replay_set: "fst (spec_command now [bytes_of_string ''SET'', k, v] m) = m(k \<mapsto> (AStr v, None))"
  by (simp add: spec_named(7)[OF lower_names(2)] spec_setcmd_def spec_set_def entry_def past_def)

text \<open>A call of one of the five commands, with the value \<open>x\<close> of its time.\<close>

definition timed_call :: "64 word \<Rightarrow> bytes list \<Rightarrow> bool" where
  "timed_call x a \<longleftrightarrow> (case cmd_proc_of (hd a) of
       otherProc \<Rightarrow> False
     | setexProc \<Rightarrow> length a = 4 \<and> 0 < sint x
     | psetexProc \<Rightarrow> length a = 4 \<and> 0 < sint x
     | _ \<Rightarrow> length a = 3) \<and> a ! 2 = int_repr (sint x)"

lemma replay_timed:
  assumes "timed_call x a" "sint now \<le> sint now'" "sint now' < sint (expire_when (cmd_proc_of (hd a)) now x)"
  shows "replay now' (aof_commands (cmd_proc_of (hd a)) now x a) m = fst (spec_command now a m)"
proof -
  define w where "w = expire_when (cmd_proc_of (hd a)) now x"
  have w: "sint now' < sint w" "sint now < sint w" using assms(2,3) by (simp_all add: w_def)
  then have alive: "entry now v (Some w) = Some (AStr v, Some w)" for v by (simp add: entry_def past_def)
  let ?n = "map tolower (hd a)"
  show ?thesis
  proof (cases "length a = 3")
    case True
    then obtain n k t where a: "a = [n, k, t]" by (auto simp: length_Suc_conv numeral_3_eq_3)
    have t: "t = int_repr (sint x)" using assms(1) by (simp add: timed_call_def a)
    have c: "aof_commands (cmd_proc_of n) now x a = [[bytes_of_string ''PEXPIREAT'', k, int_repr (sint w)]]"
      using assms(1) by (auto simp: timed_call_def aof_commands_def a w_def split: cmd_proc.splits)
    consider "map tolower n = bytes_of_string ''expire''" | "map tolower n = bytes_of_string ''pexpire''" | "map tolower n = bytes_of_string ''expireat''"
      using assms(1) by (auto simp: timed_call_def a cmd_proc_of_def Let_def split: if_splits)
    then have "fst (spec_command now a m) = (case m k of None \<Rightarrow> m | Some (c, _) \<Rightarrow> m(k \<mapsto> (c, Some w)))"
    proof cases
      case 1
      then have e: "w = x * 1000 + now" by (simp add: w_def a cmd_proc_of_def expire_when_def)
      show ?thesis using w(2) unfolding e by (auto simp: a spec_named(2)[OF 1] t spec_expire_def text_ll_int_repr Let_def split: option.splits)
    next
      case 2
      then have e: "w = x + now" by (simp add: w_def a cmd_proc_of_def expire_when_def)
      show ?thesis using w(2) unfolding e by (auto simp: a spec_named(3)[OF 2] t spec_expire_def text_ll_int_repr Let_def split: option.splits)
    next
      case 3
      then have e: "w = x * 1000" by (simp add: w_def a cmd_proc_of_def expire_when_def)
      show ?thesis using w(2) unfolding e by (auto simp: a spec_named(4)[OF 3] t spec_expire_def text_ll_int_repr Let_def split: option.splits)
    qed
    then show ?thesis using replay_pexpireat[OF w(1)] c by (simp add: a)
  next
    case False
    then have "length a = 4" "0 < sint x" "a ! 2 = int_repr (sint x)" using assms(1) by (auto simp: timed_call_def split: cmd_proc.splits)
    then obtain n k v where a: "a = [n, k, int_repr (sint x), v]" by (auto simp: length_Suc_conv eval_nat_numeral)
    have c: "aof_commands (cmd_proc_of n) now x a = [[bytes_of_string ''SET'', k, v], [bytes_of_string ''PEXPIREAT'', k, int_repr (sint w)]]"
      using assms(1) by (auto simp: timed_call_def aof_commands_def a w_def split: cmd_proc.splits)
    consider "map tolower n = bytes_of_string ''setex''" | "map tolower n = bytes_of_string ''psetex''"
      using assms(1) by (auto simp: timed_call_def a cmd_proc_of_def Let_def split: if_splits)
    then have "fst (spec_command now a m) = m(k \<mapsto> (AStr v, Some w))"
    proof cases
      case 1
      then have e: "now + x * 1000 = w" by (simp add: w_def a cmd_proc_of_def expire_when_def)
      show ?thesis using \<open>0 < sint x\<close> by (simp add: a spec_named(5)[OF 1] spec_set_def text_ll_int_repr e alive)
    next
      case 2
      then have e: "now + x = w" by (simp add: w_def a cmd_proc_of_def expire_when_def)
      show ?thesis using \<open>0 < sint x\<close> by (simp add: a spec_named(6)[OF 2] spec_set_def text_ll_int_repr e alive)
    qed
    then show ?thesis using c replay_set replay_pexpireat[OF w(1)] by (simp add: a)
  qed
qed

text \<open>\<open>SET\<close> with a relative time in milliseconds or seconds.\<close>

definition set_time :: "bytes \<Rightarrow> 64 word \<Rightarrow> 64 word" where
  "set_time opt x = (if opt_is opt 101 69 then x * 1000 else x)"

lemma set_with_time:
  assumes "map tolower n = bytes_of_string ''set''" "opt_is opt 101 69 \<or> opt_is opt 112 80" "0 < sint x" "sint now \<le> sint (now + set_time opt x)"
  shows "fst (spec_command now [n, k, v, opt, int_repr (sint x)] m) = m(k \<mapsto> (AStr v, Some (now + set_time opt x)))"
proof -
  have o: "\<not> opt_is opt 110 78" "\<not> opt_is opt 120 88" using assms(2) by (auto simp: opt_is_def)
  have p: "opt_is opt 112 80 \<Longrightarrow> \<not> opt_is opt 101 69" by (auto simp: opt_is_def)
  have e: "entry now v (Some (now + set_time opt x)) = Some (AStr v, Some (now + set_time opt x))" using assms(4) by (simp add: entry_def past_def)
  show ?thesis using assms(2,3) o p e
    by (cases "opt_is opt 101 69") (simp_all add: spec_named(7)[OF assms(1)] spec_setcmd_def spec_set_def text_ll_int_repr set_time_def)
qed

section \<open>Properties\<close>

text \<open>C20. What is logged for a call, and what it does when it is run again.  From every well-formed state and for every
  well-formed call, \<open>feedAppendOnlyFile\<close> returns and appends to the log buffer, when the log is on, and to the rewrite
  buffer, when a child is rewriting the log, exactly the same bytes: a SELECT request if and only if the database
  differs from the one selected last, then for EXPIRE, PEXPIRE and EXPIREAT a PEXPIREAT request with the absolute time in
  milliseconds, for SETEX and PSETEX a SET request and such a PEXPIREAT request, and every other command as it is.  For
  the five commands that are translated, running the logged commands at any later time before the key expires gives
  the map of keys that the call gives at the time \<open>now\<close> of logging.  (The log reads the clock again after the call, so the times
  that it stores are later than those of the call by what passes in between.)\<close>

theorem feedAppendOnlyFile_logs:
  fixes server dictid proc now x argv
  defines "a \<equiv> map obj_text argv"
  defines "t \<equiv> aof_text (aof_selected_db server) dictid (aof_commands proc now x a)"
  assumes "aof_ok server" "well_formed_call proc x argv" "length (sds_text (aof_buf server)) + length t < 2 ^ 32 - 2 ^ 20"
  shows "(\<exists>sv. feedAppendOnlyFile junk clk now server proc dictid argv = Some sv \<and> aof_ok sv \<and>
      aof_selected_db sv = dictid \<and> aof_on sv = aof_on server \<and> aof_child sv = aof_child server \<and>
      sds_text (aof_buf sv) = sds_text (aof_buf server) @ (if aof_on server then t else []) \<and>
      stored (aof_blocks sv) = stored (aof_blocks server) @ (if aof_child server then t else [])) \<and>
    (timed_call x a \<longrightarrow> proc = cmd_proc_of (hd a) \<longrightarrow> sint now \<le> sint now' \<longrightarrow> sint now' < sint (expire_when proc now x) \<longrightarrow>
      replay now' (aof_commands proc now x a) m = fst (spec_command now a m))"
  using feed_ok[OF assms(3,4), of dictid now junk clk] assms(5) replay_timed[of x a now now' m] unfolding t_def a_def by blast

theorem feedAppendOnlyFile_logs_witness:
  "(\<exists>sv. feedAppendOnlyFile (\<lambda>_. 0) 0 500
      \<lparr>aof_selected_db = 3, aof_on = True, aof_child = False, aof_buf = \<lparr>s_len = 0, s_free = 0, s_buf = [0]\<rparr>, aof_blocks = [],
        shared_integers = createSharedIntegers 0\<rparr>
      expireProc 3 (map str_obj [bytes_of_string ''EXPIRE'', [107], [55]]) = Some sv \<and>
    sds_text (aof_buf sv) = request [bytes_of_string ''PEXPIREAT'', [107], [55, 53, 48, 48]]) \<and>
   replay 1000 [[bytes_of_string ''PEXPIREAT'', [107], [55, 53, 48, 48]]] [[107] \<mapsto> (AStr [118], None)] =
     fst (spec_command 500 [bytes_of_string ''EXPIRE'', [107], [55]] [[107] \<mapsto> (AStr [118], None)])"
proof -
  let ?sv = "\<lparr>aof_selected_db = 3, aof_on = True, aof_child = False, aof_buf = \<lparr>s_len = 0, s_free = 0, s_buf = [0]\<rparr>, aof_blocks = [],
        shared_integers = createSharedIntegers 0\<rparr>"
  let ?a = "[bytes_of_string ''EXPIRE'', [107], [55]] :: bytes list"
  let ?argv = "map str_obj ?a" and ?m = "[[107] \<mapsto> (AStr [118], None)] :: aview"
  have t: "map obj_text ?argv = ?a" by simp
  have c: "aof_commands expireProc 500 7 ?a = [[bytes_of_string ''PEXPIREAT'', [107], [55, 53, 48, 48]]]"
    by (simp add: aof_commands_def expire_when_def int_repr_def dec_repr.simps)
  have s: "aof_text 3 3 [[bytes_of_string ''PEXPIREAT'', [107], [55, 53, 48, 48]]] = request [bytes_of_string ''PEXPIREAT'', [107], [55, 53, 48, 48]]"
    by (simp add: aof_text_def)
  have l: "length (request [bytes_of_string ''PEXPIREAT'', [107], [55, 53, 48, 48]]) = 36"
    by (simp add: request_def bulk_def bulk_header_def bytes_of_string_def int_repr_def dec_repr.simps)
  have ok: "aof_ok ?sv" by (simp add: aof_ok_def sds_ok_def shared_integers_ok)
  have wf: "well_formed_call expireProc 7 ?argv" by (simp add: well_formed_call_def int_repr_def dec_repr.simps bytes_of_string_def)
  have p: "cmd_proc_of (bytes_of_string ''EXPIRE'') = expireProc" by (simp add: cmd_proc_of_def bytes_of_string_def tolower_def)
  have tc: "timed_call 7 ?a" by (simp add: timed_call_def p int_repr_def dec_repr.simps)
  have w: "expire_when expireProc 500 7 = 7500" by (simp add: expire_when_def)
  show ?thesis
    using feedAppendOnlyFile_logs[OF ok wf, of 3 500 "\<lambda>_. 0" 0 1000 ?m] tc p w unfolding t c
    by (auto simp: s l sds_text_def)
qed

text \<open>C37. \<open>SET\<close> with \<open>EX\<close> or \<open>PX\<close> is logged with its relative time.  The request appended to the log is the call as it was
  sent, and whenever it is run again the key gets an expire time counted from that moment: it lives longer than the
  call made it, by the time that passed in between.\<close>

theorem set_time_logged_relative:
  fixes server dictid now now' x argv
  defines "t \<equiv> aof_text (aof_selected_db server) dictid [map obj_text argv]"
  assumes "aof_ok server" "aof_on server" "list_all obj_ok argv" "map obj_text argv = [n, k, v, opt, int_repr (sint x)]" "map tolower n = bytes_of_string ''set''"
    "opt_is opt 101 69 \<or> opt_is opt 112 80" "length (sds_text (aof_buf server)) + length t < 2 ^ 32 - 2 ^ 20"
    "0 < sint x" "sint now \<le> sint (now + set_time opt x)" "sint now' \<le> sint (now' + set_time opt x)"
  shows "(\<exists>sv. feedAppendOnlyFile junk clk now server (cmd_proc_of n) dictid argv = Some sv \<and> sds_text (aof_buf sv) = sds_text (aof_buf server) @ t) \<and>
    fst (spec_command now (map obj_text argv) m) = m(k \<mapsto> (AStr v, Some (now + set_time opt x))) \<and>
    replay now' [map obj_text argv] m = m(k \<mapsto> (AStr v, Some (now' + set_time opt x)))"
proof -
  have p: "cmd_proc_of n = otherProc" by (simp add: cmd_proc_of_def assms(6))
  have "length argv = length (map obj_text argv)" by simp
  then have "length argv = 5" unfolding assms(5) by simp
  then have wf: "well_formed_call otherProc x argv" using assms(4) by (simp add: well_formed_call_def)
  have c: "aof_commands otherProc now x (map obj_text argv) = [map obj_text argv]" by (simp add: aof_commands_def)
  have "\<exists>sv. feedAppendOnlyFile junk clk now server otherProc dictid argv = Some sv \<and> sds_text (aof_buf sv) = sds_text (aof_buf server) @ t"
    using feed_ok[OF assms(2) wf, of dictid now junk clk] assms(3,8) unfolding c t_def by auto
  then show ?thesis unfolding p using set_with_time[OF assms(6,7,9)] assms(10,11) by (simp add: assms(5))
qed

text \<open>A second of life, set at the time 0, becomes a second from the time 5000.\<close>

theorem set_time_logged_relative_witness:
  "fst (spec_command 0 [bytes_of_string ''SET'', [107], [118], [69, 88], [49]] Map.empty) = [[107] \<mapsto> (AStr [118], Some 1000)] \<and>
   replay 5000 [[bytes_of_string ''SET'', [107], [118], [69, 88], [49]]] Map.empty = [[107] \<mapsto> (AStr [118], Some 6000)] \<and>
   (\<exists>sv. feedAppendOnlyFile (\<lambda>_. 0) 0 0
      \<lparr>aof_selected_db = 0, aof_on = True, aof_child = False, aof_buf = \<lparr>s_len = 0, s_free = 0, s_buf = [0]\<rparr>, aof_blocks = [],
        shared_integers = createSharedIntegers 0\<rparr>
      otherProc 0 (map str_obj [bytes_of_string ''SET'', [107], [118], [69, 88], [49]]) = Some sv \<and>
    sds_text (aof_buf sv) = request [bytes_of_string ''SET'', [107], [118], [69, 88], [49]])"
proof -
  let ?sv = "\<lparr>aof_selected_db = 0, aof_on = True, aof_child = False, aof_buf = \<lparr>s_len = 0, s_free = 0, s_buf = [0]\<rparr>, aof_blocks = [],
        shared_integers = createSharedIntegers 0\<rparr>"
  let ?a = "[bytes_of_string ''SET'', [107], [118], [69, 88], [49]] :: bytes list"
  let ?argv = "map str_obj ?a"
  have t: "map obj_text ?argv = ?a" by simp
  have x: "[49] = int_repr (sint (1 :: 64 word))" by (simp add: int_repr_def dec_repr.simps)
  have a: "map obj_text ?argv = [bytes_of_string ''SET'', [107], [118], [69, 88], int_repr (sint (1 :: 64 word))]" unfolding x[symmetric] by simp
  have ok: "aof_ok ?sv" by (simp add: aof_ok_def sds_ok_def shared_integers_ok)
  have o: "opt_is [69, 88] 101 69" "set_time [69, 88] 1 = 1000" by (simp_all add: opt_is_def chr_def set_time_def)
  have al: "list_all obj_ok ?argv" by (simp add: bytes_of_string_def)
  have l: "aof_text 0 0 [?a] = request ?a" "length (request ?a) = 42"
    by (simp_all add: aof_text_def) (simp add: request_def bulk_def bulk_header_def bytes_of_string_def int_repr_def dec_repr.simps)
  have p: "cmd_proc_of (bytes_of_string ''SET'') = otherProc" by (simp add: cmd_proc_of_def lower_names)
  show ?thesis
    using set_time_logged_relative[OF ok _ al a lower_names(2) disjI1[OF o(1)], of 0 0 5000 "\<lambda>_. 0" 0 Map.empty] unfolding t p o(2)
    by (simp add: l sds_text_def)
qed

end
