(* ===== verification/Spec2Isabelle.thy ===== *)
theory Spec2Isabelle
  imports Redis_Util Redis_Intset Redis_Dict Redis_DictScan Redis_Checksum Redis_Lzf Redis_Sds Redis_Rio Redis_Object Redis_Rdb
    Redis_Reply Redis_Protocol Redis_Aof Redis_AofLoad Redis_Db Redis_String Redis_Commands Redis_Multi Redis_Server Redis_Replication
    Redis_Glob Redis_Pubsub Redis_Notify Redis_Set Redis_SetCommands Redis_Session Redis_Replay
begin

text \<open>
  Verification of the Redis server, version 3.0, under \<open>src/sampleapps/redis-stable/src\<close>.

  \<^bold>\<open>The program.\<close>  Redis keeps a keyspace of reference-counted objects in memory.  Clients send requests over a
  socket; the input side of \<open>networking.c\<close> cuts the byte stream into argument vectors and hands each to the command
  dispatcher, and the output side queues the replies and writes them as the socket allows.  Keys, sets and hashes
  are held by the hash tables of \<open>dict.c\<close>, small integer sets by \<open>intset.c\<close>, all text by the strings of \<open>sds.c\<close>.
  For persistence, \<open>rdb.c\<close> dumps objects through the streams of \<open>rio.c\<close>, with the compression of \<open>lzf_c.c\<close> and
  \<open>lzf_d.c\<close> and the checksum of \<open>crc64.c\<close>; \<open>aof.c\<close> logs every write command in the request format and replays the
  log at startup.  \<open>cluster.c\<close> maps keys to slots with the checksum of \<open>crc16.c\<close>.

  \<^bold>\<open>Theories.\<close>  Each theory has the code first (definitions under the names of the source, in its order), then
  what the proofs need, then a section Properties.

  \<^item> \<open>Redis_Prelude\<close>: bytes, memory primitives (\<open>mem_read\<close>, \<open>mem_write\<close>, \<open>mem_move\<close>, \<open>load\<close>, \<open>store\<close>; \<open>None\<close> is an access
    out of bounds), little-endian cells, lemmas on machine words.
  \<^item> \<open>Redis_Interfaces\<close>: locale \<open>set_impl\<close>, a bounded mutable set, and locale \<open>map_impl\<close>, a finite map, with
    the lemmas on sequences of operations proved once.  The first is interpreted by the integer set and by the set type, which
    uses the interpretation of the former; the second by the hash table.
  \<^item> \<open>Redis_Util\<close> (\<open>util.c\<close>): \<open>digits10\<close>, \<open>ll2string\<close>, \<open>string2ll\<close>, \<open>string2l\<close> on 64-bit words.  Exactly which
    texts are numbers, what is written and where, and the round trip.
  \<^item> \<open>Redis_Glob\<close> (\<open>stringmatchlen\<close> of \<open>util.c\<close>): glob patterns decide their declarative meaning, in bounds; the
    patterns on which they do not.
  \<^item> \<open>Redis_Intset\<close> (\<open>intset.c\<close>): the record \<open>intset\<close> with its byte array; search, upgrade, insertion, removal.
    Refinement of a finite set of integers, memory safety and termination of the binary search.
  \<^item> \<open>Redis_Dict\<close>, \<open>Redis_DictScan\<close> (\<open>dict.c\<close>): two tables of chains, a rehash index and an iterator count; hash
    functions, expansion, incremental rehashing, insertion, replacement, deletion, lookup, scanning.
    Refinement of a finite map at every stage of a rehash, with the hash function and the key comparison as
    arguments; completeness and termination of \<open>dictScan\<close>, and the case in which it misses a key.
  \<^item> \<open>Redis_Checksum\<close> (\<open>crc16.c\<close>, \<open>crc64.c\<close>, \<open>keyHashSlot\<close>): the tables equal bitwise polynomial division; burst
    detection; hash tags.
  \<^item> \<open>Redis_Lzf\<close> (\<open>lzf_c.c\<close>, \<open>lzf_d.c\<close>): round trip for arbitrary contents of the uninitialised hash table, and
    memory safety of decompression on every non-empty input.
  \<^item> \<open>Redis_Sds\<close> (\<open>sds.c\<close>): the header invariant, growth, slicing, quoting and splitting.
  \<^item> \<open>Redis_Rio\<close> (\<open>rio.c\<close>): the chunked transfer loops over any backend, and the memory backend.
  \<^item> \<open>Redis_Object\<close> (\<open>object.c\<close>): string objects in their three encodings, shared integers, reference counts.
  \<^item> \<open>Redis_Rdb\<close> (\<open>rdb.c\<close>): lengths, integers, compressed and plain strings; round trips, truncated input, and a
    malformed input that makes the loader read out of bounds.
  \<^item> \<open>Redis_Reply\<close> (\<open>networking.c\<close>, output): the reply buffer and reply list as a byte stream (locale \<open>byte_sink\<close>,
    interpreted by the output queue here and by the rewrite buffer of the log), protocol items, partial writes.
  \<^item> \<open>Redis_Protocol\<close> (\<open>networking.c\<close>, input): the inline and multi bulk parsers and the input loop; independence of
    segmentation; pipelining over any dispatcher that keeps a contract (locale \<open>dispatcher\<close>, interpreted by the served
    client of \<open>Redis_Server\<close>).
  \<^item> \<open>Redis_Aof\<close>, \<open>Redis_AofLoad\<close> (\<open>aof.c\<close>): what is logged, the rewrite buffer, loading the log and its crash
    consistency.
  \<^item> \<open>Redis_Db\<close> (\<open>db.c\<close>): the two dictionaries of a database, lookups with lazy expiry, updates, and the commands on keys
    of any type.  \<open>view\<close> is what clients see: contents and expire times of the keys whose time has not passed.  The
    predicate \<open>implements\<close> relates a command to an operation on that map: the reply, the new map, the invariant, the keys
    it reports as modified.
  \<^item> \<open>Redis_String\<close> (\<open>t_string.c\<close>): the string commands, each shown to implement its operation on the map.
  \<^item> \<open>Redis_Commands\<close> (\<open>redis.c\<close>): the command table, lookup and arity check; a sequence of commands refines the same
    sequence on the map.  A lookup has three outcomes: a row of the modelled table, no command of the server
    (\<open>command_names\<close> lists all 163 of its names), or outside the model, for the name of a command that is not modelled; the
    last is \<open>None\<close>, and the theorems on dispatching assume it does not occur (\<open>covered\<close>).
  \<^item> \<open>Redis_Replay\<close>: the commands the log translates, executed again by the modelled commands at any later time, give the
    same map; a \<open>SET\<close> with a time is logged as it is and does not.
  \<^item> \<open>Redis_Set\<close>, \<open>Redis_SetCommands\<close> (\<open>t_set.c\<close>): sets as integer sets or hash tables of objects, the conversion between them,
    and the set commands on a keyspace whose set objects point into a store of representations.  Each command is shown to implement its
    operation on a map from keys to finite sets of texts.
  \<^item> \<open>Redis_Session\<close>: sequences that mix the commands of \<open>Redis_Commands\<close> with those on sets; the former treat sets as opaque.
  \<^item> \<open>Redis_Multi\<close> (\<open>multi.c\<close>, \<open>processCommand\<close>, \<open>call\<close> and \<open>propagate\<close> of \<open>redis.c\<close>): transactions of several clients, as
    an inductive relation over interleaved commands; the invariant of the watch tables, optimistic locking, atomicity.  Each
    queued command reads its own clock.  Before a command keys may be evicted, \<open>freeMemoryIfNeeded\<close>; which ones is an
    argument.  A watched key that is evicted does not abort the transaction, which is a theorem.
  \<^item> \<open>Redis_Server\<close>: the request parser, the dispatcher, the commands and the reply buffers composed: bytes in, bytes out.
  \<^item> \<open>Redis_Replication\<close> (\<open>replication.c\<close>, master): the backlog as a circular buffer over the stream of propagated
    commands, the slaves' output, partial resynchronisation.
  \<^item> \<open>Redis_Pubsub\<close> (\<open>pubsub.c\<close>), \<open>Redis_Notify\<close> (\<open>notify.c\<close>): the tables of channels and patterns of the server and of
    the clients, which mirror each other; what a message and an event of the keyspace deliver after any history.
  \<^item> This theory: logging followed by loading, across \<open>aof.c\<close>, \<open>object.c\<close>, \<open>sds.c\<close> and the request format.

  \<^bold>\<open>Conventions.\<close>  Operations thread their state explicitly and return \<open>option\<close>: \<open>None\<close> is an access out of bounds, a
  failed assertion or a loop that does not end, so \<open>Some\<close> in a conclusion includes memory safety and termination.
  Error returns of the source are values.  Machine integers are words, or numbers with the reduction modulo the width
  written out where the source relies on it.  The contents of uninitialised memory are the argument \<open>junk\<close>, the LRU clock
  \<open>clk\<close>; system calls (return values of \<open>write\<close>, time, random numbers) are arguments.  One command of the keyspace reads
  one clock, where the source asks for the time at each lookup of the command.  Allocation always succeeds.
  Sizes are for a 64-bit little-endian machine.  No definition has fuel: loops are \<open>fun\<close> or \<open>function\<close> with a
  measure, or \<open>partial_function (option)\<close> with a proof that they return.  Length bounds in hypotheses, such as
  \<open>2 ^ 32 - 2 ^ 20\<close> bytes for a string, keep the 32-bit length of \<open>sdshdr\<close> from overflowing when it is grown with
  preallocation.

  \<^bold>\<open>Not modelled.\<close>  Sockets, files, threads, processes and the event loop (system calls); floating point
  conversions and everything formatted by \<open>printf\<close> beyond plain texts, and with them sorted sets and \<open>INCRBYFLOAT\<close>; the commands on lists
  and hashes with the ziplists they rest on, the set commands with random members or several sets, \<open>MSET\<close>, commands across databases,
  active expiry and the sampling by which eviction picks its keys; of replication the full synchronisation, the slave's side and the heartbeats (files, processes and
  sockets); the cluster bus, Sentinel, scripting, and the command line tools; the bundled third-party libraries.  In the dispatcher:
  cluster redirection, statistics, monitors and blocked clients.  The log loader takes the command table as an argument; the served client of
  \<open>Redis_Server\<close> and the transactions have the commands of \<open>Redis_Commands\<close>, not those on sets.
\<close>

section \<open>Logging and replaying\<close>

text \<open>A call as the log sees it: the command, the database, the clock, the value of the time argument and the
  arguments.\<close>

type_synonym logged_call = "cmd_proc \<times> int \<times> 64 word \<times> 64 word \<times> robj list"

fun feed_all :: "(nat \<Rightarrow> byte) \<Rightarrow> nat \<Rightarrow> aof_server \<Rightarrow> logged_call list \<Rightarrow> aof_server option" where
  "feed_all junk clk server [] = Some server"
| "feed_all junk clk server ((proc, dictid, now, x, argv) # calls) = do {
     server \<leftarrow> feedAppendOnlyFile junk clk now server proc dictid argv;
     feed_all junk clk server calls
   }"

fun logged_commands :: "int \<Rightarrow> logged_call list \<Rightarrow> bytes list list" where
  "logged_commands selected [] = []"
| "logged_commands selected ((proc, dictid, now, x, argv) # calls) =
     (if dictid \<noteq> selected then [[bytes_of_string ''SELECT'', int_repr dictid]] else []) @
     aof_commands proc now x (map obj_text argv) @ logged_commands dictid calls"

fun well_formed_calls :: "logged_call list \<Rightarrow> bool" where
  "well_formed_calls [] \<longleftrightarrow> True"
| "well_formed_calls ((proc, dictid, now, x, argv) # calls) \<longleftrightarrow> well_formed_call proc x argv \<and> well_formed_calls calls"

lemma feed_all_text:
  assumes "aof_ok server" "aof_on server" "well_formed_calls calls"
    "length (sds_text (aof_buf server)) + length (concat (map request (logged_commands (aof_selected_db server) calls))) < 2 ^ 32 - 2 ^ 20"
  shows "\<exists>sv. feed_all junk clk server calls = Some sv \<and> aof_ok sv \<and>
    sds_text (aof_buf sv) = sds_text (aof_buf server) @ concat (map request (logged_commands (aof_selected_db server) calls))"
  using assms
proof (induction junk clk server calls rule: feed_all.induct)
  case (2 junk clk server proc dictid now x argv calls)
  let ?t = "aof_text (aof_selected_db server) dictid (aof_commands proc now x (map obj_text argv))"
  let ?log = "concat (map request (logged_commands dictid calls))"
  have t: "concat (map request (logged_commands (aof_selected_db server) ((proc, dictid, now, x, argv) # calls))) = ?t @ ?log"
    by (simp add: aof_text_def)
  have len: "length (sds_text (aof_buf server)) + length ?t + length ?log < 2 ^ 32 - 2 ^ 20"
    using "2.prems"(4) unfolding t length_append by linarith
  obtain sv where sv: "feedAppendOnlyFile junk clk now server proc dictid argv = Some sv" "aof_ok sv" "aof_selected_db sv = dictid"
    "sds_text (aof_buf sv) = sds_text (aof_buf server) @ ?t" "aof_on sv = aof_on server"
    using feed_ok[OF "2.prems"(1), of proc x argv dictid now junk clk] len "2.prems"(2,3) by auto
  show ?case unfolding t using "2.IH"[OF sv(1) sv(2)] sv len "2.prems"(2,3) by auto
qed simp

text \<open>C5. Logging and replaying compose: whatever sequence of well-formed calls is fed to the log, starting from an
  empty log buffer, loading the log executes exactly the logged commands, in order: for each call a \<open>SELECT\<close> of its
  database where the database changes, then the command as it was called or, for the five commands that set or create
  with a time, its absolute-time equivalent.  The first \<open>SELECT\<close> is left out when the database of the first call is
  the one the log has selected, \<open>aof_selected_db\<close>.  The command table is an argument, \<open>lookup_cmd\<close>, whose commands behave as
  \<open>step\<close>, and the sequence of commands leaves no \<open>MULTI\<close> open.\<close>

theorem log_replay:
  fixes calls :: "logged_call list" and server :: aof_server
  defines "cmds \<equiv> logged_commands (aof_selected_db server) calls"
  assumes "aof_ok server" "aof_on server" "sds_text (aof_buf server) = []" "well_formed_calls calls" "calls \<noteq> []"
    "length (concat (map request cmds)) < 2 ^ 32 - 2 ^ 20" "list_all acceptable cmds" "list_all (executes lookup_cmd step) cmds"
    "\<not> fst (foldl step (False, db) cmds)"
  shows "\<exists>sv. feed_all junk clk server calls = Some sv \<and>
    loadAppendOnlyFile lookup_cmd load_truncated truncate_ok lseek_ok junk clk db (Some (sds_text (aof_buf sv))) =
      Some (LoadOk (snd (foldl step (False, db) cmds)) (sds_text (aof_buf sv)))"
proof -
  obtain sv where sv: "feed_all junk clk server calls = Some sv" "sds_text (aof_buf sv) = concat (map request cmds)"
    using feed_all_text[of server calls junk clk] assms by (auto simp: cmds_def)
  obtain proc dictid now x argv rest where "calls = (proc, dictid, now, x, argv) # rest" using assms(6) by (cases calls) auto
  then have "cmds \<noteq> []" by (cases proc) (auto simp: cmds_def aof_commands_def)
  then have "concat (map request cmds) \<noteq> []" using request_nonempty by (cases cmds) auto
  then show ?thesis
    using load_ok[of cmds lookup_cmd step "[[]]" "[]" "request [[]]" load_truncated truncate_ok lseek_ok junk clk db] assms(8-) sv request_nonempty
    by (auto simp: acceptable_def)
qed

theorem log_replay_witness:
  "\<exists>sv. feed_all (\<lambda>_. 0) 0
      \<lparr>aof_selected_db = 0, aof_on = True, aof_child = False, aof_buf = \<lparr>s_len = 0, s_free = 0, s_buf = [0]\<rparr>, aof_blocks = [],
        shared_integers = createSharedIntegers 0\<rparr>
      [(otherProc, 0, 500, 0, [str_obj [83], str_obj [107], str_obj [118]]), (pexpireProc, 1, 500, 7, [str_obj [80], str_obj [107], str_obj [55]])]
    = Some sv \<and>
    loadAppendOnlyFile record_command False False False (\<lambda>_. 0) 0 [] (Some (sds_text (aof_buf sv))) =
      Some (LoadOk [[[83], [107], [118]], [bytes_of_string ''SELECT'', [49]], [bytes_of_string ''PEXPIREAT'', [107], [53, 48, 55]]]
        (sds_text (aof_buf sv)))"
proof -
  let ?sv = "\<lparr>aof_selected_db = 0, aof_on = True, aof_child = False, aof_buf = \<lparr>s_len = 0, s_free = 0, s_buf = [0]\<rparr>, aof_blocks = [],
        shared_integers = createSharedIntegers 0\<rparr>"
  let ?calls = "[(otherProc, 0, 500, 0, [str_obj [83], str_obj [107], str_obj [118]]),
    (pexpireProc, 1, 500, 7, [str_obj [80], str_obj [107], str_obj [55]])] :: logged_call list"
  let ?cmds = "[[[83], [107], [118]], [bytes_of_string ''SELECT'', [49]], [bytes_of_string ''PEXPIREAT'', [107], [53, 48, 55]]]"
  have c: "logged_commands (aof_selected_db ?sv) ?calls = ?cmds"
    by (simp add: aof_commands_def expire_when_def int_repr_def dec_repr.simps)
  have ok: "aof_ok ?sv" by (simp add: aof_ok_def sds_ok_def shared_integers_ok)
  have wf: "well_formed_calls ?calls" by (simp add: well_formed_call_def int_repr_def dec_repr.simps)
  have "length (concat (map request ?cmds)) < 2 ^ 32 - 2 ^ 20" "list_all acceptable ?cmds"
    by (simp_all add: request_def bulk_def bulk_header_def bytes_of_string_def int_repr_def dec_repr.simps acceptable_def)
  then show ?thesis
    using log_replay[OF ok _ _ wf, of record_command "\<lambda>(m, db) a. (m, db @ [a])" "[]" "\<lambda>_. 0" 0 False False False, unfolded c]
    by (simp add: sds_text_def record_command_executes)
qed

end
